(* ===== verification/Prelude.thy ===== *)
theory Prelude
  imports Main "HOL-Library.Monad_Syntax" "HOL-Library.Word" "HOL-Library.Product_Lexorder"
begin

text \<open>
  Shared vocabulary of the development.

  A C++ routine that may abort (\<open>GGML_ASSERT\<close>, \<open>assert\<close>), throw, read or write outside a
  vector or overflow a signed integer is a function into \<open>option\<close>: \<open>None\<close> is the run that does not
  reach the end of the routine.  \<open>ensure\<close> is the assertion, \<open>foldM\<close> a \<open>for\<close> loop over the listed
  values that threads the state, \<open>wp m Q\<close> total correctness of \<open>m\<close>: it returns, and its result
  satisfies \<open>Q\<close>.  The rules about \<open>wp\<close> are collected in \<open>wp_simps\<close>.
\<close>

named_theorems wp_simps \<open>equations that push wp through the constructs of the option monad\<close>

unbundle bit_operations_syntax

section \<open>Types shared by the components\<close>

type_synonym llama_pos = int
type_synonym llama_seq_id = int
type_synonym llama_token = int

abbreviation LLAMA_MAX_SEQ :: int where
  "LLAMA_MAX_SEQ \<equiv> 256"

abbreviation LLAMA_TOKEN_NULL :: llama_token where
  "LLAMA_TOKEN_NULL \<equiv> -1"

text \<open>The ids a \<open>std::bitset<LLAMA_MAX_SEQ>\<close> has a bit for.\<close>

abbreviation seq_ids_ok :: "llama_seq_id set" where
  "seq_ids_ok \<equiv> {0..<LLAMA_MAX_SEQ}"

section \<open>Assertions, loops and total correctness\<close>

definition ensure :: "bool \<Rightarrow> unit option" where
  "ensure b = (if b then Some () else None)"

fun foldM :: "('a \<Rightarrow> 's \<Rightarrow> 's option) \<Rightarrow> 'a list \<Rightarrow> 's \<Rightarrow> 's option" where
  "foldM f [] s = Some s"
| "foldM f (x # xs) s = do { t \<leftarrow> f x s; foldM f xs t }"

fun mapM :: "('a \<Rightarrow> 'b option) \<Rightarrow> 'a list \<Rightarrow> 'b list option" where
  "mapM f [] = Some []"
| "mapM f (x # xs) = do { y \<leftarrow> f x; ys \<leftarrow> mapM f xs; Some (y # ys) }"

lemma mapM_map: "(\<And>x. x \<in> set xs \<Longrightarrow> f x = Some (g x)) \<Longrightarrow> mapM f xs = Some (map g xs)"
  by (induction xs) auto

definition wp :: "'a option \<Rightarrow> ('a \<Rightarrow> bool) \<Rightarrow> bool" where
  "wp m Q = (\<exists>x. m = Some x \<and> Q x)"

lemma wp_Some [wp_simps, simp]: "wp (Some x) Q = Q x"
  by (simp add: wp_def)

lemma wp_None [wp_simps, simp]: "\<not> wp None Q"
  by (simp add: wp_def)

lemma wp_bind [wp_simps]: "wp (Option.bind m f) Q = wp m (\<lambda>x. wp (f x) Q)"
  by (cases m) (auto simp: wp_def)

lemma wp_ensure [wp_simps, simp]: "wp (ensure b) Q = (b \<and> Q ())"
  by (simp add: wp_def ensure_def)

lemma wp_if [wp_simps]: "wp (if b then m else n) Q = (if b then wp m Q else wp n Q)"
  by simp

lemma wp_let [wp_simps]: "wp (Let x f) Q = wp (f x) Q"
  by (simp add: Let_def)

lemma wp_mono: "wp m P \<Longrightarrow> (\<And>x. P x \<Longrightarrow> Q x) \<Longrightarrow> wp m Q"
  by (auto simp: wp_def)

lemma wp_conj: "wp m P \<Longrightarrow> wp m Q \<Longrightarrow> wp m (\<lambda>x. P x \<and> Q x)"
  by (auto simp: wp_def)

lemma wpI: "m = Some x \<Longrightarrow> Q x \<Longrightarrow> wp m Q"
  by (simp add: wp_def)

lemma wpE: "wp m Q \<Longrightarrow> (\<And>x. m = Some x \<Longrightarrow> Q x \<Longrightarrow> R) \<Longrightarrow> R"
  by (auto simp: wp_def)

lemma wpD: "wp m Q \<Longrightarrow> m = Some x \<Longrightarrow> Q x"
  by (auto simp: wp_def)

lemma ensure_eq_Some [simp]: "ensure b = Some u \<longleftrightarrow> b"
  by (simp add: ensure_def)

lemma ensure_eq_None [simp]: "ensure b = None \<longleftrightarrow> \<not> b"
  by (simp add: ensure_def)

lemma ensure_True [simp]: "ensure True = Some ()"
  by (simp add: ensure_def)

lemma ensure_False [simp]: "ensure False = None"
  by (simp add: ensure_def)

lemma foldM_append: "foldM f (xs @ ys) s = Option.bind (foldM f xs s) (foldM f ys)"
  by (induction xs arbitrary: s) (auto split: Option.bind_split)

text \<open>The invariant rule of a counted loop.\<close>

lemma wp_for:
  fixes I :: "nat \<Rightarrow> 's \<Rightarrow> bool"
  assumes init: "I 0 s"
    and step: "\<And>k s. k < n \<Longrightarrow> I k s \<Longrightarrow> wp (f k s) (I (Suc k))"
    and fin: "\<And>s. I n s \<Longrightarrow> Q s"
  shows "wp (foldM f [0..<n] s) Q"
proof -
  have "m \<le> n \<Longrightarrow> wp (foldM f [0..<m] s) (I m)" for m
  proof (induction m)
    case 0
    then show ?case using init by simp
  next
    case (Suc m)
    then have "wp (foldM f [0..<m] s) (I m)" by simp
    then obtain t where t: "foldM f [0..<m] s = Some t" "I m t" by (rule wpE)
    then show ?case using step [of m t] Suc.prems
      by (auto simp: foldM_append wp_def)
  qed
  from this [of n] show ?thesis using fin by (auto intro: wp_mono)
qed

text \<open>The invariant rule of a loop over the elements of a list.\<close>

lemma wp_foreach:
  fixes I :: "'a list \<Rightarrow> 's \<Rightarrow> bool"
  assumes init: "I [] s"
    and step: "\<And>ys y zs s. xs = ys @ y # zs \<Longrightarrow> I ys s \<Longrightarrow> wp (f y s) (I (ys @ [y]))"
    and fin: "\<And>s. I xs s \<Longrightarrow> Q s"
  shows "wp (foldM f xs s) Q"
proof -
  have "xs = ys @ zs \<Longrightarrow> wp (foldM f ys s) (I ys)" for ys zs
  proof (induction ys arbitrary: zs rule: rev_induct)
    case Nil
    then show ?case using init by simp
  next
    case (snoc y ys)
    then have "wp (foldM f ys s) (I ys)" by simp
    then obtain t where t: "foldM f ys s = Some t" "I ys t" by (rule wpE)
    then show ?case using step [of ys y zs t] snoc.prems
      by (auto simp: foldM_append wp_def)
  qed
  from this [of xs "[]"] show ?thesis using fin by (auto intro: wp_mono)
qed

lemma foldM_invariant:
  assumes "foldM f xs s = Some t" "P s"
    and "\<And>x s t. x \<in> set xs \<Longrightarrow> P s \<Longrightarrow> f x s = Some t \<Longrightarrow> P t"
  shows "P t"
  using assms
proof (induction xs arbitrary: s)
  case (Cons x xs)
  from Cons.prems(1) obtain u where u: "f x s = Some u" "foldM f xs u = Some t"
    by (auto simp: bind_eq_Some_conv)
  have "P u" using Cons.prems(2,3) u(1) by auto
  with u(2) show ?case using Cons.IH Cons.prems(3) by (meson list.set_intros(2))
qed simp

lemma foldM_Some_map:
  "(\<And>x s. x \<in> set xs \<Longrightarrow> f x s = Some (g x s)) \<Longrightarrow> foldM f xs s = Some (fold g xs s)"
  by (induction xs arbitrary: s) auto

section \<open>Vectors and machine integers\<close>

text \<open>\<open>v.resize(n, d)\<close>: keep the first \<open>n\<close> elements, append copies of \<open>d\<close>.\<close>

definition vec_resize :: "nat \<Rightarrow> 'a \<Rightarrow> 'a list \<Rightarrow> 'a list" where
  "vec_resize n d xs = take n xs @ replicate (n - length xs) d"

lemma length_vec_resize [simp]: "length (vec_resize n d xs) = n"
  by (simp add: vec_resize_def)

lemma nth_vec_resize:
  "i < n \<Longrightarrow> vec_resize n d xs ! i = (if i < length xs then xs ! i else d)"
  by (simp add: vec_resize_def nth_append min_def)

definition vget :: "'a list \<Rightarrow> nat \<Rightarrow> 'a option" where
  "vget xs i = (if i < length xs then Some (xs ! i) else None)"

definition vset :: "'a list \<Rightarrow> nat \<Rightarrow> 'a \<Rightarrow> 'a list option" where
  "vset xs i x = (if i < length xs then Some (xs[i := x]) else None)"

lemma vget_eq_Some [simp]: "vget xs i = Some x \<longleftrightarrow> i < length xs \<and> x = xs ! i"
  by (auto simp: vget_def)

lemma vget_eq_None [simp]: "vget xs i = None \<longleftrightarrow> length xs \<le> i"
  by (auto simp: vget_def)

lemma vset_eq_Some [simp]: "vset xs i x = Some ys \<longleftrightarrow> i < length xs \<and> ys = xs[i := x]"
  by (auto simp: vset_def)

lemma vset_eq_None [simp]: "vset xs i x = None \<longleftrightarrow> length xs \<le> i"
  by (auto simp: vset_def)

lemma wp_vget [wp_simps, simp]: "wp (vget xs i) Q = (i < length xs \<and> Q (xs ! i))"
  by (simp add: vget_def)

lemma wp_vset [wp_simps, simp]: "wp (vset xs i x) Q = (i < length xs \<and> Q (xs[i := x]))"
  by (simp add: vset_def)

text \<open>Signed 32-bit arithmetic: the mathematical result, when it is representable.\<close>

definition in_i32 :: "int \<Rightarrow> bool" where
  "in_i32 x = (- (2 ^ 31) \<le> x \<and> x < 2 ^ 31)"

definition i32 :: "int \<Rightarrow> int option" where
  "i32 x = (if in_i32 x then Some x else None)"

lemma i32_eq_Some [simp]: "i32 x = Some y \<longleftrightarrow> in_i32 x \<and> y = x"
  by (auto simp: i32_def)

lemma wp_i32 [wp_simps, simp]: "wp (i32 x) Q = (in_i32 x \<and> Q x)"
  by (simp add: i32_def)

text \<open>C++ division of signed integers truncates towards zero.\<close>

definition trunc_div :: "int \<Rightarrow> int \<Rightarrow> int" where
  "trunc_div a b = (if (a < 0) = (b < 0) then \<bar>a\<bar> div \<bar>b\<bar> else - (\<bar>a\<bar> div \<bar>b\<bar>))"

lemma trunc_div_nonneg [simp]: "0 \<le> a \<Longrightarrow> 0 < b \<Longrightarrow> trunc_div a b = a div b"
  by (simp add: trunc_div_def)

text \<open>Subtraction on \<open>uint32_t\<close> wraps around.\<close>

definition usub32 :: "nat \<Rightarrow> nat \<Rightarrow> nat" where
  "usub32 a b = nat ((int a - int b) mod 2 ^ 32)"

lemma usub32_ge [simp]: "b \<le> a \<Longrightarrow> a < 2 ^ 32 \<Longrightarrow> usub32 a b = a - b"
  by (simp add: usub32_def of_nat_diff [symmetric] del: of_nat_diff)

section \<open>Lists\<close>

lemma upto_split_nat: "i \<le> n \<Longrightarrow> [0..<n] = [0..<i] @ [i..<n]"
  using upt_add_eq_append [of 0 i "n - i"] by simp

lemma filter_upt_extend:
  assumes "m \<le> n" "\<And>i. m \<le> i \<Longrightarrow> i < n \<Longrightarrow> \<not> P i"
  shows "filter P [0..<n] = filter P [0..<m]"
  using assms by (simp add: upto_split_nat [OF assms(1)] filter_empty_conv)

lemma list_all_nth_update:
  "\<forall>i<length xs. P (xs ! i) \<Longrightarrow> P x \<Longrightarrow> \<forall>i<length xs. P (xs[k := x] ! i)"
  by (metis nth_list_update nth_list_update_neq)

end
