(* ===== verification/KvCells.thy ===== *)
theory KvCells
  imports Prelude
begin

text \<open>
  The cell metadata of one stream of the KV cache: class \<open>llama_kv_cells\<close> of
  \<open>src/llama-kv-cells.h\<close>.  The six vectors \<open>pos\<close>, \<open>ext\<close>, \<open>shift\<close>, \<open>seq\<close>, \<open>node_id\<close> and
  \<open>parent_node_id\<close> run in parallel; \<open>used\<close>, \<open>seq_pos\<close> and \<open>seq_bits\<close> are indexes over them that
  every operation updates incrementally.  \<open>cells_wf\<close> says that the indexes describe the vectors, and
  every operation is shown to keep it, to reach none of its assertions and to change exactly the
  cell it is called on (\<open>cell_at\<close>).  A failed \<open>assert\<close>, an index outside a vector and a signed
  overflow are \<open>None\<close>.
\<close>

section \<open>State\<close>

record cell_ext =
  ce_x :: llama_pos
  ce_y :: llama_pos
  ce_tok :: llama_token

definition ext_reset :: cell_ext where
  "ext_reset = \<lparr>ce_x = 0, ce_y = 0, ce_tok = LLAMA_TOKEN_NULL\<rparr>"

definition is_2d_gt :: "cell_ext \<Rightarrow> llama_pos \<Rightarrow> llama_pos \<Rightarrow> bool" where
  "is_2d_gt e ox oy = (ce_y e > oy \<or> (ce_y e = oy \<and> ce_x e > ox))"

record kv_cells =
  kc_has_shift :: bool
  kc_used :: "nat set"
  kc_pos :: "llama_pos list"
  kc_ext :: "cell_ext list"
  kc_node_id :: "int list"
  kc_parent :: "int list"
  kc_shift :: "llama_pos list"
  kc_seq :: "llama_seq_id set list"
  kc_seq_pos :: "llama_seq_id \<Rightarrow> (llama_pos \<times> nat) set"
  kc_seq_bits :: "llama_seq_id \<Rightarrow> 64 word list"

abbreviation cells_size :: "kv_cells \<Rightarrow> nat" where
  "cells_size c \<equiv> length (kc_pos c)"

text \<open>A default-constructed object.\<close>

definition cells_new :: kv_cells where
  "cells_new = \<lparr>kc_has_shift = False, kc_used = {}, kc_pos = [], kc_ext = [], kc_node_id = [],
     kc_parent = [], kc_shift = [], kc_seq = [], kc_seq_pos = (\<lambda>_. {}), kc_seq_bits = (\<lambda>_. [])\<rparr>"

section \<open>Index maintenance\<close>

text \<open>\<open>seq_bits[s][i/64] &= ~(1ull << (i%64))\<close> and \<open>|= 1ull << (i%64)\<close>.\<close>

definition bits_clear :: "64 word list \<Rightarrow> nat \<Rightarrow> 64 word list option" where
  "bits_clear ws i = do {
     w \<leftarrow> vget ws (i div 64);
     vset ws (i div 64) (w AND NOT (push_bit (i mod 64) 1)) }"

definition bits_set :: "64 word list \<Rightarrow> nat \<Rightarrow> 64 word list option" where
  "bits_set ws i = do {
     w \<leftarrow> vget ws (i div 64);
     vset ws (i div 64) (w OR push_bit (i mod 64) 1) }"

definition seq_pos_dec :: "llama_seq_id \<Rightarrow> nat \<Rightarrow> kv_cells \<Rightarrow> kv_cells option" where
  "seq_pos_dec s i c = do {
     p \<leftarrow> vget (kc_pos c) i;
     ensure ((p, i) \<in> kc_seq_pos c s);
     bs \<leftarrow> bits_clear (kc_seq_bits c s) i;
     Some (c\<lparr>kc_seq_pos := (kc_seq_pos c)(s := kc_seq_pos c s - {(p, i)}),
             kc_seq_bits := (kc_seq_bits c)(s := bs)\<rparr>) }"

definition seq_pos_inc :: "llama_seq_id \<Rightarrow> nat \<Rightarrow> kv_cells \<Rightarrow> kv_cells option" where
  "seq_pos_inc s i c = do {
     p \<leftarrow> vget (kc_pos c) i;
     bs \<leftarrow> bits_set
        (if kc_seq_bits c s = [] then replicate ((cells_size c + 63) div 64) 0 else kc_seq_bits c s) i;
     Some (c\<lparr>kc_seq_pos := (kc_seq_pos c)(s := insert (p, i) (kc_seq_pos c s)),
             kc_seq_bits := (kc_seq_bits c)(s := bs)\<rparr>) }"

definition seq_pos_rm :: "nat \<Rightarrow> kv_cells \<Rightarrow> kv_cells option" where
  "seq_pos_rm i c =
     foldM (\<lambda>s d. if s \<in> kc_seq d ! i then seq_pos_dec s i d else Some d) [0..255] c"

definition seq_pos_add :: "nat \<Rightarrow> kv_cells \<Rightarrow> kv_cells option" where
  "seq_pos_add i c =
     foldM (\<lambda>s d. if s \<in> kc_seq d ! i then seq_pos_inc s i d else Some d) [0..255] c"

section \<open>Whole-object operations\<close>

definition cells_reset :: "kv_cells \<Rightarrow> kv_cells" where
  "cells_reset c = c\<lparr>
     kc_pos := map (\<lambda>_. -1) (kc_pos c),
     kc_ext := map (\<lambda>_. ext_reset) (kc_ext c),
     kc_shift := map (\<lambda>_. 0) (kc_shift c),
     kc_seq := map (\<lambda>_. {}) (kc_seq c),
     kc_node_id := map (\<lambda>_. -1) (kc_node_id c),
     kc_parent := map (\<lambda>_. -1) (kc_parent c),
     kc_has_shift := False,
     kc_used := {},
     kc_seq_pos := (\<lambda>_. {}),
     kc_seq_bits := (\<lambda>s. map (\<lambda>_. 0) (kc_seq_bits c s))\<rparr>"

definition cells_reset_shift :: "kv_cells \<Rightarrow> kv_cells" where
  "cells_reset_shift c = c\<lparr>kc_has_shift := False, kc_shift := map (\<lambda>_. 0) (kc_shift c)\<rparr>"

definition cells_resize :: "nat \<Rightarrow> kv_cells \<Rightarrow> kv_cells" where
  "cells_resize n c = cells_reset (c\<lparr>
     kc_pos := vec_resize n 0 (kc_pos c),
     kc_ext := vec_resize n ext_reset (kc_ext c),
     kc_shift := vec_resize n 0 (kc_shift c),
     kc_seq := vec_resize n {} (kc_seq c),
     kc_node_id := vec_resize n 0 (kc_node_id c),
     kc_parent := vec_resize n 0 (kc_parent c),
     kc_seq_bits := (\<lambda>_. [])\<rparr>)"

definition cells_grow :: "nat \<Rightarrow> kv_cells \<Rightarrow> kv_cells" where
  "cells_grow n c = (if n \<le> cells_size c then c else c\<lparr>
     kc_pos := vec_resize n (-1) (kc_pos c),
     kc_ext := vec_resize n ext_reset (kc_ext c),
     kc_shift := vec_resize n 0 (kc_shift c),
     kc_seq := vec_resize n {} (kc_seq c),
     kc_node_id := vec_resize n (-1) (kc_node_id c),
     kc_parent := vec_resize n (-1) (kc_parent c)\<rparr>)"

definition used_idxs :: "kv_cells \<Rightarrow> nat list" where
  "used_idxs c = sorted_list_of_set (kc_used c)"

definition is_empty :: "kv_cells \<Rightarrow> nat \<Rightarrow> bool option" where
  "is_empty c i = do {
     p \<leftarrow> vget (kc_pos c) i;
     ensure ((p < 0 \<and> p = -1) \<or> p \<ge> 0);
     Some (p = -1) }"

definition get_used :: "kv_cells \<Rightarrow> nat" where
  "get_used c = card (kc_used c)"

definition used_min :: "kv_cells \<Rightarrow> nat" where
  "used_min c = (if kc_used c = {} then 0 else Min (kc_used c))"

definition used_max_p1 :: "kv_cells \<Rightarrow> nat" where
  "used_max_p1 c = (if kc_used c = {} then 0 else Max (kc_used c) + 1)"

definition cells_truncate :: "nat \<Rightarrow> kv_cells \<Rightarrow> kv_cells option" where
  "cells_truncate n c = do {
     ensure (kc_used c = {} \<or> used_max_p1 c \<le> n);
     Some (c\<lparr>
       kc_pos := vec_resize n 0 (kc_pos c),
       kc_ext := vec_resize n ext_reset (kc_ext c),
       kc_shift := vec_resize n 0 (kc_shift c),
       kc_seq := vec_resize n {} (kc_seq c),
       kc_node_id := vec_resize n 0 (kc_node_id c),
       kc_parent := vec_resize n 0 (kc_parent c)\<rparr>) }"

text \<open>
  \<open>cp\<close>: the copy holds the five data vectors only; \<open>used\<close>, \<open>seq_pos\<close> and \<open>seq_bits\<close> of the result
  stay as \<open>resize\<close> left them.
\<close>

definition cp_cell :: "kv_cells \<Rightarrow> nat \<Rightarrow> nat \<Rightarrow> kv_cells \<Rightarrow> kv_cells option" where
  "cp_cell c idx j res = do {
     p \<leftarrow> vget (kc_pos c) idx;
     ensure (kc_shift c ! idx = 0);
     Some (res\<lparr>kc_pos := (kc_pos res)[j := p],
               kc_ext := (kc_ext res)[j := kc_ext c ! idx],
               kc_seq := (kc_seq res)[j := kc_seq c ! idx],
               kc_node_id := (kc_node_id res)[j := kc_node_id c ! idx],
               kc_parent := (kc_parent res)[j := kc_parent c ! idx]\<rparr>) }"

definition cells_cp_range :: "nat \<Rightarrow> nat \<Rightarrow> kv_cells \<Rightarrow> kv_cells option" where
  "cells_cp_range i n c = do {
     ensure (i + n \<le> cells_size c);
     foldM (\<lambda>j. cp_cell c (i + j) j) [0..<n] (cells_resize n cells_new) }"

definition cells_cp :: "nat list \<Rightarrow> kv_cells \<Rightarrow> kv_cells option" where
  "cells_cp idxs c =
     foldM (\<lambda>j. cp_cell c (idxs ! j) j) [0..<length idxs] (cells_resize (length idxs) cells_new)"

definition set_cell :: "kv_cells \<Rightarrow> nat \<Rightarrow> nat \<Rightarrow> kv_cells \<Rightarrow> kv_cells option" where
  "set_cell oth idx j c = do {
     p \<leftarrow> vget (kc_pos c) idx;
     let q = kc_pos oth ! j;
     let c = (if p = -1 \<and> q \<noteq> -1 then c\<lparr>kc_used := insert idx (kc_used c)\<rparr> else c);
     let c = (if p \<noteq> -1 \<and> q = -1 then c\<lparr>kc_used := kc_used c - {idx}\<rparr> else c);
     c \<leftarrow> (if p \<noteq> -1 then seq_pos_rm idx c else Some c);
     let c = c\<lparr>kc_pos := (kc_pos c)[idx := q],
               kc_ext := (kc_ext c)[idx := kc_ext oth ! j],
               kc_seq := (kc_seq c)[idx := kc_seq oth ! j],
               kc_node_id := (kc_node_id c)[idx := kc_node_id oth ! j],
               kc_parent := (kc_parent c)[idx := kc_parent oth ! j]\<rparr>;
     c \<leftarrow> (if q \<noteq> -1 then seq_pos_add idx c else Some c);
     ensure (kc_shift c ! idx = 0);
     Some c }"

definition cells_set_range :: "nat \<Rightarrow> kv_cells \<Rightarrow> kv_cells \<Rightarrow> kv_cells option" where
  "cells_set_range i oth c = do {
     ensure (i + cells_size oth \<le> cells_size c);
     foldM (\<lambda>j. set_cell oth (i + j) j) [0..<cells_size oth] c }"

definition cells_set :: "nat list \<Rightarrow> kv_cells \<Rightarrow> kv_cells \<Rightarrow> kv_cells option" where
  "cells_set idxs oth c = do {
     ensure (length idxs = cells_size oth);
     foldM (\<lambda>j. set_cell oth (idxs ! j) j) [0..<cells_size oth] c }"

section \<open>Operations on one cell\<close>

text \<open>The five stores that empty cell \<open>i\<close>, followed by \<open>used.erase(i)\<close>.\<close>

definition wipe_cell :: "nat \<Rightarrow> kv_cells \<Rightarrow> kv_cells" where
  "wipe_cell i c = c\<lparr>
     kc_pos := (kc_pos c)[i := -1],
     kc_ext := (kc_ext c)[i := ext_reset],
     kc_shift := (kc_shift c)[i := 0],
     kc_node_id := (kc_node_id c)[i := -1],
     kc_parent := (kc_parent c)[i := -1],
     kc_used := kc_used c - {i}\<rparr>"

definition cells_rm :: "nat \<Rightarrow> kv_cells \<Rightarrow> kv_cells option" where
  "cells_rm i c = do {
     p \<leftarrow> vget (kc_pos c) i;
     ensure (p \<noteq> -1);
     c \<leftarrow> seq_pos_rm i c;
     Some (wipe_cell i (c\<lparr>kc_seq := (kc_seq c)[i := {}]\<rparr>)) }"

definition cells_seq_rm :: "nat \<Rightarrow> llama_seq_id \<Rightarrow> kv_cells \<Rightarrow> (bool \<times> kv_cells) option" where
  "cells_seq_rm i s c = do {
     p \<leftarrow> vget (kc_pos c) i;
     ensure (s \<in> seq_ids_ok);
     ensure (s \<in> kc_seq c ! i);
     ensure (p \<noteq> -1);
     let c = c\<lparr>kc_seq := (kc_seq c)[i := kc_seq c ! i - {s}]\<rparr>;
     c \<leftarrow> seq_pos_dec s i c;
     Some (if kc_seq c ! i = {} then (True, wipe_cell i c) else (False, c)) }"

definition cells_seq_keep :: "nat \<Rightarrow> llama_seq_id \<Rightarrow> kv_cells \<Rightarrow> (bool \<times> kv_cells) option" where
  "cells_seq_keep i s c = do {
     p \<leftarrow> vget (kc_pos c) i;
     ensure (s \<in> seq_ids_ok);
     if s \<in> kc_seq c ! i then do {
       c \<leftarrow> seq_pos_rm i c;
       let c = c\<lparr>kc_seq := (kc_seq c)[i := {s}]\<rparr>;
       c \<leftarrow> seq_pos_inc s i c;
       Some (False, c) }
     else if kc_seq c ! i \<noteq> {} then do {
       c \<leftarrow> seq_pos_rm i c;
       Some (True, wipe_cell i (c\<lparr>kc_seq := (kc_seq c)[i := {}]\<rparr>)) }
     else do {
       ensure (p = -1);
       Some (False, c) } }"

definition seq_count :: "kv_cells \<Rightarrow> nat \<Rightarrow> nat option" where
  "seq_count c i = do {
     p \<leftarrow> vget (kc_pos c) i;
     ensure (p \<noteq> -1);
     Some (card (kc_seq c ! i)) }"

definition seq_get_all :: "kv_cells \<Rightarrow> nat \<Rightarrow> llama_seq_id set option" where
  "seq_get_all c i = do {
     ensure (i < cells_size c);
     Some (kc_seq c ! i) }"

definition seq_has :: "kv_cells \<Rightarrow> nat \<Rightarrow> llama_seq_id \<Rightarrow> bool option" where
  "seq_has c i s = do {
     ensure (i < cells_size c);
     ensure (s \<in> seq_ids_ok);
     Some (s \<in> kc_seq c ! i) }"

definition seq_pos_get :: "kv_cells \<Rightarrow> llama_seq_id \<Rightarrow> (llama_pos \<times> nat) set option" where
  "seq_pos_get c s = do {
     ensure (s \<in> seq_ids_ok);
     Some (kc_seq_pos c s) }"

text \<open>\<open>upper_bound({p, UINT32_MAX})\<close> and the pair before it.\<close>

definition seq_pos_tok_le :: "kv_cells \<Rightarrow> llama_seq_id \<Rightarrow> llama_pos \<Rightarrow> llama_token option" where
  "seq_pos_tok_le c s p = do {
     ensure (s \<in> seq_ids_ok);
     let before = Set.filter (\<lambda>e. \<not> (p, 2 ^ 32 - 1) < e) (kc_seq_pos c s);
     if before = {} then Some LLAMA_TOKEN_NULL
     else do {
       e \<leftarrow> vget (kc_ext c) (snd (Max before));
       Some (ce_tok e) } }"

definition cells_seq_add :: "nat \<Rightarrow> llama_seq_id \<Rightarrow> kv_cells \<Rightarrow> kv_cells option" where
  "cells_seq_add i s c = do {
     p \<leftarrow> vget (kc_pos c) i;
     ensure (p \<noteq> -1);
     ensure (s \<in> seq_ids_ok);
     ensure (s \<notin> kc_seq c ! i);
     seq_pos_inc s i (c\<lparr>kc_seq := (kc_seq c)[i := insert s (kc_seq c ! i)]\<rparr>) }"

definition seq_get :: "kv_cells \<Rightarrow> nat \<Rightarrow> llama_seq_id option" where
  "seq_get c i = do {
     ss \<leftarrow> vget (kc_seq c) i;
     ensure (card ss = 1);
     Some (case List.find (\<lambda>s. s \<in> ss) [0..255] of Some s \<Rightarrow> s | None \<Rightarrow> -1) }"

definition seq_n_cells :: "kv_cells \<Rightarrow> llama_seq_id \<Rightarrow> nat option" where
  "seq_n_cells c s = do {
     ensure (s \<in> seq_ids_ok);
     Some (card (kc_seq_pos c s)) }"

definition seq_n_cells_from :: "kv_cells \<Rightarrow> llama_seq_id \<Rightarrow> llama_pos \<Rightarrow> nat option" where
  "seq_n_cells_from c s p_min = do {
     ensure (s \<in> seq_ids_ok);
     Some (card (Set.filter (\<lambda>e. \<not> e < (p_min, 0)) (kc_seq_pos c s))) }"

definition cells_seq_pos_min :: "kv_cells \<Rightarrow> llama_seq_id \<Rightarrow> llama_pos option" where
  "cells_seq_pos_min c s = do {
     ensure (s \<in> seq_ids_ok);
     Some (if kc_seq_pos c s = {} then -1 else fst (Min (kc_seq_pos c s))) }"

definition cells_seq_pos_max :: "kv_cells \<Rightarrow> llama_seq_id \<Rightarrow> llama_pos option" where
  "cells_seq_pos_max c s = do {
     ensure (s \<in> seq_ids_ok);
     Some (if kc_seq_pos c s = {} then -1 else fst (Max (kc_seq_pos c s))) }"

definition pos_get :: "kv_cells \<Rightarrow> nat \<Rightarrow> llama_pos option" where
  "pos_get c i = do { p \<leftarrow> vget (kc_pos c) i; ensure (p \<noteq> -1); Some p }"

definition ext_get :: "kv_cells \<Rightarrow> nat \<Rightarrow> cell_ext option" where
  "ext_get c i = do { p \<leftarrow> vget (kc_pos c) i; ensure (p \<noteq> -1); Some (kc_ext c ! i) }"

definition get_shift :: "kv_cells \<Rightarrow> nat \<Rightarrow> llama_pos option" where
  "get_shift c i = do { p \<leftarrow> vget (kc_pos c) i; ensure (p \<noteq> -1); Some (kc_shift c ! i) }"

definition pos_in :: "kv_cells \<Rightarrow> nat \<Rightarrow> llama_pos \<Rightarrow> llama_pos \<Rightarrow> bool option" where
  "pos_in c i p0 p1 = do { p \<leftarrow> vget (kc_pos c) i; Some (p0 \<le> p \<and> p < p1) }"

definition pos_set :: "nat \<Rightarrow> llama_pos \<Rightarrow> kv_cells \<Rightarrow> kv_cells option" where
  "pos_set i p c = do {
     q \<leftarrow> vget (kc_pos c) i;
     ensure (q = -1);
     ensure (kc_seq c ! i = {});
     Some (c\<lparr>kc_pos := (kc_pos c)[i := p], kc_used := insert i (kc_used c)\<rparr>) }"

definition ext_set :: "nat \<Rightarrow> cell_ext \<Rightarrow> kv_cells \<Rightarrow> kv_cells option" where
  "ext_set i e c = do { es \<leftarrow> vset (kc_ext c) i e; Some (c\<lparr>kc_ext := es\<rparr>) }"

definition node_id_set :: "nat \<Rightarrow> int \<Rightarrow> int \<Rightarrow> kv_cells \<Rightarrow> kv_cells option" where
  "node_id_set i nid parent_nid c = do {
     ns \<leftarrow> vset (kc_node_id c) i nid;
     Some (c\<lparr>kc_node_id := ns, kc_parent := (kc_parent c)[i := parent_nid]\<rparr>) }"

definition node_id_get :: "kv_cells \<Rightarrow> nat \<Rightarrow> int option" where
  "node_id_get c i = vget (kc_node_id c) i"

definition parent_node_id_get :: "kv_cells \<Rightarrow> nat \<Rightarrow> int option" where
  "parent_node_id_get c i = vget (kc_parent c) i"

definition pos_add :: "nat \<Rightarrow> llama_pos \<Rightarrow> kv_cells \<Rightarrow> (bool \<times> kv_cells) option" where
  "pos_add i d c = do {
     p \<leftarrow> vget (kc_pos c) i;
     ensure (p \<noteq> -1);
     c \<leftarrow> seq_pos_rm i c;
     p' \<leftarrow> i32 (p + d);
     sh \<leftarrow> i32 (kc_shift c ! i + d);
     let c = c\<lparr>kc_pos := (kc_pos c)[i := p'], kc_shift := (kc_shift c)[i := sh],
               kc_has_shift := True\<rparr>;
     if p' < 0 then
       Some (True, c\<lparr>
         kc_seq := (kc_seq c)[i := {}],
         kc_pos := (kc_pos c)[i := -1],
         kc_shift := (kc_shift c)[i := 0],
         kc_node_id := (kc_node_id c)[i := -1],
         kc_parent := (kc_parent c)[i := -1],
         kc_used := kc_used c - {i}\<rparr>)
     else do {
       c \<leftarrow> seq_pos_add i c;
       Some (False, c) } }"

definition pos_div :: "nat \<Rightarrow> int \<Rightarrow> kv_cells \<Rightarrow> kv_cells option" where
  "pos_div i d c = do {
     p \<leftarrow> vget (kc_pos c) i;
     ensure (p \<noteq> -1);
     c \<leftarrow> seq_pos_rm i c;
     ensure (d \<noteq> 0);
     q \<leftarrow> i32 (trunc_div p d);
     diff \<leftarrow> i32 (p - q);
     sh \<leftarrow> i32 (kc_shift c ! i + diff);
     let c = c\<lparr>kc_pos := (kc_pos c)[i := q], kc_shift := (kc_shift c)[i := sh]\<rparr>;
     c \<leftarrow> seq_pos_add i c;
     Some (c\<lparr>kc_has_shift := True\<rparr>) }"

section \<open>Lists of the cells of a slice\<close>

text \<open>The index of the lowest set bit, and the loop that visits the set bits of a word.\<close>

definition ctz64 :: "64 word \<Rightarrow> nat" where
  "ctz64 w = length (takeWhile (\<lambda>k. \<not> bit w k) [0..<64])"

record rows_slice =
  rs_seq_ids :: "llama_seq_id list"
  rs_p_min :: llama_pos

lemma and_minus_one_less: "(b :: 64 word) \<noteq> 0 \<Longrightarrow> unat (b AND (b - 1)) < unat b"
  by (metis measure_unat order.strict_trans1 word_and_le1 word_le_nat_alt)

function emit_bits :: "kv_cells \<Rightarrow> llama_pos \<Rightarrow> nat \<Rightarrow> nat \<Rightarrow> 64 word \<Rightarrow> int list \<Rightarrow> int list option" where
  "emit_bits c pm n_per_seq w b out =
     (if b = 0 then Some out
      else do {
        let i = 64 * w + ctz64 b;
        p \<leftarrow> vget (kc_pos c) i;
        out' \<leftarrow> (if p \<ge> pm then do {
                   ensure (length out < n_per_seq);
                   Some (out @ [int i]) }
                 else Some out);
        emit_bits c pm n_per_seq w (b AND (b - 1)) out' })"
  by pat_completeness auto
termination
  by (relation "measure (\<lambda>(c, pm, n, w, b, out). unat b)") (auto intro: and_minus_one_less)

definition slice_word :: "kv_cells \<Rightarrow> llama_seq_id list \<Rightarrow> nat \<Rightarrow> 64 word" where
  "slice_word c ids w =
     fold (\<lambda>s word. let bits = kc_seq_bits c s in
                    if w < length bits then word OR bits ! w else word) ids 0"

definition slice_cells :: "kv_cells \<Rightarrow> rows_slice \<Rightarrow> nat \<Rightarrow> int list option" where
  "slice_cells c sl n_per_seq = do {
     out \<leftarrow> foldM (\<lambda>w out. do {
               ensure (set (rs_seq_ids sl) \<subseteq> seq_ids_ok);
               emit_bits c (rs_p_min sl) n_per_seq w (slice_word c (rs_seq_ids sl) w) out })
              [0..<(used_max_p1 c + 63) div 64] [];
     Some (out @ replicate (n_per_seq - length out) (-1)) }"

text \<open>The buffer is returned as the concatenation of the lists written to it.\<close>

definition get_seq_cells :: "kv_cells \<Rightarrow> rows_slice list \<Rightarrow> nat \<Rightarrow> int list option" where
  "get_seq_cells c slices n_per_seq = do {
     ensure (length slices \<ge> 1);
     rows \<leftarrow> mapM (\<lambda>sl. slice_cells c sl n_per_seq) slices;
     Some (concat rows) }"

section \<open>The representation invariant\<close>

text \<open>The contents of one cell, read across the parallel vectors.\<close>

record kv_cell =
  cl_pos :: llama_pos
  cl_ext :: cell_ext
  cl_shift :: llama_pos
  cl_seq :: "llama_seq_id set"
  cl_node :: int
  cl_parent :: int

definition cell_at :: "kv_cells \<Rightarrow> nat \<Rightarrow> kv_cell" where
  "cell_at c i = \<lparr>cl_pos = kc_pos c ! i, cl_ext = kc_ext c ! i, cl_shift = kc_shift c ! i,
     cl_seq = kc_seq c ! i, cl_node = kc_node_id c ! i, cl_parent = kc_parent c ! i\<rparr>"

definition empty_cell :: kv_cell where
  "empty_cell = \<lparr>cl_pos = -1, cl_ext = ext_reset, cl_shift = 0, cl_seq = {}, cl_node = -1, cl_parent = -1\<rparr>"

text \<open>The bit of cell \<open>i\<close> in a \<open>seq_bits\<close> vector.\<close>

definition bits_at :: "64 word list \<Rightarrow> nat \<Rightarrow> bool" where
  "bits_at ws i = (i div 64 < length ws \<and> bit (ws ! (i div 64)) (i mod 64))"

text \<open>Which (sequence, cell) pairs the vectors hold, and an index structure that lists exactly \<open>R\<close>.\<close>

definition carried :: "kv_cells \<Rightarrow> (llama_seq_id \<times> nat) set" where
  "carried c = {(s, i). i < cells_size c \<and> s \<in> kc_seq c ! i}"

definition mirrors :: "(llama_seq_id \<times> nat) set \<Rightarrow> kv_cells \<Rightarrow> bool" where
  "mirrors R c = (\<forall>s. s \<in> seq_ids_ok \<longrightarrow>
     kc_seq_pos c s = {(kc_pos c ! i, i) | i. (s, i) \<in> R} \<and>
     (\<forall>i. bits_at (kc_seq_bits c s) i \<longleftrightarrow> (s, i) \<in> R) \<and>
     (kc_seq_bits c s \<noteq> [] \<longrightarrow> cells_size c \<le> 64 * length (kc_seq_bits c s)))"

definition cells_shape :: "kv_cells \<Rightarrow> bool" where
  "cells_shape c = (length (kc_ext c) = cells_size c \<and> length (kc_shift c) = cells_size c \<and>
     length (kc_seq c) = cells_size c \<and> length (kc_node_id c) = cells_size c \<and>
     length (kc_parent c) = cells_size c \<and> kc_used c = {i. i < cells_size c \<and> kc_pos c ! i \<noteq> -1})"

definition cell_ok :: "kv_cell \<Rightarrow> bool" where
  "cell_ok x = (-1 \<le> cl_pos x \<and> cl_seq x \<subseteq> seq_ids_ok \<and> (cl_pos x = -1 \<longrightarrow> cl_seq x = {}))"

definition cells_wf :: "kv_cells \<Rightarrow> bool" where
  "cells_wf c = (cells_shape c \<and> mirrors (carried c) c \<and> (\<forall>i < cells_size c. cell_ok (cell_at c i)))"

lemmas cell_defs = cells_shape_def cell_ok_def cell_at_def

section \<open>The index structures\<close>

lemma bits_at_Nil [simp]: "\<not> bits_at [] i"
  by (simp add: bits_at_def)

lemma bits_at_zeros [simp]: "\<not> bits_at (replicate n 0) i"
  by (simp add: bits_at_def)

lemma bits_at_map_zero [simp]: "\<not> bits_at (map (\<lambda>_. 0) ws) i"
  by (simp add: bits_at_def)

lemma div_mod_eq_iff: "(i :: nat) = j \<longleftrightarrow> i div 64 = j div 64 \<and> i mod 64 = j mod 64"
  by (metis div_mult_mod_eq)

lemma bit_single64: "k < 64 \<Longrightarrow> bit (push_bit k 1 :: 64 word) j \<longleftrightarrow> j = k"
  by (auto simp: bit_push_bit_iff bit_simps)

lemma bits_clear_wp:
  assumes "bits_at ws i"
  shows "wp (bits_clear ws i) (\<lambda>ws'. length ws' = length ws \<and>
     (\<forall>j. bits_at ws' j \<longleftrightarrow> bits_at ws j \<and> j \<noteq> i))"
  using assms
  by (auto simp: bits_clear_def wp_simps bits_at_def nth_list_update bit_simps bit_single64
      div_mod_eq_iff [of _ i] split: if_splits)

lemma bits_set_wp:
  assumes "i div 64 < length ws"
  shows "wp (bits_set ws i) (\<lambda>ws'. length ws' = length ws \<and>
     (\<forall>j. bits_at ws' j \<longleftrightarrow> bits_at ws j \<or> j = i))"
  using assms
  by (auto simp: bits_set_def wp_simps bits_at_def nth_list_update bit_simps bit_single64
      div_mod_eq_iff [of _ i] split: if_splits)

text \<open>What the index routines may change: \<open>seq_pos\<close> and \<open>seq_bits\<close>.\<close>

definition reindexed :: "kv_cells \<Rightarrow> kv_cells \<Rightarrow> bool" where
  "reindexed c d = (\<exists>sp bs. d = c\<lparr>kc_seq_pos := sp, kc_seq_bits := bs\<rparr>)"

lemma reindexed_refl [simp]: "reindexed c c"
proof -
  have "c = c\<lparr>kc_seq_pos := kc_seq_pos c, kc_seq_bits := kc_seq_bits c\<rparr>" by simp
  then show ?thesis unfolding reindexed_def by blast
qed

lemma reindexed_trans: "reindexed c d \<Longrightarrow> reindexed d e \<Longrightarrow> reindexed c e"
  by (clarsimp simp: reindexed_def) blast

lemma reindexed_upd [simp]: "reindexed c (c\<lparr>kc_seq_pos := sp, kc_seq_bits := bs\<rparr>)"
  by (auto simp: reindexed_def)

lemma reindexed_fields:
  assumes "reindexed c d"
  shows "kc_pos d = kc_pos c" "kc_ext d = kc_ext c" "kc_shift d = kc_shift c" "kc_seq d = kc_seq c"
    "kc_node_id d = kc_node_id c" "kc_parent d = kc_parent c" "kc_used d = kc_used c"
    "kc_has_shift d = kc_has_shift c"
  using assms by (auto simp: reindexed_def)

lemma seq_pos_dec_wp:
  assumes m: "mirrors R c" and R: "(s, i) \<in> R" and s: "s \<in> seq_ids_ok" and i: "i < cells_size c"
  shows "wp (seq_pos_dec s i c) (\<lambda>d. reindexed c d \<and> mirrors (R - {(s, i)}) d)"
proof -
  have ba: "bits_at (kc_seq_bits c s) i"
    and sp: "kc_seq_pos c s = {(kc_pos c ! j, j) | j. (s, j) \<in> R}"
    using m s R by (auto simp: mirrors_def)
  obtain bs where bs: "bits_clear (kc_seq_bits c s) i = Some bs" "length bs = length (kc_seq_bits c s)"
    "\<And>j. bits_at bs j \<longleftrightarrow> bits_at (kc_seq_bits c s) j \<and> j \<noteq> i"
    using bits_clear_wp [OF ba] by (auto simp: wp_def)
  have "bs \<noteq> [] \<longrightarrow> cells_size c \<le> 64 * length bs"
    using m s bs(2) by (auto simp: mirrors_def)
  then show ?thesis using m R i bs sp
    by (auto simp: seq_pos_dec_def wp_simps mirrors_def)
qed

lemma seq_pos_inc_wp:
  assumes m: "mirrors R c" and s: "s \<in> seq_ids_ok" and i: "i < cells_size c"
  shows "wp (seq_pos_inc s i c) (\<lambda>d. reindexed c d \<and> mirrors (insert (s, i) R) d)"
proof -
  let ?ws = "if kc_seq_bits c s = [] then replicate ((cells_size c + 63) div 64) 0 else kc_seq_bits c s"
  have len: "cells_size c \<le> 64 * length ?ws"
    using m s by (auto simp: mirrors_def)
  then have "i div 64 < length ?ws" using i by (auto simp: div_less_iff_less_mult mult.commute)
  from bits_set_wp [OF this] obtain bs where bs: "bits_set ?ws i = Some bs" "length bs = length ?ws"
    "\<And>j. bits_at bs j \<longleftrightarrow> bits_at ?ws j \<or> j = i"
    by (auto simp: wp_def)
  have "\<And>j. bits_at ?ws j \<longleftrightarrow> (s, j) \<in> R"
    using m s by (auto simp: mirrors_def)
  then show ?thesis using m i s bs len
    by (auto simp: seq_pos_inc_def wp_simps mirrors_def)
qed

lemma upto_255: "s \<in> set [0..255] \<longleftrightarrow> s \<in> seq_ids_ok"
  by auto

lemma seq_pos_rm_wp:
  assumes m: "mirrors R c" and i: "i < cells_size c"
    and R: "\<And>s. s \<in> kc_seq c ! i \<Longrightarrow> s \<in> seq_ids_ok \<Longrightarrow> (s, i) \<in> R"
  shows "wp (seq_pos_rm i c) (\<lambda>d. reindexed c d \<and>
    mirrors (R - {(s, i) | s. s \<in> kc_seq c ! i \<and> s \<in> seq_ids_ok}) d)"
  unfolding seq_pos_rm_def
proof (rule wp_foreach [where I = "\<lambda>ys d. reindexed c d \<and>
    mirrors (R - {(s, i) | s. s \<in> kc_seq c ! i \<and> s \<in> set ys}) d"])
  show "reindexed c c \<and> mirrors (R - {(s, i) | s. s \<in> kc_seq c ! i \<and> s \<in> set []}) c"
    using m by simp
next
  fix ys y zs d
  assume split: "[0..255] = ys @ y # zs"
    and inv: "reindexed c d \<and> mirrors (R - {(s, i) | s. s \<in> kc_seq c ! i \<and> s \<in> set ys}) d"
  let ?R = "R - {(s, i) | s. s \<in> kc_seq c ! i \<and> s \<in> set ys}"
  let ?R' = "R - {(s, i) | s. s \<in> kc_seq c ! i \<and> s \<in> set (ys @ [y])}"
  have "distinct (ys @ y # zs)" unfolding split [symmetric] by simp
  then have y: "y \<in> seq_ids_ok" "y \<notin> set ys"
    using upto_255 [of y] split by auto
  have d: "kc_seq d = kc_seq c" "kc_pos d = kc_pos c" using inv by (auto dest: reindexed_fields)
  show "wp (if y \<in> kc_seq d ! i then seq_pos_dec y i d else Some d) (\<lambda>d. reindexed c d \<and> mirrors ?R' d)"
  proof (cases "y \<in> kc_seq c ! i")
    case True
    have "?R' = ?R - {(y, i)}" using True by auto
    then show ?thesis
      using seq_pos_dec_wp [of ?R d y i] inv R [OF True] y i d True
      by (auto intro: reindexed_trans elim!: wp_mono)
  next
    case False
    then have "?R' = ?R" by auto
    then show ?thesis using inv False d by simp
  qed
next
  fix d
  assume "reindexed c d \<and> mirrors (R - {(s, i) | s. s \<in> kc_seq c ! i \<and> s \<in> set [0..255]}) d"
  then show "reindexed c d \<and> mirrors (R - {(s, i) | s. s \<in> kc_seq c ! i \<and> s \<in> seq_ids_ok}) d"
    by (simp only: upto_255)
qed

lemma seq_pos_add_wp:
  assumes m: "mirrors R c" and i: "i < cells_size c"
  shows "wp (seq_pos_add i c) (\<lambda>d. reindexed c d \<and>
    mirrors (R \<union> {(s, i) | s. s \<in> kc_seq c ! i \<and> s \<in> seq_ids_ok}) d)"
  unfolding seq_pos_add_def
proof (rule wp_foreach [where I = "\<lambda>ys d. reindexed c d \<and>
    mirrors (R \<union> {(s, i) | s. s \<in> kc_seq c ! i \<and> s \<in> set ys}) d"])
  show "reindexed c c \<and> mirrors (R \<union> {(s, i) | s. s \<in> kc_seq c ! i \<and> s \<in> set []}) c"
    using m by simp
next
  fix ys y zs d
  assume split: "[0..255] = ys @ y # zs"
    and inv: "reindexed c d \<and> mirrors (R \<union> {(s, i) | s. s \<in> kc_seq c ! i \<and> s \<in> set ys}) d"
  let ?R = "R \<union> {(s, i) | s. s \<in> kc_seq c ! i \<and> s \<in> set ys}"
  let ?R' = "R \<union> {(s, i) | s. s \<in> kc_seq c ! i \<and> s \<in> set (ys @ [y])}"
  have y: "y \<in> seq_ids_ok" using upto_255 [of y] split by auto
  have d: "kc_seq d = kc_seq c" "kc_pos d = kc_pos c" using inv by (auto dest: reindexed_fields)
  show "wp (if y \<in> kc_seq d ! i then seq_pos_inc y i d else Some d) (\<lambda>d. reindexed c d \<and> mirrors ?R' d)"
  proof (cases "y \<in> kc_seq c ! i")
    case True
    have "?R' = insert (y, i) ?R" using True by auto
    then show ?thesis
      using seq_pos_inc_wp [of ?R d y i] inv y i d True
      by (auto intro: reindexed_trans elim!: wp_mono)
  next
    case False
    then have "?R' = ?R" by auto
    then show ?thesis using inv False d by simp
  qed
next
  fix d
  assume "reindexed c d \<and> mirrors (R \<union> {(s, i) | s. s \<in> kc_seq c ! i \<and> s \<in> set [0..255]}) d"
  then show "reindexed c d \<and> mirrors (R \<union> {(s, i) | s. s \<in> kc_seq c ! i \<and> s \<in> seq_ids_ok}) d"
    by (simp only: upto_255)
qed

section \<open>Every operation on a cell keeps the invariant and changes that cell only\<close>

text \<open>\<open>d\<close> is a well-formed state that differs from \<open>c\<close> at most in cell \<open>i\<close>, which holds \<open>x\<close>.\<close>

definition cell_updated :: "kv_cells \<Rightarrow> nat \<Rightarrow> kv_cell \<Rightarrow> kv_cells \<Rightarrow> bool" where
  "cell_updated c i x d = (cells_wf d \<and> cells_size d = cells_size c \<and> cell_at d = (cell_at c)(i := x))"

lemma cells_wfD:
  assumes "cells_wf c"
  shows "cells_shape c" "mirrors (carried c) c" "\<And>i. i < cells_size c \<Longrightarrow> cell_ok (cell_at c i)"
  using assms by (auto simp: cells_wf_def)

lemma shape_lengths:
  assumes "cells_shape c"
  shows "length (kc_ext c) = cells_size c" "length (kc_shift c) = cells_size c"
    "length (kc_seq c) = cells_size c" "length (kc_node_id c) = cells_size c"
    "length (kc_parent c) = cells_size c"
  using assms by (auto simp: cells_shape_def)

lemma cells_wf_lengths [simp]:
  assumes "cells_wf c"
  shows "length (kc_ext c) = cells_size c" "length (kc_shift c) = cells_size c"
    "length (kc_seq c) = cells_size c" "length (kc_node_id c) = cells_size c"
    "length (kc_parent c) = cells_size c"
  using shape_lengths [OF cells_wfD(1) [OF assms]] by simp_all

lemma cells_wf_used: "cells_wf c \<Longrightarrow> kc_used c = {i. i < cells_size c \<and> kc_pos c ! i \<noteq> -1}"
  by (drule cells_wfD(1)) (simp add: cells_shape_def)

lemma cells_wf_finite_used [simp]: "cells_wf c \<Longrightarrow> finite (kc_used c)"
  by (simp add: cells_wf_used)

lemma cells_wf_cell:
  assumes "cells_wf c" "i < cells_size c"
  shows "-1 \<le> kc_pos c ! i" "kc_seq c ! i \<subseteq> seq_ids_ok"
    "kc_pos c ! i = -1 \<Longrightarrow> kc_seq c ! i = {}"
  using cells_wfD(3) [OF assms] by (auto simp: cell_ok_def cell_at_def)

lemma cells_wf_seq_pos:
  "cells_wf c \<Longrightarrow> s \<in> seq_ids_ok \<Longrightarrow>
   kc_seq_pos c s = {(kc_pos c ! i, i) | i. i < cells_size c \<and> s \<in> kc_seq c ! i}"
  by (drule cells_wfD(2)) (simp add: mirrors_def carried_def)

lemma cells_wf_seq_pos_finite [simp]:
  "cells_wf c \<Longrightarrow> s \<in> seq_ids_ok \<Longrightarrow> finite (kc_seq_pos c s)"
proof -
  assume "cells_wf c" "s \<in> seq_ids_ok"
  then have "kc_seq_pos c s \<subseteq> (\<lambda>i. (kc_pos c ! i, i)) ` {..<cells_size c}"
    by (auto simp: cells_wf_seq_pos)
  then show ?thesis by (rule finite_subset) simp
qed

lemma cells_wf_bits:
  "cells_wf c \<Longrightarrow> s \<in> seq_ids_ok \<Longrightarrow>
   bits_at (kc_seq_bits c s) i \<longleftrightarrow> i < cells_size c \<and> s \<in> kc_seq c ! i"
  by (drule cells_wfD(2)) (simp add: mirrors_def carried_def)

lemma mirrors_cong:
  assumes "mirrors R c" "kc_seq_pos d = kc_seq_pos c" "kc_seq_bits d = kc_seq_bits c"
    "cells_size d = cells_size c" "\<And>s j. (s, j) \<in> R \<Longrightarrow> kc_pos d ! j = kc_pos c ! j"
  shows "mirrors R d"
  unfolding mirrors_def
proof (intro allI impI)
  fix s assume s: "s \<in> seq_ids_ok"
  have "{(kc_pos c ! i, i) | i. (s, i) \<in> R} = {(kc_pos d ! i, i) | i. (s, i) \<in> R}"
    using assms(5) by auto
  with assms(1) s show "kc_seq_pos d s = {(kc_pos d ! i, i) | i. (s, i) \<in> R} \<and>
     (\<forall>i. bits_at (kc_seq_bits d s) i = ((s, i) \<in> R)) \<and>
     (kc_seq_bits d s \<noteq> [] \<longrightarrow> cells_size d \<le> 64 * length (kc_seq_bits d s))"
    by (simp add: mirrors_def assms)
qed

abbreviation column :: "nat \<Rightarrow> llama_seq_id set \<Rightarrow> (llama_seq_id \<times> nat) set" where
  "column i S \<equiv> {(s, i) | s. s \<in> S}"

lemma cell_updatedI:
  assumes c: "cells_wf c" and i: "i < cells_size c" and sh: "cells_shape d"
    and sz: "cells_size d = cells_size c" and at: "cell_at d = (cell_at c)(i := x)" and ok: "cell_ok x"
    and m: "mirrors (carried c - column i (kc_seq c ! i) \<union> column i (cl_seq x)) d"
  shows "cell_updated c i x d"
proof -
  have seq: "kc_seq d ! j = (if j = i then cl_seq x else kc_seq c ! j)" for j
    using fun_cong [OF at, of j] by (auto simp: cell_at_def split: if_splits)
  have "carried d = carried c - column i (kc_seq c ! i) \<union> column i (cl_seq x)"
    using i by (auto simp: carried_def sz seq split: if_splits)
  moreover have "\<forall>j < cells_size d. cell_ok (cell_at d j)"
    using cells_wfD(3) [OF c] ok by (simp add: at sz)
  ultimately show ?thesis
    using m sh sz at by (simp add: cell_updated_def cells_wf_def)
qed

lemma cell_updatedD:
  assumes "cell_updated c i x d"
  shows "cells_wf d" "cells_size d = cells_size c" "cell_at d = (cell_at c)(i := x)"
  using assms by (simp_all add: cell_updated_def)

lemma column_restrict:
  assumes "cells_wf c" "i < cells_size c"
  shows "{(s, i) | s. s \<in> kc_seq c ! i \<and> s \<in> seq_ids_ok} = column i (kc_seq c ! i)"
  using cells_wf_cell(2) [OF assms] by auto

lemma cells_seq_pos_rm_wf:
  assumes c: "cells_wf c" and i: "i < cells_size c"
  shows "wp (seq_pos_rm i c) (\<lambda>d. reindexed c d \<and> mirrors (carried c - column i (kc_seq c ! i)) d)"
  using seq_pos_rm_wp [OF cells_wfD(2) [OF c] i] c i
  by (simp only: column_restrict [OF c i]) (auto simp: carried_def)

lemma shape_upd [simp]:
  assumes "cells_shape c" "i < cells_size c"
  shows "cells_shape (c\<lparr>kc_pos := (kc_pos c)[i := p], kc_ext := (kc_ext c)[i := e],
     kc_shift := (kc_shift c)[i := h], kc_seq := (kc_seq c)[i := S], kc_node_id := (kc_node_id c)[i := n],
     kc_parent := (kc_parent c)[i := q],
     kc_used := (if p = -1 then kc_used c - {i} else insert i (kc_used c)),
     kc_seq_pos := sp, kc_seq_bits := bs, kc_has_shift := b\<rparr>)"
  using assms by (auto simp: cells_shape_def nth_list_update split: if_splits)

lemma cells_shapeI:
  assumes "cells_shape c" "i < cells_size c" "cells_size d = cells_size c"
    "length (kc_ext d) = cells_size c" "length (kc_shift d) = cells_size c"
    "length (kc_seq d) = cells_size c" "length (kc_node_id d) = cells_size c"
    "length (kc_parent d) = cells_size c" "kc_pos d = (kc_pos c)[i := p]"
    "kc_used d = (if p = -1 then kc_used c - {i} else insert i (kc_used c))"
  shows "cells_shape d"
  using assms by (auto simp: cells_shape_def nth_list_update split: if_splits)

lemma cell_at_wipe:
  "cells_shape c \<Longrightarrow> i < cells_size c \<Longrightarrow>
   cell_at (wipe_cell i (c\<lparr>kc_seq := (kc_seq c)[i := {}]\<rparr>)) = (cell_at c)(i := empty_cell)"
  by (auto simp: wipe_cell_def cell_defs empty_cell_def fun_eq_iff nth_list_update)

lemma cell_ok_empty [simp]: "cell_ok empty_cell"
  by (simp add: cell_ok_def empty_cell_def)

lemma cl_seq_empty [simp]: "cl_seq empty_cell = {}"
  by (simp add: empty_cell_def)

lemma wipe_updated:
  assumes c: "cells_wf c" and i: "i < cells_size c" and d: "reindexed c d"
    and m: "mirrors (carried c - column i (kc_seq c ! i)) d"
  shows "cell_updated c i empty_cell (wipe_cell i (d\<lparr>kc_seq := (kc_seq d)[i := {}]\<rparr>))"
proof (rule cell_updatedI [OF c i])
  note f = reindexed_fields [OF d]
  have sh: "cells_shape d" using cells_wfD(1) [OF c] by (simp add: cells_shape_def f)
  show "cells_shape (wipe_cell i (d\<lparr>kc_seq := (kc_seq d)[i := {}]\<rparr>))"
    by (rule cells_shapeI [OF sh, of i _ "-1"]) (use i c f in \<open>simp_all add: wipe_cell_def\<close>)
  have "cell_at d = cell_at c" by (simp add: cell_at_def fun_eq_iff f)
  then show "cell_at (wipe_cell i (d\<lparr>kc_seq := (kc_seq d)[i := {}]\<rparr>)) = (cell_at c)(i := empty_cell)"
    using cell_at_wipe [OF sh] i f by simp
  show "mirrors (carried c - column i (kc_seq c ! i) \<union> column i (cl_seq empty_cell))
     (wipe_cell i (d\<lparr>kc_seq := (kc_seq d)[i := {}]\<rparr>))"
    by (rule mirrors_cong [of _ d])
      (use m in \<open>auto simp: wipe_cell_def f carried_def nth_list_update_neq\<close>, metis nth_list_update_neq)
qed (simp_all add: wipe_cell_def reindexed_fields [OF d])

lemma cells_rm_wp:
  assumes c: "cells_wf c" and i: "i < cells_size c" and p: "kc_pos c ! i \<noteq> -1"
  shows "wp (cells_rm i c) (\<lambda>d. cell_updated c i empty_cell d \<and> kc_has_shift d = kc_has_shift c)"
  using i p
  by (auto simp: cells_rm_def wp_simps intro!: wp_mono [OF cells_seq_pos_rm_wf [OF c i]] wipe_updated c)
    (auto simp: wipe_cell_def reindexed_fields)

lemma reindexed_shape [simp]: "reindexed c d \<Longrightarrow> cells_shape d = cells_shape c"
  by (simp add: cells_shape_def reindexed_fields)

lemma reindexed_cell_at: "reindexed c d \<Longrightarrow> cell_at d = cell_at c"
  by (simp add: cell_at_def fun_eq_iff reindexed_fields)

text \<open>The last step of an operation: the vectors were stored (\<open>e\<close>), then the indexes updated.\<close>

lemma store_updated:
  assumes c: "cells_wf c" and i: "i < cells_size c" and e: "cells_shape e" "cells_size e = cells_size c"
    and at: "cell_at e = (cell_at c)(i := x)" and ok: "cell_ok x" and d: "reindexed e d"
    and m: "mirrors (carried c - column i (kc_seq c ! i) \<union> column i (cl_seq x)) d"
  shows "cell_updated c i x d"
  by (rule cell_updatedI [OF c i]) (use assms in \<open>simp_all add: reindexed_cell_at reindexed_fields\<close>)

lemma cell_at_seq_upd:
  "cells_shape c \<Longrightarrow> i < cells_size c \<Longrightarrow>
   cell_at (c\<lparr>kc_seq := (kc_seq c)[i := S]\<rparr>) = (cell_at c)(i := (cell_at c i)\<lparr>cl_seq := S\<rparr>)"
  by (auto simp: cell_defs fun_eq_iff nth_list_update)

lemma shape_seq_upd [simp]: "cells_shape (c\<lparr>kc_seq := (kc_seq c)[i := S]\<rparr>) = cells_shape c"
  by (simp add: cells_shape_def)

lemma mirrors_seq_upd [simp]: "mirrors R (c\<lparr>kc_seq := S\<rparr>) = mirrors R c"
  by (simp add: mirrors_def)

lemma cells_seq_add_wp:
  assumes c: "cells_wf c" and i: "i < cells_size c" and p: "kc_pos c ! i \<noteq> -1"
    and s: "s \<in> seq_ids_ok" "s \<notin> kc_seq c ! i"
  shows "wp (cells_seq_add i s c) (\<lambda>d. cell_updated c i
    ((cell_at c i)\<lparr>cl_seq := insert s (kc_seq c ! i)\<rparr>) d \<and> kc_has_shift d = kc_has_shift c)"
proof -
  let ?e = "c\<lparr>kc_seq := (kc_seq c)[i := insert s (kc_seq c ! i)]\<rparr>"
  let ?x = "(cell_at c i)\<lparr>cl_seq := insert s (kc_seq c ! i)\<rparr>"
  note sh = cells_wfD(1) [OF c]
  have ok: "cell_ok ?x" using cells_wfD(3) [OF c i] s p by (auto simp: cell_ok_def cell_at_def)
  have R: "insert (s, i) (carried c) = carried c - column i (kc_seq c ! i) \<union> column i (cl_seq ?x)"
    using i by (auto simp: carried_def)
  have "wp (seq_pos_inc s i ?e) (\<lambda>d. reindexed ?e d \<and> mirrors (insert (s, i) (carried c)) d)"
    by (rule seq_pos_inc_wp) (use cells_wfD(2) [OF c] s i in auto)
  then have "wp (seq_pos_inc s i ?e) (\<lambda>d. cell_updated c i ?x d \<and> kc_has_shift d = kc_has_shift c)"
  proof (rule wp_mono)
    fix d assume d: "reindexed ?e d \<and> mirrors (insert (s, i) (carried c)) d"
    have "cell_updated c i ?x d"
      by (rule store_updated [OF c i _ _ cell_at_seq_upd [OF sh i] ok conjunct1 [OF d]])
        (use d sh R in auto)
    then show "cell_updated c i ?x d \<and> kc_has_shift d = kc_has_shift c"
      using reindexed_fields(8) [OF conjunct1 [OF d]] by simp
  qed
  then show ?thesis using i p s by (simp add: cells_seq_add_def wp_simps)
qed

text \<open>What \<open>seq_rm\<close> leaves in the cell.\<close>

definition cell_without :: "llama_seq_id \<Rightarrow> kv_cell \<Rightarrow> kv_cell" where
  "cell_without s x = (if cl_seq x - {s} = {} then empty_cell else x\<lparr>cl_seq := cl_seq x - {s}\<rparr>)"

lemma cells_seq_rm_wp:
  assumes c: "cells_wf c" and i: "i < cells_size c" and s: "s \<in> kc_seq c ! i"
  shows "wp (cells_seq_rm i s c) (\<lambda>(b, d). cell_updated c i (cell_without s (cell_at c i)) d \<and>
    b = (kc_seq c ! i = {s}) \<and> kc_has_shift d = kc_has_shift c)"
proof -
  let ?e = "c\<lparr>kc_seq := (kc_seq c)[i := kc_seq c ! i - {s}]\<rparr>"
  let ?x = "(cell_at c i)\<lparr>cl_seq := kc_seq c ! i - {s}\<rparr>"
  note sh = cells_wfD(1) [OF c]
  have sid: "s \<in> seq_ids_ok" and p: "kc_pos c ! i \<noteq> -1" using cells_wf_cell [OF c i] s by auto
  have R: "carried c - {(s, i)} = carried c - column i (kc_seq c ! i) \<union> column i (kc_seq c ! i - {s})"
    using i by (auto simp: carried_def)
  have dec: "wp (seq_pos_dec s i ?e) (\<lambda>d. reindexed ?e d \<and> mirrors (carried c - {(s, i)}) d)"
    by (rule seq_pos_dec_wp) (use cells_wfD(2) [OF c] sid s i in \<open>auto simp: carried_def\<close>)
  have main: "cell_updated c i (cell_without s (cell_at c i))
       (if kc_seq d ! i = {} then wipe_cell i d else d) \<and>
     kc_seq d ! i = kc_seq c ! i - {s} \<and> kc_has_shift d = kc_has_shift c"
    if d: "reindexed ?e d \<and> mirrors (carried c - {(s, i)}) d" for d
  proof (cases "kc_seq c ! i = {s}")
    case True
    let ?f = "d\<lparr>kc_seq := kc_seq c\<rparr>"
    have fe: "reindexed c ?f" using d by (clarsimp simp: reindexed_def) blast
    have df: "?f\<lparr>kc_seq := (kc_seq ?f)[i := {}]\<rparr> = d" using d True by (auto simp: reindexed_def)
    have "cell_updated c i empty_cell (wipe_cell i (?f\<lparr>kc_seq := (kc_seq ?f)[i := {}]\<rparr>))"
    proof (rule wipe_updated [OF c i fe])
      have "carried c - {(s, i)} = carried c - column i (kc_seq c ! i)" using R True by blast
      then show "mirrors (carried c - column i (kc_seq c ! i)) ?f" using d by simp
    qed
    then have "cell_updated c i empty_cell (wipe_cell i d)" by (simp only: df)
    moreover have "cell_without s (cell_at c i) = empty_cell" using True by (simp add: cell_without_def cell_at_def)
    moreover have "kc_seq d ! i = {}" "kc_has_shift d = kc_has_shift c"
      using reindexed_fields(4,8) [OF conjunct1 [OF d]] True i c by simp_all
    ultimately show ?thesis using True by (simp add: wipe_cell_def)
  next
    case False
    have "cell_updated c i ?x d"
      by (rule store_updated [OF c i _ _ cell_at_seq_upd [OF sh i] _ conjunct1 [OF d]])
        (use d sh R cells_wfD(3) [OF c i] p in \<open>auto simp: cell_ok_def cell_at_def\<close>)
    moreover have "kc_seq d ! i = kc_seq c ! i - {s}" "kc_has_shift d = kc_has_shift c"
      using reindexed_fields(4,8) [OF conjunct1 [OF d]] i c by simp_all
    moreover have "kc_seq c ! i - {s} \<noteq> {}" using False s by auto
    ultimately show ?thesis by (simp add: cell_without_def cell_at_def)
  qed
  have "wp (seq_pos_dec s i ?e) (\<lambda>d. case (if kc_seq d ! i = {} then (True, wipe_cell i d) else (False, d))
      of (b, d) \<Rightarrow> cell_updated c i (cell_without s (cell_at c i)) d \<and>
        b = (kc_seq c ! i = {s}) \<and> kc_has_shift d = kc_has_shift c)"
    using s by (intro wp_mono [OF dec]) (drule main, auto simp: wipe_cell_def split: if_splits)
  then show ?thesis
    using i s sid p by (simp add: cells_seq_rm_def wp_simps)
qed

text \<open>What \<open>seq_keep\<close> leaves in the cell.\<close>

definition cell_keep :: "llama_seq_id \<Rightarrow> kv_cell \<Rightarrow> kv_cell" where
  "cell_keep s x = (if s \<in> cl_seq x then x\<lparr>cl_seq := {s}\<rparr> else if cl_seq x \<noteq> {} then empty_cell else x)"

lemma cells_seq_keep_wp:
  assumes c: "cells_wf c" and i: "i < cells_size c" and s: "s \<in> seq_ids_ok"
    and p: "kc_seq c ! i = {} \<Longrightarrow> kc_pos c ! i = -1"
  shows "wp (cells_seq_keep i s c) (\<lambda>(b, d). cell_updated c i (cell_keep s (cell_at c i)) d \<and>
    b = (s \<notin> kc_seq c ! i \<and> kc_seq c ! i \<noteq> {}) \<and> kc_has_shift d = kc_has_shift c)"
proof -
  note sh = cells_wfD(1) [OF c]
  note rm = cells_seq_pos_rm_wf [OF c i]
  consider (has) "s \<in> kc_seq c ! i" | (other) "s \<notin> kc_seq c ! i" "kc_seq c ! i \<noteq> {}" | (none) "kc_seq c ! i = {}"
    by blast
  then show ?thesis
  proof cases
    case has
    have np: "kc_pos c ! i \<noteq> -1" using cells_wf_cell(3) [OF c i] has by auto
    have main: "wp (seq_pos_inc s i (d\<lparr>kc_seq := (kc_seq d)[i := {s}]\<rparr>)) (\<lambda>f.
        cell_updated c i ((cell_at c i)\<lparr>cl_seq := {s}\<rparr>) f \<and> kc_has_shift f = kc_has_shift c)"
      if d: "reindexed c d \<and> mirrors (carried c - column i (kc_seq c ! i)) d" for d
    proof -
      let ?e = "d\<lparr>kc_seq := (kc_seq d)[i := {s}]\<rparr>"
      let ?R = "insert (s, i) (carried c - column i (kc_seq c ! i))"
      have shd: "cells_shape d" and szd: "cells_size d = cells_size c" and atd: "cell_at d = cell_at c"
        using d sh by (auto simp: reindexed_fields reindexed_cell_at)
      have "wp (seq_pos_inc s i ?e) (\<lambda>f. reindexed ?e f \<and> mirrors ?R f)"
        by (rule seq_pos_inc_wp) (use d s i szd in auto)
      then show ?thesis
      proof (rule wp_mono)
        fix f assume f: "reindexed ?e f \<and> mirrors ?R f"
        have at: "cell_at ?e = (cell_at c)(i := (cell_at c i)\<lparr>cl_seq := {s}\<rparr>)"
          using cell_at_seq_upd [OF shd, of i "{s}"] i szd atd by simp
        have "cell_updated c i ((cell_at c i)\<lparr>cl_seq := {s}\<rparr>) f"
          by (rule store_updated [OF c i _ _ at _ conjunct1 [OF f]])
            (use f shd szd s np cells_wfD(3) [OF c i] in \<open>auto simp: cell_ok_def cell_at_def\<close>)
        moreover have "kc_has_shift f = kc_has_shift c"
          using reindexed_fields(8) [OF conjunct1 [OF f]] reindexed_fields(8) [OF conjunct1 [OF d]] by simp
        ultimately show "cell_updated c i ((cell_at c i)\<lparr>cl_seq := {s}\<rparr>) f \<and> kc_has_shift f = kc_has_shift c"
          by simp
      qed
    qed
    have keep: "cell_keep s (cell_at c i) = (cell_at c i)\<lparr>cl_seq := {s}\<rparr>"
      using has by (simp add: cell_keep_def cell_at_def)
    show ?thesis using i s has
      by (auto simp: cells_seq_keep_def wp_simps keep intro!: wp_mono [OF rm] wp_mono [OF main])
  next
    case other
    have keep: "cell_keep s (cell_at c i) = empty_cell"
      using other by (simp add: cell_keep_def cell_at_def)
    have "wp (seq_pos_rm i c) (\<lambda>d. cell_updated c i empty_cell (wipe_cell i (d\<lparr>kc_seq := (kc_seq d)[i := {}]\<rparr>))
        \<and> kc_has_shift d = kc_has_shift c)"
      by (rule wp_mono [OF rm]) (auto intro: wipe_updated [OF c i] simp: reindexed_fields)
    then show ?thesis using i s other
      by (simp add: cells_seq_keep_def wp_simps keep) (auto simp: wipe_cell_def elim!: wp_mono)
  next
    case none
    then show ?thesis using i s p c cells_wfD(3) [OF c]
      by (auto simp: cells_seq_keep_def wp_simps cell_keep_def cell_at_def cell_updated_def fun_eq_iff)
  qed
qed

lemma pos_set_wp:
  assumes c: "cells_wf c" and i: "i < cells_size c" and p: "kc_pos c ! i = -1" and q: "0 \<le> q"
  shows "wp (pos_set i q c) (\<lambda>d. cell_updated c i ((cell_at c i)\<lparr>cl_pos := q\<rparr>) d \<and>
    kc_has_shift d = kc_has_shift c)"
proof -
  let ?d = "c\<lparr>kc_pos := (kc_pos c)[i := q], kc_used := insert i (kc_used c)\<rparr>"
  have e: "kc_seq c ! i = {}" using cells_wf_cell(3) [OF c i p] .
  have "cell_updated c i ((cell_at c i)\<lparr>cl_pos := q\<rparr>) ?d"
  proof (rule cell_updatedI [OF c i])
    show "cells_shape ?d"
      by (rule cells_shapeI [OF cells_wfD(1) [OF c] i, of _ q]) (use c q in simp_all)
    show "cell_at ?d = (cell_at c)(i := (cell_at c i)\<lparr>cl_pos := q\<rparr>)"
      using i by (auto simp: cell_at_def fun_eq_iff)
    show "mirrors (carried c - column i (kc_seq c ! i) \<union> column i (cl_seq ((cell_at c i)\<lparr>cl_pos := q\<rparr>))) ?d"
      by (rule mirrors_cong [of _ c])
        (use cells_wfD(2) [OF c] e in \<open>auto simp: cell_at_def carried_def\<close>, metis nth_list_update_neq empty_iff)
  qed (use q e in \<open>auto simp: cell_ok_def cell_at_def\<close>)
  then show ?thesis using i p e by (simp add: pos_set_def wp_simps)
qed

text \<open>Stores that touch neither \<open>pos\<close> nor \<open>seq\<close>.\<close>

lemma data_store_updated:
  assumes c: "cells_wf c" and i: "i < cells_size c" and "cells_shape d" "kc_pos d = kc_pos c"
    "kc_seq d = kc_seq c" "kc_seq_pos d = kc_seq_pos c" "kc_seq_bits d = kc_seq_bits c"
    and at: "cell_at d = (cell_at c)(i := x)"
  shows "cell_updated c i x d"
proof -
  have x: "cl_pos x = kc_pos c ! i" "cl_seq x = kc_seq c ! i"
    using arg_cong [OF fun_cong [OF at, of i], of cl_pos] arg_cong [OF fun_cong [OF at, of i], of cl_seq]
      assms(4,5) by (simp_all add: cell_at_def)
  have "carried d = carried c" using assms by (simp add: carried_def)
  moreover have "mirrors (carried c) d"
    by (rule mirrors_cong [OF cells_wfD(2) [OF c]]) (use assms in auto)
  moreover have "\<forall>j < cells_size d. cell_ok (cell_at d j)"
    using cells_wfD(3) [OF c] assms(4,5) by (simp add: cell_ok_def cell_at_def)
  ultimately show ?thesis using assms by (simp add: cell_updated_def cells_wf_def)
qed

lemma ext_set_wp:
  assumes c: "cells_wf c" and i: "i < cells_size c"
  shows "wp (ext_set i e c) (\<lambda>d. cell_updated c i ((cell_at c i)\<lparr>cl_ext := e\<rparr>) d \<and>
    kc_has_shift d = kc_has_shift c)"
proof -
  have "cell_updated c i ((cell_at c i)\<lparr>cl_ext := e\<rparr>) (c\<lparr>kc_ext := (kc_ext c)[i := e]\<rparr>)"
  proof (rule data_store_updated [OF c i])
    show "cells_shape (c\<lparr>kc_ext := (kc_ext c)[i := e]\<rparr>)"
      using cells_wfD(1) [OF c] by (simp add: cells_shape_def)
    show "cell_at (c\<lparr>kc_ext := (kc_ext c)[i := e]\<rparr>) = (cell_at c)(i := (cell_at c i)\<lparr>cl_ext := e\<rparr>)"
      using c i by (auto simp: cell_at_def fun_eq_iff)
  qed simp_all
  then show ?thesis using c i by (simp add: ext_set_def wp_simps)
qed

lemma node_id_set_wp:
  assumes c: "cells_wf c" and i: "i < cells_size c"
  shows "wp (node_id_set i n p c) (\<lambda>d. cell_updated c i ((cell_at c i)\<lparr>cl_node := n, cl_parent := p\<rparr>) d \<and>
    kc_has_shift d = kc_has_shift c)"
proof -
  let ?d = "c\<lparr>kc_node_id := (kc_node_id c)[i := n], kc_parent := (kc_parent c)[i := p]\<rparr>"
  have "cell_updated c i ((cell_at c i)\<lparr>cl_node := n, cl_parent := p\<rparr>) ?d"
  proof (rule data_store_updated [OF c i])
    show "cells_shape ?d" using cells_wfD(1) [OF c] by (simp add: cells_shape_def)
    show "cell_at ?d = (cell_at c)(i := (cell_at c i)\<lparr>cl_node := n, cl_parent := p\<rparr>)"
      using c i by (auto simp: cell_at_def fun_eq_iff)
  qed simp_all
  then show ?thesis using c i by (simp add: node_id_set_def wp_simps)
qed

text \<open>Take the cell out of the indexes, store it, put it back: \<open>set\<close>, \<open>pos_add\<close> and \<open>pos_div\<close>.\<close>

lemma cell_at_pos: "cell_at d = (cell_at c)(i := x) \<Longrightarrow> kc_pos d ! j = (if j = i then cl_pos x else kc_pos c ! j)"
  by (drule fun_cong [of _ _ j]) (auto simp: cell_at_def split: if_splits)

lemma cell_at_seq: "cell_at d = (cell_at c)(i := x) \<Longrightarrow> kc_seq d ! j = (if j = i then cl_seq x else kc_seq c ! j)"
  by (drule fun_cong [of _ _ j]) (auto simp: cell_at_def split: if_splits)

lemma mirrors_store:
  assumes m: "mirrors (carried c - column i (kc_seq c ! i)) d" and d: "reindexed c d"
    and e: "kc_seq_pos e = kc_seq_pos d" "kc_seq_bits e = kc_seq_bits d" "cells_size e = cells_size c"
    and at: "cell_at e = (cell_at c)(i := x)"
  shows "mirrors (carried c - column i (kc_seq c ! i)) e"
  by (rule mirrors_cong [OF m e(1,2)])
    (use e reindexed_fields [OF d] cell_at_pos [OF at] in \<open>auto simp: carried_def\<close>)

lemma restore_wp:
  assumes c: "cells_wf c" and i: "i < cells_size c" and d: "reindexed c d"
    and m: "mirrors (carried c - column i (kc_seq c ! i)) d"
    and e: "kc_seq_pos e = kc_seq_pos d" "kc_seq_bits e = kc_seq_bits d" "cells_size e = cells_size c"
      "cells_shape e" "cell_at e = (cell_at c)(i := x)" and ok: "cell_ok x"
  shows "wp (seq_pos_add i e) (\<lambda>f. cell_updated c i x f \<and> reindexed e f)"
proof -
  have me: "mirrors (carried c - column i (kc_seq c ! i)) e"
    by (rule mirrors_store [OF m d e(1,2,3,5)])
  have "{(s, i) | s. s \<in> kc_seq e ! i \<and> s \<in> seq_ids_ok} = column i (cl_seq x)"
    using ok cell_at_seq [OF e(5), of i] by (auto simp: cell_ok_def)
  then have "wp (seq_pos_add i e) (\<lambda>f. reindexed e f \<and>
      mirrors (carried c - column i (kc_seq c ! i) \<union> column i (cl_seq x)) f)"
    using seq_pos_add_wp [OF me, of i] i e(3) by simp
  then show ?thesis
    by (rule wp_mono) (use store_updated [OF c i e(4,3,5) ok] in auto)
qed

definition cell_shifted :: "llama_pos \<Rightarrow> kv_cell \<Rightarrow> kv_cell" where
  "cell_shifted d x = (if cl_pos x + d < 0
     then x\<lparr>cl_pos := -1, cl_shift := 0, cl_seq := {}, cl_node := -1, cl_parent := -1\<rparr>
     else x\<lparr>cl_pos := cl_pos x + d, cl_shift := cl_shift x + d\<rparr>)"

lemma pos_add_wp:
  assumes c: "cells_wf c" and i: "i < cells_size c" and p: "kc_pos c ! i \<noteq> -1"
    and ov: "in_i32 (kc_pos c ! i + d)" "in_i32 (kc_shift c ! i + d)"
  shows "wp (pos_add i d c) (\<lambda>(b, f). cell_updated c i (cell_shifted d (cell_at c i)) f \<and>
    b = (kc_pos c ! i + d < 0) \<and> kc_has_shift f)"
proof -
  note sh = cells_wfD(1) [OF c]
  note ok = cells_wfD(3) [OF c i]
  have p0: "0 \<le> kc_pos c ! i" using cells_wf_cell(1) [OF c i] p by simp
  have main: "wp (if kc_pos c ! i + d < 0 then Some (True, e\<lparr>kc_seq := (kc_seq e)[i := {}],
         kc_pos := (kc_pos e)[i := -1], kc_shift := (kc_shift e)[i := 0], kc_node_id := (kc_node_id e)[i := -1],
         kc_parent := (kc_parent e)[i := -1], kc_used := kc_used e - {i}\<rparr>)
       else do { f \<leftarrow> seq_pos_add i e; Some (False, f) })
     (\<lambda>(b, f). cell_updated c i (cell_shifted d (cell_at c i)) f \<and> b = (kc_pos c ! i + d < 0) \<and> kc_has_shift f)"
    if a: "reindexed c a" "mirrors (carried c - column i (kc_seq c ! i)) a"
      and e: "e = a\<lparr>kc_pos := (kc_pos a)[i := kc_pos c ! i + d], kc_shift := (kc_shift a)[i := kc_shift c ! i + d],
               kc_has_shift := True\<rparr>" for a e
  proof (cases "kc_pos c ! i + d < 0")
    case True
    let ?f = "e\<lparr>kc_seq := (kc_seq e)[i := {}],
         kc_pos := (kc_pos e)[i := -1], kc_shift := (kc_shift e)[i := 0], kc_node_id := (kc_node_id e)[i := -1],
         kc_parent := (kc_parent e)[i := -1], kc_used := kc_used e - {i}\<rparr>"
    let ?x = "cell_shifted d (cell_at c i)"
    note fl = reindexed_fields [OF a(1)]
    have at: "cell_at ?f = (cell_at c)(i := ?x)"
      using True i c by (auto simp: e cell_at_def fl cell_shifted_def fun_eq_iff)
    have "cell_updated c i ?x ?f"
    proof (rule cell_updatedI [OF c i _ _ at])
      show "cells_shape ?f"
        by (rule cells_shapeI [OF sh i, of _ "-1"]) (use c in \<open>simp_all add: e fl\<close>)
      show "cell_ok ?x" using ok True by (auto simp: cell_ok_def cell_shifted_def)
      have "cl_seq ?x = {}" using True by (simp add: cell_shifted_def cell_at_def)
      then show "mirrors (carried c - column i (kc_seq c ! i) \<union> column i (cl_seq ?x)) ?f"
        using mirrors_store [OF a(2,1) _ _ _ at] by (simp add: e fl)
    qed (simp add: e fl)
    then show ?thesis using True by (simp add: e)
  next
    case False
    let ?x = "cell_shifted d (cell_at c i)"
    note fl = reindexed_fields [OF a(1)]
    have at: "cell_at e = (cell_at c)(i := ?x)"
      using False i c by (auto simp: e cell_at_def fl cell_shifted_def fun_eq_iff)
    have "cells_shape e"
      by (rule cells_shapeI [OF sh i, of _ "kc_pos c ! i + d"])
        (use c i p False cells_wf_used [OF c] in \<open>auto simp: e fl\<close>)
    moreover have "cell_ok ?x" using ok False by (auto simp: cell_ok_def cell_shifted_def)
    ultimately have "wp (seq_pos_add i e) (\<lambda>f. cell_updated c i ?x f \<and> reindexed e f)"
      by (intro restore_wp [OF c i a]) (use at in \<open>simp_all add: e fl\<close>)
    then show ?thesis using False
      by (auto simp: wp_simps elim!: wp_mono) (simp add: reindexed_fields e)
  qed
  show ?thesis using i p ov
    unfolding pos_add_def
    by (simp add: wp_simps reindexed_fields)
      (rule wp_mono [OF cells_seq_pos_rm_wf [OF c i]], use main in \<open>auto simp: wp_simps reindexed_fields\<close>)
qed

lemma cell_at_has_shift [simp]: "cell_at (f\<lparr>kc_has_shift := b\<rparr>) = cell_at f"
  by (simp add: cell_at_def fun_eq_iff)

lemma cells_wf_has_shift [simp]: "cells_wf (f\<lparr>kc_has_shift := b\<rparr>) = cells_wf f"
  by (simp add: cells_wf_def cells_shape_def mirrors_def carried_def del: cells_wf_lengths)

definition cell_divided :: "int \<Rightarrow> kv_cell \<Rightarrow> kv_cell" where
  "cell_divided d x = x\<lparr>cl_pos := cl_pos x div d, cl_shift := cl_shift x + (cl_pos x - cl_pos x div d)\<rparr>"

lemma pos_div_wp:
  assumes c: "cells_wf c" and i: "i < cells_size c" and p: "kc_pos c ! i \<noteq> -1" and d: "0 < d"
    and ov: "in_i32 (kc_pos c ! i)" "in_i32 (kc_shift c ! i + (kc_pos c ! i - kc_pos c ! i div d))"
  shows "wp (pos_div i d c) (\<lambda>f. cell_updated c i (cell_divided d (cell_at c i)) f \<and> kc_has_shift f)"
proof -
  let ?x = "cell_divided d (cell_at c i)"
  note sh = cells_wfD(1) [OF c]
  have p0: "0 \<le> kc_pos c ! i" using cells_wf_cell(1) [OF c i] p by simp
  have q: "0 \<le> kc_pos c ! i div d" "kc_pos c ! i div d \<le> kc_pos c ! i"
    using p0 d zdiv_mono2 [of "kc_pos c ! i" 1 d] by (auto simp: pos_imp_zdiv_nonneg_iff)
  have qn: "kc_pos c ! i div d \<noteq> -1" using q by linarith
  have ov2: "in_i32 (kc_pos c ! i div d)" "in_i32 (kc_pos c ! i - kc_pos c ! i div d)"
    using q ov(1) by (auto simp: in_i32_def)
  have main: "wp (seq_pos_add i e) (\<lambda>f. cell_updated c i ?x (f\<lparr>kc_has_shift := True\<rparr>))"
    if a: "reindexed c a \<and> mirrors (carried c - column i (kc_seq c ! i)) a"
      and e: "e = a\<lparr>kc_pos := (kc_pos c)[i := kc_pos c ! i div d],
        kc_shift := (kc_shift c)[i := kc_shift c ! i + (kc_pos c ! i - kc_pos c ! i div d)]\<rparr>" for a e
  proof -
    note fl = reindexed_fields [OF conjunct1 [OF a]]
    have at: "cell_at e = (cell_at c)(i := ?x)"
      using i c by (auto simp: e cell_at_def fl cell_divided_def fun_eq_iff)
    have "cells_shape e"
      by (rule cells_shapeI [OF sh i, of _ "kc_pos c ! i div d"])
        (use c i p qn cells_wf_used [OF c] in \<open>simp_all add: e fl insert_absorb\<close>)
    moreover have "cell_ok ?x"
      using cells_wfD(3) [OF c i] q(1) qn by (simp add: cell_ok_def cell_divided_def cell_at_def)
    ultimately have "wp (seq_pos_add i e) (\<lambda>f. cell_updated c i ?x f \<and> reindexed e f)"
      by (intro restore_wp [OF c i conjunct1 [OF a] conjunct2 [OF a]]) (use at in \<open>simp_all add: e fl\<close>)
    then show ?thesis
    proof (rule wp_mono)
      fix f assume f: "cell_updated c i ?x f \<and> reindexed e f"
      then show "cell_updated c i ?x (f\<lparr>kc_has_shift := True\<rparr>)"
        by (simp add: cell_updated_def)
    qed
  qed
  show ?thesis using i p ov ov2 d p0
    unfolding pos_div_def
    by (simp add: wp_simps reindexed_fields)
      (rule wp_mono [OF cells_seq_pos_rm_wf [OF c i]], use main in \<open>auto simp: wp_simps reindexed_fields\<close>)
qed

section \<open>Saving and restoring cells\<close>

text \<open>The data a \<open>cp\<close> result carries: five parallel vectors of cells that may be stored.\<close>

definition cells_data_ok :: "kv_cells \<Rightarrow> bool" where
  "cells_data_ok b = (length (kc_ext b) = cells_size b \<and> length (kc_shift b) = cells_size b \<and>
     length (kc_seq b) = cells_size b \<and> length (kc_node_id b) = cells_size b \<and>
     length (kc_parent b) = cells_size b \<and> (\<forall>i < cells_size b. cell_ok (cell_at b i)))"

lemma unindex_wp:
  assumes c: "cells_wf c" and i: "i < cells_size c"
  shows "wp (if kc_pos c ! i \<noteq> -1 then seq_pos_rm i (c\<lparr>kc_used := U\<rparr>) else Some (c\<lparr>kc_used := U\<rparr>))
     (\<lambda>a. reindexed (c\<lparr>kc_used := U\<rparr>) a \<and> mirrors (carried c - column i (kc_seq c ! i)) a)"
proof (cases "kc_pos c ! i = -1")
  case True
  then have "kc_seq c ! i = {}" by (rule cells_wf_cell(3) [OF c i])
  then have "carried c - column i (kc_seq c ! i) = carried c" by auto
  then show ?thesis using cells_wfD(2) [OF c] True by (simp add: mirrors_def)
next
  case False
  let ?c = "c\<lparr>kc_used := U\<rparr>"
  have "mirrors (carried c) ?c" using cells_wfD(2) [OF c] by (simp add: mirrors_def)
  then have "wp (seq_pos_rm i ?c) (\<lambda>d. reindexed ?c d \<and>
      mirrors (carried c - {(s, i) | s. s \<in> kc_seq ?c ! i \<and> s \<in> seq_ids_ok}) d)"
    by (rule seq_pos_rm_wp) (use i in \<open>auto simp: carried_def\<close>)
  moreover have "{(s, i) | s. s \<in> kc_seq ?c ! i \<and> s \<in> seq_ids_ok} = column i (kc_seq c ! i)"
    using column_restrict [OF c i] by simp
  ultimately show ?thesis using False by (simp only: simp_thms if_True)
qed

lemma store_cell_wp:
  fixes oth j
  defines "x \<equiv> (cell_at oth j)\<lparr>cl_shift := 0\<rparr>" and "q \<equiv> kc_pos oth ! j"
  assumes c: "cells_wf c" and i: "i < cells_size c" and okx: "cell_ok x" and sh0: "kc_shift c ! i = 0"
    and U: "U = (if q = -1 then kc_used c - {i} else insert i (kc_used c))"
    and a: "reindexed (c\<lparr>kc_used := U\<rparr>) a" and m: "mirrors (carried c - column i (kc_seq c ! i)) a"
    and e: "e = a\<lparr>kc_pos := (kc_pos c)[i := q], kc_ext := (kc_ext c)[i := kc_ext oth ! j],
      kc_seq := (kc_seq c)[i := kc_seq oth ! j], kc_node_id := (kc_node_id c)[i := kc_node_id oth ! j],
      kc_parent := (kc_parent c)[i := kc_parent oth ! j]\<rparr>"
  shows "wp (if q \<noteq> -1 then seq_pos_add i e else Some e) (\<lambda>f. kc_shift f ! i = 0 \<and>
      cell_updated c i x f \<and> kc_has_shift f = kc_has_shift c)"
proof -
  note fl = reindexed_fields [OF a, simplified]
  have at: "cell_at e = (cell_at c)(i := x)"
    using i c sh0 by (auto simp: e cell_at_def fl fun_eq_iff x_def q_def)
  have she: "cells_shape e"
    by (rule cells_shapeI [OF cells_wfD(1) [OF c] i, of _ q]) (use c i U in \<open>simp_all add: e fl\<close>)
  have sze: "cells_size e = cells_size c" "kc_shift e ! i = 0" "kc_has_shift e = kc_has_shift c"
    using sh0 i by (simp_all add: e fl)
  let ?R = "carried c - column i (kc_seq c ! i)"
  have me: "mirrors ?R e"
    by (rule mirrors_cong [of _ a])
      (use m cell_at_pos [OF at] sze in \<open>auto simp: e fl carried_def nth_list_update split: if_splits\<close>)
  show ?thesis
  proof (cases "q = -1")
    case True
    then have "cl_seq x = {}" using okx by (simp add: cell_ok_def cell_at_def x_def q_def)
    then show ?thesis using cell_updatedI [OF c i she sze(1) at okx] me True sze by simp
  next
    case False
    have col: "{(s, i) | s. s \<in> kc_seq e ! i \<and> s \<in> seq_ids_ok} = column i (cl_seq x)"
      using okx cell_at_seq [OF at, of i] by (auto simp: cell_ok_def)
    have "wp (seq_pos_add i e) (\<lambda>f. reindexed e f \<and> mirrors (?R \<union> column i (cl_seq x)) f)"
      using seq_pos_add_wp [OF me, of i] i sze(1) unfolding col by simp
    then have "wp (seq_pos_add i e) (\<lambda>f. kc_shift f ! i = 0 \<and>
        cell_updated c i x f \<and> kc_has_shift f = kc_has_shift c)"
      by (rule wp_mono)
        (use store_updated [OF c i she sze(1) at okx] sze in \<open>auto simp: reindexed_fields\<close>)
    then show ?thesis using False by simp
  qed
qed

lemma set_cell_wp:
  assumes c: "cells_wf c" and i: "i < cells_size c" and ok: "cell_ok (cell_at oth j)"
    and sh0: "kc_shift c ! i = 0"
  shows "wp (set_cell oth i j c) (\<lambda>d. cell_updated c i ((cell_at oth j)\<lparr>cl_shift := 0\<rparr>) d \<and>
    kc_has_shift d = kc_has_shift c)"
proof -
  let ?p = "kc_pos c ! i" and ?q = "kc_pos oth ! j"
  let ?U = "if ?q = -1 then kc_used c - {i} else insert i (kc_used c)"
  let ?e = "\<lambda>a. a\<lparr>kc_pos := (kc_pos a)[i := ?q], kc_ext := (kc_ext a)[i := kc_ext oth ! j],
        kc_seq := (kc_seq a)[i := kc_seq oth ! j], kc_node_id := (kc_node_id a)[i := kc_node_id oth ! j],
        kc_parent := (kc_parent a)[i := kc_parent oth ! j]\<rparr>"
  have okx: "cell_ok ((cell_at oth j)\<lparr>cl_shift := 0\<rparr>)" using ok by (simp add: cell_ok_def)
  have U: "(let d = (if ?p = -1 \<and> ?q \<noteq> -1 then c\<lparr>kc_used := insert i (kc_used c)\<rparr> else c)
      in if ?p \<noteq> -1 \<and> ?q = -1 then d\<lparr>kc_used := kc_used d - {i}\<rparr> else d) = c\<lparr>kc_used := ?U\<rparr>"
    using cells_wf_used [OF c] i by (auto simp: insert_absorb intro: arg_cong [of _ _ "\<lambda>U. c\<lparr>kc_used := U\<rparr>"])
  have set: "set_cell oth i j c = do {
      a \<leftarrow> (if ?p \<noteq> -1 then seq_pos_rm i (c\<lparr>kc_used := ?U\<rparr>) else Some (c\<lparr>kc_used := ?U\<rparr>));
      f \<leftarrow> (if ?q \<noteq> -1 then seq_pos_add i (?e a) else Some (?e a));
      ensure (kc_shift f ! i = 0);
      Some f }"
    unfolding U [symmetric] using i by (simp add: set_cell_def vget_def Let_def)
  show ?thesis unfolding set wp_bind
  proof (rule wp_mono [OF unindex_wp [OF c i]])
    fix a assume a: "reindexed (c\<lparr>kc_used := ?U\<rparr>) a \<and> mirrors (carried c - column i (kc_seq c ! i)) a"
    note fl = reindexed_fields [OF conjunct1 [OF a], unfolded kv_cells.simps]
    show "wp (if ?q \<noteq> -1 then seq_pos_add i (?e a) else Some (?e a)) (\<lambda>f. wp (ensure (kc_shift f ! i = 0))
        (\<lambda>_. wp (Some f) (\<lambda>d. cell_updated c i ((cell_at oth j)\<lparr>cl_shift := 0\<rparr>) d \<and>
          kc_has_shift d = kc_has_shift c)))"
      by (rule wp_mono [OF store_cell_wp [OF c i okx sh0 refl conjunct1 [OF a] conjunct2 [OF a]]])
        (simp_all add: fl)
  qed
qed

text \<open>The whole-object operations.\<close>

lemma cells_resize_empty: "i < n \<Longrightarrow> cell_at (cells_resize n c) i = empty_cell"
  by (simp add: cells_resize_def cells_reset_def cell_at_def empty_cell_def)

lemma cells_size_resize [simp]: "cells_size (cells_resize n c) = n"
  by (simp add: cells_resize_def cells_reset_def)

lemma cells_size_reset [simp]: "cells_size (cells_reset c) = cells_size c"
  by (simp add: cells_reset_def)

lemma cells_reset_empty: "cells_shape c \<Longrightarrow> i < cells_size c \<Longrightarrow> cell_at (cells_reset c) i = empty_cell"
  by (simp add: cells_reset_def cell_at_def empty_cell_def cells_shape_def)

lemma cells_wf_reset:
  assumes "length (kc_ext c) = cells_size c" "length (kc_shift c) = cells_size c"
    "length (kc_seq c) = cells_size c" "length (kc_node_id c) = cells_size c"
    "length (kc_parent c) = cells_size c"
    "\<And>s. s \<in> seq_ids_ok \<Longrightarrow> kc_seq_bits c s \<noteq> [] \<Longrightarrow> cells_size c \<le> 64 * length (kc_seq_bits c s)"
  shows "cells_wf (cells_reset c)"
proof -
  have car: "carried (cells_reset c) = {}" using assms(3) by (auto simp: carried_def cells_reset_def)
  have "cells_shape (cells_reset c)"
    using assms by (simp add: cells_shape_def cells_reset_def cong: conj_cong)
  moreover have "mirrors {} (cells_reset c)"
    using assms(6) by (simp add: mirrors_def cells_reset_def)
  moreover have "\<forall>i < cells_size (cells_reset c). cell_ok (cell_at (cells_reset c) i)"
    using assms by (simp add: cells_reset_def cell_at_def cell_ok_def)
  ultimately show ?thesis by (simp add: cells_wf_def car)
qed

lemma cells_wf_resize [simp]: "cells_wf (cells_resize n c)"
  unfolding cells_resize_def by (rule cells_wf_reset) simp_all

lemma cells_reset_wf: "cells_wf c \<Longrightarrow> cells_wf (cells_reset c)"
  by (rule cells_wf_reset) (use cells_wfD(2) [of c] in \<open>auto simp: mirrors_def\<close>)

lemma cells_data_ok_of_wf: "cells_wf c \<Longrightarrow> cells_data_ok c"
  by (simp add: cells_data_ok_def cells_wfD(3))

lemma cells_reset_shift_wf:
  assumes c: "cells_wf c"
  shows "cells_wf (cells_reset_shift c)" "cells_size (cells_reset_shift c) = cells_size c"
    "i < cells_size c \<Longrightarrow> cell_at (cells_reset_shift c) i = (cell_at c i)\<lparr>cl_shift := 0\<rparr>"
    "\<not> kc_has_shift (cells_reset_shift c)"
proof -
  let ?d = "cells_reset_shift c"
  show sz: "cells_size ?d = cells_size c" and "\<not> kc_has_shift ?d"
    by (simp_all add: cells_reset_shift_def)
  show at: "i < cells_size c \<Longrightarrow> cell_at ?d i = (cell_at c i)\<lparr>cl_shift := 0\<rparr>" for i
    using c by (simp add: cells_reset_shift_def cell_at_def)
  have "carried ?d = carried c" by (simp add: carried_def cells_reset_shift_def)
  moreover have "mirrors (carried c) ?d"
    by (rule mirrors_cong [OF cells_wfD(2) [OF c]]) (simp_all add: cells_reset_shift_def)
  moreover have "cells_shape ?d"
    using cells_wfD(1) [OF c] by (simp add: cells_shape_def cells_reset_shift_def)
  moreover have "\<forall>i < cells_size ?d. cell_ok (cell_at ?d i)"
    using cells_wfD(3) [OF c] by (simp add: at sz cell_ok_def)
  ultimately show "cells_wf ?d" by (simp add: cells_wf_def)
qed

text \<open>The same vectors, cut to \<open>n\<close> cells: nothing but unused cells may be cut off.\<close>

lemma cells_truncate_wp:
  assumes c: "cells_wf c" and n: "used_max_p1 c \<le> n" "n \<le> cells_size c"
  shows "wp (cells_truncate n c) (\<lambda>d. cells_wf d \<and> cells_size d = n \<and>
    (\<forall>i < n. cell_at d i = cell_at c i) \<and> kc_has_shift d = kc_has_shift c)"
proof -
  let ?d = "c\<lparr>kc_pos := vec_resize n 0 (kc_pos c), kc_ext := vec_resize n ext_reset (kc_ext c),
       kc_shift := vec_resize n 0 (kc_shift c), kc_seq := vec_resize n {} (kc_seq c),
       kc_node_id := vec_resize n 0 (kc_node_id c), kc_parent := vec_resize n 0 (kc_parent c)\<rparr>"
  have pos: "kc_pos c ! i = -1" if "n \<le> i" "i < cells_size c" for i
  proof (rule ccontr)
    assume "kc_pos c ! i \<noteq> -1"
    then have "i \<in> kc_used c" using cells_wf_used [OF c] that by simp
    moreover from this have "i \<le> Max (kc_used c)" using c by simp
    ultimately show False using n that by (auto simp: used_max_p1_def split: if_splits)
  qed
  have at: "cell_at ?d i = cell_at c i" if "i < n" for i
    using that n c by (simp add: cell_at_def nth_vec_resize)
  have car: "carried ?d = carried c"
  proof (rule set_eqI)
    fix si :: "int \<times> nat"
    obtain s i where si: "si = (s, i)" by (cases si)
    show "si \<in> carried ?d \<longleftrightarrow> si \<in> carried c"
      using n c pos [of i] cells_wf_cell(3) [OF c, of i] by (cases "i < n") (auto simp: si carried_def nth_vec_resize)
  qed
  have used: "kc_used c = {i. i < n \<and> vec_resize n 0 (kc_pos c) ! i \<noteq> -1}"
  proof (rule set_eqI)
    fix i show "i \<in> kc_used c \<longleftrightarrow> i \<in> {i. i < n \<and> vec_resize n 0 (kc_pos c) ! i \<noteq> -1}"
      using pos [of i] n by (cases "i < n") (simp_all add: cells_wf_used [OF c] nth_vec_resize)
  qed
  have "cells_wf ?d" unfolding cells_wf_def
  proof (intro conjI)
    show "cells_shape ?d" using used by (simp add: cells_shape_def)
    have "n \<le> 64 * length (kc_seq_bits c s)" if "s \<in> seq_ids_ok" "kc_seq_bits c s \<noteq> []" for s
      using cells_wfD(2) [OF c] that n by (auto simp: mirrors_def)
    moreover have "vec_resize n 0 (kc_pos c) ! i = kc_pos c ! i" if "(s, i) \<in> carried c" for s i
      using that pos [of i] cells_wf_cell(3) [OF c, of i] n
      by (auto simp: carried_def nth_vec_resize) (metis empty_iff nth_vec_resize leI)
    then have "{(vec_resize n 0 (kc_pos c) ! i, i) | i. (s, i) \<in> carried c} =
        {(kc_pos c ! i, i) | i. (s, i) \<in> carried c}" for s by fastforce
    ultimately show "mirrors (carried ?d) ?d"
      unfolding car using cells_wfD(2) [OF c] by (simp add: mirrors_def)
    show "\<forall>i < cells_size ?d. cell_ok (cell_at ?d i)"
      using cells_wfD(3) [OF c] n at by simp
  qed
  then show ?thesis using n at by (simp add: cells_truncate_def wp_simps)
qed

text \<open>\<open>cp\<close> and \<open>set\<close> of a list of cells.\<close>

lemma cp_cell_step:
  assumes "idx < cells_size c" "kc_shift c ! idx = 0" "j < cells_size b"
    "length (kc_ext b) = cells_size b" "length (kc_shift b) = cells_size b"
    "length (kc_seq b) = cells_size b" "length (kc_node_id b) = cells_size b"
    "length (kc_parent b) = cells_size b" "kc_shift b ! j = 0"
  shows "wp (cp_cell c idx j b) (\<lambda>d. cells_size d = cells_size b \<and>
    length (kc_ext d) = cells_size b \<and> length (kc_shift d) = cells_size b \<and>
    length (kc_seq d) = cells_size b \<and> length (kc_node_id d) = cells_size b \<and>
    length (kc_parent d) = cells_size b \<and> kc_shift d = kc_shift b \<and>
    cell_at d = (cell_at b)(j := cell_at c idx))"
  using assms by (auto simp: cp_cell_def wp_simps cell_at_def fun_eq_iff)

lemma cells_cp_wp:
  assumes c: "cells_wf c" and ix: "\<And>j. j < length idxs \<Longrightarrow> idxs ! j < cells_size c \<and> kc_shift c ! (idxs ! j) = 0"
  shows "wp (cells_cp idxs c) (\<lambda>b. cells_data_ok b \<and> cells_size b = length idxs \<and>
    (\<forall>j < length idxs. cell_at b j = cell_at c (idxs ! j)))"
proof -
  let ?S = "\<lambda>b. cells_size b = length idxs \<and>
    length (kc_ext b) = length idxs \<and> length (kc_shift b) = length idxs \<and>
    length (kc_seq b) = length idxs \<and> length (kc_node_id b) = length idxs \<and>
    length (kc_parent b) = length idxs \<and> (\<forall>j < length idxs. kc_shift b ! j = 0)"
  let ?I = "\<lambda>k b. ?S b \<and>
    (\<forall>j < length idxs. cell_at b j = (if j < k then cell_at c (idxs ! j) else empty_cell))"
  have "wp (foldM (\<lambda>j. cp_cell c (idxs ! j) j) [0..<length idxs] (cells_resize (length idxs) cells_new))
      (?I (length idxs))"
  proof (rule wp_for [where I = ?I])
    show "?I 0 (cells_resize (length idxs) cells_new)"
      by (simp add: cells_resize_empty) (simp add: cells_resize_def cells_reset_def)
  next
    fix k b assume k: "k < length idxs" and inv: "?I k b"
    show "wp (cp_cell c (idxs ! k) k b) (?I (Suc k))"
      by (rule wp_mono [OF cp_cell_step]) (use ix [OF k] inv k in \<open>auto simp: less_Suc_eq\<close>)
  qed
  then show ?thesis unfolding cells_cp_def
    by (rule wp_mono) (use ix cells_wfD(3) [OF c] in \<open>auto simp: cells_data_ok_def\<close>)
qed

lemma cells_set_wp:
  assumes c: "cells_wf c" and b: "cells_data_ok b" "cells_size b = length idxs" and dist: "distinct idxs"
    and ix: "\<And>j. j < length idxs \<Longrightarrow> idxs ! j < cells_size c \<and> kc_shift c ! (idxs ! j) = 0"
  shows "wp (cells_set idxs b c) (\<lambda>d. cells_wf d \<and> cells_size d = cells_size c \<and>
    kc_has_shift d = kc_has_shift c \<and> (\<forall>i. i \<notin> set idxs \<longrightarrow> cell_at d i = cell_at c i) \<and>
    (\<forall>j < length idxs. cell_at d (idxs ! j) = (cell_at b j)\<lparr>cl_shift := 0\<rparr>))"
proof -
  let ?I = "\<lambda>k d. cells_wf d \<and> cells_size d = cells_size c \<and> kc_has_shift d = kc_has_shift c \<and>
    (\<forall>i. i \<notin> set (take k idxs) \<longrightarrow> cell_at d i = cell_at c i) \<and>
    (\<forall>j < k. cell_at d (idxs ! j) = (cell_at b j)\<lparr>cl_shift := 0\<rparr>)"
  have "wp (foldM (\<lambda>j. set_cell b (idxs ! j) j) [0..<length idxs] c) (?I (length idxs))"
  proof (rule wp_for [where I = ?I])
    show "?I 0 c" using c by simp
  next
    fix k d assume k: "k < length idxs" and inv: "?I k d"
    have fresh: "idxs ! k \<notin> set (take k idxs)"
      using dist k by (simp add: set_conv_nth) (metis nth_eq_iff_index_eq nth_take order.strict_trans less_not_refl)
    have sh: "kc_shift d ! (idxs ! k) = 0"
      using inv fresh ix [OF k] by (metis cell_at_def kv_cell.select_convs(3))
    have ok: "cell_ok (cell_at b k)" using b k by (simp add: cells_data_ok_def)
    show "wp (set_cell b (idxs ! k) k d) (?I (Suc k))"
    proof (rule wp_mono [OF set_cell_wp [OF _ _ ok sh]])
      fix e assume e: "cell_updated d (idxs ! k) ((cell_at b k)\<lparr>cl_shift := 0\<rparr>) e \<and> kc_has_shift e = kc_has_shift d"
      have neq: "j < k \<Longrightarrow> idxs ! j \<noteq> idxs ! k" for j
        using dist k by (simp add: nth_eq_iff_index_eq)
      show "?I (Suc k) e"
        using e inv k neq by (auto simp: cell_updated_def take_Suc_conv_app_nth less_Suc_eq)
    qed (use inv ix [OF k] in auto)
  qed simp
  then show ?thesis using b by (simp add: cells_set_def wp_simps)
qed

end
