(* ===== verification/KvCellQueries.thy ===== *)
theory KvCellQueries
  imports KvCells
begin

text \<open>
  What the index structures of \<open>llama_kv_cells\<close> answer: minimum and maximum position, the token at
  or before a position, cell counts, and the cell lists of \<open>get_seq_cells\<close>, each against the plain
  scan over the cells that it replaces.
\<close>

section \<open>Positions of a sequence\<close>

text \<open>The cells that carry sequence \<open>s\<close>.\<close>

definition cells_of :: "kv_cells \<Rightarrow> llama_seq_id \<Rightarrow> nat set" where
  "cells_of c s = {i. i < cells_size c \<and> s \<in> kc_seq c ! i}"

lemma finite_cells_of [simp]: "finite (cells_of c s)"
  by (simp add: cells_of_def)

lemma seq_pos_image:
  "cells_wf c \<Longrightarrow> s \<in> seq_ids_ok \<Longrightarrow> kc_seq_pos c s = (\<lambda>i. (kc_pos c ! i, i)) ` cells_of c s"
  by (simp only: cells_wf_seq_pos) (auto simp: cells_of_def)

lemma seq_pos_empty_iff: "cells_wf c \<Longrightarrow> s \<in> seq_ids_ok \<Longrightarrow> kc_seq_pos c s = {} \<longleftrightarrow> cells_of c s = {}"
  by (simp add: seq_pos_image)

lemma cells_of_pos: "cells_wf c \<Longrightarrow> i \<in> cells_of c s \<Longrightarrow> 0 \<le> kc_pos c ! i"
  using cells_wf_cell [of c i] by (force simp: cells_of_def)

lemma fst_Min_pairs:
  fixes A :: "(int \<times> nat) set"
  assumes "finite A" "A \<noteq> {}"
  shows "fst (Min A) = Min (fst ` A)"
proof (rule sym, rule Min_eqI)
  show "fst (Min A) \<in> fst ` A" using assms by simp
  fix y assume "y \<in> fst ` A"
  then obtain e where e: "e \<in> A" "y = fst e" by auto
  then have "Min A \<le> e" using assms by simp
  then show "fst (Min A) \<le> y" using e by (auto simp: less_eq_prod_def)
qed (use assms in simp)

lemma fst_Max_pairs:
  fixes A :: "(int \<times> nat) set"
  assumes "finite A" "A \<noteq> {}"
  shows "fst (Max A) = Max (fst ` A)"
proof (rule sym, rule Max_eqI)
  show "fst (Max A) \<in> fst ` A" using assms by simp
  fix y assume "y \<in> fst ` A"
  then obtain e where e: "e \<in> A" "y = fst e" by auto
  then have "e \<le> Max A" using assms by simp
  then show "y \<le> fst (Max A)" using e by (auto simp: less_eq_prod_def)
qed (use assms in simp)

lemma seq_pos_min_eq:
  assumes "cells_wf c" "s \<in> seq_ids_ok"
  shows "cells_seq_pos_min c s =
    Some (if cells_of c s = {} then -1 else Min ((\<lambda>i. kc_pos c ! i) ` cells_of c s))"
  using assms fst_Min_pairs [OF cells_wf_seq_pos_finite [OF assms]]
  by (auto simp: cells_seq_pos_min_def seq_pos_image image_image)

lemma seq_pos_max_eq:
  assumes "cells_wf c" "s \<in> seq_ids_ok"
  shows "cells_seq_pos_max c s =
    Some (if cells_of c s = {} then -1 else Max ((\<lambda>i. kc_pos c ! i) ` cells_of c s))"
  using assms fst_Max_pairs [OF cells_wf_seq_pos_finite [OF assms]]
  by (auto simp: cells_seq_pos_max_def seq_pos_image image_image)

lemma seq_n_cells_eq:
  assumes "cells_wf c" "s \<in> seq_ids_ok"
  shows "seq_n_cells c s = Some (card (cells_of c s))"
  using assms by (simp add: seq_n_cells_def seq_pos_image card_image inj_on_def)

lemma seq_n_cells_from_eq:
  assumes "cells_wf c" "s \<in> seq_ids_ok"
  shows "seq_n_cells_from c s p = Some (card {i \<in> cells_of c s. p \<le> kc_pos c ! i})"
proof -
  have "Set.filter (\<lambda>e. \<not> e < (p, 0)) (kc_seq_pos c s) =
      (\<lambda>i. (kc_pos c ! i, i)) ` {i \<in> cells_of c s. p \<le> kc_pos c ! i}"
    using assms by (auto simp: seq_pos_image less_prod_def)
  then show ?thesis using assms by (simp add: seq_n_cells_from_def card_image inj_on_def)
qed

text \<open>The token of the cell of \<open>s\<close> at the largest position not above \<open>p\<close>; ties go to the highest index.\<close>

lemma seq_pos_tok_le_wp:
  assumes c: "cells_wf c" and s: "s \<in> seq_ids_ok" and sz: "cells_size c \<le> 2 ^ 32"
  shows "wp (seq_pos_tok_le c s p) (\<lambda>t.
    if \<forall>i \<in> cells_of c s. p < kc_pos c ! i then t = LLAMA_TOKEN_NULL
    else \<exists>i \<in> cells_of c s. kc_pos c ! i \<le> p \<and> t = ce_tok (kc_ext c ! i) \<and>
      (\<forall>j \<in> cells_of c s. kc_pos c ! j \<le> p \<longrightarrow> (kc_pos c ! j, j) \<le> (kc_pos c ! i, i)))"
proof -
  let ?B = "Set.filter (\<lambda>e. \<not> (p, 2 ^ 32 - 1) < e) (kc_seq_pos c s)"
  have B: "?B = (\<lambda>i. (kc_pos c ! i, i)) ` {i \<in> cells_of c s. kc_pos c ! i \<le> p}"
    using c s sz by (auto simp: seq_pos_image less_prod_def cells_of_def)
  show ?thesis
  proof (cases "?B = {}")
    case True
    then have "\<forall>i \<in> cells_of c s. p < kc_pos c ! i" unfolding B by force
    then show ?thesis using True s by (simp add: seq_pos_tok_le_def wp_simps)
  next
    case False
    have fin: "finite ?B" unfolding B by simp
    note mx = Max_ge [OF fin]
    from Max_in [OF fin False]
    obtain i where i: "i \<in> cells_of c s" "kc_pos c ! i \<le> p" "Max ?B = (kc_pos c ! i, i)"
      unfolding B by auto
    have "(kc_pos c ! j, j) \<le> (kc_pos c ! i, i)" if "j \<in> cells_of c s" "kc_pos c ! j \<le> p" for j
      using mx [of "(kc_pos c ! j, j)"] that i(3) unfolding B by simp
    moreover have "i < length (kc_ext c)" using i c by (simp add: cells_of_def)
    moreover have "\<not> (\<forall>i \<in> cells_of c s. p < kc_pos c ! i)" using i by force
    moreover have "seq_pos_tok_le c s p = Option.bind (vget (kc_ext c) (snd (Max ?B))) (\<lambda>e. Some (ce_tok e))"
      using False s by (simp only: seq_pos_tok_le_def Let_def ensure_True Option.bind.simps if_False)
    ultimately show ?thesis using i
      by (auto simp: wp_simps simp del: Set.filter_eq)
  qed
qed

section \<open>The cell lists of a slice\<close>

lemma ctz64_split:
  assumes "(b :: 64 word) \<noteq> 0"
  shows "ctz64 b < 64" "bit b (ctz64 b)" "\<And>k. k < ctz64 b \<Longrightarrow> \<not> bit b k"
proof -
  let ?n = "ctz64 b"
  have "\<exists>k. k < 64 \<and> bit b k"
  proof (rule ccontr)
    assume "\<not> ?thesis"
    then have "b = 0" by (intro bit_word_eqI) simp
    then show False using assms by simp
  qed
  then obtain k where k: "k \<in> set [0..<64]" "\<not> \<not> bit b k" by auto
  from nth_length_takeWhile [of "\<lambda>k. \<not> bit b k" "[0..<64]"] show lt: "?n < 64"
    unfolding ctz64_def using k takeWhile_eq_all_conv [of "\<lambda>k. \<not> bit b k" "[0..<64]"]
    by (metis length_takeWhile_le le_neq_implies_less length_upt minus_nat.diff_0 takeWhile_eq_take take_all_iff order_refl)
  show "bit b ?n"
    using lt nth_length_takeWhile [of "\<lambda>k. \<not> bit b k" "[0..<64]"] unfolding ctz64_def by simp
  show "\<And>k. k < ?n \<Longrightarrow> \<not> bit b k"
    unfolding ctz64_def
    by (metis (no_types, lifting) takeWhile_nth add_0 length_takeWhile_le nth_mem nth_upt order.strict_trans2 set_takeWhileD length_upt minus_nat.diff_0)
qed

lemma bit_and_minus_one:
  assumes "(b :: 64 word) \<noteq> 0"
  shows "bit (b AND (b - 1)) k \<longleftrightarrow> bit b k \<and> k \<noteq> ctz64 b"
proof -
  let ?n = "ctz64 b"
  let ?x = "b AND NOT (mask (Suc ?n)) :: 64 word"
  note n = ctz64_split [OF assms]
  have b: "b = ?x OR push_bit ?n 1"
  proof (rule bit_word_eqI)
    fix j assume "j < LENGTH(64)"
    then show "bit b j \<longleftrightarrow> bit (?x OR push_bit ?n 1) j"
      using n by (auto simp: bit_simps bit_single64 less_Suc_eq not_less_eq) (metis nat_neq_iff)
  qed
  have "?x AND push_bit ?n 1 = 0"
    by (rule bit_word_eqI) (use n in \<open>auto simp: bit_simps bit_single64\<close>)
  then have "?x OR push_bit ?n 1 = ?x + push_bit ?n 1" by (simp add: disjunctive_add_eq_or)
  then have "b = ?x + push_bit ?n 1" using b by simp
  then have "b - 1 = ?x + (push_bit ?n 1 - 1)" by (metis add_diff_eq)
  also have "push_bit ?n 1 - 1 = (mask ?n :: 64 word)" by (simp add: mask_eq_exp_minus_1 push_bit_eq_mult)
  also have "?x AND mask ?n = 0" by (rule bit_word_eqI) (auto simp: bit_simps)
  then have "?x + mask ?n = ?x OR mask ?n" by (simp add: disjunctive_add_eq_or)
  finally have m: "b - 1 = ?x OR mask ?n" .
  show ?thesis
  proof (cases "k < 64")
    case True
    then show ?thesis unfolding m using n by (auto simp: bit_simps less_Suc_eq)
  next
    case False
    then show ?thesis using bit_imp_le_length [of b k] by (auto simp: bit_simps)
  qed
qed

text \<open>The set bits of a word in the order the loop visits them.\<close>

lemma bits_list_step:
  assumes "(b :: 64 word) \<noteq> 0"
  shows "filter (bit b) [0..<64] = ctz64 b # filter (bit (b AND (b - 1))) [0..<64]"
proof -
  let ?n = "ctz64 b"
  note n = ctz64_split [OF assms]
  have split: "[0..<64] = [0..<?n] @ ?n # [Suc ?n..<64]"
    using n(1) by (metis less_imp_le_nat upt_conv_Cons upto_split_nat)
  have lo: "filter (bit b) [0..<?n] = []" "filter (bit (b AND (b - 1))) [0..<?n] = []"
    using n(3) by (auto simp: filter_empty_conv bit_and_minus_one [OF assms])
  have hi: "filter (bit (b AND (b - 1))) [Suc ?n..<64] = filter (bit b) [Suc ?n..<64]"
    by (rule filter_cong) (auto simp: bit_and_minus_one [OF assms])
  show ?thesis unfolding split using n(2) by (simp add: lo hi bit_and_minus_one [OF assms])
qed

declare emit_bits.simps [simp del]

lemma emit_bits_eq:
  fixes pm :: llama_pos
  assumes "\<And>k. k < 64 \<Longrightarrow> bit b k \<Longrightarrow> 64 * w + k < cells_size c" "length out \<le> n"
  defines "L \<equiv> filter (\<lambda>i. pm \<le> kc_pos c ! i) (map (\<lambda>k. 64 * w + k) (filter (bit b) [0..<64]))"
  shows "emit_bits c pm n w b out = (if length out + length L \<le> n then Some (out @ map int L) else None)"
  using assms(1,2) unfolding L_def
proof (induction c pm n w b out rule: emit_bits.induct)
  case (1 c pm n w b out)
  show ?case
  proof (cases "b = 0")
    case True
    then show ?thesis using "1.prems" by (subst emit_bits.simps) simp
  next
    case False
    let ?i = "64 * w + ctz64 b"
    let ?L = "filter (\<lambda>i. pm \<le> kc_pos c ! i) (map (\<lambda>k. 64 * w + k) (filter (bit (b AND (b - 1))) [0..<64]))"
    have i: "?i < cells_size c" using "1.prems"(1) ctz64_split [OF False] by simp
    have step: "filter (\<lambda>i. pm \<le> kc_pos c ! i) (map (\<lambda>k. 64 * w + k) (filter (bit b) [0..<64])) =
        (if pm \<le> kc_pos c ! ?i then ?i # ?L else ?L)"
      by (simp add: bits_list_step [OF False])
    have IH: "emit_bits c pm n w (b AND (b - 1)) out' =
        (if length out' + length ?L \<le> n then Some (out' @ map int ?L) else None)"
      if "(if pm \<le> kc_pos c ! ?i then do { ensure (length out < n); Some (out @ [int ?i]) } else Some out)
        = Some out'" "length out' \<le> n" for out'
      using "1.IH" [OF False refl _ that(1)] that(2) "1.prems"(1) i
      by (simp add: bit_and_minus_one [OF False])
    show ?thesis
    proof (cases "pm \<le> kc_pos c ! ?i \<and> length out \<ge> n")
      case True
      then show ?thesis unfolding step using i False
        by (subst emit_bits.simps) (simp add: vget_def)
    next
      case no: False
      let ?out = "if pm \<le> kc_pos c ! ?i then out @ [int ?i] else out"
      have o: "(if pm \<le> kc_pos c ! ?i then do { ensure (length out < n); Some (out @ [int ?i]) } else Some out)
        = Some ?out" using no by auto
      have "length ?out \<le> n" using no "1.prems"(2) by auto
      then show ?thesis unfolding step using IH [OF o] o i False
        by (subst emit_bits.simps) (simp add: vget_def)
    qed
  qed
qed

lemma fold_or_bits:
  "bit (fold (\<lambda>s word. let bits = B s in if w < length bits then word OR bits ! w else word) ids v) k \<longleftrightarrow>
   bit v k \<or> (\<exists>s \<in> set ids. w < length (B s) \<and> bit (B s ! w) k)" for v :: "64 word"
  by (induction ids arbitrary: v) (auto simp: bit_or_iff Let_def)

lemma slice_word_bit:
  assumes "cells_wf c" "set ids \<subseteq> seq_ids_ok" "k < 64"
  shows "bit (slice_word c ids w) k \<longleftrightarrow> 64 * w + k < cells_size c \<and> (\<exists>s \<in> set ids. s \<in> kc_seq c ! (64 * w + k))"
proof -
  have "w < length (kc_seq_bits c s) \<and> bit (kc_seq_bits c s ! w) k \<longleftrightarrow>
      64 * w + k < cells_size c \<and> s \<in> kc_seq c ! (64 * w + k)" if "s \<in> set ids" for s
    using cells_wf_bits [OF assms(1), of s "64 * w + k"] assms that by (auto simp: bits_at_def)
  then show ?thesis unfolding slice_word_def fold_or_bits by auto
qed

text \<open>The reference: scan the cells in order.\<close>

definition slice_cells_ref :: "kv_cells \<Rightarrow> rows_slice \<Rightarrow> nat list" where
  "slice_cells_ref c sl = filter (\<lambda>i. rs_p_min sl \<le> kc_pos c ! i \<and> (\<exists>s \<in> set (rs_seq_ids sl). s \<in> kc_seq c ! i))
     [0..<cells_size c]"

lemma filter_word:
  assumes "cells_wf c" "set ids \<subseteq> seq_ids_ok"
  shows "filter (\<lambda>i. pm \<le> kc_pos c ! i) (map (\<lambda>k. 64 * w + k) (filter (bit (slice_word c ids w)) [0..<64])) =
    filter (\<lambda>i. i < cells_size c \<and> pm \<le> kc_pos c ! i \<and> (\<exists>s \<in> set ids. s \<in> kc_seq c ! i)) [64 * w..<64 * Suc w]"
proof -
  have "[64 * w..<64 * Suc w] = map (\<lambda>k. 64 * w + k) [0..<64]"
    using map_add_upt [of "64 * w" 64] by (simp add: add.commute)
  moreover have "filter (bit (slice_word c ids w)) [0..<64] =
      filter (\<lambda>k. 64 * w + k < cells_size c \<and> (\<exists>s \<in> set ids. s \<in> kc_seq c ! (64 * w + k))) [0..<64]"
    by (rule filter_cong) (auto simp: slice_word_bit [OF assms])
  ultimately show ?thesis by (simp add: filter_map comp_def) (rule filter_cong, auto)
qed

lemma words_loop:
  fixes pm :: llama_pos
  assumes c: "cells_wf c" and ids: "set ids \<subseteq> seq_ids_ok"
  defines "P \<equiv> \<lambda>i. i < cells_size c \<and> pm \<le> kc_pos c ! i \<and> (\<exists>s \<in> set ids. s \<in> kc_seq c ! i)"
  shows "foldM (\<lambda>w out. do { ensure (set ids \<subseteq> seq_ids_ok); emit_bits c pm n w (slice_word c ids w) out })
      [0..<k] [] =
    (if length (filter P [0..<64 * k]) \<le> n then Some (map int (filter P [0..<64 * k])) else None)"
proof (induction k)
  case (Suc k)
  have app: "filter P [0..<64 * Suc k] = filter P [0..<64 * k] @ filter P [64 * k..<64 * Suc k]"
    using upto_split_nat [of "64 * k" "64 * Suc k"] by simp
  have emit: "emit_bits c pm n k (slice_word c ids k) out =
      (if length out + length (filter P [64 * k..<64 * Suc k]) \<le> n
       then Some (out @ map int (filter P [64 * k..<64 * Suc k])) else None)"
    if "length out \<le> n" for out
    unfolding P_def filter_word [OF c ids, symmetric]
    by (rule emit_bits_eq) (use slice_word_bit [OF c ids] that in auto)
  have upt: "[0..<Suc k] = [0..<k] @ [k]" by simp
  show ?case unfolding upt foldM_append Suc.IH app
    using ids emit [of "map int (filter P [0..<64 * k])"]
    by (simp del: upt_Suc mult_Suc_right)
qed simp

lemma slice_cells_eq:
  assumes c: "cells_wf c" and ids: "set (rs_seq_ids sl) \<subseteq> seq_ids_ok"
  defines "L \<equiv> slice_cells_ref c sl"
  shows "slice_cells c sl n =
    (if length L \<le> n then Some (map int L @ replicate (n - length L) (-1)) else None)"
proof -
  let ?P = "\<lambda>i. rs_p_min sl \<le> kc_pos c ! i \<and> (\<exists>s \<in> set (rs_seq_ids sl). s \<in> kc_seq c ! i)"
  let ?Q = "\<lambda>i. i < cells_size c \<and> ?P i"
  let ?k = "(used_max_p1 c + 63) div 64"
  have beyond: "\<not> ?Q i" if "used_max_p1 c \<le> i" for i
  proof
    assume q: "?Q i"
    then have "kc_pos c ! i \<noteq> -1" using cells_wf_cell(3) [OF c, of i] by auto
    then have "i \<in> kc_used c" using q by (simp add: cells_wf_used [OF c])
    moreover from this have "i \<le> Max (kc_used c)" using c by simp
    ultimately show False using that by (auto simp: used_max_p1_def split: if_splits)
  qed
  have le: "used_max_p1 c \<le> 64 * ?k" by linarith
  have "filter ?Q [0..<64 * ?k] = filter ?Q [0..<used_max_p1 c]"
    by (rule filter_upt_extend [OF le]) (use beyond in auto)
  moreover have "filter ?Q [0..<cells_size c] = filter ?Q [0..<used_max_p1 c]"
  proof (rule filter_upt_extend)
    show "used_max_p1 c \<le> cells_size c"
      using c by (auto simp: used_max_p1_def Suc_le_eq cells_wf_used [OF c])
  qed (use beyond in auto)
  moreover have "L = filter ?Q [0..<cells_size c]"
    unfolding L_def slice_cells_ref_def by (rule filter_cong) auto
  ultimately have "filter ?Q [0..<64 * ?k] = L" by simp
  then show ?thesis
    unfolding slice_cells_def using words_loop [OF c ids, of "rs_p_min sl" n ?k] by simp
qed

end
