(* ===== verification/KvCellOps.thy ===== *)
theory KvCellOps
  imports KvCellQueries
begin

text \<open>
  \<open>llama_kv_cells\<close> as an abstract data type: its mutating operations as a step relation under the
  conditions its callers must meet, the invariant on every reachable state, the save/restore round
  trip, and the properties of the class.
\<close>

section \<open>Operations as steps\<close>

datatype cells_op =
    Op_reset
  | Op_reset_shift
  | Op_resize nat
  | Op_grow nat
  | Op_truncate nat
  | Op_set_range nat kv_cells
  | Op_set "nat list" kv_cells
  | Op_rm nat
  | Op_seq_rm nat llama_seq_id
  | Op_seq_keep nat llama_seq_id
  | Op_seq_add nat llama_seq_id
  | Op_pos_set nat llama_pos
  | Op_ext_set nat cell_ext
  | Op_node_id_set nat int int
  | Op_pos_add nat llama_pos
  | Op_pos_div nat int

fun cells_exec :: "cells_op \<Rightarrow> kv_cells \<Rightarrow> kv_cells option" where
  "cells_exec Op_reset c = Some (cells_reset c)"
| "cells_exec Op_reset_shift c = Some (cells_reset_shift c)"
| "cells_exec (Op_resize n) c = Some (cells_resize n c)"
| "cells_exec (Op_grow n) c = Some (cells_grow n c)"
| "cells_exec (Op_truncate n) c = cells_truncate n c"
| "cells_exec (Op_set_range i oth) c = cells_set_range i oth c"
| "cells_exec (Op_set idxs oth) c = cells_set idxs oth c"
| "cells_exec (Op_rm i) c = cells_rm i c"
| "cells_exec (Op_seq_rm i s) c = map_option snd (cells_seq_rm i s c)"
| "cells_exec (Op_seq_keep i s) c = map_option snd (cells_seq_keep i s c)"
| "cells_exec (Op_seq_add i s) c = cells_seq_add i s c"
| "cells_exec (Op_pos_set i p) c = pos_set i p c"
| "cells_exec (Op_ext_set i e) c = ext_set i e c"
| "cells_exec (Op_node_id_set i n p) c = node_id_set i n p c"
| "cells_exec (Op_pos_add i d) c = map_option snd (pos_add i d c)"
| "cells_exec (Op_pos_div i d) c = pos_div i d c"

text \<open>
  The conditions the asserts and comments of the operations state (\<open>call only if the cell is not
  empty\<close>, the range, length and shift asserts of the two \<open>set\<close> overloads, which take the cells a
  \<open>cp\<close> returned); that \<open>pos_set\<close> sets no negative position, that \<open>pos_div\<close> has a positive divisor and
  that the two arithmetic operations do not overflow \<open>int32_t\<close>; and for \<open>grow\<close> one the code does not
  state: no bit vector that is already allocated is shorter than the new size.
  Without it the next \<open>seq_add\<close> may write outside that vector, as shown at the end of this theory.
\<close>

fun cells_pre :: "cells_op \<Rightarrow> kv_cells \<Rightarrow> bool" where
  "cells_pre Op_reset c = True"
| "cells_pre Op_reset_shift c = True"
| "cells_pre (Op_resize n) c = True"
| "cells_pre (Op_grow n) c = (\<forall>s \<in> seq_ids_ok. kc_seq_bits c s \<noteq> [] \<longrightarrow> n \<le> 64 * length (kc_seq_bits c s))"
| "cells_pre (Op_set_range i oth) c = (cells_data_ok oth \<and> i + cells_size oth \<le> cells_size c \<and>
     (\<forall>j < cells_size oth. kc_shift c ! (i + j) = 0))"
| "cells_pre (Op_set idxs oth) c = (cells_data_ok oth \<and> length idxs = cells_size oth \<and>
     (\<forall>j < cells_size oth. idxs ! j < cells_size c \<and> kc_shift c ! (idxs ! j) = 0))"
| "cells_pre (Op_truncate n) c = (used_max_p1 c \<le> n \<and> n \<le> cells_size c)"
| "cells_pre (Op_rm i) c = (i < cells_size c \<and> kc_pos c ! i \<noteq> -1)"
| "cells_pre (Op_seq_rm i s) c = (i < cells_size c \<and> s \<in> kc_seq c ! i)"
| "cells_pre (Op_seq_keep i s) c = (i < cells_size c \<and> s \<in> seq_ids_ok \<and>
     (kc_pos c ! i \<noteq> -1 \<longrightarrow> kc_seq c ! i \<noteq> {}))"
| "cells_pre (Op_seq_add i s) c = (i < cells_size c \<and> kc_pos c ! i \<noteq> -1 \<and> s \<in> seq_ids_ok \<and> s \<notin> kc_seq c ! i)"
| "cells_pre (Op_pos_set i p) c = (i < cells_size c \<and> kc_pos c ! i = -1 \<and> 0 \<le> p)"
| "cells_pre (Op_ext_set i e) c = (i < cells_size c)"
| "cells_pre (Op_node_id_set i n p) c = (i < cells_size c)"
| "cells_pre (Op_pos_add i d) c = (i < cells_size c \<and> kc_pos c ! i \<noteq> -1 \<and>
     in_i32 (kc_pos c ! i + d) \<and> in_i32 (kc_shift c ! i + d))"
| "cells_pre (Op_pos_div i d) c = (i < cells_size c \<and> kc_pos c ! i \<noteq> -1 \<and> 0 < d \<and> in_i32 (kc_pos c ! i) \<and>
     in_i32 (kc_shift c ! i + (kc_pos c ! i - kc_pos c ! i div d)))"

inductive cells_reach :: "kv_cells \<Rightarrow> bool" where
  cells_reach_init: "cells_reach cells_new"
| cells_reach_step: "cells_reach c \<Longrightarrow> cells_pre op c \<Longrightarrow> cells_exec op c = Some d \<Longrightarrow> cells_reach d"

lemma wp_map_snd: "wp (map_option snd m) Q = wp m (\<lambda>(b, d). Q d)"
  by (cases m) auto

lemma cells_new_wf: "cells_wf cells_new"
  by (simp add: cells_wf_def cells_new_def cells_shape_def mirrors_def carried_def)

lemma cells_grow_wf:
  assumes c: "cells_wf c" and pre: "cells_pre (Op_grow n) c"
  shows "cells_wf (cells_grow n c)"
proof (cases "n \<le> cells_size c")
  case True
  then show ?thesis using c by (simp add: cells_grow_def)
next
  case False
  let ?d = "cells_grow n c"
  have sz: "cells_size ?d = n" and bits: "kc_seq_bits ?d = kc_seq_bits c"
    and sp: "kc_seq_pos ?d = kc_seq_pos c" and us: "kc_used ?d = kc_used c"
    using False by (simp_all add: cells_grow_def)
  have old: "cell_at ?d i = cell_at c i" if "i < cells_size c" for i
    using that False c by (simp add: cells_grow_def cell_at_def nth_vec_resize)
  have new: "cell_at ?d i = empty_cell" if "cells_size c \<le> i" "i < n" for i
    using that False c by (simp add: cells_grow_def cell_at_def nth_vec_resize empty_cell_def)
  have pos: "kc_pos ?d ! i = (if i < cells_size c then kc_pos c ! i else -1)"
    and seq: "kc_seq ?d ! i = (if i < cells_size c then kc_seq c ! i else {})" if "i < n" for i
    using that old [of i] new [of i] by (simp_all add: cell_at_def empty_cell_def)
  have "s \<in> kc_seq ?d ! i \<and> i < n \<longleftrightarrow> s \<in> kc_seq c ! i \<and> i < cells_size c" for s i
    using seq [of i] False by (cases "i < n") auto
  then have car: "carried ?d = carried c" by (auto simp: carried_def sz)
  have "i \<in> kc_used c \<longleftrightarrow> i < n \<and> kc_pos ?d ! i \<noteq> -1" for i
    using pos [of i] False by (cases "i < n") (simp_all add: cells_wf_used [OF c])
  then have used: "kc_used c = {i. i < n \<and> kc_pos ?d ! i \<noteq> -1}" by blast
  have "cells_shape ?d"
    using used False by (simp add: cells_shape_def sz us) (simp add: cells_grow_def)
  moreover have "mirrors (carried c) ?d"
  proof -
    have "{(kc_pos ?d ! i, i) | i. (s, i) \<in> carried c} = {(kc_pos c ! i, i) | i. (s, i) \<in> carried c}" for s
      using False pos by (fastforce simp: carried_def)
    then show ?thesis
      using cells_wfD(2) [OF c] pre by (simp add: mirrors_def sz bits sp)
  qed
  moreover have "\<forall>i < cells_size ?d. cell_ok (cell_at ?d i)"
  proof (intro allI impI)
    fix i assume "i < cells_size ?d"
    then show "cell_ok (cell_at ?d i)" using cells_wfD(3) [OF c] old [of i] new [of i]
      by (cases "i < cells_size c") (simp_all add: sz cell_ok_def empty_cell_def)
  qed
  ultimately show ?thesis by (simp add: cells_wf_def car)
qed

text \<open>The loop of both \<open>set\<close> overloads: cell \<open>j\<close> of the saved cells is stored at index \<open>f j\<close>.\<close>

lemma set_cells_wf:
  assumes c: "cells_wf c" and b: "cells_data_ok b"
    and ix: "\<forall>j < cells_size b. f j < cells_size c \<and> kc_shift c ! (f j) = 0"
  shows "wp (foldM (\<lambda>j. set_cell b (f j) j) [0..<cells_size b] c) cells_wf"
proof -
  let ?I = "\<lambda>k d. cells_wf d \<and> cells_size d = cells_size c \<and> (\<forall>j < cells_size b. kc_shift d ! (f j) = 0)"
  have "wp (foldM (\<lambda>j. set_cell b (f j) j) [0..<cells_size b] c) (?I (cells_size b))"
  proof (rule wp_for [where I = ?I])
    show "?I 0 c" using c ix by simp
  next
    fix k d assume k: "k < cells_size b" and inv: "?I k d"
    have ok: "cell_ok (cell_at b k)" using b k by (simp add: cells_data_ok_def)
    have sh: "kc_shift e ! i = 0"
      if "cell_at e = (cell_at d)(f k := (cell_at b k)\<lparr>cl_shift := 0\<rparr>)" "kc_shift d ! i = 0" for e i
      using that(2) arg_cong [OF fun_cong [OF that(1), of i], of cl_shift]
      by (auto simp: cell_at_def split: if_splits)
    show "wp (set_cell b (f k) k d) (?I (Suc k))"
      by (rule wp_mono [OF set_cell_wp [OF _ _ ok]])
        (use inv ix k sh in \<open>auto simp: cell_updated_def\<close>)
  qed simp
  then show ?thesis by (rule wp_mono) simp
qed

lemma cells_exec_wp:
  assumes c: "cells_wf c" and pre: "cells_pre op c"
  shows "wp (cells_exec op c) cells_wf"
proof (cases op)
  case (Op_resize n)
  then show ?thesis by simp
next
  case (Op_grow n)
  then show ?thesis using cells_grow_wf [OF c] pre by simp
next
  case (Op_set_range i oth)
  then show ?thesis using pre set_cells_wf [OF c, of oth "\<lambda>j. i + j"]
    by (simp add: cells_set_range_def wp_simps)
next
  case (Op_set idxs oth)
  then show ?thesis using pre set_cells_wf [OF c, of oth "\<lambda>j. idxs ! j"]
    by (simp add: cells_set_def wp_simps)
next
  case Op_reset
  then show ?thesis using cells_reset_wf [OF c] by simp
next
  case Op_reset_shift
  then show ?thesis using cells_reset_shift_wf [OF c] by simp
next
  case (Op_truncate n)
  then show ?thesis using pre by (auto intro!: wp_mono [OF cells_truncate_wp [OF c]])
next
  case (Op_rm i)
  then show ?thesis using pre by (auto intro!: wp_mono [OF cells_rm_wp [OF c]] dest: cell_updatedD)
next
  case (Op_seq_rm i s)
  then show ?thesis using pre
    by (auto simp: wp_map_snd intro!: wp_mono [OF cells_seq_rm_wp [OF c]] dest: cell_updatedD)
next
  case (Op_seq_keep i s)
  then show ?thesis using pre
    by (auto simp: wp_map_snd intro!: wp_mono [OF cells_seq_keep_wp [OF c]] dest: cell_updatedD)
next
  case (Op_seq_add i s)
  then show ?thesis using pre by (auto intro!: wp_mono [OF cells_seq_add_wp [OF c]] dest: cell_updatedD)
next
  case (Op_pos_set i p)
  then show ?thesis using pre by (auto intro!: wp_mono [OF pos_set_wp [OF c]] dest: cell_updatedD)
next
  case (Op_ext_set i e)
  then show ?thesis using pre by (auto intro!: wp_mono [OF ext_set_wp [OF c]] dest: cell_updatedD)
next
  case (Op_node_id_set i n p)
  then show ?thesis using pre by (auto intro!: wp_mono [OF node_id_set_wp [OF c]] dest: cell_updatedD)
next
  case (Op_pos_add i d)
  then show ?thesis using pre
    by (auto simp: wp_map_snd intro!: wp_mono [OF pos_add_wp [OF c]] dest: cell_updatedD)
next
  case (Op_pos_div i d)
  then show ?thesis using pre by (auto intro!: wp_mono [OF pos_div_wp [OF c]] dest: cell_updatedD)
qed

lemma cells_reach_wf: "cells_reach c \<Longrightarrow> cells_wf c"
  by (induction rule: cells_reach.induct) (auto dest: cells_exec_wp simp: wp_def cells_new_wf)

text \<open>A small state: cell 0 holds position 5 of sequence 3, cell 1 is free.\<close>

definition cells_two :: kv_cells where
  "cells_two = the (cells_seq_add 0 3 (the (pos_set 0 5 (cells_resize 2 cells_new))))"

lemma cells_resize_shift: "i < n \<Longrightarrow> kc_shift (cells_resize n c) ! i = 0"
  by (simp add: cells_resize_def cells_reset_def)

lemmas cells_eval = pos_set_def cells_seq_add_def seq_pos_inc_def bits_set_def vget_def vset_def
  cells_resize_def cells_reset_def cells_new_def vec_resize_def numeral_2_eq_2

lemma cells_two_data:
  "kc_pos cells_two = [5, -1]" "kc_seq cells_two = [{3}, {}]" "kc_shift cells_two = [0, 0]"
  "length (kc_seq_bits cells_two 3) = 1"
  by (simp_all add: cells_two_def cells_eval)

lemma cells_two_wf: "cells_wf cells_two"
proof -
  let ?r = "cells_resize 2 cells_new"
  have r: "kc_pos ?r ! 0 = -1" by (simp add: cells_eval)
  obtain c where c: "pos_set 0 5 ?r = Some c" "cell_updated ?r 0 ((cell_at ?r 0)\<lparr>cl_pos := 5\<rparr>) c"
    using pos_set_wp [of ?r 0 5] r by (auto simp: wp_def)
  have "kc_pos (the (pos_set 0 5 ?r)) ! 0 = 5" "kc_seq (the (pos_set 0 5 ?r)) ! 0 = {}"
    by (simp_all add: cells_eval)
  then have cc: "kc_pos c ! 0 = 5" "kc_seq c ! 0 = {}" unfolding c(1) by simp_all
  have sz: "0 < cells_size c" using cell_updatedD(2) [OF c(2)] by simp
  have "wp (cells_seq_add 0 3 c) (\<lambda>d. cell_updated c 0 ((cell_at c 0)\<lparr>cl_seq := insert 3 (kc_seq c ! 0)\<rparr>) d \<and>
      kc_has_shift d = kc_has_shift c)"
    by (rule cells_seq_add_wp [OF cell_updatedD(1) [OF c(2)] sz]) (simp_all add: cc)
  then obtain d where d: "cells_seq_add 0 3 c = Some d" "cells_wf d"
    by (rule wpE) (blast dest: cell_updatedD(1))
  show ?thesis unfolding cells_two_def c(1) option.sel d(1) by (rule d(2))
qed

lemmas cells_two_facts = cells_two_wf cells_two_data

text \<open>The same state with token 42 recorded in cell 0.\<close>

definition cells_tok :: kv_cells where
  "cells_tok = the (ext_set 0 (ext_reset\<lparr>ce_tok := 42\<rparr>) cells_two)"

lemma cells_tok_data:
  "kc_pos cells_tok = [5, -1]" "kc_seq cells_tok = [{3}, {}]" "ce_tok (kc_ext cells_tok ! 0) = 42"
  by (simp_all add: cells_tok_def cells_two_def ext_set_def cells_eval)

lemma cells_tok_wf: "cells_wf cells_tok"
  using cells_exec_wp [OF cells_two_wf, of "Op_ext_set 0 (ext_reset\<lparr>ce_tok := 42\<rparr>)"]
  by (auto simp: wp_def cells_tok_def cells_two_data)

section \<open>Properties\<close>

text \<open>
  C1. From a default-constructed object, any number of calls of the public mutators (\<open>reset\<close>,
  \<open>reset_shift\<close>, \<open>resize\<close>, \<open>grow\<close>, \<open>truncate\<close>, both \<open>set\<close> overloads, \<open>rm\<close>, \<open>seq_rm\<close>, \<open>seq_keep\<close>,
  \<open>seq_add\<close>, \<open>pos_set\<close>, \<open>ext_set\<close>, \<open>node_id_set\<close>, \<open>pos_add\<close>, \<open>pos_div\<close>) that each meet the conditions of
  \<open>cells_pre\<close> leads to a state in which \<open>used\<close>, \<open>seq_pos\<close> and \<open>seq_bits\<close> describe the cell vectors
  (\<open>cells_wf\<close>), and the next such call reaches no failing assertion, leaves no vector bound, does not
  overflow, and again ends in such a state.  The conditions are those of the code's asserts and
  comments, and beyond them: no negative position is set, divisors are positive, position arithmetic
  stays within \<open>int32_t\<close>, \<open>set\<close> takes cells that \<open>cp\<close> returned, and the new size of \<open>grow\<close> does not exceed
  an allocated bit vector (the defect of \<open>grow\<close>, shown at the end of this theory).
\<close>

theorem cells_steps_safe:
  assumes "cells_reach c" and "cells_pre op c"
  shows "\<exists>d. cells_exec op c = Some d \<and> cells_wf c \<and> cells_wf d"
  using cells_exec_wp [OF cells_reach_wf [OF assms(1)] assms(2)] cells_reach_wf [OF assms(1)]
  by (auto simp: wp_def)

lemma cells_two_reach: "cells_reach cells_two"
proof -
  have pre: "cells_pre (Op_pos_set 0 5) (cells_resize 2 cells_new)"
    by (simp add: cells_eval)
  have r: "cells_reach (cells_resize 2 cells_new)"
    by (rule cells_reach_step [OF cells_reach_init, of "Op_resize 2"]) simp_all
  obtain c where c: "pos_set 0 5 (cells_resize 2 cells_new) = Some c"
    using cells_exec_wp [OF cells_reach_wf [OF r] pre] by (auto simp: wp_def)
  have rc: "cells_reach c" by (rule cells_reach_step [OF r pre]) (simp add: c)
  have "kc_pos (the (pos_set 0 5 (cells_resize 2 cells_new))) = [5, -1]"
    "kc_seq (the (pos_set 0 5 (cells_resize 2 cells_new))) = [{}, {}]"
    by (simp_all add: cells_eval)
  then have pre2: "cells_pre (Op_seq_add 0 3) c" by (simp add: c)
  obtain d where d: "cells_seq_add 0 3 c = Some d"
    using cells_exec_wp [OF cells_reach_wf [OF rc] pre2] by (auto simp: wp_def)
  have "cells_reach d" by (rule cells_reach_step [OF rc pre2]) (simp add: d)
  then show ?thesis by (simp add: cells_two_def c d)
qed

lemma cells_steps_safe_witness:
  "\<exists>d. cells_exec (Op_set_range 1 (cells_resize 1 cells_new)) cells_two = Some d \<and>
     cells_wf cells_two \<and> cells_wf d"
  by (rule cells_steps_safe [OF cells_two_reach])
    (simp add: cells_data_ok_of_wf cells_two_facts)

text \<open>
  C2. Save and restore: \<open>cp(idxs)\<close> of one state followed by \<open>set(idxs, saved)\<close> on any other
  well-formed state of the same size puts every saved cell back exactly (position, extended
  position, sequences, node ids), leaves all other cells alone and rebuilds the indexes, provided
  the indices are distinct and in range and no shift is pending on them.
\<close>

theorem cells_save_restore:
  assumes "cells_wf c" and "cells_wf c'" and "cells_size c' = cells_size c" and "distinct idxs"
    and "\<forall>i \<in> set idxs. i < cells_size c \<and> kc_shift c ! i = 0 \<and> kc_shift c' ! i = 0"
  shows "\<exists>b d. cells_cp idxs c = Some b \<and> cells_set idxs b c' = Some d \<and> cells_wf d \<and>
    (\<forall>i. cell_at d i = (if i \<in> set idxs then cell_at c i else cell_at c' i))"
proof -
  have ix: "idxs ! j < cells_size c \<and> kc_shift c ! (idxs ! j) = 0 \<and> kc_shift c' ! (idxs ! j) = 0"
    if "j < length idxs" for j
    using assms(5) nth_mem [OF that] by blast
  obtain b where b: "cells_cp idxs c = Some b" "cells_data_ok b" "cells_size b = length idxs"
    "\<forall>j < length idxs. cell_at b j = cell_at c (idxs ! j)"
    using cells_cp_wp [OF assms(1), of idxs] ix by (auto simp: wp_def)
  obtain d where d: "cells_set idxs b c' = Some d" "cells_wf d"
    "\<forall>i. i \<notin> set idxs \<longrightarrow> cell_at d i = cell_at c' i"
    "\<forall>j < length idxs. cell_at d (idxs ! j) = (cell_at b j)\<lparr>cl_shift := 0\<rparr>"
    using cells_set_wp [OF assms(2) b(2,3) assms(4)] ix assms(3) by (auto simp: wp_def)
  have "cell_at d i = cell_at c i" if i: "i \<in> set idxs" for i
  proof -
    obtain j where j: "j < length idxs" "idxs ! j = i" using i unfolding in_set_conv_nth by blast
    then have "cell_at d i = (cell_at c i)\<lparr>cl_shift := 0\<rparr>"
      using d(4) [rule_format, OF j(1)] b(4) [rule_format, OF j(1)] by simp
    moreover have "cl_shift (cell_at c i) = 0" using ix [OF j(1)] j(2) by (simp add: cell_at_def)
    ultimately show ?thesis by simp
  qed
  then show ?thesis using b d by auto
qed

lemma cells_save_restore_witness:
  "\<exists>b d. cells_cp [1, 0] cells_two = Some b \<and>
     cells_set [1, 0] b (cells_resize 2 cells_new) = Some d \<and> cells_wf d \<and>
     (\<forall>i. cell_at d i = (if i \<in> set [1, 0] then cell_at cells_two i
        else cell_at (cells_resize 2 cells_new) i))"
  by (rule cells_save_restore) (simp_all add: cells_two_facts cells_resize_shift)

text \<open>
  C3. \<open>get_seq_cells\<close>, which walks the words of \<open>seq_bits\<close>, ORs them and extracts set bits, writes
  for every slice exactly the cells a plain scan in cell order finds: those that carry one of the
  slice's sequences at a position of at least \<open>p_min\<close>, padded with -1 to the row length; it stops
  (\<open>GGML_ASSERT\<close>) exactly when some list is longer than a row.
\<close>

theorem get_seq_cells_scan:
  assumes "cells_wf c" and "slices \<noteq> []" and "\<forall>sl \<in> set slices. set (rs_seq_ids sl) \<subseteq> seq_ids_ok"
  shows "get_seq_cells c slices n =
    (if \<forall>sl \<in> set slices. length (slice_cells_ref c sl) \<le> n
     then Some (concat (map (\<lambda>sl. map int (slice_cells_ref c sl) @
            replicate (n - length (slice_cells_ref c sl)) (-1)) slices))
     else None)"
proof -
  have "mapM (\<lambda>sl. slice_cells c sl n) slices =
    (if \<forall>sl \<in> set slices. length (slice_cells_ref c sl) \<le> n
     then Some (map (\<lambda>sl. map int (slice_cells_ref c sl) @
            replicate (n - length (slice_cells_ref c sl)) (-1)) slices)
     else None)"
    using assms(3) by (induction slices) (auto simp: slice_cells_eq [OF assms(1)])
  then show ?thesis using assms(2) by (auto simp: get_seq_cells_def Suc_le_eq)
qed

lemma get_seq_cells_scan_witness:
  "get_seq_cells cells_two [\<lparr>rs_seq_ids = [3], rs_p_min = 0\<rparr>] 2 = Some [0, -1]"
proof -
  have ref: "slice_cells_ref cells_two \<lparr>rs_seq_ids = [3], rs_p_min = 0\<rparr> = [0]"
    by (simp add: slice_cells_ref_def cells_two_facts upt_rec)
  show ?thesis
    using get_seq_cells_scan [OF cells_two_facts(1), of "[\<lparr>rs_seq_ids = [3], rs_p_min = 0\<rparr>]" 2]
    by (simp add: ref)
qed

text \<open>
  C4. \<open>seq_pos_tok_le(s, p)\<close>, which looks up \<open>(p, UINT32_MAX)\<close> in the ordered pair set, returns the
  token of the cell of \<open>s\<close> with the largest position not above \<open>p\<close>, the highest cell index among
  cells that share that position, and \<open>LLAMA_TOKEN_NULL\<close> when no cell of \<open>s\<close> is at or before \<open>p\<close>.
  The token read is the one stored in the cell, which is itself \<open>LLAMA_TOKEN_NULL\<close> for a cell that was
  filled from an embedding, so a caller cannot tell the two cases apart.
\<close>

theorem seq_pos_tok_le_latest:
  assumes "cells_wf c" and "s \<in> seq_ids_ok" and "cells_size c \<le> 2 ^ 32"
  shows "\<exists>t. seq_pos_tok_le c s p = Some t \<and>
    (if \<forall>i \<in> cells_of c s. p < kc_pos c ! i then t = LLAMA_TOKEN_NULL
     else \<exists>i \<in> cells_of c s. kc_pos c ! i \<le> p \<and> t = ce_tok (kc_ext c ! i) \<and>
       (\<forall>j \<in> cells_of c s. kc_pos c ! j \<le> p \<longrightarrow> (kc_pos c ! j, j) \<le> (kc_pos c ! i, i)))"
  using seq_pos_tok_le_wp [OF assms] by (simp add: wp_def)

lemma seq_pos_tok_le_latest_witness: "seq_pos_tok_le cells_tok 3 6 = Some 42"
proof -
  have "cells_of cells_tok 3 = {0}" by (auto simp: cells_of_def cells_tok_data less_Suc_eq)
  then show ?thesis
    using seq_pos_tok_le_latest [OF cells_tok_wf, of 3 6] by (simp add: cells_tok_data)
qed

text \<open>
  C5. A defect of \<open>grow\<close>: it extends the six cell vectors but not the \<open>seq_bits\<close> vectors that are
  already allocated.  When a sequence has its bit vector and the grown part lies beyond the words of
  that vector, adding the sequence to a used cell in that part writes outside the vector
  (\<open>seq_pos_inc\<close>), although the conditions stated at \<open>seq_add\<close> hold.
\<close>

theorem grow_then_seq_add_out_of_bounds:
  assumes "cells_wf c" and "kc_seq_bits c s \<noteq> []" and "64 * length (kc_seq_bits c s) \<le> i" and "i < n"
    and "0 \<le> p" and "s \<in> seq_ids_ok"
  shows "\<exists>d. pos_set i p (cells_grow n c) = Some d \<and> cells_pre (Op_seq_add i s) d \<and> cells_seq_add i s d = None"
proof -
  have i: "cells_size c \<le> i"
    using cells_wfD(2) [OF assms(1)] assms(2,3,6) by (auto simp: mirrors_def)
  let ?g = "cells_grow n c"
  have g: "cells_size ?g = n" "kc_pos ?g ! i = -1" "kc_seq ?g ! i = {}" "length (kc_seq ?g) = n"
    "kc_seq_bits ?g = kc_seq_bits c"
    using i assms(1,4) by (simp_all add: cells_grow_def nth_vec_resize)
  let ?d = "?g\<lparr>kc_pos := (kc_pos ?g)[i := p], kc_used := insert i (kc_used ?g)\<rparr>"
  have "pos_set i p ?g = Some ?d" using g assms(4) by (simp add: pos_set_def vget_def)
  moreover have "cells_pre (Op_seq_add i s) ?d" using g assms by simp
  moreover have "\<not> i div 64 < length (kc_seq_bits c s)" using assms(3) by linarith
  then have "cells_seq_add i s ?d = None"
    using g assms by (simp add: cells_seq_add_def seq_pos_inc_def bits_set_def vget_def)
  ultimately show ?thesis by blast
qed

lemma grow_then_seq_add_out_of_bounds_witness:
  "\<exists>d. pos_set 64 9 (cells_grow 128 cells_two) = Some d \<and> cells_pre (Op_seq_add 64 3) d \<and>
     cells_seq_add 64 3 d = None"
  by (rule grow_then_seq_add_out_of_bounds [OF cells_two_wf]) (use cells_two_data(4) in auto)

end
