(* ===== verification/Ubatch.thy ===== *)
theory Ubatch
  imports Prelude
begin

text \<open>
  The unit of work the memory modules place: \<open>struct llama_ubatch\<close> of \<open>src/llama-batch.h\<close>.
  A nullable pointer is an option, an array its list; \<open>seq_id[i]\<close> with its length \<open>n_seq_id[i]\<close>
  is the list of the sequence ids of token \<open>i\<close>.  Embedding values are opaque 32-bit words.
\<close>

type_synonym float32 = "32 word"

record llama_ubatch =
  ub_equal_seqs :: bool
  ub_n_tokens :: nat
  ub_n_seq_tokens :: nat
  ub_n_seqs :: nat
  ub_n_seqs_unq :: nat
  ub_n_pos :: nat
  ub_token :: "llama_token list option"
  ub_embd :: "float32 list option"
  ub_embd_state :: "float32 list option"
  ub_embd_row :: "int list option"
  ub_pos :: "llama_pos list"
  ub_n_seq_id :: "int list"
  ub_seq_id :: "llama_seq_id list list"
  ub_seq_id_unq :: "llama_seq_id list"
  ub_seq_idx :: "int list"
  ub_output :: "bool list"
  ub_type :: "int list option"
  ub_decision_order :: "int list option"
  ub_parent :: "int list option"
  ub_node_id :: "int list option"
  ub_parent_node_id :: "int list option"
  ub_batch_idxs :: "nat list"

definition equal_seqs :: "llama_ubatch \<Rightarrow> bool" where
  "equal_seqs ub = ub_equal_seqs ub"

definition is_pos_2d :: "llama_ubatch \<Rightarrow> bool" where
  "is_pos_2d ub = (ub_n_pos ub \<ge> 3)"

definition is_mixed :: "llama_ubatch \<Rightarrow> bool" where
  "is_mixed ub = (ub_type ub \<noteq> None)"

text \<open>The empty ubatch, \<open>llama_ubatch{}\<close>: \<open>n_tokens == 0\<close> and every pointer null.\<close>

definition ubatch_empty :: llama_ubatch where
  "ubatch_empty = \<lparr>ub_equal_seqs = False, ub_n_tokens = 0, ub_n_seq_tokens = 0, ub_n_seqs = 0,
     ub_n_seqs_unq = 0, ub_n_pos = 0, ub_token = None, ub_embd = None, ub_embd_state = None,
     ub_embd_row = None, ub_pos = [], ub_n_seq_id = [], ub_seq_id = [], ub_seq_id_unq = [],
     ub_seq_idx = [], ub_output = [], ub_type = None, ub_decision_order = None, ub_parent = None,
     ub_node_id = None, ub_parent_node_id = None, ub_batch_idxs = []\<rparr>"

text \<open>The arrays have the sizes the comments of the struct state.\<close>

definition ubatch_ok :: "llama_ubatch \<Rightarrow> bool" where
  "ubatch_ok ub = (
     length (ub_pos ub) = ub_n_tokens ub * ub_n_pos ub \<and> 1 \<le> ub_n_pos ub \<and>
     length (ub_n_seq_id ub) = ub_n_tokens ub \<and> length (ub_seq_id ub) = ub_n_tokens ub \<and>
     (\<forall>i < ub_n_tokens ub. ub_n_seq_id ub ! i = int (length (ub_seq_id ub ! i)) \<and> ub_seq_id ub ! i \<noteq> [] \<and>
        distinct (ub_seq_id ub ! i) \<and> set (ub_seq_id ub ! i) \<subseteq> seq_ids_ok \<and> 0 \<le> ub_pos ub ! i) \<and>
     length (ub_seq_id_unq ub) = ub_n_seqs_unq ub \<and> distinct (ub_seq_id_unq ub) \<and>
     set (ub_seq_id_unq ub) = (\<Union>i < ub_n_tokens ub. set (ub_seq_id ub ! i)) \<and>
     pred_option (\<lambda>ts. length ts = ub_n_tokens ub) (ub_token ub) \<and>
     pred_option (\<lambda>ts. length ts = ub_n_tokens ub) (ub_type ub) \<and>
     pred_option (\<lambda>ts. length ts = ub_n_tokens ub \<and> (\<forall>i < length ts. ts ! i < int (ub_n_tokens ub))) (ub_parent ub) \<and>
     pred_option (\<lambda>ts. length ts = ub_n_tokens ub) (ub_node_id ub) \<and>
     pred_option (\<lambda>ts. length ts = ub_n_tokens ub) (ub_parent_node_id ub))"

end
