(* ===== verification/MemoryInterface.thy ===== *)
theory MemoryInterface
  imports Prelude
begin

text \<open>
  What the decoder relies on when it edits the memory of a model (\<open>llama_memory_i\<close>): removing a
  position range of a sequence, and asking for the smallest and largest position of a sequence.
  The contract is stated over the set of positions the memory holds for each sequence; the KV cache
  and the recurrent memory are its providers.
\<close>

definition INT32_MAX :: int where
  "INT32_MAX = 2 ^ 31 - 1"

text \<open>The conventions of the range arguments: negative bounds are open.\<close>

definition lo_pos :: "llama_pos \<Rightarrow> llama_pos" where
  "lo_pos p0 = (if p0 < 0 then 0 else p0)"

definition hi_pos :: "llama_pos \<Rightarrow> llama_pos" where
  "hi_pos p1 = (if p1 < 0 then INT32_MAX else p1)"

lemma lo_pos_nonneg [simp]: "0 \<le> lo_pos p"
  by (simp add: lo_pos_def)

text \<open>\<open>seq_pos_min\<close> and \<open>seq_pos_max\<close> answer -1 for a sequence without positions.\<close>

definition min_or_none :: "llama_pos set \<Rightarrow> llama_pos" where
  "min_or_none P = (if P = {} then -1 else Min P)"

definition max_or_none :: "llama_pos set \<Rightarrow> llama_pos" where
  "max_or_none P = (if P = {} then -1 else Max P)"

locale seq_memory =
  fixes ok :: "'m \<Rightarrow> bool" and knows :: "'m \<Rightarrow> llama_seq_id \<Rightarrow> bool"
    and posns :: "'m \<Rightarrow> llama_seq_id \<Rightarrow> llama_pos set"
    and rm :: "llama_seq_id \<Rightarrow> llama_pos \<Rightarrow> llama_pos \<Rightarrow> 'm \<Rightarrow> (bool \<times> 'm) option"
    and pmin pmax :: "'m \<Rightarrow> llama_seq_id \<Rightarrow> llama_pos option"
  assumes posns_nonneg: "ok m \<Longrightarrow> knows m s \<Longrightarrow> finite (posns m s) \<and> (\<forall>p \<in> posns m s. 0 \<le> p)"
    and rm_total: "ok m \<Longrightarrow> knows m s \<Longrightarrow> wp (rm s p0 p1 m) (\<lambda>(b, m'). ok m' \<and> knows m' = knows m \<and>
      (b \<longrightarrow> (\<forall>t. knows m t \<longrightarrow>
         posns m' t = (if t = s then posns m t - {lo_pos p0..<hi_pos p1} else posns m t))) \<and>
      (\<not> b \<longrightarrow> posns m' = posns m))"
    and pmin: "ok m \<Longrightarrow> knows m s \<Longrightarrow> pmin m s = Some (min_or_none (posns m s))"
    and pmax: "ok m \<Longrightarrow> knows m s \<Longrightarrow> pmax m s = Some (max_or_none (posns m s))"
begin

text \<open>Truncating a sequence at \<open>p0\<close>: nothing at or beyond \<open>p0\<close> is left, the rest is as it was.\<close>

lemma rm_tail:
  assumes "ok m" "knows m s" "0 \<le> p0" "\<forall>p \<in> posns m s. p < INT32_MAX" "rm s p0 (-1) m = Some (True, m')"
  shows "\<exists>p. pmax m' s = Some p \<and> p < max p0 0 \<and> posns m' s = {p \<in> posns m s. p < p0}"
proof -
  have m': "ok m'" "knows m' s" "posns m' s = posns m s - {lo_pos p0..<hi_pos (-1)}"
    using rm_total [OF assms(1,2), of p0 "-1"] assms(2,5) by (auto simp: wp_def)
  have eq: "posns m' s = {p \<in> posns m s. p < p0}"
    using m'(3) assms(3,4) by (auto simp: lo_pos_def hi_pos_def)
  have "finite (posns m' s)" using posns_nonneg [OF m'(1,2)] by simp
  then have "max_or_none (posns m' s) < max p0 0"
    using eq assms(3) by (auto simp: max_or_none_def less_max_iff_disj)
  then show ?thesis using pmax [OF m'(1,2)] eq by auto
qed

text \<open>Removing a whole sequence leaves it without positions.\<close>

lemma rm_all:
  assumes "ok m" "knows m s" "\<forall>p \<in> posns m s. p < INT32_MAX" "rm s (-1) (-1) m = Some (True, m')"
  shows "pmin m' s = Some (-1) \<and> pmax m' s = Some (-1)"
proof -
  have m': "ok m'" "knows m' s" "posns m' s = posns m s - {lo_pos (-1)..<hi_pos (-1)}"
    using rm_total [OF assms(1,2), of "-1" "-1"] assms(2,4) by (auto simp: wp_def)
  have "posns m' s = {}"
    using m'(3) assms(3) posns_nonneg [OF assms(1,2)] by (auto simp: lo_pos_def hi_pos_def)
  then show ?thesis using pmin [OF m'(1,2)] pmax [OF m'(1,2)] by (simp add: min_or_none_def max_or_none_def)
qed

text \<open>Other sequences do not notice.\<close>

lemma rm_other:
  assumes "ok m" "knows m s" "knows m t" "t \<noteq> s" "rm s p0 p1 m = Some (b, m')"
  shows "pmin m' t = pmin m t \<and> pmax m' t = pmax m t"
proof -
  have m': "ok m'" "knows m' t" "posns m' t = posns m t"
    using rm_total [OF assms(1,2), of p0 p1] assms(3-5) by (auto simp: wp_def split: bool.splits)
  then show ?thesis using pmin pmax assms(1,3) by simp
qed

end

section \<open>A weaker contract\<close>

text \<open>
  A memory that keeps one state per sequence cannot cut a piece out of it: a removal may move the
  sequence back to before the range, or be refused.  What the decoder may still rely on is that an
  accepted removal leaves no position in the range, a refused one changes nothing, and the other
  sequences do not notice.
\<close>

locale rollback_memory =
  fixes ok :: "'m \<Rightarrow> bool" and knows :: "'m \<Rightarrow> llama_seq_id \<Rightarrow> bool"
    and posns :: "'m \<Rightarrow> llama_seq_id \<Rightarrow> llama_pos set"
    and rm :: "llama_seq_id \<Rightarrow> llama_pos \<Rightarrow> llama_pos \<Rightarrow> 'm \<Rightarrow> (bool \<times> 'm) option"
    and pmax :: "'m \<Rightarrow> llama_seq_id \<Rightarrow> llama_pos option"
  assumes posns_ok: "ok m \<Longrightarrow> knows m s \<Longrightarrow> finite (posns m s) \<and> (\<forall>p \<in> posns m s. 0 \<le> p)"
    and rm_weak: "ok m \<Longrightarrow> knows m s \<Longrightarrow> wp (rm s p0 p1 m) (\<lambda>(b, m'). ok m' \<and> knows m' = knows m \<and>
      (\<forall>t. knows m t \<and> t \<noteq> s \<longrightarrow> posns m' t = posns m t) \<and>
      (b \<longrightarrow> (\<forall>p \<in> posns m' s. p \<notin> {lo_pos p0..<hi_pos p1} \<and> (p \<in> posns m s \<or> p < lo_pos p0))) \<and>
      (\<not> b \<longrightarrow> posns m' s = posns m s))"
    and pmax_at: "ok m \<Longrightarrow> knows m s \<Longrightarrow> pmax m s = Some (max_or_none (posns m s))"
begin

text \<open>After a truncation the sequence ends before \<open>p0\<close>.\<close>

lemma truncated:
  assumes "ok m" "knows m s" "0 \<le> p0" "\<forall>p \<in> posns m s. p < INT32_MAX" "rm s p0 (-1) m = Some (True, m')"
  shows "\<exists>p. pmax m' s = Some p \<and> p < max p0 0"
proof -
  have m': "ok m'" "knows m' s" "\<forall>p \<in> posns m' s. p \<notin> {lo_pos p0..<hi_pos (-1)} \<and> (p \<in> posns m s \<or> p < lo_pos p0)"
    using rm_weak [OF assms(1,2), of p0 "-1"] assms(2,5) by (auto simp: wp_def)
  have "\<forall>p \<in> posns m' s. p < p0"
    using m'(3) assms(3,4) by (force simp: lo_pos_def hi_pos_def)
  then have "max_or_none (posns m' s) < max p0 0"
    using posns_ok [OF m'(1,2)] assms(3) by (auto simp: max_or_none_def less_max_iff_disj)
  then show ?thesis using pmax_at [OF m'(1,2)] by simp
qed

text \<open>Whatever the answer, the other sequences end where they did.\<close>

lemma others_keep:
  assumes "ok m" "knows m s" "knows m t" "t \<noteq> s" "rm s p0 p1 m = Some (b, m')"
  shows "pmax m' t = pmax m t"
  using rm_weak [OF assms(1,2), of p0 p1] assms(3-5) pmax_at assms(1) by (auto simp: wp_def)

text \<open>A refusal leaves the sequence as it was.\<close>

lemma refused:
  assumes "ok m" "knows m s" "rm s p0 p1 m = Some (False, m')"
  shows "pmax m' s = pmax m s"
  using rm_weak [OF assms(1,2), of p0 p1] assms(2,3) pmax_at assms(1) by (auto simp: wp_def)

end

sublocale seq_memory \<subseteq> weak: rollback_memory ok knows posns rm pmax
proof
  show "ok m \<Longrightarrow> knows m s \<Longrightarrow> finite (posns m s) \<and> (\<forall>p \<in> posns m s. 0 \<le> p)" for m s by (rule posns_nonneg)
  show "ok m \<Longrightarrow> knows m s \<Longrightarrow> pmax m s = Some (max_or_none (posns m s))" for m s by (rule pmax)
  show "wp (rm s p0 p1 m) (\<lambda>(b, m'). ok m' \<and> knows m' = knows m \<and>
      (\<forall>t. knows m t \<and> t \<noteq> s \<longrightarrow> posns m' t = posns m t) \<and>
      (b \<longrightarrow> (\<forall>p \<in> posns m' s. p \<notin> {lo_pos p0..<hi_pos p1} \<and> (p \<in> posns m s \<or> p < lo_pos p0))) \<and>
      (\<not> b \<longrightarrow> posns m' s = posns m s))" if "ok m" "knows m s" for m s p0 p1
  proof (rule wp_mono [OF rm_total [OF that]])
    fix x assume "case x of (b, m') \<Rightarrow> ok m' \<and> knows m' = knows m \<and>
      (b \<longrightarrow> (\<forall>t. knows m t \<longrightarrow>
         posns m' t = (if t = s then posns m t - {lo_pos p0..<hi_pos p1} else posns m t))) \<and>
      (\<not> b \<longrightarrow> posns m' = posns m)"
    then obtain b m' where x: "x = (b, m')" "ok m'" "knows m' = knows m"
      and yes: "b \<Longrightarrow> knows m t \<Longrightarrow> posns m' t = (if t = s then posns m t - {lo_pos p0..<hi_pos p1} else posns m t)"
      and no: "\<not> b \<Longrightarrow> posns m' = posns m" for t by (cases x) blast
    show "case x of (b, m') \<Rightarrow> ok m' \<and> knows m' = knows m \<and>
      (\<forall>t. knows m t \<and> t \<noteq> s \<longrightarrow> posns m' t = posns m t) \<and>
      (b \<longrightarrow> (\<forall>p \<in> posns m' s. p \<notin> {lo_pos p0..<hi_pos p1} \<and> (p \<in> posns m s \<or> p < lo_pos p0))) \<and>
      (\<not> b \<longrightarrow> posns m' s = posns m s)"
      using x(2,3) yes [of s] yes no that(2) unfolding x(1) prod.case by (cases b) auto
  qed
qed

end
