(* ===== verification/KvCache.thy ===== *)
theory KvCache
  imports KvCellOps Ubatch MemoryInterface
begin

text \<open>
  The unified KV cache without its tensors: class \<open>llama_kv_cache\<close> of \<open>src/llama-kv-cache.cpp\<close>.
  This theory holds the state and the sequence operations of the memory interface (\<open>clear\<close>,
  \<open>seq_rm\<close>, \<open>seq_cp\<close>, \<open>seq_keep\<close>, \<open>seq_add\<close>, \<open>seq_div\<close>, \<open>seq_pos_min\<close>, \<open>seq_pos_max\<close>), with
  the copy-on-write guard they start with.  The tensor copies behind the guard are one bit of the
  environment (\<open>ce_fork_tensors\<close>): whether \<open>ensure_unique_tensors\<close> succeeds.
\<close>

section \<open>State\<close>

datatype swa_type = SWA_NONE | SWA_STANDARD | SWA_CHUNKED | SWA_SYMMETRIC

text \<open>What a cache built over the cells of another one asks that cache (\<open>other\<close>).\<close>

record kv_sibling =
  sib_pos_min :: "llama_seq_id \<Rightarrow> llama_pos option"
  sib_pos_max :: "llama_seq_id \<Rightarrow> llama_pos option"

record cow_env =
  ce_enabled :: bool
  ce_fork_tensors :: bool

record kv_cache =
  kv_n_seq_max :: nat
  kv_n_stream :: nat
  kv_n_swa :: nat
  kv_swa_type :: swa_type
  kv_n_pos_per_embd :: nat
  kv_ple_n_heads :: nat
  kv_ple_embd_token :: llama_token
  kv_heads :: "nat list"
  kv_vcells :: "kv_cells list"
  kv_s2s :: "nat list"
  kv_sc_info :: "(nat \<times> nat) list"
  kv_other :: "kv_sibling option"
  kv_impl_shared :: bool
  kv_aliased :: bool
  kv_cow_forks :: nat
  kv_env :: cow_env

text \<open>The metadata part of the constructor, for a cache that owns its cells.\<close>

definition kv_new :: "bool \<Rightarrow> nat \<Rightarrow> nat \<Rightarrow> nat \<Rightarrow> swa_type \<Rightarrow> nat \<Rightarrow> cow_env \<Rightarrow> kv_cache option" where
  "kv_new unified kv_size n_seq_max n_swa swa npe env = (
     let n_stream = (if unified then 1 else n_seq_max) in do {
     ensure (n_stream = 1 \<or> n_stream = n_seq_max);
     Some \<lparr>kv_n_seq_max = n_seq_max, kv_n_stream = n_stream, kv_n_swa = n_swa, kv_swa_type = swa,
       kv_n_pos_per_embd = npe, kv_ple_n_heads = 0, kv_ple_embd_token = LLAMA_TOKEN_NULL,
       kv_heads = replicate n_stream 0,
       kv_vcells = replicate n_stream (cells_resize kv_size cells_new),
       kv_s2s = (if n_stream > 1 then [0..<n_stream] else replicate 256 0),
       kv_sc_info = [], kv_other = None, kv_impl_shared = False, kv_aliased = False,
       kv_cow_forks = 0, kv_env = env\<rparr> })"

section \<open>Copy-on-write guard\<close>

definition ensure_unique_cells :: "kv_cache \<Rightarrow> bool \<times> kv_cache" where
  "ensure_unique_cells c = (
     let shared = (kv_other c \<noteq> None \<or> kv_impl_shared c) in
     if \<not> shared \<and> \<not> kv_aliased c then (True, c)
     else if \<not> ce_enabled (kv_env c) then (False, c)
     else if kv_aliased c \<and> \<not> ce_fork_tensors (kv_env c) then (False, c)
     else let c = (if kv_aliased c then c\<lparr>kv_aliased := False\<rparr> else c) in
       if \<not> shared then (True, c)
       else (True, c\<lparr>kv_impl_shared := False, kv_other := None, kv_cow_forks := kv_cow_forks c + 1\<rparr>))"

text \<open>\<open>if (other && !ensure_unique_cells(..)) return;\<close> in front of \<open>k\<close>.\<close>

definition cow_guard :: "(kv_cache \<Rightarrow> kv_cache option) \<Rightarrow> kv_cache \<Rightarrow> kv_cache option" where
  "cow_guard k c = (if kv_other c \<noteq> None
     then case ensure_unique_cells c of (ok, c) \<Rightarrow> if ok then k c else Some c
     else k c)"

section \<open>Sequence operations\<close>

definition stream_of :: "kv_cache \<Rightarrow> llama_seq_id \<Rightarrow> nat option" where
  "stream_of c s = do {
     ensure (0 \<le> s \<and> nat s < length (kv_s2s c));
     Some (kv_s2s c ! nat s) }"

definition put_stream :: "nat \<Rightarrow> kv_cells \<Rightarrow> nat \<Rightarrow> kv_cache \<Rightarrow> kv_cache option" where
  "put_stream st cells head c = do {
     cs \<leftarrow> vset (kv_vcells c) st cells;
     hs \<leftarrow> vset (kv_heads c) st head;
     Some (c\<lparr>kv_vcells := cs, kv_heads := hs\<rparr>) }"

definition kv_clear :: "kv_cache \<Rightarrow> kv_cache option" where
  "kv_clear c = (
     let (ok, c) = (if kv_other c \<noteq> None \<or> kv_impl_shared c then ensure_unique_cells c else (True, c)) in
     if \<not> ok then Some c
     else foldM (\<lambda>s c. do {
            cells \<leftarrow> vget (kv_vcells c) s;
            put_stream s (cells_reset cells) 0 c }) [0..<kv_n_stream c] c)"

text \<open>
  The loop bodies.  Each takes the index of a cell and the pair of \<open>new_head\<close> and the cells of the
  stream; \<open>note_freed\<close> is \<open>if (new_head == cells.size()) new_head = i\<close>.
\<close>

definition note_freed :: "bool \<Rightarrow> nat \<Rightarrow> nat \<times> kv_cells \<Rightarrow> nat \<times> kv_cells" where
  "note_freed b i = (\<lambda>(nh, cells). (if b \<and> nh = cells_size cells then i else nh, cells))"

definition seq_rm_step :: "llama_seq_id \<Rightarrow> llama_pos \<Rightarrow> llama_pos \<Rightarrow> nat \<Rightarrow> nat \<times> kv_cells \<Rightarrow> (nat \<times> kv_cells) option" where
  "seq_rm_step s p0 p1 i = (\<lambda>(nh, cells). do {
     b \<leftarrow> pos_in cells i p0 p1;
     if \<not> b then Some (nh, cells)
     else do {
       h \<leftarrow> seq_has cells i s;
       if h then do {
         (e, cells) \<leftarrow> cells_seq_rm i s cells;
         Some (note_freed e i (nh, cells)) }
       else Some (nh, cells) } })"

definition any_rm_step :: "llama_pos \<Rightarrow> llama_pos \<Rightarrow> nat \<Rightarrow> nat \<times> kv_cells \<Rightarrow> (nat \<times> kv_cells) option" where
  "any_rm_step p0 p1 i = (\<lambda>(nh, cells). do {
     b \<leftarrow> pos_in cells i p0 p1;
     if \<not> b then Some (nh, cells)
     else do {
       cells \<leftarrow> cells_rm i cells;
       Some (note_freed True i (nh, cells)) } })"

definition seq_keep_step :: "llama_seq_id \<Rightarrow> nat \<Rightarrow> nat \<times> kv_cells \<Rightarrow> (nat \<times> kv_cells) option" where
  "seq_keep_step s i = (\<lambda>(nh, cells). do {
     (e, cells) \<leftarrow> cells_seq_keep i s cells;
     Some (note_freed e i (nh, cells)) })"

definition seq_add_step :: "llama_seq_id \<Rightarrow> llama_pos \<Rightarrow> llama_pos \<Rightarrow> llama_pos \<Rightarrow> nat \<Rightarrow> nat \<times> kv_cells \<Rightarrow>
    (nat \<times> kv_cells) option" where
  "seq_add_step s p0 p1 shift i = (\<lambda>(nh, cells). do {
     b \<leftarrow> pos_in cells i p0 p1;
     if \<not> b then Some (nh, cells)
     else do {
       h \<leftarrow> seq_has cells i s;
       if h then do {
         (e, cells) \<leftarrow> pos_add i shift cells;
         Some (note_freed e i (nh, cells)) }
       else Some (nh, cells) } })"

definition seq_div_step :: "llama_seq_id \<Rightarrow> llama_pos \<Rightarrow> llama_pos \<Rightarrow> int \<Rightarrow> nat \<Rightarrow> kv_cells \<Rightarrow> kv_cells option" where
  "seq_div_step s p0 p1 d i cells = do {
     b \<leftarrow> pos_in cells i p0 p1;
     if \<not> b then Some cells
     else do {
       h \<leftarrow> seq_has cells i s;
       if h then pos_div i d cells else Some cells } }"

definition seq_cp_step :: "llama_seq_id \<Rightarrow> llama_seq_id \<Rightarrow> llama_pos \<Rightarrow> llama_pos \<Rightarrow> nat \<Rightarrow> kv_cells \<Rightarrow> kv_cells option" where
  "seq_cp_step src dst p0 p1 i cells = do {
     b \<leftarrow> pos_in cells i p0 p1;
     if \<not> b then Some cells
     else do {
       h \<leftarrow> seq_has cells i src;
       if h then cells_seq_add i dst cells else Some cells } }"

text \<open>Run a loop body over all cells of a stream; the result is the new \<open>new_head\<close> and cells.\<close>

definition sweep :: "(nat \<Rightarrow> nat \<times> kv_cells \<Rightarrow> (nat \<times> kv_cells) option) \<Rightarrow> kv_cells \<Rightarrow> (nat \<times> kv_cells) option" where
  "sweep step cells = foldM step [0..<cells_size cells] (cells_size cells, cells)"

definition lower_head :: "nat \<Rightarrow> kv_cells \<Rightarrow> nat \<Rightarrow> nat" where
  "lower_head nh cells head = (if nh \<noteq> cells_size cells \<and> nh < head then nh else head)"

definition sweep_stream :: "(nat \<Rightarrow> nat \<times> kv_cells \<Rightarrow> (nat \<times> kv_cells) option) \<Rightarrow> nat \<Rightarrow> kv_cache \<Rightarrow> kv_cache option" where
  "sweep_stream step st c = do {
     cells \<leftarrow> vget (kv_vcells c) st;
     head \<leftarrow> vget (kv_heads c) st;
     (nh, cells) \<leftarrow> sweep step cells;
     put_stream st cells (lower_head nh cells head) c }"

definition kv_seq_rm_owned :: "llama_seq_id \<Rightarrow> llama_pos \<Rightarrow> llama_pos \<Rightarrow> kv_cache \<Rightarrow> kv_cache option" where
  "kv_seq_rm_owned s p0 p1 c = do {
     ensure (s = -1 \<or> (0 \<le> s \<and> nat s < length (kv_s2s c)));
     if s \<ge> 0 then do {
       st \<leftarrow> stream_of c s;
       sweep_stream (seq_rm_step s (lo_pos p0) (hi_pos p1)) st c }
     else
       foldM (sweep_stream (any_rm_step (lo_pos p0) (hi_pos p1))) [0..<kv_n_stream c] c }"

definition kv_seq_rm :: "llama_seq_id \<Rightarrow> llama_pos \<Rightarrow> llama_pos \<Rightarrow> kv_cache \<Rightarrow> (bool \<times> kv_cache) option" where
  "kv_seq_rm s p0 p1 c = map_option (\<lambda>c. (True, c)) (cow_guard (kv_seq_rm_owned s p0 p1) c)"

definition kv_seq_keep :: "llama_seq_id \<Rightarrow> kv_cache \<Rightarrow> kv_cache option" where
  "kv_seq_keep s = cow_guard (\<lambda>c. do {
     st \<leftarrow> stream_of c s;
     sweep_stream (seq_keep_step s) st c })"

definition kv_seq_add :: "llama_seq_id \<Rightarrow> llama_pos \<Rightarrow> llama_pos \<Rightarrow> llama_pos \<Rightarrow> kv_cache \<Rightarrow> kv_cache option" where
  "kv_seq_add s p0 p1 shift = cow_guard (\<lambda>c. do {
     st \<leftarrow> stream_of c s;
     ensure (kv_n_pos_per_embd c = 1);
     if shift = 0 then Some c
     else if lo_pos p0 = hi_pos p1 then Some c
     else do {
       cells \<leftarrow> vget (kv_vcells c) st;
       (nh, cells) \<leftarrow> sweep (seq_add_step s (lo_pos p0) (hi_pos p1) shift) cells;
       put_stream st cells (if nh \<noteq> cells_size cells then nh else 0) c } })"

definition kv_seq_div :: "llama_seq_id \<Rightarrow> llama_pos \<Rightarrow> llama_pos \<Rightarrow> int \<Rightarrow> kv_cache \<Rightarrow> kv_cache option" where
  "kv_seq_div s p0 p1 d = cow_guard (\<lambda>c. do {
     st \<leftarrow> stream_of c s;
     ensure (kv_n_pos_per_embd c = 1);
     if d = 1 then Some c
     else if lo_pos p0 = hi_pos p1 then Some c
     else do {
       cells \<leftarrow> vget (kv_vcells c) st;
       cells \<leftarrow> foldM (seq_div_step s (lo_pos p0) (hi_pos p1) d) [0..<cells_size cells] cells;
       cs \<leftarrow> vset (kv_vcells c) st cells;
       Some (c\<lparr>kv_vcells := cs\<rparr>) } })"

definition kv_get_size :: "kv_cache \<Rightarrow> nat option" where
  "kv_get_size c = do {
     st \<leftarrow> vget (kv_s2s c) 0;
     cells \<leftarrow> vget (kv_vcells c) st;
     Some (cells_size cells) }"

text \<open>One cell of a copy between streams: position without the pending shift first, then the shift.\<close>

definition cross_cp_step :: "llama_seq_id \<Rightarrow> llama_seq_id \<Rightarrow> kv_cells \<Rightarrow> nat \<Rightarrow> kv_cells \<Rightarrow> kv_cells option" where
  "cross_cp_step src dst from i dcells = do {
     h \<leftarrow> seq_has from i src;
     if \<not> h then Some dcells
     else do {
       pos \<leftarrow> pos_get from i;
       shift \<leftarrow> get_shift from i;
       ext \<leftarrow> ext_get from i;
       pos \<leftarrow> (if shift \<noteq> 0 then do { p \<leftarrow> i32 (pos - shift); ensure (p \<ge> 0); Some p } else Some pos);
       dcells \<leftarrow> pos_set i pos dcells;
       dcells \<leftarrow> cells_seq_add i dst dcells;
       dcells \<leftarrow> (if shift \<noteq> 0 then map_option snd (pos_add i shift dcells) else Some dcells);
       ext_set i ext dcells } }"

definition kv_seq_cp_owned :: "llama_seq_id \<Rightarrow> llama_seq_id \<Rightarrow> llama_pos \<Rightarrow> llama_pos \<Rightarrow> kv_cache \<Rightarrow> kv_cache option" where
  "kv_seq_cp_owned src dst p0 p1 c = do {
     s0 \<leftarrow> stream_of c src;
     s1 \<leftarrow> stream_of c dst;
     from \<leftarrow> vget (kv_vcells c) s0;
     if s0 = s1 then
       (if src = dst then Some c
        else do {
          cells \<leftarrow> foldM (seq_cp_step src dst (lo_pos p0) (hi_pos p1)) [0..<cells_size from] from;
          cs \<leftarrow> vset (kv_vcells c) s0 cells;
          Some (c\<lparr>kv_vcells := cs\<rparr>) })
     else do {
       size \<leftarrow> kv_get_size c;
       ensure (\<not> (p0 > 0 \<and> p0 + 1 < int size) \<and> \<not> (p1 > 0 \<and> p1 + 1 < int size));
       to \<leftarrow> vget (kv_vcells c) s1;
       cells \<leftarrow> foldM (cross_cp_step src dst from) [0..<cells_size from] (cells_reset to);
       h \<leftarrow> vget (kv_heads c) s0;
       c \<leftarrow> put_stream s1 cells h c;
       Some (c\<lparr>kv_sc_info := kv_sc_info c @ [(s0, s1)]\<rparr>) } }"

definition kv_seq_cp :: "llama_seq_id \<Rightarrow> llama_seq_id \<Rightarrow> llama_pos \<Rightarrow> llama_pos \<Rightarrow> kv_cache \<Rightarrow> kv_cache option" where
  "kv_seq_cp src dst p0 p1 = cow_guard (kv_seq_cp_owned src dst p0 p1)"

definition kv_seq_pos_min :: "kv_cache \<Rightarrow> llama_seq_id \<Rightarrow> llama_pos option" where
  "kv_seq_pos_min c s = (case kv_other c of
     Some o' \<Rightarrow> sib_pos_min o' s
   | None \<Rightarrow> do {
       st \<leftarrow> stream_of c s;
       cells \<leftarrow> vget (kv_vcells c) st;
       cells_seq_pos_min cells s })"

definition kv_seq_pos_max :: "kv_cache \<Rightarrow> llama_seq_id \<Rightarrow> llama_pos option" where
  "kv_seq_pos_max c s = (case kv_other c of
     Some o' \<Rightarrow> sib_pos_max o' s
   | None \<Rightarrow> do {
       st \<leftarrow> stream_of c s;
       cells \<leftarrow> vget (kv_vcells c) st;
       cells_seq_pos_max cells s })"

fun find_cell :: "kv_cells \<Rightarrow> llama_seq_id \<Rightarrow> llama_pos \<Rightarrow> nat list \<Rightarrow> int option" where
  "find_cell cells s p [] = Some (-1)"
| "find_cell cells s p (i # is) = do {
     e \<leftarrow> is_empty cells i;
     if e then find_cell cells s p is
     else do {
       h \<leftarrow> seq_has cells i s;
       if \<not> h then find_cell cells s p is
       else do {
         q \<leftarrow> pos_get cells i;
         if q = p then Some (int i) else find_cell cells s p is } } }"

text \<open>The result pairs the index with the stream written to \<open>out_stream\<close>.\<close>

definition cell_index_for :: "kv_cache \<Rightarrow> llama_seq_id \<Rightarrow> llama_pos \<Rightarrow> (int \<times> nat option) option" where
  "cell_index_for c s p = (
     if s < 0 \<or> nat s \<ge> length (kv_s2s c) then Some (-1, None)
     else do {
       let st = kv_s2s c ! nat s;
       cells \<leftarrow> vget (kv_vcells c) st;
       i \<leftarrow> find_cell cells s p [0..<cells_size cells];
       Some (i, if i = -1 then None else Some st) })"

text \<open>The maximal runs of used cells \<open>[begin, end)\<close>.\<close>

definition build_used_cell_ranges :: "kv_cells \<Rightarrow> (nat \<times> nat) list option" where
  "build_used_cell_ranges cells = do {
     (begin, rs) \<leftarrow> foldM (\<lambda>i (begin, rs). do {
         e \<leftarrow> is_empty cells i;
         Some (if \<not> e then (if begin = cells_size cells then i else begin, rs)
               else if begin \<noteq> cells_size cells then (cells_size cells, rs @ [(begin, i)])
               else (begin, rs)) })
       [0..<cells_size cells] (cells_size cells, []);
     Some (if begin \<noteq> cells_size cells then rs @ [(begin, cells_size cells)] else rs) }"

end
