(* ===== verification/KvSeq.thy ===== *)
theory KvSeq
  imports KvCache
begin

text \<open>
  The sequence operations of \<open>llama_kv_cache\<close> against what they promise: each is a map over the
  cells of the streams it addresses (\<open>kv_mapped\<close>), keeps the invariant \<open>kv_wf\<close> and moves the search
  head as stated.  The loops share one contract, the locale \<open>cell_sweep\<close>: the body changes one cell
  by \<open>f\<close> and reports whether it was freed.
\<close>

section \<open>The invariant\<close>

definition cell_live :: "kv_cell \<Rightarrow> bool" where
  "cell_live x = (cl_pos x \<noteq> -1 \<longrightarrow> cl_seq x \<noteq> {})"

definition cells_live :: "kv_cells \<Rightarrow> bool" where
  "cells_live c = (\<forall>i < cells_size c. cell_live (cell_at c i))"

definition kv_size :: "kv_cache \<Rightarrow> nat" where
  "kv_size c = cells_size (kv_vcells c ! 0)"

definition kv_wf :: "kv_cache \<Rightarrow> bool" where
  "kv_wf c = (0 < kv_n_stream c \<and> length (kv_vcells c) = kv_n_stream c \<and> length (kv_heads c) = kv_n_stream c \<and>
     (\<forall>st < kv_n_stream c. cells_wf (kv_vcells c ! st) \<and> cells_live (kv_vcells c ! st) \<and>
        cells_size (kv_vcells c ! st) = kv_size c \<and> kv_heads c ! st \<le> kv_size c) \<and>
     0 < length (kv_s2s c) \<and> length (kv_s2s c) \<le> 256 \<and> (\<forall>x \<in> set (kv_s2s c). x < kv_n_stream c))"

lemma kv_wfD:
  assumes "kv_wf c"
  shows "length (kv_vcells c) = kv_n_stream c" "length (kv_heads c) = kv_n_stream c" "0 < kv_n_stream c"
    "\<And>st. st < kv_n_stream c \<Longrightarrow> cells_wf (kv_vcells c ! st)"
    "\<And>st. st < kv_n_stream c \<Longrightarrow> cells_live (kv_vcells c ! st)"
    "\<And>st. st < kv_n_stream c \<Longrightarrow> cells_size (kv_vcells c ! st) = kv_size c"
    "\<And>st. st < kv_n_stream c \<Longrightarrow> kv_heads c ! st \<le> kv_size c"
    "\<And>x. x \<in> set (kv_s2s c) \<Longrightarrow> x < kv_n_stream c" "0 < length (kv_s2s c)" "length (kv_s2s c) \<le> 256"
  using assms by (auto simp: kv_wf_def)

text \<open>A sequence id the cache accepts, and its stream.\<close>

definition kv_has_seq :: "kv_cache \<Rightarrow> llama_seq_id \<Rightarrow> bool" where
  "kv_has_seq c s = (0 \<le> s \<and> nat s < length (kv_s2s c))"

definition kv_stream :: "kv_cache \<Rightarrow> llama_seq_id \<Rightarrow> nat" where
  "kv_stream c s = kv_s2s c ! nat s"

lemma kv_stream_lt: "kv_wf c \<Longrightarrow> kv_has_seq c s \<Longrightarrow> kv_stream c s < kv_n_stream c"
  by (auto simp: kv_has_seq_def kv_stream_def kv_wf_def)

lemma kv_has_seq_id: "kv_wf c \<Longrightarrow> kv_has_seq c s \<Longrightarrow> s \<in> seq_ids_ok"
  by (auto simp: kv_has_seq_def kv_wf_def)

lemma stream_of_eq: "stream_of c s = (if kv_has_seq c s then Some (kv_stream c s) else None)"
  by (auto simp: stream_of_def kv_has_seq_def kv_stream_def ensure_def)

text \<open>The cache after every cell of every stream was mapped by \<open>F\<close>; only cells and heads changed.\<close>

definition kv_mapped :: "kv_cache \<Rightarrow> (nat \<Rightarrow> kv_cell \<Rightarrow> kv_cell) \<Rightarrow> kv_cache \<Rightarrow> bool" where
  "kv_mapped c F d = (kv_wf d \<and> d = c\<lparr>kv_vcells := kv_vcells d, kv_heads := kv_heads d\<rparr> \<and> kv_size d = kv_size c \<and>
     (\<forall>st < kv_n_stream c. \<forall>i < kv_size c. cell_at (kv_vcells d ! st) i = F st (cell_at (kv_vcells c ! st) i)))"

section \<open>One pass over the cells of a stream\<close>

definition cells_mapped :: "kv_cells \<Rightarrow> (kv_cell \<Rightarrow> kv_cell) \<Rightarrow> kv_cells \<Rightarrow> bool" where
  "cells_mapped c f d = (cells_wf d \<and> cells_size d = cells_size c \<and>
     (\<forall>i < cells_size c. cell_at d i = f (cell_at c i)))"

definition first_freed :: "(kv_cell \<Rightarrow> bool) \<Rightarrow> kv_cells \<Rightarrow> nat" where
  "first_freed fr c = length (takeWhile (\<lambda>i. \<not> fr (cell_at c i)) [0..<cells_size c])"

lemma first_freed_le: "first_freed fr c \<le> cells_size c"
  unfolding first_freed_def using length_takeWhile_le [of _ "[0..<cells_size c]"] by simp

lemma first_freed_prefix: "i < first_freed fr c \<Longrightarrow> \<not> fr (cell_at c i)"
proof -
  assume i: "i < first_freed fr c"
  have "takeWhile (\<lambda>i. \<not> fr (cell_at c i)) [0..<cells_size c] ! i = i"
    using i first_freed_le [of fr c] by (simp add: takeWhile_nth first_freed_def)
  then show ?thesis
    using nth_mem [of i "takeWhile (\<lambda>i. \<not> fr (cell_at c i)) [0..<cells_size c]"] i
    by (auto simp: first_freed_def dest: set_takeWhileD)
qed

lemma first_freed_hit: "first_freed fr c < cells_size c \<Longrightarrow> fr (cell_at c (first_freed fr c))"
  unfolding first_freed_def
  using nth_length_takeWhile [of "\<lambda>i. \<not> fr (cell_at c i)" "[0..<cells_size c]"] by simp

locale cell_sweep =
  fixes step :: "nat \<Rightarrow> nat \<times> kv_cells \<Rightarrow> (nat \<times> kv_cells) option"
    and f :: "kv_cell \<Rightarrow> kv_cell" and freed :: "kv_cell \<Rightarrow> bool" and shifts :: "kv_cell \<Rightarrow> bool"
    and ok :: "kv_cell \<Rightarrow> bool"
  assumes step: "cells_wf d \<Longrightarrow> i < cells_size d \<Longrightarrow> ok (cell_at d i) \<Longrightarrow>
    wp (step i (nh, d)) (\<lambda>(nh', e). cell_updated d i (f (cell_at d i)) e \<and>
      kc_has_shift e = (kc_has_shift d \<or> shifts (cell_at d i)) \<and>
      nh' = (if freed (cell_at d i) \<and> nh = cells_size d then i else nh))"
begin

lemma sweep_wp:
  assumes c: "cells_wf c" and ok: "\<And>i. i < cells_size c \<Longrightarrow> ok (cell_at c i)"
  shows "wp (sweep step c) (\<lambda>(nh, d). cells_mapped c f d \<and> nh = first_freed freed c \<and>
    kc_has_shift d = (kc_has_shift c \<or> (\<exists>i < cells_size c. shifts (cell_at c i))))"
proof -
  let ?n = "cells_size c" and ?F = "first_freed freed c"
  let ?I = "\<lambda>k (nh, d). cells_wf d \<and> cells_size d = ?n \<and>
      (\<forall>i. cell_at d i = (if i < k then f (cell_at c i) else cell_at c i)) \<and>
      nh = (if ?F < k then ?F else ?n) \<and>
      kc_has_shift d = (kc_has_shift c \<or> (\<exists>i < k. shifts (cell_at c i)))"
  have "wp (foldM step [0..<?n] (?n, c)) (?I ?n)"
  proof (rule wp_for [where I = ?I])
    show "?I 0 (?n, c)" using c by simp
  next
    fix k x assume k: "k < ?n" and inv: "?I k x"
    obtain nh d where x: "x = (nh, d)" by (cases x)
    have d: "cells_wf d" "cells_size d = ?n" "cell_at d k = cell_at c k" using inv x by auto
    have FF: "freed (cell_at c k) \<Longrightarrow> ?F \<le> k" "\<not> freed (cell_at c k) \<Longrightarrow> ?F \<noteq> k"
      using first_freed_prefix [of k freed c] first_freed_hit [of freed c] k by (auto intro: leI)
    show "wp (step k x) (?I (Suc k))" unfolding x
    proof (rule wp_mono [OF step [OF d(1)]])
      fix y assume "case y of (nh', e) \<Rightarrow> cell_updated d k (f (cell_at d k)) e \<and>
        kc_has_shift e = (kc_has_shift d \<or> shifts (cell_at d k)) \<and>
        nh' = (if freed (cell_at d k) \<and> nh = cells_size d then k else nh)"
      moreover obtain nh' e where y: "y = (nh', e)" by (cases y)
      ultimately have e: "cell_updated d k (f (cell_at c k)) e"
        "kc_has_shift e = (kc_has_shift d \<or> shifts (cell_at c k))"
        "nh' = (if freed (cell_at c k) \<and> nh = ?n then k else nh)"
        using d by auto
      have "nh' = (if ?F < Suc k then ?F else ?n)"
        using e(3) inv FF k by (auto simp: x less_Suc_eq split: if_splits)
      then show "?I (Suc k) y"
        using e inv d by (auto simp: x y cell_updated_def less_Suc_eq)
    qed (use k d ok in auto)
  qed
  then show ?thesis unfolding sweep_def
    by (rule wp_mono) (use first_freed_le [of freed c] in \<open>auto simp: cells_mapped_def\<close>)
qed

end

text \<open>The bodies of the five loops satisfy the contract.\<close>

definition in_range :: "llama_pos \<Rightarrow> llama_pos \<Rightarrow> kv_cell \<Rightarrow> bool" where
  "in_range p0 p1 x = (p0 \<le> cl_pos x \<and> cl_pos x < p1)"

definition hits :: "llama_seq_id \<Rightarrow> llama_pos \<Rightarrow> llama_pos \<Rightarrow> kv_cell \<Rightarrow> bool" where
  "hits s p0 p1 x = (in_range p0 p1 x \<and> s \<in> cl_seq x)"

lemma cell_updated_same: "cells_wf c \<Longrightarrow> cell_updated c i (cell_at c i) c"
  by (simp add: cell_updated_def)

lemma step_wp_simps [simp]:
  "i < cells_size c \<Longrightarrow> wp (pos_in c i p0 p1) Q = Q (in_range p0 p1 (cell_at c i))"
  "i < cells_size c \<Longrightarrow> s \<in> seq_ids_ok \<Longrightarrow> wp (seq_has c i s) Q = Q (s \<in> cl_seq (cell_at c i))"
  by (simp_all add: pos_in_def seq_has_def wp_simps in_range_def cell_at_def)

lemma note_freed_simps [simp]:
  "fst (note_freed b i (nh, d)) = (if b \<and> nh = cells_size d then i else nh)"
  "snd (note_freed b i (nh, d)) = d"
  by (simp_all add: note_freed_def)

text \<open>A body that runs the operation \<open>m\<close> on the cells that satisfy \<open>P\<close> and skips the others.\<close>

lemma guarded_step:
  assumes d: "cells_wf d"
    and m: "P (cell_at d i) \<Longrightarrow> wp m (\<lambda>(b, e). cell_updated d i (g (cell_at d i)) e \<and>
      kc_has_shift e = (kc_has_shift d \<or> h (cell_at d i)) \<and> b = fr (cell_at d i))"
    and st: "P (cell_at d i) \<Longrightarrow> st = Option.bind m (\<lambda>(b, e). Some (note_freed b i (nh, e)))"
      "\<not> P (cell_at d i) \<Longrightarrow> st = Some (nh, d)"
  shows "wp st (\<lambda>(nh', e). cell_updated d i (if P (cell_at d i) then g (cell_at d i) else cell_at d i) e \<and>
      kc_has_shift e = (kc_has_shift d \<or> (P (cell_at d i) \<and> h (cell_at d i))) \<and>
      nh' = (if (P (cell_at d i) \<and> fr (cell_at d i)) \<and> nh = cells_size d then i else nh))"
proof (cases "P (cell_at d i)")
  case True
  show ?thesis unfolding st(1) [OF True] wp_bind
    by (rule wp_mono [OF m [OF True]])
      (use True in \<open>auto simp: note_freed_def cell_updated_def\<close>)
next
  case False
  then show ?thesis using st(2) d by (simp add: cell_updated_same)
qed

lemma pos_in_eq: "i < cells_size c \<Longrightarrow> pos_in c i p0 p1 = Some (in_range p0 p1 (cell_at c i))"
  by (simp add: pos_in_def vget_def in_range_def cell_at_def)

lemma seq_has_eq: "i < cells_size c \<Longrightarrow> s \<in> seq_ids_ok \<Longrightarrow> seq_has c i s = Some (s \<in> cl_seq (cell_at c i))"
  by (simp add: seq_has_def cell_at_def)

lemma kc_seq_cell: "kc_seq c ! i = cl_seq (cell_at c i)" "kc_pos c ! i = cl_pos (cell_at c i)"
  "kc_shift c ! i = cl_shift (cell_at c i)"
  by (simp_all add: cell_at_def)

interpretation seq_rm_sweep: cell_sweep "seq_rm_step s p0 p1"
    "\<lambda>x. if hits s p0 p1 x then cell_without s x else x"
    "\<lambda>x. hits s p0 p1 x \<and> cl_seq x = {s}" "\<lambda>x. hits s p0 p1 x \<and> False" "\<lambda>x. s \<in> seq_ids_ok" for s p0 p1
proof
  fix d i nh assume d: "cells_wf d" and i: "i < cells_size d" and s: "s \<in> seq_ids_ok"
  show "wp (seq_rm_step s p0 p1 i (nh, d)) (\<lambda>(nh', e).
       cell_updated d i (if hits s p0 p1 (cell_at d i) then cell_without s (cell_at d i) else cell_at d i) e \<and>
       kc_has_shift e = (kc_has_shift d \<or> (hits s p0 p1 (cell_at d i) \<and> False)) \<and>
       nh' = (if (hits s p0 p1 (cell_at d i) \<and> cl_seq (cell_at d i) = {s}) \<and> nh = cells_size d then i else nh))"
  proof (rule guarded_step [OF d])
    assume h: "hits s p0 p1 (cell_at d i)"
    then have "s \<in> kc_seq d ! i" by (simp add: hits_def kc_seq_cell)
    from cells_seq_rm_wp [OF d i this]
    show "wp (cells_seq_rm i s d) (\<lambda>(b, e). cell_updated d i (cell_without s (cell_at d i)) e \<and>
      kc_has_shift e = (kc_has_shift d \<or> False) \<and> b = (cl_seq (cell_at d i) = {s}))"
      by (rule wp_mono) (auto simp: kc_seq_cell)
  qed (use s i in \<open>auto simp: seq_rm_step_def hits_def pos_in_eq seq_has_eq\<close>)
qed

interpretation any_rm_sweep: cell_sweep "any_rm_step p0 p1"
    "\<lambda>x. if in_range p0 p1 x then empty_cell else x"
    "\<lambda>x. in_range p0 p1 x \<and> True" "\<lambda>x. in_range p0 p1 x \<and> False" "\<lambda>x. 0 \<le> p0" for p0 p1
proof
  fix d i nh assume d: "cells_wf d" and i: "i < cells_size d" and p0: "0 \<le> p0"
  show "wp (any_rm_step p0 p1 i (nh, d)) (\<lambda>(nh', e).
       cell_updated d i (if in_range p0 p1 (cell_at d i) then empty_cell else cell_at d i) e \<and>
       kc_has_shift e = (kc_has_shift d \<or> (in_range p0 p1 (cell_at d i) \<and> False)) \<and>
       nh' = (if (in_range p0 p1 (cell_at d i) \<and> True) \<and> nh = cells_size d then i else nh))"
  proof (rule guarded_step [OF d])
    assume h: "in_range p0 p1 (cell_at d i)"
    then have "kc_pos d ! i \<noteq> -1" using p0 by (simp add: in_range_def kc_seq_cell)
    from cells_rm_wp [OF d i this]
    show "wp (map_option (Pair True) (cells_rm i d)) (\<lambda>(b, e). cell_updated d i empty_cell e \<and>
      kc_has_shift e = (kc_has_shift d \<or> False) \<and> b = True)"
      by (auto simp: wp_def)
    show "any_rm_step p0 p1 i (nh, d) =
        Option.bind (map_option (Pair True) (cells_rm i d)) (\<lambda>(b, e). Some (note_freed b i (nh, e)))"
      using h i by (cases "cells_rm i d") (simp_all add: any_rm_step_def pos_in_eq)
  qed (use i in \<open>auto simp: any_rm_step_def pos_in_eq\<close>)
qed

interpretation seq_keep_sweep: cell_sweep "seq_keep_step s" "\<lambda>x. if True then cell_keep s x else x"
    "\<lambda>x. True \<and> s \<notin> cl_seq x \<and> cl_seq x \<noteq> {}" "\<lambda>x. True \<and> False"
    "\<lambda>x. s \<in> seq_ids_ok \<and> cell_live x" for s
proof
  fix d i nh assume d: "cells_wf d" and i: "i < cells_size d" and ok: "s \<in> seq_ids_ok \<and> cell_live (cell_at d i)"
  show "wp (seq_keep_step s i (nh, d)) (\<lambda>(nh', e).
       cell_updated d i (if True then cell_keep s (cell_at d i) else cell_at d i) e \<and>
       kc_has_shift e = (kc_has_shift d \<or> (True \<and> False)) \<and>
       nh' = (if (True \<and> s \<notin> cl_seq (cell_at d i) \<and> cl_seq (cell_at d i) \<noteq> {}) \<and> nh = cells_size d then i else nh))"
  proof (rule guarded_step [OF d, where P = "\<lambda>_. True"])
    have "kc_seq d ! i = {} \<Longrightarrow> kc_pos d ! i = -1"
      using ok by (auto simp: cell_live_def kc_seq_cell)
    from cells_seq_keep_wp [OF d i conjunct1 [OF ok] this]
    show "wp (cells_seq_keep i s d) (\<lambda>(b, e). cell_updated d i (cell_keep s (cell_at d i)) e \<and>
      kc_has_shift e = (kc_has_shift d \<or> False) \<and>
      b = (s \<notin> cl_seq (cell_at d i) \<and> cl_seq (cell_at d i) \<noteq> {}))"
      by (rule wp_mono) (auto simp: kc_seq_cell)
  qed (simp_all add: seq_keep_step_def)
qed

text \<open>The arithmetic of a shift or division stays inside \<open>int32_t\<close>.\<close>

definition add_fits :: "llama_pos \<Rightarrow> kv_cell \<Rightarrow> bool" where
  "add_fits d x = (in_i32 (cl_pos x + d) \<and> in_i32 (cl_shift x + d))"

definition div_fits :: "int \<Rightarrow> kv_cell \<Rightarrow> bool" where
  "div_fits d x = (in_i32 (cl_pos x) \<and> in_i32 (cl_shift x + (cl_pos x - cl_pos x div d)))"

lemma cells_wf_in_seq: "cells_wf c \<Longrightarrow> i < cells_size c \<Longrightarrow> s \<in> cl_seq (cell_at c i) \<Longrightarrow> kc_pos c ! i \<noteq> -1"
  using cells_wf_cell(3) [of c i] by (auto simp: kc_seq_cell)

interpretation seq_add_sweep: cell_sweep "seq_add_step s p0 p1 d"
    "\<lambda>x. if hits s p0 p1 x then cell_shifted d x else x"
    "\<lambda>x. hits s p0 p1 x \<and> cl_pos x + d < 0" "\<lambda>x. hits s p0 p1 x \<and> True"
    "\<lambda>x. s \<in> seq_ids_ok \<and> (hits s p0 p1 x \<longrightarrow> add_fits d x)" for s p0 p1 d
proof
  fix c i nh assume c: "cells_wf c" and i: "i < cells_size c"
    and ok: "s \<in> seq_ids_ok \<and> (hits s p0 p1 (cell_at c i) \<longrightarrow> add_fits d (cell_at c i))"
  show "wp (seq_add_step s p0 p1 d i (nh, c)) (\<lambda>(nh', e).
       cell_updated c i (if hits s p0 p1 (cell_at c i) then cell_shifted d (cell_at c i) else cell_at c i) e \<and>
       kc_has_shift e = (kc_has_shift c \<or> (hits s p0 p1 (cell_at c i) \<and> True)) \<and>
       nh' = (if (hits s p0 p1 (cell_at c i) \<and> cl_pos (cell_at c i) + d < 0) \<and> nh = cells_size c then i else nh))"
  proof (rule guarded_step [OF c])
    assume h: "hits s p0 p1 (cell_at c i)"
    then have "kc_pos c ! i \<noteq> -1" using cells_wf_in_seq [OF c i, of s] by (simp add: hits_def)
    from pos_add_wp [OF c i this, of d]
    show "wp (pos_add i d c) (\<lambda>(b, e). cell_updated c i (cell_shifted d (cell_at c i)) e \<and>
      kc_has_shift e = (kc_has_shift c \<or> True) \<and> b = (cl_pos (cell_at c i) + d < 0))"
      using ok h by (auto simp: kc_seq_cell add_fits_def elim!: wp_mono)
  qed (use ok i in \<open>auto simp: seq_add_step_def hits_def pos_in_eq seq_has_eq\<close>)
qed

text \<open>\<open>seq_div\<close> and the copy within a stream do not track freed cells.\<close>

definition untracked :: "(nat \<Rightarrow> kv_cells \<Rightarrow> kv_cells option) \<Rightarrow> nat \<Rightarrow> nat \<times> kv_cells \<Rightarrow> (nat \<times> kv_cells) option" where
  "untracked step i = (\<lambda>(nh, c). map_option (Pair nh) (step i c))"

lemma foldM_untracked:
  "foldM (untracked step) is (nh, c) = map_option (Pair nh) (foldM step is c)"
  by (induction "is" arbitrary: c) (auto simp: untracked_def split: Option.bind_split)

lemma sweep_untracked: "sweep (untracked step) c = map_option (Pair (cells_size c)) (foldM step [0..<cells_size c] c)"
  by (simp add: sweep_def foldM_untracked)

lemma wp_map_Pair: "wp (map_option (Pair nh) m) Q = wp m (\<lambda>d. Q (nh, d))"
  by (cases m) auto

interpretation seq_div_sweep: cell_sweep "untracked (seq_div_step s p0 p1 d)"
    "\<lambda>x. if hits s p0 p1 x then cell_divided d x else x" "\<lambda>x. False" "\<lambda>x. hits s p0 p1 x"
    "\<lambda>x. s \<in> seq_ids_ok \<and> 0 < d \<and> (hits s p0 p1 x \<longrightarrow> div_fits d x)" for s p0 p1 d
proof
  fix c i nh assume c: "cells_wf c" and i: "i < cells_size c"
    and ok: "s \<in> seq_ids_ok \<and> 0 < d \<and> (hits s p0 p1 (cell_at c i) \<longrightarrow> div_fits d (cell_at c i))"
  have "wp (seq_div_step s p0 p1 d i c) (\<lambda>e.
       cell_updated c i (if hits s p0 p1 (cell_at c i) then cell_divided d (cell_at c i) else cell_at c i) e \<and>
       kc_has_shift e = (kc_has_shift c \<or> hits s p0 p1 (cell_at c i)))"
  proof (cases "hits s p0 p1 (cell_at c i)")
    case True
    then have "kc_pos c ! i \<noteq> -1" using cells_wf_in_seq [OF c i, of s] by (simp add: hits_def)
    from pos_div_wp [OF c i this, of d] True ok i show ?thesis
      by (auto simp: seq_div_step_def pos_in_eq seq_has_eq hits_def kc_seq_cell div_fits_def elim!: wp_mono)
  next
    case False
    then show ?thesis using ok i c
      by (auto simp: seq_div_step_def pos_in_eq seq_has_eq hits_def cell_updated_same)
  qed
  then show "wp (untracked (seq_div_step s p0 p1 d) i (nh, c)) (\<lambda>(nh', e).
       cell_updated c i (if hits s p0 p1 (cell_at c i) then cell_divided d (cell_at c i) else cell_at c i) e \<and>
       kc_has_shift e = (kc_has_shift c \<or> hits s p0 p1 (cell_at c i)) \<and>
       nh' = (if False \<and> nh = cells_size c then i else nh))"
    by (simp add: untracked_def wp_map_Pair)
qed

definition cell_with :: "llama_seq_id \<Rightarrow> kv_cell \<Rightarrow> kv_cell" where
  "cell_with s x = x\<lparr>cl_seq := insert s (cl_seq x)\<rparr>"

interpretation seq_cp_sweep: cell_sweep "untracked (seq_cp_step src dst p0 p1)"
    "\<lambda>x. if hits src p0 p1 x then cell_with dst x else x" "\<lambda>x. False" "\<lambda>x. False"
    "\<lambda>x. src \<in> seq_ids_ok \<and> dst \<in> seq_ids_ok \<and> (hits src p0 p1 x \<longrightarrow> dst \<notin> cl_seq x)" for src dst p0 p1
proof
  fix c i nh assume c: "cells_wf c" and i: "i < cells_size c"
    and ok: "src \<in> seq_ids_ok \<and> dst \<in> seq_ids_ok \<and> (hits src p0 p1 (cell_at c i) \<longrightarrow> dst \<notin> cl_seq (cell_at c i))"
  have "wp (seq_cp_step src dst p0 p1 i c) (\<lambda>e.
       cell_updated c i (if hits src p0 p1 (cell_at c i) then cell_with dst (cell_at c i) else cell_at c i) e \<and>
       kc_has_shift e = kc_has_shift c)"
  proof (cases "hits src p0 p1 (cell_at c i)")
    case True
    then have "kc_pos c ! i \<noteq> -1" using cells_wf_in_seq [OF c i, of src] by (simp add: hits_def)
    from cells_seq_add_wp [OF c i this, of dst] True ok i show ?thesis
      by (auto simp: seq_cp_step_def pos_in_eq seq_has_eq hits_def kc_seq_cell cell_with_def elim!: wp_mono)
  next
    case False
    then show ?thesis using ok i c
      by (auto simp: seq_cp_step_def pos_in_eq seq_has_eq hits_def cell_updated_same)
  qed
  then show "wp (untracked (seq_cp_step src dst p0 p1) i (nh, c)) (\<lambda>(nh', e).
       cell_updated c i (if hits src p0 p1 (cell_at c i) then cell_with dst (cell_at c i) else cell_at c i) e \<and>
       kc_has_shift e = (kc_has_shift c \<or> False) \<and> nh' = (if False \<and> nh = cells_size c then i else nh))"
    by (simp add: untracked_def wp_map_Pair)
qed

section \<open>From one stream to the cache\<close>

lemma put_stream_mapped:
  assumes c: "kv_wf c" and st: "st < kv_n_stream c" and m: "cells_mapped (kv_vcells c ! st) f cells"
    and live: "\<And>i. i < kv_size c \<Longrightarrow> cell_live (f (cell_at (kv_vcells c ! st) i))" and h: "head \<le> kv_size c"
  shows "wp (put_stream st cells head c) (\<lambda>d. kv_mapped c (\<lambda>st' x. if st' = st then f x else x) d \<and>
    d = c\<lparr>kv_vcells := (kv_vcells c)[st := cells], kv_heads := (kv_heads c)[st := head]\<rparr>)"
proof -
  note w = kv_wfD [OF c]
  let ?d = "c\<lparr>kv_vcells := (kv_vcells c)[st := cells], kv_heads := (kv_heads c)[st := head]\<rparr>"
  have sz: "cells_size cells = kv_size c" and wf: "cells_wf cells"
    and at: "\<And>i. i < kv_size c \<Longrightarrow> cell_at cells i = f (cell_at (kv_vcells c ! st) i)"
    using m w(6) [OF st] by (auto simp: cells_mapped_def)
  have size: "kv_size ?d = kv_size c"
    using sz w(1,3) by (cases "st = 0") (simp_all add: kv_size_def)
  have "cells_live cells" using live sz at by (simp add: cells_live_def)
  then have "\<forall>k < kv_n_stream c. cells_wf (kv_vcells ?d ! k) \<and> cells_live (kv_vcells ?d ! k) \<and>
      cells_size (kv_vcells ?d ! k) = kv_size c \<and> kv_heads ?d ! k \<le> kv_size c"
    using w(1,2,4-7) st sz wf h by (simp add: nth_list_update)
  then have "kv_wf ?d"
    unfolding kv_wf_def size using w by simp
  then have "kv_mapped c (\<lambda>st' x. if st' = st then f x else x) ?d"
    using size at w(1) st by (simp add: kv_mapped_def nth_list_update)
  then show ?thesis using w(1,2) st by (simp add: put_stream_def wp_simps)
qed

lemma kv_mapped_cong:
  assumes "kv_mapped c F d" and "\<And>st i. st < kv_n_stream c \<Longrightarrow> i < kv_size c \<Longrightarrow>
    F st (cell_at (kv_vcells c ! st) i) = G st (cell_at (kv_vcells c ! st) i)"
  shows "kv_mapped c G d"
  using assms by (simp add: kv_mapped_def)

lemma kv_mapped_frame:
  assumes "kv_mapped c F d"
  shows "kv_wf d" "kv_n_stream d = kv_n_stream c" "kv_s2s d = kv_s2s c" "kv_size d = kv_size c"
    "kv_other d = kv_other c" "kv_n_swa d = kv_n_swa c" "kv_swa_type d = kv_swa_type c"
    "kv_n_pos_per_embd d = kv_n_pos_per_embd c"
    "\<And>st i. st < kv_n_stream c \<Longrightarrow> i < kv_size c \<Longrightarrow>
       cell_at (kv_vcells d ! st) i = F st (cell_at (kv_vcells c ! st) i)"
proof -
  have d: "c\<lparr>kv_vcells := kv_vcells d, kv_heads := kv_heads d\<rparr> = d" using assms by (simp add: kv_mapped_def)
  show "kv_n_stream d = kv_n_stream c" by (subst d [symmetric]) simp
  show "kv_s2s d = kv_s2s c" by (subst d [symmetric]) simp
  show "kv_other d = kv_other c" by (subst d [symmetric]) simp
  show "kv_n_swa d = kv_n_swa c" by (subst d [symmetric]) simp
  show "kv_swa_type d = kv_swa_type c" by (subst d [symmetric]) simp
  show "kv_n_pos_per_embd d = kv_n_pos_per_embd c" by (subst d [symmetric]) simp
qed (use assms in \<open>simp_all add: kv_mapped_def\<close>)

lemma kv_mapped_trans:
  assumes cd: "kv_mapped c F d" and de: "kv_mapped d G e"
  shows "kv_mapped c (\<lambda>st x. G st (F st x)) e"
proof -
  have d: "c\<lparr>kv_vcells := kv_vcells d, kv_heads := kv_heads d\<rparr> = d" using cd by (simp add: kv_mapped_def)
  have e: "e = d\<lparr>kv_vcells := kv_vcells e, kv_heads := kv_heads e\<rparr>" using de by (simp add: kv_mapped_def)
  have "e = (c\<lparr>kv_vcells := kv_vcells d, kv_heads := kv_heads d\<rparr>)\<lparr>kv_vcells := kv_vcells e, kv_heads := kv_heads e\<rparr>"
    unfolding d by (rule e)
  then show ?thesis using cd de kv_mapped_frame [OF cd] by (simp add: kv_mapped_def)
qed

lemma kv_mapped_refl: "kv_wf c \<Longrightarrow> kv_mapped c (\<lambda>st x. x) c"
  by (simp add: kv_mapped_def)

context cell_sweep
begin

lemma sweep_stream_wp:
  assumes c: "kv_wf c" and st: "st < kv_n_stream c"
    and ok: "\<And>i. i < kv_size c \<Longrightarrow> ok (cell_at (kv_vcells c ! st) i)"
    and live: "\<And>i. i < kv_size c \<Longrightarrow> cell_live (f (cell_at (kv_vcells c ! st) i))"
  shows "wp (sweep_stream step st c) (\<lambda>d. kv_mapped c (\<lambda>st' x. if st' = st then f x else x) d \<and>
    kv_heads d = (kv_heads c)[st := lower_head (first_freed freed (kv_vcells c ! st)) (kv_vcells c ! st) (kv_heads c ! st)])"
proof -
  note w = kv_wfD [OF c]
  have "wp (sweep step (kv_vcells c ! st)) (\<lambda>(nh, d). cells_mapped (kv_vcells c ! st) f d \<and>
      nh = first_freed freed (kv_vcells c ! st))"
    by (rule wp_mono [OF sweep_wp [OF w(4) [OF st]]]) (use ok w(6) [OF st] in auto)
  then have "wp (sweep step (kv_vcells c ! st)) (\<lambda>x. wp (case x of (nh, cells) \<Rightarrow>
      put_stream st cells (lower_head nh cells (kv_heads c ! st)) c)
      (\<lambda>d. kv_mapped c (\<lambda>st' x. if st' = st then f x else x) d \<and>
    kv_heads d = (kv_heads c)[st := lower_head (first_freed freed (kv_vcells c ! st)) (kv_vcells c ! st) (kv_heads c ! st)]))"
  proof (rule wp_mono)
    fix x assume x: "case x of (nh, d) \<Rightarrow> cells_mapped (kv_vcells c ! st) f d \<and> nh = first_freed freed (kv_vcells c ! st)"
    obtain nh d where xd: "x = (nh, d)" by (cases x)
    have m: "cells_mapped (kv_vcells c ! st) f d" "nh = first_freed freed (kv_vcells c ! st)" using x xd by auto
    have h: "lower_head nh d (kv_heads c ! st) \<le> kv_size c"
      using w(7) [OF st] by (simp add: lower_head_def)
    have "lower_head nh d (kv_heads c ! st) = lower_head nh (kv_vcells c ! st) (kv_heads c ! st)"
      using m by (simp add: lower_head_def cells_mapped_def)
    then show "wp (case x of (nh, cells) \<Rightarrow> put_stream st cells (lower_head nh cells (kv_heads c ! st)) c)
      (\<lambda>d. kv_mapped c (\<lambda>st' x. if st' = st then f x else x) d \<and>
    kv_heads d = (kv_heads c)[st := lower_head (first_freed freed (kv_vcells c ! st)) (kv_vcells c ! st) (kv_heads c ! st)])"
      unfolding xd prod.case
      using m by (intro wp_mono [OF put_stream_mapped [OF c st m(1) live h]]) auto
  qed
  then show ?thesis unfolding sweep_stream_def using w(1,2) st by (simp add: wp_simps)
qed

end

section \<open>The sequence operations\<close>

lemma wp_map_option: "wp (map_option f m) Q = wp m (\<lambda>x. Q (f x))"
  by (cases m) auto

lemma cell_live_simps [simp]:
  "cell_live empty_cell" "cell_live (cell_without s x)"
  "cell_live x \<Longrightarrow> cell_live (cell_keep s x)"
  "cell_live x \<Longrightarrow> cl_pos x \<noteq> -1 \<Longrightarrow> cell_live (cell_shifted d x)"
  "cl_seq x \<noteq> {} \<Longrightarrow> cell_live (cell_divided d x)"
  "cell_live (cell_with s x)"
  by (auto simp: cell_live_def empty_cell_def cell_without_def cell_keep_def cell_shifted_def
      cell_divided_def cell_with_def)

lemma kv_wf_live: "kv_wf c \<Longrightarrow> st < kv_n_stream c \<Longrightarrow> i < kv_size c \<Longrightarrow> cell_live (cell_at (kv_vcells c ! st) i)"
  using kv_wfD(5,6) [of c st] by (simp add: cells_live_def)

lemma kv_wf_cell_ok: "kv_wf c \<Longrightarrow> st < kv_n_stream c \<Longrightarrow> i < kv_size c \<Longrightarrow> cell_ok (cell_at (kv_vcells c ! st) i)"
  using kv_wfD(4,6) [of c st] cells_wfD(3) [of "kv_vcells c ! st" i] by simp

lemma hits_not_free: "hits s (lo_pos p0) p1 x \<Longrightarrow> cl_pos x \<noteq> -1"
  by (auto simp: hits_def in_range_def lo_pos_def split: if_splits)

lemma cow_guard_owned [simp]: "kv_other c = None \<Longrightarrow> cow_guard k c = k c"
  by (simp add: cow_guard_def)

lemma kv_first_freed_le: "kv_wf c \<Longrightarrow> st < kv_n_stream c \<Longrightarrow> first_freed fr (kv_vcells c ! st) \<le> kv_size c"
  using first_freed_le [of fr "kv_vcells c ! st"] kv_wfD(6) [of c st] by simp

definition freed_head :: "kv_cache \<Rightarrow> nat \<Rightarrow> (kv_cell \<Rightarrow> bool) \<Rightarrow> nat list" where
  "freed_head c st fr = (kv_heads c)[st :=
     lower_head (first_freed fr (kv_vcells c ! st)) (kv_vcells c ! st) (kv_heads c ! st)]"

lemma kv_seq_rm_wp:
  assumes c: "kv_wf c" and o: "kv_other c = None" and s: "kv_has_seq c s"
  shows "wp (kv_seq_rm s p0 p1 c) (\<lambda>(b, d). b \<and>
    kv_mapped c (\<lambda>st x. if st = kv_stream c s \<and> hits s (lo_pos p0) (hi_pos p1) x then cell_without s x else x) d \<and>
    kv_heads d = freed_head c (kv_stream c s) (\<lambda>x. hits s (lo_pos p0) (hi_pos p1) x \<and> cl_seq x = {s}))"
proof -
  have st: "kv_stream c s < kv_n_stream c" by (rule kv_stream_lt [OF c s])
  have "wp (sweep_stream (seq_rm_step s (lo_pos p0) (hi_pos p1)) (kv_stream c s) c) (\<lambda>d.
     kv_mapped c (\<lambda>st' x. if st' = kv_stream c s then if hits s (lo_pos p0) (hi_pos p1) x then cell_without s x else x else x) d \<and>
     kv_heads d = freed_head c (kv_stream c s) (\<lambda>x. hits s (lo_pos p0) (hi_pos p1) x \<and> cl_seq x = {s}))"
    unfolding freed_head_def
    by (rule seq_rm_sweep.sweep_stream_wp [OF c st]) (use kv_has_seq_id [OF c s] kv_wf_live [OF c st] in auto)
  then have "wp (sweep_stream (seq_rm_step s (lo_pos p0) (hi_pos p1)) (kv_stream c s) c) (\<lambda>d.
     kv_mapped c (\<lambda>st x. if st = kv_stream c s \<and> hits s (lo_pos p0) (hi_pos p1) x then cell_without s x else x) d \<and>
     kv_heads d = freed_head c (kv_stream c s) (\<lambda>x. hits s (lo_pos p0) (hi_pos p1) x \<and> cl_seq x = {s}))"
    by (rule wp_mono) (auto elim!: kv_mapped_cong)
  moreover have "0 \<le> s" "nat s < length (kv_s2s c)" using s by (auto simp: kv_has_seq_def)
  ultimately show ?thesis using o s
    by (simp add: kv_seq_rm_def kv_seq_rm_owned_def wp_simps stream_of_eq wp_map_option)
qed

lemma kv_seq_rm_any_wp:
  assumes c: "kv_wf c" and o: "kv_other c = None"
  shows "wp (kv_seq_rm (-1) p0 p1 c) (\<lambda>(b, d). b \<and>
    kv_mapped c (\<lambda>st x. if in_range (lo_pos p0) (hi_pos p1) x then empty_cell else x) d)"
proof -
  let ?f = "\<lambda>x. if in_range (lo_pos p0) (hi_pos p1) x then empty_cell else x"
  let ?step = "sweep_stream (any_rm_step (lo_pos p0) (hi_pos p1))"
  have "wp (foldM ?step [0..<kv_n_stream c] c) (kv_mapped c (\<lambda>st x. if st < kv_n_stream c then ?f x else x))"
  proof (rule wp_for [where I = "\<lambda>k. kv_mapped c (\<lambda>st x. if st < k then ?f x else x)"])
    show "kv_mapped c (\<lambda>st x. if st < 0 then ?f x else x) c" using kv_mapped_refl [OF c] by simp
  next
    fix k d assume k: "k < kv_n_stream c" and inv: "kv_mapped c (\<lambda>st x. if st < k then ?f x else x) d"
    note fr = kv_mapped_frame [OF inv]
    have "wp (?step k d) (\<lambda>e. kv_mapped d (\<lambda>st' x. if st' = k then ?f x else x) e \<and>
       kv_heads e = (kv_heads d)[k := lower_head (first_freed (\<lambda>x. in_range (lo_pos p0) (hi_pos p1) x \<and> True)
         (kv_vcells d ! k)) (kv_vcells d ! k) (kv_heads d ! k)])"
      by (rule any_rm_sweep.sweep_stream_wp [OF fr(1)]) (use k fr(2) kv_wf_live [OF fr(1)] in auto)
    then show "wp (?step k d) (kv_mapped c (\<lambda>st x. if st < Suc k then ?f x else x))"
      by (rule wp_mono) (auto dest!: kv_mapped_trans [OF inv] elim!: kv_mapped_cong simp: less_Suc_eq)
  qed simp
  then have "wp (foldM ?step [0..<kv_n_stream c] c) (kv_mapped c (\<lambda>st. ?f))"
    by (rule wp_mono) (auto elim!: kv_mapped_cong)
  then show ?thesis using o by (simp add: kv_seq_rm_def kv_seq_rm_owned_def wp_simps wp_map_option)
qed

lemma kv_seq_keep_wp:
  assumes c: "kv_wf c" and o: "kv_other c = None" and s: "kv_has_seq c s"
  shows "wp (kv_seq_keep s c) (\<lambda>d. kv_mapped c (\<lambda>st x. if st = kv_stream c s then cell_keep s x else x) d \<and>
    kv_heads d = freed_head c (kv_stream c s) (\<lambda>x. True \<and> s \<notin> cl_seq x \<and> cl_seq x \<noteq> {}))"
proof -
  have st: "kv_stream c s < kv_n_stream c" by (rule kv_stream_lt [OF c s])
  have "wp (sweep_stream (seq_keep_step s) (kv_stream c s) c) (\<lambda>d.
     kv_mapped c (\<lambda>st' x. if st' = kv_stream c s then if True then cell_keep s x else x else x) d \<and>
     kv_heads d = freed_head c (kv_stream c s) (\<lambda>x. True \<and> s \<notin> cl_seq x \<and> cl_seq x \<noteq> {}))"
    unfolding freed_head_def
    by (rule seq_keep_sweep.sweep_stream_wp [OF c st]) (use kv_has_seq_id [OF c s] kv_wf_live [OF c st] in auto)
  then show ?thesis unfolding if_True using o s by (simp add: kv_seq_keep_def wp_simps stream_of_eq)
qed

lemma kv_seq_add_wp:
  assumes c: "kv_wf c" and o: "kv_other c = None" and s: "kv_has_seq c s" and npe: "kv_n_pos_per_embd c = 1"
    and fits: "\<And>i. i < kv_size c \<Longrightarrow> hits s (lo_pos p0) (hi_pos p1) (cell_at (kv_vcells c ! kv_stream c s) i) \<Longrightarrow>
      add_fits d (cell_at (kv_vcells c ! kv_stream c s) i)"
    and d0: "d \<noteq> 0"
  shows "wp (kv_seq_add s p0 p1 d c) (\<lambda>e.
    kv_mapped c (\<lambda>st x. if st = kv_stream c s \<and> hits s (lo_pos p0) (hi_pos p1) x then cell_shifted d x else x) e)"
proof -
  let ?st = "kv_stream c s"
  let ?f = "\<lambda>x. if hits s (lo_pos p0) (hi_pos p1) x then cell_shifted d x else x"
  have st: "?st < kv_n_stream c" by (rule kv_stream_lt [OF c s])
  note w = kv_wfD [OF c]
  have live: "cell_live (?f (cell_at (kv_vcells c ! ?st) i))" if "i < kv_size c" for i
  proof -
    have "cell_live (cell_at (kv_vcells c ! ?st) i)" by (rule kv_wf_live [OF c st that])
    moreover have "hits s (lo_pos p0) (hi_pos p1) x \<Longrightarrow> cl_pos x \<noteq> -1" for x
      by (rule hits_not_free)
    ultimately show ?thesis by simp
  qed
  have sw: "wp (sweep (seq_add_step s (lo_pos p0) (hi_pos p1) d) (kv_vcells c ! ?st)) (\<lambda>(nh, cells).
      cells_mapped (kv_vcells c ! ?st) ?f cells \<and> nh \<le> kv_size c)"
    by (rule wp_mono [OF seq_add_sweep.sweep_wp [OF w(4) [OF st]]])
      (use kv_has_seq_id [OF c s] fits w(6) [OF st] kv_first_freed_le [OF c st] in auto)
  have main: "wp (sweep (seq_add_step s (lo_pos p0) (hi_pos p1) d) (kv_vcells c ! ?st))
      (\<lambda>x. wp (case x of (nh, cells) \<Rightarrow> put_stream ?st cells (if nh \<noteq> cells_size cells then nh else 0) c)
        (kv_mapped c (\<lambda>st x. if st = ?st \<and> hits s (lo_pos p0) (hi_pos p1) x then cell_shifted d x else x)))"
  proof (rule wp_mono [OF sw], clarify)
    fix nh cells assume m: "cells_mapped (kv_vcells c ! ?st) ?f cells" and nh: "nh \<le> kv_size c"
    have h: "(if nh \<noteq> cells_size cells then nh else 0) \<le> kv_size c" using nh by simp
    show "wp (put_stream ?st cells (if nh \<noteq> cells_size cells then nh else 0) c)
        (kv_mapped c (\<lambda>st x. if st = ?st \<and> hits s (lo_pos p0) (hi_pos p1) x then cell_shifted d x else x))"
      by (rule wp_mono [OF put_stream_mapped [OF c st m live h]]) (auto elim!: kv_mapped_cong)
  qed
  show ?thesis
  proof (cases "lo_pos p0 = hi_pos p1")
    case True
    then have "\<not> hits s (lo_pos p0) (hi_pos p1) x" for x by (auto simp: hits_def in_range_def)
    then have "kv_mapped c (\<lambda>st x. if st = ?st \<and> hits s (lo_pos p0) (hi_pos p1) x then cell_shifted d x else x) c"
      using kv_mapped_refl [OF c] by simp
    then show ?thesis using True o s npe by (simp add: kv_seq_add_def wp_simps stream_of_eq)
  next
    case False
    then show ?thesis using main o s npe d0 st w(1)
      by (simp add: kv_seq_add_def wp_simps stream_of_eq)
  qed
qed

lemma vcells_only_mapped:
  assumes c: "kv_wf c" and st: "st < kv_n_stream c" and m: "cells_mapped (kv_vcells c ! st) f cells"
    and live: "\<And>i. i < kv_size c \<Longrightarrow> cell_live (f (cell_at (kv_vcells c ! st) i))"
  shows "kv_mapped c (\<lambda>st' x. if st' = st then f x else x) (c\<lparr>kv_vcells := (kv_vcells c)[st := cells]\<rparr>)"
proof -
  have "wp (put_stream st cells (kv_heads c ! st) c) (\<lambda>d. kv_mapped c (\<lambda>st' x. if st' = st then f x else x) d \<and>
    d = c\<lparr>kv_vcells := (kv_vcells c)[st := cells], kv_heads := (kv_heads c)[st := kv_heads c ! st]\<rparr>)"
    by (rule put_stream_mapped [OF c st m live]) (use kv_wfD(7) [OF c st] in auto)
  then show ?thesis by (auto simp: wp_def)
qed

lemma kv_seq_div_wp:
  assumes c: "kv_wf c" and o: "kv_other c = None" and s: "kv_has_seq c s" and npe: "kv_n_pos_per_embd c = 1"
    and fits: "\<And>i. i < kv_size c \<Longrightarrow> hits s (lo_pos p0) (hi_pos p1) (cell_at (kv_vcells c ! kv_stream c s) i) \<Longrightarrow>
      div_fits d (cell_at (kv_vcells c ! kv_stream c s) i)"
    and d: "1 < d"
  shows "wp (kv_seq_div s p0 p1 d c) (\<lambda>e.
    kv_mapped c (\<lambda>st x. if st = kv_stream c s \<and> hits s (lo_pos p0) (hi_pos p1) x then cell_divided d x else x) e)"
proof -
  let ?st = "kv_stream c s"
  let ?f = "\<lambda>x. if hits s (lo_pos p0) (hi_pos p1) x then cell_divided d x else x"
  have st: "?st < kv_n_stream c" by (rule kv_stream_lt [OF c s])
  note w = kv_wfD [OF c]
  have live: "cell_live (?f (cell_at (kv_vcells c ! ?st) i))" if "i < kv_size c" for i
    using kv_wf_live [OF c st that] by (auto simp: hits_def intro!: cell_live_simps(5))
  have sw: "wp (sweep (untracked (seq_div_step s (lo_pos p0) (hi_pos p1) d)) (kv_vcells c ! ?st)) (\<lambda>(nh, cells).
      cells_mapped (kv_vcells c ! ?st) ?f cells)"
    by (rule wp_mono [OF seq_div_sweep.sweep_wp [OF w(4) [OF st]]])
      (use kv_has_seq_id [OF c s] fits w(6) [OF st] d in auto)
  have main: "wp (foldM (seq_div_step s (lo_pos p0) (hi_pos p1) d) [0..<cells_size (kv_vcells c ! ?st)] (kv_vcells c ! ?st))
      (\<lambda>cells. kv_mapped c (\<lambda>st x. if st = ?st \<and> hits s (lo_pos p0) (hi_pos p1) x then cell_divided d x else x)
        (c\<lparr>kv_vcells := (kv_vcells c)[?st := cells]\<rparr>))"
    using sw unfolding sweep_untracked wp_map_option prod.case
    by (rule wp_mono) (drule vcells_only_mapped [OF c st], auto simp: live elim!: kv_mapped_cong)
  show ?thesis
  proof (cases "lo_pos p0 = hi_pos p1")
    case True
    then have "\<not> hits s (lo_pos p0) (hi_pos p1) x" for x by (auto simp: hits_def in_range_def)
    then show ?thesis using True o s npe d kv_mapped_refl [OF c]
      by (simp add: kv_seq_div_def wp_simps stream_of_eq)
  next
    case False
    then show ?thesis using main o s npe d st w(1)
      by (simp add: kv_seq_div_def wp_simps stream_of_eq)
  qed
qed

lemma kv_seq_cp_same_wp:
  assumes c: "kv_wf c" and o: "kv_other c = None" and s: "kv_has_seq c src" "kv_has_seq c dst"
    and st: "kv_stream c src = kv_stream c dst" and ne: "src \<noteq> dst"
    and free: "\<And>i. i < kv_size c \<Longrightarrow> hits src (lo_pos p0) (hi_pos p1) (cell_at (kv_vcells c ! kv_stream c src) i) \<Longrightarrow>
      dst \<notin> cl_seq (cell_at (kv_vcells c ! kv_stream c src) i)"
  shows "wp (kv_seq_cp src dst p0 p1 c) (\<lambda>e.
    kv_mapped c (\<lambda>st x. if st = kv_stream c src \<and> hits src (lo_pos p0) (hi_pos p1) x then cell_with dst x else x) e \<and>
    kv_heads e = kv_heads c)"
proof -
  let ?st = "kv_stream c src"
  let ?f = "\<lambda>x. if hits src (lo_pos p0) (hi_pos p1) x then cell_with dst x else x"
  have lt: "?st < kv_n_stream c" by (rule kv_stream_lt [OF c s(1)])
  note w = kv_wfD [OF c]
  have live: "cell_live (?f (cell_at (kv_vcells c ! ?st) i))" if "i < kv_size c" for i
    using kv_wf_live [OF c lt that] by auto
  have sw: "wp (sweep (untracked (seq_cp_step src dst (lo_pos p0) (hi_pos p1))) (kv_vcells c ! ?st)) (\<lambda>(nh, cells).
      cells_mapped (kv_vcells c ! ?st) ?f cells)"
    by (rule wp_mono [OF seq_cp_sweep.sweep_wp [OF w(4) [OF lt]]])
      (use kv_has_seq_id [OF c] s free w(6) [OF lt] in auto)
  have main: "wp (foldM (seq_cp_step src dst (lo_pos p0) (hi_pos p1)) [0..<cells_size (kv_vcells c ! ?st)] (kv_vcells c ! ?st))
      (\<lambda>cells. kv_mapped c (\<lambda>st x. if st = ?st \<and> hits src (lo_pos p0) (hi_pos p1) x then cell_with dst x else x)
        (c\<lparr>kv_vcells := (kv_vcells c)[?st := cells]\<rparr>))"
    using sw unfolding sweep_untracked wp_map_option prod.case
    by (rule wp_mono) (drule vcells_only_mapped [OF c lt], auto simp: live elim!: kv_mapped_cong)
  show ?thesis using main o s st ne lt w(1)
    by (simp add: kv_seq_cp_def kv_seq_cp_owned_def wp_simps stream_of_eq)
qed

text \<open>A copy to another stream.\<close>

definition cell_copied :: "llama_seq_id \<Rightarrow> kv_cell \<Rightarrow> kv_cell" where
  "cell_copied dst x = \<lparr>cl_pos = cl_pos x, cl_ext = cl_ext x, cl_shift = cl_shift x, cl_seq = {dst},
     cl_node = -1, cl_parent = -1\<rparr>"

definition cross_image :: "llama_seq_id \<Rightarrow> llama_seq_id \<Rightarrow> kv_cell \<Rightarrow> kv_cell" where
  "cross_image src dst x = (if src \<in> cl_seq x then cell_copied dst x else empty_cell)"

text \<open>The position before the pending shift exists and everything is representable.\<close>

definition copy_fits :: "kv_cell \<Rightarrow> bool" where
  "copy_fits x = (cl_shift x \<noteq> 0 \<longrightarrow> 0 \<le> cl_pos x - cl_shift x \<and> in_i32 (cl_pos x - cl_shift x) \<and>
     in_i32 (cl_pos x) \<and> in_i32 (cl_shift x))"

lemma cell_updated_twice:
  "cell_updated c i x d \<Longrightarrow> cell_updated d i y e \<Longrightarrow> cell_updated c i y e"
  by (simp add: cell_updated_def)

lemma cell_updated_at: "cell_updated c i x d \<Longrightarrow> cell_at d i = x \<and> cells_size d = cells_size c \<and> cells_wf d"
  by (simp add: cell_updated_def)

lemma cross_cp_step_wp:
  assumes f: "cells_wf from" "i < cells_size from" and d: "cells_wf d" "i < cells_size d"
    and e: "cell_at d i = empty_cell" and ids: "src \<in> seq_ids_ok" "dst \<in> seq_ids_ok"
    and fits: "src \<in> cl_seq (cell_at from i) \<Longrightarrow> copy_fits (cell_at from i)"
  shows "wp (cross_cp_step src dst from i d) (cell_updated d i (cross_image src dst (cell_at from i)))"
proof (cases "src \<in> cl_seq (cell_at from i)")
  case False
  then show ?thesis using f d e ids cell_updated_same [OF d(1), of i]
    by (simp add: cross_cp_step_def seq_has_eq cross_image_def)
next
  case True
  let ?x = "cell_at from i"
  let ?q = "cl_pos ?x - cl_shift ?x"
  have pos: "0 \<le> cl_pos ?x"
    using cells_wf_cell(1) [OF f] cells_wf_in_seq [OF f True] by (simp add: kc_seq_cell)
  have gets: "pos_get from i = Some (cl_pos ?x)" "get_shift from i = Some (cl_shift ?x)"
      "ext_get from i = Some (cl_ext ?x)"
    using f pos by (auto simp: pos_get_def get_shift_def ext_get_def vget_def cell_at_def)
  have q: "(if cl_shift ?x \<noteq> 0 then do { p \<leftarrow> i32 ?q; ensure (p \<ge> 0); Some p } else Some (cl_pos ?x)) = Some ?q"
    using fits [OF True] by (simp add: copy_fits_def i32_def)
  have q0: "0 \<le> ?q" using fits [OF True] pos by (auto simp: copy_fits_def)
  let ?y1 = "empty_cell\<lparr>cl_pos := ?q\<rparr>"
  let ?y2 = "?y1\<lparr>cl_seq := {dst}\<rparr>"
  let ?y3 = "?y2\<lparr>cl_pos := cl_pos ?x, cl_shift := cl_shift ?x\<rparr>"
  have s1: "wp (pos_set i ?q d) (cell_updated d i ?y1)"
    by (rule wp_mono [OF pos_set_wp [OF d _ q0]]) (use e in \<open>auto simp: kc_seq_cell empty_cell_def\<close>)
  have s2: "wp (cells_seq_add i dst d1) (cell_updated d i ?y2)" if u: "cell_updated d i ?y1 d1" for d1
  proof -
    note a = cell_updated_at [OF u]
    have "wp (cells_seq_add i dst d1) (\<lambda>e. cell_updated d1 i ((cell_at d1 i)\<lparr>cl_seq := insert dst (kc_seq d1 ! i)\<rparr>) e \<and>
        kc_has_shift e = kc_has_shift d1)"
      by (rule cells_seq_add_wp) (use a d q0 ids in \<open>simp_all add: kc_seq_cell empty_cell_def\<close>)
    then show ?thesis
      by (rule wp_mono) (use a in \<open>auto simp: kc_seq_cell empty_cell_def intro: cell_updated_twice [OF u]\<close>)
  qed
  have s3: "wp (if cl_shift ?x \<noteq> 0 then map_option snd (pos_add i (cl_shift ?x) d2) else Some d2) (cell_updated d i ?y3)"
    if u: "cell_updated d i ?y2 d2" for d2
  proof (cases "cl_shift ?x = 0")
    case True
    then show ?thesis using u by (simp add: empty_cell_def)
  next
    case False
    note a = cell_updated_at [OF u]
    have c2: "kc_pos d2 ! i = ?q" "kc_shift d2 ! i = 0" using a by (simp_all add: kc_seq_cell empty_cell_def)
    have sh: "cell_shifted (cl_shift ?x) ?y2 = ?y3" using pos by (simp add: cell_shifted_def empty_cell_def)
    have "wp (pos_add i (cl_shift ?x) d2) (\<lambda>(b, f). cell_updated d2 i (cell_shifted (cl_shift ?x) (cell_at d2 i)) f \<and>
        b = (kc_pos d2 ! i + cl_shift ?x < 0) \<and> kc_has_shift f)"
      by (rule pos_add_wp) (use a d c2 q0 fits [OF \<open>src \<in> cl_seq ?x\<close>] False in \<open>auto simp: copy_fits_def\<close>)
    then have "wp (map_option snd (pos_add i (cl_shift ?x) d2)) (cell_updated d i ?y3)"
      unfolding wp_map_option by (rule wp_mono) (use a sh in \<open>auto intro: cell_updated_twice [OF u]\<close>)
    then show ?thesis using False by simp
  qed
  have s4: "wp (ext_set i (cl_ext ?x) d3) (cell_updated d i (cell_copied dst ?x))" if u: "cell_updated d i ?y3 d3" for d3
  proof -
    note a = cell_updated_at [OF u]
    have y: "?y3\<lparr>cl_ext := cl_ext ?x\<rparr> = cell_copied dst ?x" by (simp add: empty_cell_def cell_copied_def)
    show ?thesis
      by (rule wp_mono [OF ext_set_wp]) (use a d y in \<open>auto intro: cell_updated_twice [OF u]\<close>)
  qed
  have "wp (Option.bind (pos_set i ?q d) (\<lambda>d. Option.bind (cells_seq_add i dst d) (\<lambda>d.
      Option.bind (if cl_shift ?x \<noteq> 0 then map_option snd (pos_add i (cl_shift ?x) d) else Some d)
        (ext_set i (cl_ext ?x))))) (cell_updated d i (cell_copied dst ?x))"
    unfolding wp_bind
    by (intro wp_mono [OF s1] wp_mono [OF s2] wp_mono [OF s3] s4)
  moreover have "cross_cp_step src dst from i d = Option.bind (pos_set i ?q d) (\<lambda>d. Option.bind (cells_seq_add i dst d) (\<lambda>d.
      Option.bind (if cl_shift ?x \<noteq> 0 then map_option snd (pos_add i (cl_shift ?x) d) else Some d)
        (ext_set i (cl_ext ?x))))"
    using True f ids by (simp add: cross_cp_step_def seq_has_eq gets Option.bind.simps q)
  ultimately show ?thesis using True by (simp add: cross_image_def)
qed

lemma cross_loop_wp:
  assumes f: "cells_wf from" and d: "cells_wf to" "cells_size to = cells_size from"
    and ids: "src \<in> seq_ids_ok" "dst \<in> seq_ids_ok"
    and fits: "\<And>i. i < cells_size from \<Longrightarrow> src \<in> cl_seq (cell_at from i) \<Longrightarrow> copy_fits (cell_at from i)"
  shows "wp (foldM (cross_cp_step src dst from) [0..<cells_size from] (cells_reset to)) (\<lambda>e. cells_wf e \<and>
    cells_size e = cells_size from \<and> (\<forall>i < cells_size from. cell_at e i = cross_image src dst (cell_at from i)))"
proof -
  let ?n = "cells_size from"
  let ?I = "\<lambda>k e. cells_wf e \<and> cells_size e = ?n \<and>
     (\<forall>i < ?n. cell_at e i = (if i < k then cross_image src dst (cell_at from i) else empty_cell))"
  have "wp (foldM (cross_cp_step src dst from) [0..<?n] (cells_reset to)) (?I ?n)"
  proof (rule wp_for [where I = ?I])
    show "?I 0 (cells_reset to)"
      using cells_reset_wf [OF d(1)] d cells_reset_empty [OF cells_wfD(1) [OF d(1)]] by simp
  next
    fix k e assume k: "k < ?n" and inv: "?I k e"
    show "wp (cross_cp_step src dst from k e) (?I (Suc k))"
      by (rule wp_mono [OF cross_cp_step_wp [OF f k _ _ _ ids fits [OF k]]])
        (use k inv in \<open>auto simp: cell_updated_def less_Suc_eq\<close>)
  qed simp
  then show ?thesis by (rule wp_mono) auto
qed

lemma cross_image_live: "cell_live (cross_image src dst x)"
  by (simp add: cross_image_def cell_copied_def cell_live_def empty_cell_def)

lemma kv_seq_cp_cross_wp:
  assumes c: "kv_wf c" and o: "kv_other c = None" and s: "kv_has_seq c src" "kv_has_seq c dst"
    and st: "kv_stream c src \<noteq> kv_stream c dst"
    and full: "\<not> (0 < p0 \<and> p0 + 1 < int (kv_size c))" "\<not> (0 < p1 \<and> p1 + 1 < int (kv_size c))"
    and fits: "\<And>i. i < kv_size c \<Longrightarrow> src \<in> cl_seq (cell_at (kv_vcells c ! kv_stream c src) i) \<Longrightarrow>
      copy_fits (cell_at (kv_vcells c ! kv_stream c src) i)"
  shows "wp (kv_seq_cp src dst p0 p1 c) (\<lambda>d. kv_wf d \<and>
    kv_sc_info d = kv_sc_info c @ [(kv_stream c src, kv_stream c dst)] \<and>
    kv_heads d = (kv_heads c)[kv_stream c dst := kv_heads c ! kv_stream c src] \<and>
    (\<forall>k < kv_n_stream c. \<forall>i < kv_size c. cell_at (kv_vcells d ! k) i =
       (if k = kv_stream c dst then cross_image src dst (cell_at (kv_vcells c ! kv_stream c src) i)
        else cell_at (kv_vcells c ! k) i)))"
proof -
  let ?s0 = "kv_stream c src" and ?s1 = "kv_stream c dst"
  note w = kv_wfD [OF c]
  have lt: "?s0 < kv_n_stream c" "?s1 < kv_n_stream c" by (rule kv_stream_lt [OF c s(1)], rule kv_stream_lt [OF c s(2)])
  have size: "kv_get_size c = Some (kv_size c)"
    using w(1,6,9) w(8) [of "kv_s2s c ! 0"] by (simp add: kv_get_size_def vget_def)
  let ?P = "\<lambda>e. cells_wf e \<and> cells_size e = kv_size c \<and>
      (\<forall>i < kv_size c. cell_at e i = cross_image src dst (cell_at (kv_vcells c ! ?s0) i))"
  have loop: "wp (foldM (cross_cp_step src dst (kv_vcells c ! ?s0)) [0..<cells_size (kv_vcells c ! ?s0)]
      (cells_reset (kv_vcells c ! ?s1))) ?P"
    using cross_loop_wp [OF w(4) [OF lt(1)] w(4) [OF lt(2)], of src dst] w(6) lt kv_has_seq_id [OF c] s fits
    by simp
  have put: "wp (put_stream ?s1 e (kv_heads c ! ?s0) c) (\<lambda>d. kv_wf d \<and> d = c\<lparr>kv_vcells := (kv_vcells c)[?s1 := e],
        kv_heads := (kv_heads c)[?s1 := kv_heads c ! ?s0]\<rparr>)" if e: "?P e" for e
  proof -
    let ?d = "c\<lparr>kv_vcells := (kv_vcells c)[?s1 := e], kv_heads := (kv_heads c)[?s1 := kv_heads c ! ?s0]\<rparr>"
    have size: "kv_size ?d = kv_size c"
      using e w(1,3) by (cases "?s1 = 0") (simp_all add: kv_size_def)
    have "cells_live e" using e by (simp add: cells_live_def cross_image_live)
    then have "\<forall>k < kv_n_stream c. cells_wf (kv_vcells ?d ! k) \<and> cells_live (kv_vcells ?d ! k) \<and>
        cells_size (kv_vcells ?d ! k) = kv_size c \<and> kv_heads ?d ! k \<le> kv_size c"
      using w(1,2,4-7) lt e by (simp add: nth_list_update)
    then have "kv_wf ?d" unfolding kv_wf_def size using w by simp
    then show ?thesis using w(1,2) lt by (simp add: put_stream_def wp_simps)
  qed
  have wf_sc: "kv_wf (d\<lparr>kv_sc_info := x\<rparr>) = kv_wf d" for d x by (simp add: kv_wf_def kv_size_def)
  show ?thesis
    unfolding kv_seq_cp_def cow_guard_owned [OF o] kv_seq_cp_owned_def
    using s st full lt w(1,2)
    by (simp add: wp_simps stream_of_eq size)
      (intro wp_mono [OF loop] wp_mono [OF put], auto simp: wf_sc nth_list_update)
qed

section \<open>The cache as a sequence memory\<close>

definition kv_posns :: "kv_cache \<Rightarrow> llama_seq_id \<Rightarrow> llama_pos set" where
  "kv_posns c s = {cl_pos (cell_at (kv_vcells c ! kv_stream c s) i) | i.
     i < kv_size c \<and> s \<in> cl_seq (cell_at (kv_vcells c ! kv_stream c s) i)}"

definition kv_owned :: "kv_cache \<Rightarrow> bool" where
  "kv_owned c = (kv_wf c \<and> kv_other c = None)"

lemma kv_posns_image:
  "kv_wf c \<Longrightarrow> kv_has_seq c s \<Longrightarrow>
   kv_posns c s = (\<lambda>i. kc_pos (kv_vcells c ! kv_stream c s) ! i) ` cells_of (kv_vcells c ! kv_stream c s) s"
  using kv_wfD(6) [of c "kv_stream c s"] kv_stream_lt [of c s]
  by (auto simp: kv_posns_def cells_of_def cell_at_def)

lemma kv_pos_min_eq: "kv_owned c \<Longrightarrow> kv_has_seq c s \<Longrightarrow> kv_seq_pos_min c s = Some (min_or_none (kv_posns c s))"
  using seq_pos_min_eq [of "kv_vcells c ! kv_stream c s" s] kv_wfD(1,4) [of c] kv_stream_lt [of c s] kv_has_seq_id [of c s]
  by (auto simp: kv_owned_def kv_seq_pos_min_def stream_of_eq vget_def kv_posns_image min_or_none_def)

lemma kv_pos_max_eq: "kv_owned c \<Longrightarrow> kv_has_seq c s \<Longrightarrow> kv_seq_pos_max c s = Some (max_or_none (kv_posns c s))"
  using seq_pos_max_eq [of "kv_vcells c ! kv_stream c s" s] kv_wfD(1,4) [of c] kv_stream_lt [of c s] kv_has_seq_id [of c s]
  by (auto simp: kv_owned_def kv_seq_pos_max_def stream_of_eq vget_def kv_posns_image max_or_none_def)

abbreviation seq_cell :: "kv_cache \<Rightarrow> llama_seq_id \<Rightarrow> nat \<Rightarrow> kv_cell" where
  "seq_cell c s i \<equiv> cell_at (kv_vcells c ! kv_stream c s) i"

lemma kv_posns_cells: "kv_posns c t = (\<lambda>i. cl_pos (seq_cell c t i)) ` {i. i < kv_size c \<and> t \<in> cl_seq (seq_cell c t i)}"
  by (auto simp: kv_posns_def)

lemma kv_posns_mapped:
  assumes m: "kv_mapped c F d" and c: "kv_wf c" and t: "kv_has_seq c t"
  shows "kv_posns d t = (\<lambda>i. cl_pos (F (kv_stream c t) (seq_cell c t i))) `
    {i. i < kv_size c \<and> t \<in> cl_seq (F (kv_stream c t) (seq_cell c t i))}"
proof -
  note fr = kv_mapped_frame [OF m]
  have st: "kv_stream d t = kv_stream c t" by (simp add: kv_stream_def fr(3))
  have at: "seq_cell d t i = F (kv_stream c t) (seq_cell c t i)" if "i < kv_size c" for i
    unfolding st by (rule fr(9) [OF kv_stream_lt [OF c t] that])
  show ?thesis unfolding kv_posns_cells fr(4)
    by (rule image_cong) (use at in auto)
qed

lemma cell_without_simps:
  "t \<in> cl_seq (cell_without s x) \<longleftrightarrow> t \<in> cl_seq x \<and> t \<noteq> s"
  "t \<in> cl_seq x \<Longrightarrow> t \<noteq> s \<Longrightarrow> cl_pos (cell_without s x) = cl_pos x"
  by (auto simp: cell_without_def empty_cell_def)

interpretation kvmem: seq_memory kv_owned kv_has_seq kv_posns kv_seq_rm kv_seq_pos_min kv_seq_pos_max
proof
  fix m s assume m: "kv_owned m" and s: "kv_has_seq m s"
  have w: "kv_wf m" using m by (simp add: kv_owned_def)
  show "finite (kv_posns m s) \<and> (\<forall>p \<in> kv_posns m s. 0 \<le> p)"
    using cells_of_pos [OF kv_wfD(4) [OF w kv_stream_lt [OF w s]]] by (auto simp: kv_posns_image [OF w s])
  show "kv_seq_pos_min m s = Some (min_or_none (kv_posns m s))" by (rule kv_pos_min_eq [OF m s])
  show "kv_seq_pos_max m s = Some (max_or_none (kv_posns m s))" by (rule kv_pos_max_eq [OF m s])
next
  fix m s p0 p1 assume m: "kv_owned m" and s: "kv_has_seq m s"
  have w: "kv_wf m" and o: "kv_other m = None" using m by (auto simp: kv_owned_def)
  let ?F = "\<lambda>st x. if st = kv_stream m s \<and> hits s (lo_pos p0) (hi_pos p1) x then cell_without s x else x"
  have post: "kv_owned d \<and> kv_has_seq d = kv_has_seq m \<and> (\<forall>t. kv_has_seq m t \<longrightarrow>
      kv_posns d t = (if t = s then kv_posns m t - {lo_pos p0..<hi_pos p1} else kv_posns m t))"
    if d: "kv_mapped m ?F d" for d
  proof (intro conjI allI impI)
    note fr = kv_mapped_frame [OF d]
    show "kv_owned d" using fr(1,5) o by (simp add: kv_owned_def)
    show "kv_has_seq d = kv_has_seq m" by (simp add: fun_eq_iff kv_has_seq_def fr(3))
    fix t assume t: "kv_has_seq m t"
    show "kv_posns d t = (if t = s then kv_posns m t - {lo_pos p0..<hi_pos p1} else kv_posns m t)"
    proof (cases "t = s")
      case True
      then show ?thesis
        unfolding kv_posns_mapped [OF d w t] kv_posns_cells [of m]
        by (auto simp: hits_def in_range_def cell_without_simps split: if_splits)
    next
      case False
      have F: "t \<in> cl_seq (?F st x) \<longleftrightarrow> t \<in> cl_seq x" "t \<in> cl_seq x \<Longrightarrow> cl_pos (?F st x) = cl_pos x" for st x
        using False by (auto simp: cell_without_simps)
      have "kv_posns d t = kv_posns m t"
        unfolding kv_posns_mapped [OF d w t] kv_posns_cells [of m]
        by (rule image_cong) (simp_all only: F mem_Collect_eq)
      then show ?thesis using False by simp
    qed
  qed
  show "wp (kv_seq_rm s p0 p1 m) (\<lambda>(b, m'). kv_owned m' \<and> kv_has_seq m' = kv_has_seq m \<and>
      (b \<longrightarrow> (\<forall>t. kv_has_seq m t \<longrightarrow>
         kv_posns m' t = (if t = s then kv_posns m t - {lo_pos p0..<hi_pos p1} else kv_posns m t))) \<and>
      (\<not> b \<longrightarrow> kv_posns m' = kv_posns m))"
    by (rule wp_mono [OF kv_seq_rm_wp [OF w o s]]) (use post in auto)
qed

section \<open>Properties\<close>

text \<open>A small cache: one stream with the two cells of \<open>cells_two\<close>, the head behind cell 0.\<close>

definition kv_demo :: kv_cache where
  "kv_demo = (the (kv_new True 2 4 0 SWA_NONE 1 \<lparr>ce_enabled = False, ce_fork_tensors = False\<rparr>))
     \<lparr>kv_vcells := [cells_two], kv_heads := [1]\<rparr>"

lemma kv_demo_fields:
  "kv_n_stream kv_demo = 1" "kv_vcells kv_demo = [cells_two]" "kv_heads kv_demo = [1]" "kv_other kv_demo = None"
  "length (kv_s2s kv_demo) = 256" "set (kv_s2s kv_demo) = {0}" "kv_size kv_demo = 2" "kv_n_pos_per_embd kv_demo = 1"
  "kv_stream kv_demo 3 = 0" "kv_has_seq kv_demo 3" "kv_has_seq kv_demo 4" "kv_stream kv_demo 4 = 0"
  "kv_n_swa kv_demo = 0" "kv_swa_type kv_demo = SWA_NONE"
  by (simp_all add: kv_demo_def kv_new_def kv_size_def cells_two_facts kv_stream_def kv_has_seq_def)

lemma cells_two_cells:
  "cl_pos (cell_at cells_two 0) = 5" "cl_seq (cell_at cells_two 0) = {3}"
  "cl_pos (cell_at cells_two (Suc 0)) = -1" "cl_seq (cell_at cells_two (Suc 0)) = {}"
  "cl_shift (cell_at cells_two 0) = 0" "cl_shift (cell_at cells_two (Suc 0)) = 0"
  by (simp_all add: cell_at_def cells_two_facts)

lemma kv_demo_wf: "kv_wf kv_demo"
  by (auto simp: kv_wf_def kv_demo_fields cells_two_facts cells_live_def cell_live_def cells_two_cells less_Suc_eq)

text \<open>
  C6. \<open>seq_rm(s, p0, p1)\<close> on a cache that owns its cells: it succeeds; a cell of the stream of \<open>s\<close>
  that carries \<open>s\<close> at a position in \<open>[p0, p1)\<close> (negative bounds open) loses \<open>s\<close> and is emptied when
  \<open>s\<close> was its only sequence; every other cell of every stream is untouched; the invariant holds
  again; the head moves to the first freed cell when that lies before it, and nowhere else.
\<close>

theorem kv_seq_rm_exact:
  assumes "kv_wf c" and "kv_other c = None" and "kv_has_seq c s"
  shows "\<exists>d. kv_seq_rm s p0 p1 c = Some (True, d) \<and> kv_wf d \<and>
    (\<forall>st < kv_n_stream c. \<forall>i < kv_size c. cell_at (kv_vcells d ! st) i =
       (let x = cell_at (kv_vcells c ! st) i in
        if st = kv_stream c s \<and> s \<in> cl_seq x \<and> lo_pos p0 \<le> cl_pos x \<and> cl_pos x < hi_pos p1
        then cell_without s x else x)) \<and>
    kv_heads d = freed_head c (kv_stream c s) (\<lambda>x. hits s (lo_pos p0) (hi_pos p1) x \<and> cl_seq x = {s})"
  using kv_seq_rm_wp [OF assms, of p0 p1]
  by (auto simp: wp_def kv_mapped_def hits_def in_range_def Let_def)

lemma kv_seq_rm_exact_witness:
  "\<exists>d. kv_seq_rm 3 (-1) (-1) kv_demo = Some (True, d) \<and> kv_wf d \<and> cell_at (kv_vcells d ! 0) 0 = empty_cell"
  using kv_seq_rm_exact [OF kv_demo_wf kv_demo_fields(4) kv_demo_fields(10), of "-1" "-1"]
  by (auto simp: kv_demo_fields cells_two_cells Let_def lo_pos_def hi_pos_def INT32_MAX_def cell_without_def)

text \<open>
  C7. \<open>seq_keep(s)\<close>: in the stream of \<open>s\<close> a cell that carries \<open>s\<close> keeps exactly \<open>s\<close>, a cell of
  other sequences is emptied, a free cell stays free; other streams are untouched, no assertion
  fails and the invariant holds again.
\<close>

theorem kv_seq_keep_exact:
  assumes "kv_wf c" and "kv_other c = None" and "kv_has_seq c s"
  shows "\<exists>d. kv_seq_keep s c = Some d \<and> kv_wf d \<and>
    (\<forall>st < kv_n_stream c. \<forall>i < kv_size c. cell_at (kv_vcells d ! st) i =
       (let x = cell_at (kv_vcells c ! st) i in
        if st \<noteq> kv_stream c s then x
        else if s \<in> cl_seq x then x\<lparr>cl_seq := {s}\<rparr>
        else if cl_pos x = -1 then x else empty_cell))"
proof -
  obtain d where d: "kv_seq_keep s c = Some d"
    "kv_mapped c (\<lambda>st x. if st = kv_stream c s then cell_keep s x else x) d"
    using kv_seq_keep_wp [OF assms] by (auto simp: wp_def)
  have "cell_keep s (cell_at (kv_vcells c ! st) i) = (let x = cell_at (kv_vcells c ! st) i in
        if s \<in> cl_seq x then x\<lparr>cl_seq := {s}\<rparr> else if cl_pos x = -1 then x else empty_cell)"
    if "st < kv_n_stream c" "i < kv_size c" for st i
    using kv_wf_live [OF assms(1) that] kv_wf_cell_ok [OF assms(1) that]
    by (auto simp: cell_keep_def cell_live_def cell_ok_def Let_def)
  then show ?thesis using d by (auto simp: kv_mapped_def)
qed

lemma kv_seq_keep_exact_witness:
  "\<exists>d. kv_seq_keep 4 kv_demo = Some d \<and> kv_wf d \<and> cell_at (kv_vcells d ! 0) 0 = empty_cell"
  using kv_seq_keep_exact [OF kv_demo_wf kv_demo_fields(4) kv_demo_fields(11)]
  by (auto simp: kv_demo_fields cells_two_cells Let_def)

text \<open>
  C8. \<open>seq_add(s, p0, p1, shift)\<close>: every cell of \<open>s\<close> in the range moves by \<open>shift\<close> and adds it to
  its pending shift; a cell whose position would become negative is emptied of its sequences;
  everything else is untouched and the invariant holds again, whenever the sums fit \<open>int32_t\<close>.
\<close>

theorem kv_seq_add_exact:
  assumes "kv_wf c" and "kv_other c = None" and "kv_has_seq c s" and "kv_n_pos_per_embd c = 1" and "shift \<noteq> 0"
    and "\<forall>i < kv_size c. hits s (lo_pos p0) (hi_pos p1) (seq_cell c s i) \<longrightarrow> add_fits shift (seq_cell c s i)"
  shows "\<exists>d. kv_seq_add s p0 p1 shift c = Some d \<and> kv_wf d \<and>
    (\<forall>st < kv_n_stream c. \<forall>i < kv_size c. cell_at (kv_vcells d ! st) i =
       (let x = cell_at (kv_vcells c ! st) i in
        if st = kv_stream c s \<and> hits s (lo_pos p0) (hi_pos p1) x then cell_shifted shift x else x))"
  using kv_seq_add_wp [OF assms(1-4) _ assms(5), of p0 p1] assms(6)
  by (auto simp: wp_def kv_mapped_def Let_def)

lemma kv_seq_add_exact_witness:
  "\<exists>d. kv_seq_add 3 (-1) (-1) (-2) kv_demo = Some d \<and> kv_wf d \<and> cl_pos (cell_at (kv_vcells d ! 0) 0) = 3"
proof -
  have "\<forall>i < kv_size kv_demo. hits 3 (lo_pos (-1)) (hi_pos (-1)) (seq_cell kv_demo 3 i) \<longrightarrow> add_fits (-2) (seq_cell kv_demo 3 i)"
    by (auto simp: kv_demo_fields less_Suc_eq numeral_2_eq_2 add_fits_def in_i32_def hits_def cells_two_cells)
  from kv_seq_add_exact [OF kv_demo_wf kv_demo_fields(4) kv_demo_fields(10) kv_demo_fields(8) _ this]
  show ?thesis
    by (auto simp: kv_demo_fields cells_two_cells Let_def hits_def in_range_def lo_pos_def hi_pos_def
        INT32_MAX_def cell_shifted_def)
qed

text \<open>
  C9. \<open>seq_rm(s, p0, -1)\<close>, how a client rolls a sequence back, through the memory interface: it
  returns true, afterwards \<open>seq_pos_max(s)\<close> is below \<open>p0\<close> (-1 for an empty sequence), exactly the
  positions below \<open>p0\<close> are left, and no other sequence's positions change.
\<close>

theorem kv_rollback:
  assumes "kv_wf c" and "kv_other c = None" and "kv_has_seq c s" and "0 \<le> p0" and "\<forall>p \<in> kv_posns c s. p < INT32_MAX"
  shows "\<exists>d p. kv_seq_rm s p0 (-1) c = Some (True, d) \<and> kv_wf d \<and> kv_seq_pos_max d s = Some p \<and> p < max p0 0 \<and>
    kv_posns d s = {q \<in> kv_posns c s. q < p0} \<and>
    (\<forall>t. kv_has_seq c t \<and> t \<noteq> s \<longrightarrow> kv_seq_pos_min d t = kv_seq_pos_min c t \<and> kv_seq_pos_max d t = kv_seq_pos_max c t)"
proof -
  have o: "kv_owned c" using assms by (simp add: kv_owned_def)
  obtain d where d: "kv_seq_rm s p0 (-1) c = Some (True, d)" "kv_wf d"
    using kv_seq_rm_wp [OF assms(1-3), of p0 "-1"] by (auto simp: wp_def kv_mapped_def)
  show ?thesis
    using kvmem.rm_tail [OF o assms(3-5) d(1)] kvmem.rm_other [OF o assms(3) _ _ d(1)] d by blast
qed

lemma kv_rollback_witness:
  "\<exists>d p. kv_seq_rm 3 2 (-1) kv_demo = Some (True, d) \<and> kv_seq_pos_max d 3 = Some p \<and> p < 2"
proof -
  have "\<forall>p \<in> kv_posns kv_demo 3. p < INT32_MAX"
    by (auto simp: kv_posns_def kv_demo_fields less_Suc_eq numeral_2_eq_2 cells_two_cells INT32_MAX_def)
  from kv_rollback [OF kv_demo_wf kv_demo_fields(4) kv_demo_fields(10) _ this, of 2] show ?thesis by auto
qed

text \<open>
  C10. \<open>seq_cp\<close> between different streams, once the range check passes: the target stream is wiped
  and then holds, at the same cell indices, every cell of the source sequence (position, extended
  position and pending shift; sequence \<open>dst\<close> only), whatever \<open>p0\<close> and \<open>p1\<close> say; the head is
  copied and the buffer copy is queued.
\<close>

theorem kv_seq_cp_cross_exact:
  assumes "kv_wf c" and "kv_other c = None" and "kv_has_seq c src" and "kv_has_seq c dst"
    and "kv_stream c src \<noteq> kv_stream c dst"
    and "\<not> (0 < p0 \<and> p0 + 1 < int (kv_size c))" and "\<not> (0 < p1 \<and> p1 + 1 < int (kv_size c))"
    and "\<forall>i < kv_size c. src \<in> cl_seq (seq_cell c src i) \<longrightarrow> copy_fits (seq_cell c src i)"
  shows "\<exists>d. kv_seq_cp src dst p0 p1 c = Some d \<and> kv_wf d \<and>
    kv_sc_info d = kv_sc_info c @ [(kv_stream c src, kv_stream c dst)] \<and>
    kv_heads d = (kv_heads c)[kv_stream c dst := kv_heads c ! kv_stream c src] \<and>
    (\<forall>k < kv_n_stream c. \<forall>i < kv_size c. cell_at (kv_vcells d ! k) i =
       (if k = kv_stream c dst
        then if src \<in> cl_seq (seq_cell c src i) then cell_copied dst (seq_cell c src i) else empty_cell
        else cell_at (kv_vcells c ! k) i))"
  using kv_seq_cp_cross_wp [OF assms(1-7)] assms(8)
  by (auto simp: wp_def cross_image_def)

definition kv_demo2 :: kv_cache where
  "kv_demo2 = (the (kv_new False 2 4 0 SWA_NONE 1 \<lparr>ce_enabled = False, ce_fork_tensors = False\<rparr>))
     \<lparr>kv_vcells := [cells_two, cells_two, cells_two, cells_two], kv_heads := [1, 1, 1, 1]\<rparr>"

lemma kv_demo2_fields:
  "kv_n_stream kv_demo2 = 4" "kv_vcells kv_demo2 = [cells_two, cells_two, cells_two, cells_two]"
  "kv_heads kv_demo2 = [1, 1, 1, 1]" "kv_other kv_demo2 = None" "kv_s2s kv_demo2 = [0, 1, 2, 3]" "kv_size kv_demo2 = 2"
  by (simp_all add: kv_demo2_def kv_new_def kv_size_def cells_two_facts upt_rec)

lemma kv_demo2_wf: "kv_wf kv_demo2"
  by (auto simp: kv_wf_def kv_demo2_fields cells_two_facts cells_live_def cell_live_def cells_two_cells
      less_Suc_eq numeral_eq_Suc)

lemma kv_seq_cp_cross_exact_witness:
  "\<exists>d. kv_seq_cp 3 1 (-1) (-1) kv_demo2 = Some d \<and> kv_wf d \<and> cl_seq (cell_at (kv_vcells d ! 1) 0) = {1}"
proof -
  have st: "kv_stream kv_demo2 3 = 3" "kv_stream kv_demo2 1 = 1" "kv_has_seq kv_demo2 3" "kv_has_seq kv_demo2 1"
    by (simp_all add: kv_stream_def kv_has_seq_def kv_demo2_fields)
  have vc: "kv_vcells kv_demo2 ! 3 = cells_two" by (simp add: kv_demo2_fields)
  have fits: "\<forall>i < kv_size kv_demo2. 3 \<in> cl_seq (seq_cell kv_demo2 3 i) \<longrightarrow> copy_fits (seq_cell kv_demo2 3 i)"
    by (auto simp: st vc kv_demo2_fields(6) less_Suc_eq numeral_2_eq_2 copy_fits_def cells_two_cells)
  obtain d where "kv_seq_cp 3 1 (-1) (-1) kv_demo2 = Some d" "kv_wf d"
    "\<forall>k < 4. \<forall>i < 2. cell_at (kv_vcells d ! k) i = (if k = 1
        then if 3 \<in> cl_seq (cell_at cells_two i) then cell_copied 1 (cell_at cells_two i) else empty_cell
        else cell_at (kv_vcells kv_demo2 ! k) i)"
    using kv_seq_cp_cross_exact [OF kv_demo2_wf kv_demo2_fields(4) st(3,4) _ _ _ fits, of "-1" "-1"]
    by (auto simp: st vc kv_demo2_fields(1,6))
  then show ?thesis by (auto simp: cells_two_cells cell_copied_def)
qed

end
