(* ===== verification/KvSlots.thy ===== *)
theory KvSlots
  imports KvSeq
begin

text \<open>
  Placing a batch in the KV cache: \<open>find_slot\<close>, \<open>apply_ubatch\<close>, \<open>prepare\<close>, the metadata part of
  \<open>realloc_kv\<close> and the sizes derived from the cells (\<open>get_n_kv\<close>, \<open>get_n_kv_rows\<close>) of
  \<open>src/llama-kv-cache.cpp\<close>, with \<open>is_masked_swa\<close> of \<open>src/llama-hparams.h\<close>.  The search loop of
  \<open>find_slot\<close> is a \<open>partial_function\<close>: \<open>None\<close> also stands for a run that does not end.
\<close>

section \<open>Sliding-window masking\<close>

definition is_masked_swa :: "nat \<Rightarrow> swa_type \<Rightarrow> llama_pos \<Rightarrow> llama_pos \<Rightarrow> bool option" where
  "is_masked_swa n_swa t p0 p1 = do {
     ensure (p0 \<ge> 0 \<and> p1 \<ge> 0);
     case t of
       SWA_NONE \<Rightarrow> Some False
     | SWA_STANDARD \<Rightarrow> Some (p1 - p0 \<ge> int n_swa)
     | SWA_CHUNKED \<Rightarrow> do {
         ensure (n_swa \<noteq> 0);
         Some (p0 < p1 div int n_swa * int n_swa) }
     | SWA_SYMMETRIC \<Rightarrow> (let half = int n_swa div 2 in Some (p1 - p0 < - half \<or> p1 - p0 > half)) }"

section \<open>Slots\<close>

record slot_info =
  si_s0 :: nat
  si_s1 :: nat
  si_strm :: "nat list"
  si_idxs :: "nat list list"

definition slot_none :: slot_info where
  "slot_none = \<lparr>si_s0 = 0, si_s1 = 0, si_strm = [], si_idxs = []\<rparr>"

definition slot_head :: "slot_info \<Rightarrow> nat option" where
  "slot_head si = do {
     ensure (length (si_idxs si) = 1);
     ensure (si_idxs si ! 0 \<noteq> []);
     Some (hd (si_idxs si ! 0)) }"

definition slot_size :: "slot_info \<Rightarrow> nat option" where
  "slot_size si = do {
     ensure (length (si_idxs si) = length (si_strm si));
     ensure (si_idxs si \<noteq> []);
     Some (length (hd (si_idxs si))) }"

definition slot_n_stream :: "slot_info \<Rightarrow> nat" where
  "slot_n_stream si = length (si_strm si)"

definition slot_empty :: "slot_info \<Rightarrow> bool" where
  "slot_empty si = (si_idxs si = [])"

definition slot_is_contiguous :: "slot_info \<Rightarrow> bool" where
  "slot_is_contiguous si = (
     if si_idxs si = [] \<or> hd (si_idxs si) = [] then True
     else if length (si_idxs si) > 1 then False
     else let h = hd (hd (si_idxs si)) in
       \<forall>i \<in> {..<length (hd (si_idxs si))}. hd (si_idxs si) ! i = h + i)"

section \<open>Finding a slot\<close>

definition can_use :: "kv_cache \<Rightarrow> kv_cells \<Rightarrow> nat \<Rightarrow> bool option" where
  "can_use c cells idx = do {
     e \<leftarrow> is_empty cells idx;
     if e then Some True
     else do {
       n \<leftarrow> seq_count cells idx;
       if n \<noteq> 1 then Some False
       else do {
         pos_cell \<leftarrow> pos_get cells idx;
         s \<leftarrow> seq_get cells idx;
         mx \<leftarrow> cells_seq_pos_max cells s;
         p1 \<leftarrow> i32 (mx + 1);
         is_masked_swa (kv_n_swa c) (kv_swa_type c) pos_cell p1 } } }"

text \<open>The \<open>for\<close> loop over \<open>n_test\<close> cells; the state is \<open>head_cur\<close>, \<open>n_tested\<close> and \<open>idxs[s]\<close>.\<close>

fun test_cells :: "kv_cache \<Rightarrow> kv_cells \<Rightarrow> bool \<Rightarrow> nat \<Rightarrow> nat \<times> nat \<times> nat list \<Rightarrow> (nat \<times> nat \<times> nat list) option" where
  "test_cells c cells cont 0 st = Some st"
| "test_cells c cells cont (Suc k) (head, n_tested, idxs) = do {
     u \<leftarrow> can_use c cells head;
     if u then test_cells c cells cont k (head + 1, n_tested + 1, idxs @ [head])
     else if cont then Some (head + 1, n_tested + 1, idxs)
     else test_cells c cells cont k (head + 1, n_tested + 1, idxs) }"

text \<open>\<open>Some None\<close> is the return of an empty slot, \<open>Some (Some idxs)\<close> leaves the loop with the indices.\<close>

partial_function (option) find_loop :: "kv_cache \<Rightarrow> kv_cells \<Rightarrow> bool \<Rightarrow> nat \<Rightarrow> nat \<Rightarrow> nat \<times> nat \<times> nat list \<Rightarrow> nat list option option" where
  "find_loop c cells cont n_tokens n_test st = (case st of (head, n_tested, idxs) \<Rightarrow>
     if head + n_test > cells_size cells
     then find_loop c cells cont n_tokens n_test (0, n_tested + usub32 (cells_size cells) head, idxs)
     else Option.bind (test_cells c cells cont n_test (head, n_tested, idxs)) (\<lambda>st'. case st' of (head, n_tested, idxs) \<Rightarrow>
       if length idxs = n_tokens then Some (Some idxs)
       else if n_tested \<ge> cells_size cells then Some None
       else find_loop c cells cont n_tokens n_test (head, n_tested, if cont then [] else idxs)))"

definition find_in_stream :: "kv_cache \<Rightarrow> bool \<Rightarrow> nat \<Rightarrow> nat \<Rightarrow> nat list option option" where
  "find_in_stream c cont n_tokens st = do {
     cells \<leftarrow> vget (kv_vcells c) st;
     h \<leftarrow> vget (kv_heads c) st;
     let head = (if h > get_used cells + 2 * n_tokens then 0 else h);
     if n_tokens > cells_size cells then Some None
     else find_loop c cells cont n_tokens (if cont then n_tokens else 1) (head, 0, []) }"

text \<open>The outer loop over the sequences of the micro-batch; \<open>Some None\<close> is \<open>return { }\<close>.\<close>

fun find_seqs :: "kv_cache \<Rightarrow> llama_ubatch \<Rightarrow> bool \<Rightarrow> nat \<Rightarrow> nat list \<Rightarrow> slot_info \<Rightarrow> slot_info option option" where
  "find_seqs c ub cont n_tokens [] res = Some (Some res)"
| "find_seqs c ub cont n_tokens (s # ss) res = do {
     seq_id \<leftarrow> vget (ub_seq_id_unq ub) s;
     ensure (kv_n_stream c > 1 \<longrightarrow>
       s * n_tokens < length (ub_n_seq_id ub) \<and> ub_n_seq_id ub ! (s * n_tokens) = 1 \<and>
       s * n_tokens < length (ub_seq_id ub) \<and> ub_seq_id ub ! (s * n_tokens) \<noteq> [] \<and>
       hd (ub_seq_id ub ! (s * n_tokens)) = seq_id);
     st \<leftarrow> stream_of c seq_id;
     r \<leftarrow> find_in_stream c cont n_tokens st;
     case r of
       None \<Rightarrow> Some None
     | Some idxs \<Rightarrow>
         find_seqs c ub cont n_tokens ss (res\<lparr>
           si_s0 := min (si_s0 res) st, si_s1 := max (si_s1 res) st,
           si_strm := si_strm res @ [st], si_idxs := si_idxs res @ [idxs]\<rparr>) }"

definition find_slot :: "kv_cache \<Rightarrow> llama_ubatch \<Rightarrow> bool \<Rightarrow> slot_info option" where
  "find_slot c ub cont = do {
     ensure (kv_n_stream c > 1 \<longrightarrow> ub_n_seqs_unq ub \<noteq> 0 \<and> ub_n_tokens ub mod ub_n_seqs_unq ub = 0);
     let n_seqs = (if kv_n_stream c > 1 then ub_n_seqs_unq ub else 1);
     let n_tokens = ub_n_tokens ub div n_seqs;
     r \<leftarrow> find_seqs c ub cont n_tokens [0..<n_seqs] \<lparr>si_s0 = 256, si_s1 = 0, si_strm = [], si_idxs = []\<rparr>;
     case r of
       None \<Rightarrow> Some slot_none
     | Some res \<Rightarrow> do { ensure (si_s1 res \<ge> si_s0 res); Some res } }"

section \<open>Placing a micro-batch\<close>

text \<open>The extended position of token \<open>i\<close>.\<close>

definition token_ext :: "kv_cache \<Rightarrow> llama_ubatch \<Rightarrow> nat \<Rightarrow> cell_ext option" where
  "token_ext c ub i = do {
     e \<leftarrow> (if is_pos_2d ub then do {
              x \<leftarrow> vget (ub_pos ub) (i + ub_n_tokens ub * 2);
              y \<leftarrow> vget (ub_pos ub) (i + ub_n_tokens ub);
              Some (ext_reset\<lparr>ce_x := x, ce_y := y\<rparr>) }
            else Some ext_reset);
     is_embd \<leftarrow> (case ub_token ub of
         None \<Rightarrow> Some True
       | Some _ \<Rightarrow> (case ub_type ub of None \<Rightarrow> Some False | Some ty \<Rightarrow> do { t \<leftarrow> vget ty i; Some (t \<noteq> 0) }));
     if \<not> is_embd then do {
       ts \<leftarrow> ub_token ub;
       t \<leftarrow> vget ts i;
       Some (e\<lparr>ce_tok := t\<rparr>) }
     else if kv_ple_n_heads c > 0 then Some (e\<lparr>ce_tok := kv_ple_embd_token c\<rparr>)
     else Some e }"

text \<open>Node id and parent node id of token \<open>i\<close> of a MultiDecode batch with parent array \<open>par\<close>.\<close>

definition token_node :: "llama_ubatch \<Rightarrow> int list \<Rightarrow> nat \<Rightarrow> (int \<times> int) option" where
  "token_node ub par i = do {
     nid \<leftarrow> (case ub_node_id ub of Some ns \<Rightarrow> vget ns i | None \<Rightarrow> Some (int i));
     pnid \<leftarrow> (case ub_parent_node_id ub of
         Some ps \<Rightarrow> vget ps i
       | None \<Rightarrow> do {
           p \<leftarrow> vget par i;
           if p \<ge> 0 then (case ub_node_id ub of Some ns \<Rightarrow> vget ns (nat p) | None \<Rightarrow> Some p)
           else Some (-1) });
     Some (nid, pnid) }"

text \<open>Store token \<open>i\<close> in cell \<open>idx\<close>; the second component is \<open>seq_pos_max_rm\<close>.\<close>

definition place_token :: "kv_cache \<Rightarrow> llama_ubatch \<Rightarrow> nat \<Rightarrow> nat \<Rightarrow> kv_cells \<times> (llama_seq_id \<Rightarrow> llama_pos) \<Rightarrow>
    (kv_cells \<times> (llama_seq_id \<Rightarrow> llama_pos)) option" where
  "place_token c ub i idx = (\<lambda>(cells, rmx). do {
     e \<leftarrow> is_empty cells idx;
     (cells, rmx) \<leftarrow> (if e then Some (cells, rmx)
       else do {
         n \<leftarrow> seq_count cells idx;
         ensure (n = 1);
         s \<leftarrow> seq_get cells idx;
         p \<leftarrow> pos_get cells idx;
         cells \<leftarrow> cells_rm idx cells;
         Some (cells, rmx(s := max (rmx s) p)) });
     p \<leftarrow> vget (ub_pos ub) i;
     cells \<leftarrow> pos_set idx p cells;
     cells \<leftarrow> (if is_pos_2d ub \<or> ub_token ub \<noteq> None \<or> kv_ple_n_heads c > 0
       then do { ext \<leftarrow> token_ext c ub i; ext_set idx ext cells }
       else Some cells);
     cells \<leftarrow> (case ub_parent ub of
         None \<Rightarrow> Some cells
       | Some par \<Rightarrow> do { (nid, pnid) \<leftarrow> token_node ub par i; node_id_set idx nid pnid cells });
     ids \<leftarrow> vget (ub_seq_id ub) i;
     n \<leftarrow> vget (ub_n_seq_id ub) i;
     ensure (n \<le> int (length ids));
     cells \<leftarrow> foldM (cells_seq_add idx) (take (nat n) ids) cells;
     Some (cells, rmx) })"

definition place_stream :: "llama_ubatch \<Rightarrow> slot_info \<Rightarrow> nat \<Rightarrow> nat \<Rightarrow> kv_cache \<times> (llama_seq_id \<Rightarrow> llama_pos) \<Rightarrow>
    (kv_cache \<times> (llama_seq_id \<Rightarrow> llama_pos)) option" where
  "place_stream ub si sz s = (\<lambda>(c, rmx). do {
     st \<leftarrow> vget (si_strm si) s;
     idxs \<leftarrow> vget (si_idxs si) s;
     cells \<leftarrow> vget (kv_vcells c) st;
     (cells, rmx) \<leftarrow> foldM (\<lambda>ii x. do {
         idx \<leftarrow> vget idxs ii;
         place_token c ub (s * sz + ii) idx x }) [0..<sz] (cells, rmx);
     cs \<leftarrow> vset (kv_vcells c) st cells;
     Some (c\<lparr>kv_vcells := cs\<rparr>, rmx) })"

text \<open>Purge the positions of sequence \<open>s\<close> up to the largest one that was overwritten.\<close>

definition purge_seq :: "(llama_seq_id \<Rightarrow> llama_pos) \<Rightarrow> llama_seq_id \<Rightarrow> kv_cache \<Rightarrow> kv_cache option" where
  "purge_seq rmx s c = (
     if rmx s = -1 then Some c
     else do {
       st \<leftarrow> stream_of c s;
       cells \<leftarrow> vget (kv_vcells c) st;
       mn \<leftarrow> cells_seq_pos_min cells s;
       if mn \<le> rmx s then do {
         hi \<leftarrow> i32 (rmx s + 1);
         map_option snd (kv_seq_rm s mn hi c) }
       else Some c })"

text \<open>Move the head of a stream behind the slot.\<close>

definition move_head :: "slot_info \<Rightarrow> nat \<Rightarrow> kv_cache \<Rightarrow> kv_cache option" where
  "move_head si s c = do {
     st \<leftarrow> vget (si_strm si) s;
     idxs \<leftarrow> vget (si_idxs si) s;
     ensure (idxs \<noteq> []);
     hs \<leftarrow> vset (kv_heads c) st (last idxs + 1);
     Some (c\<lparr>kv_heads := hs\<rparr>) }"

definition apply_ubatch_owned :: "slot_info \<Rightarrow> llama_ubatch \<Rightarrow> kv_cache \<Rightarrow> kv_cache option" where
  "apply_ubatch_owned si ub c = do {
     sz \<leftarrow> slot_size si;
     ensure (ub_n_tokens ub = slot_n_stream si * sz);
     (c, rmx) \<leftarrow> foldM (place_stream ub si sz) [0..<slot_n_stream si] (c, \<lambda>_. -1);
     c \<leftarrow> foldM (purge_seq rmx) [0..255] c;
     foldM (move_head si) [0..<slot_n_stream si] c }"

definition apply_ubatch :: "slot_info \<Rightarrow> llama_ubatch \<Rightarrow> kv_cache \<Rightarrow> kv_cache option" where
  "apply_ubatch si ub = cow_guard (apply_ubatch_owned si ub)"

section \<open>Trying a whole batch\<close>

record prep_state =
  ps_sinfo :: slot_info
  ps_heads_old :: "nat list"
  ps_cells :: "kv_cells list"

definition save_cells :: "slot_info \<Rightarrow> kv_cache \<Rightarrow> kv_cells list option" where
  "save_cells si c = mapM (\<lambda>s. do {
     st \<leftarrow> vget (si_strm si) s;
     idxs \<leftarrow> vget (si_idxs si) s;
     cells \<leftarrow> vget (kv_vcells c) st;
     cells_cp idxs cells }) [0..<slot_n_stream si]"

text \<open>The first loop of \<open>prepare\<close>: slots found, recovery stack (latest first), success and the cache.\<close>

fun prep_loop :: "llama_ubatch list \<Rightarrow> kv_cache \<Rightarrow> (slot_info list \<times> prep_state list \<times> bool \<times> kv_cache) option" where
  "prep_loop [] c = Some ([], [], True, c)"
| "prep_loop (ub # ubs) c = do {
     si \<leftarrow> find_slot c ub False;
     if slot_empty si then Some ([], [], False, c)
     else do {
       saved \<leftarrow> save_cells si c;
       c' \<leftarrow> apply_ubatch si ub c;
       (sis, stack, ok, c'') \<leftarrow> prep_loop ubs c';
       Some (si # sis, stack @ [\<lparr>ps_sinfo = si, ps_heads_old = kv_heads c, ps_cells = saved\<rparr>], ok, c'') } }"

text \<open>
  Undo one placement.  The old head is read at the index of the stream inside the slot
  (\<open>v_heads_old[s]\<close>), not at the number of the stream.
\<close>

definition restore_one :: "prep_state \<Rightarrow> kv_cache \<Rightarrow> kv_cache option" where
  "restore_one ps = foldM (\<lambda>s c. do {
     st \<leftarrow> vget (si_strm (ps_sinfo ps)) s;
     idxs \<leftarrow> vget (si_idxs (ps_sinfo ps)) s;
     cells \<leftarrow> vget (kv_vcells c) st;
     saved \<leftarrow> vget (ps_cells ps) s;
     cells \<leftarrow> cells_set idxs saved cells;
     h \<leftarrow> vget (ps_heads_old ps) s;
     put_stream st cells h c }) [0..<slot_n_stream (ps_sinfo ps)]"

definition prepare :: "llama_ubatch list \<Rightarrow> kv_cache \<Rightarrow> (slot_info list \<times> kv_cache) option" where
  "prepare ubs c = do {
     (sis, stack, ok, c) \<leftarrow> prep_loop ubs c;
     ensure (stack \<noteq> [] \<or> \<not> ok);
     c \<leftarrow> foldM restore_one stack c;
     Some (if ok then sis else [], c) }"

section \<open>Sizes derived from the cells\<close>

definition ggml_pad :: "nat \<Rightarrow> nat \<Rightarrow> nat" where
  "ggml_pad x n = (x + n - 1) div n * n"

definition get_n_kv :: "kv_cache \<Rightarrow> slot_info \<Rightarrow> nat option" where
  "get_n_kv c si = foldM (\<lambda>s result. do {
     st \<leftarrow> vget (si_strm si) s;
     cells \<leftarrow> vget (kv_vcells c) st;
     Some (max (min (cells_size cells) (max 256 (ggml_pad (used_max_p1 cells) 256))) result) })
     [0..<slot_n_stream si] 0"

definition kv_get_has_shift :: "kv_cache \<Rightarrow> bool" where
  "kv_get_has_shift c = fold (\<lambda>s r. r \<or> kc_has_shift (kv_vcells c ! s)) [0..<kv_n_stream c] False"

text \<open>Number of slices: per sequence when the batch is made of runs of one sequence each.\<close>

definition is_runs :: "llama_ubatch \<Rightarrow> nat \<Rightarrow> bool option" where
  "is_runs ub n_tps = foldM (\<lambda>i ok. if \<not> ok then Some False
     else do {
       n \<leftarrow> vget (ub_n_seq_id ub) i;
       if n \<noteq> 1 then Some False
       else do {
         a \<leftarrow> vget (ub_seq_id ub) i;
         b \<leftarrow> vget (ub_seq_id ub) (i - i mod n_tps);
         x \<leftarrow> vget a 0;
         y \<leftarrow> vget b 0;
         Some (x = y) } }) [0..<ub_n_tokens ub] True"

definition get_n_kv_slices :: "llama_ubatch \<Rightarrow> nat option" where
  "get_n_kv_slices ub = (
     if ub_n_seqs_unq ub = 1 then Some 1
     else if equal_seqs ub \<and> ub_n_seqs ub = ub_n_seqs_unq ub then Some (ub_n_seqs ub)
     else do {
       ensure (ub_n_seqs_unq ub \<noteq> 0);
       if ub_n_tokens ub mod ub_n_seqs_unq ub = 0 then do {
         r \<leftarrow> is_runs ub (ub_n_tokens ub div ub_n_seqs_unq ub);
         Some (if r then ub_n_seqs_unq ub else 1) }
       else Some 1 })"

definition slice_seq_ids :: "llama_ubatch \<Rightarrow> nat \<Rightarrow> nat \<Rightarrow> llama_seq_id list option" where
  "slice_seq_ids ub n_slices s = (
     if n_slices = 1 then Some (take (ub_n_seqs_unq ub) (ub_seq_id_unq ub))
     else do {
       ids \<leftarrow> vget (ub_seq_id ub) (s * (ub_n_tokens ub div n_slices));
       x \<leftarrow> vget ids 0;
       Some [x] })"

definition slice_p_min :: "llama_ubatch \<Rightarrow> nat \<Rightarrow> nat \<Rightarrow> swa_type \<Rightarrow> nat \<Rightarrow> llama_pos option" where
  "slice_p_min ub n_slices n_swa t s = (
     if n_swa = 0 \<or> (t \<noteq> SWA_STANDARD \<and> t \<noteq> SWA_CHUNKED) then Some (-1)
     else let n_tps = ub_n_tokens ub div n_slices in do {
       q \<leftarrow> vget (ub_pos ub) (s * n_tps);
       p \<leftarrow> foldM (\<lambda>i p. do { q \<leftarrow> vget (ub_pos ub) (s * n_tps + i); Some (min p q) }) [1..<n_tps] q;
       Some (if t = SWA_STANDARD then p - int n_swa + 1 else trunc_div p (int n_swa) * int n_swa) })"

definition get_kv_rows_slices :: "llama_ubatch \<Rightarrow> nat \<Rightarrow> nat \<Rightarrow> swa_type \<Rightarrow> rows_slice list option" where
  "get_kv_rows_slices ub n_slices n_swa t = mapM (\<lambda>s. do {
     ids \<leftarrow> slice_seq_ids ub n_slices s;
     p \<leftarrow> slice_p_min ub n_slices n_swa t s;
     Some \<lparr>rs_seq_ids = ids, rs_p_min = p\<rparr> }) [0..<n_slices]"

definition slice_count :: "kv_cells \<Rightarrow> rows_slice \<Rightarrow> nat option" where
  "slice_count cells sl = foldM (\<lambda>s n. do {
     k \<leftarrow> (if rs_p_min sl < 0 then seq_n_cells cells s else seq_n_cells_from cells s (rs_p_min sl));
     Some (n + k) }) (rs_seq_ids sl) 0"

definition get_n_kv_rows :: "kv_cache \<Rightarrow> llama_ubatch \<Rightarrow> nat option" where
  "get_n_kv_rows c ub = (
     if kv_n_stream c \<noteq> 1 then Some 0
     else do {
       n_slices \<leftarrow> get_n_kv_slices ub;
       cells \<leftarrow> vget (kv_vcells c) 0;
       slices \<leftarrow> get_kv_rows_slices ub n_slices (kv_n_swa c) (kv_swa_type c);
       n_max \<leftarrow> foldM (\<lambda>sl m. do { n \<leftarrow> slice_count cells sl; Some (max m (min n (used_max_p1 cells))) }) slices 0;
       size \<leftarrow> kv_get_size c;
       Some (min (max 256 (ggml_pad n_max 256)) size) })"

end
