(* ===== verification/KvFind.thy ===== *)
theory KvFind
  imports KvSlots
begin

text \<open>
  The slot search: \<open>find_slot\<close> returns on every input that respects the invariant, and what it
  returns is the first fit in the cyclic order of the cells from the search head.
\<close>

section \<open>Which cells may be overwritten\<close>

definition swa_ok :: "kv_cache \<Rightarrow> bool" where
  "swa_ok c = (kv_swa_type c = SWA_CHUNKED \<longrightarrow> kv_n_swa c \<noteq> 0)"

definition swa_masked :: "kv_cache \<Rightarrow> llama_pos \<Rightarrow> llama_pos \<Rightarrow> bool" where
  "swa_masked c p0 p1 = (case kv_swa_type c of
     SWA_NONE \<Rightarrow> False
   | SWA_STANDARD \<Rightarrow> p1 - p0 \<ge> int (kv_n_swa c)
   | SWA_CHUNKED \<Rightarrow> p0 < p1 div int (kv_n_swa c) * int (kv_n_swa c)
   | SWA_SYMMETRIC \<Rightarrow> p1 - p0 < - (int (kv_n_swa c) div 2) \<or> p1 - p0 > int (kv_n_swa c) div 2)"

lemma is_masked_swa_eq:
  "swa_ok c \<Longrightarrow> 0 \<le> p0 \<Longrightarrow> 0 \<le> p1 \<Longrightarrow>
   is_masked_swa (kv_n_swa c) (kv_swa_type c) p0 p1 = Some (swa_masked c p0 p1)"
  by (auto simp: is_masked_swa_def swa_masked_def swa_ok_def Let_def split: swa_type.splits)

text \<open>The largest position of a sequence in a stream, -1 when there is none.\<close>

definition cells_max :: "kv_cells \<Rightarrow> llama_seq_id \<Rightarrow> llama_pos" where
  "cells_max cells s = max_or_none ((\<lambda>i. kc_pos cells ! i) ` cells_of cells s)"

definition usable :: "kv_cache \<Rightarrow> kv_cells \<Rightarrow> nat \<Rightarrow> bool" where
  "usable c cells i = (let x = cell_at cells i in
     cl_pos x = -1 \<or> (\<exists>s. cl_seq x = {s} \<and> swa_masked c (cl_pos x) (cells_max cells s + 1)))"

definition pos_bounded :: "kv_cells \<Rightarrow> bool" where
  "pos_bounded cells = (\<forall>i < cells_size cells. kc_pos cells ! i < INT32_MAX)"

lemma cells_max_bound:
  assumes c: "cells_wf cells" and b: "pos_bounded cells"
  shows "-1 \<le> cells_max cells s" "cells_max cells s < INT32_MAX"
proof -
  let ?A = "(\<lambda>i. kc_pos cells ! i) ` cells_of cells s"
  have A: "finite ?A" "\<And>p. p \<in> ?A \<Longrightarrow> 0 \<le> p \<and> p < INT32_MAX"
    using cells_of_pos [OF c] b by (auto simp: pos_bounded_def cells_of_def)
  have "-1 \<le> cells_max cells s \<and> cells_max cells s < INT32_MAX"
  proof (cases "?A = {}")
    case False
    then have "Max ?A \<in> ?A" using A(1) by simp
    from A(2) [OF this] show ?thesis
      using False by (simp add: cells_max_def max_or_none_def)
  qed (simp add: cells_max_def max_or_none_def INT32_MAX_def)
  then show "-1 \<le> cells_max cells s" "cells_max cells s < INT32_MAX" by simp_all
qed

lemma find_upto_single: "s \<in> seq_ids_ok \<Longrightarrow> List.find (\<lambda>t. t \<in> {s}) [0..255] = Some s"
proof -
  assume s: "s \<in> seq_ids_ok"
  then have "List.find (\<lambda>t. t \<in> {s}) [0..255] \<noteq> None" by (simp add: find_None_iff)
  then obtain t where "List.find (\<lambda>t. t \<in> {s}) [0..255] = Some t" by blast
  moreover from this have "t = s" by (auto simp: find_Some_iff)
  ultimately show ?thesis by simp
qed

lemma seq_get_eq:
  assumes c: "cells_wf cells" and i: "i < cells_size cells" and s: "cl_seq (cell_at cells i) = {s}"
  shows "seq_get cells i = Some s" "s \<in> seq_ids_ok"
proof -
  show ok: "s \<in> seq_ids_ok" using cells_wf_cell(2) [OF c i] s by (auto simp: kc_seq_cell)
  have "kc_seq cells ! i = {s}" using s by (simp add: kc_seq_cell)
  then show "seq_get cells i = Some s"
    using i c find_upto_single [OF ok] by (simp add: seq_get_def vget_def)
qed

lemma cells_pos_max_eq:
  "cells_wf cells \<Longrightarrow> s \<in> seq_ids_ok \<Longrightarrow> cells_seq_pos_max cells s = Some (cells_max cells s)"
  by (simp add: seq_pos_max_eq cells_max_def max_or_none_def)

lemma is_empty_eq: "cells_wf cells \<Longrightarrow> i < cells_size cells \<Longrightarrow> is_empty cells i = Some (cl_pos (cell_at cells i) = -1)"
  using cells_wf_cell(1) [of cells i] by (auto simp: is_empty_def vget_def cell_at_def ensure_def)

lemma seq_count_eq:
  "i < cells_size cells \<Longrightarrow> cl_pos (cell_at cells i) \<noteq> -1 \<Longrightarrow> seq_count cells i = Some (card (cl_seq (cell_at cells i)))"
  by (simp add: seq_count_def vget_def cell_at_def)

lemma pos_get_eq:
  "i < cells_size cells \<Longrightarrow> cl_pos (cell_at cells i) \<noteq> -1 \<Longrightarrow> pos_get cells i = Some (cl_pos (cell_at cells i))"
  by (simp add: pos_get_def vget_def cell_at_def)

lemma can_use_eq:
  assumes c: "cells_wf cells" and b: "pos_bounded cells" and sw: "swa_ok c" and i: "i < cells_size cells"
  shows "can_use c cells i = Some (usable c cells i)"
proof (cases "cl_pos (cell_at cells i) = -1")
  case True
  then show ?thesis using c i by (simp add: can_use_def is_empty_eq usable_def)
next
  case ne: False
  then have p0: "0 \<le> cl_pos (cell_at cells i)" using cells_wf_cell(1) [OF c i] by (simp add: kc_seq_cell)
  show ?thesis
  proof (cases "card (cl_seq (cell_at cells i)) = 1")
    case True
    then obtain s where s: "cl_seq (cell_at cells i) = {s}" by (rule card_1_singletonE)
    note g = seq_get_eq [OF c i s]
    note mx = cells_max_bound [OF c b, of s]
    have "i32 (cells_max cells s + 1) = Some (cells_max cells s + 1)"
      using mx by (simp add: i32_def in_i32_def INT32_MAX_def)
    then show ?thesis using ne c i s g mx p0 is_masked_swa_eq [OF sw p0, of "cells_max cells s + 1"]
      by (simp add: can_use_def is_empty_eq seq_count_eq pos_get_eq cells_pos_max_eq usable_def i32_def)
  next
    case False
    then have "cl_seq (cell_at cells i) \<noteq> {s}" for s by auto
    then show ?thesis using ne c i False
      by (simp add: can_use_def is_empty_eq seq_count_eq usable_def)
  qed
qed

section \<open>The search loop\<close>

definition cyclic :: "nat \<Rightarrow> nat \<Rightarrow> nat list" where
  "cyclic h n = [h..<n] @ [0..<h]"

lemma length_cyclic [simp]: "h \<le> n \<Longrightarrow> length (cyclic h n) = n"
  by (simp add: cyclic_def)

lemma cyclic_nth: "h \<le> n \<Longrightarrow> k < n \<Longrightarrow> cyclic h n ! k = (if k < n - h then h + k else k - (n - h))"
  by (auto simp: cyclic_def nth_append)

lemma set_cyclic: "h \<le> n \<Longrightarrow> set (cyclic h n) = {..<n}"
  by (auto simp: cyclic_def)

lemma distinct_cyclic: "distinct (cyclic h n)"
  by (auto simp: cyclic_def)

definition first_fit :: "nat \<Rightarrow> nat list \<Rightarrow> nat list option" where
  "first_fit m xs = (if m \<le> length xs then Some (take m xs) else None)"

lemma find_loop_scan:
  assumes c: "cells_wf cells" and b: "pos_bounded cells" and sw: "swa_ok c"
    and h: "h \<le> cells_size cells" and sz: "cells_size cells < 2 ^ 32"
    and k: "k < cells_size cells" and idxs: "length idxs < m"
    and head: "head = cyclic h (cells_size cells) ! k \<or>
      (head = cells_size cells \<and> k = cells_size cells - h)"
  shows "find_loop c cells False m 1 (head, k, idxs) =
    Some (first_fit m (idxs @ filter (usable c cells) (drop k (cyclic h (cells_size cells)))))"
  using k idxs head
proof (induction "cells_size cells - k" arbitrary: k head idxs rule: less_induct)
  case less
  let ?n = "cells_size cells" and ?o = "cyclic h (cells_size cells)"
  let ?x = "?o ! k"
  have x: "?x < ?n" using cyclic_nth [OF h less.prems(1)] less.prems(1) h by auto
  have drop: "drop k ?o = ?x # drop (Suc k) ?o"
    using less.prems(1) h by (simp add: Cons_nth_drop_Suc)
  have cu: "can_use c cells ?x = Some (usable c cells ?x)" by (rule can_use_eq [OF c b sw x])
  have main: "find_loop c cells False m 1 (?x, k, idxs) =
    Some (first_fit m (idxs @ filter (usable c cells) (drop k ?o)))"
  proof -
    let ?idxs = "if usable c cells ?x then idxs @ [?x] else idxs"
    have step: "find_loop c cells False m 1 (?x, k, idxs) =
      (if length ?idxs = m then Some (Some ?idxs)
       else if ?n \<le> Suc k then Some None
       else find_loop c cells False m 1 (Suc ?x, Suc k, ?idxs))"
      using x cu by (subst find_loop.simps) (auto simp: numeral_eq_Suc)
    have app: "idxs @ filter (usable c cells) (drop k ?o) = ?idxs @ filter (usable c cells) (drop (Suc k) ?o)"
      by (simp add: drop)
    show ?thesis
    proof (cases "length ?idxs = m")
      case True
      then show ?thesis unfolding step app by (simp add: first_fit_def)
    next
      case lm: False
      then have lt: "length ?idxs < m" using less.prems(2) by (auto split: if_splits)
      show ?thesis
      proof (cases "?n \<le> Suc k")
        case True
        then have "drop (Suc k) ?o = []" using h by simp
        then show ?thesis unfolding step app using True lm lt by (simp add: first_fit_def)
      next
        case False
        then have nx: "Suc ?x = ?o ! Suc k \<or> (Suc ?x = ?n \<and> Suc k = ?n - h)"
          using cyclic_nth [OF h less.prems(1)] cyclic_nth [OF h, of "Suc k"] h by auto
        show ?thesis unfolding step app
          using less.hyps [of "Suc k" ?idxs "Suc ?x"] False lm lt nx by auto
      qed
    qed
  qed
  show ?case
  proof (cases "head = ?x")
    case True
    then show ?thesis using main by simp
  next
    case False
    then have hd: "head = ?n" "k = ?n - h" using less.prems(3) by auto
    then have "?x = 0" using cyclic_nth [OF h less.prems(1)] by simp
    moreover have "find_loop c cells False m 1 (head, k, idxs) = find_loop c cells False m 1 (0, k, idxs)"
      using hd(1) sz by (subst find_loop.simps) simp
    ultimately show ?thesis using main by simp
  qed
qed

lemma find_in_stream_eq:
  assumes c: "kv_wf c" and sw: "swa_ok c" and st: "st < kv_n_stream c" and b: "pos_bounded (kv_vcells c ! st)"
    and sz: "kv_size c < 2 ^ 32" and m: "0 < m" and n: "0 < kv_size c"
  defines "cells \<equiv> kv_vcells c ! st"
  defines "h \<equiv> if kv_heads c ! st > get_used cells + 2 * m then 0 else kv_heads c ! st"
  shows "find_in_stream c False m st = Some (first_fit m (filter (usable c cells) (cyclic h (kv_size c))))"
proof -
  note w = kv_wfD [OF c]
  have cells: "cells_wf cells" "cells_size cells = kv_size c" using w(4,6) [OF st] by (simp_all add: cells_def)
  have h: "h \<le> kv_size c" using w(7) [OF st] by (simp add: h_def)
  have vg: "vget (kv_vcells c) st = Some cells" "vget (kv_heads c) st = Some (kv_heads c ! st)"
    using w(1,2) st by (simp_all add: cells_def)
  have loop: "find_loop c cells False m 1 (h, 0, []) = Some (first_fit m (filter (usable c cells) (cyclic h (kv_size c))))"
    using find_loop_scan [OF cells(1) b [folded cells_def] sw, of h 0 "[]" m h] cells(2) h sz m n cyclic_nth [OF h n]
    by auto
  show ?thesis
  proof (cases "kv_size c < m")
    case True
    have "length (filter (usable c cells) (cyclic h (kv_size c))) \<le> kv_size c"
      using length_filter_le [of _ "cyclic h (kv_size c)"] h by simp
    then have "first_fit m (filter (usable c cells) (cyclic h (kv_size c))) = None"
      using True by (simp add: first_fit_def)
    then show ?thesis using True cells(2) by (simp add: find_in_stream_def vg)
  next
    case False
    then show ?thesis using loop cells(2)
      by (simp add: find_in_stream_def vg h_def [symmetric] Let_def)
  qed
qed

section \<open>The whole slot\<close>

text \<open>The usable cells of stream \<open>st\<close> in the order they are tried for \<open>m\<close> tokens.\<close>

definition fit :: "kv_cache \<Rightarrow> nat \<Rightarrow> nat \<Rightarrow> nat list" where
  "fit c m st = (let cells = kv_vcells c ! st;
       h = (if kv_heads c ! st > get_used cells + 2 * m then 0 else kv_heads c ! st)
     in filter (usable c cells) (cyclic h (kv_size c)))"

text \<open>What \<open>find_slot\<close> relies on: an initialised cache, and the shape of the micro-batch for it.\<close>

definition kv_ready :: "kv_cache \<Rightarrow> bool" where
  "kv_ready c = (kv_wf c \<and> swa_ok c \<and> 0 < kv_size c \<and> kv_size c < 2 ^ 31 \<and>
     (\<forall>st < kv_n_stream c. pos_bounded (kv_vcells c ! st)) \<and> (1 < kv_n_stream c \<longrightarrow> distinct (kv_s2s c)) \<and>
     (\<forall>st < kv_n_stream c. \<forall>i < kv_size c. \<forall>s \<in> cl_seq (cell_at (kv_vcells c ! st) i). kv_has_seq c s))"

definition n_slot_seqs :: "kv_cache \<Rightarrow> llama_ubatch \<Rightarrow> nat" where
  "n_slot_seqs c ub = (if kv_n_stream c > 1 then ub_n_seqs_unq ub else 1)"

definition slot_tokens :: "kv_cache \<Rightarrow> llama_ubatch \<Rightarrow> nat" where
  "slot_tokens c ub = ub_n_tokens ub div n_slot_seqs c ub"

definition ub_fits :: "kv_cache \<Rightarrow> llama_ubatch \<Rightarrow> bool" where
  "ub_fits c ub = (length (ub_seq_id_unq ub) = ub_n_seqs_unq ub \<and> 0 < ub_n_seqs_unq ub \<and> 0 < ub_n_tokens ub \<and>
     distinct (ub_seq_id_unq ub) \<and> (\<forall>s \<in> set (ub_seq_id_unq ub). kv_has_seq c s) \<and>
     (kv_n_stream c > 1 \<longrightarrow> ub_n_tokens ub mod ub_n_seqs_unq ub = 0 \<and>
       (\<forall>s < ub_n_seqs_unq ub. let i = s * slot_tokens c ub in
          i < length (ub_n_seq_id ub) \<and> ub_n_seq_id ub ! i = 1 \<and> i < length (ub_seq_id ub) \<and>
          ub_seq_id ub ! i \<noteq> [] \<and> hd (ub_seq_id ub ! i) = ub_seq_id_unq ub ! s)))"

definition slot_streams :: "kv_cache \<Rightarrow> llama_ubatch \<Rightarrow> nat list" where
  "slot_streams c ub = map (\<lambda>s. kv_stream c (ub_seq_id_unq ub ! s)) [0..<n_slot_seqs c ub]"

lemma find_in_stream_fit:
  assumes "kv_ready c" "st < kv_n_stream c" "0 < m"
  shows "find_in_stream c False m st = Some (first_fit m (fit c m st))"
  using assms find_in_stream_eq [of c st m] by (simp add: kv_ready_def fit_def Let_def)

lemma find_seqs_wp:
  assumes c: "kv_ready c" and m: "0 < m"
    and ss: "\<And>s. s \<in> set ss \<Longrightarrow> s < length (ub_seq_id_unq ub) \<and> kv_has_seq c (ub_seq_id_unq ub ! s) \<and>
      (kv_n_stream c > 1 \<longrightarrow> (s * m < length (ub_n_seq_id ub) \<and> ub_n_seq_id ub ! (s * m) = 1 \<and>
         s * m < length (ub_seq_id ub) \<and> ub_seq_id ub ! (s * m) \<noteq> [] \<and>
         hd (ub_seq_id ub ! (s * m)) = ub_seq_id_unq ub ! s))"
  defines "stm \<equiv> \<lambda>s. kv_stream c (ub_seq_id_unq ub ! s)"
  shows "wp (find_seqs c ub False m ss res) (\<lambda>r. case r of
      None \<Rightarrow> \<exists>s \<in> set ss. length (fit c m (stm s)) < m
    | Some x \<Rightarrow> (\<forall>s \<in> set ss. m \<le> length (fit c m (stm s))) \<and> si_strm x = si_strm res @ map stm ss \<and>
        si_idxs x = si_idxs res @ map (\<lambda>s. take m (fit c m (stm s))) ss \<and>
        si_s0 x \<le> si_s0 res \<and> si_s1 res \<le> si_s1 x \<and> (ss \<noteq> [] \<longrightarrow> si_s0 x \<le> si_s1 x))"
  using ss
proof (induction ss arbitrary: res)
  case (Cons s ss)
  let ?st = "kv_stream c (ub_seq_id_unq ub ! s)"
  have s: "s < length (ub_seq_id_unq ub)" "kv_has_seq c (ub_seq_id_unq ub ! s)"
    using Cons.prems [of s] by auto
  have wf: "kv_wf c" using c by (simp add: kv_ready_def)
  have st: "?st < kv_n_stream c" by (rule kv_stream_lt [OF wf s(2)])
  have r: "find_in_stream c False m ?st = Some (first_fit m (fit c m ?st))"
    by (rule find_in_stream_fit [OF c st m])
  let ?res = "res\<lparr>si_s0 := min (si_s0 res) ?st, si_s1 := max (si_s1 res) ?st,
           si_strm := si_strm res @ [?st], si_idxs := si_idxs res @ [take m (fit c m ?st)]\<rparr>"
  have step: "find_seqs c ub False m (s # ss) res =
      (if m \<le> length (fit c m ?st) then find_seqs c ub False m ss ?res else Some None)"
    using Cons.prems [of s] s r by (simp add: vget_def stream_of_eq first_fit_def)
  have IH: "wp (find_seqs c ub False m ss ?res) (\<lambda>r. case r of
      None \<Rightarrow> \<exists>s \<in> set ss. length (fit c m (stm s)) < m
    | Some x \<Rightarrow> (\<forall>s \<in> set ss. m \<le> length (fit c m (stm s))) \<and> si_strm x = si_strm ?res @ map stm ss \<and>
        si_idxs x = si_idxs ?res @ map (\<lambda>s. take m (fit c m (stm s))) ss \<and>
        si_s0 x \<le> si_s0 ?res \<and> si_s1 ?res \<le> si_s1 x \<and> (ss \<noteq> [] \<longrightarrow> si_s0 x \<le> si_s1 x))"
    by (rule Cons.IH) (use Cons.prems in auto)
  show ?case
  proof (cases "m \<le> length (fit c m ?st)")
    case True
    then show ?thesis unfolding step
      using IH by (auto simp: stm_def elim!: wp_mono split: option.splits)
  next
    case False
    then show ?thesis unfolding step by (simp add: stm_def)
  qed
qed simp

text \<open>The slot \<open>find_slot\<close> returns, or the empty one.\<close>

definition slot_of_fit :: "kv_cache \<Rightarrow> llama_ubatch \<Rightarrow> slot_info \<Rightarrow> bool" where
  "slot_of_fit c ub r = (let m = slot_tokens c ub in
     if \<forall>st \<in> set (slot_streams c ub). m \<le> length (fit c m st)
     then si_strm r = slot_streams c ub \<and> si_idxs r = map (\<lambda>st. take m (fit c m st)) (slot_streams c ub)
     else r = slot_none)"

lemma find_slot_wp:
  assumes c: "kv_ready c" and ub: "ub_fits c ub"
  shows "wp (find_slot c ub False) (slot_of_fit c ub)"
proof -
  let ?n = "n_slot_seqs c ub" and ?m = "slot_tokens c ub"
  have n0: "0 < ?n" "?n \<le> length (ub_seq_id_unq ub)" using ub by (auto simp: ub_fits_def n_slot_seqs_def)
  have m0: "0 < ?m"
    using ub by (auto simp: ub_fits_def slot_tokens_def n_slot_seqs_def div_greater_zero_iff dest: mod_eq_self_iff_div_eq_0 [THEN iffD2])
  let ?res = "\<lparr>si_s0 = 256, si_s1 = 0, si_strm = [], si_idxs = []\<rparr>"
  have W: "wp (find_seqs c ub False ?m [0..<?n] ?res) (\<lambda>r. case r of
      None \<Rightarrow> \<exists>s \<in> set [0..<?n]. length (fit c ?m (kv_stream c (ub_seq_id_unq ub ! s))) < ?m
    | Some x \<Rightarrow> (\<forall>s \<in> set [0..<?n]. ?m \<le> length (fit c ?m (kv_stream c (ub_seq_id_unq ub ! s)))) \<and>
        si_strm x = si_strm ?res @ map (\<lambda>s. kv_stream c (ub_seq_id_unq ub ! s)) [0..<?n] \<and>
        si_idxs x = si_idxs ?res @ map (\<lambda>s. take ?m (fit c ?m (kv_stream c (ub_seq_id_unq ub ! s)))) [0..<?n] \<and>
        si_s0 x \<le> si_s0 ?res \<and> si_s1 ?res \<le> si_s1 x \<and> ([0..<?n] \<noteq> [] \<longrightarrow> si_s0 x \<le> si_s1 x))"
    by (rule find_seqs_wp [OF c m0])
      (use ub n0 in \<open>auto simp: ub_fits_def n_slot_seqs_def Let_def split: if_splits\<close>)
  have "wp (find_seqs c ub False ?m [0..<?n] ?res) (\<lambda>r. wp (case r of
       None \<Rightarrow> Some slot_none
     | Some res \<Rightarrow> do { ensure (si_s1 res \<ge> si_s0 res); Some res }) (slot_of_fit c ub))"
    by (rule wp_mono [OF W])
      (use n0 in \<open>auto simp: slot_of_fit_def slot_streams_def Let_def wp_simps not_le split: option.splits\<close>)
  then show ?thesis
    using ub by (auto simp: find_slot_def wp_simps ub_fits_def n_slot_seqs_def slot_tokens_def Let_def split: if_splits)
qed

lemma fit_props:
  assumes c: "kv_ready c" and st: "st < kv_n_stream c"
  shows "distinct (fit c m st)" "set (fit c m st) = {i. i < kv_size c \<and> usable c (kv_vcells c ! st) i}"
proof -
  have w: "kv_wf c" using c by (simp add: kv_ready_def)
  let ?h = "if kv_heads c ! st > get_used (kv_vcells c ! st) + 2 * m then 0 else kv_heads c ! st"
  have h: "?h \<le> kv_size c" using kv_wfD(7) [OF w st] by simp
  show "distinct (fit c m st)" by (simp add: fit_def Let_def distinct_cyclic)
  show "set (fit c m st) = {i. i < kv_size c \<and> usable c (kv_vcells c ! st) i}"
    using set_cyclic [OF h] by (auto simp: fit_def Let_def)
qed

end
