(* ===== verification/KvApply.thy ===== *)
theory KvApply
  imports KvFind
begin

text \<open>
  \<open>apply_ubatch\<close> and \<open>prepare\<close>: what a placed micro-batch leaves in the cells, and that a trial
  placement is undone.
\<close>

section \<open>One token\<close>

definition overwritable :: "kv_cell \<Rightarrow> bool" where
  "overwritable x = (cl_pos x = -1 \<or> card (cl_seq x) = 1)"

definition stores_ext :: "kv_cache \<Rightarrow> llama_ubatch \<Rightarrow> bool" where
  "stores_ext c ub = (is_pos_2d ub \<or> ub_token ub \<noteq> None \<or> kv_ple_n_heads c > 0)"

text \<open>The cell after token \<open>i\<close> was stored over the contents \<open>old\<close>.\<close>

definition token_cell :: "kv_cache \<Rightarrow> llama_ubatch \<Rightarrow> nat \<Rightarrow> kv_cell \<Rightarrow> kv_cell" where
  "token_cell c ub i old = (
     let x = (if cl_pos old = -1 then old else empty_cell)\<lparr>cl_pos := ub_pos ub ! i\<rparr>;
         y = (if stores_ext c ub then x\<lparr>cl_ext := the (token_ext c ub i)\<rparr> else x);
         z = (case ub_parent ub of None \<Rightarrow> y
              | Some par \<Rightarrow> y\<lparr>cl_node := fst (the (token_node ub par i)), cl_parent := snd (the (token_node ub par i))\<rparr>)
     in z\<lparr>cl_seq := set (ub_seq_id ub ! i)\<rparr>)"

lemma ubatch_okD:
  assumes "ubatch_ok ub" "i < ub_n_tokens ub"
  shows "i < length (ub_pos ub)" "0 \<le> ub_pos ub ! i" "i < length (ub_seq_id ub)" "i < length (ub_n_seq_id ub)"
    "ub_n_seq_id ub ! i = int (length (ub_seq_id ub ! i))" "ub_seq_id ub ! i \<noteq> []" "distinct (ub_seq_id ub ! i)"
    "set (ub_seq_id ub ! i) \<subseteq> seq_ids_ok"
proof -
  have "length (ub_pos ub) = ub_n_tokens ub * ub_n_pos ub" "1 \<le> ub_n_pos ub"
    using assms(1) by (auto simp: ubatch_ok_def)
  then show "i < length (ub_pos ub)" using mult_le_mono2 [of 1 "ub_n_pos ub" "ub_n_tokens ub"] assms(2) by linarith
qed (use assms in \<open>auto simp: ubatch_ok_def\<close>)

lemma token_ext_total:
  assumes ub: "ubatch_ok ub" and i: "i < ub_n_tokens ub"
  shows "\<exists>e. token_ext c ub i = Some e"
proof -
  have len: "i + ub_n_tokens ub * 2 < length (ub_pos ub)" "i + ub_n_tokens ub < length (ub_pos ub)" if "is_pos_2d ub"
  proof -
    have "length (ub_pos ub) = ub_n_tokens ub * ub_n_pos ub" "3 \<le> ub_n_pos ub"
      using ub that by (auto simp: ubatch_ok_def is_pos_2d_def)
    then have "ub_n_tokens ub * 3 \<le> length (ub_pos ub)" using mult_le_mono2 [of 3 "ub_n_pos ub" "ub_n_tokens ub"] by simp
    then show "i + ub_n_tokens ub * 2 < length (ub_pos ub)" "i + ub_n_tokens ub < length (ub_pos ub)"
      using i by linarith+
  qed
  have "pred_option (\<lambda>ts. length ts = ub_n_tokens ub) (ub_token ub)"
    "pred_option (\<lambda>ts. length ts = ub_n_tokens ub) (ub_type ub)"
    using ub by (auto simp: ubatch_ok_def)
  then show ?thesis
    using len i by (auto simp: token_ext_def vget_def Let_def split: option.splits)
qed

lemma token_node_total:
  assumes "ubatch_ok ub" "i < ub_n_tokens ub" "ub_parent ub = Some par"
  shows "\<exists>n p. token_node ub par i = Some (n, p)"
  using assms by (auto simp: token_node_def ubatch_ok_def vget_def split: option.splits)

lemma seq_add_list_wp:
  assumes c: "cells_wf c" and i: "i < cells_size c" and p: "kc_pos c ! i \<noteq> -1"
    and ids: "distinct ids" "set ids \<subseteq> seq_ids_ok" "set ids \<inter> kc_seq c ! i = {}"
  shows "wp (foldM (cells_seq_add i) ids c) (\<lambda>d.
    cell_updated c i ((cell_at c i)\<lparr>cl_seq := kc_seq c ! i \<union> set ids\<rparr>) d \<and> kc_has_shift d = kc_has_shift c)"
  using assms
proof (induction ids arbitrary: c)
  case Nil
  have "(cell_at c i)\<lparr>cl_seq := kc_seq c ! i\<rparr> = cell_at c i" by (simp add: cell_at_def)
  then show ?case using Nil by (simp add: cell_updated_same)
next
  case (Cons s ids)
  have s: "s \<in> seq_ids_ok" "s \<notin> kc_seq c ! i" using Cons.prems by auto
  have "wp (cells_seq_add i s c) (\<lambda>d. wp (foldM (cells_seq_add i) ids d) (\<lambda>e.
    cell_updated c i ((cell_at c i)\<lparr>cl_seq := kc_seq c ! i \<union> set (s # ids)\<rparr>) e \<and> kc_has_shift e = kc_has_shift c))"
  proof (rule wp_mono [OF cells_seq_add_wp [OF Cons.prems(1-3) s]])
    fix d assume d: "cell_updated c i ((cell_at c i)\<lparr>cl_seq := insert s (kc_seq c ! i)\<rparr>) d \<and> kc_has_shift d = kc_has_shift c"
    note a = cell_updated_at [OF conjunct1 [OF d]]
    have "wp (foldM (cells_seq_add i) ids d) (\<lambda>e.
      cell_updated d i ((cell_at d i)\<lparr>cl_seq := kc_seq d ! i \<union> set ids\<rparr>) e \<and> kc_has_shift e = kc_has_shift d)"
      by (rule Cons.IH) (use a Cons.prems in \<open>auto simp: kc_seq_cell\<close>)
    then show "wp (foldM (cells_seq_add i) ids d) (\<lambda>e.
      cell_updated c i ((cell_at c i)\<lparr>cl_seq := kc_seq c ! i \<union> set (s # ids)\<rparr>) e \<and> kc_has_shift e = kc_has_shift c)"
      by (rule wp_mono) (use a d in \<open>auto simp: kc_seq_cell intro: cell_updated_twice [OF conjunct1 [OF d]]\<close>)
  qed
  then show ?case by (simp add: wp_simps)
qed

text \<open>Emptying the old contents; the largest overwritten position of its sequence is noted.\<close>

definition evict :: "kv_cells \<Rightarrow> nat \<Rightarrow> (llama_seq_id \<Rightarrow> llama_pos) \<Rightarrow> (kv_cells \<times> (llama_seq_id \<Rightarrow> llama_pos)) option" where
  "evict cells idx rmx = do {
     n \<leftarrow> seq_count cells idx;
     ensure (n = 1);
     s \<leftarrow> seq_get cells idx;
     p \<leftarrow> pos_get cells idx;
     cells \<leftarrow> cells_rm idx cells;
     Some (cells, rmx(s := max (rmx s) p)) }"

definition note_overwritten :: "kv_cell \<Rightarrow> (llama_seq_id \<Rightarrow> llama_pos) \<Rightarrow> llama_seq_id \<Rightarrow> llama_pos" where
  "note_overwritten x rmx s = (if cl_pos x \<noteq> -1 \<and> cl_seq x = {s} then max (rmx s) (cl_pos x) else rmx s)"

lemma evict_wp:
  assumes c: "cells_wf c" and i: "i < cells_size c" and ne: "cl_pos (cell_at c i) \<noteq> -1" and one: "card (cl_seq (cell_at c i)) = 1"
  shows "wp (evict c i rmx) (\<lambda>(d, r). cell_updated c i empty_cell d \<and> kc_has_shift d = kc_has_shift c \<and>
    r = note_overwritten (cell_at c i) rmx)"
proof -
  obtain s where s: "cl_seq (cell_at c i) = {s}" using one by (rule card_1_singletonE)
  have r: "rmx(s := max (rmx s) (cl_pos (cell_at c i))) = note_overwritten (cell_at c i) rmx"
    using s ne by (auto simp: note_overwritten_def fun_eq_iff)
  have "wp (cells_rm i c) (\<lambda>d. cell_updated c i empty_cell d \<and> kc_has_shift d = kc_has_shift c)"
    by (rule cells_rm_wp [OF c i]) (use ne in \<open>simp add: kc_seq_cell\<close>)
  then show ?thesis
    using i ne one seq_get_eq [OF c i s] r
    by (simp add: evict_def wp_simps seq_count_eq pos_get_eq)
qed

lemma place_token_wp:
  assumes c: "cells_wf cells" and i: "idx < cells_size cells" and ow: "overwritable (cell_at cells idx)"
    and ub: "ubatch_ok ub" and t: "i < ub_n_tokens ub"
  shows "wp (place_token c ub i idx (cells, rmx)) (\<lambda>(d, r).
    cell_updated cells idx (token_cell c ub i (cell_at cells idx)) d \<and> r = note_overwritten (cell_at cells idx) rmx)"
proof -
  let ?old = "cell_at cells idx"
  define o0 where "o0 = (if cl_pos ?old = -1 then ?old else empty_cell)"
  define x where "x = o0\<lparr>cl_pos := ub_pos ub ! i\<rparr>"
  define y where "y = (if stores_ext c ub then x\<lparr>cl_ext := the (token_ext c ub i)\<rparr> else x)"
  define z where "z = (case ub_parent ub of None \<Rightarrow> y
     | Some par \<Rightarrow> y\<lparr>cl_node := fst (the (token_node ub par i)), cl_parent := snd (the (token_node ub par i))\<rparr>)"
  let ?w = "token_cell c ub i ?old"
  note u = ubatch_okD [OF ub t]
  have free: "cl_seq o0 = {}" "cl_pos o0 = -1"
    using cells_wf_cell(3) [OF c i] by (auto simp: o0_def kc_seq_cell empty_cell_def)
  have zpos: "cl_pos z = ub_pos ub ! i" and zseq: "cl_seq z = {}"
    using free by (auto simp: z_def y_def x_def split: option.splits)
  have w: "?w = z\<lparr>cl_seq := set (ub_seq_id ub ! i)\<rparr>"
    by (simp add: token_cell_def Let_def z_def y_def x_def o0_def cong: option.case_cong)
  have s1: "wp (if cl_pos ?old = -1 then Some (cells, rmx) else evict cells idx rmx) (\<lambda>(d, r).
      cell_updated cells idx o0 d \<and> r = note_overwritten ?old rmx)"
  proof (cases "cl_pos ?old = -1")
    case True
    have "note_overwritten ?old rmx = rmx" using True by (simp add: note_overwritten_def fun_eq_iff)
    then show ?thesis using True cell_updated_same [OF c, of idx] by (simp add: o0_def)
  next
    case False
    then have "card (cl_seq ?old) = 1" using ow by (simp add: overwritable_def)
    from evict_wp [OF c i False this, of rmx] have "wp (evict cells idx rmx) (\<lambda>(d, r).
        cell_updated cells idx empty_cell d \<and> r = note_overwritten ?old rmx)"
      by (rule wp_mono) auto
    then show ?thesis using False by (simp add: o0_def)
  qed
  have s2: "wp (pos_set idx (ub_pos ub ! i) d) (cell_updated cells idx x)" if d: "cell_updated cells idx o0 d" for d
    by (rule wp_mono [OF pos_set_wp])
      (use cell_updated_at [OF d] i free u in \<open>auto simp: kc_seq_cell x_def intro: cell_updated_twice [OF d]\<close>)
  obtain e where e: "token_ext c ub i = Some e" using token_ext_total [OF ub t] by blast
  have s3: "wp (if stores_ext c ub then do { ext \<leftarrow> token_ext c ub i; ext_set idx ext d } else Some d)
      (cell_updated cells idx y)" if d: "cell_updated cells idx x d" for d
    using d by (auto simp: e y_def intro!: wp_mono [OF ext_set_wp] intro: cell_updated_twice [OF d]
        simp: cell_updated_at [OF d] i simp del: cell_live_simps)
  have s4: "wp (case ub_parent ub of None \<Rightarrow> Some d
     | Some par \<Rightarrow> do { (nid, pnid) \<leftarrow> token_node ub par i; node_id_set idx nid pnid d }) (cell_updated cells idx z)"
    if d: "cell_updated cells idx y d" for d
  proof (cases "ub_parent ub")
    case (Some par)
    then obtain n p where np: "token_node ub par i = Some (n, p)" using token_node_total [OF ub t] by blast
    have "wp (node_id_set idx n p d) (\<lambda>e. cell_updated d idx ((cell_at d idx)\<lparr>cl_node := n, cl_parent := p\<rparr>) e \<and>
        kc_has_shift e = kc_has_shift d)"
      by (rule node_id_set_wp) (use cell_updated_at [OF d] i in simp_all)
    then have "wp (node_id_set idx n p d) (cell_updated cells idx (y\<lparr>cl_node := n, cl_parent := p\<rparr>))"
      by (rule wp_mono) (use cell_updated_at [OF d] in \<open>auto intro: cell_updated_twice [OF d]\<close>)
    then show ?thesis using Some np by (simp add: z_def)
  qed (use d in \<open>simp add: z_def\<close>)
  have s5: "wp (foldM (cells_seq_add idx) (ub_seq_id ub ! i) d) (cell_updated cells idx ?w)"
    if d: "cell_updated cells idx z d" for d
  proof -
    note a = cell_updated_at [OF d]
    have "wp (foldM (cells_seq_add idx) (ub_seq_id ub ! i) d) (\<lambda>e.
        cell_updated d idx ((cell_at d idx)\<lparr>cl_seq := kc_seq d ! idx \<union> set (ub_seq_id ub ! i)\<rparr>) e \<and> kc_has_shift e = kc_has_shift d)"
      by (rule seq_add_list_wp) (use a i u zpos zseq in \<open>auto simp: kc_seq_cell\<close>)
    then show ?thesis
      by (rule wp_mono) (use a w zseq in \<open>auto simp: kc_seq_cell intro: cell_updated_twice [OF d]\<close>)
  qed
  define T where "T = (\<lambda>d. do {
      d \<leftarrow> pos_set idx (ub_pos ub ! i) d;
      d \<leftarrow> (if stores_ext c ub then do { ext \<leftarrow> token_ext c ub i; ext_set idx ext d } else Some d);
      d \<leftarrow> (case ub_parent ub of None \<Rightarrow> Some d
         | Some par \<Rightarrow> do { (nid, pnid) \<leftarrow> token_node ub par i; node_id_set idx nid pnid d });
      foldM (cells_seq_add idx) (ub_seq_id ub ! i) d })"
  have tail: "wp (T d) (cell_updated cells idx ?w)" if d: "cell_updated cells idx o0 d" for d
    unfolding T_def wp_bind
    by (intro wp_mono [OF s2 [OF d]] wp_mono [OF s3] wp_mono [OF s4] s5)
  have pt: "place_token c ub i idx (cells, rmx) = do {
      (d, r) \<leftarrow> (if cl_pos ?old = -1 then Some (cells, rmx) else evict cells idx rmx);
      d \<leftarrow> T d;
      Some (d, r) }"
    using u by (simp add: place_token_def is_empty_eq [OF c i] evict_def stores_ext_def vget_def T_def)
  show ?thesis unfolding pt wp_bind
    by (rule wp_mono [OF s1]) (auto simp: wp_simps intro!: wp_mono [OF tail])
qed

section \<open>One stream\<close>

text \<open>The tokens \<open>base, base + 1, ...\<close> lie in the cells \<open>idxs\<close>; the other cells are as before.\<close>

definition placed :: "kv_cache \<Rightarrow> llama_ubatch \<Rightarrow> nat \<Rightarrow> nat list \<Rightarrow> kv_cells \<Rightarrow> kv_cells \<Rightarrow> bool" where
  "placed c ub base idxs cells d = (cells_wf d \<and> cells_size d = cells_size cells \<and>
     (\<forall>j. j \<notin> set idxs \<longrightarrow> cell_at d j = cell_at cells j) \<and>
     (\<forall>ii < length idxs. cell_at d (idxs ! ii) = token_cell c ub (base + ii) (cell_at cells (idxs ! ii))))"

text \<open>\<open>r s\<close> is the old value or the position of an overwritten cell of \<open>s\<close>.\<close>

definition noted :: "kv_cells \<Rightarrow> nat list \<Rightarrow> (llama_seq_id \<Rightarrow> llama_pos) \<Rightarrow> (llama_seq_id \<Rightarrow> llama_pos) \<Rightarrow> bool" where
  "noted cells idxs rmx r = (\<forall>s. r s = rmx s \<or>
     (\<exists>i \<in> set idxs. cl_pos (cell_at cells i) \<noteq> -1 \<and> s \<in> cl_seq (cell_at cells i) \<and> r s = cl_pos (cell_at cells i)))"

lemma noted_step:
  assumes "noted cells (take k idxs) rmx r" "k < length idxs"
  shows "noted cells (take (Suc k) idxs) rmx (note_overwritten (cell_at cells (idxs ! k)) r)"
proof -
  have "set (take (Suc k) idxs) = insert (idxs ! k) (set (take k idxs))"
    using assms(2) by (simp add: take_Suc_conv_app_nth)
  then show ?thesis using assms(1) by (auto simp: noted_def note_overwritten_def max_def)
qed

lemma place_list_wp:
  assumes c: "cells_wf cells" and d: "distinct idxs"
    and ix: "\<And>i. i \<in> set idxs \<Longrightarrow> i < cells_size cells \<and> overwritable (cell_at cells i)"
    and ub: "ubatch_ok ub" and n: "base + length idxs \<le> ub_n_tokens ub"
  shows "wp (foldM (\<lambda>ii x. do { idx \<leftarrow> vget idxs ii; place_token c ub (base + ii) idx x }) [0..<length idxs] (cells, rmx))
    (\<lambda>(e, r). placed c ub base idxs cells e \<and> noted cells idxs rmx r)"
proof -
  let ?n = "length idxs"
  let ?I = "\<lambda>k (e, r). cells_wf e \<and> cells_size e = cells_size cells \<and>
     (\<forall>j. j \<notin> set (take k idxs) \<longrightarrow> cell_at e j = cell_at cells j) \<and>
     (\<forall>ii < k. cell_at e (idxs ! ii) = token_cell c ub (base + ii) (cell_at cells (idxs ! ii))) \<and>
     noted cells (take k idxs) rmx r"
  have "wp (foldM (\<lambda>ii x. do { idx \<leftarrow> vget idxs ii; place_token c ub (base + ii) idx x }) [0..<?n] (cells, rmx)) (?I ?n)"
  proof (rule wp_for [where I = ?I])
    show "?I 0 (cells, rmx)" using c by (simp add: noted_def)
  next
    fix k x assume k: "k < ?n" and inv: "?I k x"
    obtain e r where x: "x = (e, r)" by (cases x)
    have neq: "ii < k \<Longrightarrow> idxs ! ii \<noteq> idxs ! k" for ii using d k by (simp add: nth_eq_iff_index_eq)
    have fresh: "idxs ! k \<notin> set (take k idxs)" using neq k by (auto simp: in_set_conv_nth)
    have at: "cell_at e (idxs ! k) = cell_at cells (idxs ! k)" using inv fresh by (simp add: x)
    have tk: "set (take (Suc k) idxs) = insert (idxs ! k) (set (take k idxs))"
      using k by (simp add: take_Suc_conv_app_nth)
    have "wp (place_token c ub (base + k) (idxs ! k) (e, r)) (\<lambda>(d, r'). cell_updated e (idxs ! k)
        (token_cell c ub (base + k) (cell_at e (idxs ! k))) d \<and> r' = note_overwritten (cell_at e (idxs ! k)) r)"
      by (rule place_token_wp) (use inv x ix [OF nth_mem [OF k]] ub n k at in auto)
    then show "wp (do { idx \<leftarrow> vget idxs k; place_token c ub (base + k) idx x }) (?I (Suc k))"
      unfolding x using k
      by (simp add: wp_simps)
        (erule wp_mono, use inv x neq at tk noted_step [of cells k idxs rmx r] k in \<open>auto simp: cell_updated_def less_Suc_eq\<close>)
  qed simp
  then show ?thesis by (rule wp_mono) (auto simp: placed_def)
qed

section \<open>The whole micro-batch\<close>

definition slot_ok :: "kv_cache \<Rightarrow> llama_ubatch \<Rightarrow> slot_info \<Rightarrow> nat \<Rightarrow> bool" where
  "slot_ok c ub si sz = (0 < sz \<and> si_strm si \<noteq> [] \<and> length (si_idxs si) = length (si_strm si) \<and> distinct (si_strm si) \<and>
     ub_n_tokens ub = length (si_strm si) * sz \<and>
     (\<forall>k < length (si_strm si). si_strm si ! k < kv_n_stream c \<and> length (si_idxs si ! k) = sz \<and> distinct (si_idxs si ! k) \<and>
        (\<forall>i \<in> set (si_idxs si ! k). i < kv_size c \<and> overwritable (cell_at (kv_vcells c ! (si_strm si ! k)) i))))"

lemma token_cell_cong:
  "kv_ple_n_heads c = kv_ple_n_heads d \<Longrightarrow> kv_ple_embd_token c = kv_ple_embd_token d \<Longrightarrow>
   token_cell c ub i x = token_cell d ub i x"
proof -
  assume a: "kv_ple_n_heads c = kv_ple_n_heads d" "kv_ple_embd_token c = kv_ple_embd_token d"
  have e: "token_ext c = token_ext d" by (intro ext) (unfold token_ext_def a, rule refl)
  have f: "stores_ext c ub = stores_ext d ub" by (simp add: stores_ext_def a)
  show ?thesis by (unfold token_cell_def e f, rule refl)
qed

lemma placed_cong:
  "kv_ple_n_heads c = kv_ple_n_heads d \<Longrightarrow> kv_ple_embd_token c = kv_ple_embd_token d \<Longrightarrow>
   placed c = placed d"
  by (simp add: placed_def fun_eq_iff token_cell_cong [of c d])

text \<open>All streams of the slot hold their tokens, the other streams are as before.\<close>

definition batch_placed :: "kv_cache \<Rightarrow> llama_ubatch \<Rightarrow> slot_info \<Rightarrow> nat \<Rightarrow> kv_cells list \<Rightarrow> bool" where
  "batch_placed c ub si sz vc = (length vc = kv_n_stream c \<and>
     (\<forall>k < length (si_strm si). placed c ub (k * sz) (si_idxs si ! k) (kv_vcells c ! (si_strm si ! k)) (vc ! (si_strm si ! k))) \<and>
     (\<forall>st < kv_n_stream c. st \<notin> set (si_strm si) \<longrightarrow> vc ! st = kv_vcells c ! st))"

definition batch_noted :: "kv_cache \<Rightarrow> slot_info \<Rightarrow> (llama_seq_id \<Rightarrow> llama_pos) \<Rightarrow> bool" where
  "batch_noted c si r = (\<forall>s. r s = -1 \<or> (\<exists>k < length (si_strm si). \<exists>i \<in> set (si_idxs si ! k).
     let x = cell_at (kv_vcells c ! (si_strm si ! k)) i in cl_pos x \<noteq> -1 \<and> s \<in> cl_seq x \<and> r s = cl_pos x))"

lemma place_streams_wp:
  assumes c: "kv_wf c" and ub: "ubatch_ok ub" and si: "slot_ok c ub si sz"
  shows "wp (foldM (place_stream ub si sz) [0..<slot_n_stream si] (c, \<lambda>_. -1)) (\<lambda>(d, r).
    d = c\<lparr>kv_vcells := kv_vcells d\<rparr> \<and> batch_placed c ub si sz (kv_vcells d) \<and> batch_noted c si r)"
proof -
  let ?n = "length (si_strm si)"
  note w = kv_wfD [OF c]
  let ?I = "\<lambda>k (d, r). d = c\<lparr>kv_vcells := kv_vcells d\<rparr> \<and> length (kv_vcells d) = kv_n_stream c \<and>
     (\<forall>k' < k. placed c ub (k' * sz) (si_idxs si ! k') (kv_vcells c ! (si_strm si ! k')) (kv_vcells d ! (si_strm si ! k'))) \<and>
     (\<forall>st < kv_n_stream c. st \<notin> set (take k (si_strm si)) \<longrightarrow> kv_vcells d ! st = kv_vcells c ! st) \<and> batch_noted c si r"
  have "wp (foldM (place_stream ub si sz) [0..<?n] (c, \<lambda>_. -1)) (?I ?n)"
  proof (rule wp_for [where I = ?I])
    show "?I 0 (c, \<lambda>_. -1)" using w(1) by (simp add: batch_noted_def)
  next
    fix k x assume k: "k < ?n" and inv: "?I k x"
    obtain d r where x: "x = (d, r)" by (cases x)
    let ?st = "si_strm si ! k" and ?idxs = "si_idxs si ! k"
    have dd: "c\<lparr>kv_vcells := kv_vcells d\<rparr> = d" using inv by (simp add: x)
    have dd2: "d\<lparr>kv_vcells := X\<rparr> = c\<lparr>kv_vcells := X\<rparr>" for X by (subst dd [symmetric]) simp
    have cfg: "kv_ple_n_heads d = kv_ple_n_heads c" "kv_ple_embd_token d = kv_ple_embd_token c"
      by (subst dd [symmetric], simp)+
    have sk: "?st < kv_n_stream c" "length ?idxs = sz" "distinct ?idxs"
      "\<And>i. i \<in> set ?idxs \<Longrightarrow> i < kv_size c \<and> overwritable (cell_at (kv_vcells c ! ?st) i)"
      using si k by (auto simp: slot_ok_def)
    have neq: "k' < k \<Longrightarrow> si_strm si ! k' \<noteq> ?st" for k'
      using si k by (simp add: slot_ok_def nth_eq_iff_index_eq)
    then have fresh: "?st \<notin> set (take k (si_strm si))" using k by (auto simp: in_set_conv_nth)
    have vc: "kv_vcells d ! ?st = kv_vcells c ! ?st" using inv fresh sk(1) by (simp add: x)
    have base: "k * sz + sz \<le> ub_n_tokens ub"
      using si k mult_le_mono1 [of "Suc k" ?n sz] by (simp add: slot_ok_def)
    have P: "wp (foldM (\<lambda>ii x. do { idx \<leftarrow> vget ?idxs ii; place_token d ub (k * sz + ii) idx x }) [0..<length ?idxs]
        (kv_vcells c ! ?st, r)) (\<lambda>(e, r'). placed d ub (k * sz) ?idxs (kv_vcells c ! ?st) e \<and>
          noted (kv_vcells c ! ?st) ?idxs r r')"
      by (rule place_list_wp) (use w(4,6) [OF sk(1)] sk ub base in auto)
    note P = P [unfolded sk(2)]
    have tk: "set (take (Suc k) (si_strm si)) = insert ?st (set (take k (si_strm si)))"
      using k by (simp add: take_Suc_conv_app_nth)
    have nt: "batch_noted c si r'" if "noted (kv_vcells c ! ?st) ?idxs r r'" for r'
      using that inv k by (simp add: x batch_noted_def noted_def Let_def) metis
    have idl: "k < length (si_idxs si)" using si k by (simp add: slot_ok_def)
    show "wp (place_stream ub si sz k x) (?I (Suc k))"
      unfolding x place_stream_def prod.case using k idl sk(1) inv
      by (simp add: wp_simps x vc)
        (rule wp_mono [OF P], use inv x tk nt sk(1) in
          \<open>auto simp: neq not_sym [OF neq] wp_simps dd2 placed_cong [OF cfg] less_Suc_eq nth_list_update\<close>)
  qed simp
  then show ?thesis unfolding slot_n_stream_def
    by (rule wp_mono) (auto simp: batch_placed_def)
qed

lemma token_cell_live: "ubatch_ok ub \<Longrightarrow> i < ub_n_tokens ub \<Longrightarrow> cell_live (token_cell c ub i x)"
  using ubatch_okD(6) [of ub i] by (simp add: cell_live_def token_cell_def Let_def)

lemma placed_live:
  assumes p: "placed c ub base idxs cells d" and l: "cells_live cells" and ub: "ubatch_ok ub"
    and n: "base + length idxs \<le> ub_n_tokens ub"
  shows "cells_live d"
  unfolding cells_live_def
proof (intro allI impI)
  fix j assume j: "j < cells_size d"
  show "cell_live (cell_at d j)"
  proof (cases "j \<in> set idxs")
    case True
    then obtain ii where "ii < length idxs" "idxs ! ii = j" unfolding in_set_conv_nth by blast
    then show ?thesis using p n token_cell_live [OF ub, of "base + ii"] by (auto simp: placed_def)
  next
    case False
    then show ?thesis using p l j by (auto simp: placed_def cells_live_def)
  qed
qed

lemma slot_base: "slot_ok c ub si sz \<Longrightarrow> k < length (si_strm si) \<Longrightarrow> k * sz + length (si_idxs si ! k) \<le> ub_n_tokens ub"
  using mult_le_mono1 [of "Suc k" "length (si_strm si)" sz] by (auto simp: slot_ok_def)

lemma batch_placed_wf:
  assumes c: "kv_wf c" and ub: "ubatch_ok ub" and si: "slot_ok c ub si sz" and b: "batch_placed c ub si sz vc"
  shows "kv_wf (c\<lparr>kv_vcells := vc\<rparr>)" "kv_size (c\<lparr>kv_vcells := vc\<rparr>) = kv_size c"
proof -
  note w = kv_wfD [OF c]
  have each: "cells_wf (vc ! st) \<and> cells_live (vc ! st) \<and> cells_size (vc ! st) = kv_size c" if st: "st < kv_n_stream c" for st
  proof (cases "st \<in> set (si_strm si)")
    case True
    then obtain k where k: "k < length (si_strm si)" "si_strm si ! k = st" unfolding in_set_conv_nth by blast
    have p: "placed c ub (k * sz) (si_idxs si ! k) (kv_vcells c ! st) (vc ! st)" using b k by (auto simp: batch_placed_def)
    then show ?thesis
      using placed_live [OF p w(5) [OF st] ub slot_base [OF si k(1)]] w(6) [OF st] by (simp add: placed_def)
  next
    case False
    then show ?thesis using b st w(4-6) by (simp add: batch_placed_def)
  qed
  show size: "kv_size (c\<lparr>kv_vcells := vc\<rparr>) = kv_size c" using each [OF w(3)] by (simp add: kv_size_def)
  show "kv_wf (c\<lparr>kv_vcells := vc\<rparr>)"
    unfolding kv_wf_def size using each w b by (simp add: batch_placed_def)
qed

text \<open>Purging keeps the invariant; when nothing was overwritten it does nothing.\<close>

definition same_config :: "kv_cache \<Rightarrow> kv_cache \<Rightarrow> bool" where
  "same_config c d = (d = c\<lparr>kv_vcells := kv_vcells d, kv_heads := kv_heads d\<rparr> \<and> kv_size d = kv_size c)"

lemma same_configD:
  assumes "same_config c d"
  shows "kv_n_stream d = kv_n_stream c" "kv_s2s d = kv_s2s c" "kv_size d = kv_size c" "kv_other d = kv_other c"
    "kv_has_seq d = kv_has_seq c"
proof -
  have d: "c\<lparr>kv_vcells := kv_vcells d, kv_heads := kv_heads d\<rparr> = d" using assms by (simp add: same_config_def)
  show s: "kv_s2s d = kv_s2s c" by (subst d [symmetric]) simp
  show "kv_n_stream d = kv_n_stream c" by (subst d [symmetric]) simp
  show "kv_other d = kv_other c" by (subst d [symmetric]) simp
  show "kv_size d = kv_size c" using assms by (simp add: same_config_def)
  show "kv_has_seq d = kv_has_seq c" by (simp add: fun_eq_iff kv_has_seq_def s)
qed

lemma same_config_trans: "same_config c d \<Longrightarrow> same_config d e \<Longrightarrow> same_config c e"
proof -
  assume a: "same_config c d" "same_config d e"
  have d: "c\<lparr>kv_vcells := kv_vcells d, kv_heads := kv_heads d\<rparr> = d" using a by (simp add: same_config_def)
  have "e = d\<lparr>kv_vcells := kv_vcells e, kv_heads := kv_heads e\<rparr>" using a by (simp add: same_config_def)
  then have "e = (c\<lparr>kv_vcells := kv_vcells d, kv_heads := kv_heads d\<rparr>)\<lparr>kv_vcells := kv_vcells e, kv_heads := kv_heads e\<rparr>"
    unfolding d .
  then show ?thesis using a by (simp add: same_config_def)
qed

lemma same_config_refl [simp]: "same_config c c"
  by (simp add: same_config_def)

lemma kv_mapped_config: "kv_mapped c F d \<Longrightarrow> kv_wf d \<and> same_config c d"
  by (simp add: kv_mapped_def same_config_def)

lemma purge_seq_wp:
  assumes c: "kv_wf c" and o: "kv_other c = None" and s: "rmx s \<noteq> -1 \<Longrightarrow> kv_has_seq c s \<and> 0 \<le> rmx s \<and> rmx s < INT32_MAX"
  shows "wp (purge_seq rmx s c) (\<lambda>d. kv_wf d \<and> same_config c d)"
proof (cases "rmx s = -1")
  case False
  note s = s [OF False]
  let ?st = "kv_stream c s"
  have st: "?st < kv_n_stream c" using kv_stream_lt [OF c] s by simp
  have v: "vget (kv_vcells c) ?st = Some (kv_vcells c ! ?st)" using kv_wfD(1) [OF c] st by simp
  obtain mn where mn: "cells_seq_pos_min (kv_vcells c ! ?st) s = Some mn"
    using seq_pos_min_eq [OF kv_wfD(4) [OF c st]] kv_has_seq_id [OF c] s by auto
  have hi: "i32 (rmx s + 1) = Some (rmx s + 1)" using s by (simp add: i32_def in_i32_def INT32_MAX_def)
  have "wp (map_option snd (kv_seq_rm s mn (rmx s + 1) c)) (\<lambda>d. kv_wf d \<and> same_config c d)"
    unfolding wp_map_option
    by (rule wp_mono [OF kv_seq_rm_wp [OF c o]]) (use s in \<open>auto dest: kv_mapped_config\<close>)
  then show ?thesis using False s c
    by (simp add: purge_seq_def stream_of_eq v mn hi wp_simps)
qed (use c in \<open>simp add: purge_seq_def\<close>)

lemma purge_all_wp:
  assumes c: "kv_wf c" and o: "kv_other c = None"
    and s: "\<And>s. rmx s \<noteq> -1 \<Longrightarrow> kv_has_seq c s \<and> 0 \<le> rmx s \<and> rmx s < INT32_MAX"
  shows "wp (foldM (purge_seq rmx) ss c) (\<lambda>d. kv_wf d \<and> same_config c d)"
  using c o s
proof (induction ss arbitrary: c)
  case (Cons x ss)
  have "wp (purge_seq rmx x c) (\<lambda>d. wp (foldM (purge_seq rmx) ss d) (\<lambda>e. kv_wf e \<and> same_config c e))"
  proof (rule wp_mono [OF purge_seq_wp [OF Cons.prems]])
    fix d assume d: "kv_wf d \<and> same_config c d"
    have "wp (foldM (purge_seq rmx) ss d) (\<lambda>e. kv_wf e \<and> same_config d e)"
      by (rule Cons.IH) (use d Cons.prems same_configD in auto)
    then show "wp (foldM (purge_seq rmx) ss d) (\<lambda>e. kv_wf e \<and> same_config c e)"
      by (rule wp_mono) (use d in \<open>auto intro: same_config_trans\<close>)
  qed
  then show ?case by (simp add: wp_simps)
qed simp

lemma purge_none: "foldM (purge_seq (\<lambda>_. -1)) ss c = Some c"
  by (induction ss) (simp_all add: purge_seq_def)

lemma kv_wf_heads:
  assumes c: "kv_wf c" and h: "length hs = length (kv_heads c)" "\<And>st. st < kv_n_stream c \<Longrightarrow> hs ! st \<le> kv_size c"
  shows "kv_wf (c\<lparr>kv_heads := hs\<rparr>)"
proof -
  have "kv_size (c\<lparr>kv_heads := hs\<rparr>) = kv_size c" by (simp add: kv_size_def)
  then show ?thesis using kv_wfD [OF c] h unfolding kv_wf_def by simp
qed

definition heads_moved :: "slot_info \<Rightarrow> nat list \<Rightarrow> nat list \<Rightarrow> bool" where
  "heads_moved si hs hs' = (length hs' = length hs \<and> (\<forall>k < length (si_strm si). hs' ! (si_strm si ! k) = last (si_idxs si ! k) + 1) \<and>
     (\<forall>st. st \<notin> set (si_strm si) \<longrightarrow> hs' ! st = hs ! st))"

lemma move_heads_wp:
  assumes c: "kv_wf c" and si: "slot_ok c0 ub si sz" and n: "kv_n_stream c0 = kv_n_stream c" "kv_size c0 = kv_size c"
  shows "wp (foldM (move_head si) [0..<slot_n_stream si] c) (\<lambda>d. kv_wf d \<and> d = c\<lparr>kv_heads := kv_heads d\<rparr> \<and>
    heads_moved si (kv_heads c) (kv_heads d))"
proof -
  let ?n = "length (si_strm si)"
  let ?I = "\<lambda>k d. kv_wf d \<and> d = c\<lparr>kv_heads := kv_heads d\<rparr> \<and> length (kv_heads d) = length (kv_heads c) \<and>
     (\<forall>k' < k. kv_heads d ! (si_strm si ! k') = last (si_idxs si ! k') + 1) \<and>
     (\<forall>st. st \<notin> set (take k (si_strm si)) \<longrightarrow> kv_heads d ! st = kv_heads c ! st)"
  have "wp (foldM (move_head si) [0..<?n] c) (?I ?n)"
  proof (rule wp_for [where I = ?I])
    show "?I 0 c" using c by simp
  next
    fix k d assume k: "k < ?n" and inv: "?I k d"
    let ?st = "si_strm si ! k" and ?idxs = "si_idxs si ! k"
    have dd: "c\<lparr>kv_heads := kv_heads d\<rparr> = d" using inv by simp
    have cfg: "kv_n_stream d = kv_n_stream c" "kv_size d = kv_size c"
      by (subst dd [symmetric], simp add: kv_size_def)+
    have sk: "?st < kv_n_stream c" "?idxs \<noteq> []" "last ?idxs < kv_size c" "k < length (si_idxs si)"
      using si k n last_in_set [of ?idxs] by (auto simp: slot_ok_def)
    have neq: "k' < k \<Longrightarrow> si_strm si ! k' \<noteq> ?st" for k'
      using si k by (simp add: slot_ok_def nth_eq_iff_index_eq)
    have tk: "set (take (Suc k) (si_strm si)) = insert ?st (set (take k (si_strm si)))"
      using k by (simp add: take_Suc_conv_app_nth)
    let ?hs = "(kv_heads d)[?st := last ?idxs + 1]"
    have "kv_wf (d\<lparr>kv_heads := ?hs\<rparr>)"
      by (rule kv_wf_heads) (use inv kv_wfD(2,7) [of d] cfg sk in \<open>auto simp: nth_list_update\<close>)
    moreover have "d\<lparr>kv_heads := ?hs\<rparr> = c\<lparr>kv_heads := ?hs\<rparr>" by (subst dd [symmetric]) simp
    moreover have "?st < length (kv_heads d)" using inv sk(1) kv_wfD(2) [OF c] by simp
    ultimately show "wp (move_head si k d) (?I (Suc k))"
      using k sk inv tk by (auto simp: neq not_sym [OF neq] move_head_def wp_simps less_Suc_eq nth_list_update)
  qed simp
  then show ?thesis unfolding slot_n_stream_def
    by (rule wp_mono) (auto simp: heads_moved_def)
qed

lemma batch_noted_ok:
  assumes c: "kv_ready c" and si: "slot_ok c ub si sz" and n: "batch_noted c si r" and s: "r s \<noteq> -1"
  shows "kv_has_seq c s \<and> 0 \<le> r s \<and> r s < INT32_MAX"
proof -
  obtain k i where k: "k < length (si_strm si)" "i \<in> set (si_idxs si ! k)" and
    x: "cl_pos (cell_at (kv_vcells c ! (si_strm si ! k)) i) \<noteq> -1" "s \<in> cl_seq (cell_at (kv_vcells c ! (si_strm si ! k)) i)"
      "r s = cl_pos (cell_at (kv_vcells c ! (si_strm si ! k)) i)"
    using n s by (auto simp: batch_noted_def Let_def)
  let ?st = "si_strm si ! k"
  have st: "?st < kv_n_stream c" and i: "i < kv_size c" using si k by (auto simp: slot_ok_def)
  have w: "kv_wf c" using c by (simp add: kv_ready_def)
  have "kv_has_seq c s" using c st i x(2) by (auto simp: kv_ready_def)
  moreover have "r s < INT32_MAX"
    using c st i x(3) kv_wfD(6) [OF w st] by (auto simp: kv_ready_def pos_bounded_def cell_at_def)
  moreover have "0 \<le> r s" using kv_wf_cell_ok [OF w st i] x by (simp add: cell_ok_def)
  ultimately show ?thesis by simp
qed

lemma apply_ubatch_split:
  assumes c: "kv_wf c" and o: "kv_other c = None" and ub: "ubatch_ok ub" and si: "slot_ok c ub si sz"
  shows "\<exists>vc r. apply_ubatch si ub c = Option.bind (foldM (purge_seq r) [0..255] (c\<lparr>kv_vcells := vc\<rparr>))
      (foldM (move_head si) [0..<slot_n_stream si]) \<and> batch_placed c ub si sz vc \<and> batch_noted c si r"
proof -
  have ne: "si_idxs si \<noteq> []" using si by (auto simp: slot_ok_def)
  have sz: "slot_size si = Some sz" "ub_n_tokens ub = slot_n_stream si * sz"
    using si by (auto simp: slot_ok_def slot_size_def slot_n_stream_def hd_conv_nth [OF ne] ne)
  obtain d r where dr: "foldM (place_stream ub si sz) [0..<slot_n_stream si] (c, \<lambda>_. -1) = Some (d, r)"
    "d = c\<lparr>kv_vcells := kv_vcells d\<rparr>" "batch_placed c ub si sz (kv_vcells d)" "batch_noted c si r"
    using place_streams_wp [OF c ub si] by (auto simp: wp_def)
  have "apply_ubatch si ub c = Option.bind (foldM (purge_seq r) [0..255] d) (foldM (move_head si) [0..<slot_n_stream si])"
    using o sz dr(1) by (simp add: apply_ubatch_def apply_ubatch_owned_def)
  then show ?thesis using dr(2-4) by metis
qed

lemma apply_ubatch_wp:
  assumes c: "kv_ready c" and o: "kv_other c = None" and ub: "ubatch_ok ub" and si: "slot_ok c ub si sz"
  shows "wp (apply_ubatch si ub c) (\<lambda>d. kv_wf d \<and> same_config c d \<and>
    (\<forall>k < length (si_strm si). kv_heads d ! (si_strm si ! k) = last (si_idxs si ! k) + 1))"
proof -
  have w: "kv_wf c" using c by (simp add: kv_ready_def)
  obtain vc r where v: "apply_ubatch si ub c = Option.bind (foldM (purge_seq r) [0..255] (c\<lparr>kv_vcells := vc\<rparr>))
      (foldM (move_head si) [0..<slot_n_stream si])" "batch_placed c ub si sz vc" "batch_noted c si r"
    using apply_ubatch_split [OF w o ub si] by blast
  let ?c1 = "c\<lparr>kv_vcells := vc\<rparr>"
  note p = batch_placed_wf [OF w ub si v(2)]
  have c1: "same_config c ?c1" using p(2) by (simp add: same_config_def)
  have "wp (foldM (purge_seq r) [0..255] ?c1) (\<lambda>d. kv_wf d \<and> same_config ?c1 d)"
    by (rule purge_all_wp [OF p(1)])
      (use o batch_noted_ok [OF c si v(3)] same_configD(5) [OF c1] in auto)
  then show ?thesis unfolding v(1) wp_bind
  proof (rule wp_mono)
    fix d assume d: "kv_wf d \<and> same_config ?c1 d"
    have cd: "same_config c d" using c1 d by (auto intro: same_config_trans)
    have "wp (foldM (move_head si) [0..<slot_n_stream si] d) (\<lambda>e. kv_wf e \<and> e = d\<lparr>kv_heads := kv_heads e\<rparr> \<and>
        heads_moved si (kv_heads d) (kv_heads e))"
      by (rule move_heads_wp [OF _ si]) (use d same_configD [OF cd] in auto)
    then show "wp (foldM (move_head si) [0..<slot_n_stream si] d) (\<lambda>d. kv_wf d \<and> same_config c d \<and>
      (\<forall>k < length (si_strm si). kv_heads d ! (si_strm si ! k) = last (si_idxs si ! k) + 1))"
    proof (rule wp_mono)
      fix e assume e: "kv_wf e \<and> e = d\<lparr>kv_heads := kv_heads e\<rparr> \<and> heads_moved si (kv_heads d) (kv_heads e)"
      then have ed: "d\<lparr>kv_heads := kv_heads e\<rparr> = e" by simp
      have "same_config d e" by (subst ed [symmetric]) (simp add: same_config_def kv_size_def)
      then show "kv_wf e \<and> same_config c e \<and> (\<forall>k < length (si_strm si). kv_heads e ! (si_strm si ! k) = last (si_idxs si ! k) + 1)"
        using e cd by (auto intro: same_config_trans simp: heads_moved_def)
    qed
  qed
qed

text \<open>Nothing is overwritten when all cells of the slot are free.\<close>

definition slot_free :: "kv_cache \<Rightarrow> slot_info \<Rightarrow> bool" where
  "slot_free c si = (\<forall>k < length (si_strm si). \<forall>i \<in> set (si_idxs si ! k).
     cl_pos (cell_at (kv_vcells c ! (si_strm si ! k)) i) = -1)"

lemma apply_ubatch_free_wp:
  assumes c: "kv_wf c" and o: "kv_other c = None" and ub: "ubatch_ok ub" and si: "slot_ok c ub si sz" and f: "slot_free c si"
  shows "wp (apply_ubatch si ub c) (\<lambda>d. kv_wf d \<and> same_config c d \<and> batch_placed c ub si sz (kv_vcells d) \<and>
    heads_moved si (kv_heads c) (kv_heads d))"
proof -
  obtain vc r where v: "apply_ubatch si ub c = Option.bind (foldM (purge_seq r) [0..255] (c\<lparr>kv_vcells := vc\<rparr>))
      (foldM (move_head si) [0..<slot_n_stream si])" "batch_placed c ub si sz vc" "batch_noted c si r"
    using apply_ubatch_split [OF c o ub si] by blast
  have "r = (\<lambda>_. -1)" using v(3) f by (auto simp: batch_noted_def slot_free_def Let_def fun_eq_iff)
  then have ap: "apply_ubatch si ub c = foldM (move_head si) [0..<slot_n_stream si] (c\<lparr>kv_vcells := vc\<rparr>)"
    using v(1) by (simp add: purge_none)
  note p = batch_placed_wf [OF c ub si v(2)]
  have "wp (apply_ubatch si ub c) (\<lambda>e. kv_wf e \<and> e = (c\<lparr>kv_vcells := vc\<rparr>)\<lparr>kv_heads := kv_heads e\<rparr> \<and>
      heads_moved si (kv_heads (c\<lparr>kv_vcells := vc\<rparr>)) (kv_heads e))"
    unfolding ap by (rule move_heads_wp [OF p(1) si]) (use p(2) in auto)
  then show ?thesis
  proof (rule wp_mono)
    fix e assume e: "kv_wf e \<and> e = (c\<lparr>kv_vcells := vc\<rparr>)\<lparr>kv_heads := kv_heads e\<rparr> \<and>
      heads_moved si (kv_heads (c\<lparr>kv_vcells := vc\<rparr>)) (kv_heads e)"
    then have ee: "(c\<lparr>kv_vcells := vc\<rparr>)\<lparr>kv_heads := kv_heads e\<rparr> = e" by simp
    have vce: "kv_vcells e = vc" by (subst ee [symmetric]) simp
    have "same_config c e"
      by (subst ee [symmetric]) (use p(2) in \<open>simp add: same_config_def kv_size_def\<close>)
    then show "kv_wf e \<and> same_config c e \<and> batch_placed c ub si sz (kv_vcells e) \<and> heads_moved si (kv_heads c) (kv_heads e)"
      using e v(2) vce by simp
  qed
qed

section \<open>The slot of \<open>find_slot\<close> is one \<open>apply_ubatch\<close> accepts\<close>

lemma usable_overwritable: "usable c cells i \<Longrightarrow> overwritable (cell_at cells i)"
  by (auto simp: usable_def overwritable_def Let_def)

lemma usable_free: "kv_swa_type c = SWA_NONE \<Longrightarrow> usable c cells i \<longleftrightarrow> cl_pos (cell_at cells i) = -1"
  by (simp add: usable_def swa_masked_def Let_def)

lemma slot_streams_ok:
  assumes c: "kv_ready c" and ub: "ub_fits c ub"
  shows "distinct (slot_streams c ub)" "slot_streams c ub \<noteq> []" "length (slot_streams c ub) = n_slot_seqs c ub"
    "\<And>st. st \<in> set (slot_streams c ub) \<Longrightarrow> st < kv_n_stream c"
proof -
  have w: "kv_wf c" using c by (simp add: kv_ready_def)
  have n: "0 < n_slot_seqs c ub" "n_slot_seqs c ub \<le> length (ub_seq_id_unq ub)"
    using ub by (auto simp: ub_fits_def n_slot_seqs_def)
  show "slot_streams c ub \<noteq> []" "length (slot_streams c ub) = n_slot_seqs c ub" using n by (simp_all add: slot_streams_def)
  have known: "kv_has_seq c (ub_seq_id_unq ub ! s)" if "s < n_slot_seqs c ub" for s
    using ub that n(2) nth_mem [of s "ub_seq_id_unq ub"] by (auto simp: ub_fits_def)
  then show "\<And>st. st \<in> set (slot_streams c ub) \<Longrightarrow> st < kv_n_stream c"
    using kv_stream_lt [OF w] by (auto simp: slot_streams_def)
  show "distinct (slot_streams c ub)"
  proof (cases "1 < kv_n_stream c")
    case False
    then have "n_slot_seqs c ub = 1" by (simp add: n_slot_seqs_def)
    then show ?thesis by (simp add: slot_streams_def)
  next
    case True
    then have ds: "distinct (kv_s2s c)" using c by (simp add: kv_ready_def)
    have "kv_stream c (ub_seq_id_unq ub ! s) \<noteq> kv_stream c (ub_seq_id_unq ub ! t)"
      if "s < n_slot_seqs c ub" "t < n_slot_seqs c ub" "s \<noteq> t" for s t
    proof -
      have "ub_seq_id_unq ub ! s \<noteq> ub_seq_id_unq ub ! t"
        using ub that n(2) by (simp add: ub_fits_def nth_eq_iff_index_eq)
      then have "nat (ub_seq_id_unq ub ! s) \<noteq> nat (ub_seq_id_unq ub ! t)"
        using known [OF that(1)] known [OF that(2)] by (auto simp: kv_has_seq_def)
      then show ?thesis using known [OF that(1)] known [OF that(2)] ds
        by (simp add: kv_stream_def kv_has_seq_def nth_eq_iff_index_eq)
    qed
    then show ?thesis by (auto simp: slot_streams_def distinct_conv_nth)
  qed
qed

lemma find_slot_ok:
  assumes c: "kv_ready c" and ub: "ub_fits c ub" and r: "slot_of_fit c ub r" and ne: "\<not> slot_empty r"
  shows "slot_ok c ub r (slot_tokens c ub)"
    "kv_swa_type c = SWA_NONE \<Longrightarrow> slot_free c r"
proof -
  let ?m = "slot_tokens c ub"
  note ss = slot_streams_ok [OF c ub]
  have all: "\<forall>st \<in> set (slot_streams c ub). ?m \<le> length (fit c ?m st)"
    using r ne by (auto simp: slot_of_fit_def slot_none_def slot_empty_def Let_def split: if_splits)
  then have rr: "si_strm r = slot_streams c ub" "si_idxs r = map (\<lambda>st. take ?m (fit c ?m st)) (slot_streams c ub)"
    using r by (auto simp: slot_of_fit_def Let_def)
  have m: "ub_n_tokens ub = n_slot_seqs c ub * ?m" "0 < ?m"
    using ub by (auto simp: slot_tokens_def n_slot_seqs_def ub_fits_def div_greater_zero_iff
        dest: mod_eq_self_iff_div_eq_0 [THEN iffD2] split: if_splits)
  have each: "length (take ?m (fit c ?m st)) = ?m \<and> distinct (take ?m (fit c ?m st)) \<and>
      (\<forall>i \<in> set (take ?m (fit c ?m st)). i < kv_size c \<and> usable c (kv_vcells c ! st) i)"
    if "st \<in> set (slot_streams c ub)" for st
    using all that fit_props [OF c ss(4) [OF that], of ?m] by (auto dest: in_set_takeD)
  have at: "length (si_idxs r ! k) = ?m \<and> distinct (si_idxs r ! k) \<and> si_strm r ! k < kv_n_stream c \<and>
      (\<forall>i \<in> set (si_idxs r ! k). i < kv_size c \<and> usable c (kv_vcells c ! (si_strm r ! k)) i)"
    if "k < length (si_strm r)" for k
    using each [OF nth_mem [OF that [unfolded rr]]] ss(4) [OF nth_mem [OF that [unfolded rr]]] that
    unfolding rr by simp
  show "slot_ok c ub r ?m"
    unfolding slot_ok_def using at ss m rr by (auto simp del: length_take intro!: usable_overwritable)
  show "slot_free c r" if "kv_swa_type c = SWA_NONE"
    unfolding slot_free_def using at usable_free [OF that] by blast
qed

section \<open>Trial placement and recovery\<close>

text \<open>Same cells, whatever the index vectors look like.\<close>

definition same_cells :: "kv_cache \<Rightarrow> kv_cache \<Rightarrow> bool" where
  "same_cells c d = (kv_wf d \<and> same_config c d \<and>
     (\<forall>st < kv_n_stream c. \<forall>i < kv_size c. cell_at (kv_vcells d ! st) i = cell_at (kv_vcells c ! st) i))"

definition unshifted :: "kv_cache \<Rightarrow> bool" where
  "unshifted c = (\<forall>st < kv_n_stream c. \<forall>i < kv_size c. cl_shift (cell_at (kv_vcells c ! st) i) = 0)"

lemma wp_mapM:
  assumes "\<And>x. x \<in> set xs \<Longrightarrow> wp (f x) (Q x)"
  shows "wp (mapM f xs) (\<lambda>ys. length ys = length xs \<and> (\<forall>k < length xs. Q (xs ! k) (ys ! k)))"
  using assms
proof (induction xs)
  case (Cons x xs)
  obtain y where y: "f x = Some y" "Q x y" using Cons.prems [of x] by (auto simp: wp_def)
  obtain ys where ys: "mapM f xs = Some ys" "length ys = length xs" "\<forall>k < length xs. Q (xs ! k) (ys ! k)"
    using Cons.IH Cons.prems by (auto simp: wp_def)
  have "\<forall>k < length (x # xs). Q ((x # xs) ! k) ((y # ys) ! k)"
    using y ys by (auto simp: nth_Cons split: nat.splits)
  then show ?case using y ys by simp
qed simp

text \<open>What the recovery stack holds for a slot found in state \<open>c\<close>.\<close>

definition saved_of :: "kv_cache \<Rightarrow> prep_state \<Rightarrow> bool" where
  "saved_of c ps = (let si = ps_sinfo ps in ps_heads_old ps = kv_heads c \<and> length (ps_cells ps) = length (si_strm si) \<and>
     (\<forall>k < length (si_strm si). cells_data_ok (ps_cells ps ! k) \<and> cells_size (ps_cells ps ! k) = length (si_idxs si ! k) \<and>
        (\<forall>j < length (si_idxs si ! k). cell_at (ps_cells ps ! k) j = cell_at (kv_vcells c ! (si_strm si ! k)) (si_idxs si ! k ! j))))"

lemma save_cells_wp:
  assumes c: "kv_wf c" and si: "slot_ok c ub si sz" and u: "unshifted c"
  shows "wp (save_cells si c) (\<lambda>bs. saved_of c \<lparr>ps_sinfo = si, ps_heads_old = kv_heads c, ps_cells = bs\<rparr>)"
proof -
  let ?Q = "\<lambda>k b. cells_data_ok b \<and> cells_size b = length (si_idxs si ! k) \<and>
        (\<forall>j < length (si_idxs si ! k). cell_at b j = cell_at (kv_vcells c ! (si_strm si ! k)) (si_idxs si ! k ! j))"
  have "wp (save_cells si c) (\<lambda>ys. length ys = length [0..<slot_n_stream si] \<and>
      (\<forall>k < length [0..<slot_n_stream si]. ?Q ([0..<slot_n_stream si] ! k) (ys ! k)))"
    unfolding save_cells_def
  proof (rule wp_mapM)
    fix k assume "k \<in> set [0..<slot_n_stream si]"
    then have k: "k < length (si_strm si)" by (simp add: slot_n_stream_def)
    let ?st = "si_strm si ! k"
    have sk: "?st < kv_n_stream c" "k < length (si_idxs si)" "\<And>i. i \<in> set (si_idxs si ! k) \<Longrightarrow> i < kv_size c"
      using si k by (auto simp: slot_ok_def)
    have "wp (cells_cp (si_idxs si ! k) (kv_vcells c ! ?st)) (?Q k)"
      by (rule wp_mono [OF cells_cp_wp [OF kv_wfD(4) [OF c sk(1)]]])
        (use sk u kv_wfD(6) [OF c sk(1)] nth_mem in \<open>fastforce simp: unshifted_def cell_at_def\<close>)+
    then show "wp (do { st \<leftarrow> vget (si_strm si) k; idxs \<leftarrow> vget (si_idxs si) k; cells \<leftarrow> vget (kv_vcells c) st;
        cells_cp idxs cells }) (?Q k)"
      using k sk kv_wfD(1) [OF c] by (simp add: wp_simps)
  qed
  then show ?thesis
    by (rule wp_mono) (simp add: saved_of_def Let_def slot_n_stream_def)
qed

end
