(* ===== verification/KvPrepare.thy ===== *)
theory KvPrepare
  imports KvApply
begin

text \<open>
  \<open>prepare\<close>: every micro-batch is placed for trial and the placements are undone in reverse order.
\<close>

section \<open>Undoing one placement\<close>

lemma put_stream_wp:
  assumes c: "kv_wf c" and st: "st < kv_n_stream c" and cells: "cells_wf cells" "cells_size cells = kv_size c" "cells_live cells"
    and h: "h \<le> kv_size c"
  shows "wp (put_stream st cells h c) (\<lambda>d. kv_wf d \<and> same_config c d \<and>
    kv_vcells d = (kv_vcells c)[st := cells] \<and> kv_heads d = (kv_heads c)[st := h])"
proof -
  note w = kv_wfD [OF c]
  let ?d = "c\<lparr>kv_vcells := (kv_vcells c)[st := cells], kv_heads := (kv_heads c)[st := h]\<rparr>"
  have size: "kv_size ?d = kv_size c" using cells(2) w(1,3) by (cases "st = 0") (simp_all add: kv_size_def)
  have "\<forall>k < kv_n_stream c. cells_wf (kv_vcells ?d ! k) \<and> cells_live (kv_vcells ?d ! k) \<and>
      cells_size (kv_vcells ?d ! k) = kv_size c \<and> kv_heads ?d ! k \<le> kv_size c"
    using w(1,2,4-7) cells h st by (auto simp: nth_list_update)
  then have "kv_wf ?d" using w unfolding kv_wf_def size by simp
  then show ?thesis using w(1,2) st size by (simp add: put_stream_def wp_simps same_config_def)
qed

lemma cells_live_cong:
  assumes "\<And>i. i < cells_size c \<Longrightarrow> cell_at d i = cell_at c i" "cells_size d = cells_size c" "cells_live c"
  shows "cells_live d"
  using assms by (simp add: cells_live_def)

lemma same_cells_trans: "same_cells c d \<Longrightarrow> same_cells d e \<Longrightarrow> same_cells c e"
  using same_configD(1,3) [of c d] by (auto simp: same_cells_def intro: same_config_trans)

lemma same_cells_unshifted: "same_cells c d \<Longrightarrow> unshifted c \<Longrightarrow> unshifted d"
  using same_configD(1,3) [of c d] by (auto simp: same_cells_def unshifted_def)

text \<open>The cells of one stream of the slot, before the placement and after it is undone.\<close>

lemma set_back_wp:
  assumes d: "cells_wf cells'" "cells_size cells' = cells_size cells" and di: "distinct idxs"
    and b: "cells_data_ok b" "cells_size b = length idxs"
    and bat: "\<And>j. j < length idxs \<Longrightarrow> cell_at b j = cell_at cells (idxs ! j)"
    and ix: "\<And>i. i \<in> set idxs \<Longrightarrow> i < cells_size cells"
    and out: "\<And>i. i < cells_size cells \<Longrightarrow> i \<notin> set idxs \<Longrightarrow> cell_at cells' i = cell_at cells i"
    and u: "\<And>i. i < cells_size cells \<Longrightarrow> cl_shift (cell_at cells i) = 0" "\<And>i. i < cells_size cells \<Longrightarrow> cl_shift (cell_at cells' i) = 0"
  shows "wp (cells_set idxs b cells') (\<lambda>e. cells_wf e \<and> cells_size e = cells_size cells \<and>
    (\<forall>i < cells_size cells. cell_at e i = cell_at cells i))"
proof (rule wp_mono [OF cells_set_wp [OF d(1) b di]])
  fix j assume j: "j < length idxs"
  then have "idxs ! j < cells_size cells" using ix by simp
  then show "idxs ! j < cells_size cells' \<and> kc_shift cells' ! (idxs ! j) = 0"
    using d(2) u(2) by (simp add: cell_at_def)
next
  fix e assume e: "cells_wf e \<and> cells_size e = cells_size cells' \<and>
    kc_has_shift e = kc_has_shift cells' \<and> (\<forall>i. i \<notin> set idxs \<longrightarrow> cell_at e i = cell_at cells' i) \<and>
    (\<forall>j < length idxs. cell_at e (idxs ! j) = (cell_at b j)\<lparr>cl_shift := 0\<rparr>)"
  have "cell_at e i = cell_at cells i" if i: "i < cells_size cells" for i
  proof (cases "i \<in> set idxs")
    case True
    then obtain j where j: "j < length idxs" "idxs ! j = i" unfolding in_set_conv_nth by blast
    then show ?thesis using e bat [OF j(1)] u(1) [OF i] by (auto intro: kv_cell.equality)
  qed (use e out i in auto)
  then show "cells_wf e \<and> cells_size e = cells_size cells \<and> (\<forall>i < cells_size cells. cell_at e i = cell_at cells i)"
    using e d(2) by simp
qed

definition heads_back :: "prep_state \<Rightarrow> nat list \<Rightarrow> nat list \<Rightarrow> bool" where
  "heads_back ps hs hs' = (let strm = si_strm (ps_sinfo ps) in length hs' = length hs \<and>
     (\<forall>k < length strm. hs' ! (strm ! k) = ps_heads_old ps ! k) \<and> (\<forall>st. st \<notin> set strm \<longrightarrow> hs' ! st = hs ! st))"

lemma restore_one_wp:
  assumes c: "kv_wf c" and si: "slot_ok c ub (ps_sinfo ps) sz" and u: "unshifted c"
    and s: "saved_of c ps" and cfg: "same_config c d" and d: "kv_wf d" "unshifted d"
    and out: "\<And>st i. st < kv_n_stream c \<Longrightarrow> i < kv_size c \<Longrightarrow>
        (\<And>k. k < length (si_strm (ps_sinfo ps)) \<Longrightarrow> st = si_strm (ps_sinfo ps) ! k \<Longrightarrow> i \<notin> set (si_idxs (ps_sinfo ps) ! k)) \<Longrightarrow>
        cell_at (kv_vcells d ! st) i = cell_at (kv_vcells c ! st) i"
  shows "wp (restore_one ps d) (\<lambda>e. same_cells c e \<and> heads_back ps (kv_heads d) (kv_heads e))"
proof -
  let ?si = "ps_sinfo ps"
  let ?n = "length (si_strm ?si)"
  note cw = kv_wfD [OF c] and dn = same_configD [OF cfg]
  let ?I = "\<lambda>k e. kv_wf e \<and> same_config c e \<and> length (kv_heads e) = length (kv_heads d) \<and>
     (\<forall>st < kv_n_stream c. st \<notin> set (take k (si_strm ?si)) \<longrightarrow> kv_vcells e ! st = kv_vcells d ! st) \<and>
     (\<forall>k' < k. \<forall>i < kv_size c. cell_at (kv_vcells e ! (si_strm ?si ! k')) i = cell_at (kv_vcells c ! (si_strm ?si ! k')) i) \<and>
     (\<forall>k' < k. kv_heads e ! (si_strm ?si ! k') = ps_heads_old ps ! k') \<and>
     (\<forall>st. st \<notin> set (take k (si_strm ?si)) \<longrightarrow> kv_heads e ! st = kv_heads d ! st)"
  let ?f = "\<lambda>s c. do {
     st \<leftarrow> vget (si_strm (ps_sinfo ps)) s;
     idxs \<leftarrow> vget (si_idxs (ps_sinfo ps)) s;
     cells \<leftarrow> vget (kv_vcells c) st;
     saved \<leftarrow> vget (ps_cells ps) s;
     cells \<leftarrow> cells_set idxs saved cells;
     h \<leftarrow> vget (ps_heads_old ps) s;
     put_stream st cells h c }"
  have "wp (foldM ?f [0..<?n] d) (?I ?n)"
  proof (rule wp_for [where I = ?I])
    show "?I 0 d" using d cfg by simp
  next
    fix k e assume k: "k < ?n" and inv: "?I k e"
    let ?st = "si_strm ?si ! k" and ?idxs = "si_idxs ?si ! k"
    have sk: "?st < kv_n_stream c" "k < length (si_idxs ?si)" "distinct ?idxs" "\<And>i. i \<in> set ?idxs \<Longrightarrow> i < kv_size c"
      using si k by (auto simp: slot_ok_def)
    have neq: "k' < ?n \<Longrightarrow> k' \<noteq> k \<Longrightarrow> si_strm ?si ! k' \<noteq> ?st" for k'
      using si k by (simp add: slot_ok_def nth_eq_iff_index_eq)
    have fresh: "?st \<notin> set (take k (si_strm ?si))" using neq k by (auto simp: in_set_conv_nth)
    have ve: "kv_vcells e ! ?st = kv_vcells d ! ?st" using inv fresh sk(1) by simp
    have en: "kv_n_stream e = kv_n_stream c" "kv_size e = kv_size c" using same_configD [of c e] inv by auto
    have ds: "?st < kv_n_stream d" using sk(1) dn by simp
    have sv: "ps_heads_old ps = kv_heads c" "k < length (ps_cells ps)" "cells_data_ok (ps_cells ps ! k)"
      "cells_size (ps_cells ps ! k) = length ?idxs"
      "\<And>j. j < length ?idxs \<Longrightarrow> cell_at (ps_cells ps ! k) j = cell_at (kv_vcells c ! ?st) (?idxs ! j)"
      using s k by (auto simp: saved_of_def Let_def)
    have "set (si_strm ?si) \<subseteq> {..<kv_n_stream c}" using si by (auto simp: slot_ok_def in_set_conv_nth)
    then have "card (set (si_strm ?si)) \<le> kv_n_stream c" using card_mono [of "{..<kv_n_stream c}"] by simp
    then have "length (si_strm ?si) \<le> kv_n_stream c" using si by (simp add: slot_ok_def distinct_card)
    then have kn: "k < kv_n_stream c" using k by simp
    have W: "wp (cells_set ?idxs (ps_cells ps ! k) (kv_vcells d ! ?st)) (\<lambda>x. cells_wf x \<and>
        cells_size x = cells_size (kv_vcells c ! ?st) \<and>
        (\<forall>i < cells_size (kv_vcells c ! ?st). cell_at x i = cell_at (kv_vcells c ! ?st) i))"
    proof (rule set_back_wp)
      fix i assume i: "i < cells_size (kv_vcells c ! ?st)" "i \<notin> set ?idxs"
      show "cell_at (kv_vcells d ! ?st) i = cell_at (kv_vcells c ! ?st) i"
      proof (rule out [OF sk(1)])
        show "i < kv_size c" using i(1) cw(6) [OF sk(1)] by simp
        fix k' assume "k' < ?n" "?st = si_strm ?si ! k'"
        then have "k' = k" using neq [of k'] by metis
        then show "i \<notin> set (si_idxs ?si ! k')" using i(2) by simp
      qed
    qed (use sv sk d u dn cw(6) [OF sk(1)] kv_wfD(4,6) [OF d(1) ds] in \<open>auto simp: unshifted_def\<close>)
    have P: "wp (put_stream ?st x (kv_heads c ! k) e) (?I (Suc k))"
      if x: "cells_wf x" "cells_size x = cells_size (kv_vcells c ! ?st)"
        "\<forall>i < cells_size (kv_vcells c ! ?st). cell_at x i = cell_at (kv_vcells c ! ?st) i" for x
    proof (rule wp_mono [OF put_stream_wp])
      show "kv_wf e" "?st < kv_n_stream e" "cells_wf x" "cells_size x = kv_size e" "kv_heads c ! k \<le> kv_size e"
        using inv en sk(1) x cw(6) [OF sk(1)] cw(7) [OF kn] by simp_all
      show "cells_live x" using cells_live_cong [of "kv_vcells c ! ?st" x] x cw(5) [OF sk(1)] by simp
    next
      fix e' assume e': "kv_wf e' \<and> same_config e e' \<and> kv_vcells e' = (kv_vcells e)[?st := x] \<and> kv_heads e' = (kv_heads e)[?st := kv_heads c ! k]"
      have tk: "set (take (Suc k) (si_strm ?si)) = insert ?st (set (take k (si_strm ?si)))"
        using k by (simp add: take_Suc_conv_app_nth)
      have len: "?st < length (kv_vcells e)" "?st < length (kv_heads e)" using kv_wfD(1,2) [of e] inv en sk(1) by auto
      have sc: "same_config c e'" using inv e' same_config_trans by blast
      have nk: "k' < k \<Longrightarrow> si_strm ?si ! k' \<noteq> ?st" for k' using neq [of k'] k by simp
      show "?I (Suc k) e'"
        using inv e' tk len sc nk not_sym [OF nk] x(3) cw(6) [OF sk(1)] sv(1) by (simp add: less_Suc_eq nth_list_update all_conj_distrib)
    qed
    show "wp (?f k e) (?I (Suc k))"
      using k sk(1,2) inv sv(1,2) cw(2) kn kv_wfD(1) [of e] en
      by (simp add: wp_simps ve) (rule wp_mono [OF W], use P in auto)
  qed simp
  then show ?thesis unfolding restore_one_def slot_n_stream_def
  proof (rule wp_mono)
    fix e assume e: "?I ?n e"
    have "cell_at (kv_vcells e ! st) i = cell_at (kv_vcells c ! st) i" if "st < kv_n_stream c" "i < kv_size c" for st i
    proof (cases "st \<in> set (si_strm ?si)")
      case True
      then obtain k where "k < ?n" "si_strm ?si ! k = st" unfolding in_set_conv_nth by blast
      then show ?thesis using e that by auto
    next
      case False
      then have "kv_vcells e ! st = kv_vcells d ! st" using e that by simp
      moreover have "cell_at (kv_vcells d ! st) i = cell_at (kv_vcells c ! st) i"
        by (rule out [OF that]) (use False in auto)
      ultimately show ?thesis by simp
    qed
    then show "same_cells c e \<and> heads_back ps (kv_heads d) (kv_heads e)"
      using e by (simp add: same_cells_def heads_back_def Let_def)
  qed
qed

section \<open>Undoing the whole trial\<close>

definition ub_ready :: "kv_cache \<Rightarrow> llama_ubatch \<Rightarrow> bool" where
  "ub_ready c ub = (ubatch_ok ub \<and> ub_fits c ub \<and> (\<forall>i < ub_n_tokens ub. ub_pos ub ! i < INT32_MAX))"

lemma same_config_swa:
  assumes "same_config c d"
  shows "kv_swa_type d = kv_swa_type c" "kv_n_swa d = kv_n_swa c"
proof -
  have d: "c\<lparr>kv_vcells := kv_vcells d, kv_heads := kv_heads d\<rparr> = d" using assms by (simp add: same_config_def)
  show "kv_swa_type d = kv_swa_type c" "kv_n_swa d = kv_n_swa c" by (subst d [symmetric], simp)+
qed

lemma ub_ready_config: "same_config c d \<Longrightarrow> ub_ready d ub = ub_ready c ub"
  using same_configD [of c d] by (simp add: ub_ready_def ub_fits_def slot_tokens_def n_slot_seqs_def)

lemma batch_placed_cell:
  assumes si: "slot_ok c ub si sz" and b: "batch_placed c ub si sz vc" and st: "st < kv_n_stream c"
  shows "cell_at (vc ! st) i = cell_at (kv_vcells c ! st) i \<or>
    (\<exists>t < ub_n_tokens ub. cell_at (vc ! st) i = token_cell c ub t (cell_at (kv_vcells c ! st) i))"
proof (cases "\<exists>k < length (si_strm si). si_strm si ! k = st \<and> i \<in> set (si_idxs si ! k)")
  case True
  then obtain k j where k: "k < length (si_strm si)" "si_strm si ! k = st" "j < length (si_idxs si ! k)" "si_idxs si ! k ! j = i"
    by (auto simp: in_set_conv_nth)
  have "k * sz + j < ub_n_tokens ub" using slot_base [OF si k(1)] k(3) by linarith
  then show ?thesis using b k by (auto simp: batch_placed_def placed_def)
next
  case False
  then show ?thesis using b st by (cases "st \<in> set (si_strm si)") (auto simp: batch_placed_def placed_def in_set_conv_nth)
qed

lemma batch_placed_out:
  assumes b: "batch_placed c ub si sz vc" and st: "st < kv_n_stream c"
    and out: "\<And>k. k < length (si_strm si) \<Longrightarrow> st = si_strm si ! k \<Longrightarrow> i \<notin> set (si_idxs si ! k)"
  shows "cell_at (vc ! st) i = cell_at (kv_vcells c ! st) i"
  using assms by (cases "st \<in> set (si_strm si)") (auto simp: batch_placed_def placed_def in_set_conv_nth)

lemma token_cell_fields [simp]:
  "cl_pos (token_cell c ub t x) = ub_pos ub ! t" "cl_seq (token_cell c ub t x) = set (ub_seq_id ub ! t)"
  "cl_shift (token_cell c ub t x) = (if cl_pos x = -1 then cl_shift x else 0)"
  by (auto simp: token_cell_def Let_def empty_cell_def split: option.splits)

lemma placed_ready:
  assumes c: "kv_ready c" and si: "slot_ok c ub si sz" and ub: "ub_ready c ub" and b: "batch_placed c ub si sz (kv_vcells d)"
    and d: "kv_wf d" "same_config c d" and u: "unshifted c"
  shows "kv_ready d" "unshifted d"
proof -
  note dn = same_configD [OF d(2)] same_config_swa [OF d(2)]
  have ok: "ubatch_ok ub" using ub by (simp add: ub_ready_def)
  have cell: "cl_pos x < INT32_MAX \<and> (\<forall>s \<in> cl_seq x. kv_has_seq c s) \<and> cl_shift x = 0"
    if x: "st < kv_n_stream c" "i < kv_size c" "x = cell_at (kv_vcells d ! st) i" for st i x
  proof -
    have old: "cl_pos (cell_at (kv_vcells c ! st) i) < INT32_MAX"
      "\<forall>s \<in> cl_seq (cell_at (kv_vcells c ! st) i). kv_has_seq c s" "cl_shift (cell_at (kv_vcells c ! st) i) = 0"
    proof -
      have "i < cells_size (kv_vcells c ! st)" "pos_bounded (kv_vcells c ! st)"
        using c x(1,2) kv_wfD(6) [of c st] by (simp_all add: kv_ready_def)
      then show "cl_pos (cell_at (kv_vcells c ! st) i) < INT32_MAX" by (simp add: pos_bounded_def cell_at_def)
      show "\<forall>s \<in> cl_seq (cell_at (kv_vcells c ! st) i). kv_has_seq c s" using c x(1,2) by (simp add: kv_ready_def)
      show "cl_shift (cell_at (kv_vcells c ! st) i) = 0" using u x(1,2) by (simp add: unshifted_def)
    qed
    have new: "ub_pos ub ! t < INT32_MAX" "\<forall>s \<in> set (ub_seq_id ub ! t). kv_has_seq c s" if "t < ub_n_tokens ub" for t
      using ub that by (auto simp: ub_ready_def ub_fits_def ubatch_ok_def)
    show ?thesis using batch_placed_cell [OF si b x(1), of i] old new x(3) by auto
  qed
  note cell = cell [OF _ _ refl]
  show "unshifted d" unfolding unshifted_def dn using cell by blast
  have "pos_bounded (kv_vcells d ! st)" if "st < kv_n_stream c" for st
    unfolding pos_bounded_def using cell [OF that] kv_wfD(6) [OF d(1), of st] that dn(1,3) by (simp add: cell_at_def)
  then show "kv_ready d" using c d(1) cell unfolding kv_ready_def dn swa_ok_def by blast
qed

lemma one_stream_heads:
  assumes si: "slot_ok c ub (ps_sinfo ps) sz" and n: "kv_n_stream c = 1" and h: "ps_heads_old ps = kv_heads c" "length (kv_heads c) = 1"
    and b: "heads_back ps hs hs'" "length hs = 1"
  shows "hs' = kv_heads c"
proof -
  have "si_strm (ps_sinfo ps) \<noteq> []" "si_strm (ps_sinfo ps) ! 0 = 0" using si n by (auto simp: slot_ok_def)
  then have "hs' ! 0 = kv_heads c ! 0" "length hs' = 1" using b h(1) by (auto simp: heads_back_def Let_def)
  then show ?thesis using h(2) by (auto simp: list_eq_iff_nth_eq)
qed

text \<open>One trial: the slot is found, the cells it overwrites are saved, the placement can be undone.\<close>

lemma trial:
  assumes c: "kv_ready c" and o: "kv_other c = None" and swa: "kv_swa_type c = SWA_NONE" and u: "unshifted c" and ub: "ub_ready c ub"
    and si: "find_slot c ub False = Some si" and ne: "\<not> slot_empty si"
  obtains saved c' where "save_cells si c = Some saved" "apply_ubatch si ub c = Some c'" "kv_ready c'" "unshifted c'" "same_config c c'"
    "slot_ok c ub si (slot_tokens c ub)" "slot_of_fit c ub si" "batch_placed c ub si (slot_tokens c ub) (kv_vcells c')"
    "heads_moved si (kv_heads c) (kv_heads c')"
    "\<And>d. same_cells c' d \<Longrightarrow> wp (restore_one \<lparr>ps_sinfo = si, ps_heads_old = kv_heads c, ps_cells = saved\<rparr> d) (\<lambda>e. same_cells c e \<and>
       heads_back \<lparr>ps_sinfo = si, ps_heads_old = kv_heads c, ps_cells = saved\<rparr> (kv_heads d) (kv_heads e))"
proof -
  let ?sz = "slot_tokens c ub"
  have w: "kv_wf c" using c by (simp add: kv_ready_def)
  have fits: "ub_fits c ub" and ok: "ubatch_ok ub" using ub by (auto simp: ub_ready_def)
  have sof: "slot_of_fit c ub si" using wpD [OF find_slot_wp [OF c fits] si] .
  note so = find_slot_ok [OF c fits sof ne]
  have free: "slot_free c si" by (rule so(2) [OF swa])
  obtain saved where sv: "save_cells si c = Some saved" "saved_of c \<lparr>ps_sinfo = si, ps_heads_old = kv_heads c, ps_cells = saved\<rparr>"
    using save_cells_wp [OF w so(1) u] by (rule wpE)
  obtain c' where c': "apply_ubatch si ub c = Some c'" "kv_wf c'" "same_config c c'" "batch_placed c ub si ?sz (kv_vcells c')"
    "heads_moved si (kv_heads c) (kv_heads c')"
    using apply_ubatch_free_wp [OF w o ok so(1) free] by (auto elim!: wpE)
  note cfg = same_configD [OF c'(3)]
  note rdy = placed_ready [OF c so(1) ub c'(4,2,3) u]
  let ?ps = "\<lparr>ps_sinfo = si, ps_heads_old = kv_heads c, ps_cells = saved\<rparr>"
  have "wp (restore_one ?ps d) (\<lambda>e. same_cells c e \<and> heads_back ?ps (kv_heads d) (kv_heads e))" if d: "same_cells c' d" for d
  proof (rule restore_one_wp [OF w _ u sv(2)])
    show "slot_ok c ub (ps_sinfo ?ps) ?sz" using so(1) by simp
    show "same_config c d" using c'(3) d same_config_trans by (auto simp: same_cells_def)
    show "kv_wf d" using d by (simp add: same_cells_def)
    show "unshifted d" by (rule same_cells_unshifted [OF d rdy(2)])
    fix st i assume st: "st < kv_n_stream c" "i < kv_size c"
      and out: "\<And>k. k < length (si_strm (ps_sinfo ?ps)) \<Longrightarrow> st = si_strm (ps_sinfo ?ps) ! k \<Longrightarrow> i \<notin> set (si_idxs (ps_sinfo ?ps) ! k)"
    have "cell_at (kv_vcells c' ! st) i = cell_at (kv_vcells c ! st) i"
      by (rule batch_placed_out [OF c'(4) st(1)]) (use out in simp)
    then show "cell_at (kv_vcells d ! st) i = cell_at (kv_vcells c ! st) i"
      using d st cfg by (simp add: same_cells_def)
  qed
  then show ?thesis using that sv(1) c' rdy so(1) sof by blast
qed

lemma prep_loop_wp:
  assumes "kv_ready c" "kv_other c = None" "kv_swa_type c = SWA_NONE" "unshifted c" "\<forall>ub \<in> set ubs. ub_ready c ub"
  shows "wp (prep_loop ubs c) (\<lambda>(sis, stack, ok, e).
    wp (foldM restore_one stack e) (\<lambda>d. same_cells c d \<and> (kv_n_stream c = 1 \<longrightarrow> kv_heads d = kv_heads c)) \<and>
    (ok \<longrightarrow> length sis = length ubs \<and> length stack = length ubs))"
  using assms
proof (induction ubs arbitrary: c)
  case Nil
  then show ?case by (simp add: same_cells_def kv_ready_def)
next
  case (Cons ub ubs)
  have w: "kv_wf c" using Cons.prems(1) by (simp add: kv_ready_def)
  have ub: "ub_ready c ub" "ub_fits c ub" using Cons.prems(5) by (auto simp: ub_ready_def)
  obtain si where si: "find_slot c ub False = Some si" using find_slot_wp [OF Cons.prems(1) ub(2)] by (rule wpE)
  show ?case
  proof (cases "slot_empty si")
    case True
    then show ?thesis using si w by (simp add: same_cells_def)
  next
    case False
    obtain saved c' where t: "save_cells si c = Some saved" "apply_ubatch si ub c = Some c'" "kv_ready c'" "unshifted c'" "same_config c c'"
      "slot_ok c ub si (slot_tokens c ub)"
      "\<And>d. same_cells c' d \<Longrightarrow> wp (restore_one \<lparr>ps_sinfo = si, ps_heads_old = kv_heads c, ps_cells = saved\<rparr> d) (\<lambda>e. same_cells c e \<and>
        heads_back \<lparr>ps_sinfo = si, ps_heads_old = kv_heads c, ps_cells = saved\<rparr> (kv_heads d) (kv_heads e))"
      by (rule trial [OF Cons.prems(1-4) ub(1) si False]) blast
    note cfg = same_configD [OF t(5)] same_config_swa [OF t(5)]
    have IH: "wp (prep_loop ubs c') (\<lambda>(sis, stack, ok, e).
      wp (foldM restore_one stack e) (\<lambda>d. same_cells c' d \<and> (kv_n_stream c' = 1 \<longrightarrow> kv_heads d = kv_heads c')) \<and>
      (ok \<longrightarrow> length sis = length ubs \<and> length stack = length ubs))"
      by (rule Cons.IH [OF t(3) _ _ t(4)]) (use Cons.prems cfg ub_ready_config [OF t(5)] in auto)
    let ?ps = "\<lparr>ps_sinfo = si, ps_heads_old = kv_heads c, ps_cells = saved\<rparr>"
    have undone: "wp (restore_one ?ps d) (\<lambda>e. same_cells c e \<and> (kv_n_stream c = 1 \<longrightarrow> kv_heads e = kv_heads c))"
      if d: "same_cells c' d" for d
    proof (rule wp_mono [OF t(7) [OF d]])
      fix e assume e: "same_cells c e \<and> heads_back ?ps (kv_heads d) (kv_heads e)"
      have cd: "kv_n_stream d = kv_n_stream c" "kv_wf d" using d same_configD(1) [of c' d] cfg(1) by (auto simp: same_cells_def)
      have "kv_heads e = kv_heads c" if n: "kv_n_stream c = 1"
        by (rule one_stream_heads [where ps = ?ps and ub = ub and sz = "slot_tokens c ub", OF _ n _ _ conjunct2 [OF e]])
          (use t(6) n kv_wfD(2) [OF w] kv_wfD(2) [OF cd(2)] cd(1) in simp_all)
      then show "same_cells c e \<and> (kv_n_stream c = 1 \<longrightarrow> kv_heads e = kv_heads c)" using e by simp
    qed
    show ?thesis using si False t(1,2)
      by (simp add: wp_simps) (rule wp_mono [OF IH], auto simp: foldM_append wp_simps elim!: wp_mono intro: undone [unfolded One_nat_def])
  qed
qed

lemma prepare_wp:
  assumes "kv_ready c" "kv_other c = None" "kv_swa_type c = SWA_NONE" "unshifted c" "\<forall>ub \<in> set ubs. ub_ready c ub" "ubs \<noteq> []"
  shows "wp (prepare ubs c) (\<lambda>(sis, d). same_cells c d \<and> (kv_n_stream c = 1 \<longrightarrow> kv_heads d = kv_heads c) \<and>
    length sis \<in> {0, length ubs})"
  unfolding prepare_def wp_bind
  by (rule wp_mono [OF prep_loop_wp [OF assms(1-5)]]) (use assms(6) in \<open>auto simp: wp_simps elim!: wp_mono\<close>)

section \<open>Properties\<close>

text \<open>One token of sequence 3 at position 6, and one of sequence 1 at position 0.\<close>

definition ub_demo :: "llama_seq_id \<Rightarrow> llama_pos \<Rightarrow> llama_ubatch" where
  "ub_demo s p = ubatch_empty\<lparr>ub_n_tokens := 1, ub_n_seq_tokens := 1, ub_n_seqs := 1, ub_n_seqs_unq := 1, ub_n_pos := 1,
     ub_token := Some [7], ub_pos := [p], ub_n_seq_id := [1], ub_seq_id := [[s]], ub_seq_id_unq := [s]\<rparr>"

lemma ub_demo_ready:
  "kv_has_seq c s \<Longrightarrow> s \<in> seq_ids_ok \<Longrightarrow> 0 \<le> p \<Longrightarrow> p < INT32_MAX \<Longrightarrow> ub_ready c (ub_demo s p)"
  by (auto simp: ub_ready_def ubatch_ok_def ub_fits_def ub_demo_def ubatch_empty_def slot_tokens_def n_slot_seqs_def)

lemma nat_less_two: "(i::nat) < 2 \<longleftrightarrow> i = 0 \<or> i = Suc 0"
  by auto

lemma nat_less_four: "(i::nat) < 4 \<longleftrightarrow> i = 0 \<or> i = 1 \<or> i = 2 \<or> i = 3"
  by auto

lemma cells_two_ready:
  "i < 2 \<Longrightarrow> cl_shift (cell_at cells_two i) = 0" "i < 2 \<Longrightarrow> x \<in> cl_seq (cell_at cells_two i) \<Longrightarrow> x = 3" "pos_bounded cells_two"
  by (auto simp: nat_less_two cells_two_cells pos_bounded_def cells_two_facts INT32_MAX_def less_Suc_eq)

lemma kv_demo_ready: "kv_ready kv_demo" "unshifted kv_demo"
proof -
  show "unshifted kv_demo" by (simp add: unshifted_def kv_demo_fields cells_two_ready)
  show "kv_ready kv_demo"
    using kv_demo_wf cells_two_ready(3) by (auto simp: kv_ready_def kv_demo_fields swa_ok_def dest!: cells_two_ready(2))
qed

lemma kv_demo_fit:
  assumes "m = 1" shows "fit kv_demo m 0 = [1]"
proof -
  have "usable kv_demo cells_two 0 = False" "usable kv_demo cells_two 1 = True"
    by (auto simp: usable_def cells_two_cells swa_masked_def kv_demo_fields)
  moreover have "cyclic 1 2 = [1, 0]" by (simp add: cyclic_def upt_rec)
  ultimately show ?thesis using assms by (simp add: fit_def kv_demo_fields Let_def)
qed

text \<open>
  C11. \<open>find_slot\<close> (not contiguous) returns for every micro-batch of known sequences.  Per stream of
  the micro-batch it takes the first usable cells in cyclic order from the search head, one per
  token: a free cell, or a cell of a single sequence that the sliding window masks.  The slot is
  empty exactly when some stream has fewer usable cells than tokens; otherwise its indices are
  distinct, in range and usable.
\<close>

theorem find_slot_first_fit:
  assumes "kv_ready c" and "ub_fits c ub"
  shows "\<exists>r. find_slot c ub False = Some r \<and> slot_of_fit c ub r \<and>
    (slot_empty r = (\<exists>st \<in> set (slot_streams c ub).
       card {i. i < kv_size c \<and> usable c (kv_vcells c ! st) i} < slot_tokens c ub)) \<and>
    (\<not> slot_empty r \<longrightarrow> si_strm r = slot_streams c ub \<and> distinct (slot_streams c ub) \<and>
       (\<forall>k < length (si_strm r). length (si_idxs r ! k) = slot_tokens c ub \<and> distinct (si_idxs r ! k) \<and>
          (\<forall>i \<in> set (si_idxs r ! k). i < kv_size c \<and> usable c (kv_vcells c ! (si_strm r ! k)) i)))"
proof -
  obtain r where r: "find_slot c ub False = Some r" "slot_of_fit c ub r" using find_slot_wp [OF assms] by (rule wpE)
  note ss = slot_streams_ok [OF assms]
  have card: "card {i. i < kv_size c \<and> usable c (kv_vcells c ! st) i} = length (fit c (slot_tokens c ub) st)"
    if "st \<in> set (slot_streams c ub)" for st
    using fit_props [OF assms(1) ss(4) [OF that]] distinct_card by metis
  have e: "slot_empty r = (\<exists>st \<in> set (slot_streams c ub). length (fit c (slot_tokens c ub) st) < slot_tokens c ub)"
    using r(2) ss(2) by (auto simp: slot_of_fit_def Let_def slot_empty_def slot_none_def not_le split: if_splits)
  have strm: "si_strm r = slot_streams c ub" "si_idxs r = map (\<lambda>st. take (slot_tokens c ub) (fit c (slot_tokens c ub) st)) (slot_streams c ub)"
    "\<And>st. st \<in> set (slot_streams c ub) \<Longrightarrow> slot_tokens c ub \<le> length (fit c (slot_tokens c ub) st)" if "\<not> slot_empty r"
    using r(2) e that by (auto simp: slot_of_fit_def Let_def not_less split: if_splits)
  have each: "length (si_idxs r ! k) = slot_tokens c ub \<and> distinct (si_idxs r ! k) \<and>
      (\<forall>i \<in> set (si_idxs r ! k). i < kv_size c \<and> usable c (kv_vcells c ! (si_strm r ! k)) i)"
    if ne: "\<not> slot_empty r" and k: "k < length (si_strm r)" for k
  proof -
    have st: "slot_streams c ub ! k \<in> set (slot_streams c ub)" using k strm(1) [OF ne] by simp
    show ?thesis using k strm [OF ne] fit_props [OF assms(1) ss(4) [OF st]] strm(3) [OF ne st] by (auto dest: in_set_takeD)
  qed
  show ?thesis using r e card ss(1) strm(1) each by auto
qed

lemma find_slot_first_fit_witness:
  "\<exists>r. find_slot kv_demo (ub_demo 3 6) False = Some r \<and> si_idxs r = [[1]]"
proof -
  have ss: "slot_streams kv_demo (ub_demo 3 6) = [0]" "slot_tokens kv_demo (ub_demo 3 6) = 1"
    by (simp_all add: slot_streams_def n_slot_seqs_def slot_tokens_def kv_demo_fields ub_demo_def)
  have "ub_fits kv_demo (ub_demo 3 6)" using ub_demo_ready [of kv_demo 3 6] by (simp add: ub_ready_def INT32_MAX_def kv_demo_fields)
  from find_slot_first_fit [OF kv_demo_ready(1) this] show ?thesis
    by (auto simp: slot_of_fit_def ss kv_demo_fit Let_def)
qed

text \<open>
  C12. A micro-batch placed in the slot \<open>find_slot\<close> returned for it, on a cache without sliding
  window: \<open>apply_ubatch\<close> succeeds; token \<open>k * m + ii\<close> of the batch is in cell \<open>ii\<close> of stream \<open>k\<close> of
  the slot with its position, its sequences, its extended position and its node ids; every other
  cell is untouched; the heads of the slot's streams stand behind it; the invariant, and what a
  later \<open>find_slot\<close> needs, hold again.
\<close>

theorem apply_ubatch_exact:
  assumes "kv_ready c" and "kv_other c = None" and "kv_swa_type c = SWA_NONE" and "unshifted c" and "ub_ready c ub"
    and "find_slot c ub False = Some si" and "\<not> slot_empty si"
  shows "\<exists>d. apply_ubatch si ub c = Some d \<and> kv_ready d \<and> same_config c d \<and>
    (\<forall>k < length (si_strm si). \<forall>ii < slot_tokens c ub.
       let x = cell_at (kv_vcells d ! (si_strm si ! k)) (si_idxs si ! k ! ii); t = k * slot_tokens c ub + ii
       in cl_pos x = ub_pos ub ! t \<and> cl_seq x = set (ub_seq_id ub ! t) \<and>
          x = token_cell c ub t (cell_at (kv_vcells c ! (si_strm si ! k)) (si_idxs si ! k ! ii))) \<and>
    (\<forall>st < kv_n_stream c. \<forall>i. (\<forall>k < length (si_strm si). si_strm si ! k = st \<longrightarrow> i \<notin> set (si_idxs si ! k)) \<longrightarrow>
       cell_at (kv_vcells d ! st) i = cell_at (kv_vcells c ! st) i) \<and>
    (\<forall>k < length (si_strm si). kv_heads d ! (si_strm si ! k) = last (si_idxs si ! k) + 1)"
proof -
  obtain saved d where t: "apply_ubatch si ub c = Some d" "kv_ready d" "same_config c d" "slot_ok c ub si (slot_tokens c ub)"
    "batch_placed c ub si (slot_tokens c ub) (kv_vcells d)" "heads_moved si (kv_heads c) (kv_heads d)"
    by (rule trial [OF assms]) blast
  have len: "length (si_idxs si ! k) = slot_tokens c ub" if "k < length (si_strm si)" for k
    using t(4) that by (simp add: slot_ok_def)
  have "cell_at (kv_vcells d ! (si_strm si ! k)) (si_idxs si ! k ! ii) =
      token_cell c ub (k * slot_tokens c ub + ii) (cell_at (kv_vcells c ! (si_strm si ! k)) (si_idxs si ! k ! ii))"
    if "k < length (si_strm si)" "ii < slot_tokens c ub" for k ii
    using t(5) that len by (simp add: batch_placed_def placed_def)
  moreover have "cell_at (kv_vcells d ! st) i = cell_at (kv_vcells c ! st) i"
    if "st < kv_n_stream c" "\<forall>k < length (si_strm si). si_strm si ! k = st \<longrightarrow> i \<notin> set (si_idxs si ! k)" for st i
    by (rule batch_placed_out [OF t(5) that(1)]) (use that(2) in auto)
  ultimately show ?thesis using t(1-3,6) by (simp add: heads_moved_def Let_def)
qed

lemma kv_demo_slot: obtains si where "find_slot kv_demo (ub_demo 3 6) False = Some si" "si_idxs si = [[1]]" "si_strm si = [0]"
proof -
  have ss: "slot_streams kv_demo (ub_demo 3 6) = [0]" "slot_tokens kv_demo (ub_demo 3 6) = 1"
    by (simp_all add: slot_streams_def n_slot_seqs_def slot_tokens_def kv_demo_fields ub_demo_def)
  have "ub_fits kv_demo (ub_demo 3 6)" using ub_demo_ready [of kv_demo 3 6] by (simp add: ub_ready_def INT32_MAX_def kv_demo_fields)
  from find_slot_wp [OF kv_demo_ready(1) this] show ?thesis
    by (rule wpE) (use that in \<open>auto simp: slot_of_fit_def ss kv_demo_fit Let_def\<close>)
qed

lemma apply_ubatch_exact_witness:
  "\<exists>si d. find_slot kv_demo (ub_demo 3 6) False = Some si \<and> apply_ubatch si (ub_demo 3 6) kv_demo = Some d \<and>
    cl_pos (cell_at (kv_vcells d ! 0) 1) = 6 \<and> kv_heads d ! 0 = 2"
proof -
  have r: "ub_ready kv_demo (ub_demo 3 6)" using ub_demo_ready [of kv_demo 3 6] by (simp add: INT32_MAX_def kv_demo_fields)
  have m: "slot_tokens kv_demo (ub_demo 3 6) = 1" by (simp add: n_slot_seqs_def slot_tokens_def kv_demo_fields ub_demo_def)
  obtain si where si: "find_slot kv_demo (ub_demo 3 6) False = Some si" "si_idxs si = [[1]]" "si_strm si = [0]" by (rule kv_demo_slot)
  have "\<not> slot_empty si" using si(2) by (simp add: slot_empty_def)
  from apply_ubatch_exact [OF kv_demo_ready(1) kv_demo_fields(4,14) kv_demo_ready(2) r si(1) this] show ?thesis
    using si m by (auto simp: Let_def ub_demo_def ubatch_empty_def)
qed

text \<open>
  C13. \<open>prepare\<close> only tries: on a well-formed cache that owns its cells, has no sliding window and no
  shift pending, and for a non-empty list of well-formed micro-batches of known sequences, it returns,
  either a slot per micro-batch or nothing, and leaves every cell of every stream as it was; with a
  single stream the heads are back too.  With a sliding window this fails: placing a micro-batch also
  empties cells outside its slot, and only the cells of the slot are put back
  (\<open>prepare_loses_window_cells\<close>).
\<close>

theorem prepare_restores_cells:
  assumes "kv_ready c" and "kv_other c = None" and "kv_swa_type c = SWA_NONE" and "unshifted c"
    and "\<forall>ub \<in> set ubs. ub_ready c ub" and "ubs \<noteq> []"
  shows "\<exists>sis d. prepare ubs c = Some (sis, d) \<and> length sis \<in> {0, length ubs} \<and> kv_wf d \<and> same_config c d \<and>
    (\<forall>st < kv_n_stream c. \<forall>i < kv_size c. cell_at (kv_vcells d ! st) i = cell_at (kv_vcells c ! st) i) \<and>
    (kv_n_stream c = 1 \<longrightarrow> kv_heads d = kv_heads c)"
  using prepare_wp [OF assms] by (auto simp: wp_def same_cells_def)

lemma prepare_restores_cells_witness:
  "\<exists>sis d. prepare [ub_demo 3 6] kv_demo = Some (sis, d) \<and> kv_heads d = [1] \<and> cl_pos (cell_at (kv_vcells d ! 0) 1) = -1"
proof -
  have "ub_ready kv_demo (ub_demo 3 6)" using ub_demo_ready [of kv_demo 3 6] by (simp add: INT32_MAX_def kv_demo_fields)
  then show ?thesis
    using prepare_restores_cells [OF kv_demo_ready(1) kv_demo_fields(4,14) kv_demo_ready(2), of "[ub_demo 3 6]"]
    by (auto simp: kv_demo_fields cells_two_cells)
qed

text \<open>
  With a sliding window \<open>prepare\<close> loses cells: three cells of sequence 3 at positions 0, 1, 2 and a
  window of one position.  The micro-batch is tried in cell 1, which makes \<open>apply_ubatch\<close> empty cell 0
  as well; only cell 1 is restored.
\<close>

definition win_cache :: kv_cache where
  "win_cache = kv_demo\<lparr>kv_vcells := [the (foldM (\<lambda>i c. do { c \<leftarrow> pos_set i (int i) c; cells_seq_add i 3 c }) [0..<3] (cells_resize 3 cells_new))],
     kv_heads := [1], kv_swa_type := SWA_STANDARD, kv_n_swa := 1\<rparr>"

lemma prepare_loses_window_cells:
  "map_option (\<lambda>(sis, d). (map si_idxs sis, map kc_pos (kv_vcells win_cache), map kc_pos (kv_vcells d))) (prepare [ub_demo 3 3] win_cache) =
     Some ([[[1]]], [[0, 1, 2]], [[-1, 1, 2]])"
  apply code_simp
  apply (subst find_loop.simps)
  apply code_simp
  done

text \<open>
  C14. With several streams \<open>prepare\<close> puts heads on the wrong streams: the old head is read at the
  index of the stream inside the slot, so stream \<open>slot_streams c ub ! k\<close> gets the head that stream
  \<open>k\<close> of the cache had.
\<close>

theorem prepare_heads_by_position:
  assumes "kv_ready c" and "kv_other c = None" and "kv_swa_type c = SWA_NONE" and "unshifted c" and "ub_ready c ub"
    and "find_slot c ub False = Some si" and "\<not> slot_empty si"
  shows "\<exists>d. prepare [ub] c = Some ([si], d) \<and> si_strm si = slot_streams c ub \<and>
    (\<forall>k < length (slot_streams c ub). kv_heads d ! (slot_streams c ub ! k) = kv_heads c ! k) \<and>
    (\<forall>st. st \<notin> set (slot_streams c ub) \<longrightarrow> kv_heads d ! st = kv_heads c ! st)"
proof -
  obtain saved c' where t: "save_cells si c = Some saved" "apply_ubatch si ub c = Some c'" "kv_ready c'"
    "slot_of_fit c ub si" "heads_moved si (kv_heads c) (kv_heads c')"
    "\<And>d. same_cells c' d \<Longrightarrow> wp (restore_one \<lparr>ps_sinfo = si, ps_heads_old = kv_heads c, ps_cells = saved\<rparr> d) (\<lambda>e. same_cells c e \<and>
       heads_back \<lparr>ps_sinfo = si, ps_heads_old = kv_heads c, ps_cells = saved\<rparr> (kv_heads d) (kv_heads e))"
    by (rule trial [OF assms]) blast
  have strm: "si_strm si = slot_streams c ub"
    using t(4) assms(7) by (auto simp: slot_of_fit_def slot_none_def slot_empty_def Let_def split: if_splits)
  have "same_cells c' c'" using t(3) by (simp add: same_cells_def kv_ready_def)
  from t(6) [OF this] obtain d where d: "restore_one \<lparr>ps_sinfo = si, ps_heads_old = kv_heads c, ps_cells = saved\<rparr> c' = Some d"
    "heads_back \<lparr>ps_sinfo = si, ps_heads_old = kv_heads c, ps_cells = saved\<rparr> (kv_heads c') (kv_heads d)"
    by (auto elim: wpE)
  have "prepare [ub] c = Some ([si], d)" using assms(6,7) t(1,2) d(1) by (simp add: prepare_def)
  then show ?thesis using d(2) t(5) strm by (auto simp: heads_back_def heads_moved_def Let_def)
qed

definition kv_demo3 :: kv_cache where
  "kv_demo3 = kv_demo2\<lparr>kv_heads := [0, 1, 1, 1]\<rparr>"

lemma kv_demo3_fields:
  "kv_n_stream kv_demo3 = 4" "kv_vcells kv_demo3 = [cells_two, cells_two, cells_two, cells_two]"
  "kv_heads kv_demo3 = [0, 1, 1, 1]" "kv_other kv_demo3 = None" "kv_s2s kv_demo3 = [0, 1, 2, 3]" "kv_size kv_demo3 = 2"
  "kv_swa_type kv_demo3 = SWA_NONE" "kv_has_seq kv_demo3 3" "kv_has_seq kv_demo3 1" "kv_stream kv_demo3 1 = 1"
  by (simp_all add: kv_demo3_def kv_demo2_def kv_new_def kv_size_def cells_two_facts upt_rec kv_has_seq_def kv_stream_def)

lemma kv_demo3_ready: "kv_ready kv_demo3" "unshifted kv_demo3"
proof -
  have w: "kv_wf kv_demo3"
    unfolding kv_demo3_def by (rule kv_wf_heads [OF kv_demo2_wf]) (auto simp: kv_demo2_fields nat_less_four)
  have v: "kv_vcells kv_demo3 ! st = cells_two" if "st < 4" for st
    using that by (auto simp: nat_less_four kv_demo3_fields(2))
  show "unshifted kv_demo3" by (simp add: unshifted_def kv_demo3_fields(1,6) v cells_two_ready)
  show "kv_ready kv_demo3"
    using w cells_two_ready(3) v by (auto simp: kv_ready_def kv_demo3_fields(1,5-8) swa_ok_def dest!: cells_two_ready(2))
qed

lemma prepare_heads_by_position_witness:
  "\<exists>si d. find_slot kv_demo3 (ub_demo 1 0) False = Some si \<and> prepare [ub_demo 1 0] kv_demo3 = Some ([si], d) \<and>
    kv_heads kv_demo3 ! 1 = 1 \<and> kv_heads d ! 1 = 0"
proof -
  have r: "ub_ready kv_demo3 (ub_demo 1 0)" using ub_demo_ready [of kv_demo3 1 0] by (simp add: INT32_MAX_def kv_demo3_fields)
  have ss: "slot_streams kv_demo3 (ub_demo 1 0) = [1]" "slot_tokens kv_demo3 (ub_demo 1 0) = 1"
    by (simp_all add: slot_streams_def n_slot_seqs_def slot_tokens_def kv_demo3_fields ub_demo_def)
  have "usable kv_demo3 cells_two 1" by (simp add: usable_def cells_two_cells)
  then have "1 \<in> set (fit kv_demo3 1 1)" using fit_props(2) [OF kv_demo3_ready(1), of 1 1] by (simp add: kv_demo3_fields)
  then have "1 \<le> length (fit kv_demo3 1 1)" by (cases "fit kv_demo3 1 1") auto
  moreover obtain si where si: "find_slot kv_demo3 (ub_demo 1 0) False = Some si" "slot_of_fit kv_demo3 (ub_demo 1 0) si"
    using find_slot_wp [OF kv_demo3_ready(1), of "ub_demo 1 0"] r by (auto simp: ub_ready_def elim: wpE)
  ultimately have "\<not> slot_empty si" by (simp add: slot_of_fit_def ss slot_empty_def)
  from prepare_heads_by_position [OF kv_demo3_ready(1) kv_demo3_fields(4,7) kv_demo3_ready(2) r si(1) this]
  show ?thesis using si(1) by (auto simp: ss kv_demo3_fields)
qed

end
