(* ===== verification/BatchExt.thy ===== *)
theory BatchExt
  imports Ubatch
begin

text \<open>
  The input batch: \<open>struct llama_batch_ext\<close> with its adders and setters and the translation of the
  old \<open>llama_batch\<close> (\<open>src/llama-batch.cpp\<close>).  A method that reports failure returns the flag (or the
  negative index) with the batch.  The set \<open>seq_ids\<close> of an entry is the list of its elements in
  iteration order; what is proved about \<open>init\<close> holds for every order.
\<close>

section \<open>Data\<close>

record mem_view =
  mem_pos_min :: "llama_seq_id \<Rightarrow> llama_pos option"
  mem_pos_max :: "llama_seq_id \<Rightarrow> llama_pos option"

record ext_token =
  xt_id :: llama_token
  xt_has_embd :: bool
  xt_embd_off :: nat
  xt_has_state :: bool
  xt_state_off :: nat
  xt_embd_row :: int
  xt_output :: bool
  xt_decision_order :: int
  xt_seq_ids :: "llama_seq_id list"
  xt_pos :: "llama_pos list"

definition ext_token_new :: ext_token where
  "ext_token_new = \<lparr>xt_id = LLAMA_TOKEN_NULL, xt_has_embd = False, xt_embd_off = 0, xt_has_state = False,
     xt_state_off = 0, xt_embd_row = -1, xt_output = False, xt_decision_order = 0, xt_seq_ids = [],
     xt_pos = [0, 0, 0, 0]\<rparr>"

record batch_ext =
  bx_n_tokens_max :: nat
  bx_n_embd_inp :: nat
  bx_n_embd_inp_enc :: nat
  bx_n_embd_state :: nat
  bx_n_seq_max :: int
  bx_mem :: "mem_view option"
  bx_n_vocab :: int
  bx_n_pos_per_embd :: nat
  bx_n_embd :: nat
  bx_tokens :: "ext_token list"
  bx_embd :: "float32 list"
  bx_state :: "float32 list"

text \<open>The constructor the tests use; \<open>clear\<close> empties the batch.\<close>

definition bx_clear :: "batch_ext \<Rightarrow> batch_ext" where
  "bx_clear b = b\<lparr>bx_tokens := [], bx_embd := [], bx_state := [], bx_n_embd := 0\<rparr>"

definition batch_ext_new :: "nat \<Rightarrow> nat \<Rightarrow> nat \<Rightarrow> int \<Rightarrow> mem_view option \<Rightarrow> int \<Rightarrow> nat \<Rightarrow> batch_ext" where
  "batch_ext_new n_tokens_max n_embd_inp n_embd_inp_enc n_seq_max mem n_vocab npe =
     bx_clear \<lparr>bx_n_tokens_max = n_tokens_max, bx_n_embd_inp = n_embd_inp, bx_n_embd_inp_enc = n_embd_inp_enc,
       bx_n_embd_state = 0, bx_n_seq_max = n_seq_max, bx_mem = mem, bx_n_vocab = n_vocab, bx_n_pos_per_embd = npe,
       bx_n_embd = 0, bx_tokens = [], bx_embd = [], bx_state = []\<rparr>"

text \<open>\<open>struct llama_embd\<close>: a nullable pointer to \<open>n_rows * n_embd\<close> values.\<close>

record llama_embd =
  em_data :: "float32 list option"
  em_n_rows :: nat
  em_n_embd :: nat

definition em_total :: "llama_embd \<Rightarrow> nat" where
  "em_total e = (em_n_rows e * em_n_embd e) mod 2 ^ 64"

section \<open>Adders and setters\<close>

definition idx_ok :: "batch_ext \<Rightarrow> int \<Rightarrow> bool" where
  "idx_ok b idx = (0 \<le> idx \<and> idx < int (length (bx_tokens b)))"

definition upd_token :: "int \<Rightarrow> (ext_token \<Rightarrow> ext_token) \<Rightarrow> batch_ext \<Rightarrow> batch_ext" where
  "upd_token idx f b = b\<lparr>bx_tokens := (bx_tokens b)[nat idx := f (bx_tokens b ! nat idx)]\<rparr>"

definition seq_insert :: "llama_seq_id \<Rightarrow> llama_seq_id list \<Rightarrow> llama_seq_id list" where
  "seq_insert s ids = (if s \<in> set ids then ids else ids @ [s])"

definition add_token :: "llama_seq_id \<Rightarrow> batch_ext \<Rightarrow> int \<times> batch_ext" where
  "add_token s b = (
     if length (bx_tokens b) \<ge> bx_n_tokens_max b then (-1, b)
     else if s < 0 \<or> s \<ge> bx_n_seq_max b then (-3, b)
     else (int (length (bx_tokens b)),
           b\<lparr>bx_tokens := bx_tokens b @ [ext_token_new\<lparr>xt_seq_ids := seq_insert s []\<rparr>]\<rparr>))"

definition add_seq :: "int \<Rightarrow> llama_seq_id \<Rightarrow> batch_ext \<Rightarrow> bool \<times> batch_ext" where
  "add_seq idx s b = (
     if \<not> idx_ok b idx then (False, b)
     else if s < 0 \<or> s \<ge> bx_n_seq_max b then (False, b)
     else (True, upd_token idx (\<lambda>t. t\<lparr>xt_seq_ids := seq_insert s (xt_seq_ids t)\<rparr>) b))"

definition set_token_id :: "int \<Rightarrow> llama_token \<Rightarrow> batch_ext \<Rightarrow> bool \<times> batch_ext" where
  "set_token_id idx tid b = (
     if \<not> idx_ok b idx then (False, b)
     else if tid < 0 \<or> tid \<ge> bx_n_vocab b then (False, b)
     else (True, upd_token idx (\<lambda>t. t\<lparr>xt_id := tid\<rparr>) b))"

text \<open>The width of the batch is fixed by the first embedding, before the duplicate check.\<close>

definition set_token_embd :: "int \<Rightarrow> llama_embd \<Rightarrow> batch_ext \<Rightarrow> (bool \<times> batch_ext) option" where
  "set_token_embd idx e b = (
     if \<not> idx_ok b idx then Some (False, b)
     else case em_data e of None \<Rightarrow> Some (False, b)
     | Some xs \<Rightarrow>
         (let n = em_total e in
          if bx_n_embd b = 0 \<and> n \<noteq> bx_n_embd_inp b \<and> n \<noteq> bx_n_embd_inp_enc b then Some (False, b)
          else if bx_n_embd b \<noteq> 0 \<and> n \<noteq> bx_n_embd b then Some (False, b)
          else let b = (if bx_n_embd b = 0 then b\<lparr>bx_n_embd := n\<rparr> else b) in
            if xt_has_embd (bx_tokens b ! nat idx) then Some (False, b)
            else do {
              ensure (n \<le> length xs);
              Some (True, (upd_token idx (\<lambda>t. t\<lparr>xt_has_embd := True, xt_embd_off := length (bx_embd b)\<rparr>) b)
                \<lparr>bx_embd := bx_embd b @ take n xs\<rparr>) }))"

definition set_token_state :: "int \<Rightarrow> llama_embd \<Rightarrow> batch_ext \<Rightarrow> (bool \<times> batch_ext) option" where
  "set_token_state idx e b = (
     if \<not> idx_ok b idx then Some (False, b)
     else case em_data e of None \<Rightarrow> Some (False, b)
     | Some xs \<Rightarrow>
         if bx_n_embd_state b = 0 then Some (False, b)
         else if em_total e \<noteq> bx_n_embd_state b then Some (False, b)
         else if xt_has_state (bx_tokens b ! nat idx) then Some (False, b)
         else do {
           ensure (em_total e \<le> length xs);
           Some (True, (upd_token idx (\<lambda>t. t\<lparr>xt_has_state := True, xt_state_off := length (bx_state b)\<rparr>) b)
             \<lparr>bx_state := bx_state b @ take (em_total e) xs\<rparr>) })"

definition set_token_embd_row :: "int \<Rightarrow> int \<Rightarrow> batch_ext \<Rightarrow> bool \<times> batch_ext" where
  "set_token_embd_row idx row b = (
     if \<not> idx_ok b idx then (False, b)
     else if row < 0 then (False, b)
     else let t = bx_tokens b ! nat idx in
       if xt_id t \<noteq> LLAMA_TOKEN_NULL \<or> xt_has_embd t \<or> xt_embd_row t \<ge> 0 then (False, b)
       else (True, upd_token idx (\<lambda>t. t\<lparr>xt_embd_row := row\<rparr>) b))"

definition set_token_pos :: "int \<Rightarrow> llama_pos list option \<Rightarrow> batch_ext \<Rightarrow> (bool \<times> batch_ext) option" where
  "set_token_pos idx pos_in b = (
     if \<not> idx_ok b idx then Some (False, b)
     else case pos_in of None \<Rightarrow> Some (False, b)
     | Some ps \<Rightarrow>
         let t = bx_tokens b ! nat idx;
             n_pos = (if xt_id t \<noteq> LLAMA_TOKEN_NULL then 1 else bx_n_pos_per_embd b)
         in do {
           ensure (n_pos \<le> length ps \<and> n_pos \<le> length (xt_pos t));
           Some (True, upd_token idx (\<lambda>t. t\<lparr>xt_pos := take n_pos ps @ drop n_pos (xt_pos t)\<rparr>) b) })"

definition set_output :: "int \<Rightarrow> bool \<Rightarrow> batch_ext \<Rightarrow> bool \<times> batch_ext" where
  "set_output idx v b = (
     if \<not> idx_ok b idx then (False, b)
     else (True, upd_token idx (\<lambda>t. t\<lparr>xt_output := v\<rparr>) b))"

definition set_decision_order :: "int \<Rightarrow> int \<Rightarrow> batch_ext \<Rightarrow> bool \<times> batch_ext" where
  "set_decision_order idx order b = (
     if \<not> idx_ok b idx then (False, b)
     else (True, upd_token idx (\<lambda>t. t\<lparr>xt_decision_order := order\<rparr>) b))"

section \<open>The C interface\<close>

definition llama_batch_ext_add_token :: "llama_seq_id \<Rightarrow> llama_token \<Rightarrow> batch_ext \<Rightarrow> int \<times> batch_ext" where
  "llama_batch_ext_add_token s tid b = (
     let (idx, b) = add_token s b in
     if idx < 0 then (idx, b)
     else let (ok, b) = set_token_id idx tid b in (if ok then idx else -2, b))"

definition llama_batch_ext_add_embd :: "llama_seq_id \<Rightarrow> llama_embd \<Rightarrow> batch_ext \<Rightarrow> (int \<times> batch_ext) option" where
  "llama_batch_ext_add_embd s e b = (
     let (idx, b) = add_token s b in
     if idx < 0 then Some (idx, b)
     else do { (ok, b) \<leftarrow> set_token_embd idx e b; Some (if ok then idx else -2, b) })"

definition llama_batch_ext_add_embd_row :: "llama_seq_id \<Rightarrow> int \<Rightarrow> batch_ext \<Rightarrow> int \<times> batch_ext" where
  "llama_batch_ext_add_embd_row s row b = (
     let (idx, b) = add_token s b in
     if idx < 0 then (idx, b)
     else let (ok, b) = set_token_embd_row idx row b in (if ok then idx else -2, b))"

section \<open>The old batch\<close>

record llama_batch =
  lb_n_tokens :: nat
  lb_token :: "llama_token list option"
  lb_embd :: "float32 list option"
  lb_pos :: "llama_pos list option"
  lb_n_seq_id :: "int list option"
  lb_seq_id :: "llama_seq_id list list option"
  lb_logits :: "int list option"
  lb_parent :: "int list option"
  lb_node_id :: "int list option"
  lb_parent_node_id :: "int list option"

definition batch_null :: llama_batch where
  "batch_null = \<lparr>lb_n_tokens = 0, lb_token = None, lb_embd = None, lb_pos = None, lb_n_seq_id = None,
     lb_seq_id = None, lb_logits = None, lb_parent = None, lb_node_id = None, lb_parent_node_id = None\<rparr>"

definition slice_of :: "'a list \<Rightarrow> nat \<Rightarrow> nat \<Rightarrow> 'a list option" where
  "slice_of xs off n = (if off + n \<le> length xs then Some (take n (drop off xs)) else None)"

definition next_positions :: "batch_ext \<Rightarrow> int list option" where
  "next_positions b = mapM (\<lambda>s. case bx_mem b of None \<Rightarrow> Some 0
     | Some m \<Rightarrow> do { p \<leftarrow> mem_pos_max m (int s); i32 (p + 1) }) [0..<nat (bx_n_seq_max b)]"

text \<open>The position part of one entry; the second component is \<open>pos_next\<close>.\<close>

definition compat_pos :: "llama_batch \<Rightarrow> nat \<Rightarrow> nat \<Rightarrow> llama_seq_id list \<Rightarrow> int list \<Rightarrow> (llama_pos list \<times> int list) option" where
  "compat_pos inp npe i sids nxt = (case lb_pos inp of
     Some ps \<Rightarrow>
       if lb_token inp \<noteq> None then do { p \<leftarrow> vget ps i; Some ([p, 0, 0, 0], nxt) }
       else do {
         ensure (npe \<le> 4);
         xs \<leftarrow> mapM (\<lambda>j. vget ps (j * lb_n_tokens inp + i)) [0..<npe];
         Some (xs @ replicate (4 - npe) 0, nxt) }
   | None \<Rightarrow> do {
       s \<leftarrow> vget sids 0;
       ensure (0 \<le> s);
       p \<leftarrow> vget nxt (nat s);
       q \<leftarrow> i32 (p + 1);
       nxt \<leftarrow> vset nxt (nat s) q;
       Some ([p, 0, 0, 0], nxt) })"

definition compat_entry :: "llama_batch \<Rightarrow> nat \<Rightarrow> nat \<Rightarrow> batch_ext \<times> int list \<Rightarrow> (batch_ext \<times> int list) option" where
  "compat_entry inp n_row i = (\<lambda>(b, nxt). do {
     n_sid \<leftarrow> (case lb_n_seq_id inp of None \<Rightarrow> Some 1 | Some ns \<Rightarrow> vget ns i);
     sids \<leftarrow> (case lb_seq_id inp of None \<Rightarrow> Some [0] | Some ss \<Rightarrow> vget ss i);
     ensure (n_sid \<le> int (length sids));
     let ids = fold seq_insert (take (nat n_sid) sids) [];
     (ps, nxt) \<leftarrow> compat_pos inp (bx_n_pos_per_embd b) i sids nxt;
     tid \<leftarrow> (case lb_token inp of None \<Rightarrow> Some LLAMA_TOKEN_NULL | Some ts \<Rightarrow> vget ts i);
     out \<leftarrow> (case lb_logits inp of
         Some ls \<Rightarrow> do { l \<leftarrow> vget ls i; Some (l \<noteq> 0) }
       | None \<Rightarrow> Some (i + 1 = lb_n_tokens inp));
     let t = ext_token_new\<lparr>xt_seq_ids := ids, xt_pos := ps, xt_id := tid, xt_output := out\<rparr>;
     (case lb_embd inp of
        None \<Rightarrow> Some (b\<lparr>bx_tokens := bx_tokens b @ [t]\<rparr>, nxt)
      | Some es \<Rightarrow>
          if lb_token inp \<noteq> None \<and> bx_n_embd_state b > 0 then do {
            row \<leftarrow> slice_of es (i * bx_n_embd_state b) (bx_n_embd_state b);
            let t = t\<lparr>xt_has_state := True, xt_state_off := length (bx_state b)\<rparr>;
            Some (b\<lparr>bx_state := bx_state b @ row, bx_tokens := bx_tokens b @ [t]\<rparr>, nxt) }
          else do {
            row \<leftarrow> slice_of es (i * n_row) n_row;
            let t = t\<lparr>xt_has_embd := True, xt_embd_off := length (bx_embd b)\<rparr>;
            Some (b\<lparr>bx_embd := bx_embd b @ row, bx_n_embd := n_row, bx_tokens := bx_tokens b @ [t]\<rparr>, nxt) }) })"

definition compat_init :: "llama_batch \<Rightarrow> nat \<Rightarrow> batch_ext \<Rightarrow> batch_ext option" where
  "compat_init inp n_embd_row b = do {
     nxt \<leftarrow> next_positions b;
     map_option fst (foldM (compat_entry inp (if n_embd_row = 0 then bx_n_embd_inp b else n_embd_row))
       [0..<lb_n_tokens inp] (b, nxt)) }"

end
