(* ===== verification/BatchAllocr.thy ===== *)
theory BatchAllocr
  imports BatchExt
begin

text \<open>
  \<open>class llama_batch_allocr\<close> of \<open>src/llama-batch.cpp\<close>: \<open>init\<close> checks and flattens the input batch,
  the split functions cut it into micro-batches.  A \<open>return false\<close> of \<open>init\<close> is a value of
  \<open>init_error\<close>, one constructor per message; a failing assertion or an access outside an array is
  \<open>None\<close>.  The vectors \<open>token_vec\<close>, \<open>embd_vec\<close>, \<open>pos\<close>, \<open>n_seq_id\<close>, \<open>seq_id\<close>, \<open>output\<close> are the
  arrays of \<open>batch\<close>, which points to them.
\<close>

section \<open>State\<close>

record batch_allocr =
  ba_n_pos_per_embd :: nat
  ba_allow_mixed :: bool
  ba_batch :: llama_batch
  ba_n_embd :: nat
  ba_n_embd_state :: nat
  ba_n_seq_max :: nat
  ba_n_outputs :: nat
  ba_is_embd :: "int list"
  ba_state :: "float32 list"
  ba_embd_row :: "int list"
  ba_seq_id_unq :: "llama_seq_id list"
  ba_seq_idx :: "int list"
  ba_decision_order :: "int list"
  ba_has_cpl :: bool
  ba_seq_pos :: "llama_seq_id \<Rightarrow> llama_pos set"
  ba_seq_cpl :: "(llama_seq_id \<times> llama_seq_id) set"
  ba_seq_set :: "llama_seq_id set list"
  ba_seq_set_map :: "llama_seq_id set \<Rightarrow> nat list"
  ba_out_ids :: "nat list"
  ba_n_used :: nat
  ba_used :: "bool list"

definition allocr_new :: "nat \<Rightarrow> bool \<Rightarrow> batch_allocr" where
  "allocr_new npe mixed = \<lparr>ba_n_pos_per_embd = npe, ba_allow_mixed = mixed, ba_batch = batch_null,
     ba_n_embd = 0, ba_n_embd_state = 0, ba_n_seq_max = 0, ba_n_outputs = 0, ba_is_embd = [], ba_state = [],
     ba_embd_row = [], ba_seq_id_unq = [], ba_seq_idx = replicate 256 (-1), ba_decision_order = [],
     ba_has_cpl = False, ba_seq_pos = (\<lambda>_. {}), ba_seq_cpl = {}, ba_seq_set = [], ba_seq_set_map = (\<lambda>_. []),
     ba_out_ids = [], ba_n_used = 0, ba_used = []\<rparr>"

definition ba_clear :: "batch_allocr \<Rightarrow> batch_allocr" where
  "ba_clear a = a\<lparr>ba_n_outputs := 0, ba_batch := batch_null, ba_is_embd := [], ba_state := [], ba_embd_row := [],
     ba_seq_id_unq := [], ba_decision_order := [], ba_seq_pos := (\<lambda>_. {}), ba_seq_cpl := {}, ba_seq_set := [],
     ba_seq_set_map := (\<lambda>_. []), ba_seq_idx := map (\<lambda>_. -1) (ba_seq_idx a)\<rparr>"

definition get_n_tokens :: "batch_allocr \<Rightarrow> nat" where
  "get_n_tokens a = lb_n_tokens (ba_batch a)"

definition split_reset :: "batch_allocr \<Rightarrow> batch_allocr" where
  "split_reset a = a\<lparr>ba_out_ids := [], ba_n_used := 0, ba_used := replicate (get_n_tokens a) False\<rparr>"

definition ba_seq_pos_min :: "batch_allocr \<Rightarrow> llama_seq_id \<Rightarrow> llama_pos" where
  "ba_seq_pos_min a s = (if ba_seq_pos a s = {} then -1 else Min (ba_seq_pos a s))"

definition ba_seq_pos_max :: "batch_allocr \<Rightarrow> llama_seq_id \<Rightarrow> llama_pos" where
  "ba_seq_pos_max a s = (if ba_seq_pos a s = {} then -1 else Max (ba_seq_pos a s))"

section \<open>Checking and flattening the entries\<close>

datatype init_error =
    Too_many_seqs | Row_presence | Row_with_content | No_content | State_presence | Both_mixed | Mixed_not_allowed
  | Invalid_token | Invalid_seq_id | Parent_without_pos | Invalid_parent | Parent_cycle
  | Inconsistent_pos | Not_continuous | Coupled_diverged | Incompatible_sets | Decreasing_pos

definition is_tok :: "ext_token \<Rightarrow> bool" where
  "is_tok t = (xt_id t \<noteq> LLAMA_TOKEN_NULL)"

definition is_row :: "ext_token \<Rightarrow> bool" where
  "is_row t = (xt_embd_row t \<ge> 0)"

text \<open>The first loop: numbers of entries with a token only, an embedding only, both.\<close>

fun count_kinds :: "bool \<Rightarrow> bool \<Rightarrow> ext_token list \<Rightarrow> nat \<times> nat \<times> nat \<Rightarrow> init_error + nat \<times> nat \<times> nat" where
  "count_kinds has_row has_state [] n = Inr n"
| "count_kinds has_row has_state (t # ts) (n_tok, n_emb, n_both) = (
     if is_row t \<noteq> has_row then Inl Row_presence
     else if is_row t \<and> (is_tok t \<or> xt_has_embd t) then Inl Row_with_content
     else if \<not> is_row t \<and> \<not> is_tok t \<and> \<not> xt_has_embd t then Inl No_content
     else if xt_has_state t \<noteq> has_state then Inl State_presence
     else count_kinds has_row has_state ts
       (n_tok + of_bool (is_tok t \<and> \<not> xt_has_embd t), n_emb + of_bool (xt_has_embd t \<and> \<not> is_tok t),
        n_both + of_bool (is_tok t \<and> xt_has_embd t)))"

text \<open>\<open>token_vec\<close>: placeholder 0 for an embedding entry of a mixed batch.\<close>

fun flat_tokens :: "int \<Rightarrow> bool \<Rightarrow> ext_token list \<Rightarrow> init_error + llama_token list" where
  "flat_tokens n_vocab mixed [] = Inr []"
| "flat_tokens n_vocab mixed (t # ts) = (
     if mixed \<and> xt_has_embd t then map_sum id ((#) 0) (flat_tokens n_vocab mixed ts)
     else if xt_id t < 0 \<or> xt_id t \<ge> n_vocab then Inl Invalid_token
     else map_sum id ((#) (xt_id t)) (flat_tokens n_vocab mixed ts))"

definition flat_embd :: "nat \<Rightarrow> batch_ext \<Rightarrow> float32 list option" where
  "flat_embd n_embd inp = map_option concat (mapM (\<lambda>t.
     if xt_has_embd t then slice_of (bx_embd inp) (xt_embd_off t) n_embd else Some (replicate n_embd 0)) (bx_tokens inp))"

text \<open>\<open>pos[j * n_tok + i]\<close>: section \<open>j\<close> of entry \<open>i\<close>.\<close>

definition entry_pos :: "nat \<Rightarrow> ext_token \<Rightarrow> llama_pos option" where
  "entry_pos j t = do {
     p \<leftarrow> vget (xt_pos t) j;
     if is_tok t then (if j < 3 then vget (xt_pos t) 0 else Some 0) else Some p }"

definition flat_pos :: "nat \<Rightarrow> ext_token list \<Rightarrow> llama_pos list option" where
  "flat_pos npe ts = map_option concat (mapM (\<lambda>j. mapM (entry_pos j) ts) [0..<npe])"

definition seq_ids_valid :: "nat \<Rightarrow> ext_token list \<Rightarrow> bool" where
  "seq_ids_valid n_seq_max ts = list_all (\<lambda>t. list_all (\<lambda>s. 0 \<le> s \<and> s < int n_seq_max) (xt_seq_ids t)) ts"

text \<open>The MultiDecode checks read \<open>batch\<close>, which \<open>clear\<close> has just emptied.\<close>

fun climb :: "int list \<Rightarrow> nat \<Rightarrow> int \<Rightarrow> bool option" where
  "climb par 0 cur = Some False"
| "climb par (Suc d) cur = do {
     ensure (0 \<le> cur);
     p \<leftarrow> vget par (nat cur);
     if p < 0 then Some True else climb par d p }"

definition check_parents :: "llama_batch \<Rightarrow> init_error option option" where
  "check_parents b = (case lb_parent b of
     None \<Rightarrow> Some None
   | Some par \<Rightarrow>
       if lb_pos b = None then Some (Some Parent_without_pos)
       else do {
         ps \<leftarrow> mapM (vget par) [0..<lb_n_tokens b];
         if \<exists>i \<in> {..<lb_n_tokens b}. let p = ps ! i in p < -1 \<or> p \<ge> int (lb_n_tokens b) \<or> p = int i \<or> (p \<ge> 0 \<and> p \<ge> int i)
         then Some (Some Invalid_parent)
         else do {
           oks \<leftarrow> mapM (\<lambda>i. climb par (lb_n_tokens b + 1) (int i)) [0..<lb_n_tokens b];
           Some (if list_all id oks then None else Some Parent_cycle) } })"

definition flat_output :: "bool \<Rightarrow> ext_token list \<Rightarrow> int list" where
  "flat_output output_all ts = (
     let out = map (\<lambda>t. of_bool (xt_output t)) ts in
     if output_all \<and> list_ex (\<lambda>x. x = 0) out then map (\<lambda>_. 1) out else out)"

definition flat_order :: "ext_token list \<Rightarrow> int list" where
  "flat_order ts = (if list_ex (\<lambda>t. xt_decision_order t \<noteq> 0) ts then map xt_decision_order ts else [])"

section \<open>Statistics\<close>

text \<open>Entry \<open>i\<close>: positions and couplings of its sequences; \<open>seq_id[i][0]\<close> is read first.\<close>

definition note_entry :: "nat \<Rightarrow> batch_allocr \<Rightarrow> batch_allocr option" where
  "note_entry i a = do {
     ids \<leftarrow> vget (the (lb_seq_id (ba_batch a))) i;
     p \<leftarrow> vget (the (lb_pos (ba_batch a))) i;
     s0 \<leftarrow> vget ids 0;
     Some (a\<lparr>ba_seq_pos := (\<lambda>s. if s \<in> set ids then insert p (ba_seq_pos a s) else ba_seq_pos a s),
             ba_seq_cpl := ba_seq_cpl a \<union> set (map (\<lambda>s1. (s1, s0)) (tl ids)),
             ba_has_cpl := (ba_has_cpl a \<or> tl ids \<noteq> [])\<rparr>) }"

definition note_set :: "nat \<Rightarrow> batch_allocr \<Rightarrow> batch_allocr option" where
  "note_set i a = do {
     ids \<leftarrow> vget (the (lb_seq_id (ba_batch a))) i;
     Some (a\<lparr>ba_seq_set := ba_seq_set a @ [set ids],
             ba_seq_set_map := (ba_seq_set_map a)(set ids := ba_seq_set_map a (set ids) @ [i])\<rparr>) }"

text \<open>\<open>seq_idx\<close> and \<open>seq_id_unq\<close> from the ids that occur; used here and in \<open>ubatch_add\<close>.\<close>

definition number_seqs :: "nat \<Rightarrow> llama_seq_id set \<Rightarrow> int list \<times> llama_seq_id list \<Rightarrow> int list \<times> llama_seq_id list" where
  "number_seqs n_seq_max S = fold (\<lambda>s (idx, unq).
     if int s \<in> S then (idx[s := int (length unq)], unq @ [int s]) else (idx, unq)) [0..<n_seq_max]"

section \<open>Consistency checks\<close>

text \<open>The first entry of each sequence picks the rule for the positions of a mixed batch.\<close>

definition first_embd :: "batch_allocr \<Rightarrow> bool \<Rightarrow> llama_seq_id \<Rightarrow> bool" where
  "first_embd a mixed s = (
     if mixed then
       (case List.find (\<lambda>i. s \<in> set (the (lb_seq_id (ba_batch a)) ! i)) [0..<get_n_tokens a] of
          Some i \<Rightarrow> ba_is_embd a ! i \<noteq> 0
        | None \<Rightarrow> lb_token (ba_batch a) = None)
     else lb_token (ba_batch a) = None)"

definition mem_max :: "mem_view option \<Rightarrow> llama_seq_id \<Rightarrow> llama_pos option" where
  "mem_max mem s = (case mem of None \<Rightarrow> Some (-1) | Some m \<Rightarrow> mem_pos_max m s)"

definition check_seq_mrope :: "batch_allocr \<Rightarrow> bool \<Rightarrow> mem_view option \<Rightarrow> llama_seq_id \<Rightarrow> init_error option option" where
  "check_seq_mrope a mixed mem s = (
     if ba_seq_pos a s = {} then Some None
     else do {
       p0 \<leftarrow> mem_max mem s;
       Some (if p0 \<ge> 0 \<and> (if \<not> first_embd a mixed s then p0 \<ge> ba_seq_pos_min a s else p0 > ba_seq_pos_min a s)
             then Some Inconsistent_pos else None) })"

definition check_seq_pos :: "batch_allocr \<Rightarrow> mem_view option \<Rightarrow> llama_seq_id \<Rightarrow> init_error option option" where
  "check_seq_pos a mem s = (
     if ba_seq_pos a s = {} then Some None
     else do {
       p0 \<leftarrow> mem_max mem s;
       nxt \<leftarrow> (if p0 \<ge> 0 then i32 (p0 + 1) else Some 0);
       if p0 \<ge> 0 \<and> ba_seq_pos_min a s \<noteq> nxt then Some (Some Inconsistent_pos)
       else do {
         d \<leftarrow> i32 (ba_seq_pos_max a s - ba_seq_pos_min a s);
         n \<leftarrow> i32 (d + 1);
         Some (if n > int (card (ba_seq_pos a s)) then Some Not_continuous else None) } })"

definition check_coupled :: "batch_allocr \<Rightarrow> mem_view \<Rightarrow> llama_seq_id \<Rightarrow> llama_seq_id \<Rightarrow> init_error option option" where
  "check_coupled a m s0 s1 = (
     if (s0, s1) \<in> ba_seq_cpl a then do {
       a0 \<leftarrow> mem_pos_min m s0;
       a1 \<leftarrow> mem_pos_min m s1;
       if a0 \<noteq> a1 then Some (Some Coupled_diverged)
       else do {
         b0 \<leftarrow> mem_pos_max m s0;
         b1 \<leftarrow> mem_pos_max m s1;
         Some (if b0 \<noteq> b1 then Some Coupled_diverged else None) } }
     else Some None)"

text \<open>Run the checks in order; the first error is the result.\<close>

fun first_error :: "('a \<Rightarrow> init_error option option) \<Rightarrow> 'a list \<Rightarrow> init_error option option" where
  "first_error f [] = Some None"
| "first_error f (x # xs) = do { r \<leftarrow> f x; case r of None \<Rightarrow> first_error f xs | Some e \<Rightarrow> Some (Some e) }"

text \<open>Sequence sets may only shrink along a sequence, positions may not decrease.\<close>

fun check_ids :: "llama_seq_id set \<Rightarrow> llama_pos \<Rightarrow> llama_seq_id list \<Rightarrow>
    (llama_seq_id \<Rightarrow> llama_seq_id set) \<times> (llama_seq_id \<Rightarrow> llama_pos) \<Rightarrow>
    init_error + (llama_seq_id \<Rightarrow> llama_seq_id set) \<times> (llama_seq_id \<Rightarrow> llama_pos)" where
  "check_ids S p [] cur = Inr cur"
| "check_ids S p (s # ids) (cs, cp) = (
     if cs s \<inter> S = {} then Inl Incompatible_sets
     else if p < cp s then Inl Decreasing_pos
     else check_ids S p ids (cs(s := cs s \<inter> S), cp(s := p)))"

fun check_sets :: "(llama_pos \<times> llama_seq_id list) list \<Rightarrow>
    (llama_seq_id \<Rightarrow> llama_seq_id set) \<times> (llama_seq_id \<Rightarrow> llama_pos) \<Rightarrow> init_error option" where
  "check_sets [] cur = None"
| "check_sets ((p, ids) # xs) cur = (case check_ids (set ids) p ids cur of Inl e \<Rightarrow> Some e | Inr cur \<Rightarrow> check_sets xs cur)"

section \<open>The whole of \<open>init\<close>\<close>

text \<open>From the number of entries of each kind to the flat arrays.\<close>

definition init_arrays :: "batch_ext \<Rightarrow> bool \<Rightarrow> nat \<times> nat \<times> nat \<Rightarrow> batch_allocr \<Rightarrow> (init_error + batch_allocr) option" where
  "init_arrays inp output_all = (\<lambda>(n_tok, n_emb, n_both) a.
     let ts = bx_tokens inp;
         mixed = (n_tok > 0 \<and> n_emb > 0);
         has_token = (n_tok > 0 \<or> n_both > 0);
         has_embd = (n_emb > 0 \<or> n_both > 0)
     in case (if has_token then map_sum id Some (flat_tokens (bx_n_vocab inp) mixed ts) else Inr None) of
       Inl e \<Rightarrow> Some (Inl e)
     | Inr tok \<Rightarrow> do {
         emb \<leftarrow> (if mixed then map_option Some (flat_embd (ba_n_embd a) inp)
                else Some (if has_embd then Some (bx_embd inp) else None));
         ps \<leftarrow> flat_pos (ba_n_pos_per_embd a) ts;
         if \<not> seq_ids_valid (ba_n_seq_max a) ts then Some (Inl Invalid_seq_id)
         else do {
           r \<leftarrow> check_parents (ba_batch a);
           case r of Some e \<Rightarrow> Some (Inl e)
           | None \<Rightarrow>
               let out = flat_output output_all ts in
               Some (Inr (a\<lparr>
                 ba_is_embd := (if mixed then map (\<lambda>t. of_bool (xt_has_embd t)) ts else []),
                 ba_state := (if xt_has_state (hd ts) then bx_state inp else []),
                 ba_embd_row := (if is_row (hd ts) then map xt_embd_row ts else []),
                 ba_decision_order := flat_order ts,
                 ba_batch := (ba_batch a)\<lparr>lb_n_tokens := length ts, lb_token := tok, lb_embd := emb, lb_pos := Some ps,
                   lb_n_seq_id := Some (map (\<lambda>t. int (length (xt_seq_ids t))) ts),
                   lb_seq_id := Some (map xt_seq_ids ts), lb_logits := Some out\<rparr>,
                 ba_n_outputs := length (filter (\<lambda>x. x \<noteq> 0) out)\<rparr>)) } })"

definition init_stats :: "batch_allocr \<Rightarrow> batch_allocr option" where
  "init_stats a = do {
     a \<leftarrow> foldM note_entry [0..<get_n_tokens a] (a\<lparr>ba_has_cpl := False\<rparr>);
     a \<leftarrow> foldM note_set [0..<get_n_tokens a] a;
     let (idx, unq) = number_seqs (ba_n_seq_max a) (\<Union>(set (ba_seq_set a))) (ba_seq_idx a, ba_seq_id_unq a);
     Some (a\<lparr>ba_seq_idx := idx, ba_seq_id_unq := unq\<rparr>) }"

definition init_checks :: "mem_view option \<Rightarrow> batch_allocr \<Rightarrow> init_error option option" where
  "init_checks mem a = (
     let b = ba_batch a; mixed = (ba_is_embd a \<noteq> []); seqs = map int [0..<ba_n_seq_max a] in do {
     r \<leftarrow> first_error (if ba_n_pos_per_embd a > 1 then check_seq_mrope a mixed mem else check_seq_pos a mem) seqs;
     case r of Some e \<Rightarrow> Some (Some e)
     | None \<Rightarrow> do {
         r \<leftarrow> (case mem of None \<Rightarrow> Some None
            | Some m \<Rightarrow> first_error (\<lambda>(s0, s1). check_coupled a m s0 s1) (List.product seqs seqs));
         case r of Some e \<Rightarrow> Some (Some e)
         | None \<Rightarrow> Some (check_sets (zip (take (lb_n_tokens b) (the (lb_pos b))) (the (lb_seq_id b)))
             (\<lambda>_. seq_ids_ok, \<lambda>_. -1)) } })"

definition ba_init :: "batch_ext \<Rightarrow> bool \<Rightarrow> batch_allocr \<Rightarrow> (init_error + batch_allocr) option" where
  "ba_init inp output_all a = (
     let ts = bx_tokens inp;
         a = (ba_clear a)\<lparr>
           ba_n_embd := (if bx_n_embd inp > 0 then bx_n_embd inp else bx_n_embd_inp inp),
           ba_n_embd_state := bx_n_embd_state inp,
           ba_n_seq_max := nat (bx_n_seq_max inp)\<rparr>
     in do {
       ensure (ts \<noteq> []);
       if bx_n_seq_max inp < 0 \<or> bx_n_seq_max inp > LLAMA_MAX_SEQ then Some (Inl Too_many_seqs)
       else case count_kinds (is_row (hd ts)) (xt_has_state (hd ts)) ts (0, 0, 0) of
         Inl e \<Rightarrow> Some (Inl e)
       | Inr (n_tok, n_emb, n_both) \<Rightarrow>
           if n_both > 0 \<and> n_both \<noteq> length ts then Some (Inl Both_mixed)
           else if n_tok > 0 \<and> n_emb > 0 \<and> \<not> ba_allow_mixed a then Some (Inl Mixed_not_allowed)
           else do {
             r \<leftarrow> init_arrays inp output_all (n_tok, n_emb, n_both) a;
             case r of Inl e \<Rightarrow> Some (Inl e)
             | Inr a \<Rightarrow> do {
                 a \<leftarrow> init_stats a;
                 r \<leftarrow> init_checks (bx_mem inp) a;
                 case r of Some e \<Rightarrow> Some (Inl e) | None \<Rightarrow> Some (Inr (split_reset a)) } } })"

section \<open>Micro-batches\<close>

definition gather :: "'a list \<Rightarrow> nat list \<Rightarrow> 'a list option" where
  "gather xs idxs = mapM (vget xs) idxs"

definition gather_rows :: "'a list \<Rightarrow> nat \<Rightarrow> nat list \<Rightarrow> 'a list option" where
  "gather_rows xs n idxs = map_option concat (mapM (\<lambda>i. slice_of xs (i * n) n) idxs)"

definition opt_gather :: "bool \<Rightarrow> 'a list option \<Rightarrow> 'a list option option" where
  "opt_gather b x = (if b then map_option Some x else Some None)"

definition ubatch_add :: "nat list \<Rightarrow> nat \<Rightarrow> bool \<Rightarrow> batch_allocr \<Rightarrow> (llama_ubatch \<times> batch_allocr) option" where
  "ubatch_add idxs n_seqs eq a = (
     let b = ba_batch a; n = length idxs; mixed_batch = (ba_is_embd a \<noteq> []); npe = ba_n_pos_per_embd a in do {
     ensure (n_seqs \<noteq> 0 \<and> n mod n_seqs = 0);
     rows \<leftarrow> (if mixed_batch then gather (ba_is_embd a) idxs else Some []);
     let n_rows = sum_list rows;
     let mixed = (mixed_batch \<and> n_rows > 0 \<and> n_rows < int n);
     let use_token = (lb_token b \<noteq> None \<and> \<not> (mixed_batch \<and> n_rows = int n));
     let use_embd = (lb_embd b \<noteq> None \<and> \<not> (mixed_batch \<and> n_rows = 0));
     tok \<leftarrow> opt_gather use_token (gather (the (lb_token b)) idxs);
     emb \<leftarrow> opt_gather use_embd (gather_rows (the (lb_embd b)) (ba_n_embd a) idxs);
     st \<leftarrow> opt_gather (ba_state a \<noteq> []) (gather_rows (ba_state a) (ba_n_embd_state a) idxs);
     row \<leftarrow> opt_gather (ba_embd_row a \<noteq> []) (gather (ba_embd_row a) idxs);
     ps \<leftarrow> map_option concat (mapM (\<lambda>j. gather (the (lb_pos b)) (map (\<lambda>i. j * lb_n_tokens b + i) idxs)) [0..<npe]);
     nids \<leftarrow> gather (the (lb_n_seq_id b)) idxs;
     ids \<leftarrow> gather (the (lb_seq_id b)) idxs;
     out \<leftarrow> gather (the (lb_logits b)) idxs;
     order \<leftarrow> opt_gather (ba_decision_order a \<noteq> []) (gather (ba_decision_order a) idxs);
     let (sidx, unq) = number_seqs (ba_n_seq_max a) (\<Union>(set (map set ids))) (replicate 256 (-1), []);
     Some (\<lparr>ub_equal_seqs = eq, ub_n_tokens = n, ub_n_seq_tokens = n div n_seqs, ub_n_seqs = n_seqs,
         ub_n_seqs_unq = length unq, ub_n_pos = npe, ub_token = tok, ub_embd = emb, ub_embd_state = st,
         ub_embd_row = row, ub_pos = ps, ub_n_seq_id = nids, ub_seq_id = ids, ub_seq_id_unq = unq,
         ub_seq_idx = sidx, ub_output = map (\<lambda>x. x \<noteq> 0) out, ub_type = (if mixed then Some rows else None),
         ub_decision_order = order,
         ub_parent = map_option (\<lambda>_. []) (lb_parent b), ub_node_id = map_option (\<lambda>_. []) (lb_node_id b),
         ub_parent_node_id = map_option (\<lambda>_. []) (lb_parent_node_id b), ub_batch_idxs = idxs\<rparr>,
       a\<lparr>ba_out_ids := ba_out_ids a @ map fst (filter (\<lambda>(i, x). x \<noteq> 0) (zip idxs out))\<rparr>) })"

definition ubatch_reserve :: "nat \<Rightarrow> nat \<Rightarrow> batch_allocr \<Rightarrow> (llama_ubatch \<times> batch_allocr) option" where
  "ubatch_reserve n_seq_tokens n_seqs a = (
     let a = split_reset (ba_clear a); n = n_seq_tokens * n_seqs in do {
     ensure (n_seqs \<le> 256);
     Some (ubatch_empty\<lparr>ub_equal_seqs := True, ub_n_tokens := n, ub_n_seq_tokens := n_seq_tokens, ub_n_seqs := n_seqs,
         ub_n_seqs_unq := n_seqs, ub_n_pos := ba_n_pos_per_embd a, ub_token := Some (replicate n 0),
         ub_pos := replicate (n * ba_n_pos_per_embd a) 0, ub_n_seq_id := replicate n 0, ub_seq_id := replicate n [],
         ub_seq_id_unq := map int [0..<n_seqs], ub_seq_idx := map int [0..<n_seqs] @ replicate (256 - n_seqs) (-1),
         ub_output := replicate n False\<rparr>, a) })"

end
