(* ===== verification/BatchSplit.thy ===== *)
theory BatchSplit
  imports BatchAllocr
begin

text \<open>
  The three ways \<open>llama_batch_allocr\<close> cuts a batch: \<open>split_simple\<close>, \<open>split_equal\<close>, \<open>split_seq\<close>.
  Every call returns the next micro-batch, the empty one when the batch is consumed or the split is
  not possible.
\<close>

definition mark :: "nat \<Rightarrow> batch_allocr \<Rightarrow> batch_allocr" where
  "mark i a = a\<lparr>ba_used := (ba_used a)[i := True], ba_n_used := ba_n_used a + 1\<rparr>"

definition unmark :: "nat \<Rightarrow> batch_allocr \<Rightarrow> batch_allocr" where
  "unmark i a = a\<lparr>ba_used := (ba_used a)[i := False], ba_n_used := ba_n_used a - 1\<rparr>"

definition first_unused :: "batch_allocr \<Rightarrow> nat" where
  "first_unused a = length (takeWhile (\<lambda>u. u) (ba_used a))"

section \<open>Simple\<close>

function simple_loop :: "nat \<Rightarrow> nat \<Rightarrow> nat list \<Rightarrow> batch_allocr \<Rightarrow> nat list \<times> batch_allocr" where
  "simple_loop n_ubatch cur idxs a = (
     let idxs = idxs @ [cur]; a = mark cur a; cur = cur + 1 in
     if cur \<ge> length (ba_used a) then (idxs, a)
     else if length idxs \<ge> n_ubatch then (idxs, a)
     else simple_loop n_ubatch cur idxs a)"
  by pat_completeness auto

termination
  by (relation "measure (\<lambda>(n, cur, idxs, a). length (ba_used a) - cur)") (auto simp: mark_def)

definition split_simple :: "nat \<Rightarrow> batch_allocr \<Rightarrow> (llama_ubatch \<times> batch_allocr) option" where
  "split_simple n_ubatch a = (
     let cur = first_unused a in
     if cur \<ge> length (ba_used a) then Some (ubatch_empty, a)
     else if lb_parent (ba_batch a) \<noteq> None \<and> length (filter Not (ba_used a)) > n_ubatch then Some (ubatch_empty, a)
     else let (idxs, a) = simple_loop n_ubatch cur [] a in ubatch_add idxs (length idxs) False a)"

section \<open>By sequence set\<close>

lemma find_upt_SomeD: "List.find P [m..<n] = Some j \<Longrightarrow> m \<le> j \<and> j < n \<and> P j"
  by (auto simp: find_Some_iff)

lemma get_n_tokens_mark [simp]: "get_n_tokens (mark i a) = get_n_tokens a"
  by (simp add: mark_def get_n_tokens_def)

function seq_loop :: "nat \<Rightarrow> nat \<Rightarrow> nat list \<Rightarrow> batch_allocr \<Rightarrow> nat list \<times> batch_allocr" where
  "seq_loop n_ubatch cur idxs a = (
     let idxs = idxs @ [cur]; a = mark cur a; S = ba_seq_set a ! cur in
     if length idxs \<ge> n_ubatch then (idxs, a)
     else case List.find (\<lambda>j. \<not> (ba_used a ! j \<or> S \<inter> ba_seq_set a ! j \<noteq> ba_seq_set a ! j)) [cur + 1..<get_n_tokens a] of
       None \<Rightarrow> (idxs, a)
     | Some j \<Rightarrow> seq_loop n_ubatch j idxs a)"
  by pat_completeness auto

termination
  by (relation "measure (\<lambda>(n, cur, idxs, a). get_n_tokens a - cur)") (auto dest: find_upt_SomeD)

definition split_seq :: "nat \<Rightarrow> batch_allocr \<Rightarrow> (llama_ubatch \<times> batch_allocr) option" where
  "split_seq n_ubatch a = (
     let cur = first_unused a in
     if cur \<ge> length (ba_used a) then Some (ubatch_empty, a)
     else let (idxs, a) = seq_loop n_ubatch cur [] a in ubatch_add idxs 1 True a)"

section \<open>Equal lengths\<close>

text \<open>Non-overlapping sequence sets of unused tokens; the loop stops once there are more than \<open>n_ubatch\<close>.\<close>

fun pick_sets :: "nat \<Rightarrow> bool \<Rightarrow> batch_allocr \<Rightarrow> nat list \<Rightarrow> llama_seq_id set list \<Rightarrow> int \<Rightarrow> llama_seq_id set list option" where
  "pick_sets n_ubatch sequential a [] sets prev = Some sets"
| "pick_sets n_ubatch sequential a (i # js) sets prev = do {
     u \<leftarrow> vget (ba_used a) i;
     S \<leftarrow> vget (ba_seq_set a) i;
     if u \<or> list_ex (\<lambda>T. T \<inter> S \<noteq> {}) sets then pick_sets n_ubatch sequential a js sets prev
     else do {
       ids \<leftarrow> vget (the (lb_seq_id (ba_batch a))) i;
       s0 \<leftarrow> vget ids 0;
       if sequential \<and> sets \<noteq> [] \<and> s0 \<noteq> prev + 1 then pick_sets n_ubatch sequential a js sets prev
       else if length (sets @ [S]) > n_ubatch then Some (sets @ [S])
       else pick_sets n_ubatch sequential a js (sets @ [S]) s0 } }"

fun skip_used :: "bool list \<Rightarrow> nat list \<Rightarrow> nat option" where
  "skip_used used [] = None"
| "skip_used used (i # js) = do {
     u \<leftarrow> vget used i;
     if u then map_option Suc (skip_used used js) else Some 0 }"

record eq_state =
  es_a :: batch_allocr
  es_cur :: "nat list"
  es_idxs :: "nat list list"

text \<open>One more token of sequence set \<open>s\<close>.\<close>

definition take_one :: "nat list list \<Rightarrow> nat \<Rightarrow> eq_state \<Rightarrow> eq_state option" where
  "take_one Ls s e = do {
     L \<leftarrow> vget Ls s;
     c \<leftarrow> vget (es_cur e) s;
     idx \<leftarrow> vget L c;
     xs \<leftarrow> vget (es_idxs e) s;
     ensure (idx < length (ba_used (es_a e)));
     Some \<lparr>es_a = mark idx (es_a e), es_cur = (es_cur e)[s := c + 1], es_idxs = (es_idxs e)[s := xs @ [idx]]\<rparr> }"

partial_function (option) expand :: "nat \<Rightarrow> nat list list \<Rightarrow> eq_state \<Rightarrow> eq_state option" where
  "expand n_ubatch Ls e = (
     if list_ex (\<lambda>s. es_cur e ! s \<ge> length (Ls ! s)) [0..<length Ls] then Some e
     else Option.bind (foldM (take_one Ls) [0..<length Ls] e) (\<lambda>e.
       if (length (hd (es_idxs e)) + 1) * length Ls > n_ubatch then Some e
       else expand n_ubatch Ls e))"

text \<open>Give back the last tokens of a sequence set until at least \<open>tail\<close> remain.\<close>

function give_back :: "nat \<Rightarrow> nat \<Rightarrow> nat \<Rightarrow> nat list \<Rightarrow> batch_allocr \<Rightarrow> (nat list \<times> batch_allocr) option" where
  "give_back len tail cur idxs a = (
     if len - cur < tail then
       (if idxs = [] \<or> cur = 0 then None
        else give_back len tail (cur - 1) (butlast idxs) (unmark (last idxs) a))
     else Some (idxs, a))"
  by pat_completeness auto

termination
  by (relation "measure (\<lambda>(t, n, cur, idxs, a). length idxs)") auto

text \<open>The constraint that the last \<open>n_keep_tail\<close> tokens of a sequence stay together.\<close>

definition keep_tail :: "nat \<Rightarrow> nat \<Rightarrow> nat list list \<Rightarrow> eq_state \<Rightarrow> (nat list list \<times> batch_allocr) option" where
  "keep_tail n_ubatch tail Ls e = (
     let rem = map (\<lambda>s. length (Ls ! s) - es_cur e ! s) [0..<length Ls];
         n_keep = length (takeWhile (\<lambda>r. \<not> (r \<noteq> 0 \<and> r < tail)) rem) in do {
     ensure (n_ubatch > tail);
     (first, a, n_keep) \<leftarrow> (
       if n_keep = 0 then
         (if length (hd (es_idxs e)) + hd rem \<le> n_ubatch then
            Some (hd (es_idxs e) @ drop (hd (es_cur e)) (hd Ls),
                  fold mark (drop (hd (es_cur e)) (hd Ls)) (es_a e), 1)
          else do {
            (xs, a) \<leftarrow> give_back (length (hd Ls)) tail (hd (es_cur e)) (hd (es_idxs e)) (es_a e);
            Some (xs, a, 1) })
       else Some (hd (es_idxs e), es_a e, n_keep));
     let kept = take n_keep (first # tl (es_idxs e));
     Some (kept, fold unmark (concat (drop n_keep (es_idxs e))) a) })"

definition split_equal :: "nat \<Rightarrow> bool \<Rightarrow> nat \<Rightarrow> batch_allocr \<Rightarrow> (llama_ubatch \<times> batch_allocr) option" where
  "split_equal n_ubatch sequential tail a = (
     if lb_parent (ba_batch a) \<noteq> None then Some (ubatch_empty, a)
     else if sequential \<and> ba_has_cpl a then Some (ubatch_empty, a)
     else do {
       sets \<leftarrow> pick_sets n_ubatch sequential a [0..<get_n_tokens a] [] (-1);
       if sets = [] then Some (ubatch_empty, a)
       else let Ls = map (ba_seq_set_map a) sets in do {
         cur \<leftarrow> mapM (skip_used (ba_used a)) Ls;
         e \<leftarrow> expand n_ubatch Ls \<lparr>es_a = a, es_cur = cur, es_idxs = replicate (length Ls) []\<rparr>;
         (kept, a) \<leftarrow> (if tail > 0 then keep_tail n_ubatch tail Ls e else Some (es_idxs e, es_a e));
         ubatch_add (concat kept) (length kept) True a } })"

end
