(* ===== verification/BatchFacts.thy ===== *)
theory BatchFacts
  imports BatchSplit
begin

text \<open>
  What an accepted batch looks like (\<open>ba_ok\<close>) and what \<open>ubatch_add\<close> makes of it.
\<close>

section \<open>The accepted batch\<close>

abbreviation ba_n :: "batch_allocr \<Rightarrow> nat" where
  "ba_n a \<equiv> lb_n_tokens (ba_batch a)"

abbreviation ba_ids :: "batch_allocr \<Rightarrow> llama_seq_id list list" where
  "ba_ids a \<equiv> the (lb_seq_id (ba_batch a))"

abbreviation ba_pos :: "batch_allocr \<Rightarrow> llama_pos list" where
  "ba_pos a \<equiv> the (lb_pos (ba_batch a))"

abbreviation ba_logits :: "batch_allocr \<Rightarrow> int list" where
  "ba_logits a \<equiv> the (lb_logits (ba_batch a))"

definition ba_ok :: "batch_allocr \<Rightarrow> bool" where
  "ba_ok a = (let b = ba_batch a; n = lb_n_tokens b in
     lb_seq_id b \<noteq> None \<and> lb_pos b \<noteq> None \<and> lb_logits b \<noteq> None \<and>
     lb_n_seq_id b = Some (map (\<lambda>x. int (length x)) (ba_ids a)) \<and>
     length (ba_ids a) = n \<and> length (ba_pos a) = ba_n_pos_per_embd a * n \<and> length (ba_logits a) = n \<and>
     (\<forall>i < n. ba_ids a ! i \<noteq> [] \<and> distinct (ba_ids a ! i) \<and> set (ba_ids a ! i) \<subseteq> {0..<int (ba_n_seq_max a)}) \<and>
     ba_n_seq_max a \<le> 256 \<and> 1 \<le> ba_n_pos_per_embd a \<and>
     pred_option (\<lambda>ts. length ts = n) (lb_token b) \<and> pred_option (\<lambda>es. length es = n * ba_n_embd a) (lb_embd b) \<and>
     (ba_is_embd a \<noteq> [] \<longrightarrow> length (ba_is_embd a) = n) \<and> (ba_state a \<noteq> [] \<longrightarrow> length (ba_state a) = n * ba_n_embd_state a) \<and>
     (ba_embd_row a \<noteq> [] \<longrightarrow> length (ba_embd_row a) = n) \<and> (ba_decision_order a \<noteq> [] \<longrightarrow> length (ba_decision_order a) = n) \<and>
     lb_parent b = None \<and> lb_node_id b = None \<and> lb_parent_node_id b = None \<and>
     ba_seq_set a = map set (ba_ids a) \<and> (\<forall>S. ba_seq_set_map a S = filter (\<lambda>i. set (ba_ids a ! i) = S) [0..<n]))"

lemma ba_okD:
  assumes "ba_ok a"
  shows "lb_seq_id (ba_batch a) = Some (ba_ids a)" "lb_pos (ba_batch a) = Some (ba_pos a)" "lb_logits (ba_batch a) = Some (ba_logits a)"
    "lb_n_seq_id (ba_batch a) = Some (map (\<lambda>x. int (length x)) (ba_ids a))"
    "length (ba_ids a) = ba_n a" "length (ba_pos a) = ba_n_pos_per_embd a * ba_n a" "length (ba_logits a) = ba_n a"
    "\<And>i. i < ba_n a \<Longrightarrow> ba_ids a ! i \<noteq> [] \<and> distinct (ba_ids a ! i) \<and> set (ba_ids a ! i) \<subseteq> {0..<int (ba_n_seq_max a)}"
    "ba_n_seq_max a \<le> 256" "1 \<le> ba_n_pos_per_embd a"
    "pred_option (\<lambda>ts. length ts = ba_n a) (lb_token (ba_batch a))"
    "pred_option (\<lambda>es. length es = ba_n a * ba_n_embd a) (lb_embd (ba_batch a))"
    "ba_is_embd a \<noteq> [] \<Longrightarrow> length (ba_is_embd a) = ba_n a" "ba_state a \<noteq> [] \<Longrightarrow> length (ba_state a) = ba_n a * ba_n_embd_state a"
    "ba_embd_row a \<noteq> [] \<Longrightarrow> length (ba_embd_row a) = ba_n a"
    "ba_decision_order a \<noteq> [] \<Longrightarrow> length (ba_decision_order a) = ba_n a"
    "lb_parent (ba_batch a) = None" "lb_node_id (ba_batch a) = None" "lb_parent_node_id (ba_batch a) = None"
    "ba_seq_set a = map set (ba_ids a)" "\<And>S. ba_seq_set_map a S = filter (\<lambda>i. set (ba_ids a ! i) = S) [0..<ba_n a]"
  using assms by (auto simp: ba_ok_def Let_def)

section \<open>Gathering\<close>

lemma gather_eq: "(\<And>i. i \<in> set idxs \<Longrightarrow> i < length xs) \<Longrightarrow> gather xs idxs = Some (map ((!) xs) idxs)"
  unfolding gather_def by (rule mapM_map) (simp add: vget_def)

definition row_of :: "'a list \<Rightarrow> nat \<Rightarrow> nat \<Rightarrow> 'a list" where
  "row_of xs n i = take n (drop (i * n) xs)"

lemma gather_rows_eq:
  assumes "\<And>i. i \<in> set idxs \<Longrightarrow> i < m" "length xs = m * n"
  shows "gather_rows xs n idxs = Some (concat (map (row_of xs n) idxs))"
proof -
  have "slice_of xs (i * n) n = Some (row_of xs n i)" if "i \<in> set idxs" for i
  proof -
    have "Suc i * n \<le> m * n" using assms(1) [OF that] by (intro mult_le_mono1) simp
    then show ?thesis using assms(2) by (simp add: slice_of_def row_of_def add.commute)
  qed
  then show ?thesis by (simp add: gather_rows_def mapM_map)
qed

lemma nth_concat_block:
  assumes "\<And>x. x \<in> set xss \<Longrightarrow> length x = n" "j < length xss" "i < n"
  shows "concat xss ! (j * n + i) = xss ! j ! i"
  using assms
proof (induction xss arbitrary: j)
  case (Cons x xss)
  then show ?case by (cases j) (auto simp: nth_append)
qed simp

lemma length_concat_block: "(\<And>x. x \<in> set xss \<Longrightarrow> length x = n) \<Longrightarrow> length (concat xss) = length xss * n"
  by (induction xss) auto

lemma UN_set_nth: "(\<Union>x \<in> set xs. f x) = (\<Union>i < length xs. f (xs ! i))"
proof -
  have "set xs = (!) xs ` {..<length xs}" by (auto simp: in_set_conv_nth)
  then show ?thesis by simp
qed

lemma number_seqs_step:
  "number_seqs (Suc n) S x = (let (idx, unq) = number_seqs n S x in
     if int n \<in> S then (idx[n := int (length unq)], unq @ [int n]) else (idx, unq))"
  by (simp add: number_seqs_def split: prod.splits)

lemma number_seqs_eq:
  assumes "length idx = 256" "n \<le> 256"
  shows "length (fst (number_seqs n S (idx, []))) = 256 \<and> snd (number_seqs n S (idx, [])) = map int (filter (\<lambda>s. int s \<in> S) [0..<n]) \<and>
    (\<forall>s < 256. fst (number_seqs n S (idx, [])) ! s =
       (if s < n \<and> int s \<in> S then int (length (filter (\<lambda>t. int t \<in> S) [0..<s])) else idx ! s))"
  using assms(2)
proof (induction n)
  case 0
  then show ?case using assms(1) by (simp add: number_seqs_def)
next
  case (Suc n)
  obtain i u where iu: "number_seqs n S (idx, []) = (i, u)" by (cases "number_seqs n S (idx, [])")
  with Suc show ?case by (auto simp: number_seqs_step nth_list_update less_Suc_eq)
qed

lemma number_seqs_unq:
  assumes "length idx = 256" "n \<le> 256" "S \<subseteq> {0..<int n}"
  shows "set (snd (number_seqs n S (idx, []))) = S" "distinct (snd (number_seqs n S (idx, [])))" "sorted (snd (number_seqs n S (idx, [])))"
proof -
  have u: "snd (number_seqs n S (idx, [])) = map int (filter (\<lambda>s. int s \<in> S) [0..<n])"
    using number_seqs_eq [OF assms(1,2)] by blast
  show "distinct (snd (number_seqs n S (idx, [])))" unfolding u by (simp add: distinct_map)
  have "sorted (filter (\<lambda>s. int s \<in> S) [0..<n])" by (simp add: sorted_wrt_filter)
  then show "sorted (snd (number_seqs n S (idx, [])))" unfolding u
    by (rule sorted_map [THEN iffD2, OF sorted_wrt_mono_rel, rotated]) auto
  show "set (snd (number_seqs n S (idx, []))) = S"
  proof
    show "S \<subseteq> set (snd (number_seqs n S (idx, [])))"
    proof
      fix s assume s: "s \<in> S"
      then have "0 \<le> s" "s < int n" using assms(3) by auto
      then have "s = int (nat s)" "nat s < n" by auto
      then show "s \<in> set (snd (number_seqs n S (idx, [])))" unfolding u using s by (auto intro!: image_eqI [where x = "nat s"])
    qed
  qed (auto simp: u)
qed

section \<open>One micro-batch\<close>

text \<open>Token \<open>i\<close> of the micro-batch is entry \<open>idxs ! i\<close> of the batch.\<close>

definition ubatch_of :: "batch_allocr \<Rightarrow> nat list \<Rightarrow> nat \<Rightarrow> bool \<Rightarrow> llama_ubatch \<Rightarrow> bool" where
  "ubatch_of a idxs n_seqs eq ub = (let n = length idxs in
     ub_batch_idxs ub = idxs \<and> ub_n_tokens ub = n \<and> ub_n_seqs ub = n_seqs \<and> ub_n_seq_tokens ub = n div n_seqs \<and>
     ub_equal_seqs ub = eq \<and> ub_n_pos ub = ba_n_pos_per_embd a \<and> ub_parent ub = None \<and>
     length (ub_pos ub) = n * ba_n_pos_per_embd a \<and>
     (\<forall>i < n. (\<forall>j < ba_n_pos_per_embd a. ub_pos ub ! (j * n + i) = ba_pos a ! (j * ba_n a + idxs ! i)) \<and>
        ub_seq_id ub ! i = ba_ids a ! (idxs ! i) \<and> ub_output ub ! i = (ba_logits a ! (idxs ! i) \<noteq> 0)) \<and>
     (\<forall>ts. ub_token ub = Some ts \<longrightarrow> lb_token (ba_batch a) \<noteq> None \<and> ts = map ((!) (the (lb_token (ba_batch a)))) idxs) \<and>
     (\<forall>es. ub_embd ub = Some es \<longrightarrow> lb_embd (ba_batch a) \<noteq> None \<and>
        es = concat (map (row_of (the (lb_embd (ba_batch a))) (ba_n_embd a)) idxs)))"

lemma ubatch_add_wp:
  assumes a: "ba_ok a" and ix: "\<And>i. i \<in> set idxs \<Longrightarrow> i < ba_n a" and n: "0 < n_seqs" "length idxs mod n_seqs = 0"
  shows "wp (ubatch_add idxs n_seqs eq a) (\<lambda>(ub, a'). ubatch_of a idxs n_seqs eq ub \<and>
    ((\<forall>i \<in> set idxs. 0 \<le> ba_pos a ! i) \<longrightarrow> ubatch_ok ub) \<and>
    a' = a\<lparr>ba_out_ids := ba_out_ids a @ filter (\<lambda>i. ba_logits a ! i \<noteq> 0) idxs\<rparr>)"
proof -
  note ok = ba_okD [OF a]
  let ?n = "length idxs" and ?npe = "ba_n_pos_per_embd a" and ?b = "ba_batch a"
  define ids where "ids = map ((!) (ba_ids a)) idxs"
  define S where "S = \<Union>(set (map set ids))"
  obtain sidx unq where su: "number_seqs (ba_n_seq_max a) S (replicate 256 (-1), []) = (sidx, unq)"
    by (cases "number_seqs (ba_n_seq_max a) S (replicate 256 (-1), [])")
  have SS: "S \<subseteq> {0..<int (ba_n_seq_max a)}" using ok(8) ix by (fastforce simp: S_def ids_def)
  have uq: "set unq = S" "distinct unq" using number_seqs_unq [OF _ ok(9) SS, of "replicate 256 (-1)"] su by auto
  have g: "gather (ba_ids a) idxs = Some ids" "gather (ba_logits a) idxs = Some (map ((!) (ba_logits a)) idxs)"
    "gather (the (lb_n_seq_id ?b)) idxs = Some (map (\<lambda>x. int (length x)) ids)"
    using ix ok(4,5,7) by (auto simp: gather_eq ids_def)
  define pss where "pss = map (\<lambda>j. map (\<lambda>i. ba_pos a ! (j * ba_n a + i)) idxs) [0..<?npe]"
  have pj: "gather (ba_pos a) (map (\<lambda>i. j * ba_n a + i) idxs) = Some (map (\<lambda>i. ba_pos a ! (j * ba_n a + i)) idxs)" if "j < ?npe" for j
  proof -
    have "j * ba_n a + i < length (ba_pos a)" if i: "i \<in> set idxs" for i
      using ix [OF i] mult_le_mono1 [of "Suc j" ?npe "ba_n a"] \<open>j < ?npe\<close> ok(6) by simp
    then show ?thesis by (subst gather_eq) auto
  qed
  have ps: "mapM (\<lambda>j. gather (ba_pos a) (map (\<lambda>i. j * ba_n a + i) idxs)) [0..<?npe] = Some pss"
    unfolding pss_def by (rule mapM_map) (use pj in simp)
  have blk: "\<And>x. x \<in> set pss \<Longrightarrow> length x = ?n" and lp: "length pss = ?npe" by (auto simp: pss_def)
  have pos: "concat pss ! (j * ?n + i) = ba_pos a ! (j * ba_n a + idxs ! i)" if "j < ?npe" "i < ?n" for i j
    using nth_concat_block [where xss = pss and j = j and i = i, OF blk] that lp by (simp add: pss_def)
  have plen: "length (concat pss) = ?n * ?npe" using length_concat_block [OF blk] lp by (simp add: mult.commute)
  have pos0: "concat pss ! i = ba_pos a ! (idxs ! i)" if "i < ?n" for i using pos [of 0 i] that ok(10) by simp
  define rows where "rows = (if ba_is_embd a \<noteq> [] then map ((!) (ba_is_embd a)) idxs else [])"
  have rw: "(if ba_is_embd a \<noteq> [] then gather (ba_is_embd a) idxs else Some []) = Some rows"
    using ix ok(13) by (auto simp: rows_def gather_eq)
  have tk: "opt_gather q (gather (the (lb_token ?b)) idxs) = Some (if q then Some (map ((!) (the (lb_token ?b))) idxs) else None)"
    if "q \<Longrightarrow> lb_token ?b \<noteq> None" for q using that ok(11) ix by (auto simp: opt_gather_def gather_eq)
  have em: "opt_gather q (gather_rows (the (lb_embd ?b)) (ba_n_embd a) idxs) =
      Some (if q then Some (concat (map (row_of (the (lb_embd ?b)) (ba_n_embd a)) idxs)) else None)"
    if "q \<Longrightarrow> lb_embd ?b \<noteq> None" for q
    using that ok(12) gather_rows_eq [OF ix, where xs = "the (lb_embd ?b)" and n = "ba_n_embd a"] by (auto simp: opt_gather_def)
  have st: "\<exists>x. opt_gather (ba_state a \<noteq> []) (gather_rows (ba_state a) (ba_n_embd_state a) idxs) = Some x"
    using ok(14) gather_rows_eq [OF ix, where xs = "ba_state a" and n = "ba_n_embd_state a"] by (auto simp: opt_gather_def)
  have ro: "\<exists>x. opt_gather (ba_embd_row a \<noteq> []) (gather (ba_embd_row a) idxs) = Some x"
    "\<exists>x. opt_gather (ba_decision_order a \<noteq> []) (gather (ba_decision_order a) idxs) = Some x"
    using ok(15,16) ix by (auto simp: opt_gather_def gather_eq)
  obtain st' ro' od' where sro: "opt_gather (ba_state a \<noteq> []) (gather_rows (ba_state a) (ba_n_embd_state a) idxs) = Some st'"
    "opt_gather (ba_embd_row a \<noteq> []) (gather (ba_embd_row a) idxs) = Some ro'"
    "opt_gather (ba_decision_order a \<noteq> []) (gather (ba_decision_order a) idxs) = Some od'"
    using st ro by blast
  have out: "map fst (filter (\<lambda>(i, x). x \<noteq> 0) (zip idxs (map ((!) (ba_logits a)) idxs))) = filter (\<lambda>i. ba_logits a ! i \<noteq> 0) idxs"
    by (induction idxs) auto
  define use_t where "use_t = (lb_token ?b \<noteq> None \<and> \<not> (ba_is_embd a \<noteq> [] \<and> sum_list rows = int ?n))"
  define use_e where "use_e = (lb_embd ?b \<noteq> None \<and> \<not> (ba_is_embd a \<noteq> [] \<and> sum_list rows = 0))"
  have ut: "use_t \<Longrightarrow> lb_token ?b \<noteq> None" and ue: "use_e \<Longrightarrow> lb_embd ?b \<noteq> None"
    unfolding use_t_def use_e_def by blast+
  define mx where "mx = (ba_is_embd a \<noteq> [] \<and> sum_list rows > 0 \<and> sum_list rows < int ?n)"
  define ub where "ub = \<lparr>ub_equal_seqs = eq, ub_n_tokens = ?n, ub_n_seq_tokens = ?n div n_seqs, ub_n_seqs = n_seqs,
         ub_n_seqs_unq = length unq, ub_n_pos = ?npe, ub_token = (if use_t then Some (map ((!) (the (lb_token ?b))) idxs) else None),
         ub_embd = (if use_e then Some (concat (map (row_of (the (lb_embd ?b)) (ba_n_embd a)) idxs)) else None), ub_embd_state = st',
         ub_embd_row = ro', ub_pos = concat pss, ub_n_seq_id = map (\<lambda>x. int (length x)) ids, ub_seq_id = ids, ub_seq_id_unq = unq,
         ub_seq_idx = sidx, ub_output = map (\<lambda>x. x \<noteq> 0) (map ((!) (ba_logits a)) idxs), ub_type = (if mx then Some rows else None),
         ub_decision_order = od', ub_parent = None, ub_node_id = None, ub_parent_node_id = None, ub_batch_idxs = idxs\<rparr>"
  have eq: "ubatch_add idxs n_seqs eq a = Some (ub, a\<lparr>ba_out_ids := ba_out_ids a @ filter (\<lambda>i. ba_logits a ! i \<noteq> 0) idxs\<rparr>)"
    unfolding ubatch_add_def Let_def using n
    by (simp add: rw tk [of use_t, OF ut] em [of use_e, OF ue] sro g ps out su use_t_def [symmetric] use_e_def [symmetric] mx_def [symmetric]
        S_def [symmetric] ub_def ok(17-19) del: set_map not_None_eq de_Morgan_conj)
  have "ubatch_of a idxs n_seqs eq ub"
    using pos plen by (auto simp: ubatch_of_def ub_def ids_def use_t_def use_e_def Let_def)
  moreover have "ubatch_ok ub" if nn: "\<forall>i \<in> set idxs. 0 \<le> ba_pos a ! i"
  proof -
    have "ids ! i \<noteq> [] \<and> distinct (ids ! i) \<and> set (ids ! i) \<subseteq> seq_ids_ok" if "i < ?n" for i
      using ok(8) [OF ix, of "idxs ! i"] that ok(9) by (fastforce simp: ids_def)
    moreover have "set unq = (\<Union>i < ?n. set (ids ! i))"
      unfolding uq(1) S_def by (simp only: set_map UN_simps(10) UN_set_nth) (simp add: ids_def)
    moreover have "mx \<Longrightarrow> length rows = ?n" by (simp add: mx_def rows_def)
    ultimately show ?thesis
      using nn plen pos0 uq(2) ok(10) by (auto simp: ubatch_ok_def ub_def ids_def)
  qed
  ultimately show ?thesis unfolding eq by simp
qed

end
