(* ===== verification/BatchInit.thy ===== *)
theory BatchInit
  imports BatchFacts MemoryInterface
begin

text \<open>
  \<open>llama_batch_allocr::init\<close>: it always returns, and what it accepts is a consistent batch.
\<close>

section \<open>Well-formed input\<close>

definition bx_ok :: "batch_ext \<Rightarrow> bool" where
  "bx_ok b = (0 < bx_n_embd_inp b \<and> 0 < bx_n_embd_inp_enc b \<and> 1 \<le> bx_n_pos_per_embd b \<and> bx_n_pos_per_embd b \<le> 4 \<and>
     (\<forall>t \<in> set (bx_tokens b). xt_seq_ids t \<noteq> [] \<and> distinct (xt_seq_ids t) \<and> length (xt_pos t) = 4 \<and>
        (xt_has_embd t \<longrightarrow> 0 < bx_n_embd b \<and> xt_embd_off t + bx_n_embd b \<le> length (bx_embd b))) \<and>
     length (bx_embd b) = bx_n_embd b * length (filter xt_has_embd (bx_tokens b)) \<and>
     length (bx_state b) = bx_n_embd_state b * length (filter xt_has_state (bx_tokens b)))"

section \<open>The arrays\<close>

lemma count_kinds_sound:
  "count_kinds r s ts (x, y, z) = Inr n \<Longrightarrow>
    n = (x + length (filter (\<lambda>t. is_tok t \<and> \<not> xt_has_embd t) ts), y + length (filter (\<lambda>t. xt_has_embd t \<and> \<not> is_tok t) ts),
         z + length (filter (\<lambda>t. is_tok t \<and> xt_has_embd t) ts)) \<and>
    (\<forall>t \<in> set ts. is_row t = r \<and> xt_has_state t = s \<and> (r \<longrightarrow> \<not> is_tok t \<and> \<not> xt_has_embd t) \<and> (\<not> r \<longrightarrow> is_tok t \<or> xt_has_embd t))"
proof (induction ts arbitrary: x y z)
  case (Cons t ts)
  have c: "is_row t = r" "xt_has_state t = s" "r \<longrightarrow> \<not> is_tok t \<and> \<not> xt_has_embd t" "\<not> r \<longrightarrow> is_tok t \<or> xt_has_embd t"
    and rest: "count_kinds r s ts (x + of_bool (is_tok t \<and> \<not> xt_has_embd t), y + of_bool (xt_has_embd t \<and> \<not> is_tok t),
        z + of_bool (is_tok t \<and> xt_has_embd t)) = Inr n"
    using Cons.prems by (auto split: if_splits)
  show ?case using Cons.IH [OF rest] c by simp
qed simp

text \<open>In a mixed batch an entry has an embedding or a token, in any other all have a token or none has.\<close>

lemma entry_kind:
  assumes "(x, y, z) = (0 + length (filter (\<lambda>t. is_tok t \<and> \<not> xt_has_embd t) ts), 0 + length (filter (\<lambda>t. xt_has_embd t \<and> \<not> is_tok t) ts),
         0 + length (filter (\<lambda>t. is_tok t \<and> xt_has_embd t) ts)) \<and>
    (\<forall>t \<in> set ts. is_row t = r \<and> xt_has_state t = s \<and> (r \<longrightarrow> \<not> is_tok t \<and> \<not> xt_has_embd t) \<and> (\<not> r \<longrightarrow> is_tok t \<or> xt_has_embd t))"
    and "t \<in> set ts" "z = 0 \<or> z = length ts"
  shows "(if 0 < x \<and> 0 < y then xt_has_embd t else \<not> (0 < x \<or> 0 < z)) = (\<not> is_tok t)"
proof -
  let ?T = "filter (\<lambda>t. is_tok t \<and> \<not> xt_has_embd t) ts" and ?E = "filter (\<lambda>t. xt_has_embd t \<and> \<not> is_tok t) ts"
    and ?B = "filter (\<lambda>t. is_tok t \<and> xt_has_embd t) ts"
  have n: "x = length ?T" "y = length ?E" "z = length ?B" using assms(1) by simp_all
  have mem: "(t \<in> set ?T) = (is_tok t \<and> \<not> xt_has_embd t)" "(t \<in> set ?E) = (xt_has_embd t \<and> \<not> is_tok t)"
    "(t \<in> set ?B) = (is_tok t \<and> xt_has_embd t)" using assms(2) by simp_all
  have split: "x + y + z \<le> length ts"
    unfolding n by (induction ts) auto
  have row: "is_row t = r \<and> (r \<longrightarrow> \<not> is_tok t \<and> \<not> xt_has_embd t) \<and> (\<not> r \<longrightarrow> is_tok t \<or> xt_has_embd t)"
    "r \<Longrightarrow> x = 0 \<and> z = 0" using assms(1,2) by (auto simp: filter_empty_conv)
  have pos: "t \<in> set ?T \<Longrightarrow> 0 < x" "t \<in> set ?E \<Longrightarrow> 0 < y" "t \<in> set ?B \<Longrightarrow> 0 < z"
    unfolding n by (erule length_pos_if_in_set)+
  have "z = 0 \<or> x = 0 \<and> y = 0" using split assms(3) by auto
  then show ?thesis using mem row pos by auto
qed

lemma flat_tokens_sound:
  "flat_tokens n mixed ts = Inr xs \<Longrightarrow> length xs = length ts \<and>
    (\<forall>i < length ts. \<not> (mixed \<and> xt_has_embd (ts ! i)) \<longrightarrow> xs ! i = xt_id (ts ! i) \<and> 0 \<le> xs ! i \<and> xs ! i < n)"
proof (induction ts arbitrary: xs)
  case (Cons t ts)
  then show ?case
    by (cases "flat_tokens n mixed ts") (auto simp: nth_Cons split: if_splits nat.splits)
qed simp

lemma flat_embd_eq:
  assumes "bx_ok b" and n: "\<And>t. t \<in> set (bx_tokens b) \<Longrightarrow> xt_has_embd t \<Longrightarrow> n = bx_n_embd b"
  shows "wp (flat_embd n b) (\<lambda>es. length es = length (bx_tokens b) * n \<and>
    (\<forall>i < length (bx_tokens b). xt_has_embd (bx_tokens b ! i) \<longrightarrow>
       row_of es n i = take n (drop (xt_embd_off (bx_tokens b ! i)) (bx_embd b))))"
proof -
  define g :: "ext_token \<Rightarrow> float32 list" where "g = (\<lambda>t. if xt_has_embd t then take n (drop (xt_embd_off t) (bx_embd b)) else replicate n 0)"
  have sl: "(if xt_has_embd t then slice_of (bx_embd b) (xt_embd_off t) n else Some (replicate n 0)) = Some (g t)"
    "length (g t) = n" if "t \<in> set (bx_tokens b)" for t
    using assms that by (auto simp: bx_ok_def slice_of_def g_def)
  have e: "flat_embd n b = Some (concat (map g (bx_tokens b)))" unfolding flat_embd_def by (subst mapM_map) (use sl in auto)
  have row: "row_of (concat (map g xs)) n i = g (xs ! i)" if "set xs \<subseteq> set (bx_tokens b)" "i < length xs" for xs i
    using that
  proof (induction xs arbitrary: i)
    case (Cons t xs)
    then have "length (g t) = n" using sl(2) [of t] by simp
    then show ?case using Cons by (cases i) (auto simp: row_of_def)
  qed simp
  have "length (concat (map g (bx_tokens b))) = length (bx_tokens b) * n"
    using length_concat_block [of "map g (bx_tokens b)" n] sl(2) by auto
  then show ?thesis using row [of "bx_tokens b"] unfolding e by (auto simp: g_def)
qed

definition epos :: "nat \<Rightarrow> ext_token \<Rightarrow> llama_pos" where
  "epos j t = (if is_tok t then (if j < 3 then xt_pos t ! 0 else 0) else xt_pos t ! j)"

lemma flat_pos_eq:
  assumes "\<And>t. t \<in> set ts \<Longrightarrow> length (xt_pos t) = 4" and "npe \<le> 4"
  shows "flat_pos npe ts = Some (concat (map (\<lambda>j. map (epos j) ts) [0..<npe]))"
proof -
  have "entry_pos j t = Some (epos j t)" if "j < npe" "t \<in> set ts" for j t
    using that assms(1) [OF that(2)] assms(2) by (auto simp: entry_pos_def epos_def vget_def)
  then have "mapM (entry_pos j) ts = Some (map (epos j) ts)" if "j < npe" for j using that by (intro mapM_map) auto
  then show ?thesis unfolding flat_pos_def by (subst mapM_map) auto
qed

lemma flat_output_len [simp]: "length (flat_output oa ts) = length ts"
  by (simp add: flat_output_def Let_def)

lemma flat_order_len: "flat_order ts \<noteq> [] \<Longrightarrow> length (flat_order ts) = length ts"
  by (auto simp: flat_order_def split: if_splits)

text \<open>How the checks tell whether entry \<open>i\<close> is an embedding: by \<open>is_embd_vec\<close> in a mixed batch.\<close>

definition entry_is_embd :: "batch_allocr \<Rightarrow> nat \<Rightarrow> bool" where
  "entry_is_embd a i = (if ba_is_embd a \<noteq> [] then ba_is_embd a ! i \<noteq> 0 else lb_token (ba_batch a) = None)"

text \<open>What the arrays hold before the statistics are computed.\<close>

definition arrays_ok :: "batch_ext \<Rightarrow> bool \<Rightarrow> batch_allocr \<Rightarrow> batch_allocr \<Rightarrow> bool" where
  "arrays_ok inp oa a0 a = (let b = ba_batch a; ts = bx_tokens inp; n = length ts in
     lb_n_tokens b = n \<and> lb_seq_id b = Some (map xt_seq_ids ts) \<and> lb_pos b = Some (concat (map (\<lambda>j. map (epos j) ts) [0..<ba_n_pos_per_embd a])) \<and>
     lb_logits b = Some (flat_output oa ts) \<and> lb_n_seq_id b = Some (map (\<lambda>t. int (length (xt_seq_ids t))) ts) \<and>
     pred_option (\<lambda>xs. length xs = n \<and> (\<forall>i < n. xt_has_embd (ts ! i) \<or> xs ! i = xt_id (ts ! i) \<and> 0 \<le> xs ! i \<and> xs ! i < bx_n_vocab inp)) (lb_token b) \<and>
     pred_option (\<lambda>es. length es = n * ba_n_embd a) (lb_embd b) \<and>
     (ba_is_embd a \<noteq> [] \<longrightarrow> length (ba_is_embd a) = n) \<and> (ba_state a \<noteq> [] \<longrightarrow> length (ba_state a) = n * ba_n_embd_state a) \<and>
     (ba_embd_row a \<noteq> [] \<longrightarrow> length (ba_embd_row a) = n) \<and> (ba_decision_order a \<noteq> [] \<longrightarrow> length (ba_decision_order a) = n) \<and>
     lb_parent b = None \<and> lb_node_id b = None \<and> lb_parent_node_id b = None \<and>
     (\<forall>i < n. entry_is_embd a i = (\<not> is_tok (ts ! i))) \<and>
     seq_ids_valid (ba_n_seq_max a) ts \<and> ba_n_pos_per_embd a = ba_n_pos_per_embd a0 \<and> ba_n_seq_max a = ba_n_seq_max a0 \<and>
     ba_seq_pos a = ba_seq_pos a0 \<and> ba_seq_cpl a = ba_seq_cpl a0 \<and> ba_seq_set a = ba_seq_set a0 \<and> ba_seq_set_map a = ba_seq_set_map a0 \<and>
     ba_seq_idx a = ba_seq_idx a0 \<and> ba_seq_id_unq a = ba_seq_id_unq a0)"

lemma filter_length_all: "length (filter P xs) = length xs \<longleftrightarrow> (\<forall>x \<in> set xs. P x)"
  by (metis filter_id_conv length_filter_less less_irrefl)

lemma init_arrays_wp:
  assumes b: "bx_ok inp" and a: "ba_batch a = batch_null" "1 \<le> ba_n_pos_per_embd a" "ba_n_pos_per_embd a \<le> 4"
    and ne: "ba_n_embd a = (if bx_n_embd inp > 0 then bx_n_embd inp else bx_n_embd_inp inp)" "ba_n_embd_state a = bx_n_embd_state inp"
    and k: "count_kinds (is_row (hd (bx_tokens inp))) (xt_has_state (hd (bx_tokens inp))) (bx_tokens inp) (0, 0, 0) = Inr (x, y, z)"
    and z: "z = 0 \<or> z = length (bx_tokens inp)" and nt: "bx_tokens inp \<noteq> []"
  shows "wp (init_arrays inp oa (x, y, z) a) (\<lambda>r. case r of Inl e \<Rightarrow> e \<noteq> Incompatible_sets | Inr a' \<Rightarrow> arrays_ok inp oa a a')"
proof -
  let ?ts = "bx_tokens inp"
  note ks = count_kinds_sound [OF k]
  let ?mixed = "0 < x \<and> 0 < y" and ?ht = "0 < x \<or> 0 < z" and ?he = "0 < y \<or> 0 < z"
  have pos: "flat_pos (ba_n_pos_per_embd a) ?ts = Some (concat (map (\<lambda>j. map (epos j) ?ts) [0..<ba_n_pos_per_embd a]))"
    by (rule flat_pos_eq) (use b a in \<open>auto simp: bx_ok_def\<close>)
  have par: "check_parents (ba_batch a) = Some None" by (simp add: check_parents_def a(1) batch_null_def)
  have all: "xt_has_embd t" if he: "?he" "\<not> ?mixed" and t: "t \<in> set ?ts" for t
  proof (cases "z = 0")
    case True
    then have "0 < y" "x = 0" using he by auto
    then have "\<exists>t \<in> set ?ts. xt_has_embd t" "\<forall>t \<in> set ?ts. \<not> (is_tok t \<and> \<not> xt_has_embd t)"
      using ks by (auto simp: filter_empty_conv)
    then show ?thesis using ks t by blast
  next
    case False
    then have "length (filter (\<lambda>t. is_tok t \<and> xt_has_embd t) ?ts) = length ?ts" using z ks by simp
    then show ?thesis using t by (simp add: filter_length_all)
  qed
  have ln: "length (bx_embd inp) = length ?ts * ba_n_embd a" if he: "?he" "\<not> ?mixed"
  proof -
    have "filter xt_has_embd ?ts = ?ts" using all [OF he] by simp
    moreover have "0 < bx_n_embd inp" using all [OF he hd_in_set [OF nt]] b hd_in_set [OF nt] unfolding bx_ok_def by blast
    ultimately show ?thesis using b ne(1) by (simp add: bx_ok_def mult.commute)
  qed
  have emb: "wp (if ?mixed then map_option Some (flat_embd (ba_n_embd a) inp) else Some (if ?he then Some (bx_embd inp) else None))
      (pred_option (\<lambda>es. length es = length ?ts * ba_n_embd a))"
  proof (cases ?mixed)
    case True
    have "wp (flat_embd (ba_n_embd a) inp) (\<lambda>es. length es = length ?ts * ba_n_embd a)"
      by (rule wp_mono [OF flat_embd_eq [OF b]]) (use b ne in \<open>auto simp: bx_ok_def\<close>)
    then show ?thesis using True by (auto simp: wp_def)
  qed (use ln in auto)
  then obtain em where em: "(if ?mixed then map_option Some (flat_embd (ba_n_embd a) inp) else Some (if ?he then Some (bx_embd inp) else None)) = Some em"
    "pred_option (\<lambda>es. length es = length ?ts * ba_n_embd a) em" by (rule wpE)
  have st: "length (bx_state inp) = length ?ts * ba_n_embd_state a" if "xt_has_state (hd ?ts)"
  proof -
    have "filter xt_has_state ?ts = ?ts" using ks that by simp
    then show ?thesis using b ne(2) by (simp add: bx_ok_def mult.commute)
  qed
  show ?thesis
  proof (cases "if ?ht then map_sum id Some (flat_tokens (bx_n_vocab inp) ?mixed ?ts) else Inr None")
    case (Inl e)
    have "e = Invalid_token" using Inl
    proof -
      have "flat_tokens v m us = Inl e' \<Longrightarrow> e' = Invalid_token" for v m us e'
      proof (induction us)
        case (Cons t us)
        then show ?case by (cases "flat_tokens v m us") (auto split: if_splits)
      qed simp
      then show ?thesis using Inl by (cases "flat_tokens (bx_n_vocab inp) ?mixed ?ts") (auto split: if_splits)
    qed
    then show ?thesis using Inl by (simp add: init_arrays_def Let_def)
  next
    case (Inr tok)
    have tk: "pred_option (\<lambda>xs. length xs = length ?ts \<and> (\<forall>i < length ?ts. xt_has_embd (?ts ! i) \<or>
        xs ! i = xt_id (?ts ! i) \<and> 0 \<le> xs ! i \<and> xs ! i < bx_n_vocab inp)) tok"
      using Inr flat_tokens_sound [of "bx_n_vocab inp" ?mixed ?ts]
      by (cases "flat_tokens (bx_n_vocab inp) ?mixed ?ts") (auto split: if_splits)
    have tn: "(tok = None) = (\<not> ?ht)"
      using Inr by (cases "flat_tokens (bx_n_vocab inp) ?mixed ?ts") (auto split: if_splits)
    have kind: "(if ?mixed then xt_has_embd (?ts ! i) else tok = None) = (\<not> is_tok (?ts ! i))" if i: "i < length ?ts" for i
      using entry_kind [OF ks nth_mem [OF i]] z tn by auto
    show ?thesis
      unfolding init_arrays_def Let_def prod.case Inr sum.case em(1)
      using pos par tk em(2) st flat_order_len [of ?ts] a(1) kind
      by (auto simp: arrays_ok_def entry_is_embd_def Let_def batch_null_def wp_simps)
  qed
qed

section \<open>Statistics\<close>

text \<open>The positions of sequence \<open>s\<close> in the batch.\<close>

definition batch_posns :: "batch_allocr \<Rightarrow> llama_seq_id \<Rightarrow> llama_pos set" where
  "batch_posns a s = {ba_pos a ! i |i. i < ba_n a \<and> s \<in> set (ba_ids a ! i)}"

lemma note_entries_wp:
  assumes l: "n \<le> length (ba_ids a)" "n \<le> length (ba_pos a)" and ne: "\<And>i. i < n \<Longrightarrow> ba_ids a ! i \<noteq> []"
    and z: "ba_seq_pos a = (\<lambda>_. {})" "ba_seq_cpl a = {}" "\<not> ba_has_cpl a"
  shows "wp (foldM note_entry [0..<n] a) (\<lambda>d. d = a\<lparr>ba_has_cpl := (\<exists>i < n. tl (ba_ids a ! i) \<noteq> []),
    ba_seq_pos := (\<lambda>s. {ba_pos a ! i |i. i < n \<and> s \<in> set (ba_ids a ! i)}),
    ba_seq_cpl := {(s1, hd (ba_ids a ! i)) |s1 i. i < n \<and> s1 \<in> set (tl (ba_ids a ! i))}\<rparr>)"
proof (rule wp_for [where I = "\<lambda>k d. d = a\<lparr>ba_has_cpl := (\<exists>i < k. tl (ba_ids a ! i) \<noteq> []),
    ba_seq_pos := (\<lambda>s. {ba_pos a ! i |i. i < k \<and> s \<in> set (ba_ids a ! i)}),
    ba_seq_cpl := {(s1, hd (ba_ids a ! i)) |s1 i. i < k \<and> s1 \<in> set (tl (ba_ids a ! i))}\<rparr>"])
  show "a = a\<lparr>ba_has_cpl := (\<exists>i < (0::nat). tl (ba_ids a ! i) \<noteq> []), ba_seq_pos := (\<lambda>s. {ba_pos a ! i |i. i < 0 \<and> s \<in> set (ba_ids a ! i)}),
    ba_seq_cpl := {(s1, hd (ba_ids a ! i)) |s1 i. i < 0 \<and> s1 \<in> set (tl (ba_ids a ! i))}\<rparr>"
    by (rule batch_allocr.equality) (use z in auto)
next
  fix k d assume k: "k < n" and d: "d = a\<lparr>ba_has_cpl := (\<exists>i < k. tl (ba_ids a ! i) \<noteq> []),
    ba_seq_pos := (\<lambda>s. {ba_pos a ! i |i. i < k \<and> s \<in> set (ba_ids a ! i)}),
    ba_seq_cpl := {(s1, hd (ba_ids a ! i)) |s1 i. i < k \<and> s1 \<in> set (tl (ba_ids a ! i))}\<rparr>"
  have h: "0 < length (ba_ids a ! k)" "ba_ids a ! k ! 0 = hd (ba_ids a ! k)" using ne [OF k] by (simp_all add: hd_conv_nth)
  show "wp (note_entry k d) (\<lambda>d. d = a\<lparr>ba_has_cpl := (\<exists>i < Suc k. tl (ba_ids a ! i) \<noteq> []),
    ba_seq_pos := (\<lambda>s. {ba_pos a ! i |i. i < Suc k \<and> s \<in> set (ba_ids a ! i)}),
    ba_seq_cpl := {(s1, hd (ba_ids a ! i)) |s1 i. i < Suc k \<and> s1 \<in> set (tl (ba_ids a ! i))}\<rparr>)"
    using k l h(1) unfolding d note_entry_def
    by (simp add: wp_simps h(2)) (rule batch_allocr.equality; auto simp: less_Suc_eq fun_eq_iff)
qed simp

lemma note_sets_wp:
  assumes l: "n \<le> length (ba_ids a)" and z: "ba_seq_set a = []" "ba_seq_set_map a = (\<lambda>_. [])"
  shows "wp (foldM note_set [0..<n] a) (\<lambda>d. d = a\<lparr>ba_seq_set := map set (take n (ba_ids a)),
    ba_seq_set_map := (\<lambda>S. filter (\<lambda>i. set (ba_ids a ! i) = S) [0..<n])\<rparr>)"
proof (rule wp_for [where I = "\<lambda>k d. d = a\<lparr>ba_seq_set := map set (take k (ba_ids a)),
    ba_seq_set_map := (\<lambda>S. filter (\<lambda>i. set (ba_ids a ! i) = S) [0..<k])\<rparr>"])
  show "a = a\<lparr>ba_seq_set := map set (take 0 (ba_ids a)), ba_seq_set_map := (\<lambda>S. filter (\<lambda>i. set (ba_ids a ! i) = S) [0..<0])\<rparr>"
    by (rule batch_allocr.equality) (use z in auto)
next
  fix k d assume k: "k < n" and d: "d = a\<lparr>ba_seq_set := map set (take k (ba_ids a)),
    ba_seq_set_map := (\<lambda>S. filter (\<lambda>i. set (ba_ids a ! i) = S) [0..<k])\<rparr>"
  show "wp (note_set k d) (\<lambda>d. d = a\<lparr>ba_seq_set := map set (take (Suc k) (ba_ids a)),
    ba_seq_set_map := (\<lambda>S. filter (\<lambda>i. set (ba_ids a ! i) = S) [0..<Suc k])\<rparr>)"
    using k l unfolding d note_set_def
    by (simp add: wp_simps) (rule batch_allocr.equality; auto simp: take_Suc_conv_app_nth fun_eq_iff)
qed simp

section \<open>The checks\<close>

lemma first_error_wp:
  assumes "\<And>x. x \<in> set xs \<Longrightarrow> wp (f x) (\<lambda>r. case r of None \<Rightarrow> P x | Some e \<Rightarrow> E e)"
  shows "wp (first_error f xs) (\<lambda>r. case r of None \<Rightarrow> \<forall>x \<in> set xs. P x | Some e \<Rightarrow> E e)"
  using assms
proof (induction xs)
  case (Cons x xs)
  obtain r where r: "f x = Some r" "case r of None \<Rightarrow> P x | Some e \<Rightarrow> E e" using Cons.prems [of x] by (auto elim: wpE)
  have "wp (first_error f xs) (\<lambda>r. case r of None \<Rightarrow> \<forall>x \<in> set xs. P x | Some e \<Rightarrow> E e)" using Cons by simp
  then show ?case using r by (cases r) (auto elim!: wp_mono split: option.splits)
qed simp

text \<open>The sequence sets met so far always contain the sequence itself.\<close>

lemma check_ids_sound:
  assumes "\<And>s. s \<in> set ids \<Longrightarrow> s \<in> cs s" "set ids \<subseteq> S"
  shows "case check_ids S p ids (cs, cp) of Inl e \<Rightarrow> e = Decreasing_pos
    | Inr (cs', cp') \<Rightarrow> (\<forall>s. s \<in> cs s \<longrightarrow> s \<in> cs' s) \<and> (\<forall>s \<in> set ids. cp s \<le> p) \<and> cp' = (\<lambda>s. if s \<in> set ids then p else cp s)"
  using assms
proof (induction ids arbitrary: cs cp)
  case (Cons s ids)
  have ne: "cs s \<inter> S \<noteq> {}" using Cons.prems(1) [of s] Cons.prems(2) by auto
  have st: "check_ids S p (s # ids) (cs, cp) = (if p < cp s then Inl Decreasing_pos else check_ids S p ids (cs(s := cs s \<inter> S), cp(s := p)))"
    using ne by simp
  show ?case
  proof (cases "p < cp s")
    case False
    have "case check_ids S p ids (cs(s := cs s \<inter> S), cp(s := p)) of Inl e \<Rightarrow> e = Decreasing_pos
      | Inr (cs', cp') \<Rightarrow> (\<forall>t. t \<in> (cs(s := cs s \<inter> S)) t \<longrightarrow> t \<in> cs' t) \<and> (\<forall>t \<in> set ids. (cp(s := p)) t \<le> p) \<and>
          cp' = (\<lambda>t. if t \<in> set ids then p else (cp(s := p)) t)"
      by (rule Cons.IH) (use Cons.prems in auto)
    moreover have "(\<lambda>t. if t \<in> set ids then p else (cp(s := p)) t) = (\<lambda>t. if t \<in> set (s # ids) then p else cp t)"
      by (simp add: fun_eq_iff)
    ultimately show ?thesis unfolding st using False Cons.prems by (auto split: sum.splits if_splits)
  qed (use ne st in simp)
qed simp

lemma check_sets_sound:
  assumes "\<And>x s. x \<in> set xs \<Longrightarrow> s \<in> set (snd x) \<Longrightarrow> s \<in> cs s"
  shows "case check_sets xs (cs, cp) of Some e \<Rightarrow> e = Decreasing_pos
    | None \<Rightarrow> (\<forall>x \<in> set xs. \<forall>s \<in> set (snd x). cp s \<le> fst x) \<and>
        sorted_wrt (\<lambda>x y. \<forall>s \<in> set (snd x) \<inter> set (snd y). fst x \<le> fst y) xs"
  using assms
proof (induction xs arbitrary: cs cp)
  case (Cons x xs)
  obtain p ids where x: "x = (p, ids)" by (cases x)
  have ids: "\<And>s. s \<in> set ids \<Longrightarrow> s \<in> cs s" using Cons.prems [of x] x by simp
  have c: "case check_ids (set ids) p ids (cs, cp) of Inl e \<Rightarrow> e = Decreasing_pos
    | Inr (cs', cp') \<Rightarrow> (\<forall>s. s \<in> cs s \<longrightarrow> s \<in> cs' s) \<and> (\<forall>s \<in> set ids. cp s \<le> p) \<and> cp' = (\<lambda>s. if s \<in> set ids then p else cp s)"
    by (rule check_ids_sound) (use ids in auto)
  show ?case
  proof (cases "check_ids (set ids) p ids (cs, cp)")
    case (Inl e)
    then show ?thesis using c by (simp add: x)
  next
    case (Inr r)
    obtain cs' cp' where r: "r = (cs', cp')" by (cases r)
    note c' = c [unfolded Inr r, simplified]
    have "case check_sets xs (cs', cp') of Some e \<Rightarrow> e = Decreasing_pos
      | None \<Rightarrow> (\<forall>x \<in> set xs. \<forall>s \<in> set (snd x). cp' s \<le> fst x) \<and>
        sorted_wrt (\<lambda>x y. \<forall>s \<in> set (snd x) \<inter> set (snd y). fst x \<le> fst y) xs"
      by (rule Cons.IH) (use c' Cons.prems in auto)
    moreover have "cp s \<le> fst y" if "\<forall>x \<in> set xs. \<forall>s \<in> set (snd x). cp' s \<le> fst x" "y \<in> set xs" "s \<in> set (snd y)" for y s
    proof -
      have "cp' s \<le> fst y" using that by blast
      then show ?thesis using c' by (auto split: if_splits intro: order_trans)
    qed
    moreover have "p \<le> fst y" if "\<forall>x \<in> set xs. \<forall>s \<in> set (snd x). cp' s \<le> fst x" "y \<in> set xs" "s \<in> set (snd y)" "s \<in> set ids" for y s
      using that c' by force
    ultimately show ?thesis using Inr r c' by (auto simp: x split: option.splits)
  qed
qed simp

text \<open>Positions that the 32-bit arithmetic of the checks can handle, and a memory that answers.\<close>

definition pos_mid :: "llama_pos \<Rightarrow> bool" where
  "pos_mid p = (-1 \<le> p \<and> p < INT32_MAX - 1)"

definition mem_ok :: "nat \<Rightarrow> mem_view option \<Rightarrow> bool" where
  "mem_ok n mem = (\<forall>m s. mem = Some m \<longrightarrow> 0 \<le> s \<longrightarrow> s < int n \<longrightarrow>
     (\<exists>p q. mem_pos_min m s = Some p \<and> mem_pos_max m s = Some q \<and> -1 \<le> q \<and> q < INT32_MAX))"

lemma mem_okD: "mem_ok n mem \<Longrightarrow> 0 \<le> s \<Longrightarrow> s < int n \<Longrightarrow> \<exists>q. mem_max mem s = Some q \<and> -1 \<le> q \<and> q < INT32_MAX"
  by (auto simp: mem_ok_def mem_max_def INT32_MAX_def split: option.splits)

text \<open>The positions of a sequence follow the memory without gaps.\<close>

definition continues :: "mem_view option \<Rightarrow> llama_seq_id \<Rightarrow> llama_pos set \<Rightarrow> bool" where
  "continues mem s A = (A \<noteq> {} \<longrightarrow> A = {Min A..Max A} \<and>
     (\<exists>p. mem_max mem s = Some p \<and> (0 \<le> p \<longrightarrow> Min A = p + 1)))"

lemma interval_of_card:
  fixes A :: "int set"
  assumes "finite A" "A \<noteq> {}" "Max A - Min A + 1 \<le> int (card A)"
  shows "A = {Min A..Max A}"
proof (rule card_subset_eq)
  show "A \<subseteq> {Min A..Max A}" using assms(1) by auto
  then show "card A = card {Min A..Max A}" using assms card_mono [of "{Min A..Max A}" A] by simp
qed simp

lemma check_seq_pos_wp:
  assumes m: "mem_ok n mem" "0 \<le> s" "s < int n" and fin: "finite (ba_seq_pos a s)" and p: "\<And>p. p \<in> ba_seq_pos a s \<Longrightarrow> pos_mid p"
  shows "wp (check_seq_pos a mem s) (\<lambda>r. case r of None \<Rightarrow> continues mem s (ba_seq_pos a s)
    | Some e \<Rightarrow> e \<in> {Inconsistent_pos, Not_continuous})"
proof (cases "ba_seq_pos a s = {}")
  case True
  then show ?thesis by (simp add: check_seq_pos_def continues_def)
next
  case False
  let ?A = "ba_seq_pos a s"
  have mm: "pos_mid (Min ?A)" "pos_mid (Max ?A)" using p fin False by simp_all
  obtain q where q: "mem_max mem s = Some q" "-1 \<le> q" "q < INT32_MAX" using mem_okD [OF m] by blast
  have i: "-1 \<le> lo \<Longrightarrow> lo \<le> hi \<Longrightarrow> hi < INT32_MAX - 1 \<Longrightarrow> in_i32 (hi - lo) \<and> in_i32 (hi - lo + 1)" for lo hi :: int
    by (auto simp: in_i32_def INT32_MAX_def)
  have "Min ?A \<le> Max ?A" using fin False by simp
  then have r: "in_i32 (q + 1)" "in_i32 (Max ?A - Min ?A)" "in_i32 (Max ?A - Min ?A + 1)"
    using mm q i [of "Min ?A" "Max ?A"] by (simp_all add: pos_mid_def INT32_MAX_def in_i32_def)
  show ?thesis
    using False q r interval_of_card [OF fin False]
    by (auto simp: check_seq_pos_def continues_def wp_simps ba_seq_pos_min_def ba_seq_pos_max_def)
qed

text \<open>
  The rule for several positions per entry (M-RoPE): a sequence may jump, but starts behind the memory,
  or at its last position when its first entry is an embedding.
\<close>

definition jumps_ahead :: "mem_view option \<Rightarrow> llama_seq_id \<Rightarrow> bool \<Rightarrow> llama_pos set \<Rightarrow> bool" where
  "jumps_ahead mem s emb A = (A \<noteq> {} \<longrightarrow>
     (\<exists>p. mem_max mem s = Some p \<and> (0 \<le> p \<longrightarrow> (if emb then p \<le> Min A else p < Min A))))"

lemma check_seq_mrope_wp:
  assumes "mem_ok n mem" "0 \<le> s" "s < int n"
  shows "wp (check_seq_mrope a mixed mem s) (\<lambda>r. case r of None \<Rightarrow> jumps_ahead mem s (first_embd a mixed s) (ba_seq_pos a s)
    | Some e \<Rightarrow> e = Inconsistent_pos)"
  using mem_okD [OF assms] by (auto simp: check_seq_mrope_def jumps_ahead_def ba_seq_pos_min_def wp_simps)

text \<open>Sequences that share an entry have the same range of positions in the memory.\<close>

definition same_range :: "mem_view option \<Rightarrow> llama_seq_id \<Rightarrow> llama_seq_id \<Rightarrow> bool" where
  "same_range mem s0 s1 = (\<forall>m. mem = Some m \<longrightarrow> mem_pos_min m s0 = mem_pos_min m s1 \<and> mem_pos_max m s0 = mem_pos_max m s1)"

lemma check_coupled_wp:
  assumes "mem_ok n (Some m)" "0 \<le> s0" "s0 < int n" "0 \<le> s1" "s1 < int n"
  shows "wp (check_coupled a m s0 s1) (\<lambda>r. case r of None \<Rightarrow> (s0, s1) \<in> ba_seq_cpl a \<longrightarrow> same_range (Some m) s0 s1
    | Some e \<Rightarrow> e = Coupled_diverged)"
proof -
  have "\<exists>p q. mem_pos_min m s = Some p \<and> mem_pos_max m s = Some q" if "0 \<le> s" "s < int n" for s
    using assms(1) that by (auto simp: mem_ok_def)
  from this [OF assms(2,3)] this [OF assms(4,5)] show ?thesis by (auto simp: check_coupled_def same_range_def)
qed

text \<open>The pairs \<open>init\<close> records: every further sequence of an entry with the first one.\<close>

definition couples :: "batch_allocr \<Rightarrow> (llama_seq_id \<times> llama_seq_id) set" where
  "couples a = {(s1, hd (ba_ids a ! i)) |s1 i. i < ba_n a \<and> s1 \<in> set (tl (ba_ids a ! i))}"

text \<open>In batch order the positions of a sequence never decrease.\<close>

definition batch_ordered :: "batch_allocr \<Rightarrow> bool" where
  "batch_ordered a = (\<forall>i j s. i < j \<longrightarrow> j < ba_n a \<longrightarrow> s \<in> set (ba_ids a ! i) \<longrightarrow> s \<in> set (ba_ids a ! j) \<longrightarrow>
     ba_pos a ! i \<le> ba_pos a ! j)"

text \<open>What the checks demand of the positions of a sequence.\<close>

definition follows :: "mem_view option \<Rightarrow> batch_allocr \<Rightarrow> llama_seq_id \<Rightarrow> bool" where
  "follows mem a s = (if ba_n_pos_per_embd a > 1 then jumps_ahead mem s (first_embd a (ba_is_embd a \<noteq> []) s) (batch_posns a s)
     else continues mem s (batch_posns a s))"

lemma init_checks_wp:
  assumes ok: "ba_ok a" and m: "mem_ok (ba_n_seq_max a) mem"
    and sp: "\<And>s. ba_seq_pos a s = batch_posns a s" and cp: "ba_seq_cpl a = couples a" and p: "\<And>i. i < ba_n a \<Longrightarrow> pos_mid (ba_pos a ! i)"
  shows "wp (init_checks mem a) (\<lambda>r. case r of Some e \<Rightarrow> e \<noteq> Incompatible_sets
    | None \<Rightarrow> batch_ordered a \<and> (\<forall>s. follows mem a s) \<and> (\<forall>(s0, s1) \<in> couples a. same_range mem s0 s1))"
proof -
  note d = ba_okD [OF ok]
  let ?seqs = "map int [0..<ba_n_seq_max a]" and ?n = "ba_n a"
  have fin: "finite (batch_posns a s)" for s by (simp add: batch_posns_def)
  have pm: "p \<in> batch_posns a s \<Longrightarrow> pos_mid p" for p s using p by (auto simp: batch_posns_def)
  have c1: "wp (first_error (if ba_n_pos_per_embd a > 1 then check_seq_mrope a (ba_is_embd a \<noteq> []) mem else check_seq_pos a mem) ?seqs)
    (\<lambda>r. case r of None \<Rightarrow> \<forall>s \<in> set ?seqs. follows mem a s | Some e \<Rightarrow> e \<noteq> Incompatible_sets)"
  proof (rule first_error_wp)
    fix s assume "s \<in> set ?seqs"
    then have s: "0 \<le> s" "s < int (ba_n_seq_max a)" by auto
    show "wp ((if ba_n_pos_per_embd a > 1 then check_seq_mrope a (ba_is_embd a \<noteq> []) mem else check_seq_pos a mem) s)
      (\<lambda>r. case r of None \<Rightarrow> follows mem a s | Some e \<Rightarrow> e \<noteq> Incompatible_sets)"
    proof (cases "ba_n_pos_per_embd a > 1")
      case True
      show ?thesis using True by simp (rule wp_mono [OF check_seq_mrope_wp [OF m s]], auto simp: follows_def sp split: option.splits)
    next
      case False
      have "wp (check_seq_pos a mem s) (\<lambda>r. case r of None \<Rightarrow> continues mem s (ba_seq_pos a s)
          | Some e \<Rightarrow> e \<in> {Inconsistent_pos, Not_continuous})"
        by (rule check_seq_pos_wp [OF m s]) (use sp fin pm in auto)
      then show ?thesis using False sp by simp (erule wp_mono, auto simp: follows_def split: option.splits)
    qed
  qed
  have c2: "wp (case mem of None \<Rightarrow> Some None | Some m \<Rightarrow> first_error (\<lambda>(s0, s1). check_coupled a m s0 s1) (List.product ?seqs ?seqs))
    (\<lambda>r. case r of None \<Rightarrow> (\<forall>s0 \<in> set ?seqs. \<forall>s1 \<in> set ?seqs. (s0, s1) \<in> couples a \<longrightarrow> same_range mem s0 s1)
     | Some e \<Rightarrow> e = Coupled_diverged)"
  proof (cases mem)
    case (Some mv)
    have "wp (first_error (\<lambda>(s0, s1). check_coupled a mv s0 s1) (List.product ?seqs ?seqs))
      (\<lambda>r. case r of None \<Rightarrow> \<forall>x \<in> set (List.product ?seqs ?seqs). x \<in> couples a \<longrightarrow> same_range mem (fst x) (snd x)
        | Some e \<Rightarrow> e = Coupled_diverged)"
    proof (rule first_error_wp)
      fix x assume x: "x \<in> set (List.product ?seqs ?seqs)"
      obtain s0 s1 where s: "x = (s0, s1)" by (cases x)
      have "0 \<le> s0" "s0 < int (ba_n_seq_max a)" "0 \<le> s1" "s1 < int (ba_n_seq_max a)" using x unfolding s by auto
      from check_coupled_wp [OF m [unfolded Some] this, of a]
      show "wp ((\<lambda>(s0, s1). check_coupled a mv s0 s1) x) (\<lambda>r. case r of None \<Rightarrow> x \<in> couples a \<longrightarrow> same_range mem (fst x) (snd x)
        | Some e \<Rightarrow> e = Coupled_diverged)"
        unfolding s Some cp fst_conv snd_conv prod.case .
    qed
    then show ?thesis using Some by (auto elim!: wp_mono split: option.splits)
  qed (simp add: same_range_def)
  let ?xs = "zip (take ?n (ba_pos a)) (ba_ids a)"
  have l: "length (take ?n (ba_pos a)) = ?n" "length (ba_ids a) = ?n" using d(5,6,10) by auto
  have nth: "i < ?n \<Longrightarrow> ?xs ! i = (ba_pos a ! i, ba_ids a ! i)" for i using l by simp
  have c3: "case check_sets ?xs (\<lambda>_. seq_ids_ok, \<lambda>_. -1) of Some e \<Rightarrow> e = Decreasing_pos
    | None \<Rightarrow> (\<forall>x \<in> set ?xs. \<forall>s \<in> set (snd x). -1 \<le> fst x) \<and>
        sorted_wrt (\<lambda>x y. \<forall>s \<in> set (snd x) \<inter> set (snd y). fst x \<le> fst y) ?xs"
  proof (rule check_sets_sound)
    fix x s assume "x \<in> set ?xs" "s \<in> set (snd x)"
    then obtain i where "i < ?n" "s \<in> set (ba_ids a ! i)" using l by (auto simp: set_zip)
    then show "s \<in> seq_ids_ok" using d(8,9) by fastforce
  qed
  have ord: "batch_ordered a" if "check_sets ?xs (\<lambda>_. seq_ids_ok, \<lambda>_. -1) = None"
    unfolding batch_ordered_def
  proof (intro allI impI)
    fix i j s assume ij: "i < j" "j < ?n" "s \<in> set (ba_ids a ! i)" "s \<in> set (ba_ids a ! j)"
    have "\<forall>s \<in> set (snd (?xs ! i)) \<inter> set (snd (?xs ! j)). fst (?xs ! i) \<le> fst (?xs ! j)"
      using c3 that ij l by (auto simp: sorted_wrt_iff_nth_less)
    then show "ba_pos a ! i \<le> ba_pos a ! j" using nth [of i] nth [of j] ij by auto
  qed
  have out: "follows mem a s" if "\<forall>s \<in> set ?seqs. follows mem a s" for s
  proof (cases "s \<in> set ?seqs")
    case False
    note that = False
    have "\<not> (0 \<le> s \<and> s < int (ba_n_seq_max a))"
      using that by (metis atLeastLessThan_iff image_eqI int_nat_eq less_eq_nat.simps(1) nat_less_iff set_map set_upt)
    then have "batch_posns a s = {}" using d(8) by (fastforce simp: batch_posns_def)
    then show ?thesis by (simp add: follows_def continues_def jumps_ahead_def)
  qed (use that in blast)
  have cin: "s0 \<in> set ?seqs \<and> s1 \<in> set ?seqs" if pr: "(s0, s1) \<in> couples a" for s0 s1
  proof -
    obtain i where i: "i < ?n" "s0 \<in> set (tl (ba_ids a ! i))" "s1 = hd (ba_ids a ! i)" using pr by (auto simp: couples_def)
    have "ba_ids a ! i \<noteq> []" "set (ba_ids a ! i) \<subseteq> {0..<int (ba_n_seq_max a)}" using d(8) [OF i(1)] by blast+
    then have "s0 \<in> {0..<int (ba_n_seq_max a)}" "s1 \<in> {0..<int (ba_n_seq_max a)}"
      using i(2,3) list.set_sel [of "ba_ids a ! i"] by blast+
    then show ?thesis by (simp add: image_int_atLeastLessThan)
  qed
  obtain r1 where r1: "first_error (if ba_n_pos_per_embd a > 1 then check_seq_mrope a (ba_is_embd a \<noteq> []) mem else check_seq_pos a mem) ?seqs = Some r1"
    "case r1 of None \<Rightarrow> \<forall>s \<in> set ?seqs. follows mem a s | Some e \<Rightarrow> e \<noteq> Incompatible_sets"
    using c1 by (rule wpE)
  obtain r2 where r2: "(case mem of None \<Rightarrow> Some None | Some m \<Rightarrow> first_error (\<lambda>(s0, s1). check_coupled a m s0 s1) (List.product ?seqs ?seqs)) = Some r2"
    "case r2 of None \<Rightarrow> (\<forall>s0 \<in> set ?seqs. \<forall>s1 \<in> set ?seqs. (s0, s1) \<in> couples a \<longrightarrow> same_range mem s0 s1) | Some e \<Rightarrow> e = Coupled_diverged"
    using c2 by (rule wpE)
  have e: "init_checks mem a = (case r1 of Some e \<Rightarrow> Some (Some e) | None \<Rightarrow> (case r2 of Some e \<Rightarrow> Some (Some e)
      | None \<Rightarrow> Some (check_sets ?xs (\<lambda>_. seq_ids_ok, \<lambda>_. -1))))"
    unfolding init_checks_def Let_def r1(1) r2(1) by simp
  show ?thesis
  proof (cases r1)
    case r1n: None
    show ?thesis
    proof (cases r2)
      case None
      have "same_range mem s0 s1" if "(s0, s1) \<in> couples a" for s0 s1 using r2(2) None cin [OF that] that by auto
      then show ?thesis unfolding e r1n None option.case using c3 ord out r1(2) r1n by (auto simp del: set_map split: option.splits)
    qed (use e r1n r2(2) in simp)
  qed (use e r1(2) in simp)
qed

section \<open>The whole of init\<close>

definition fresh_stats :: "batch_allocr \<Rightarrow> bool" where
  "fresh_stats a = (ba_seq_pos a = (\<lambda>_. {}) \<and> ba_seq_cpl a = {} \<and> ba_seq_set a = [] \<and> ba_seq_set_map a = (\<lambda>_. []) \<and>
     ba_seq_id_unq a = [] \<and> length (ba_seq_idx a) = 256)"

lemma arrays_ids: "arrays_ok inp oa a0 a \<Longrightarrow> ba_ids a = map xt_seq_ids (bx_tokens inp)"
  by (simp add: arrays_ok_def Let_def)

lemma arrays_pos_length:
  "arrays_ok inp oa a0 a \<Longrightarrow> length (ba_pos a) = ba_n_pos_per_embd a * length (bx_tokens inp)"
proof -
  assume "arrays_ok inp oa a0 a"
  then have p: "ba_pos a = concat (map (\<lambda>j. map (epos j) (bx_tokens inp)) [0..<ba_n_pos_per_embd a])"
    by (simp add: arrays_ok_def Let_def)
  show ?thesis unfolding p by (subst length_concat_block [where n = "length (bx_tokens inp)"]) auto
qed

lemma arrays_pos_nth:
  assumes "arrays_ok inp oa a0 a" "j < ba_n_pos_per_embd a" "i < length (bx_tokens inp)"
  shows "ba_pos a ! (j * length (bx_tokens inp) + i) = epos j (bx_tokens inp ! i)"
proof -
  let ?xss = "map (\<lambda>j. map (epos j) (bx_tokens inp)) [0..<ba_n_pos_per_embd a]"
  have "concat ?xss ! (j * length (bx_tokens inp) + i) = ?xss ! j ! i"
    by (rule nth_concat_block) (use assms in auto)
  then show ?thesis using assms by (auto simp: arrays_ok_def Let_def)
qed

lemma init_stats_wp:
  assumes ar: "arrays_ok inp oa a0 a" and f: "fresh_stats a" and b: "bx_ok inp" and npe: "1 \<le> ba_n_pos_per_embd a" and m: "ba_n_seq_max a \<le> 256"
  shows "wp (init_stats a) (\<lambda>d. ba_ok d \<and> arrays_ok inp oa (a0\<lparr>ba_seq_pos := ba_seq_pos d, ba_seq_cpl := ba_seq_cpl d,
      ba_seq_set := ba_seq_set d, ba_seq_set_map := ba_seq_set_map d, ba_seq_idx := ba_seq_idx d, ba_seq_id_unq := ba_seq_id_unq d\<rparr>) d \<and>
    (\<forall>s. ba_seq_pos d s = batch_posns d s) \<and> ba_seq_cpl d = couples d)"
proof -
  let ?n = "length (bx_tokens inp)" and ?ids = "map xt_seq_ids (bx_tokens inp)"
  have n: "ba_n a = ?n" and ids: "ba_ids a = ?ids" using ar by (auto simp: arrays_ok_def Let_def)
  have lp: "?n \<le> length (ba_pos a)" using arrays_pos_length [OF ar] npe by (cases "ba_n_pos_per_embd a") auto
  let ?a1 = "a\<lparr>ba_has_cpl := False\<rparr>"
  have s1: "wp (foldM note_entry [0..<?n] ?a1) (\<lambda>d. d = ?a1\<lparr>ba_has_cpl := (\<exists>i < ?n. tl (ba_ids ?a1 ! i) \<noteq> []),
    ba_seq_pos := (\<lambda>s. {ba_pos ?a1 ! i |i. i < ?n \<and> s \<in> set (ba_ids ?a1 ! i)}),
    ba_seq_cpl := {(s1, hd (ba_ids ?a1 ! i)) |s1 i. i < ?n \<and> s1 \<in> set (tl (ba_ids ?a1 ! i))}\<rparr>)"
    by (rule note_entries_wp) (use ids lp f b in \<open>auto simp: fresh_stats_def bx_ok_def\<close>)
  define a2 where "a2 = ?a1\<lparr>ba_has_cpl := (\<exists>i < ?n. tl (ba_ids ?a1 ! i) \<noteq> []),
    ba_seq_pos := (\<lambda>s. {ba_pos ?a1 ! i |i. i < ?n \<and> s \<in> set (ba_ids ?a1 ! i)}),
    ba_seq_cpl := {(s1, hd (ba_ids ?a1 ! i)) |s1 i. i < ?n \<and> s1 \<in> set (tl (ba_ids ?a1 ! i))}\<rparr>"
  have e1: "foldM note_entry [0..<?n] ?a1 = Some a2" using s1 unfolding a2_def by (auto simp: wp_def)
  have s2: "wp (foldM note_set [0..<?n] a2) (\<lambda>d. d = a2\<lparr>ba_seq_set := map set (take ?n (ba_ids a2)),
    ba_seq_set_map := (\<lambda>S. filter (\<lambda>i. set (ba_ids a2 ! i) = S) [0..<?n])\<rparr>)"
    by (rule note_sets_wp) (use ids f in \<open>auto simp: a2_def fresh_stats_def\<close>)
  define a3 where "a3 = a2\<lparr>ba_seq_set := map set ?ids, ba_seq_set_map := (\<lambda>S. filter (\<lambda>i. set (?ids ! i) = S) [0..<?n])\<rparr>"
  have "ba_ids a2 = ?ids" using ids by (simp add: a2_def)
  then have e2: "foldM note_set [0..<?n] a2 = Some a3" using s2 unfolding a3_def by (auto simp: wp_def)
  obtain idx unq where u: "number_seqs (ba_n_seq_max a3) (\<Union>(set (ba_seq_set a3))) (ba_seq_idx a3, ba_seq_id_unq a3) = (idx, unq)"
    by (cases "number_seqs (ba_n_seq_max a3) (\<Union>(set (ba_seq_set a3))) (ba_seq_idx a3, ba_seq_id_unq a3)")
  let ?d = "a3\<lparr>ba_seq_idx := idx, ba_seq_id_unq := unq\<rparr>"
  have na: "get_n_tokens a = ?n" "get_n_tokens a2 = ?n" using n by (simp_all add: get_n_tokens_def a2_def)
  have e: "init_stats a = Some ?d"
    unfolding init_stats_def na(1) e1 Option.bind.simps na(2) e2 u Let_def by simp
  have valid: "i < ?n \<Longrightarrow> set (?ids ! i) \<subseteq> {0..<int (ba_n_seq_max a)}" for i
  proof -
    assume i: "i < ?n"
    have "seq_ids_valid (ba_n_seq_max a) (bx_tokens inp)" using ar unfolding arrays_ok_def Let_def by blast
    then have "\<forall>s \<in> set (xt_seq_ids (bx_tokens inp ! i)). 0 \<le> s \<and> s < int (ba_n_seq_max a)"
      using nth_mem [OF i] by (simp add: seq_ids_valid_def list_all_iff)
    then show ?thesis using i by auto
  qed
  have ne: "i < ?n \<Longrightarrow> ?ids ! i \<noteq> [] \<and> distinct (?ids ! i)" for i using b by (simp add: bx_ok_def)
  have l4: "length (ba_pos a) = ba_n_pos_per_embd a * ?n" by (rule arrays_pos_length [OF ar])
  have "ba_ok ?d"
    using ar valid ne l4 npe m unfolding ba_ok_def Let_def arrays_ok_def
    by (auto simp: a3_def a2_def pred_option_def comp_def)
  moreover have kd: "entry_is_embd ?d i = entry_is_embd a i" for i by (simp add: entry_is_embd_def a3_def a2_def)
  have "arrays_ok inp oa (a0\<lparr>ba_seq_pos := ba_seq_pos ?d, ba_seq_cpl := ba_seq_cpl ?d,
      ba_seq_set := ba_seq_set ?d, ba_seq_set_map := ba_seq_set_map ?d, ba_seq_idx := ba_seq_idx ?d, ba_seq_id_unq := ba_seq_id_unq ?d\<rparr>) ?d"
    using ar unfolding arrays_ok_def Let_def by (elim conjE, intro conjI) (simp add: kd | simp add: a3_def a2_def)+
  moreover have "ba_seq_pos ?d s = batch_posns ?d s" for s
    by (simp add: batch_posns_def a3_def a2_def n)
  moreover have "ba_seq_cpl ?d = couples ?d"
    by (simp add: couples_def a3_def a2_def n)
  ultimately show ?thesis unfolding e by simp
qed

text \<open>The first entry of sequence \<open>s\<close> has no token.\<close>

definition starts_with_embd :: "ext_token list \<Rightarrow> llama_seq_id \<Rightarrow> bool" where
  "starts_with_embd ts s = (case List.find (\<lambda>t. s \<in> set (xt_seq_ids t)) ts of Some t \<Rightarrow> \<not> is_tok t | None \<Rightarrow> False)"

lemma first_embd_starts:
  assumes ar: "arrays_ok inp oa a0 a" and ne: "batch_posns a s \<noteq> {}"
  shows "first_embd a (ba_is_embd a \<noteq> []) s = starts_with_embd (bx_tokens inp) s"
proof -
  let ?ts = "bx_tokens inp" and ?P = "\<lambda>t. s \<in> set (xt_seq_ids t)"
  have n: "ba_n a = length ?ts" "ba_ids a = map xt_seq_ids ?ts" "lb_seq_id (ba_batch a) = Some (map xt_seq_ids ?ts)"
    and k: "i < length ?ts \<Longrightarrow> entry_is_embd a i = (\<not> is_tok (?ts ! i))" for i
    using ar by (auto simp: arrays_ok_def Let_def)
  have "\<exists>x \<in> set ?ts. ?P x" using ne by (auto simp: batch_posns_def n)
  then obtain t where "List.find ?P ?ts = Some t" by (cases "List.find ?P ?ts") (auto simp: find_None_iff)
  then obtain i where i: "i < length ?ts" "?P (?ts ! i)" "\<forall>j < i. \<not> ?P (?ts ! j)" "List.find ?P ?ts = Some (?ts ! i)"
    by (auto simp: find_Some_iff)
  have "List.find (\<lambda>i. s \<in> set (the (lb_seq_id (ba_batch a)) ! i)) [0..<get_n_tokens a] = Some i"
    unfolding find_Some_iff by (rule exI [of _ i]) (use i n in \<open>simp add: get_n_tokens_def\<close>)
  then show ?thesis using k [OF i(1)] i(4) by (auto simp: first_embd_def starts_with_embd_def entry_is_embd_def)
qed

text \<open>What \<open>init\<close> promises about the batch it accepted.\<close>

definition accepted :: "batch_ext \<Rightarrow> bool \<Rightarrow> batch_allocr \<Rightarrow> bool" where
  "accepted inp oa a = (let ts = bx_tokens inp; n = length ts in
     ba_ok a \<and> ba_n a = n \<and> ba_n_seq_max a = nat (bx_n_seq_max inp) \<and> ba_ids a = map xt_seq_ids ts \<and>
     (\<forall>j < ba_n_pos_per_embd a. \<forall>i < n. ba_pos a ! (j * n + i) = epos j (ts ! i)) \<and>
     ba_logits a = flat_output oa ts \<and>
     (\<forall>xs. lb_token (ba_batch a) = Some xs \<longrightarrow> (\<forall>i < n. xt_has_embd (ts ! i) \<or> xs ! i = xt_id (ts ! i) \<and> 0 \<le> xs ! i \<and> xs ! i < bx_n_vocab inp)) \<and>
     ba_used a = replicate n False \<and> ba_n_used a = 0 \<and> ba_out_ids a = [] \<and>
     batch_ordered a \<and>
     (\<forall>s. if ba_n_pos_per_embd a > 1 then jumps_ahead (bx_mem inp) s (starts_with_embd ts s) (batch_posns a s)
        else continues (bx_mem inp) s (batch_posns a s)) \<and>
     (\<forall>t \<in> set ts. \<forall>s \<in> set (xt_seq_ids t). same_range (bx_mem inp) s (hd (xt_seq_ids t))))"

lemma ba_ok_reset: "ba_ok (split_reset a) = ba_ok a"
  by (simp add: ba_ok_def split_reset_def Let_def)

lemma accepted_reset:
  assumes "arrays_ok inp oa a0 a" "ba_ok a" "batch_ordered a" "ba_n_seq_max a = nat (bx_n_seq_max inp)"
    "\<forall>s. follows (bx_mem inp) a s" "\<forall>(s0, s1) \<in> couples a. same_range (bx_mem inp) s0 s1"
  shows "accepted inp oa (split_reset a)"
proof -
  let ?ts = "bx_tokens inp"
  have fl: "if ba_n_pos_per_embd a > 1 then jumps_ahead (bx_mem inp) s (starts_with_embd ?ts s) (batch_posns a s)
      else continues (bx_mem inp) s (batch_posns a s)" for s
    using assms(5) [rule_format, of s] first_embd_starts [OF assms(1), of s]
    by (cases "batch_posns a s = {}") (simp add: jumps_ahead_def continues_def, simp add: follows_def split: if_splits)
  have sr: "same_range (bx_mem inp) s (hd (xt_seq_ids t))" if t: "t \<in> set ?ts" and s: "s \<in> set (xt_seq_ids t)" for t s
  proof (cases "s = hd (xt_seq_ids t)")
    case False
    obtain i where i: "i < length ?ts" "?ts ! i = t" using t by (auto simp: in_set_conv_nth)
    have "s \<in> set (tl (xt_seq_ids t))" using s False by (cases "xt_seq_ids t") auto
    then have "(s, hd (xt_seq_ids t)) \<in> couples a"
      unfolding couples_def by (intro CollectI exI [of _ s] exI [of _ i])
        (use i arrays_ids [OF assms(1)] assms(1) in \<open>simp add: arrays_ok_def Let_def\<close>)
    then show ?thesis using assms(6) by blast
  qed (simp add: same_range_def)
  have f: "ba_batch (split_reset a) = ba_batch a" "ba_n_pos_per_embd (split_reset a) = ba_n_pos_per_embd a"
    "ba_n_seq_max (split_reset a) = ba_n_seq_max a" "ba_out_ids (split_reset a) = []" "ba_n_used (split_reset a) = 0"
    "ba_used (split_reset a) = replicate (ba_n a) False"
    by (simp_all add: split_reset_def get_n_tokens_def)
  have n: "ba_n a = length (bx_tokens inp)" "ba_logits a = flat_output oa (bx_tokens inp)"
    "pred_option (\<lambda>xs. length xs = length (bx_tokens inp) \<and> (\<forall>i < length (bx_tokens inp). xt_has_embd (bx_tokens inp ! i) \<or>
       xs ! i = xt_id (bx_tokens inp ! i) \<and> 0 \<le> xs ! i \<and> xs ! i < bx_n_vocab inp)) (lb_token (ba_batch a))"
    using assms(1) by (auto simp: arrays_ok_def Let_def)
  have p: "batch_ordered (split_reset a) = batch_ordered a" "batch_posns (split_reset a) = batch_posns a"
    by (simp_all add: batch_ordered_def batch_posns_def f fun_eq_iff)
  show ?thesis unfolding accepted_def Let_def f p ba_ok_reset
    using assms n arrays_ids [OF assms(1)] arrays_pos_nth [OF assms(1)] fl sr by (auto simp: pred_option_def)
qed

lemma ba_init_wp:
  assumes b: "bx_ok inp" "bx_tokens inp \<noteq> []" and a: "1 \<le> ba_n_pos_per_embd a" "ba_n_pos_per_embd a \<le> 4" "length (ba_seq_idx a) = 256"
    and m: "mem_ok (nat (bx_n_seq_max inp)) (bx_mem inp)"
    and p: "\<And>t. t \<in> set (bx_tokens inp) \<Longrightarrow> pos_mid (xt_pos t ! 0)"
  shows "wp (ba_init inp oa a) (\<lambda>r. case r of Inl e \<Rightarrow> e \<noteq> Incompatible_sets | Inr d \<Rightarrow> accepted inp oa d)"
proof -
  let ?a = "(ba_clear a)\<lparr>ba_n_embd := (if bx_n_embd inp > 0 then bx_n_embd inp else bx_n_embd_inp inp),
    ba_n_embd_state := bx_n_embd_state inp, ba_n_seq_max := nat (bx_n_seq_max inp)\<rparr>"
  let ?ts = "bx_tokens inp"
  show ?thesis
  proof (cases "bx_n_seq_max inp < 0 \<or> bx_n_seq_max inp > LLAMA_MAX_SEQ")
    case True
    then show ?thesis using b(2) by (simp add: ba_init_def Let_def)
  next
    case small: False
    show ?thesis
    proof (cases "count_kinds (is_row (hd ?ts)) (xt_has_state (hd ?ts)) ?ts (0, 0, 0)")
      case (Inl e)
      have "count_kinds r s ts n = Inl e' \<Longrightarrow> e' \<noteq> Incompatible_sets" for r s ts n e'
        by (induction ts arbitrary: n) (auto split: if_splits prod.splits)
      then show ?thesis using b(2) small Inl by (simp add: ba_init_def Let_def)
    next
      case (Inr k)
      obtain x y z where k: "k = (x, y, z)" by (cases k)
      show ?thesis
      proof (cases "(z > 0 \<and> z \<noteq> length ?ts) \<or> (x > 0 \<and> y > 0 \<and> \<not> ba_allow_mixed a)")
        case True
        then show ?thesis using b(2) small Inr k by (auto simp: ba_init_def Let_def ba_clear_def)
      next
        case False
        have A: "wp (init_arrays inp oa (x, y, z) ?a) (\<lambda>r. case r of Inl e \<Rightarrow> e \<noteq> Incompatible_sets | Inr a' \<Rightarrow> arrays_ok inp oa ?a a')"
          by (rule init_arrays_wp [OF b(1) _ _ _ _ _ Inr [unfolded k] _ b(2)])
            (use a False in \<open>auto simp: ba_clear_def\<close>)
        have B: "wp (do { d \<leftarrow> init_stats a'; r \<leftarrow> init_checks (bx_mem inp) d;
            case r of Some e \<Rightarrow> Some (Inl e) | None \<Rightarrow> Some (Inr (split_reset d)) })
            (\<lambda>r. case r of Inl e \<Rightarrow> e \<noteq> Incompatible_sets | Inr d \<Rightarrow> accepted inp oa d)" if ar: "arrays_ok inp oa ?a a'" for a'
        proof -
          have f: "fresh_stats a'" "1 \<le> ba_n_pos_per_embd a'" "ba_n_seq_max a' \<le> 256"
            using ar a small by (auto simp: arrays_ok_def Let_def fresh_stats_def ba_clear_def)
          obtain d where d: "init_stats a' = Some d" "ba_ok d" "\<forall>s. ba_seq_pos d s = batch_posns d s" "ba_seq_cpl d = couples d"
            "arrays_ok inp oa (?a\<lparr>ba_seq_pos := ba_seq_pos d, ba_seq_cpl := ba_seq_cpl d, ba_seq_set := ba_seq_set d,
               ba_seq_set_map := ba_seq_set_map d, ba_seq_idx := ba_seq_idx d, ba_seq_id_unq := ba_seq_id_unq d\<rparr>) d"
            using init_stats_wp [OF ar f(1) b(1) f(2,3)] by (auto elim: wpE)
          have n: "ba_n_seq_max d = nat (bx_n_seq_max inp)" "ba_n d = length ?ts" "0 < ba_n_pos_per_embd d"
            using d(5) a by (auto simp: arrays_ok_def Let_def ba_clear_def)
          have pm: "pos_mid (ba_pos d ! i)" if "i < ba_n d" for i
          proof -
            have "ba_pos d ! i = epos 0 (?ts ! i)" using arrays_pos_nth [OF d(5) n(3), of i] that n(2) by simp
            then show ?thesis using p [of "?ts ! i"] that n(2) by (auto simp: epos_def)
          qed
          have C: "wp (init_checks (bx_mem inp) d) (\<lambda>r. case r of Some e \<Rightarrow> e \<noteq> Incompatible_sets
            | None \<Rightarrow> batch_ordered d \<and> (\<forall>s. follows (bx_mem inp) d s) \<and> (\<forall>(s0, s1) \<in> couples d. same_range (bx_mem inp) s0 s1))"
            by (rule init_checks_wp [OF d(2)]) (use m n(1) d(3,4) pm in auto)
          show ?thesis unfolding d(1) Option.bind.simps wp_bind
            by (rule wp_mono [OF C]) (use accepted_reset [OF d(5,2) _ n(1)] in \<open>auto split: option.splits\<close>)
        qed
        have e: "ba_init inp oa a = Option.bind (init_arrays inp oa (x, y, z) ?a) (\<lambda>r. case r of Inl e \<Rightarrow> Some (Inl e)
          | Inr a \<Rightarrow> do { a \<leftarrow> init_stats a; r \<leftarrow> init_checks (bx_mem inp) a;
                case r of Some e \<Rightarrow> Some (Inl e) | None \<Rightarrow> Some (Inr (split_reset a)) })"
        proof -
          have am: "ba_allow_mixed ?a = ba_allow_mixed a" by (simp add: ba_clear_def)
          show ?thesis using b(2) small False unfolding ba_init_def Let_def Inr k am by auto
        qed
        show ?thesis unfolding e wp_bind
          by (rule wp_mono [OF A]) (use B in \<open>auto split: sum.splits\<close>)
      qed
    qed
  qed
qed

end
