(* ===== verification/BatchParts.thy ===== *)
theory BatchParts
  imports BatchInit
begin

text \<open>
  The split functions return disjoint, complete pieces of the batch: \<open>split_simple\<close>, and the steps of
  \<open>split_equal\<close> up to the tokens each sequence set contributes (\<open>BatchEqual\<close> has the rest).
\<close>

declare simple_loop.simps [simp del] seq_loop.simps [simp del] give_back.simps [simp del]

section \<open>Marking tokens as used\<close>

definition unused :: "batch_allocr \<Rightarrow> nat set" where
  "unused a = {i. i < ba_n a \<and> \<not> ba_used a ! i}"

definition split_inv :: "batch_allocr \<Rightarrow> bool" where
  "split_inv a = (ba_ok a \<and> length (ba_used a) = ba_n a \<and> ba_n_used a + card (unused a) = ba_n a)"

text \<open>\<open>d\<close> is \<open>a\<close> with the tokens of \<open>X\<close> marked.\<close>

definition marked :: "batch_allocr \<Rightarrow> nat set \<Rightarrow> batch_allocr \<Rightarrow> bool" where
  "marked a X d = (d = a\<lparr>ba_used := ba_used d, ba_n_used := ba_n_used d\<rparr> \<and> X \<subseteq> unused a \<and>
     length (ba_used d) = ba_n a \<and> unused d = unused a - X \<and> ba_n_used d = ba_n_used a + card X)"

lemma finite_unused [simp]: "finite (unused a)"
  by (simp add: unused_def)

lemma markedD:
  assumes "marked a X d"
  shows "ba_batch d = ba_batch a" "ba_seq_set d = ba_seq_set a" "ba_seq_set_map d = ba_seq_set_map a"
    "ba_has_cpl d = ba_has_cpl a" "ba_ok d = ba_ok a" "ba_out_ids d = ba_out_ids a" "ba_n_pos_per_embd d = ba_n_pos_per_embd a"
    "ba_n_embd d = ba_n_embd a" "ba_n_seq_max d = ba_n_seq_max a"
proof -
  have d: "a\<lparr>ba_used := ba_used d, ba_n_used := ba_n_used d\<rparr> = d" using assms unfolding marked_def by (elim conjE) (erule sym)
  show "ba_batch d = ba_batch a" "ba_seq_set d = ba_seq_set a" "ba_seq_set_map d = ba_seq_set_map a"
    "ba_has_cpl d = ba_has_cpl a" "ba_out_ids d = ba_out_ids a" "ba_n_pos_per_embd d = ba_n_pos_per_embd a"
    "ba_n_embd d = ba_n_embd a" "ba_n_seq_max d = ba_n_seq_max a"
    by (subst d [symmetric], simp)+
  show "ba_ok d = ba_ok a" by (subst d [symmetric]) (simp add: ba_ok_def Let_def)
qed

lemma marked_refl: "split_inv a \<Longrightarrow> marked a {} a"
  by (simp add: marked_def split_inv_def)

lemma marked_mark:
  assumes m: "marked a X d" and i: "i \<in> unused a" "i \<notin> X"
  shows "marked a (insert i X) (mark i d)"
proof -
  have d: "a\<lparr>ba_used := ba_used d, ba_n_used := ba_n_used d\<rparr> = d" using m unfolding marked_def by (elim conjE) (erule sym)
  have n: "ba_n d = ba_n a" using markedD(1) [OF m] by simp
  have fin: "finite X" using m finite_subset [of X "unused a"] by (auto simp: marked_def)
  have "unused (mark i d) = unused d - {i}"
    using m i by (auto simp: unused_def mark_def nth_list_update marked_def n)
  moreover have "mark i d = a\<lparr>ba_used := ba_used (mark i d), ba_n_used := ba_n_used (mark i d)\<rparr>"
    by (subst d [symmetric]) (simp add: mark_def)
  moreover have "ba_n_used (mark i d) = ba_n_used a + card (insert i X)" "length (ba_used (mark i d)) = ba_n a"
    using m i fin by (auto simp: mark_def marked_def)
  ultimately show ?thesis using m i by (auto simp: marked_def)
qed

lemma marked_inv:
  assumes "split_inv a" "marked a X d"
  shows "split_inv d"
proof -
  have "card (unused a - X) = card (unused a) - card X" "card X \<le> card (unused a)"
    using assms finite_subset [of X "unused a"] by (auto simp: marked_def card_Diff_subset card_mono)
  then show ?thesis using assms markedD [OF assms(2)] by (simp add: split_inv_def marked_def)
qed

lemma marked_out_ids:
  assumes "marked a X d" "split_inv a"
  shows "split_inv (d\<lparr>ba_out_ids := xs\<rparr>)" "unused (d\<lparr>ba_out_ids := xs\<rparr>) = unused a - X"
    "ba_n_used (d\<lparr>ba_out_ids := xs\<rparr>) = ba_n_used a + card X" "ba_batch (d\<lparr>ba_out_ids := xs\<rparr>) = ba_batch a"
proof -
  have u: "unused (d\<lparr>ba_out_ids := xs\<rparr>) = unused d" by (simp add: unused_def)
  have ok: "ba_ok (d\<lparr>ba_out_ids := xs\<rparr>) = ba_ok d" by (simp add: ba_ok_def Let_def)
  show "split_inv (d\<lparr>ba_out_ids := xs\<rparr>)" using marked_inv [OF assms(2,1)] by (simp add: split_inv_def u ok)
  show "unused (d\<lparr>ba_out_ids := xs\<rparr>) = unused a - X" using assms(1) u by (simp add: marked_def)
  show "ba_n_used (d\<lparr>ba_out_ids := xs\<rparr>) = ba_n_used a + card X" using assms(1) by (simp add: marked_def)
  show "ba_batch (d\<lparr>ba_out_ids := xs\<rparr>) = ba_batch a" using markedD(1) [OF assms(1)] by simp
qed

lemma first_unused_props:
  assumes "split_inv a"
  shows "unused a = {} \<Longrightarrow> first_unused a = length (ba_used a)"
    "unused a \<noteq> {} \<Longrightarrow> first_unused a < length (ba_used a) \<and> first_unused a = Min (unused a)"
proof -
  have l: "length (ba_used a) = ba_n a" using assms by (simp add: split_inv_def)
  show "first_unused a = length (ba_used a)" if "unused a = {}"
  proof -
    have "\<forall>u \<in> set (ba_used a). u" using that l by (auto simp: unused_def in_set_conv_nth)
    then have "takeWhile (\<lambda>u. u) (ba_used a) = ba_used a" by (simp only: takeWhile_eq_all_conv)
    then show ?thesis by (simp only: first_unused_def)
  qed
  show "first_unused a < length (ba_used a) \<and> first_unused a = Min (unused a)" if ne: "unused a \<noteq> {}"
  proof -
    let ?k = "first_unused a"
    obtain i where "i < length (ba_used a)" "\<not> ba_used a ! i" using ne l by (auto simp: unused_def)
    then have "\<exists>u \<in> set (ba_used a). \<not> u" using nth_mem by blast
    then have "dropWhile (\<lambda>u. u) (ba_used a) \<noteq> []" by (simp only: dropWhile_eq_Nil_conv) blast
    moreover have "length (ba_used a) = ?k + length (dropWhile (\<lambda>u. u) (ba_used a))"
      unfolding first_unused_def by (metis length_append takeWhile_dropWhile_id)
    ultimately have k: "?k < length (ba_used a)" by (cases "dropWhile (\<lambda>u. u) (ba_used a)") simp_all
    have nu: "\<not> ba_used a ! ?k" using k unfolding first_unused_def by (rule nth_length_takeWhile)
    have before: "ba_used a ! i" if i: "i < ?k" for i
    proof -
      have "takeWhile (\<lambda>u. u) (ba_used a) ! i" using nth_mem [OF i [unfolded first_unused_def]] set_takeWhileD by fast
      then show ?thesis using takeWhile_nth [OF i [unfolded first_unused_def]] by simp
    qed
    have "Min (unused a) = ?k"
      by (rule Min_eqI) (use k nu before l in \<open>auto simp: unused_def not_less [symmetric]\<close>)
    then show ?thesis using k by simp
  qed
qed

lemma marked_add:
  assumes m: "marked a X d" and ok: "ba_ok a" and ix: "\<And>i. i \<in> set idxs \<Longrightarrow> i < ba_n a"
    and n: "0 < n_seqs" "length idxs mod n_seqs = 0" and pos: "\<forall>i \<in> set idxs. 0 \<le> ba_pos a ! i"
  obtains ub xs where "ubatch_add idxs n_seqs eq d = Some (ub, d\<lparr>ba_out_ids := xs\<rparr>)" "ubatch_of a idxs n_seqs eq ub" "ubatch_ok ub"
proof -
  have "ba_ok d" "\<And>i. i \<in> set idxs \<Longrightarrow> i < ba_n d" using ok ix markedD [OF m] by auto
  from ubatch_add_wp [OF this n, of eq] show ?thesis
  proof (rule wpE)
    fix x assume x: "ubatch_add idxs n_seqs eq d = Some x" "case x of (ub, a') \<Rightarrow> ubatch_of d idxs n_seqs eq ub \<and>
      ((\<forall>i \<in> set idxs. 0 \<le> ba_pos d ! i) \<longrightarrow> ubatch_ok ub) \<and>
      a' = d\<lparr>ba_out_ids := ba_out_ids d @ filter (\<lambda>i. ba_logits d ! i \<noteq> 0) idxs\<rparr>"
    obtain ub a' where xx: "x = (ub, a')" by (cases x)
    have uo: "ubatch_of d = ubatch_of a" using markedD [OF m] by (simp add: ubatch_of_def fun_eq_iff)
    show thesis
      by (rule that [of ub "ba_out_ids d @ filter (\<lambda>i. ba_logits d ! i \<noteq> 0) idxs"])
        (use x pos in \<open>simp_all add: xx uo markedD(1) [OF m]\<close>)
  qed
qed

section \<open>split_simple\<close>

lemma simple_loop_wp:
  assumes "marked a X d" "split_inv a" "{cur..<ba_n a} \<subseteq> unused a" "cur < ba_n a" "X \<inter> {cur..<ba_n a} = {}"
  shows "\<exists>k d'. simple_loop nb cur idxs d = (idxs @ [cur..<k], d') \<and> cur < k \<and> k \<le> ba_n a \<and> marked a (X \<union> {cur..<k}) d' \<and>
    (k < ba_n a \<longrightarrow> nb \<le> length idxs + (k - cur)) \<and> (k - cur = 1 \<or> length idxs + (k - cur) \<le> nb)"
  using assms
proof (induction nb cur idxs d arbitrary: X rule: simple_loop.induct)
  case (1 nb cur idxs d)
  have m: "marked a (insert cur X) (mark cur d)"
    by (rule marked_mark [OF "1.prems"(1)]) (use "1.prems" in auto)
  have l: "length (ba_used (mark cur d)) = ba_n a" using m by (simp add: marked_def)
  show ?case
  proof (cases "cur + 1 \<ge> ba_n a \<or> length idxs + 1 \<ge> nb")
    case True
    then have e: "simple_loop nb cur idxs d = (idxs @ [cur], mark cur d)" using l by (subst simple_loop.simps) (auto simp: Let_def)
    have "{cur..<Suc cur} = {cur}" by auto
    then show ?thesis unfolding e using m "1.prems"(4) True
      by (intro exI [of _ "Suc cur"] exI [of _ "mark cur d"]) auto
  next
    case False
    then have e: "simple_loop nb cur idxs d = simple_loop nb (cur + 1) (idxs @ [cur]) (mark cur d)"
      using l by (subst simple_loop.simps) (auto simp: Let_def)
    have "\<exists>k d'. simple_loop nb (cur + 1) (idxs @ [cur]) (mark cur d) = ((idxs @ [cur]) @ [cur + 1..<k], d') \<and> cur + 1 < k \<and> k \<le> ba_n a \<and>
      marked a (insert cur X \<union> {cur + 1..<k}) d' \<and> (k < ba_n a \<longrightarrow> nb \<le> length (idxs @ [cur]) + (k - (cur + 1))) \<and>
      (k - (cur + 1) = 1 \<or> length (idxs @ [cur]) + (k - (cur + 1)) \<le> nb)"
      by (rule "1.IH" [OF refl refl refl]) (use m l False "1.prems" in auto)
    then obtain k d' where k: "simple_loop nb (cur + 1) (idxs @ [cur]) (mark cur d) = ((idxs @ [cur]) @ [cur + 1..<k], d')"
      "cur + 1 < k" "k \<le> ba_n a" "marked a (insert cur X \<union> {cur + 1..<k}) d'" "k < ba_n a \<longrightarrow> nb \<le> length (idxs @ [cur]) + (k - (cur + 1))"
      "k - (cur + 1) = 1 \<or> length (idxs @ [cur]) + (k - (cur + 1)) \<le> nb" by blast
    have "[cur] @ [cur + 1..<k] = [cur..<k]" "insert cur X \<union> {cur + 1..<k} = X \<union> {cur..<k}" using k(2) by (auto simp: upt_conv_Cons)
    then show ?thesis unfolding e k(1) using k(2-6) False
      by (intro exI [of _ k] exI [of _ d']) auto
  qed
qed

text \<open>Between two calls of \<open>split_simple\<close> a prefix of the batch is used.\<close>

lemma split_simple_wp:
  assumes inv: "split_inv a" and u: "unused a = {k..<ba_n a}" and k: "k \<le> ba_n a" and nb: "0 < nb"
    and pos: "\<forall>i < ba_n a. 0 \<le> ba_pos a ! i"
  shows "wp (split_simple nb a) (\<lambda>(ub, d). if k = ba_n a then ub = ubatch_empty \<and> d = a
    else \<exists>k'. k < k' \<and> k' = min (ba_n a) (k + nb) \<and> ubatch_of a [k..<k'] (k' - k) False ub \<and> ubatch_ok ub \<and>
      split_inv d \<and> unused d = {k'..<ba_n a} \<and> ba_batch d = ba_batch a \<and> ba_n_seq_max d = ba_n_seq_max a)"
proof (cases "k = ba_n a")
  case True
  then have "first_unused a = length (ba_used a)" using first_unused_props(1) [OF inv] u by simp
  then show ?thesis using True by (simp add: split_simple_def)
next
  case False
  then have ne: "unused a \<noteq> {}" "k < ba_n a" using u k by auto
  have f: "first_unused a = k" "first_unused a < length (ba_used a)"
    using first_unused_props(2) [OF inv ne(1)] u ne(2) Min_eqI [of "{k..<ba_n a}" k] by auto
  have ok: "ba_ok a" using inv by (simp add: split_inv_def)
  obtain k' d where l: "simple_loop nb k [] a = ([k..<k'], d)" "k < k'" "k' \<le> ba_n a" "marked a {k..<k'} d"
    "k' < ba_n a \<longrightarrow> nb \<le> k' - k" "k' - k = 1 \<or> k' - k \<le> nb"
    using simple_loop_wp [OF marked_refl [OF inv] inv, of k nb "[]"] u ne(2) by auto
  have k': "k' = min (ba_n a) (k + nb)" using l nb by auto
  have e: "split_simple nb a = ubatch_add [k..<k'] (length [k..<k']) False d"
    using f l(1) ba_okD(17) [OF ok] by (simp add: split_simple_def Let_def)
  have sub: "\<And>i. i \<in> set [k..<k'] \<Longrightarrow> i < ba_n a" using l(3) by simp
  obtain ub xs where ub: "ubatch_add [k..<k'] (length [k..<k']) False d = Some (ub, d\<lparr>ba_out_ids := xs\<rparr>)"
    "ubatch_of a [k..<k'] (length [k..<k']) False ub" "ubatch_ok ub"
  proof (rule marked_add [OF l(4) ok, where idxs = "[k..<k']" and n_seqs = "length [k..<k']" and eq = False])
    show "i < ba_n a" if "i \<in> set [k..<k']" for i using sub that by blast
    show "0 < length [k..<k']" using l(2) by simp
    show "length [k..<k'] mod length [k..<k'] = 0" by simp
    show "\<forall>i \<in> set [k..<k']. 0 \<le> ba_pos a ! i" using pos sub by blast
  qed blast
  have un: "unused a - {k..<k'} = {k'..<ba_n a}" using u l(2,3) by auto
  note mo = marked_out_ids [OF l(4) inv, of xs]
  show ?thesis
    unfolding e ub(1) using False l(2) k' ub(2,3) mo(1,2,4) un markedD(9) [OF l(4)] by simp
qed

section \<open>split_equal\<close>

text \<open>The tokens of every sequence set are used in order.\<close>

definition eq_inv :: "batch_allocr \<Rightarrow> bool" where
  "eq_inv a = (\<forall>S i j. i \<in> unused a \<longrightarrow> i < j \<longrightarrow> j < ba_n a \<longrightarrow> set (ba_ids a ! i) = S \<longrightarrow> set (ba_ids a ! j) = S \<longrightarrow> j \<in> unused a)"

definition disjoint_sets :: "llama_seq_id set list \<Rightarrow> bool" where
  "disjoint_sets sets = sorted_wrt (\<lambda>S T. S \<inter> T = {}) sets"

lemma disjoint_sets_snoc: "disjoint_sets (sets @ [S]) \<longleftrightarrow> disjoint_sets sets \<and> (\<forall>T \<in> set sets. T \<inter> S = {})"
  by (auto simp: disjoint_sets_def sorted_wrt_append)

text \<open>The sets picked belong to unused tokens and do not overlap; one more than \<open>n_ubatch\<close> can be picked.\<close>

lemma pick_sets_wp:
  assumes ok: "ba_ok a" "length (ba_used a) = ba_n a" and js: "\<forall>j \<in> set js. j < ba_n a"
    and sets: "disjoint_sets sets" "length sets \<le> nb" "\<forall>S \<in> set sets. \<exists>j \<in> unused a. S = set (ba_ids a ! j)"
  shows "wp (pick_sets nb sq a js sets prev) (\<lambda>R. disjoint_sets R \<and> length R \<le> nb + 1 \<and>
    (\<forall>S \<in> set R. \<exists>j \<in> unused a. S = set (ba_ids a ! j)) \<and> (R = [] \<longrightarrow> sets = [] \<and> set js \<inter> unused a = {}) \<and>
    (sets \<noteq> [] \<longrightarrow> R \<noteq> []))"
  using js sets
proof (induction js arbitrary: sets prev)
  case (Cons j js)
  note d = ba_okD [OF ok(1)]
  have j: "j < ba_n a" using Cons.prems(1) by simp
  then have jj: "vget (ba_used a) j = Some (ba_used a ! j)" "vget (ba_seq_set a) j = Some (set (ba_ids a ! j))"
    "vget (ba_ids a) j = Some (ba_ids a ! j)" "vget (ba_ids a ! j) 0 = Some (hd (ba_ids a ! j))"
    using ok(2) d(5,8,20) by (auto simp: vget_def hd_conv_nth)
  let ?S = "set (ba_ids a ! j)"
  have skip: "wp (pick_sets nb sq a js sets prev) (\<lambda>R. disjoint_sets R \<and> length R \<le> nb + 1 \<and>
    (\<forall>S \<in> set R. \<exists>j \<in> unused a. S = set (ba_ids a ! j)) \<and> (R = [] \<longrightarrow> sets = [] \<and> set js \<inter> unused a = {}) \<and>
    (sets \<noteq> [] \<longrightarrow> R \<noteq> []))"
    by (rule Cons.IH) (use Cons.prems in auto)
  show ?case
  proof (cases "ba_used a ! j \<or> list_ex (\<lambda>T. T \<inter> ?S \<noteq> {}) sets")
    case True
    then have "j \<notin> unused a \<or> sets \<noteq> []" by (auto simp: unused_def)
    then show ?thesis using True skip by (auto simp: jj elim!: wp_mono)
  next
    case False
    then have ju: "j \<in> unused a" and dj: "disjoint_sets (sets @ [?S])"
      using j Cons.prems(2) by (auto simp: unused_def disjoint_sets_snoc list_ex_iff)
    show ?thesis
    proof (cases "sq \<and> sets \<noteq> [] \<and> hd (ba_ids a ! j) \<noteq> prev + 1")
      case True
      then show ?thesis using False skip by (auto simp: jj elim!: wp_mono)
    next
      case go: False
      show ?thesis
      proof (cases "length (sets @ [?S]) > nb")
        case True
        have "length sets + 1 \<le> nb + 1" using Cons.prems(3) by simp
        then show ?thesis using False go True dj Cons.prems(4) ju by (simp add: jj) blast
      next
        case le: False
        have "wp (pick_sets nb sq a js (sets @ [?S]) (hd (ba_ids a ! j))) (\<lambda>R. disjoint_sets R \<and> length R \<le> nb + 1 \<and>
          (\<forall>S \<in> set R. \<exists>j \<in> unused a. S = set (ba_ids a ! j)) \<and> (R = [] \<longrightarrow> sets @ [?S] = [] \<and> set js \<inter> unused a = {}) \<and>
          (sets @ [?S] \<noteq> [] \<longrightarrow> R \<noteq> []))"
          by (rule Cons.IH) (use Cons.prems dj le ju in auto)
        moreover have "pick_sets nb sq a (j # js) sets prev = pick_sets nb sq a js (sets @ [?S]) (hd (ba_ids a ! j))"
          by (subst pick_sets.simps) (use False go le in \<open>auto simp: jj\<close>)
        ultimately show ?thesis by simp (erule wp_mono, auto)
      qed
    qed
  qed
qed simp

lemma skip_used_wp:
  assumes "\<forall>i \<in> set L. i < length used" "\<exists>i \<in> set L. \<not> used ! i"
  shows "wp (skip_used used L) (\<lambda>k. k < length L \<and> \<not> used ! (L ! k) \<and> (\<forall>j < k. used ! (L ! j)))"
  using assms
proof (induction L)
  case (Cons i L)
  show ?case
  proof (cases "used ! i")
    case True
    have "wp (skip_used used L) (\<lambda>k. k < length L \<and> \<not> used ! (L ! k) \<and> (\<forall>j < k. used ! (L ! j)))"
      using Cons True by auto
    then obtain k where k: "skip_used used L = Some k" "k < length L" "\<not> used ! (L ! k)" "\<forall>j < k. used ! (L ! j)" by (rule wpE) blast
    have "\<forall>j < Suc k. used ! ((i # L) ! j)" using k(4) True by (auto simp: less_Suc_eq_0_disj)
    then show ?thesis using Cons.prems True k by (simp add: vget_def)
  qed (use Cons.prems in \<open>simp add: vget_def\<close>)
qed simp

text \<open>The lists of the picked sets: distinct, disjoint, unused from \<open>c ! s\<close> on.\<close>

definition lists_ok :: "batch_allocr \<Rightarrow> nat list list \<Rightarrow> nat list \<Rightarrow> bool" where
  "lists_ok a Ls c = (length c = length Ls \<and> (\<forall>s < length Ls. distinct (Ls ! s) \<and> c ! s < length (Ls ! s) \<and>
     (\<forall>k < length (Ls ! s). Ls ! s ! k \<in> unused a \<longleftrightarrow> c ! s \<le> k) \<and> set (Ls ! s) \<subseteq> {..<ba_n a}) \<and>
     (\<forall>s < length Ls. \<forall>t < length Ls. s \<noteq> t \<longrightarrow> set (Ls ! s) \<inter> set (Ls ! t) = {}))"

definition taken :: "nat list list \<Rightarrow> nat list \<Rightarrow> (nat \<Rightarrow> nat) \<Rightarrow> nat \<Rightarrow> nat list" where
  "taken Ls c f s = take (f s) (drop (c ! s) (Ls ! s))"

definition taken_set :: "nat list list \<Rightarrow> nat list \<Rightarrow> (nat \<Rightarrow> nat) \<Rightarrow> nat set" where
  "taken_set Ls c f = (\<Union>s < length Ls. set (taken Ls c f s))"

definition eq_at :: "batch_allocr \<Rightarrow> nat list list \<Rightarrow> nat list \<Rightarrow> (nat \<Rightarrow> nat) \<Rightarrow> eq_state \<Rightarrow> bool" where
  "eq_at a Ls c f e = (length (es_cur e) = length Ls \<and> length (es_idxs e) = length Ls \<and>
     (\<forall>s < length Ls. es_cur e ! s = c ! s + f s \<and> c ! s + f s \<le> length (Ls ! s) \<and> es_idxs e ! s = taken Ls c f s) \<and>
     marked a (taken_set Ls c f) (es_a e))"

lemma taken_step:
  assumes "c ! s + f s < length (Ls ! s)"
  shows "taken Ls c (f(s := f s + 1)) s = taken Ls c f s @ [Ls ! s ! (c ! s + f s)]"
    "t \<noteq> s \<Longrightarrow> taken Ls c (f(s := k)) t = taken Ls c f t"
proof -
  have "f s < length (drop (c ! s) (Ls ! s))" using assms by simp
  then have "take (Suc (f s)) (drop (c ! s) (Ls ! s)) = take (f s) (drop (c ! s) (Ls ! s)) @ [drop (c ! s) (Ls ! s) ! f s]"
    by (rule take_Suc_conv_app_nth)
  then show "taken Ls c (f(s := f s + 1)) s = taken Ls c f s @ [Ls ! s ! (c ! s + f s)]"
    using assms by (simp add: taken_def)
qed (simp add: taken_def)

lemma taken_fresh:
  assumes L: "lists_ok a Ls c" and s: "s < length Ls" "c ! s + f s < length (Ls ! s)"
  shows "Ls ! s ! (c ! s + f s) \<notin> taken_set Ls c f"
proof
  assume "Ls ! s ! (c ! s + f s) \<in> taken_set Ls c f"
  then obtain t where t: "t < length Ls" "Ls ! s ! (c ! s + f s) \<in> set (taken Ls c f t)" by (auto simp: taken_set_def)
  have mem: "Ls ! s ! (c ! s + f s) \<in> set (Ls ! s)" using s(2) by simp
  have "set (taken Ls c f t) \<subseteq> set (Ls ! t)" by (auto simp: taken_def dest: in_set_takeD in_set_dropD)
  then have "t = s" using L s(1) t mem unfolding lists_ok_def by blast
  then obtain k where "k < f s" "c ! s + k < length (Ls ! s)" "Ls ! s ! (c ! s + k) = Ls ! s ! (c ! s + f s)"
    using t(2) by (auto simp: taken_def in_set_conv_nth)
  moreover have "distinct (Ls ! s)" using L s(1) by (simp add: lists_ok_def)
  ultimately show False using s(2) by (simp add: nth_eq_iff_index_eq)
qed

lemma take_one_wp:
  assumes L: "lists_ok a Ls c" and e: "eq_at a Ls c f e" and s: "s < length Ls" "c ! s + f s < length (Ls ! s)"
  shows "wp (take_one Ls s e) (eq_at a Ls c (f(s := f s + 1)))"
proof -
  let ?i = "Ls ! s ! (c ! s + f s)"
  have iu: "?i \<in> unused a" using L s by (auto simp: lists_ok_def)
  have m: "marked a (insert ?i (taken_set Ls c f)) (mark ?i (es_a e))"
    by (rule marked_mark [OF _ iu taken_fresh [where f = f, OF L s]]) (use e in \<open>simp add: eq_at_def\<close>)
  note ts = taken_step [where f = f, OF s(2)]
  have st: "set (taken Ls c (f(s := f s + 1)) t) = (if t = s then insert ?i (set (taken Ls c f s)) else set (taken Ls c f t))" for t
    using ts(1) ts(2) [of t] by simp
  have "taken_set Ls c (f(s := f s + 1)) = insert ?i (taken_set Ls c f)"
    unfolding taken_set_def st using s(1) by (auto split: if_splits)
  then show ?thesis
    using e s m ts iu
    by (auto simp: take_one_def wp_simps eq_at_def nth_list_update marked_def unused_def)
qed

text \<open>One round takes one token of every set.\<close>

lemma take_round_wp:
  assumes L: "lists_ok a Ls c" and e: "eq_at a Ls c (\<lambda>_. t) e" and room: "\<forall>s < length Ls. c ! s + t < length (Ls ! s)"
  shows "wp (foldM (take_one Ls) [0..<length Ls] e) (eq_at a Ls c (\<lambda>_. t + 1))"
proof (rule wp_for [where I = "\<lambda>k. eq_at a Ls c (\<lambda>s. if s < k then t + 1 else t)"])
  show "eq_at a Ls c (\<lambda>s. if s < 0 then t + 1 else t) e" using e by simp
next
  fix k d assume k: "k < length Ls" and d: "eq_at a Ls c (\<lambda>s. if s < k then t + 1 else t) d"
  have f: "(\<lambda>s. if s < k then t + 1 else t)(k := Suc t) = (\<lambda>s. if s < Suc k then t + 1 else t)" by (auto simp: fun_eq_iff less_Suc_eq)
  have "wp (take_one Ls k d) (eq_at a Ls c ((\<lambda>s. if s < k then t + 1 else t)(k := (if k < k then t + 1 else t) + 1)))"
    by (rule take_one_wp [OF L d k]) (use room k in simp)
  then show "wp (take_one Ls k d) (eq_at a Ls c (\<lambda>s. if s < Suc k then t + 1 else t))" using f by simp
next
  fix d assume d: "eq_at a Ls c (\<lambda>s. if s < length Ls then t + 1 else t) d"
  have "taken Ls c (\<lambda>s. if s < length Ls then t + 1 else t) s = taken Ls c (\<lambda>_. t + 1) s" if "s < length Ls" for s
    using that by (simp add: taken_def)
  then show "eq_at a Ls c (\<lambda>_. t + 1) d" using d by (simp add: eq_at_def taken_set_def)
qed

lemma taken_length: "c ! s + t \<le> length (Ls ! s) \<Longrightarrow> length (taken Ls c (\<lambda>_. t) s) = t"
  by (simp add: taken_def)

lemma expand_wp:
  assumes L: "lists_ok a Ls c" and ne: "Ls \<noteq> []" and e: "eq_at a Ls c (\<lambda>_. t) e" and t: "t * length Ls \<le> max nb (length Ls)"
    and more: "t = 0 \<or> (t + 1) * length Ls \<le> nb"
  shows "wp (expand nb Ls e) (\<lambda>d. \<exists>u. t \<le> u \<and> (t = 0 \<longrightarrow> 0 < u) \<and> u * length Ls \<le> max nb (length Ls) \<and> eq_at a Ls c (\<lambda>_. u) d)"
  using e t more
proof (induction "length (hd Ls) - t" arbitrary: t e rule: less_induct)
  case less
  have len: "0 < length Ls" "hd Ls = Ls ! 0" using ne by (simp_all add: hd_conv_nth)
  have cur: "s < length Ls \<Longrightarrow> es_cur e ! s = c ! s + t" for s using less.prems(1) by (simp add: eq_at_def)
  show ?case
  proof (cases "\<forall>s < length Ls. c ! s + t < length (Ls ! s)")
    case False
    then have "list_ex (\<lambda>s. es_cur e ! s \<ge> length (Ls ! s)) [0..<length Ls]" using cur by (auto simp: list_ex_iff not_less)
    then have ex: "expand nb Ls e = Some e" by (subst expand.simps) simp
    have "t \<noteq> 0" using False L by (auto simp: lists_ok_def)
    then show ?thesis unfolding ex using less.prems by auto
  next
    case room: True
    then have "\<not> list_ex (\<lambda>s. es_cur e ! s \<ge> length (Ls ! s)) [0..<length Ls]" using cur by (auto simp: list_ex_iff not_le)
    then have ex: "expand nb Ls e = Option.bind (foldM (take_one Ls) [0..<length Ls] e) (\<lambda>e.
       if (length (hd (es_idxs e)) + 1) * length Ls > nb then Some e else expand nb Ls e)" by (subst expand.simps) simp
    show ?thesis unfolding ex wp_bind
    proof (rule wp_mono [OF take_round_wp [OF L less.prems(1) room]])
      fix d assume d: "eq_at a Ls c (\<lambda>_. t + 1) d"
      have h: "length (hd (es_idxs d)) = t + 1"
      proof -
        have i: "es_idxs d ! 0 = taken Ls c (\<lambda>_. t + 1) 0" "c ! 0 + (t + 1) \<le> length (Ls ! 0)" "length (es_idxs d) = length Ls"
          using d len(1) by (auto simp: eq_at_def)
        then have "es_idxs d \<noteq> []" using len(1) by auto
        then show ?thesis using i taken_length [OF i(2)] by (simp add: hd_conv_nth)
      qed
      have b: "(t + 1) * length Ls \<le> max nb (length Ls)" using less.prems(3) by auto
      show "wp (if (length (hd (es_idxs d)) + 1) * length Ls > nb then Some d else expand nb Ls d)
        (\<lambda>d. \<exists>u. t \<le> u \<and> (t = 0 \<longrightarrow> 0 < u) \<and> u * length Ls \<le> max nb (length Ls) \<and> eq_at a Ls c (\<lambda>_. u) d)"
      proof (cases "(t + 1 + 1) * length Ls > nb")
        case True
        then show ?thesis using h d b by (auto intro!: exI [of _ "t + 1"])
      next
        case False
        have "c ! 0 + t < length (Ls ! 0)" using room len(1) by blast
        then have dec: "length (hd Ls) - (t + 1) < length (hd Ls) - t" using len(2) by simp
        have "wp (expand nb Ls d) (\<lambda>d. \<exists>u. t + 1 \<le> u \<and> (t + 1 = 0 \<longrightarrow> 0 < u) \<and> u * length Ls \<le> max nb (length Ls) \<and> eq_at a Ls c (\<lambda>_. u) d)"
          by (rule less.hyps [OF dec d b]) (use False in simp)
        then have "wp (expand nb Ls d) (\<lambda>d. \<exists>u. t \<le> u \<and> (t = 0 \<longrightarrow> 0 < u) \<and> u * length Ls \<le> max nb (length Ls) \<and> eq_at a Ls c (\<lambda>_. u) d)"
        proof (rule wp_mono)
          fix d assume "\<exists>u\<ge>t + 1. (t + 1 = 0 \<longrightarrow> 0 < u) \<and> u * length Ls \<le> max nb (length Ls) \<and> eq_at a Ls c (\<lambda>_. u) d"
          then obtain u where "t + 1 \<le> u" "u * length Ls \<le> max nb (length Ls)" "eq_at a Ls c (\<lambda>_. u) d" by blast
          then show "\<exists>u\<ge>t. (t = 0 \<longrightarrow> 0 < u) \<and> u * length Ls \<le> max nb (length Ls) \<and> eq_at a Ls c (\<lambda>_. u) d"
            by (intro exI [of _ u]) simp
        qed
        then show ?thesis using False h by simp
      qed
    qed
  qed
qed

text \<open>What one call of \<open>split_equal\<close> returns: equally many tokens of non-overlapping sequence sets.\<close>

definition equal_piece :: "nat \<Rightarrow> batch_allocr \<Rightarrow> nat list list \<Rightarrow> bool" where
  "equal_piece nb a xss = (xss \<noteq> [] \<and> length xss \<le> nb + 1 \<and> (\<exists>m > 0. (\<forall>xs \<in> set xss. length xs = m) \<and> m * length xss \<le> max nb (length xss)) \<and>
     distinct (concat xss) \<and> set (concat xss) \<subseteq> unused a \<and>
     (\<forall>xs \<in> set xss. sorted xs \<and> (\<forall>i \<in> set xs. \<forall>j \<in> set xs. set (ba_ids a ! i) = set (ba_ids a ! j))) \<and>
     (\<forall>s < length xss. \<forall>t < length xss. s \<noteq> t \<longrightarrow> (\<forall>i \<in> set (xss ! s). \<forall>j \<in> set (xss ! t). set (ba_ids a ! i) \<inter> set (ba_ids a ! j) = {})))"

lemma mapM_of_map: "mapM f (map h xs) = mapM (\<lambda>x. f (h x)) xs"
  by (induction xs) simp_all

lemma lists_ok_sets:
  assumes inv: "split_inv a" "eq_inv a" and sets: "disjoint_sets sets" "\<forall>S \<in> set sets. \<exists>j \<in> unused a. S = set (ba_ids a ! j)"
  shows "\<exists>c. mapM (skip_used (ba_used a)) (map (ba_seq_set_map a) sets) = Some c \<and> lists_ok a (map (ba_seq_set_map a) sets) c"
proof -
  have ok: "ba_ok a" and lu: "length (ba_used a) = ba_n a" using inv(1) by (auto simp: split_inv_def)
  note d = ba_okD [OF ok]
  let ?L = "ba_seq_set_map a"
  have L: "?L S = filter (\<lambda>i. set (ba_ids a ! i) = S) [0..<ba_n a]" for S by (rule d(21))
  have sortedL: "sorted (?L S)" "distinct (?L S)" for S unfolding L by (simp_all add: sorted_wrt_filter)
  have inL: "i \<in> set (?L S) \<longleftrightarrow> i < ba_n a \<and> set (ba_ids a ! i) = S" for i S unfolding L by auto
  have one: "\<exists>c. skip_used (ba_used a) (?L S) = Some c \<and> c < length (?L S) \<and> (\<forall>k < length (?L S). ?L S ! k \<in> unused a \<longleftrightarrow> c \<le> k)"
    if S: "S \<in> set sets" for S
  proof -
    obtain j where j: "j \<in> unused a" "S = set (ba_ids a ! j)" using sets(2) S by blast
    have "wp (skip_used (ba_used a) (?L S)) (\<lambda>k. k < length (?L S) \<and> \<not> ba_used a ! (?L S ! k) \<and> (\<forall>j < k. ba_used a ! (?L S ! j)))"
      by (rule skip_used_wp) (use j lu inL in \<open>auto simp: unused_def\<close>)
    then obtain c where c: "skip_used (ba_used a) (?L S) = Some c" "c < length (?L S)" "\<not> ba_used a ! (?L S ! c)"
      "\<forall>j < c. ba_used a ! (?L S ! j)" by (rule wpE) blast
    have mem: "?L S ! k < ba_n a \<and> set (ba_ids a ! (?L S ! k)) = S" if "k < length (?L S)" for k using inL nth_mem [OF that] by blast
    have "?L S ! k \<in> unused a" if k: "k < length (?L S)" "c \<le> k" for k
    proof (cases "c = k")
      case True
      then show ?thesis using c(3) mem [OF k(1)] by (simp add: unused_def)
    next
      case False
      have "?L S ! c < ?L S ! k" using sortedL [of S] k False c(2) by (simp add: sorted_wrt_nth_less strict_sorted_iff)
      moreover have "?L S ! c \<in> unused a" using c(3) mem [OF c(2)] by (simp add: unused_def)
      ultimately show ?thesis using inv(2) mem [OF k(1)] mem [OF c(2)] unfolding eq_inv_def by blast
    qed
    moreover have "?L S ! k \<notin> unused a" if "k < c" for k using c(4) that by (simp add: unused_def)
    ultimately show ?thesis using c(1,2) by (intro exI [of _ c]) (auto simp: not_le [symmetric])
  qed
  obtain g where g: "\<And>S. S \<in> set sets \<Longrightarrow> skip_used (ba_used a) (?L S) = Some (g S) \<and> g S < length (?L S) \<and>
      (\<forall>k < length (?L S). ?L S ! k \<in> unused a \<longleftrightarrow> g S \<le> k)"
    using bchoice [of "set sets" "\<lambda>S c. skip_used (ba_used a) (?L S) = Some c \<and> c < length (?L S) \<and>
      (\<forall>k < length (?L S). ?L S ! k \<in> unused a \<longleftrightarrow> c \<le> k)"] one by blast
  have "mapM (\<lambda>S. skip_used (ba_used a) (?L S)) sets = Some (map g sets)" by (rule mapM_map) (use g in blast)
  moreover have "lists_ok a (map ?L sets) (map g sets)"
  proof -
    have "set (?L (sets ! s)) \<inter> set (?L (sets ! t)) = {}" if "s < length sets" "t < length sets" "s \<noteq> t" for s t
    proof -
      have ne: "S \<noteq> {}" if "S \<in> set sets" for S
        using sets(2) that d(8) by (fastforce simp: unused_def)
      have "sets ! s \<inter> sets ! t = {}"
      proof (cases "s < t")
        case True
        then show ?thesis using sets(1) that by (simp add: disjoint_sets_def sorted_wrt_iff_nth_less)
      next
        case False
        then have "sets ! t \<inter> sets ! s = {}" using sets(1) that by (simp add: disjoint_sets_def sorted_wrt_iff_nth_less)
        then show ?thesis by blast
      qed
      then have "sets ! s \<noteq> sets ! t" using ne [of "sets ! s"] that by auto
      then show ?thesis using inL by auto
    qed
    then show ?thesis using g sortedL(2) inL by (auto simp: lists_ok_def)
  qed
  ultimately show ?thesis unfolding mapM_of_map by blast
qed

end
