(* ===== verification/BatchReach.thy ===== *)
theory BatchReach
  imports BatchParts
begin

text \<open>
  Every sequence of calls on a \<open>llama_batch_ext\<close> leaves a batch \<open>init\<close> can read.
\<close>

section \<open>The calls\<close>

datatype bx_call =
    Call_clear
  | Call_add llama_seq_id
  | Call_add_token llama_seq_id llama_token
  | Call_add_embd llama_seq_id llama_embd
  | Call_add_embd_row llama_seq_id int
  | Call_add_seq int llama_seq_id
  | Call_set_embd int llama_embd
  | Call_set_state int llama_embd
  | Call_set_pos int "llama_pos list option"
  | Call_set_output int bool
  | Call_set_order int int

fun bx_exec :: "bx_call \<Rightarrow> batch_ext \<Rightarrow> batch_ext option" where
  "bx_exec Call_clear b = Some (bx_clear b)"
| "bx_exec (Call_add s) b = Some (snd (add_token s b))"
| "bx_exec (Call_add_token s t) b = Some (snd (llama_batch_ext_add_token s t b))"
| "bx_exec (Call_add_embd s e) b = map_option snd (llama_batch_ext_add_embd s e b)"
| "bx_exec (Call_add_embd_row s r) b = Some (snd (llama_batch_ext_add_embd_row s r b))"
| "bx_exec (Call_add_seq i s) b = Some (snd (add_seq i s b))"
| "bx_exec (Call_set_embd i e) b = map_option snd (set_token_embd i e b)"
| "bx_exec (Call_set_state i e) b = map_option snd (set_token_state i e b)"
| "bx_exec (Call_set_pos i ps) b = map_option snd (set_token_pos i ps b)"
| "bx_exec (Call_set_output i v) b = Some (snd (set_output i v b))"
| "bx_exec (Call_set_order i v) b = Some (snd (set_decision_order i v b))"

inductive bx_reach :: "batch_ext \<Rightarrow> batch_ext \<Rightarrow> bool" for b0 where
  start: "bx_reach b0 (bx_clear b0)"
| call: "bx_reach b0 b \<Longrightarrow> bx_exec c b = Some b' \<Longrightarrow> bx_reach b0 b'"

section \<open>The invariant\<close>

definition tok_ok :: "batch_ext \<Rightarrow> ext_token \<Rightarrow> bool" where
  "tok_ok b t = (xt_seq_ids t \<noteq> [] \<and> distinct (xt_seq_ids t) \<and> length (xt_pos t) = 4 \<and>
     (\<forall>s \<in> set (xt_seq_ids t). 0 \<le> s \<and> s < bx_n_seq_max b) \<and>
     (is_tok t \<longrightarrow> 0 \<le> xt_id t \<and> xt_id t < bx_n_vocab b) \<and>
     (xt_has_embd t \<longrightarrow> 0 < bx_n_embd b \<and> xt_embd_off t + bx_n_embd b \<le> length (bx_embd b)))"

definition bx_inv :: "batch_ext \<Rightarrow> bool" where
  "bx_inv b = (0 < bx_n_embd_inp b \<and> 0 < bx_n_embd_inp_enc b \<and> 1 \<le> bx_n_pos_per_embd b \<and> bx_n_pos_per_embd b \<le> 4 \<and>
     (\<forall>t \<in> set (bx_tokens b). tok_ok b t) \<and>
     length (bx_embd b) = bx_n_embd b * length (filter xt_has_embd (bx_tokens b)) \<and>
     length (bx_state b) = bx_n_embd_state b * length (filter xt_has_state (bx_tokens b)))"

lemma bx_inv_ok: "bx_inv b \<Longrightarrow> bx_ok b"
  by (auto simp: bx_inv_def bx_ok_def tok_ok_def)

lemma filter_update_same:
  "i < length xs \<Longrightarrow> P (f (xs ! i)) = P (xs ! i) \<Longrightarrow> length (filter P (xs[i := f (xs ! i)])) = length (filter P xs)"
  by (induction xs arbitrary: i) (auto split: nat.splits)

lemma filter_update_new:
  "i < length xs \<Longrightarrow> \<not> P (xs ! i) \<Longrightarrow> P y \<Longrightarrow> length (filter P (xs[i := y])) = length (filter P xs) + 1"
  by (induction xs arbitrary: i) (auto split: nat.splits)

text \<open>A setter that changes one entry and neither of the stores.\<close>

lemma upd_token_inv:
  assumes "bx_inv b" "idx_ok b i" "tok_ok b (f (bx_tokens b ! nat i))"
    "xt_has_embd (f (bx_tokens b ! nat i)) = xt_has_embd (bx_tokens b ! nat i)"
    "xt_has_state (f (bx_tokens b ! nat i)) = xt_has_state (bx_tokens b ! nat i)"
  shows "bx_inv (upd_token i f b)"
proof -
  have i: "nat i < length (bx_tokens b)" using assms(2) by (auto simp: idx_ok_def)
  have t: "tok_ok (upd_token i f b) = tok_ok b" by (simp add: fun_eq_iff tok_ok_def upd_token_def)
  have "\<forall>t \<in> set (bx_tokens (upd_token i f b)). tok_ok b t"
    using assms(1,3) set_update_subset_insert [of "bx_tokens b" "nat i"] by (auto simp: upd_token_def bx_inv_def)
  then show ?thesis
    using assms filter_update_same [OF i, of xt_has_embd f] filter_update_same [OF i, of xt_has_state f]
    by (simp add: bx_inv_def t) (simp add: upd_token_def)
qed

lemma tok_at: "bx_inv b \<Longrightarrow> idx_ok b i \<Longrightarrow> tok_ok b (bx_tokens b ! nat i)"
  by (auto simp: bx_inv_def idx_ok_def)

lemma add_token_inv: "bx_inv b \<Longrightarrow> bx_inv (snd (add_token s b))"
  by (auto simp: add_token_def bx_inv_def tok_ok_def ext_token_new_def seq_insert_def is_tok_def)

lemma add_seq_inv: "bx_inv b \<Longrightarrow> bx_inv (snd (add_seq i s b))"
  using tok_at [of b i] by (auto simp: add_seq_def tok_ok_def seq_insert_def is_tok_def intro!: upd_token_inv)

lemma set_token_id_inv: "bx_inv b \<Longrightarrow> bx_inv (snd (set_token_id i t b))"
  using tok_at [of b i] by (auto simp: set_token_id_def tok_ok_def is_tok_def intro!: upd_token_inv)

lemma set_token_embd_row_inv: "bx_inv b \<Longrightarrow> bx_inv (snd (set_token_embd_row i r b))"
  using tok_at [of b i] by (auto simp: set_token_embd_row_def Let_def tok_ok_def is_tok_def intro!: upd_token_inv)

lemma set_output_inv: "bx_inv b \<Longrightarrow> bx_inv (snd (set_output i v b))" "bx_inv b \<Longrightarrow> bx_inv (snd (set_decision_order i n b))"
  using tok_at [of b i] by (auto simp: set_output_def set_decision_order_def tok_ok_def is_tok_def intro!: upd_token_inv)

lemma set_token_pos_inv: "bx_inv b \<Longrightarrow> set_token_pos i ps b = Some (r, b') \<Longrightarrow> bx_inv b'"
  using tok_at [of b i]
  by (auto simp: set_token_pos_def Let_def tok_ok_def is_tok_def bind_eq_Some_conv split: if_splits option.splits intro!: upd_token_inv)

lemma set_token_embd_inv:
  assumes b: "bx_inv b" and s: "set_token_embd i e b = Some (r, b')"
  shows "bx_inv b'"
proof (cases "idx_ok b i \<and> (\<exists>xs. em_data e = Some xs) \<and> (bx_n_embd b = 0 \<longrightarrow> em_total e \<in> {bx_n_embd_inp b, bx_n_embd_inp_enc b}) \<and>
    (bx_n_embd b \<noteq> 0 \<longrightarrow> em_total e = bx_n_embd b)")
  case False
  then show ?thesis using s b by (auto simp: set_token_embd_def Let_def split: if_splits option.splits)
next
  case True
  then obtain xs where i: "idx_ok b i" "em_data e = Some xs" by blast
  have n: "0 < em_total e" using True b by (auto simp: bx_inv_def)
  let ?b1 = "b\<lparr>bx_n_embd := em_total e\<rparr>"
  have b1: "(if bx_n_embd b = 0 then ?b1 else b) = ?b1" using True by (cases "bx_n_embd b = 0") auto
  have old: "bx_n_embd b = em_total e \<or> (\<forall>t \<in> set (bx_tokens b). \<not> xt_has_embd t)"
    using True b by (cases "bx_n_embd b = 0") (auto simp: bx_inv_def tok_ok_def)
  have inv1: "bx_inv ?b1"
  proof -
    have "tok_ok ?b1 t" if "t \<in> set (bx_tokens b)" for t
      using b that old n by (auto simp: bx_inv_def tok_ok_def)
    moreover have "length (bx_embd b) = em_total e * length (filter xt_has_embd (bx_tokens b))"
    proof (cases "bx_n_embd b = em_total e")
      case False
      then have "filter xt_has_embd (bx_tokens b) = []" using old by (simp add: filter_empty_conv)
      then show ?thesis using b by (simp add: bx_inv_def)
    qed (use b in \<open>simp add: bx_inv_def\<close>)
    ultimately show ?thesis using b by (auto simp: bx_inv_def)
  qed
  have se: "set_token_embd i e b = (if xt_has_embd (bx_tokens b ! nat i) then Some (False, ?b1)
     else do { ensure (em_total e \<le> length xs);
       Some (True, (upd_token i (\<lambda>t. t\<lparr>xt_has_embd := True, xt_embd_off := length (bx_embd b)\<rparr>) ?b1)\<lparr>bx_embd := bx_embd b @ take (em_total e) xs\<rparr>) })"
    unfolding set_token_embd_def i(2) option.case Let_def b1 using True by auto
  show ?thesis
  proof (cases "xt_has_embd (bx_tokens b ! nat i)")
    case True
    then show ?thesis using s se inv1 by simp
  next
    case new: False
    then have l: "em_total e \<le> length xs" and b': "b' = (upd_token i (\<lambda>t. t\<lparr>xt_has_embd := True, xt_embd_off := length (bx_embd b)\<rparr>) ?b1)
        \<lparr>bx_embd := bx_embd b @ take (em_total e) xs\<rparr>"
      using s se by (auto simp: bind_eq_Some_conv)
    have ii: "nat i < length (bx_tokens b)" using i(1) by (auto simp: idx_ok_def)
    have tk: "tok_ok b' t" if t: "t \<in> set (bx_tokens b) \<or> t = (bx_tokens b ! nat i)\<lparr>xt_has_embd := True, xt_embd_off := length (bx_embd b)\<rparr>" for t
    proof -
      have "tok_ok ?b1 t" if "t \<in> set (bx_tokens b)" for t using inv1 that by (simp add: bx_inv_def)
      then show ?thesis using t nth_mem [OF ii] n l unfolding b' by (force simp: tok_ok_def upd_token_def is_tok_def)
    qed
    have "\<forall>t \<in> set (bx_tokens b'). tok_ok b' t"
      using tk set_update_subset_insert [of "bx_tokens b" "nat i"] unfolding b' by (auto simp: upd_token_def)
    moreover have "length (filter xt_has_embd (bx_tokens b')) = length (filter xt_has_embd (bx_tokens b)) + 1"
      unfolding b' using filter_update_new [OF ii, of xt_has_embd] new by (simp add: upd_token_def)
    moreover have "length (filter xt_has_state (bx_tokens b')) = length (filter xt_has_state (bx_tokens b))"
      unfolding b' using filter_update_same [OF ii, of xt_has_state "\<lambda>t. t\<lparr>xt_has_embd := True, xt_embd_off := length (bx_embd b)\<rparr>"]
      by (simp add: upd_token_def)
    ultimately show ?thesis using inv1 l unfolding bx_inv_def by (simp add: b' upd_token_def)
  qed
qed

lemma set_token_state_inv:
  assumes b: "bx_inv b" and s: "set_token_state i e b = Some (r, b')"
  shows "bx_inv b'"
proof (cases "b' = b")
  case False
  then obtain xs where i: "idx_ok b i" "em_data e = Some xs" "em_total e = bx_n_embd_state b" "\<not> xt_has_state (bx_tokens b ! nat i)"
    and l: "em_total e \<le> length xs" and b': "b' = (upd_token i (\<lambda>t. t\<lparr>xt_has_state := True, xt_state_off := length (bx_state b)\<rparr>) b)
      \<lparr>bx_state := bx_state b @ take (em_total e) xs\<rparr>"
    using s by (auto simp: set_token_state_def bind_eq_Some_conv split: if_splits option.splits)
  have ii: "nat i < length (bx_tokens b)" using i(1) by (auto simp: idx_ok_def)
  let ?f = "\<lambda>t. t\<lparr>xt_has_state := True, xt_state_off := length (bx_state b)\<rparr>"
  have "tok_ok b' t" if "t \<in> set (bx_tokens b) \<or> t = ?f (bx_tokens b ! nat i)" for t
    using that b nth_mem [OF ii] unfolding b' by (force simp: bx_inv_def tok_ok_def upd_token_def is_tok_def)
  then have "\<forall>t \<in> set (bx_tokens b'). tok_ok b' t"
    using set_update_subset_insert [of "bx_tokens b" "nat i"] unfolding b' by (auto simp: upd_token_def)
  moreover have "length (filter xt_has_state (bx_tokens b')) = length (filter xt_has_state (bx_tokens b)) + 1"
    unfolding b' using filter_update_new [OF ii, of xt_has_state] i(4) by (simp add: upd_token_def)
  moreover have "length (filter xt_has_embd (bx_tokens b')) = length (filter xt_has_embd (bx_tokens b))"
    unfolding b' using filter_update_same [OF ii, of xt_has_embd ?f] by (simp add: upd_token_def)
  ultimately show ?thesis using b i(3) l unfolding bx_inv_def by (simp add: b' upd_token_def)
qed (use b in simp)

lemma add_with_inv:
  assumes b: "bx_inv b"
  shows "bx_inv (snd (llama_batch_ext_add_token s t b))" "bx_inv (snd (llama_batch_ext_add_embd_row s r b))"
    "llama_batch_ext_add_embd s e b = Some (n, b') \<Longrightarrow> bx_inv b'"
proof -
  obtain idx b1 where a: "add_token s b = (idx, b1)" by (cases "add_token s b")
  have b1: "bx_inv b1" using add_token_inv [OF b, of s] a by simp
  show "bx_inv (snd (llama_batch_ext_add_token s t b))"
    using b1 set_token_id_inv [OF b1, of idx t] by (auto simp: llama_batch_ext_add_token_def a split: prod.splits)
  show "bx_inv (snd (llama_batch_ext_add_embd_row s r b))"
    using b1 set_token_embd_row_inv [OF b1, of idx r] by (auto simp: llama_batch_ext_add_embd_row_def a split: prod.splits)
  show "llama_batch_ext_add_embd s e b = Some (n, b') \<Longrightarrow> bx_inv b'"
    using b1 set_token_embd_inv [OF b1] by (auto simp: llama_batch_ext_add_embd_def a bind_eq_Some_conv split: if_splits)
qed

lemma bx_exec_inv: "bx_inv b \<Longrightarrow> bx_exec c b = Some b' \<Longrightarrow> bx_inv b'"
proof (induction c b rule: bx_exec.induct)
  case (1 b)
  then show ?case by (auto simp: bx_inv_def bx_clear_def)
qed (auto simp: add_token_inv add_seq_inv set_output_inv add_with_inv intro: set_token_pos_inv set_token_embd_inv
    set_token_state_inv add_with_inv(3))

lemma bx_reach_inv:
  assumes "bx_reach b0 b" and "0 < bx_n_embd_inp b0" "0 < bx_n_embd_inp_enc b0" "1 \<le> bx_n_pos_per_embd b0" "bx_n_pos_per_embd b0 \<le> 4"
  shows "bx_inv b"
  using assms(1)
proof (induction rule: bx_reach.induct)
  case start
  then show ?case using assms(2-5) by (simp add: bx_inv_def bx_clear_def)
next
  case (call b c b')
  then show ?case by (blast intro: bx_exec_inv)
qed

end
