(* ===== verification/BatchEqual.thy ===== *)
theory BatchEqual
  imports BatchParts
begin

text \<open>
  One call of \<open>split_equal\<close>, with the constraint that the last \<open>n_keep_tail\<close> tokens of a sequence set
  stay in one micro-batch: the sequence sets that would leave fewer tokens behind are deferred, or the
  first of them is finished or shortened.
\<close>

section \<open>Giving tokens back\<close>

lemma marked_unmark:
  assumes m: "marked a (insert i X) d" and i: "i \<notin> X"
  shows "marked a X (unmark i d)"
proof -
  have d: "a\<lparr>ba_used := ba_used d, ba_n_used := ba_n_used d\<rparr> = d" using m unfolding marked_def by (elim conjE) (erule sym)
  have n: "ba_n d = ba_n a" using markedD(1) [OF m] by simp
  have fin: "finite X" using m finite_subset [of "insert i X" "unused a"] by (auto simp: marked_def)
  have iu: "i \<in> unused a" "i < length (ba_used d)" using m by (auto simp: marked_def unused_def)
  have "unused (unmark i d) = insert i (unused d)"
    using iu n m by (auto simp: unused_def unmark_def nth_list_update marked_def)
  moreover have "unused d = unused a - insert i X" using m by (simp add: marked_def)
  ultimately have "unused (unmark i d) = unused a - X" using iu(1) i by (simp only:) blast
  moreover have "unmark i d = a\<lparr>ba_used := ba_used (unmark i d), ba_n_used := ba_n_used (unmark i d)\<rparr>"
    by (subst d [symmetric]) (simp add: unmark_def)
  moreover have "ba_n_used (unmark i d) = ba_n_used a + card X" "length (ba_used (unmark i d)) = ba_n a"
    using m i fin by (auto simp: unmark_def marked_def)
  ultimately show ?thesis using m by (simp add: marked_def)
qed

lemma marked_fold_unmark:
  assumes "marked a (set ys \<union> X) d" "distinct ys" "set ys \<inter> X = {}"
  shows "marked a X (fold unmark ys d)"
  using assms
proof (induction ys arbitrary: d)
  case (Cons y ys)
  have "marked a (set ys \<union> X) (unmark y d)" by (rule marked_unmark) (use Cons.prems in auto)
  then show ?case using Cons by simp
qed simp

lemma marked_fold_mark:
  assumes "marked a X d" "distinct ys" "set ys \<inter> X = {}" "set ys \<subseteq> unused a"
  shows "marked a (set ys \<union> X) (fold mark ys d)"
  using assms
proof (induction ys arbitrary: d X)
  case (Cons y ys)
  have "marked a (insert y X) (mark y d)" by (rule marked_mark) (use Cons.prems in auto)
  then have "marked a (set ys \<union> insert y X) (fold mark ys (mark y d))" by (rule Cons.IH) (use Cons.prems in auto)
  then show ?case by simp
qed simp

text \<open>The loop that shortens a sequence set \<open>L\<close>, of which \<open>m\<close> tokens from \<open>c\<close> on were taken.\<close>

lemma give_back_wp:
  assumes "marked a (set (take m (drop c L)) \<union> X) d" "distinct L" "set (drop c L) \<inter> X = {}" "c + m \<le> length L" "tail \<le> length L - c"
  shows "wp (give_back (length L) tail (c + m) (take m (drop c L)) d) (\<lambda>(xs, d). \<exists>k. xs = take k (drop c L) \<and> k \<le> m \<and>
    marked a (set (take k (drop c L)) \<union> X) d \<and> c + k + tail \<le> length L \<and> (k = m \<or> c + k + tail = length L))"
  using assms
proof (induction m arbitrary: d)
  case 0
  then show ?case by (subst give_back.simps) auto
next
  case (Suc m)
  let ?xs = "take (Suc m) (drop c L)"
  have lt: "m < length (drop c L)" using Suc.prems(4) by simp
  have snoc: "?xs = take m (drop c L) @ [L ! (c + m)]" using take_Suc_conv_app_nth [OF lt] lt by simp
  have dist: "distinct ?xs" using Suc.prems(2) by simp
  have sub: "set ?xs \<subseteq> set (drop c L)" by (rule set_take_subset)
  show ?case
  proof (cases "length L - (c + Suc m) < tail")
    case True
    have eq: "give_back (length L) tail (c + Suc m) ?xs d = give_back (length L) tail (c + m) (take m (drop c L)) (unmark (L ! (c + m)) d)"
      using True by (subst give_back.simps) (simp add: snoc)
    have "marked a (set (take m (drop c L)) \<union> X) (unmark (L ! (c + m)) d)"
      by (rule marked_unmark) (use Suc.prems(1,3) dist sub in \<open>auto simp: snoc\<close>)
    from Suc.IH [OF this Suc.prems(2,3)] Suc.prems(4,5)
    have "wp (give_back (length L) tail (c + m) (take m (drop c L)) (unmark (L ! (c + m)) d)) (\<lambda>(xs, d). \<exists>k. xs = take k (drop c L) \<and> k \<le> m \<and>
      marked a (set (take k (drop c L)) \<union> X) d \<and> c + k + tail \<le> length L \<and> (k = m \<or> c + k + tail = length L))" by simp
    then show ?thesis unfolding eq
    proof (rule wp_mono)
      fix y assume "case y of (xs, d) \<Rightarrow> \<exists>k. xs = take k (drop c L) \<and> k \<le> m \<and>
        marked a (set (take k (drop c L)) \<union> X) d \<and> c + k + tail \<le> length L \<and> (k = m \<or> c + k + tail = length L)"
      then obtain xs d k where k: "y = (xs, d)" "xs = take k (drop c L)" "k \<le> m" "marked a (set (take k (drop c L)) \<union> X) d"
        "c + k + tail \<le> length L" "k = m \<or> c + k + tail = length L" by (cases y) blast
      have "c + k + tail = length L" using k(5,6) True by auto
      then show "case y of (xs, d) \<Rightarrow> \<exists>k. xs = take k (drop c L) \<and> k \<le> Suc m \<and>
        marked a (set (take k (drop c L)) \<union> X) d \<and> c + k + tail \<le> length L \<and> (k = Suc m \<or> c + k + tail = length L)"
        using k by (simp add: exI [of _ k])
    qed
  next
    case False
    then have "give_back (length L) tail (c + Suc m) ?xs d = Some (?xs, d)" by (subst give_back.simps) simp
    moreover have "c + Suc m + tail \<le> length L" using False Suc.prems(4) by simp
    ultimately show ?thesis using Suc.prems(1) by (auto intro!: exI [of _ "Suc m"])
  qed
qed

section \<open>The tokens taken\<close>

lemma taken_sub: "set (taken Ls c f s) \<subseteq> set (Ls ! s)"
  by (auto simp: taken_def dest: in_set_takeD in_set_dropD)

lemma lists_okD:
  assumes "lists_ok a Ls c" "s < length Ls"
  shows "distinct (Ls ! s)" "c ! s < length (Ls ! s)" "\<And>k. k < length (Ls ! s) \<Longrightarrow> Ls ! s ! k \<in> unused a \<longleftrightarrow> c ! s \<le> k"
    "\<And>t. t < length Ls \<Longrightarrow> s \<noteq> t \<Longrightarrow> set (Ls ! s) \<inter> set (Ls ! t) = {}"
  using assms by (auto simp: lists_ok_def)

lemma taken_unused:
  assumes "lists_ok a Ls c" "s < length Ls"
  shows "set (drop (c ! s) (Ls ! s)) \<subseteq> unused a"
  using lists_okD(3) [OF assms] by (auto simp: in_set_conv_nth)

lemma taken_distinct:
  assumes "lists_ok a Ls c" "distinct xs" "set xs \<subseteq> {..<length Ls}"
  shows "distinct (concat (map (taken Ls c f) xs))"
  using assms(2,3)
proof (induction xs)
  case (Cons x xs)
  have "distinct (taken Ls c f x)" using lists_okD(1) [OF assms(1)] Cons.prems by (simp add: taken_def)
  moreover have "set (taken Ls c f x) \<inter> set (concat (map (taken Ls c f) xs)) = {}"
  proof -
    have "set (taken Ls c f x) \<inter> set (taken Ls c f y) = {}" if "y \<in> set xs" for y
      using lists_okD(4) [OF assms(1), of x y] that Cons.prems taken_sub [of Ls c f x] taken_sub [of Ls c f y] by fastforce
    then show ?thesis by fastforce
  qed
  ultimately show ?case using Cons by simp
qed simp

text \<open>What is kept: \<open>m\<close> tokens of each of the first \<open>n\<close> sequence sets, and no short rest.\<close>

definition kept_ok :: "batch_allocr \<Rightarrow> nat \<Rightarrow> nat \<Rightarrow> nat list list \<Rightarrow> nat list \<Rightarrow> nat \<Rightarrow> nat \<Rightarrow> nat list list \<Rightarrow> batch_allocr \<Rightarrow> bool" where
  "kept_ok a nb tail Ls c n m kept d = (0 < n \<and> n \<le> length Ls \<and> 0 < m \<and> m * n \<le> max nb n \<and> kept = map (taken Ls c (\<lambda>_. m)) [0..<n] \<and>
     (\<forall>s < n. c ! s + m \<le> length (Ls ! s) \<and> (c ! s + m = length (Ls ! s) \<or> c ! s + m + tail \<le> length (Ls ! s))) \<and>
     marked a (set (concat kept)) d)"

lemma eq_at_idxs: "eq_at a Ls c f e \<Longrightarrow> es_idxs e = map (taken Ls c f) [0..<length Ls]"
  by (intro nth_equalityI) (simp_all add: eq_at_def)

lemma upt_split_at: "n \<le> m \<Longrightarrow> [0..<m] = [0..<n] @ [n..<m]"
  using upt_add_eq_append [of 0 n "m - n"] by simp

text \<open>The deferred sequence sets get their tokens back.\<close>

lemma give_back_others:
  assumes L: "lists_ok a Ls c" and n: "n \<le> length Ls" and d: "marked a (X \<union> set (concat (map (taken Ls c f) [n..<length Ls]))) d"
    and X: "X \<subseteq> (\<Union>s < n. set (Ls ! s))"
  shows "marked a X (fold unmark (concat (map (taken Ls c f) [n..<length Ls])) d)"
proof (rule marked_fold_unmark)
  show "marked a (set (concat (map (taken Ls c f) [n..<length Ls])) \<union> X) d" using d by (simp only: Un_commute)
  show "distinct (concat (map (taken Ls c f) [n..<length Ls]))" by (rule taken_distinct [OF L]) auto
  show "set (concat (map (taken Ls c f) [n..<length Ls])) \<inter> X = {}"
  proof -
    have "x \<notin> X" if t: "t \<in> {n..<length Ls}" "x \<in> set (taken Ls c f t)" for x t
    proof
      assume "x \<in> X"
      then obtain s where s: "s < n" "x \<in> set (Ls ! s)" using X by blast
      have "set (Ls ! s) \<inter> set (Ls ! t) = {}" using lists_okD(4) [OF L, of s t] s(1) n t(1) by simp
      then show False using s(2) t(2) taken_sub [of Ls c f t] by blast
    qed
    then show ?thesis by auto
  qed
qed

lemma keep_tail_some:
  assumes L: "lists_ok a Ls c" and e: "eq_at a Ls c (\<lambda>_. u) e" "0 < u" "u * length Ls \<le> max nb (length Ls)" and n: "0 < n" "n \<le> length Ls"
    and tl: "\<forall>s < n. c ! s + u = length (Ls ! s) \<or> c ! s + u + tail \<le> length (Ls ! s)"
  shows "kept_ok a nb tail Ls c n u (take n (es_idxs e)) (fold unmark (concat (drop n (es_idxs e))) (es_a e))"
proof -
  let ?t = "taken Ls c (\<lambda>_. u)"
  have xs: "es_idxs e = map ?t [0..<n] @ map ?t [n..<length Ls]" using eq_at_idxs [OF e(1)] unfolding upt_split_at [OF n(2)] by (simp only: map_append)
  have all: "taken_set Ls c (\<lambda>_. u) = set (concat (map ?t [0..<n])) \<union> set (concat (map ?t [n..<length Ls]))"
  proof -
    have "taken_set Ls c (\<lambda>_. u) = set (concat (map ?t [0..<length Ls]))" by (auto simp: taken_set_def)
    then show ?thesis unfolding upt_split_at [OF n(2)] by (simp only: map_append concat_append set_append)
  qed
  have "marked a (set (concat (map ?t [0..<n]))) (fold unmark (concat (map ?t [n..<length Ls])) (es_a e))"
  proof (rule give_back_others [OF L n(2)])
    show "marked a (set (concat (map ?t [0..<n])) \<union> set (concat (map ?t [n..<length Ls]))) (es_a e)"
      using e(1) unfolding eq_at_def all by blast
    show "set (concat (map ?t [0..<n])) \<subseteq> (\<Union>s < n. set (Ls ! s))" using taken_sub by fastforce
  qed
  moreover have "u * n \<le> max nb n"
  proof (cases "length Ls \<le> nb")
    case True
    have "u * n \<le> u * length Ls" by (rule mult_le_mono2 [OF n(2)])
    also have "\<dots> \<le> nb" using True e(3) by simp
    finally show ?thesis by (simp add: le_max_iff_disj)
  next
    case False
    then have "u * length Ls \<le> 1 * length Ls" using e(3) by simp
    then have "u \<le> 1" using n by (metis mult_le_cancel2 not_gr_zero le_zero_eq)
    then have "u * n \<le> 1 * n" by (rule mult_le_mono1)
    then show ?thesis unfolding nat_mult_1 le_max_iff_disj by (rule disjI2)
  qed
  moreover have "c ! s + u \<le> length (Ls ! s)" if "s < n" for s using that n(2) e(1) by (simp add: eq_at_def)
  ultimately show ?thesis using n e(2) tl unfolding kept_ok_def xs by simp
qed

text \<open>One sequence set is kept alone, with \<open>m\<close> tokens.\<close>

lemma keep_tail_one:
  assumes L: "lists_ok a Ls c" and ne: "Ls \<noteq> []" and m: "0 < m" "m \<le> nb" "c ! 0 + m \<le> length (Ls ! 0)"
    "c ! 0 + m = length (Ls ! 0) \<or> c ! 0 + m + tail \<le> length (Ls ! 0)"
    and d: "marked a (set (take m (drop (c ! 0) (Ls ! 0))) \<union> set (concat (map (taken Ls c (\<lambda>_. u)) [1..<length Ls]))) d"
  shows "kept_ok a nb tail Ls c 1 m [take m (drop (c ! 0) (Ls ! 0))] (fold unmark (concat (map (taken Ls c (\<lambda>_. u)) [1..<length Ls])) d)"
proof -
  have one: "1 \<le> length Ls" using ne by (cases Ls) simp_all
  have tk: "map (taken Ls c (\<lambda>_. m)) [0..<1] = [take m (drop (c ! 0) (Ls ! 0))]" by (simp add: taken_def)
  have "marked a (set (take m (drop (c ! 0) (Ls ! 0)))) (fold unmark (concat (map (taken Ls c (\<lambda>_. u)) [1..<length Ls])) d)"
    by (rule give_back_others [OF L one d]) (auto dest: in_set_takeD in_set_dropD)
  then show ?thesis using m one tk unfolding kept_ok_def by auto
qed

lemma keep_tail_wp:
  assumes L: "lists_ok a Ls c" and ne: "Ls \<noteq> []" and e: "eq_at a Ls c (\<lambda>_. u) e" "0 < u" "u * length Ls \<le> max nb (length Ls)"
    and tl: "0 < tail" "tail < nb"
  shows "wp (keep_tail nb tail Ls e) (\<lambda>(kept, d). \<exists>n m. kept_ok a nb tail Ls c n m kept d)"
proof -
  let ?t = "taken Ls c (\<lambda>_. u)" and ?P = "\<lambda>r. \<not> (r \<noteq> 0 \<and> r < tail)"
  define rem where "rem = map (\<lambda>s. length (Ls ! s) - es_cur e ! s) [0..<length Ls]"
  define n where "n = length (takeWhile ?P rem)"
  have len: "0 < length Ls" using ne by simp
  have cur: "es_cur e ! s = c ! s + u" "c ! s + u \<le> length (Ls ! s)" if "s < length Ls" for s using e(1) that by (simp_all add: eq_at_def)
  have remn: "rem ! s = length (Ls ! s) - (c ! s + u)" if "s < length Ls" for s using that cur(1) by (simp add: rem_def)
  have lr: "length rem = length Ls" by (simp add: rem_def)
  have nle: "n \<le> length Ls" unfolding n_def using length_takeWhile_le [of ?P rem] lr by simp
  have xs: "es_idxs e = map ?t [0..<length Ls]" by (rule eq_at_idxs [OF e(1)])
  have hd: "hd (es_idxs e) = take u (drop (c ! 0) (Ls ! 0))" "hd rem = rem ! 0" "hd (es_cur e) = c ! 0 + u" "hd Ls = Ls ! 0"
  proof -
    have "es_idxs e \<noteq> []" "rem \<noteq> []" "es_cur e \<noteq> []" using len lr e(1) xs by (auto simp: eq_at_def)
    moreover have "es_idxs e ! 0 = take u (drop (c ! 0) (Ls ! 0))" using len by (simp add: xs taken_def)
    ultimately show "hd (es_idxs e) = take u (drop (c ! 0) (Ls ! 0))" "hd rem = rem ! 0" "hd (es_cur e) = c ! 0 + u" "hd Ls = Ls ! 0"
      using cur(1) [OF len] ne by (simp_all add: hd_conv_nth)
  qed
  have en: "ensure (nb > tail) = Some ()" using tl(2) by simp
  show ?thesis
  proof (cases "n = 0")
    case False
    have ok: "?P (rem ! s)" if "s < n" for s
      using takeWhile_nth [of s ?P rem] nth_mem [of s "takeWhile ?P rem"] set_takeWhileD that unfolding n_def by fastforce
    have "c ! s + u = length (Ls ! s) \<or> c ! s + u + tail \<le> length (Ls ! s)" if s: "s < n" for s
      using ok [OF s] remn [of s] cur(2) [of s] s nle by auto
    then have k: "kept_ok a nb tail Ls c n u (take n (es_idxs e)) (fold unmark (concat (drop n (es_idxs e))) (es_a e))"
      by (intro keep_tail_some [OF L e]) (use False nle in auto)
    have "hd (es_idxs e) # tl (es_idxs e) = es_idxs e" using xs len by (cases "es_idxs e") auto
    then have "keep_tail nb tail Ls e = Some (take n (es_idxs e), fold unmark (concat (drop n (es_idxs e))) (es_a e))"
      unfolding keep_tail_def Let_def rem_def [symmetric] n_def [symmetric] en using False by simp
    then show ?thesis using k by auto
  next
    case True
    have r: "0 < rem ! 0" "rem ! 0 < tail"
    proof -
      have "rem \<noteq> []" using lr len by auto
      then have "\<not> ?P (rem ! 0)" using True unfolding n_def by (cases rem) (auto split: if_splits)
      then show "0 < rem ! 0" "rem ! 0 < tail" by auto
    qed
    have l0: "length (Ls ! 0) = c ! 0 + u + rem ! 0" using remn [OF len] cur(2) [OF len] by simp
    have ul: "u \<le> nb"
    proof (cases "length Ls \<le> nb")
      case True
      then show ?thesis using e(3) len by (metis le_trans max.absorb1 mult.commute mult_le_mono1 nat_mult_1 Suc_leI One_nat_def)
    next
      case False
      then have "u * length Ls \<le> 1 * length Ls" using e(3) by simp
      then show ?thesis using len tl by (metis mult_le_cancel2 not_gr_zero le_trans Suc_leI One_nat_def less_trans)
    qed
    have rest: "drop 1 (es_idxs e) = map ?t [1..<length Ls]" unfolding xs by (simp add: drop_map)
    have ts: "taken_set Ls c (\<lambda>_. u) = set (take u (drop (c ! 0) (Ls ! 0))) \<union> set (concat (map ?t [1..<length Ls]))"
    proof -
      have "taken_set Ls c (\<lambda>_. u) = set (concat (map ?t [0..<length Ls]))" by (auto simp: taken_set_def)
      then show ?thesis unfolding upt_conv_Cons [OF len] by (simp only: list.map concat.simps set_append taken_def One_nat_def)
    qed
    have mk: "marked a (set (take u (drop (c ! 0) (Ls ! 0))) \<union> set (concat (map ?t [1..<length Ls]))) (es_a e)"
      using e(1) unfolding eq_at_def ts by blast
    have dj: "set (drop (c ! 0) (Ls ! 0)) \<inter> set (concat (map ?t [1..<length Ls])) = {}"
    proof -
      have "set (Ls ! 0) \<inter> set (?t t) = {}" if "t \<in> {1..<length Ls}" for t
        using lists_okD(4) [OF L len, of t] that taken_sub [of Ls c "\<lambda>_. u" t] by fastforce
      then show ?thesis using set_drop_subset [of "c ! 0" "Ls ! 0"] by fastforce
    qed
    have d0: "distinct (Ls ! 0)" by (rule lists_okD(1) [OF L len])
    have lu: "length (take u (drop (c ! 0) (Ls ! 0))) = u" using l0 by simp
    have run: "keep_tail nb tail Ls e = Option.bind (if length (hd (es_idxs e)) + hd rem \<le> nb then
            Some (hd (es_idxs e) @ drop (hd (es_cur e)) (hd Ls), fold mark (drop (hd (es_cur e)) (hd Ls)) (es_a e), 1)
          else do {
            (xs, a) \<leftarrow> give_back (length (hd Ls)) tail (hd (es_cur e)) (hd (es_idxs e)) (es_a e);
            Some (xs, a, 1) })
        (\<lambda>(first, a, n). Some (take n (first # tl (es_idxs e)), fold unmark (concat (drop n (es_idxs e))) a))"
      unfolding keep_tail_def Let_def rem_def [symmetric] n_def [symmetric] en using True by simp
    show ?thesis
    proof (cases "length (hd (es_idxs e)) + hd rem \<le> nb")
      case ext: True
      let ?m = "u + rem ! 0" and ?X = "drop (c ! 0) (Ls ! 0)"
      have split: "take ?m ?X = take u ?X @ drop u ?X" using l0 by (simp only: append_take_drop_id) simp
      have dr: "drop (hd (es_cur e)) (hd Ls) = drop u ?X" unfolding hd by (simp add: add.commute)
      have "marked a (set (drop u ?X) \<union> (set (take u ?X) \<union> set (concat (map ?t [1..<length Ls])))) (fold mark (drop u ?X) (es_a e))"
      proof (rule marked_fold_mark [OF mk])
        show "distinct (drop u ?X)" using d0 by simp
        show "set (drop u ?X) \<inter> (set (take u ?X) \<union> set (concat (map ?t [1..<length Ls]))) = {}"
          using dj set_drop_subset [of u ?X] set_take_disj_set_drop_if_distinct [of ?X u u] d0 by (auto simp del: set_concat drop_drop)
        show "set (drop u ?X) \<subseteq> unused a" using taken_unused [OF L len] set_drop_subset [of u ?X] by (rule order_trans [rotated])
      qed
      then have "marked a (set (take ?m ?X) \<union> set (concat (map ?t [1..<length Ls]))) (fold mark (drop u ?X) (es_a e))"
        unfolding split set_append by (simp only: Un_assoc Un_left_commute [of "set (drop u ?X)"])
      then have "kept_ok a nb tail Ls c 1 ?m [take ?m ?X] (fold unmark (concat (map ?t [1..<length Ls])) (fold mark (drop u ?X) (es_a e)))"
        by (intro keep_tail_one [OF L ne]) (use e(2) ext l0 lu hd(1,2) in auto)
      moreover have "keep_tail nb tail Ls e = Some ([take ?m ?X], fold unmark (concat (map ?t [1..<length Ls])) (fold mark (drop u ?X) (es_a e)))"
        unfolding run if_P [OF ext] Option.bind.bind_lunit prod.case rest dr unfolding hd(1) split [symmetric] by simp
      ultimately show ?thesis by auto
    next
      case False
      have gt: "nb < u + rem ! 0" using False lu unfolding hd(1,2) by simp
      have "wp (give_back (length (Ls ! 0)) tail (c ! 0 + u) (take u (drop (c ! 0) (Ls ! 0))) (es_a e)) (\<lambda>(xs, d). \<exists>k. xs = take k (drop (c ! 0) (Ls ! 0)) \<and> k \<le> u \<and>
        marked a (set (take k (drop (c ! 0) (Ls ! 0))) \<union> set (concat (map ?t [1..<length Ls]))) d \<and> c ! 0 + k + tail \<le> length (Ls ! 0) \<and>
        (k = u \<or> c ! 0 + k + tail = length (Ls ! 0)))"
        by (rule give_back_wp [OF mk d0 dj]) (use l0 gt tl in auto)
      then obtain d k where g: "give_back (length (Ls ! 0)) tail (c ! 0 + u) (take u (drop (c ! 0) (Ls ! 0))) (es_a e) = Some (take k (drop (c ! 0) (Ls ! 0)), d)"
        "k \<le> u" "marked a (set (take k (drop (c ! 0) (Ls ! 0))) \<union> set (concat (map ?t [1..<length Ls]))) d" "c ! 0 + k + tail \<le> length (Ls ! 0)"
        "k = u \<or> c ! 0 + k + tail = length (Ls ! 0)"
        by (rule wpE) blast
      have "0 < k" "k \<le> nb" using g(2,4,5) l0 gt tl ul r by auto
      then have "kept_ok a nb tail Ls c 1 k [take k (drop (c ! 0) (Ls ! 0))] (fold unmark (concat (map ?t [1..<length Ls])) d)"
        by (intro keep_tail_one [OF L ne]) (use g in auto)
      moreover have "keep_tail nb tail Ls e = Some ([take k (drop (c ! 0) (Ls ! 0))], fold unmark (concat (map ?t [1..<length Ls])) d)"
        unfolding run if_not_P [OF False] unfolding hd g(1) Option.bind.bind_lunit prod.case rest by simp
      ultimately show ?thesis by auto
    qed
  qed
qed

section \<open>One call\<close>

text \<open>
  \<open>c\<close> says where the unused tokens of the picked sequence sets \<open>R\<close> begin, \<open>xss\<close> are the first \<open>m\<close> of
  them for the first \<open>n\<close> sets.
\<close>

definition picked :: "batch_allocr \<Rightarrow> nat \<Rightarrow> llama_seq_id set list \<Rightarrow> nat list \<Rightarrow> bool" where
  "picked a nb R c = (split_inv a \<and> eq_inv a \<and> disjoint_sets R \<and> length R \<le> nb + 1 \<and> (\<forall>S \<in> set R. \<exists>j \<in> unused a. S = set (ba_ids a ! j)) \<and>
     lists_ok a (map (ba_seq_set_map a) R) c)"

lemma pickedB:
  assumes "picked a nb R c"
  shows "split_inv a" "eq_inv a" "disjoint_sets R" "length R \<le> nb + 1" "\<forall>S \<in> set R. \<exists>j \<in> unused a. S = set (ba_ids a ! j)"
    "lists_ok a (map (ba_seq_set_map a) R) c"
  by (insert assms [unfolded picked_def]) (elim conjE, assumption)+

lemma picked_facts:
  assumes "picked a nb R c"
  shows "\<And>i s. s < length R \<Longrightarrow> i \<in> set (map (ba_seq_set_map a) R ! s) \<longleftrightarrow> i < ba_n a \<and> set (ba_ids a ! i) = R ! s"
    "\<And>s t. s < length R \<Longrightarrow> t < length R \<Longrightarrow> s \<noteq> t \<Longrightarrow> R ! s \<inter> R ! t = {}" "\<And>s. s < length R \<Longrightarrow> R ! s \<noteq> {}"
    "\<And>s. s < length R \<Longrightarrow> sorted (map (ba_seq_set_map a) R ! s)" "\<And>s. s < length R \<Longrightarrow> distinct (map (ba_seq_set_map a) R ! s)"
proof -
  note p = pickedB [OF assms]
  have ok: "ba_ok a" using p(1) by (simp add: split_inv_def)
  note d = ba_okD [OF ok]
  show "i \<in> set (map (ba_seq_set_map a) R ! s) \<longleftrightarrow> i < ba_n a \<and> set (ba_ids a ! i) = R ! s" if "s < length R" for i s
    using that d(21) by simp
  show "R ! s \<inter> R ! t = {}" if "s < length R" "t < length R" "s \<noteq> t" for s t
    using p(3) that by (cases s t rule: linorder_cases) (auto simp: disjoint_sets_def sorted_wrt_iff_nth_less)
  show "s < length R \<Longrightarrow> R ! s \<noteq> {}" for s using p(5) d(8) nth_mem [of s R] by (fastforce simp: unused_def)
  show "s < length R \<Longrightarrow> sorted (map (ba_seq_set_map a) R ! s)" for s using d(21) by (simp add: sorted_wrt_filter)
  show "s < length R \<Longrightarrow> distinct (map (ba_seq_set_map a) R ! s)" for s using lists_okD(1) [OF p(6)] by simp
qed

text \<open>The tokens of \<open>A\<close> in the same sequence set as \<open>i\<close>; after a piece either none or at least \<open>tail\<close> are left.\<close>

definition mates :: "batch_allocr \<Rightarrow> nat set \<Rightarrow> nat \<Rightarrow> nat set" where
  "mates a A i = {j \<in> A. set (ba_ids a ! j) = set (ba_ids a ! i)}"

definition tail_ok :: "nat \<Rightarrow> batch_allocr \<Rightarrow> nat list list \<Rightarrow> bool" where
  "tail_ok tail a xss = (\<forall>i \<in> set (concat xss). mates a (unused a - set (concat xss)) i = {} \<or> tail \<le> card (mates a (unused a - set (concat xss)) i))"

lemma kept_piece:
  assumes p: "picked a nb R c" and k: "kept_ok a nb tail (map (ba_seq_set_map a) R) c n m xss d"
  shows "equal_piece nb a xss" "\<And>s i. s < n \<Longrightarrow> i \<in> set (xss ! s) \<Longrightarrow> set (ba_ids a ! i) = R ! s" "length xss = n"
    "\<And>x. x \<in> set xss \<Longrightarrow> length x = m"
proof -
  let ?Ls = "map (ba_seq_set_map a) R"
  note pB = pickedB [OF p] and f = picked_facts [OF p]
  have n: "0 < n" "n \<le> length R" and m: "0 < m" "m * n \<le> max nb n" and xs: "xss = map (taken ?Ls c (\<lambda>_. m)) [0..<n]"
    and room: "\<And>s. s < n \<Longrightarrow> c ! s + m \<le> length (?Ls ! s)" and mk: "marked a (set (concat xss)) d"
    using k by (auto simp: kept_ok_def)
  show lx: "length xss = n" by (simp add: xs)
  show len: "length x = m" if "x \<in> set xss" for x
  proof -
    have "x \<in> taken ?Ls c (\<lambda>_. m) ` {0..<n}" using that unfolding xs by (simp only: set_map set_upt)
    then obtain s where s: "s < n" "x = taken ?Ls c (\<lambda>_. m) s" by (elim imageE) simp
    show ?thesis unfolding s(2) by (rule taken_length [OF room [OF s(1)]])
  qed
  have at: "xss ! s = taken ?Ls c (\<lambda>_. m) s" if "s < n" for s using that by (simp add: xs)
  show setx: "set (ba_ids a ! i) = R ! s" if s: "s < n" "i \<in> set (xss ! s)" for s i
  proof -
    have sR: "s < length R" using s(1) n(2) by simp
    have "i \<in> set (?Ls ! s)" using s(2) taken_sub [of ?Ls c "\<lambda>_. m" s] unfolding at [OF s(1)] by blast
    then show ?thesis using f(1) [OF sR] by simp
  qed
  show "equal_piece nb a xss"
    unfolding equal_piece_def
  proof (intro conjI)
    show "xss \<noteq> []" "length xss \<le> nb + 1" using n lx pB(4) by auto
    show "\<exists>m > 0. (\<forall>xs \<in> set xss. length xs = m) \<and> m * length xss \<le> max nb (length xss)" using m len lx by auto
    show "set (concat xss) \<subseteq> unused a" using mk by (simp add: marked_def)
    show "\<forall>s < length xss. \<forall>t < length xss. s \<noteq> t \<longrightarrow> (\<forall>i \<in> set (xss ! s). \<forall>j \<in> set (xss ! t). set (ba_ids a ! i) \<inter> set (ba_ids a ! j) = {})"
      using setx f(2) lx n(2) by simp
    show "\<forall>xs \<in> set xss. sorted xs \<and> (\<forall>i \<in> set xs. \<forall>j \<in> set xs. set (ba_ids a ! i) = set (ba_ids a ! j))"
    proof
      fix x assume "x \<in> set xss"
      then obtain s where s: "s < n" "x = xss ! s" using lx by (auto simp: in_set_conv_nth)
      have "sorted x" using s(1) n(2) f(4) [of s] by (simp add: s(2) at taken_def sorted_wrt_take sorted_wrt_drop)
      then show "sorted x \<and> (\<forall>i \<in> set x. \<forall>j \<in> set x. set (ba_ids a ! i) = set (ba_ids a ! j))" using setx [OF s(1)] s(2) by simp
    qed
    show "distinct (concat xss)" unfolding xs by (rule taken_distinct [OF pB(6)]) (use n(2) in auto)
  qed
qed

text \<open>A piece takes a prefix of the unused tokens of its sets, and the rest of a set is empty or long.\<close>

lemma kept_rest:
  assumes p: "picked a nb R c" and k: "kept_ok a nb tail (map (ba_seq_set_map a) R) c n m xss d" and s: "s < n"
  shows "{j \<in> unused a. set (ba_ids a ! j) = R ! s} = set (drop (c ! s) (map (ba_seq_set_map a) R ! s))"
    "{j \<in> unused a - set (concat xss). set (ba_ids a ! j) = R ! s} = set (drop (c ! s + m) (map (ba_seq_set_map a) R ! s))"
proof -
  let ?Ls = "map (ba_seq_set_map a) R" let ?L = "?Ls ! s"
  note pB = pickedB [OF p] and f = picked_facts [OF p] and pc = kept_piece [OF p k]
  have n: "n \<le> length R" and xs: "xss = map (taken ?Ls c (\<lambda>_. m)) [0..<n]" and room: "c ! s + m \<le> length ?L"
    using k s by (auto simp: kept_ok_def)
  have sR: "s < length R" and sL: "s < length ?Ls" using s n by auto
  note lo = lists_okD [OF pB(6) sL]
  show un: "{j \<in> unused a. set (ba_ids a ! j) = R ! s} = set (drop (c ! s) ?L)"
  proof (intro set_eqI iffI)
    fix j assume j: "j \<in> {j \<in> unused a. set (ba_ids a ! j) = R ! s}"
    then have "j \<in> set ?L" using f(1) [OF sR] by (auto simp: unused_def)
    then obtain q where q: "q < length ?L" "?L ! q = j" unfolding in_set_conv_nth by blast
    have "c ! s \<le> q" using lo(3) [OF q(1)] q(2) j by simp
    then show "j \<in> set (drop (c ! s) ?L)" unfolding in_set_conv_nth using q by (intro exI [of _ "q - c ! s"]) simp
  next
    fix j assume j: "j \<in> set (drop (c ! s) ?L)"
    then show "j \<in> {j \<in> unused a. set (ba_ids a ! j) = R ! s}"
      using taken_unused [OF pB(6) sL] f(1) [OF sR, of j] set_drop_subset [of "c ! s" ?L] by blast
  qed
  have at: "xss ! s = take m (drop (c ! s) ?L)" using s by (simp add: xs taken_def)
  have mem: "j \<in> set (concat xss) \<longleftrightarrow> j \<in> set (xss ! s)" if j: "set (ba_ids a ! j) = R ! s" for j
  proof
    assume "j \<in> set (concat xss)"
    then obtain x where x: "x \<in> set xss" "j \<in> set x" by (auto simp del: set_map)
    then obtain t where t: "t < n" "j \<in> set (xss ! t)" using pc(3) by (metis in_set_conv_nth)
    have "R ! t = R ! s" using pc(2) [OF t] j by simp
    then have "t = s" using f(2) [of t s] f(3) [of s] t(1) sR n by auto
    then show "j \<in> set (xss ! s)" using t(2) by simp
  next
    assume "j \<in> set (xss ! s)"
    moreover have "xss ! s \<in> set xss" using pc(3) s by (intro nth_mem) simp
    ultimately show "j \<in> set (concat xss)" unfolding set_concat by blast
  qed
  have "set (drop (c ! s) ?L) = set (xss ! s) \<union> set (drop m (drop (c ! s) ?L))" unfolding at by (metis append_take_drop_id set_append)
  moreover have "set (xss ! s) \<inter> set (drop m (drop (c ! s) ?L)) = {}"
    unfolding at by (rule set_take_disj_set_drop_if_distinct) (use lo(1) in simp_all)
  moreover have "{j \<in> unused a - set (concat xss). set (ba_ids a ! j) = R ! s} = set (drop (c ! s) ?L) - set (xss ! s)"
    using un mem by blast
  ultimately have "{j \<in> unused a - set (concat xss). set (ba_ids a ! j) = R ! s} = set (drop m (drop (c ! s) ?L))" by blast
  then show "{j \<in> unused a - set (concat xss). set (ba_ids a ! j) = R ! s} = set (drop (c ! s + m) ?L)" by (simp add: add.commute)
qed

lemma kept_at:
  assumes p: "picked a nb R c" and k: "kept_ok a nb tail (map (ba_seq_set_map a) R) c n m xss d" and i: "i \<in> set (concat xss)"
  obtains s where "s < n" "set (ba_ids a ! i) = R ! s" "i \<in> set (take m (drop (c ! s) (map (ba_seq_set_map a) R ! s)))"
proof -
  note pc = kept_piece [OF p k]
  obtain x where x: "x \<in> set xss" "i \<in> set x" using i by (auto simp del: set_map)
  then obtain s where s: "s < n" "i \<in> set (xss ! s)" using pc(3) by (metis in_set_conv_nth)
  have "xss ! s = take m (drop (c ! s) (map (ba_seq_set_map a) R ! s))" using k s(1) by (simp add: kept_ok_def taken_def)
  then show thesis using that [OF s(1) pc(2) [OF s]] s(2) by simp
qed

lemma kept_tail:
  assumes p: "picked a nb R c" and k: "kept_ok a nb tail (map (ba_seq_set_map a) R) c n m xss d"
  shows "tail_ok tail a xss"
  unfolding tail_ok_def
proof
  fix i assume "i \<in> set (concat xss)"
  then obtain s where s: "s < n" "set (ba_ids a ! i) = R ! s" by (rule kept_at [OF p k])
  let ?L = "map (ba_seq_set_map a) R ! s"
  have sR: "s < length R" and tl: "c ! s + m = length ?L \<or> c ! s + m + tail \<le> length ?L" using k s(1) by (auto simp: kept_ok_def)
  have r: "mates a (unused a - set (concat xss)) i = set (drop (c ! s + m) ?L)" unfolding mates_def s(2) by (rule kept_rest(2) [OF p k s(1)])
  have "card (mates a (unused a - set (concat xss)) i) = length ?L - (c ! s + m)"
    unfolding r using distinct_card [of "drop (c ! s + m) ?L"] picked_facts(5) [OF p sR] by simp
  moreover have "mates a (unused a - set (concat xss)) i = {}" if "c ! s + m = length ?L" unfolding r that by simp
  ultimately show "mates a (unused a - set (concat xss)) i = {} \<or> tail \<le> card (mates a (unused a - set (concat xss)) i)" using tl by linarith
qed

lemma kept_eq_inv:
  assumes p: "picked a nb R c" and k: "kept_ok a nb tail (map (ba_seq_set_map a) R) c n m xss d"
    and e: "unused e = unused a - set (concat xss)" "ba_batch e = ba_batch a"
  shows "eq_inv e"
  unfolding eq_inv_def e
proof (intro allI impI)
  fix S i j assume ij: "i \<in> unused a - set (concat xss)" "i < j" "j < ba_n a" "set (ba_ids a ! i) = S" "set (ba_ids a ! j) = S"
  have ju: "j \<in> unused a" using pickedB(2) [OF p] ij unfolding eq_inv_def by blast
  have "j \<notin> set (concat xss)"
  proof
    assume "j \<in> set (concat xss)"
    then obtain s where s: "s < n" "set (ba_ids a ! j) = R ! s" "j \<in> set (take m (drop (c ! s) (map (ba_seq_set_map a) R ! s)))"
      by (rule kept_at [OF p k])
    let ?L = "map (ba_seq_set_map a) R ! s"
    have sR: "s < length R" using k s(1) by (auto simp: kept_ok_def)
    have "i \<in> set (drop (c ! s + m) ?L)" using kept_rest(2) [OF p k s(1)] ij s(2) by blast
    then obtain q where q: "c ! s + m \<le> q" "q < length ?L" "?L ! q = i"
      by (auto simp: in_set_conv_nth) (metis le_add1 add.commute less_diff_conv)
    obtain r where r: "r < c ! s + m" "r < length ?L" "?L ! r = j"
    proof -
      obtain v where "v < length (take m (drop (c ! s) ?L))" "take m (drop (c ! s) ?L) ! v = j" using s(3) unfolding in_set_conv_nth by blast
      moreover have "c ! s < length ?L" using lists_okD(2) [OF pickedB(6) [OF p], of s] sR by simp
      ultimately show thesis using sR by (intro that [of "c ! s + v"]) auto
    qed
    have "j \<le> i" using sorted_nth_mono [OF picked_facts(4) [OF p sR], of r q] q r by simp
    then show False using ij(2) by simp
  qed
  then show "j \<in> unused a - set (concat xss)" using ju by simp
qed

lemma pick_sets_some:
  assumes inv: "split_inv a"
  obtains R where "pick_sets nb sq a [0..<get_n_tokens a] [] (-1) = Some R" "disjoint_sets R" "length R \<le> nb + 1"
    "\<forall>S \<in> set R. \<exists>j \<in> unused a. S = set (ba_ids a ! j)" "R = [] \<longleftrightarrow> unused a = {}"
proof -
  have ok: "ba_ok a" and lu: "length (ba_used a) = ba_n a" using inv(1) by (auto simp: split_inv_def)
  have "wp (pick_sets nb sq a [0..<get_n_tokens a] [] (-1)) (\<lambda>R. disjoint_sets R \<and> length R \<le> nb + 1 \<and>
    (\<forall>S \<in> set R. \<exists>j \<in> unused a. S = set (ba_ids a ! j)) \<and> (R = [] \<longrightarrow> [] = ([] :: llama_seq_id set list) \<and> set [0..<get_n_tokens a] \<inter> unused a = {}) \<and>
    (([] :: llama_seq_id set list) \<noteq> [] \<longrightarrow> R \<noteq> []))"
    by (rule pick_sets_wp [OF ok lu]) (auto simp: get_n_tokens_def disjoint_sets_def)
  then obtain R where R: "pick_sets nb sq a [0..<get_n_tokens a] [] (-1) = Some R" "disjoint_sets R" "length R \<le> nb + 1"
    "\<forall>S \<in> set R. \<exists>j \<in> unused a. S = set (ba_ids a ! j)" "R = [] \<longrightarrow> set [0..<get_n_tokens a] \<inter> unused a = {}"
    by (rule wpE) blast
  moreover have "R = [] \<longleftrightarrow> unused a = {}"
    using R(4,5) by (cases R) (auto simp: get_n_tokens_def unused_def)
  ultimately show thesis using that by blast
qed

lemma split_equal_wp:
  assumes inv: "split_inv a" "eq_inv a" and pos: "\<forall>i < ba_n a. 0 \<le> ba_pos a ! i" and sq: "\<not> (sq \<and> ba_has_cpl a)" and tl: "tail = 0 \<or> tail < nb"
  shows "wp (split_equal nb sq tail a) (\<lambda>(ub, d). if unused a = {} then ub = ubatch_empty \<and> d = a
    else \<exists>xss. equal_piece nb a xss \<and> ubatch_of a (concat xss) (length xss) True ub \<and> ubatch_ok ub \<and>
      split_inv d \<and> eq_inv d \<and> unused d = unused a - set (concat xss) \<and> ba_batch d = ba_batch a \<and> ba_n_seq_max d = ba_n_seq_max a \<and>
      ba_has_cpl d = ba_has_cpl a \<and> tail_ok tail a xss)"
proof -
  have ok: "ba_ok a" and lu: "length (ba_used a) = ba_n a" using inv(1) by (auto simp: split_inv_def)
  note d = ba_okD [OF ok]
  obtain R where R: "pick_sets nb sq a [0..<get_n_tokens a] [] (-1) = Some R" "disjoint_sets R" "length R \<le> nb + 1"
    "\<forall>S \<in> set R. \<exists>j \<in> unused a. S = set (ba_ids a ! j)" and Re: "R = [] \<longleftrightarrow> unused a = {}"
    by (rule pick_sets_some [OF inv(1)])
  show ?thesis
  proof (cases "unused a = {}")
    case True
    then show ?thesis using Re R(1) d(17) sq by (auto simp: split_equal_def)
  next
    case False
    then have Rn: "R \<noteq> []" using Re by simp
    let ?Ls = "map (ba_seq_set_map a) R"
    obtain c where c: "mapM (skip_used (ba_used a)) ?Ls = Some c" "lists_ok a ?Ls c" using lists_ok_sets [OF inv R(2,4)] by blast
    have p: "picked a nb R c" using inv R(2-4) c(2) by (simp add: picked_def)
    let ?e0 = "\<lparr>es_a = a, es_cur = c, es_idxs = replicate (length ?Ls) []\<rparr>"
    have e0: "eq_at a ?Ls c (\<lambda>_. 0) ?e0"
      using c(2) marked_refl [OF inv(1)] by (auto simp: eq_at_def lists_ok_def taken_def taken_set_def less_imp_le)
    have "wp (expand nb ?Ls ?e0) (\<lambda>d. \<exists>u. 0 \<le> u \<and> (0 = (0::nat) \<longrightarrow> 0 < u) \<and> u * length ?Ls \<le> max nb (length ?Ls) \<and> eq_at a ?Ls c (\<lambda>_. u) d)"
      by (rule expand_wp [OF c(2) _ e0]) (use Rn in auto)
    then obtain e u where e: "expand nb ?Ls ?e0 = Some e" "0 < u" "u * length ?Ls \<le> max nb (length ?Ls)" "eq_at a ?Ls c (\<lambda>_. u) e"
      by (rule wpE) blast
    have Ln: "?Ls \<noteq> []" using Rn by simp
    obtain xss b n m where k: "(if tail > 0 then keep_tail nb tail ?Ls e else Some (es_idxs e, es_a e)) = Some (xss, b)"
      "kept_ok a nb tail ?Ls c n m xss b"
    proof (cases "tail > 0")
      case True
      have "wp (keep_tail nb tail ?Ls e) (\<lambda>(kept, d). \<exists>n m. kept_ok a nb tail ?Ls c n m kept d)"
        by (rule keep_tail_wp [OF c(2) Ln e(4,2,3) True]) (use tl True in simp)
      then show thesis using that True by (auto simp: wp_def)
    next
      case False
      have "kept_ok a nb tail ?Ls c (length ?Ls) u (take (length ?Ls) (es_idxs e)) (fold unmark (concat (drop (length ?Ls) (es_idxs e))) (es_a e))"
        by (rule keep_tail_some [OF c(2) e(4,2,3)]) (use Rn False e(4) in \<open>auto simp: eq_at_def\<close>)
      moreover have "length (es_idxs e) = length ?Ls" using e(4) by (simp add: eq_at_def)
      ultimately have "kept_ok a nb tail ?Ls c (length ?Ls) u (es_idxs e) (es_a e)" by simp
      then show thesis using that False by simp
    qed
    note pc = kept_piece [OF p k(2)]
    have mk: "marked a (set (concat xss)) b" and n: "0 < n" using k(2) unfolding kept_ok_def by blast+
    have sub: "\<And>i. i \<in> set (concat xss) \<Longrightarrow> i < ba_n a" using mk by (auto simp: marked_def unused_def)
    obtain ub ys where ub: "ubatch_add (concat xss) (length xss) True b = Some (ub, b\<lparr>ba_out_ids := ys\<rparr>)"
      "ubatch_of a (concat xss) (length xss) True ub" "ubatch_ok ub"
    proof (rule marked_add [OF mk ok, where idxs = "concat xss" and n_seqs = "length xss" and eq = True])
      show "i < ba_n a" if "i \<in> set (concat xss)" for i using sub that by blast
      show "0 < length xss" using n pc(3) by simp
      show "length (concat xss) mod length xss = 0" using length_concat_block [of xss m] pc(4) by simp
      show "\<forall>i \<in> set (concat xss). 0 \<le> ba_pos a ! i" using pos sub by blast
    qed blast
    note mo = marked_out_ids [OF mk inv(1), of ys]
    have ei: "eq_inv (b\<lparr>ba_out_ids := ys\<rparr>)" by (rule kept_eq_inv [OF p k(2) mo(2,4)])
    have "split_equal nb sq tail a = ubatch_add (concat xss) (length xss) True b"
      using R(1) Rn c(1) e(1) k(1) d(17) sq by (auto simp: split_equal_def Let_def)
    then show ?thesis
      unfolding ub(1) using False pc(1) ub(2,3) mo(1,2,4) ei markedD(4,9) [OF mk] kept_tail [OF p k(2)] by auto
  qed
qed

text \<open>A micro-batch that is too small for the tail fails the assertion, whatever the batch.\<close>

lemma split_equal_small:
  assumes inv: "split_inv a" "eq_inv a" and sq: "\<not> (sq \<and> ba_has_cpl a)" and tl: "0 < tail" "nb \<le> tail" and ne: "unused a \<noteq> {}"
  shows "split_equal nb sq tail a = None"
proof -
  have ok: "ba_ok a" using inv(1) by (simp add: split_inv_def)
  obtain R where R: "pick_sets nb sq a [0..<get_n_tokens a] [] (-1) = Some R" "R = [] \<longleftrightarrow> unused a = {}"
    by (rule pick_sets_some [OF inv(1)])
  have en: "ensure (nb > tail) = None" using tl(2) by simp
  have "keep_tail nb tail Ls e = None" for Ls e unfolding keep_tail_def Let_def en by simp
  then show ?thesis using tl(1) ba_okD(17) [OF ok] sq ne R
    by (auto simp: split_equal_def Let_def bind_eq_None_conv)
qed

section \<open>The last tokens of a sequence set\<close>

definition last_toks :: "nat \<Rightarrow> batch_allocr \<Rightarrow> nat \<Rightarrow> nat set" where
  "last_toks tail a i = (let L = ba_seq_set_map a (set (ba_ids a ! i)) in set (drop (length L - tail) L))"

text \<open>No sequence set has fewer than \<open>tail\<close> unused tokens, unless it is short or used up.\<close>

definition long_rest :: "nat \<Rightarrow> batch_allocr \<Rightarrow> bool" where
  "long_rest tail a = (\<forall>i \<in> unused a. mates a (unused a) i = mates a {..<ba_n a} i \<or> tail \<le> card (mates a (unused a) i))"

lemma last_toks_unused:
  assumes inv: "ba_ok a" "eq_inv a" and i: "i \<in> unused a" "mates a (unused a) i = mates a {..<ba_n a} i \<or> tail \<le> card (mates a (unused a) i)"
  shows "last_toks tail a i \<subseteq> mates a (unused a) i"
proof
  let ?S = "set (ba_ids a ! i)" let ?L = "ba_seq_set_map a (set (ba_ids a ! i))" let ?U = "mates a (unused a) i"
  have L: "?L = filter (\<lambda>j. set (ba_ids a ! j) = ?S) [0..<ba_n a]" using ba_okD(21) [OF inv(1)] by blast
  have srt: "sorted ?L" "distinct ?L" unfolding L by (simp_all add: sorted_wrt_filter)
  have all: "set ?L = mates a {..<ba_n a} i" unfolding L by (auto simp: mates_def)
  have sub: "?U \<subseteq> set ?L" unfolding L by (auto simp: mates_def unused_def)
  fix k assume k: "k \<in> last_toks tail a i"
  then obtain v where v: "v < length (drop (length ?L - tail) ?L)" "drop (length ?L - tail) ?L ! v = k"
    unfolding last_toks_def Let_def in_set_conv_nth by blast
  define q where "q = length ?L - tail + v"
  have q: "length ?L - tail \<le> q" "q < length ?L" "?L ! q = k" using v by (simp_all add: q_def)
  have kL: "k \<in> set ?L" using q by auto
  show "k \<in> ?U"
  proof (rule ccontr)
    assume nk: "k \<notin> ?U"
    have "u \<in> set (drop (Suc q) ?L)" if u: "u \<in> ?U" for u
    proof -
      have "u \<in> set ?L" using sub u by blast
      then obtain r where r: "r < length ?L" "?L ! r = u" unfolding in_set_conv_nth by blast
      have "q < r"
      proof (rule ccontr)
        assume "\<not> q < r"
        then have "u \<le> k" using sorted_nth_mono [OF srt(1), of r q] r q by simp
        moreover have "u \<noteq> k" using u nk by blast
        ultimately have "u < k" by simp
        moreover have "k < ba_n a" "set (ba_ids a ! k) = ?S" using kL unfolding L by auto
        ultimately have "k \<in> unused a" using inv(2) u unfolding eq_inv_def mates_def by blast
        then show False using nk \<open>set (ba_ids a ! k) = ?S\<close> by (simp add: mates_def)
      qed
      then show ?thesis unfolding in_set_conv_nth using r by (intro exI [of _ "r - Suc q"]) simp
    qed
    then have "card ?U \<le> card (set (drop (Suc q) ?L))" by (intro card_mono) auto
    also have "\<dots> \<le> length ?L - Suc q" using card_length [of "drop (Suc q) ?L"] by simp
    finally have "card ?U < tail" using q(1,2) by linarith
    then have "?U = mates a {..<ba_n a} i" using i(2) by simp
    then show False using nk kL all by blast
  qed
qed

text \<open>A piece keeps the rests long, and the last tokens of a set that it uses up are in it.\<close>

lemma long_rest_step:
  assumes L: "long_rest tail a" and p: "equal_piece nb a xss" "tail_ok tail a xss" and d: "unused d = unused a - set (concat xss)" "ba_batch d = ba_batch a"
  shows "long_rest tail d"
  unfolding long_rest_def
proof
  fix i assume i: "i \<in> unused d"
  have m: "mates d = mates a" by (simp add: mates_def d(2) fun_eq_iff)
  show "mates d (unused d) i = mates d {..<ba_n d} i \<or> tail \<le> card (mates d (unused d) i)"
  proof (cases "\<exists>x \<in> set (concat xss). set (ba_ids a ! x) = set (ba_ids a ! i)")
    case True
    then obtain x where x: "x \<in> set (concat xss)" "set (ba_ids a ! x) = set (ba_ids a ! i)" by blast
    have "mates a (unused d) x = mates a (unused d) i" by (simp add: mates_def x(2))
    moreover have "mates a (unused d) x = {} \<or> tail \<le> card (mates a (unused d) x)" using p(2) x(1) unfolding tail_ok_def d(1) by blast
    moreover have "i \<in> mates a (unused d) i" using i by (simp add: mates_def)
    ultimately show ?thesis unfolding m by auto
  next
    case False
    then have "mates a (unused d) i = mates a (unused a) i" unfolding d(1) by (auto simp: mates_def simp del: set_concat)
    then show ?thesis using L i unfolding long_rest_def m d by auto
  qed
qed

lemma last_toks_step:
  assumes inv: "ba_ok a" "eq_inv a" "long_rest tail a" and d: "unused d = unused a - set (concat xss)" and i: "i \<in> unused a"
    and gone: "mates a (unused d) i = {}"
  shows "last_toks tail a i \<subseteq> set (concat xss)"
proof -
  have "last_toks tail a i \<subseteq> mates a (unused a) i" by (rule last_toks_unused [OF inv(1,2) i]) (use inv(3) i in \<open>simp add: long_rest_def\<close>)
  moreover have "mates a (unused a) i \<subseteq> mates a (unused d) i \<union> set (concat xss)" unfolding d by (auto simp: mates_def simp del: set_concat)
  ultimately show ?thesis using gone by blast
qed

section \<open>More sequences than \<open>n_ubatch\<close>\<close>

text \<open>Unless it stops because there are more than \<open>nb\<close> sets, every unused token meets one of the sets picked.\<close>

lemma pick_sets_full:
  assumes ok: "ba_ok a" "length (ba_used a) = ba_n a" and js: "\<forall>j \<in> set js. j < ba_n a" and le: "length sets \<le> nb"
  shows "wp (pick_sets nb False a js sets prev) (\<lambda>R. set sets \<subseteq> set R \<and>
    (length R = nb + 1 \<or> length R \<le> nb \<and> (\<forall>j \<in> set js \<inter> unused a. \<exists>T \<in> set R. T \<inter> set (ba_ids a ! j) \<noteq> {})))"
  using js le
proof (induction js arbitrary: sets prev)
  case (Cons j js)
  note d = ba_okD [OF ok(1)]
  have j: "j < ba_n a" using Cons.prems(1) by simp
  then have jj: "vget (ba_used a) j = Some (ba_used a ! j)" "vget (ba_seq_set a) j = Some (set (ba_ids a ! j))"
    "vget (ba_ids a) j = Some (ba_ids a ! j)" "vget (ba_ids a ! j) 0 = Some (hd (ba_ids a ! j))"
    using ok(2) d(5,8,20) by (auto simp: vget_def hd_conv_nth)
  let ?S = "set (ba_ids a ! j)"
  have ne: "?S \<noteq> {}" using d(8) [OF j] by simp
  show ?case
  proof (cases "ba_used a ! j \<or> list_ex (\<lambda>T. T \<inter> ?S \<noteq> {}) sets")
    case True
    then have "j \<notin> unused a \<or> (\<exists>T \<in> set sets. T \<inter> ?S \<noteq> {})" by (auto simp: unused_def list_ex_iff)
    moreover have "wp (pick_sets nb False a js sets prev) (\<lambda>R. set sets \<subseteq> set R \<and>
      (length R = nb + 1 \<or> length R \<le> nb \<and> (\<forall>j \<in> set js \<inter> unused a. \<exists>T \<in> set R. T \<inter> set (ba_ids a ! j) \<noteq> {})))"
      by (rule Cons.IH) (use Cons.prems in auto)
    ultimately show ?thesis using True by (auto simp: jj elim!: wp_mono)
  next
    case False
    show ?thesis
    proof (cases "length (sets @ [?S]) > nb")
      case True
      then show ?thesis using False Cons.prems(2) by (auto simp: jj)
    next
      case le: False
      have "wp (pick_sets nb False a js (sets @ [?S]) (hd (ba_ids a ! j))) (\<lambda>R. set (sets @ [?S]) \<subseteq> set R \<and>
        (length R = nb + 1 \<or> length R \<le> nb \<and> (\<forall>j \<in> set js \<inter> unused a. \<exists>T \<in> set R. T \<inter> set (ba_ids a ! j) \<noteq> {})))"
        by (rule Cons.IH) (use Cons.prems le in auto)
      moreover have e: "pick_sets nb False a (j # js) sets prev = pick_sets nb False a js (sets @ [?S]) (hd (ba_ids a ! j))"
        by (subst pick_sets.simps) (use False le in \<open>auto simp: jj\<close>)
      ultimately show ?thesis unfolding e
      proof (elim wp_mono, intro conjI)
        fix R assume R: "set (sets @ [?S]) \<subseteq> set R \<and> (length R = nb + 1 \<or>
          length R \<le> nb \<and> (\<forall>j \<in> set js \<inter> unused a. \<exists>T \<in> set R. T \<inter> set (ba_ids a ! j) \<noteq> {}))"
        then have "\<exists>T \<in> set R. T \<inter> ?S \<noteq> {}" using ne by (intro bexI [of _ ?S]) auto
        then show "set sets \<subseteq> set R" "length R = nb + 1 \<or>
          length R \<le> nb \<and> (\<forall>j \<in> set (j # js) \<inter> unused a. \<exists>T \<in> set R. T \<inter> set (ba_ids a ! j) \<noteq> {})" using R by auto
      qed
    qed
  qed
qed simp

text \<open>With single sequences per entry, the picked sets are full as soon as more than \<open>nb\<close> sequences wait.\<close>

lemma pick_sets_single:
  assumes inv: "split_inv a" and one: "\<forall>i < ba_n a. length (ba_ids a ! i) = 1"
    and many: "nb < card (\<Union>i \<in> unused a. set (ba_ids a ! i))"
  shows "wp (pick_sets nb False a [0..<get_n_tokens a] [] (-1)) (\<lambda>R. length R = nb + 1)"
proof -
  have ok: "ba_ok a" "length (ba_used a) = ba_n a" using inv by (auto simp: split_inv_def)
  obtain R where R: "pick_sets nb False a [0..<get_n_tokens a] [] (-1) = Some R" "\<forall>S \<in> set R. \<exists>j \<in> unused a. S = set (ba_ids a ! j)"
    by (rule pick_sets_some [OF inv, of nb False])
  have "length R = nb + 1 \<or> length R \<le> nb \<and> (\<forall>j \<in> set [0..<get_n_tokens a] \<inter> unused a. \<exists>T \<in> set R. T \<inter> set (ba_ids a ! j) \<noteq> {})"
    using wpD [OF pick_sets_full [OF ok, of "[0..<get_n_tokens a]" "[]" nb "-1"] R(1)] by (simp add: get_n_tokens_def)
  moreover have False if le: "length R \<le> nb" and cov: "\<forall>j \<in> set [0..<get_n_tokens a] \<inter> unused a. \<exists>T \<in> set R. T \<inter> set (ba_ids a ! j) \<noteq> {}"
  proof -
    have un: "j \<in> unused a \<Longrightarrow> j < ba_n a" for j by (auto simp: unused_def)
    have sing: "\<exists>x. set (ba_ids a ! j) = {x}" if "j \<in> unused a" for j
    proof -
      have "length (ba_ids a ! j) = Suc 0" using one un [OF that] by simp
      then show ?thesis by (auto simp: length_Suc_conv)
    qed
    have "(\<Union>i \<in> unused a. set (ba_ids a ! i)) \<subseteq> \<Union>(set R)"
    proof
      fix x assume "x \<in> (\<Union>i \<in> unused a. set (ba_ids a ! i))"
      then obtain j where j: "j \<in> unused a" "set (ba_ids a ! j) = {x}" using sing by fastforce
      then obtain T where T: "T \<in> set R" "T \<inter> {x} \<noteq> {}" using cov un by (fastforce simp: get_n_tokens_def)
      then show "x \<in> \<Union>(set R)" by auto
    qed
    moreover have fin: "finite (\<Union>(set R))" using R(2) by fastforce
    moreover have "card (\<Union>(set R)) \<le> length R"
    proof -
      have "card (\<Union>(set R)) \<le> (\<Sum>S \<in> set R. card S)" by (rule card_Union_le_sum_card)
      also have "\<dots> \<le> (\<Sum>S \<in> set R. 1)" by (rule sum_mono) (use R(2) sing in fastforce)
      also have "\<dots> \<le> length R" by (simp add: card_length)
      finally show ?thesis .
    qed
    ultimately show False using le many card_mono [of "\<Union>(set R)" "\<Union>i \<in> unused a. set (ba_ids a ! i)"] by linarith
  qed
  ultimately show ?thesis using R(1) by auto
qed

text \<open>Without a tail to keep, the micro-batch has one part per picked set.\<close>

lemma split_equal_n_seqs:
  assumes "split_inv a" "eq_inv a" "pick_sets nb sq a [0..<get_n_tokens a] [] (-1) = Some R" "R \<noteq> []"
    and "split_equal nb sq 0 a = Some (ub, d)" "\<not> (sq \<and> ba_has_cpl a)"
  shows "ub_n_seqs ub = length R"
proof -
  let ?Ls = "map (ba_seq_set_map a) R"
  have ok: "ba_ok a" using assms(1) by (simp add: split_inv_def)
  have R: "disjoint_sets R" "\<forall>S \<in> set R. \<exists>j \<in> unused a. S = set (ba_ids a ! j)"
    by (rule pick_sets_some [OF assms(1), of nb sq], simp add: assms(3))+
  obtain c where c: "mapM (skip_used (ba_used a)) ?Ls = Some c" "lists_ok a ?Ls c" using lists_ok_sets [OF assms(1,2) R] by blast
  let ?e0 = "\<lparr>es_a = a, es_cur = c, es_idxs = replicate (length ?Ls) []\<rparr>"
  have e0: "eq_at a ?Ls c (\<lambda>_. 0) ?e0"
    using c(2) marked_refl [OF assms(1)] by (auto simp: eq_at_def lists_ok_def taken_def taken_set_def less_imp_le)
  have "wp (expand nb ?Ls ?e0) (\<lambda>d. \<exists>u. 0 \<le> u \<and> (0 = (0::nat) \<longrightarrow> 0 < u) \<and> u * length ?Ls \<le> max nb (length ?Ls) \<and> eq_at a ?Ls c (\<lambda>_. u) d)"
    by (rule expand_wp [OF c(2) _ e0]) (use assms(4) in auto)
  then obtain e where e: "expand nb ?Ls ?e0 = Some e" "length (es_idxs e) = length R"
    by (rule wpE) (auto simp: eq_at_def)
  have "ubatch_add (concat (es_idxs e)) (length (es_idxs e)) True (es_a e) = Some (ub, d)"
    using assms(3-6) c(1) e(1) ba_okD(17) [OF ok] by (auto simp: split_equal_def Let_def)
  then show ?thesis using e(2) by (auto simp: ubatch_add_def Let_def bind_eq_Some_conv case_prod_unfold)
qed

text \<open>One token of each of \<open>nb + 1\<close> sequences.\<close>

lemma split_equal_over:
  assumes inv: "split_inv a" "eq_inv a" and pos: "\<forall>i < ba_n a. 0 \<le> ba_pos a ! i" and one: "\<forall>i < ba_n a. length (ba_ids a ! i) = 1"
    and many: "nb < card (\<Union>i \<in> unused a. set (ba_ids a ! i))"
  shows "wp (split_equal nb False 0 a) (\<lambda>(ub, d). ub_n_tokens ub = nb + 1 \<and> ub_n_seqs ub = nb + 1)"
proof -
  obtain R where R: "pick_sets nb False a [0..<get_n_tokens a] [] (-1) = Some R" "length R = nb + 1"
    by (rule wpE [OF pick_sets_single [OF inv(1) one many]])
  have ne: "unused a \<noteq> {}" using many by auto
  obtain ub d xss where u: "split_equal nb False 0 a = Some (ub, d)" "equal_piece nb a xss" "ubatch_of a (concat xss) (length xss) True ub"
    using split_equal_wp [OF inv pos, of False 0 nb] ne by (auto simp: wp_def)
  have "R \<noteq> []" using R(2) by auto
  then have n: "ub_n_seqs ub = nb + 1" using split_equal_n_seqs [OF inv R(1) _ u(1)] R(2) by simp
  then have l: "length xss = nb + 1" "ub_n_tokens ub = length (concat xss)" using u(3) by (auto simp: ubatch_of_def Let_def)
  obtain m where m: "0 < m" "\<forall>xs \<in> set xss. length xs = m" "m * length xss \<le> max nb (length xss)" using u(2) unfolding equal_piece_def by blast
  have "m * (nb + 1) \<le> 1 * (nb + 1)" using m(3) l(1) by simp
  then have "m = 1" using m(1) by (metis One_nat_def Suc_leI add_gr_0 le_antisym mult_le_cancel2 zero_less_one)
  then show ?thesis using l length_concat_block [of xss m] m(2) n u(1) by simp
qed

end
