(* ===== verification/KvInitBatch.thy ===== *)
theory KvInitBatch
  imports KvPrepare BatchReach BatchEqual
begin

text \<open>
  \<open>llama_kv_cache::init_batch\<close>: the batch is cut into micro-batches, and \<open>prepare\<close> tries to place
  them.  This is where the batch side and the cache side meet.
\<close>

section \<open>The loop over the micro-batches\<close>

partial_function (option) split_run :: "(batch_allocr \<Rightarrow> (llama_ubatch \<times> batch_allocr) option) \<Rightarrow> batch_allocr \<Rightarrow>
    (llama_ubatch list \<times> batch_allocr) option" where
  "split_run f a = Option.bind (f a) (\<lambda>x. case x of (ub, a) \<Rightarrow>
     if ub_n_tokens ub = 0 then Some ([], a)
     else Option.bind (split_run f a) (\<lambda>y. case y of (ubs, a) \<Rightarrow> Some (ub # ubs, a)))"

text \<open>The first component is \<open>None\<close> for \<open>LLAMA_MEMORY_STATUS_FAILED_PREPARE\<close>.\<close>

definition kv_init_batch :: "nat \<Rightarrow> bool \<Rightarrow> batch_allocr \<Rightarrow> kv_cache \<Rightarrow>
    ((slot_info list \<times> llama_ubatch list) option \<times> batch_allocr \<times> kv_cache) option" where
  "kv_init_batch n_ubatch embd_all a c = do {
     (ubs, a) \<leftarrow> split_run (\<lambda>a. if kv_n_stream c = 1 then split_simple n_ubatch a
         else if embd_all then split_seq n_ubatch a else split_equal n_ubatch True 0 a) (split_reset a);
     if ba_n_used a < get_n_tokens a then Some (None, a, c)
     else do {
       (sis, c) \<leftarrow> prepare ubs c;
       Some (if sis = [] then None else Some (sis, ubs), a, c) } }"

section \<open>Repeated splitting\<close>

lemma ubatch_empty_tokens [simp]: "ub_n_tokens ubatch_empty = 0"
  by (simp add: ubatch_empty_def)

text \<open>What is left of the batch in state \<open>d\<close> of a run that started in \<open>a\<close>.\<close>

definition same_batch :: "batch_allocr \<Rightarrow> batch_allocr \<Rightarrow> bool" where
  "same_batch a d = (ba_batch d = ba_batch a \<and> ba_n_seq_max d = ba_n_seq_max a)"

text \<open>A piece of \<open>split_equal\<close>: per sequence set the same number of consecutive tokens, the sets disjoint.\<close>

definition equal_ub :: "nat \<Rightarrow> llama_batch \<Rightarrow> llama_ubatch \<Rightarrow> bool" where
  "equal_ub nb b ub = (\<exists>xss. equal_seqs ub \<and> ub_batch_idxs ub = concat xss \<and> ub_n_seqs ub = length xss \<and> ub_n_tokens ub = length (concat xss) \<and>
     0 < ub_n_tokens ub \<and> ub_n_tokens ub \<le> nb + 1 \<and> ubatch_ok ub \<and>
     (\<forall>xs \<in> set xss. length xs = ub_n_seq_tokens ub \<and> sorted xs \<and>
        (\<forall>i \<in> set xs. \<forall>j \<in> set xs. set (the (lb_seq_id b) ! i) = set (the (lb_seq_id b) ! j))) \<and>
     (\<forall>s < length xss. \<forall>t < length xss. s \<noteq> t \<longrightarrow>
        (\<forall>i \<in> set (xss ! s). \<forall>j \<in> set (xss ! t). set (the (lb_seq_id b) ! i) \<inter> set (the (lb_seq_id b) ! j) = {})) \<and>
     (\<forall>i < ub_n_tokens ub. ub_pos ub ! i = the (lb_pos b) ! (ub_batch_idxs ub ! i) \<and>
        ub_seq_id ub ! i = the (lb_seq_id b) ! (ub_batch_idxs ub ! i)))"

lemma ubatch_of_at:
  assumes "ubatch_of a idxs ns eq ub" "0 < ba_n_pos_per_embd a" "i < length idxs"
  shows "ub_pos ub ! i = ba_pos a ! (idxs ! i) \<and> ub_seq_id ub ! i = ba_ids a ! (idxs ! i)"
proof -
  have "\<forall>j < ba_n_pos_per_embd a. ub_pos ub ! (j * length idxs + i) = ba_pos a ! (j * ba_n a + idxs ! i)"
    "ub_seq_id ub ! i = ba_ids a ! (idxs ! i)"
    using assms(1,3) unfolding ubatch_of_def Let_def by blast+
  then show ?thesis using assms(2) by (metis add_0 mult_0)
qed

lemma simple_run:
  assumes "split_inv a" "unused a = {k..<ba_n a}" "k \<le> ba_n a" "0 < nb" "\<forall>i < ba_n a. 0 \<le> ba_pos a ! i"
  shows "wp (split_run (split_simple nb) a) (\<lambda>(ubs, d). split_inv d \<and> unused d = {} \<and> same_batch a d \<and>
    concat (map ub_batch_idxs ubs) = [k..<ba_n a] \<and>
    (\<forall>ub \<in> set ubs. ubatch_ok ub \<and> 0 < ub_n_tokens ub \<and> ub_n_tokens ub \<le> nb \<and> length (ub_batch_idxs ub) = ub_n_tokens ub \<and>
       (\<forall>i < ub_n_tokens ub. ub_pos ub ! i = ba_pos a ! (ub_batch_idxs ub ! i) \<and> ub_seq_id ub ! i = ba_ids a ! (ub_batch_idxs ub ! i))))"
  using assms
proof (induction "ba_n a - k" arbitrary: a k rule: less_induct)
  case less
  have ok: "ba_ok a" using less.prems(1) by (simp add: split_inv_def)
  obtain x where x: "split_simple nb a = Some x" "case x of (ub, d) \<Rightarrow> if k = ba_n a then ub = ubatch_empty \<and> d = a
    else \<exists>k'. k < k' \<and> k' = min (ba_n a) (k + nb) \<and> ubatch_of a [k..<k'] (k' - k) False ub \<and> ubatch_ok ub \<and>
      split_inv d \<and> unused d = {k'..<ba_n a} \<and> ba_batch d = ba_batch a \<and> ba_n_seq_max d = ba_n_seq_max a"
    using split_simple_wp [OF less.prems(1-5)] by (rule wpE) blast
  obtain ub d where ud: "x = (ub, d)" by (cases x)
  show ?case
  proof (cases "k = ba_n a")
    case True
    then have e: "ub = ubatch_empty" "d = a" using x(2) by (auto simp: ud)
    have "split_run (split_simple nb) a = Some ([], a)" by (subst split_run.simps) (simp add: x(1) ud e)
    then show ?thesis using less.prems True by (simp add: same_batch_def)
  next
    case False
    then obtain k' where k': "k < k'" "k' = min (ba_n a) (k + nb)" "ubatch_of a [k..<k'] (k' - k) False ub" "ubatch_ok ub"
      "split_inv d" "unused d = {k'..<ba_n a}" "ba_batch d = ba_batch a" "ba_n_seq_max d = ba_n_seq_max a"
      using x(2) by (auto simp: ud)
    have nt: "ub_n_tokens ub = k' - k" "ub_batch_idxs ub = [k..<k']" using k'(3) by (simp_all add: ubatch_of_def Let_def)
    have npe: "0 < ba_n_pos_per_embd a" using ba_okD(10) [OF ok] by simp
    have at: "ub_pos ub ! i = ba_pos a ! (ub_batch_idxs ub ! i) \<and> ub_seq_id ub ! i = ba_ids a ! (ub_batch_idxs ub ! i)" if "i < ub_n_tokens ub" for i
      using ubatch_of_at [OF k'(3) npe, of i] that nt by simp
    have step: "split_run (split_simple nb) a = Option.bind (split_run (split_simple nb) d) (\<lambda>(ubs, a). Some (ub # ubs, a))"
      using k'(1) nt(1) by (subst split_run.simps) (simp add: x(1) ud)
    have le: "k' \<le> ba_n a" "k' - k \<le> nb" using k'(2) by auto
    have IH: "wp (split_run (split_simple nb) d) (\<lambda>(ubs, e). split_inv e \<and> unused e = {} \<and> same_batch d e \<and>
      concat (map ub_batch_idxs ubs) = [k'..<ba_n d] \<and>
      (\<forall>ub \<in> set ubs. ubatch_ok ub \<and> 0 < ub_n_tokens ub \<and> ub_n_tokens ub \<le> nb \<and> length (ub_batch_idxs ub) = ub_n_tokens ub \<and>
         (\<forall>i < ub_n_tokens ub. ub_pos ub ! i = ba_pos d ! (ub_batch_idxs ub ! i) \<and> ub_seq_id ub ! i = ba_ids d ! (ub_batch_idxs ub ! i))))"
      by (rule less.hyps) (use k' le less.prems in auto)
    have cat: "[k..<k'] @ [k'..<ba_n a] = [k..<ba_n a]" using k'(1) le(1) by (metis less_imp_le upt_add_eq_append le_add_diff_inverse)
    show ?thesis unfolding step wp_bind
      by (rule wp_mono [OF IH]) (use k' nt at le cat in \<open>auto simp: same_batch_def\<close>)
  qed
qed

text \<open>The last \<open>tail\<close> tokens of every sequence set are in one micro-batch.\<close>

definition tails_kept :: "nat \<Rightarrow> batch_allocr \<Rightarrow> nat set \<Rightarrow> llama_ubatch list \<Rightarrow> bool" where
  "tails_kept tail a A ubs = (\<forall>i \<in> A. \<exists>ub \<in> set ubs. last_toks tail a i \<subseteq> set (ub_batch_idxs ub))"

lemma ba_ok_same:
  assumes "split_inv d" "ba_ok a" "ba_batch d = ba_batch a"
  shows "last_toks tail d = last_toks tail a" "mates d = mates a"
proof -
  have "ba_ok d" using assms(1) by (simp add: split_inv_def)
  then have "ba_seq_set_map d = ba_seq_set_map a" using ba_okD(21) [of d] ba_okD(21) [OF assms(2)] assms(3) by (simp add: fun_eq_iff)
  then show "last_toks tail d = last_toks tail a" "mates d = mates a" using assms(3) by (simp_all add: last_toks_def mates_def fun_eq_iff)
qed

lemma tails_kept_step:
  assumes inv: "ba_ok a" "eq_inv a" "long_rest tail a" and d: "unused d = unused a - set (concat xss)" "ub_batch_idxs ub = concat xss"
    and same: "last_toks tail d = last_toks tail a" "mates d = mates a" and rest: "tails_kept tail d (unused d) ubs"
  shows "tails_kept tail a (unused a) (ub # ubs)"
  unfolding tails_kept_def
proof
  fix i assume i: "i \<in> unused a"
  show "\<exists>v \<in> set (ub # ubs). last_toks tail a i \<subseteq> set (ub_batch_idxs v)"
  proof (cases "mates a (unused d) i = {}")
    case True
    have "last_toks tail a i \<subseteq> set (ub_batch_idxs ub)" unfolding d(2) by (rule last_toks_step [OF inv d(1) i True])
    then show ?thesis by simp
  next
    case False
    then obtain j where j: "j \<in> unused d" "set (ba_ids a ! j) = set (ba_ids a ! i)" by (auto simp: mates_def)
    have "last_toks tail a j = last_toks tail a i" using j(2) by (simp add: last_toks_def)
    then show ?thesis using rest j(1) unfolding tails_kept_def same(1) by fastforce
  qed
qed

lemma equal_run:
  assumes "split_inv a" "eq_inv a" "\<forall>i < ba_n a. 0 \<le> ba_pos a ! i" "\<not> (sq \<and> ba_has_cpl a)"
    "tail = 0 \<or> tail < nb" "long_rest tail a"
  shows "wp (split_run (split_equal nb sq tail) a) (\<lambda>(ubs, d). split_inv d \<and> unused d = {} \<and> same_batch a d \<and>
    distinct (concat (map ub_batch_idxs ubs)) \<and> set (concat (map ub_batch_idxs ubs)) = unused a \<and>
    (\<forall>ub \<in> set ubs. equal_ub nb (ba_batch a) ub) \<and> tails_kept tail a (unused a) ubs)"
  using assms
proof (induction "card (unused a)" arbitrary: a rule: less_induct)
  case less
  have ok: "ba_ok a" using less.prems(1) by (simp add: split_inv_def)
  obtain x where x: "split_equal nb sq tail a = Some x" "case x of (ub, d) \<Rightarrow> if unused a = {} then ub = ubatch_empty \<and> d = a
    else \<exists>xss. equal_piece nb a xss \<and> ubatch_of a (concat xss) (length xss) True ub \<and> ubatch_ok ub \<and>
      split_inv d \<and> eq_inv d \<and> unused d = unused a - set (concat xss) \<and> ba_batch d = ba_batch a \<and> ba_n_seq_max d = ba_n_seq_max a \<and>
      ba_has_cpl d = ba_has_cpl a \<and> tail_ok tail a xss"
    using split_equal_wp [OF less.prems(1-5)] by (rule wpE) blast
  obtain ub d where ud: "x = (ub, d)" by (cases x)
  show ?case
  proof (cases "unused a = {}")
    case True
    then have e: "ub = ubatch_empty" "d = a" using x(2) by (auto simp: ud)
    have "split_run (split_equal nb sq tail) a = Some ([], a)" by (subst split_run.simps) (simp add: x(1) ud e)
    then show ?thesis using less.prems True by (simp add: same_batch_def tails_kept_def)
  next
    case False
    then obtain xss where p: "equal_piece nb a xss" "ubatch_of a (concat xss) (length xss) True ub" "ubatch_ok ub"
      "split_inv d" "eq_inv d" "unused d = unused a - set (concat xss)" "ba_batch d = ba_batch a" "ba_n_seq_max d = ba_n_seq_max a"
      "ba_has_cpl d = ba_has_cpl a" "tail_ok tail a xss"
      using x(2) by (auto simp: ud)
    obtain m where m: "0 < m" "\<forall>xs \<in> set xss. length xs = m" "m * length xss \<le> max nb (length xss)" "xss \<noteq> []" "length xss \<le> nb + 1"
      "distinct (concat xss)" "set (concat xss) \<subseteq> unused a"
      using p(1) by (auto simp: equal_piece_def)
    have len: "length (concat xss) = length xss * m" by (rule length_concat_block) (use m(2) in auto)
    have nt: "ub_n_tokens ub = length (concat xss)" "ub_batch_idxs ub = concat xss" "ub_n_seqs ub = length xss"
      "ub_n_seq_tokens ub = length (concat xss) div length xss"
      using p(2) by (simp_all add: ubatch_of_def Let_def)
    have lx: "0 < length xss" using m(4) by simp
    have pos: "0 < ub_n_tokens ub" using nt(1) len lx m(1) by simp
    have "m * length xss \<le> nb + 1" using m(3,5) by linarith
    then have le: "ub_n_tokens ub \<le> nb + 1" using nt(1) len by (simp add: mult.commute)
    have npe: "0 < ba_n_pos_per_embd a" using ba_okD(10) [OF ok] by simp
    have st: "ub_n_seq_tokens ub = m" unfolding nt len using lx by simp
    have blk: "equal_ub nb (ba_batch a) ub"
      unfolding equal_ub_def
    proof (intro exI [of _ xss] conjI)
      show "\<forall>i < ub_n_tokens ub. ub_pos ub ! i = ba_pos a ! (ub_batch_idxs ub ! i) \<and> ub_seq_id ub ! i = ba_ids a ! (ub_batch_idxs ub ! i)"
        using ubatch_of_at [OF p(2) npe] nt by simp
      show "\<forall>xs \<in> set xss. length xs = ub_n_seq_tokens ub \<and> sorted xs \<and>
        (\<forall>i \<in> set xs. \<forall>j \<in> set xs. set (ba_ids a ! i) = set (ba_ids a ! j))"
        unfolding st using m(2) p(1) unfolding equal_piece_def by blast
      show "\<forall>s < length xss. \<forall>t < length xss. s \<noteq> t \<longrightarrow> (\<forall>i \<in> set (xss ! s). \<forall>j \<in> set (xss ! t). set (ba_ids a ! i) \<inter> set (ba_ids a ! j) = {})"
        using p(1) unfolding equal_piece_def by blast
      show "equal_seqs ub" using p(2) by (simp add: ubatch_of_def Let_def equal_seqs_def)
    qed (rule nt(2) nt(3) nt(1) pos le p(3))+
    have ne: "concat xss \<noteq> []" using pos nt(1) by (metis list.size(3) less_irrefl)
    have step: "split_run (split_equal nb sq tail) a = Option.bind (split_run (split_equal nb sq tail) d) (\<lambda>(ubs, a). Some (ub # ubs, a))"
      using pos by (subst split_run.simps) (simp add: x(1) ud)
    obtain i where "i \<in> set (concat xss)" using hd_in_set [OF ne] by blast
    then have "unused d \<subset> unused a" using m(7) unfolding p(6) by blast
    then have dec: "card (unused d) < card (unused a)" by (intro psubset_card_mono) simp
    have IH: "wp (split_run (split_equal nb sq tail) d) (\<lambda>(ubs, e). split_inv e \<and> unused e = {} \<and> same_batch d e \<and>
      distinct (concat (map ub_batch_idxs ubs)) \<and> set (concat (map ub_batch_idxs ubs)) = unused d \<and>
      (\<forall>ub \<in> set ubs. equal_ub nb (ba_batch d) ub) \<and> tails_kept tail d (unused d) ubs)"
      by (rule less.hyps [OF dec p(4,5)]) (use p(7,9) less.prems(3,4,5) long_rest_step [OF less.prems(6) p(1,10,6,7)] in simp_all)
    show ?thesis unfolding step wp_bind
    proof (rule wp_mono [OF IH])
      fix y assume y: "case y of (ubs, e) \<Rightarrow> split_inv e \<and> unused e = {} \<and> same_batch d e \<and>
        distinct (concat (map ub_batch_idxs ubs)) \<and> set (concat (map ub_batch_idxs ubs)) = unused d \<and>
        (\<forall>ub \<in> set ubs. equal_ub nb (ba_batch d) ub) \<and> tails_kept tail d (unused d) ubs"
      obtain ubs e where ye: "y = (ubs, e)" by (cases y)
      have tk: "tails_kept tail a (unused a) (ub # ubs)"
        by (rule tails_kept_step [OF ok less.prems(2,6) p(6) nt(2) ba_ok_same [OF p(4) ok p(7)]]) (use y ye in simp)
      have "set (concat xss) \<inter> set (concat (map ub_batch_idxs ubs)) = {}" "set (concat xss) \<union> set (concat (map ub_batch_idxs ubs)) = unused a"
        using y p(6) m(7) by (auto simp: ye)
      then show "wp (case y of (ubs, a) \<Rightarrow> Some (ub # ubs, a)) (\<lambda>(ubs, d). split_inv d \<and> unused d = {} \<and> same_batch a d \<and>
        distinct (concat (map ub_batch_idxs ubs)) \<and> set (concat (map ub_batch_idxs ubs)) = unused a \<and>
        (\<forall>ub \<in> set ubs. equal_ub nb (ba_batch a) ub) \<and> tails_kept tail a (unused a) ubs)"
        using y tk m(6) nt(2) blk p(7,8) by (simp add: ye same_batch_def del: set_concat)
    qed
  qed
qed

section \<open>Together\<close>

lemma split_inv_reset:
  assumes "ba_ok a"
  shows "split_inv (split_reset a)" "unused (split_reset a) = {0..<ba_n a}" "eq_inv (split_reset a)" "ba_batch (split_reset a) = ba_batch a"
    "ba_n_seq_max (split_reset a) = ba_n_seq_max a" "ba_has_cpl (split_reset a) = ba_has_cpl a"
proof -
  have f: "ba_batch (split_reset a) = ba_batch a" "ba_used (split_reset a) = replicate (ba_n a) False" "ba_n_used (split_reset a) = 0"
    by (simp_all add: split_reset_def get_n_tokens_def)
  show u: "unused (split_reset a) = {0..<ba_n a}" by (auto simp: unused_def f)
  show "split_inv (split_reset a)" using assms by (simp add: split_inv_def u ba_ok_reset) (simp add: f)
  show "eq_inv (split_reset a)" by (simp add: eq_inv_def u f)
  show "ba_batch (split_reset a) = ba_batch a" by (rule f)
  show "ba_n_seq_max (split_reset a) = ba_n_seq_max a" "ba_has_cpl (split_reset a) = ba_has_cpl a" by (simp_all add: split_reset_def)
qed

lemma long_rest_reset:
  assumes "ba_ok a"
  shows "long_rest tail (split_reset a)" "last_toks tail (split_reset a) = last_toks tail a"
proof -
  note r = split_inv_reset [OF assms]
  show "long_rest tail (split_reset a)" unfolding long_rest_def r(2,4) by (simp add: lessThan_atLeast0)
  show "last_toks tail (split_reset a) = last_toks tail a" by (rule ba_ok_same(1) [OF r(1) assms r(4)])
qed

text \<open>The micro-batches of \<open>split_simple\<close> can be placed by a cache with one stream that knows their sequences.\<close>

lemma piece_ready:
  assumes ub: "ubatch_ok ub" "0 < ub_n_tokens ub" and c: "kv_n_stream c = 1"
    and at: "\<forall>i < ub_n_tokens ub. ub_pos ub ! i < INT32_MAX \<and> (\<forall>s \<in> set (ub_seq_id ub ! i). kv_has_seq c s)"
  shows "ub_ready c ub"
proof -
  have "set (ub_seq_id ub ! 0) \<noteq> {}" using ub by (simp add: ubatch_ok_def)
  moreover have "set (ub_seq_id ub ! 0) \<subseteq> set (ub_seq_id_unq ub)" using ub by (auto simp: ubatch_ok_def)
  ultimately have "ub_seq_id_unq ub \<noteq> []" by auto
  then have "0 < ub_n_seqs_unq ub" using ub(1) unfolding ubatch_ok_def by (metis length_greater_0_conv)
  then show ?thesis using ub c at by (auto simp: ub_ready_def ub_fits_def ubatch_ok_def)
qed

lemma kv_init_simple:
  assumes a: "ba_ok a" "0 < ba_n a" "0 < nb" "\<forall>i < ba_n a. 0 \<le> ba_pos a ! i \<and> ba_pos a ! i < INT32_MAX \<and> (\<forall>s \<in> set (ba_ids a ! i). kv_has_seq c s)"
    and c: "kv_ready c" "kv_other c = None" "kv_swa_type c = SWA_NONE" "unshifted c" "kv_n_stream c = 1"
  shows "wp (kv_init_batch nb emb a c) (\<lambda>(r, d, c'). same_cells c c' \<and> kv_heads c' = kv_heads c \<and>
    (\<forall>sis ubs. r = Some (sis, ubs) \<longrightarrow> length sis = length ubs \<and> concat (map ub_batch_idxs ubs) = [0..<ba_n a] \<and>
       (\<forall>ub \<in> set ubs. 0 < ub_n_tokens ub \<and> ub_n_tokens ub \<le> nb)))"
proof -
  note r = split_inv_reset [OF a(1)]
  have run: "wp (split_run (split_simple nb) (split_reset a)) (\<lambda>(ubs, d). split_inv d \<and> unused d = {} \<and> same_batch (split_reset a) d \<and>
    concat (map ub_batch_idxs ubs) = [0..<ba_n (split_reset a)] \<and>
    (\<forall>ub \<in> set ubs. ubatch_ok ub \<and> 0 < ub_n_tokens ub \<and> ub_n_tokens ub \<le> nb \<and> length (ub_batch_idxs ub) = ub_n_tokens ub \<and>
       (\<forall>i < ub_n_tokens ub. ub_pos ub ! i = ba_pos (split_reset a) ! (ub_batch_idxs ub ! i) \<and>
          ub_seq_id ub ! i = ba_ids (split_reset a) ! (ub_batch_idxs ub ! i))))"
    by (rule simple_run [OF r(1)]) (use a r(2,4) in auto)
  show ?thesis
    unfolding kv_init_batch_def wp_bind c(5) if_P [OF refl]
  proof (rule wp_mono [OF run])
    fix x assume x: "case x of (ubs, d) \<Rightarrow> split_inv d \<and> unused d = {} \<and> same_batch (split_reset a) d \<and>
      concat (map ub_batch_idxs ubs) = [0..<ba_n (split_reset a)] \<and>
      (\<forall>ub \<in> set ubs. ubatch_ok ub \<and> 0 < ub_n_tokens ub \<and> ub_n_tokens ub \<le> nb \<and> length (ub_batch_idxs ub) = ub_n_tokens ub \<and>
         (\<forall>i < ub_n_tokens ub. ub_pos ub ! i = ba_pos (split_reset a) ! (ub_batch_idxs ub ! i) \<and>
            ub_seq_id ub ! i = ba_ids (split_reset a) ! (ub_batch_idxs ub ! i)))"
    obtain ubs d where xe: "x = (ubs, d)" by (cases x)
    have x: "split_inv d" "unused d = {}" "ba_batch d = ba_batch a" "concat (map ub_batch_idxs ubs) = [0..<ba_n a]"
      "\<And>ub. ub \<in> set ubs \<Longrightarrow> ubatch_ok ub \<and> 0 < ub_n_tokens ub \<and> ub_n_tokens ub \<le> nb \<and> length (ub_batch_idxs ub) = ub_n_tokens ub \<and>
         (\<forall>i < ub_n_tokens ub. ub_pos ub ! i = ba_pos a ! (ub_batch_idxs ub ! i) \<and> ub_seq_id ub ! i = ba_ids a ! (ub_batch_idxs ub ! i))"
      using x unfolding xe same_batch_def prod.case r(4) by blast+
    have "length (concat (map ub_batch_idxs ubs)) = ba_n a" unfolding x(4) by simp
    then have ne: "ubs \<noteq> []" using a(2) by auto
    have full: "\<not> ba_n_used d < get_n_tokens d" using x(1,2) by (simp add: split_inv_def get_n_tokens_def)
    have ready: "ub_ready c ub" if ub: "ub \<in> set ubs" for ub
    proof (rule piece_ready [OF _ _ c(5)])
      have "set (ub_batch_idxs ub) \<subseteq> set (concat (map ub_batch_idxs ubs))" using ub by auto
      then have "set (ub_batch_idxs ub) \<subseteq> {0..<ba_n a}" unfolding x(4) by simp
      then have "i < ub_n_tokens ub \<Longrightarrow> ub_batch_idxs ub ! i < ba_n a" for i 
        using x(5) [OF ub] nth_mem [of i "ub_batch_idxs ub"] by (metis atLeastLessThan_iff subset_iff)
      then show "\<forall>i < ub_n_tokens ub. ub_pos ub ! i < INT32_MAX \<and> (\<forall>s \<in> set (ub_seq_id ub ! i). kv_has_seq c s)"
        using x(5) [OF ub] a(4) by metis
    qed (use x(5) [OF ub] in simp_all)
    have P: "wp (prepare ubs c) (\<lambda>(sis, d). same_cells c d \<and> (kv_n_stream c = 1 \<longrightarrow> kv_heads d = kv_heads c) \<and> length sis \<in> {0, length ubs})"
      by (rule prepare_wp [OF c(1-4) _ ne]) (use ready in blast)
    show "wp (case x of (ubs, a) \<Rightarrow> if ba_n_used a < get_n_tokens a then Some (None, a, c)
        else prepare ubs c \<bind> (\<lambda>(sis, c). Some (if sis = [] then None else Some (sis, ubs), a, c)))
      (\<lambda>(r, d, c'). same_cells c c' \<and> kv_heads c' = kv_heads c \<and>
        (\<forall>sis ubs. r = Some (sis, ubs) \<longrightarrow> length sis = length ubs \<and> concat (map ub_batch_idxs ubs) = [0..<ba_n a] \<and>
           (\<forall>ub \<in> set ubs. 0 < ub_n_tokens ub \<and> ub_n_tokens ub \<le> nb)))"
      unfolding xe using full
      by (simp add: wp_bind) (rule wp_mono [OF P], use x(4,5) c(5) ne in \<open>auto simp: wp_simps\<close>)
  qed
qed

end
