(* ===== verification/BatchProps.thy ===== *)
theory BatchProps
  imports KvInitBatch
begin

text \<open>
  What the batch side promises: the properties of \<open>llama_batch_ext\<close>, \<open>llama_batch_allocr::init\<close>,
  the splits, and of \<open>llama_kv_cache::init_batch\<close> on top of them.
\<close>

section \<open>Small batches\<close>

definition one_token :: "llama_seq_id \<Rightarrow> llama_token \<Rightarrow> llama_pos \<Rightarrow> ext_token" where
  "one_token s tid p = ext_token_new\<lparr>xt_id := tid, xt_seq_ids := [s], xt_pos := [p, 0, 0, 0]\<rparr>"

definition small_batch :: "ext_token list \<Rightarrow> batch_ext" where
  "small_batch ts = (batch_ext_new 8 2 2 4 None 10 1)\<lparr>bx_tokens := ts\<rparr>"

lemma ex_some_pair: "(\<exists>u v. x = Some (u, v) \<and> P u v) \<longleftrightarrow> (case x of Some (u, v) \<Rightarrow> P u v | None \<Rightarrow> False)"
  by (auto split: option.splits)

lemma wp_pairD: "wp x (\<lambda>(u, v). P u v) \<Longrightarrow> \<exists>u v. x = Some (u, v) \<and> P u v"
  by (auto simp: wp_def)

lemma allocr_new_fields [simp]:
  "ba_n_pos_per_embd (allocr_new n m) = n" "length (ba_seq_idx (allocr_new n m)) = 256"
  by (simp_all add: allocr_new_def)

section \<open>The input batch\<close>

text \<open>
  C19. Whatever sequence of calls fills a batch (adders, setters, \<open>clear\<close>), every entry keeps a
  non-empty duplicate-free set of sequence ids below \<open>n_seq_max\<close>, a token id of the vocabulary, and an
  embedding that lies inside the buffer; the buffer holds one row per entry with an embedding.
\<close>

theorem batch_calls_inv:
  assumes "bx_reach b0 b" "0 < bx_n_embd_inp b0" "0 < bx_n_embd_inp_enc b0" "1 \<le> bx_n_pos_per_embd b0" "bx_n_pos_per_embd b0 \<le> 4"
  shows "(\<forall>t \<in> set (bx_tokens b). xt_seq_ids t \<noteq> [] \<and> distinct (xt_seq_ids t) \<and> (\<forall>s \<in> set (xt_seq_ids t). 0 \<le> s \<and> s < bx_n_seq_max b) \<and>
      (is_tok t \<longrightarrow> 0 \<le> xt_id t \<and> xt_id t < bx_n_vocab b) \<and>
      (xt_has_embd t \<longrightarrow> 0 < bx_n_embd b \<and> xt_embd_off t + bx_n_embd b \<le> length (bx_embd b))) \<and>
    length (bx_embd b) = bx_n_embd b * length (filter xt_has_embd (bx_tokens b))"
  using bx_reach_inv [OF assms] by (auto simp: bx_inv_def tok_ok_def)

definition small_bx :: batch_ext where
  "small_bx = batch_ext_new 8 2 2 4 None 10 1"

lemma small_reach: "\<exists>b. bx_reach small_bx b \<and> bx_tokens b = [(one_token 1 7 0)\<lparr>xt_seq_ids := [1, 3]\<rparr>] \<and> bx_n_seq_max b = 4 \<and> bx_mem b = None"
proof -
  define b1 where "b1 = snd (llama_batch_ext_add_token 1 7 (bx_clear small_bx))"
  define b2 where "b2 = snd (add_seq 0 3 b1)"
  have "bx_reach small_bx (bx_clear small_bx)" by (rule bx_reach.start)
  then have "bx_reach small_bx b1" by (rule bx_reach.call [where c = "Call_add_token 1 7"]) (simp add: b1_def)
  then have "bx_reach small_bx b2" by (rule bx_reach.call [where c = "Call_add_seq 0 3"]) (simp add: b2_def)
  moreover have "bx_tokens b2 = [(one_token 1 7 0)\<lparr>xt_seq_ids := [1, 3]\<rparr>]" "bx_n_seq_max b2 = 4" "bx_mem b2 = None"
    unfolding b2_def b1_def by code_simp+
  ultimately show ?thesis by blast
qed

lemma small_bx_fields: "0 < bx_n_embd_inp small_bx" "0 < bx_n_embd_inp_enc small_bx" "1 \<le> bx_n_pos_per_embd small_bx" "bx_n_pos_per_embd small_bx \<le> 4"
  by (simp_all add: small_bx_def batch_ext_new_def bx_clear_def)

lemma batch_calls_inv_witness:
  "\<exists>b. bx_reach small_bx b \<and> bx_tokens b \<noteq> [] \<and> (\<forall>t \<in> set (bx_tokens b). distinct (xt_seq_ids t))"
proof -
  obtain b where b: "bx_reach small_bx b" "bx_tokens b \<noteq> []" using small_reach by auto
  then show ?thesis using batch_calls_inv [OF b(1) small_bx_fields] by blast
qed

section \<open>init\<close>

text \<open>
  C16. \<open>init\<close> returns for every non-empty batch the calls can build whose first positions are at least -1
  and below \<open>INT32_MAX - 1\<close>, when the memory, if there is one, reports bounds for every sequence, the last
  position at least -1 and below \<open>INT32_MAX\<close>.  If it accepts, the flat arrays hold the entries, nothing is
  marked as used, the positions of each sequence never decrease, and sequences that share an entry have
  the same range in the memory.  With one position per entry the positions of a sequence have no gap
  and start right behind the memory; with several (M-RoPE) they may jump, but start behind the last
  position in the memory, or at it when the first entry of the sequence is an embedding.  The error for
  incompatible sequence sets never occurs.
\<close>

theorem init_accepts_consistent:
  assumes "bx_reach b0 inp" "0 < bx_n_embd_inp b0" "0 < bx_n_embd_inp_enc b0" "1 \<le> bx_n_pos_per_embd b0" "bx_n_pos_per_embd b0 \<le> 4"
    and "bx_tokens inp \<noteq> []" and "1 \<le> ba_n_pos_per_embd a" "ba_n_pos_per_embd a \<le> 4" "length (ba_seq_idx a) = 256"
    and "mem_ok (nat (bx_n_seq_max inp)) (bx_mem inp)"
    and "\<And>t. t \<in> set (bx_tokens inp) \<Longrightarrow> pos_mid (xt_pos t ! 0)"
  shows "\<exists>r. ba_init inp oa a = Some r \<and> (case r of Inl e \<Rightarrow> e \<noteq> Incompatible_sets | Inr d \<Rightarrow> accepted inp oa d)"
  using ba_init_wp [OF bx_inv_ok [OF bx_reach_inv [OF assms(1-5)]] assms(6-11)] by (auto simp: wp_def)

lemma init_accepts_consistent_witness:
  "\<exists>inp r. bx_tokens inp \<noteq> [] \<and> ba_init inp True (allocr_new 1 False) = Some r \<and>
    (case r of Inl e \<Rightarrow> e \<noteq> Incompatible_sets | Inr d \<Rightarrow> accepted inp True d)"
proof -
  obtain b where b: "bx_reach small_bx b" "bx_tokens b = [(one_token 1 7 0)\<lparr>xt_seq_ids := [1, 3]\<rparr>]" "bx_n_seq_max b = 4" "bx_mem b = None"
    using small_reach by auto
  have "mem_ok (nat (bx_n_seq_max b)) (bx_mem b)" "bx_tokens b \<noteq> []" using b by (simp_all add: mem_ok_def)
  moreover have "t \<in> set (bx_tokens b) \<Longrightarrow> pos_mid (xt_pos t ! 0)" for t
    using b(2) by (simp add: one_token_def pos_mid_def INT32_MAX_def)
  ultimately show ?thesis
    using init_accepts_consistent [OF b(1) small_bx_fields, of "allocr_new 1 False" True] by (auto intro!: exI [of _ b])
qed

text \<open>
  \<open>init\<close> accepts a token at position -1, \<open>split_simple\<close> passes it on, and placing it in a cell
  of a cache fails the assertion of the cell update.
\<close>

lemma negative_position_accepted:
  "\<exists>d ub d'. ba_init (small_batch [one_token 3 7 (-1)]) False (allocr_new 1 False) = Some (Inr d) \<and>
     split_simple 4 d = Some (ub, d') \<and> ub_pos ub = [-1] \<and>
     apply_ubatch \<lparr>si_s0 = 0, si_s1 = 0, si_strm = [0], si_idxs = [[1]]\<rparr> ub kv_demo = None"
proof -
  have "(case ba_init (small_batch [one_token 3 7 (-1)]) False (allocr_new 1 False) of
      Some (Inr d) \<Rightarrow> (case split_simple 4 d of Some (ub, d') \<Rightarrow> ub_pos ub = [-1] \<and> 
     apply_ubatch \<lparr>si_s0 = 0, si_s1 = 0, si_strm = [0], si_idxs = [[1]]\<rparr> ub kv_demo = None
    | None \<Rightarrow> False) | _ \<Rightarrow> False)"
    by code_simp
  then show ?thesis by (auto split: option.splits sum.splits)
qed

section \<open>Splitting\<close>

definition two_seqs :: "ext_token list" where
  "two_seqs = [one_token 1 7 0, one_token 3 7 6]"

definition accepted_of :: "ext_token list \<Rightarrow> batch_allocr" where
  "accepted_of ts = (case ba_init (small_batch ts) False (allocr_new 1 False) of Some (Inr d) \<Rightarrow> d | _ \<Rightarrow> allocr_new 1 False)"

lemma two_seqs_ok:
  "ba_ok (accepted_of two_seqs)" "ba_n (accepted_of two_seqs) = 2" "\<forall>i < 2. 0 \<le> ba_pos (accepted_of two_seqs) ! i \<and> ba_pos (accepted_of two_seqs) ! i < INT32_MAX"
  "\<not> ba_has_cpl (accepted_of two_seqs)" "ba_ids (accepted_of two_seqs) = [[1], [3]]"
proof -
  let ?b = "small_batch two_seqs" and ?a = "allocr_new 1 False"
  have b: "bx_ok ?b" "bx_tokens ?b \<noteq> []"
    by (auto simp: bx_ok_def small_batch_def two_seqs_def one_token_def ext_token_new_def batch_ext_new_def bx_clear_def)
  have w: "wp (ba_init ?b False ?a) (\<lambda>r. case r of Inl e \<Rightarrow> e \<noteq> Incompatible_sets | Inr d \<Rightarrow> accepted ?b False d)"
    by (rule ba_init_wp [OF b])
      (auto simp: mem_ok_def small_batch_def two_seqs_def one_token_def batch_ext_new_def bx_clear_def pos_mid_def INT32_MAX_def)
  have e: "case ba_init ?b False ?a of Some (Inr d) \<Rightarrow> ba_n d = 2 \<and> ba_pos d = [0, 6] \<and> ba_ids d = [[1], [3]] \<and> \<not> ba_has_cpl d | _ \<Rightarrow> False"
    by code_simp
  obtain d where d: "ba_init ?b False ?a = Some (Inr d)" using e by (auto split: option.splits sum.splits)
  note e = e [unfolded d option.case sum.case]
  have ad: "accepted_of two_seqs = d" unfolding accepted_of_def d by simp
  show "ba_ok (accepted_of two_seqs)" using w [unfolded d] by (simp add: ad accepted_def Let_def)
  show "ba_n (accepted_of two_seqs) = 2" "\<not> ba_has_cpl (accepted_of two_seqs)" using e by (simp_all add: ad)
  show "\<forall>i < 2. 0 \<le> ba_pos (accepted_of two_seqs) ! i \<and> ba_pos (accepted_of two_seqs) ! i < INT32_MAX"
    using e by (simp add: ad nat_less_two INT32_MAX_def)
  show "ba_ids (accepted_of two_seqs) = [[1], [3]]" using e by (simp add: ad)
qed

text \<open>
  C17. Calling \<open>split_simple\<close> until it returns an empty micro-batch ends, and cuts the batch in order
  into pieces of at most \<open>n_ubatch\<close> tokens with the positions and sequences of the batch; every token
  is used exactly once.
\<close>

theorem simple_splits_partition:
  assumes "ba_ok a" "0 < nb" "\<forall>i < ba_n a. 0 \<le> ba_pos a ! i"
  shows "\<exists>ubs d. split_run (split_simple nb) (split_reset a) = Some (ubs, d) \<and> ba_n_used d = ba_n a \<and>
    concat (map ub_batch_idxs ubs) = [0..<ba_n a] \<and>
    (\<forall>ub \<in> set ubs. ubatch_ok ub \<and> 0 < ub_n_tokens ub \<and> ub_n_tokens ub \<le> nb \<and>
       (\<forall>i < ub_n_tokens ub. ub_pos ub ! i = ba_pos a ! (ub_batch_idxs ub ! i) \<and> ub_seq_id ub ! i = ba_ids a ! (ub_batch_idxs ub ! i)))"
proof -
  note r = split_inv_reset [OF assms(1)]
  have "wp (split_run (split_simple nb) (split_reset a)) (\<lambda>(ubs, d). split_inv d \<and> unused d = {} \<and> same_batch (split_reset a) d \<and>
    concat (map ub_batch_idxs ubs) = [0..<ba_n (split_reset a)] \<and>
    (\<forall>ub \<in> set ubs. ubatch_ok ub \<and> 0 < ub_n_tokens ub \<and> ub_n_tokens ub \<le> nb \<and> length (ub_batch_idxs ub) = ub_n_tokens ub \<and>
       (\<forall>i < ub_n_tokens ub. ub_pos ub ! i = ba_pos (split_reset a) ! (ub_batch_idxs ub ! i) \<and>
          ub_seq_id ub ! i = ba_ids (split_reset a) ! (ub_batch_idxs ub ! i))))"
    by (rule simple_run [OF r(1)]) (use assms r(2,4) in auto)
  then show ?thesis unfolding r(4) by (auto dest!: wp_pairD simp: same_batch_def split_inv_def r(4))
qed

text \<open>The three outcomes of the loop over \<open>split_equal\<close>.\<close>

lemma equal_run_coupled:
  assumes "ba_ok a" "sq \<and> ba_has_cpl a"
  shows "split_run (split_equal nb sq tail) (split_reset a) = Some ([], split_reset a)"
proof -
  note r = split_inv_reset [OF assms(1)]
  have "split_equal nb sq tail (split_reset a) = Some (ubatch_empty, split_reset a)"
    using assms(2) ba_okD(17) [OF assms(1)] by (simp add: split_equal_def r(4,6))
  then show ?thesis by (subst split_run.simps) (simp add: ubatch_empty_def)
qed

lemma equal_run_small:
  assumes "ba_ok a" "0 < ba_n a" "\<not> (sq \<and> ba_has_cpl a)" "0 < tail" "nb \<le> tail"
  shows "split_run (split_equal nb sq tail) (split_reset a) = None"
proof -
  note r = split_inv_reset [OF assms(1)]
  have "split_equal nb sq tail (split_reset a) = None"
    by (rule split_equal_small [OF r(1,3)]) (use assms r(2,4,6) in auto)
  then show ?thesis by (subst split_run.simps) simp
qed

lemma equal_run_partition:
  assumes "ba_ok a" "\<forall>i < ba_n a. 0 \<le> ba_pos a ! i" "\<not> (sq \<and> ba_has_cpl a)" "tail = 0 \<or> tail < nb"
  shows "\<exists>ubs d. split_run (split_equal nb sq tail) (split_reset a) = Some (ubs, d) \<and> ba_n_used d = ba_n a \<and>
    distinct (concat (map ub_batch_idxs ubs)) \<and> set (concat (map ub_batch_idxs ubs)) = {0..<ba_n a} \<and>
    (\<forall>ub \<in> set ubs. equal_ub nb (ba_batch a) ub) \<and> tails_kept tail a {0..<ba_n a} ubs"
proof -
  note r = split_inv_reset [OF assms(1)] and l = long_rest_reset [OF assms(1)]
  have "wp (split_run (split_equal nb sq tail) (split_reset a)) (\<lambda>(ubs, d). split_inv d \<and> unused d = {} \<and> same_batch (split_reset a) d \<and>
    distinct (concat (map ub_batch_idxs ubs)) \<and> set (concat (map ub_batch_idxs ubs)) = unused (split_reset a) \<and>
    (\<forall>ub \<in> set ubs. equal_ub nb (ba_batch (split_reset a)) ub) \<and> tails_kept tail (split_reset a) (unused (split_reset a)) ubs)"
    by (rule equal_run [OF r(1,3) _ _ _ l(1)]) (use assms r(4,6) in auto)
  then show ?thesis unfolding r(2,4) tails_kept_def l(2) by (auto dest!: wp_pairD simp: same_batch_def split_inv_def r(4))
qed

text \<open>
  C18. Calling \<open>split_equal\<close> on an accepted batch without negative positions until it returns an empty
  micro-batch has one of three outcomes.  A sequential split of a batch with coupled sequences is given
  up at once: no micro-batch, no token used.  If the tail to keep is not shorter than \<open>n_ubatch\<close>, the
  assertion in \<open>split_equal\<close> fails.  In every other case the loop ends and every token is in exactly one
  piece; a piece has per sequence set the same number of tokens, in order, the sets do not overlap, and
  it has at most \<open>n_ubatch + 1\<close> tokens; with a tail to keep, the last \<open>tail\<close> tokens of every sequence
  set are never split across micro-batches.
\<close>

theorem equal_splits_partition:
  assumes "ba_ok a" "0 < ba_n a" "\<forall>i < ba_n a. 0 \<le> ba_pos a ! i"
  shows "if sq \<and> ba_has_cpl a then split_run (split_equal nb sq tail) (split_reset a) = Some ([], split_reset a)
    else if 0 < tail \<and> nb \<le> tail then split_run (split_equal nb sq tail) (split_reset a) = None
    else \<exists>ubs d. split_run (split_equal nb sq tail) (split_reset a) = Some (ubs, d) \<and> ba_n_used d = ba_n a \<and>
      distinct (concat (map ub_batch_idxs ubs)) \<and> set (concat (map ub_batch_idxs ubs)) = {0..<ba_n a} \<and>
      (\<forall>ub \<in> set ubs. equal_ub nb (ba_batch a) ub) \<and> tails_kept tail a {0..<ba_n a} ubs"
  using equal_run_coupled [OF assms(1)] equal_run_small [OF assms(1,2)] equal_run_partition [OF assms(1,3)]
  by (metis gr_zeroI not_less)

lemma simple_splits_partition_witness:
  "\<exists>ubs d. split_run (split_simple 2) (split_reset (accepted_of two_seqs)) = Some (ubs, d) \<and> concat (map ub_batch_idxs ubs) = [0, 1]"
proof -
  have "\<exists>ubs d. split_run (split_simple 2) (split_reset (accepted_of two_seqs)) = Some (ubs, d) \<and> concat (map ub_batch_idxs ubs) = [0..<ba_n (accepted_of two_seqs)]"
    using simple_splits_partition [OF two_seqs_ok(1), of 2] two_seqs_ok(2,3) by auto
  then show ?thesis by (simp add: two_seqs_ok(2) upt_rec)
qed

lemma equal_splits_partition_witness:
  "\<exists>ubs d. split_run (split_equal 2 True 1) (split_reset (accepted_of two_seqs)) = Some (ubs, d) \<and> set (concat (map ub_batch_idxs ubs)) = {0..<2}"
  using equal_splits_partition [OF two_seqs_ok(1), of True 2 1] two_seqs_ok(2,3,4) by auto

text \<open>
  C21. \<open>split_equal\<close> does not keep to \<open>n_ubatch\<close>: for every accepted batch whose entries have one
  sequence each, and whose number of different sequences is above \<open>n_ubatch\<close>, the first micro-batch of
  a non-sequential split without a tail has exactly \<open>n_ubatch + 1\<close> tokens.
\<close>

theorem equal_split_exceeds:
  assumes "ba_ok a" "\<forall>i < ba_n a. 0 \<le> ba_pos a ! i" "\<forall>i < ba_n a. length (ba_ids a ! i) = 1"
    and "nb < card (\<Union>i < ba_n a. set (ba_ids a ! i))"
  shows "\<exists>ub d. split_equal nb False 0 (split_reset a) = Some (ub, d) \<and> ub_n_tokens ub = nb + 1"
proof -
  note r = split_inv_reset [OF assms(1)]
  have "wp (split_equal nb False 0 (split_reset a)) (\<lambda>(ub, d). ub_n_tokens ub = nb + 1 \<and> ub_n_seqs ub = nb + 1)"
    by (rule split_equal_over [OF r(1,3)]) (use assms r(2,4) in \<open>auto simp: lessThan_atLeast0\<close>)
  then show ?thesis by (auto simp: wp_def)
qed

lemma equal_split_exceeds_witness:
  "\<exists>ub d. split_equal 1 False 0 (split_reset (accepted_of two_seqs)) = Some (ub, d) \<and> ub_n_tokens ub = 2"
proof -
  have "(\<Union>i < 2. set (ba_ids (accepted_of two_seqs) ! i)) = {1, 3}"
    by (auto simp: two_seqs_ok(5) numeral_2_eq_2 lessThan_Suc)
  then show ?thesis
    using equal_split_exceeds [OF two_seqs_ok(1), of 1] two_seqs_ok(2,3,5) by (auto simp: nat_less_two)
qed

lemma init_arrays_embd:
  assumes "init_arrays inp oa (0, y, z) a = Some (Inr d)" "0 < y \<or> 0 < z"
  shows "lb_embd (ba_batch d) = Some (bx_embd inp)"
proof -
  obtain tok ps where d: "(let out = flat_output oa (bx_tokens inp) in Some (Inr (a\<lparr>
       ba_is_embd := [], ba_state := (if xt_has_state (hd (bx_tokens inp)) then bx_state inp else []),
       ba_embd_row := (if is_row (hd (bx_tokens inp)) then map xt_embd_row (bx_tokens inp) else []),
       ba_decision_order := flat_order (bx_tokens inp),
       ba_batch := (ba_batch a)\<lparr>lb_n_tokens := length (bx_tokens inp), lb_token := tok, lb_embd := Some (bx_embd inp), lb_pos := Some ps,
         lb_n_seq_id := Some (map (\<lambda>t. int (length (xt_seq_ids t))) (bx_tokens inp)),
         lb_seq_id := Some (map xt_seq_ids (bx_tokens inp)), lb_logits := Some out\<rparr>,
       ba_n_outputs := length (filter (\<lambda>x. x \<noteq> 0) out)\<rparr>))) = (Some (Inr d) :: (init_error + batch_allocr) option)"
    using assms
    by (auto simp: init_arrays_def Let_def bind_eq_Some_conv split: sum.splits if_splits option.splits)
  then show ?thesis by (auto simp: Let_def)
qed

lemma init_stats_batch:
  assumes "init_stats a = Some d"
  shows "ba_batch d = ba_batch a"
proof -
  obtain u v where u: "foldM note_entry [0..<get_n_tokens a] (a\<lparr>ba_has_cpl := False\<rparr>) = Some u"
    "foldM note_set [0..<get_n_tokens u] u = Some v" "ba_batch d = ba_batch v"
    using assms by (auto simp: init_stats_def Let_def bind_eq_Some_conv case_prod_unfold)
  have "ba_batch u = ba_batch a"
    by (rule foldM_invariant [OF u(1)]) (auto simp: note_entry_def bind_eq_Some_conv)
  moreover have "ba_batch v = ba_batch u"
    by (rule foldM_invariant [OF u(2)]) (auto simp: note_set_def bind_eq_Some_conv)
  ultimately show ?thesis using u(3) by simp
qed

lemma row_of_concat:
  assumes "\<forall>x \<in> set xss. length x = w" "k < length xss"
  shows "row_of (concat xss) w k = xss ! k"
  using assms
proof (induction xss arbitrary: k)
  case (Cons x xss)
  then show ?case by (cases k) (auto simp: row_of_def)
qed simp

lemma init_embd_buffer:
  assumes "ba_init inp oa a = Some (Inr d)" "\<forall>t \<in> set (bx_tokens inp). xt_has_embd t"
  shows "lb_embd (ba_batch d) = Some (bx_embd inp)"
proof -
  let ?ts = "bx_tokens inp"
  have ne: "?ts \<noteq> []" using assms(1) by (auto simp: ba_init_def Let_def ensure_def split: if_splits)
  obtain x y z where k: "count_kinds (is_row (hd ?ts)) (xt_has_state (hd ?ts)) ?ts (0, 0, 0) = Inr (x, y, z)"
    using assms(1) ne by (auto simp: ba_init_def Let_def split: if_splits sum.splits)
  have x: "x = 0" using count_kinds_sound [OF k] assms(2) by (auto simp: filter_empty_conv)
  have yz: "0 < y \<or> 0 < z"
  proof (cases ?ts)
    case (Cons t ts)
    then show ?thesis using count_kinds_sound [OF k] assms(2) by auto
  qed (use ne in simp)
  define a0 where "a0 = (ba_clear a)\<lparr>ba_n_embd := (if bx_n_embd inp > 0 then bx_n_embd inp else bx_n_embd_inp inp),
    ba_n_embd_state := bx_n_embd_state inp, ba_n_seq_max := nat (bx_n_seq_max inp)\<rparr>"
  obtain r where r: "init_arrays inp oa (0, y, z) a0 = Some r" "(case r of Inl e \<Rightarrow> Some (Inl e) | Inr a \<Rightarrow> do {
      a \<leftarrow> init_stats a; r \<leftarrow> init_checks (bx_mem inp) a;
      case r of Some e \<Rightarrow> Some (Inl e) | None \<Rightarrow> Some (Inr (split_reset a)) }) = Some (Inr d)"
    using assms(1) ne unfolding ba_init_def Let_def a0_def [symmetric] k x
    by (auto simp: bind_eq_Some_conv split: if_splits)
  obtain a1 where a1: "r = Inr a1" using r(2) by (cases r) auto
  obtain a2 and q :: "init_error option" where a2: "init_stats a1 = Some a2" "(case q of Some e \<Rightarrow> Some (Inl e) | None \<Rightarrow> Some (Inr (split_reset a2))) = Some (Inr d)"
    using r(2) unfolding a1 sum.case bind_eq_Some_conv by blast
  have d: "ba_batch d = ba_batch a2" using a2(2) by (cases q) (auto simp: split_reset_def)
  note a = r(1) [unfolded a1] a2(1) d
  show ?thesis using init_arrays_embd [OF a(1) yz] init_stats_batch [OF a(2)] a(3) by simp
qed

text \<open>A sequence of \<open>set_token_embd\<close> calls that all return \<open>true\<close>, and the row each of them gives.\<close>

fun set_embds :: "(int \<times> llama_embd) list \<Rightarrow> batch_ext \<Rightarrow> batch_ext option" where
  "set_embds [] b = Some b"
| "set_embds ((i, e) # cs) b = do { (good, b) \<leftarrow> set_token_embd i e b; ensure good; set_embds cs b }"

definition given_row :: "llama_embd \<Rightarrow> float32 list" where
  "given_row e = take (em_total e) (the (em_data e))"

lemma set_token_embd_true:
  assumes "set_token_embd i e b = Some (True, b')" "0 < bx_n_embd_inp b" "0 < bx_n_embd_inp_enc b"
  shows "bx_embd b' = bx_embd b @ given_row e" "length (given_row e) = bx_n_embd b'" "0 < bx_n_embd b'"
    "bx_n_embd b \<noteq> 0 \<longrightarrow> bx_n_embd b' = bx_n_embd b" "bx_n_embd_inp b' = bx_n_embd_inp b" "bx_n_embd_inp_enc b' = bx_n_embd_inp_enc b"
    "idx_ok b i" "\<not> xt_has_embd (bx_tokens b ! nat i)" "length (bx_tokens b') = length (bx_tokens b)"
    "bx_tokens b' = (bx_tokens b)[nat i := (bx_tokens b ! nat i)\<lparr>xt_has_embd := True, xt_embd_off := length (bx_embd b)\<rparr>]"
  using assms by (auto simp: set_token_embd_def given_row_def upd_token_def Let_def bind_eq_Some_conv split: if_splits option.splits)

lemma set_embds_rows:
  assumes "set_embds cs b = Some inp" "0 < bx_n_embd_inp b" "0 < bx_n_embd_inp_enc b"
  shows "bx_embd inp = bx_embd b @ concat (map (\<lambda>c. given_row (snd c)) cs) \<and> (\<forall>c \<in> set cs. length (given_row (snd c)) = bx_n_embd inp) \<and>
    (bx_n_embd b \<noteq> 0 \<longrightarrow> bx_n_embd inp = bx_n_embd b) \<and> length (bx_tokens inp) = length (bx_tokens b) \<and>
    (\<forall>c \<in> set cs. idx_ok b (fst c) \<and> \<not> xt_has_embd (bx_tokens b ! nat (fst c))) \<and> distinct (map fst cs)"
  using assms
proof (induction cs arbitrary: b)
  case (Cons c cs)
  obtain i e where c: "c = (i, e)" by (cases c)
  obtain b' where b': "set_token_embd i e b = Some (True, b')" "set_embds cs b' = Some inp"
    using Cons.prems(1) by (auto simp: c bind_eq_Some_conv ensure_def split: if_splits)
  note s = set_token_embd_true [OF b'(1) Cons.prems(2,3)]
  have IH: "bx_embd inp = bx_embd b' @ concat (map (\<lambda>c. given_row (snd c)) cs)" "\<forall>c \<in> set cs. length (given_row (snd c)) = bx_n_embd inp"
    "bx_n_embd inp = bx_n_embd b'" "length (bx_tokens inp) = length (bx_tokens b')"
    "\<forall>c \<in> set cs. idx_ok b' (fst c) \<and> \<not> xt_has_embd (bx_tokens b' ! nat (fst c))" "distinct (map fst cs)"
    using Cons.IH [OF b'(2)] Cons.prems(2,3) s(3,5,6) by auto
  have i: "0 \<le> i" "nat i < length (bx_tokens b)" using s(7) by (auto simp: idx_ok_def)
  have old: "idx_ok b (fst x) \<and> \<not> xt_has_embd (bx_tokens b ! nat (fst x)) \<and> fst x \<noteq> i" if "x \<in> set cs" for x
    using IH(5) that s(9,10) i by (auto simp: idx_ok_def nth_list_update split: if_splits)
  then have "i \<notin> fst ` set cs" by auto
  then show ?case using IH(1-4,6) s(1-4,7-9) old by (auto simp: c)
qed simp

text \<open>
  C20. When every entry has an embedding, row \<open>k\<close> of \<open>batch.embd\<close> is the embedding of the \<open>k\<close>-th
  \<open>set_token_embd\<close> call, and not that of entry \<open>k\<close>: after any sequence of successful calls, one for each
  entry of a batch without embeddings, \<open>init\<close> hands out the rows in call order, whatever entry each
  call named; the offset that records where the row of an entry lies is not used.
\<close>

theorem embd_in_call_order:
  assumes "bx_embd b = []" "0 < bx_n_embd_inp b" "0 < bx_n_embd_inp_enc b" "set_embds cs b = Some inp"
    and "\<forall>t \<in> set (bx_tokens inp). xt_has_embd t" "ba_init inp oa a = Some (Inr d)"
  shows "\<exists>es. lb_embd (ba_batch d) = Some es \<and> length es = length cs * bx_n_embd inp \<and> distinct (map fst cs) \<and>
    (\<forall>k < length cs. row_of es (bx_n_embd inp) k = given_row (snd (cs ! k)))"
proof -
  let ?xss = "map (\<lambda>c. given_row (snd c)) cs" and ?w = "bx_n_embd inp"
  have s: "bx_embd inp = concat ?xss" "\<forall>x \<in> set ?xss. length x = ?w" "distinct (map fst cs)"
    using set_embds_rows [OF assms(4,2,3)] assms(1) by auto
  have "row_of (concat ?xss) ?w k = ?xss ! k" if "k < length ?xss" for k
    using row_of_concat [OF s(2) that] .
  moreover have "length (concat ?xss) = length cs * ?w" using length_concat_block [of ?xss ?w] s(2) by simp
  ultimately show ?thesis using init_embd_buffer [OF assms(6,5)] s(1,3) by simp
qed

text \<open>Two embeddings set in the order 1, 0: the rows of \<open>batch.embd\<close> end up swapped.\<close>

definition two_rows :: "float32 \<Rightarrow> float32 \<Rightarrow> (int \<times> llama_embd) list" where
  "two_rows x y = [(1, \<lparr>em_data = Some [y, y], em_n_rows = 1, em_n_embd = 2\<rparr>), (0, \<lparr>em_data = Some [x, x], em_n_rows = 1, em_n_embd = 2\<rparr>)]"

definition two_empty :: batch_ext where
  "two_empty = small_batch [one_token 1 (-1) 0, one_token 3 (-1) 0]"

definition two_embd :: "float32 \<Rightarrow> float32 \<Rightarrow> batch_ext" where
  "two_embd x y = (small_batch [(one_token 1 (-1) 0)\<lparr>xt_has_embd := True, xt_embd_off := 2\<rparr>, (one_token 3 (-1) 0)\<lparr>xt_has_embd := True\<rparr>])
     \<lparr>bx_embd := [y, y, x, x], bx_n_embd := 2\<rparr>"

lemma two_embd_calls: "set_embds (two_rows x y) two_empty = Some (two_embd x y)"
  by (simp add: two_rows_def two_empty_def two_embd_def small_batch_def batch_ext_new_def bx_clear_def ext_token_new_def
      one_token_def set_token_embd_def idx_ok_def em_total_def upd_token_def ensure_def)

lemma two_embd_init:
  "case ba_init (two_embd x y) False (allocr_new 1 False) of Some (Inr d) \<Rightarrow> True | _ \<Rightarrow> False"
  "list_all xt_has_embd (bx_tokens (two_embd x y))"
  unfolding two_embd_def by code_simp+

lemma embd_in_call_order_witness:
  "\<exists>d es. ba_init (two_embd 0 1) False (allocr_new 1 False) = Some (Inr d) \<and> lb_embd (ba_batch d) = Some es \<and> row_of es 2 0 = [1, 1]"
proof -
  obtain d where d: "ba_init (two_embd 0 1) False (allocr_new 1 False) = Some (Inr d)"
    using two_embd_init(1) [of 0 1] by (auto split: option.splits sum.splits)
  have b: "bx_embd two_empty = []" "0 < bx_n_embd_inp two_empty" "0 < bx_n_embd_inp_enc two_empty" "bx_n_embd (two_embd 0 1) = 2"
    by (simp_all add: two_empty_def two_embd_def small_batch_def batch_ext_new_def bx_clear_def)
  obtain es where "lb_embd (ba_batch d) = Some es" "\<forall>k < length (two_rows 0 1). row_of es 2 k = given_row (snd (two_rows 0 1 ! k))"
    using embd_in_call_order [OF b(1-3) two_embd_calls _ d] two_embd_init(2) [of 0 1] b(4) by (auto simp: list_all_iff)
  then show ?thesis using d by (auto simp: two_rows_def given_row_def em_total_def)
qed

text \<open>
  C15. \<open>init_batch\<close> of a cache with one stream, without a sliding window, that owns its cells and has no
  shift pending, returns for every accepted batch whose sequences the cache knows and whose positions
  are not negative and below \<open>INT32_MAX\<close>, with \<open>n_ubatch > 0\<close>.  The cells and the search head are as
  before; on success there is one slot per micro-batch, and the micro-batches hold every token once,
  in order, at most \<open>n_ubatch\<close> each.  \<open>init\<close> itself lets position -1 through
  (\<open>negative_position_accepted\<close>).
\<close>

theorem init_batch_places_all:
  assumes "ba_ok a" "0 < ba_n a" "0 < nb"
    and "\<forall>i < ba_n a. 0 \<le> ba_pos a ! i \<and> ba_pos a ! i < INT32_MAX \<and> (\<forall>s \<in> set (ba_ids a ! i). kv_has_seq c s)"
    and "kv_ready c" "kv_other c = None" "kv_swa_type c = SWA_NONE" "unshifted c" "kv_n_stream c = 1"
  shows "\<exists>r d c'. kv_init_batch nb emb a c = Some (r, d, c') \<and> same_cells c c' \<and> kv_heads c' = kv_heads c \<and>
    (\<forall>sis ubs. r = Some (sis, ubs) \<longrightarrow> length sis = length ubs \<and> concat (map ub_batch_idxs ubs) = [0..<ba_n a] \<and>
       (\<forall>ub \<in> set ubs. 0 < ub_n_tokens ub \<and> ub_n_tokens ub \<le> nb))"
  using kv_init_simple [OF assms] by (auto simp: wp_def)

lemma init_batch_places_all_witness:
  "\<exists>r d c'. kv_init_batch 2 False (accepted_of two_seqs) kv_demo = Some (r, d, c') \<and> same_cells kv_demo c'"
proof -
  have "\<forall>i < 2. \<forall>s \<in> set (ba_ids (accepted_of two_seqs) ! i). kv_has_seq kv_demo s"
    by (auto simp: nat_less_two two_seqs_ok(5) kv_has_seq_def kv_demo_fields)
  then show ?thesis
    using init_batch_places_all [of "accepted_of two_seqs" 2 kv_demo False] two_seqs_ok(1-3) kv_demo_ready
    by (auto simp: kv_demo_fields)
qed

end
