(* ===== verification/RecMem.thy ===== *)
theory RecMem
  imports Ubatch MemoryInterface
begin

text \<open>
  The recurrent memory (\<open>src/llama-memory-recurrent.{h,cpp}\<close>): one cell holds the whole state of a
  sequence.  \<open>cells[i]\<close> plays two roles: its \<open>pos\<close>, \<open>src\<close>, \<open>src0\<close>, \<open>rs_max\<close> and \<open>seq_id\<close> describe
  the state stored in row \<open>i\<close>, its \<open>tail\<close> is the cell in which sequence \<open>i\<close> lives.  \<open>std::set\<close> is
  a set, an index of type \<open>int32_t\<close> an integer (\<open>mem_at\<close> is \<open>None\<close> for a negative or too large one),
  the tensors and log messages are left out.  This theory holds the data, the sequence operations and
  the queries; \<open>RecSlot\<close> has the placement of micro-batches.
\<close>

section \<open>Data\<close>

record mem_cell =
  mc_pos :: llama_pos
  mc_src :: int
  mc_src0 :: int
  mc_tail :: int
  mc_rs_max :: nat
  mc_seq_id :: "llama_seq_id set"

definition mem_cell_new :: mem_cell where
  "mem_cell_new = \<lparr>mc_pos = -1, mc_src = -1, mc_src0 = -1, mc_tail = -1, mc_rs_max = 0, mc_seq_id = {}\<rparr>"

definition has_seq_id :: "mem_cell \<Rightarrow> llama_seq_id \<Rightarrow> bool" where
  "has_seq_id c s = (s \<in> mc_seq_id c)"

definition cell_is_empty :: "mem_cell \<Rightarrow> bool" where
  "cell_is_empty c = (mc_seq_id c = {})"

record rec_mem =
  re_head :: nat
  re_size :: nat
  re_used :: nat
  re_n_rs_seq :: nat
  re_rs_idx :: "nat list"
  re_n :: nat
  re_rs_z :: int
  re_cells :: "mem_cell list"
  re_n_seq_max :: nat
  re_no_layers :: bool

text \<open>
  The constructor; \<open>no_layers\<close> is \<open>is_empty()\<close>, the layer filter removed every layer.  In that case it
  means to disable the snapshots, but the assignment \<open>n_rs_seq = 0\<close> reaches the constructor's parameter,
  which hides the member of that name: the member keeps the value of \<open>this->n_rs_seq = n_rs_seq\<close>.
\<close>

definition rec_new :: "nat \<Rightarrow> nat \<Rightarrow> nat \<Rightarrow> bool \<Rightarrow> rec_mem" where
  "rec_new mem_size n_seq_max n_rs_seq no_layers = \<lparr>re_head = 0, re_size = mem_size, re_used = 0,
     re_n_rs_seq = n_rs_seq, re_rs_idx = replicate n_seq_max 0, re_n = 0, re_rs_z = -1,
     re_cells = replicate mem_size mem_cell_new, re_n_seq_max = n_seq_max, re_no_layers = no_layers\<rparr>"

section \<open>Access to cells\<close>

text \<open>The conversion \<open>(uint32_t) x\<close> of an \<open>int32_t\<close>.\<close>

definition u32_of :: "int \<Rightarrow> nat" where
  "u32_of x = nat (x mod 2 ^ 32)"

definition mem_at :: "rec_mem \<Rightarrow> int \<Rightarrow> mem_cell option" where
  "mem_at m i = (if i < 0 then None else vget (re_cells m) (nat i))"

definition put_cell :: "nat \<Rightarrow> mem_cell \<Rightarrow> rec_mem \<Rightarrow> rec_mem" where
  "put_cell i c m = m\<lparr>re_cells := (re_cells m)[i := c]\<rparr>"

definition set_tail :: "llama_seq_id \<Rightarrow> int \<Rightarrow> rec_mem \<Rightarrow> rec_mem option" where
  "set_tail s t m = do { c \<leftarrow> mem_at m s; Some (put_cell (nat s) (c\<lparr>mc_tail := t\<rparr>) m) }"

text \<open>A cell that lost its last sequence: \<open>pos = -1; src = -1\<close>, one used cell less.\<close>

definition vacate :: "mem_cell \<Rightarrow> mem_cell" where
  "vacate c = c\<lparr>mc_pos := -1, mc_src := -1\<rparr>"

text \<open>\<open>if (new_head != size && new_head < head) head = new_head;\<close>\<close>

definition rec_lower_head :: "nat \<Rightarrow> rec_mem \<Rightarrow> rec_mem" where
  "rec_lower_head new_head m = (if new_head \<noteq> re_size m \<and> new_head < re_head m then m\<lparr>re_head := new_head\<rparr> else m)"

section \<open>Sequence operations\<close>

definition rec_clear :: "rec_mem \<Rightarrow> rec_mem" where
  "rec_clear m = m\<lparr>re_cells := map (\<lambda>c. c\<lparr>mc_pos := -1, mc_seq_id := {}, mc_src := -1, mc_tail := -1, mc_rs_max := 0\<rparr>) (re_cells m),
     re_head := 0, re_used := 0, re_rs_idx := map (\<lambda>_. 0) (re_rs_idx m)\<rparr>"

definition set_rs_idx :: "llama_seq_id \<Rightarrow> nat \<Rightarrow> rec_mem \<Rightarrow> rec_mem option" where
  "set_rs_idx s idx m =
     (if s < 0 then Some (m\<lparr>re_rs_idx := map (\<lambda>_. 0) (re_rs_idx m)\<rparr>)
      else do {
        _ \<leftarrow> ensure (re_n_seq_max m = length (re_rs_idx m));
        _ \<leftarrow> ensure (u32_of s < re_n_seq_max m);
        _ \<leftarrow> ensure (idx \<le> re_n_rs_seq m);
        rs \<leftarrow> vset (re_rs_idx m) (nat s) idx;
        Some (m\<lparr>re_rs_idx := rs\<rparr>) })"

text \<open>One turn of the loop over the cells; the first component is \<open>new_head\<close>.\<close>

definition seq_rm_cell :: "llama_seq_id \<Rightarrow> llama_pos \<Rightarrow> llama_pos \<Rightarrow> nat \<Rightarrow> nat \<times> rec_mem \<Rightarrow> (nat \<times> rec_mem) option" where
  "seq_rm_cell s p0 p1 i x = (case x of (new_head, m) \<Rightarrow> do {
     c \<leftarrow> vget (re_cells m) i;
     if p0 \<le> mc_pos c \<and> mc_pos c < p1 \<and> (s < 0 \<or> has_seq_id c s) then
       let c' = c\<lparr>mc_seq_id := if s < 0 then {} else mc_seq_id c - {s}\<rparr> in
       if cell_is_empty c' then
         Some (if new_head = re_size m then i else new_head,
               (put_cell i (vacate c') m)\<lparr>re_used := if mc_pos c \<ge> 0 then usub32 (re_used m) 1 else re_used m\<rparr>)
       else Some (new_head, put_cell i c' m)
     else Some (new_head, m) })"

definition seq_rm_cells :: "llama_seq_id \<Rightarrow> llama_pos \<Rightarrow> llama_pos \<Rightarrow> rec_mem \<Rightarrow> (bool \<times> rec_mem) option" where
  "seq_rm_cells s p0 p1 m = do {
     (new_head, m) \<leftarrow> foldM (seq_rm_cell s p0 p1) [0..<re_size m] (re_size m, m);
     Some (True, rec_lower_head new_head m) }"

text \<open>The partial rollback of the sequence \<open>s\<close> whose state is cell \<open>t\<close>.\<close>

definition rollback :: "llama_seq_id \<Rightarrow> llama_pos \<Rightarrow> int \<Rightarrow> rec_mem \<Rightarrow> (bool \<times> rec_mem) option" where
  "rollback s p0 t m = do {
     c \<leftarrow> mem_at m t;
     if card (mc_seq_id c) > 1 then Some (False, m)
     else if re_no_layers m then Some (True, put_cell (nat t) (c\<lparr>mc_pos := p0 - 1\<rparr>) m)
     else do {
       idx \<leftarrow> vget (re_rs_idx m) (nat s);
       let back = mc_pos c - (p0 - 1);
       if idx = 0 \<and> 1 \<le> back \<and> back \<le> int (mc_rs_max c) then do {
         m \<leftarrow> set_rs_idx s (nat back) m;
         Some (True, put_cell (nat t) (c\<lparr>mc_pos := p0 - 1\<rparr>) m) }
       else Some (False, m) } }"

definition rec_seq_rm :: "llama_seq_id \<Rightarrow> llama_pos \<Rightarrow> llama_pos \<Rightarrow> rec_mem \<Rightarrow> (bool \<times> rec_mem) option" where
  "rec_seq_rm s q0 q1 m = (let p0 = lo_pos q0; p1 = hi_pos q1 in
     if re_n_seq_max m \<le> u32_of s then Some (False, m)
     else do {
       m \<leftarrow> (if p0 = 0 \<and> p1 = INT32_MAX then set_rs_idx s 0 m else Some m);
       if int (re_size m) \<le> s then Some (False, m)
       else if 0 \<le> s then do {
         meta \<leftarrow> mem_at m s;
         if mc_tail meta \<ge> 0 then do {
           c \<leftarrow> mem_at m (mc_tail meta);
           if 0 < p0 \<and> p0 \<le> mc_pos c \<and> mc_pos c < p1 then rollback s p0 (mc_tail meta) m
           else do {
             m \<leftarrow> (if p0 \<le> mc_pos c \<and> mc_pos c < p1 then set_tail s (-1) m else Some m);
             seq_rm_cells s p0 p1 m } }
         else seq_rm_cells s p0 p1 m }
       else if p0 \<noteq> p1 \<and> (p0 \<noteq> 0 \<or> p1 \<noteq> INT32_MAX) then Some (False, m)
       else seq_rm_cells s p0 p1 m })"

text \<open>Sequence \<open>s\<close> leaves the cell it lives in (\<open>seq_cp\<close> for its destination, \<open>find_slot\<close> for shared ids).\<close>

definition leave_cell :: "llama_seq_id \<Rightarrow> rec_mem \<Rightarrow> rec_mem option" where
  "leave_cell s m = do {
     meta \<leftarrow> mem_at m s;
     if mc_tail meta \<ge> 0 then do {
       c \<leftarrow> mem_at m (mc_tail meta);
       let c' = c\<lparr>mc_seq_id := mc_seq_id c - {s}\<rparr>;
       m \<leftarrow> set_tail s (-1) (put_cell (nat (mc_tail meta)) c' m);
       if mc_seq_id c' = {} then do {
         c \<leftarrow> mem_at m (mc_tail meta);
         Some ((put_cell (nat (mc_tail meta)) (vacate c) m)\<lparr>re_used := usub32 (re_used m) 1\<rparr>) }
       else Some m }
     else Some m }"

text \<open>\<open>seq_cp\<close> ignores the position range after normalising it.\<close>

definition rec_seq_cp :: "llama_seq_id \<Rightarrow> llama_seq_id \<Rightarrow> llama_pos \<Rightarrow> llama_pos \<Rightarrow> rec_mem \<Rightarrow> rec_mem option" where
  "rec_seq_cp src dst q0 q1 m =
     (if src = dst then Some m
      else if u32_of dst < re_size m \<and> u32_of src < re_size m then do {
        m \<leftarrow> leave_cell dst m;
        meta \<leftarrow> mem_at m src;
        if mc_tail meta \<ge> 0 then do {
          c \<leftarrow> mem_at m (mc_tail meta);
          set_tail dst (mc_tail meta) (put_cell (nat (mc_tail meta)) (c\<lparr>mc_seq_id := insert dst (mc_seq_id c)\<rparr>) m) }
        else Some m }
      else Some m)"

definition seq_keep_cell :: "llama_seq_id \<Rightarrow> nat \<Rightarrow> nat \<times> rec_mem \<Rightarrow> (nat \<times> rec_mem) option" where
  "seq_keep_cell s i x = (case x of (new_head, m) \<Rightarrow> do {
     c0 \<leftarrow> vget (re_cells m) i;
     let c = (if int i \<noteq> s then c0\<lparr>mc_tail := -1\<rparr> else c0);
     if \<not> has_seq_id c s then
       Some (if new_head = re_size m then i else new_head,
             (put_cell i ((vacate c)\<lparr>mc_seq_id := {}\<rparr>) m)\<lparr>re_used := if mc_pos c \<ge> 0 then usub32 (re_used m) 1 else re_used m\<rparr>)
     else Some (new_head, put_cell i (c\<lparr>mc_seq_id := {s}\<rparr>) m) })"

definition rec_seq_keep :: "llama_seq_id \<Rightarrow> rec_mem \<Rightarrow> rec_mem option" where
  "rec_seq_keep s m = do {
     (new_head, m) \<leftarrow> foldM (seq_keep_cell s) [0..<re_size m] (re_size m, m);
     Some (rec_lower_head new_head m) }"

text \<open>The common shape of \<open>seq_add\<close> and \<open>seq_div\<close>: the position of the sequence's cell, if in range, becomes \<open>f pos\<close>.\<close>

definition map_tail_pos :: "llama_seq_id \<Rightarrow> llama_pos \<Rightarrow> llama_pos \<Rightarrow> (llama_pos \<Rightarrow> llama_pos option) \<Rightarrow> rec_mem \<Rightarrow> rec_mem option" where
  "map_tail_pos s p0 p1 f m =
     (if p0 = p1 then Some m
      else if 0 \<le> s \<and> s < int (re_size m) then do {
        meta \<leftarrow> mem_at m s;
        if mc_tail meta \<ge> 0 then do {
          c \<leftarrow> mem_at m (mc_tail meta);
          if has_seq_id c s \<and> p0 \<le> mc_pos c \<and> mc_pos c < p1 then do {
            p \<leftarrow> f (mc_pos c);
            Some (put_cell (nat (mc_tail meta)) (c\<lparr>mc_pos := p\<rparr>) m) }
          else Some m }
        else Some m }
      else Some m)"

definition rec_seq_add :: "llama_seq_id \<Rightarrow> llama_pos \<Rightarrow> llama_pos \<Rightarrow> llama_pos \<Rightarrow> rec_mem \<Rightarrow> rec_mem option" where
  "rec_seq_add s q0 q1 shift m =
     (if shift = 0 then Some m else map_tail_pos s (lo_pos q0) (hi_pos q1) (\<lambda>p. i32 (p + shift)) m)"

definition rec_seq_div :: "llama_seq_id \<Rightarrow> llama_pos \<Rightarrow> llama_pos \<Rightarrow> int \<Rightarrow> rec_mem \<Rightarrow> rec_mem option" where
  "rec_seq_div s q0 q1 d m =
     (if d = 1 then Some m
      else map_tail_pos s (lo_pos q0) (hi_pos q1) (\<lambda>p. if d = 0 then None else i32 (trunc_div p d)) m)"

section \<open>Queries\<close>

definition rec_seq_pos_min :: "rec_mem \<Rightarrow> llama_seq_id \<Rightarrow> llama_pos option" where
  "rec_seq_pos_min m s = do {
     result \<leftarrow> foldM (\<lambda>i r. do { c \<leftarrow> vget (re_cells m) i; Some (if has_seq_id c s then min r (mc_pos c) else r) })
       [0..<re_size m] INT32_MAX;
     Some (if result = INT32_MAX then -1 else result) }"

definition rec_seq_pos_max :: "rec_mem \<Rightarrow> llama_seq_id \<Rightarrow> llama_pos option" where
  "rec_seq_pos_max m s =
     foldM (\<lambda>i r. do { c \<leftarrow> vget (re_cells m) i; Some (if has_seq_id c s then max r (mc_pos c) else r) })
       [0..<re_size m] (-1)"

end
