(* ===== verification/RecSlot.thy ===== *)
theory RecSlot
  imports RecMem KvInitBatch
begin

text \<open>
  \<open>llama_memory_recurrent::find_slot\<close>, which moves the cells of the sequences of a micro-batch to
  consecutive places and stages where each state is read from, and the entry points built on it:
  \<open>prepare\<close>, \<open>init_batch\<close> and the context that applies the micro-batches one by one.
\<close>

section \<open>Ids that become shared\<close>

definition tok_of :: "llama_ubatch \<Rightarrow> nat \<Rightarrow> nat" where
  "tok_of ub s = s * ub_n_seq_tokens ub"

text \<open>The id \<open>seq_id[i][0]\<close> of the sequence set \<open>s\<close>.\<close>

definition first_id :: "llama_ubatch \<Rightarrow> nat \<Rightarrow> llama_seq_id option" where
  "first_id ub s = do { ids \<leftarrow> vget (ub_seq_id ub) (tok_of ub s); vget ids 0 }"

text \<open>The first component becomes false at an id that is out of range, and the rest is skipped.\<close>

definition unshare_id :: "llama_ubatch \<Rightarrow> nat \<Rightarrow> nat \<Rightarrow> bool \<times> rec_mem \<Rightarrow> (bool \<times> rec_mem) option" where
  "unshare_id ub s j x = (case x of (go, m) \<Rightarrow>
     if \<not> go then Some (go, m)
     else do {
       ids \<leftarrow> vget (ub_seq_id ub) (tok_of ub s);
       sid \<leftarrow> vget ids j;
       if sid < 0 \<or> re_size m \<le> nat sid then Some (False, m)
       else if 0 < j then do { m \<leftarrow> leave_cell sid m; Some (True, m) }
       else Some (True, m) })"

definition unshare :: "llama_ubatch \<Rightarrow> rec_mem \<Rightarrow> (bool \<times> rec_mem) option" where
  "unshare ub m = foldM (\<lambda>s x. do {
       n_id \<leftarrow> vget (ub_n_seq_id ub) (tok_of ub s);
       foldM (unshare_id ub s) [0..<u32_of n_id] x }) [0..<ub_n_seqs ub] (True, m)"

section \<open>A cell for every sequence\<close>

text \<open>\<open>if (next_empty_cell >= size) { next_empty_cell -= size; }\<close>\<close>

definition wrap_cell :: "rec_mem \<Rightarrow> nat \<Rightarrow> nat" where
  "wrap_cell m i = (if re_size m \<le> i then i - re_size m else i)"

text \<open>The first search, \<open>k\<close> turns left.\<close>

fun first_empty :: "rec_mem \<Rightarrow> nat \<Rightarrow> nat \<Rightarrow> nat option" where
  "first_empty m 0 nx = Some nx"
| "first_empty m (Suc k) nx = do {
     c \<leftarrow> vget (re_cells m) (wrap_cell m nx);
     if cell_is_empty c then Some (wrap_cell m nx) else first_empty m k (wrap_cell m nx + 1) }"

text \<open>The later searches start after the cell just taken.\<close>

fun next_empty :: "rec_mem \<Rightarrow> nat \<Rightarrow> nat \<Rightarrow> nat option" where
  "next_empty m 0 nx = Some nx"
| "next_empty m (Suc k) nx = do {
     c \<leftarrow> vget (re_cells m) (wrap_cell m (nx + 1));
     if cell_is_empty c then Some (wrap_cell m (nx + 1)) else next_empty m k (wrap_cell m (nx + 1)) }"

text \<open>\<open>copy old tail into the empty cell\<close>: the sequence \<open>sid\<close> leaves the shared cell \<open>t\<close>.\<close>

definition copy_tail :: "llama_seq_id \<Rightarrow> int \<Rightarrow> nat \<Rightarrow> rec_mem \<Rightarrow> rec_mem option" where
  "copy_tail sid t nx m = do {
     orig \<leftarrow> mem_at m t;
     e \<leftarrow> vget (re_cells m) nx;
     let m = put_cell nx (e\<lparr>mc_pos := mc_pos orig, mc_src := mc_src orig\<rparr>) m;
     orig \<leftarrow> mem_at m t;
     let orig = orig\<lparr>mc_seq_id := mc_seq_id orig - {sid}\<rparr>;
     let m = put_cell (nat t) orig m;
     e \<leftarrow> vget (re_cells m) nx;
     let m = put_cell nx (e\<lparr>mc_seq_id := insert sid (mc_seq_id e)\<rparr>) m;
     orig \<leftarrow> mem_at m t;
     _ \<leftarrow> ensure (\<not> cell_is_empty orig);
     Some m }"

text \<open>The state of the loop: next empty cell, \<open>min\<close>, \<open>max\<close>, memory.\<close>

definition owns_cell :: "rec_mem \<Rightarrow> llama_seq_id \<Rightarrow> int \<Rightarrow> bool option" where
  "owns_cell m sid t =
     (if t \<ge> 0 then do { c \<leftarrow> mem_at m t; _ \<leftarrow> ensure (has_seq_id c sid); Some (card (mc_seq_id c) = 1) }
      else Some False)"

definition take_empty :: "llama_ubatch \<Rightarrow> nat \<Rightarrow> llama_seq_id \<Rightarrow> int \<Rightarrow> nat \<times> rec_mem \<Rightarrow> (nat \<times> rec_mem) option" where
  "take_empty ub s sid t x = (case x of (nx, m) \<Rightarrow> do {
     e \<leftarrow> vget (re_cells m) nx;
     _ \<leftarrow> ensure (cell_is_empty e);
     m \<leftarrow> (if t \<ge> 0 then copy_tail sid t nx m else Some m);
     m \<leftarrow> set_tail sid (int nx) m;
     nx \<leftarrow> (if s + 1 < ub_n_seqs ub then next_empty m (re_size m) nx else Some nx);
     Some (nx, m) })"

definition assign_cell :: "llama_ubatch \<Rightarrow> nat \<Rightarrow> nat \<times> int \<times> int \<times> rec_mem \<Rightarrow> (nat \<times> int \<times> int \<times> rec_mem) option" where
  "assign_cell ub s x = (case x of (nx, mn, mx, m) \<Rightarrow> do {
     sid \<leftarrow> first_id ub s;
     meta \<leftarrow> mem_at m sid;
     own \<leftarrow> owns_cell m sid (mc_tail meta);
     (nx, m) \<leftarrow> (if own then Some (nx, m) else take_empty ub s sid (mc_tail meta) (nx, m));
     meta \<leftarrow> mem_at m sid;
     Some (nx, min mn (mc_tail meta), max mx (mc_tail meta), m) })"

section \<open>Gather and re-order\<close>

definition swap_index :: "int \<Rightarrow> int \<Rightarrow> int \<Rightarrow> int" where
  "swap_index a b t = (if t = b then a else if t = a then b else t)"

definition swap_cells :: "int \<Rightarrow> int \<Rightarrow> rec_mem \<Rightarrow> rec_mem option" where
  "swap_cells dst src m = do {
     d \<leftarrow> mem_at m dst;
     c \<leftarrow> mem_at m src;
     let m = put_cell (nat src) (c\<lparr>mc_pos := mc_pos d, mc_src := mc_src d, mc_seq_id := mc_seq_id d\<rparr>)
               (put_cell (nat dst) (d\<lparr>mc_pos := mc_pos c, mc_src := mc_src c, mc_seq_id := mc_seq_id c\<rparr>) m);
     Some (m\<lparr>re_cells := map (\<lambda>c. c\<lparr>mc_tail := swap_index dst src (mc_tail c)\<rparr>) (re_cells m)\<rparr>) }"

definition gather_cell :: "llama_ubatch \<Rightarrow> int \<Rightarrow> nat \<Rightarrow> rec_mem \<Rightarrow> rec_mem option" where
  "gather_cell ub mn s m = do {
     sid \<leftarrow> first_id ub s;
     meta \<leftarrow> mem_at m sid;
     if int s + mn \<noteq> mc_tail meta then swap_cells (int s + mn) (mc_tail meta) m else Some m }"

section \<open>The new contents\<close>

definition enter_cell :: "int \<Rightarrow> llama_seq_id \<Rightarrow> rec_mem \<Rightarrow> rec_mem option" where
  "enter_cell i sid m = do {
     c \<leftarrow> mem_at m i;
     set_tail sid i (put_cell (nat i) (c\<lparr>mc_seq_id := insert sid (mc_seq_id c)\<rparr>) m) }"

definition fill_cell :: "llama_ubatch \<Rightarrow> int \<Rightarrow> nat \<Rightarrow> rec_mem \<Rightarrow> rec_mem option" where
  "fill_cell ub mn s m = do {
     _ \<leftarrow> ensure (0 < ub_n_seq_tokens ub);
     last_pos \<leftarrow> vget (ub_pos ub) (tok_of ub s + ub_n_seq_tokens ub - 1);
     c \<leftarrow> mem_at m (int s + mn);
     let m = put_cell (nat (int s + mn)) (c\<lparr>mc_pos := last_pos,
               mc_rs_max := if ub_n_seq_tokens ub \<le> re_n_rs_seq m + 1 then ub_n_seq_tokens ub - 1 else 0,
               mc_seq_id := {}\<rparr>) m;
     n_id \<leftarrow> vget (ub_n_seq_id ub) (tok_of ub s);
     ids \<leftarrow> vget (ub_seq_id ub) (tok_of ub s);
     foldM (\<lambda>j m. do { sid \<leftarrow> vget ids j; enter_cell (int s + mn) sid m }) [0..<nat n_id] m }"

text \<open>The first cell of the range that no cell reads from (\<open>refcounts[i] == 0\<close>), -1 when there is none.\<close>

definition zero_cell :: "rec_mem \<Rightarrow> int \<Rightarrow> int \<Rightarrow> int" where
  "zero_cell m mn mx = (case List.find (\<lambda>i. \<forall>c \<in> set (re_cells m). mc_src c \<noteq> i) [mn..mx] of
     Some i \<Rightarrow> i | None \<Rightarrow> -1)"

definition stage_src :: "int \<Rightarrow> rec_mem \<Rightarrow> rec_mem option" where
  "stage_src i m = do {
     c \<leftarrow> mem_at m i;
     src0 \<leftarrow> (if mc_src c < 0 then do { _ \<leftarrow> ensure (re_rs_z m \<ge> 0); Some (re_rs_z m) } else Some (mc_src c));
     Some (put_cell (nat i) (c\<lparr>mc_src0 := src0, mc_src := i\<rparr>) m) }"

definition stage_sources :: "int \<Rightarrow> int \<Rightarrow> rec_mem \<Rightarrow> rec_mem option" where
  "stage_sources mn mx m = do {
     _ \<leftarrow> ensure (\<forall>c \<in> set (re_cells m). mc_src c < int (re_size m));
     foldM stage_src [mn..mx] (m\<lparr>re_rs_z := zero_cell m mn mx\<rparr>) }"

section \<open>\<open>find_slot\<close>\<close>

definition rec_find_slot :: "llama_ubatch \<Rightarrow> rec_mem \<Rightarrow> (bool \<times> rec_mem) option" where
  "rec_find_slot ub m = do {
     let m = (if re_head m > re_used m + 2 * ub_n_seqs ub then m\<lparr>re_head := 0\<rparr> else m);
     _ \<leftarrow> ensure (equal_seqs ub);
     (go, m) \<leftarrow> unshare ub m;
     if \<not> go then Some (False, m)
     else do {
       nx \<leftarrow> first_empty m (re_size m) (re_head m);
       (nx, mn, mx, m) \<leftarrow> foldM (assign_cell ub) [0..<ub_n_seqs ub] (nx, int (re_size m) - 1, 0, m);
       m \<leftarrow> foldM (gather_cell ub mn) [0..<ub_n_seqs ub] m;
       m \<leftarrow> foldM (fill_cell ub mn) [0..<ub_n_seqs ub] m;
       m \<leftarrow> stage_sources mn mx m;
       let n = u32_of (mx - mn + 1);
       let m = m\<lparr>re_head := u32_of mn, re_n := n,
                 re_used := length (filter (\<lambda>c. \<not> cell_is_empty c) (re_cells m))\<rparr>;
       Some (ub_n_seqs ub \<le> n, m) } }"

section \<open>\<open>prepare\<close>, \<open>init_batch\<close> and the context\<close>

fun place_all :: "llama_ubatch list \<Rightarrow> rec_mem \<Rightarrow> (bool \<times> rec_mem) option" where
  "place_all [] m = Some (True, m)"
| "place_all (ub # ubs) m = do {
     (good, m) \<leftarrow> rec_find_slot ub m;
     if \<not> good then Some (False, m) else place_all ubs m }"

text \<open>Cells, \<open>used\<close> and \<open>head\<close> are put back; \<open>n\<close> and \<open>rs_z\<close> are not.\<close>

definition rec_prepare :: "llama_ubatch list \<Rightarrow> rec_mem \<Rightarrow> (bool \<times> rec_mem) option" where
  "rec_prepare ubs m = do {
     (good, m') \<leftarrow> place_all ubs m;
     Some (good, m'\<lparr>re_cells := re_cells m, re_used := re_used m, re_head := re_head m\<rparr>) }"

text \<open>The first component is \<open>None\<close> for \<open>LLAMA_MEMORY_STATUS_FAILED_PREPARE\<close>.\<close>

definition rec_init_batch :: "nat \<Rightarrow> bool \<Rightarrow> batch_allocr \<Rightarrow> rec_mem \<Rightarrow>
    (llama_ubatch list option \<times> batch_allocr \<times> rec_mem) option" where
  "rec_init_batch n_ubatch embd_all a m = do {
     (ubs, a) \<leftarrow> split_run (\<lambda>a. if embd_all then split_seq n_ubatch a
         else split_equal n_ubatch True (if re_n_rs_seq m > 0 then re_n_rs_seq m + 1 else 0) a) (split_reset a);
     if ba_n_used a < get_n_tokens a then Some (None, a, m)
     else do {
       (good, m) \<leftarrow> rec_prepare ubs m;
       Some (if good then Some ubs else None, a, m) } }"

record rec_context =
  rc_ubatches :: "llama_ubatch list"
  rc_i_next :: nat
  rc_is_full :: bool

definition rec_context_new :: "llama_ubatch list \<Rightarrow> rec_context" where
  "rec_context_new ubs = \<lparr>rc_ubatches = ubs, rc_i_next = 0, rc_is_full = False\<rparr>"

definition rec_ctx_next :: "rec_context \<Rightarrow> bool \<times> rec_context" where
  "rec_ctx_next x = (let x = x\<lparr>rc_i_next := rc_i_next x + 1\<rparr> in (rc_i_next x < length (rc_ubatches x), x))"

text \<open>The result of \<open>find_slot\<close> is not looked at.\<close>

definition rec_ctx_apply :: "rec_context \<Rightarrow> rec_mem \<Rightarrow> (bool \<times> rec_mem) option" where
  "rec_ctx_apply x m =
     (if rc_ubatches x = [] then Some (True, m)
      else do {
        ub \<leftarrow> vget (rc_ubatches x) (rc_i_next x);
        (_, m) \<leftarrow> rec_find_slot ub m;
        Some (True, m) })"

definition get_n_rs :: "rec_context \<Rightarrow> rec_mem \<Rightarrow> nat" where
  "get_n_rs x m = (if rc_is_full x then re_size m else re_n m)"

definition get_rs_head :: "rec_context \<Rightarrow> rec_mem \<Rightarrow> nat" where
  "get_rs_head x m = (if rc_is_full x then 0 else re_head m)"

definition get_rs_z :: "rec_context \<Rightarrow> rec_mem \<Rightarrow> int" where
  "get_rs_z x m = (if rc_is_full x then 0 else re_rs_z m)"

text \<open>The row the \<open>i\<close>-th state is read from; a pending rollback of the cell's first sequence is used up.\<close>

definition s_copy :: "nat \<Rightarrow> rec_mem \<Rightarrow> (int \<times> rec_mem) option" where
  "s_copy i m = do {
     c \<leftarrow> vget (re_cells m) (i + re_head m);
     if re_n_rs_seq m = 0 then Some (mc_src0 c, m)
     else if mc_seq_id c \<noteq> {} \<and> 0 \<le> Min (mc_seq_id c) \<and> nat (Min (mc_seq_id c)) < length (re_rs_idx m) then
       Some (int (re_rs_idx m ! nat (Min (mc_seq_id c)) * re_size m) + mc_src0 c,
             m\<lparr>re_rs_idx := (re_rs_idx m)[nat (Min (mc_seq_id c)) := 0]\<rparr>)
     else Some (mc_src0 c, m) }"

end
