(* ===== verification/RecFacts.thy ===== *)
theory RecFacts
  imports RecSlot
begin

text \<open>
  The invariant of the recurrent memory and the proofs that the sequence operations keep it: the tails
  and the sequence sets of the cells are two views of one relation, \<open>used\<close> counts the cells in use.
\<close>

named_theorems rec_fields \<open>how the updates of the recurrent memory act on its fields\<close>

section \<open>Cells by index\<close>

definition row :: "rec_mem \<Rightarrow> int \<Rightarrow> mem_cell" where
  "row m i = re_cells m ! nat i"

abbreviation rows :: "rec_mem \<Rightarrow> int set" where
  "rows m \<equiv> {0..<int (re_size m)}"

definition sized :: "rec_mem \<Rightarrow> bool" where
  "sized m = (length (re_cells m) = re_size m)"

lemma mem_at_row [simp]: "sized m \<Longrightarrow> i \<in> rows m \<Longrightarrow> mem_at m i = Some (row m i)"
  by (auto simp: mem_at_def row_def sized_def vget_def)

lemma wp_mem_at [simp]: "sized m \<Longrightarrow> i \<in> rows m \<Longrightarrow> wp (mem_at m i) Q = Q (row m i)"
  by simp

lemma put_cell_fields [rec_fields, simp]:
  "re_size (put_cell k c m) = re_size m" "re_head (put_cell k c m) = re_head m" "re_used (put_cell k c m) = re_used m"
  "re_n_rs_seq (put_cell k c m) = re_n_rs_seq m" "re_rs_idx (put_cell k c m) = re_rs_idx m" "re_n (put_cell k c m) = re_n m"
  "re_rs_z (put_cell k c m) = re_rs_z m" "re_n_seq_max (put_cell k c m) = re_n_seq_max m" "re_no_layers (put_cell k c m) = re_no_layers m"
  "sized (put_cell k c m) = sized m"
  by (simp_all add: put_cell_def sized_def)

lemma row_put_cell: "sized m \<Longrightarrow> i \<in> rows m \<Longrightarrow> j \<in> rows m \<Longrightarrow> row (put_cell (nat i) c m) j = (if j = i then c else row m j)"
  by (auto simp: row_def put_cell_def sized_def nth_list_update)

lemma row_update [simp]:
  "row (m\<lparr>re_used := u\<rparr>) = row m" "row (m\<lparr>re_head := h\<rparr>) = row m" "row (m\<lparr>re_rs_idx := r\<rparr>) = row m"
  "row (m\<lparr>re_n := k\<rparr>) = row m" "row (m\<lparr>re_rs_z := z\<rparr>) = row m"
  "sized (m\<lparr>re_used := u\<rparr>) = sized m" "sized (m\<lparr>re_head := h\<rparr>) = sized m" "sized (m\<lparr>re_rs_idx := r\<rparr>) = sized m"
  "sized (m\<lparr>re_n := k\<rparr>) = sized m" "sized (m\<lparr>re_rs_z := z\<rparr>) = sized m"
  by (simp_all add: row_def sized_def fun_eq_iff)

section \<open>The invariant\<close>

definition n_used_cells :: "rec_mem \<Rightarrow> nat" where
  "n_used_cells m = card {i \<in> rows m. mc_seq_id (row m i) \<noteq> {}}"

text \<open>Tails and sequence sets agree, outside the sequences \<open>D\<close> that have a cell but are not yet entered there.\<close>

definition linked :: "llama_seq_id set \<Rightarrow> rec_mem \<Rightarrow> bool" where
  "linked D m = ((\<forall>s \<in> rows m. mc_tail (row m s) = -1 \<or> mc_tail (row m s) \<in> rows m) \<and>
     (\<forall>i \<in> rows m. mc_seq_id (row m i) = {s \<in> rows m - D. mc_tail (row m s) = i}))"

definition contents_ok :: "rec_mem \<Rightarrow> int \<Rightarrow> bool" where
  "contents_ok m i = (mc_rs_max (row m i) \<le> re_n_rs_seq m \<and>
     (if mc_seq_id (row m i) = {} then mc_pos (row m i) = -1 \<and> (mc_src (row m i) = -1 \<or> mc_src (row m i) = i)
      else 0 \<le> mc_pos (row m i) \<and> mc_pos (row m i) < INT32_MAX \<and> mc_src (row m i) = i))"

definition frame_ok :: "rec_mem \<Rightarrow> bool" where
  "frame_ok m = (sized m \<and> re_size m < 2 ^ 31 \<and> re_n_seq_max m < 2 ^ 31 \<and> re_head m \<le> re_size m \<and>
     length (re_rs_idx m) = re_n_seq_max m \<and> (\<forall>r \<in> set (re_rs_idx m). r \<le> re_n_rs_seq m))"

definition rec_inv :: "rec_mem \<Rightarrow> bool" where
  "rec_inv m = (frame_ok m \<and> linked {} m \<and> (\<forall>i \<in> rows m. contents_ok m i) \<and> re_used m = n_used_cells m)"

lemma rec_invD:
  assumes "rec_inv m"
  shows "sized m" "re_size m < 2 ^ 31" "re_n_seq_max m < 2 ^ 31" "re_head m \<le> re_size m"
    "length (re_rs_idx m) = re_n_seq_max m" "linked {} m" "\<And>i. i \<in> rows m \<Longrightarrow> contents_ok m i" "re_used m = n_used_cells m"
  using assms by (auto simp: rec_inv_def frame_ok_def)

lemma linkedD:
  assumes "linked {} m"
  shows "s \<in> rows m \<Longrightarrow> mc_tail (row m s) \<noteq> -1 \<Longrightarrow> mc_tail (row m s) \<in> rows m"
    "i \<in> rows m \<Longrightarrow> s \<in> mc_seq_id (row m i) \<longleftrightarrow> s \<in> rows m \<and> mc_tail (row m s) = i"
    "s \<in> rows m \<Longrightarrow> 0 \<le> mc_tail (row m s) \<longleftrightarrow> mc_tail (row m s) \<noteq> -1"
  using assms by (auto simp: linked_def)

lemma linked_cong:
  assumes "linked D m" "re_size m' = re_size m"
    "\<And>i. i \<in> rows m \<Longrightarrow> mc_tail (row m' i) = mc_tail (row m i) \<and> mc_seq_id (row m' i) = mc_seq_id (row m i)"
  shows "linked D m'"
proof -
  have "{s \<in> rows m - D. mc_tail (row m' s) = i} = {s \<in> rows m - D. mc_tail (row m s) = i}" for i
    using assms(3) by auto
  then show ?thesis using assms unfolding linked_def assms(2) by simp
qed

lemma finite_seqs: "linked D m \<Longrightarrow> i \<in> rows m \<Longrightarrow> finite (mc_seq_id (row m i))"
  by (auto simp: linked_def intro: finite_subset [of _ "rows m"])

lemma contents_used:
  assumes "contents_ok m i" "mc_seq_id (row m i) \<noteq> {}"
  shows "0 \<le> mc_pos (row m i)" "mc_pos (row m i) < INT32_MAX" "mc_src (row m i) = i"
  using assms by (auto simp: contents_ok_def)

lemma contents_empty:
  assumes "contents_ok m i" "mc_seq_id (row m i) = {}"
  shows "mc_pos (row m i) = -1" "mc_src (row m i) = -1 \<or> mc_src (row m i) = i"
  using assms by (auto simp: contents_ok_def)

lemma all_empty_inv:
  assumes "frame_ok m" "re_used m = 0"
    "\<And>i. i \<in> rows m \<Longrightarrow> mc_tail (row m i) = -1 \<and> mc_seq_id (row m i) = {} \<and> mc_pos (row m i) = -1 \<and>
       mc_src (row m i) = -1 \<and> mc_rs_max (row m i) = 0"
  shows "rec_inv m"
proof -
  have "{i \<in> rows m. mc_seq_id (row m i) \<noteq> {}} = {}" using assms(3) by blast
  then have none: "n_used_cells m = 0" by (simp only: n_used_cells_def card.empty)
  have "linked {} m" using assms(3) by (auto simp: linked_def)
  moreover have "contents_ok m i" if "i \<in> rows m" for i using assms(3) [OF that] by (simp add: contents_ok_def)
  ultimately show ?thesis using assms(1,2) none by (simp add: rec_inv_def)
qed

lemma rec_new_inv:
  assumes "sz < 2 ^ 31" "nq < 2 ^ 31"
  shows "rec_inv (rec_new sz nq nrs nl)"
proof (rule all_empty_inv)
  show "frame_ok (rec_new sz nq nrs nl)" using assms by (simp add: frame_ok_def sized_def rec_new_def)
  fix i assume "i \<in> rows (rec_new sz nq nrs nl)"
  then have "row (rec_new sz nq nrs nl) i = mem_cell_new" by (simp add: row_def rec_new_def nat_less_iff)
  then show "mc_tail (row (rec_new sz nq nrs nl) i) = -1 \<and> mc_seq_id (row (rec_new sz nq nrs nl) i) = {} \<and>
    mc_pos (row (rec_new sz nq nrs nl) i) = -1 \<and> mc_src (row (rec_new sz nq nrs nl) i) = -1 \<and>
    mc_rs_max (row (rec_new sz nq nrs nl) i) = 0" by (simp add: mem_cell_new_def)
qed (simp add: rec_new_def)

lemma rec_clear_inv:
  assumes "rec_inv m"
  shows "rec_inv (rec_clear m)"
proof (rule all_empty_inv)
  have f: "frame_ok m" using assms by (simp add: rec_inv_def)
  then show "frame_ok (rec_clear m)" by (auto simp: frame_ok_def sized_def rec_clear_def)
  fix i assume "i \<in> rows (rec_clear m)"
  then show "mc_tail (row (rec_clear m) i) = -1 \<and> mc_seq_id (row (rec_clear m) i) = {} \<and> mc_pos (row (rec_clear m) i) = -1 \<and>
    mc_src (row (rec_clear m) i) = -1 \<and> mc_rs_max (row (rec_clear m) i) = 0"
    using f by (simp add: row_def rec_clear_def frame_ok_def sized_def nat_less_iff)
qed (simp add: rec_clear_def)

section \<open>Sequences and their positions\<close>

text \<open>The positions the memory holds for a sequence: that of its cell, if it has one.\<close>

definition rec_posns :: "rec_mem \<Rightarrow> llama_seq_id \<Rightarrow> llama_pos set" where
  "rec_posns m s = (if mc_tail (row m s) = -1 then {} else {mc_pos (row m (mc_tail (row m s)))})"

definition rec_knows :: "rec_mem \<Rightarrow> llama_seq_id \<Rightarrow> bool" where
  "rec_knows m s = (s \<in> rows m \<and> nat s < re_n_seq_max m)"

lemma u32_of_small [simp]: "0 \<le> s \<Longrightarrow> s < 2 ^ 31 \<Longrightarrow> u32_of s = nat s"
  by (simp add: u32_of_def)

lemma tail_nonempty:
  assumes "linked {} m" "s \<in> rows m" "mc_tail (row m s) \<noteq> -1"
  shows "s \<in> mc_seq_id (row m (mc_tail (row m s)))"
  using assms by (auto simp: linked_def)

lemma pos_fold_at:
  assumes "sized m" "linked {} m" "s \<in> rows m"
  shows "foldM (\<lambda>i r. do { c \<leftarrow> vget (re_cells m) i; Some (if has_seq_id c s then f r (mc_pos c) else r) }) [0..<re_size m] r0 =
    Some (if mc_tail (row m s) = -1 then r0 else f r0 (mc_pos (row m (mc_tail (row m s)))))"
proof -
  let ?g = "\<lambda>i r. do { c \<leftarrow> vget (re_cells m) i; Some (if has_seq_id c s then f r (mc_pos c) else r) }"
  let ?t = "mc_tail (row m s)"
  have "wp (foldM ?g [0..<re_size m] r0) (\<lambda>r. r = (if ?t = -1 then r0 else f r0 (mc_pos (row m ?t))))"
  proof (rule wp_for [where I = "\<lambda>k r. r = (if ?t = -1 \<or> int k \<le> ?t then r0 else f r0 (mc_pos (row m ?t)))"])
    show "r0 = (if ?t = -1 \<or> int 0 \<le> ?t then r0 else f r0 (mc_pos (row m ?t)))"
      using linkedD(1) [OF assms(2,3)] by auto
  next
    fix k r assume k: "k < re_size m" "r = (if ?t = -1 \<or> int k \<le> ?t then r0 else f r0 (mc_pos (row m ?t)))"
    have "has_seq_id (re_cells m ! k) s \<longleftrightarrow> ?t = int k"
      using linkedD(2) [OF assms(2), of "int k" s] k(1) assms(3) by (simp add: has_seq_id_def row_def)
    moreover have "re_cells m ! k = row m (int k)" by (simp add: row_def)
    ultimately show "wp (?g k r) (\<lambda>r. r = (if ?t = -1 \<or> int (Suc k) \<le> ?t then r0 else f r0 (mc_pos (row m ?t))))"
      using k assms(1) by (auto simp: wp_simps sized_def)
  next
    fix r assume "r = (if ?t = -1 \<or> int (re_size m) \<le> ?t then r0 else f r0 (mc_pos (row m ?t)))"
    then show "r = (if ?t = -1 then r0 else f r0 (mc_pos (row m ?t)))" using linkedD(1) [OF assms(2,3)] by auto
  qed
  then show ?thesis by (simp add: wp_def)
qed

lemma rec_pos_bounds:
  assumes "rec_inv m" "s \<in> rows m" "p \<in> rec_posns m s"
  shows "0 \<le> p \<and> p < INT32_MAX"
proof -
  let ?t = "mc_tail (row m s)"
  have t: "?t \<noteq> -1" "p = mc_pos (row m ?t)" using assms(3) by (auto simp: rec_posns_def split: if_splits)
  have l: "linked {} m" using rec_invD(6) [OF assms(1)] .
  have "?t \<in> rows m" "s \<in> mc_seq_id (row m ?t)" using linkedD(1) [OF l assms(2) t(1)] tail_nonempty [OF l assms(2) t(1)] .
  then show ?thesis using contents_used [OF rec_invD(7) [OF assms(1), of ?t]] t(2) by auto
qed

lemma rec_pos_max_at:
  assumes "rec_inv m" "s \<in> rows m"
  shows "rec_seq_pos_max m s = Some (max_or_none (rec_posns m s))"
  using pos_fold_at [OF rec_invD(1,6) [OF assms(1)] assms(2), of max "-1"] rec_pos_bounds [OF assms]
  by (auto simp: rec_seq_pos_max_def rec_posns_def max_or_none_def)

lemma rec_pos_min_at:
  assumes "rec_inv m" "s \<in> rows m"
  shows "rec_seq_pos_min m s = Some (min_or_none (rec_posns m s))"
  using pos_fold_at [OF rec_invD(1,6) [OF assms(1)] assms(2), of min INT32_MAX] rec_pos_bounds [OF assms]
  by (auto simp: rec_seq_pos_min_def rec_posns_def min_or_none_def)

section \<open>Leaving and joining a cell\<close>

lemma set_tail_at:
  assumes "sized m" "s \<in> rows m"
  shows "set_tail s t m = Some (put_cell (nat s) (row m s\<lparr>mc_tail := t\<rparr>) m)"
  using assms by (simp add: set_tail_def)

text \<open>What an operation on the cells keeps besides them.\<close>

definition same_frame :: "rec_mem \<Rightarrow> rec_mem \<Rightarrow> bool" where
  "same_frame m m' = (re_size m' = re_size m \<and> re_n_seq_max m' = re_n_seq_max m \<and> re_n_rs_seq m' = re_n_rs_seq m \<and>
     re_rs_idx m' = re_rs_idx m \<and> re_head m' = re_head m \<and> re_no_layers m' = re_no_layers m \<and> sized m' = sized m)"

lemma same_frameD:
  assumes "same_frame m m'"
  shows "re_size m' = re_size m" "re_n_seq_max m' = re_n_seq_max m" "re_n_rs_seq m' = re_n_rs_seq m"
    "re_rs_idx m' = re_rs_idx m" "re_head m' = re_head m" "re_no_layers m' = re_no_layers m" "sized m' = sized m"
  using assms by (simp_all add: same_frame_def)

lemma same_frame_refl [simp]: "same_frame m m"
  by (simp add: same_frame_def)

lemma same_frame_trans: "same_frame m m' \<Longrightarrow> same_frame m' m'' \<Longrightarrow> same_frame m m''"
  by (simp add: same_frame_def)

lemma same_frame_put [simp]: "same_frame m (put_cell k c m') = same_frame m m'"
  by (simp add: same_frame_def)

lemma same_frame_used [simp]: "same_frame m (m'\<lparr>re_used := u\<rparr>) = same_frame m m'"
  by (simp add: same_frame_def)

lemma frame_ok_same: "frame_ok m \<Longrightarrow> same_frame m m' \<Longrightarrow> frame_ok m'"
  by (simp add: frame_ok_def same_frame_def)

text \<open>The memory after \<open>s\<close> has left its cell.\<close>

definition left_cell :: "llama_seq_id \<Rightarrow> rec_mem \<Rightarrow> rec_mem \<Rightarrow> bool" where
  "left_cell s m m' = (same_frame m m' \<and>
     (\<forall>t \<in> rows m. mc_tail (row m' t) = (if t = s then -1 else mc_tail (row m t))) \<and>
     (\<forall>i \<in> rows m. mc_seq_id (row m' i) = mc_seq_id (row m i) - {s} \<and> mc_rs_max (row m' i) = mc_rs_max (row m i) \<and>
        mc_src0 (row m' i) = mc_src0 (row m i) \<and>
        (if mc_seq_id (row m' i) = {} \<and> mc_seq_id (row m i) \<noteq> {} then mc_pos (row m' i) = -1 \<and> mc_src (row m' i) = -1
         else mc_pos (row m' i) = mc_pos (row m i) \<and> mc_src (row m' i) = mc_src (row m i))) \<and>
     re_used m' = n_used_cells m')"

lemma finite_rows_where [simp]: "finite {i. 0 \<le> i \<and> i < int n \<and> P i}"
  by (rule finite_subset [of _ "{0..<int n}"]) auto

lemma used_drop:
  assumes "t \<in> rows m" "re_size m' = re_size m" "mc_seq_id (row m t) \<noteq> {}" "mc_seq_id (row m' t) = {}"
    "\<And>i. i \<in> rows m \<Longrightarrow> i \<noteq> t \<Longrightarrow> (mc_seq_id (row m' i) = {}) = (mc_seq_id (row m i) = {})"
  shows "n_used_cells m' = n_used_cells m - 1"
proof -
  have "{i \<in> rows m'. mc_seq_id (row m' i) \<noteq> {}} = {i \<in> rows m. mc_seq_id (row m i) \<noteq> {}} - {t}"
    using assms by auto
  then show ?thesis using assms(1,3) by (simp add: n_used_cells_def)
qed

lemma used_same:
  assumes "re_size m' = re_size m" "\<And>i. i \<in> rows m \<Longrightarrow> (mc_seq_id (row m' i) = {}) = (mc_seq_id (row m i) = {})"
  shows "n_used_cells m' = n_used_cells m"
  unfolding n_used_cells_def using assms by (metis (mono_tags, lifting))

lemma n_used_le: "n_used_cells m \<le> re_size m"
proof -
  have "n_used_cells m \<le> card (rows m)" unfolding n_used_cells_def by (rule card_mono) auto
  then show ?thesis by simp
qed

lemma rec_inv_left:
  assumes "rec_inv m" "left_cell s m m'" "s \<in> rows m"
  shows "rec_inv m'" "\<forall>t \<in> rows m. rec_posns m' t = (if t = s then {} else rec_posns m t)"
proof -
  have l: "linked {} m" using rec_invD(6) [OF assms(1)] .
  have sf: "same_frame m m'" using assms(2) by (simp add: left_cell_def)
  note e = same_frameD(1-3) [OF sf]
  have tl: "mc_tail (row m' t) = (if t = s then -1 else mc_tail (row m t))" if "t \<in> rows m" for t
    using assms(2) that by (simp add: left_cell_def)
  have c: "mc_seq_id (row m' i) = mc_seq_id (row m i) - {s}" "mc_rs_max (row m' i) = mc_rs_max (row m i)"
    "if mc_seq_id (row m' i) = {} \<and> mc_seq_id (row m i) \<noteq> {} then mc_pos (row m' i) = -1 \<and> mc_src (row m' i) = -1
         else mc_pos (row m' i) = mc_pos (row m i) \<and> mc_src (row m' i) = mc_src (row m i)" if "i \<in> rows m" for i
    using assms(2) that unfolding left_cell_def by blast+
  have l': "linked {} m'"
    using l tl c(1) by (auto simp: linked_def e)
  have "contents_ok m' i" if "i \<in> rows m" for i
    using rec_invD(7) [OF assms(1) that] c [OF that] e by (auto simp: contents_ok_def split: if_splits)
  then show "rec_inv m'"
    using assms l' frame_ok_same [OF _ sf] by (simp add: rec_inv_def left_cell_def e)
  show "\<forall>t \<in> rows m. rec_posns m' t = (if t = s then {} else rec_posns m t)"
  proof
    fix t assume t: "t \<in> rows m"
    show "rec_posns m' t = (if t = s then {} else rec_posns m t)"
    proof (cases "t = s \<or> mc_tail (row m t) = -1")
      case False
      then have "t \<in> mc_seq_id (row m (mc_tail (row m t)))" "mc_tail (row m t) \<in> rows m"
        using tail_nonempty [OF l t] linkedD(1) [OF l t] by auto
      then show ?thesis using False tl [OF t] c [of "mc_tail (row m t)"] by (auto simp: rec_posns_def split: if_splits)
    qed (use tl [OF t] in \<open>auto simp: rec_posns_def\<close>)
  qed
qed

lemma leave_cell_wp:
  assumes "rec_inv m" "s \<in> rows m"
  shows "wp (leave_cell s m) (left_cell s m)"
proof (cases "mc_tail (row m s) = -1")
  case True
  then have "\<forall>i \<in> rows m. s \<notin> mc_seq_id (row m i)" using linkedD(2) [OF rec_invD(6) [OF assms(1)]] by auto
  then show ?thesis using True assms rec_invD(1,8) [OF assms(1)] by (simp add: leave_cell_def left_cell_def wp_simps)
next
  case False
  let ?t = "mc_tail (row m s)"
  have l: "linked {} m" and sz: "sized m" using rec_invD(6,1) [OF assms(1)] .
  have t: "?t \<in> rows m" "s \<in> mc_seq_id (row m ?t)"
    using linkedD(1) [OF l assms(2) False] tail_nonempty [OF l assms(2) False] .
  define c where "c = (row m ?t)\<lparr>mc_seq_id := mc_seq_id (row m ?t) - {s}\<rparr>"
  define m1 where "m1 = put_cell (nat ?t) c m"
  define m2 where "m2 = put_cell (nat s) (row m1 s\<lparr>mc_tail := -1\<rparr>) m1"
  have only: "s \<notin> mc_seq_id (row m i)" if "i \<in> rows m" "i \<noteq> ?t" for i
    using linkedD(2) [OF l that(1), of s] that by simp
  have sf2: "same_frame m m2" "same_frame m m1" by (simp_all add: m1_def m2_def)
  have sz1: "sized m1" "s \<in> rows m1" "?t \<in> rows m1" "sized m2" "?t \<in> rows m2" "re_size m1 = re_size m" "re_size m2 = re_size m" "re_used m2 = re_used m"
    using sz t(1) assms(2) by (simp_all add: m1_def m2_def)
  have r1: "row m1 i = (if i = ?t then c else row m i)" if "i \<in> rows m" for i
    unfolding m1_def by (rule row_put_cell [OF sz t(1) that])
  have r2: "row m2 i = (if i = s then row m1 s\<lparr>mc_tail := -1\<rparr> else row m1 i)" if "i \<in> rows m" for i
    unfolding m2_def by (rule row_put_cell) (use sz1 that in auto)
  have st: "set_tail s (-1) m1 = Some m2" using set_tail_at [OF sz1(1,2)] by (simp add: m2_def)
  have f2: "mc_tail (row m2 i) = (if i = s then -1 else mc_tail (row m i))" "mc_seq_id (row m2 i) = mc_seq_id (row m i) - {s}"
    "mc_rs_max (row m2 i) = mc_rs_max (row m i)" "mc_src0 (row m2 i) = mc_src0 (row m i)"
    "mc_pos (row m2 i) = mc_pos (row m i)" "mc_src (row m2 i) = mc_src (row m i)" if "i \<in> rows m" for i
    using r1 [OF that] r1 [OF assms(2)] r2 [OF that] only [OF that] by (auto simp: c_def)
  have run: "leave_cell s m = (if mc_seq_id c = {} then do {
      c \<leftarrow> mem_at m2 ?t; Some ((put_cell (nat ?t) (vacate c) m2)\<lparr>re_used := usub32 (re_used m2) 1\<rparr>) } else Some m2)"
    using t(1) sz assms(2) st sz1(8) by (simp add: leave_cell_def Let_def c_def m1_def)
  show ?thesis
  proof (cases "mc_seq_id c = {}")
    case True
    define m3 where "m3 = put_cell (nat ?t) (vacate (row m2 ?t)) m2"
    define m4 where "m4 = m3\<lparr>re_used := usub32 (re_used m2) 1\<rparr>"
    have r3: "row m4 i = (if i = ?t then vacate (row m2 ?t) else row m2 i)" if "i \<in> rows m" for i
      unfolding m4_def m3_def row_update by (rule row_put_cell) (use sz1 that in auto)
    have sf: "same_frame m m4" "re_used m4 = usub32 (re_used m2) 1" "re_size m4 = re_size m" using sf2 sz1 by (simp_all add: m3_def m4_def)
    have f4: "mc_tail (row m4 i) = (if i = s then -1 else mc_tail (row m i))" "mc_seq_id (row m4 i) = mc_seq_id (row m i) - {s}"
      "mc_rs_max (row m4 i) = mc_rs_max (row m i)" "mc_src0 (row m4 i) = mc_src0 (row m i)"
      "mc_pos (row m4 i) = (if i = ?t then -1 else mc_pos (row m i))" "mc_src (row m4 i) = (if i = ?t then -1 else mc_src (row m i))" if "i \<in> rows m" for i
      unfolding r3 [OF that] by (simp_all add: vacate_def f2 [OF that] f2 [OF t(1)] f2(1) [OF assms(2)])
    have e: "mc_seq_id (row m4 ?t) = {}" using f4(2) [OF t(1)] True by (simp add: c_def)
    have u: "n_used_cells m4 = n_used_cells m - 1"
      by (rule used_drop [OF t(1) sf(3) _ e]) (use t(2) f4(2) only in auto)
    have "0 < n_used_cells m" unfolding n_used_cells_def card_gt_0_iff using t by auto
    then have u4: "re_used m4 = n_used_cells m4"
      using u rec_invD(2,8) [OF assms(1)] n_used_le [of m] sf(2) sz1(8) by simp
    have v4: "if mc_seq_id (row m4 i) = {} \<and> mc_seq_id (row m i) \<noteq> {} then mc_pos (row m4 i) = -1 \<and> mc_src (row m4 i) = -1
      else mc_pos (row m4 i) = mc_pos (row m i) \<and> mc_src (row m4 i) = mc_src (row m i)" if i: "i \<in> rows m" for i
    proof (cases "i = ?t")
      case True
      then have "mc_seq_id (row m4 i) = {}" "mc_seq_id (row m i) \<noteq> {}" "mc_pos (row m4 i) = -1" "mc_src (row m4 i) = -1"
        using e t(2) f4(5,6) [OF i] by auto
      then show ?thesis by simp
    next
      case False
      then have "mc_seq_id (row m4 i) = mc_seq_id (row m i)" using f4(2) [OF i] only [OF i] by blast
      then show ?thesis using False f4(5,6) [OF i] by simp
    qed
    have "left_cell s m m4"
      unfolding left_cell_def using sf(1) u4 f4(1-4) v4 by blast
    moreover have "leave_cell s m = Some m4" using run True sz1 by (simp add: m3_def m4_def)
    ultimately show ?thesis by (simp add: wp_def)
  next
    case False
    then have ne: "mc_seq_id (row m ?t) - {s} \<noteq> {}" by (simp add: c_def)
    have "n_used_cells m2 = n_used_cells m"
    proof (rule used_same [OF sz1(7)])
      fix i assume "i \<in> rows m"
      then show "(mc_seq_id (row m2 i) = {}) = (mc_seq_id (row m i) = {})" using ne f2(2) [of i] only [of i] by (cases "i = ?t") auto
    qed
    then have u: "re_used m2 = n_used_cells m2" using rec_invD(8) [OF assms(1)] sz1(8) by simp
    have "left_cell s m m2"
    proof -
      have "mc_seq_id (row m2 i) = {} \<longleftrightarrow> mc_seq_id (row m i) = {}" if "i \<in> rows m" for i
        using ne f2(2) [OF that] only [OF that] by (cases "i = ?t") auto
      then show ?thesis unfolding left_cell_def using sf2(1) u f2 by simp
    qed
    moreover have "leave_cell s m = Some m2" using run False by simp
    ultimately show ?thesis by (simp add: wp_def)
  qed
qed

end
