(* ===== verification/RecSeq.thy ===== *)
theory RecSeq
  imports RecFacts
begin

text \<open>
  The sequence operations of the recurrent memory keep its invariant and return; what each does to
  the positions of the sequences.
\<close>

lemma head_update_inv: "rec_inv m \<Longrightarrow> h \<le> re_size m \<Longrightarrow> rec_inv (m\<lparr>re_head := h\<rparr>)"
  by (simp add: rec_inv_def frame_ok_def linked_def contents_ok_def n_used_cells_def)

lemma rec_posns_head [simp]: "rec_posns (m\<lparr>re_head := h\<rparr>) = rec_posns m"
  by (simp add: rec_posns_def fun_eq_iff)

lemma lower_head_inv:
  assumes "rec_inv m"
  shows "rec_inv (rec_lower_head h m)" "rec_posns (rec_lower_head h m) = rec_posns m"
    "row (rec_lower_head h m) = row m" "re_size (rec_lower_head h m) = re_size m"
    "re_n_seq_max (rec_lower_head h m) = re_n_seq_max m"
  using assms head_update_inv [OF assms, of h] rec_invD(4) [OF assms] by (auto simp: rec_lower_head_def)

lemma u32_of_range:
  assumes "in_i32 s" "n < 2 ^ 31"
  shows "u32_of s < n \<longleftrightarrow> s \<in> {0..<int n}"
proof (cases "0 \<le> s")
  case True
  then show ?thesis using assms by (auto simp: u32_of_def in_i32_def nat_less_iff)
next
  case False
  have "(s + 2 ^ 32) mod 2 ^ 32 = s + 2 ^ 32" by (rule mod_pos_pos_trivial) (use False assms(1) in \<open>auto simp: in_i32_def\<close>)
  then have "s mod 2 ^ 32 = s + 2 ^ 32" by (simp only: mod_add_self2)
  then show ?thesis using False assms by (auto simp: u32_of_def in_i32_def)
qed

section \<open>Removal\<close>

lemma put_put_same: "put_cell i c (put_cell i d m) = put_cell i c m"
  by (simp add: put_cell_def)

lemma put_put_other: "i \<noteq> j \<Longrightarrow> put_cell i c (put_cell j d m) = put_cell j d (put_cell i c m)"
  by (simp add: put_cell_def list_update_swap)

lemma rm_cells_none:
  assumes "sized m" "\<And>i. i \<in> rows m \<Longrightarrow> s \<in> mc_seq_id (row m i) \<Longrightarrow> \<not> (p0 \<le> mc_pos (row m i) \<and> mc_pos (row m i) < p1)" "0 \<le> s"
  shows "seq_rm_cells s p0 p1 m = Some (True, m)"
proof -
  have "wp (foldM (seq_rm_cell s p0 p1) [0..<re_size m] (re_size m, m)) (\<lambda>x. x = (re_size m, m))"
  proof (rule wp_for [where I = "\<lambda>_ x. x = (re_size m, m)"])
    fix k x assume k: "k < re_size m" "x = (re_size m, m)"
    have "re_cells m ! k = row m (int k)" by (simp add: row_def)
    then show "wp (seq_rm_cell s p0 p1 k x) (\<lambda>x. x = (re_size m, m))"
      using k assms(1,3) assms(2) [of "int k"] by (auto simp: seq_rm_cell_def wp_simps has_seq_id_def sized_def)
  qed auto
  then show ?thesis by (auto simp: seq_rm_cells_def wp_def rec_lower_head_def)
qed

text \<open>With the tail already reset, the loop does to the sequence's cell what \<open>leave_cell\<close> does.\<close>

lemma rm_cells_left:
  assumes "rec_inv m" "s \<in> rows m" "mc_tail (row m s) \<noteq> -1"
    "p0 \<le> mc_pos (row m (mc_tail (row m s)))" "mc_pos (row m (mc_tail (row m s))) < p1"
  shows "wp (do { m1 \<leftarrow> set_tail s (-1) m; seq_rm_cells s p0 p1 m1 })
    (\<lambda>(b, m'). b \<and> (\<exists>h m''. left_cell s m m'' \<and> m' = rec_lower_head h m''))"
proof -
  let ?t = "mc_tail (row m s)"
  have l: "linked {} m" and sz: "sized m" using rec_invD(6,1) [OF assms(1)] .
  have t: "?t \<in> rows m" "s \<in> mc_seq_id (row m ?t)"
    using linkedD(1) [OF l assms(2,3)] tail_nonempty [OF l assms(2,3)] .
  obtain m'' where lv: "leave_cell s m = Some m''" "left_cell s m m''" using leave_cell_wp [OF assms(1,2)] by (rule wpE)
  define m1 where "m1 = put_cell (nat s) (row m s\<lparr>mc_tail := -1\<rparr>) m"
  have sz1: "sized m1" "re_size m1 = re_size m" "length (re_cells m1) = re_size m" using sz by (simp_all add: m1_def sized_def put_cell_def)
  have r1: "row m1 i = (if i = s then row m s\<lparr>mc_tail := -1\<rparr> else row m i)" if "i \<in> rows m" for i
    unfolding m1_def by (rule row_put_cell [OF sz assms(2) that])
  have st: "set_tail s (-1) m = Some m1" using set_tail_at [OF sz assms(2)] by (simp add: m1_def)
  have only: "s \<in> mc_seq_id (row m i) \<longleftrightarrow> i = ?t" if "i \<in> rows m" for i
    using linkedD(2) [OF l that, of s] assms(2) by auto
  define c where "c = (row m1 ?t)\<lparr>mc_seq_id := mc_seq_id (row m1 ?t) - {s}\<rparr>"
  have q1: "mc_seq_id (row m1 i) = mc_seq_id (row m i)" "mc_pos (row m1 i) = mc_pos (row m i)" if "i \<in> rows m" for i
    using r1 [OF that] by auto
  define m2 where "m2 = (if mc_seq_id c = {} then (put_cell (nat ?t) (vacate c) m1)\<lparr>re_used := usub32 (re_used m1) 1\<rparr>
    else put_cell (nat ?t) c m1)"
  have pos: "0 \<le> mc_pos (row m ?t)" using contents_used [OF rec_invD(7) [OF assms(1) t(1)]] t(2) by auto
  have m2eq: "m2 = m''"
  proof -
    define a1 where "a1 = put_cell (nat ?t) ((row m ?t)\<lparr>mc_seq_id := mc_seq_id (row m ?t) - {s}\<rparr>) m"
    have sza: "sized a1" "re_size a1 = re_size m" using sz by (simp_all add: a1_def)
    have ra: "row a1 i = (if i = ?t then (row m ?t)\<lparr>mc_seq_id := mc_seq_id (row m ?t) - {s}\<rparr> else row m i)" if "i \<in> rows m" for i
      unfolding a1_def by (rule row_put_cell [OF sz t(1) that])
    define a2 where "a2 = put_cell (nat s) (row a1 s\<lparr>mc_tail := -1\<rparr>) a1"
    have sta: "set_tail s (-1) a1 = Some a2" using set_tail_at [of a1 s "-1"] sza assms(2) by (simp add: a2_def)
    have eq: "a2 = put_cell (nat ?t) c m1"
    proof (cases "?t = s")
      case True
      have sw: "d\<lparr>mc_seq_id := q, mc_tail := u\<rparr> = d\<lparr>mc_tail := u, mc_seq_id := q\<rparr>" for d :: mem_cell and q u by (cases d) simp
      show ?thesis using True ra [OF assms(2)] r1 [OF t(1)] by (simp add: a2_def a1_def m1_def c_def put_put_same sw)
    next
      case False
      then have "nat ?t \<noteq> nat s" using assms(2) t(1) by auto
      then show ?thesis using False ra [OF assms(2)] r1 [OF t(1)]
        by (simp add: a2_def a1_def m1_def c_def put_put_other [of "nat ?t" "nat s"])
    qed
    have rt: "row a2 ?t = c" unfolding eq using row_put_cell [OF sz1(1), of ?t ?t c] t(1) sz1(2) by simp
    have sa2: "sized a2" "?t \<in> rows a2" "re_used a2 = re_used m1" using sz1 t(1) by (simp_all add: eq)
    have cq: "mc_seq_id c = mc_seq_id (row m ?t) - {s}" using q1(1) [OF t(1)] by (simp add: c_def)
    have "leave_cell s m = (if mc_seq_id c = {} then Some ((put_cell (nat ?t) (vacate c) a2)\<lparr>re_used := usub32 (re_used a2) 1\<rparr>) else Some a2)"
      unfolding leave_cell_def using sz assms(2) t(1) sta sa2 rt cq by (simp add: Let_def a1_def [symmetric])
    then show ?thesis using lv(1) sa2 by (auto simp: m2_def eq put_put_same split: if_splits)
  qed
  have "wp (foldM (seq_rm_cell s p0 p1) [0..<re_size m1] (re_size m1, m1)) (\<lambda>x. snd x = m2)"
  proof (rule wp_for [where I = "\<lambda>k x. if int k \<le> ?t then x = (re_size m1, m1) else snd x = m2"])
    show "if int 0 \<le> ?t then (re_size m1, m1) = (re_size m1, m1) else snd (re_size m1, m1) = m2" using t(1) by simp
  next
    fix k x assume k: "k < re_size m1" "if int k \<le> ?t then x = (re_size m1, m1) else snd x = m2"
    have ik: "int k \<in> rows m" using k(1) sz1 by simp
    have at: "re_cells m1 ! k = row m1 (int k)" by (simp add: row_def)
    consider "int k < ?t" | "int k = ?t" | "?t < int k" by linarith
    then show "wp (seq_rm_cell s p0 p1 k x) (\<lambda>x. if int (Suc k) \<le> ?t then x = (re_size m1, m1) else snd x = m2)"
    proof cases
      case 1
      then have "s \<notin> mc_seq_id (re_cells m1 ! k)" using only [OF ik] q1(1) [OF ik] at by auto
      then show ?thesis using 1 k sz1 assms(2) by (auto simp: seq_rm_cell_def wp_simps has_seq_id_def)
    next
      case 2
      have kt: "k = nat ?t" using 2 by linarith
      have rk: "re_cells m1 ! k = row m1 ?t" using at 2 by simp
      have cond: "p0 \<le> mc_pos (row m1 ?t) \<and> mc_pos (row m1 ?t) < p1 \<and> s \<in> mc_seq_id (row m1 ?t)" "0 \<le> mc_pos (row m1 ?t)"
        using q1 [OF t(1)] assms(4,5) t(2) pos by simp_all
      have x: "x = (re_size m1, m1)" using k(2) 2 by simp
      have g: "vget (re_cells m1) k = Some (row m1 ?t)" using k(1) sz1 rk by simp
      have "seq_rm_cell s p0 p1 k x = Some (if mc_seq_id c = {} then k else re_size m1, m2)"
        unfolding seq_rm_cell_def x prod.case g Option.bind.bind_lunit using cond assms(2)
        by (simp add: has_seq_id_def cell_is_empty_def c_def [symmetric] m2_def kt Let_def)
      then show ?thesis using 2 by simp
    next
      case 3
      obtain h where x: "x = (h, m2)" using k(2) 3 by (cases x) auto
      have rk: "row m2 (int k) = row m1 (int k)"
        using row_put_cell [of m1 ?t "int k"] sz1 t(1) ik 3 by (auto simp: m2_def)
      have szk: "k < length (re_cells m2)" using k(1) sz1 by (auto simp: m2_def put_cell_def)
      have "s \<notin> mc_seq_id (re_cells m2 ! k)" using only [OF ik] q1(1) [OF ik] 3 rk by (auto simp: row_def)
      then show ?thesis using 3 szk assms(2) x by (auto simp: seq_rm_cell_def wp_simps has_seq_id_def)
    qed
  next
    fix x assume "if int (re_size m1) \<le> ?t then x = (re_size m1, m1) else snd x = m2"
    then show "snd x = m2" using t(1) sz1(2) by (auto split: if_splits)
  qed
  then obtain h where "foldM (seq_rm_cell s p0 p1) [0..<re_size m1] (re_size m1, m1) = Some (h, m2)" by (auto simp: wp_def)
  then have "seq_rm_cells s p0 p1 m1 = Some (True, rec_lower_head h m2)" by (simp add: seq_rm_cells_def)
  then have "(do { m1 \<leftarrow> set_tail s (-1) m; seq_rm_cells s p0 p1 m1 }) = Some (True, rec_lower_head h m2)" using st by simp
  then show ?thesis by (rule wpI) (use lv(2) m2eq in blast)
qed

lemma pos_update:
  assumes "rec_inv m" "t \<in> rows m" "mc_seq_id (row m t) \<noteq> {}" "0 \<le> p" "p < INT32_MAX"
  shows "rec_inv (put_cell (nat t) (row m t\<lparr>mc_pos := p\<rparr>) m)"
    "\<forall>u \<in> rows m. rec_posns (put_cell (nat t) (row m t\<lparr>mc_pos := p\<rparr>) m) u = (if mc_tail (row m u) = t then {p} else rec_posns m u)"
proof -
  define m' where "m' = put_cell (nat t) (row m t\<lparr>mc_pos := p\<rparr>) m"
  have sz: "sized m" and l: "linked {} m" using rec_invD(1,6) [OF assms(1)] .
  have r: "row m' i = (if i = t then row m t\<lparr>mc_pos := p\<rparr> else row m i)" if "i \<in> rows m" for i
    unfolding m'_def by (rule row_put_cell [OF sz assms(2) that])
  have e: "re_size m' = re_size m" "frame_ok m' = frame_ok m" "re_used m' = re_used m" "re_n_rs_seq m' = re_n_rs_seq m"
    by (simp_all add: m'_def frame_ok_def)
  have f: "mc_seq_id (row m' i) = mc_seq_id (row m i)" "mc_tail (row m' i) = mc_tail (row m i)" "mc_src (row m' i) = mc_src (row m i)"
    "mc_rs_max (row m' i) = mc_rs_max (row m i)" "mc_pos (row m' i) = (if i = t then p else mc_pos (row m i))" if "i \<in> rows m" for i
    using r [OF that] by auto
  have "linked {} m'" using l f(1,2) by (auto simp: linked_def e)
  moreover have "contents_ok m' i" if i: "i \<in> rows m" for i
  proof (cases "i = t")
    case True
    then show ?thesis using rec_invD(7) [OF assms(1) i] assms(3-5) f [OF i] by (simp add: contents_ok_def e)
  next
    case False
    then show ?thesis using rec_invD(7) [OF assms(1) i] f [OF i] by (simp add: contents_ok_def e)
  qed
  moreover have "n_used_cells m' = n_used_cells m" by (rule used_same [OF e(1)]) (simp add: f)
  ultimately show "rec_inv m'" using assms(1) by (simp add: rec_inv_def e)
  show "\<forall>u \<in> rows m. rec_posns m' u = (if mc_tail (row m u) = t then {p} else rec_posns m u)"
  proof
    fix u assume u: "u \<in> rows m"
    have t': "mc_tail (row m u) = -1 \<or> mc_tail (row m u) \<in> rows m" using linkedD(1) [OF l u] by blast
    then show "rec_posns m' u = (if mc_tail (row m u) = t then {p} else rec_posns m u)"
      using f(2) [OF u] f(5) [of "mc_tail (row m u)"] assms(2) by (auto simp: rec_posns_def)
  qed
qed

lemma rs_update_inv:
  assumes "rec_inv m" "k < re_n_seq_max m" "r \<le> re_n_rs_seq m"
  shows "rec_inv (m\<lparr>re_rs_idx := (re_rs_idx m)[k := r]\<rparr>)"
proof -
  have "\<forall>x \<in> set ((re_rs_idx m)[k := r]). x \<le> re_n_rs_seq m"
    using assms set_update_subset_insert [of "re_rs_idx m" k r] by (auto simp: rec_inv_def frame_ok_def)
  then show ?thesis using assms(1) by (simp add: rec_inv_def frame_ok_def linked_def contents_ok_def n_used_cells_def)
qed

lemma knows_u32:
  assumes "rec_inv m" "rec_knows m s"
  shows "u32_of s = nat s" "nat s < re_n_seq_max m"
  using assms rec_invD(2) [OF assms(1)] by (auto simp: rec_knows_def)

lemma set_rs_idx_at:
  assumes "rec_inv m" "rec_knows m s" "r \<le> re_n_rs_seq m"
  shows "set_rs_idx s r m = Some (m\<lparr>re_rs_idx := (re_rs_idx m)[nat s := r]\<rparr>)"
  using assms rec_invD(5) [OF assms(1)] knows_u32 [OF assms(1,2)] by (simp add: set_rs_idx_def rec_knows_def vset_def)

lemma rec_posns_rs [simp]: "rec_posns (m\<lparr>re_rs_idx := r\<rparr>) = rec_posns m"
  by (simp add: rec_posns_def fun_eq_iff)

text \<open>What \<open>seq_rm\<close> may do to the memory \<open>m\<close> with the answer \<open>b\<close>.\<close>

definition rm_result :: "llama_seq_id \<Rightarrow> llama_pos \<Rightarrow> llama_pos \<Rightarrow> rec_mem \<Rightarrow> bool \<Rightarrow> rec_mem \<Rightarrow> bool" where
  "rm_result s p0 p1 m b m' = (rec_inv m' \<and> re_size m' = re_size m \<and> re_n_seq_max m' = re_n_seq_max m \<and>
     (\<forall>t \<in> rows m. t \<noteq> s \<longrightarrow> rec_posns m' t = rec_posns m t) \<and>
     (if b then rec_posns m' s = (if rec_posns m s \<inter> {p0..<p1} = {} then rec_posns m s else if p0 = 0 then {} else {p0 - 1})
      else rec_posns m' s = rec_posns m s \<and> 0 < p0 \<and> rec_posns m s \<inter> {p0..<p1} \<noteq> {}))"

lemma rollback_wp:
  assumes "rec_inv m" "rec_knows m s" "mc_tail (row m s) \<noteq> -1" "0 < p0"
    "p0 \<le> mc_pos (row m (mc_tail (row m s)))" "mc_pos (row m (mc_tail (row m s))) < p1"
  shows "wp (rollback s p0 (mc_tail (row m s)) m) (\<lambda>(b, m'). rm_result s p0 p1 m b m' \<and>
    re_n_rs_seq m' = re_n_rs_seq m \<and> mc_tail (row m' s) = mc_tail (row m s) \<and>
    (b \<and> \<not> re_no_layers m \<longrightarrow> int (re_rs_idx m' ! nat s) = mc_pos (row m (mc_tail (row m s))) - (p0 - 1)))"
proof -
  let ?t = "mc_tail (row m s)"
  have s: "s \<in> rows m" "nat s < re_n_seq_max m" using assms(2) by (simp_all add: rec_knows_def)
  have sz: "sized m" and l: "linked {} m" and rl: "length (re_rs_idx m) = re_n_seq_max m" using rec_invD(1,6,5) [OF assms(1)] .
  have t: "?t \<in> rows m" "s \<in> mc_seq_id (row m ?t)"
    using linkedD(1) [OF l s(1) assms(3)] tail_nonempty [OF l s(1) assms(3)] .
  have ne: "mc_seq_id (row m ?t) \<noteq> {}" using t(2) by auto
  have co: "contents_ok m ?t" using rec_invD(7) [OF assms(1) t(1)] .
  have p: "0 \<le> p0 - 1" "p0 - 1 < INT32_MAX" using assms(4,5) contents_used [OF co ne] by auto
  have ps: "rec_posns m s = {mc_pos (row m ?t)}" using assms(3) by (simp add: rec_posns_def)
  have refuse: "rm_result s p0 p1 m False m" using assms ps by (auto simp: rm_result_def)
  have alone: "mc_tail (row m u) = ?t \<longleftrightarrow> u = s" if "u \<in> rows m" "\<not> card (mc_seq_id (row m ?t)) > 1" for u
  proof -
    have "card (mc_seq_id (row m ?t)) = 1" using that(2) ne finite_seqs [OF l t(1)] card_gt_0_iff [of "mc_seq_id (row m ?t)"] by linarith
    then have "mc_seq_id (row m ?t) = {s}" using t(2) by (metis card_1_singletonE singletonD)
    then show ?thesis using linkedD(2) [OF l t(1), of u] that(1) by auto
  qed
  define m1 where "m1 = put_cell (nat ?t) (row m ?t\<lparr>mc_pos := p0 - 1\<rparr>) m"
  note pu = pos_update [OF assms(1) t(1) ne p, folded m1_def]
  have e1: "re_size m1 = re_size m" "re_n_seq_max m1 = re_n_seq_max m" "re_n_rs_seq m1 = re_n_rs_seq m" "re_rs_idx m1 = re_rs_idx m" by (simp_all add: m1_def)
  have tl1: "mc_tail (row m1 s) = mc_tail (row m s)"
    unfolding m1_def row_put_cell [OF sz t(1) s(1)] by simp
  have moved: "rm_result s p0 p1 m True m1" if "\<not> card (mc_seq_id (row m ?t)) > 1"
    using pu alone that s(1) ps assms(4-6) by (auto simp: rm_result_def e1)
  show ?thesis
  proof (cases "card (mc_seq_id (row m ?t)) > 1")
    case True
    then show ?thesis using refuse sz t(1) by (simp add: rollback_def)
  next
    case one: False
    show ?thesis
    proof (cases "re_no_layers m")
      case True
      then show ?thesis using one moved sz t(1) tl1 e1 by (simp add: rollback_def m1_def)
    next
      case False
      let ?cut = "mc_pos (row m ?t) - (p0 - 1)"
      show ?thesis
      proof (cases "re_rs_idx m ! nat s = 0 \<and> ?cut \<le> int (mc_rs_max (row m ?t))")
        case True
        have b: "1 \<le> ?cut" "nat ?cut \<le> re_n_rs_seq m" "int (nat ?cut) = ?cut" using True co assms(5) by (auto simp: contents_ok_def)
        let ?rs = "(re_rs_idx m)[nat s := nat ?cut]"
        have "rollback s p0 ?t m = Some (True, m1\<lparr>re_rs_idx := ?rs\<rparr>)"
          using one False True b(1) sz t(1) s(2) rl set_rs_idx_at [OF assms(1,2) b(2)]
          by (simp add: rollback_def vget_def Let_def m1_def put_cell_def)
        moreover have "rm_result s p0 p1 m True (m1\<lparr>re_rs_idx := ?rs\<rparr>)"
          using moved [OF one] rs_update_inv [OF pu(1), of "nat s" "nat ?cut"] s(2) b(2) by (simp add: rm_result_def e1)
        ultimately show ?thesis using b(3) s(2) rl tl1 e1 by (simp add: wp_def)
      next
        case no: False
        then have "rollback s p0 ?t m = Some (False, m)"
          using one False sz t(1) s(2) rl assms(5) by (auto simp: rollback_def vget_def Let_def)
        then show ?thesis using refuse by (simp add: wp_def)
      qed
    qed
  qed
qed

text \<open>A range that starts inside the past of the sequence is a rollback.\<close>

lemma rec_seq_rm_partial:
  assumes "rec_inv m" "rec_knows m s" "mc_tail (row m s) \<noteq> -1" "0 < p0"
    "p0 \<le> mc_pos (row m (mc_tail (row m s)))" "mc_pos (row m (mc_tail (row m s))) < hi_pos p1"
  shows "rec_seq_rm s p0 p1 m = rollback s p0 (mc_tail (row m s)) m"
proof -
  have s: "s \<in> rows m" "nat s < re_n_seq_max m" using assms(2) by (simp_all add: rec_knows_def)
  have t: "mc_tail (row m s) \<in> rows m" using linkedD(1) [OF rec_invD(6) [OF assms(1)] s(1) assms(3)] .
  have "lo_pos p0 = p0" using assms(4) by (simp add: lo_pos_def)
  then show ?thesis
    using s t knows_u32 [OF assms(1,2)] assms(4-6) rec_invD(1) [OF assms(1)] by (simp add: rec_seq_rm_def Let_def)
qed

text \<open>An id the memory does not know leaves the cells alone.\<close>

lemma rec_seq_rm_unknown:
  assumes "rec_inv m" "in_i32 s" "\<not> rec_knows m s"
  shows "wp (rec_seq_rm s q0 q1 m) (\<lambda>(b, m'). \<not> b \<and> rec_inv m' \<and> re_size m' = re_size m \<and> re_n_seq_max m' = re_n_seq_max m)"
proof (cases "re_n_seq_max m \<le> u32_of s")
  case True
  then show ?thesis using assms(1) by (simp add: rec_seq_rm_def Let_def)
next
  case False
  then have s: "0 \<le> s" "nat s < re_n_seq_max m" "u32_of s = nat s"
    using u32_of_range [OF assms(2) rec_invD(3) [OF assms(1)]] rec_invD(3) [OF assms(1)] by auto
  have big: "int (re_size m) \<le> s" using assms(3) s by (auto simp: rec_knows_def)
  have "set_rs_idx s 0 m = Some (m\<lparr>re_rs_idx := (re_rs_idx m)[nat s := 0]\<rparr>)"
    using s rec_invD(5) [OF assms(1)] by (simp add: set_rs_idx_def vset_def)
  then show ?thesis
    using False big rs_update_inv [OF assms(1) s(2), of 0] assms(1) by (auto simp: rec_seq_rm_def Let_def wp_simps)
qed

lemma rec_seq_rm_wp:
  assumes "rec_inv m" "rec_knows m s"
  shows "wp (rec_seq_rm s q0 q1 m) (\<lambda>(b, m'). rm_result s (lo_pos q0) (hi_pos q1) m b m')"
proof -
  let ?p0 = "lo_pos q0" let ?p1 = "hi_pos q1"
  have s: "s \<in> rows m" "nat s < re_n_seq_max m" using assms(2) by (simp_all add: rec_knows_def)
  define m0 where "m0 = (if ?p0 = 0 \<and> ?p1 = INT32_MAX then m\<lparr>re_rs_idx := (re_rs_idx m)[nat s := 0]\<rparr> else m)"
  have s0: "set_rs_idx s 0 m = Some (m\<lparr>re_rs_idx := (re_rs_idx m)[nat s := 0]\<rparr>)" using set_rs_idx_at [OF assms] by simp
  have inv0: "rec_inv m0" using rs_update_inv [OF assms(1) s(2)] assms(1) by (simp add: m0_def)
  have e0: "re_size m0 = re_size m" "re_n_seq_max m0 = re_n_seq_max m" "row m0 = row m" "rec_posns m0 = rec_posns m" "sized m0"
    using rec_invD(1) [OF inv0] by (simp_all add: m0_def)
  have k0: "rec_knows m0 s" using assms(2) e0 by (simp add: rec_knows_def)
  have l0: "linked {} m0" using rec_invD(6) [OF inv0] .
  have res: "rm_result s p0 p1 m0 b m' = rm_result s p0 p1 m b m'" for p0 p1 b m' by (simp add: rm_result_def e0)
  have run: "rec_seq_rm s q0 q1 m = (if mc_tail (row m0 s) \<ge> 0 then do {
           c \<leftarrow> mem_at m0 (mc_tail (row m0 s));
           if 0 < ?p0 \<and> ?p0 \<le> mc_pos c \<and> mc_pos c < ?p1 then rollback s ?p0 (mc_tail (row m0 s)) m0
           else do {
             m \<leftarrow> (if ?p0 \<le> mc_pos c \<and> mc_pos c < ?p1 then set_tail s (-1) m0 else Some m0);
             seq_rm_cells s ?p0 ?p1 m } }
         else seq_rm_cells s ?p0 ?p1 m0)"
  proof -
    have "(if ?p0 = 0 \<and> ?p1 = INT32_MAX then set_rs_idx s 0 m else Some m) = Some m0" using s0 by (simp add: m0_def)
    then show ?thesis using s knows_u32 [OF assms] e0(1,5) by (simp add: rec_seq_rm_def Let_def)
  qed
  have keep: "wp (seq_rm_cells s ?p0 ?p1 m0) (\<lambda>(b, m'). rm_result s ?p0 ?p1 m b m')" if "rec_posns m s \<inter> {?p0..<?p1} = {}"
  proof -
    have "seq_rm_cells s ?p0 ?p1 m0 = Some (True, m0)"
    proof (rule rm_cells_none [OF e0(5)])
      fix i assume i: "i \<in> rows m0" "s \<in> mc_seq_id (row m0 i)"
      then have "mc_tail (row m s) = i" using linkedD(2) [OF l0 i(1)] e0 by auto
      then have "rec_posns m s = {mc_pos (row m i)}" using i(1) by (auto simp: rec_posns_def)
      then show "\<not> (?p0 \<le> mc_pos (row m0 i) \<and> mc_pos (row m0 i) < ?p1)" using that e0 by auto
    qed (use s in simp)
    then show ?thesis using that inv0 e0 by (simp add: rm_result_def wp_def)
  qed
  show ?thesis
  proof (cases "mc_tail (row m s) = -1")
    case True
    then show ?thesis using run keep e0 by (simp add: rec_posns_def)
  next
    case tl: False
    let ?t = "mc_tail (row m s)"
    have t: "?t \<in> rows m0" "0 \<le> ?t" using linkedD(1) [OF l0, of s] s(1) tl e0 by auto
    have ps: "rec_posns m s = {mc_pos (row m ?t)}" using tl by (simp add: rec_posns_def)
    show ?thesis
    proof (cases "?p0 \<le> mc_pos (row m ?t) \<and> mc_pos (row m ?t) < ?p1")
      case False
      then show ?thesis using run keep e0 t ps by auto
    next
      case inr: True
      show ?thesis
      proof (cases "0 < ?p0")
        case True
        then have "rec_seq_rm s q0 q1 m = rollback s ?p0 (mc_tail (row m0 s)) m0" using run inr t e0 by simp
        then show ?thesis using wp_mono [OF rollback_wp [OF inv0 k0, of ?p0 ?p1]] tl inr True e0 res by auto
      next
        case False
        then have z: "?p0 = 0" using lo_pos_nonneg [of q0] by linarith
        have eq: "rec_seq_rm s q0 q1 m = do { m1 \<leftarrow> set_tail s (-1) m0; seq_rm_cells s ?p0 ?p1 m1 }"
          using run inr t e0 False by simp
        have "wp (do { m1 \<leftarrow> set_tail s (-1) m0; seq_rm_cells s ?p0 ?p1 m1 })
          (\<lambda>(b, m'). b \<and> (\<exists>h m''. left_cell s m0 m'' \<and> m' = rec_lower_head h m''))"
          by (rule rm_cells_left [OF inv0]) (use s tl inr e0 in auto)
        then obtain h m'' where hm: "(do { m1 \<leftarrow> set_tail s (-1) m0; seq_rm_cells s ?p0 ?p1 m1 }) = Some (True, rec_lower_head h m'')"
            and lc: "left_cell s m0 m''" by (auto simp: wp_def)
        show ?thesis unfolding eq hm wp_Some prod.case
        proof -
          have i: "rec_inv m''" "\<forall>t \<in> rows m0. rec_posns m'' t = (if t = s then {} else rec_posns m0 t)"
            using rec_inv_left [OF inv0 lc] s(1) e0 by auto
          have sf: "re_size m'' = re_size m" "re_n_seq_max m'' = re_n_seq_max m" using same_frameD(1,2) [of m0 m''] lc e0 by (auto simp: left_cell_def)
          show "rm_result s ?p0 ?p1 m True (rec_lower_head h m'')"
            using lower_head_inv [OF i(1), of h] i(2) s(1) e0 sf ps inr z by (auto simp: rm_result_def)
        qed
      qed
    qed
  qed
qed

section \<open>Copying and keeping\<close>

lemma join_cell:
  assumes "rec_inv m" "dst \<in> rows m" "mc_tail (row m dst) = -1" "t \<in> rows m" "mc_seq_id (row m t) \<noteq> {}"
  shows "wp (set_tail dst t (put_cell (nat t) (row m t\<lparr>mc_seq_id := insert dst (mc_seq_id (row m t))\<rparr>) m))
    (\<lambda>m'. rec_inv m' \<and> same_frame m m' \<and>
       (\<forall>u \<in> rows m. rec_posns m' u = (if u = dst then {mc_pos (row m t)} else rec_posns m u)))"
proof -
  have sz: "sized m" and l: "linked {} m" using rec_invD(1,6) [OF assms(1)] .
  define m1 where "m1 = put_cell (nat t) (row m t\<lparr>mc_seq_id := insert dst (mc_seq_id (row m t))\<rparr>) m"
  define m2 where "m2 = put_cell (nat dst) (row m1 dst\<lparr>mc_tail := t\<rparr>) m1"
  have sz1: "sized m1" "dst \<in> rows m1" using sz assms(2) by (simp_all add: m1_def)
  have r1: "row m1 i = (if i = t then row m t\<lparr>mc_seq_id := insert dst (mc_seq_id (row m t))\<rparr> else row m i)" if "i \<in> rows m" for i
    unfolding m1_def by (rule row_put_cell [OF sz assms(4) that])
  have r2: "row m2 i = (if i = dst then row m1 dst\<lparr>mc_tail := t\<rparr> else row m1 i)" if "i \<in> rows m" for i
    unfolding m2_def by (rule row_put_cell) (use sz1 that in \<open>auto simp: m1_def\<close>)
  have e: "same_frame m m2" "re_size m2 = re_size m" "re_used m2 = re_used m" "re_n_rs_seq m2 = re_n_rs_seq m" by (simp_all add: m1_def m2_def)
  have f: "mc_tail (row m2 i) = (if i = dst then t else mc_tail (row m i))"
    "mc_seq_id (row m2 i) = (if i = t then insert dst (mc_seq_id (row m i)) else mc_seq_id (row m i))"
    "mc_pos (row m2 i) = mc_pos (row m i)" "mc_src (row m2 i) = mc_src (row m i)" "mc_rs_max (row m2 i) = mc_rs_max (row m i)" if "i \<in> rows m" for i
    using r1 [OF that] r2 [OF that] r1 [OF assms(2)] by auto
  have l2: "linked {} m2"
    unfolding linked_def e(2)
  proof (intro conjI ballI)
    fix u assume u: "u \<in> rows m"
    show "mc_tail (row m2 u) = -1 \<or> mc_tail (row m2 u) \<in> rows m" using f(1) [OF u] linkedD(1) [OF l u] assms(4) by auto
  next
    fix i assume i: "i \<in> rows m"
    have "mc_seq_id (row m i) = {s \<in> rows m. mc_tail (row m s) = i}" using linkedD(2) [OF l i] by blast
    then show "mc_seq_id (row m2 i) = {s \<in> rows m - {}. mc_tail (row m2 s) = i}"
      using f(2) [OF i] f(1) assms(2,3) i by auto
  qed
  have "contents_ok m2 i" if i: "i \<in> rows m" for i
    using rec_invD(7) [OF assms(1) i] f [OF i] assms(5) by (cases "i = t") (auto simp: contents_ok_def e)
  moreover have "n_used_cells m2 = n_used_cells m" by (rule used_same [OF e(2)]) (use f(2) assms(5) in auto)
  ultimately have inv: "rec_inv m2" using assms(1) l2 frame_ok_same [OF _ e(1)] by (simp add: rec_inv_def e(2,3))
  have p: "rec_posns m2 u = (if u = dst then {mc_pos (row m t)} else rec_posns m u)" if u: "u \<in> rows m" for u
  proof (cases "u = dst")
    case True
    then show ?thesis using f(1) [OF u] f(3) [OF assms(4)] assms(4) by (auto simp: rec_posns_def)
  next
    case False
    have "mc_tail (row m u) = -1 \<or> mc_tail (row m u) \<in> rows m" using linkedD(1) [OF l u] by blast
    then show ?thesis using False f(1) [OF u] f(3) [of "mc_tail (row m u)"] by (auto simp: rec_posns_def)
  qed
  have "set_tail dst t m1 = Some m2" using set_tail_at [OF sz1] by (simp add: m2_def)
  then show ?thesis using inv e(1) p by (simp add: m1_def wp_def)
qed

lemma rec_seq_cp_wp:
  assumes "rec_inv m" "in_i32 src" "in_i32 dst"
  shows "wp (rec_seq_cp src dst q0 q1 m) (\<lambda>m'. rec_inv m' \<and> same_frame m m' \<and>
    (\<forall>u \<in> rows m. rec_posns m' u = (if u = dst \<and> src \<in> rows m then rec_posns m src else rec_posns m u)))"
proof (cases "src \<noteq> dst \<and> dst \<in> rows m \<and> src \<in> rows m")
  case False
  then show ?thesis using assms u32_of_range [OF assms(2) rec_invD(2) [OF assms(1)]] u32_of_range [OF assms(3) rec_invD(2) [OF assms(1)]]
    by (auto simp: rec_seq_cp_def)
next
  case True
  obtain m1 where lv: "leave_cell dst m = Some m1" "left_cell dst m m1" using leave_cell_wp [OF assms(1)] True by (meson wpE)
  have i1: "rec_inv m1" "\<forall>t \<in> rows m. rec_posns m1 t = (if t = dst then {} else rec_posns m t)" using rec_inv_left [OF assms(1) lv(2)] True by auto
  have sf: "same_frame m m1" using lv(2) by (simp add: left_cell_def)
  note e = same_frameD(1) [OF sf]
  have tl: "mc_tail (row m1 t) = (if t = dst then -1 else mc_tail (row m t))" if "t \<in> rows m" for t
    using lv(2) that by (simp add: left_cell_def)
  have sz1: "sized m1" and l1: "linked {} m1" using rec_invD(1,6) [OF i1(1)] .
  have run: "rec_seq_cp src dst q0 q1 m = (if mc_tail (row m1 src) \<ge> 0 then do {
          c \<leftarrow> mem_at m1 (mc_tail (row m1 src));
          set_tail dst (mc_tail (row m1 src)) (put_cell (nat (mc_tail (row m1 src))) (c\<lparr>mc_seq_id := insert dst (mc_seq_id c)\<rparr>) m1) }
        else Some m1)"
    using True u32_of_range [OF assms(2) rec_invD(2) [OF assms(1)]] u32_of_range [OF assms(3) rec_invD(2) [OF assms(1)]] lv(1) sz1 e
    by (simp add: rec_seq_cp_def)
  show ?thesis
  proof (cases "mc_tail (row m1 src) = -1")
    case True
    then have "rec_posns m src = {}" using tl [of src] \<open>src \<noteq> dst \<and> dst \<in> rows m \<and> src \<in> rows m\<close> by (simp add: rec_posns_def)
    then show ?thesis using True run i1 sf \<open>src \<noteq> dst \<and> dst \<in> rows m \<and> src \<in> rows m\<close> by auto
  next
    case False
    let ?t = "mc_tail (row m1 src)"
    have s1: "src \<in> rows m1" "dst \<in> rows m1" using True e by auto
    have t: "?t \<in> rows m1" "src \<in> mc_seq_id (row m1 ?t)" using linkedD(1) [OF l1 s1(1) False] tail_nonempty [OF l1 s1(1) False] .
    have d: "mc_tail (row m1 dst) = -1" using tl [of dst] True by simp
    have "rec_posns m1 src = rec_posns m src" using i1(2) True by auto
    then have p: "rec_posns m src = {mc_pos (row m1 ?t)}" using False by (simp add: rec_posns_def)
    have eq: "rec_seq_cp src dst q0 q1 m = set_tail dst ?t (put_cell (nat ?t) (row m1 ?t\<lparr>mc_seq_id := insert dst (mc_seq_id (row m1 ?t))\<rparr>) m1)"
      using run t(1) sz1 by simp
    show ?thesis unfolding eq
      by (rule wp_mono [OF join_cell [OF i1(1) s1(2) d t(1)]]) (use t(2) p i1(2) e True same_frame_trans [OF sf] in auto)
  qed
qed

text \<open>\<open>seq_keep\<close> cell by cell.\<close>

definition kept :: "llama_seq_id \<Rightarrow> int \<Rightarrow> mem_cell \<Rightarrow> mem_cell" where
  "kept s i c0 = (let c = (if i \<noteq> s then c0\<lparr>mc_tail := -1\<rparr> else c0) in
     if has_seq_id c s then c\<lparr>mc_seq_id := {s}\<rparr> else (vacate c)\<lparr>mc_seq_id := {}\<rparr>)"

lemma kept_fields:
  "mc_tail (kept s i c) = (if i = s then mc_tail c else -1)"
  "mc_seq_id (kept s i c) = (if s \<in> mc_seq_id c then {s} else {})"
  "mc_rs_max (kept s i c) = mc_rs_max c"
  "mc_pos (kept s i c) = (if s \<in> mc_seq_id c then mc_pos c else -1)"
  "mc_src (kept s i c) = (if s \<in> mc_seq_id c then mc_src c else -1)"
  by (auto simp: kept_def Let_def has_seq_id_def vacate_def)

definition dropped :: "llama_seq_id \<Rightarrow> nat \<Rightarrow> rec_mem \<Rightarrow> int set" where
  "dropped s k m = {i. 0 \<le> i \<and> i < int k \<and> mc_seq_id (row m i) \<noteq> {} \<and> s \<notin> mc_seq_id (row m i)}"

lemma finite_dropped [simp]: "finite (dropped s k m)"
  by (simp add: dropped_def)

lemma dropped_0 [simp]: "dropped s 0 m = {}"
  by (auto simp: dropped_def)

lemma dropped_Suc: "dropped s (Suc k) m =
    (if mc_seq_id (row m (int k)) \<noteq> {} \<and> s \<notin> mc_seq_id (row m (int k)) then insert (int k) (dropped s k m) else dropped s k m)"
  by (auto simp: dropped_def less_Suc_eq intro: le_neq_trans)

lemma rec_seq_keep_wp:
  assumes "rec_inv m"
  shows "wp (rec_seq_keep s m) (\<lambda>m'. rec_inv m' \<and> re_size m' = re_size m \<and> re_n_seq_max m' = re_n_seq_max m \<and>
    (\<forall>u \<in> rows m. rec_posns m' u = (if u = s then rec_posns m u else {})))"
proof -
  have sz: "sized m" and l: "linked {} m" using rec_invD(1,6) [OF assms] .
  let ?I = "\<lambda>k (x :: nat \<times> rec_mem). same_frame m (snd x) \<and>
     (\<forall>i \<in> rows m. row (snd x) i = (if i < int k then kept s i (row m i) else row m i)) \<and>
     re_used (snd x) = n_used_cells m - card (dropped s k m)"
  have dn: "card (dropped s k m) \<le> n_used_cells m" if "k \<le> re_size m" for k
    unfolding n_used_cells_def by (rule card_mono) (use that in \<open>auto simp: dropped_def\<close>)
  have "wp (foldM (seq_keep_cell s) [0..<re_size m] (re_size m, m)) (?I (re_size m))"
  proof (rule wp_for [where I = ?I])
    show "?I 0 (re_size m, m)" using rec_invD(8) [OF assms] by simp
  next
    fix k x assume k: "k < re_size m" and I: "?I k x"
    obtain h m1 where x: "x = (h, m1)" by (cases x)
    have sf: "same_frame m m1" and r: "\<And>i. i \<in> rows m \<Longrightarrow> row m1 i = (if i < int k then kept s i (row m i) else row m i)"
      and u: "re_used m1 = n_used_cells m - card (dropped s k m)" using I x by auto
    note e = same_frameD(1,7) [OF sf]
    have kr: "int k \<in> rows m1" "int k \<in> rows m" using k e by auto
    have rk: "re_cells m1 ! k = row m (int k)" using r [OF kr(2)] by (simp add: row_def)
    have lk: "k < length (re_cells m1)" using k sz e by (simp add: sized_def)
    define m2 where "m2 = put_cell k (kept s (int k) (row m (int k))) m1"
    have r2: "row m2 i = (if i < int (Suc k) then kept s i (row m i) else row m i)" if "i \<in> rows m" for i
      using row_put_cell [of m1 "int k" i "kept s (int k) (row m (int k))"] kr that r [OF that] sz e by (auto simp: m2_def)
    have in_use: "0 \<le> mc_pos (row m (int k)) \<longleftrightarrow> mc_seq_id (row m (int k)) \<noteq> {}"
      using contents_used [OF rec_invD(7) [OF assms kr(2)]] contents_empty [OF rec_invD(7) [OF assms kr(2)]] by auto
    have kd: "int k \<notin> dropped s k m" by (simp add: dropped_def)
    let ?u = "if s \<notin> mc_seq_id (row m (int k)) \<and> 0 \<le> mc_pos (row m (int k)) then usub32 (re_used m1) 1 else re_used m1"
    have u2: "?u = n_used_cells m - card (dropped s (Suc k) m)"
    proof -
      have le: "card (dropped s (Suc k) m) \<le> n_used_cells m" using dn [of "Suc k"] k by simp
      show ?thesis
      proof (cases "mc_seq_id (row m (int k)) \<noteq> {} \<and> s \<notin> mc_seq_id (row m (int k))")
        case True
        then have c: "card (dropped s (Suc k) m) = Suc (card (dropped s k m))" using kd by (simp add: dropped_Suc)
        then have "usub32 (re_used m1) 1 = re_used m1 - 1"
          using u le n_used_le [of m] rec_invD(2) [OF assms] by (intro usub32_ge) auto
        then show ?thesis using True c u in_use by simp
      next
        case False
        then show ?thesis using u in_use by (auto simp: dropped_Suc)
      qed
    qed
    have pos: "mc_pos (if b then c\<lparr>mc_tail := t\<rparr> else c) = mc_pos c" for b t and c :: mem_cell by simp
    have "\<exists>h'. seq_keep_cell s k x = Some (h', m2\<lparr>re_used := ?u\<rparr>)"
      using rk lk by (auto simp: seq_keep_cell_def x vget_def Let_def kept_def m2_def has_seq_id_def put_cell_def)
    then show "wp (seq_keep_cell s k x) (?I (Suc k))"
      using sf r2 u2 by (auto simp: wp_def m2_def)
  qed auto
  then obtain h m1 where run: "foldM (seq_keep_cell s) [0..<re_size m] (re_size m, m) = Some (h, m1)" and I: "?I (re_size m) (h, m1)"
    by (auto simp: wp_def)
  have sf: "same_frame m m1" and r: "\<And>i. i \<in> rows m \<Longrightarrow> row m1 i = kept s i (row m i)"
    and u: "re_used m1 = n_used_cells m - card (dropped s (re_size m) m)" using I by auto
  note e = same_frameD(1-3) [OF sf]
  have l1: "linked {} m1"
    using l r by (auto simp: linked_def e kept_fields split: if_splits)
  have c1: "contents_ok m1 i" if i: "i \<in> rows m" for i
    using rec_invD(7) [OF assms i] r [OF i] by (auto simp: contents_ok_def e kept_fields split: if_splits)
  have "{i \<in> rows m1. mc_seq_id (row m1 i) \<noteq> {}} = {i \<in> rows m. mc_seq_id (row m i) \<noteq> {}} - dropped s (re_size m) m"
    using r by (auto simp: e kept_fields dropped_def)
  moreover have "dropped s (re_size m) m \<subseteq> {i \<in> rows m. mc_seq_id (row m i) \<noteq> {}}" by (auto simp: dropped_def)
  ultimately have "n_used_cells m1 = n_used_cells m - card (dropped s (re_size m) m)"
    by (simp add: n_used_cells_def card_Diff_subset)
  then have inv: "rec_inv m1" using assms l1 c1 u frame_ok_same [OF _ sf] by (simp add: rec_inv_def e)
  have p: "rec_posns m1 v = (if v = s then rec_posns m v else {})" if v: "v \<in> rows m" for v
  proof (cases "v = s \<and> mc_tail (row m v) \<noteq> -1")
    case True
    then have "mc_tail (row m v) \<in> rows m" "s \<in> mc_seq_id (row m (mc_tail (row m v)))" using linkedD(1) [OF l v] tail_nonempty [OF l v] by auto
    then show ?thesis using True r [OF v] r by (simp add: rec_posns_def kept_fields)
  qed (use r [OF v] in \<open>auto simp: rec_posns_def kept_fields\<close>)
  show ?thesis using run lower_head_inv [OF inv, of h] p e by (simp add: rec_seq_keep_def)
qed

section \<open>Moving positions\<close>

lemma map_tail_pos_wp:
  assumes "rec_inv m" "\<And>p. s \<in> rows m \<Longrightarrow> p \<in> rec_posns m s \<Longrightarrow> p0 \<le> p \<Longrightarrow> p < p1 \<Longrightarrow> wp (f p) (\<lambda>q. 0 \<le> q \<and> q < INT32_MAX)"
  shows "wp (map_tail_pos s p0 p1 f m) (\<lambda>m'. rec_inv m' \<and> re_size m' = re_size m \<and> re_n_seq_max m' = re_n_seq_max m \<and>
    (\<forall>u \<in> rows m. rec_posns m' u = (if s \<in> rows m \<and> mc_tail (row m s) \<noteq> -1 \<and> mc_tail (row m u) = mc_tail (row m s)
       then (\<lambda>p. if p0 \<le> p \<and> p < p1 then the (f p) else p) ` rec_posns m u else rec_posns m u)))"
proof (cases "s \<in> rows m \<and> mc_tail (row m s) \<noteq> -1 \<and> p0 \<le> mc_pos (row m (mc_tail (row m s))) \<and> mc_pos (row m (mc_tail (row m s))) < p1")
  case False
  have sz: "sized m" and l: "linked {} m" using rec_invD(1,6) [OF assms(1)] .
  have "map_tail_pos s p0 p1 f m = Some m"
  proof (cases "s \<in> rows m \<and> mc_tail (row m s) \<noteq> -1")
    case True
    then show ?thesis using False sz linkedD(1) [OF l, of s] by (auto simp: map_tail_pos_def)
  next
    case nt: False
    show ?thesis
    proof (cases "s \<in> rows m")
      case True
      then show ?thesis using nt sz by (auto simp: map_tail_pos_def)
    qed (auto simp: map_tail_pos_def)
  qed
  moreover have "rec_posns m u = (\<lambda>p. if p0 \<le> p \<and> p < p1 then the (f p) else p) ` rec_posns m u"
    if "s \<in> rows m" "mc_tail (row m s) \<noteq> -1" "mc_tail (row m u) = mc_tail (row m s)" for u
    using False that by (auto simp: rec_posns_def)
  ultimately show ?thesis using assms(1) by (auto simp: wp_def)
next
  case True
  let ?t = "mc_tail (row m s)"
  have sz: "sized m" and l: "linked {} m" using rec_invD(1,6) [OF assms(1)] .
  have t: "?t \<in> rows m" "s \<in> mc_seq_id (row m ?t)" using linkedD(1) [OF l] tail_nonempty [OF l] True by auto
  obtain q where q: "f (mc_pos (row m ?t)) = Some q" "0 \<le> q" "q < INT32_MAX"
    using assms(2) [of "mc_pos (row m ?t)"] True by (auto simp: rec_posns_def wp_def)
  have run: "map_tail_pos s p0 p1 f m = Some (put_cell (nat ?t) (row m ?t\<lparr>mc_pos := q\<rparr>) m)"
    using True t sz q(1) by (auto simp: map_tail_pos_def has_seq_id_def)
  note pu = pos_update [OF assms(1) t(1) _ q(2,3)]
  have ne: "mc_seq_id (row m ?t) \<noteq> {}" using t(2) by auto
  have same: "rec_posns m u = {mc_pos (row m ?t)}" if "mc_tail (row m u) = ?t" for u using that True by (simp add: rec_posns_def)
  show ?thesis unfolding run wp_Some
    using pu [OF ne] same True q(1) by simp
qed

section \<open>The contract of the decoder\<close>

interpretation rec: rollback_memory rec_inv rec_knows rec_posns rec_seq_rm rec_seq_pos_max
proof
  fix m s assume m: "rec_inv m" "rec_knows m s"
  then have s: "s \<in> rows m" by (simp add: rec_knows_def)
  show "finite (rec_posns m s) \<and> (\<forall>p \<in> rec_posns m s. 0 \<le> p)"
    using rec_pos_bounds [OF m(1) s] by (auto simp: rec_posns_def)
  show "rec_seq_pos_max m s = Some (max_or_none (rec_posns m s))" by (rule rec_pos_max_at [OF m(1) s])
  show "wp (rec_seq_rm s p0 p1 m) (\<lambda>(b, m'). rec_inv m' \<and> rec_knows m' = rec_knows m \<and>
      (\<forall>t. rec_knows m t \<and> t \<noteq> s \<longrightarrow> rec_posns m' t = rec_posns m t) \<and>
      (b \<longrightarrow> (\<forall>p \<in> rec_posns m' s. p \<notin> {lo_pos p0..<hi_pos p1} \<and> (p \<in> rec_posns m s \<or> p < lo_pos p0))) \<and>
      (\<not> b \<longrightarrow> rec_posns m' s = rec_posns m s))" for p0 p1
    by (rule wp_mono [OF rec_seq_rm_wp [OF m]]) (auto simp: rm_result_def rec_knows_def fun_eq_iff split: if_splits)
qed

end
