(* ===== verification/RecPlace.thy ===== *)
theory RecPlace
  imports RecSeq
begin

text \<open>
  The phases of \<open>find_slot\<close>: shared ids leave their cells, every sequence of the micro-batch gets a
  cell of its own, the cells are swapped into consecutive places.  Each phase is described by what it
  does to the relation between sequences and cells and to the contents that travel with them.
\<close>

abbreviation tail_of :: "rec_mem \<Rightarrow> llama_seq_id \<Rightarrow> int" where
  "tail_of m s \<equiv> mc_tail (row m s)"

abbreviation seqs_at :: "rec_mem \<Rightarrow> int \<Rightarrow> llama_seq_id set" where
  "seqs_at m i \<equiv> mc_seq_id (row m i)"

section \<open>The micro-batch\<close>

definition ids_of :: "llama_ubatch \<Rightarrow> nat \<Rightarrow> llama_seq_id list" where
  "ids_of ub s = ub_seq_id ub ! tok_of ub s"

definition lead :: "llama_ubatch \<Rightarrow> nat \<Rightarrow> llama_seq_id" where
  "lead ub s = hd (ids_of ub s)"

text \<open>The ids that share the cell of another one.\<close>

definition extra_ids :: "llama_ubatch \<Rightarrow> llama_seq_id set" where
  "extra_ids ub = (\<Union>s < ub_n_seqs ub. set (tl (ids_of ub s)))"

definition all_ids :: "llama_ubatch \<Rightarrow> llama_seq_id set" where
  "all_ids ub = (\<Union>s < ub_n_seqs ub. set (ids_of ub s))"

definition last_pos_of :: "llama_ubatch \<Rightarrow> nat \<Rightarrow> llama_pos" where
  "last_pos_of ub s = ub_pos ub ! (tok_of ub s + ub_n_seq_tokens ub - 1)"

text \<open>The arrays reach as far as \<open>find_slot\<close> reads, and the sequence sets are disjoint.\<close>

definition rec_ub_arrays :: "llama_ubatch \<Rightarrow> bool" where
  "rec_ub_arrays ub = (equal_seqs ub \<and> 0 < ub_n_seqs ub \<and> 0 < ub_n_seq_tokens ub \<and>
     (\<forall>s < ub_n_seqs ub. tok_of ub s + ub_n_seq_tokens ub \<le> length (ub_pos ub) \<and>
        tok_of ub s < length (ub_n_seq_id ub) \<and> tok_of ub s < length (ub_seq_id ub) \<and>
        ids_of ub s \<noteq> [] \<and> ub_n_seq_id ub ! tok_of ub s = int (length (ids_of ub s)) \<and> length (ids_of ub s) < 2 ^ 31 \<and>
        distinct (ids_of ub s) \<and> 0 \<le> last_pos_of ub s \<and> last_pos_of ub s < INT32_MAX) \<and>
     (\<forall>s < ub_n_seqs ub. \<forall>t < ub_n_seqs ub. s \<noteq> t \<longrightarrow> set (ids_of ub s) \<inter> set (ids_of ub t) = {}))"

definition ids_fit :: "rec_mem \<Rightarrow> llama_ubatch \<Rightarrow> bool" where
  "ids_fit m ub = (all_ids ub \<subseteq> rows m)"

lemma rec_ub_arraysD:
  assumes "rec_ub_arrays ub" "s < ub_n_seqs ub"
  shows "tok_of ub s + ub_n_seq_tokens ub \<le> length (ub_pos ub)" "tok_of ub s < length (ub_n_seq_id ub)"
    "tok_of ub s < length (ub_seq_id ub)" "ids_of ub s \<noteq> []" "ub_n_seq_id ub ! tok_of ub s = int (length (ids_of ub s))"
    "length (ids_of ub s) < 2 ^ 31" "distinct (ids_of ub s)" "0 \<le> last_pos_of ub s" "last_pos_of ub s < INT32_MAX"
    "0 < ub_n_seq_tokens ub" "equal_seqs ub" "0 < ub_n_seqs ub"
  using assms by (simp_all add: rec_ub_arrays_def)

lemma ids_disjoint:
  assumes "rec_ub_arrays ub" "s < ub_n_seqs ub" "t < ub_n_seqs ub" "x \<in> set (ids_of ub s)" "x \<in> set (ids_of ub t)"
  shows "s = t"
  using assms unfolding rec_ub_arrays_def by blast

lemma lead_in: "rec_ub_arrays ub \<Longrightarrow> s < ub_n_seqs ub \<Longrightarrow> lead ub s \<in> set (ids_of ub s)"
  using rec_ub_arraysD(4) by (simp add: lead_def)

lemma first_id_at: "rec_ub_arrays ub \<Longrightarrow> s < ub_n_seqs ub \<Longrightarrow> first_id ub s = Some (lead ub s)"
  using rec_ub_arraysD(3,4) by (simp add: first_id_def lead_def ids_of_def vget_def hd_conv_nth)

lemma ids_cons: "rec_ub_arrays ub \<Longrightarrow> s < ub_n_seqs ub \<Longrightarrow> set (ids_of ub s) = insert (lead ub s) (set (tl (ids_of ub s)))"
  using rec_ub_arraysD(4) [of ub s] by (cases "ids_of ub s") (auto simp: lead_def)

lemma lead_inj:
  assumes "rec_ub_arrays ub" "s < ub_n_seqs ub" "t < ub_n_seqs ub" "lead ub s = lead ub t"
  shows "s = t"
  using ids_disjoint [OF assms(1-3), of "lead ub s"] lead_in assms by metis

lemma lead_not_extra:
  assumes "rec_ub_arrays ub" "s < ub_n_seqs ub"
  shows "lead ub s \<notin> extra_ids ub"
proof
  assume "lead ub s \<in> extra_ids ub"
  then obtain t where t: "t < ub_n_seqs ub" "lead ub s \<in> set (tl (ids_of ub t))" by (auto simp: extra_ids_def)
  then have "lead ub s \<in> set (ids_of ub t)" using ids_cons [OF assms(1) t(1)] by blast
  then have "t = s" using ids_disjoint [OF assms(1) t(1) assms(2)] lead_in [OF assms] by blast
  then show False using t rec_ub_arraysD(4,7) [OF assms] by (cases "ids_of ub s") (auto simp: lead_def)
qed

lemma all_ids_split: "rec_ub_arrays ub \<Longrightarrow> all_ids ub = lead ub ` {..<ub_n_seqs ub} \<union> extra_ids ub"
  unfolding all_ids_def extra_ids_def using ids_cons [of ub] by auto

lemma all_ids_mem: "s < ub_n_seqs ub \<Longrightarrow> x \<in> set (ids_of ub s) \<Longrightarrow> x \<in> all_ids ub"
  by (auto simp: all_ids_def)

section \<open>Shared ids leave their cells\<close>

lemma set_tl_nth: "{xs ! j | j. 0 < j \<and> j < length xs} = set (tl xs)"
proof (cases xs)
  case (Cons y ys)
  have "\<exists>i < length ys. xs ! j = ys ! i" if "0 < j" "j < length xs" for j
    using that Cons by (intro exI [of _ "j - 1"]) auto
  moreover have "\<exists>j. ys ! i = xs ! j \<and> 0 < j \<and> j < length xs" if "i < length ys" for i
    using that Cons by (intro exI [of _ "Suc i"]) auto
  ultimately show ?thesis using Cons by (auto simp: set_conv_nth)
qed simp

text \<open>The sequences \<open>X\<close> have left their cells.\<close>

definition left_cells :: "llama_seq_id set \<Rightarrow> rec_mem \<Rightarrow> rec_mem \<Rightarrow> bool" where
  "left_cells X m m' = (rec_inv m' \<and> same_frame m m' \<and>
     (\<forall>t \<in> rows m. tail_of m' t = (if t \<in> X then -1 else tail_of m t)) \<and>
     (\<forall>i \<in> rows m. seqs_at m' i \<noteq> {} \<longrightarrow> mc_pos (row m' i) = mc_pos (row m i) \<and> mc_src (row m' i) = mc_src (row m i)))"

lemma left_cells_refl: "rec_inv m \<Longrightarrow> left_cells {} m m"
  by (simp add: left_cells_def)

lemma left_cells_step:
  assumes "left_cells X m m1" "s \<in> rows m"
  shows "wp (leave_cell s m1) (left_cells (insert s X) m)"
proof -
  have i: "rec_inv m1" "same_frame m m1" using assms(1) by (simp_all add: left_cells_def)
  have s: "s \<in> rows m1" using assms(2) same_frameD(1) [OF i(2)] by simp
  show ?thesis
  proof (rule wp_mono [OF leave_cell_wp [OF i(1) s]])
    fix m2 assume l: "left_cell s m1 m2"
    have "same_frame m1 m2" using l by (simp add: left_cell_def)
    moreover have "mc_pos (row m2 i) = mc_pos (row m i) \<and> mc_src (row m2 i) = mc_src (row m i)"
      if r: "i \<in> rows m" "seqs_at m2 i \<noteq> {}" for i
    proof -
      have "seqs_at m2 i \<subseteq> seqs_at m1 i" "mc_pos (row m2 i) = mc_pos (row m1 i) \<and> mc_src (row m2 i) = mc_src (row m1 i)"
        using l r same_frameD(1) [OF i(2)] by (auto simp: left_cell_def)
      moreover have "mc_pos (row m1 i) = mc_pos (row m i) \<and> mc_src (row m1 i) = mc_src (row m i)" if "seqs_at m1 i \<noteq> {}"
        using assms(1) r(1) that by (simp add: left_cells_def)
      ultimately show ?thesis using r(2) by auto
    qed
    moreover have "tail_of m2 t = (if t \<in> insert s X then -1 else tail_of m t)" if t: "t \<in> rows m" for t
    proof -
      have "tail_of m2 t = (if t = s then -1 else tail_of m1 t)" using l t same_frameD(1) [OF i(2)] by (simp add: left_cell_def)
      moreover have "tail_of m1 t = (if t \<in> X then -1 else tail_of m t)" using assms(1) t by (simp add: left_cells_def)
      ultimately show ?thesis by simp
    qed
    ultimately show "left_cells (insert s X) m m2"
      using rec_inv_left(1) [OF i(1) l s] same_frame_trans [OF i(2)] by (simp add: left_cells_def)
  qed
qed

lemma unshare_ids_wp:
  assumes "rec_ub_arrays ub" "s < ub_n_seqs ub" "set (ids_of ub s) \<subseteq> rows m" "left_cells X m m1"
  shows "wp (foldM (unshare_id ub s) [0..<length (ids_of ub s)] (True, m1))
    (\<lambda>x. fst x \<and> left_cells (X \<union> set (tl (ids_of ub s))) m (snd x))"
proof (rule wp_for [where I = "\<lambda>k x. fst x \<and> left_cells (X \<union> {ids_of ub s ! j | j. 0 < j \<and> j < k}) m (snd x)"])
  show "fst (True, m1) \<and> left_cells (X \<union> {ids_of ub s ! j | j. 0 < j \<and> j < 0}) m (snd (True, m1))" using assms(4) by simp
next
  fix k x assume k: "k < length (ids_of ub s)" "fst x \<and> left_cells (X \<union> {ids_of ub s ! j | j. 0 < j \<and> j < k}) m (snd x)"
  obtain m2 where x: "x = (True, m2)" using k(2) by (cases x) auto
  have lc: "left_cells (X \<union> {ids_of ub s ! j | j. 0 < j \<and> j < k}) m m2" using k(2) x by simp
  have r: "ids_of ub s ! k \<in> rows m" using assms(3) k(1) by (meson nth_mem subsetD)
  have e: "re_size m2 = re_size m" using lc by (simp add: left_cells_def same_frame_def)
  have nb: "\<not> (ids_of ub s ! k < 0 \<or> re_size m2 \<le> nat (ids_of ub s ! k))" using r e by auto
  have run: "unshare_id ub s k x = (if 0 < k then do { m \<leftarrow> leave_cell (ids_of ub s ! k) m2; Some (True, m) } else Some (True, m2))"
    using rec_ub_arraysD(3) [OF assms(1,2)] k(1) nb by (simp add: unshare_id_def x ids_of_def vget_def)
  have set: "insert (ids_of ub s ! k) (X \<union> {ids_of ub s ! j | j. 0 < j \<and> j < k}) = X \<union> {ids_of ub s ! j | j. 0 < j \<and> j < Suc k}" if "0 < k"
    using that by (auto simp: less_Suc_eq)
  show "wp (unshare_id ub s k x) (\<lambda>x. fst x \<and> left_cells (X \<union> {ids_of ub s ! j | j. 0 < j \<and> j < Suc k}) m (snd x))"
  proof (cases "0 < k")
    case True
    then show ?thesis unfolding run using left_cells_step [OF lc r] set by (simp add: wp_simps)
  next
    case False
    then show ?thesis unfolding run using lc by simp
  qed
next
  fix x assume x: "fst x \<and> left_cells (X \<union> {ids_of ub s ! j | j. 0 < j \<and> j < length (ids_of ub s)}) m (snd x)"
  have "{ids_of ub s ! j | j. 0 < j \<and> j < length (ids_of ub s)} = set (tl (ids_of ub s))"
    using set_tl_nth [of "ids_of ub s"] by simp
  then show "fst x \<and> left_cells (X \<union> set (tl (ids_of ub s))) m (snd x)" using x by simp
qed

lemma unshare_wp:
  assumes "rec_ub_arrays ub" "rec_inv m" "ids_fit m ub"
  shows "wp (unshare ub m) (\<lambda>x. fst x \<and> left_cells (extra_ids ub) m (snd x))"
  unfolding unshare_def
proof (rule wp_for [where I = "\<lambda>k x. fst x \<and> left_cells (\<Union>s < k. set (tl (ids_of ub s))) m (snd x)"])
  show "fst (True, m) \<and> left_cells (\<Union>s < 0. set (tl (ids_of ub s))) m (snd (True, m))" using left_cells_refl [OF assms(2)] by simp
next
  fix k x assume k: "k < ub_n_seqs ub" "fst x \<and> left_cells (\<Union>s < k. set (tl (ids_of ub s))) m (snd x)"
  obtain m1 where x: "x = (True, m1)" using k(2) by (cases x) auto
  have sub: "set (ids_of ub k) \<subseteq> rows m" using assms(3) k(1) by (auto simp: ids_fit_def all_ids_def)
  note d = rec_ub_arraysD [OF assms(1) k(1)]
  have u: "u32_of (int (length (ids_of ub k))) = length (ids_of ub k)" using d(6) by simp
  show "wp (do { n_id \<leftarrow> vget (ub_n_seq_id ub) (tok_of ub k); foldM (unshare_id ub k) [0..<u32_of n_id] x })
      (\<lambda>x. fst x \<and> left_cells (\<Union>s < Suc k. set (tl (ids_of ub s))) m (snd x))"
    using unshare_ids_wp [OF assms(1) k(1) sub, of "\<Union>s < k. set (tl (ids_of ub s))" m1] k(2) d(2,5) u x
    by (simp add: wp_simps lessThan_Suc Un_commute)
qed (simp add: extra_ids_def)

section \<open>A cell for every sequence\<close>

definition fresh :: "rec_mem \<Rightarrow> int \<Rightarrow> bool" where
  "fresh m i = (i \<in> rows m \<and> (\<forall>t \<in> rows m. tail_of m t \<noteq> i))"

text \<open>The sequences \<open>P\<close> have got a cell each; the contents of the others' cells are where they were.\<close>

definition settled :: "llama_seq_id set \<Rightarrow> rec_mem \<Rightarrow> rec_mem \<Rightarrow> bool" where
  "settled P m1 m = (same_frame m1 m \<and> re_used m = re_used m1 \<and> P \<subseteq> rows m1 \<and>
     (\<forall>t \<in> rows m1. t \<notin> P \<longrightarrow> tail_of m t = tail_of m1 t) \<and>
     (\<forall>p \<in> P. tail_of m p \<in> rows m1) \<and>
     (\<forall>p \<in> P. \<forall>t \<in> rows m1. tail_of m t = tail_of m p \<longrightarrow> t = p) \<and>
     (\<forall>p \<in> P. tail_of m p = tail_of m1 p \<or> seqs_at m1 (tail_of m p) = {}) \<and>
     (\<forall>i \<in> rows m1. seqs_at m i = {t \<in> rows m1. tail_of m t = i \<and> tail_of m1 t \<noteq> -1}) \<and>
     (\<forall>t \<in> rows m1. tail_of m1 t \<noteq> -1 \<longrightarrow> mc_pos (row m (tail_of m t)) = mc_pos (row m1 (tail_of m1 t)) \<and>
        mc_src (row m (tail_of m t)) = tail_of m1 t) \<and>
     (\<forall>i \<in> rows m1. seqs_at m i = {} \<longrightarrow> mc_pos (row m i) = -1 \<and> (mc_src (row m i) = -1 \<or> mc_src (row m i) = i)) \<and>
     (\<forall>i \<in> rows m1. seqs_at m1 i \<noteq> {} \<longrightarrow> seqs_at m i \<noteq> {}) \<and>
     (\<forall>i \<in> rows m1. mc_rs_max (row m i) = mc_rs_max (row m1 i)))"

lemma settledB:
  assumes "settled P m1 m"
  shows "same_frame m1 m" "re_used m = re_used m1" "P \<subseteq> rows m1"
    "\<forall>t \<in> rows m1. t \<notin> P \<longrightarrow> tail_of m t = tail_of m1 t"
    "\<forall>p \<in> P. tail_of m p \<in> rows m1"
    "\<forall>p \<in> P. \<forall>t \<in> rows m1. tail_of m t = tail_of m p \<longrightarrow> t = p"
    "\<forall>p \<in> P. tail_of m p = tail_of m1 p \<or> seqs_at m1 (tail_of m p) = {}"
    "\<forall>i \<in> rows m1. seqs_at m i = {t \<in> rows m1. tail_of m t = i \<and> tail_of m1 t \<noteq> -1}"
    "\<forall>t \<in> rows m1. tail_of m1 t \<noteq> -1 \<longrightarrow> mc_pos (row m (tail_of m t)) = mc_pos (row m1 (tail_of m1 t)) \<and>
        mc_src (row m (tail_of m t)) = tail_of m1 t"
    "\<forall>i \<in> rows m1. seqs_at m i = {} \<longrightarrow> mc_pos (row m i) = -1 \<and> (mc_src (row m i) = -1 \<or> mc_src (row m i) = i)"
    "\<forall>i \<in> rows m1. seqs_at m1 i \<noteq> {} \<longrightarrow> seqs_at m i \<noteq> {}"
    "\<forall>i \<in> rows m1. mc_rs_max (row m i) = mc_rs_max (row m1 i)"
  by (insert assms [unfolded settled_def]) (elim conjE, assumption)+

lemmas settledD = settledB [rule_format]

lemma settled_refl:
  assumes "rec_inv m1"
  shows "settled {} m1 m1"
proof -
  have l: "linked {} m1" using rec_invD(6) [OF assms] .
  have q: "seqs_at m1 i = {t \<in> rows m1. tail_of m1 t = i \<and> tail_of m1 t \<noteq> -1}" if "i \<in> rows m1" for i
  proof -
    have "seqs_at m1 i = {t \<in> rows m1. tail_of m1 t = i}" using linkedD(2) [OF l that] by blast
    also have "... = {t \<in> rows m1. tail_of m1 t = i \<and> tail_of m1 t \<noteq> -1}" using that by (intro Collect_cong) auto
    finally show ?thesis .
  qed
  have c: "mc_src (row m1 (tail_of m1 t)) = tail_of m1 t" if t: "t \<in> rows m1" "tail_of m1 t \<noteq> -1" for t
    using contents_used(3) [OF rec_invD(7) [OF assms linkedD(1) [OF l t]]] tail_nonempty [OF l t] by auto
  have e: "mc_pos (row m1 i) = -1 \<and> (mc_src (row m1 i) = -1 \<or> mc_src (row m1 i) = i)" if "i \<in> rows m1" "seqs_at m1 i = {}" for i
    using contents_empty [OF rec_invD(7) [OF assms that(1)] that(2)] by simp
  show ?thesis unfolding settled_def using q c e by simp
qed

lemma settled_tail_range:
  assumes "rec_inv m1" "settled P m1 m" "t \<in> rows m1"
  shows "tail_of m t = -1 \<or> tail_of m t \<in> rows m1"
proof (cases "t \<in> P")
  case True
  then show ?thesis using settledD(5) [OF assms(2)] by blast
next
  case False
  then show ?thesis using settledD(4) [OF assms(2,3)] linkedD(1) [OF rec_invD(6) [OF assms(1)] assms(3)] by auto
qed

lemma settled_live:
  assumes "rec_inv m1" "settled P m1 m" "t \<in> rows m1" "tail_of m1 t \<noteq> -1"
  shows "tail_of m t \<in> rows m1"
proof (cases "t \<in> P")
  case True
  then show ?thesis by (rule settledD(5) [OF assms(2)])
next
  case False
  then show ?thesis using settledD(4) [OF assms(2,3)] linkedD(1) [OF rec_invD(6) [OF assms(1)] assms(3,4)] by simp
qed

lemma fresh_empty:
  assumes "rec_inv m1" "settled P m1 m" "fresh m e"
  shows "e \<in> rows m1" "seqs_at m e = {}" "seqs_at m1 e = {}" "\<And>t. t \<in> rows m1 \<Longrightarrow> tail_of m t \<noteq> e"
proof -
  have sz: "re_size m = re_size m1" using same_frameD(1) [OF settledD(1) [OF assms(2)]] .
  show e: "e \<in> rows m1" and n: "\<And>t. t \<in> rows m1 \<Longrightarrow> tail_of m t \<noteq> e" using assms(3) sz by (auto simp: fresh_def)
  show q: "seqs_at m e = {}" using settledD(8) [OF assms(2) e] n by blast
  show "seqs_at m1 e = {}" using settledD(11) [OF assms(2) e] q by blast
qed

text \<open>A sequence without a cell, or sharing one, leaves a cell that is nobody's.\<close>

lemma fresh_exists:
  assumes "rec_inv m1" "settled P m1 m" "p \<in> rows m1"
    "tail_of m p = -1 \<or> (\<exists>t \<in> rows m1. t \<noteq> p \<and> tail_of m t = tail_of m p)"
  shows "\<exists>e. fresh m e"
proof -
  have sz: "re_size m = re_size m1" using same_frameD(1) [OF settledD(1) [OF assms(2)]] .
  have sub: "rows m1 \<inter> tail_of m ` rows m1 \<subseteq> tail_of m ` (rows m1 - {p})" 
  proof
    fix i assume "i \<in> rows m1 \<inter> tail_of m ` rows m1"
    then obtain t where t: "t \<in> rows m1" "i = tail_of m t" "i \<noteq> -1" by auto
    show "i \<in> tail_of m ` (rows m1 - {p})"
    proof (cases "t = p")
      case True
      then obtain u where "u \<in> rows m1" "u \<noteq> p" "tail_of m u = tail_of m p" using assms(4) t by auto
      then show ?thesis using True t(2) by (intro image_eqI [of _ _ u]) auto
    qed (use t in blast)
  qed
  have "card (rows m1 \<inter> tail_of m ` rows m1) \<le> card (rows m1 - {p})"
    by (rule order_trans [OF card_mono [OF _ sub] card_image_le]) simp_all
  also have "... < card (rows m1)" by (rule card_Diff1_less [OF _ assms(3)]) simp
  finally have "rows m1 \<inter> tail_of m ` rows m1 \<noteq> rows m1" by (rule contrapos_pn) simp
  then obtain e where "e \<in> rows m1" "e \<notin> tail_of m ` rows m1" by blast
  then show ?thesis using sz by (auto simp: fresh_def)
qed

lemma settled_own:
  assumes "settled P m1 m" "p \<in> rows m1" "p \<notin> P" "tail_of m p \<in> rows m1" "card (seqs_at m (tail_of m p)) = 1"
  shows "settled (insert p P) m1 m"
proof -
  note d = settledD [OF assms(1)]
  have tp: "tail_of m p = tail_of m1 p" using d(4) [OF assms(2,3)] .
  have L: "seqs_at m (tail_of m p) = {t \<in> rows m1. tail_of m t = tail_of m p \<and> tail_of m1 t \<noteq> -1}" using d(8) [OF assms(4)] .
  have "p \<in> seqs_at m (tail_of m p)" using L assms(2,4) tp by auto
  then have one: "seqs_at m (tail_of m p) = {p}" using assms(5) by (metis card_1_singletonE singletonD)
  have uniq: "t = p" if t: "t \<in> rows m1" "tail_of m t = tail_of m p" for t
  proof (cases "t \<in> P")
    case True
    then show ?thesis using d(6) [OF True assms(2)] t(2) by metis
  next
    case False
    then have "tail_of m1 t \<noteq> -1" using d(4) [OF t(1) False] t(2) assms(4) by auto
    then show ?thesis using L one t by blast
  qed
  show ?thesis
    unfolding settled_def
    using d(1-3) d(4) assms(2,4) tp d(5,6) uniq d(7-12) by simp
qed

lemma settled_new:
  assumes "rec_inv m1" "settled P m1 m" "p \<in> rows m1" "p \<notin> P" "tail_of m p = -1" "fresh m e"
  shows "wp (set_tail p e m) (\<lambda>m'. settled (insert p P) m1 m' \<and> (\<forall>t \<in> rows m1. tail_of m' t = (if t = p then e else tail_of m t)) \<and>
    (\<forall>i \<in> rows m1. seqs_at m' i = seqs_at m i))"
proof -
  note d = settledD [OF assms(2)] and fe = fresh_empty [OF assms(1,2,6)]
  have sz: "sized m" "p \<in> rows m" using same_frameD [OF d(1)] rec_invD(1) [OF assms(1)] assms(3) by auto
  define m' where "m' = put_cell (nat p) (row m p\<lparr>mc_tail := e\<rparr>) m"
  have r: "row m' i = (if i = p then row m p\<lparr>mc_tail := e\<rparr> else row m i)" if "i \<in> rows m1" for i
    unfolding m'_def by (rule row_put_cell [OF sz]) (use that same_frameD(1) [OF d(1)] in auto)
  have f: "tail_of m' i = (if i = p then e else tail_of m i)" "seqs_at m' i = seqs_at m i" "mc_pos (row m' i) = mc_pos (row m i)"
    "mc_src (row m' i) = mc_src (row m i)" "mc_rs_max (row m' i) = mc_rs_max (row m i)" if "i \<in> rows m1" for i
    using r [OF that] by auto
  have tp: "tail_of m1 p = -1" using d(4) [OF assms(3,4)] assms(5) by simp
  have sf: "same_frame m1 m'" "re_used m' = re_used m1" using d(1,2) by (simp_all add: m'_def)
  have old: "q \<in> rows m1" "q \<noteq> p" "tail_of m' q = tail_of m q" if "q \<in> P" for q
  proof -
    show q: "q \<in> rows m1" "q \<noteq> p" using that d(3) assms(4) by auto
    show "tail_of m' q = tail_of m q" using f(1) [OF q(1)] q(2) by simp
  qed
  have new: "tail_of m' p = e" using f(1) [OF assms(3)] by simp
  have uniq: "t = q" if q: "q \<in> insert p P" and t: "t \<in> rows m1" "tail_of m' t = tail_of m' q" for q t
  proof (cases "q = p")
    case True
    then show ?thesis using t new f(1) [OF t(1)] fe(4) [OF t(1)] by (auto split: if_splits)
  next
    case False
    then have qP: "q \<in> P" using q by simp
    have "t \<noteq> p" using t(2) new old(3) [OF qP] fe(4) [OF old(1) [OF qP]] by auto
    then show ?thesis using t f(1) [OF t(1)] old(3) [OF qP] d(6) [OF qP t(1)] by simp
  qed
  have O: "tail_of m' q \<in> rows m1" "tail_of m' q = tail_of m1 q \<or> seqs_at m1 (tail_of m' q) = {}" if q: "q \<in> insert p P" for q
    using q new fe(1,3) old(3) [of q] d(5) [of q] d(7) [of q] by (metis insertE)+
  have L: "seqs_at m' i = {t \<in> rows m1. tail_of m' t = i \<and> tail_of m1 t \<noteq> -1}" if i: "i \<in> rows m1" for i
    using f(1,2) d(8) [OF i] i tp by auto
  have C: "mc_pos (row m' (tail_of m' t)) = mc_pos (row m1 (tail_of m1 t)) \<and> mc_src (row m' (tail_of m' t)) = tail_of m1 t"
    if t: "t \<in> rows m1" "tail_of m1 t \<noteq> -1" for t
  proof -
    have "t \<noteq> p" using t(2) tp by auto
    moreover have "tail_of m t \<in> rows m1" by (rule settled_live [OF assms(1,2) t])
    ultimately show ?thesis using f(1) [OF t(1)] f(3,4) d(9) [OF t] by simp
  qed
  have "settled (insert p P) m1 m'"
    unfolding settled_def
  proof (intro conjI ballI impI)
    show "insert p P \<subseteq> rows m1" using d(3) assms(3) by simp
  next
    fix t assume "t \<in> rows m1" "t \<notin> insert p P"
    then show "tail_of m' t = tail_of m1 t" using d(4) f(1) by simp
  next
    fix i assume i: "i \<in> rows m1" "seqs_at m1 i \<noteq> {}"
    then show "seqs_at m' i \<noteq> {}" using d(11) f(2) by simp
  next
    fix q t assume "q \<in> insert p P" "t \<in> rows m1" "tail_of m' t = tail_of m' q"
    then show "t = q" by (rule uniq)
  next
    fix i assume i: "i \<in> rows m1" "seqs_at m' i = {}"
    then show "mc_pos (row m' i) = -1" "mc_src (row m' i) = -1 \<or> mc_src (row m' i) = i" using d(10) [OF i(1)] f [OF i(1)] by simp_all
  next
    fix i assume "i \<in> rows m1"
    then show "mc_rs_max (row m' i) = mc_rs_max (row m1 i)" using d(12) f(5) by simp
  next
    fix t assume "t \<in> rows m1" "tail_of m1 t \<noteq> -1"
    then show "mc_pos (row m' (tail_of m' t)) = mc_pos (row m1 (tail_of m1 t))" "mc_src (row m' (tail_of m' t)) = tail_of m1 t"
      using C by blast+
  qed (use sf O L in blast)+
  moreover have "set_tail p e m = Some m'" using set_tail_at [OF sz] by (simp add: m'_def)
  ultimately show ?thesis using f(1,2) by (simp add: wp_def)
qed

lemma copy_tail_at:
  assumes "sized m" "t \<in> rows m" "e \<in> rows m" "e \<noteq> t" "seqs_at m t - {p} \<noteq> {}"
  shows "wp (copy_tail p t (nat e) m) (\<lambda>m'. same_frame m m' \<and> re_used m' = re_used m \<and>
    (\<forall>i \<in> rows m. row m' i = (if i = e then (row m e)\<lparr>mc_pos := mc_pos (row m t), mc_src := mc_src (row m t), mc_seq_id := insert p (seqs_at m e)\<rparr>
       else if i = t then (row m t)\<lparr>mc_seq_id := seqs_at m t - {p}\<rparr> else row m i)))"
proof -
  define a where "a = put_cell (nat e) (row m e\<lparr>mc_pos := mc_pos (row m t), mc_src := mc_src (row m t)\<rparr>) m"
  have ra: "row a i = (if i = e then row m e\<lparr>mc_pos := mc_pos (row m t), mc_src := mc_src (row m t)\<rparr> else row m i)" if "i \<in> rows m" for i
    unfolding a_def by (rule row_put_cell [OF assms(1,3) that])
  define b where "b = put_cell (nat t) (row a t\<lparr>mc_seq_id := seqs_at a t - {p}\<rparr>) a"
  have rb: "row b i = (if i = t then row a t\<lparr>mc_seq_id := seqs_at a t - {p}\<rparr> else row a i)" if "i \<in> rows m" for i
    unfolding b_def by (rule row_put_cell) (use assms that in \<open>simp_all add: a_def\<close>)
  define c where "c = put_cell (nat e) (row b e\<lparr>mc_seq_id := insert p (seqs_at b e)\<rparr>) b"
  have rc: "row c i = (if i = e then row b e\<lparr>mc_seq_id := insert p (seqs_at b e)\<rparr> else row b i)" if "i \<in> rows m" for i
    unfolding c_def by (rule row_put_cell) (use assms that in \<open>simp_all add: a_def b_def\<close>)
  have sz: "sized a" "sized b" "sized c" "re_size a = re_size m" "re_size b = re_size m" "re_size c = re_size m"
    using assms(1) by (simp_all add: a_def b_def c_def)
  have ne: "\<not> cell_is_empty (row c t)"
    using rc [OF assms(2)] rb [OF assms(2)] ra [OF assms(2)] assms(4,5) by (auto simp: cell_is_empty_def)
  have g: "vget (re_cells m) (nat e) = Some (row m e)" "vget (re_cells b) (nat e) = Some (row b e)"
    using assms(1,3) sz by (auto simp: row_def sized_def vget_def)
  have run: "copy_tail p t (nat e) m = Some c"
    unfolding copy_tail_def Let_def g(1) mem_at_row [OF assms(1,2)] Option.bind.bind_lunit a_def [symmetric]
    using assms(2) sz ne g(2) by (simp only: mem_at_row Option.bind.bind_lunit b_def [symmetric] c_def [symmetric] ensure_True if_True simp_thms)
  have rows: "row c i = (if i = e then (row m e)\<lparr>mc_pos := mc_pos (row m t), mc_src := mc_src (row m t), mc_seq_id := insert p (seqs_at m e)\<rparr>
       else if i = t then (row m t)\<lparr>mc_seq_id := seqs_at m t - {p}\<rparr> else row m i)" if "i \<in> rows m" for i
    unfolding rc [OF that] rb [OF that] rb [OF assms(3)] ra [OF that] ra [OF assms(2)] ra [OF assms(3)] using assms(4) by simp
  have "same_frame m c" "re_used c = re_used m" by (simp_all add: a_def b_def c_def)
  then show ?thesis using run rows by (simp add: wp_def)
qed

lemma settled_copy:
  assumes "rec_inv m1" "settled P m1 m" "p \<in> rows m1" "p \<notin> P" "tail_of m p \<noteq> -1" "card (seqs_at m (tail_of m p)) \<noteq> 1" "fresh m e"
  shows "wp (do { m \<leftarrow> copy_tail p (tail_of m p) (nat e) m; set_tail p e m })
    (\<lambda>m'. settled (insert p P) m1 m' \<and> (\<forall>t \<in> rows m1. tail_of m' t = (if t = p then e else tail_of m t)) \<and>
      (\<forall>i \<in> rows m1. seqs_at m' i = {} \<longleftrightarrow> (seqs_at m i = {} \<and> i \<noteq> e)))"
proof -
  note d = settledD [OF assms(2)] and fe = fresh_empty [OF assms(1,2,7)]
  define t0 where "t0 = tail_of m p"
  note sfD = same_frameD [OF d(1)]
  have sz: "sized m" "p \<in> rows m" "e \<in> rows m" using sfD rec_invD(1) [OF assms(1)] assms(3) fe(1) by auto
  have tp: "tail_of m1 p = t0" using d(4) [OF assms(3,4)] by (simp add: t0_def)
  have t0: "t0 \<in> rows m1" "t0 \<noteq> e" "t0 \<noteq> -1"
    using settled_tail_range [OF assms(1,2,3)] assms(5) fe(4) [OF assms(3)] by (auto simp: t0_def)
  have p_in: "p \<in> seqs_at m t0" using d(8) [OF t0(1)] assms(3,5) tp by (auto simp: t0_def)
  have others: "seqs_at m t0 - {p} \<noteq> {}"
  proof
    assume "seqs_at m t0 - {p} = {}"
    then have "seqs_at m t0 = {p}" using p_in by blast
    then show False using assms(6) by (simp add: t0_def)
  qed
  have "t0 \<in> rows m" using t0(1) sfD(1) by simp
  then obtain a where a: "copy_tail p t0 (nat e) m = Some a" "same_frame m a" "re_used a = re_used m"
    and ra: "\<And>i. i \<in> rows m1 \<Longrightarrow> row a i = (if i = e then (row m e)\<lparr>mc_pos := mc_pos (row m t0), mc_src := mc_src (row m t0), mc_seq_id := insert p (seqs_at m e)\<rparr>
       else if i = t0 then (row m t0)\<lparr>mc_seq_id := seqs_at m t0 - {p}\<rparr> else row m i)"
    using copy_tail_at [OF sz(1) _ sz(3) _ others] t0(2) sfD(1) by (auto elim!: wpE)
  define m' where "m' = put_cell (nat p) (row a p\<lparr>mc_tail := e\<rparr>) a"
  have sza: "sized a" "p \<in> rows a" using same_frameD(1,7) [OF a(2)] sz by auto
  have st: "set_tail p e a = Some m'" using set_tail_at [OF sza] by (simp add: m'_def)
  have r: "row m' i = (if i = p then row a p\<lparr>mc_tail := e\<rparr> else row a i)" if "i \<in> rows m1" for i
    unfolding m'_def by (rule row_put_cell [OF sza]) (use that same_frameD(1) [OF a(2)] sfD(1) in auto)
  have f: "tail_of m' i = (if i = p then e else tail_of m i)"
    "seqs_at m' i = (if i = e then {p} else if i = t0 then seqs_at m t0 - {p} else seqs_at m i)"
    "mc_pos (row m' i) = (if i = e then mc_pos (row m t0) else mc_pos (row m i))"
    "mc_src (row m' i) = (if i = e then mc_src (row m t0) else mc_src (row m i))" "mc_rs_max (row m' i) = mc_rs_max (row m i)" if "i \<in> rows m1" for i
    unfolding r [OF that] ra [OF that] ra [OF assms(3)] using fe(2) by simp_all
  have sf: "same_frame m1 m'" "re_used m' = re_used m1" using same_frame_trans [OF d(1) a(2)] a(3) d(2) by (simp_all add: m'_def)
  have old: "q \<in> rows m1" "q \<noteq> p" "tail_of m' q = tail_of m q" if "q \<in> P" for q
  proof -
    show q: "q \<in> rows m1" "q \<noteq> p" using that d(3) assms(4) by auto
    show "tail_of m' q = tail_of m q" using f(1) [OF q(1)] q(2) by simp
  qed
  have new: "tail_of m' p = e" using f(1) [OF assms(3)] by simp
  have uniq: "t = q" if q: "q \<in> insert p P" and t: "t \<in> rows m1" "tail_of m' t = tail_of m' q" for q t
  proof (cases "q = p")
    case True
    then show ?thesis using t new f(1) [OF t(1)] fe(4) [OF t(1)] by (auto split: if_splits)
  next
    case False
    then have qP: "q \<in> P" using q by simp
    have "t \<noteq> p" using t(2) new old(3) [OF qP] fe(4) [OF old(1) [OF qP]] by auto
    then show ?thesis using t f(1) [OF t(1)] old(3) [OF qP] d(6) [OF qP t(1)] by simp
  qed
  have O: "tail_of m' q \<in> rows m1" "tail_of m' q = tail_of m1 q \<or> seqs_at m1 (tail_of m' q) = {}" if q: "q \<in> insert p P" for q
    using q new fe(1,3) old(3) [of q] d(5) [of q] d(7) [of q] by (metis insertE)+
  have L: "seqs_at m' i = {t \<in> rows m1. tail_of m' t = i \<and> tail_of m1 t \<noteq> -1}" if i: "i \<in> rows m1" for i
  proof (cases "i = e")
    case True
    have only_p: "t = p" if "t \<in> rows m1" "tail_of m' t = e" for t
      using f(1) [OF that(1)] fe(4) [OF that(1)] that(2) by (simp split: if_splits)
    have "tail_of m1 p \<noteq> -1" using tp t0(3) by simp
    then have "{t \<in> rows m1. tail_of m' t = e \<and> tail_of m1 t \<noteq> -1} = {p}"
      using only_p new assms(3) by blast
    then show ?thesis using f(2) [OF i] True by simp
  next
    case False
    have "t \<in> rows m1 \<Longrightarrow> (tail_of m' t = i) = (tail_of m t = i \<and> t \<noteq> p)" for t
      using f(1) [of t] False by simp
    then have "{t \<in> rows m1. tail_of m' t = i \<and> tail_of m1 t \<noteq> -1} = {t \<in> rows m1. tail_of m t = i \<and> tail_of m1 t \<noteq> -1} - {p}"
      by blast
    also have "... = seqs_at m i - {p}" using d(8) [OF i] by simp
    also have "... = seqs_at m' i"
    proof (cases "i = t0")
      case t0i: False
      have "p \<notin> seqs_at m i" using d(8) [OF i] t0i by (simp add: t0_def)
      then show ?thesis using f(2) [OF i] False t0i by simp
    qed (use f(2) [OF i] False in simp)
    finally show ?thesis by simp
  qed
  have C: "mc_pos (row m' (tail_of m' t)) = mc_pos (row m1 (tail_of m1 t)) \<and> mc_src (row m' (tail_of m' t)) = tail_of m1 t"
    if t: "t \<in> rows m1" "tail_of m1 t \<noteq> -1" for t
  proof (cases "t = p")
    case True
    then show ?thesis using new f(3,4) [OF fe(1)] d(9) [OF t] by (simp add: t0_def)
  next
    case False
    have tr: "tail_of m t \<in> rows m1" by (rule settled_live [OF assms(1,2) t])
    then show ?thesis using False f(1) [OF t(1)] f(3,4) [OF tr] fe(4) [OF t(1)] d(9) [OF t] by simp
  qed
  have emp: "seqs_at m' i = {} \<longleftrightarrow> (seqs_at m i = {} \<and> i \<noteq> e)" if "i \<in> rows m1" for i
    using f(2) [OF that] others p_in by auto
  have "settled (insert p P) m1 m'"
    unfolding settled_def
  proof (intro conjI ballI impI)
    show "insert p P \<subseteq> rows m1" using d(3) assms(3) by simp
  next
    fix t assume "t \<in> rows m1" "t \<notin> insert p P"
    then show "tail_of m' t = tail_of m1 t" using d(4) f(1) by simp
  next
    fix i assume i: "i \<in> rows m1" "seqs_at m1 i \<noteq> {}"
    then show "seqs_at m' i \<noteq> {}" using d(11) emp fe(3) by blast
  next
    fix q t assume "q \<in> insert p P" "t \<in> rows m1" "tail_of m' t = tail_of m' q"
    then show "t = q" by (rule uniq)
  next
    fix i assume i: "i \<in> rows m1" "seqs_at m' i = {}"
    then have "seqs_at m i = {}" "i \<noteq> e" using emp by blast+
    then show "mc_pos (row m' i) = -1" "mc_src (row m' i) = -1 \<or> mc_src (row m' i) = i" using d(10) [OF i(1)] f [OF i(1)] by simp_all
  next
    fix i assume "i \<in> rows m1"
    then show "mc_rs_max (row m' i) = mc_rs_max (row m1 i)" using d(12) f(5) by simp
  next
    fix t assume "t \<in> rows m1" "tail_of m1 t \<noteq> -1"
    then show "mc_pos (row m' (tail_of m' t)) = mc_pos (row m1 (tail_of m1 t))" "mc_src (row m' (tail_of m' t)) = tail_of m1 t"
      using C by blast+
  qed (use sf O L in blast)+
  then show ?thesis using a(1) st f(1) emp by (simp add: t0_def wp_def)
qed

end
