(* ===== verification/RecAssign.thy ===== *)
theory RecAssign
  imports RecPlace
begin

text \<open>
  The searches for the next empty cell and the loop of \<open>find_slot\<close> that gives every sequence of the
  micro-batch a cell of its own.  Cells are visited in the order \<open>h, h + 1, ...\<close> around the end;
  a cell taken by a sequence without a state still looks empty, so the argument is that all such
  cells have been passed.
\<close>

section \<open>The circular order\<close>

abbreviation nth_cell :: "rec_mem \<Rightarrow> nat \<Rightarrow> nat \<Rightarrow> nat" where
  "nth_cell m h j \<equiv> (h + j) mod re_size m"

lemma nth_cell_inj:
  assumes "a < n" "b < n" "(h + a) mod n = (h + b) mod (n :: nat)"
  shows "a = b"
proof -
  have "a = b" if "a \<le> b" "a < n" "b < n" "(h + b) mod n = (h + a) mod n" for a b
  proof -
    have "n dvd (h + b) - (h + a)" using that by (subst mod_eq_dvd_iff_nat [symmetric]) auto
    then have "n dvd b - a" by simp
    then show ?thesis using that(1,3) by (cases "b - a = 0") (auto dest!: dvd_imp_le)
  qed
  then show ?thesis using assms by (metis nle_le)
qed

lemma nth_cell_surj:
  assumes "i < (n :: nat)"
  shows "\<exists>a < n. (h + a) mod n = i"
proof (intro exI conjI)
  show "(i + (n - h mod n)) mod n < n" using assms by simp
  have hn: "h mod n < n" using assms by simp
  have "(h + (i + (n - h mod n)) mod n) mod n = (h mod n + (i + (n - h mod n))) mod n"
    by (metis mod_add_left_eq mod_add_right_eq)
  also have "h mod n + (i + (n - h mod n)) = i + n" using hn by linarith
  finally show "(h + (i + (n - h mod n)) mod n) mod n = i" using assms by simp
qed

lemma wrap_nth_cell: "0 < re_size m \<Longrightarrow> wrap_cell m (nth_cell m h j + 1) = nth_cell m h (Suc j)"
proof -
  assume "0 < re_size m"
  then obtain x where x: "x = nth_cell m h j" "x < re_size m" by simp
  have "nth_cell m h (Suc j) = (if Suc x = re_size m then 0 else Suc x)" by (simp add: mod_Suc x(1))
  then show ?thesis unfolding x(1) [symmetric] using x(2) by (simp add: wrap_cell_def)
qed

lemma empty_at: "sized m \<Longrightarrow> i < re_size m \<Longrightarrow> vget (re_cells m) i = Some (row m (int i))"
  by (simp add: row_def sized_def vget_def)

lemma next_empty_at:
  assumes "sized m" "0 < re_size m" "j < a" "a \<le> j + k" "seqs_at m (int (nth_cell m h a)) = {}"
    "\<And>b. j < b \<Longrightarrow> b < a \<Longrightarrow> seqs_at m (int (nth_cell m h b)) \<noteq> {}"
  shows "next_empty m k (nth_cell m h j) = Some (nth_cell m h a)"
  using assms
proof (induction k arbitrary: j)
  case (Suc k)
  have w: "wrap_cell m (nth_cell m h j + 1) = nth_cell m h (Suc j)" using wrap_nth_cell [OF Suc.prems(2)] .
  have g: "vget (re_cells m) (nth_cell m h (Suc j)) = Some (row m (int (nth_cell m h (Suc j))))"
    by (rule empty_at [OF Suc.prems(1)]) (use Suc.prems(2) in simp)
  show ?case
  proof (cases "a = Suc j")
    case True
    then show ?thesis unfolding next_empty.simps w g Option.bind.bind_lunit using Suc.prems(5) by (simp add: cell_is_empty_def)
  next
    case False
    have "seqs_at m (int (nth_cell m h (Suc j))) \<noteq> {}" by (rule Suc.prems(6)) (use False Suc.prems(3) in auto)
    moreover have "next_empty m k (nth_cell m h (Suc j)) = Some (nth_cell m h a)"
      by (rule Suc.IH) (use Suc.prems False in auto)
    ultimately show ?thesis unfolding next_empty.simps w g Option.bind.bind_lunit by (simp add: cell_is_empty_def)
  qed
qed simp

lemma next_empty_some:
  assumes "sized m" "nx < re_size m"
  shows "\<exists>y. next_empty m k nx = Some y"
  using assms(2)
proof (induction k arbitrary: nx)
  case (Suc k)
  have w: "wrap_cell m (nx + 1) < re_size m" using Suc.prems by (simp add: wrap_cell_def)
  show ?case unfolding next_empty.simps empty_at [OF assms(1) w] Option.bind.bind_lunit
    using Suc.IH [OF w] by (cases "cell_is_empty (row m (int (wrap_cell m (nx + 1))))") simp_all
qed simp

lemma first_empty_at:
  assumes "sized m" "0 < re_size m" "wrap_cell m nx = nth_cell m h j" "j \<le> a" "a < j + k" "seqs_at m (int (nth_cell m h a)) = {}"
    "\<And>b. j \<le> b \<Longrightarrow> b < a \<Longrightarrow> seqs_at m (int (nth_cell m h b)) \<noteq> {}"
  shows "first_empty m k nx = Some (nth_cell m h a)"
  using assms
proof (induction k arbitrary: j nx)
  case (Suc k)
  note w = Suc.prems(3)
  have g: "vget (re_cells m) (nth_cell m h j) = Some (row m (int (nth_cell m h j)))"
    by (rule empty_at [OF Suc.prems(1)]) (use Suc.prems(2) in simp)
  show ?case
  proof (cases "a = j")
    case True
    then show ?thesis unfolding first_empty.simps w g Option.bind.bind_lunit using Suc.prems(6) by (simp add: cell_is_empty_def)
  next
    case False
    have "seqs_at m (int (nth_cell m h j)) \<noteq> {}" by (rule Suc.prems(7)) (use False Suc.prems(4) in auto)
    moreover have "first_empty m k (nth_cell m h j + 1) = Some (nth_cell m h a)"
      by (rule Suc.IH [of _ "Suc j"]) (use Suc.prems False wrap_nth_cell [OF Suc.prems(2)] in auto)
    ultimately show ?thesis unfolding first_empty.simps w g Option.bind.bind_lunit by (simp add: cell_is_empty_def)
  qed
qed simp

lemma first_empty_some:
  assumes "sized m" "0 < re_size m" "nx \<le> re_size m"
  shows "\<exists>y. first_empty m k nx = Some y"
  using assms(3)
proof (induction k arbitrary: nx)
  case (Suc k)
  have w: "wrap_cell m nx < re_size m" using Suc.prems assms(2) by (simp add: wrap_cell_def)
  then have w1: "wrap_cell m nx + 1 \<le> re_size m" by simp
  show ?case unfolding first_empty.simps empty_at [OF assms(1) w] Option.bind.bind_lunit
    using Suc.IH [OF w1] by (cases "cell_is_empty (row m (int (wrap_cell m nx)))") simp_all
qed simp

section \<open>The search position\<close>

text \<open>If some cell is nobody's, \<open>nx\<close> is the first such cell, and all taken cells that look empty lie before it.\<close>

definition scan_ok :: "nat \<Rightarrow> rec_mem \<Rightarrow> nat \<Rightarrow> bool" where
  "scan_ok h m nx = ((\<exists>e. fresh m e) \<longrightarrow> (\<exists>j < re_size m. nx = nth_cell m h j \<and> fresh m (int nx) \<and>
     (\<forall>b < j. \<not> fresh m (int (nth_cell m h b))) \<and>
     (\<forall>i \<in> rows m. seqs_at m i = {} \<and> \<not> fresh m i \<longrightarrow> (\<exists>b < j. i = int (nth_cell m h b)))))"

lemma fresh_nth:
  assumes "fresh m e"
  shows "\<exists>a < re_size m. e = int (nth_cell m h a)"
proof -
  have e: "0 \<le> e" "nat e < re_size m" using assms by (auto simp: fresh_def nat_less_iff)
  obtain a where "a < re_size m" "nth_cell m h a = nat e" using nth_cell_surj [OF e(2)] by blast
  then show ?thesis using e(1) by (intro exI [of _ a]) auto
qed

lemma scan_first:
  assumes "rec_inv m" "0 < re_size m"
  shows "wp (first_empty m (re_size m) (re_head m)) (scan_ok (re_head m) m)"
proof -
  let ?h = "re_head m" let ?n = "re_size m"
  have sz: "sized m" and l: "linked {} m" and hd: "?h \<le> ?n" using rec_invD(1,6,4) [OF assms(1)] .
  have emp: "seqs_at m i = {} \<longleftrightarrow> fresh m i" if "i \<in> rows m" for i
  proof -
    have "seqs_at m i = {t \<in> rows m. tail_of m t = i}" using linkedD(2) [OF l that] by blast
    then show ?thesis using that unfolding fresh_def by blast
  qed
  show ?thesis
  proof (cases "\<exists>e. fresh m e")
    case False
    then show ?thesis using first_empty_some [OF sz assms(2) hd] by (auto simp: scan_ok_def wp_def)
  next
    case True
    then obtain e where e: "fresh m e" by blast
    define a where "a = (LEAST a. fresh m (int (nth_cell m ?h a)))"
    obtain a0 where a0': "a0 < ?n" "e = int (nth_cell m ?h a0)" using fresh_nth [OF e, of ?h] by blast
    have a0: "a0 < ?n" "fresh m (int (nth_cell m ?h a0))" using a0' e by simp_all
    have fa: "fresh m (int (nth_cell m ?h a))" unfolding a_def by (rule LeastI [where P = "\<lambda>a. fresh m (int (nth_cell m ?h a))", OF a0(2)])
    have le: "a \<le> a0" unfolding a_def by (rule Least_le [where P = "\<lambda>a. fresh m (int (nth_cell m ?h a))", OF a0(2)])
    have less: "\<not> fresh m (int (nth_cell m ?h b))" if "b < a" for b
      using that not_less_Least unfolding a_def by blast
    have r: "int (nth_cell m ?h b) \<in> rows m" for b using assms(2) by simp
    have w: "wrap_cell m ?h = nth_cell m ?h 0" using hd assms(2) by (auto simp: wrap_cell_def)
    have "first_empty m ?n ?h = Some (nth_cell m ?h a)"
    proof (rule first_empty_at [OF sz assms(2) w])
      show "seqs_at m (int (nth_cell m ?h a)) = {}" using emp [OF r] fa by blast
      show "seqs_at m (int (nth_cell m ?h b)) \<noteq> {}" if "b < a" for b using emp [OF r] less [OF that] by blast
    qed (use le a0(1) in auto)
    moreover have "scan_ok ?h m (nth_cell m ?h a)"
      unfolding scan_ok_def using fa less le a0(1) emp by (intro impI exI [of _ a]) auto
    ultimately show ?thesis by (simp add: wp_def)
  qed
qed

text \<open>The search after the cell \<open>e\<close> has been taken.\<close>

lemma scan_next:
  assumes "scan_ok h m nx" "fresh m (int nx)" "sized m'" "re_size m' = re_size m"
    "\<And>i. i \<in> rows m \<Longrightarrow> fresh m' i \<longleftrightarrow> fresh m i \<and> i \<noteq> int nx"
    "\<And>i. i \<in> rows m \<Longrightarrow> fresh m' i \<Longrightarrow> seqs_at m' i = {}"
    "\<And>i. i \<in> rows m \<Longrightarrow> seqs_at m' i = {} \<Longrightarrow> seqs_at m i = {}"
  shows "wp (next_empty m' (re_size m') nx) (scan_ok h m')"
proof -
  let ?n = "re_size m"
  have nx: "nx < ?n" using assms(2) by (auto simp: fresh_def)
  obtain j where j: "j < ?n" "nx = nth_cell m h j" "\<And>b. b < j \<Longrightarrow> \<not> fresh m (int (nth_cell m h b))"
    "\<And>i. i \<in> rows m \<Longrightarrow> seqs_at m i = {} \<Longrightarrow> \<not> fresh m i \<Longrightarrow> \<exists>b < j. i = int (nth_cell m h b)"
    using assms(1,2) unfolding scan_ok_def by blast
  have same: "nth_cell m' h b = nth_cell m h b" for b by (simp add: assms(4))
  have r: "int (nth_cell m h b) \<in> rows m" for b using nx by simp
  show ?thesis
  proof (cases "\<exists>e. fresh m' e")
    case False
    then show ?thesis using next_empty_some [OF assms(3), of nx "re_size m'"] nx assms(4) by (auto simp: scan_ok_def wp_def)
  next
    case True
    then obtain e where e: "fresh m' e" by blast
    let ?P = "\<lambda>a. j < a \<and> seqs_at m' (int (nth_cell m h a)) = {}"
    define a where "a = (LEAST a. ?P a)"
    obtain a0 where a0: "a0 < ?n" "e = int (nth_cell m h a0)" using fresh_nth [OF e, of h] assms(4) by auto
    have fe: "fresh m e" "e \<noteq> int nx" using assms(5) [of e] e r [of a0] a0(2) by simp_all
    have "j < a0"
    proof (rule ccontr)
      assume "\<not> j < a0"
      then have "a0 < j \<or> a0 = j" by linarith
      then show False using j(2,3) fe a0(2) by auto
    qed
    then have P0: "?P a0" using assms(6) [OF r, of a0] e a0(2) by simp
    have Pa: "?P a" unfolding a_def by (rule LeastI [where P = ?P, OF P0])
    have le: "a \<le> a0" unfolding a_def by (rule Least_le [where P = ?P, OF P0])
    have less: "seqs_at m' (int (nth_cell m h b)) \<noteq> {}" if "j < b" "b < a" for b
      using that not_less_Least [of b ?P] unfolding a_def by blast
    have an: "a < ?n" using le a0(1) by simp
    have fa: "fresh m' (int (nth_cell m h a))"
    proof (rule ccontr)
      assume nf: "\<not> fresh m' (int (nth_cell m h a))"
      have em: "seqs_at m (int (nth_cell m h a)) = {}" using assms(7) [OF r] Pa by blast
      show False
      proof (cases "nth_cell m h a = nx")
        case True
        then show False using nth_cell_inj [OF an j(1)] j(2) Pa by auto
      next
        case False
        then have "\<not> fresh m (int (nth_cell m h a))" using nf assms(5) [OF r] by auto
        then obtain b where b: "b < j" "int (nth_cell m h a) = int (nth_cell m h b)" using j(4) [OF r em] by blast
        then show False using nth_cell_inj [OF an, of b] Pa an by auto
      qed
    qed
    have "next_empty m' (re_size m') (nth_cell m' h j) = Some (nth_cell m' h a)"
      by (rule next_empty_at [OF assms(3)]) (use nx assms(4) Pa less an same in auto)
    moreover have "scan_ok h m' (nth_cell m' h a)"
      unfolding scan_ok_def
    proof (intro impI, rule exI [of _ a], intro conjI allI ballI impI)
      show "a < re_size m'" using an assms(4) by simp
      show "fresh m' (int (nth_cell m' h a))" using fa same by simp
    next
      fix b assume b: "b < a"
      show "\<not> fresh m' (int (nth_cell m' h b))"
      proof
        assume f: "fresh m' (int (nth_cell m' h b))"
        then have fm: "fresh m (int (nth_cell m h b))" "nth_cell m h b \<noteq> nx" "seqs_at m' (int (nth_cell m h b)) = {}"
          using assms(5) [OF r] assms(6) [OF r] same by auto
        then show False using j(2,3) less b by (metis linorder_cases)
      qed
    next
      fix i assume i: "i \<in> rows m'" "seqs_at m' i = {} \<and> \<not> fresh m' i"
      have ir: "i \<in> rows m" using i(1) assms(4) by simp
      show "\<exists>b < a. i = int (nth_cell m' h b)"
      proof (cases "i = int nx")
        case True
        then show ?thesis using j(2) Pa same by auto
      next
        case False
        then have "\<not> fresh m i" using i(2) assms(5) [OF ir] by blast
        then obtain b where "b < j" "i = int (nth_cell m h b)" using j(4) [OF ir] assms(7) [OF ir] i(2) by blast
        then show ?thesis using Pa same by (intro exI [of _ b]) auto
      qed
    qed auto
    ultimately show ?thesis using j(2) same by (simp add: wp_def)
  qed
qed

section \<open>The loop over the sequences\<close>

text \<open>The leading ids of the first \<open>k\<close> sequence sets.\<close>

abbreviation leads :: "llama_ubatch \<Rightarrow> nat \<Rightarrow> llama_seq_id set" where
  "leads ub k \<equiv> lead ub ` {..<k}"

lemma leads_Suc: "leads ub (Suc k) = insert (lead ub k) (leads ub k)"
  by (simp add: lessThan_Suc)

text \<open>Taking the cell \<open>nx\<close> for \<open>p\<close>, whether it had a state or not.\<close>

lemma take_cell_wp:
  assumes "rec_inv m1" "settled P m1 m" "p \<in> rows m1" "p \<notin> P" "fresh m (int nx)"
    "tail_of m p = -1 \<or> card (seqs_at m (tail_of m p)) \<noteq> 1"
  shows "wp (do { m \<leftarrow> (if 0 \<le> tail_of m p then copy_tail p (tail_of m p) nx m else Some m); set_tail p (int nx) m })
    (\<lambda>m'. settled (insert p P) m1 m' \<and> (\<forall>t \<in> rows m1. tail_of m' t = (if t = p then int nx else tail_of m t)) \<and>
      (\<forall>i \<in> rows m1. fresh m' i \<longleftrightarrow> fresh m i \<and> i \<noteq> int nx) \<and>
      (\<forall>i \<in> rows m1. seqs_at m' i = {} \<longrightarrow> seqs_at m i = {}))"
proof -
  have sz: "re_size m = re_size m1" using same_frameD(1) [OF settledD(1) [OF assms(2)]] .
  have fr: "\<forall>i \<in> rows m1. fresh m' i \<longleftrightarrow> fresh m i \<and> i \<noteq> int nx"
    if pl: "settled (insert p P) m1 m'" and tl: "\<forall>t \<in> rows m1. tail_of m' t = (if t = p then int nx else tail_of m t)"
      and em: "\<forall>i \<in> rows m1. seqs_at m i \<noteq> {} \<longrightarrow> seqs_at m' i \<noteq> {}" for m'
  proof
    fix i assume i: "i \<in> rows m1"
    have sz': "re_size m' = re_size m1" using same_frameD(1) [OF settledD(1) [OF pl]] .
    have "fresh m i" "i \<noteq> int nx" if f: "fresh m' i"
    proof -
      show "i \<noteq> int nx" using fresh_empty(4) [OF assms(1) pl f assms(3)] tl assms(3) by auto
      have "tail_of m t \<noteq> i" if t: "t \<in> rows m1" for t
      proof (cases "t = p")
        case False
        then show ?thesis using fresh_empty(4) [OF assms(1) pl f t] tl t by auto
      next
        case True
        show ?thesis
        proof
          assume ti: "tail_of m t = i"
          then have "tail_of m1 p \<noteq> -1" using True settledD(4) [OF assms(2,3,4)] i by auto
          then have "p \<in> seqs_at m i" using settledD(8) [OF assms(2) i] assms(3) True ti by blast
          then show False using em i fresh_empty(2) [OF assms(1) pl f] by blast
        qed
      qed
      then show "fresh m i" using i sz by (simp add: fresh_def)
    qed
    moreover have "fresh m' i" if f: "fresh m i" "i \<noteq> int nx"
    proof -
      have "tail_of m' t \<noteq> i" if "t \<in> rows m1" for t
        using tl that f(2) fresh_empty(4) [OF assms(1,2) f(1) that] by auto
      then show ?thesis using i sz' by (simp add: fresh_def)
    qed
    ultimately show "fresh m' i \<longleftrightarrow> fresh m i \<and> i \<noteq> int nx" by blast
  qed
  show ?thesis
  proof (cases "tail_of m p = -1")
    case True
    show ?thesis
      using settled_new [OF assms(1-4) True assms(5)] fr True by (auto simp: wp_def)
  next
    case False
    then have c: "card (seqs_at m (tail_of m p)) \<noteq> 1" using assms(6) by blast
    have "0 \<le> tail_of m p" using settled_tail_range [OF assms(1-3)] False by auto
    then have eq: "(do { m \<leftarrow> (if 0 \<le> tail_of m p then copy_tail p (tail_of m p) nx m else Some m); set_tail p (int nx) m }) =
      (do { m \<leftarrow> copy_tail p (tail_of m p) (nat (int nx)) m; set_tail p (int nx) m })" by simp
    show ?thesis
      unfolding eq by (rule wp_mono [OF settled_copy [OF assms(1-4) False c assms(5)]]) (use fr in blast)
  qed
qed

text \<open>The smallest and largest cell taken so far.\<close>

definition low_cell :: "rec_mem \<Rightarrow> rec_mem \<Rightarrow> llama_seq_id set \<Rightarrow> int" where
  "low_cell m1 m P = (if P = {} then int (re_size m1) - 1 else Min (tail_of m ` P))"

definition high_cell :: "rec_mem \<Rightarrow> llama_seq_id set \<Rightarrow> int" where
  "high_cell m P = (if P = {} then 0 else Max (tail_of m ` P))"

lemma low_high_insert:
  assumes "finite P" "tail_of m' p \<in> rows m1" "\<And>q. q \<in> P \<Longrightarrow> tail_of m' q = tail_of m q"
  shows "low_cell m1 m' (insert p P) = min (low_cell m1 m P) (tail_of m' p)"
    "high_cell m' (insert p P) = max (high_cell m P) (tail_of m' p)"
proof -
  have "tail_of m' ` P = tail_of m ` P" using assms(3) by (rule image_cong [OF refl])
  then show "low_cell m1 m' (insert p P) = min (low_cell m1 m P) (tail_of m' p)"
    "high_cell m' (insert p P) = max (high_cell m P) (tail_of m' p)"
    using assms(1,2) by (auto simp: low_cell_def high_cell_def min.commute max.commute)
qed

definition assign_inv :: "llama_ubatch \<Rightarrow> nat \<Rightarrow> rec_mem \<Rightarrow> nat \<Rightarrow> nat \<times> int \<times> int \<times> rec_mem \<Rightarrow> bool" where
  "assign_inv ub h m1 k x = (case x of (nx, mn, mx, m) \<Rightarrow> settled (leads ub k) m1 m \<and>
     (k < ub_n_seqs ub \<longrightarrow> scan_ok h m nx) \<and> mn = low_cell m1 m (leads ub k) \<and> mx = high_cell m (leads ub k))"

lemma assign_cell_wp:
  assumes "rec_ub_arrays ub" "rec_inv m1" "ids_fit m1 ub" "k < ub_n_seqs ub" "assign_inv ub h m1 k x"
  shows "wp (assign_cell ub k x) (assign_inv ub h m1 (Suc k))"
proof -
  obtain nx mn mx m where x: "x = (nx, mn, mx, m)" by (metis prod_cases4)
  define p where "p = lead ub k"
  have I: "settled (leads ub k) m1 m" "scan_ok h m nx" "mn = low_cell m1 m (leads ub k)" "mx = high_cell m (leads ub k)"
    using assms(4,5) by (simp_all add: assign_inv_def x)
  note d = settledD [OF I(1)] and sfD = same_frameD [OF settledD(1) [OF I(1)]]
  have pr: "p \<in> rows m1" using assms(3) lead_in [OF assms(1,4)] all_ids_mem [OF assms(4)] unfolding ids_fit_def p_def by blast
  have pn: "p \<notin> leads ub k"
  proof
    assume "p \<in> leads ub k"
    then obtain s where "s < k" "lead ub k = lead ub s" by (auto simp: p_def)
    then show False using lead_inj [OF assms(1), of s k] assms(4) by simp
  qed
  have sz: "sized m" "p \<in> rows m" using sfD rec_invD(1) [OF assms(2)] pr by auto
  have tr: "tail_of m p = -1 \<or> tail_of m p \<in> rows m1" by (rule settled_tail_range [OF assms(2) I(1) pr])
  have own: "owns_cell m p (tail_of m p) = Some (tail_of m p \<noteq> -1 \<and> card (seqs_at m (tail_of m p)) = 1)"
  proof (cases "tail_of m p = -1")
    case True
    then show ?thesis by (simp add: owns_cell_def)
  next
    case False
    then have t: "tail_of m p \<in> rows m1" "tail_of m p \<in> rows m" using tr sfD(1) by auto
    have "p \<in> seqs_at m (tail_of m p)" using d(8) [OF t(1)] pr d(4) [OF pr pn] False by auto
    then show ?thesis using False t sz(1) by (auto simp: owns_cell_def has_seq_id_def)
  qed
  have head: "assign_cell ub k x = do {
     (nx, m) \<leftarrow> (if tail_of m p \<noteq> -1 \<and> card (seqs_at m (tail_of m p)) = 1 then Some (nx, m) else take_empty ub k p (tail_of m p) (nx, m));
     meta \<leftarrow> mem_at m p;
     Some (nx, min mn (mc_tail meta), max mx (mc_tail meta), m) }"
    using first_id_at [OF assms(1,4)] own sz by (simp add: assign_cell_def x p_def)
  have fin: "assign_inv ub h m1 (Suc k) (nx', min mn (tail_of m' p), max mx (tail_of m' p), m')"
    if "settled (insert p (leads ub k)) m1 m'" "Suc k < ub_n_seqs ub \<longrightarrow> scan_ok h m' nx'"
      "\<And>q. q \<in> leads ub k \<Longrightarrow> tail_of m' q = tail_of m q" for nx' m'
  proof -
    have t: "tail_of m' p \<in> rows m1" using settledD(5) [OF that(1)] by simp
    show ?thesis
      using that low_high_insert [OF _ t that(3)] I(3,4) by (simp add: assign_inv_def leads_Suc p_def)
  qed
  show ?thesis
  proof (cases "tail_of m p \<noteq> -1 \<and> card (seqs_at m (tail_of m p)) = 1")
    case True
    then have "settled (insert p (leads ub k)) m1 m" using settled_own [OF I(1) pr pn] tr by blast
    then show ?thesis using fin [of m nx] head True sz I(2) by simp
  next
    case False
    then have need: "tail_of m p = -1 \<or> card (seqs_at m (tail_of m p)) \<noteq> 1" by blast
    have "\<exists>e. fresh m e"
    proof (rule fresh_exists [OF assms(2) I(1) pr])
      show "tail_of m p = -1 \<or> (\<exists>t \<in> rows m1. t \<noteq> p \<and> tail_of m t = tail_of m p)"
      proof (cases "tail_of m p = -1")
        case nt: False
        then have t: "tail_of m p \<in> rows m1" using tr by blast
        have L: "seqs_at m (tail_of m p) = {t \<in> rows m1. tail_of m t = tail_of m p \<and> tail_of m1 t \<noteq> -1}" using d(8) [OF t] .
        have "seqs_at m (tail_of m p) \<noteq> {p}" using need nt by auto
        moreover have "p \<in> seqs_at m (tail_of m p)" using L pr d(4) [OF pr pn] nt by auto
        ultimately obtain t where "t \<in> seqs_at m (tail_of m p)" "t \<noteq> p" by blast
        then show ?thesis using L by blast
      qed simp
    qed
    then have fnx: "fresh m (int nx)" using I(2) unfolding scan_ok_def by blast
    then have nxr: "nx < re_size m" by (simp add: fresh_def)
    have em: "cell_is_empty (row m (int nx))" using fresh_empty(2) [OF assms(2) I(1) fnx] by (simp add: cell_is_empty_def)
    obtain m' where m': "(do { m \<leftarrow> (if 0 \<le> tail_of m p then copy_tail p (tail_of m p) nx m else Some m); set_tail p (int nx) m }) = Some m'"
      and pl: "settled (insert p (leads ub k)) m1 m'" and tl: "\<forall>t \<in> rows m1. tail_of m' t = (if t = p then int nx else tail_of m t)"
      and fr: "\<forall>i \<in> rows m1. fresh m' i \<longleftrightarrow> fresh m i \<and> i \<noteq> int nx" and em': "\<forall>i \<in> rows m1. seqs_at m' i = {} \<longrightarrow> seqs_at m i = {}"
      using take_cell_wp [OF assms(2) I(1) pr pn fnx need] by (rule wpE) blast
    note sf' = same_frameD [OF settledD(1) [OF pl]]
    have sz': "sized m'" "p \<in> rows m'" "re_size m' = re_size m" using sf' rec_invD(1) [OF assms(2)] pr sfD(1) by auto
    obtain nx' where nx': "(if k + 1 < ub_n_seqs ub then next_empty m' (re_size m') nx else Some nx) = Some nx'"
      "Suc k < ub_n_seqs ub \<longrightarrow> scan_ok h m' nx'"
    proof (cases "k + 1 < ub_n_seqs ub")
      case True
      have "wp (next_empty m' (re_size m') nx) (scan_ok h m')"
        by (rule scan_next [OF I(2) fnx sz'(1,3)]) (use fr em' fresh_empty(2) [OF assms(2) pl] sfD(1) in auto)
      then show ?thesis using True that by (auto simp: wp_def)
    qed (use that in simp)
    have tk: "take_empty ub k p (tail_of m p) (nx, m) = Some (nx', m')"
    proof -
      have "take_empty ub k p (tail_of m p) (nx, m) = do {
          m \<leftarrow> (do { m \<leftarrow> (if 0 \<le> tail_of m p then copy_tail p (tail_of m p) nx m else Some m); set_tail p (int nx) m });
          nx \<leftarrow> (if k + 1 < ub_n_seqs ub then next_empty m (re_size m) nx else Some nx);
          Some (nx, m) }"
        unfolding take_empty_def prod.case empty_at [OF sz(1) nxr] Option.bind.bind_lunit using em by simp
      then show ?thesis unfolding m' Option.bind.bind_lunit nx'(1) .
    qed
    have oldt: "tail_of m' q = tail_of m q" if "q \<in> leads ub k" for q
      using tl d(3) that pn by (metis subsetD)
    show ?thesis
      unfolding head if_not_P [OF False] tk Option.bind.bind_lunit prod.case using fin [OF pl nx'(2) oldt] sz' by simp
  qed
qed

lemma assign_all_wp:
  assumes "rec_ub_arrays ub" "rec_inv m1" "ids_fit m1 ub"
  shows "wp (do { nx \<leftarrow> first_empty m1 (re_size m1) (re_head m1);
      foldM (assign_cell ub) [0..<ub_n_seqs ub] (nx, int (re_size m1) - 1, 0, m1) })
    (\<lambda>(_, mn, mx, m). settled (leads ub (ub_n_seqs ub)) m1 m \<and> mn = Min (tail_of m ` leads ub (ub_n_seqs ub)) \<and>
       mx = Max (tail_of m ` leads ub (ub_n_seqs ub)))"
proof -
  have n: "0 < ub_n_seqs ub" using assms(1) by (simp add: rec_ub_arrays_def)
  have pos: "0 < re_size m1" using assms(3) lead_in [OF assms(1) n] all_ids_mem [OF n] by (force simp: ids_fit_def)
  obtain nx where nx: "first_empty m1 (re_size m1) (re_head m1) = Some nx" "scan_ok (re_head m1) m1 nx"
    using scan_first [OF assms(2) pos] by (rule wpE)
  have "wp (foldM (assign_cell ub) [0..<ub_n_seqs ub] (nx, int (re_size m1) - 1, 0, m1)) (assign_inv ub (re_head m1) m1 (ub_n_seqs ub))"
  proof (rule wp_for [where I = "assign_inv ub (re_head m1) m1"])
    show "assign_inv ub (re_head m1) m1 0 (nx, int (re_size m1) - 1, 0, m1)"
      using settled_refl [OF assms(2)] nx(2) by (simp add: assign_inv_def low_cell_def high_cell_def)
  qed (use assign_cell_wp [OF assms] in auto)
  moreover have "leads ub (ub_n_seqs ub) \<noteq> {}" using n by auto
  ultimately show ?thesis
    unfolding nx(1) Option.bind.bind_lunit by (auto elim!: wp_mono simp: assign_inv_def low_cell_def high_cell_def)
qed

end
