(* ===== verification/RecGather.thy ===== *)
theory RecGather
  imports RecAssign
begin

text \<open>
  The later phases of \<open>find_slot\<close>: swapping the cells of the micro-batch into consecutive places,
  writing their new contents and staging the rows the states are read from.
\<close>

section \<open>Swapping cells\<close>

lemma swap_index_simps [simp]:
  "swap_index a b b = a" "swap_index a b a = b" "swap_index a b (swap_index a b t) = t"
  "t \<noteq> a \<Longrightarrow> t \<noteq> b \<Longrightarrow> swap_index a b t = t"
  by (auto simp: swap_index_def)

lemma swap_index_in: "a \<in> A \<Longrightarrow> b \<in> A \<Longrightarrow> t \<in> A \<Longrightarrow> swap_index a b t \<in> A"
  by (simp add: swap_index_def)

lemma row_map_tails:
  assumes "sized m" "i \<in> rows m"
  shows "row (m\<lparr>re_cells := map (\<lambda>c. c\<lparr>mc_tail := f (mc_tail c)\<rparr>) (re_cells m)\<rparr>) i = (row m i)\<lparr>mc_tail := f (tail_of m i)\<rparr>"
  using assms by (auto simp: row_def sized_def nat_less_iff)

lemma swap_cells_wp:
  assumes "sized m" "dst \<in> rows m" "src \<in> rows m" "dst \<noteq> src"
  shows "wp (swap_cells dst src m) (\<lambda>m'. same_frame m m' \<and> re_used m' = re_used m \<and>
    (\<forall>i \<in> rows m. tail_of m' i = swap_index dst src (tail_of m i) \<and> seqs_at m' i = seqs_at m (swap_index dst src i) \<and>
       mc_pos (row m' i) = mc_pos (row m (swap_index dst src i)) \<and> mc_src (row m' i) = mc_src (row m (swap_index dst src i)) \<and>
       mc_rs_max (row m' i) = mc_rs_max (row m i) \<and> mc_src0 (row m' i) = mc_src0 (row m i)))"
proof -
  define a where "a = put_cell (nat dst) ((row m dst)\<lparr>mc_pos := mc_pos (row m src), mc_src := mc_src (row m src), mc_seq_id := seqs_at m src\<rparr>) m"
  define b where "b = put_cell (nat src) ((row m src)\<lparr>mc_pos := mc_pos (row m dst), mc_src := mc_src (row m dst), mc_seq_id := seqs_at m dst\<rparr>) a"
  define c where "c = b\<lparr>re_cells := map (\<lambda>c. c\<lparr>mc_tail := swap_index dst src (mc_tail c)\<rparr>) (re_cells b)\<rparr>"
  have sz: "sized a" "sized b" "re_size a = re_size m" "re_size b = re_size m" using assms(1) by (simp_all add: a_def b_def)
  have ra: "row a i = (if i = dst then (row m dst)\<lparr>mc_pos := mc_pos (row m src), mc_src := mc_src (row m src), mc_seq_id := seqs_at m src\<rparr> else row m i)" if "i \<in> rows m" for i
    unfolding a_def by (rule row_put_cell [OF assms(1,2) that])
  have rb: "row b i = (if i = src then (row m src)\<lparr>mc_pos := mc_pos (row m dst), mc_src := mc_src (row m dst), mc_seq_id := seqs_at m dst\<rparr> else row a i)" if "i \<in> rows m" for i
    unfolding b_def by (rule row_put_cell) (use assms sz that in simp_all)
  have rc: "row c i = (row b i)\<lparr>mc_tail := swap_index dst src (tail_of b i)\<rparr>" if "i \<in> rows m" for i
    unfolding c_def by (rule row_map_tails [OF sz(2)]) (use that sz in simp)
  have run: "swap_cells dst src m = Some c"
    using assms by (simp add: swap_cells_def Let_def a_def b_def c_def)
  have fr: "same_frame m c" "re_used c = re_used m" using sz assms(1) by (simp_all add: same_frame_def c_def sized_def) (simp_all add: a_def b_def)
  have f: "tail_of c i = swap_index dst src (tail_of m i) \<and> seqs_at c i = seqs_at m (swap_index dst src i) \<and>
       mc_pos (row c i) = mc_pos (row m (swap_index dst src i)) \<and> mc_src (row c i) = mc_src (row m (swap_index dst src i)) \<and>
       mc_rs_max (row c i) = mc_rs_max (row m i) \<and> mc_src0 (row c i) = mc_src0 (row m i)" if i: "i \<in> rows m" for i
  proof -
    consider "i = dst" | "i = src" "i \<noteq> dst" | "i \<noteq> src" "i \<noteq> dst" by blast
    then show ?thesis
    proof cases
      case 1
      then show ?thesis unfolding rc [OF i] rb [OF i] ra [OF i] using assms(4) by simp
    next
      case 2
      then show ?thesis unfolding rc [OF i] rb [OF i] ra [OF i] by simp
    next
      case 3
      then show ?thesis unfolding rc [OF i] rb [OF i] ra [OF i] by simp
    qed
  qed
  show ?thesis using run fr f by (simp add: wp_def)
qed

text \<open>The memory \<open>m\<close> is \<open>m2\<close> with the contents of cell \<open>i\<close> moved to cell \<open>f i\<close>.\<close>

definition moved :: "(int \<Rightarrow> int) \<Rightarrow> int set \<Rightarrow> rec_mem \<Rightarrow> rec_mem \<Rightarrow> bool" where
  "moved f R m2 m = (same_frame m2 m \<and> re_used m = re_used m2 \<and> inj_on f (rows m2) \<and> f ` R \<subseteq> R \<and>
     (\<forall>i. i \<notin> R \<longrightarrow> f i = i) \<and>
     (\<forall>t \<in> rows m2. tail_of m t = f (tail_of m2 t)) \<and>
     (\<forall>i \<in> rows m2. seqs_at m (f i) = seqs_at m2 i) \<and>
     (\<forall>i \<in> rows m2. mc_pos (row m (f i)) = mc_pos (row m2 i)) \<and>
     (\<forall>i \<in> rows m2. mc_src (row m (f i)) = mc_src (row m2 i)) \<and>
     (\<forall>i \<in> rows m2. mc_rs_max (row m i) = mc_rs_max (row m2 i)))"

lemma movedB:
  assumes "moved f R m2 m"
  shows "same_frame m2 m" "re_used m = re_used m2" "inj_on f (rows m2)" "f ` R \<subseteq> R"
    "\<forall>i. i \<notin> R \<longrightarrow> f i = i" "\<forall>t \<in> rows m2. tail_of m t = f (tail_of m2 t)"
    "\<forall>i \<in> rows m2. seqs_at m (f i) = seqs_at m2 i" "\<forall>i \<in> rows m2. mc_pos (row m (f i)) = mc_pos (row m2 i)"
    "\<forall>i \<in> rows m2. mc_src (row m (f i)) = mc_src (row m2 i)" "\<forall>i \<in> rows m2. mc_rs_max (row m i) = mc_rs_max (row m2 i)"
  by (insert assms [unfolded moved_def]) (elim conjE, assumption)+

lemmas movedD = movedB [rule_format]

lemma moved_refl: "moved (\<lambda>i. i) R m2 m2"
  by (simp add: moved_def)

lemma moved_rows:
  assumes "moved f R m2 m" "R \<subseteq> rows m2" "i \<in> rows m2"
  shows "f i \<in> rows m2"
proof (cases "i \<in> R")
  case True
  then show ?thesis using movedD(4) [OF assms(1)] assms(2) by blast
next
  case False
  then show ?thesis using movedD(5) [OF assms(1) False] assms(3) by simp
qed

lemma moved_swap:
  assumes "moved f R m2 m" "R \<subseteq> rows m2" "sized m2" "dst \<in> R" "src \<in> R" "dst \<noteq> src"
  shows "wp (swap_cells dst src m) (moved (\<lambda>i. swap_index dst src (f i)) R m2)"
proof -
  note d = movedD [OF assms(1)]
  note sf = same_frameD [OF d(1)]
  have fr: "f i \<in> rows m" if "i \<in> rows m2" for i using moved_rows [OF assms(1,2) that] sf(1) by simp
  have r: "sized m" "dst \<in> rows m" "src \<in> rows m" using assms(2-5) sf(1,7) by auto
  show ?thesis
  proof (rule wp_mono [OF swap_cells_wp [OF r assms(6)]])
    fix m' assume A: "same_frame m m' \<and> re_used m' = re_used m \<and>
    (\<forall>i \<in> rows m. tail_of m' i = swap_index dst src (tail_of m i) \<and> seqs_at m' i = seqs_at m (swap_index dst src i) \<and>
       mc_pos (row m' i) = mc_pos (row m (swap_index dst src i)) \<and> mc_src (row m' i) = mc_src (row m (swap_index dst src i)) \<and>
       mc_rs_max (row m' i) = mc_rs_max (row m i) \<and> mc_src0 (row m' i) = mc_src0 (row m i))"
    let ?g = "\<lambda>i. swap_index dst src (f i)"
    have gr: "?g i \<in> rows m" if "i \<in> rows m2" for i by (rule swap_index_in [OF r(2,3) fr [OF that]])
    have inj: "inj_on ?g (rows m2)"
    proof (rule inj_onI)
      fix i j assume ij: "i \<in> rows m2" "j \<in> rows m2" "?g i = ?g j"
      then have "f i = f j" by (metis swap_index_simps(3))
      then show "i = j" using inj_onD [OF d(3)] ij by blast
    qed
    show "moved ?g R m2 m'"
      unfolding moved_def
    proof (intro conjI ballI allI impI)
      show "same_frame m2 m'" using A same_frame_trans [OF d(1)] by blast
      show "re_used m' = re_used m2" using A d(2) by simp
      show "inj_on ?g (rows m2)" by (rule inj)
      show "?g ` R \<subseteq> R" using d(4) assms(4,5) by (auto simp: swap_index_def)
    next
      fix i assume "i \<notin> R"
      then show "?g i = i" using d(5) assms(4,5) by (auto simp: swap_index_def)
    next
      fix t assume "t \<in> rows m2"
      then show "tail_of m' t = ?g (tail_of m2 t)" using A d(6) sf(1) by simp
    next
      fix i assume i: "i \<in> rows m2"
      have c: "seqs_at m' (?g i) = seqs_at m (swap_index dst src (?g i))" "mc_pos (row m' (?g i)) = mc_pos (row m (swap_index dst src (?g i)))"
        "mc_src (row m' (?g i)) = mc_src (row m (swap_index dst src (?g i)))" using A gr [OF i] by blast+
      show "seqs_at m' (?g i) = seqs_at m2 i" "mc_pos (row m' (?g i)) = mc_pos (row m2 i)" "mc_src (row m' (?g i)) = mc_src (row m2 i)"
        unfolding c by (simp_all add: d(7-9) [OF i])
      show "mc_rs_max (row m' i) = mc_rs_max (row m2 i)" using A i sf(1) d(10) by simp
    qed
  qed
qed

lemma gather_all_wp:
  assumes "rec_ub_arrays ub" "sized m2" "mn \<in> rows m2" "mx \<in> rows m2" "int (ub_n_seqs ub) \<le> mx - mn + 1"
    "\<And>s. s < ub_n_seqs ub \<Longrightarrow> lead ub s \<in> rows m2 \<and> tail_of m2 (lead ub s) \<in> {mn..mx}"
    "\<And>s t. s < ub_n_seqs ub \<Longrightarrow> t < ub_n_seqs ub \<Longrightarrow> s \<noteq> t \<Longrightarrow> tail_of m2 (lead ub s) \<noteq> tail_of m2 (lead ub t)"
  shows "wp (foldM (gather_cell ub mn) [0..<ub_n_seqs ub] m2) (\<lambda>m. \<exists>f. moved f {mn..mx} m2 m \<and>
    (\<forall>s < ub_n_seqs ub. tail_of m (lead ub s) = mn + int s))"
proof (rule wp_for [where I = "\<lambda>k m. \<exists>f. moved f {mn..mx} m2 m \<and> (\<forall>s < k. f (tail_of m2 (lead ub s)) = mn + int s)"])
  show "\<exists>f. moved f {mn..mx} m2 m2 \<and> (\<forall>s < 0. f (tail_of m2 (lead ub s)) = mn + int s)" using moved_refl by blast
next
  fix k m assume k: "k < ub_n_seqs ub" and "\<exists>f. moved f {mn..mx} m2 m \<and> (\<forall>s < k. f (tail_of m2 (lead ub s)) = mn + int s)"
  then obtain f where f: "moved f {mn..mx} m2 m" "\<And>s. s < k \<Longrightarrow> f (tail_of m2 (lead ub s)) = mn + int s" by blast
  note d = movedD [OF f(1)] and sf = same_frameD [OF movedD(1) [OF f(1)]]
  have R: "{mn..mx} \<subseteq> rows m2" using assms(3,4) by auto
  have p: "lead ub k \<in> rows m2" "tail_of m2 (lead ub k) \<in> {mn..mx}" using assms(6) [OF k] by auto
  have t: "tail_of m (lead ub k) = f (tail_of m2 (lead ub k))" using d(6) [OF p(1)] .
  have src: "f (tail_of m2 (lead ub k)) \<in> {mn..mx}" using d(4) p(2) by blast
  have dst: "int k + mn \<in> {mn..mx}" using assms(5) k by auto
  have run: "gather_cell ub mn k m = (if int k + mn \<noteq> f (tail_of m2 (lead ub k)) then swap_cells (int k + mn) (f (tail_of m2 (lead ub k))) m else Some m)"
    using first_id_at [OF assms(1) k] p(1) sf(1,7) assms(2) t by (simp add: gather_cell_def)
  show "wp (gather_cell ub mn k m) (\<lambda>m. \<exists>f. moved f {mn..mx} m2 m \<and> (\<forall>s < Suc k. f (tail_of m2 (lead ub s)) = mn + int s))"
  proof (cases "int k + mn = f (tail_of m2 (lead ub k))")
    case True
    then show ?thesis using run f by (auto simp: less_Suc_eq)
  next
    case False
    let ?g = "\<lambda>i. swap_index (int k + mn) (f (tail_of m2 (lead ub k))) (f i)"
    have g: "?g (tail_of m2 (lead ub s)) = mn + int s" if s: "s < Suc k" for s
    proof (cases "s = k")
      case True
      then show ?thesis by simp
    next
      case False
      then have sk: "s < k" "s < ub_n_seqs ub" using s k by auto
      have "f (tail_of m2 (lead ub s)) \<noteq> f (tail_of m2 (lead ub k))"
        using inj_onD [OF d(3)] assms(6) [OF sk(2)] p R assms(7) [OF sk(2) k] False by blast
      then show ?thesis using f(2) [OF sk(1)] sk(1) by (simp add: swap_index_def)
    qed
    show ?thesis
      using run False by (auto intro!: wp_mono [OF moved_swap [OF f(1) R assms(2) dst src False]] exI [of _ ?g] g)
  qed
next
  fix m assume "\<exists>f. moved f {mn..mx} m2 m \<and> (\<forall>s < ub_n_seqs ub. f (tail_of m2 (lead ub s)) = mn + int s)"
  then obtain f where f: "moved f {mn..mx} m2 m" "\<forall>s < ub_n_seqs ub. f (tail_of m2 (lead ub s)) = mn + int s" by blast
  then show "\<exists>f. moved f {mn..mx} m2 m \<and> (\<forall>s < ub_n_seqs ub. tail_of m (lead ub s) = mn + int s)"
    using movedD(6) [OF f(1)] assms(6) by (intro exI [of _ f]) auto
qed

section \<open>The new contents\<close>

lemma enter_ids_wp:
  assumes "sized m" "c \<in> rows m" "set ids \<subseteq> rows m" "seqs_at m c = {}"
  shows "wp (foldM (\<lambda>j m. do { sid \<leftarrow> vget ids j; enter_cell c sid m }) [0..<length ids] m) (\<lambda>m'. same_frame m m' \<and> re_used m' = re_used m \<and>
    (\<forall>i \<in> rows m. tail_of m' i = (if i \<in> set ids then c else tail_of m i) \<and> seqs_at m' i = (if i = c then set ids else seqs_at m i) \<and>
       mc_pos (row m' i) = mc_pos (row m i) \<and> mc_src (row m' i) = mc_src (row m i) \<and> mc_rs_max (row m' i) = mc_rs_max (row m i)))"
proof (rule wp_for [where I = "\<lambda>k m'. same_frame m m' \<and> re_used m' = re_used m \<and>
    (\<forall>i \<in> rows m. tail_of m' i = (if i \<in> set (take k ids) then c else tail_of m i) \<and> seqs_at m' i = (if i = c then set (take k ids) else seqs_at m i) \<and>
       mc_pos (row m' i) = mc_pos (row m i) \<and> mc_src (row m' i) = mc_src (row m i) \<and> mc_rs_max (row m' i) = mc_rs_max (row m i))"])
  fix k a assume k: "k < length ids" and I: "same_frame m a \<and> re_used a = re_used m \<and>
    (\<forall>i \<in> rows m. tail_of a i = (if i \<in> set (take k ids) then c else tail_of m i) \<and> seqs_at a i = (if i = c then set (take k ids) else seqs_at m i) \<and>
       mc_pos (row a i) = mc_pos (row m i) \<and> mc_src (row a i) = mc_src (row m i) \<and> mc_rs_max (row a i) = mc_rs_max (row m i))"
  define x where "x = ids ! k"
  note sf = same_frameD [OF conjunct1 [OF I]]
  have x: "x \<in> rows m" using assms(3) k nth_mem by (fastforce simp: x_def)
  have sz: "sized a" "re_size a = re_size m" using sf assms(1) by auto
  define b where "b = put_cell (nat c) ((row a c)\<lparr>mc_seq_id := insert x (seqs_at a c)\<rparr>) a"
  have rb: "row b i = (if i = c then (row a c)\<lparr>mc_seq_id := insert x (seqs_at a c)\<rparr> else row a i)" if "i \<in> rows m" for i
    unfolding b_def by (rule row_put_cell) (use sz assms(2) that in simp_all)
  define e where "e = put_cell (nat x) (row b x\<lparr>mc_tail := c\<rparr>) b"
  have re: "row e i = (if i = x then row b x\<lparr>mc_tail := c\<rparr> else row b i)" if "i \<in> rows m" for i
    unfolding e_def by (rule row_put_cell) (use sz x that in \<open>simp_all add: b_def\<close>)
  have "set_tail x c b = Some e" using set_tail_at [of b x c] sz x by (simp add: b_def e_def)
  then have run: "enter_cell c x a = Some e" using sz assms(2) by (simp add: enter_cell_def b_def)
  have tk: "set (take (Suc k) ids) = insert x (set (take k ids))" using k by (simp add: take_Suc_conv_app_nth x_def)
  have ce: "seqs_at a c = set (take k ids)" using I assms(2) by simp
  have f: "tail_of e i = (if i = x then c else tail_of a i)" "seqs_at e i = (if i = c then insert x (seqs_at a c) else seqs_at a i)"
    "mc_pos (row e i) = mc_pos (row a i)" "mc_src (row e i) = mc_src (row a i)" "mc_rs_max (row e i) = mc_rs_max (row a i)" if i: "i \<in> rows m" for i
    unfolding re [OF i] rb [OF x] rb [OF i] by simp_all
  have "same_frame m e" "re_used e = re_used m" using I by (simp_all add: b_def e_def)
  moreover have "tail_of e i = (if i \<in> set (take (Suc k) ids) then c else tail_of m i) \<and> seqs_at e i = (if i = c then set (take (Suc k) ids) else seqs_at m i) \<and>
       mc_pos (row e i) = mc_pos (row m i) \<and> mc_src (row e i) = mc_src (row m i) \<and> mc_rs_max (row e i) = mc_rs_max (row m i)" if i: "i \<in> rows m" for i
  proof -
    have Ia: "tail_of a i = (if i \<in> set (take k ids) then c else tail_of m i) \<and> seqs_at a i = (if i = c then set (take k ids) else seqs_at m i) \<and>
       mc_pos (row a i) = mc_pos (row m i) \<and> mc_src (row a i) = mc_src (row m i) \<and> mc_rs_max (row a i) = mc_rs_max (row m i)" using I i by blast
    show ?thesis unfolding f [OF i] tk ce using Ia by (cases "i = x"; cases "i = c"; simp)
  qed
  ultimately show "wp (do { sid \<leftarrow> vget ids k; enter_cell c sid a }) (\<lambda>m'. same_frame m m' \<and> re_used m' = re_used m \<and>
    (\<forall>i \<in> rows m. tail_of m' i = (if i \<in> set (take (Suc k) ids) then c else tail_of m i) \<and> seqs_at m' i = (if i = c then set (take (Suc k) ids) else seqs_at m i) \<and>
       mc_pos (row m' i) = mc_pos (row m i) \<and> mc_src (row m' i) = mc_src (row m i) \<and> mc_rs_max (row m' i) = mc_rs_max (row m i)))"
    using k run by (simp add: wp_simps x_def)
qed (use assms(4) in auto)

definition snapshots_of :: "rec_mem \<Rightarrow> llama_ubatch \<Rightarrow> nat" where
  "snapshots_of m ub = (if ub_n_seq_tokens ub \<le> re_n_rs_seq m + 1 then ub_n_seq_tokens ub - 1 else 0)"

text \<open>The first \<open>k\<close> sequence sets have been written to the cells from \<open>mn\<close> on.\<close>

definition filled :: "llama_ubatch \<Rightarrow> int \<Rightarrow> nat \<Rightarrow> rec_mem \<Rightarrow> rec_mem \<Rightarrow> bool" where
  "filled ub mn k m3 m = (same_frame m3 m \<and> re_used m = re_used m3 \<and>
     (\<forall>s < k. seqs_at m (mn + int s) = set (ids_of ub s) \<and> mc_pos (row m (mn + int s)) = last_pos_of ub s \<and>
        mc_rs_max (row m (mn + int s)) = snapshots_of m3 ub) \<and>
     (\<forall>i \<in> rows m3. (\<forall>s < k. i \<noteq> mn + int s) \<longrightarrow> seqs_at m i = seqs_at m3 i \<and> mc_pos (row m i) = mc_pos (row m3 i) \<and>
        mc_rs_max (row m i) = mc_rs_max (row m3 i)) \<and>
     (\<forall>i \<in> rows m3. mc_src (row m i) = mc_src (row m3 i)) \<and>
     (\<forall>s < k. \<forall>t \<in> set (ids_of ub s). tail_of m t = mn + int s) \<and>
     (\<forall>t \<in> rows m3. (\<forall>s < k. t \<notin> set (ids_of ub s)) \<longrightarrow> tail_of m t = tail_of m3 t))"

lemma filledB:
  assumes "filled ub mn k m3 m"
  shows "same_frame m3 m" "re_used m = re_used m3"
    "\<forall>s < k. seqs_at m (mn + int s) = set (ids_of ub s) \<and> mc_pos (row m (mn + int s)) = last_pos_of ub s \<and>
        mc_rs_max (row m (mn + int s)) = snapshots_of m3 ub"
    "\<forall>i \<in> rows m3. (\<forall>s < k. i \<noteq> mn + int s) \<longrightarrow> seqs_at m i = seqs_at m3 i \<and> mc_pos (row m i) = mc_pos (row m3 i) \<and>
        mc_rs_max (row m i) = mc_rs_max (row m3 i)"
    "\<forall>i \<in> rows m3. mc_src (row m i) = mc_src (row m3 i)"
    "\<forall>s < k. \<forall>t \<in> set (ids_of ub s). tail_of m t = mn + int s"
    "\<forall>t \<in> rows m3. (\<forall>s < k. t \<notin> set (ids_of ub s)) \<longrightarrow> tail_of m t = tail_of m3 t"
  by (insert assms [unfolded filled_def]) (elim conjE, assumption)+

lemma fill_cell_wp:
  assumes "rec_ub_arrays ub" "sized m3" "ids_fit m3 ub" "0 \<le> mn" "mn + int (ub_n_seqs ub) \<le> int (re_size m3)"
    "k < ub_n_seqs ub" "filled ub mn k m3 a"
  shows "wp (fill_cell ub mn k a) (filled ub mn (Suc k) m3)"
proof -
  note I = filledB [OF assms(7)] and ud = rec_ub_arraysD [OF assms(1,6)]
  note sf = same_frameD [OF I(1)]
  define c where "c = mn + int k"
  have c: "c \<in> rows m3" "c \<in> rows a" using assms(4-6) sf(1) by (auto simp: c_def)
  have sz: "sized a" using sf(7) assms(2) by simp
  have sub: "set (ids_of ub k) \<subseteq> rows m3" using assms(3,6) by (auto simp: ids_fit_def all_ids_def)
  define b where "b = put_cell (nat c) ((row a c)\<lparr>mc_pos := last_pos_of ub k, mc_rs_max := snapshots_of m3 ub, mc_seq_id := {}\<rparr>) a"
  have rb: "row b i = (if i = c then (row a c)\<lparr>mc_pos := last_pos_of ub k, mc_rs_max := snapshots_of m3 ub, mc_seq_id := {}\<rparr> else row a i)" if "i \<in> rows m3" for i
    unfolding b_def by (rule row_put_cell [OF sz c(2)]) (use that sf(1) in simp)
  have szb: "sized b" "rows b = rows m3" "same_frame a b" "re_used b = re_used a" using sz sf(1) by (simp_all add: b_def)
  have run: "fill_cell ub mn k a = foldM (\<lambda>j m. do { sid \<leftarrow> vget (ids_of ub k) j; enter_cell c sid m }) [0..<length (ids_of ub k)] b"
  proof -
    have g: "vget (ub_pos ub) (tok_of ub k + ub_n_seq_tokens ub - 1) = Some (last_pos_of ub k)"
      using ud(1,10) by (simp add: last_pos_of_def)
    have g2: "vget (ub_n_seq_id ub) (tok_of ub k) = Some (int (length (ids_of ub k)))" using ud(2,5) by simp
    have g3: "vget (ub_seq_id ub) (tok_of ub k) = Some (ids_of ub k)" using ud(3) by (simp add: ids_of_def)
    have ck: "int k + mn = c" by (simp add: c_def)
    have e: "ensure (0 < ub_n_seq_tokens ub) = Some ()" using ud(10) by simp
    show ?thesis
      unfolding fill_cell_def g e ck mem_at_row [OF sz c(2)] g2 g3 Option.bind.bind_lunit Let_def
      by (simp add: b_def snapshots_of_def sf(3))
  qed
  have emp: "seqs_at b c = {}" using rb [OF c(1)] by simp
  have cb: "c \<in> rows b" "set (ids_of ub k) \<subseteq> rows b" using szb(2) c(1) sub by auto
  show ?thesis
    unfolding run
  proof (rule wp_mono [OF enter_ids_wp [OF szb(1) cb emp]])
    fix e assume E: "same_frame b e \<and> re_used e = re_used b \<and>
      (\<forall>i \<in> rows b. tail_of e i = (if i \<in> set (ids_of ub k) then c else tail_of b i) \<and> seqs_at e i = (if i = c then set (ids_of ub k) else seqs_at b i) \<and>
       mc_pos (row e i) = mc_pos (row b i) \<and> mc_src (row e i) = mc_src (row b i) \<and> mc_rs_max (row e i) = mc_rs_max (row b i))"
    have E1: "tail_of e i = (if i \<in> set (ids_of ub k) then c else tail_of b i)" "seqs_at e i = (if i = c then set (ids_of ub k) else seqs_at b i)"
      "mc_pos (row e i) = mc_pos (row b i)" "mc_src (row e i) = mc_src (row b i)" "mc_rs_max (row e i) = mc_rs_max (row b i)" if "i \<in> rows m3" for i
      using E that unfolding szb(2) by blast+
    have tb: "tail_of b i = tail_of a i" "mc_src (row b i) = mc_src (row a i)" if "i \<in> rows m3" for i
      unfolding rb [OF that] by simp_all
    have at_s: "mn + int s \<in> rows m3" "mn + int s = c \<longleftrightarrow> s = k" if "s < Suc k" for s
      using that assms(4-6) by (auto simp: c_def)
    show "filled ub mn (Suc k) m3 e"
      unfolding filled_def
    proof (intro conjI)
      show "same_frame m3 e" using E I(1) szb(3) same_frame_trans by blast
      show "re_used e = re_used m3" using E szb(4) I(2) by simp
      show "\<forall>s < Suc k. seqs_at e (mn + int s) = set (ids_of ub s) \<and> mc_pos (row e (mn + int s)) = last_pos_of ub s \<and>
        mc_rs_max (row e (mn + int s)) = snapshots_of m3 ub"
      proof (intro allI impI)
        fix s assume s: "s < Suc k"
        show "seqs_at e (mn + int s) = set (ids_of ub s) \<and> mc_pos (row e (mn + int s)) = last_pos_of ub s \<and>
          mc_rs_max (row e (mn + int s)) = snapshots_of m3 ub"
        proof (cases "s = k")
          case True
          then show ?thesis using E1 [OF at_s(1) [OF s]] rb [OF at_s(1) [OF s]] by (simp add: c_def)
        next
          case False
          then have "mn + int s \<noteq> c" "s < k" using s by (auto simp: c_def)
          then show ?thesis using E1 [OF at_s(1) [OF s]] rb [OF at_s(1) [OF s]] I(3) by simp
        qed
      qed
      show "\<forall>i \<in> rows m3. (\<forall>s < Suc k. i \<noteq> mn + int s) \<longrightarrow> seqs_at e i = seqs_at m3 i \<and> mc_pos (row e i) = mc_pos (row m3 i) \<and>
        mc_rs_max (row e i) = mc_rs_max (row m3 i)"
      proof (intro ballI impI)
        fix i assume i: "i \<in> rows m3" "\<forall>s < Suc k. i \<noteq> mn + int s"
        then have ni: "i \<noteq> c" "\<forall>s < k. i \<noteq> mn + int s" by (auto simp: c_def)
        show "seqs_at e i = seqs_at m3 i \<and> mc_pos (row e i) = mc_pos (row m3 i) \<and> mc_rs_max (row e i) = mc_rs_max (row m3 i)"
          using E1 [OF i(1)] rb [OF i(1)] ni(1) I(4) i(1) ni(2) by simp
      qed
      show "\<forall>i \<in> rows m3. mc_src (row e i) = mc_src (row m3 i)" using E1(4) tb(2) I(5) by simp
      show "\<forall>s < Suc k. \<forall>t \<in> set (ids_of ub s). tail_of e t = mn + int s"
      proof (intro allI impI ballI)
        fix s t assume s: "s < Suc k" and t: "t \<in> set (ids_of ub s)"
        have sn: "s < ub_n_seqs ub" using s assms(6) by simp
        have tr: "t \<in> rows m3" using assms(3) all_ids_mem [OF sn t] unfolding ids_fit_def by blast
        show "tail_of e t = mn + int s"
        proof (cases "s = k")
          case True
          then show ?thesis using E1(1) [OF tr] t by (simp add: c_def)
        next
          case False
          then have "t \<notin> set (ids_of ub k)" "s < k" using ids_disjoint [OF assms(1) sn assms(6) t] s by auto
          then show ?thesis using E1(1) [OF tr] tb(1) [OF tr] I(6) t by simp
        qed
      qed
      show "\<forall>t \<in> rows m3. (\<forall>s < Suc k. t \<notin> set (ids_of ub s)) \<longrightarrow> tail_of e t = tail_of m3 t"
        using E1(1) tb(1) I(7) by simp
    qed
  qed
qed

lemma fill_all_wp:
  assumes "rec_ub_arrays ub" "sized m3" "ids_fit m3 ub" "0 \<le> mn" "mn + int (ub_n_seqs ub) \<le> int (re_size m3)"
  shows "wp (foldM (fill_cell ub mn) [0..<ub_n_seqs ub] m3) (filled ub mn (ub_n_seqs ub) m3)"
  by (rule wp_for [where I = "\<lambda>k. filled ub mn k m3"]) (use fill_cell_wp [OF assms] in \<open>auto simp: filled_def\<close>)

section \<open>The rows the states are read from\<close>

lemma zero_cell_spec:
  assumes "sized m"
  shows "zero_cell m mn mx = -1 \<and> (\<forall>i \<in> {mn..mx}. \<exists>j \<in> rows m. mc_src (row m j) = i) \<or>
    zero_cell m mn mx \<in> {mn..mx} \<and> (\<forall>j \<in> rows m. mc_src (row m j) \<noteq> zero_cell m mn mx)"
proof -
  have cells: "set (re_cells m) = row m ` rows m"
  proof -
    have "set (re_cells m) = (\<lambda>k. row m (int k)) ` {..<re_size m}"
      using assms by (auto simp: set_conv_nth sized_def row_def image_def)
    also have "... = row m ` (int ` {..<re_size m})" by (simp only: image_image)
    also have "int ` {..<re_size m} = rows m" by (auto simp: image_iff intro: zero_le_imp_eq_int [THEN exE])
    finally show ?thesis .
  qed
  show ?thesis
  proof (cases "List.find (\<lambda>i. \<forall>c \<in> set (re_cells m). mc_src c \<noteq> i) [mn..mx]")
    case None
    then have "\<not> (\<exists>i. i \<in> set [mn..mx] \<and> (\<forall>c \<in> set (re_cells m). mc_src c \<noteq> i))" by (simp only: find_None_iff simp_thms)
    then have "\<forall>i \<in> {mn..mx}. \<exists>j \<in> rows m. mc_src (row m j) = i" unfolding cells set_upto by blast
    moreover have "zero_cell m mn mx = -1" unfolding zero_cell_def None by simp
    ultimately show ?thesis by blast
  next
    case (Some i)
    then have "i \<in> {mn..mx}" "\<forall>c \<in> set (re_cells m). mc_src c \<noteq> i"
      by (auto simp: find_Some_iff)
    moreover have "zero_cell m mn mx = i" unfolding zero_cell_def Some by simp
    ultimately show ?thesis unfolding cells by blast
  qed
qed

text \<open>The cells of the range read from where they did, or from the cell to be zeroed, and belong to themselves from now on.\<close>

definition staged :: "int \<Rightarrow> int \<Rightarrow> rec_mem \<Rightarrow> rec_mem \<Rightarrow> bool" where
  "staged mn mx m4 m = (same_frame m4 m \<and> re_used m = re_used m4 \<and>
    (re_rs_z m = -1 \<or> re_rs_z m \<in> {mn..mx} \<and> (\<forall>j \<in> rows m4. mc_src (row m4 j) \<noteq> re_rs_z m)) \<and>
    (\<forall>i \<in> rows m4. tail_of m i = tail_of m4 i \<and> seqs_at m i = seqs_at m4 i \<and> mc_pos (row m i) = mc_pos (row m4 i) \<and>
       mc_rs_max (row m i) = mc_rs_max (row m4 i) \<and>
       (if i \<in> {mn..mx} then mc_src (row m i) = i \<and> mc_src0 (row m i) = (if mc_src (row m4 i) < 0 then re_rs_z m else mc_src (row m4 i)) \<and>
          (mc_src (row m4 i) < 0 \<longrightarrow> 0 \<le> re_rs_z m)
        else mc_src (row m i) = mc_src (row m4 i))))"

lemma stagedB:
  assumes "staged mn mx m4 m"
  shows "same_frame m4 m" "re_used m = re_used m4"
    "re_rs_z m = -1 \<or> re_rs_z m \<in> {mn..mx} \<and> (\<forall>j \<in> rows m4. mc_src (row m4 j) \<noteq> re_rs_z m)"
    "\<forall>i \<in> rows m4. tail_of m i = tail_of m4 i \<and> seqs_at m i = seqs_at m4 i \<and> mc_pos (row m i) = mc_pos (row m4 i) \<and>
       mc_rs_max (row m i) = mc_rs_max (row m4 i) \<and>
       (if i \<in> {mn..mx} then mc_src (row m i) = i \<and> mc_src0 (row m i) = (if mc_src (row m4 i) < 0 then re_rs_z m else mc_src (row m4 i)) \<and>
          (mc_src (row m4 i) < 0 \<longrightarrow> 0 \<le> re_rs_z m)
        else mc_src (row m i) = mc_src (row m4 i))"
  by (insert assms [unfolded staged_def]) (elim conjE, assumption)+

lemma stage_all_wp:
  assumes "sized m4" "mn \<in> rows m4" "mx \<in> rows m4" "\<And>i. i \<in> rows m4 \<Longrightarrow> mc_src (row m4 i) < int (re_size m4)"
    "(\<exists>i \<in> {mn..mx}. mc_src (row m4 i) < 0) \<Longrightarrow> \<exists>i \<in> {mn..mx}. \<forall>j \<in> rows m4. mc_src (row m4 j) \<noteq> i"
  shows "wp (stage_sources mn mx m4) (staged mn mx m4)"
proof -
  define z where "z = zero_cell m4 mn mx"
  define a where "a = m4\<lparr>re_rs_z := z\<rparr>"
  have zs: "z = -1 \<or> z \<in> {mn..mx} \<and> (\<forall>j \<in> rows m4. mc_src (row m4 j) \<noteq> z)" using zero_cell_spec [OF assms(1), of mn mx] by (auto simp: z_def)
  have z0: "0 \<le> z" if "i \<in> {mn..mx}" "mc_src (row m4 i) < 0" for i
  proof -
    have "\<not> (\<forall>i \<in> {mn..mx}. \<exists>j \<in> rows m4. mc_src (row m4 j) = i)" using assms(5) that by blast
    then have "z \<in> {mn..mx}" using zero_cell_spec [OF assms(1), of mn mx] unfolding z_def by blast
    then show ?thesis using assms(2) by auto
  qed
  have bound: "\<forall>c \<in> set (re_cells m4). mc_src c < int (re_size m4)"
  proof
    fix c assume "c \<in> set (re_cells m4)"
    then obtain k where "k < re_size m4" "c = row m4 (int k)" using assms(1) by (auto simp: in_set_conv_nth sized_def row_def)
    then show "mc_src c < int (re_size m4)" using assms(4) [of "int k"] by simp
  qed
  let ?I = "\<lambda>ys m. same_frame m4 m \<and> re_used m = re_used m4 \<and> re_rs_z m = z \<and>
    (\<forall>i \<in> rows m4. tail_of m i = tail_of m4 i \<and> seqs_at m i = seqs_at m4 i \<and> mc_pos (row m i) = mc_pos (row m4 i) \<and>
       mc_rs_max (row m i) = mc_rs_max (row m4 i) \<and>
       (if i \<in> set ys then mc_src (row m i) = i \<and> mc_src0 (row m i) = (if mc_src (row m4 i) < 0 then z else mc_src (row m4 i))
        else mc_src (row m i) = mc_src (row m4 i)))"
  have "wp (foldM stage_src [mn..mx] a) (?I [mn..mx])"
  proof (rule wp_foreach [where I = ?I])
    show "?I [] a" by (simp add: a_def same_frame_def)
  next
    fix ys y zs m assume sp: "[mn..mx] = ys @ y # zs" and I: "?I ys m"
    have y: "y \<in> {mn..mx}" "y \<notin> set ys"
    proof -
      have "y \<in> set [mn..mx]" using sp by simp
      then show "y \<in> {mn..mx}" by simp
      have "distinct (ys @ y # zs)" using sp distinct_upto [of mn mx] by metis
      then show "y \<notin> set ys" by simp
    qed
    have yr: "y \<in> rows m4" using y(1) assms(2,3) by auto
    note sf = same_frameD [OF conjunct1 [OF I]]
    have sz: "sized m" "y \<in> rows m" using sf(1,7) assms(1) yr by auto
    have ys: "mc_src (row m y) = mc_src (row m4 y)" using I yr y(2) by auto
    let ?s = "if mc_src (row m4 y) < 0 then z else mc_src (row m4 y)"
    define e where "e = put_cell (nat y) ((row m y)\<lparr>mc_src0 := ?s, mc_src := y\<rparr>) m"
    have re: "row e i = (if i = y then (row m y)\<lparr>mc_src0 := ?s, mc_src := y\<rparr> else row m i)" if "i \<in> rows m4" for i
      unfolding e_def by (rule row_put_cell [OF sz]) (use that sf(1) in simp)
    have "stage_src y m = Some e"
      using sz ys z0 [OF y(1)] I by (simp add: stage_src_def e_def)
    moreover have "?I (ys @ [y]) e"
    proof (intro conjI ballI)
      show "same_frame m4 e" "re_used e = re_used m4" "re_rs_z e = z" using I by (simp_all add: e_def)
    next
      fix i assume i: "i \<in> rows m4"
      have Ii: "tail_of m i = tail_of m4 i \<and> seqs_at m i = seqs_at m4 i \<and> mc_pos (row m i) = mc_pos (row m4 i) \<and>
       mc_rs_max (row m i) = mc_rs_max (row m4 i) \<and>
       (if i \<in> set ys then mc_src (row m i) = i \<and> mc_src0 (row m i) = (if mc_src (row m4 i) < 0 then z else mc_src (row m4 i))
        else mc_src (row m i) = mc_src (row m4 i))" using I i by blast
      show "tail_of e i = tail_of m4 i" "seqs_at e i = seqs_at m4 i" "mc_pos (row e i) = mc_pos (row m4 i)" "mc_rs_max (row e i) = mc_rs_max (row m4 i)"
        unfolding re [OF i] using Ii by (cases "i = y"; simp)+
      show "if i \<in> set (ys @ [y]) then mc_src (row e i) = i \<and> mc_src0 (row e i) = (if mc_src (row m4 i) < 0 then z else mc_src (row m4 i))
        else mc_src (row e i) = mc_src (row m4 i)"
        unfolding re [OF i] using Ii by (cases "i = y"; simp)
    qed
    ultimately show "wp (stage_src y m) (?I (ys @ [y]))" by (simp add: wp_def)
  qed auto
  then have F: "wp (stage_sources mn mx m4) (?I [mn..mx])" using bound by (simp add: stage_sources_def a_def z_def)
  show ?thesis
  proof (rule wp_mono [OF F])
    fix m assume I: "?I [mn..mx] m"
    have rz: "re_rs_z m = z" using I by blast
    show "staged mn mx m4 m"
      unfolding staged_def rz using I zs z0 by simp
  qed
qed

end
