(* ===== verification/RecFind.thy ===== *)
theory RecFind
  imports RecGather
begin

text \<open>
  \<open>find_slot\<close> as a whole: it succeeds on every micro-batch whose ids are in range, keeps the invariant,
  puts the sequences into consecutive cells and stages for every state the row it is in.
\<close>

section \<open>Between the phases\<close>

text \<open>The memories after unsharing (\<open>m1\<close>), assigning (\<open>m2\<close>), gathering (\<open>m3\<close>) and writing (\<open>m4\<close>).\<close>

definition chain :: "llama_ubatch \<Rightarrow> rec_mem \<Rightarrow> rec_mem \<Rightarrow> (int \<Rightarrow> int) \<Rightarrow> int \<Rightarrow> int \<Rightarrow> rec_mem \<Rightarrow> rec_mem \<Rightarrow> bool" where
  "chain ub m1 m2 f mn mx m3 m4 = (rec_ub_arrays ub \<and> rec_inv m1 \<and> ids_fit m1 ub \<and> (\<forall>t \<in> extra_ids ub. tail_of m1 t = -1) \<and>
     settled (leads ub (ub_n_seqs ub)) m1 m2 \<and> mn = Min (tail_of m2 ` leads ub (ub_n_seqs ub)) \<and>
     mx = Max (tail_of m2 ` leads ub (ub_n_seqs ub)) \<and> moved f {mn..mx} m2 m3 \<and>
     (\<forall>s < ub_n_seqs ub. tail_of m3 (lead ub s) = mn + int s) \<and> filled ub mn (ub_n_seqs ub) m3 m4)"

lemma chainB:
  assumes "chain ub m1 m2 f mn mx m3 m4"
  shows "rec_ub_arrays ub" "rec_inv m1" "ids_fit m1 ub" "\<forall>t \<in> extra_ids ub. tail_of m1 t = -1"
     "settled (leads ub (ub_n_seqs ub)) m1 m2" "mn = Min (tail_of m2 ` leads ub (ub_n_seqs ub))"
     "mx = Max (tail_of m2 ` leads ub (ub_n_seqs ub))" "moved f {mn..mx} m2 m3"
     "\<forall>s < ub_n_seqs ub. tail_of m3 (lead ub s) = mn + int s" "filled ub mn (ub_n_seqs ub) m3 m4"
  by (insert assms [unfolded chain_def]) (elim conjE, assumption)+

lemma lead_rows: "rec_ub_arrays ub \<Longrightarrow> ids_fit m ub \<Longrightarrow> s < ub_n_seqs ub \<Longrightarrow> lead ub s \<in> rows m"
  using lead_in all_ids_mem unfolding ids_fit_def by blast

text \<open>The range of the cells taken.\<close>

lemma range_facts:
  assumes "rec_ub_arrays ub" "rec_inv m1" "ids_fit m1 ub" "settled (leads ub (ub_n_seqs ub)) m1 m2"
    "mn = Min (tail_of m2 ` leads ub (ub_n_seqs ub))" "mx = Max (tail_of m2 ` leads ub (ub_n_seqs ub))"
  shows "mn \<in> rows m1" "mx \<in> rows m1" "int (ub_n_seqs ub) \<le> mx - mn + 1"
    "\<And>s. s < ub_n_seqs ub \<Longrightarrow> tail_of m2 (lead ub s) \<in> {mn..mx}"
    "\<And>s t. s < ub_n_seqs ub \<Longrightarrow> t < ub_n_seqs ub \<Longrightarrow> s \<noteq> t \<Longrightarrow> tail_of m2 (lead ub s) \<noteq> tail_of m2 (lead ub t)"
proof -
  let ?P = "leads ub (ub_n_seqs ub)" let ?T = "tail_of m2 ` leads ub (ub_n_seqs ub)"
  note d = settledD [OF assms(4)]
  have n: "0 < ub_n_seqs ub" using assms(1) by (simp add: rec_ub_arrays_def)
  have T: "finite ?T" "?T \<noteq> {}" "?T \<subseteq> rows m1" using n d(5) by auto
  show "mn \<in> rows m1" "mx \<in> rows m1" using subsetD [OF T(3) Min_in [OF T(1,2)]] subsetD [OF T(3) Max_in [OF T(1,2)]] unfolding assms(5,6) .
  show r: "tail_of m2 (lead ub s) \<in> {mn..mx}" if "s < ub_n_seqs ub" for s
    using that Min_le [OF T(1)] Max_ge [OF T(1)] assms(5,6) by auto
  show ne: "tail_of m2 (lead ub s) \<noteq> tail_of m2 (lead ub t)" if st: "s < ub_n_seqs ub" "t < ub_n_seqs ub" "s \<noteq> t" for s t
  proof
    assume eq: "tail_of m2 (lead ub s) = tail_of m2 (lead ub t)"
    have "lead ub s = lead ub t" using d(6) [OF _ lead_rows [OF assms(1,3) st(1)] eq] st(2) by blast
    then show False using lead_inj [OF assms(1) st(1,2)] st(3) by blast
  qed
  have inj: "inj_on (\<lambda>s. tail_of m2 (lead ub s)) {..<ub_n_seqs ub}"
    by (rule inj_onI) (use ne in blast)
  have "ub_n_seqs ub = card ((\<lambda>s. tail_of m2 (lead ub s)) ` {..<ub_n_seqs ub})" using card_image [OF inj] by simp
  also have "... \<le> card {mn..mx}" by (rule card_mono) (use r in auto)
  finally show "int (ub_n_seqs ub) \<le> mx - mn + 1"
    using n by (simp add: nat_le_iff split: if_splits)
qed

lemma chain_sizes:
  assumes "chain ub m1 m2 f mn mx m3 m4"
  shows "re_size m2 = re_size m1" "re_size m3 = re_size m1" "re_size m4 = re_size m1"
    "sized m1" "sized m2" "sized m3" "sized m4" "same_frame m1 m4" "{mn..mx} \<subseteq> rows m1"
proof -
  note c = chainB [OF assms]
  note s2 = settledD(1) [OF c(5)] and s3 = movedD(1) [OF c(8)] and s4 = filledB(1) [OF c(10)]
  have s1: "sized m1" using rec_invD(1) [OF c(2)] .
  show "re_size m2 = re_size m1" "re_size m3 = re_size m1" "re_size m4 = re_size m1"
    "sized m1" "sized m2" "sized m3" "sized m4" "same_frame m1 m4"
    using s1 s2 s3 s4 by (simp_all add: same_frame_def)
  show "{mn..mx} \<subseteq> rows m1" using range_facts(1,2) [OF c(1-3,5-7)] by auto
qed

lemma chain_pos:
  assumes "chain ub m1 m2 f mn mx m3 m4" "s < ub_n_seqs ub"
  shows "mn + int s \<in> {mn..mx}" "mn + int s \<in> rows m1" "f (tail_of m2 (lead ub s)) = mn + int s"
proof -
  note c = chainB [OF assms(1)]
  show "mn + int s \<in> {mn..mx}" using range_facts(3) [OF c(1-3,5-7)] assms(2) by simp
  then show "mn + int s \<in> rows m1" using chain_sizes(9) [OF assms(1)] by blast
  show "f (tail_of m2 (lead ub s)) = mn + int s"
  proof -
    have "lead ub s \<in> rows m2" using lead_rows [OF c(1,3) assms(2)] chain_sizes(1) [OF assms(1)] by simp
    then have "tail_of m3 (lead ub s) = f (tail_of m2 (lead ub s))" by (rule movedD(6) [OF c(8)])
    moreover have "tail_of m3 (lead ub s) = mn + int s" using c(9) assms(2) by blast
    ultimately show ?thesis by simp
  qed
qed

text \<open>Cell \<open>i\<close> after the swaps is some cell before them, the same one outside the range.\<close>

lemma chain_back:
  assumes "chain ub m1 m2 f mn mx m3 m4" "i \<in> rows m1"
  shows "\<exists>j \<in> rows m1. f j = i \<and> (i \<in> {mn..mx} \<longrightarrow> j \<in> {mn..mx}) \<and> (i \<notin> {mn..mx} \<longrightarrow> j = i)"
proof -
  note c = chainB [OF assms(1)] and z = chain_sizes [OF assms(1)]
  have inj: "inj_on f (rows m1)" using movedD(3) [OF c(8)] z(1) by simp
  have into: "f ` rows m1 \<subseteq> rows m1" using moved_rows [OF c(8)] z(1,9) by auto
  have "f ` rows m1 = rows m1" by (rule card_subset_eq [OF _ into card_image [OF inj]]) simp
  then obtain j where j: "j \<in> rows m1" "f j = i" using assms(2) by (metis imageE)
  have "j \<in> {mn..mx}" if "i \<in> {mn..mx}" using movedD(5) [OF c(8), of j] j(2) that by metis
  moreover have "j = i" if "i \<notin> {mn..mx}"
  proof -
    have "j \<notin> {mn..mx}" using movedD(4) [OF c(8)] j(2) that by blast
    then show ?thesis using movedD(5) [OF c(8), of j] j(2) by simp
  qed
  ultimately show ?thesis using j by blast
qed

text \<open>Where the sequences are after the contents have been written.\<close>

lemma chain_tails:
  assumes "chain ub m1 m2 f mn mx m3 m4"
  shows "\<And>s t. s < ub_n_seqs ub \<Longrightarrow> t \<in> set (ids_of ub s) \<Longrightarrow> tail_of m4 t = mn + int s"
    "\<And>t. t \<in> rows m1 \<Longrightarrow> t \<notin> all_ids ub \<Longrightarrow> tail_of m4 t = f (tail_of m1 t) \<and> tail_of m2 t = tail_of m1 t"
    "\<And>t. t \<in> rows m1 \<Longrightarrow> t \<notin> all_ids ub \<Longrightarrow> tail_of m1 t = -1 \<Longrightarrow> tail_of m4 t = -1"
    "\<And>t s. t \<in> rows m1 \<Longrightarrow> t \<notin> all_ids ub \<Longrightarrow> s < ub_n_seqs ub \<Longrightarrow> tail_of m4 t \<noteq> mn + int s"
proof -
  note c = chainB [OF assms] and z = chain_sizes [OF assms]
  show "tail_of m4 t = mn + int s" if "s < ub_n_seqs ub" "t \<in> set (ids_of ub s)" for s t
    using filledB(6) [OF c(10)] that by blast
  show e: "tail_of m4 t = f (tail_of m1 t) \<and> tail_of m2 t = tail_of m1 t" if t: "t \<in> rows m1" "t \<notin> all_ids ub" for t
  proof -
    have "\<forall>s < ub_n_seqs ub. t \<notin> set (ids_of ub s)" using t(2) all_ids_mem by blast
    then have "tail_of m4 t = tail_of m3 t" using filledB(7) [OF c(10)] t(1) z(2) by simp
    moreover have "t \<notin> leads ub (ub_n_seqs ub)" using t(2) lead_in [OF c(1)] all_ids_mem by blast
    ultimately show ?thesis using movedD(6) [OF c(8)] settledD(4) [OF c(5) t(1)] t(1) z(1) by simp
  qed
  have "(-1 :: int) \<notin> rows m1" by simp
  then have "(-1 :: int) \<notin> {mn..mx}" using z(9) by blast
  then have neg: "f (-1) = -1" by (rule movedD(5) [OF c(8)])
  show m: "tail_of m4 t = -1" if "t \<in> rows m1" "t \<notin> all_ids ub" "tail_of m1 t = -1" for t
    using e [OF that(1,2)] that(3) neg by simp
  show "tail_of m4 t \<noteq> mn + int s" if t: "t \<in> rows m1" "t \<notin> all_ids ub" and s: "s < ub_n_seqs ub" for t s
  proof
    assume eq: "tail_of m4 t = mn + int s"
    show False
    proof (cases "tail_of m1 t = -1")
      case True
      then show False using m [OF t True] chain_pos(2) [OF assms s] eq by simp
    next
      case False
      have r: "tail_of m1 t \<in> rows m1" using linkedD(1) [OF rec_invD(6) [OF c(2)] t(1) False] .
      have p: "lead ub s \<in> leads ub (ub_n_seqs ub)" using s by simp
      have "tail_of m2 (lead ub s) \<in> rows m1" using settledD(5) [OF c(5) p] .
      moreover have "f (tail_of m1 t) = f (tail_of m2 (lead ub s))" using e [OF t] eq chain_pos(3) [OF assms s] by simp
      ultimately have "tail_of m1 t = tail_of m2 (lead ub s)" using inj_onD [OF movedD(3) [OF c(8)]] r z(1) by simp
      then have "t = lead ub s" using settledD(6) [OF c(5) p t(1)] e [OF t] by simp
      then show False using t(2) lead_in [OF c(1) s] all_ids_mem [OF s] by blast
    qed
  qed
qed

lemma all_ids_cases:
  assumes "t \<in> all_ids ub"
  obtains s where "s < ub_n_seqs ub" "t \<in> set (ids_of ub s)"
  using assms by (auto simp: all_ids_def)

text \<open>The cells that are not written keep what was swapped into them.\<close>

lemma chain_other:
  assumes "chain ub m1 m2 f mn mx m3 m4" "j \<in> rows m1"
  shows "mc_src (row m4 (f j)) = mc_src (row m2 j)"
    "(\<forall>s < ub_n_seqs ub. f j \<noteq> mn + int s) \<Longrightarrow> seqs_at m4 (f j) = seqs_at m2 j \<and> mc_pos (row m4 (f j)) = mc_pos (row m2 j)"
proof -
  note c = chainB [OF assms(1)] and z = chain_sizes [OF assms(1)]
  have r: "f j \<in> rows m3" using moved_rows [OF c(8)] z(1,2,9) assms(2) by simp
  have j2: "j \<in> rows m2" using assms(2) z(1) by simp
  show "mc_src (row m4 (f j)) = mc_src (row m2 j)" using filledB(5) [OF c(10)] r movedD(9) [OF c(8) j2] by simp
  show "seqs_at m4 (f j) = seqs_at m2 j \<and> mc_pos (row m4 (f j)) = mc_pos (row m2 j)" if "\<forall>s < ub_n_seqs ub. f j \<noteq> mn + int s"
    using filledB(4) [OF c(10)] r that movedD(7,8) [OF c(8) j2] by simp
qed

lemma chain_linked:
  assumes "chain ub m1 m2 f mn mx m3 m4"
  shows "linked {} m4"
proof -
  note c = chainB [OF assms] and z = chain_sizes [OF assms] and tl = chain_tails [OF assms]
  have range: "tail_of m4 t = -1 \<or> tail_of m4 t \<in> rows m1" if t: "t \<in> rows m1" for t
  proof (cases "t \<in> all_ids ub")
    case True
    then show ?thesis using tl(1) chain_pos(2) [OF assms] by (metis all_ids_cases)
  next
    case False
    show ?thesis
    proof (cases "tail_of m1 t = -1")
      case nt: False
      have "f (tail_of m1 t) \<in> rows m2"
        by (rule moved_rows [OF c(8)]) (use z(1,9) linkedD(1) [OF rec_invD(6) [OF c(2)] t nt] in auto)
      then show ?thesis using tl(2) [OF t False] z(1) by simp
    qed (use tl(3) [OF t False] in simp)
  qed
  have sets: "seqs_at m4 i = {t \<in> rows m1. tail_of m4 t = i}" if i: "i \<in> rows m1" for i
  proof (cases "\<exists>s < ub_n_seqs ub. i = mn + int s")
    case True
    then obtain s where s: "s < ub_n_seqs ub" "i = mn + int s" by blast
    have q: "seqs_at m4 i = set (ids_of ub s)" using filledB(3) [OF c(10)] s by simp
    show ?thesis
    proof (rule set_eqI, rule iffI)
      fix t assume "t \<in> seqs_at m4 i"
      then have t: "t \<in> set (ids_of ub s)" using q by simp
      have "t \<in> rows m1" using all_ids_mem [OF s(1) t] c(3) unfolding ids_fit_def by blast
      then show "t \<in> {t \<in> rows m1. tail_of m4 t = i}" using tl(1) [OF s(1) t] s(2) by simp
    next
      fix t assume "t \<in> {t \<in> rows m1. tail_of m4 t = i}"
      then have t: "t \<in> rows m1" "tail_of m4 t = mn + int s" using s(2) by auto
      then have "t \<in> all_ids ub" using tl(4) [OF t(1) _ s(1)] by blast
      then obtain s' where s': "s' < ub_n_seqs ub" "t \<in> set (ids_of ub s')" by (rule all_ids_cases)
      then have "s' = s" using tl(1) [OF s'] t(2) by simp
      then show "t \<in> seqs_at m4 i" using s'(2) q by simp
    qed
  next
    case False
    obtain j where j: "j \<in> rows m1" "f j = i" using chain_back [OF assms i] by blast
    have q: "seqs_at m4 i = {t \<in> rows m1. tail_of m2 t = j \<and> tail_of m1 t \<noteq> -1}"
      using chain_other(2) [OF assms j(1)] False j(2) settledD(8) [OF c(5) j(1)] by simp
    have iff: "tail_of m2 t = j \<and> tail_of m1 t \<noteq> -1 \<longleftrightarrow> tail_of m4 t = i" if t: "t \<in> rows m1" for t
    proof (cases "t \<in> all_ids ub")
      case True
      then obtain s where s: "s < ub_n_seqs ub" "t \<in> set (ids_of ub s)" by (rule all_ids_cases)
      have r: "tail_of m4 t \<noteq> i" using tl(1) [OF s] False s(1) by auto
      have "\<not> (tail_of m2 t = j \<and> tail_of m1 t \<noteq> -1)"
      proof (cases "t = lead ub s")
        case True
        then show ?thesis using chain_pos(3) [OF assms s(1)] j(2) False s(1) by auto
      next
        case nl: False
        then have "t \<in> extra_ids ub" using s ids_cons [OF c(1) s(1)] by (auto simp: extra_ids_def)
        then show ?thesis using c(4) by blast
      qed
      then show ?thesis using r by blast
    next
      case nA: False
      note e = tl(2) [OF t nA]
      show ?thesis
      proof (cases "tail_of m1 t = -1")
        case True
        then show ?thesis using tl(3) [OF t nA True] i by auto
      next
        case live: False
        have r: "tail_of m1 t \<in> rows m1" using linkedD(1) [OF rec_invD(6) [OF c(2)] t live] .
        have "tail_of m1 t = j" if "f (tail_of m1 t) = f j"
          using inj_onD [OF movedD(3) [OF c(8)] that] r j(1) z(1) by simp
        then show ?thesis using e live j(2) by auto
      qed
    qed
    show ?thesis unfolding q using iff by blast
  qed
  show ?thesis using range sets by (simp add: linked_def z(3))
qed

lemma settled_src:
  assumes "rec_inv m1" "settled P m1 m2" "j \<in> rows m1"
  shows "seqs_at m2 j \<noteq> {} \<Longrightarrow> \<exists>t \<in> rows m1. tail_of m2 t = j \<and> tail_of m1 t \<in> rows m1 \<and> mc_src (row m2 j) = tail_of m1 t \<and>
      mc_pos (row m2 j) = mc_pos (row m1 (tail_of m1 t)) \<and> seqs_at m1 (tail_of m1 t) \<noteq> {}"
    "seqs_at m2 j = {} \<Longrightarrow> mc_pos (row m2 j) = -1 \<and> (mc_src (row m2 j) = -1 \<or> mc_src (row m2 j) = j)"
proof -
  note d = settledD [OF assms(2)] and l = rec_invD(6) [OF assms(1)]
  show "\<exists>t \<in> rows m1. tail_of m2 t = j \<and> tail_of m1 t \<in> rows m1 \<and> mc_src (row m2 j) = tail_of m1 t \<and>
      mc_pos (row m2 j) = mc_pos (row m1 (tail_of m1 t)) \<and> seqs_at m1 (tail_of m1 t) \<noteq> {}" if ne: "seqs_at m2 j \<noteq> {}"
  proof -
    obtain t where "t \<in> seqs_at m2 j" using ne by blast
    then have t: "t \<in> rows m1" "tail_of m2 t = j" "tail_of m1 t \<noteq> -1" using d(8) [OF assms(3)] by auto
    have "tail_of m1 t \<in> rows m1" "seqs_at m1 (tail_of m1 t) \<noteq> {}" using linkedD(1) [OF l t(1,3)] tail_nonempty [OF l t(1,3)] by auto
    then show ?thesis using t d(9) [OF t(1,3)] by (intro bexI [of _ t]) simp_all
  qed
  show "mc_pos (row m2 j) = -1 \<and> (mc_src (row m2 j) = -1 \<or> mc_src (row m2 j) = j)" if "seqs_at m2 j = {}"
    using d(10) [OF assms(3) that] .
qed

lemma chain_src:
  assumes "chain ub m1 m2 f mn mx m3 m4"
  shows "\<And>i. i \<in> rows m4 \<Longrightarrow> mc_src (row m4 i) < int (re_size m4)"
    "(\<exists>i \<in> {mn..mx}. mc_src (row m4 i) < 0) \<Longrightarrow> \<exists>i \<in> {mn..mx}. \<forall>j \<in> rows m4. mc_src (row m4 j) \<noteq> i"
proof -
  note c = chainB [OF assms] and z = chain_sizes [OF assms]
  have val: "mc_src (row m2 j) = -1 \<or> mc_src (row m2 j) \<in> rows m1" if "j \<in> rows m1" for j
    using settled_src [OF c(2,5) that] that by (cases "seqs_at m2 j = {}") auto
  show "mc_src (row m4 i) < int (re_size m4)" if i: "i \<in> rows m4" for i
  proof -
    have "i \<in> rows m1" using i z(3) by simp
    then obtain j where j: "j \<in> rows m1" "f j = i" using chain_back [OF assms] by blast
    then show ?thesis using chain_other(1) [OF assms j(1)] val [OF j(1)] z(3) by auto
  qed
  assume "\<exists>i \<in> {mn..mx}. mc_src (row m4 i) < 0"
  then obtain i where i: "i \<in> {mn..mx}" "mc_src (row m4 i) < 0" by blast
  obtain j0 where j0: "j0 \<in> rows m1" "f j0 = i" "j0 \<in> {mn..mx}" using chain_back [OF assms, of i] i(1) z(9) by blast
  have neg: "mc_src (row m2 j0) < 0" using chain_other(1) [OF assms j0(1)] j0(2) i(2) by simp
  have emp: "seqs_at m2 j0 = {}"
  proof (rule ccontr)
    assume "seqs_at m2 j0 \<noteq> {}"
    then show False using settled_src(1) [OF c(2,5) j0(1)] neg by auto
  qed
  have "mc_src (row m4 k) \<noteq> j0" if k: "k \<in> rows m4" for k
  proof
    assume eq: "mc_src (row m4 k) = j0"
    have "k \<in> rows m1" using k z(3) by simp
    then obtain j where j: "j \<in> rows m1" "f j = k" using chain_back [OF assms] by blast
    have sj: "mc_src (row m2 j) = j0" using chain_other(1) [OF assms j(1)] j(2) eq by simp
    show False
    proof (cases "seqs_at m2 j = {}")
      case True
      then have "j = j0" using settled_src(2) [OF c(2,5) j(1)] sj j0(1) by auto
      then show False using sj neg j0(1) by simp
    next
      case False
      obtain t where t: "mc_src (row m2 j) = tail_of m1 t" "seqs_at m1 (tail_of m1 t) \<noteq> {}" using settled_src(1) [OF c(2,5) j(1) False] by blast
      then have "seqs_at m1 j0 \<noteq> {}" using sj by simp
      then show False using settledD(11) [OF c(5) j0(1)] emp by simp
    qed
  qed
  then show "\<exists>i \<in> {mn..mx}. \<forall>j \<in> rows m4. mc_src (row m4 j) \<noteq> i" using j0(3) by blast
qed

text \<open>What the cells hold once the sources have been staged (\<open>m5\<close>).\<close>

lemma chain_contents:
  assumes "chain ub m1 m2 f mn mx m3 m4" "i \<in> rows m1" "same_frame m4 m5" "seqs_at m5 i = seqs_at m4 i"
    "mc_pos (row m5 i) = mc_pos (row m4 i)" "mc_rs_max (row m5 i) = mc_rs_max (row m4 i)"
    "mc_src (row m5 i) = (if i \<in> {mn..mx} then i else mc_src (row m4 i))"
  shows "contents_ok m5 i"
proof -
  note c = chainB [OF assms(1)] and z = chain_sizes [OF assms(1)]
  have nrs: "re_n_rs_seq m5 = re_n_rs_seq m1" "re_n_rs_seq m3 = re_n_rs_seq m1"
    using same_frameD(3) [OF assms(3)] same_frameD(3) [OF z(8)] same_frameD(3) [OF movedD(1) [OF c(8)]] same_frameD(3) [OF settledD(1) [OF c(5)]] by simp_all
  show ?thesis
  proof (cases "\<exists>s < ub_n_seqs ub. i = mn + int s")
    case True
    then obtain s where s: "s < ub_n_seqs ub" "i = mn + int s" by blast
    have "i \<in> {mn..mx}" "ids_of ub s \<noteq> []" "0 \<le> last_pos_of ub s" "last_pos_of ub s < INT32_MAX" "snapshots_of m3 ub \<le> re_n_rs_seq m1"
      using chain_pos(1) [OF assms(1) s(1)] s(2) rec_ub_arraysD(4,8,9) [OF c(1) s(1)] nrs(2) by (auto simp: snapshots_of_def)
    then show ?thesis using filledB(3) [OF c(10)] s assms(4-7) nrs(1) by (simp add: contents_ok_def)
  next
    case False
    obtain j where j: "j \<in> rows m1" "f j = i" "i \<notin> {mn..mx} \<Longrightarrow> j = i" using chain_back [OF assms(1,2)] by blast
    have q: "seqs_at m4 i = seqs_at m2 j" "mc_pos (row m4 i) = mc_pos (row m2 j)" "mc_src (row m4 i) = mc_src (row m2 j)"
      using chain_other [OF assms(1) j(1)] False j(2) by auto
    have rm: "mc_rs_max (row m5 i) \<le> re_n_rs_seq m5"
    proof -
      have "i \<in> rows m3" "i \<in> rows m2" using assms(2) z by simp_all
      then have "mc_rs_max (row m4 i) = mc_rs_max (row m1 i)"
        using filledB(4) [OF c(10)] False movedD(10) [OF c(8)] settledD(12) [OF c(5) assms(2)] by simp
      then show ?thesis using rec_invD(7) [OF c(2) assms(2)] assms(6) nrs(1) by (simp add: contents_ok_def)
    qed
    show ?thesis
    proof (cases "seqs_at m2 j = {}")
      case True
      have "mc_pos (row m5 i) = -1" "mc_src (row m5 i) = -1 \<or> mc_src (row m5 i) = i" "seqs_at m5 i = {}"
        using settled_src(2) [OF c(2,5) j(1) True] q assms(4,5,7) True j(3) by auto
      then show ?thesis using rm by (simp add: contents_ok_def)
    next
      case ne: False
      obtain t where t: "t \<in> rows m1" "tail_of m2 t = j" "tail_of m1 t \<in> rows m1" "mc_src (row m2 j) = tail_of m1 t"
        "mc_pos (row m2 j) = mc_pos (row m1 (tail_of m1 t))" "seqs_at m1 (tail_of m1 t) \<noteq> {}"
        using settled_src(1) [OF c(2,5) j(1) ne] by blast
      note cu = contents_used [OF rec_invD(7) [OF c(2) t(3)] t(6)]
      have "mc_src (row m5 i) = i"
      proof (cases "i \<in> {mn..mx}")
        case False
        then have ji: "j = i" using j(3) by blast
        have "t \<notin> leads ub (ub_n_seqs ub)"
        proof
          assume "t \<in> leads ub (ub_n_seqs ub)"
          then obtain s where "s < ub_n_seqs ub" "t = lead ub s" by blast
          then show False using range_facts(4) [OF c(1-3,5-7)] t(2) ji False by auto
        qed
        then have "tail_of m1 t = i" using settledD(4) [OF c(5) t(1)] t(2) ji by simp
        then show ?thesis using assms(7) False q(3) t(4) by simp
      qed (use assms(7) in simp)
      then show ?thesis using rm cu t(5) q assms(4,5) ne by (simp add: contents_ok_def)
    qed
  qed
qed

lemma used_cells_filter:
  assumes "sized m"
  shows "length (filter (\<lambda>c. \<not> cell_is_empty c) (re_cells m)) = n_used_cells m"
proof -
  have "length (filter (\<lambda>c. \<not> cell_is_empty c) (re_cells m)) = card {k. k < re_size m \<and> seqs_at m (int k) \<noteq> {}}"
    using assms by (simp add: length_filter_conv_card sized_def cell_is_empty_def row_def)
  also have "... = card (int ` {k. k < re_size m \<and> seqs_at m (int k) \<noteq> {}})" by (simp add: card_image)
  also have "int ` {k. k < re_size m \<and> seqs_at m (int k) \<noteq> {}} = {i \<in> rows m. seqs_at m i \<noteq> {}}"
  proof (intro equalityI subsetI)
    fix i assume i: "i \<in> {i \<in> rows m. seqs_at m i \<noteq> {}}"
    then have "i = int (nat i)" "nat i < re_size m" "seqs_at m (int (nat i)) \<noteq> {}" by auto
    then show "i \<in> int ` {k. k < re_size m \<and> seqs_at m (int k) \<noteq> {}}" by blast
  next
    fix i assume "i \<in> int ` {k. k < re_size m \<and> seqs_at m (int k) \<noteq> {}}"
    then obtain k where "i = int k" "k < re_size m" "seqs_at m (int k) \<noteq> {}" by blast
    then show "i \<in> {i \<in> rows m. seqs_at m i \<noteq> {}}" by simp
  qed
  finally show ?thesis unfolding n_used_cells_def .
qed

section \<open>The result\<close>

text \<open>The sequences whose state is not given up: they have a cell and are not made to share another one's.\<close>

definition keeps_state :: "llama_ubatch \<Rightarrow> rec_mem \<Rightarrow> llama_seq_id \<Rightarrow> bool" where
  "keeps_state ub m t = (t \<in> rows m \<and> t \<notin> extra_ids ub \<and> tail_of m t \<noteq> -1)"

text \<open>The cell whose row the graph reads the state of cell \<open>i\<close> from.\<close>

definition source_row :: "rec_mem \<Rightarrow> int \<Rightarrow> int" where
  "source_row m i = (if int (re_head m) \<le> i \<and> i < int (re_head m + re_n m) then mc_src0 (row m i) else i)"

definition slot_result :: "llama_ubatch \<Rightarrow> rec_mem \<Rightarrow> rec_mem \<Rightarrow> bool" where
  "slot_result ub m m' = (rec_inv m' \<and> re_size m' = re_size m \<and> re_n_seq_max m' = re_n_seq_max m \<and>
     re_n_rs_seq m' = re_n_rs_seq m \<and> re_rs_idx m' = re_rs_idx m \<and>
     ub_n_seqs ub \<le> re_n m' \<and> re_head m' + re_n m' \<le> re_size m \<and>
     (\<forall>s < ub_n_seqs ub. seqs_at m' (int (re_head m' + s)) = set (ids_of ub s) \<and>
        mc_pos (row m' (int (re_head m' + s))) = last_pos_of ub s) \<and>
     (\<forall>t \<in> rows m. t \<notin> all_ids ub \<longrightarrow> rec_posns m' t = rec_posns m t) \<and>
     (\<forall>t. keeps_state ub m t \<longrightarrow> source_row m' (tail_of m' t) = tail_of m t \<and> tail_of m t \<noteq> re_rs_z m') \<and>
     (\<forall>s < ub_n_seqs ub. tail_of m (lead ub s) = -1 \<longrightarrow>
        (let r = source_row m' (int (re_head m' + s)) in r \<in> rows m \<and> (\<forall>t. keeps_state ub m t \<longrightarrow> tail_of m t \<noteq> r))))"

lemma rec_find_slot_wp:
  assumes "rec_inv m" "rec_ub_arrays ub" "ids_fit m ub"
  shows "wp (rec_find_slot ub m) (\<lambda>(b, m'). b \<and> slot_result ub m m')"
proof -
  define m0 where "m0 = (if re_head m > re_used m + 2 * ub_n_seqs ub then m\<lparr>re_head := 0\<rparr> else m)"
  have i0: "rec_inv m0" using head_update_inv [OF assms(1), of 0] assms(1) by (simp add: m0_def)
  have e0: "row m0 = row m" "re_size m0 = re_size m" "re_n_seq_max m0 = re_n_seq_max m" "re_rs_idx m0 = re_rs_idx m" "re_n_rs_seq m0 = re_n_rs_seq m" by (simp_all add: m0_def)
  have f0: "ids_fit m0 ub" using assms(3) by (simp add: ids_fit_def e0)
  obtain m1 where u: "unshare ub m0 = Some (True, m1)" "left_cells (extra_ids ub) m0 m1"
    using unshare_wp [OF assms(2) i0 f0] by (auto simp: wp_def)
  have i1: "rec_inv m1" and sf1: "same_frame m0 m1" using u(2) by (simp_all add: left_cells_def)
  have t1: "tail_of m1 t = (if t \<in> extra_ids ub then -1 else tail_of m t)" if "t \<in> rows m" for t
    using u(2) that by (simp add: left_cells_def e0)
  have p1: "mc_pos (row m1 i) = mc_pos (row m i)" if "i \<in> rows m" "seqs_at m1 i \<noteq> {}" for i
    using u(2) that by (simp add: left_cells_def e0)
  have z1: "re_size m1 = re_size m" using same_frameD(1) [OF sf1] e0 by simp
  have f1: "ids_fit m1 ub" using assms(3) by (simp add: ids_fit_def z1)
  have ex: "\<forall>t \<in> extra_ids ub. tail_of m1 t = -1"
  proof
    fix t assume t: "t \<in> extra_ids ub"
    then have "t \<in> rows m" using assms(3) all_ids_split [OF assms(2)] unfolding ids_fit_def by blast
    then show "tail_of m1 t = -1" using t1 t by simp
  qed
  obtain nx nx' mn mx m2 where a: "first_empty m1 (re_size m1) (re_head m1) = Some nx"
    "foldM (assign_cell ub) [0..<ub_n_seqs ub] (nx, int (re_size m1) - 1, 0, m1) = Some (nx', mn, mx, m2)"
    "settled (leads ub (ub_n_seqs ub)) m1 m2" "mn = Min (tail_of m2 ` leads ub (ub_n_seqs ub))"
    "mx = Max (tail_of m2 ` leads ub (ub_n_seqs ub))"
    using assign_all_wp [OF assms(2) i1 f1] by (auto simp: wp_def bind_eq_Some_conv)
  note rf = range_facts [OF assms(2) i1 f1 a(3-5)]
  have z2: "re_size m2 = re_size m1" "sized m2" using same_frameD(1,7) [OF settledD(1) [OF a(3)]] rec_invD(1) [OF i1] by auto
  obtain m3 f where g: "foldM (gather_cell ub mn) [0..<ub_n_seqs ub] m2 = Some m3" "moved f {mn..mx} m2 m3"
    "\<forall>s < ub_n_seqs ub. tail_of m3 (lead ub s) = mn + int s"
  proof -
    have "wp (foldM (gather_cell ub mn) [0..<ub_n_seqs ub] m2) (\<lambda>m. \<exists>f. moved f {mn..mx} m2 m \<and>
      (\<forall>s < ub_n_seqs ub. tail_of m (lead ub s) = mn + int s))"
    proof (rule gather_all_wp [OF assms(2) z2(2) _ _ rf(3)])
      show "mn \<in> rows m2" "mx \<in> rows m2" using rf(1,2) z2(1) by simp_all
      show "lead ub s \<in> rows m2 \<and> tail_of m2 (lead ub s) \<in> {mn..mx}" if "s < ub_n_seqs ub" for s
        using lead_rows [OF assms(2) f1 that] rf(4) [OF that] z2(1) by simp
    qed (rule rf(5))
    then show ?thesis using that by (auto simp: wp_def)
  qed
  have z3: "re_size m3 = re_size m1" "sized m3" using same_frameD(1,7) [OF movedD(1) [OF g(2)]] z2 by auto
  have bnd: "0 \<le> mn" "mn + int (ub_n_seqs ub) \<le> int (re_size m3)" using rf(1-3) z3(1) by auto
  have f3: "ids_fit m3 ub" using f1 by (simp add: ids_fit_def z3)
  obtain m4 where w: "foldM (fill_cell ub mn) [0..<ub_n_seqs ub] m3 = Some m4" "filled ub mn (ub_n_seqs ub) m3 m4"
    using fill_all_wp [OF assms(2) z3(2) f3 bnd] by (auto simp: wp_def)
  have ch: "chain ub m1 m2 f mn mx m3 m4" using assms(2) i1 f1 ex a(3-5) g(2,3) w(2) by (simp add: chain_def)
  note z = chain_sizes [OF ch] and tl = chain_tails [OF ch]
  have mr: "mn \<in> rows m4" "mx \<in> rows m4" using rf(1,2) z(3) by simp_all
  obtain m5 where s5a: "stage_sources mn mx m4 = Some m5" and st: "staged mn mx m4 m5"
    using stage_all_wp [OF z(7) mr chain_src [OF ch]] by (rule wpE)
  note s5 = s5a stagedB(1) [OF st] and rz = stagedB(3) [OF st] and r5 = bspec [OF stagedB(4) [OF st]]
  define m6 where "m6 = m5\<lparr>re_head := u32_of mn, re_n := u32_of (mx - mn + 1),
                 re_used := length (filter (\<lambda>c. \<not> cell_is_empty c) (re_cells m5))\<rparr>"
  have sz31: "re_size m1 < 2 ^ 31" using rec_invD(2) [OF i1] .
  have hn: "re_head m6 = nat mn" "re_n m6 = nat (mx - mn + 1)" "int (re_head m6) = mn" "int (re_head m6 + re_n m6) = mx + 1"
    using rf(1-3) sz31 by (auto simp: m6_def)
  have row6: "row m6 = row m5" by (simp add: m6_def)
  have run: "rec_find_slot ub m = Some (ub_n_seqs ub \<le> re_n m6, m6)"
  proof -
    have eq: "ensure (equal_seqs ub) = Some ()" using assms(2) by (simp add: rec_ub_arrays_def)
    show ?thesis
      unfolding rec_find_slot_def Let_def m0_def [symmetric] eq u(1) Option.bind.bind_lunit prod.case a(1,2) g(1) w(1) s5(1)
      by (simp add: a g w s5 m6_def)
  qed
  have sf5: "same_frame m1 m5" using same_frame_trans [OF z(8) s5(2)] .
  have size5: "re_size m5 = re_size m1" "sized m5" using same_frameD(1,7) [OF sf5] z(4) by auto
  have l5: "linked {} m5" by (rule linked_cong [OF chain_linked [OF ch]]) (use r5 size5(1) z(3) in auto)
  have c5: "contents_ok m5 i" if i: "i \<in> rows m1" for i
  proof -
    have i4: "i \<in> rows m4" using i z(3) by simp
    show ?thesis by (rule chain_contents [OF ch i s5(2)]) (use r5 [OF i4] in auto)
  qed
  have inv: "rec_inv m6"
  proof -
    have "frame_ok m1" using i1 by (simp add: rec_inv_def)
    then have "frame_ok m5" by (rule frame_ok_same [OF _ sf5])
    moreover have "re_head m6 \<le> re_size m1" using rf(1) hn(1) by auto
    ultimately have "frame_ok m6" using size5(1) by (simp add: frame_ok_def m6_def sized_def)
    moreover have "linked {} m6" using l5 by (simp add: linked_def row6) (simp add: m6_def)
    moreover have "contents_ok m6 i" if "i \<in> rows m6" for i
      using c5 [of i] that size5(1) by (simp add: contents_ok_def row6) (simp add: m6_def)
    moreover have "re_used m6 = n_used_cells m6" using used_cells_filter [OF size5(2)] by (simp add: n_used_cells_def row6) (simp add: m6_def)
    ultimately show ?thesis by (simp add: rec_inv_def)
  qed
  have fr: "re_size m6 = re_size m" "re_n_seq_max m6 = re_n_seq_max m" "re_n_rs_seq m6 = re_n_rs_seq m" "re_rs_idx m6 = re_rs_idx m"
    using same_frameD(1-4) [OF sf5] same_frameD(1-4) [OF sf1] e0 by (simp_all add: m6_def)
  have at: "int (re_head m6 + s) = mn + int s" for s using hn(3) by simp
  have sq: "seqs_at m6 (int (re_head m6 + s)) = set (ids_of ub s) \<and> mc_pos (row m6 (int (re_head m6 + s))) = last_pos_of ub s"
    if s: "s < ub_n_seqs ub" for s
    unfolding at row6 using r5 [of "mn + int s"] chain_pos(2) [OF ch s] z(3) filledB(3) [OF w(2)] s by simp
  have other: "rec_posns m6 t = rec_posns m t" if t: "t \<in> rows m" "t \<notin> all_ids ub" for t
  proof -
    have t': "t \<in> rows m1" "t \<in> rows m4" using t(1) z1 z(3) by simp_all
    have nex: "tail_of m1 t = tail_of m t" using t1 [OF t(1)] t(2) all_ids_split [OF assms(2)] by auto
    have t6: "tail_of m6 t = tail_of m4 t" using r5 [OF t'(2)] row6 by simp
    show ?thesis
    proof (cases "tail_of m t = -1")
      case True
      then show ?thesis using tl(3) [OF t'(1) t(2)] nex t6 by (simp add: rec_posns_def)
    next
      case False
      let ?j = "tail_of m t"
      have j: "?j \<in> rows m1" "seqs_at m1 ?j \<noteq> {}"
        using linkedD(1) [OF rec_invD(6) [OF i1] t'(1)] tail_nonempty [OF rec_invD(6) [OF i1] t'(1)] nex False by auto
      have e: "tail_of m4 t = f ?j" "tail_of m2 t = ?j" using tl(2) [OF t'(1) t(2)] nex by simp_all
      have ns: "\<forall>s < ub_n_seqs ub. f ?j \<noteq> mn + int s" using tl(4) [OF t'(1) t(2)] e(1) by simp
      have fj: "f ?j \<in> rows m4" using moved_rows [OF g(2)] z(1,3,9) j(1) by simp
      have "mc_pos (row m4 (f ?j)) = mc_pos (row m2 ?j)" using chain_other(2) [OF ch j(1) ns] by simp
      also have "... = mc_pos (row m1 ?j)" using settledD(9) [OF a(3) t'(1)] nex False e(2) by simp
      also have "... = mc_pos (row m ?j)" using p1 [OF _ j(2)] j(1) z1 by simp
      finally have "mc_pos (row m6 (f ?j)) = mc_pos (row m ?j)" using r5 [OF fj] row6 by simp
      moreover have "f ?j \<noteq> -1" using fj by auto
      ultimately show ?thesis using False e(1) t6 by (simp add: rec_posns_def)
    qed
  qed
  have src6: "source_row m6 i = (if i \<in> {mn..mx} then mc_src0 (row m6 i) else i)" for i
    using hn(3,4) by (auto simp: source_row_def)
  have keep: "source_row m6 (tail_of m6 t) = tail_of m t \<and> tail_of m t \<noteq> re_rs_z m6" if k: "keeps_state ub m t" for t
  proof -
    have t: "t \<in> rows m" "t \<notin> extra_ids ub" "tail_of m t \<noteq> -1" using k by (simp_all add: keeps_state_def)
    have t': "t \<in> rows m1" "t \<in> rows m4" "t \<in> rows m2" using t(1) z1 z by simp_all
    have nex: "tail_of m1 t = tail_of m t" using t1 [OF t(1)] t(2) by simp
    then have live: "tail_of m1 t \<noteq> -1" using t(3) by simp
    have j1: "tail_of m1 t \<in> rows m1" using linkedD(1) [OF rec_invD(6) [OF i1] t'(1) live] .
    have j2: "tail_of m2 t \<in> rows m1" using settled_live [OF i1 a(3) t'(1) live] .
    have tail4: "tail_of m4 t = f (tail_of m2 t)"
    proof (cases "t \<in> all_ids ub")
      case True
      then obtain s where s: "s < ub_n_seqs ub" "t \<in> set (ids_of ub s)" by (rule all_ids_cases)
      then have "t = lead ub s" using t(2) ids_cons [OF assms(2) s(1)] by (auto simp: extra_ids_def)
      then show ?thesis using tl(1) [OF s] chain_pos(3) [OF ch s(1)] by simp
    qed (use tl(2) [OF t'(1)] in simp)
    have fr4: "f (tail_of m2 t) \<in> rows m4" using moved_rows [OF g(2)] z(1,3,9) j2 by simp
    have s4: "mc_src (row m4 (f (tail_of m2 t))) = tail_of m t"
      using chain_other(1) [OF ch j2] settledD(9) [OF a(3) t'(1) live] nex by simp
    have t6: "tail_of m6 t = f (tail_of m2 t)" using r5 [OF t'(2)] tail4 row6 by simp
    have nz: "tail_of m t \<noteq> re_rs_z m6"
      using rz s4 fr4 j1 nex by (auto simp: m6_def)
    show ?thesis
    proof (cases "f (tail_of m2 t) \<in> {mn..mx}")
      case True
      then have "mc_src0 (row m6 (f (tail_of m2 t))) = tail_of m t" using r5 [OF fr4] s4 j1 nex row6 by auto
      then show ?thesis using True nz by (simp add: src6 t6)
    next
      case False
      then have "tail_of m2 t \<notin> {mn..mx}" using movedD(4) [OF g(2)] by blast
      then have id: "f (tail_of m2 t) = tail_of m2 t" "tail_of m2 t \<notin> {mn..mx}" using movedD(5) [OF g(2)] by blast+
      have "t \<notin> leads ub (ub_n_seqs ub)" using rf(4) id(2) by auto
      then have "tail_of m2 t = tail_of m t" using settledD(4) [OF a(3) t'(1)] nex by simp
      then show ?thesis using id nz unfolding src6 t6 by auto
    qed
  qed
  have new: "let r = source_row m6 (int (re_head m6 + s)) in r \<in> rows m \<and> (\<forall>t. keeps_state ub m t \<longrightarrow> tail_of m t \<noteq> r)"
    if s: "s < ub_n_seqs ub" and nt: "tail_of m (lead ub s) = -1" for s
  proof -
    let ?p = "lead ub s"
    have p: "?p \<in> rows m1" using lead_rows [OF assms(2) f1 s] .
    have np: "tail_of m1 ?p = -1" using t1 [of ?p] p z1 nt by simp
    have pl: "?p \<in> leads ub (ub_n_seqs ub)" using s by simp
    let ?j = "tail_of m2 ?p"
    have j: "?j \<in> rows m1" using settledD(5) [OF a(3) pl] .
    have e2: "seqs_at m2 ?j = {}"
    proof -
      have "t = ?p" if "t \<in> rows m1" "tail_of m2 t = ?j" for t using settledD(6) [OF a(3) pl that] .
      then show ?thesis using settledD(8) [OF a(3) j] np by auto
    qed
    have e1: "seqs_at m1 ?j = {}" using settledD(7) [OF a(3) pl] np j by auto
    have fj: "f ?j = mn + int s" "mn + int s \<in> {mn..mx}" "mn + int s \<in> rows m4" using chain_pos [OF ch s] z(3) by simp_all
    have s4: "mc_src (row m4 (mn + int s)) = -1 \<or> mc_src (row m4 (mn + int s)) = ?j"
      using chain_other(1) [OF ch j] fj(1) settled_src(2) [OF i1 a(3) j e2] by simp
    have r: "source_row m6 (int (re_head m6 + s)) = (if mc_src (row m4 (mn + int s)) < 0 then re_rs_z m6 else ?j)"
      "mc_src (row m4 (mn + int s)) < 0 \<longrightarrow> 0 \<le> re_rs_z m6"
      unfolding at src6 row6 using r5 [OF fj(3)] fj(2) s4 j by (auto simp: m6_def)
    have in_rows: "re_rs_z m6 \<in> rows m" if "0 \<le> re_rs_z m6" using that rz z(9) z1 by (auto simp: m6_def)
    have unused: "tail_of m t \<noteq> ?j" if k: "keeps_state ub m t" for t
    proof
      assume tj: "tail_of m t = ?j"
      have t: "t \<in> rows m1" "tail_of m1 t = tail_of m t" "tail_of m1 t \<noteq> -1" using k t1 [of t] z1 by (auto simp: keeps_state_def)
      have "t \<in> seqs_at m1 ?j" using tail_nonempty [OF rec_invD(6) [OF i1] t(1,3)] t(2) tj by simp
      then show False using e1 by simp
    qed
    show ?thesis using r in_rows keep unused j z1 by (auto simp: Let_def)
  qed
  have ln: "ub_n_seqs ub \<le> re_n m6" using rf(3) hn(2) by linarith
  have "int (re_head m6 + re_n m6) \<le> int (re_size m)" using rf(2) hn(4) z1 by simp
  then have "re_head m6 + re_n m6 \<le> re_size m" by (simp only: of_nat_le_iff)
  then have "slot_result ub m m6"
    unfolding slot_result_def using inv fr ln sq other keep new by blast
  then show ?thesis using run ln by (simp add: wp_def)
qed

end
