(* ===== verification/RecProps.thy ===== *)
theory RecProps
  imports RecFind BatchProps
begin

text \<open>
  The properties of the recurrent memory: no sequence of calls leaves its invariant or fails,
  \<open>find_slot\<close> places every micro-batch whose ids are in range and keeps track of the states, a
  rollback is read from the snapshot it names, and \<open>init_batch\<close> accepts every batch.
\<close>

section \<open>Ids out of range\<close>

lemma unshare_any:
  assumes "rec_inv m" "rec_ub_arrays ub"
  shows "wp (unshare ub m) (\<lambda>x. rec_inv (snd x) \<and> same_frame m (snd x) \<and> (fst x \<longrightarrow> ids_fit m ub))"
  unfolding unshare_def
proof (rule wp_for [where I = "\<lambda>k x. rec_inv (snd x) \<and> same_frame m (snd x) \<and> (fst x \<longrightarrow> (\<forall>s < k. set (ids_of ub s) \<subseteq> rows m))"])
  fix k x assume k: "k < ub_n_seqs ub" and I: "rec_inv (snd x) \<and> same_frame m (snd x) \<and> (fst x \<longrightarrow> (\<forall>s < k. set (ids_of ub s) \<subseteq> rows m))"
  note d = rec_ub_arraysD [OF assms(2) k]
  have "wp (foldM (unshare_id ub k) [0..<length (ids_of ub k)] x) (\<lambda>y. rec_inv (snd y) \<and> same_frame m (snd y) \<and>
    (fst y \<longrightarrow> (\<forall>s < k. set (ids_of ub s) \<subseteq> rows m) \<and> set (ids_of ub k) \<subseteq> rows m))"
  proof (rule wp_for [where I = "\<lambda>j y. rec_inv (snd y) \<and> same_frame m (snd y) \<and>
      (fst y \<longrightarrow> (\<forall>s < k. set (ids_of ub s) \<subseteq> rows m) \<and> (\<forall>i < j. ids_of ub k ! i \<in> rows m))"])
    fix j y assume j: "j < length (ids_of ub k)" and J: "rec_inv (snd y) \<and> same_frame m (snd y) \<and>
      (fst y \<longrightarrow> (\<forall>s < k. set (ids_of ub s) \<subseteq> rows m) \<and> (\<forall>i < j. ids_of ub k ! i \<in> rows m))"
    obtain go a where y: "y = (go, a)" by (cases y)
    note e = same_frameD(1) [of m a]
    have sf: "same_frame m a" "rec_inv a" using J y by auto
    let ?x = "ids_of ub k ! j"
    have g: "vget (ub_seq_id ub) (tok_of ub k) = Some (ids_of ub k)" "vget (ids_of ub k) j = Some ?x" using d(3) j by (simp_all add: ids_of_def)
    have range: "(?x < 0 \<or> re_size a \<le> nat ?x) = (?x \<notin> rows m)" using e [OF sf(1)] by auto
    have run: "unshare_id ub k j y = (if \<not> go then Some (go, a) else if ?x \<notin> rows m then Some (False, a)
        else if 0 < j then do { m \<leftarrow> leave_cell ?x a; Some (True, m) } else Some (True, a))"
      unfolding unshare_id_def y prod.case g Option.bind.bind_lunit range by simp
    show "wp (unshare_id ub k j y) (\<lambda>y. rec_inv (snd y) \<and> same_frame m (snd y) \<and>
      (fst y \<longrightarrow> (\<forall>s < k. set (ids_of ub s) \<subseteq> rows m) \<and> (\<forall>i < Suc j. ids_of ub k ! i \<in> rows m)))"
    proof (cases "go \<and> ?x \<in> rows m \<and> 0 < j")
      case True
      then have xa: "?x \<in> rows a" using e [OF sf(1)] by simp
      obtain b where b: "leave_cell ?x a = Some b" "left_cell ?x a b" using leave_cell_wp [OF sf(2) xa] by (rule wpE)
      have "rec_inv b" "same_frame m b" using rec_inv_left(1) [OF sf(2) b(2) xa] same_frame_trans [OF sf(1)] b(2) by (auto simp: left_cell_def)
      then show ?thesis unfolding run using True b(1) J y by (auto simp: less_Suc_eq)
    next
      case False
      then show ?thesis unfolding run using J y sf by (auto simp: less_Suc_eq)
    qed
  qed (use I in \<open>auto simp: set_conv_nth\<close>)
  then show "wp (do { n_id \<leftarrow> vget (ub_n_seq_id ub) (tok_of ub k); foldM (unshare_id ub k) [0..<u32_of n_id] x })
      (\<lambda>x. rec_inv (snd x) \<and> same_frame m (snd x) \<and> (fst x \<longrightarrow> (\<forall>s < Suc k. set (ids_of ub s) \<subseteq> rows m)))"
    using d(2,5,6) by (auto simp: wp_simps less_Suc_eq elim!: wp_mono)
qed (use assms(1) in \<open>auto simp: ids_fit_def all_ids_def\<close>)

text \<open>What every operation keeps.\<close>

definition same_shape :: "rec_mem \<Rightarrow> rec_mem \<Rightarrow> bool" where
  "same_shape m m' = (re_size m' = re_size m \<and> re_n_seq_max m' = re_n_seq_max m \<and> re_n_rs_seq m' = re_n_rs_seq m \<and> re_rs_idx m' = re_rs_idx m)"

lemma find_slot_any:
  assumes "rec_inv m" "rec_ub_arrays ub"
  shows "wp (rec_find_slot ub m) (\<lambda>(b, m'). b = ids_fit m ub \<and> rec_inv m' \<and> same_shape m m')"
proof (cases "ids_fit m ub")
  case True
  then show ?thesis using rec_find_slot_wp [OF assms] by (auto elim!: wp_mono simp: slot_result_def same_shape_def)
next
  case False
  define m0 where "m0 = (if re_head m > re_used m + 2 * ub_n_seqs ub then m\<lparr>re_head := 0\<rparr> else m)"
  have i0: "rec_inv m0" using head_update_inv [OF assms(1), of 0] assms(1) by (simp add: m0_def)
  have e0: "same_shape m m0" by (simp add: m0_def same_shape_def)
  have f0: "\<not> ids_fit m0 ub" using False by (simp add: ids_fit_def m0_def)
  obtain m1 where u: "unshare ub m0 = Some (False, m1)" "rec_inv m1" "same_frame m0 m1"
    using unshare_any [OF i0 assms(2)] f0 by (auto simp: wp_def)
  have "ensure (equal_seqs ub) = Some ()" using assms(2) by (simp add: rec_ub_arrays_def)
  then have "rec_find_slot ub m = Some (False, m1)"
    unfolding rec_find_slot_def Let_def m0_def [symmetric] using u(1) by simp
  then show ?thesis using False u(2,3) e0 by (simp add: same_shape_def same_frame_def)
qed

section \<open>Preparing a batch\<close>

lemma same_shape_refl [simp]: "same_shape m m"
  by (simp add: same_shape_def)

lemma same_shape_trans: "same_shape m m' \<Longrightarrow> same_shape m' m'' \<Longrightarrow> same_shape m m''"
  by (simp add: same_shape_def)

lemma ids_fit_shape: "same_shape m m' \<Longrightarrow> ids_fit m' ub = ids_fit m ub"
  by (simp add: ids_fit_def same_shape_def)

lemma place_all_wp:
  assumes "rec_inv m" "\<forall>ub \<in> set ubs. rec_ub_arrays ub"
  shows "wp (place_all ubs m) (\<lambda>(b, m'). b = (\<forall>ub \<in> set ubs. ids_fit m ub) \<and> rec_inv m' \<and> same_shape m m')"
  using assms
proof (induction ubs arbitrary: m)
  case (Cons ub ubs)
  obtain b m1 where f: "rec_find_slot ub m = Some (b, m1)" "b = ids_fit m ub" "rec_inv m1" "same_shape m m1"
    using find_slot_any [OF Cons.prems(1), of ub] Cons.prems(2) by (auto simp: wp_def)
  have IH: "wp (place_all ubs m1) (\<lambda>(b, m'). b = (\<forall>ub \<in> set ubs. ids_fit m1 ub) \<and> rec_inv m' \<and> same_shape m1 m')"
    using Cons.IH [OF f(3)] Cons.prems(2) by simp
  show ?case
  proof (cases b)
    case True
    have eq: "(\<forall>ub \<in> set (ub # ubs). ids_fit m ub) = (\<forall>ub \<in> set ubs. ids_fit m1 ub)"
      using True f(2) ids_fit_shape [OF f(4)] by simp
    have "place_all (ub # ubs) m = place_all ubs m1" using f(1) True by simp
    then show ?thesis unfolding eq using IH same_shape_trans [OF f(4)] by (auto elim!: wp_mono)
  next
    case False
    then show ?thesis using f by auto
  qed
qed simp

text \<open>\<open>prepare\<close> tells whether the ids are in range and changes only \<open>n\<close> and \<open>rs_z\<close>.\<close>

lemma rec_prepare_wp:
  assumes "rec_inv m" "\<forall>ub \<in> set ubs. rec_ub_arrays ub"
  shows "wp (rec_prepare ubs m) (\<lambda>(b, m'). b = (\<forall>ub \<in> set ubs. ids_fit m ub) \<and> rec_inv m' \<and> same_shape m m' \<and>
    re_cells m' = re_cells m \<and> re_head m' = re_head m \<and> re_used m' = re_used m)"
proof -
  obtain b m1 where p: "place_all ubs m = Some (b, m1)" "b = (\<forall>ub \<in> set ubs. ids_fit m ub)" "same_shape m m1"
    using place_all_wp [OF assms] by (auto simp: wp_def)
  define m2 where "m2 = m1\<lparr>re_cells := re_cells m, re_used := re_used m, re_head := re_head m\<rparr>"
  have e: "same_shape m m2" "re_cells m2 = re_cells m" "re_head m2 = re_head m" "re_used m2 = re_used m"
    using p(3) by (simp_all add: m2_def same_shape_def)
  have r: "row m2 = row m" by (simp add: row_def fun_eq_iff e)
  have "rec_inv m2"
    using assms(1) e by (simp add: rec_inv_def frame_ok_def linked_def contents_ok_def n_used_cells_def sized_def r same_shape_def)
  then show ?thesis using p(1,2) e by (simp add: rec_prepare_def m2_def wp_def)
qed

section \<open>The calls of the memory\<close>

datatype rec_call =
    RClear
  | RRm llama_seq_id llama_pos llama_pos
  | RCp llama_seq_id llama_seq_id llama_pos llama_pos
  | RKeep llama_seq_id
  | RAdd llama_seq_id llama_pos llama_pos llama_pos
  | RDiv llama_seq_id llama_pos llama_pos int
  | RPrepare "llama_ubatch list"
  | RSlot llama_ubatch
  | RCopy nat

fun rec_exec :: "rec_call \<Rightarrow> rec_mem \<Rightarrow> rec_mem option" where
  "rec_exec RClear m = Some (rec_clear m)"
| "rec_exec (RRm s p0 p1) m = map_option snd (rec_seq_rm s p0 p1 m)"
| "rec_exec (RCp src dst p0 p1) m = rec_seq_cp src dst p0 p1 m"
| "rec_exec (RKeep s) m = rec_seq_keep s m"
| "rec_exec (RAdd s p0 p1 d) m = rec_seq_add s p0 p1 d m"
| "rec_exec (RDiv s p0 p1 d) m = rec_seq_div s p0 p1 d m"
| "rec_exec (RPrepare ubs) m = map_option snd (rec_prepare ubs m)"
| "rec_exec (RSlot ub) m = map_option snd (rec_find_slot ub m)"
| "rec_exec (RCopy i) m = map_option snd (s_copy i m)"

text \<open>
  What the caller has to see to: ids are 32-bit integers, a shift leaves the positions of the
  sequence representable and not negative, divisors are positive, micro-batches are well-formed (their
  ids may be out of range), and states are copied for cells of the memory.
\<close>

fun call_ok :: "rec_mem \<Rightarrow> rec_call \<Rightarrow> bool" where
  "call_ok m (RRm s p0 p1) = in_i32 s"
| "call_ok m (RCp src dst p0 p1) = (in_i32 src \<and> in_i32 dst)"
| "call_ok m (RAdd s p0 p1 d) = (s \<in> rows m \<longrightarrow> (\<forall>p \<in> rec_posns m s. 0 \<le> p + d \<and> p + d < INT32_MAX))"
| "call_ok m (RDiv s p0 p1 d) = (0 < d)"
| "call_ok m (RPrepare ubs) = (\<forall>ub \<in> set ubs. rec_ub_arrays ub)"
| "call_ok m (RSlot ub) = rec_ub_arrays ub"
| "call_ok m (RCopy i) = (i + re_head m < re_size m)"
| "call_ok m c = True"

inductive rec_reach :: "rec_mem \<Rightarrow> bool" where
  start: "sz < 2 ^ 31 \<Longrightarrow> nq < 2 ^ 31 \<Longrightarrow> rec_reach (rec_new sz nq nrs nl)"
| call: "rec_reach m \<Longrightarrow> call_ok m c \<Longrightarrow> rec_exec c m = Some m' \<Longrightarrow> rec_reach m'"

lemma s_copy_inv:
  assumes "rec_inv m" "i + re_head m < re_size m"
  shows "wp (s_copy i m) (\<lambda>(_, m'). rec_inv m')"
proof -
  let ?c = "re_cells m ! (i + re_head m)" let ?k = "nat (Min (mc_seq_id (re_cells m ! (i + re_head m))))"
  have g: "vget (re_cells m) (i + re_head m) = Some ?c" using assms(2) rec_invD(1) [OF assms(1)] by (simp add: sized_def)
  have "rec_inv (m\<lparr>re_rs_idx := (re_rs_idx m)[?k := 0]\<rparr>)" if "?k < length (re_rs_idx m)"
    using rs_update_inv [OF assms(1), of ?k 0] that rec_invD(5) [OF assms(1)] by simp
  then show ?thesis unfolding s_copy_def g Option.bind.bind_lunit using assms(1) by auto
qed

lemma INT32_in: "0 \<le> p \<Longrightarrow> p < INT32_MAX \<Longrightarrow> in_i32 p"
  by (simp add: in_i32_def INT32_MAX_def)

lemma rec_exec_wp:
  assumes "rec_inv m" "call_ok m c"
  shows "wp (rec_exec c m) rec_inv"
proof (cases c)
  case RClear
  then show ?thesis using rec_clear_inv [OF assms(1)] by simp
next
  case (RRm s p0 p1)
  have "wp (rec_seq_rm s p0 p1 m) (\<lambda>(_, m'). rec_inv m')"
  proof (cases "rec_knows m s")
    case True
    then show ?thesis by (auto intro: wp_mono [OF rec_seq_rm_wp [OF assms(1) True]] simp: rm_result_def)
  next
    case False
    show ?thesis by (rule wp_mono [OF rec_seq_rm_unknown [OF assms(1) _ False]]) (use assms(2) RRm in auto)
  qed
  then show ?thesis using RRm by (auto simp: wp_def)
next
  case (RCp src dst p0 p1)
  then show ?thesis using assms by (auto intro: wp_mono [OF rec_seq_cp_wp])
next
  case (RKeep s)
  then show ?thesis using assms by (auto intro: wp_mono [OF rec_seq_keep_wp])
next
  case (RAdd s p0 p1 d)
  have "wp (map_tail_pos s (lo_pos p0) (hi_pos p1) (\<lambda>p. i32 (p + d)) m) rec_inv"
  proof (rule wp_mono [OF map_tail_pos_wp [OF assms(1)]])
    fix p assume "s \<in> rows m" "p \<in> rec_posns m s"
    then have "0 \<le> p + d" "p + d < INT32_MAX" using assms(2) RAdd by auto
    then show "wp (i32 (p + d)) (\<lambda>q. 0 \<le> q \<and> q < INT32_MAX)" using INT32_in by simp
  qed blast
  then show ?thesis using RAdd assms(1) by (simp add: rec_seq_add_def)
next
  case (RDiv s p0 p1 d)
  have "wp (map_tail_pos s (lo_pos p0) (hi_pos p1) (\<lambda>p. if d = 0 then None else i32 (trunc_div p d)) m) rec_inv"
  proof (rule wp_mono [OF map_tail_pos_wp [OF assms(1)]])
    fix p assume s: "s \<in> rows m" and p: "p \<in> rec_posns m s"
    have d: "0 < d" using assms(2) RDiv by simp
    have b: "0 \<le> p" "p < INT32_MAX" using rec_pos_bounds [OF assms(1) s p] by auto
    have "p div d \<le> p" using zdiv_mono2 [of p 1 d] b(1) d by simp
    then have "0 \<le> p div d" "p div d < INT32_MAX" using b d by (auto simp: pos_imp_zdiv_nonneg_iff)
    then show "wp (if d = 0 then None else i32 (trunc_div p d)) (\<lambda>q. 0 \<le> q \<and> q < INT32_MAX)"
      using d b INT32_in by simp
  qed blast
  then show ?thesis using RDiv assms(1) by (simp add: rec_seq_div_def)
next
  case (RPrepare ubs)
  have "wp (rec_prepare ubs m) (\<lambda>(_, m'). rec_inv m')" 
    by (rule wp_mono [OF rec_prepare_wp [OF assms(1)]]) (use assms(2) RPrepare in auto)
  then show ?thesis using RPrepare by (auto simp: wp_def)
next
  case (RSlot ub)
  have "wp (rec_find_slot ub m) (\<lambda>(_, m'). rec_inv m')"
    by (rule wp_mono [OF find_slot_any [OF assms(1)]]) (use assms(2) RSlot in auto)
  then show ?thesis using RSlot by (auto simp: wp_def)
next
  case (RCopy i)
  have "wp (s_copy i m) (\<lambda>(_, m'). rec_inv m')" by (rule s_copy_inv [OF assms(1)]) (use assms(2) RCopy in simp)
  then show ?thesis using RCopy by (auto simp: wp_def)
qed

lemma rec_memory_inv:
  assumes "rec_reach m"
  shows "rec_inv m"
  using assms
proof induction
  case (start sz nq nrs nl)
  then show ?case by (rule rec_new_inv)
next
  case (call m c m')
  from rec_exec_wp [OF call(4,2)] call(3) show ?case by (rule wpD)
qed

text \<open>
  C34. Type safety of the recurrent memory.  However the calls follow one another on a newly built memory,
  with or without layers, the memory is well-formed (the tails are exactly the inverse of the sequence sets of the cells, \<open>used\<close> counts the
  cells in use, no rollback index exceeds the snapshots), and every next call that meets its
  precondition returns: no assertion fails, no cell index is out of range, no position overflows.
\<close>

theorem rec_memory_type_safe:
  assumes "rec_reach m"
  shows "rec_inv m \<and> (\<forall>c. call_ok m c \<longrightarrow> (\<exists>m'. rec_exec c m = Some m'))"
  using rec_memory_inv [OF assms] rec_exec_wp [OF rec_memory_inv [OF assms]] by (auto simp: wp_def)

section \<open>Placing a micro-batch\<close>

text \<open>
  C35. \<open>find_slot\<close> on a reachable memory succeeds exactly when every id of the micro-batch is below the
  number of cells, and never fails an assertion.  When it succeeds the sequences of the micro-batch are
  in consecutive cells from \<open>head\<close> on, in order and with their last positions; every other sequence
  keeps its position; every state that is not given up is read from the row it was in, also when it was
  shared or its cell was swapped; a sequence without a state reads a row that holds nobody's state, and
  the row that is zeroed holds nobody's state either.
\<close>

theorem rec_find_slot_places:
  assumes "rec_reach m" "rec_ub_arrays ub"
  shows "\<exists>b m'. rec_find_slot ub m = Some (b, m') \<and> b = ids_fit m ub \<and> (b \<longrightarrow> slot_result ub m m')"
proof -
  have i: "rec_inv m" using rec_memory_inv [OF assms(1)] .
  show ?thesis
  proof (cases "ids_fit m ub")
    case True
    then show ?thesis using rec_find_slot_wp [OF i assms(2)] by (auto simp: wp_def)
  next
    case False
    then show ?thesis using find_slot_any [OF i assms(2)] by (auto simp: wp_def)
  qed
qed

section \<open>Rollback\<close>

lemma rec_rollback_pending:
  assumes "rec_inv m" "rec_knows m s" "p \<in> rec_posns m s" "0 < p0" "p0 \<le> p" "\<not> re_no_layers m"
    "rec_seq_rm s p0 (-1) m = Some (True, m1)"
  shows "rec_inv m1" "rec_posns m1 s = {p0 - 1}" "re_size m1 = re_size m" "re_n_seq_max m1 = re_n_seq_max m" "tail_of m1 s = tail_of m s"
    "tail_of m s \<noteq> -1" "int (re_rs_idx m1 ! nat s) = p - (p0 - 1)" "re_n_rs_seq m1 \<noteq> 0"
proof -
  have s: "s \<in> rows m" "nat s < re_n_seq_max m" using assms(2) by (auto simp: rec_knows_def)
  have tl: "tail_of m s \<noteq> -1" "p = mc_pos (row m (tail_of m s))" using assms(3) by (auto simp: rec_posns_def split: if_splits)
  have b: "p < hi_pos (-1)" using rec_pos_bounds [OF assms(1) s(1) assms(3)] by (simp add: hi_pos_def)
  have eq: "rec_seq_rm s p0 (-1) m = rollback s p0 (tail_of m s) m"
    by (rule rec_seq_rm_partial [OF assms(1,2) tl(1) assms(4)]) (use tl(2) assms(5) b in auto)
  have R: "rm_result s p0 (hi_pos (-1)) m True m1" "re_n_rs_seq m1 = re_n_rs_seq m" "tail_of m1 s = tail_of m s"
    "int (re_rs_idx m1 ! nat s) = p - (p0 - 1)"
    using rollback_wp [OF assms(1,2) tl(1) assms(4), of "hi_pos (-1)"] assms(5-7) tl(2) b eq by (auto simp: wp_def)
  have ps: "rec_posns m s = {p}" using tl by (simp add: rec_posns_def)
  then have "rec_posns m s \<inter> {p0..<hi_pos (-1)} \<noteq> {}" using assms(5) b by auto
  then show i1: "rec_inv m1" "rec_posns m1 s = {p0 - 1}" "re_size m1 = re_size m" "re_n_seq_max m1 = re_n_seq_max m"
    using R(1) assms(4) unfolding rm_result_def by auto
  show "tail_of m1 s = tail_of m s" "tail_of m s \<noteq> -1" "int (re_rs_idx m1 ! nat s) = p - (p0 - 1)" by (rule R(3) tl(1) R(4))+
  have "re_rs_idx m1 ! nat s \<le> re_n_rs_seq m1" using i1(1,4) s(2) unfolding rec_inv_def frame_ok_def by simp
  then show "re_n_rs_seq m1 \<noteq> 0" using R(4) assms(5) by simp
qed

text \<open>The source a sequence alone in its set reads from after its micro-batch was placed.\<close>

lemma rec_placed_source:
  assumes "rec_inv m" "s \<in> rows m" "tail_of m s \<noteq> -1" "rec_ub_arrays ub" "k < ub_n_seqs ub" "ids_of ub k = [s]" "slot_result ub m m2"
  shows "vget (re_cells m2) (k + re_head m2) = Some (row m2 (int (re_head m2 + k)))"
    "mc_seq_id (row m2 (int (re_head m2 + k))) = {s}" "mc_src0 (row m2 (int (re_head m2 + k))) = tail_of m s"
    "re_rs_idx m2 = re_rs_idx m" "re_n_rs_seq m2 = re_n_rs_seq m" "re_size m2 = re_size m" "length (re_rs_idx m2) = re_n_seq_max m"
proof -
  have inv2: "rec_inv m2" and e2: "re_size m2 = re_size m" "re_n_rs_seq m2 = re_n_rs_seq m" "re_rs_idx m2 = re_rs_idx m" "re_n_seq_max m2 = re_n_seq_max m"
    and n2: "ub_n_seqs ub \<le> re_n m2" "re_head m2 + re_n m2 \<le> re_size m2"
    and q2: "seqs_at m2 (int (re_head m2 + k)) = {s}" 
    and src: "keeps_state ub m s \<Longrightarrow> source_row m2 (tail_of m2 s) = tail_of m s"
    using assms unfolding slot_result_def by auto
  have hk: "re_head m2 + k < re_size m2" using n2 assms(5) by linarith
  have sz2: "sized m2" using rec_invD(1) [OF inv2] .
  have t2: "tail_of m2 s = int (re_head m2 + k)"
    using linkedD(2) [OF rec_invD(6) [OF inv2], of "int (re_head m2 + k)" s] q2 hk assms(2) e2(1) by simp
  have "lead ub k = s" using assms(6) by (simp add: lead_def)
  then have "s \<notin> extra_ids ub" using lead_not_extra [OF assms(4,5)] by simp
  then have ks: "keeps_state ub m s" using assms(2,3) by (simp add: keeps_state_def)
  show "mc_src0 (row m2 (int (re_head m2 + k))) = tail_of m s"
    using src [OF ks] n2(1) assms(5) by (simp add: t2 source_row_def)
  show "vget (re_cells m2) (k + re_head m2) = Some (row m2 (int (re_head m2 + k)))"
    using empty_at [OF sz2 hk] by (simp only: add.commute [of k])
  show "mc_seq_id (row m2 (int (re_head m2 + k))) = {s}" using q2 by simp
  show "re_rs_idx m2 = re_rs_idx m" "re_n_rs_seq m2 = re_n_rs_seq m" "re_size m2 = re_size m" by (rule e2)+
  show "length (re_rs_idx m2) = re_n_seq_max m" using rec_invD(5) [OF inv2] e2(4) by simp
qed

text \<open>
  C36. A rollback is read from its snapshot.  If \<open>seq_rm(s, p0, -1)\<close> accepts to cut the past of a
  sequence, the sequence ends at \<open>p0 - 1\<close> and no other one moves; and when the next micro-batch
  brings the sequence, alone in its set, the graph reads its state from the snapshot as many tokens
  back as were cut, of the row the state was in, after which no rollback is pending.
\<close>

theorem rec_rollback_reads_snapshot:
  assumes "rec_reach m" "rec_knows m s" "p \<in> rec_posns m s" "0 < p0" "p0 \<le> p" "\<not> re_no_layers m"
    "rec_seq_rm s p0 (-1) m = Some (True, m1)"
    "rec_ub_arrays ub" "ids_fit m1 ub" "k < ub_n_seqs ub" "ids_of ub k = [s]"
  shows "rec_seq_pos_max m1 s = Some (p0 - 1) \<and> (\<forall>t. rec_knows m t \<and> t \<noteq> s \<longrightarrow> rec_seq_pos_max m1 t = rec_seq_pos_max m t) \<and>
    (\<exists>b m2 m3. rec_find_slot ub m1 = Some (b, m2) \<and>
       s_copy k m2 = Some ((p - (p0 - 1)) * int (re_size m) + tail_of m s, m3) \<and> re_rs_idx m3 ! nat s = 0)"
proof -
  have i: "rec_inv m" using rec_memory_inv [OF assms(1)] .
  note r = rec_rollback_pending [OF i assms(2-7)]
  have s: "s \<in> rows m1" "nat s < re_n_seq_max m1" "0 \<le> s" using assms(2) r(3,4) by (auto simp: rec_knows_def)
  have mx: "rec_seq_pos_max m1 s = Some (p0 - 1)" using rec_pos_max_at [OF r(1) s(1)] r(2) by (simp add: max_or_none_def)
  have others: "rec_seq_pos_max m1 t = rec_seq_pos_max m t" if "rec_knows m t" "t \<noteq> s" for t
    by (rule rec.others_keep [OF i assms(2) that assms(7)])
  obtain m2 where f: "rec_find_slot ub m1 = Some (True, m2)" "slot_result ub m1 m2"
    using rec_find_slot_wp [OF r(1) assms(8,9)] by (auto simp: wp_def)
  have t1: "tail_of m1 s \<noteq> -1" using r(5,6) by simp
  note g = rec_placed_source [OF r(1) s(1) t1 assms(8,10,11) f(2)]
  have len: "nat s < length (re_rs_idx m2)" using g(7) s(2) by simp
  have "s_copy k m2 = Some (int (re_rs_idx m2 ! nat s * re_size m2) + tail_of m1 s, m2\<lparr>re_rs_idx := (re_rs_idx m2)[nat s := 0]\<rparr>)"
    unfolding s_copy_def g(1) Option.bind.bind_lunit using g(2,3,5) r(8) s(3) len by simp
  then have "s_copy k m2 = Some ((p - (p0 - 1)) * int (re_size m) + tail_of m s, m2\<lparr>re_rs_idx := (re_rs_idx m2)[nat s := 0]\<rparr>)"
    using r(3,5,7) g(4,6) by simp
  then show ?thesis using mx others f(1) len by auto
qed

section \<open>Whole batches\<close>

lemma equal_ub_arrays:
  assumes "equal_ub nb b ub" "\<forall>i < ub_n_tokens ub. ub_pos ub ! i < INT32_MAX"
  shows "rec_ub_arrays ub" "\<forall>s < ub_n_seqs ub. tok_of ub s < ub_n_tokens ub"
proof -
  obtain xss where x: "equal_seqs ub" "ub_batch_idxs ub = concat xss" "ub_n_seqs ub = length xss" "ub_n_tokens ub = length (concat xss)"
    "0 < ub_n_tokens ub" "ubatch_ok ub" 
    "\<forall>xs \<in> set xss. length xs = ub_n_seq_tokens ub \<and> sorted xs \<and> (\<forall>i \<in> set xs. \<forall>j \<in> set xs. set (the (lb_seq_id b) ! i) = set (the (lb_seq_id b) ! j))"
    "\<forall>s < length xss. \<forall>t < length xss. s \<noteq> t \<longrightarrow>
        (\<forall>i \<in> set (xss ! s). \<forall>j \<in> set (xss ! t). set (the (lb_seq_id b) ! i) \<inter> set (the (lb_seq_id b) ! j) = {})"
    "\<forall>i < ub_n_tokens ub. ub_pos ub ! i = the (lb_pos b) ! (ub_batch_idxs ub ! i) \<and> ub_seq_id ub ! i = the (lb_seq_id b) ! (ub_batch_idxs ub ! i)"
    using assms(1) unfolding equal_ub_def by (elim exE conjE) (rule that, assumption+)
  let ?m = "ub_n_seq_tokens ub"
  have len: "length (concat xss) = length xss * ?m" by (rule length_concat_block) (use x(7) in auto)
  have m: "0 < ?m" "0 < length xss" using len x(4,5) by (metis gr_zeroI mult_0 mult_0_right)+
  have tok: "tok_of ub s + ?m \<le> ub_n_tokens ub" if "s < length xss" for s
  proof -
    have "(s + 1) * ?m \<le> length xss * ?m" using that by (intro mult_le_mono1) simp
    then show ?thesis using x(4) len by (simp add: tok_of_def algebra_simps)
  qed
  then have lt: "tok_of ub s < ub_n_tokens ub" if "s < length xss" for s using that m(1) by (meson add_leD1 less_add_same_cancel1 less_le_trans)
  then show "\<forall>s < ub_n_seqs ub. tok_of ub s < ub_n_tokens ub" using x(3) by simp
  have first: "concat xss ! tok_of ub s \<in> set (xss ! s)" if s: "s < length xss" for s
  proof -
    have "concat xss ! (s * ?m + 0) = xss ! s ! 0" by (rule nth_concat_block) (use x(7) m(1) s in auto)
    moreover have "xss ! s ! 0 \<in> set (xss ! s)" using x(7) s m(1) by (intro nth_mem) simp
    ultimately show ?thesis by (simp add: tok_of_def)
  qed
  have ok: "length (ub_pos ub) = ub_n_tokens ub * ub_n_pos ub" "1 \<le> ub_n_pos ub" "length (ub_n_seq_id ub) = ub_n_tokens ub"
    "length (ub_seq_id ub) = ub_n_tokens ub"
    "\<And>i. i < ub_n_tokens ub \<Longrightarrow> ub_n_seq_id ub ! i = int (length (ub_seq_id ub ! i)) \<and> ub_seq_id ub ! i \<noteq> [] \<and>
        distinct (ub_seq_id ub ! i) \<and> set (ub_seq_id ub ! i) \<subseteq> seq_ids_ok \<and> 0 \<le> ub_pos ub ! i"
    using x(6) unfolding ubatch_ok_def by blast+
  have few: "length (ub_seq_id ub ! i) < 2 ^ 31" if "i < ub_n_tokens ub" for i
  proof -
    have "card (set (ub_seq_id ub ! i)) \<le> card seq_ids_ok" by (rule card_mono) (use ok(5) [OF that] in auto)
    then show ?thesis using ok(5) [OF that] by (simp add: distinct_card)
  qed
  have "1 * ub_n_tokens ub \<le> ub_n_pos ub * ub_n_tokens ub" using ok(2) by (rule mult_le_mono1)
  then have lp: "ub_n_tokens ub \<le> length (ub_pos ub)" using ok(1) by (simp add: mult.commute)
  show "rec_ub_arrays ub"
    unfolding rec_ub_arrays_def
  proof (intro conjI allI impI)
    fix s assume "s < ub_n_seqs ub"
    then have s: "s < length xss" using x(3) by simp
    have last: "tok_of ub s + ?m - 1 < ub_n_tokens ub" using tok [OF s] m(1) by linarith
    show "tok_of ub s + ?m \<le> length (ub_pos ub)" "tok_of ub s < length (ub_n_seq_id ub)" "tok_of ub s < length (ub_seq_id ub)"
      using tok [OF s] lt [OF s] lp ok(3,4) by simp_all
    show "ids_of ub s \<noteq> []" "ub_n_seq_id ub ! tok_of ub s = int (length (ids_of ub s))" "length (ids_of ub s) < 2 ^ 31" "distinct (ids_of ub s)"
      using ok(5) [OF lt [OF s]] few [OF lt [OF s]] by (simp_all add: ids_of_def)
    show "0 \<le> last_pos_of ub s" "last_pos_of ub s < INT32_MAX" using ok(5) [OF last] assms(2) last by (simp_all add: last_pos_of_def)
  next
    fix s t assume "s < ub_n_seqs ub" "t < ub_n_seqs ub" "s \<noteq> t"
    then have st: "s < length xss" "t < length xss" "s \<noteq> t" using x(3) by simp_all
    have "ids_of ub u = the (lb_seq_id b) ! (concat xss ! tok_of ub u)" if "u < length xss" for u
      using x(9) lt [OF that] x(2) by (simp add: ids_of_def)
    then show "set (ids_of ub s) \<inter> set (ids_of ub t) = {}" using x(8) first [OF st(1)] first [OF st(2)] st by simp
  qed (use x(1,3) m in auto)
qed

text \<open>The pieces of a batch whose ids are cells of the memory can be placed.\<close>

lemma equal_ubs_fit:
  assumes "\<forall>ub \<in> set ubs. equal_ub nb (ba_batch a) ub" "set (concat (map ub_batch_idxs ubs)) = {0..<ba_n a}"
    "\<forall>i < ba_n a. ba_pos a ! i < INT32_MAX \<and> set (ba_ids a ! i) \<subseteq> rows m"
  shows "\<forall>ub \<in> set ubs. rec_ub_arrays ub \<and> ids_fit m ub"
proof
  fix ub assume ub: "ub \<in> set ubs"
  have eq: "equal_ub nb (ba_batch a) ub" using assms(1) ub by blast
  have at: "ub_pos ub ! j < INT32_MAX \<and> set (ub_seq_id ub ! j) \<subseteq> rows m" if j: "j < ub_n_tokens ub" for j
  proof -
    have e: "ub_pos ub ! j = ba_pos a ! (ub_batch_idxs ub ! j)" "ub_seq_id ub ! j = ba_ids a ! (ub_batch_idxs ub ! j)" "j < length (ub_batch_idxs ub)"
      using eq j unfolding equal_ub_def by auto
    have "ub_batch_idxs ub ! j \<in> set (concat (map ub_batch_idxs ubs))" using ub e(3) by (auto intro!: bexI [OF _ ub] nth_mem)
    then have "ub_batch_idxs ub ! j < ba_n a" unfolding assms(2) by simp
    then show ?thesis using assms(3) e(1,2) by auto
  qed
  have p: "\<forall>j < ub_n_tokens ub. ub_pos ub ! j < INT32_MAX" using at by blast
  note ea = equal_ub_arrays [OF eq p]
  have "set (ids_of ub s) \<subseteq> rows m" if "s < ub_n_seqs ub" for s using at [of "tok_of ub s"] ea(2) that by (simp add: ids_of_def)
  then show "rec_ub_arrays ub \<and> ids_fit m ub" using ea(1) unfolding ids_fit_def all_ids_def by blast
qed

text \<open>The tail that \<open>init_batch\<close> keeps together for the snapshots.\<close>

definition rec_tail :: "rec_mem \<Rightarrow> nat" where
  "rec_tail m = (if re_n_rs_seq m > 0 then re_n_rs_seq m + 1 else 0)"

lemma rec_init_batch_placed:
  assumes "rec_reach m" "ba_ok a" "\<not> ba_has_cpl a" "rec_tail m = 0 \<or> rec_tail m < nb"
    "\<forall>i < ba_n a. 0 \<le> ba_pos a ! i \<and> ba_pos a ! i < INT32_MAX \<and> set (ba_ids a ! i) \<subseteq> rows m"
  shows "\<exists>ubs d m'. rec_init_batch nb False a m = Some (Some ubs, d, m') \<and>
    distinct (concat (map ub_batch_idxs ubs)) \<and> set (concat (map ub_batch_idxs ubs)) = {0..<ba_n a} \<and>
    tails_kept (rec_tail m) a {0..<ba_n a} ubs \<and>
    re_cells m' = re_cells m \<and> re_head m' = re_head m \<and> re_used m' = re_used m \<and>
    (\<exists>m''. place_all ubs m' = Some (True, m''))"
proof -
  have i: "rec_inv m" using rec_memory_inv [OF assms(1)] .
  note r = split_inv_reset [OF assms(2)] and l = long_rest_reset [OF assms(2)]
  have "wp (split_run (split_equal nb True (rec_tail m)) (split_reset a)) (\<lambda>(ubs, d). split_inv d \<and> unused d = {} \<and> same_batch (split_reset a) d \<and>
    distinct (concat (map ub_batch_idxs ubs)) \<and> set (concat (map ub_batch_idxs ubs)) = unused (split_reset a) \<and>
    (\<forall>ub \<in> set ubs. equal_ub nb (ba_batch (split_reset a)) ub) \<and> tails_kept (rec_tail m) (split_reset a) (unused (split_reset a)) ubs)"
    by (rule equal_run [OF r(1,3) _ _ _ l(1)]) (use assms r(4,6) in auto)
  then obtain ubs d where sp: "split_run (split_equal nb True (rec_tail m)) (split_reset a) = Some (ubs, d)" "split_inv d" "unused d = {}"
    "distinct (concat (map ub_batch_idxs ubs))" "set (concat (map ub_batch_idxs ubs)) = {0..<ba_n a}"
    "tails_kept (rec_tail m) a {0..<ba_n a} ubs" and eq: "\<forall>ub \<in> set ubs. equal_ub nb (ba_batch a) ub"
    unfolding r(2,4) tails_kept_def l(2) by (auto simp: wp_def)
  have fit: "\<forall>ub \<in> set ubs. rec_ub_arrays ub \<and> ids_fit m ub" by (rule equal_ubs_fit [OF eq sp(5)]) (use assms(5) in blast)
  obtain m' where pr: "rec_prepare ubs m = Some (True, m')" "rec_inv m'" "same_shape m m'"
    "re_cells m' = re_cells m" "re_head m' = re_head m" "re_used m' = re_used m"
    using rec_prepare_wp [OF i, of ubs] fit by (auto simp: wp_def)
  have full: "\<not> ba_n_used d < get_n_tokens d" using sp(2,3) by (simp add: split_inv_def get_n_tokens_def)
  have run: "rec_init_batch nb False a m = Some (Some ubs, d, m')"
    using sp(1) full pr(1) by (simp add: rec_init_batch_def rec_tail_def)
  have "\<exists>m''. place_all ubs m' = Some (True, m'')"
    using place_all_wp [OF pr(2), of ubs] fit ids_fit_shape [OF pr(3)] by (auto simp: wp_def)
  then show ?thesis using run sp(4-6) pr(4-6) by blast
qed

text \<open>A smaller \<open>n_ubatch\<close> fails an assertion on the first batch; nothing in the code rules it out.\<close>

lemma rec_init_batch_small:
  assumes "ba_ok a" "\<not> ba_has_cpl a" "0 < ba_n a" "0 < rec_tail m" "nb \<le> rec_tail m"
  shows "rec_init_batch nb False a m = None"
proof -
  note r = split_inv_reset [OF assms(1)]
  have "split_equal nb True (rec_tail m) (split_reset a) = None"
    by (rule split_equal_small [OF r(1,3)]) (use assms r(2,4,6) in auto)
  then have "split_run (split_equal nb True (rec_tail m)) (split_reset a) = None" by (subst split_run.simps) simp
  then show ?thesis by (simp add: rec_init_batch_def rec_tail_def)
qed

text \<open>A batch with coupled sequences is refused.\<close>

lemma rec_init_batch_coupled:
  assumes "ba_ok a" "ba_has_cpl a" "0 < ba_n a"
  shows "rec_init_batch nb False a m = Some (None, split_reset a, m)"
proof -
  have "split_run (split_equal nb True (rec_tail m)) (split_reset a) = Some ([], split_reset a)"
    by (rule equal_run_coupled) (use assms in simp_all)
  then show ?thesis using assms(3) by (simp add: rec_init_batch_def rec_tail_def split_reset_def get_n_tokens_def)
qed

text \<open>
  A memory without layers keeps the \<open>n_rs_seq\<close> it was built with, so a small \<open>n_ubatch\<close> fails the
  assertion there too, although the constructor reports that the snapshots are disabled.
\<close>

lemma no_layers_keeps_snapshots:
  assumes "ba_ok a" "\<not> ba_has_cpl a" "0 < ba_n a" "0 < nrs" "nb \<le> nrs + 1"
  shows "rec_init_batch nb False a (rec_new sz nq nrs True) = None"
  by (rule rec_init_batch_small [OF assms(1-3)]) (use assms(4,5) in \<open>simp_all add: rec_tail_def rec_new_def\<close>)

text \<open>
  C37. What \<open>init_batch\<close> does with a non-empty accepted batch whose positions are not negative and below
  \<open>INT32_MAX\<close> and whose ids are below the number of cells (\<open>embd_all\<close> off).  It refuses a batch with
  coupled sequences (\<open>FAILED_PREPARE\<close>), the memory untouched.  Otherwise, with snapshots and \<open>n_ubatch\<close> not
  above \<open>n_rs_seq + 1\<close>, an assertion fails.  In all other cases it returns micro-batches with each token of
  the batch in exactly one of them and the tail of \<open>n_rs_seq + 1\<close> tokens of every sequence in one of them;
  it leaves every cell as it was, and the micro-batches can then be placed one after the other.
\<close>

theorem rec_init_batch_outcome:
  assumes "rec_reach m" "ba_ok a" "0 < ba_n a"
    "\<forall>i < ba_n a. 0 \<le> ba_pos a ! i \<and> ba_pos a ! i < INT32_MAX \<and> set (ba_ids a ! i) \<subseteq> rows m"
  shows "if ba_has_cpl a then rec_init_batch nb False a m = Some (None, split_reset a, m)
    else if 0 < re_n_rs_seq m \<and> nb \<le> re_n_rs_seq m + 1 then rec_init_batch nb False a m = None
    else \<exists>ubs d m'. rec_init_batch nb False a m = Some (Some ubs, d, m') \<and>
      distinct (concat (map ub_batch_idxs ubs)) \<and> set (concat (map ub_batch_idxs ubs)) = {0..<ba_n a} \<and>
      tails_kept (rec_tail m) a {0..<ba_n a} ubs \<and>
      re_cells m' = re_cells m \<and> re_head m' = re_head m \<and> re_used m' = re_used m \<and>
      (\<exists>m''. place_all ubs m' = Some (True, m''))"
proof (cases "ba_has_cpl a")
  case True
  then show ?thesis using rec_init_batch_coupled [OF assms(2) _ assms(3)] by simp
next
  case cpl: False
  show ?thesis
  proof (cases "0 < re_n_rs_seq m \<and> nb \<le> re_n_rs_seq m + 1")
    case True
    then show ?thesis using rec_init_batch_small [OF assms(2) cpl assms(3), of m nb] cpl by (simp add: rec_tail_def)
  next
    case False
    then have "rec_tail m = 0 \<or> rec_tail m < nb" by (auto simp: rec_tail_def)
    from rec_init_batch_placed [OF assms(1,2) cpl this assms(4)] show ?thesis
      unfolding if_not_P [OF cpl] if_not_P [OF False] .
  qed
qed

section \<open>At concrete inputs\<close>

text \<open>A micro-batch of consecutive tokens for the given sequence sets.\<close>

definition demo_ub :: "llama_seq_id list list \<Rightarrow> nat \<Rightarrow> llama_pos list \<Rightarrow> llama_ubatch" where
  "demo_ub sets n ps = ubatch_empty\<lparr>ub_equal_seqs := True, ub_n_tokens := length sets * n, ub_n_seq_tokens := n,
     ub_n_seqs := length sets, ub_pos := ps, ub_n_seq_id := concat (map (\<lambda>s. replicate n (int (length s))) sets),
     ub_seq_id := concat (map (replicate n) sets)\<rparr>"

definition demo_mem :: rec_mem where
  "demo_mem = \<lparr>re_head = 0, re_size = 2, re_used = 1, re_n_rs_seq = 2, re_rs_idx = [0, 0], re_n = 1, re_rs_z = 0,
     re_cells = [\<lparr>mc_pos = 2, mc_src = 0, mc_src0 = 0, mc_tail = 0, mc_rs_max = 2, mc_seq_id = {0}\<rparr>, mem_cell_new],
     re_n_seq_max = 2, re_no_layers = False\<rparr>"

lemma demo_slot: "rec_find_slot (demo_ub [[0]] 3 [0, 1, 2]) (rec_new 2 2 2 False) = Some (True, demo_mem)"
  by code_simp

lemma demo_arrays: "rec_ub_arrays (demo_ub [[0]] 3 [0, 1, 2])" "rec_ub_arrays (demo_ub [[1], [0]] 1 [0, 3])" "rec_ub_arrays (demo_ub [[0]] 1 [2])"
  by (simp_all add: rec_ub_arrays_def demo_ub_def ubatch_empty_def equal_seqs_def tok_of_def ids_of_def last_pos_of_def INT32_MAX_def
      All_less_Suc numeral_3_eq_3)

lemma demo_reach: "rec_reach demo_mem"
proof -
  have "rec_reach (rec_new 2 2 2 False)" by (rule rec_reach.start) simp_all
  then show ?thesis by (rule rec_reach.call [where c = "RSlot (demo_ub [[0]] 3 [0, 1, 2])"]) (simp_all add: demo_arrays demo_slot)
qed

lemma demo_rows: "row demo_mem 0 = \<lparr>mc_pos = 2, mc_src = 0, mc_src0 = 0, mc_tail = 0, mc_rs_max = 2, mc_seq_id = {0}\<rparr>"
  by (simp add: row_def demo_mem_def)

definition demo_back :: rec_mem where
  "demo_back = demo_mem\<lparr>re_rs_idx := [1, 0], re_cells := (re_cells demo_mem)[0 := (re_cells demo_mem ! 0)\<lparr>mc_pos := 1\<rparr>]\<rparr>"

lemma demo_rollback: "rec_seq_rm 0 2 (-1) demo_mem = Some (True, demo_back)"
  by code_simp

lemma demo_fits: "rec_knows demo_mem 0" "2 \<in> rec_posns demo_mem 0" "ids_fit demo_mem (demo_ub [[1], [0]] 1 [0, 3])"
  "ids_fit demo_back (demo_ub [[0]] 1 [2])" "ids_of (demo_ub [[0]] 1 [2]) 0 = [0]" "tail_of demo_mem 0 = 0" "re_size demo_mem = 2"
  by code_simp+

lemma rec_find_slot_places_witness:
  "\<exists>m'. rec_find_slot (demo_ub [[1], [0]] 1 [0, 3]) demo_mem = Some (True, m') \<and> slot_result (demo_ub [[1], [0]] 1 [0, 3]) demo_mem m'"
  using rec_find_slot_places [OF demo_reach demo_arrays(2)] demo_fits(3) by auto

lemma rec_rollback_reads_snapshot_witness:
  "\<exists>b m2 m3. rec_find_slot (demo_ub [[0]] 1 [2]) demo_back = Some (b, m2) \<and> s_copy 0 m2 = Some (2, m3)"
  using rec_rollback_reads_snapshot [OF demo_reach demo_fits(1,2) _ _ _ demo_rollback demo_arrays(3) demo_fits(4) _ demo_fits(5)] demo_fits(6,7)
  by (auto simp: demo_ub_def demo_mem_def)

lemma rec_memory_type_safe_witness:
  "rec_inv demo_mem \<and> (\<exists>m'. rec_exec (RSlot (demo_ub [[1], [0]] 1 [0, 3])) demo_mem = Some m')"
  using rec_memory_type_safe [OF demo_reach] demo_arrays(2) by (metis call_ok.simps(6))

lemma demo_new: "rec_reach (rec_new 4 4 1 False)"
  by (rule rec_reach.start) simp_all

lemma rec_init_batch_outcome_witness:
  "\<exists>ubs d m'. rec_init_batch 3 False (accepted_of two_seqs) (rec_new 4 4 1 False) = Some (Some ubs, d, m') \<and>
    set (concat (map ub_batch_idxs ubs)) = {0..<2}"
proof -
  have "\<forall>i < ba_n (accepted_of two_seqs). 0 \<le> ba_pos (accepted_of two_seqs) ! i \<and> ba_pos (accepted_of two_seqs) ! i < INT32_MAX \<and>
    set (ba_ids (accepted_of two_seqs) ! i) \<subseteq> rows (rec_new 4 4 1 False)"
    using two_seqs_ok(3) unfolding two_seqs_ok(2,5) by (simp add: rec_new_def nat_less_two)
  then show ?thesis
    using rec_init_batch_outcome [OF demo_new two_seqs_ok(1), of 3] two_seqs_ok(2,4) by (auto simp: rec_new_def)
qed

text \<open>A third sequence whose cell is swapped away by the micro-batch of the other two.\<close>

lemma swap_keeps_bound:
  "do { (b1, m) \<leftarrow> rec_find_slot (demo_ub [[0], [1], [2]] 3 [0, 1, 2, 0, 1, 2, 0, 1, 2]) (rec_new 3 3 2 False);
        (b2, m) \<leftarrow> rec_find_slot (demo_ub [[0], [2]] 1 [3, 3]) m;
        (b3, m) \<leftarrow> rec_seq_rm 1 2 (-1) m;
        (b4, m) \<leftarrow> rec_find_slot (demo_ub [[1]] 1 [2]) m;
        (r, m) \<leftarrow> s_copy 0 m;
        Some (b1, b2, b3, b4, r) } = Some (True, True, True, True, 1 * 3 + 2)"
  by code_simp

lemma negative_position_stays:
  "do { m \<leftarrow> rec_seq_add 0 (-1) (-1) (-3) demo_mem;
        (b, m) \<leftarrow> rec_seq_rm 0 (-1) (-1) m;
        Some (b, mc_seq_id (re_cells m ! 0), mc_tail (re_cells m ! 0)) } = Some (True, {0}, 0)"
  by code_simp

lemma shift_moves_sharers:
  "do { m \<leftarrow> rec_seq_cp 0 1 (-1) (-1) demo_mem;
        m \<leftarrow> rec_seq_add 0 (-1) (-1) 5 m;
        rec_seq_pos_max m 1 } = Some 7"
  by code_simp

lemma copy_loses_rollback:
  "do { (b1, m) \<leftarrow> rec_seq_rm 0 2 (-1) demo_mem;
        m \<leftarrow> rec_seq_cp 0 1 (-1) (-1) m;
        p \<leftarrow> rec_seq_pos_max m 1;
        (b2, m) \<leftarrow> rec_find_slot (demo_ub [[1]] 1 [2]) m;
        (r, m) \<leftarrow> s_copy 0 m;
        Some (b1, p, b2, r, re_rs_idx m) } = Some (True, 1, True, 0, [1, 0])"
  by code_simp

end
