(* ===== verification/Unicode.thy ===== *)
theory Unicode
  imports Prelude
begin

text \<open>
  UTF-8 (\<open>common/unicode.cpp\<close>): strings are byte lists, code points 32-bit words.  The encoder throws
  on a code point above 0x10ffff; that is \<open>None\<close>.
\<close>

type_synonym byte = "8 word"
type_synonym codepoint = "32 word"

section \<open>Model\<close>

definition utf8_sequence_length :: "byte \<Rightarrow> nat" where
  "utf8_sequence_length b = [1, 1, 1, 1, 1, 1, 1, 1, 1, 1, 1, 1, 2, 2, 3, 4] ! unat (drop_bit 4 b)"

datatype utf8_status = SUCCESS | INCOMPLETE | INVALID

record utf8_parse_result =
  up_codepoint :: codepoint
  up_bytes :: nat
  up_status :: utf8_status

definition parse_result :: "utf8_status \<Rightarrow> codepoint \<Rightarrow> nat \<Rightarrow> utf8_parse_result" where
  "parse_result st cp n = \<lparr>up_codepoint = cp, up_bytes = n, up_status = st\<rparr>"

text \<open>The low bits of a byte, moved to their place in the code point.\<close>

definition part :: "byte \<Rightarrow> byte \<Rightarrow> nat \<Rightarrow> codepoint" where
  "part b m k = push_bit k (ucast (b AND m))"

text \<open>Continuation bytes are checked one at a time, so a bad byte is reported before a short input.\<close>

fun scan_conts :: "byte list \<Rightarrow> nat \<Rightarrow> nat list \<Rightarrow> utf8_parse_result option" where
  "scan_conts s off [] = None"
| "scan_conts s off (i # is) = (
     if off + i \<ge> length s then Some (parse_result INCOMPLETE 0 i)
     else if (s ! (off + i)) AND 0xc0 \<noteq> 0x80 then Some (parse_result INVALID 0 i)
     else scan_conts s off is)"

definition parse_utf8_codepoint :: "byte list \<Rightarrow> nat \<Rightarrow> utf8_parse_result" where
  "parse_utf8_codepoint s off = (
     if off \<ge> length s then parse_result INCOMPLETE 0 0
     else let b = s ! off in
       if b AND 0x80 = 0 then parse_result SUCCESS (ucast b) 1
       else if b AND 0x40 = 0 then parse_result INVALID 0 1
       else if b AND 0x20 = 0 then
         (if off + 1 \<ge> length s then parse_result INCOMPLETE 0 1
          else if (s ! (off + 1)) AND 0xc0 \<noteq> 0x80 then parse_result INVALID 0 1
          else parse_result SUCCESS (part b 0x1f 6 OR part (s ! (off + 1)) 0x3f 0) 2)
       else if b AND 0x10 = 0 then
         (case scan_conts s off [1, 2] of Some r \<Rightarrow> r
          | None \<Rightarrow> parse_result SUCCESS (part b 0x0f 12 OR part (s ! (off + 1)) 0x3f 6 OR part (s ! (off + 2)) 0x3f 0) 3)
       else if b AND 0x08 = 0 then
         (case scan_conts s off [1, 2, 3] of Some r \<Rightarrow> r
          | None \<Rightarrow> parse_result SUCCESS (part b 0x07 18 OR part (s ! (off + 1)) 0x3f 12 OR
              part (s ! (off + 2)) 0x3f 6 OR part (s ! (off + 3)) 0x3f 0) 4)
       else parse_result INVALID 0 1)"

definition utf8_expected :: "byte \<Rightarrow> nat" where
  "utf8_expected c = (if c \<ge> 0xF0 then 4 else if c \<ge> 0xE0 then 3 else if c \<ge> 0xC0 then 2 else 1)"

text \<open>The loop over the last \<open>min(4, size)\<close> bytes, from the end.\<close>

fun complete_loop :: "byte list \<Rightarrow> nat list \<Rightarrow> bool" where
  "complete_loop s [] = False"
| "complete_loop s (i # is) = (
     let c = s ! (length s - i) in
     if c AND 0xC0 \<noteq> 0x80 then i \<ge> utf8_expected c else complete_loop s is)"

definition utf8_is_complete :: "byte list \<Rightarrow> bool" where
  "utf8_is_complete s = (s = [] \<or> complete_loop s [1..<min 4 (length s) + 1])"

definition cont_byte :: "codepoint \<Rightarrow> nat \<Rightarrow> byte" where
  "cont_byte cp k = 0x80 OR ucast (drop_bit k cp AND 0x3f)"

definition cpt_to_utf8 :: "codepoint \<Rightarrow> byte list option" where
  "cpt_to_utf8 cp = (
     if cp \<le> 0x7f then Some [ucast cp]
     else if cp \<le> 0x7ff then Some [0xc0 OR ucast (drop_bit 6 cp AND 0x1f), cont_byte cp 0]
     else if cp \<le> 0xffff then Some [0xe0 OR ucast (drop_bit 12 cp AND 0x0f), cont_byte cp 6, cont_byte cp 0]
     else if cp \<le> 0x10ffff then Some [0xf0 OR ucast (drop_bit 18 cp AND 0x07), cont_byte cp 12, cont_byte cp 6, cont_byte cp 0]
     else None)"

definition cpts_to_utf8 :: "codepoint list \<Rightarrow> byte list option" where
  "cpts_to_utf8 cps = map_option concat (mapM cpt_to_utf8 cps)"

section \<open>Bits\<close>

lemma bit_unat_less: "unat x < 2 ^ n \<Longrightarrow> bit x m \<Longrightarrow> m < n"
proof -
  assume "unat x < 2 ^ n" and b: "bit x m"
  then have "take_bit n (unat x) = unat x" by (simp add: take_bit_nat_eq_self)
  then have "take_bit n x = x" using unsigned_take_bit_eq [of n x, where 'a = nat] unsigned_word_eqI by metis
  then show "m < n" using b by (metis bit_take_bit_iff)
qed

text \<open>The bits of the constants.\<close>

lemma mask_bits [simp]:
  "bit (63 :: int) n \<longleftrightarrow> n < 6" "bit (31 :: int) n \<longleftrightarrow> n < 5" "bit (15 :: int) n \<longleftrightarrow> n < 4" "bit (7 :: int) n \<longleftrightarrow> n < 3"
proof -
  have m: "(63 :: int) = mask 6" "(31 :: int) = mask 5" "(15 :: int) = mask 4" "(7 :: int) = mask 3" by (simp_all add: mask_eq_exp_minus_1)
  show "bit (63 :: int) n \<longleftrightarrow> n < 6" "bit (31 :: int) n \<longleftrightarrow> n < 5" "bit (15 :: int) n \<longleftrightarrow> n < 4" "bit (7 :: int) n \<longleftrightarrow> n < 3"
    unfolding m by (simp_all only: bit_mask_iff possible_bit_int simp_thms)
qed

lemma top_bits [simp]:
  "bit (128 :: int) n \<longleftrightarrow> n = 7" "bit (64 :: int) n \<longleftrightarrow> n = 6" "bit (32 :: int) n \<longleftrightarrow> n = 5" "bit (16 :: int) n \<longleftrightarrow> n = 4" "bit (8 :: int) n \<longleftrightarrow> n = 3"
  "bit (192 :: int) n \<longleftrightarrow> n = 6 \<or> n = 7" "bit (224 :: int) n \<longleftrightarrow> n = 5 \<or> n = 6 \<or> n = 7" "bit (240 :: int) n \<longleftrightarrow> n = 4 \<or> n = 5 \<or> n = 6 \<or> n = 7"
proof -
  have p: "(128 :: int) = push_bit 7 1" "(64 :: int) = push_bit 6 1" "(32 :: int) = push_bit 5 1" "(16 :: int) = push_bit 4 1" "(8 :: int) = push_bit 3 1"
    "(192 :: int) = push_bit 6 (mask 2)" "(224 :: int) = push_bit 5 (mask 3)" "(240 :: int) = push_bit 4 (mask 4)"
    by (simp_all add: mask_eq_exp_minus_1 push_bit_eq_mult)
  show "bit (128 :: int) n \<longleftrightarrow> n = 7" "bit (64 :: int) n \<longleftrightarrow> n = 6" "bit (32 :: int) n \<longleftrightarrow> n = 5" "bit (16 :: int) n \<longleftrightarrow> n = 4" "bit (8 :: int) n \<longleftrightarrow> n = 3"
    "bit (192 :: int) n \<longleftrightarrow> n = 6 \<or> n = 7" "bit (224 :: int) n \<longleftrightarrow> n = 5 \<or> n = 6 \<or> n = 7" "bit (240 :: int) n \<longleftrightarrow> n = 4 \<or> n = 5 \<or> n = 6 \<or> n = 7"
    unfolding p by (simp_all only: bit_mask_iff bit_push_bit_iff possible_bit_int bit_1_iff simp_thms) auto
qed

lemma all_less_eight: "(\<forall>n < 8. P (n :: nat)) \<longleftrightarrow> P 0 \<and> P 1 \<and> P 2 \<and> P 3 \<and> P 4 \<and> P 5 \<and> P 6 \<and> P 7"
proof -
  have "n < 8 \<longleftrightarrow> n = 0 \<or> n = 1 \<or> n = 2 \<or> n = 3 \<or> n = 4 \<or> n = 5 \<or> n = 6 \<or> n = 7" for n :: nat by auto
  then show ?thesis by auto
qed

lemma bit_set_iff [simp]:
  fixes b :: byte
  shows "b AND 0x80 = 0 \<longleftrightarrow> \<not> bit b 7" "b AND 0x40 = 0 \<longleftrightarrow> \<not> bit b 6" "b AND 0x20 = 0 \<longleftrightarrow> \<not> bit b 5" "b AND 0x10 = 0 \<longleftrightarrow> \<not> bit b 4" "b AND 0x08 = 0 \<longleftrightarrow> \<not> bit b 3"
  by (simp_all add: bit_eq_iff [where 'a = "8 word"] bit_and_iff all_less_eight) auto?

lemma cont_iff [simp]:
  fixes b :: byte
  shows "b AND 0xc0 = 0x80 \<longleftrightarrow> bit b 7 \<and> \<not> bit b 6"
  by (simp_all add: bit_eq_iff [where 'a = "8 word"] bit_and_iff all_less_eight) auto?

lemma bit_part:
  "bit (part b 0x3f l) n \<longleftrightarrow> l \<le> n \<and> n < 32 \<and> n < l + 6 \<and> bit b (n - l)" "bit (part b 0x1f l) n \<longleftrightarrow> l \<le> n \<and> n < 32 \<and> n < l + 5 \<and> bit b (n - l)"
  "bit (part b 0x0f l) n \<longleftrightarrow> l \<le> n \<and> n < 32 \<and> n < l + 4 \<and> bit b (n - l)" "bit (part b 0x07 l) n \<longleftrightarrow> l \<le> n \<and> n < 32 \<and> n < l + 3 \<and> bit b (n - l)"
  by (auto simp: part_def bit_simps)

lemma bit_cont_byte: "bit (cont_byte cp k) n \<longleftrightarrow> n = 7 \<or> n < 6 \<and> bit cp (k + n)"
  by (auto simp: cont_byte_def bit_simps)

section \<open>Round trip\<close>

lemma le_const: "cp \<le> 0x7f \<longleftrightarrow> unat cp < 2 ^ 7" "cp \<le> 0x7ff \<longleftrightarrow> unat cp < 2 ^ 11" "cp \<le> 0xffff \<longleftrightarrow> unat cp < 2 ^ 16"
  "cp \<le> 0x10ffff \<Longrightarrow> unat cp < 2 ^ 21" for cp :: codepoint
  by (auto simp: word_le_nat_alt)

text \<open>The first byte tells the length.\<close>

lemma parse_at:
  assumes "off + length bs \<le> length s" "\<And>i. i < length bs \<Longrightarrow> s ! (off + i) = bs ! i" "cpt_to_utf8 cp = Some bs"
  shows "parse_utf8_codepoint s off = parse_result SUCCESS cp (length bs)"
proof -
  consider (one) "unat cp < 2 ^ 7" "bs = [ucast cp]"
    | (two) "unat cp < 2 ^ 11" "bs = [0xc0 OR ucast (drop_bit 6 cp AND 0x1f), cont_byte cp 0]"
    | (three) "unat cp < 2 ^ 16" "bs = [0xe0 OR ucast (drop_bit 12 cp AND 0x0f), cont_byte cp 6, cont_byte cp 0]"
    | (four) "unat cp < 2 ^ 21" "bs = [0xf0 OR ucast (drop_bit 18 cp AND 0x07), cont_byte cp 12, cont_byte cp 6, cont_byte cp 0]"
    using assms(3) le_const [of cp] by (auto simp: cpt_to_utf8_def split: if_splits)
  then show ?thesis
  proof cases
    case one
    have b: "s ! off = ucast cp" "off < length s" using assms(1) assms(2) [of 0] one(2) by auto
    have "\<not> bit (ucast cp :: byte) 7" using bit_unat_less [OF one(1)] by (auto simp: bit_simps)
    moreover have "ucast (ucast cp :: byte) = cp"
      by (rule bit_word_eqI) (use bit_unat_less [OF one(1)] in \<open>fastforce simp: bit_simps\<close>)
    ultimately show ?thesis using b one(2) by (simp add: parse_utf8_codepoint_def Let_def)
  next
    case two
    have b: "s ! off = 0xc0 OR ucast (drop_bit 6 cp AND 0x1f)" "s ! Suc off = cont_byte cp 0" "Suc off < length s"
      using assms(1) assms(2) [of 0] assms(2) [of 1] two(2) by auto
    have "part (s ! off) 0x1f 6 OR part (s ! Suc off) 0x3f 0 = cp" (is "?part = cp")
    proof (rule bit_word_eqI)
      fix n :: nat
      have split: "n - 6 < 6 \<or> 12 + (n - 12) = n" "n - 12 < 6 \<or> 18 + (n - 18) = n" "n < 6 \<or> 6 + (n - 6) = n" by auto
      show "bit ?part n = bit cp n"
        unfolding b using bit_unat_less [OF two(1), of n] split by (cases "bit cp n") (auto simp: bit_or_iff bit_part bit_cont_byte bit_simps)
    qed
    moreover have "length bs = 2" using two(2) by simp
    ultimately show ?thesis using b by (simp add: parse_utf8_codepoint_def Let_def bit_simps bit_cont_byte)
  next
    case three
    have b: "s ! off = 0xe0 OR ucast (drop_bit 12 cp AND 0x0f)" "s ! Suc off = cont_byte cp 6" "s ! Suc (Suc off) = cont_byte cp 0" "Suc (Suc off) < length s"
      using assms(1) assms(2) [of 0] assms(2) [of 1] assms(2) [of 2] three(2) by auto
    have "part (s ! off) 0x0f 12 OR part (s ! Suc off) 0x3f 6 OR part (s ! Suc (Suc off)) 0x3f 0 = cp" (is "?part = cp")
    proof (rule bit_word_eqI)
      fix n :: nat
      have split: "n - 6 < 6 \<or> 12 + (n - 12) = n" "n - 12 < 6 \<or> 18 + (n - 18) = n" "n < 6 \<or> 6 + (n - 6) = n" by auto
      show "bit ?part n = bit cp n"
        unfolding b using bit_unat_less [OF three(1), of n] split by (cases "bit cp n") (auto simp: bit_or_iff bit_part bit_cont_byte bit_simps)
    qed
    moreover have "length bs = 3" using three(2) by simp
    ultimately show ?thesis using b by (simp add: parse_utf8_codepoint_def Let_def bit_simps bit_cont_byte)
  next
    case four
    have b: "s ! off = 0xf0 OR ucast (drop_bit 18 cp AND 0x07)" "s ! Suc off = cont_byte cp 12" "s ! Suc (Suc off) = cont_byte cp 6"
      "s ! Suc (Suc (Suc off)) = cont_byte cp 0" "Suc (Suc (Suc off)) < length s"
      using assms(1) assms(2) [of 0] assms(2) [of 1] assms(2) [of 2] assms(2) [of 3] four(2) by (auto simp: numeral_3_eq_3)
    have "part (s ! off) 0x07 18 OR part (s ! Suc off) 0x3f 12 OR part (s ! Suc (Suc off)) 0x3f 6 OR part (s ! Suc (Suc (Suc off))) 0x3f 0 = cp" (is "?part = cp")
    proof (rule bit_word_eqI)
      fix n :: nat
      consider "n < 6" | m where "n = 6 + m" "m < 6" | m where "n = 12 + m" "m < 6" | m where "n = 18 + m"
        by (metis add.assoc le_Suc_ex nat_add_left_cancel_less not_le numeral_plus_numeral semiring_norm(2,3,4,5,6,7,8,9,10))
      then show "bit ?part n = bit cp n"
        unfolding b using bit_unat_less [OF four(1), of n] by cases (auto simp: bit_or_iff bit_part bit_cont_byte bit_simps)
    qed
    moreover have "length bs = 4" using four(2) by simp
    ultimately show ?thesis using b by (simp add: parse_utf8_codepoint_def Let_def bit_simps bit_cont_byte numeral_3_eq_3)
  qed
qed

section \<open>Complete sequences\<close>

lemma top_ge:
  fixes c :: byte
  shows "c \<ge> 0xF0 \<longleftrightarrow> bit c 7 \<and> bit c 6 \<and> bit c 5 \<and> bit c 4" "c \<ge> 0xE0 \<longleftrightarrow> bit c 7 \<and> bit c 6 \<and> bit c 5" "c \<ge> 0xC0 \<longleftrightarrow> bit c 7 \<and> bit c 6"
proof -
  have u: "unat c < 256" using unsigned_less [of c] by simp
  have d: "unat (drop_bit n c) = unat c div 2 ^ n" for n by (simp only: drop_bit_eq_div [symmetric] bit_eq_iff [where 'a = nat] bit_unsigned_iff bit_drop_bit_eq Bit_Operations.bit_drop_bit_eq)
      (auto simp: bit_unsigned_iff dest: bit_imp_le_length)
  have "c \<ge> 0xF0 \<longleftrightarrow> drop_bit 4 c = 15" unfolding word_unat_eq_iff d using u by (auto simp: word_le_nat_alt)
  moreover have "c \<ge> 0xE0 \<longleftrightarrow> drop_bit 5 c = 7" unfolding word_unat_eq_iff d using u by (auto simp: word_le_nat_alt)
  moreover have "c \<ge> 0xC0 \<longleftrightarrow> drop_bit 6 c = 3" unfolding word_unat_eq_iff d using u by (auto simp: word_le_nat_alt)
  moreover have out: "\<not> bit c n" if "8 \<le> n" for n using that bit_imp_le_length [of c n] by auto
  moreover have "drop_bit 4 c = 15 \<longleftrightarrow> bit c 7 \<and> bit c 6 \<and> bit c 5 \<and> bit c 4"
    by (simp add: bit_eq_iff [where 'a = "8 word"] bit_drop_bit_eq all_less_eight out conj_ac)
  moreover have "drop_bit 5 c = 7 \<longleftrightarrow> bit c 7 \<and> bit c 6 \<and> bit c 5"
    by (simp add: bit_eq_iff [where 'a = "8 word"] bit_drop_bit_eq all_less_eight out conj_ac)
  moreover have "bit (3 :: int) n \<longleftrightarrow> n < 2" for n using bit_mask_iff [of 2 n, where 'a = int] by (simp add: mask_eq_exp_minus_1)
  then have "drop_bit 6 c = 3 \<longleftrightarrow> bit c 7 \<and> bit c 6"
    by (simp add: bit_eq_iff [where 'a = "8 word"] bit_drop_bit_eq all_less_eight out conj_ac)
  ultimately show "c \<ge> 0xF0 \<longleftrightarrow> bit c 7 \<and> bit c 6 \<and> bit c 5 \<and> bit c 4" "c \<ge> 0xE0 \<longleftrightarrow> bit c 7 \<and> bit c 6 \<and> bit c 5" "c \<ge> 0xC0 \<longleftrightarrow> bit c 7 \<and> bit c 6"
    by simp_all
qed

lemma complete_loop_skip:
  assumes "\<And>i. a \<le> i \<Longrightarrow> i < k \<Longrightarrow> s ! (length s - i) AND 0xC0 = 0x80" "s ! (length s - k) AND 0xC0 \<noteq> 0x80" "a \<le> k" "k < b"
  shows "complete_loop s [a..<b] = (k \<ge> utf8_expected (s ! (length s - k)))"
  using assms
proof (induction "k - a" arbitrary: a)
  case 0
  then show ?case by (simp add: upt_conv_Cons Let_def)
next
  case (Suc d)
  then have "complete_loop s [Suc a..<b] = (k \<ge> utf8_expected (s ! (length s - k)))" by (intro Suc.hyps(1)) auto
  then show ?case using Suc.prems(1) [of a] Suc.hyps(2) Suc.prems(4) by (simp add: upt_conv_Cons Let_def)
qed

text \<open>The bytes of an encoded code point: a lead byte that tells the length, then continuations.\<close>

lemma encoded_bytes:
  assumes "cpt_to_utf8 cp = Some bs"
  shows "bs \<noteq> []" "length bs \<le> 4" "utf8_expected (bs ! 0) = length bs" "bs ! 0 AND 0xC0 \<noteq> 0x80" "0 < i \<Longrightarrow> i < length bs \<Longrightarrow> bs ! i AND 0xC0 = 0x80"
proof -
  have "bs \<noteq> [] \<and> length bs \<le> 4 \<and> utf8_expected (bs ! 0) = length bs \<and> bs ! 0 AND 0xC0 \<noteq> 0x80 \<and>
    (\<forall>i. 0 < i \<longrightarrow> i < length bs \<longrightarrow> bs ! i AND 0xC0 = 0x80)"
  proof (cases "cp \<le> 0x7f")
    case True
    then have "\<not> bit cp 7" using bit_unat_less [of cp 7] le_const(1) by blast
    then show ?thesis using True assms by (auto simp: cpt_to_utf8_def utf8_expected_def top_ge bit_simps)
  next
    case False
    then show ?thesis using assms
      by (auto simp: cpt_to_utf8_def utf8_expected_def top_ge bit_simps bit_cont_byte less_Suc_eq nth_Cons split: if_splits nat.splits)
  qed
  then show "bs \<noteq> []" "length bs \<le> 4" "utf8_expected (bs ! 0) = length bs" "bs ! 0 AND 0xC0 \<noteq> 0x80" "0 < i \<Longrightarrow> i < length bs \<Longrightarrow> bs ! i AND 0xC0 = 0x80"
    by blast+
qed

lemma complete_take:
  assumes "cpt_to_utf8 cp = Some bs" "0 < k" "k \<le> length bs"
  shows "utf8_is_complete (s @ take k bs) = (k = length bs)"
proof -
  let ?t = "s @ take k bs"
  note e = encoded_bytes [OF assms(1)]
  have lt: "length ?t = length s + k" using assms(3) by simp
  have at: "?t ! (length ?t - i) = bs ! (k - i)" if "i \<le> k" "0 < i" for i
  proof -
    have "length ?t - i = length s + (k - i)" using that lt by simp
    then show ?thesis using that by (simp only: nth_append_length_plus) simp
  qed
  have "complete_loop ?t [1..<min 4 (length ?t) + 1] = (k \<ge> utf8_expected (?t ! (length ?t - k)))"
  proof (rule complete_loop_skip)
    fix i assume i: "1 \<le> i" "i < k"
    then show "?t ! (length ?t - i) AND 0xC0 = 0x80" using at [of i] e(5) [of "k - i"] assms(3) by (simp del: cont_iff)
  next
    show "?t ! (length ?t - k) AND 0xC0 \<noteq> 0x80" using at [of k] e(4) assms(2) by (simp del: cont_iff)
  qed (use assms e(2) lt in auto)
  also have "\<dots> = (k = length bs)" using at [of k] e(3) assms(2,3) by auto
  finally show ?thesis using assms(2) e(1) by (auto simp: utf8_is_complete_def)
qed

lemma mapM_cpt_append:
  "cpts_to_utf8 (cps @ [cp]) = (case (cpts_to_utf8 cps, cpt_to_utf8 cp) of (Some s, Some bs) \<Rightarrow> Some (s @ bs) | _ \<Rightarrow> None)"
proof -
  have "mapM cpt_to_utf8 (cps @ [cp]) = (case (mapM cpt_to_utf8 cps, cpt_to_utf8 cp) of (Some xs, Some bs) \<Rightarrow> Some (xs @ [bs]) | _ \<Rightarrow> None)"
    by (induction cps) (auto split: option.splits simp: bind_eq_Some_conv bind_eq_None_conv)
  then show ?thesis by (auto simp: cpts_to_utf8_def split: option.splits)
qed

lemma cpts_complete:
  "cpts_to_utf8 cps = Some s \<Longrightarrow> utf8_is_complete s"
proof (induction cps arbitrary: s rule: rev_induct)
  case Nil
  then show ?case by (simp add: cpts_to_utf8_def utf8_is_complete_def)
next
  case (snoc cp cps)
  then obtain t bs where t: "cpts_to_utf8 cps = Some t" "cpt_to_utf8 cp = Some bs" "s = t @ bs"
    by (auto simp: mapM_cpt_append split: option.splits)
  have "utf8_is_complete (t @ take (length bs) bs)" using complete_take [OF t(2), of "length bs" t] encoded_bytes(1) [OF t(2)] by simp
  then show ?case using t(3) by simp
qed

section \<open>Properties\<close>

text \<open>
  C22. Encoding a code point and parsing the bytes at any place of a string gives the code point back
  and consumes exactly its bytes.
\<close>

theorem utf8_round_trip:
  assumes "cpt_to_utf8 cp = Some bs"
  shows "parse_utf8_codepoint (pre @ bs @ rest) (length pre) = \<lparr>up_codepoint = cp, up_bytes = length bs, up_status = SUCCESS\<rparr>"
  using parse_at [OF _ _ assms, of "length pre" "pre @ bs @ rest"] by (simp add: nth_append parse_result_def)

lemma utf8_round_trip_witness:
  "\<exists>bs. cpt_to_utf8 0x20ac = Some bs \<and> length bs = 3 \<and> up_codepoint (parse_utf8_codepoint ([0x20] @ bs @ [0x61]) 1) = 0x20ac"
proof -
  obtain bs where bs: "cpt_to_utf8 0x20ac = Some bs" "length bs = 3" by (simp add: cpt_to_utf8_def)
  then show ?thesis using utf8_round_trip [OF bs(1), of "[0x20]" "[0x61]"] by auto
qed

text \<open>
  C23. A string of whole code points followed by the first \<open>k\<close> bytes of another one is reported
  complete exactly when \<open>k\<close> is 0 or the whole length: the sampler's wait for a character boundary
  ends at the boundary and not before.
\<close>

theorem utf8_complete_at_boundary:
  assumes "cpts_to_utf8 cps = Some s" "cpt_to_utf8 cp = Some bs" "k \<le> length bs"
  shows "utf8_is_complete (s @ take k bs) = (k = 0 \<or> k = length bs)"
proof (cases "k = 0")
  case True
  then show ?thesis using cpts_complete [OF assms(1)] by simp
qed (use complete_take [OF assms(2) _ assms(3)] in auto)

lemma utf8_complete_at_boundary_witness:
  "\<exists>s bs. cpts_to_utf8 [0x41] = Some s \<and> cpt_to_utf8 0x20ac = Some bs \<and> \<not> utf8_is_complete (s @ take 2 bs)"
proof -
  obtain bs where bs: "cpt_to_utf8 0x20ac = Some bs" "length bs = 3" by (simp add: cpt_to_utf8_def)
  have "cpts_to_utf8 [0x41] = Some [0x41]" by (simp add: cpts_to_utf8_def cpt_to_utf8_def)
  then show ?thesis using utf8_complete_at_boundary [OF _ bs(1), of "[0x41]" "[0x41]" 2] bs by auto
qed

end
