(* ===== verification/Trie.thy ===== *)
theory Trie
  imports Unicode
begin

text \<open>
  \<open>common/trie.h\<close>, \<open>common/trie.cpp\<close>: the trie over code points and the Aho-Corasick automaton.  A
  \<open>std::map\<close> is the list of its entries in key order; node 0 is the root.
\<close>

section \<open>The trie\<close>

record trie_node =
  tn_children :: "(codepoint \<times> nat) list"
  tn_pattern :: int

record common_trie =
  tr_nodes :: "trie_node list"
  tr_n_patterns :: int

definition node_new :: trie_node where
  "node_new = \<lparr>tn_children = [], tn_pattern = -1\<rparr>"

definition trie_new :: common_trie where
  "trie_new = \<lparr>tr_nodes = [node_new], tr_n_patterns = 0\<rparr>"

definition tr_child :: "common_trie \<Rightarrow> nat \<Rightarrow> codepoint \<Rightarrow> nat option" where
  "tr_child t u ch = (if u < length (tr_nodes t) then map_of (tn_children (tr_nodes t ! u)) ch else None)"

definition tr_pattern :: "common_trie \<Rightarrow> nat \<Rightarrow> int" where
  "tr_pattern t u = (if u < length (tr_nodes t) then tn_pattern (tr_nodes t ! u) else -1)"

fun put_child :: "codepoint \<Rightarrow> nat \<Rightarrow> (codepoint \<times> nat) list \<Rightarrow> (codepoint \<times> nat) list" where
  "put_child ch v [] = [(ch, v)]"
| "put_child ch v ((c, w) # xs) = (
     if ch < c then (ch, v) # (c, w) # xs else if ch = c then (ch, v) # xs else (c, w) # put_child ch v xs)"

definition insert_step :: "codepoint \<Rightarrow> common_trie \<times> nat \<Rightarrow> common_trie \<times> nat" where
  "insert_step ch = (\<lambda>(t, cur). case tr_child t cur ch of
     Some v \<Rightarrow> (t, v)
   | None \<Rightarrow>
       let child = length (tr_nodes t); nodes = tr_nodes t @ [node_new] in
       (t\<lparr>tr_nodes := nodes[cur := (nodes ! cur)\<lparr>tn_children := put_child ch child (tn_children (nodes ! cur))\<rparr>]\<rparr>, child))"

definition insert_symbols :: "codepoint list \<Rightarrow> common_trie \<Rightarrow> int \<times> common_trie" where
  "insert_symbols symbols t = (
     let (t, cur) = fold insert_step symbols (t, 0);
         t = (if tr_pattern t cur < 0
              then t\<lparr>tr_nodes := (tr_nodes t)[cur := (tr_nodes t ! cur)\<lparr>tn_pattern := tr_n_patterns t\<rparr>], tr_n_patterns := tr_n_patterns t + 1\<rparr>
              else t)
     in (tr_pattern t cur, t))"

lemma parse_progress:
  assumes "up_status (parse_utf8_codepoint s off) = SUCCESS"
  shows "0 < up_bytes (parse_utf8_codepoint s off)"
proof -
  have "scan_conts s off is = Some r \<Longrightarrow> up_status r \<noteq> SUCCESS" for "is" r
    by (induction "is") (auto simp: parse_result_def split: if_splits)
  then show ?thesis using assms by (auto simp: parse_utf8_codepoint_def parse_result_def Let_def split: if_splits option.splits)
qed

text \<open>The code points up to the first byte that does not start one.\<close>

function symbols_from :: "byte list \<Rightarrow> nat \<Rightarrow> codepoint list" where
  "symbols_from s pos = (
     if pos < length s then
       let r = parse_utf8_codepoint s pos in
       if up_status r \<noteq> SUCCESS then [] else up_codepoint r # symbols_from s (pos + up_bytes r)
     else [])"
  by pat_completeness auto

termination
  by (relation "measure (\<lambda>(s, pos). length s - pos)") (auto dest: parse_progress)

definition insert_word :: "byte list \<Rightarrow> common_trie \<Rightarrow> int \<times> common_trie" where
  "insert_word word t = insert_symbols (symbols_from word 0) t"

definition trie_of_words :: "byte list list \<Rightarrow> common_trie" where
  "trie_of_words ws = fold (\<lambda>w t. snd (insert_word w t)) ws trie_new"

datatype match_result = NO_MATCH | PARTIAL_MATCH | COMPLETE_MATCH

function check_from :: "common_trie \<Rightarrow> byte list \<Rightarrow> nat \<Rightarrow> nat \<Rightarrow> match_result" where
  "check_from t s current pos = (
     let r = parse_utf8_codepoint s pos in
     if pos < length s \<and> up_status r = SUCCESS then
       (case tr_child t current (up_codepoint r) of
          None \<Rightarrow> NO_MATCH
        | Some v \<Rightarrow> if tr_pattern t v \<ge> 0 then COMPLETE_MATCH else check_from t s v (pos + up_bytes r))
     else if current \<noteq> 0 then PARTIAL_MATCH else NO_MATCH)"
  by pat_completeness auto

termination
  by (relation "measure (\<lambda>(t, s, current, pos). length s - pos)") (auto dest: parse_progress)

definition check_at :: "common_trie \<Rightarrow> byte list \<Rightarrow> nat \<Rightarrow> match_result" where
  "check_at t s start_pos = check_from t s 0 start_pos"

section \<open>The automaton\<close>

record aho_corasick =
  ac_t :: common_trie
  ac_fail :: "nat list"
  ac_order :: "nat list"
  ac_match :: "int list"
  ac_alphabet :: "codepoint set"

text \<open>Follow failure links until a transition on \<open>ch\<close> exists.\<close>

partial_function (option) ac_follow :: "common_trie \<Rightarrow> nat list \<Rightarrow> codepoint \<Rightarrow> nat \<Rightarrow> nat option" where
  "ac_follow t fail ch f = (
     if f \<noteq> 0 \<and> tr_child t f ch = None then Option.bind (vget fail f) (ac_follow t fail ch) else Some f)"

definition ac_child :: "common_trie \<Rightarrow> nat \<Rightarrow> codepoint \<times> nat \<Rightarrow> nat list \<times> nat list \<Rightarrow> (nat list \<times> nat list) option" where
  "ac_child t u = (\<lambda>(ch, v) (fail, queue). do {
     fail \<leftarrow> (if u \<noteq> 0 then do {
         f \<leftarrow> vget fail u;
         f \<leftarrow> ac_follow t fail ch f;
         vset fail v (case tr_child t f ch of Some w \<Rightarrow> if w \<noteq> v then w else 0 | None \<Rightarrow> 0) }
       else Some fail);
     Some (fail, queue @ [v]) })"

partial_function (option) ac_bfs :: "common_trie \<Rightarrow> nat list \<Rightarrow> nat list \<Rightarrow> nat list \<Rightarrow> (nat list \<times> nat list) option" where
  "ac_bfs t queue fail order = (case queue of
     [] \<Rightarrow> Some (fail, order)
   | u # q \<Rightarrow> Option.bind (vget (tr_nodes t) u) (\<lambda>nd.
       Option.bind (foldM (ac_child t u) (tn_children nd) (fail, q)) (\<lambda>(fail, q). ac_bfs t q fail (order @ [u]))))"

definition ac_match_step :: "common_trie \<Rightarrow> nat list \<Rightarrow> nat \<Rightarrow> int list \<Rightarrow> int list option" where
  "ac_match_step t fail u m = do {
     x \<leftarrow> (if tr_pattern t u \<ge> 0 then Some (tr_pattern t u)
           else if u \<noteq> 0 then do { f \<leftarrow> vget fail u; vget m f } else Some (-1));
     vset m u x }"

definition aho_corasick_new :: "common_trie \<Rightarrow> aho_corasick option" where
  "aho_corasick_new t = (let n = length (tr_nodes t) in do {
     (fail, order) \<leftarrow> ac_bfs t [0] (replicate n 0) [];
     m \<leftarrow> foldM (ac_match_step t fail) order (replicate n (-1));
     Some \<lparr>ac_t = t, ac_fail = fail, ac_order = order, ac_match = m,
       ac_alphabet = set (concat (map (map fst \<circ> tn_children) (tr_nodes t)))\<rparr> })"

definition ac_next :: "aho_corasick \<Rightarrow> nat \<Rightarrow> codepoint \<Rightarrow> nat option" where
  "ac_next a state ch = map_option (\<lambda>s. case tr_child (ac_t a) s ch of Some v \<Rightarrow> v | None \<Rightarrow> 0) (ac_follow (ac_t a) (ac_fail a) ch state)"

definition match_pattern :: "aho_corasick \<Rightarrow> nat \<Rightarrow> int option" where
  "match_pattern a s = vget (ac_match a) s"

end
