(* ===== verification/TrieFacts.thy ===== *)
theory TrieFacts
  imports Trie
begin

text \<open>
  The words of a trie: every node is reached by exactly one word, and a lookup finds the index under
  which a word was first inserted.
\<close>

section \<open>Walking\<close>

fun walk :: "common_trie \<Rightarrow> nat \<Rightarrow> codepoint list \<Rightarrow> nat option" where
  "walk t u [] = Some u"
| "walk t u (c # cs) = (case tr_child t u c of None \<Rightarrow> None | Some v \<Rightarrow> walk t v cs)"

lemma walk_append: "walk t u (a @ b) = (case walk t u a of None \<Rightarrow> None | Some v \<Rightarrow> walk t v b)"
  by (induction a arbitrary: u) (auto split: option.splits)

lemma walk_snoc: "walk t u (a @ [c]) = (case walk t u a of None \<Rightarrow> None | Some v \<Rightarrow> tr_child t v c)"
  by (auto simp: walk_append split: option.splits)

text \<open>The pattern index of a word, -1 if it is not a pattern.\<close>

definition lookup :: "common_trie \<Rightarrow> codepoint list \<Rightarrow> int" where
  "lookup t w = (case walk t 0 w of None \<Rightarrow> -1 | Some u \<Rightarrow> tr_pattern t u)"

definition trie_wf :: "common_trie \<Rightarrow> bool" where
  "trie_wf t = (tr_nodes t \<noteq> [] \<and> (\<forall>u c v. tr_child t u c = Some v \<longrightarrow> v < length (tr_nodes t)) \<and>
     (\<forall>u < length (tr_nodes t). \<exists>w. walk t 0 w = Some u) \<and>
     (\<forall>a b u. walk t 0 a = Some u \<longrightarrow> walk t 0 b = Some u \<longrightarrow> a = b) \<and>
     (\<forall>nd \<in> set (tr_nodes t). distinct (map fst (tn_children nd))) \<and> (\<forall>u. tr_pattern t u \<ge> -1) \<and> 0 \<le> tr_n_patterns t)"

lemma trie_wfD:
  assumes "trie_wf t"
  shows "0 < length (tr_nodes t)" "tr_child t u c = Some v \<Longrightarrow> v < length (tr_nodes t)"
    "u < length (tr_nodes t) \<Longrightarrow> \<exists>w. walk t 0 w = Some u" "walk t 0 a = Some u \<Longrightarrow> walk t 0 b = Some u \<Longrightarrow> a = b"
    "nd \<in> set (tr_nodes t) \<Longrightarrow> distinct (map fst (tn_children nd))" "-1 \<le> tr_pattern t u" "0 \<le> tr_n_patterns t"
  using assms by (auto simp: trie_wf_def)

lemma walk_lt: "trie_wf t \<Longrightarrow> walk t 0 w = Some u \<Longrightarrow> u < length (tr_nodes t)"
  using trie_wfD(1) [of t] by (cases w rule: rev_cases) (auto simp: walk_snoc trie_wfD split: option.splits)

lemma trie_new_child [simp]: "tr_child trie_new u c = None"
  by (simp add: tr_child_def trie_new_def node_new_def)

lemma trie_new_walk: "walk trie_new 0 w = (if w = [] then Some 0 else None)"
  by (cases w) auto

lemma trie_new_wf [simp]: "trie_wf trie_new"
  by (auto simp: trie_wf_def trie_new_walk) (auto simp: trie_new_def node_new_def tr_pattern_def)

section \<open>Insertion\<close>

lemma put_child_map [simp]: "map_of xs ch = None \<Longrightarrow> map_of (put_child ch v xs) = (map_of xs)(ch \<mapsto> v)"
  by (induction xs) (auto split: if_splits)

lemma put_child_keys: "fst ` set (put_child ch v xs) = insert ch (fst ` set xs)"
proof (induction xs)
  case (Cons x xs)
  then show ?case by (cases x) (simp add: insert_commute)
qed simp

lemma put_child_distinct: "distinct (map fst xs) \<Longrightarrow> map_of xs ch = None \<Longrightarrow> distinct (map fst (put_child ch v xs))"
proof (induction xs)
  case (Cons x xs)
  obtain c w where x: "x = (c, w)" by (cases x)
  have "c \<notin> fst ` set (put_child ch v xs)" if "ch \<noteq> c"
    using Cons.prems put_child_keys [of ch v xs] that by (auto simp: x)
  then show ?case using Cons by (auto simp: x map_of_eq_None_iff split: if_splits)
qed simp

text \<open>What one new node changes.\<close>

definition extended :: "common_trie \<Rightarrow> codepoint list \<Rightarrow> common_trie \<Rightarrow> bool" where
  "extended t w t' = (trie_wf t' \<and> tr_n_patterns t' = tr_n_patterns t \<and> length (tr_nodes t) \<le> length (tr_nodes t') \<and>
     (\<forall>v u. walk t 0 v = Some u \<longrightarrow> walk t' 0 v = Some u) \<and> (\<forall>v. lookup t' v = lookup t v) \<and> walk t' 0 w \<noteq> None)"

lemma insert_step_wp:
  assumes wf: "trie_wf t" and p: "walk t 0 p = Some cur" and s: "insert_step ch (t, cur) = (t', v)"
  shows "walk t' 0 (p @ [ch]) = Some v" "extended t (p @ [ch]) t'" "walk t' 0 w \<noteq> None \<longleftrightarrow> walk t 0 w \<noteq> None \<or> w = p @ [ch]"
proof -
  have "walk t' 0 (p @ [ch]) = Some v \<and> extended t (p @ [ch]) t' \<and> (\<forall>w. walk t' 0 w \<noteq> None \<longleftrightarrow> walk t 0 w \<noteq> None \<or> w = p @ [ch])"
  proof (cases "tr_child t cur ch")
    case (Some x)
    then show ?thesis using s p wf by (auto simp: insert_step_def walk_snoc extended_def)
  next
    case None
    let ?n = "length (tr_nodes t)"
    have cur: "cur < ?n" using walk_lt [OF wf p] .
    have t': "t' = t\<lparr>tr_nodes := (tr_nodes t @ [node_new])[cur := (tr_nodes t ! cur)\<lparr>tn_children := put_child ch ?n (tn_children (tr_nodes t ! cur))\<rparr>]\<rparr>"
      and v: "v = ?n"
      using s None cur by (auto simp: insert_step_def Let_def nth_append)
    have nl: "length (tr_nodes t') = Suc ?n" by (simp add: t')
    have ch: "tr_child t' u c = (if u = cur \<and> c = ch then Some ?n else tr_child t u c)" for u c
      using None cur by (auto simp: tr_child_def t' nth_append nth_list_update node_new_def less_Suc_eq)
    have pat: "tr_pattern t' u = tr_pattern t u" for u
      using cur by (auto simp: tr_pattern_def t' nth_append nth_list_update node_new_def less_Suc_eq)
    have fwd: "walk t u w = Some x \<Longrightarrow> walk t' u w = Some x" for w u x
      by (induction w arbitrary: u) (auto simp: ch None split: option.splits)
    have noch: "tr_child t ?n c = None" for c by (simp add: tr_child_def)
    have bwd: "walk t' 0 w = Some x \<Longrightarrow> walk t 0 w = Some x \<or> w = p @ [ch] \<and> x = ?n" for w x
    proof (induction w arbitrary: x rule: rev_induct)
      case (snoc c w)
      then obtain y where y: "walk t' 0 w = Some y" "tr_child t' y c = Some x" by (auto simp: walk_snoc split: option.splits)
      have "walk t 0 w = Some y"
      proof (rule ccontr)
        assume "walk t 0 w \<noteq> Some y"
        then have "y = ?n" using snoc.IH [OF y(1)] by blast
        then show False using y(2) cur noch by (simp add: ch)
      qed
      then show ?case using y(2) p trie_wfD(4) [OF wf, of w y p] by (auto simp: walk_snoc ch split: if_splits)
    qed simp
    have new: "walk t' 0 (p @ [ch]) = Some ?n" using fwd [OF p] by (simp add: walk_snoc ch)
    have oldlt: "walk t 0 w = Some x \<Longrightarrow> x < ?n" for w x using walk_lt [OF wf] by blast
    have look: "lookup t' w = lookup t w" for w
    proof (cases "walk t' 0 w")
      case None
      then have "walk t 0 w = None" using fwd [of 0 w] by (cases "walk t 0 w") auto
      then show ?thesis using None by (simp add: lookup_def)
    next
      case (Some x)
      show ?thesis
      proof (cases "walk t 0 w = Some x")
        case True
        then show ?thesis using Some by (simp add: lookup_def pat)
      next
        case False
        then have "w = p @ [ch]" "x = ?n" using bwd [OF Some] by auto
        moreover have "walk t 0 (p @ [ch]) = None" using p None by (simp add: walk_snoc)
        moreover have "tr_pattern t ?n = -1" by (simp add: tr_pattern_def)
        ultimately show ?thesis using Some by (simp add: lookup_def pat)
      qed
    qed
    have "trie_wf t'"
      unfolding trie_wf_def
    proof (intro conjI allI impI ballI)
      show "tr_nodes t' \<noteq> []" using nl by auto
      show "v < length (tr_nodes t')" if "tr_child t' u c = Some v" for u c v
        using that nl trie_wfD(2) [OF wf, of u c v] by (auto simp: ch split: if_splits)
      show "\<exists>w. walk t' 0 w = Some u" if "u < length (tr_nodes t')" for u
        using that nl new fwd trie_wfD(3) [OF wf, of u] by (cases "u = ?n") (auto simp: less_Suc_eq)
      show "a = b" if "walk t' 0 a = Some u" "walk t' 0 b = Some u" for a b u
        using bwd [OF that(1)] bwd [OF that(2)] oldlt trie_wfD(4) [OF wf] by blast
      show "distinct (map fst (tn_children nd))" if "nd \<in> set (tr_nodes t')" for nd
      proof -
        have m: "map_of (tn_children (tr_nodes t ! cur)) ch = None" using None cur by (simp add: tr_child_def)
        have "set (tr_nodes t') \<subseteq> insert ((tr_nodes t ! cur)\<lparr>tn_children := put_child ch ?n (tn_children (tr_nodes t ! cur))\<rparr>) (insert node_new (set (tr_nodes t)))"
          unfolding t' by (simp, intro order.trans [OF set_update_subset_insert]) auto
        then show ?thesis using that trie_wfD(5) [OF wf] put_child_distinct [OF trie_wfD(5) [OF wf, of "tr_nodes t ! cur"] m] cur
          by (auto simp: node_new_def)
      qed
      show "-1 \<le> tr_pattern t' u" for u using trie_wfD(6) [OF wf] by (simp add: pat)
      show "0 \<le> tr_n_patterns t'" using trie_wfD(7) [OF wf] by (simp add: t')
    qed
    then have "extended t (p @ [ch]) t'" using new fwd look nl by (simp add: extended_def) (simp add: t')
    moreover have "walk t' 0 w \<noteq> None \<longleftrightarrow> walk t 0 w \<noteq> None \<or> w = p @ [ch]" for w
      using fwd [of 0 w] bwd [of w] new by auto
    ultimately show ?thesis using new v by blast
  qed
  then show "walk t' 0 (p @ [ch]) = Some v" "extended t (p @ [ch]) t'" "walk t' 0 w \<noteq> None \<longleftrightarrow> walk t 0 w \<noteq> None \<or> w = p @ [ch]" by blast+
qed

lemma insert_steps:
  assumes "trie_wf t" "walk t 0 p = Some cur" "fold insert_step syms (t, cur) = (t', v)"
  shows "walk t' 0 (p @ syms) = Some v \<and> trie_wf t' \<and> tr_n_patterns t' = tr_n_patterns t \<and>
    (\<forall>w u. walk t 0 w = Some u \<longrightarrow> walk t' 0 w = Some u) \<and> (\<forall>w. lookup t' w = lookup t w) \<and>
    (\<forall>w. walk t' 0 w \<noteq> None \<longleftrightarrow> walk t 0 w \<noteq> None \<or> (\<exists>k. 0 < k \<and> k \<le> length syms \<and> w = p @ take k syms))"
  using assms
proof (induction syms arbitrary: t p cur)
  case (Cons ch syms)
  obtain t1 v1 where 1: "insert_step ch (t, cur) = (t1, v1)" by (cases "insert_step ch (t, cur)")
  note e = insert_step_wp [OF Cons.prems(1,2) 1]
  have "walk t' 0 ((p @ [ch]) @ syms) = Some v \<and> trie_wf t' \<and> tr_n_patterns t' = tr_n_patterns t1 \<and>
    (\<forall>w u. walk t1 0 w = Some u \<longrightarrow> walk t' 0 w = Some u) \<and> (\<forall>w. lookup t' w = lookup t1 w) \<and>
    (\<forall>w. walk t' 0 w \<noteq> None \<longleftrightarrow> walk t1 0 w \<noteq> None \<or> (\<exists>k. 0 < k \<and> k \<le> length syms \<and> w = (p @ [ch]) @ take k syms))"
    by (rule Cons.IH) (use e(1,2) 1 Cons.prems(3) in \<open>auto simp: extended_def\<close>)
  moreover have "(w = p @ [ch] \<or> (\<exists>k. 0 < k \<and> k \<le> length syms \<and> w = (p @ [ch]) @ take k syms)) \<longleftrightarrow>
    (\<exists>k. 0 < k \<and> k \<le> length (ch # syms) \<and> w = p @ take k (ch # syms))" (is "?l w = ?r w") for w
  proof
    assume "?r w"
    then obtain k where k: "0 < k" "k \<le> length (ch # syms)" "w = p @ take k (ch # syms)" by blast
    then show "?l w" by (cases "k - 1") (auto simp: take_Cons' intro!: exI [of _ "k - 1"])
  next
    assume "?l w"
    then show "?r w"
    proof
      assume "\<exists>k. 0 < k \<and> k \<le> length syms \<and> w = (p @ [ch]) @ take k syms"
      then obtain k where "0 < k" "k \<le> length syms" "w = (p @ [ch]) @ take k syms" by blast
      then show ?thesis by (intro exI [of _ "Suc k"]) simp
    qed (auto intro!: exI [of _ 1])
  qed
  ultimately show ?case using e(2) e(3) by (simp add: extended_def)
qed auto

lemma insert_symbols_wp:
  assumes wf: "trie_wf t" and s: "insert_symbols syms t = (i, t')"
  shows "trie_wf t'" "lookup t' w = (if w = syms then i else lookup t w)" "walk t' 0 w \<noteq> None \<longleftrightarrow> walk t 0 w \<noteq> None \<or> (\<exists>k. 0 < k \<and> k \<le> length syms \<and> w = take k syms)"
    "i = (if lookup t syms < 0 then tr_n_patterns t else lookup t syms)"
    "tr_n_patterns t' = (if lookup t syms < 0 then tr_n_patterns t + 1 else tr_n_patterns t)"
proof -
  obtain t1 v where 1: "fold insert_step syms (t, 0) = (t1, v)" by (cases "fold insert_step syms (t, 0)")
  have e: "walk t1 0 syms = Some v" "trie_wf t1" "tr_n_patterns t1 = tr_n_patterns t" "\<And>w. lookup t1 w = lookup t w"
    "\<And>w. walk t1 0 w \<noteq> None \<longleftrightarrow> walk t 0 w \<noteq> None \<or> (\<exists>k. 0 < k \<and> k \<le> length syms \<and> w = take k syms)"
    using insert_steps [OF wf, of "[]" 0 syms t1 v] 1 by auto
  have v: "v < length (tr_nodes t1)" by (rule walk_lt [OF e(2,1)])
  have pv: "tr_pattern t1 v = lookup t syms" using e(1) e(4) [of syms] by (simp add: lookup_def)
  have "trie_wf t' \<and> (\<forall>w. lookup t' w = (if w = syms then i else lookup t w)) \<and> (\<forall>w. walk t' 0 w \<noteq> None \<longleftrightarrow> walk t1 0 w \<noteq> None) \<and>
    i = (if lookup t syms < 0 then tr_n_patterns t else lookup t syms) \<and>
    tr_n_patterns t' = (if lookup t syms < 0 then tr_n_patterns t + 1 else tr_n_patterns t)"
  proof (cases "lookup t syms < 0")
    case False
    then have "t' = t1" "i = lookup t syms" using s 1 pv by (auto simp: insert_symbols_def)
    then show ?thesis using e False by simp
  next
    case True
    let ?n = "tr_n_patterns t"
    have t': "t' = t1\<lparr>tr_nodes := (tr_nodes t1)[v := (tr_nodes t1 ! v)\<lparr>tn_pattern := ?n\<rparr>], tr_n_patterns := ?n + 1\<rparr>"
      and i: "i = tr_pattern t' v"
      using s 1 pv True e(3) by (auto simp: insert_symbols_def Let_def)
    have ch: "tr_child t' u c = tr_child t1 u c" for u c using v by (auto simp: tr_child_def t' nth_list_update)
    have pat: "tr_pattern t' u = (if u = v then ?n else tr_pattern t1 u)" for u using v by (auto simp: tr_pattern_def t' nth_list_update)
    have wk: "walk t' u w = walk t1 u w" for u w by (induction w arbitrary: u) (auto simp: ch split: option.splits)
    have look: "lookup t' w = (if w = syms then ?n else lookup t w)" for w
    proof (cases "walk t1 0 w")
      case None
      then have "w \<noteq> syms" using e(1) by auto
      then show ?thesis using None e(4) [of w] by (simp add: lookup_def wk)
    next
      case (Some u)
      have "w = syms \<longleftrightarrow> u = v" using Some e(1) trie_wfD(4) [OF e(2), of w u syms] by auto
      then show ?thesis using Some e(4) [of w] by (auto simp: lookup_def wk pat)
    qed
    have "trie_wf t'"
      unfolding trie_wf_def wk ch
    proof (intro conjI allI impI ballI)
      show "tr_nodes t' \<noteq> []" using trie_wfD(1) [OF e(2)] by (auto simp: t')
      show "distinct (map fst (tn_children nd))" if "nd \<in> set (tr_nodes t')" for nd
      proof -
        have "set (tr_nodes t') \<subseteq> insert ((tr_nodes t1 ! v)\<lparr>tn_pattern := ?n\<rparr>) (set (tr_nodes t1))" by (simp add: t' set_update_subset_insert)
        then show ?thesis using that trie_wfD(5) [OF e(2)] v by auto
      qed
      show "- 1 \<le> tr_pattern t' u" for u using trie_wfD(6) [OF e(2), of u] trie_wfD(7) [OF wf] by (simp add: pat)
    qed (use trie_wfD(2,3,4) [OF e(2)] trie_wfD(7) [OF wf] in \<open>auto simp: t'\<close>)
    then show ?thesis using look i True pat wk by (simp add: t')
  qed
  then show "trie_wf t'" "lookup t' w = (if w = syms then i else lookup t w)" "walk t' 0 w \<noteq> None \<longleftrightarrow> walk t 0 w \<noteq> None \<or> (\<exists>k. 0 < k \<and> k \<le> length syms \<and> w = take k syms)"
    "i = (if lookup t syms < 0 then tr_n_patterns t else lookup t syms)"
    "tr_n_patterns t' = (if lookup t syms < 0 then tr_n_patterns t + 1 else tr_n_patterns t)"
    using e(5) by blast+
qed

section \<open>The index of a word\<close>

definition trie_of :: "codepoint list list \<Rightarrow> common_trie" where
  "trie_of ws = fold (\<lambda>w t. snd (insert_symbols w t)) ws trie_new"

text \<open>The words without duplicates, in the order of their first occurrence.\<close>

definition firsts :: "'a list \<Rightarrow> 'a list" where
  "firsts ws = fold (\<lambda>w xs. if w \<in> set xs then xs else xs @ [w]) ws []"

lemma firsts_snoc: "firsts (ws @ [w]) = (if w \<in> set (firsts ws) then firsts ws else firsts ws @ [w])"
  by (simp add: firsts_def)

lemma set_firsts [simp]: "set (firsts ws) = set ws"
proof (induction ws rule: rev_induct)
  case (snoc w ws)
  then show ?case by (auto simp: firsts_snoc)
qed (simp add: firsts_def)

lemma distinct_firsts [simp]: "distinct (firsts ws)"
proof (induction ws rule: rev_induct)
  case (snoc w ws)
  then show ?case by (auto simp: firsts_snoc)
qed (simp add: firsts_def)

lemma firsts_distinct: "distinct ws \<Longrightarrow> firsts ws = ws"
proof (induction ws rule: rev_induct)
  case (snoc w ws)
  then show ?case by (auto simp: firsts_snoc)
qed (simp add: firsts_def)

lemma trie_of_wp:
  "trie_wf (trie_of ws) \<and> tr_n_patterns (trie_of ws) = int (length (firsts ws)) \<and>
   (\<forall>i < length (firsts ws). lookup (trie_of ws) (firsts ws ! i) = int i) \<and> (\<forall>w. w \<notin> set ws \<longrightarrow> lookup (trie_of ws) w = -1)"
proof (induction ws rule: rev_induct)
  case Nil
  then show ?case by (simp add: trie_of_def firsts_def lookup_def trie_new_walk) (simp add: trie_new_def tr_pattern_def node_new_def)
next
  case (snoc w ws)
  obtain i t where it: "insert_symbols w (trie_of ws) = (i, t)" by (cases "insert_symbols w (trie_of ws)")
  have t: "trie_of (ws @ [w]) = t" using it by (simp add: trie_of_def)
  have wf: "trie_wf (trie_of ws)" using snoc.IH by blast
  note ins = insert_symbols_wp [OF wf it]
  show ?case
  proof (cases "w \<in> set ws")
    case True
    then obtain j where j: "j < length (firsts ws)" "firsts ws ! j = w" by (metis in_set_conv_nth set_firsts)
    then have l: "lookup (trie_of ws) w = int j" using snoc.IH by blast
    then have "lookup t v = lookup (trie_of ws) v" for v using ins(2,4) by simp
    then show ?thesis using snoc.IH ins(1,5) l True by (simp add: t firsts_snoc)
  next
    case False
    then have l: "lookup (trie_of ws) w = -1" using snoc.IH by blast
    have "firsts ws ! j \<noteq> w" if "j < length (firsts ws)" for j using False that by (metis nth_mem set_firsts)
    then show ?thesis using snoc.IH ins l False by (auto simp: t firsts_snoc nth_append less_Suc_eq)
  qed
qed

lemma trie_of_path: "walk (trie_of ws) 0 w \<noteq> None \<longleftrightarrow> w = [] \<or> (\<exists>p \<in> set ws. \<exists>k. w = take k p)"
proof (induction ws rule: rev_induct)
  case Nil
  then show ?case by (simp add: trie_of_def trie_new_walk)
next
  case (snoc p ws)
  obtain i t where it: "insert_symbols p (trie_of ws) = (i, t)" by (cases "insert_symbols p (trie_of ws)")
  have t: "trie_of (ws @ [p]) = t" using it by (simp add: trie_of_def)
  have "walk t 0 w \<noteq> None \<longleftrightarrow> walk (trie_of ws) 0 w \<noteq> None \<or> (\<exists>k. 0 < k \<and> k \<le> length p \<and> w = take k p)"
    by (rule insert_symbols_wp(3) [OF _ it]) (use trie_of_wp in blast)
  moreover have "(w = [] \<or> (\<exists>k. w = take k p)) = (w = [] \<or> (\<exists>k. 0 < k \<and> k \<le> length p \<and> w = take k p))"
  proof
    assume "w = [] \<or> (\<exists>k. w = take k p)"
    then obtain k where "w = [] \<or> w = take k p" by blast
    then show "w = [] \<or> (\<exists>k. 0 < k \<and> k \<le> length p \<and> w = take k p)"
      by (cases "k = 0 \<or> p = []") (auto simp: min_def intro!: exI [of _ "min k (length p)"])
  qed blast
  ultimately show ?case unfolding t snoc.IH by auto
qed

end
