(* ===== verification/AhoCorasick.thy ===== *)
theory AhoCorasick
  imports TrieFacts "HOL-Library.Sublist"
begin

text \<open>
  The automaton: after reading a text, its state is the node of the longest suffix of the text that
  is a path of the trie, and \<open>match\<close> is the longest pattern that is a suffix of the text.
\<close>

declare walk.simps(2) [simp del] check_from.simps [simp del] symbols_from.simps [simp del]

section \<open>Longest suffixes\<close>

abbreviation is_path :: "common_trie \<Rightarrow> codepoint list \<Rightarrow> bool" where
  "is_path t w \<equiv> walk t 0 w \<noteq> None"

abbreviation node_of :: "common_trie \<Rightarrow> codepoint list \<Rightarrow> nat" where
  "node_of t w \<equiv> the (walk t 0 w)"

fun lsuf :: "common_trie \<Rightarrow> codepoint list \<Rightarrow> codepoint list" where
  "lsuf t [] = []"
| "lsuf t (c # cs) = (if is_path t (c # cs) then c # cs else lsuf t cs)"

text \<open>The index of the longest suffix that is a pattern.\<close>

fun longest_match :: "common_trie \<Rightarrow> codepoint list \<Rightarrow> int" where
  "longest_match t [] = lookup t []"
| "longest_match t (c # cs) = (if lookup t (c # cs) \<ge> 0 then lookup t (c # cs) else longest_match t cs)"

lemma lsuf_path [simp]: "is_path t (lsuf t w)"
  by (induction w) auto

lemma lsuf_same [simp]: "is_path t w \<Longrightarrow> lsuf t w = w"
  by (cases w) auto

lemma lsuf_length: "length (lsuf t w) \<le> length w"
  by (induction w) auto

lemma path_prefix: "is_path t (a @ b) \<Longrightarrow> is_path t a"
  by (auto simp: walk_append split: option.splits)

lemma lsuf_snoc: "lsuf t (w @ [c]) = lsuf t (lsuf t w @ [c])"
proof (induction w)
  case (Cons x xs)
  show ?case
  proof (cases "is_path t (x # xs)")
    case False
    then have "\<not> is_path t (x # xs @ [c])" using path_prefix [of t "x # xs" "[c]"] by (metis append_Cons)
    then have "lsuf t ((x # xs) @ [c]) = lsuf t (xs @ [c])" by simp
    also have "\<dots> = lsuf t (lsuf t xs @ [c])" by (rule Cons.IH)
    also have "lsuf t xs = lsuf t (x # xs)" using False by simp
    finally show ?thesis .
  next
    case True
    then have "lsuf t (x # xs) = x # xs" by simp
    then show ?thesis by (simp only:)
  qed
qed simp

lemma lookup_path: "lookup t w \<ge> 0 \<Longrightarrow> is_path t w"
  by (auto simp: lookup_def split: option.splits)

lemma longest_match_lsuf: "longest_match t (lsuf t w) = longest_match t w"
  by (induction w) (auto dest: lookup_path)

section \<open>Following failure links\<close>

text \<open>The failure link of the node of \<open>s\<close> is right.\<close>

definition fail_ok :: "common_trie \<Rightarrow> nat list \<Rightarrow> codepoint list \<Rightarrow> bool" where
  "fail_ok t fail s = (fail ! node_of t s = node_of t (lsuf t (tl s)))"

definition step_to :: "common_trie \<Rightarrow> codepoint \<Rightarrow> nat \<Rightarrow> nat" where
  "step_to t ch f = (case tr_child t f ch of Some v \<Rightarrow> v | None \<Rightarrow> 0)"

lemma node_zero: "trie_wf t \<Longrightarrow> walk t 0 w = Some 0 \<Longrightarrow> w = []"
  using trie_wfD(4) [of t w 0 "[]"] by simp

lemma follow_wp:
  assumes wf: "trie_wf t" and l: "length fail = length (tr_nodes t)" and p: "is_path t s"
    and ok: "\<And>r. is_path t r \<Longrightarrow> r \<noteq> [] \<Longrightarrow> length r \<le> length s \<Longrightarrow> fail_ok t fail r"
  shows "wp (ac_follow t fail ch (node_of t s)) (\<lambda>f. step_to t ch f = node_of t (lsuf t (s @ [ch])))"
  using p ok
proof (induction "length s" arbitrary: s rule: less_induct)
  case less
  obtain u where u: "walk t 0 s = Some u" using less.prems(1) by auto
  show ?case
  proof (cases "u \<noteq> 0 \<and> tr_child t u ch = None")
    case False
    then have f: "ac_follow t fail ch u = Some u" by (subst ac_follow.simps) auto
    show ?thesis
    proof (cases "tr_child t u ch")
      case None
      then have "s = []" "u = 0" using False node_zero [OF wf] u by auto
      then show ?thesis using f None u by (simp add: step_to_def walk.simps)
    next
      case (Some v)
      then have "walk t 0 (s @ [ch]) = Some v" using u by (simp add: walk_snoc)
      then show ?thesis using f Some u by (simp add: step_to_def)
    qed
  next
    case True
    then obtain x xs where s: "s = x # xs" using u by (cases s) auto
    have nu: "u < length fail" using walk_lt [OF wf u] l by simp
    have "fail_ok t fail s" using less.prems s by simp
    then have fu: "fail ! u = node_of t (lsuf t xs)" using u s by (simp add: fail_ok_def)
    obtain y where y: "walk t 0 (lsuf t xs) = Some y" using lsuf_path [of t xs] by blast
    have "ac_follow t fail ch u = ac_follow t fail ch (node_of t (lsuf t xs))"
      using True nu fu y by (subst ac_follow.simps) (simp add: vget_def)
    moreover have "length (lsuf t xs) < length s" using lsuf_length [of t xs] s by simp
    then have "wp (ac_follow t fail ch (node_of t (lsuf t xs))) (\<lambda>f. step_to t ch f = node_of t (lsuf t (lsuf t xs @ [ch])))"
      by (rule less.hyps) (use less.prems(2) lsuf_length [of t xs] s in auto)
    moreover have "\<not> is_path t (s @ [ch])" using u True by (simp add: walk_snoc)
    then have "lsuf t (s @ [ch]) = lsuf t (lsuf t xs @ [ch])" using lsuf_snoc [of t xs ch] by (simp add: s)
    ultimately show ?thesis using u by simp
  qed
qed

section \<open>Breadth first\<close>

lemma node_inj: "trie_wf t \<Longrightarrow> is_path t a \<Longrightarrow> is_path t b \<Longrightarrow> node_of t a = node_of t b \<longleftrightarrow> a = b"
  using trie_wfD(4) [of t a _ b] by auto

lemma node_lt: "trie_wf t \<Longrightarrow> is_path t a \<Longrightarrow> node_of t a < length (tr_nodes t)"
  using walk_lt by fastforce

lemma node_Nil [simp]: "node_of t [] = 0"
  by simp

lemma fail_ok_update:
  assumes "trie_wf t" "is_path t r" "is_path t s" "r \<noteq> s" "fail_ok t fail r"
  shows "fail_ok t (fail[node_of t s := x]) r"
  using assms node_inj [OF assms(1,2,3)] by (simp add: fail_ok_def)

text \<open>One child \<open>s @ [c]\<close> of the node of \<open>s\<close>.\<close>

lemma ac_child_wp:
  assumes wf: "trie_wf t" and p: "is_path t s" and v: "tr_child t (node_of t s) c = Some v" and l: "length fail = length (tr_nodes t)"
    and ok: "\<And>r. is_path t r \<Longrightarrow> r \<noteq> [] \<Longrightarrow> length r \<le> length s \<Longrightarrow> fail_ok t fail r"
    and z: "s = [] \<Longrightarrow> fail = replicate (length (tr_nodes t)) 0"
  shows "wp (ac_child t (node_of t s) (c, v) (fail, q)) (\<lambda>(fail', q'). q' = q @ [v] \<and> length fail' = length fail \<and>
    fail_ok t fail' (s @ [c]) \<and> (\<forall>r. is_path t r \<longrightarrow> r \<noteq> s @ [c] \<longrightarrow> fail_ok t fail r \<longrightarrow> fail_ok t fail' r) \<and> (s = [] \<longrightarrow> fail' = fail))"
proof -
  have w: "walk t 0 (s @ [c]) = Some v" using p v by (auto simp: walk_snoc)
  have vn: "v < length fail" using walk_lt [OF wf w] l by simp
  show ?thesis
  proof (cases s)
    case Nil
    then have "fail_ok t fail [c]" using w z vn l by (simp add: fail_ok_def)
    then show ?thesis using Nil by (simp add: ac_child_def)
  next
    case (Cons x xs)
    have u: "node_of t s \<noteq> 0" "node_of t s < length fail" using node_inj [OF wf p, of "[]"] Cons node_lt [OF wf p] l by auto
    have fu: "fail ! node_of t s = node_of t (lsuf t xs)" using ok [OF p] Cons by (simp add: fail_ok_def)
    have "wp (ac_follow t fail c (node_of t (lsuf t xs))) (\<lambda>f. step_to t c f = node_of t (lsuf t (lsuf t xs @ [c])))"
      by (rule follow_wp [OF wf l lsuf_path]) (use ok lsuf_length [of t xs] Cons in auto)
    then obtain f where f: "ac_follow t fail c (node_of t (lsuf t xs)) = Some f" "step_to t c f = node_of t (lsuf t (xs @ [c]))"
      unfolding lsuf_snoc [of t xs c, symmetric] by (rule wpE)
    obtain y where y: "walk t 0 (lsuf t xs) = Some y" using lsuf_path [of t xs] by blast
    have short: "lsuf t (xs @ [c]) \<noteq> s @ [c]" using lsuf_length [of t "xs @ [c]"] Cons by auto
    then have "step_to t c f \<noteq> v" using f(2) node_inj [OF wf lsuf_path, of "s @ [c]" "xs @ [c]"] w by auto
    then have "(case tr_child t f c of Some w \<Rightarrow> if w \<noteq> v then w else 0 | None \<Rightarrow> 0) = step_to t c f"
      by (auto simp: step_to_def split: option.splits)
    then have e: "ac_child t (node_of t s) (c, v) (fail, q) = Some (fail[v := step_to t c f], q @ [v])"
      using u fu f(1) vn y by (simp add: ac_child_def vget_def vset_def)
    have nv: "node_of t (s @ [c]) = v" using w by simp
    have "fail_ok t (fail[v := step_to t c f]) (s @ [c])" unfolding fail_ok_def nv using f(2) vn Cons by simp
    then show ?thesis
      unfolding e using Cons fail_ok_update [OF wf _ _ _, of _ "s @ [c]" fail "step_to t c f"] w by (auto simp: nv)
  qed
qed

definition children :: "common_trie \<Rightarrow> codepoint list \<Rightarrow> (codepoint \<times> nat) list" where
  "children t s = tn_children (tr_nodes t ! node_of t s)"

lemma children_iff:
  assumes "trie_wf t" "is_path t s"
  shows "(c, v) \<in> set (children t s) \<longleftrightarrow> tr_child t (node_of t s) c = Some v"
  using node_lt [OF assms] trie_wfD(5) [OF assms(1), of "tr_nodes t ! node_of t s"] by (simp add: children_def tr_child_def)

lemma children_wp:
  assumes wf: "trie_wf t" and p: "is_path t s" and l: "length fail = length (tr_nodes t)"
    and ok: "\<And>r. is_path t r \<Longrightarrow> r \<noteq> [] \<Longrightarrow> length r \<le> length s \<Longrightarrow> fail_ok t fail r"
    and z: "s = [] \<Longrightarrow> fail = replicate (length (tr_nodes t)) 0"
  shows "wp (foldM (ac_child t (node_of t s)) (children t s) (fail, q)) (\<lambda>(fail', q'). q' = q @ map snd (children t s) \<and> length fail' = length fail \<and>
    (\<forall>(c, v) \<in> set (children t s). fail_ok t fail' (s @ [c])) \<and>
    (\<forall>r. is_path t r \<longrightarrow> (\<forall>(c, v) \<in> set (children t s). r \<noteq> s @ [c]) \<longrightarrow> fail_ok t fail r \<longrightarrow> fail_ok t fail' r))"
proof (rule wp_foreach [where I = "\<lambda>ys (fail', q'). q' = q @ map snd ys \<and> length fail' = length fail \<and> (s = [] \<longrightarrow> fail' = fail) \<and>
    (\<forall>(c, v) \<in> set ys. fail_ok t fail' (s @ [c])) \<and>
    (\<forall>r. is_path t r \<longrightarrow> (\<forall>(c, v) \<in> set ys. r \<noteq> s @ [c]) \<longrightarrow> fail_ok t fail r \<longrightarrow> fail_ok t fail' r)"])
  fix ys y zs st
  assume xs: "children t s = ys @ y # zs" and I: "case st of (fail', q') \<Rightarrow> q' = q @ map snd ys \<and> length fail' = length fail \<and> (s = [] \<longrightarrow> fail' = fail) \<and>
    (\<forall>(c, v) \<in> set ys. fail_ok t fail' (s @ [c])) \<and>
    (\<forall>r. is_path t r \<longrightarrow> (\<forall>(c, v) \<in> set ys. r \<noteq> s @ [c]) \<longrightarrow> fail_ok t fail r \<longrightarrow> fail_ok t fail' r)"
  obtain f1 q1 where st: "st = (f1, q1)" by (cases st)
  obtain c v where y: "y = (c, v)" by (cases y)
  have ch: "(c', v') \<in> set (children t s) \<Longrightarrow> walk t 0 (s @ [c']) = Some v'" for c' v'
    using children_iff [OF wf p] p by (auto simp: walk_snoc)
  have v: "tr_child t (node_of t s) c = Some v" using children_iff [OF wf p, of c v] xs y by simp
  have d: "distinct (map fst (children t s))"
    using trie_wfD(5) [OF wf, of "tr_nodes t ! node_of t s"] node_lt [OF wf p] by (simp add: children_def)
  have I: "q1 = q @ map snd ys" "length f1 = length fail" "s = [] \<Longrightarrow> f1 = fail"
    "\<And>c v. (c, v) \<in> set ys \<Longrightarrow> fail_ok t f1 (s @ [c])"
    "\<And>r. is_path t r \<Longrightarrow> (\<forall>(c, v) \<in> set ys. r \<noteq> s @ [c]) \<Longrightarrow> fail_ok t fail r \<Longrightarrow> fail_ok t f1 r"
    using I by (auto simp: st)
  have ok1: "fail_ok t f1 r" if "is_path t r" "r \<noteq> []" "length r \<le> length s" for r
  proof (rule I(5) [OF that(1) _ ok [OF that]])
    show "\<forall>(c, v) \<in> set ys. r \<noteq> s @ [c]" using that(3) by auto
  qed
  have "wp (ac_child t (node_of t s) (c, v) (f1, q1)) (\<lambda>(fail', q'). q' = q1 @ [v] \<and> length fail' = length f1 \<and>
    fail_ok t fail' (s @ [c]) \<and> (\<forall>r. is_path t r \<longrightarrow> r \<noteq> s @ [c] \<longrightarrow> fail_ok t f1 r \<longrightarrow> fail_ok t fail' r) \<and> (s = [] \<longrightarrow> fail' = f1))"
    by (rule ac_child_wp [OF wf p v _ ok1]) (use I(2,3) l z in auto)
  then obtain f2 where 2: "ac_child t (node_of t s) (c, v) (f1, q1) = Some (f2, q1 @ [v])" "length f2 = length f1" "fail_ok t f2 (s @ [c])"
    "\<And>r. is_path t r \<Longrightarrow> r \<noteq> s @ [c] \<Longrightarrow> fail_ok t f1 r \<Longrightarrow> fail_ok t f2 r" "s = [] \<Longrightarrow> f2 = f1"
    by (auto simp: wp_def)
  have old: "fail_ok t f2 (s @ [c'])" if c': "(c', v') \<in> set ys" for c' v'
  proof (rule 2(4))
    show "is_path t (s @ [c'])" using ch [of c' v'] c' xs by simp
    show "s @ [c'] \<noteq> s @ [c]" using d c' xs y by auto (metis fst_conv image_eqI)
  qed (rule I(4) [OF c'])
  show "wp (ac_child t (node_of t s) y st) (\<lambda>(fail', q'). q' = q @ map snd (ys @ [y]) \<and> length fail' = length fail \<and> (s = [] \<longrightarrow> fail' = fail) \<and>
    (\<forall>(c, v) \<in> set (ys @ [y]). fail_ok t fail' (s @ [c])) \<and>
    (\<forall>r. is_path t r \<longrightarrow> (\<forall>(c, v) \<in> set (ys @ [y]). r \<noteq> s @ [c]) \<longrightarrow> fail_ok t fail r \<longrightarrow> fail_ok t fail' r))"
    unfolding st y 2(1) using 2(2-5) I old by auto
qed auto

text \<open>The queue \<open>Q\<close> and the processed nodes \<open>R\<close>, as words.\<close>

definition bfs_inv :: "common_trie \<Rightarrow> codepoint list list \<Rightarrow> nat list \<Rightarrow> codepoint list list \<Rightarrow> bool" where
  "bfs_inv t Q fail R = (length fail = length (tr_nodes t) \<and> (\<forall>r \<in> set (R @ Q). is_path t r) \<and> distinct (R @ Q) \<and>
     sorted (map length (R @ Q)) \<and> (\<forall>q \<in> set Q. length q \<le> Suc (length (hd Q))) \<and>
     (\<forall>r. is_path t r \<longrightarrow> r \<in> set R \<or> (\<exists>q \<in> set Q. \<exists>b. r = q @ b)) \<and>
     (\<forall>r \<in> set (R @ Q). r \<noteq> [] \<longrightarrow> fail_ok t fail r \<and> butlast r \<in> set R) \<and>
     (R = [] \<longrightarrow> Q = [[]] \<and> fail = replicate (length (tr_nodes t)) 0) \<and> (R \<noteq> [] \<longrightarrow> [] \<in> set R))"

lemma bfs_start: "trie_wf t \<Longrightarrow> bfs_inv t [[]] (replicate (length (tr_nodes t)) 0) []"
  by (simp add: bfs_inv_def)

lemma bfs_step:
  assumes wf: "trie_wf t" and I: "bfs_inv t (s # Q) fail R"
  shows "wp (foldM (ac_child t (node_of t s)) (children t s) (fail, map (node_of t) Q))
    (\<lambda>(fail', q'). \<exists>Q'. q' = map (node_of t) Q' \<and> bfs_inv t Q' fail' (R @ [s]))"
proof -
  have p: "is_path t s" and l: "length fail = length (tr_nodes t)" using I by (auto simp: bfs_inv_def)
  have dist: "distinct (R @ s # Q)" and srt: "sorted (map length (R @ s # Q))" and near: "\<forall>q \<in> set Q. length q \<le> Suc (length s)"
    and cover: "\<And>r. is_path t r \<Longrightarrow> r \<in> set R \<or> (\<exists>q \<in> set (s # Q). \<exists>b. r = q @ b)"
    and fo: "\<And>r. r \<in> set (R @ s # Q) \<Longrightarrow> r \<noteq> [] \<Longrightarrow> fail_ok t fail r \<and> butlast r \<in> set R"
    and paths: "\<And>r. r \<in> set (R @ s # Q) \<Longrightarrow> is_path t r"
    and e: "R = [] \<Longrightarrow> s = [] \<and> Q = [] \<and> fail = replicate (length (tr_nodes t)) 0" "R \<noteq> [] \<Longrightarrow> [] \<in> set R"
    using I by (auto simp: bfs_inv_def)
  have shorter: "r \<in> set (R @ s # Q)" if "is_path t r" "length r \<le> length s" for r
  proof -
    have "q = r" if "q \<in> set (s # Q)" "r = q @ b" for q b
    proof -
      have "length s \<le> length q" using that(1) srt by (auto simp: sorted_append)
      then show ?thesis using \<open>length r \<le> length s\<close> that(2) by (cases b) auto
    qed
    then show ?thesis using cover [OF that(1)] by (metis Un_iff set_append)
  qed
  let ?N = "map (\<lambda>(c, v). s @ [c]) (children t s)"
  have ch: "(c', v') \<in> set (children t s) \<longleftrightarrow> walk t 0 (s @ [c']) = Some v'" for c' v'
    using children_iff [OF wf p] p by (auto simp: walk_snoc)
  have nn: "map (node_of t) ?N = map snd (children t s)" using ch by auto
  have dk: "distinct (map fst (children t s))"
    using trie_wfD(5) [OF wf, of "tr_nodes t ! node_of t s"] node_lt [OF wf p] by (simp add: children_def)
  have new: "s @ [c] \<notin> set (R @ s # Q)" for c
    using fo [of "s @ [c]"] dist by auto
  have z: "s = [] \<Longrightarrow> fail = replicate (length (tr_nodes t)) 0" using e dist by (cases "R = []") auto
  have W: "wp (foldM (ac_child t (node_of t s)) (children t s) (fail, map (node_of t) Q)) (\<lambda>(fail', q'). q' = map (node_of t) Q @ map snd (children t s) \<and>
    length fail' = length fail \<and> (\<forall>(c, v) \<in> set (children t s). fail_ok t fail' (s @ [c])) \<and>
    (\<forall>r. is_path t r \<longrightarrow> (\<forall>(c, v) \<in> set (children t s). r \<noteq> s @ [c]) \<longrightarrow> fail_ok t fail r \<longrightarrow> fail_ok t fail' r))"
    by (rule children_wp [OF wf p l _ z]) (use fo shorter in blast)+
  obtain fail' q' where f0: "foldM (ac_child t (node_of t s)) (children t s) (fail, map (node_of t) Q) = Some (fail', q')"
    "q' = map (node_of t) Q @ map snd (children t s)" "length fail' = length fail" "\<forall>(c, v) \<in> set (children t s). fail_ok t fail' (s @ [c])"
    "\<forall>r. is_path t r \<longrightarrow> (\<forall>(c, v) \<in> set (children t s). r \<noteq> s @ [c]) \<longrightarrow> fail_ok t fail r \<longrightarrow> fail_ok t fail' r"
    using W unfolding wp_def by blast
  have f: "foldM (ac_child t (node_of t s)) (children t s) (fail, map (node_of t) Q) = Some (fail', map (node_of t) (Q @ ?N))"
    unfolding f0(1,2) map_append nn ..
  have f: "foldM (ac_child t (node_of t s)) (children t s) (fail, map (node_of t) Q) = Some (fail', map (node_of t) (Q @ ?N))"
    "length fail' = length fail" "\<And>c v. (c, v) \<in> set (children t s) \<Longrightarrow> fail_ok t fail' (s @ [c])"
    "\<And>r. is_path t r \<Longrightarrow> (\<forall>(c, v) \<in> set (children t s). r \<noteq> s @ [c]) \<Longrightarrow> fail_ok t fail r \<Longrightarrow> fail_ok t fail' r"
    using f f0(3-5) by blast+
  have "bfs_inv t (Q @ ?N) fail' (R @ [s])"
    unfolding bfs_inv_def
  proof (intro conjI)
    show "length fail' = length (tr_nodes t)" using f(2) l by simp
    show "\<forall>r \<in> set ((R @ [s]) @ Q @ ?N). is_path t r" using paths ch by auto
    have N: "?N = map (\<lambda>c. s @ [c]) (map fst (children t s))" by (simp add: case_prod_unfold comp_def)
    have "distinct (map (\<lambda>c. s @ [c]) (map fst (children t s)))"
      unfolding distinct_map [of "\<lambda>c. s @ [c]"] using dk by (simp add: inj_on_def)
    then have "distinct ?N" unfolding N .
    then show "distinct ((R @ [s]) @ Q @ ?N)" using dist new by auto
    show "sorted (map length ((R @ [s]) @ Q @ ?N))" using srt near by (auto simp: sorted_append comp_def case_prod_unfold map_replicate_const)
    show "\<forall>q \<in> set (Q @ ?N). length q \<le> Suc (length (hd (Q @ ?N)))"
    proof
      have b: "length s \<le> length q \<and> length q \<le> Suc (length s)" if "q \<in> set (Q @ ?N)" for q
        using that srt near by (auto simp: sorted_append)
      fix q assume q: "q \<in> set (Q @ ?N)"
      then have "hd (Q @ ?N) \<in> set (Q @ ?N)" by (intro hd_in_set) auto
      then show "length q \<le> Suc (length (hd (Q @ ?N)))" using b [OF q] b by fastforce
    qed
    show "\<forall>r. is_path t r \<longrightarrow> r \<in> set (R @ [s]) \<or> (\<exists>q \<in> set (Q @ ?N). \<exists>b. r = q @ b)"
    proof (intro allI impI)
      fix r assume r: "is_path t r"
      show "r \<in> set (R @ [s]) \<or> (\<exists>q \<in> set (Q @ ?N). \<exists>b. r = q @ b)"
      proof (cases "\<exists>c b. r = s @ c # b")
        case True
        then obtain c b where r': "r = (s @ [c]) @ b" by auto
        then obtain v where "walk t 0 (s @ [c]) = Some v" using path_prefix [of t "s @ [c]" b] r by auto
        then have "s @ [c] \<in> set ?N" using ch by force
        then show ?thesis using r' by (metis Un_iff set_append)
      next
        case False
        then have "r = s @ b \<Longrightarrow> r = s" for b by (cases b) auto
        then show ?thesis using cover [OF r] by auto
      qed
    qed
    show "\<forall>r \<in> set ((R @ [s]) @ Q @ ?N). r \<noteq> [] \<longrightarrow> fail_ok t fail' r \<and> butlast r \<in> set (R @ [s])"
    proof (intro ballI impI)
      fix r assume r: "r \<in> set ((R @ [s]) @ Q @ ?N)" "r \<noteq> []"
      show "fail_ok t fail' r \<and> butlast r \<in> set (R @ [s])"
      proof (cases "r \<in> set ?N")
        case True
        then show ?thesis using f(3) by auto
      next
        case False
        then have "r \<in> set (R @ s # Q)" using r by auto
        then show ?thesis using fo [of r] r(2) f(4) [OF paths, of r] new by auto
      qed
    qed
  qed (use e in auto)
  then show ?thesis unfolding f(1) wp_Some prod.case by blast
qed

lemma bfs_bound:
  assumes "trie_wf t" "bfs_inv t Q fail R"
  shows "length (R @ Q) \<le> length (tr_nodes t)"
proof -
  have d: "distinct (R @ Q)" "\<forall>r \<in> set (R @ Q). is_path t r" using assms(2) by (auto simp: bfs_inv_def)
  have "inj_on (node_of t) (set (R @ Q))" using d(2) node_inj [OF assms(1)] unfolding inj_on_def by blast
  then have "card (node_of t ` set (R @ Q)) = length (R @ Q)" using d(1) card_image distinct_card by metis
  moreover have "node_of t ` set (R @ Q) \<subseteq> {..<length (tr_nodes t)}" using d(2) node_lt [OF assms(1)] by blast
  ultimately show ?thesis using card_mono [of "{..<length (tr_nodes t)}" "node_of t ` set (R @ Q)"] by simp
qed

lemma bfs_wp:
  assumes wf: "trie_wf t" and I: "bfs_inv t Q fail R"
  shows "wp (ac_bfs t (map (node_of t) Q) fail (map (node_of t) R)) (\<lambda>(fail', order). \<exists>R'. order = map (node_of t) R' \<and> bfs_inv t [] fail' R')"
  using I
proof (induction "length (tr_nodes t) - length R" arbitrary: Q fail R rule: less_induct)
  case less
  show ?case
  proof (cases Q)
    case Nil
    then show ?thesis using less.prems by (subst ac_bfs.simps) auto
  next
    case (Cons s Q')
    have p: "is_path t s" using less.prems Cons by (simp add: bfs_inv_def)
    have dec: "length (tr_nodes t) - length (R @ [s]) < length (tr_nodes t) - length R"
      using bfs_bound [OF wf less.prems] Cons by simp
    have v: "vget (tr_nodes t) (node_of t s) = Some (tr_nodes t ! node_of t s)" using node_lt [OF wf p] by (simp add: vget_def)
    have st: "wp (foldM (ac_child t (node_of t s)) (tn_children (tr_nodes t ! node_of t s)) (fail, map (node_of t) Q'))
      (\<lambda>(fail', q'). \<exists>Q''. q' = map (node_of t) Q'' \<and> bfs_inv t Q'' fail' (R @ [s]))"
      using bfs_step [OF wf less.prems [unfolded Cons]] by (simp add: children_def)
    have "ac_bfs t (map (node_of t) Q) fail (map (node_of t) R) =
      Option.bind (foldM (ac_child t (node_of t s)) (tn_children (tr_nodes t ! node_of t s)) (fail, map (node_of t) Q'))
        (\<lambda>(fail, q). ac_bfs t q fail (map (node_of t) R @ [node_of t s]))"
      unfolding Cons by (subst ac_bfs.simps) (simp only: list.map list.case v bind.simps)
    then show ?thesis
      unfolding wp_bind
    proof (simp only: wp_bind)
      show "wp (foldM (ac_child t (node_of t s)) (tn_children (tr_nodes t ! node_of t s)) (fail, map (node_of t) Q'))
        (\<lambda>x. wp (case x of (fail, q) \<Rightarrow> ac_bfs t q fail (map (node_of t) R @ [node_of t s]))
          (\<lambda>(fail', order). \<exists>R'. order = map (node_of t) R' \<and> bfs_inv t [] fail' R'))"
      proof (rule wp_mono [OF st])
        fix x assume x: "case x of (fail', q') \<Rightarrow> \<exists>Q''. q' = map (node_of t) Q'' \<and> bfs_inv t Q'' fail' (R @ [s])"
        obtain f' Q'' where x': "x = (f', map (node_of t) Q'')" "bfs_inv t Q'' f' (R @ [s])" using x by (cases x) auto
        show "wp (case x of (fail, q) \<Rightarrow> ac_bfs t q fail (map (node_of t) R @ [node_of t s]))
          (\<lambda>(fail', order). \<exists>R'. order = map (node_of t) R' \<and> bfs_inv t [] fail' R')"
          using less.hyps [OF dec x'(2)] by (simp add: x'(1))
      qed
    qed
  qed
qed

section \<open>The match table\<close>

lemma longest_match_path:
  "is_path t s \<Longrightarrow> s \<noteq> [] \<Longrightarrow> longest_match t s = (if lookup t s \<ge> 0 then lookup t s else longest_match t (lsuf t (tl s)))"
  by (cases s) (simp_all add: longest_match_lsuf)

lemma match_wp:
  assumes wf: "trie_wf t" and I: "bfs_inv t [] fail R"
  shows "wp (foldM (ac_match_step t fail) (map (node_of t) R) (replicate (length (tr_nodes t)) (-1)))
    (\<lambda>m. length m = length (tr_nodes t) \<and> (\<forall>r. is_path t r \<longrightarrow> m ! node_of t r = longest_match t r))"
proof -
  have R: "length fail = length (tr_nodes t)" "\<And>r. r \<in> set R \<Longrightarrow> is_path t r" "distinct R" "sorted (map length R)"
    "\<And>r. is_path t r \<Longrightarrow> r \<in> set R" "\<And>r. r \<in> set R \<Longrightarrow> r \<noteq> [] \<Longrightarrow> fail_ok t fail r"
    using I by (auto simp: bfs_inv_def)
  show ?thesis
  proof (rule wp_foreach [where I = "\<lambda>ys m. length m = length (tr_nodes t) \<and> (\<forall>k < length ys. m ! node_of t (R ! k) = longest_match t (R ! k))"])
    fix ys y zs m
    assume e: "map (node_of t) R = ys @ y # zs" and I: "length m = length (tr_nodes t) \<and> (\<forall>k < length ys. m ! node_of t (R ! k) = longest_match t (R ! k))"
    let ?k = "length ys"
    have k: "?k < length R" using arg_cong [OF e, of length] by simp
    define s where "s = R ! ?k"
    have y: "y = node_of t s" using arg_cong [OF e, of "\<lambda>l. l ! ?k"] k by (simp add: s_def)
    have s: "s \<in> set R" "is_path t s" using k R(2) by (auto simp: s_def)
    have lt: "node_of t s < length (tr_nodes t)" by (rule node_lt [OF wf s(2)])
    have pat: "tr_pattern t (node_of t s) = lookup t s" using s(2) by (auto simp: lookup_def)
    have st: "ac_match_step t fail y m = Some (m[node_of t s := longest_match t s])"
    proof (cases "lookup t s \<ge> 0")
      case True
      then have "longest_match t s = lookup t s" by (cases s) auto
      then show ?thesis using True pat lt I by (simp add: ac_match_step_def y vset_def)
    next
      case no: False
      show ?thesis
      proof (cases "s = []")
        case True
        then have "lookup t s = -1" using no trie_wfD(6) [OF wf, of 0] by (auto simp: lookup_def)
        then show ?thesis using no pat lt I True by (simp add: ac_match_step_def y vset_def)
      next
        case False
        have u: "node_of t s \<noteq> 0" using node_inj [OF wf s(2), of "[]"] False by auto
        let ?r = "lsuf t (tl s)"
        have short: "length ?r < length s" using lsuf_length [of t "tl s"] False by (cases s) auto
        obtain j where j: "j < length R" "R ! j = ?r" using R(5) [OF lsuf_path, of "tl s"] by (auto simp: in_set_conv_nth)
        have "j < ?k"
        proof (rule ccontr)
          assume "\<not> j < ?k"
          then have "length s \<le> length ?r" using sorted_nth_mono [OF R(4), of ?k j] j k by (simp add: s_def)
          then show False using short by simp
        qed
        then have mj: "m ! node_of t ?r = longest_match t ?r" using I j(2) by auto
        have ff: "fail ! node_of t s = node_of t ?r" using R(6) [OF s(1) False] by (simp add: fail_ok_def)
        have rl: "node_of t ?r < length m" using node_lt [OF wf lsuf_path] I by simp
        have "ac_match_step t fail y m = Some (m[node_of t s := m ! node_of t ?r])"
          using no pat u lt I R(1) ff rl by (simp only: ac_match_step_def y vset_def vget_def bind.simps if_True if_False not_False_eq_True simp_thms)
        then show ?thesis using longest_match_path [OF s(2) False] no mj by simp
      qed
    qed
    have "\<forall>j < Suc ?k. m[node_of t s := longest_match t s] ! node_of t (R ! j) = longest_match t (R ! j)"
    proof (intro allI impI)
      fix j assume "j < Suc ?k"
      then have j: "j < ?k \<or> j = ?k" by auto
      then have "R ! j \<in> set R" using k by auto
      then show "m[node_of t s := longest_match t s] ! node_of t (R ! j) = longest_match t (R ! j)"
        using j I lt node_inj [OF wf s(2) R(2), of "R ! j"] by (auto simp: nth_list_update s_def)
    qed
    then show "wp (ac_match_step t fail y m) (\<lambda>m. length m = length (tr_nodes t) \<and>
      (\<forall>k < length (ys @ [y]). m ! node_of t (R ! k) = longest_match t (R ! k)))"
      unfolding st using I by simp
  next
    fix m assume m: "length m = length (tr_nodes t) \<and> (\<forall>k < length (map (node_of t) R). m ! node_of t (R ! k) = longest_match t (R ! k))"
    then show "length m = length (tr_nodes t) \<and> (\<forall>r. is_path t r \<longrightarrow> m ! node_of t r = longest_match t r)"
      using R(5) by (metis in_set_conv_nth length_map)
  qed simp
qed

section \<open>The automaton at work\<close>

definition ac_ok :: "aho_corasick \<Rightarrow> bool" where
  "ac_ok a = (let t = ac_t a in trie_wf t \<and> length (ac_fail a) = length (tr_nodes t) \<and> length (ac_match a) = length (tr_nodes t) \<and>
     (\<forall>r. is_path t r \<longrightarrow> r \<noteq> [] \<longrightarrow> fail_ok t (ac_fail a) r) \<and> (\<forall>r. is_path t r \<longrightarrow> ac_match a ! node_of t r = longest_match t r))"

lemma aho_corasick_new_wp:
  assumes wf: "trie_wf t"
  shows "wp (aho_corasick_new t) (\<lambda>a. ac_ok a \<and> ac_t a = t)"
proof -
  have "wp (ac_bfs t (map (node_of t) [[]]) (replicate (length (tr_nodes t)) 0) (map (node_of t) [])) (\<lambda>(fail', order). \<exists>R'. order = map (node_of t) R' \<and> bfs_inv t [] fail' R')"
    by (rule bfs_wp [OF wf bfs_start [OF wf]])
  then obtain fail R where b: "ac_bfs t [0] (replicate (length (tr_nodes t)) 0) [] = Some (fail, map (node_of t) R)" "bfs_inv t [] fail R"
    by (auto simp: wp_def)
  obtain m where m: "foldM (ac_match_step t fail) (map (node_of t) R) (replicate (length (tr_nodes t)) (-1)) = Some m"
    "length m = length (tr_nodes t)" "\<And>r. is_path t r \<Longrightarrow> m ! node_of t r = longest_match t r"
    using match_wp [OF wf b(2)] by (auto simp: wp_def)
  have "length fail = length (tr_nodes t)" "\<And>r. is_path t r \<Longrightarrow> r \<noteq> [] \<Longrightarrow> fail_ok t fail r"
    using b(2) by (auto simp: bfs_inv_def)
  then show ?thesis using m wf by (simp add: aho_corasick_new_def Let_def b(1) ac_ok_def)
qed

lemma ac_next_wp:
  assumes a: "ac_ok a" and p: "is_path (ac_t a) s"
  shows "ac_next a (node_of (ac_t a) s) c = Some (node_of (ac_t a) (lsuf (ac_t a) (s @ [c])))"
proof -
  have "wp (ac_follow (ac_t a) (ac_fail a) c (node_of (ac_t a) s)) (\<lambda>f. step_to (ac_t a) c f = node_of (ac_t a) (lsuf (ac_t a) (s @ [c])))"
    by (rule follow_wp [OF _ _ p]) (use a in \<open>auto simp: ac_ok_def Let_def\<close>)
  then show ?thesis by (auto simp: wp_def ac_next_def step_to_def)
qed

definition ac_run :: "aho_corasick \<Rightarrow> codepoint list \<Rightarrow> nat \<Rightarrow> nat option" where
  "ac_run a w = foldM (\<lambda>c s. ac_next a s c) w"

lemma foldM_Nil: "foldM f [] = Some"
  by (rule ext) simp

lemma ac_run_wp: "ac_ok a \<Longrightarrow> ac_run a w 0 = Some (node_of (ac_t a) (lsuf (ac_t a) w))"
proof (induction w rule: rev_induct)
  case (snoc c w)
  then have "ac_run a (w @ [c]) 0 = ac_next a (node_of (ac_t a) (lsuf (ac_t a) w)) c"
    by (simp add: ac_run_def foldM_append foldM_Nil del: option.collapse)
  also have "\<dots> = Some (node_of (ac_t a) (lsuf (ac_t a) (lsuf (ac_t a) w @ [c])))" by (rule ac_next_wp [OF snoc.prems lsuf_path])
  finally show ?case unfolding lsuf_snoc [of _ w c, symmetric] .
qed (simp add: ac_run_def)

lemma ac_match_wp:
  assumes "ac_ok a" shows "match_pattern a (node_of (ac_t a) (lsuf (ac_t a) w)) = Some (longest_match (ac_t a) w)"
proof -
  have "ac_match a ! node_of (ac_t a) (lsuf (ac_t a) w) = longest_match (ac_t a) (lsuf (ac_t a) w)"
    using assms lsuf_path unfolding ac_ok_def Let_def by blast
  then show ?thesis using assms node_lt [OF _ lsuf_path, of "ac_t a" w]
    by (simp add: ac_ok_def Let_def match_pattern_def vget_def longest_match_lsuf)
qed

text \<open>\<open>k\<close> is the index of the longest of the words \<open>ws\<close> that \<open>w\<close> ends with.\<close>

definition longest_word :: "codepoint list list \<Rightarrow> codepoint list \<Rightarrow> int \<Rightarrow> bool" where
  "longest_word ws w k = (if \<exists>p \<in> set ws. suffix p w
     then \<exists>i < length ws. k = int i \<and> suffix (ws ! i) w \<and> (\<forall>p \<in> set ws. suffix p w \<longrightarrow> length p \<le> length (ws ! i))
     else k = -1)"

lemma longest_match_word: "longest_word (firsts ws) w (longest_match (trie_of ws) w)"
proof (induction w)
  case Nil
  show ?case
  proof (cases "[] \<in> set ws")
    case True
    then obtain i where i: "i < length (firsts ws)" "firsts ws ! i = []" by (metis in_set_conv_nth set_firsts)
    then have "longest_match (trie_of ws) [] = int i" using trie_of_wp [of ws] by (metis longest_match.simps(1))
    then show ?thesis using i True by (auto simp: longest_word_def)
  next
    case False
    then have "longest_match (trie_of ws) [] = -1" using trie_of_wp [of ws] by simp
    then show ?thesis using False by (auto simp: longest_word_def)
  qed
next
  case (Cons c w)
  show ?case
  proof (cases "c # w \<in> set ws")
    case True
    then obtain i where i: "i < length (firsts ws)" "firsts ws ! i = c # w" by (metis in_set_conv_nth set_firsts)
    then have l: "lookup (trie_of ws) (c # w) = int i" using trie_of_wp [of ws] by metis
    have "suffix p (c # w) \<Longrightarrow> length p \<le> Suc (length w)" for p using suffix_length_le [of p "c # w"] by simp
    moreover have "\<exists>p \<in> set ws. suffix p (c # w)" using True by blast
    ultimately show ?thesis using i l by (auto simp: longest_word_def)
  next
    case False
    then have "lookup (trie_of ws) (c # w) = -1" using trie_of_wp [of ws] by blast
    moreover have P: "suffix p (c # w) \<longleftrightarrow> suffix p w" if "p \<in> set (firsts ws)" for p using that False by (auto simp: suffix_Cons)
    have "longest_word (firsts ws) (c # w) k = longest_word (firsts ws) w k" for k
      unfolding longest_word_def using P nth_mem [of _ "firsts ws"] by (simp del: set_firsts cong: bex_cong ball_cong conj_cong)
    ultimately show ?thesis using Cons.IH by simp
  qed
qed

text \<open>
  C24. The Aho-Corasick construction ends for every list of words, and after reading any text from the
  root state the table \<open>match\<close> names the longest of the words the text ends with, in the order of
  first insertion, or -1 when it ends with none.
\<close>

theorem aho_corasick_longest:
  "\<exists>a. aho_corasick_new (trie_of ws) = Some a \<and>
     (\<forall>w. \<exists>s k. ac_run a w 0 = Some s \<and> match_pattern a s = Some k \<and> longest_word (firsts ws) w k)"
proof -
  have wf: "trie_wf (trie_of ws)" using trie_of_wp by blast
  obtain a where a: "aho_corasick_new (trie_of ws) = Some a" "ac_ok a" "ac_t a = trie_of ws"
    using aho_corasick_new_wp [OF wf] by (auto simp: wp_def)
  then show ?thesis using ac_run_wp [OF a(2)] ac_match_wp [OF a(2)] longest_match_word [of ws] unfolding a(3) by blast
qed

section \<open>Matching at a position\<close>

lemma check_from_wp:
  "trie_wf t \<Longrightarrow> walk t 0 p = Some u \<Longrightarrow> check_from t s u pos = (let syms = symbols_from s pos in
     if \<exists>k. 0 < k \<and> k \<le> length syms \<and> lookup t (p @ take k syms) \<ge> 0 then COMPLETE_MATCH
     else if p @ syms \<noteq> [] \<and> is_path t (p @ syms) then PARTIAL_MATCH else NO_MATCH)"
proof (induction t s u pos arbitrary: p rule: check_from.induct)
  case (1 t s u pos)
  note wf = 1(2)
  let ?r = "parse_utf8_codepoint s pos"
  have u0: "u = 0 \<longleftrightarrow> p = []"
  proof
    assume "u = 0"
    then show "p = []" using node_zero [OF wf] 1(3) by blast
  qed (use 1(3) in simp)
  let ?found = "\<lambda>p syms. \<exists>k. 0 < k \<and> k \<le> length syms \<and> lookup t (p @ take k syms) \<ge> 0"
  show ?case
  proof (cases "pos < length s \<and> up_status ?r = SUCCESS")
    case False
    then have "symbols_from s pos = []" by (subst symbols_from.simps) auto
    then show ?thesis using False u0 1(3) by (subst check_from.simps) (auto simp: Let_def)
  next
    case True
    let ?c = "up_codepoint ?r" and ?rest = "symbols_from s (pos + up_bytes ?r)"
    have syms: "symbols_from s pos = ?c # ?rest" using True by (subst symbols_from.simps) (simp add: Let_def)
    have split: "?found p (?c # ?rest) \<longleftrightarrow> lookup t (p @ [?c]) \<ge> 0 \<or> ?found (p @ [?c]) ?rest"
    proof
      assume "?found p (?c # ?rest)"
      then obtain k where k: "0 < k" "k \<le> Suc (length ?rest)" "lookup t (p @ take k (?c # ?rest)) \<ge> 0" by auto
      then show "lookup t (p @ [?c]) \<ge> 0 \<or> ?found (p @ [?c]) ?rest" by (cases "k - 1") (auto simp: take_Cons' intro!: exI [of _ "k - 1"])
    next
      assume "lookup t (p @ [?c]) \<ge> 0 \<or> ?found (p @ [?c]) ?rest"
      then show "?found p (?c # ?rest)"
      proof
        assume "?found (p @ [?c]) ?rest"
        then obtain k where "0 < k" "k \<le> length ?rest" "lookup t ((p @ [?c]) @ take k ?rest) \<ge> 0" by blast
        then show ?thesis by (intro exI [of _ "Suc k"]) simp
      qed (auto intro!: exI [of _ 1])
    qed
    show ?thesis
    proof (cases "tr_child t u ?c")
      case None
      then have "\<not> is_path t (p @ [?c])" using 1(3) by (simp add: walk_snoc)
      then have np: "\<not> is_path t (p @ ?c # w)" for w using path_prefix [of t "p @ [?c]" w] by (metis append.assoc append_Cons append_Nil)
      have "\<not> ?found p (?c # ?rest)"
      proof
        assume "?found p (?c # ?rest)"
        then obtain k where k: "0 < k" "lookup t (p @ take k (?c # ?rest)) \<ge> 0" by blast
        then have "is_path t (p @ ?c # take (k - 1) ?rest)" using lookup_path [OF k(2)] by (simp add: take_Cons')
        then show False using np by blast
      qed
      then show ?thesis using None True np by (subst check_from.simps) (simp add: syms Let_def)
    next
      case (Some v)
      have w: "walk t 0 (p @ [?c]) = Some v" using 1(3) Some by (simp add: walk_snoc)
      then have lv: "lookup t (p @ [?c]) = tr_pattern t v" by (simp add: lookup_def)
      show ?thesis
      proof (cases "tr_pattern t v \<ge> 0")
        case yes: True
        then show ?thesis unfolding syms Let_def split using Some True lv by (subst check_from.simps) (simp add: Let_def)
      next
        case no: False
        have "check_from t s u pos = check_from t s v (pos + up_bytes ?r)" using Some True no by (subst check_from.simps) (simp add: Let_def)
        also have "\<dots> = (if ?found (p @ [?c]) ?rest then COMPLETE_MATCH
          else if (p @ [?c]) @ ?rest \<noteq> [] \<and> is_path t ((p @ [?c]) @ ?rest) then PARTIAL_MATCH else NO_MATCH)"
          using 1(1) [OF refl True Some no wf w] by (simp only: Let_def)
        finally have e: "check_from t s u pos = (if ?found (p @ [?c]) ?rest then COMPLETE_MATCH
          else if (p @ [?c]) @ ?rest \<noteq> [] \<and> is_path t ((p @ [?c]) @ ?rest) then PARTIAL_MATCH else NO_MATCH)" .
        have nl: "\<not> lookup t (p @ [?c]) \<ge> 0" using no lv by simp
        have ap: "(p @ [?c]) @ ?rest = p @ ?c # ?rest" by simp
        show ?thesis unfolding e syms Let_def split ap by (simp only: nl simp_thms)
      qed
    qed
  qed
qed

lemma lookup_words: "lookup (trie_of ws) p \<ge> 0 \<longleftrightarrow> p \<in> set ws"
proof (cases "p \<in> set ws")
  case True
  then obtain i where i: "i < length (firsts ws)" "firsts ws ! i = p" by (metis in_set_conv_nth set_firsts)
  then have "lookup (trie_of ws) p = int i" using trie_of_wp [of ws] by blast
  then show ?thesis using True by simp
qed (use trie_of_wp [of ws] in auto)

lemma symbols_path: "is_path (trie_of ws) w \<longleftrightarrow> w = [] \<or> (\<exists>p \<in> set ws. prefix w p)"
  unfolding trie_of_path by (metis append_eq_conv_conj prefix_def take_is_prefix)

text \<open>
  C25. \<open>check_at\<close> on a trie of words: with the code points of the input from the start position on (up
  to the first byte that starts none), the match is complete exactly when a non-empty prefix of them
  is one of the words, partial when all of them together are a proper beginning of a word, and there
  is no match otherwise.
\<close>

theorem check_at_prefixes:
  "check_at (trie_of ws) s start = (let syms = symbols_from s start in
     if \<exists>p \<in> set ws. p \<noteq> [] \<and> prefix p syms then COMPLETE_MATCH
     else if syms \<noteq> [] \<and> (\<exists>p \<in> set ws. prefix syms p) then PARTIAL_MATCH else NO_MATCH)"
proof -
  let ?syms = "symbols_from s start"
  have wf: "trie_wf (trie_of ws)" using trie_of_wp [of ws] by blast
  have "(\<exists>k. 0 < k \<and> k \<le> length ?syms \<and> take k ?syms \<in> set ws) \<longleftrightarrow> (\<exists>p \<in> set ws. p \<noteq> [] \<and> prefix p ?syms)"
  proof
    assume "\<exists>p \<in> set ws. p \<noteq> [] \<and> prefix p ?syms"
    then obtain p where p: "p \<in> set ws" "p \<noteq> []" "prefix p ?syms" by blast
    then have "take (length p) ?syms = p" "length p \<le> length ?syms" by (auto simp: prefix_def)
    then show "\<exists>k. 0 < k \<and> k \<le> length ?syms \<and> take k ?syms \<in> set ws" using p by (intro exI [of _ "length p"]) auto
  next
    assume "\<exists>k. 0 < k \<and> k \<le> length ?syms \<and> take k ?syms \<in> set ws"
    then obtain k where k: "0 < k" "k \<le> length ?syms" "take k ?syms \<in> set ws" by blast
    then show "\<exists>p \<in> set ws. p \<noteq> [] \<and> prefix p ?syms" by (intro bexI [OF _ k(3)]) (auto simp: take_is_prefix)
  qed
  then show ?thesis
    unfolding check_at_def using check_from_wp [OF wf, of "[]" 0 s start] by (simp add: lookup_words Let_def symbols_path [simplified])
qed

end
