(* ===== verification/ReasoningBudget.thy ===== *)
theory ReasoningBudget
  imports AhoCorasick
begin

text \<open>
  The reasoning budget sampler (\<open>common/reasoning-budget.cpp\<close>): a state machine that counts the
  tokens of a reasoning block and forces its end.  The text of a token, which the code asks the
  vocabulary for, is a parameter; a null vocabulary is \<open>None\<close>.
\<close>

section \<open>Token matcher\<close>

record token_matcher =
  tm_seqs :: "llama_token list list"
  tm_ac :: aho_corasick
  tm_state :: nat

definition collect :: "llama_token list list \<Rightarrow> llama_token list list" where
  "collect seqs = fold (\<lambda>s res. if s \<noteq> [] \<and> s \<notin> set res then res @ [s] else res) seqs []"

definition build_trie :: "llama_token list list \<Rightarrow> common_trie" where
  "build_trie seqs = fold (\<lambda>s t. snd (insert_symbols (map word_of_int s) t)) seqs trie_new"

definition tm_new :: "llama_token list list \<Rightarrow> token_matcher option" where
  "tm_new seqs = do {
     ac \<leftarrow> aho_corasick_new (build_trie (collect seqs));
     Some \<lparr>tm_seqs = collect seqs, tm_ac = ac, tm_state = 0\<rparr> }"

text \<open>The index of the longest sequence that ends at this token, or -1.\<close>

definition tm_advance :: "llama_token \<Rightarrow> token_matcher \<Rightarrow> (int \<times> token_matcher) option" where
  "tm_advance tok m = do {
     s \<leftarrow> ac_next (tm_ac m) (tm_state m) (word_of_int tok);
     p \<leftarrow> match_pattern (tm_ac m) s;
     Some (p, m\<lparr>tm_state := (if p \<ge> 0 then 0 else s)\<rparr>) }"

definition tm_reset :: "token_matcher \<Rightarrow> token_matcher" where
  "tm_reset m = m\<lparr>tm_state := 0\<rparr>"

section \<open>The sampler\<close>

datatype budget_state = REASONING_BUDGET_IDLE | REASONING_BUDGET_COUNTING | REASONING_BUDGET_FORCING | REASONING_BUDGET_WAITING_UTF8 | REASONING_BUDGET_DONE

record budget_ctx =
  rb_vocab :: "(llama_token \<Rightarrow> byte list) option"
  rb_start :: token_matcher
  rb_end :: token_matcher
  rb_forced :: "llama_token list"
  rb_budget :: int
  rb_remaining :: int
  rb_state :: budget_state
  rb_force_pos :: nat
  rb_end_match :: int

text \<open>A start sequence was read: \<open>COUNTING\<close>, or \<open>FORCING\<close> at once without a budget.\<close>

definition rb_activate :: "budget_ctx \<Rightarrow> budget_ctx" where
  "rb_activate c = (let c = c\<lparr>rb_state := REASONING_BUDGET_COUNTING, rb_remaining := rb_budget c\<rparr> in
     if rb_remaining c \<le> 0 then c\<lparr>rb_state := REASONING_BUDGET_FORCING, rb_force_pos := 0\<rparr> else c)"

definition rb_begin_force :: "budget_ctx \<Rightarrow> budget_ctx" where
  "rb_begin_force c = c\<lparr>rb_state := REASONING_BUDGET_FORCING, rb_force_pos := 0, rb_end := tm_reset (rb_end c)\<rparr>"

definition rb_utf8_complete :: "budget_ctx \<Rightarrow> llama_token \<Rightarrow> bool" where
  "rb_utf8_complete c tok = (case rb_vocab c of None \<Rightarrow> True | Some piece \<Rightarrow> utf8_is_complete (piece tok))"

definition rb_accept :: "llama_token \<Rightarrow> budget_ctx \<Rightarrow> budget_ctx option" where
  "rb_accept tok c = (case rb_state c of
     REASONING_BUDGET_IDLE \<Rightarrow> do {
       (p, m) \<leftarrow> tm_advance tok (rb_start c);
       let c = c\<lparr>rb_start := m\<rparr>;
       Some (if p \<ge> 0 then rb_activate c else c) }
   | REASONING_BUDGET_FORCING \<Rightarrow> do {
       (p, m) \<leftarrow> tm_advance tok (rb_end c);
       let c = c\<lparr>rb_end := m, rb_force_pos := rb_force_pos c + 1\<rparr>;
       Some (if p \<ge> 0 \<or> rb_force_pos c \<ge> length (rb_forced c) then c\<lparr>rb_state := REASONING_BUDGET_DONE, rb_end_match := p\<rparr> else c) }
   | REASONING_BUDGET_DONE \<Rightarrow> do {
       (p, m) \<leftarrow> tm_advance tok (rb_start c);
       let c = c\<lparr>rb_start := m\<rparr>;
       Some (if p \<ge> 0 then rb_activate (c\<lparr>rb_end := tm_reset (rb_end c), rb_end_match := -1\<rparr>) else c) }
   | _ \<Rightarrow> do {
       (p, m) \<leftarrow> tm_advance tok (rb_end c);
       let c = c\<lparr>rb_end := m\<rparr>;
       if p \<ge> 0 then Some (c\<lparr>rb_state := REASONING_BUDGET_DONE, rb_end_match := p\<rparr>)
       else if rb_state c = REASONING_BUDGET_WAITING_UTF8 then Some (if rb_utf8_complete c tok then rb_begin_force c else c)
       else do {
         r \<leftarrow> i32 (rb_remaining c - 1);
         let c = c\<lparr>rb_remaining := r\<rparr>;
         Some (if r \<le> 0
           then (if rb_utf8_complete c tok then rb_begin_force c
                 else c\<lparr>rb_state := REASONING_BUDGET_WAITING_UTF8, rb_end := tm_reset (rb_end c)\<rparr>)
           else c) } })"

text \<open>The candidates: token and logit, the logit as its bits.\<close>

definition neg_infinity :: "32 word" where
  "neg_infinity = 0xff800000"

definition rb_apply :: "budget_ctx \<Rightarrow> (llama_token \<times> 32 word) list \<Rightarrow> (llama_token \<times> 32 word) list" where
  "rb_apply c cur = (
     if rb_state c \<noteq> REASONING_BUDGET_FORCING then cur
     else if rb_force_pos c \<ge> length (rb_forced c) then cur
     else map (\<lambda>(i, l). (i, if i \<noteq> rb_forced c ! rb_force_pos c then neg_infinity else l)) cur)"

definition rb_reset :: "budget_ctx \<Rightarrow> budget_ctx" where
  "rb_reset c = c\<lparr>rb_state := REASONING_BUDGET_IDLE, rb_remaining := rb_budget c, rb_start := tm_reset (rb_start c),
     rb_end := tm_reset (rb_end c), rb_force_pos := 0, rb_end_match := -1\<rparr>"

definition rb_init :: "(llama_token \<Rightarrow> byte list) option \<Rightarrow> llama_token list list \<Rightarrow> llama_token list list \<Rightarrow> llama_token list \<Rightarrow>
    int \<Rightarrow> budget_state \<Rightarrow> budget_ctx option" where
  "rb_init vocab starts ends forced budget st = do {
     s \<leftarrow> tm_new starts;
     e \<leftarrow> tm_new ends;
     Some \<lparr>rb_vocab = vocab, rb_start = s, rb_end = e, rb_forced = forced, rb_budget = budget, rb_remaining = budget,
       rb_state = (if st = REASONING_BUDGET_COUNTING \<and> budget \<le> 0 then REASONING_BUDGET_FORCING else st), rb_force_pos = 0, rb_end_match = -1\<rparr> }"

definition rb_get_end_match :: "budget_ctx option \<Rightarrow> llama_token list option" where
  "rb_get_end_match s = (case s of None \<Rightarrow> None
     | Some c \<Rightarrow> if rb_end_match c < 0 then None else vget (tm_seqs (rb_end c)) (nat (rb_end_match c)))"

definition rb_get_state :: "budget_ctx option \<Rightarrow> budget_state" where
  "rb_get_state s = (case s of None \<Rightarrow> REASONING_BUDGET_IDLE | Some c \<Rightarrow> rb_state c)"

definition rb_force :: "budget_ctx \<Rightarrow> bool \<times> budget_ctx" where
  "rb_force c = (if rb_state c \<noteq> REASONING_BUDGET_COUNTING then (False, c) else (True, rb_begin_force c))"

end
