(* ===== verification/BudgetProps.thy ===== *)
theory BudgetProps
  imports ReasoningBudget
begin

text \<open>
  The reasoning budget sampler activates on the first start sequence, leaves the reasoning block
  within the budget, and forces the end sequence token by token.
\<close>

section \<open>The matcher\<close>

text \<open>Tokens are 32-bit: casting them to the symbols of the automaton loses nothing.\<close>

lemma token_inj: "in_i32 x \<Longrightarrow> in_i32 y \<Longrightarrow> (word_of_int x :: 32 word) = word_of_int y \<Longrightarrow> x = y"
proof -
  assume r: "in_i32 x" "in_i32 y" and e: "(word_of_int x :: 32 word) = word_of_int y"
  have "x mod 2 ^ 32 = y mod 2 ^ 32" using e by (simp add: word_of_int_eq_iff take_bit_eq_mod)
  then have "(2 ^ 32 :: int) dvd x - y" by (simp add: mod_eq_dvd_iff)
  then obtain k where k: "x - y = 2 ^ 32 * k" by (elim dvdE)
  have "- (2 ^ 32) < x - y" "x - y < 2 ^ 32" using r by (auto simp: in_i32_def)
  then have "k = 0" using k by (cases k "0 :: int" rule: linorder_cases) auto
  then show "x = y" using k by simp
qed

abbreviation sym :: "llama_token list \<Rightarrow> codepoint list" where
  "sym w \<equiv> map word_of_int w"

lemma sym_inj: "\<forall>x \<in> set a. in_i32 x \<Longrightarrow> \<forall>x \<in> set b. in_i32 x \<Longrightarrow> sym a = sym b \<longleftrightarrow> a = b"
  by (rule inj_on_map_eq_map) (auto simp: inj_on_def intro: token_inj)

lemma suffix_sym:
  assumes "\<forall>x \<in> set p. in_i32 x" "\<forall>x \<in> set w. in_i32 x"
  shows "suffix (sym p) (sym w) \<longleftrightarrow> suffix p w"
proof
  assume "suffix (sym p) (sym w)"
  then obtain zs where "sym w = zs @ sym p" by (auto simp: suffix_def)
  then obtain a b where w: "w = a @ b" "sym b = sym p" by (metis map_eq_append_conv)
  then have "b = p" using sym_inj [of b p] assms by simp
  then show "suffix p w" using w by (simp add: suffix_def)
qed (auto simp: suffix_def)

text \<open>\<open>m\<close> has read the tokens \<open>w\<close> since its last reset or match.\<close>

definition tm_ok :: "token_matcher \<Rightarrow> llama_token list \<Rightarrow> bool" where
  "tm_ok m w = (ac_ok (tm_ac m) \<and> ac_t (tm_ac m) = trie_of (map sym (tm_seqs m)) \<and> distinct (tm_seqs m) \<and> [] \<notin> set (tm_seqs m) \<and>
     (\<forall>s \<in> set (tm_seqs m). \<forall>x \<in> set s. in_i32 x) \<and> (\<forall>x \<in> set w. in_i32 x) \<and>
     tm_state m = node_of (ac_t (tm_ac m)) (lsuf (ac_t (tm_ac m)) (sym w)))"

definition ends_in :: "llama_token list list \<Rightarrow> llama_token list \<Rightarrow> bool" where
  "ends_in seqs w = (\<exists>p \<in> set seqs. p \<noteq> [] \<and> suffix p w)"

lemma longest_word_sym:
  assumes L: "longest_word (map sym seqs) (sym v) k" and ne: "[] \<notin> set seqs" and "\<forall>s \<in> set seqs. \<forall>x \<in> set s. in_i32 x" "\<forall>x \<in> set v. in_i32 x"
  shows "if ends_in seqs v then \<exists>i < length seqs. k = int i \<and> suffix (seqs ! i) v \<and> (\<forall>q \<in> set seqs. suffix q v \<longrightarrow> length q \<le> length (seqs ! i))
    else k = -1"
proof -
  have sf: "suffix (sym q) (sym v) \<longleftrightarrow> suffix q v" if "q \<in> set seqs" for q using suffix_sym assms(3,4) that by blast
  then have ex: "(\<exists>p \<in> set (map sym seqs). suffix p (sym v)) \<longleftrightarrow> ends_in seqs v" using ne unfolding ends_in_def by auto (metis)
  show ?thesis
  proof (cases "ends_in seqs v")
    case True
    then obtain i where i: "i < length seqs" "k = int i" "suffix (sym (seqs ! i)) (sym v)"
      "\<forall>p \<in> set (map sym seqs). suffix p (sym v) \<longrightarrow> length p \<le> length (sym (seqs ! i))"
      using L unfolding longest_word_def ex by auto
    then have "suffix (seqs ! i) v" "\<forall>q \<in> set seqs. suffix q v \<longrightarrow> length q \<le> length (seqs ! i)" using sf by auto
    then show ?thesis using True i(1,2) by auto
  qed (use L ex in \<open>simp add: longest_word_def\<close>)
qed

lemma tm_advance_wp:
  assumes m: "tm_ok m w" and t: "in_i32 tok"
  shows "wp (tm_advance tok m) (\<lambda>(p, m'). tm_seqs m' = tm_seqs m \<and> -1 \<le> p \<and> (p \<ge> 0 \<longleftrightarrow> ends_in (tm_seqs m) (w @ [tok])) \<and>
    tm_ok m' (if p \<ge> 0 then [] else w @ [tok]) \<and>
    (p \<ge> 0 \<longrightarrow> nat p < length (tm_seqs m) \<and> suffix (tm_seqs m ! nat p) (w @ [tok]) \<and>
       (\<forall>q \<in> set (tm_seqs m). suffix q (w @ [tok]) \<longrightarrow> length q \<le> length (tm_seqs m ! nat p))))"
proof -
  let ?a = "tm_ac m" and ?t = "ac_t (tm_ac m)" and ?seqs = "tm_seqs m"
  have a: "ac_ok ?a" "?t = trie_of (map sym ?seqs)" "distinct ?seqs" "\<forall>s \<in> set ?seqs. \<forall>x \<in> set s. in_i32 x" "\<forall>x \<in> set w. in_i32 x"
    "tm_state m = node_of ?t (lsuf ?t (sym w))"
    using m by (simp_all add: tm_ok_def)
  have wt: "\<forall>x \<in> set (w @ [tok]). in_i32 x" using a(5) t by simp
  let ?s = "node_of ?t (lsuf ?t (sym (w @ [tok])))" and ?p = "longest_match ?t (sym (w @ [tok]))"
  have n: "ac_next ?a (tm_state m) (word_of_int tok) = Some ?s"
    using ac_next_wp [OF a(1) lsuf_path, of "sym w" "word_of_int tok"] lsuf_snoc [of ?t "sym w" "word_of_int tok"] a(6) by simp
  have p: "match_pattern ?a ?s = Some ?p" by (rule ac_match_wp [OF a(1)])
  have "inj_on sym (set ?seqs)" using a(4) sym_inj by (auto simp: inj_on_def)
  then have "distinct (map sym ?seqs)" using a(3) by (simp add: distinct_map)
  then have L: "longest_word (map sym ?seqs) (sym (w @ [tok])) ?p"
    using longest_match_word [of "map sym ?seqs" "sym (w @ [tok])"] a(2) by (simp add: firsts_distinct)
  have ne: "[] \<notin> set ?seqs" using m by (simp add: tm_ok_def)
  note L = longest_word_sym [OF L ne a(4) wt]
  show ?thesis
    unfolding tm_advance_def n p bind.simps wp_Some prod.case
    using L m wt by (auto simp: tm_ok_def split: if_splits)
qed


lemma collect_wp: "distinct (collect seqs) \<and> set (collect seqs) = set seqs - {[]}"
proof (induction seqs rule: rev_induct)
  case (snoc s seqs)
  then show ?case by (auto simp: collect_def)
qed (simp add: collect_def)

lemma build_trie_of: "build_trie seqs = trie_of (map sym seqs)"
  by (simp add: build_trie_def trie_of_def fold_map comp_def)

lemma tm_new_wp:
  assumes "\<forall>s \<in> set seqs. \<forall>x \<in> set s. in_i32 x"
  shows "wp (tm_new seqs) (\<lambda>m. tm_ok m [] \<and> tm_seqs m = collect seqs \<and> tm_state m = 0)"
proof -
  have wf: "trie_wf (trie_of (map sym (collect seqs)))" using trie_of_wp by blast
  have cs: "\<forall>s \<in> set (collect seqs). \<forall>x \<in> set s. in_i32 x" using assms collect_wp by auto
  have "wp (aho_corasick_new (build_trie (collect seqs))) (\<lambda>a. ac_ok a \<and> ac_t a = trie_of (map sym (collect seqs)))"
    unfolding build_trie_of by (rule aho_corasick_new_wp [OF wf])
  then show ?thesis
    unfolding tm_new_def wp_bind
  proof (rule wp_mono)
    fix a assume a: "ac_ok a \<and> ac_t a = trie_of (map sym (collect seqs))"
    show "wp (Some \<lparr>tm_seqs = collect seqs, tm_ac = a, tm_state = 0\<rparr>) (\<lambda>m. tm_ok m [] \<and> tm_seqs m = collect seqs \<and> tm_state m = 0)"
      using a cs collect_wp [of seqs] by (simp add: tm_ok_def)
  qed
qed

lemma tm_reset_ok: "tm_ok m w \<Longrightarrow> tm_ok (tm_reset m) []"
  by (simp add: tm_ok_def tm_reset_def)

lemma tm_reset_seqs [simp]: "tm_seqs (tm_reset m) = tm_seqs m" "tm_state (tm_reset m) = 0"
  by (simp_all add: tm_reset_def)

lemma tm_zero: "tm_ok m w \<Longrightarrow> tm_state m = 0 \<Longrightarrow> tm_ok m []"
  by (simp add: tm_ok_def)

lemma ends_in_collect [simp]: "ends_in (collect seqs) w = ends_in seqs w"
  using collect_wp [of seqs] by (auto simp: ends_in_def)

section \<open>Reachable samplers\<close>

inductive rb_reach :: "(llama_token \<Rightarrow> byte list) option \<Rightarrow> llama_token list list \<Rightarrow> llama_token list list \<Rightarrow> llama_token list \<Rightarrow>
    int \<Rightarrow> budget_ctx \<Rightarrow> bool"
  for vocab :: "(llama_token \<Rightarrow> byte list) option" and starts ends :: "llama_token list list" and forced :: "llama_token list" and budget :: int where
  init: "\<forall>s \<in> set (starts @ ends). \<forall>x \<in> set s. in_i32 x \<Longrightarrow> in_i32 budget \<Longrightarrow>
    rb_init vocab starts ends forced budget st = Some c \<Longrightarrow> rb_reach vocab starts ends forced budget c"
| accept: "rb_reach vocab starts ends forced budget c \<Longrightarrow> in_i32 tok \<Longrightarrow> rb_accept tok c = Some c' \<Longrightarrow> rb_reach vocab starts ends forced budget c'"
| reset: "rb_reach vocab starts ends forced budget c \<Longrightarrow> rb_reach vocab starts ends forced budget (rb_reset c)"
| force: "rb_reach vocab starts ends forced budget c \<Longrightarrow> rb_reach vocab starts ends forced budget (snd (rb_force c))"

text \<open>The invariant: which matchers are reset in which state, and a counting sampler has tokens left.\<close>

definition rb_inv :: "budget_ctx \<Rightarrow> bool" where
  "rb_inv c = (
     (\<exists>w. tm_ok (rb_start c) w \<and> (rb_state c \<notin> {REASONING_BUDGET_IDLE, REASONING_BUDGET_DONE} \<longrightarrow> w = [])) \<and>
     (\<exists>w. tm_ok (rb_end c) w \<and> (rb_state c = REASONING_BUDGET_IDLE \<or> rb_state c = REASONING_BUDGET_FORCING \<and> rb_force_pos c = 0 \<longrightarrow> w = [])) \<and>
     in_i32 (rb_remaining c) \<and> in_i32 (rb_budget c) \<and> (rb_state c = REASONING_BUDGET_COUNTING \<longrightarrow> 0 < rb_remaining c))"

definition rb_config :: "budget_ctx \<Rightarrow> (llama_token \<Rightarrow> byte list) option \<times> llama_token list list \<times> llama_token list list \<times> llama_token list \<times> int" where
  "rb_config c = (rb_vocab c, tm_seqs (rb_start c), tm_seqs (rb_end c), rb_forced c, rb_budget c)"


lemma rb_begin_force_simps [simp]:
  "rb_vocab (rb_begin_force c) = rb_vocab c" "rb_start (rb_begin_force c) = rb_start c" "rb_end (rb_begin_force c) = tm_reset (rb_end c)"
  "rb_forced (rb_begin_force c) = rb_forced c" "rb_budget (rb_begin_force c) = rb_budget c" "rb_remaining (rb_begin_force c) = rb_remaining c"
  "rb_state (rb_begin_force c) = REASONING_BUDGET_FORCING" "rb_force_pos (rb_begin_force c) = 0"
  by (simp_all add: rb_begin_force_def)

lemma rb_activate_simps [simp]:
  "rb_vocab (rb_activate c) = rb_vocab c" "rb_start (rb_activate c) = rb_start c" "rb_end (rb_activate c) = rb_end c"
  "rb_forced (rb_activate c) = rb_forced c" "rb_budget (rb_activate c) = rb_budget c" "rb_remaining (rb_activate c) = rb_budget c"
  "rb_state (rb_activate c) = (if 0 < rb_budget c then REASONING_BUDGET_COUNTING else REASONING_BUDGET_FORCING)"
  by (simp_all add: rb_activate_def Let_def)

lemma start_wp:
  assumes m: "tm_ok (rb_start c) w" and t: "in_i32 tok" and s: "rb_state c \<in> {REASONING_BUDGET_IDLE, REASONING_BUDGET_DONE}" and e: "tm_ok (rb_end c) v"
    and i: "rb_state c = REASONING_BUDGET_IDLE \<Longrightarrow> v = []" and b: "in_i32 (rb_budget c)" "in_i32 (rb_remaining c)"
  shows "wp (rb_accept tok c) (\<lambda>c'. rb_inv c' \<and> rb_config c' = rb_config c \<and>
    (if ends_in (tm_seqs (rb_start c)) (w @ [tok])
     then rb_remaining c' = rb_budget c \<and> rb_state c' = (if 0 < rb_budget c then REASONING_BUDGET_COUNTING else REASONING_BUDGET_FORCING)
     else rb_state c' = rb_state c \<and> tm_ok (rb_start c') (w @ [tok])))"
proof -
  obtain p m' where a: "tm_advance tok (rb_start c) = Some (p, m')" and p: "p \<ge> 0 \<longleftrightarrow> ends_in (tm_seqs (rb_start c)) (w @ [tok])"
    "tm_ok m' (if p \<ge> 0 then [] else w @ [tok])" and q: "tm_seqs m' = tm_seqs (rb_start c)"
    using tm_advance_wp [OF m t] unfolding wp_def by auto
  show ?thesis
    using s a p q e i b tm_reset_ok [OF e]
    by (cases "p \<ge> 0") (auto simp: rb_accept_def rb_inv_def rb_config_def Let_def)
qed

text \<open>The bound on the tokens that are still accepted inside the block.\<close>

definition rb_bound :: "budget_ctx \<Rightarrow> nat" where
  "rb_bound c = (case rb_state c of
     REASONING_BUDGET_COUNTING \<Rightarrow> nat (rb_remaining c) + max 1 (length (rb_forced c))
   | REASONING_BUDGET_WAITING_UTF8 \<Rightarrow> 1 + max 1 (length (rb_forced c))
   | REASONING_BUDGET_FORCING \<Rightarrow> max 1 (length (rb_forced c) - rb_force_pos c)
   | _ \<Rightarrow> 0)"

abbreviation in_block :: "budget_ctx \<Rightarrow> bool" where
  "in_block c \<equiv> rb_state c \<notin> {REASONING_BUDGET_IDLE, REASONING_BUDGET_DONE}"

lemma block_wp:
  assumes i: "rb_inv c" and t: "in_i32 tok" and s: "in_block c"
  shows "wp (rb_accept tok c) (\<lambda>c'. rb_inv c' \<and> rb_config c' = rb_config c \<and> (rb_state c' = REASONING_BUDGET_DONE \<or>
    in_block c' \<and> rb_bound c' + (if rb_utf8_complete c tok then 1 else 0) \<le> rb_bound c))"
proof -
  obtain w v where w: "tm_ok (rb_start c) []" "tm_ok (rb_end c) v" "rb_state c = REASONING_BUDGET_FORCING \<and> rb_force_pos c = 0 \<longrightarrow> v = []"
    using i s unfolding rb_inv_def by auto
  obtain p m' where a: "tm_advance tok (rb_end c) = Some (p, m')" and p: "tm_ok m' (if p \<ge> 0 then [] else v @ [tok])" and q: "tm_seqs m' = tm_seqs (rb_end c)"
    using tm_advance_wp [OF w(2) t] unfolding wp_def by auto
  have mx: "in_i32 (rb_remaining c - 1)" if "0 < rb_remaining c" using i that by (simp add: rb_inv_def in_i32_def)
  note facts = w a p q mx i [unfolded rb_inv_def] tm_reset_ok [OF p]
  consider "rb_state c = REASONING_BUDGET_COUNTING" | "rb_state c = REASONING_BUDGET_WAITING_UTF8" | "rb_state c = REASONING_BUDGET_FORCING"
    using s by (cases "rb_state c") auto
  then show ?thesis
  proof cases
    case 1
    then show ?thesis using facts
      by (cases "p \<ge> 0"; cases "rb_remaining c \<le> 1"; cases "rb_utf8_complete c tok")
        (auto simp: rb_accept_def rb_inv_def rb_config_def rb_bound_def rb_utf8_complete_def Let_def wp_simps split: option.splits)
  next
    case 2
    then show ?thesis using facts
      by (cases "p \<ge> 0"; cases "rb_utf8_complete c tok")
        (auto simp: rb_accept_def rb_inv_def rb_config_def rb_bound_def rb_utf8_complete_def Let_def wp_simps split: option.splits)
  next
    case 3
    then show ?thesis using facts
      by (cases "p \<ge> 0"; cases "rb_force_pos c + 1 \<ge> length (rb_forced c)")
        (auto simp: rb_accept_def rb_inv_def rb_config_def rb_bound_def Let_def wp_simps)
  qed
qed


lemma accept_wp:
  assumes i: "rb_inv c" and t: "in_i32 tok"
  shows "wp (rb_accept tok c) (\<lambda>c'. rb_inv c' \<and> rb_config c' = rb_config c)"
proof (cases "in_block c")
  case True
  show ?thesis by (rule wp_mono [OF block_wp [OF i t True]]) blast
next
  case False
  obtain w v where w: "tm_ok (rb_start c) w" "tm_ok (rb_end c) v" "rb_state c = REASONING_BUDGET_IDLE \<Longrightarrow> v = []"
    using i unfolding rb_inv_def by auto
  show ?thesis
    by (rule wp_mono [OF start_wp [OF w(1) t _ w(2,3)]]) (use False i in \<open>auto simp: rb_inv_def\<close>)
qed

lemma init_wp:
  assumes "\<forall>s \<in> set (starts @ ends). \<forall>x \<in> set s. in_i32 x" "in_i32 budget"
  shows "wp (rb_init vocab starts ends forced budget st) (\<lambda>c. rb_inv c \<and>
    rb_config c = (vocab, collect starts, collect ends, forced, budget) \<and> rb_remaining c = budget \<and> rb_force_pos c = 0 \<and>
    tm_state (rb_start c) = 0 \<and>
    rb_state c = (if st = REASONING_BUDGET_COUNTING \<and> budget \<le> 0 then REASONING_BUDGET_FORCING else st))"
proof -
  obtain s e where s: "tm_new starts = Some s" "tm_ok s []" "tm_seqs s = collect starts" "tm_state s = 0"
    and e: "tm_new ends = Some e" "tm_ok e []" "tm_seqs e = collect ends"
    using tm_new_wp [of starts] tm_new_wp [of ends] assms(1) unfolding wp_def by auto
  show ?thesis using s e assms(2) by (auto simp: rb_init_def rb_inv_def rb_config_def)
qed

lemma reach_inv:
  "rb_reach vocab starts ends forced budget c \<Longrightarrow> rb_inv c \<and> rb_config c = (vocab, collect starts, collect ends, forced, budget)"
proof (induction rule: rb_reach.induct)
  case (init st c)
  then show ?case using wpD [OF init_wp [OF init(1,2)]] by blast
next
  case (accept c tok c')
  then show ?case using wpD [OF accept_wp, of c tok c'] by simp
next
  case (reset c)
  then obtain w v where "tm_ok (rb_start c) w" "tm_ok (rb_end c) v" unfolding rb_inv_def by blast
  then show ?case using reset tm_reset_ok by (fastforce simp: rb_inv_def rb_reset_def rb_config_def)
next
  case (force c)
  then obtain w v where "tm_ok (rb_start c) w" "tm_ok (rb_end c) v" "in_block c \<Longrightarrow> w = []" unfolding rb_inv_def by blast
  then show ?case using force tm_reset_ok by (fastforce simp: rb_inv_def rb_force_def rb_config_def)
qed

section \<open>Leaving the block\<close>

lemma foldM_take_Suc: "f x s = Some t \<Longrightarrow> foldM f (take (Suc k) (x # xs)) s = foldM f (take k xs) t"
  by simp

lemma block_ends:
  "rb_inv c \<Longrightarrow> in_block c \<Longrightarrow> \<forall>t \<in> set ts. in_i32 t \<Longrightarrow> rb_bound c \<le> length (filter (rb_utf8_complete c) ts) \<Longrightarrow>
   \<exists>k \<le> length ts. wp (foldM rb_accept (take k ts) c) (\<lambda>c'. rb_state c' = REASONING_BUDGET_DONE)"
proof (induction ts arbitrary: c)
  case Nil
  then show ?case by (cases "rb_state c") (auto simp: rb_bound_def)
next
  case (Cons t ts)
  obtain c' where c': "rb_accept t c = Some c'" "rb_inv c'" "rb_config c' = rb_config c"
    "rb_state c' = REASONING_BUDGET_DONE \<or> in_block c' \<and> rb_bound c' + (if rb_utf8_complete c t then 1 else 0) \<le> rb_bound c"
    using block_wp [OF Cons.prems(1) _ Cons.prems(2), of t] Cons.prems(3) unfolding wp_def by auto
  have u: "rb_utf8_complete c' = rb_utf8_complete c" using c'(3) by (auto simp: rb_config_def rb_utf8_complete_def)
  show ?case
  proof (cases "rb_state c' = REASONING_BUDGET_DONE")
    case True
    then show ?thesis using c'(1) by (intro exI [of _ 1]) simp
  next
    case False
    then have "in_block c'" "rb_bound c' \<le> length (filter (rb_utf8_complete c') ts)"
      using c'(4) Cons.prems(4) u by (auto split: if_splits)
    then obtain k where "k \<le> length ts" "wp (foldM rb_accept (take k ts) c') (\<lambda>c'. rb_state c' = REASONING_BUDGET_DONE)"
      using Cons.IH [OF c'(2)] Cons.prems(3) by auto
    then show ?thesis using foldM_take_Suc [of rb_accept t c c' k ts] c'(1) by (intro exI [of _ "Suc k"]) simp
  qed
qed

text \<open>
  C26. The reasoning block ends, with an exact bound per state on the accepted tokens whose text is
  complete UTF-8: a counting sampler reaches \<open>DONE\<close> within the remaining budget plus the length of the
  forced sequence, a sampler that waits for the end of a character within one token plus that length,
  and a forcing one within the rest of the forced sequence; an empty forced sequence counts as one
  token.  Tokens whose text is incomplete come on top, as the code waits for them once the budget is
  used up.  No call fails on the way.
\<close>

theorem budget_ends_block:
  assumes "rb_reach vocab starts ends forced budget c"
    and "rb_state c \<in> {REASONING_BUDGET_COUNTING, REASONING_BUDGET_WAITING_UTF8, REASONING_BUDGET_FORCING}"
    and "\<forall>t \<in> set ts. in_i32 t"
    and "length (filter (rb_utf8_complete c) ts) \<ge> (case rb_state c of
      REASONING_BUDGET_COUNTING \<Rightarrow> nat (rb_remaining c) + max 1 (length forced)
    | REASONING_BUDGET_WAITING_UTF8 \<Rightarrow> 1 + max 1 (length forced)
    | _ \<Rightarrow> max 1 (length forced - rb_force_pos c))"
  shows "\<exists>k \<le> length ts. wp (foldM rb_accept (take k ts) c) (\<lambda>c'. rb_state c' = REASONING_BUDGET_DONE)"
proof (rule block_ends [OF _ _ assms(3)])
  show "rb_inv c" "in_block c" using reach_inv [OF assms(1)] assms(2) by auto
  have "rb_forced c = forced" using reach_inv [OF assms(1)] by (simp add: rb_config_def)
  then show "rb_bound c \<le> length (filter (rb_utf8_complete c) ts)"
    using assms(2,4) by (auto simp: rb_bound_def)
qed

theorem budget_ends_block_witness:
  "wp (rb_init None [[1]] [[2]] [7, 8] 2 REASONING_BUDGET_COUNTING) (\<lambda>c. \<exists>k \<le> length [3, 4, 5, 6 :: int].
     wp (foldM rb_accept (take k [3, 4, 5, 6]) c) (\<lambda>c'. rb_state c' = REASONING_BUDGET_DONE))"
proof -
  let ?i = "rb_init None [[1]] [[2]] [7, 8] 2 REASONING_BUDGET_COUNTING"
  have v: "\<forall>s \<in> set ([[1]] @ [[2 :: int]]). \<forall>x \<in> set s. in_i32 x" "in_i32 2" by (simp_all add: in_i32_def)
  obtain c where c: "?i = Some c" "rb_config c = (None, collect [[1]], collect [[2]], [7, 8], 2)" "rb_remaining c = 2"
    "rb_state c = REASONING_BUDGET_COUNTING" by (rule wpE [OF init_wp [OF v]]) auto
  have u: "rb_utf8_complete c = (\<lambda>_. True)" using c(2) by (auto simp: rb_config_def rb_utf8_complete_def)
  have "\<exists>k \<le> length [3, 4, 5, 6 :: int]. wp (foldM rb_accept (take k [3, 4, 5, 6]) c) (\<lambda>c'. rb_state c' = REASONING_BUDGET_DONE)"
    by (rule budget_ends_block [OF rb_reach.init [OF v c(1)]]) (use c u in \<open>simp_all add: in_i32_def\<close>)
  then show ?thesis unfolding c(1) wp_Some .
qed

section \<open>Activation\<close>

lemma activation_run:
  assumes "tm_ok (rb_start c) w" "rb_inv c" "rb_state c \<in> {REASONING_BUDGET_IDLE, REASONING_BUDGET_DONE}" "\<forall>t \<in> set ts. in_i32 t"
    "\<forall>k \<le> length ts. 0 < k \<longrightarrow> \<not> ends_in (tm_seqs (rb_start c)) (w @ take k ts)"
  shows "wp (foldM rb_accept ts c) (\<lambda>c'. rb_inv c' \<and> rb_config c' = rb_config c \<and> rb_state c' = rb_state c \<and> tm_ok (rb_start c') (w @ ts))"
  using assms
proof (induction ts arbitrary: c w)
  case (Cons t ts)
  obtain v where v: "tm_ok (rb_end c) v" "rb_state c = REASONING_BUDGET_IDLE \<Longrightarrow> v = []" using Cons.prems(2) unfolding rb_inv_def by auto
  have b: "in_i32 (rb_budget c)" "in_i32 (rb_remaining c)" using Cons.prems(2) by (simp_all add: rb_inv_def)
  have t: "in_i32 t" using Cons.prems(4) by simp
  have n: "\<not> ends_in (tm_seqs (rb_start c)) (w @ [t])" using Cons.prems(5) [rule_format, of 1] by simp
  obtain c' where c': "rb_accept t c = Some c'" "rb_inv c'" "rb_config c' = rb_config c" "rb_state c' = rb_state c" "tm_ok (rb_start c') (w @ [t])"
    using start_wp [OF Cons.prems(1) t Cons.prems(3) v b] n unfolding wp_def by auto
  have e: "tm_seqs (rb_start c') = tm_seqs (rb_start c)" using c'(3) by (simp add: rb_config_def)
  have "wp (foldM rb_accept ts c') (\<lambda>d. rb_inv d \<and> rb_config d = rb_config c' \<and> rb_state d = rb_state c' \<and> tm_ok (rb_start d) ((w @ [t]) @ ts))"
  proof (rule Cons.IH [OF c'(5,2)])
    show "\<forall>k \<le> length ts. 0 < k \<longrightarrow> \<not> ends_in (tm_seqs (rb_start c')) ((w @ [t]) @ take k ts)"
      using Cons.prems(5) [rule_format, of "Suc k" for k] unfolding e by simp
  qed (use c'(4) Cons.prems(3,4) in auto)
  then show ?case using c' by simp
qed simp

text \<open>
  C28. Activation: an idle or finished sampler that has just been reset, or has just finished, stays in
  its state as long as the accepted tokens do not end in a start sequence; the first token that
  completes one starts a block with the full budget, or forces the end at once when the budget is
  not positive.
\<close>

theorem budget_activation:
  assumes "rb_reach vocab starts ends forced budget c" "rb_state c \<in> {REASONING_BUDGET_IDLE, REASONING_BUDGET_DONE}" "tm_state (rb_start c) = 0"
    and "\<forall>t \<in> set (ts @ [tok]). in_i32 t" "\<forall>k \<le> length ts. \<not> ends_in starts (take k ts)"
  shows "wp (foldM rb_accept (ts @ [tok]) c) (\<lambda>c'.
    if ends_in starts (ts @ [tok]) then rb_remaining c' = budget \<and> rb_state c' = (if 0 < budget then REASONING_BUDGET_COUNTING else REASONING_BUDGET_FORCING)
    else rb_state c' = rb_state c)"
proof -
  have i: "rb_inv c" "rb_config c = (vocab, collect starts, collect ends, forced, budget)" using reach_inv [OF assms(1)] by auto
  have s: "tm_seqs (rb_start c) = collect starts" "rb_budget c = budget" using i(2) by (simp_all add: rb_config_def)
  obtain w where "tm_ok (rb_start c) w" using i(1) unfolding rb_inv_def by blast
  then have w: "tm_ok (rb_start c) []" using tm_zero assms(3) by blast
  obtain c' where c': "foldM rb_accept ts c = Some c'" "rb_inv c'" "rb_config c' = rb_config c" "rb_state c' = rb_state c" "tm_ok (rb_start c') ts"
    by (rule wpE [OF activation_run [OF w i(1) assms(2)]]) (use assms(4,5) s in auto)
  obtain v where v: "tm_ok (rb_end c') v" "rb_state c' = REASONING_BUDGET_IDLE \<Longrightarrow> v = []" using c'(2) unfolding rb_inv_def by auto
  have e: "tm_seqs (rb_start c') = collect starts" "rb_budget c' = budget" using c'(3) i(2) by (simp_all add: rb_config_def)
  have b: "in_i32 (rb_budget c')" "in_i32 (rb_remaining c')" using c'(2) by (simp_all add: rb_inv_def)
  have t: "in_i32 tok" and st: "rb_state c' \<in> {REASONING_BUDGET_IDLE, REASONING_BUDGET_DONE}" using assms(2,4) c'(4) by simp_all
  have "wp (rb_accept tok c') (\<lambda>c'. if ends_in starts (ts @ [tok])
      then rb_remaining c' = budget \<and> rb_state c' = (if 0 < budget then REASONING_BUDGET_COUNTING else REASONING_BUDGET_FORCING) else rb_state c' = rb_state c)"
    by (rule wp_mono [OF start_wp [OF c'(5) t st v b]]) (simp_all add: e c'(4) split: if_splits)
  then show ?thesis using c'(1) by (simp add: foldM_append wp_simps)
qed

theorem budget_activation_witness:
  "wp (rb_init None [[1, 2]] [[3]] [3] 5 REASONING_BUDGET_IDLE) (\<lambda>c.
     wp (foldM rb_accept ([1, 1] @ [2]) c) (\<lambda>c'. rb_remaining c' = 5 \<and> rb_state c' = REASONING_BUDGET_COUNTING))"
proof -
  let ?i = "rb_init None [[1, 2]] [[3]] [3] 5 REASONING_BUDGET_IDLE"
  have v: "\<forall>s \<in> set ([[1, 2]] @ [[3 :: int]]). \<forall>x \<in> set s. in_i32 x" "in_i32 5" by (simp_all add: in_i32_def)
  obtain c where c: "?i = Some c" "rb_state c = REASONING_BUDGET_IDLE" "tm_state (rb_start c) = 0"
    by (rule wpE [OF init_wp [OF v]]) auto
  have e: "ends_in [[1, 2]] ([1, 1] @ [2])" "\<forall>k \<le> length [1, 1 :: int]. \<not> ends_in [[1, 2]] (take k [1, 1])"
    by (auto simp: ends_in_def suffix_def take_Cons' append_eq_Cons_conv)
  have "wp (foldM rb_accept ([1, 1] @ [2]) c) (\<lambda>c'. if ends_in [[1, 2]] ([1, 1] @ [2])
      then rb_remaining c' = 5 \<and> rb_state c' = (if 0 < (5 :: int) then REASONING_BUDGET_COUNTING else REASONING_BUDGET_FORCING) else rb_state c' = rb_state c)"
    by (rule budget_activation [OF rb_reach.init [OF v c(1)]]) (use c e in \<open>auto simp: in_i32_def\<close>)
  then show ?thesis using c(1) e(1) by simp
qed


section \<open>Forcing\<close>

text \<open>
  The sampler is asked before every token: it rewrites the logits of the candidates, and a candidate
  whose logit is \<open>-INFINITY\<close> is not picked.  \<open>forcing_run c ts c'\<close>: from \<open>c\<close> the tokens \<open>ts\<close> have been
  picked and accepted while the sampler was forcing, which leads to \<open>c'\<close>.
\<close>

inductive forcing_run :: "budget_ctx \<Rightarrow> llama_token list \<Rightarrow> budget_ctx \<Rightarrow> bool" where
  start: "forcing_run c [] c"
| pick: "forcing_run c ts c1 \<Longrightarrow> rb_state c1 = REASONING_BUDGET_FORCING \<Longrightarrow> in_i32 tok \<Longrightarrow>
    (tok, logit) \<in> set (rb_apply c1 cands) \<Longrightarrow> logit \<noteq> neg_infinity \<Longrightarrow> rb_accept tok c1 = Some c2 \<Longrightarrow> forcing_run c (ts @ [tok]) c2"

lemma pick_forced:
  assumes "(tok, l) \<in> set (rb_apply c cands)" "l \<noteq> neg_infinity" "rb_state c = REASONING_BUDGET_FORCING" "rb_force_pos c < length (rb_forced c)"
  shows "tok = rb_forced c ! rb_force_pos c"
  using assms by (auto simp: rb_apply_def split: if_splits)

lemma force_wp:
  assumes m: "tm_ok (rb_end c) w" and t: "in_i32 tok" and s: "rb_state c = REASONING_BUDGET_FORCING"
  shows "wp (rb_accept tok c) (\<lambda>c'. rb_forced c' = rb_forced c \<and> rb_force_pos c' = rb_force_pos c + 1 \<and> tm_seqs (rb_end c') = tm_seqs (rb_end c) \<and>
    (if ends_in (tm_seqs (rb_end c)) (w @ [tok]) \<or> length (rb_forced c) \<le> rb_force_pos c + 1 then rb_state c' = REASONING_BUDGET_DONE
     else rb_state c' = REASONING_BUDGET_FORCING \<and> tm_ok (rb_end c') (w @ [tok])))"
proof -
  obtain p m' where a: "tm_advance tok (rb_end c) = Some (p, m')" and p: "p \<ge> 0 \<longleftrightarrow> ends_in (tm_seqs (rb_end c)) (w @ [tok])"
    "tm_ok m' (if p \<ge> 0 then [] else w @ [tok])" and q: "tm_seqs m' = tm_seqs (rb_end c)"
    using tm_advance_wp [OF m t] unfolding wp_def by auto
  show ?thesis using s a p q by (cases "p \<ge> 0") (simp_all add: rb_accept_def Let_def)
qed

definition forced_ok :: "budget_ctx \<Rightarrow> llama_token list \<Rightarrow> budget_ctx \<Rightarrow> bool" where
  "forced_ok c ts c' = (rb_forced c' = rb_forced c \<and> tm_seqs (rb_end c') = tm_seqs (rb_end c) \<and> ts = take (length ts) (rb_forced c) \<and>
     (if rb_state c' = REASONING_BUDGET_FORCING then rb_force_pos c' = length ts \<and> length ts < length (rb_forced c) \<and> tm_ok (rb_end c') ts
      else rb_state c' = REASONING_BUDGET_DONE \<and> (ts = rb_forced c \<or> ends_in (tm_seqs (rb_end c)) ts)))"

lemma forcing_run_wp:
  assumes "forcing_run c ts c'"
  shows "rb_state c = REASONING_BUDGET_FORCING \<longrightarrow> rb_force_pos c = 0 \<longrightarrow> tm_ok (rb_end c) [] \<longrightarrow> rb_forced c \<noteq> [] \<longrightarrow> forced_ok c ts c'"
  using assms
proof (induction rule: forcing_run.induct)
  case (pick c ts c1 tok logit cands c2)
  show ?case
  proof (intro impI)
    assume a: "rb_state c = REASONING_BUDGET_FORCING" "rb_force_pos c = 0" "tm_ok (rb_end c) []" "rb_forced c \<noteq> []"
    have "forced_ok c ts c1" using pick.IH a by blast
    then have o: "rb_forced c1 = rb_forced c" "tm_seqs (rb_end c1) = tm_seqs (rb_end c)" "ts = take (length ts) (rb_forced c)"
      "rb_force_pos c1 = length ts" "length ts < length (rb_forced c)" "tm_ok (rb_end c1) ts"
      using pick(2) by (simp_all add: forced_ok_def)
    have tok: "tok = rb_forced c ! length ts" using pick_forced [OF pick(4,5,2)] o by simp
    have ts: "ts @ [tok] = take (Suc (length ts)) (rb_forced c)" using o(3,5) tok by (simp add: take_Suc_conv_app_nth)
    show "forced_ok c (ts @ [tok]) c2"
      using wpD [OF force_wp [OF o(6) pick(3,2)] pick(6)] o(1,2,4,5) ts
      by (auto simp: forced_ok_def Suc_le_eq split: if_splits)
  qed
qed (auto simp: forced_ok_def)

text \<open>
  C27. Forcing: from the moment the sampler starts to force, with a non-empty forced sequence, the tokens that
  can be picked are exactly the forced sequence, one after the other; it leaves the state only for
  \<open>DONE\<close>, after the whole sequence or after an end sequence that occurs inside it.
\<close>

theorem budget_forces_sequence:
  assumes "rb_reach vocab starts ends forced budget c" "rb_state c = REASONING_BUDGET_FORCING" "rb_force_pos c = 0" "forced \<noteq> []"
    and "forcing_run c ts c'"
  shows "prefix ts forced \<and> (rb_state c' = REASONING_BUDGET_FORCING \<and> length ts < length forced \<or>
    rb_state c' = REASONING_BUDGET_DONE \<and> (ts = forced \<or> ends_in ends ts))"
proof -
  have i: "rb_inv c" "rb_forced c = forced" "tm_seqs (rb_end c) = collect ends" using reach_inv [OF assms(1)] by (auto simp: rb_config_def)
  have "tm_ok (rb_end c) []" using i(1) assms(2,3) unfolding rb_inv_def by auto
  then have "forced_ok c ts c'" using forcing_run_wp [OF assms(5)] assms(2-4) i(2) by blast
  then show ?thesis using i take_is_prefix [of "length ts" forced] by (auto simp: forced_ok_def split: if_splits)
qed

theorem budget_forces_sequence_witness:
  "wp (rb_init None [[1]] [[3]] [7, 8] 0 REASONING_BUDGET_COUNTING) (\<lambda>c. \<exists>c'. forcing_run c [7] c' \<and> prefix [7] [7, 8 :: int] \<and>
     rb_state c' = REASONING_BUDGET_FORCING)"
proof -
  let ?i = "rb_init None [[1]] [[3]] [7, 8] 0 REASONING_BUDGET_COUNTING"
  have v: "\<forall>s \<in> set ([[1]] @ [[3 :: int]]). \<forall>x \<in> set s. in_i32 x" "in_i32 0" by (simp_all add: in_i32_def)
  obtain c where c: "?i = Some c" "rb_inv c" "rb_state c = REASONING_BUDGET_FORCING" "rb_force_pos c = 0" "rb_forced c = [7, 8]" "tm_seqs (rb_end c) = collect [[3]]"
    by (rule wpE [OF init_wp [OF v, where vocab = None and forced = "[7, 8]" and st = REASONING_BUDGET_COUNTING]]) (auto simp: rb_config_def)
  have "tm_ok (rb_end c) []" using c(2-4) unfolding rb_inv_def by auto
  then obtain c' where c': "rb_accept 7 c = Some c'" "rb_state c' = REASONING_BUDGET_FORCING"
    by (rule wpE [OF force_wp [of c "[]" 7]]) (use c in \<open>auto simp: in_i32_def ends_in_def suffix_def Cons_eq_append_conv collect_def split: if_splits\<close>)
  have "(7, 0 :: 32 word) \<in> set (rb_apply c [(5, 1), (7, 0)])" using c by (simp add: rb_apply_def)
  then have r: "forcing_run c ([] @ [7]) c'"
    using c'(1) c(3) by (intro forcing_run.pick [OF forcing_run.start]) (auto simp: in_i32_def neg_infinity_def)
  have "prefix [7] [7, 8 :: int] \<and> (rb_state c' = REASONING_BUDGET_FORCING \<and> length [7 :: int] < length [7, 8 :: int] \<or>
    rb_state c' = REASONING_BUDGET_DONE \<and> ([7] = [7, 8 :: int] \<or> ends_in [[3]] [7]))"
    by (rule budget_forces_sequence [OF rb_reach.init [OF v c(1)] c(3,4)]) (use r in simp_all)
  then show ?thesis using c(1) c'(2) r by auto
qed

end
