(* ===== verification/Grammar.thy ===== *)
theory Grammar
  imports Unicode ReasoningBudget
begin

text \<open>
  The grammar engine (\<open>src/llama-grammar.{h,cpp}\<close>): a set of pushdown stacks that follows the text
  generated so far.  A pointer to a grammar element is the pair of its rule and its index (reading
  outside a rule is \<open>None\<close>); the back of a stack, and of the work lists, is the head of the list.
  The vocabulary is given by the piece of text of each token and the end-of-generation tokens.
\<close>

section \<open>Data\<close>

datatype gretype = GRETYPE_END | GRETYPE_ALT | GRETYPE_RULE_REF | GRETYPE_CHAR | GRETYPE_CHAR_NOT | GRETYPE_CHAR_RNG_UPPER
  | GRETYPE_CHAR_ALT | GRETYPE_CHAR_ANY | GRETYPE_TOKEN | GRETYPE_TOKEN_NOT

record grammar_element =
  ge_type :: gretype
  ge_value :: "32 word"

type_synonym grammar_rule = "grammar_element list"
type_synonym grammar_rules = "grammar_rule list"
type_synonym grammar_pos = "nat \<times> nat"
type_synonym grammar_stack = "grammar_pos list"
type_synonym grammar_stacks = "grammar_stack list"

record partial_utf8 =
  pu_value :: "32 word"
  pu_n_remain :: int

record grammar_candidate =
  gc_index :: nat
  gc_code_points :: "codepoint list"
  gc_partial :: partial_utf8
  gc_id :: llama_token

definition elem_at :: "grammar_rules \<Rightarrow> grammar_pos \<Rightarrow> grammar_element option" where
  "elem_at rules p = do { rule \<leftarrow> vget rules (fst p); vget rule (snd p) }"

definition next_pos :: "grammar_pos \<Rightarrow> grammar_pos" where
  "next_pos p = (fst p, snd p + 1)"

definition is_end_of_sequence :: "grammar_element \<Rightarrow> bool" where
  "is_end_of_sequence e = (ge_type e = GRETYPE_END \<or> ge_type e = GRETYPE_ALT)"

definition at_end :: "grammar_rules \<Rightarrow> grammar_pos \<Rightarrow> bool option" where
  "at_end rules p = map_option is_end_of_sequence (elem_at rules p)"

section \<open>Decoding the text of a token\<close>

text \<open>Continuation bytes of a sequence begun in an earlier token; \<open>None\<close> for an invalid one.\<close>

fun decode_continue :: "byte list \<Rightarrow> 32 word \<Rightarrow> int \<Rightarrow> (byte list \<times> 32 word \<times> int) option" where
  "decode_continue [] v n = Some ([], v, n)"
| "decode_continue (b # bs) v n = (
     if b = 0 \<or> n \<le> 0 then Some (b # bs, v, n)
     else if drop_bit 6 b \<noteq> 2 then None
     else decode_continue bs (push_bit 6 v + ucast (b AND 0x3f)) (n - 1))"

text \<open>The rest of a sequence; the continuation bits are not checked here.\<close>

fun decode_rest :: "byte list \<Rightarrow> 32 word \<Rightarrow> int \<Rightarrow> byte list \<times> 32 word \<times> int" where
  "decode_rest [] v n = ([], v, n)"
| "decode_rest (b # bs) v n = (
     if b = 0 \<or> n \<le> 0 then (b # bs, v, n)
     else decode_rest bs (push_bit 6 v + ucast (b AND 0x3f)) (n - 1))"

lemma decode_rest_length: "length (fst (decode_rest bs v n)) \<le> length bs"
  by (induction bs v n rule: decode_rest.induct) (auto intro: le_SucI)

text \<open>The loop over the sequences; \<open>Inl\<close> with the negative count for an invalid first byte.\<close>

function decode_loop :: "byte list \<Rightarrow> 32 word \<Rightarrow> int \<Rightarrow> codepoint list \<Rightarrow> int + codepoint list \<times> 32 word \<times> int" where
  "decode_loop [] v n cps = Inr (cps, v, n)"
| "decode_loop (b # bs) v n cps = (
     if b = 0 then Inr (cps, v, n)
     else let n = [1, 1, 1, 1, 1, 1, 1, 1, 0, 0, 0, 0, 2, 2, 3, 4] ! unat (drop_bit 4 b) - 1 in
       if n < 0 then Inl n
       else let r = decode_rest bs (ucast (b AND mask (nat (7 - n)))) n in
         decode_loop (fst r) (fst (snd r)) (snd (snd r)) (if snd (snd r) = 0 then cps @ [fst (snd r)] else cps))"
  by pat_completeness auto

termination
  by (relation "measure (\<lambda>(bs, v, n, cps). length bs)") (auto simp: less_Suc_eq_le decode_rest_length)

definition decode_utf8 :: "byte list \<Rightarrow> partial_utf8 \<Rightarrow> codepoint list \<times> partial_utf8" where
  "decode_utf8 src p = (case decode_continue src (pu_value p) (pu_n_remain p) of
     None \<Rightarrow> ([0], \<lparr>pu_value = 0, pu_n_remain = -1\<rparr>)
   | Some (bs, v, n) \<Rightarrow>
       (case decode_loop bs v n (if pu_n_remain p > 0 \<and> n = 0 then [v] else []) of
          Inl n \<Rightarrow> ([0], \<lparr>pu_value = 0, pu_n_remain = n\<rparr>)
        | Inr (cps, v, n) \<Rightarrow> (cps @ [0], \<lparr>pu_value = v, pu_n_remain = n\<rparr>)))"

section \<open>Matching an element\<close>

text \<open>The loop over the ranges of a character element, with the number of elements it walks over.\<close>

fun match_ranges :: "grammar_element list \<Rightarrow> codepoint \<Rightarrow> bool \<Rightarrow> nat \<Rightarrow> (bool \<times> nat) option" where
  "match_ranges (p # q # es) c found k = (
     if ge_type q = GRETYPE_CHAR_RNG_UPPER then
       (case es of [] \<Rightarrow> None
        | e # _ \<Rightarrow> if ge_type e = GRETYPE_CHAR_ALT then match_ranges es c (found \<or> (ge_value p \<le> c \<and> c \<le> ge_value q)) (k + 2)
                   else Some (found \<or> (ge_value p \<le> c \<and> c \<le> ge_value q), k + 2))
     else if ge_type q = GRETYPE_CHAR_ALT then
       match_ranges (q # es) c (ge_type p = GRETYPE_CHAR_ANY \<or> found \<or> ge_value p = c) (k + 1)
     else Some (ge_type p = GRETYPE_CHAR_ANY \<or> found \<or> ge_value p = c, k + 1))"
| "match_ranges _ c found k = None"

definition is_positive_char :: "grammar_element \<Rightarrow> bool" where
  "is_positive_char e = (ge_type e = GRETYPE_CHAR \<or> ge_type e = GRETYPE_CHAR_ANY)"

definition match_char :: "grammar_rules \<Rightarrow> grammar_pos \<Rightarrow> codepoint \<Rightarrow> (bool \<times> grammar_pos) option" where
  "match_char rules p c = do {
     e \<leftarrow> elem_at rules p;
     _ \<leftarrow> ensure (is_positive_char e \<or> ge_type e = GRETYPE_CHAR_NOT);
     rule \<leftarrow> vget rules (fst p);
     (found, k) \<leftarrow> match_ranges (drop (snd p) rule) c False 0;
     Some (found = is_positive_char e, (fst p, snd p + k)) }"

text \<open>The same loop for a sequence cut off in the middle, which can end in any code point of a range.\<close>

fun partial_ranges :: "grammar_element list \<Rightarrow> bool \<Rightarrow> 32 word \<Rightarrow> 32 word \<Rightarrow> bool option" where
  "partial_ranges (p # q # es) pos low high = (
     if ge_type q = GRETYPE_CHAR_RNG_UPPER then
       (if ge_value p \<le> high \<and> low \<le> ge_value q then Some pos
        else case es of [] \<Rightarrow> None
        | e # _ \<Rightarrow> if ge_type e = GRETYPE_CHAR_ALT then partial_ranges es pos low high else Some (\<not> pos))
     else if ge_type p = GRETYPE_CHAR_ANY then Some True
     else if low \<le> ge_value p \<and> ge_value p \<le> high then Some pos
     else if ge_type q = GRETYPE_CHAR_ALT then partial_ranges (q # es) pos low high
     else Some (\<not> pos))"
| "partial_ranges _ pos low high = None"

definition match_partial_char :: "grammar_rules \<Rightarrow> grammar_pos \<Rightarrow> partial_utf8 \<Rightarrow> bool option" where
  "match_partial_char rules p pu = do {
     e \<leftarrow> elem_at rules p;
     _ \<leftarrow> ensure (is_positive_char e \<or> ge_type e = GRETYPE_CHAR_NOT);
     let v = pu_value pu; let n = pu_n_remain pu;
     if n < 0 \<or> (n = 1 \<and> v < 2) then Some False
     else do {
       let low = push_bit (nat n * 6) v;
       let high = low OR mask (nat n * 6);
       let low = (if low = 0 then if n = 2 then push_bit 11 1 else if n = 3 then push_bit 16 1 else low else low);
       rule \<leftarrow> vget rules (fst p);
       partial_ranges (drop (snd p) rule) (is_positive_char e) low high } }"

definition is_token_elem :: "grammar_element \<Rightarrow> bool" where
  "is_token_elem e = (ge_type e = GRETYPE_TOKEN \<or> ge_type e = GRETYPE_TOKEN_NOT)"

definition match_token :: "grammar_element \<Rightarrow> llama_token \<Rightarrow> bool option" where
  "match_token e t = do {
     _ \<leftarrow> ensure (is_token_elem e);
     Some (if ge_type e = GRETYPE_TOKEN then ge_value e = word_of_int t else ge_value e \<noteq> word_of_int t) }"

section \<open>Stacks\<close>

text \<open>Where the alternatives of a rule begin: at its start, and after every \<open>ALT\<close> before the \<open>END\<close>.\<close>

fun alts_after :: "grammar_rule \<Rightarrow> nat \<Rightarrow> nat list option" where
  "alts_after [] i = None"
| "alts_after (e # es) i = (
     if ge_type e = GRETYPE_END then Some []
     else if ge_type e = GRETYPE_ALT then map_option (Cons (i + 1)) (alts_after es (i + 1))
     else alts_after es (i + 1))"

definition alt_starts :: "grammar_rules \<Rightarrow> nat \<Rightarrow> nat list option" where
  "alt_starts rules r = do { rule \<leftarrow> vget rules r; map_option (Cons 0) (alts_after rule 0) }"

text \<open>A position is put on a stack unless it is the end of its sequence.\<close>

definition push_pos :: "grammar_rules \<Rightarrow> grammar_pos \<Rightarrow> grammar_stack \<Rightarrow> grammar_stack option" where
  "push_pos rules p st = do { stop \<leftarrow> at_end rules p; Some (if stop then st else p # st) }"

text \<open>The stack after the top, a reference to the rule \<open>r\<close>, is replaced by the alternative at \<open>s\<close>.\<close>

definition enter_alt :: "grammar_rules \<Rightarrow> grammar_pos \<Rightarrow> grammar_stack \<Rightarrow> nat \<Rightarrow> nat \<Rightarrow> grammar_stack option" where
  "enter_alt rules p st r s = do { st \<leftarrow> push_pos rules (next_pos p) st; push_pos rules (r, s) st }"

definition rule_stacks :: "grammar_rules \<Rightarrow> grammar_pos \<Rightarrow> grammar_stack \<Rightarrow> nat \<Rightarrow> grammar_stacks option" where
  "rule_stacks rules p st r = do { ss \<leftarrow> alt_starts rules r; mapM (enter_alt rules p st r) ss }"

definition add_stack :: "grammar_stack \<Rightarrow> grammar_stacks \<Rightarrow> grammar_stacks" where
  "add_stack st new = (if st \<in> set new then new else new @ [st])"

definition is_terminal :: "grammar_element \<Rightarrow> bool" where
  "is_terminal e = (ge_type e \<in> {GRETYPE_CHAR, GRETYPE_CHAR_NOT, GRETYPE_CHAR_ANY, GRETYPE_TOKEN, GRETYPE_TOKEN_NOT})"

text \<open>What one turn of the loop does with a stack not seen before: stacks to look at later, stacks to return.\<close>

definition advance_step :: "grammar_rules \<Rightarrow> grammar_stack \<Rightarrow> grammar_stacks \<Rightarrow> (grammar_stacks \<times> grammar_stacks) option" where
  "advance_step rules st new = (case st of
     [] \<Rightarrow> Some ([], add_stack st new)
   | p # rest \<Rightarrow> do {
       e \<leftarrow> elem_at rules p;
       if ge_type e = GRETYPE_RULE_REF then do { sts \<leftarrow> rule_stacks rules p rest (unat (ge_value e)); Some (rev sts, new) }
       else if is_terminal e then Some ([], add_stack st new)
       else None })"

partial_function (option) advance_loop :: "grammar_rules \<Rightarrow> grammar_stacks \<Rightarrow> grammar_stack set \<Rightarrow> grammar_stacks \<Rightarrow> grammar_stacks option" where
  "advance_loop rules todo seen new = (
     if todo = [] then Some new
     else if hd todo \<in> seen then advance_loop rules (tl todo) seen new
     else Option.bind (advance_step rules (hd todo) new) (\<lambda>(sts, new).
       advance_loop rules (sts @ tl todo) (insert (hd todo) seen) new))"

definition advance_stack :: "grammar_rules \<Rightarrow> grammar_stack \<Rightarrow> grammar_stacks \<Rightarrow> grammar_stacks option" where
  "advance_stack rules st new = advance_loop rules [st] {} new"

section \<open>Accepting text\<close>

text \<open>
  A \<open>llama_vocab\<close> is what the engine asks of it, the piece of a token and whether the token ends the
  generation; a trigger pattern is its search (\<open>find\<close>, over \<open>std::regex\<close>).
\<close>

type_synonym llama_vocab = "(llama_token \<Rightarrow> byte list) \<times> (llama_token \<Rightarrow> bool)"

record ollama_vocab =
  ov_pieces :: "32 word \<Rightarrow> byte list option"
  ov_eog :: "32 word set"

record grammar =
  gr_vocab :: llama_vocab
  gr_o_vocab :: "ollama_vocab option"
  gr_rules :: grammar_rules
  gr_stacks :: grammar_stacks
  gr_partial :: partial_utf8
  gr_lazy :: bool
  gr_awaiting_trigger :: bool
  gr_trigger_buffer :: "byte list"
  gr_trigger_positions :: "(llama_token \<times> nat \<times> nat) list"
  gr_trigger_tokens :: "llama_token list"
  gr_trigger_patterns :: "(byte list \<Rightarrow> nat option) list"

definition accept_chr :: "grammar_rules \<Rightarrow> grammar_stack \<Rightarrow> codepoint \<Rightarrow> grammar_stacks \<Rightarrow> grammar_stacks option" where
  "accept_chr rules st c new = (case st of
     [] \<Rightarrow> Some new
   | p # rest \<Rightarrow> do {
       e \<leftarrow> elem_at rules p;
       if is_token_elem e then Some new
       else do {
         (ok, q) \<leftarrow> match_char rules p c;
         if ok then do { st \<leftarrow> push_pos rules q rest; advance_stack rules st new } else Some new } })"

definition accept_all :: "grammar_rules \<Rightarrow> grammar_stacks \<Rightarrow> codepoint \<Rightarrow> grammar_stacks option" where
  "accept_all rules sts c = foldM (\<lambda>st new. accept_chr rules st c new) sts []"

definition grammar_accept :: "codepoint \<Rightarrow> grammar \<Rightarrow> grammar option" where
  "grammar_accept c g = do { sts \<leftarrow> accept_all (gr_rules g) (gr_stacks g) c; Some (g\<lparr>gr_stacks := sts\<rparr>) }"

text \<open>\<open>Inl\<close> when the code throws: no stack is left.\<close>

definition accept_str :: "byte list \<Rightarrow> grammar \<Rightarrow> (grammar + grammar) option" where
  "accept_str piece g = (let (cps, pu) = decode_utf8 piece (gr_partial g) in do {
     g \<leftarrow> foldM grammar_accept (butlast cps) g;
     let g = g\<lparr>gr_partial := pu\<rparr>;
     Some (if gr_stacks g = [] then Inl g else Inr g) })"

text \<open>The code points of a token, from one stack; the loop stops when no stack is left.\<close>

fun accept_from :: "grammar_rules \<Rightarrow> codepoint list \<Rightarrow> grammar_stacks \<Rightarrow> grammar_stacks option" where
  "accept_from rules [] sts = Some sts"
| "accept_from rules (c # cs) sts = do {
     sts \<leftarrow> accept_all rules sts c;
     if sts = [] then Some [] else accept_from rules cs sts }"

definition accept_token_stack :: "grammar_rules \<Rightarrow> llama_token \<Rightarrow> codepoint list \<Rightarrow> grammar_stack \<Rightarrow> grammar_stacks \<Rightarrow> grammar_stacks option" where
  "accept_token_stack rules t cps st new = (case st of
     [] \<Rightarrow> Some new
   | p # rest \<Rightarrow> do {
       e \<leftarrow> elem_at rules p;
       if is_token_elem e then do {
         ok \<leftarrow> match_token e t;
         if ok then do { st \<leftarrow> push_pos rules (next_pos p) rest; advance_stack rules st new } else Some new }
       else do {
         sts \<leftarrow> accept_from rules cps [st];
         Some (fold add_stack sts new) } })"

definition accept_token :: "llama_token \<Rightarrow> byte list \<Rightarrow> grammar \<Rightarrow> (grammar + grammar) option" where
  "accept_token t piece g = (let (cps, pu) = decode_utf8 piece (gr_partial g) in do {
     sts \<leftarrow> foldM (accept_token_stack (gr_rules g) t (butlast cps)) (gr_stacks g) [];
     let g = g\<lparr>gr_stacks := sts, gr_partial := pu\<rparr>;
     Some (if gr_stacks g = [] then Inl g else Inr g) })"

section \<open>Left recursion\<close>

text \<open>Does the rule have an alternative without any element?\<close>

fun has_empty_alt :: "bool \<Rightarrow> grammar_rule \<Rightarrow> bool" where
  "has_empty_alt start [] = False"
| "has_empty_alt start (e # es) = (
     if is_end_of_sequence e then start \<or> has_empty_alt True es else has_empty_alt False es)"

record rec_state =
  rs_visited :: "bool list"
  rs_in_progress :: "bool list"
  rs_may_be_empty :: "bool list"

datatype rec_result = RecThrow | RecFound | RecNone

text \<open>
  One element of the second loop, after the flag \<open>recurse_into_nonterminal\<close>; \<open>call\<close> is the recursive
  call.  The first component is the result so far, \<open>RecNone\<close> while the loop goes on.
\<close>

definition rec_elem :: "(nat \<Rightarrow> rec_state \<Rightarrow> (rec_result \<times> rec_state) option) \<Rightarrow> grammar_element \<Rightarrow>
    rec_result \<times> bool \<times> rec_state \<Rightarrow> (rec_result \<times> bool \<times> rec_state) option" where
  "rec_elem call e x = (case x of (res, go, s) \<Rightarrow>
     if res \<noteq> RecNone then Some (res, go, s)
     else if ge_type e = GRETYPE_RULE_REF \<and> go then do {
       (res, s) \<leftarrow> call (unat (ge_value e)) s;
       if res \<noteq> RecNone then Some (res, go, s)
       else do { empty \<leftarrow> vget (rs_may_be_empty s) (unat (ge_value e)); Some (RecNone, empty, s) } }
     else Some (RecNone, is_end_of_sequence e, s))"

text \<open>\<open>n\<close> counts the levels left, 257 at depth 0: \<open>depth > GRAMMAR_RECURSIVE_LIMIT\<close> when there is none.\<close>

fun detect_left_recursion :: "grammar_rules \<Rightarrow> nat \<Rightarrow> nat \<Rightarrow> rec_state \<Rightarrow> (rec_result \<times> rec_state) option" where
  "detect_left_recursion rules 0 r s = do {
     busy \<leftarrow> vget (rs_in_progress s) r;
     Some (if busy then RecFound else RecThrow, s) }"
| "detect_left_recursion rules (Suc n) r s = do {
     busy \<leftarrow> vget (rs_in_progress s) r;
     if busy then Some (RecFound, s)
     else do {
       prog \<leftarrow> vset (rs_in_progress s) r True;
       rule \<leftarrow> vget rules r;
       empty \<leftarrow> (if has_empty_alt True rule then vset (rs_may_be_empty s) r True else Some (rs_may_be_empty s));
       (res, _, s) \<leftarrow> foldM (rec_elem (detect_left_recursion rules n)) rule
         (RecNone, True, s\<lparr>rs_in_progress := prog, rs_may_be_empty := empty\<rparr>);
       if res \<noteq> RecNone then Some (res, s)
       else do {
         prog \<leftarrow> vset (rs_in_progress s) r False;
         seen \<leftarrow> vset (rs_visited s) r True;
         Some (RecNone, s\<lparr>rs_in_progress := prog, rs_visited := seen\<rparr>) } } }"

definition detect_rule :: "grammar_rules \<Rightarrow> nat \<Rightarrow> rec_result \<times> rec_state \<Rightarrow> (rec_result \<times> rec_state) option" where
  "detect_rule rules r x = (case x of (res, s) \<Rightarrow>
     if res \<noteq> RecNone then Some (res, s)
     else do {
       seen \<leftarrow> vget (rs_visited s) r;
       if seen then Some (RecNone, s) else detect_left_recursion rules 257 r s })"

definition detect_all :: "grammar_rules \<Rightarrow> (rec_result \<times> rec_state) option" where
  "detect_all rules = foldM (detect_rule rules) [0..<length rules]
     (RecNone, \<lparr>rs_visited = replicate (length rules) False, rs_in_progress = replicate (length rules) False,
       rs_may_be_empty = replicate (length rules) False\<rparr>)"

section \<open>Making a grammar\<close>

definition copy_rule :: "grammar_rule \<Rightarrow> grammar_rule option" where
  "copy_rule rule = do {
     _ \<leftarrow> ensure (\<exists>e \<in> set rule. ge_type e = GRETYPE_END);
     Some (takeWhile (\<lambda>e. ge_type e \<noteq> GRETYPE_END) rule @ [\<lparr>ge_type = GRETYPE_END, ge_value = 0\<rparr>]) }"

definition valid_refs :: "grammar_rules \<Rightarrow> bool" where
  "valid_refs rules = (\<forall>rule \<in> set rules. \<forall>e \<in> set rule. ge_type e = GRETYPE_RULE_REF \<longrightarrow>
     unat (ge_value e) < length rules \<and> rules ! unat (ge_value e) \<noteq> [])"

definition start_stacks :: "grammar_rules \<Rightarrow> nat \<Rightarrow> grammar_stacks option" where
  "start_stacks rules start = do {
     ss \<leftarrow> alt_starts rules start;
     foldM (\<lambda>s new. do { st \<leftarrow> push_pos rules (start, s) []; advance_stack rules st new }) ss [] }"

text \<open>\<open>Some None\<close> is a null pointer.\<close>

definition grammar_init :: "llama_vocab \<Rightarrow> ollama_vocab option \<Rightarrow> grammar_rules \<Rightarrow> nat \<Rightarrow> grammar option option" where
  "grammar_init vocab o_vocab grules start = do {
     rules \<leftarrow> mapM copy_rule grules;
     if \<not> valid_refs rules then Some None
     else do {
       (res, _) \<leftarrow> detect_all rules;
       if res \<noteq> RecNone then Some None
       else do {
         sts \<leftarrow> start_stacks rules start;
         Some (Some \<lparr>gr_vocab = vocab, gr_o_vocab = o_vocab, gr_rules = rules, gr_stacks = sts,
           gr_partial = \<lparr>pu_value = 0, pu_n_remain = 0\<rparr>, gr_lazy = False, gr_awaiting_trigger = False, gr_trigger_buffer = [],
           gr_trigger_positions = [], gr_trigger_tokens = [], gr_trigger_patterns = []\<rparr>) } } }"

section \<open>Rejecting candidates\<close>

text \<open>One candidate at the code point \<open>depth\<close>, when the top of the stack is the character element at \<open>p\<close>.\<close>

definition char_candidate :: "grammar_rules \<Rightarrow> grammar_pos \<Rightarrow> grammar_candidate list \<Rightarrow> nat \<Rightarrow> nat \<Rightarrow>
    nat list \<times> nat list \<Rightarrow> (nat list \<times> nat list) option" where
  "char_candidate rules p cands depth i x = (case x of (rejects, next) \<Rightarrow> do {
     tok \<leftarrow> vget cands i;
     c \<leftarrow> vget (gc_code_points tok) depth;
     if c = 0 then
       (if pu_n_remain (gc_partial tok) \<noteq> 0 then do {
          ok \<leftarrow> match_partial_char rules p (gc_partial tok);
          Some (if ok then rejects else rejects @ [i], next) }
        else Some (rejects, next))
     else do {
       (ok, _) \<leftarrow> match_char rules p c;
       Some (if ok then (rejects, next @ [i]) else (rejects @ [i], next)) } })"

definition end_candidate :: "grammar_candidate list \<Rightarrow> nat \<Rightarrow> nat \<Rightarrow> nat list \<Rightarrow> nat list option" where
  "end_candidate cands depth i rejects = do {
     tok \<leftarrow> vget cands i;
     c \<leftarrow> vget (gc_code_points tok) depth;
     Some (if c \<noteq> 0 \<or> pu_n_remain (gc_partial tok) \<noteq> 0 then rejects @ [i] else rejects) }"

definition token_candidate :: "grammar_element \<Rightarrow> grammar_candidate list \<Rightarrow> nat \<Rightarrow> nat \<Rightarrow> nat list \<Rightarrow> nat list option" where
  "token_candidate e cands depth i rejects = do {
     tok \<leftarrow> vget cands i;
     c \<leftarrow> vget (gc_code_points tok) depth;
     if c = 0 then Some (if pu_n_remain (gc_partial tok) \<noteq> 0 then rejects @ [i] else rejects)
     else do { ok \<leftarrow> match_token e (gc_id tok); Some (if ok then rejects else rejects @ [i]) } }"

text \<open>The rejects, and if some candidates go on the next level: they and the stacks that follow.\<close>

definition reject_step :: "grammar_rules \<Rightarrow> grammar_stack \<Rightarrow> grammar_candidate list \<Rightarrow> nat \<Rightarrow> nat list \<Rightarrow>
    (nat list \<times> (nat list \<times> grammar_stacks) option) option" where
  "reject_step rules st cands depth cur = (case st of
     [] \<Rightarrow> do { rejects \<leftarrow> foldM (end_candidate cands depth) cur []; Some (rejects, None) }
   | p # rest \<Rightarrow> do {
       e \<leftarrow> elem_at rules p;
       if is_token_elem e then do { rejects \<leftarrow> foldM (token_candidate e cands depth) cur []; Some (rejects, None) }
       else do {
         (rejects, next) \<leftarrow> foldM (char_candidate rules p cands depth) cur ([], []);
         (_, q) \<leftarrow> match_char rules p 0;
         st \<leftarrow> push_pos rules q rest;
         sts \<leftarrow> advance_stack rules st [];
         Some (rejects, Some (next, sts)) } })"

record reject_level =
  lv_stacks :: grammar_stacks
  lv_i :: nat
  lv_cur :: "nat list"
  lv_rejects :: "nat list"

definition level_of :: "grammar_stacks \<Rightarrow> nat list \<Rightarrow> reject_level" where
  "level_of sts cur = \<lparr>lv_stacks = sts, lv_i = 0, lv_cur = cur, lv_rejects = []\<rparr>"

text \<open>One turn of the loop on the level \<open>lv\<close>, which is not finished; \<open>lvs\<close> are the levels below.\<close>

definition level_step :: "grammar_rules \<Rightarrow> grammar_candidate list \<Rightarrow> reject_level \<Rightarrow> reject_level list \<Rightarrow> reject_level list option" where
  "level_step rules cands lv lvs = do {
     (rejects, more) \<leftarrow> reject_step rules (lv_stacks lv ! lv_i lv) cands (length lvs) (lv_cur lv);
     case more of
       None \<Rightarrow> Some (lv\<lparr>lv_cur := rejects, lv_i := lv_i lv + 1\<rparr> # lvs)
     | Some (next, sts) \<Rightarrow> do {
         _ \<leftarrow> ensure (sts \<noteq> []);
         Some (level_of sts next # lv\<lparr>lv_rejects := rejects\<rparr> # lvs) } }"

text \<open>The rejects of a finished level belong to the stack in progress of the level below.\<close>

definition level_return :: "reject_level \<Rightarrow> reject_level \<Rightarrow> reject_level" where
  "level_return lv parent = parent\<lparr>lv_cur := lv_rejects parent @ lv_cur lv, lv_rejects := [], lv_i := lv_i parent + 1\<rparr>"

definition level_done :: "reject_level \<Rightarrow> bool" where
  "level_done lv = (lv_i lv = length (lv_stacks lv) \<or> lv_cur lv = [])"

partial_function (option) reject_loop :: "grammar_rules \<Rightarrow> grammar_candidate list \<Rightarrow> reject_level list \<Rightarrow> nat list option" where
  "reject_loop rules cands lvs = (
     if level_done (hd lvs) then
       (if length lvs = 1 then Some (lv_cur (hd lvs))
        else reject_loop rules cands (level_return (hd lvs) (hd (tl lvs)) # tl (tl lvs)))
     else Option.bind (level_step rules cands (hd lvs) (tl lvs)) (reject_loop rules cands))"

definition reject_candidates :: "grammar_rules \<Rightarrow> grammar_stacks \<Rightarrow> grammar_candidate list \<Rightarrow> grammar_candidate list option" where
  "reject_candidates rules sts cands = do {
     _ \<leftarrow> ensure (sts \<noteq> []);
     rejects \<leftarrow> reject_loop rules cands [level_of sts [0..<length cands]];
     mapM (vget cands) rejects }"

definition reject_candidates_for_stack :: "grammar_rules \<Rightarrow> grammar_stack \<Rightarrow> grammar_candidate list \<Rightarrow> grammar_candidate list option" where
  "reject_candidates_for_stack rules st cands = reject_candidates rules [st] cands"

section \<open>The sampler\<close>

definition ov_token_to_piece :: "ollama_vocab \<Rightarrow> 32 word \<Rightarrow> byte list option" where
  "ov_token_to_piece v t = ov_pieces v t"

definition add_token_pieces :: "(32 word \<times> byte list) list \<Rightarrow> ollama_vocab \<Rightarrow> ollama_vocab" where
  "add_token_pieces ts v = v\<lparr>ov_pieces := fold (\<lambda>(t, p) m. m(t \<mapsto> p)) ts (ov_pieces v)\<rparr>"

definition set_eog_tokens :: "32 word list \<Rightarrow> ollama_vocab \<Rightarrow> ollama_vocab" where
  "set_eog_tokens ts v = v\<lparr>ov_eog := set ts \<union> ov_eog v\<rparr>"

definition ov_is_eog :: "ollama_vocab \<Rightarrow> 32 word \<Rightarrow> bool" where
  "ov_is_eog v t = (t \<in> ov_eog v)"

definition piece_of :: "grammar \<Rightarrow> llama_token \<Rightarrow> byte list option" where
  "piece_of g t = (case gr_o_vocab g of Some v \<Rightarrow> ov_token_to_piece v (word_of_int t) | None \<Rightarrow> Some (fst (gr_vocab g) t))"

definition eog_of :: "grammar \<Rightarrow> llama_token \<Rightarrow> bool" where
  "eog_of g t = (case gr_o_vocab g of Some v \<Rightarrow> ov_is_eog v (word_of_int t) | None \<Rightarrow> snd (gr_vocab g) t)"

text \<open>One candidate: its new logit, and whether the grammar has to look at it.\<close>

definition apply_one :: "grammar \<Rightarrow> bool \<Rightarrow> nat \<times> llama_token \<times> 32 word \<Rightarrow> (llama_token \<times> 32 word) list \<times> grammar_candidate list \<Rightarrow>
    ((llama_token \<times> 32 word) list \<times> grammar_candidate list) option" where
  "apply_one g allow_eog x y = (case x of (i, t, l) \<Rightarrow> case y of (out, cands) \<Rightarrow> do {
     piece \<leftarrow> piece_of g t;
     if eog_of g t then Some (out @ [(t, if allow_eog then l else neg_infinity)], cands)
     else if piece = [] \<or> hd piece = 0 then Some (out @ [(t, neg_infinity)], cands)
     else let (cps, pu) = decode_utf8 piece (gr_partial g) in
       Some (out @ [(t, l)], cands @ [\<lparr>gc_index = i, gc_code_points = cps, gc_partial = pu, gc_id = t\<rparr>]) })"

definition mask_logit :: "nat \<Rightarrow> (llama_token \<times> 32 word) list \<Rightarrow> (llama_token \<times> 32 word) list option" where
  "mask_logit i cur = do { x \<leftarrow> vget cur i; vset cur i (fst x, neg_infinity) }"

definition grammar_apply :: "grammar \<Rightarrow> (llama_token \<times> 32 word) list \<Rightarrow> (llama_token \<times> 32 word) list option" where
  "grammar_apply g cur = (
     if gr_awaiting_trigger g then Some cur
     else do {
       (cur, cands) \<leftarrow> foldM (apply_one g ([] \<in> set (gr_stacks g))) (zip [0..<length cur] cur) ([], []);
       rejects \<leftarrow> reject_candidates (gr_rules g) (gr_stacks g) cands;
       foldM (\<lambda>r. mask_logit (gc_index r)) rejects cur })"

text \<open>The tokens of the trigger buffer that overlap with the text from \<open>start\<close> on; \<open>Inl\<close> once one was refused.\<close>

definition replay_token :: "nat \<Rightarrow> llama_token \<times> nat \<times> nat \<Rightarrow> grammar + grammar \<Rightarrow> (grammar + grammar) option" where
  "replay_token start x r = (case r of
     Inl g \<Rightarrow> Some (Inl g)
   | Inr g \<Rightarrow> (case x of (t, tok_start, tok_end) \<Rightarrow>
       if tok_end \<le> start then Some (Inr g)
       else let piece_start = (if tok_start < start then start else tok_start) in
         accept_token t (take (tok_end - piece_start) (drop piece_start (gr_trigger_buffer g))) g))"

definition await_trigger :: "llama_token \<Rightarrow> byte list \<Rightarrow> grammar \<Rightarrow> (grammar + grammar) option" where
  "await_trigger t piece g = (
     let n = length (gr_trigger_buffer g);
         g = g\<lparr>gr_trigger_positions := gr_trigger_positions g @ [(t, n, n + length piece)],
               gr_trigger_buffer := gr_trigger_buffer g @ piece\<rparr> in
     case List.map_filter (\<lambda>find. find (gr_trigger_buffer g)) (gr_trigger_patterns g) of
       [] \<Rightarrow> Some (Inr g)
     | start # _ \<Rightarrow> do {
         r \<leftarrow> foldM (replay_token start) (gr_trigger_positions g) (Inr (g\<lparr>gr_awaiting_trigger := False\<rparr>));
         case r of Inl g \<Rightarrow> Some (Inl g)
         | Inr g \<Rightarrow> Some (Inr (g\<lparr>gr_trigger_buffer := [], gr_trigger_positions := []\<rparr>)) })"

definition grammar_accept_token :: "llama_token \<Rightarrow> grammar \<Rightarrow> (grammar + grammar) option" where
  "grammar_accept_token t g = do {
     piece \<leftarrow> piece_of g t;
     if gr_awaiting_trigger g then
       (if t \<in> set (gr_trigger_tokens g) then
          accept_token t piece (g\<lparr>gr_awaiting_trigger := False, gr_trigger_buffer := []\<rparr>)
        else await_trigger t piece g)
     else if eog_of g t then (if [] \<in> set (gr_stacks g) then Some (Inr g) else None)
     else accept_token t piece g }"

text \<open>The copy has its own rules, to which the stacks are redirected; the vocabulary of \<open>ollama\<close> is not copied.\<close>

definition grammar_clone :: "grammar \<Rightarrow> grammar" where
  "grammar_clone g = g\<lparr>gr_o_vocab := None\<rparr>"

end
