(* ===== verification/StdMap.thy ===== *)
theory StdMap
  imports Prelude "HOL-Library.Char_ord" "HOL-Library.List_Lexorder"
begin

text \<open>
  A \<open>std::map\<close> is the list of its entries in key order, without repeated keys (\<open>msorted\<close>);
  \<open>map_of\<close> is the lookup, \<open>mput\<close> the assignment to \<open>m[k]\<close>, \<open>merase\<close> erases a key.
\<close>

fun mput :: "'k :: linorder \<Rightarrow> 'v \<Rightarrow> ('k \<times> 'v) list \<Rightarrow> ('k \<times> 'v) list" where
  "mput k v [] = [(k, v)]"
| "mput k v ((l, w) # xs) = (
     if k < l then (k, v) # (l, w) # xs else if k = l then (k, v) # xs else (l, w) # mput k v xs)"

definition merase :: "'k \<Rightarrow> ('k \<times> 'v) list \<Rightarrow> ('k \<times> 'v) list" where
  "merase k xs = filter (\<lambda>e. fst e \<noteq> k) xs"

definition msorted :: "('k :: linorder \<times> 'v) list \<Rightarrow> bool" where
  "msorted xs = sorted_wrt (<) (map fst xs)"

lemma msorted_Nil [simp]: "msorted []"
  by (simp add: msorted_def)

lemma msorted_Cons [simp]: "msorted ((k, v) # xs) \<longleftrightarrow> (\<forall>e \<in> set xs. k < fst e) \<and> msorted xs"
  by (simp add: msorted_def)

lemma msorted_distinct: "msorted xs \<Longrightarrow> distinct (map fst xs)"
  unfolding msorted_def using strict_sorted_iff by blast

lemma map_of_mput [simp]: "map_of (mput k v xs) = (map_of xs)(k \<mapsto> v)"
  by (induction k v xs rule: mput.induct) auto

lemma set_mput: "set (mput k v xs) \<subseteq> insert (k, v) (set xs)"
  by (induction k v xs rule: mput.induct) auto

lemma msorted_mput [simp]: "msorted xs \<Longrightarrow> msorted (mput k v xs)"
proof (induction k v xs rule: mput.induct)
  case (2 k v l w xs)
  have "\<forall>e \<in> set (mput k v xs). l < fst e" if "\<not> k < l" "k \<noteq> l" using 2(2) that set_mput [of k v xs] by fastforce
  then show ?case using 2 by auto
qed simp

lemma map_of_merase [simp]: "map_of (merase k xs) = (map_of xs)(k := None)"
  by (induction xs) (auto simp: merase_def)

lemma msorted_merase [simp]: "msorted xs \<Longrightarrow> msorted (merase k xs)"
  unfolding msorted_def merase_def by (induction xs) auto

lemma merase_absent: "map_of xs k = None \<Longrightarrow> merase k xs = xs"
  by (induction xs) (auto simp: merase_def split: if_splits)

text \<open>Sums over the entries.\<close>

lemma merase_above:
  fixes k :: "'k :: linorder"
  shows "\<forall>e \<in> set xs. k < fst e \<Longrightarrow> merase k xs = xs"
  unfolding merase_def filter_id_conv by fastforce

lemma sum_mput:
  fixes f :: "'k :: linorder \<times> 'v \<Rightarrow> int"
  assumes "msorted xs"
  shows "sum_list (map f (mput k v xs)) = f (k, v) + sum_list (map f (merase k xs))"
  using assms
proof (induction k v xs rule: mput.induct)
  case (2 k v l w xs)
  have "merase k xs = xs" if "k \<le> l" using 2(2) that by (intro merase_above) (auto intro: le_less_trans)
  then show ?case using 2 by (auto simp: merase_def)
qed (simp add: merase_def)

lemma sum_merase:
  fixes f :: "'k :: linorder \<times> 'v \<Rightarrow> int"
  assumes "msorted xs" "map_of xs k = Some v"
  shows "sum_list (map f xs) = f (k, v) + sum_list (map f (merase k xs))"
  using assms
proof (induction xs)
  case (Cons e xs)
  obtain l w where e: "e = (l, w)" by fastforce
  show ?case
  proof (cases "l = k")
    case True
    then have "merase k xs = xs" using Cons.prems(1) e by (intro merase_above) simp
    then show ?thesis using Cons.prems e True by (simp add: merase_def)
  next
    case False
    then show ?thesis using Cons e by (simp add: merase_def)
  qed
qed simp

lemma keys_card:
  assumes "msorted xs"
  shows "length (filter (\<lambda>e. P (snd e)) xs) = card {k. \<exists>v. map_of xs k = Some v \<and> P v}"
proof -
  have d: "distinct (map fst (filter (\<lambda>e. P (snd e)) xs))" using msorted_distinct [OF assms] by (rule distinct_map_filter)
  have "{k. \<exists>v. map_of xs k = Some v \<and> P v} = set (map fst (filter (\<lambda>e. P (snd e)) xs))"
    using msorted_distinct [OF assms] by (force simp: image_iff)
  then show ?thesis using distinct_card [OF d] by simp
qed

end
