(* ===== verification/GrammarParser.thy ===== *)
theory GrammarParser
  imports Grammar StdMap
begin

text \<open>
  The parser of grammar texts (\<open>llama_grammar_parser\<close> in \<open>src/llama-grammar.{h,cpp}\<close>).  A \<open>const char *\<close>
  into the text is the rest of the text; reading at its end gives 0.  \<open>None\<close> is an exception, which
  \<open>parse\<close> catches, or an access outside a vector.  The vocabulary's \<open>tokenize\<close> is an argument.
\<close>

section \<open>Characters\<close>

abbreviation ch :: "char \<Rightarrow> byte" where
  "ch c \<equiv> of_char c"

definition peek :: "byte list \<Rightarrow> byte" where
  "peek s = (case s of [] \<Rightarrow> 0 | b # _ \<Rightarrow> b)"

definition is_digit_char :: "byte \<Rightarrow> bool" where
  "is_digit_char c = (ch CHR ''0'' \<le> c \<and> c \<le> ch CHR ''9'')"

definition is_word_char :: "byte \<Rightarrow> bool" where
  "is_word_char c = ((ch CHR ''a'' \<le> c \<and> c \<le> ch CHR ''z'') \<or> (ch CHR ''A'' \<le> c \<and> c \<le> ch CHR ''Z'') \<or> c = ch CHR ''-'' \<or> is_digit_char c)"

definition hex_digit :: "byte \<Rightarrow> 32 word option" where
  "hex_digit c = (
     if ch CHR ''a'' \<le> c \<and> c \<le> ch CHR ''f'' then Some (ucast (c - ch CHR ''a'' + 10))
     else if ch CHR ''A'' \<le> c \<and> c \<le> ch CHR ''F'' then Some (ucast (c - ch CHR ''A'' + 10))
     else if is_digit_char c then Some (ucast (c - ch CHR ''0''))
     else None)"

fun parse_hex :: "nat \<Rightarrow> 32 word \<Rightarrow> byte list \<Rightarrow> (32 word \<times> byte list) option" where
  "parse_hex 0 v s = Some (v, s)"
| "parse_hex (Suc n) v [] = None"
| "parse_hex (Suc n) v (b # s) = do { d \<leftarrow> hex_digit b; parse_hex n (push_bit 4 v + d) s }"

text \<open>From a \<open>#\<close> to the end of the line.\<close>

definition skip_comment :: "byte list \<Rightarrow> byte list" where
  "skip_comment s = dropWhile (\<lambda>b. b \<noteq> 0 \<and> b \<noteq> ch CHR 0x0D \<and> b \<noteq> ch CHR 0x0A) s"

function parse_space :: "byte list \<Rightarrow> bool \<Rightarrow> byte list" where
  "parse_space [] newline_ok = []"
| "parse_space (b # s) newline_ok = (
     if b = ch CHR ''#'' then parse_space (skip_comment s) newline_ok
     else if b = ch CHR '' '' \<or> b = ch CHR 0x09 \<or> (newline_ok \<and> (b = ch CHR 0x0D \<or> b = ch CHR 0x0A)) then parse_space s newline_ok
     else b # s)"
  by pat_completeness auto

termination
  by (relation "measure (\<lambda>(s, _). length s)") (auto simp: skip_comment_def less_Suc_eq_le length_dropWhile_le)

definition parse_name :: "byte list \<Rightarrow> (byte list \<times> byte list) option" where
  "parse_name s = (let w = takeWhile is_word_char s in if w = [] then None else Some (w, drop (length w) s))"

definition parse_int :: "byte list \<Rightarrow> (byte list \<times> byte list) option" where
  "parse_int s = (let w = takeWhile is_digit_char s in if w = [] then None else Some (w, drop (length w) s))"

text \<open>\<open>std::stoul\<close> of digits throws for a value of 64 bits and more.\<close>

definition stoul :: "byte list \<Rightarrow> int option" where
  "stoul w = (let n = foldl (\<lambda>n d. 10 * n + uint (d - ch CHR ''0'')) 0 w in if n < 2 ^ 64 then Some n else None)"

text \<open>The first code point; the text may end early.\<close>

definition decode_first :: "byte list \<Rightarrow> 32 word \<times> byte list" where
  "decode_first s = (let
     len = [1, 1, 1, 1, 1, 1, 1, 1, 1, 1, 1, 1, 2, 2, 3, 4] ! unat (drop_bit 4 (peek s));
     more = takeWhile (\<lambda>b. b \<noteq> 0) (take (len - 1) (tl s)) in
     (foldl (\<lambda>v b. push_bit 6 v + ucast (b AND 0x3f)) (ucast (peek s AND mask (8 - len))) more, drop (length more) (tl s)))"

definition parse_char :: "byte list \<Rightarrow> (32 word \<times> byte list) option" where
  "parse_char s = (
     if peek s = ch CHR 0x5C then (let c = peek (tl s); r = drop 2 s in
       if c = ch CHR ''x'' then parse_hex 2 0 r
       else if c = ch CHR ''u'' then parse_hex 4 0 r
       else if c = ch CHR ''U'' then parse_hex 8 0 r
       else if c = ch CHR ''t'' then Some (9, r)
       else if c = ch CHR ''r'' then Some (13, r)
       else if c = ch CHR ''n'' then Some (10, r)
       else if c \<in> {ch CHR 0x5C, ch CHR 0x22, ch CHR ''['', ch CHR '']'', ch CHR ''-''} then Some (ucast c, r)
       else None)
     else if peek s \<noteq> 0 then Some (decode_first s)
     else None)"

definition parse_token :: "(byte list \<Rightarrow> llama_token list) option \<Rightarrow> byte list \<Rightarrow> (32 word \<times> byte list) option" where
  "parse_token tokenize src = do {
     _ \<leftarrow> ensure (peek src = ch CHR ''<'');
     let s = tl src;
     if peek s = ch CHR ''['' then do {
       (w, s) \<leftarrow> parse_int (tl s);
       n \<leftarrow> stoul w;
       _ \<leftarrow> ensure (n < 2 ^ 32 \<and> peek s = ch CHR '']'' \<and> peek (tl s) = ch CHR ''>'');
       Some (word_of_int n, drop 2 s) }
     else do {
       tok \<leftarrow> tokenize;
       let name = takeWhile (\<lambda>b. b \<noteq> 0 \<and> b \<noteq> ch CHR ''>'') s;
       _ \<leftarrow> ensure (peek (drop (length name) s) = ch CHR ''>'');
       case tok (take (length name + 2) src) of [t] \<Rightarrow> Some (word_of_int t, drop (length name + 1) s) | _ \<Rightarrow> None } }"

section \<open>The parser\<close>

record grammar_parser =
  gp_symbol_ids :: "(byte list \<times> 32 word) list"
  gp_rules :: grammar_rules

definition next_id :: "grammar_parser \<Rightarrow> 32 word" where
  "next_id p = of_nat (length (gp_symbol_ids p))"

definition get_symbol_id :: "byte list \<Rightarrow> grammar_parser \<Rightarrow> 32 word \<times> grammar_parser" where
  "get_symbol_id name p = (case map_of (gp_symbol_ids p) name of
     Some i \<Rightarrow> (i, p)
   | None \<Rightarrow> (next_id p, p\<lparr>gp_symbol_ids := mput name (next_id p) (gp_symbol_ids p)\<rparr>))"

text \<open>\<open>std::to_string\<close>.\<close>

fun dec_string :: "nat \<Rightarrow> byte list" where
  "dec_string n = (if n < 10 then [] else dec_string (n div 10)) @ [ch CHR ''0'' + of_nat (n mod 10)]"

definition generate_symbol_id :: "byte list \<Rightarrow> grammar_parser \<Rightarrow> 32 word \<times> grammar_parser" where
  "generate_symbol_id base p = (next_id p,
     p\<lparr>gp_symbol_ids := mput (base @ ch CHR ''_'' # dec_string (unat (next_id p))) (next_id p) (gp_symbol_ids p)\<rparr>)"

definition resize_rules :: "nat \<Rightarrow> grammar_rules \<Rightarrow> grammar_rules" where
  "resize_rules n rules = take n rules @ replicate (n - length rules) []"

definition add_rule :: "32 word \<Rightarrow> grammar_rule \<Rightarrow> grammar_parser \<Rightarrow> grammar_parser option" where
  "add_rule i rule p = do {
     let rules = (if length (gp_rules p) \<le> unat i then resize_rules (unat (i + 1)) (gp_rules p) else gp_rules p);
     rules \<leftarrow> vset rules (unat i) rule;
     Some (p\<lparr>gp_rules := rules\<rparr>) }"

text \<open>
  The loops over the text.  Every turn consumes text, so that the test of the length never fails (see
  the lemmas \<open>shorter\<close>); it makes the recursion well-founded.
\<close>

function text_loop :: "(byte list \<Rightarrow> bool) \<Rightarrow> (byte list \<times> 's \<Rightarrow> (byte list \<times> 's) option) \<Rightarrow> byte list \<times> 's \<Rightarrow> (byte list \<times> 's) option" where
  "text_loop go step (s, x) = (
     if go s then
       (case step (s, x) of
          None \<Rightarrow> None
        | Some (s', x') \<Rightarrow> if length s' < length s then text_loop go step (s', x') else None)
     else Some (s, x))"
  by pat_completeness auto

termination
  by (relation "measure (\<lambda>(_, _, s, _). length s)") auto

definition elem :: "gretype \<Rightarrow> 32 word \<Rightarrow> grammar_element" where
  "elem t v = \<lparr>ge_type = t, ge_value = v\<rparr>"

definition literal_step :: "byte list \<times> grammar_rule \<Rightarrow> (byte list \<times> grammar_rule) option" where
  "literal_step x = (case x of (s, rule) \<Rightarrow> do {
     _ \<leftarrow> ensure (peek s \<noteq> 0);
     (c, s) \<leftarrow> parse_char s;
     Some (s, rule @ [elem GRETYPE_CHAR c]) })"

text \<open>One character or range of a class, of which \<open>rule\<close> are the elements so far.\<close>

definition class_step :: "gretype \<Rightarrow> byte list \<times> grammar_rule \<Rightarrow> (byte list \<times> grammar_rule) option" where
  "class_step start x = (case x of (s, rule) \<Rightarrow> do {
     _ \<leftarrow> ensure (peek s \<noteq> 0);
     (c, s) \<leftarrow> parse_char s;
     let rule = rule @ [elem (if rule \<noteq> [] then GRETYPE_CHAR_ALT else start) c];
     if peek s = ch CHR ''-'' \<and> peek (tl s) \<noteq> ch CHR '']'' then do {
       _ \<leftarrow> ensure (peek (tl s) \<noteq> 0);
       (d, s) \<leftarrow> parse_char (tl s);
       Some (s, rule @ [elem GRETYPE_CHAR_RNG_UPPER d]) }
     else Some (s, rule) })"

section \<open>Sequences\<close>

record seq_state =
  sq_rule :: grammar_rule
  sq_last :: nat
  sq_prev :: "64 word"
  sq_parser :: grammar_parser

text \<open>One of the rules that repeat \<open>prev\<close>.\<close>

definition rec_rule :: "byte list \<Rightarrow> grammar_rule \<Rightarrow> bool \<Rightarrow> nat \<Rightarrow> 32 word \<times> grammar_parser \<Rightarrow> (32 word \<times> grammar_parser) option" where
  "rec_rule name prev no_max i x = (case x of (prev_id, p) \<Rightarrow> do {
     let (k, p) = generate_symbol_id name p;
     let rule = prev @ (if i > 0 \<or> no_max then [elem GRETYPE_RULE_REF (if no_max then k else prev_id)] else []) @ [elem GRETYPE_ALT 0, elem GRETYPE_END 0];
     p \<leftarrow> add_rule k rule p;
     Some (k, p) })"

definition n_optional :: "64 word \<Rightarrow> 64 word \<Rightarrow> 64 word" where
  "n_optional min_times max_times = (if max_times = - 1 then 1 else max_times - min_times)"

definition handle_repetitions :: "byte list \<Rightarrow> 64 word \<Rightarrow> 64 word \<Rightarrow> seq_state \<Rightarrow> seq_state option" where
  "handle_repetitions name min_times max_times st = do {
     let no_max = (max_times = - 1);
     _ \<leftarrow> ensure (sq_last st \<noteq> length (sq_rule st));
     let prev = drop (sq_last st) (sq_rule st);
     let total = (if \<not> no_max \<and> max_times > 0 then max_times else if min_times > 0 then min_times else 1);
     _ \<leftarrow> ensure (sq_prev st * total \<le> 2000);
     let rule = (if min_times = 0 then take (sq_last st) (sq_rule st) else sq_rule st @ concat (replicate (unat min_times - 1) prev));
     let n_opt = n_optional min_times max_times;
     (k, p) \<leftarrow> foldM (rec_rule name prev no_max) [0..<unat n_opt] (0, sq_parser st);
     let rule = (if n_opt > 0 then rule @ [elem GRETYPE_RULE_REF k] else rule);
     _ \<leftarrow> ensure (sq_prev st * total \<ge> 1);
     Some (st\<lparr>sq_rule := rule, sq_prev := sq_prev st * total, sq_parser := p\<rparr>) }"

text \<open>A symbol \<open>els\<close> is added to the rule: the symbol before it is finished.\<close>

definition new_symbol :: "grammar_rule \<Rightarrow> 64 word \<Rightarrow> seq_state \<Rightarrow> seq_state" where
  "new_symbol els n_prev st = st\<lparr>sq_rule := sq_rule st @ els, sq_last := length (sq_rule st), sq_prev := n_prev\<rparr>"

definition parse_literal :: "bool \<Rightarrow> byte list \<Rightarrow> seq_state \<Rightarrow> (byte list \<times> seq_state) option" where
  "parse_literal nested s st = do {
     (s, els) \<leftarrow> text_loop (\<lambda>s. peek s \<noteq> ch CHR 0x22) literal_step (tl s, []);
     Some (parse_space (tl s) nested, new_symbol els 1 st) }"

definition parse_class :: "bool \<Rightarrow> byte list \<Rightarrow> seq_state \<Rightarrow> (byte list \<times> seq_state) option" where
  "parse_class nested s st = do {
     let inverse = (peek (tl s) = ch CHR ''^'');
     (s, els) \<leftarrow> text_loop (\<lambda>s. peek s \<noteq> ch CHR '']'') (class_step (if inverse then GRETYPE_CHAR_NOT else GRETYPE_CHAR))
       (if inverse then tl (tl s) else tl s, []);
     Some (parse_space (tl s) nested, new_symbol els 1 st) }"

definition parse_token_item :: "(byte list \<Rightarrow> llama_token list) option \<Rightarrow> bool \<Rightarrow> byte list \<Rightarrow> seq_state \<Rightarrow> (byte list \<times> seq_state) option" where
  "parse_token_item tokenize nested s st = do {
     let inverse = (peek s = ch CHR ''!'');
     (t, s) \<leftarrow> parse_token tokenize (if inverse then tl s else s);
     Some (parse_space s nested, new_symbol [elem (if inverse then GRETYPE_TOKEN_NOT else GRETYPE_TOKEN) t] 1 st) }"

definition parse_reference :: "bool \<Rightarrow> byte list \<Rightarrow> seq_state \<Rightarrow> (byte list \<times> seq_state) option" where
  "parse_reference nested s st = do {
     (name, s) \<leftarrow> parse_name s;
     let (k, p) = get_symbol_id name (sq_parser st);
     Some (parse_space s nested, new_symbol [elem GRETYPE_RULE_REF k] 1 (st\<lparr>sq_parser := p\<rparr>)) }"

text \<open>\<open>call\<close> parses the alternatives of a nested rule, or throws when the nesting is too deep.\<close>

type_synonym nested_call = "byte list \<Rightarrow> 32 word \<Rightarrow> grammar_parser \<Rightarrow> (byte list \<times> grammar_parser) option"

definition parse_group :: "nested_call \<Rightarrow> byte list \<Rightarrow> bool \<Rightarrow> byte list \<Rightarrow> seq_state \<Rightarrow> (byte list \<times> seq_state) option" where
  "parse_group call name nested s st = do {
     let n_before = next_id (sq_parser st);
     let (k, p) = generate_symbol_id name (sq_parser st);
     (s, p) \<leftarrow> call (parse_space (tl s) True) k p;
     _ \<leftarrow> ensure (peek s = ch CHR '')'');
     Some (parse_space (tl s) nested, new_symbol [elem GRETYPE_RULE_REF k] (ucast (max 1 (next_id p - n_before))) (st\<lparr>sq_parser := p\<rparr>)) }"

text \<open>The bounds of \<open>{m}\<close>, \<open>{m,}\<close> and \<open>{m,n}\<close>; no upper bound is -1, also for one above the threshold.\<close>

definition parse_bounds :: "bool \<Rightarrow> byte list \<Rightarrow> ((64 word \<times> 64 word) \<times> byte list) option" where
  "parse_bounds nested s = do {
     (w, s) \<leftarrow> parse_int (parse_space (tl s) nested);
     m \<leftarrow> stoul w;
     let s = parse_space s nested;
     (n, s) \<leftarrow> (
       if peek s = ch CHR ''}'' then Some (word_of_int m, parse_space (tl s) nested)
       else do {
         _ \<leftarrow> ensure (peek s = ch CHR '','');
         let s = parse_space (tl s) nested;
         (n, s) \<leftarrow> (
           if is_digit_char (peek s) then do { (w, s) \<leftarrow> parse_int s; n \<leftarrow> stoul w; Some (word_of_int n, parse_space s nested) }
           else Some (- 1 :: 64 word, s));
         _ \<leftarrow> ensure (peek s = ch CHR ''}'');
         Some (n, parse_space (tl s) nested) });
     _ \<leftarrow> ensure (m \<le> 2000);
     Some ((word_of_int m, if n \<noteq> - 1 \<and> n > 2000 then - 1 else n), s) }"

definition parse_repeat :: "byte list \<Rightarrow> bool \<Rightarrow> byte list \<Rightarrow> seq_state \<Rightarrow> (byte list \<times> seq_state) option" where
  "parse_repeat name nested s st = do {
     ((m, n), s) \<leftarrow> (
       if peek s = ch CHR ''*'' then Some ((0, - 1), parse_space (tl s) nested)
       else if peek s = ch CHR ''+'' then Some ((1, - 1), parse_space (tl s) nested)
       else if peek s = ch CHR ''?'' then Some ((0, 1), parse_space (tl s) nested)
       else parse_bounds nested s);
     st \<leftarrow> handle_repetitions name m n st;
     Some (s, st) }"

text \<open>The characters an item of a sequence begins with.\<close>

definition begins_item :: "byte list \<Rightarrow> bool" where
  "begins_item s = (peek s \<in> {ch CHR 0x22, ch CHR ''['', ch CHR ''<'', ch CHR ''!'', ch CHR ''('', ch CHR ''.'', ch CHR ''*'', ch CHR ''+'', ch CHR ''?'', ch CHR ''{''} \<or>
     is_word_char (peek s))"

definition seq_step :: "nested_call \<Rightarrow> (byte list \<Rightarrow> llama_token list) option \<Rightarrow> byte list \<Rightarrow> bool \<Rightarrow> byte list \<times> seq_state \<Rightarrow>
    (byte list \<times> seq_state) option" where
  "seq_step call tokenize name nested x = (case x of (s, st) \<Rightarrow>
     if peek s = ch CHR 0x22 then parse_literal nested s st
     else if peek s = ch CHR ''['' then parse_class nested s st
     else if peek s = ch CHR ''<'' \<or> peek s = ch CHR ''!'' then parse_token_item tokenize nested s st
     else if is_word_char (peek s) then parse_reference nested s st
     else if peek s = ch CHR ''('' then parse_group call name nested s st
     else if peek s = ch CHR ''.'' then Some (parse_space (tl s) nested, new_symbol [elem GRETYPE_CHAR_ANY 0] 1 st)
     else parse_repeat name nested s st)"

definition parse_sequence :: "nested_call \<Rightarrow> (byte list \<Rightarrow> llama_token list) option \<Rightarrow> byte list \<Rightarrow> bool \<Rightarrow> byte list \<times> grammar_rule \<times> grammar_parser \<Rightarrow>
    (byte list \<times> grammar_rule \<times> grammar_parser) option" where
  "parse_sequence call tokenize name nested x = (case x of (s, rule, p) \<Rightarrow> do {
     (s, st) \<leftarrow> text_loop begins_item (seq_step call tokenize name nested)
       (s, \<lparr>sq_rule = rule, sq_last = length rule, sq_prev = 1, sq_parser = p\<rparr>);
     Some (s, sq_rule st, sq_parser st) })"

definition alternate_step :: "nested_call \<Rightarrow> (byte list \<Rightarrow> llama_token list) option \<Rightarrow> byte list \<Rightarrow> bool \<Rightarrow> byte list \<times> grammar_rule \<times> grammar_parser \<Rightarrow>
    (byte list \<times> grammar_rule \<times> grammar_parser) option" where
  "alternate_step call tokenize name nested x = (case x of (s, rule, p) \<Rightarrow>
     parse_sequence call tokenize name nested (parse_space (tl s) True, rule @ [elem GRETYPE_ALT 0], p))"

definition alternates :: "nested_call \<Rightarrow> (byte list \<Rightarrow> llama_token list) option \<Rightarrow> byte list \<Rightarrow> bool \<Rightarrow> nested_call" where
  "alternates call tokenize name nested s k p = do {
     (s, rule, p) \<leftarrow> parse_sequence call tokenize name nested (s, [], p);
     (s, rule, p) \<leftarrow> text_loop (\<lambda>s. peek s = ch CHR ''|'') (alternate_step call tokenize name nested) (s, rule, p);
     p \<leftarrow> add_rule k (rule @ [elem GRETYPE_END 0]) p;
     Some (s, p) }"

text \<open>\<open>n\<close> counts the levels that are left, 256 at depth 0.\<close>

primrec parse_alternates :: "nat \<Rightarrow> (byte list \<Rightarrow> llama_token list) option \<Rightarrow> byte list \<Rightarrow> bool \<Rightarrow> nested_call" where
  "parse_alternates 0 tokenize name nested = alternates (\<lambda>_ _ _. None) tokenize name nested"
| "parse_alternates (Suc n) tokenize name nested = alternates (parse_alternates n tokenize name True) tokenize name nested"

text \<open>The end of the line, or of the text, behind a rule.\<close>

definition rule_end :: "byte list \<Rightarrow> byte list option" where
  "rule_end s = (
     if peek s = ch CHR 0x0D then Some (if peek (tl s) = ch CHR 0x0A then drop 2 s else tl s)
     else if peek s = ch CHR 0x0A then Some (tl s)
     else if peek s \<noteq> 0 then None
     else Some s)"

definition parse_rule :: "(byte list \<Rightarrow> llama_token list) option \<Rightarrow> byte list \<times> grammar_parser \<Rightarrow> (byte list \<times> grammar_parser) option" where
  "parse_rule tokenize x = (case x of (s, p) \<Rightarrow> do {
     (name, s) \<leftarrow> parse_name s;
     let s = parse_space s False;
     let (k, p) = get_symbol_id name p;
     _ \<leftarrow> ensure (peek s = ch CHR '':'' \<and> peek (tl s) = ch CHR '':'' \<and> peek (drop 2 s) = ch CHR ''='');
     (s, p) \<leftarrow> parse_alternates 256 tokenize name False (parse_space (drop 3 s) True) k p;
     s \<leftarrow> rule_end s;
     Some (parse_space s True, p) })"

text \<open>A reference is refused when no rule has its number and the name of the number is found.\<close>

definition rules_defined :: "grammar_parser \<Rightarrow> bool" where
  "rules_defined p = (\<forall>rule \<in> set (gp_rules p). rule \<noteq> [] \<and> (\<forall>e \<in> set rule. ge_type e = GRETYPE_RULE_REF \<longrightarrow>
     (unat (ge_value e) < length (gp_rules p) \<and> gp_rules p ! unat (ge_value e) \<noteq> []) \<or> ge_value e \<notin> snd ` set (gp_symbol_ids p)))"

definition grammar_parse :: "(byte list \<Rightarrow> llama_token list) option \<Rightarrow> byte list \<Rightarrow> grammar_parser option" where
  "grammar_parse tokenize src = do {
     (s, p) \<leftarrow> text_loop (\<lambda>s. peek s \<noteq> 0) (parse_rule tokenize) (parse_space src True, \<lparr>gp_symbol_ids = [], gp_rules = []\<rparr>);
     _ \<leftarrow> ensure (rules_defined p);
     Some p }"

section \<open>A grammar from its text\<close>

text \<open>
  \<open>Some None\<close> is a null pointer: the text is not a grammar, the root is missing, or the rules are left
  recursive.
\<close>

definition grammar_init_text :: "llama_vocab \<Rightarrow> ollama_vocab option \<Rightarrow> (byte list \<Rightarrow> llama_token list) option \<Rightarrow> byte list \<Rightarrow> byte list \<Rightarrow> bool \<Rightarrow>
    (byte list \<Rightarrow> nat option) list \<Rightarrow> llama_token list \<Rightarrow> grammar option option" where
  "grammar_init_text vocab o_vocab tokenize src root lazy patterns tokens = (
     case grammar_parse tokenize src of None \<Rightarrow> Some None
     | Some p \<Rightarrow>
       (if gp_rules p = [] then Some None
        else case map_of (gp_symbol_ids p) root of None \<Rightarrow> Some None
        | Some start \<Rightarrow> do {
            rules \<leftarrow> mapM copy_rule (gp_rules p);
            (res, _) \<leftarrow> detect_all rules;
            if res \<noteq> RecNone then Some None
            else do {
              sts \<leftarrow> start_stacks rules (unat start);
              Some (Some \<lparr>gr_vocab = vocab, gr_o_vocab = o_vocab, gr_rules = rules, gr_stacks = sts,
                gr_partial = \<lparr>pu_value = 0, pu_n_remain = 0\<rparr>, gr_lazy = lazy, gr_awaiting_trigger = lazy, gr_trigger_buffer = [],
                gr_trigger_positions = [], gr_trigger_tokens = tokens, gr_trigger_patterns = patterns\<rparr>) } }))"

end
