(* ===== verification/GrammarStacks.thy ===== *)
theory GrammarStacks
  imports Grammar "HOL-Library.Multiset"
begin

text \<open>
  Well-formed rules, and what \<open>advance_stack\<close> computes: the stacks with a terminal on top, or empty,
  that the expansion of references reaches.  It ends when the expansion does.
\<close>

section \<open>Well-formed rules\<close>

text \<open>
  A rule is a sequence of alternatives; \<open>m\<close> tells what may come next: 0 the start of an item, 1 a
  modifier of a character, 2 the same after the upper bound of a range.
\<close>

fun wf_from :: "nat \<Rightarrow> nat \<Rightarrow> grammar_rule \<Rightarrow> bool" where
  "wf_from n m [] = False"
| "wf_from n m (e # es) = (case ge_type e of
     GRETYPE_END \<Rightarrow> es = []
   | GRETYPE_ALT \<Rightarrow> wf_from n 0 es
   | GRETYPE_RULE_REF \<Rightarrow> unat (ge_value e) < n \<and> wf_from n 0 es
   | GRETYPE_CHAR \<Rightarrow> wf_from n 1 es
   | GRETYPE_CHAR_NOT \<Rightarrow> wf_from n 1 es
   | GRETYPE_CHAR_ANY \<Rightarrow> wf_from n 1 es
   | GRETYPE_CHAR_RNG_UPPER \<Rightarrow> m = 1 \<and> wf_from n 2 es
   | GRETYPE_CHAR_ALT \<Rightarrow> m \<noteq> 0 \<and> wf_from n 1 es
   | GRETYPE_TOKEN \<Rightarrow> wf_from n 0 es
   | GRETYPE_TOKEN_NOT \<Rightarrow> wf_from n 0 es)"

definition rules_ok :: "grammar_rules \<Rightarrow> bool" where
  "rules_ok rules = (\<forall>rule \<in> set rules. wf_from (length rules) 0 rule)"

text \<open>A position at the start of an item, or at the end of an alternative.\<close>

definition suffix_at :: "grammar_rules \<Rightarrow> grammar_pos \<Rightarrow> grammar_rule" where
  "suffix_at rules p = drop (snd p) (rules ! fst p)"

definition pos_ok :: "grammar_rules \<Rightarrow> grammar_pos \<Rightarrow> bool" where
  "pos_ok rules p = (fst p < length rules \<and> wf_from (length rules) 0 (suffix_at rules p))"

definition stack_ok :: "grammar_rules \<Rightarrow> grammar_stack \<Rightarrow> bool" where
  "stack_ok rules st = (\<forall>p \<in> set st. pos_ok rules p \<and> at_end rules p = Some False)"

lemma wf_from_weaken: "wf_from n m (e # es) \<Longrightarrow> ge_type e \<noteq> GRETYPE_CHAR_RNG_UPPER \<Longrightarrow> ge_type e \<noteq> GRETYPE_CHAR_ALT \<Longrightarrow> wf_from n 0 (e # es)"
  by (simp split: gretype.splits)

lemma suffix_cases:
  assumes "pos_ok rules p"
  obtains e es where "suffix_at rules p = e # es" "elem_at rules p = Some e" "suffix_at rules (next_pos p) = es"
    "wf_from (length rules) 0 (e # es)"
proof -
  obtain e es where s: "suffix_at rules p = e # es" using assms by (cases "suffix_at rules p") (auto simp: pos_ok_def)
  then have d: "drop (snd p) (rules ! fst p) = e # es" by (simp add: suffix_at_def)
  then have l: "snd p < length (rules ! fst p)" by (metis drop_all list.distinct(1) not_le)
  then have "e = rules ! fst p ! snd p" "es = drop (Suc (snd p)) (rules ! fst p)" using d by (metis Cons_nth_drop_Suc list.inject)+
  then show thesis using that s l assms by (simp add: elem_at_def next_pos_def suffix_at_def pos_ok_def vget_def)
qed

lemma at_end_elem: "elem_at rules p = Some e \<Longrightarrow> at_end rules p = Some (is_end_of_sequence e)"
  by (simp add: at_end_def)

section \<open>One element\<close>

text \<open>How far \<open>match_char\<close> walks does not depend on the character.\<close>

lemma match_ranges_ok:
  assumes "wf_from n 1 es"
  shows "\<exists>k. 0 < k \<and> wf_from n 0 (drop k (p # es)) \<and> (\<forall>c f j. \<exists>b. match_ranges (p # es) c f j = Some (b, j + k))"
  using assms
proof (induction "length es" arbitrary: p es rule: less_induct)
  case less
  obtain q es' where es: "es = q # es'" using less.prems by (cases es) auto
  consider (rng) "ge_type q = GRETYPE_CHAR_RNG_UPPER" | (alt) "ge_type q = GRETYPE_CHAR_ALT"
    | (other) "ge_type q \<noteq> GRETYPE_CHAR_RNG_UPPER" "ge_type q \<noteq> GRETYPE_CHAR_ALT" by blast
  then show ?case
  proof cases
    case rng
    then have w: "wf_from n 2 es'" using less.prems by (simp add: es)
    obtain e es'' where e: "es' = e # es''" using w by (cases es') auto
    show ?thesis
    proof (cases "ge_type e = GRETYPE_CHAR_ALT")
      case True
      then have "wf_from n 1 es''" using w by (simp add: e)
      then obtain k where k: "0 < k" "wf_from n 0 (drop k (e # es''))" "\<forall>c f j. \<exists>b. match_ranges (e # es'') c f j = Some (b, j + k)"
        using less.hyps [of es'' e] by (auto simp: es e)
      have "\<exists>b. match_ranges (p # es) c f j = Some (b, j + (2 + k))" for c f j
      proof -
        obtain b where "match_ranges (e # es'') c (f \<or> (ge_value p \<le> c \<and> c \<le> ge_value q)) (j + 2) = Some (b, j + 2 + k)" using k(3) by blast
        then show ?thesis using rng True by (simp add: es e add.assoc)
      qed
      then show ?thesis using k(2) by (intro exI [of _ "2 + k"]) (simp add: es e)
    next
      case False
      then have "wf_from n 0 es'" using w unfolding e by (auto split: gretype.splits)
      then show ?thesis using rng False by (intro exI [of _ 2]) (simp add: es e)
    qed
  next
    case alt
    then have "wf_from n 1 es'" using less.prems by (simp add: es)
    then obtain k where k: "0 < k" "wf_from n 0 (drop k (q # es'))" "\<forall>c f j. \<exists>b. match_ranges (q # es') c f j = Some (b, j + k)"
      using less.hyps [of es' q] by (auto simp: es)
    have "\<exists>b. match_ranges (p # es) c f j = Some (b, j + (1 + k))" for c f j
    proof -
      obtain b where "match_ranges (q # es') c (ge_type p = GRETYPE_CHAR_ANY \<or> f \<or> ge_value p = c) (j + 1) = Some (b, j + 1 + k)" using k(3) by blast
      then show ?thesis using alt by (simp add: es add.assoc)
    qed
    then show ?thesis using k(2) by (intro exI [of _ "1 + k"]) (simp add: es)
  next
    case other
    have "wf_from n 0 es" using wf_from_weaken [OF less.prems [unfolded es] other] by (simp only: es)
    then show ?thesis using other by (intro exI [of _ 1]) (simp add: es)
  qed
qed

definition char_type :: "grammar_element \<Rightarrow> bool" where
  "char_type e = (ge_type e \<in> {GRETYPE_CHAR, GRETYPE_CHAR_NOT, GRETYPE_CHAR_ANY})"

lemma match_char_ok:
  assumes "pos_ok rules p" "elem_at rules p = Some e" "char_type e"
  obtains q where "pos_ok rules q" "\<forall>c. \<exists>b. match_char rules p c = Some (b, q)"
proof -
  obtain es where s: "suffix_at rules p = e # es" "wf_from (length rules) 0 (e # es)"
    using suffix_cases [OF assms(1)] assms(2) by (metis option.inject)
  have w: "wf_from (length rules) 1 es" using s(2) assms(3) by (auto simp: char_type_def)
  obtain k where k: "0 < k" "wf_from (length rules) 0 (drop k (e # es))" "\<And>c f j. \<exists>b. match_ranges (e # es) c f j = Some (b, j + k)"
    using match_ranges_ok [OF w, of e] by blast
  have r: "vget rules (fst p) = Some (rules ! fst p)" "fst p < length rules" using assms(1) by (simp_all add: pos_ok_def)
  have ch: "is_positive_char e \<or> ge_type e = GRETYPE_CHAR_NOT" using assms(3) by (auto simp: char_type_def is_positive_char_def)
  have "\<exists>b. match_char rules p c = Some (b, (fst p, snd p + k))" for c
  proof -
    obtain b where "match_ranges (drop (snd p) (rules ! fst p)) c False 0 = Some (b, k)" using k(3) [of c False 0] s(1) by (auto simp: suffix_at_def)
    then show ?thesis unfolding match_char_def assms(2) Option.bind.bind_lunit r(1) using ch by simp
  qed
  moreover have "pos_ok rules (fst p, snd p + k)"
    using k(2) r(2) s(1) by (simp add: pos_ok_def suffix_at_def add.commute) (metis drop_drop)
  ultimately show thesis using that by blast
qed

lemma alts_after_ok:
  assumes "wf_from n m es"
  shows "\<exists>ss. alts_after es i = Some ss \<and> (\<forall>s \<in> set ss. i < s \<and> wf_from n 0 (drop (s - i) es))"
  using assms
proof (induction es arbitrary: m i)
  case (Cons e es)
  have IH: "\<exists>ss. alts_after es (i + 1) = Some ss \<and> (\<forall>s \<in> set ss. i < s \<and> wf_from n 0 (drop (s - i) (e # es)))"
    if w: "wf_from n m' es" for m'
  proof -
    obtain ss where ss: "alts_after es (i + 1) = Some ss" "\<forall>s \<in> set ss. i + 1 < s \<and> wf_from n 0 (drop (s - (i + 1)) es)"
      using Cons.IH [OF w] by blast
    have "drop (s - i) (e # es) = drop (s - (i + 1)) es" if "i + 1 < s" for s
    proof -
      have "s - i = Suc (s - (i + 1))" using that by simp
      then show ?thesis by simp
    qed
    then show ?thesis using ss by (intro exI [of _ ss]) auto
  qed
  show ?case
  proof (cases "ge_type e")
    case GRETYPE_ALT
    then have w: "wf_from n 0 es" using Cons.prems by simp
    then show ?thesis using IH [OF w] GRETYPE_ALT by auto
  qed (use Cons.prems IH in auto)
qed simp

lemma alt_starts_ok:
  assumes "rules_ok rules" "r < length rules"
  obtains ss where "alt_starts rules r = Some (0 # ss)" "\<And>s. s \<in> set (0 # ss) \<Longrightarrow> pos_ok rules (r, s)"
proof -
  have w: "wf_from (length rules) 0 (rules ! r)" using assms by (simp add: rules_ok_def)
  obtain ss where ss: "alts_after (rules ! r) 0 = Some ss" "\<forall>s \<in> set ss. wf_from (length rules) 0 (drop s (rules ! r))"
    using alts_after_ok [OF w, of 0] by auto
  show thesis
  proof (rule that)
    show "alt_starts rules r = Some (0 # ss)" using ss(1) assms(2) by (simp add: alt_starts_def vget_def)
    show "pos_ok rules (r, s)" if "s \<in> set (0 # ss)" for s using that ss(2) w assms(2) by (auto simp: pos_ok_def suffix_at_def)
  qed
qed

lemma push_pos_ok:
  assumes "pos_ok rules p" "stack_ok rules st"
  obtains st' where "push_pos rules p st = Some st'" "stack_ok rules st'" "st' = (if at_end rules p = Some True then st else p # st)"
proof -
  obtain e where "elem_at rules p = Some e" using suffix_cases [OF assms(1)] by metis
  then have "at_end rules p = Some (is_end_of_sequence e)" by (rule at_end_elem)
  then show thesis using that assms by (auto simp: push_pos_def stack_ok_def)
qed

section \<open>Expansion\<close>

inductive expands :: "grammar_rules \<Rightarrow> grammar_stack \<Rightarrow> grammar_stack \<Rightarrow> bool" for rules where
  expand: "elem_at rules p = Some e \<Longrightarrow> ge_type e = GRETYPE_RULE_REF \<Longrightarrow> alt_starts rules (unat (ge_value e)) = Some ss \<Longrightarrow> s \<in> set ss \<Longrightarrow>
    enter_alt rules p rest (unat (ge_value e)) s = Some st \<Longrightarrow> expands rules (p # rest) st"

inductive_simps expands_Nil [simp]: "expands rules [] st"
inductive_simps expands_Cons: "expands rules (p # rest) st"

definition final_stack :: "grammar_rules \<Rightarrow> grammar_stack \<Rightarrow> bool" where
  "final_stack rules st = (st = [] \<or> (\<exists>e. elem_at rules (hd st) = Some e \<and> is_terminal e))"

lemma final_no_expand: "final_stack rules st \<Longrightarrow> \<not> expands rules st st'"
  by (auto simp: final_stack_def is_terminal_def elim: expands.cases)

lemma mapM_some:
  assumes "\<And>x. x \<in> set xs \<Longrightarrow> \<exists>y. f x = Some y"
  obtains ys where "mapM f xs = Some ys" "set ys = {y. \<exists>x \<in> set xs. f x = Some y}" "length ys = length xs"
proof -
  have "mapM f xs = Some (map (\<lambda>x. the (f x)) xs)" by (rule mapM_map) (use assms in fastforce)
  moreover have "set (map (\<lambda>x. the (f x)) xs) = {y. \<exists>x \<in> set xs. f x = Some y}" using assms by force
  ultimately show thesis using that by simp
qed

lemma enter_alt_ok:
  assumes "rules_ok rules" "pos_ok rules (next_pos p)" "pos_ok rules (r, s)" "stack_ok rules rest"
  obtains st where "enter_alt rules p rest r s = Some st" "stack_ok rules st"
proof -
  obtain st1 where s1: "push_pos rules (next_pos p) rest = Some st1" "stack_ok rules st1" using push_pos_ok [OF assms(2,4)] by metis
  obtain st2 where s2: "push_pos rules (r, s) st1 = Some st2" "stack_ok rules st2" using push_pos_ok [OF assms(3) s1(2)] by metis
  then show thesis using that s1 by (simp add: enter_alt_def)
qed

text \<open>A well-formed stack is final or can be expanded; all its expansions are well-formed.\<close>

lemma stack_top:
  assumes R: "rules_ok rules" and st: "stack_ok rules st" "\<not> final_stack rules st"
  obtains p rest e ss where "st = p # rest" "elem_at rules p = Some e" "ge_type e = GRETYPE_RULE_REF" "pos_ok rules (next_pos p)"
    "stack_ok rules rest" "alt_starts rules (unat (ge_value e)) = Some ss" "ss \<noteq> []" "\<forall>s \<in> set ss. pos_ok rules (unat (ge_value e), s)"
proof -
  obtain p rest where s: "st = p # rest" using st(2) by (cases st) (auto simp: final_stack_def)
  have p: "pos_ok rules p" "at_end rules p = Some False" using st(1) by (auto simp: stack_ok_def s)
  obtain e es where e: "suffix_at rules p = e # es" "elem_at rules p = Some e" "suffix_at rules (next_pos p) = es" "wf_from (length rules) 0 (e # es)"
    using suffix_cases [OF p(1)] .
  have ne: "\<not> is_end_of_sequence e" "\<not> is_terminal e" using p(2) at_end_elem [OF e(2)] st(2) e(2) by (auto simp: s final_stack_def)
  have ref: "ge_type e = GRETYPE_RULE_REF" using ne e(4) by (cases "ge_type e") (auto simp: is_end_of_sequence_def is_terminal_def)
  have w: "unat (ge_value e) < length rules" "wf_from (length rules) 0 es" using e(4) ref by auto
  obtain ss where ss: "alt_starts rules (unat (ge_value e)) = Some (0 # ss)" "\<And>s. s \<in> set (0 # ss) \<Longrightarrow> pos_ok rules (unat (ge_value e), s)"
    using alt_starts_ok [OF R w(1)] by blast
  have n: "pos_ok rules (next_pos p)" using p(1) w(2) e(3) by (simp add: pos_ok_def next_pos_def)
  have r: "stack_ok rules rest" using st(1) by (simp add: stack_ok_def s)
  show thesis by (rule that [OF s e(2) ref n r ss(1)]) (use ss(2) in auto)
qed

lemma advance_step_wp:
  assumes R: "rules_ok rules" and st: "stack_ok rules st"
  shows "wp (advance_step rules st new) (\<lambda>(sts, new'). set sts = {t. expands rules st t} \<and> (\<forall>t \<in> set sts. stack_ok rules t) \<and>
    new' = (if final_stack rules st then add_stack st new else new) \<and> (\<not> final_stack rules st \<longrightarrow> sts \<noteq> []))"
proof (cases "final_stack rules st")
  case True
  then have "{t. expands rules st t} = {}" using final_no_expand by blast
  moreover have "ge_type e \<noteq> GRETYPE_RULE_REF" if "is_terminal e" for e using that by (auto simp: is_terminal_def)
  ultimately show ?thesis using True by (cases st) (auto simp: advance_step_def final_stack_def)
next
  case False
  obtain p rest e ss where t: "st = p # rest" "elem_at rules p = Some e" "ge_type e = GRETYPE_RULE_REF" "pos_ok rules (next_pos p)"
    "stack_ok rules rest" "alt_starts rules (unat (ge_value e)) = Some ss" "ss \<noteq> []" "\<forall>s \<in> set ss. pos_ok rules (unat (ge_value e), s)"
    using stack_top [OF R st False] .
  let ?f = "enter_alt rules p rest (unat (ge_value e))"
  have ok: "\<exists>y. ?f s = Some y \<and> stack_ok rules y" if "s \<in> set ss" for s
    using enter_alt_ok [OF R t(4) _ t(5)] t(8) that by metis
  obtain ys where ys: "mapM ?f ss = Some ys" "set ys = {y. \<exists>x \<in> set ss. ?f x = Some y}" "length ys = length ss"
    using mapM_some [of ss ?f] ok by blast
  have ex: "{t. expands rules st t} = set ys"
    unfolding ys(2) t(1) expands_Cons using t(2,3,6) by (simp add: Bex_def)
  have "\<forall>t \<in> set ys. stack_ok rules t" unfolding ys(2) using ok by fastforce
  moreover have "ys \<noteq> []" using ys(3) t(7) by auto
  ultimately show ?thesis unfolding ex using False t(2,3,6) ys(1) by (simp add: advance_step_def t(1) rule_stacks_def)
qed

section \<open>The work list\<close>

text \<open>Expansion ends from a stack, in every order.\<close>

abbreviation expansion_ends :: "grammar_rules \<Rightarrow> grammar_stack \<Rightarrow> bool" where
  "expansion_ends rules \<equiv> Wellfounded.accp (\<lambda>t s. expands rules s t)"

abbreviation reaches :: "grammar_rules \<Rightarrow> grammar_stack \<Rightarrow> grammar_stack \<Rightarrow> bool" where
  "reaches rules \<equiv> (expands rules)\<^sup>*\<^sup>*"

definition closure :: "grammar_rules \<Rightarrow> grammar_stack set \<Rightarrow> grammar_stack set" where
  "closure rules A = {t. final_stack rules t \<and> (\<exists>s \<in> A. reaches rules s t)}"

text \<open>The stacks seen are final and returned, or their expansions are seen or on the list.\<close>

definition seen_ok :: "grammar_rules \<Rightarrow> grammar_stack set \<Rightarrow> grammar_stack set \<Rightarrow> grammar_stack set \<Rightarrow> bool" where
  "seen_ok rules todo seen new = (\<forall>s \<in> seen. (final_stack rules s \<longrightarrow> s \<in> new) \<and> (\<forall>t. expands rules s t \<longrightarrow> t \<in> seen \<union> todo))"

lemma seen_reaches:
  assumes "seen_ok rules todo seen new" "reaches rules s t" "s \<in> seen" "final_stack rules t"
  shows "t \<in> new \<or> t \<in> closure rules todo"
  using assms(2-4)
proof (induction rule: converse_rtranclp_induct)
  case base
  then show ?case using assms(1) by (simp add: seen_ok_def)
next
  case (step s u)
  have "u \<in> seen \<union> todo" using assms(1) step.hyps(1) step.prems(1) by (auto simp: seen_ok_def)
  then show ?case
  proof
    assume "u \<in> todo"
    then show ?thesis using step.hyps(2) step.prems(2) by (auto simp: closure_def)
  qed (use step in blast)
qed

lemma closure_mono: "A \<subseteq> B \<Longrightarrow> closure rules A \<subseteq> closure rules B"
  by (auto simp: closure_def)

lemma closure_insert: "closure rules (insert s A) = closure rules {s} \<union> closure rules A"
  by (auto simp: closure_def)

lemma closure_expand:
  "closure rules {s} = (if final_stack rules s then {s} else closure rules {t. expands rules s t})"
proof -
  have "reaches rules s t \<longleftrightarrow> s = t \<or> (\<exists>u. expands rules s u \<and> reaches rules u t)" for t
    by (metis converse_rtranclpE converse_rtranclp_into_rtranclp rtranclp.rtrancl_refl)
  then show ?thesis using final_no_expand [of rules s] by (auto simp: closure_def)
qed

lemma add_stack_set [simp]: "set (add_stack st new) = insert st (set new)" "distinct (add_stack st new) = distinct new"
  by (auto simp: add_stack_def)

lemma advance_loop_wp:
  assumes R: "rules_ok rules" and ends: "\<And>s. stack_ok rules s \<Longrightarrow> expansion_ends rules s"
    and todo: "\<forall>s \<in> set todo. stack_ok rules s" and seen: "seen_ok rules (set todo) seen (set new)"
  shows "wp (advance_loop rules todo seen new) (\<lambda>new'. set new' = set new \<union> closure rules (set todo) \<and> (distinct new \<longrightarrow> distinct new'))"
proof -
  define r where "r = {(t, s). expands rules s t \<and> expansion_ends rules s}"
  have "wf r"
  proof -
    have ends: "s \<in> Wellfounded.acc r" if "expansion_ends rules s" for s
      using that
    proof (induction rule: accp_induct_rule)
      case (1 s)
      show ?case by (rule accI) (use 1(2) in \<open>simp add: r_def\<close>)
    qed
    have "s \<in> Wellfounded.acc r" for s
    proof (cases "expansion_ends rules s")
      case False
      show ?thesis by (rule accI) (use False in \<open>simp add: r_def\<close>)
    qed (rule ends)
    then show ?thesis by (intro acc_wfI) blast
  qed
  then have "wf (mult r)" by (rule wf_mult)
  then show ?thesis using todo seen
  proof (induction "mset todo" arbitrary: todo seen new rule: wf_induct_rule)
    case less
    show ?case
    proof (cases todo)
      case Nil
      then show ?thesis by (simp add: advance_loop.simps [of rules "[]"] closure_def)
    next
      case (Cons s rest)
      have so: "stack_ok rules s" "\<forall>s \<in> set rest. stack_ok rules s" using less.prems(1) by (auto simp: Cons)
      have dec: "(mset (sts @ rest), mset todo) \<in> mult r" if "\<forall>t \<in> set sts. expands rules s t" for sts
      proof -
        have "(mset rest + mset sts, mset rest + {#s#}) \<in> mult r"
          by (rule one_step_implies_mult) (use that ends [OF so(1)] in \<open>auto simp: r_def\<close>)
        then show ?thesis by (simp add: Cons add.commute)
      qed
      show ?thesis
      proof (cases "s \<in> seen")
        case True
        have eq: "advance_loop rules todo seen new = advance_loop rules rest seen new" using True by (subst advance_loop.simps) (simp add: Cons)
        have ok: "seen_ok rules (set rest) seen (set new)" using less.prems(2) True by (auto simp: seen_ok_def Cons)
        have "closure rules {s} \<subseteq> set new \<union> closure rules (set rest)"
          using seen_reaches [OF ok _ True] by (auto simp: closure_def)
        then have "set new \<union> closure rules (set todo) = set new \<union> closure rules (set rest)"
          using closure_insert [of rules s "set rest"] by (auto simp: Cons)
        then show ?thesis unfolding eq using less.hyps [of rest seen new] dec [of "[]"] so(2) ok by simp
      next
        case False
        obtain sts new' where st: "advance_step rules s new = Some (sts, new')" "set sts = {t. expands rules s t}" "\<forall>t \<in> set sts. stack_ok rules t"
          "new' = (if final_stack rules s then add_stack s new else new)"
          using advance_step_wp [OF R so(1), of new] by (auto simp: wp_def)
        have eq: "advance_loop rules todo seen new = advance_loop rules (sts @ rest) (insert s seen) new'"
          using False st(1) by (subst advance_loop.simps) (simp add: Cons)
        have ok: "seen_ok rules (set (sts @ rest)) (insert s seen) (set new')"
          using less.prems(2) st(2,4) by (auto simp: seen_ok_def Cons)
        have IH: "wp (advance_loop rules (sts @ rest) (insert s seen) new') (\<lambda>r. set r = set new' \<union> closure rules (set (sts @ rest)) \<and> (distinct new' \<longrightarrow> distinct r))"
          by (rule less.hyps) (use dec [of sts] st(2,3) so(2) ok in auto)
        have "set new' \<union> closure rules (set (sts @ rest)) = set new \<union> closure rules (set todo)"
          using closure_insert [of rules s "set rest"] closure_expand [of rules s] st(2,4) final_no_expand [of rules s]
          by (auto simp: Cons closure_def)
        then show ?thesis unfolding eq using IH st(4) by (auto elim!: wp_mono split: if_splits)
      qed
    qed
  qed
qed

text \<open>\<open>advance_stack\<close> adds the final stacks that the expansion of the stack reaches.\<close>

lemma advance_stack_wp:
  assumes "rules_ok rules" "\<And>s. stack_ok rules s \<Longrightarrow> expansion_ends rules s" "stack_ok rules st"
  shows "wp (advance_stack rules st new) (\<lambda>new'. set new' = set new \<union> closure rules {st} \<and> (distinct new \<longrightarrow> distinct new'))"
  unfolding advance_stack_def using advance_loop_wp [OF assms(1,2), of "[st]" "{}" new] assms(3) by (simp add: seen_ok_def)

lemma reaches_ok:
  assumes "rules_ok rules" "reaches rules s t" "stack_ok rules s"
  shows "stack_ok rules t"
  using assms(2,3)
proof (induction rule: rtranclp_induct)
  case (step u t)
  have "\<not> final_stack rules u" using final_no_expand step.hyps(2) by blast
  moreover obtain sts new' where "advance_step rules u [] = Some (sts, new')" "set sts = {t. expands rules u t}" "\<forall>t \<in> set sts. stack_ok rules t"
    using advance_step_wp [OF assms(1) step.IH [OF step.prems], of "[]"] by (auto simp: wp_def)
  ultimately show ?case using step.hyps(2) by blast
qed

text \<open>Every stack reaches a final one.\<close>

lemma closure_nonempty:
  assumes R: "rules_ok rules" and ends: "expansion_ends rules s" and ok: "stack_ok rules s"
  shows "closure rules {s} \<noteq> {}"
  using ends ok
proof (induction rule: accp_induct_rule)
  case (1 s)
  show ?case
  proof (cases "final_stack rules s")
    case True
    then show ?thesis by (auto simp: closure_def)
  next
    case False
    obtain sts new' where "advance_step rules s [] = Some (sts, new')" "set sts = {t. expands rules s t}" "\<forall>t \<in> set sts. stack_ok rules t" "sts \<noteq> []"
      using advance_step_wp [OF R 1(3), of "[]"] False by (auto simp: wp_def)
    then obtain t where "expands rules s t" "stack_ok rules t" by (cases sts) auto
    then have "closure rules {t} \<noteq> {}" using 1(2) by blast
    then show ?thesis using \<open>expands rules s t\<close> by (auto simp: closure_def intro: converse_rtranclp_into_rtranclp)
  qed
qed

end
