(* ===== verification/GrammarParse.thy ===== *)
theory GrammarParse
  imports GrammarParser GrammarStacks
begin

text \<open>
  What the parser returns.  Every turn of its loops consumes text; the rules it builds are
  well-formed, and every reference in them has a name in the symbol table.
\<close>

declare text_loop.simps [simp del] dec_string.simps [simp del]

section \<open>Every loop consumes text\<close>

lemma peek_not_Nil: "peek s \<noteq> 0 \<Longrightarrow> s \<noteq> []"
  by (auto simp: peek_def)

lemma tl_shorter: "peek s \<noteq> 0 \<Longrightarrow> length (tl s) < length s"
  using peek_not_Nil by auto

lemma parse_space_length: "length (parse_space s nl) \<le> length s"
proof (induction s nl rule: parse_space.induct)
  case (2 b s nl)
  have "length (skip_comment s) \<le> length s" by (simp add: skip_comment_def length_dropWhile_le)
  then show ?case using 2 by auto
qed simp

lemma parse_hex_length: "parse_hex n v s = Some (w, s') \<Longrightarrow> length s' \<le> length s"
  by (induction n v s rule: parse_hex.induct) (auto simp: Option.bind_eq_Some_conv)

lemma parse_name_length: "parse_name s = Some (w, s') \<Longrightarrow> length s' < length s \<and> (\<forall>b \<in> set w. is_word_char b)"
  by (cases s) (auto simp: parse_name_def Let_def dest: set_takeWhileD split: if_splits)

lemma parse_int_length: "parse_int s = Some (w, s') \<Longrightarrow> length s' < length s"
  by (cases s) (auto simp: parse_int_def Let_def split: if_splits)

lemma parse_char_length:
  assumes "parse_char s = Some (c, s')"
  shows "length s' < length s"
proof (cases "peek s = ch CHR 0x5C")
  case True
  then have s: "s \<noteq> []" using peek_not_Nil [of s] by auto
  have "length s' \<le> length (drop 2 s)" using assms True by (auto simp: parse_char_def Let_def dest: parse_hex_length split: if_splits)
  then show ?thesis using s by (cases s) auto
next
  case False
  then have "peek s \<noteq> 0" "s' = snd (decode_first s)" using assms by (auto simp: parse_char_def split: if_splits)
  then show ?thesis using peek_not_Nil [of s] by (cases s) (auto simp: decode_first_def Let_def)
qed

lemma parse_token_length: "parse_token tokenize s = Some (t, s') \<Longrightarrow> length s' < length s"
proof -
  assume a: "parse_token tokenize s = Some (t, s')"
  have p: "peek s = ch CHR ''<''" using a by (auto simp: parse_token_def Option.bind_eq_Some_conv Let_def)
  then have s: "s \<noteq> []" using peek_not_Nil [of s] by auto
  have "length s' \<le> length (tl s)"
  proof (cases "peek (tl s) = ch CHR ''[''")
    case True
    then show ?thesis using a p by (auto simp: parse_token_def Option.bind_eq_Some_conv Let_def dest!: parse_int_length)
  next
    case False
    define w where "w = takeWhile (\<lambda>b. b \<noteq> 0 \<and> b \<noteq> ch CHR ''>'') (tl s)"
    obtain tok where "(case tok (take (length w + 2) s) of [t] \<Rightarrow> Some (word_of_int t :: 32 word, drop (length w + 1) (tl s)) | _ \<Rightarrow> None) = Some (t, s')"
      using a False p unfolding parse_token_def Let_def w_def by (auto simp: Option.bind_eq_Some_conv)
    then have "s' = drop (length w + 1) (tl s)" by (auto split: list.splits)
    then show ?thesis by simp
  qed
  then show ?thesis using s by (cases s) auto
qed

lemma text_loop_length:
  fixes x :: 's
  shows "text_loop go step (s, x) = Some (s', x') \<Longrightarrow> length s' \<le> length s \<and> \<not> go s'"
proof (induction "length s" arbitrary: s x rule: less_induct)
  case less
  show ?case
  proof (cases "go s")
    case True
    then obtain r y where "step (s, x) = Some (r, y)" "length r < length s" "text_loop go step (r, y) = Some (s', x')"
      using less.prems by (auto simp: text_loop.simps [of go step s x] split: option.splits if_splits)
    then show ?thesis using less.hyps [of r y] by auto
  qed (use less.prems in \<open>auto simp: text_loop.simps [of go step s x]\<close>)
qed

text \<open>When every turn consumes text, the loop is the loop of the code.\<close>

lemma text_loop_unfold:
  assumes "\<And>s x s' x'. go s \<Longrightarrow> step (s, x) = Some (s', x') \<Longrightarrow> length s' < length s"
  shows "text_loop go step (s, x) = (if go s then Option.bind (step (s, x)) (text_loop go step) else Some (s, x))"
  by (subst text_loop.simps) (use assms in \<open>auto split: option.splits\<close>)

lemma literal_shorter: "literal_step (s, x) = Some (s', x') \<Longrightarrow> length s' < length s"
  by (auto simp: literal_step_def Option.bind_eq_Some_conv dest: parse_char_length)

lemma class_shorter: "class_step start (s, x) = Some (s', x') \<Longrightarrow> length s' < length s"
  by (auto simp: class_step_def Option.bind_eq_Some_conv Let_def dest!: parse_char_length split: if_splits)

lemma parse_sequence_length: "parse_sequence call tokenize name nested (s, x) = Some (s', x') \<Longrightarrow> length s' \<le> length s"
  by (cases x; cases x') (auto simp: parse_sequence_def Option.bind_eq_Some_conv dest!: text_loop_length)

lemma parse_space_shorter: "length s < n \<Longrightarrow> length (parse_space s nl) < n"
  using parse_space_length le_less_trans by blast

lemma alternate_shorter:
  assumes "peek s = ch CHR ''|''" "alternate_step call tokenize name nested (s, x) = Some (s', x')"
  shows "length s' < length s"
proof -
  obtain rule p where x: "x = (rule, p)" by (cases x)
  have "length (parse_space (tl s) True) < length s" using assms(1) by (intro parse_space_shorter tl_shorter) simp
  moreover have "length s' \<le> length (parse_space (tl s) True)"
    using assms(2) parse_sequence_length by (simp add: alternate_step_def x)
  ultimately show ?thesis by simp
qed

lemma alternates_length: "alternates call tokenize name nested s k p = Some (s', p') \<Longrightarrow> length s' \<le> length s"
  by (auto simp: alternates_def Option.bind_eq_Some_conv dest!: text_loop_length parse_sequence_length)

lemma parse_alternates_length: "parse_alternates n tokenize name nested s k p = Some (s', p') \<Longrightarrow> length s' \<le> length s"
  by (cases n) (auto dest: alternates_length)

lemma parse_bounds_length:
  assumes b: "parse_bounds nested s = Some (mn, s')" and s: "peek s \<noteq> 0"
  shows "length s' < length s"
proof -
  have sp: "length (parse_space r nested) \<le> length r" "length (parse_space (tl r) nested) \<le> length r" for r
    using parse_space_length [of r nested] parse_space_length [of "tl r" nested] by simp_all
  have t: "length (parse_space (tl s) nested) < length s" using s by (intro parse_space_shorter tl_shorter)
  obtain w r where r: "parse_int (parse_space (tl s) nested) = Some (w, r)" "length s' \<le> length (parse_space r nested)"
  proof (cases "parse_int (parse_space (tl s) nested)")
    case (Some x)
    obtain w r where x: "x = (w, r)" by (cases x)
    let ?r = "parse_space r nested" let ?q = "parse_space (tl ?r) nested"
    have "length s' \<le> length ?r"
    proof (cases "peek ?r = ch CHR ''}''")
      case True
      then have "s' = ?q" using b Some by (auto simp: parse_bounds_def x Let_def Option.bind_eq_Some_conv)
      then show ?thesis using sp(2) by simp
    next
      case False
      show ?thesis
      proof (cases "is_digit_char (peek ?q)")
        case True
        obtain v u where v: "parse_int ?q = Some (v, u)" "s' = parse_space (tl (parse_space u nested)) nested"
          using b Some False True by (auto simp: parse_bounds_def x Let_def Option.bind_eq_Some_conv)
        have "length s' \<le> length u" unfolding v(2) using sp(2) sp(1) le_trans by blast
        also have "\<dots> \<le> length ?r" using parse_int_length [OF v(1)] sp(2) [of ?r] by simp
        finally show ?thesis .
      next
        case digit: False
        then have "s' = parse_space (tl ?q) nested" using b Some False by (auto simp: parse_bounds_def x Let_def Option.bind_eq_Some_conv)
        then show ?thesis using sp(2) [of ?q] sp(2) [of ?r] by simp
      qed
    qed
    then show thesis using that Some x by simp
  qed (use b in \<open>simp add: parse_bounds_def\<close>)
  then show ?thesis using parse_int_length [OF r(1)] sp(1) [of r] t by simp
qed

lemma parse_repeat_length:
  assumes "parse_repeat name nested s st = Some (s', st')" "peek s \<noteq> 0"
  shows "length s' < length s"
proof -
  have t: "length (parse_space (tl s) nested) < length s" using assms(2) by (intro parse_space_shorter tl_shorter)
  show ?thesis
    using assms t by (auto simp: parse_repeat_def Option.bind_eq_Some_conv dest: parse_bounds_length split: if_splits)
qed

lemma seq_step_shorter:
  assumes call: "\<And>s k p s' p'. call s k p = Some (s', p') \<Longrightarrow> length s' \<le> length s"
    and go: "begins_item s" and step: "seq_step call tokenize name nested (s, st) = Some (s', st')"
  shows "length s' < length s"
proof -
  have p: "peek s \<noteq> 0" using go by (auto simp: begins_item_def is_word_char_def is_digit_char_def)
  have t: "length (parse_space (tl s) nl) < length s" for nl using p by (intro parse_space_shorter tl_shorter)
  have sp: "length (parse_space r nl) \<le> length r" "length (parse_space (tl r) nl) \<le> length r" for r nl
    using parse_space_length [of r nl] parse_space_length [of "tl r" nl] by simp_all
  have tl: "length (tl s) < length s" "length (tl (tl s)) < length s" using tl_shorter [OF p] by simp_all
  consider (lit) "parse_literal nested s st = Some (s', st')" | (cls) "parse_class nested s st = Some (s', st')"
    | (tok) "parse_token_item tokenize nested s st = Some (s', st')" | (ref) "parse_reference nested s st = Some (s', st')"
    | (grp) "parse_group call name nested s st = Some (s', st')" | (dot) "s' = parse_space (tl s) nested" | (rep) "parse_repeat name nested s st = Some (s', st')"
    using step by (auto simp: seq_step_def split: if_splits)
  then show ?thesis
  proof cases
    case lit
    then obtain r els where "text_loop (\<lambda>s. peek s \<noteq> ch CHR 0x22) literal_step (tl s, []) = Some (r, els)" "s' = parse_space (tl r) nested"
      by (auto simp: parse_literal_def Option.bind_eq_Some_conv)
    then show ?thesis using text_loop_length sp(2) tl(1) by (metis le_less_trans)
  next
    case cls
    then obtain r els q t where "text_loop (\<lambda>s. peek s \<noteq> ch CHR '']'') (class_step t) (q, []) = Some (r, els)" "s' = parse_space (tl r) nested"
      "q = tl s \<or> q = tl (tl s)"
      by (fastforce simp: parse_class_def Option.bind_eq_Some_conv Let_def split: if_splits)
    then show ?thesis using text_loop_length sp(2) tl by (metis le_less_trans)
  next
    case tok
    then obtain k r q where "parse_token tokenize q = Some (k, r)" "s' = parse_space r nested" "q = s \<or> q = tl s"
      by (auto simp: parse_token_item_def Option.bind_eq_Some_conv Let_def split: if_splits)
    then show ?thesis using parse_token_length [of tokenize q k r] sp(1) [of r nested] tl(1) by auto
  next
    case ref
    then obtain w r where "parse_name s = Some (w, r)" "s' = parse_space r nested"
      by (auto simp: parse_reference_def Option.bind_eq_Some_conv split_beta)
    then show ?thesis using parse_name_length sp(1) le_less_trans by blast
  next
    case grp
    then obtain r k p' p'' where "call (parse_space (tl s) True) k p' = Some (r, p'')" "s' = parse_space (tl r) nested"
      by (auto simp: parse_group_def Option.bind_eq_Some_conv split: prod.splits)
    then show ?thesis using call sp(2) t by (metis le_less_trans le_trans)
  qed (use t parse_repeat_length p in auto)
qed

text \<open>The loop over the items of a sequence, as the code has it.\<close>

lemma sequence_loop_unfold:
  "text_loop begins_item (seq_step (parse_alternates n tokenize name nested') tokenize name nested) (s, st) =
    (if begins_item s
     then Option.bind (seq_step (parse_alternates n tokenize name nested') tokenize name nested (s, st))
       (text_loop begins_item (seq_step (parse_alternates n tokenize name nested') tokenize name nested))
     else Some (s, st))"
  by (rule text_loop_unfold) (rule seq_step_shorter, rule parse_alternates_length)

section \<open>The rules are well-formed\<close>

text \<open>The number of names stays below \<open>2 ^ 32\<close>, so that ids do not wrap around.\<close>

abbreviation n_symbols :: "grammar_parser \<Rightarrow> nat" where
  "n_symbols p \<equiv> length (gp_symbol_ids p)"

definition ids :: "grammar_parser \<Rightarrow> 32 word set" where
  "ids p = snd ` set (gp_symbol_ids p)"

definition refs :: "grammar_rule \<Rightarrow> 32 word set" where
  "refs rule = {ge_value e | e. e \<in> set rule \<and> ge_type e = GRETYPE_RULE_REF}"

text \<open>A piece of a rule: complete items.\<close>

definition piece_ok :: "grammar_rule \<Rightarrow> bool" where
  "piece_ok es = wf_from (2 ^ 32) 0 (es @ [elem GRETYPE_END 0])"

text \<open>Only generated names have an underscore, and their number is below the number of names.\<close>

definition names_ok :: "grammar_parser \<Rightarrow> bool" where
  "names_ok p = (\<forall>w \<in> fst ` set (gp_symbol_ids p). ch CHR ''_'' \<in> set w \<longrightarrow>
     (\<exists>base k. ch CHR ''_'' \<notin> set base \<and> k < n_symbols p \<and> w = base @ ch CHR ''_'' # dec_string k))"

definition parser_inv :: "grammar_parser \<Rightarrow> bool" where
  "parser_inv p = (names_ok p \<and> (\<forall>rule \<in> set (gp_rules p). (rule = [] \<or> wf_from (2 ^ 32) 0 rule) \<and> refs rule \<subseteq> ids p))"

text \<open>A step of the parser inside a larger state \<open>x\<close> with the invariant \<open>I\<close>.\<close>

definition grows :: "('s \<Rightarrow> grammar_parser) \<Rightarrow> ('s \<Rightarrow> bool) \<Rightarrow> 's \<Rightarrow> 's \<Rightarrow> bool" where
  "grows P I x x' = (n_symbols (P x) \<le> n_symbols (P x') \<and>
     (n_symbols (P x') < 2 ^ 32 \<longrightarrow> I x \<longrightarrow> I x' \<and> ids (P x) \<subseteq> ids (P x')))"

lemma grows_refl [simp]: "grows P I x x"
  by (simp add: grows_def)

lemma grows_trans: "grows P I x y \<Longrightarrow> grows P I y z \<Longrightarrow> grows P I x z"
  by (auto simp: grows_def)

lemma text_loop_rel:
  assumes loop: "text_loop go step (s, x) = Some (s', x')"
    and step: "\<And>s x s' x'. go s \<Longrightarrow> step (s, x) = Some (s', x') \<Longrightarrow> R x x'"
    and refl: "\<And>x. R x x" and trans: "\<And>x y z. R x y \<Longrightarrow> R y z \<Longrightarrow> R x z"
  shows "R x x'"
  using loop
proof (induction "length s" arbitrary: s x rule: less_induct)
  case less
  show ?case
  proof (cases "go s")
    case True
    then obtain r y where r: "step (s, x) = Some (r, y)" "length r < length s" "text_loop go step (r, y) = Some (s', x')"
      using less.prems by (auto simp: text_loop.simps [of go step s x] split: option.splits if_splits)
    show ?thesis by (rule trans [OF step [OF True r(1)] less.hyps [OF r(2,3)]])
  qed (use less.prems refl in \<open>auto simp: text_loop.simps [of go step s x]\<close>)
qed

subsection \<open>Pieces\<close>

lemma wf_from_0: "wf_from n 0 es \<Longrightarrow> wf_from n m es"
  by (cases es) (auto split: gretype.splits)

lemma wf_from_append: "wf_from n m (xs @ [elem GRETYPE_END 0]) \<Longrightarrow> wf_from n 0 ys \<Longrightarrow> wf_from n m (xs @ ys)"
proof (induction xs arbitrary: m)
  case (Cons e xs)
  then show ?case by (auto split: gretype.splits)
qed (auto intro: wf_from_0)

lemma piece_Nil [simp]: "piece_ok []"
  by (simp add: piece_ok_def elem_def)

lemma piece_append: "piece_ok xs \<Longrightarrow> piece_ok ys \<Longrightarrow> piece_ok (xs @ ys)"
  unfolding piece_ok_def append_assoc by (rule wf_from_append)

lemma piece_concat: "\<forall>x \<in> set xs. piece_ok x \<Longrightarrow> piece_ok (concat xs)"
  by (induction xs) (auto intro: piece_append)

lemma piece_single [simp]: "t \<in> {GRETYPE_ALT, GRETYPE_CHAR, GRETYPE_CHAR_ANY, GRETYPE_TOKEN, GRETYPE_TOKEN_NOT, GRETYPE_RULE_REF} \<Longrightarrow> piece_ok [elem t v]"
  using unsigned_less [of v, where 'a = nat] by (auto simp: piece_ok_def elem_def)

lemma refs_simps [simp]: "refs [] = {}" "refs (xs @ ys) = refs xs \<union> refs ys" "refs (concat xss) = (\<Union>xs \<in> set xss. refs xs)"
  "refs [elem t v] = (if t = GRETYPE_RULE_REF then {v} else {})"
  by (auto simp: refs_def elem_def)

lemma refs_Cons [simp]: "refs (elem t v # xs) = (if t = GRETYPE_RULE_REF then {v} else {}) \<union> refs xs"
  by (cases "t = GRETYPE_RULE_REF") (force simp: refs_def elem_def)+

lemma refs_take: "refs (take n xs) \<subseteq> refs xs" "refs (drop n xs) \<subseteq> refs xs"
  by (auto simp: refs_def dest: in_set_takeD in_set_dropD)

subsection \<open>The symbol table\<close>

lemma length_mput_le: "length xs \<le> length (mput k v xs)"
  by (induction k v xs rule: mput.induct) auto

lemma mput_new: "k \<notin> fst ` set xs \<Longrightarrow> set (mput k v xs) = insert (k, v) (set xs) \<and> length (mput k v xs) = length xs + 1"
  by (induction k v xs rule: mput.induct) auto

lemma in_set_mput: "(k, v) \<in> set (mput k v xs)"
  by (induction k v xs rule: mput.induct) auto

lemma dec_string_value: "foldl (\<lambda>n d. 10 * n + unat (d - ch CHR ''0'')) 0 (dec_string n) = n"
proof (induction n rule: dec_string.induct)
  case (1 n)
  have "unat (of_nat (n mod 10) :: byte) = n mod 10" by (simp add: unat_of_nat)
  then show ?case using 1 by (subst dec_string.simps) (simp add: mult.commute)
qed

lemma dec_string_inj: "dec_string m = dec_string n \<Longrightarrow> m = n"
  using dec_string_value by metis

lemma split_unique:
  assumes "x \<notin> set a" "x \<notin> set b" "a @ x # c = b @ x # d"
  shows "c = d"
proof -
  have "dropWhile (\<lambda>y. y \<noteq> x) (l @ x # r) = x # r" if "x \<notin> set l" for l r using that by (induction l) auto
  then show ?thesis using assms by (metis list.inject)
qed

lemma names_step:
  assumes "names_ok p" "fst ` set (gp_symbol_ids p') = insert w (fst ` set (gp_symbol_ids p))" "n_symbols p \<le> n_symbols p'"
    and "ch CHR ''_'' \<in> set w \<Longrightarrow> \<exists>base k. ch CHR ''_'' \<notin> set base \<and> k < n_symbols p' \<and> w = base @ ch CHR ''_'' # dec_string k"
  shows "names_ok p'"
  unfolding names_ok_def
proof (intro ballI impI)
  fix v assume v: "v \<in> fst ` set (gp_symbol_ids p')" "ch CHR ''_'' \<in> set v"
  show "\<exists>base k. ch CHR ''_'' \<notin> set base \<and> k < n_symbols p' \<and> v = base @ ch CHR ''_'' # dec_string k"
  proof (cases "v = w")
    case True
    then show ?thesis using assms(4) v(2) by blast
  next
    case False
    then have "v \<in> fst ` set (gp_symbol_ids p)" using v(1) unfolding assms(2) by blast
    then obtain b j where "ch CHR ''_'' \<notin> set b" "j < n_symbols p" "v = b @ ch CHR ''_'' # dec_string j"
      using assms(1) v(2) unfolding names_ok_def by blast
    then show ?thesis using assms(3) by (intro exI [of _ b] exI [of _ j]) simp
  qed
qed

lemma get_symbol_grows:
  assumes "get_symbol_id name p = (k, p')" "ch CHR ''_'' \<notin> set name"
  shows "grows (\<lambda>p. p) parser_inv p p' \<and> k \<in> ids p'"
proof (cases "map_of (gp_symbol_ids p) name")
  case None
  then have n: "name \<notin> fst ` set (gp_symbol_ids p)" by (simp add: map_of_eq_None_iff)
  have p': "p' = p\<lparr>gp_symbol_ids := mput name (next_id p) (gp_symbol_ids p)\<rparr>" "k = next_id p" using assms(1) None by (auto simp: get_symbol_id_def)
  have "ids p' = insert k (ids p)" "n_symbols p' = n_symbols p + 1" using mput_new [OF n, of "next_id p"] by (simp_all add: p' ids_def)
  moreover have "names_ok p \<Longrightarrow> names_ok p'"
    by (rule names_step [where w = name]) (use mput_new [OF n, of "next_id p"] assms(2) in \<open>auto simp: p'(1)\<close>)
  ultimately show ?thesis by (auto simp: grows_def parser_inv_def p'(1))
next
  case (Some i)
  then have "p' = p" "k \<in> snd ` set (gp_symbol_ids p)" using assms(1) by (force simp: get_symbol_id_def dest: map_of_SomeD)+
  then show ?thesis by (simp add: ids_def)
qed

lemma generate_symbol_grows:
  assumes g: "generate_symbol_id base p = (k, p')" "ch CHR ''_'' \<notin> set base"
  shows "grows (\<lambda>p. p) parser_inv p p' \<and> k \<in> ids p'"
proof -
  define w where "w = base @ ch CHR ''_'' # dec_string (unat (next_id p))"
  have p': "p' = p\<lparr>gp_symbol_ids := mput w (next_id p) (gp_symbol_ids p)\<rparr>" "k = next_id p" using g by (auto simp: generate_symbol_id_def w_def)
  have le: "n_symbols p \<le> n_symbols p'" by (simp add: p' length_mput_le)
  have k: "k \<in> ids p'" using in_set_mput [of w "next_id p"] by (force simp: p' ids_def)
  have "parser_inv p' \<and> ids p \<subseteq> ids p'" if b: "n_symbols p' < 2 ^ 32" and inv: "parser_inv p"
  proof -
    have u: "unat (next_id p) = n_symbols p" using b le by (simp add: next_id_def unat_of_nat)
    have n: "w \<notin> fst ` set (gp_symbol_ids p)"
    proof
      assume w: "w \<in> fst ` set (gp_symbol_ids p)"
      moreover have "ch CHR ''_'' \<in> set w" by (simp add: w_def)
      ultimately obtain base' j where j: "ch CHR ''_'' \<notin> set base'" "j < n_symbols p" "w = base' @ ch CHR ''_'' # dec_string j"
        using inv unfolding parser_inv_def names_ok_def by blast
      have "dec_string j = dec_string (n_symbols p)" using split_unique [OF j(1) g(2)] j(3) unfolding w_def u by metis
      then show False using dec_string_inj j(2) by blast
    qed
    note m = mput_new [OF n, of "next_id p"]
    have "names_ok p'"
    proof (rule names_step [where w = w])
      show "fst ` set (gp_symbol_ids p') = insert w (fst ` set (gp_symbol_ids p))" "n_symbols p \<le> n_symbols p'" "names_ok p"
        using m inv by (simp_all add: p'(1) parser_inv_def)
      show "\<exists>base k. ch CHR ''_'' \<notin> set base \<and> k < n_symbols p' \<and> w = base @ ch CHR ''_'' # dec_string k"
        using g(2) m u by (intro exI [of _ base] exI [of _ "n_symbols p"]) (simp add: p'(1) w_def)
    qed
    moreover have "ids p' = insert k (ids p)" using m by (simp add: p' ids_def)
    ultimately show ?thesis using inv by (auto simp: parser_inv_def p'(1))
  qed
  then show ?thesis using le k by (simp add: grows_def)
qed

lemma add_rule_grows:
  assumes "add_rule k rule p = Some p'"
  shows "gp_symbol_ids p' = gp_symbol_ids p" "parser_inv p \<Longrightarrow> wf_from (2 ^ 32) 0 rule \<Longrightarrow> refs rule \<subseteq> ids p \<Longrightarrow> parser_inv p'"
proof -
  obtain rules where r: "p' = p\<lparr>gp_rules := rules\<rparr>" "set rules \<subseteq> insert rule (insert [] (set (gp_rules p)))"
    using assms set_update_subset_insert by (fastforce simp: add_rule_def vset_def resize_rules_def Let_def dest: in_set_takeD split: if_splits)
  show "gp_symbol_ids p' = gp_symbol_ids p" by (simp add: r)
  show "parser_inv p'" if "parser_inv p" "wf_from (2 ^ 32) 0 rule" "refs rule \<subseteq> ids p"
  proof -
    have i: "ids p' = ids p" "names_ok p' = names_ok p" by (simp_all add: r(1) ids_def names_ok_def)
    have "(x = [] \<or> wf_from (2 ^ 32) 0 x) \<and> refs x \<subseteq> ids p" if x: "x \<in> set rules" for x
    proof -
      have "x = rule \<or> x = [] \<or> x \<in> set (gp_rules p)" using r(2) x by blast
      then show ?thesis using \<open>parser_inv p\<close> \<open>wf_from (2 ^ 32) 0 rule\<close> \<open>refs rule \<subseteq> ids p\<close> unfolding parser_inv_def by auto
    qed
    then show ?thesis using \<open>parser_inv p\<close> unfolding parser_inv_def i by (simp add: r(1))
  qed
qed

subsection \<open>Sequences\<close>

definition seq_inv :: "seq_state \<Rightarrow> bool" where
  "seq_inv st = (parser_inv (sq_parser st) \<and> sq_last st \<le> length (sq_rule st) \<and> piece_ok (take (sq_last st) (sq_rule st)) \<and>
     piece_ok (drop (sq_last st) (sq_rule st)) \<and> refs (sq_rule st) \<subseteq> ids (sq_parser st))"

abbreviation seq_grows :: "seq_state \<Rightarrow> seq_state \<Rightarrow> bool" where
  "seq_grows \<equiv> grows sq_parser seq_inv"

lemma seq_inv_rule: "seq_inv st \<Longrightarrow> piece_ok (sq_rule st)"
  using piece_append [of "take (sq_last st) (sq_rule st)" "drop (sq_last st) (sq_rule st)"] by (simp add: seq_inv_def)

text \<open>A new symbol, after a step of the parser.\<close>

lemma new_symbol_grows:
  assumes "grows (\<lambda>p. p) parser_inv (sq_parser st) p" "piece_ok els" "refs els \<subseteq> ids p"
  shows "seq_grows st (new_symbol els n (st\<lparr>sq_parser := p\<rparr>))"
  using assms seq_inv_rule [of st] by (auto simp: grows_def new_symbol_def seq_inv_def)

lemma foldM_upto:
  assumes "foldM f [0..<n] s = Some s'" "I 0 s" "\<And>k s s'. k < n \<Longrightarrow> I k s \<Longrightarrow> f k s = Some s' \<Longrightarrow> I (Suc k) s'"
  shows "I n s'"
  using assms
proof (induction n arbitrary: s')
  case (Suc n)
  then obtain t where t: "foldM f [0..<n] s = Some t" "f n t = Some s'" by (auto simp: foldM_append Option.bind_eq_Some_conv)
  have "I n t" by (rule Suc.IH [OF t(1) Suc.prems(2)]) (use Suc.prems(3) in auto)
  then show ?case using Suc.prems(3) t(2) by blast
qed simp

lemma rec_rules_grow:
  assumes f: "foldM (rec_rule name prev no_max) [0..<n] (0, p) = Some (k, p')" and name: "ch CHR ''_'' \<notin> set name"
  shows "n_symbols p \<le> n_symbols p' \<and> (n_symbols p' < 2 ^ 32 \<longrightarrow> parser_inv p \<longrightarrow> piece_ok prev \<longrightarrow> refs prev \<subseteq> ids p \<longrightarrow>
    parser_inv p' \<and> ids p \<subseteq> ids p' \<and> (n > 0 \<longrightarrow> k \<in> ids p'))"
proof -
  define I where "I = (\<lambda>i (k, p'). n_symbols p \<le> n_symbols p' \<and> (n_symbols p' < 2 ^ 32 \<longrightarrow> parser_inv p \<longrightarrow> piece_ok prev \<longrightarrow> refs prev \<subseteq> ids p \<longrightarrow>
    parser_inv p' \<and> ids p \<subseteq> ids p' \<and> ((i :: nat) > 0 \<longrightarrow> k \<in> ids p')))"
  have "I n (k, p')"
  proof (rule foldM_upto [OF f])
    fix i s s' assume I: "I i s" and r: "rec_rule name prev no_max i s = Some s'"
    obtain j q where s: "s = (j, q)" by (cases s)
    obtain k q1 where g: "generate_symbol_id name q = (k, q1)" by (cases "generate_symbol_id name q")
    let ?rule = "(prev @ (if i > 0 \<or> no_max then [elem GRETYPE_RULE_REF (if no_max then k else j)] else []) @ [elem GRETYPE_ALT 0]) @ [elem GRETYPE_END 0]"
    obtain q2 where a: "add_rule k ?rule q1 = Some q2" "s' = (k, q2)" using r g by (auto simp: s rec_rule_def Option.bind_eq_Some_conv Let_def)
    note G = generate_symbol_grows [OF g name] and A = add_rule_grows [OF a(1)]
    show "I (Suc i) s'" unfolding I_def a(2) prod.case
    proof (intro conjI impI)
      show "n_symbols p \<le> n_symbols q2" using I G A(1) by (auto simp: I_def s grows_def)
      assume b: "n_symbols q2 < 2 ^ 32" and inv: "parser_inv p" "piece_ok prev" "refs prev \<subseteq> ids p"
      have "piece_ok (prev @ (if i > 0 \<or> no_max then [elem GRETYPE_RULE_REF (if no_max then k else j)] else []) @ [elem GRETYPE_ALT 0])"
        using inv(2) by (intro piece_append) auto
      then have w: "wf_from (2 ^ 32) 0 ?rule" unfolding piece_ok_def .
      have b': "n_symbols q1 < 2 ^ 32" "n_symbols q < 2 ^ 32" using b A(1) G by (auto simp: grows_def)
      have q: "parser_inv q" "ids p \<subseteq> ids q" "i > 0 \<Longrightarrow> j \<in> ids q" using I b'(2) inv by (auto simp: I_def s)
      have q1: "parser_inv q1" "ids q \<subseteq> ids q1" "k \<in> ids q1" using G b'(1) q(1) by (auto simp: grows_def)
      have r: "refs ?rule \<subseteq> ids q1" using inv(3) q(2,3) q1(2,3) by auto
      have i2: "ids q2 = ids q1" using A(1) by (simp add: ids_def)
      show "parser_inv q2" by (rule A(2) [OF q1(1) w r])
      show "ids p \<subseteq> ids q2" "k \<in> ids q2" using q(2) q1(2,3) i2 by auto
    qed
  qed (simp add: I_def)
  then show ?thesis by (simp add: I_def)
qed

lemma handle_repetitions_grows:
  assumes h: "handle_repetitions name m n st = Some st'" and name: "ch CHR ''_'' \<notin> set name"
  shows "seq_grows st st'"
proof -
  let ?prev = "drop (sq_last st) (sq_rule st)" and ?N = "unat (n_optional m n)"
  define rule where "rule = (if m = 0 then take (sq_last st) (sq_rule st) else sq_rule st @ concat (replicate (unat m - 1) ?prev))"
  obtain k p where f: "foldM (rec_rule name ?prev (n = - 1)) [0..<?N] (0, sq_parser st) = Some (k, p)"
    and st': "sq_parser st' = p" "sq_last st' = sq_last st" "sq_rule st' = (if n_optional m n > 0 then rule @ [elem GRETYPE_RULE_REF k] else rule)"
    using h by (auto simp: handle_repetitions_def Option.bind_eq_Some_conv Let_def rule_def)
  note R = rec_rules_grow [OF f name]
  show ?thesis unfolding grows_def
  proof (intro conjI impI)
    show "n_symbols (sq_parser st) \<le> n_symbols (sq_parser st')" using R by (simp add: st'(1))
    assume b: "n_symbols (sq_parser st') < 2 ^ 32" and inv: "seq_inv st"
    have pv: "piece_ok ?prev" using inv by (simp add: seq_inv_def)
    have r: "refs ?prev \<subseteq> ids (sq_parser st)" using inv refs_take(2) unfolding seq_inv_def by blast
    then have p: "parser_inv p" "ids (sq_parser st) \<subseteq> ids p" "?N > 0 \<Longrightarrow> k \<in> ids p" using R b inv pv by (auto simp: st'(1) seq_inv_def)
    have le: "sq_last st \<le> length (sq_rule st)" using inv by (simp add: seq_inv_def)
    have N: "n_optional m n > 0 \<Longrightarrow> k \<in> ids p" using p(3) by (simp add: unat_gt_0)
    have dr: "sq_last st \<le> length rule" "take (sq_last st) rule = take (sq_last st) (sq_rule st)" using le by (auto simp: rule_def)
    have "drop (sq_last st) rule = (if m = 0 then [] else ?prev @ concat (replicate (unat m - 1) ?prev))" using le by (simp add: rule_def)
    moreover have "piece_ok (?prev @ concat (replicate (unat m - 1) ?prev))" by (rule piece_append [OF pv piece_concat]) (use pv in auto)
    ultimately have pr: "piece_ok (drop (sq_last st) rule)" by simp
    have pk: "piece_ok (drop (sq_last st) rule @ [elem GRETYPE_RULE_REF k])" by (rule piece_append [OF pr]) simp
    have "refs rule \<subseteq> refs (sq_rule st)" using refs_take [of "sq_last st" "sq_rule st"] by (auto simp: rule_def)
    then have rr: "refs rule \<subseteq> ids p" using inv p(2) by (auto simp: seq_inv_def)
    have "seq_inv st'" using inv p(1) rr N dr pr pk by (auto simp: seq_inv_def st')
    then show "seq_inv st'" "ids (sq_parser st) \<subseteq> ids (sq_parser st')" using p(2) by (simp_all add: st'(1))
  qed
qed

subsection \<open>Items\<close>

lemma literal_loop:
  assumes "text_loop go literal_step (s, []) = Some (s', els)"
  shows "piece_ok els \<and> refs els = {}"
proof -
  define R where "R = (\<lambda>x y. piece_ok x \<and> refs x = {} \<longrightarrow> piece_ok y \<and> refs y = {})"
  have "R [] els"
  proof (rule text_loop_rel [OF assms])
    fix s x s' x' assume "literal_step (s, x) = Some (s', x')"
    then obtain c where "x' = x @ [elem GRETYPE_CHAR c]" by (auto simp: literal_step_def Option.bind_eq_Some_conv)
    then show "R x x'" using piece_append [of x "[elem GRETYPE_CHAR c]"] by (auto simp: R_def)
  qed (auto simp: R_def)
  then show ?thesis by (simp add: R_def)
qed

text \<open>The elements of a class after the first one.\<close>

definition class_tail :: "grammar_rule \<Rightarrow> bool" where
  "class_tail es = ((\<forall>e \<in> set es. ge_type e = GRETYPE_CHAR_ALT \<or> ge_type e = GRETYPE_CHAR_RNG_UPPER) \<and>
     wf_from (2 ^ 32) 1 (es @ [elem GRETYPE_END 0]))"

lemma class_tail_append:
  assumes "class_tail es" "class_tail us" "us \<noteq> []" "ge_type (hd us) = GRETYPE_CHAR_ALT"
  shows "class_tail (es @ us)"
proof -
  obtain u vs where us: "us = u # vs" using assms(3) by (cases us) auto
  have u: "ge_type u = GRETYPE_CHAR_ALT" "wf_from (2 ^ 32) 1 (vs @ [elem GRETYPE_END 0])" using assms(2,4) by (auto simp: us class_tail_def)
  have "wf_from (2 ^ 32) m (es @ us @ [elem GRETYPE_END 0])"
    if "wf_from (2 ^ 32) m (es @ [elem GRETYPE_END 0])" "m \<noteq> 0" "\<forall>e \<in> set es. ge_type e = GRETYPE_CHAR_ALT \<or> ge_type e = GRETYPE_CHAR_RNG_UPPER" for m
    using that
  proof (induction es arbitrary: m)
    case Nil
    then show ?case using u by (simp add: us)
  next
    case (Cons e es)
    then show ?case by auto
  qed
  then show ?thesis using assms(1,2) by (auto simp: class_tail_def)
qed

definition class_ok :: "gretype \<Rightarrow> grammar_rule \<Rightarrow> bool" where
  "class_ok start els = (els = [] \<or> (\<exists>v es. els = elem start v # es \<and> class_tail es))"

lemma class_step_ok:
  assumes "class_step start (s, els) = Some (s', els')" "class_ok start els"
  shows "class_ok start els'"
proof -
  obtain c where c: "els' = els @ [elem (if els \<noteq> [] then GRETYPE_CHAR_ALT else start) c] \<or>
    (\<exists>d. els' = els @ [elem (if els \<noteq> [] then GRETYPE_CHAR_ALT else start) c, elem GRETYPE_CHAR_RNG_UPPER d])"
    using assms(1) by (fastforce simp: class_step_def Option.bind_eq_Some_conv Let_def split: if_splits)
  have t: "class_tail []" "class_tail [elem GRETYPE_CHAR_RNG_UPPER d]" "class_tail [elem GRETYPE_CHAR_ALT c]"
    "class_tail [elem GRETYPE_CHAR_ALT c, elem GRETYPE_CHAR_RNG_UPPER d]" for d by (simp_all add: class_tail_def elem_def)
  show ?thesis
  proof (cases "els = []")
    case True
    then show ?thesis using c t by (auto simp: class_ok_def)
  next
    case False
    then obtain v es where e: "els = elem start v # es" "class_tail es" using assms(2) by (auto simp: class_ok_def)
    have ty: "ge_type (elem k v) = k" for k v by (simp add: elem_def)
    have "class_tail (es @ [elem GRETYPE_CHAR_ALT c])" "class_tail (es @ [elem GRETYPE_CHAR_ALT c, elem GRETYPE_CHAR_RNG_UPPER d])" for d
      using class_tail_append [OF e(2) t(3)] class_tail_append [OF e(2) t(4)] by (simp_all add: ty)
    then show ?thesis using c e(1) by (auto simp: class_ok_def)
  qed
qed

lemma class_loop:
  assumes "text_loop go (class_step start) (s, []) = Some (s', els)" "start \<in> {GRETYPE_CHAR, GRETYPE_CHAR_NOT}"
  shows "piece_ok els \<and> refs els = {}"
proof -
  define R where "R = (\<lambda>x y. class_ok start x \<longrightarrow> class_ok start y)"
  have "R [] els" by (rule text_loop_rel [OF assms(1)]) (auto simp: R_def intro: class_step_ok)
  then have "class_ok start els" by (simp add: R_def class_ok_def)
  then consider "els = []" | v es where "els = elem start v # es" "class_tail es" unfolding class_ok_def by blast
  then show ?thesis
  proof cases
    case 2
    have "refs es = {}" using 2(2) by (auto simp: class_tail_def refs_def)
    moreover have "piece_ok els" using 2 assms(2) by (auto simp: piece_ok_def class_tail_def elem_def)
    ultimately show ?thesis using assms(2) by (auto simp: 2(1))
  qed simp
qed

lemma no_underscore: "\<forall>b \<in> set w. is_word_char b \<Longrightarrow> ch CHR ''_'' \<notin> set w"
  by (auto simp: is_word_char_def is_digit_char_def)

lemma parse_group_grows:
  assumes call: "\<And>s k p s' p'. call s k p = Some (s', p') \<Longrightarrow> grows (\<lambda>p. p) parser_inv p p'"
    and name: "ch CHR ''_'' \<notin> set name" and g: "parse_group call name nested s st = Some (s', st')"
  shows "seq_grows st st'"
proof -
  obtain k p where k: "generate_symbol_id name (sq_parser st) = (k, p)" by (cases "generate_symbol_id name (sq_parser st)")
  obtain r p' m where c: "call (parse_space (tl s) True) k p = Some (r, p')"
    "st' = new_symbol [elem GRETYPE_RULE_REF k] m (st\<lparr>sq_parser := p'\<rparr>)" using g k by (auto simp: parse_group_def Option.bind_eq_Some_conv)
  note G = generate_symbol_grows [OF k name] and C = call [OF c(1)]
  show ?thesis unfolding grows_def
  proof (intro conjI impI)
    show "n_symbols (sq_parser st) \<le> n_symbols (sq_parser st')" using G C by (auto simp: c(2) new_symbol_def grows_def)
    assume b: "n_symbols (sq_parser st') < 2 ^ 32" and inv: "seq_inv st"
    have b': "n_symbols p' < 2 ^ 32" "n_symbols p < 2 ^ 32" using b C by (auto simp: c(2) new_symbol_def grows_def)
    have p: "parser_inv p" "ids (sq_parser st) \<subseteq> ids p" "k \<in> ids p" using G b'(2) inv by (auto simp: grows_def seq_inv_def)
    have p': "parser_inv p'" "ids p \<subseteq> ids p'" using C b'(1) p(1) by (auto simp: grows_def)
    show "seq_inv st'" "ids (sq_parser st) \<subseteq> ids (sq_parser st')"
      using inv p p' seq_inv_rule [OF inv] by (auto simp: seq_inv_def c(2) new_symbol_def)
  qed
qed

lemma seq_step_grows:
  assumes call: "\<And>s k p s' p'. call s k p = Some (s', p') \<Longrightarrow> grows (\<lambda>p. p) parser_inv p p'"
    and name: "ch CHR ''_'' \<notin> set name" and step: "seq_step call tokenize name nested (s, st) = Some (s', st')"
  shows "seq_grows st st'"
proof -
  have new: "seq_grows st (new_symbol els n st)" if "piece_ok els" "refs els = {}" for els n
    using new_symbol_grows [of st "sq_parser st" els n] that by simp
  consider (lit) "parse_literal nested s st = Some (s', st')" | (cls) "parse_class nested s st = Some (s', st')"
    | (tok) "parse_token_item tokenize nested s st = Some (s', st')" | (ref) "parse_reference nested s st = Some (s', st')"
    | (grp) "parse_group call name nested s st = Some (s', st')" | (dot) "st' = new_symbol [elem GRETYPE_CHAR_ANY 0] 1 st"
    | (rep) "parse_repeat name nested s st = Some (s', st')"
    using step by (auto simp: seq_step_def split: if_splits)
  then show ?thesis
  proof cases
    case lit
    then obtain r els where "text_loop (\<lambda>s. peek s \<noteq> ch CHR 0x22) literal_step (tl s, []) = Some (r, els)" "st' = new_symbol els 1 st"
      by (auto simp: parse_literal_def Option.bind_eq_Some_conv)
    then show ?thesis using literal_loop new by metis
  next
    case cls
    then obtain r els q t where "text_loop (\<lambda>s. peek s \<noteq> ch CHR '']'') (class_step t) (q, []) = Some (r, els)" "st' = new_symbol els 1 st"
      "t \<in> {GRETYPE_CHAR, GRETYPE_CHAR_NOT}"
      by (fastforce simp: parse_class_def Option.bind_eq_Some_conv Let_def split: if_splits)
    then show ?thesis using class_loop new by metis
  next
    case tok
    then obtain t k where "st' = new_symbol [elem t k] 1 st" "t \<in> {GRETYPE_TOKEN, GRETYPE_TOKEN_NOT}"
      by (auto simp: parse_token_item_def Option.bind_eq_Some_conv Let_def split: if_splits)
    then show ?thesis using new [of "[elem t k]" 1] by auto
  next
    case ref
    obtain w r where w: "parse_name s = Some (w, r)" using ref by (auto simp: parse_reference_def Option.bind_eq_Some_conv split_beta)
    obtain k p where k: "get_symbol_id w (sq_parser st) = (k, p)" by (cases "get_symbol_id w (sq_parser st)")
    have "ch CHR ''_'' \<notin> set w" using parse_name_length [OF w] by (intro no_underscore) blast
    then have G: "grows (\<lambda>p. p) parser_inv (sq_parser st) p" "k \<in> ids p" using get_symbol_grows [OF k] by blast+
    have "st' = new_symbol [elem GRETYPE_RULE_REF k] 1 (st\<lparr>sq_parser := p\<rparr>)" using ref w k by (simp add: parse_reference_def)
    then show ?thesis using new_symbol_grows [OF G(1), of "[elem GRETYPE_RULE_REF k]" 1] G(2) by simp
  next
    case grp
    show ?thesis by (rule parse_group_grows [OF _ name grp]) (rule call)
  next
    case dot
    then show ?thesis using new [of "[elem GRETYPE_CHAR_ANY 0]" 1] by simp
  next
    case rep
    then obtain m n where "handle_repetitions name m n st = Some st'" by (auto simp: parse_repeat_def Option.bind_eq_Some_conv)
    then show ?thesis by (rule handle_repetitions_grows [OF _ name])
  qed
qed

subsection \<open>Rules\<close>

definition rule_inv :: "grammar_rule \<times> grammar_parser \<Rightarrow> bool" where
  "rule_inv x = (parser_inv (snd x) \<and> piece_ok (fst x) \<and> refs (fst x) \<subseteq> ids (snd x))"

abbreviation rule_grows :: "grammar_rule \<times> grammar_parser \<Rightarrow> grammar_rule \<times> grammar_parser \<Rightarrow> bool" where
  "rule_grows \<equiv> grows snd rule_inv"

lemma parse_sequence_grows:
  assumes call: "\<And>s k p s' p'. call s k p = Some (s', p') \<Longrightarrow> grows (\<lambda>p. p) parser_inv p p'"
    and name: "ch CHR ''_'' \<notin> set name" and q: "parse_sequence call tokenize name nested (s, x) = Some (s', x')"
  shows "rule_grows x x'"
proof -
  obtain rule p where x: "x = (rule, p)" by (cases x)
  let ?st = "\<lparr>sq_rule = rule, sq_last = length rule, sq_prev = 1, sq_parser = p\<rparr>"
  obtain st where st: "text_loop begins_item (seq_step call tokenize name nested) (s, ?st) = Some (s', st)" "x' = (sq_rule st, sq_parser st)"
    using q by (auto simp: parse_sequence_def x Option.bind_eq_Some_conv)
  have "seq_grows ?st st"
  proof (rule text_loop_rel [OF st(1)])
    fix s st s' st' assume step: "seq_step call tokenize name nested (s, st) = Some (s', st')"
    show "seq_grows st st'" by (rule seq_step_grows [OF _ name step]) (rule call)
  next
    fix x y z assume "seq_grows x y" "seq_grows y z"
    then show "seq_grows x z" by (rule grows_trans)
  qed simp
  then show ?thesis using seq_inv_rule [of st] by (auto simp: grows_def x st(2) seq_inv_def rule_inv_def)
qed

lemma alternates_grows:
  assumes call: "\<And>s k p s' p'. call s k p = Some (s', p') \<Longrightarrow> grows (\<lambda>p. p) parser_inv p p'"
    and name: "ch CHR ''_'' \<notin> set name" and q: "alternates call tokenize name nested s k p = Some (s', p')"
  shows "grows (\<lambda>p. p) parser_inv p p'"
proof -
  note sq = parse_sequence_grows [OF call name]
  obtain r rule1 p1 r' rule2 p2 where a: "parse_sequence call tokenize name nested (s, [], p) = Some (r, rule1, p1)"
    "text_loop (\<lambda>s. peek s = ch CHR ''|'') (alternate_step call tokenize name nested) (r, rule1, p1) = Some (r', rule2, p2)"
    "add_rule k (rule2 @ [elem GRETYPE_END 0]) p2 = Some p'"
    using q by (auto simp: alternates_def Option.bind_eq_Some_conv)
  have 1: "rule_grows ([], p) (rule1, p1)" by (rule sq [OF _ a(1)])
  have 2: "rule_grows (rule1, p1) (rule2, p2)"
  proof (rule text_loop_rel [OF a(2)])
    fix x y z assume "rule_grows x y" "rule_grows y z"
    then show "rule_grows x z" by (rule grows_trans)
  next
    fix s x s' x' assume "alternate_step call tokenize name nested (s, x) = Some (s', x')"
    then have "rule_grows (fst x @ [elem GRETYPE_ALT 0], snd x) x'" by (intro sq) (auto simp: alternate_step_def split: prod.splits)
    moreover have "rule_grows x (fst x @ [elem GRETYPE_ALT 0], snd x)" by (auto simp: grows_def rule_inv_def intro!: piece_append)
    ultimately show "rule_grows x x'" by (rule grows_trans [rotated])
  qed simp
  note A = add_rule_grows [OF a(3)]
  have "rule_grows ([], p) (rule2, p2)" by (rule grows_trans [OF 1 2])
  moreover have "rule_inv ([], p) = parser_inv p" by (simp add: rule_inv_def)
  moreover have "parser_inv p'" if "rule_inv (rule2, p2)" using A(2) that by (simp add: rule_inv_def piece_ok_def)
  ultimately show ?thesis using A(1) by (auto simp: grows_def ids_def)
qed

lemma parse_alternates_grows:
  "parse_alternates n tokenize name nested s k p = Some (s', p') \<Longrightarrow> ch CHR ''_'' \<notin> set name \<Longrightarrow> grows (\<lambda>p. p) parser_inv p p'"
proof (induction n arbitrary: nested s k p s' p')
  case 0
  show ?case by (rule alternates_grows [OF _ 0(2)]) (use 0(1) in auto)
next
  case (Suc n)
  show ?case
    by (rule alternates_grows [OF _ Suc.prems(2), of "parse_alternates n tokenize name True"]) (use Suc in auto)
qed

lemma parse_rule_grows:
  assumes "parse_rule tokenize (s, p) = Some (s', p')"
  shows "grows (\<lambda>p. p) parser_inv p p'"
proof -
  obtain name r where w: "parse_name s = Some (name, r)" using assms by (auto simp: parse_rule_def Option.bind_eq_Some_conv)
  obtain k p1 where k: "get_symbol_id name p = (k, p1)" by (cases "get_symbol_id name p")
  have u: "ch CHR ''_'' \<notin> set name" using parse_name_length [OF w] by (intro no_underscore) blast
  obtain r' where "parse_alternates 256 tokenize name False (parse_space (drop 3 (parse_space r False)) True) k p1 = Some (r', p')"
    using assms w k by (auto simp: parse_rule_def Option.bind_eq_Some_conv Let_def)
  then have g: "grows (\<lambda>p. p) parser_inv p1 p'" by (rule parse_alternates_grows [OF _ u])
  show ?thesis by (rule grows_trans [OF _ g]) (use get_symbol_grows [OF k u] in simp)
qed

section \<open>What a successful parse gives\<close>

lemma wf_from_bound: "wf_from m k es \<Longrightarrow> \<forall>e \<in> set es. ge_type e = GRETYPE_RULE_REF \<longrightarrow> unat (ge_value e) < n \<Longrightarrow> wf_from n k es"
  by (induction es arbitrary: k) (auto split: gretype.splits)

theorem parsed_rules_ok:
  assumes p: "grammar_parse tokenize src = Some p" and n: "n_symbols p < 2 ^ 32"
  shows "rules_ok (gp_rules p)"
proof -
  obtain s where l: "text_loop (\<lambda>s. peek s \<noteq> 0) (parse_rule tokenize) (parse_space src True, \<lparr>gp_symbol_ids = [], gp_rules = []\<rparr>) = Some (s, p)"
    and d: "rules_defined p" using p by (auto simp: grammar_parse_def Option.bind_eq_Some_conv)
  have "grows (\<lambda>p. p) parser_inv \<lparr>gp_symbol_ids = [], gp_rules = []\<rparr> p"
  proof (rule text_loop_rel [OF l])
    fix x y z assume "grows (\<lambda>p. p) parser_inv x y" "grows (\<lambda>p. p) parser_inv y z"
    then show "grows (\<lambda>p. p) parser_inv x z" by (rule grows_trans)
  next
    fix s p s' p' assume "parse_rule tokenize (s, p) = Some (s', p')"
    then show "grows (\<lambda>p. p) parser_inv p p'" by (rule parse_rule_grows)
  qed simp
  then have inv: "parser_inv p" using n by (simp add: grows_def parser_inv_def names_ok_def)
  have "wf_from (length (gp_rules p)) 0 rule" if r: "rule \<in> set (gp_rules p)" for rule
  proof -
    have w: "wf_from (2 ^ 32) 0 rule" and i: "refs rule \<subseteq> ids p" using inv d r unfolding parser_inv_def rules_defined_def by blast+
    have "unat (ge_value e) < length (gp_rules p)" if e: "e \<in> set rule" "ge_type e = GRETYPE_RULE_REF" for e
    proof -
      have "ge_value e \<in> snd ` set (gp_symbol_ids p)" using i e unfolding refs_def ids_def by blast
      moreover have "(unat (ge_value e) < length (gp_rules p) \<and> gp_rules p ! unat (ge_value e) \<noteq> []) \<or> ge_value e \<notin> snd ` set (gp_symbol_ids p)"
        using d r e unfolding rules_defined_def by simp
      ultimately show ?thesis by simp
    qed
    then show ?thesis using wf_from_bound [OF w] by simp
  qed
  then show ?thesis by (simp add: rules_ok_def)
qed

end
