(* ===== verification/GrammarLang.thy ===== *)
theory GrammarLang
  imports GrammarStacks
begin

text \<open>
  The language of a grammar as a reference definition, and the proof that the stacks are its
  derivatives: what the stacks accept after a code point is what the stacks before accepted behind it.
\<close>

section \<open>The language\<close>

text \<open>The texts the rest of an alternative derives, from a position on.\<close>

inductive gen :: "grammar_rules \<Rightarrow> grammar_pos \<Rightarrow> codepoint list \<Rightarrow> bool" for rules where
  gen_end: "at_end rules p = Some True \<Longrightarrow> gen rules p []"
| gen_char: "match_char rules p c = Some (True, q) \<Longrightarrow> gen rules q w \<Longrightarrow> gen rules p (c # w)"
| gen_ref: "elem_at rules p = Some e \<Longrightarrow> ge_type e = GRETYPE_RULE_REF \<Longrightarrow> alt_starts rules (unat (ge_value e)) = Some ss \<Longrightarrow>
    fst q = unat (ge_value e) \<Longrightarrow> snd q \<in> set ss \<Longrightarrow> gen rules q u \<Longrightarrow> gen rules (next_pos p) w \<Longrightarrow> gen rules p (u @ w)"

definition rule_lang :: "grammar_rules \<Rightarrow> nat \<Rightarrow> codepoint list \<Rightarrow> bool" where
  "rule_lang rules r w = (\<exists>ss s. alt_starts rules r = Some ss \<and> s \<in> set ss \<and> gen rules (r, s) w)"

fun stack_lang :: "grammar_rules \<Rightarrow> grammar_stack \<Rightarrow> codepoint list \<Rightarrow> bool" where
  "stack_lang rules [] w = (w = [])"
| "stack_lang rules (p # st) w = (\<exists>u v. w = u @ v \<and> gen rules p u \<and> stack_lang rules st v)"

definition stacks_lang :: "grammar_rules \<Rightarrow> grammar_stack set \<Rightarrow> codepoint list \<Rightarrow> bool" where
  "stacks_lang rules A w = (\<exists>st \<in> A. stack_lang rules st w)"

lemma stacks_lang_Un: "stacks_lang rules (A \<union> B) w \<longleftrightarrow> stacks_lang rules A w \<or> stacks_lang rules B w"
  by (auto simp: stacks_lang_def)

lemma match_char_elem: "match_char rules p c = Some x \<Longrightarrow> \<exists>e. elem_at rules p = Some e \<and> char_type e"
  by (cases "elem_at rules p") (auto simp: match_char_def is_positive_char_def char_type_def Option.bind_eq_Some_conv)

lemma gen_at_end:
  assumes "at_end rules p = Some True"
  shows "gen rules p w \<longleftrightarrow> w = []"
proof
  obtain e where e: "elem_at rules p = Some e" "is_end_of_sequence e" using assms by (auto simp: at_end_def)
  assume "gen rules p w"
  then show "w = []"
    using e by (cases rule: gen.cases) (auto dest!: match_char_elem simp: is_end_of_sequence_def char_type_def)
qed (use assms gen_end in simp)

lemma gen_reference:
  assumes "elem_at rules p = Some e" "ge_type e = GRETYPE_RULE_REF"
  shows "gen rules p w \<longleftrightarrow> (\<exists>u v. w = u @ v \<and> rule_lang rules (unat (ge_value e)) u \<and> gen rules (next_pos p) v)"
proof
  assume "gen rules p w"
  then show "\<exists>u v. w = u @ v \<and> rule_lang rules (unat (ge_value e)) u \<and> gen rules (next_pos p) v"
  proof (cases rule: gen.cases)
    case gen_end
    then show ?thesis using assms by (auto simp: at_end_def is_end_of_sequence_def)
  next
    case (gen_char c q v)
    then show ?thesis using match_char_elem [OF gen_char(2)] assms by (auto simp: char_type_def)
  next
    case (gen_ref e' ss q u v)
    have "e' = e" using gen_ref(2) assms(1) by simp
    then have "rule_lang rules (unat (ge_value e)) u" using gen_ref(4-7) unfolding rule_lang_def by (metis prod.collapse)
    then show ?thesis using gen_ref(1,8) by blast
  qed
next
  assume "\<exists>u v. w = u @ v \<and> rule_lang rules (unat (ge_value e)) u \<and> gen rules (next_pos p) v"
  then obtain u v ss s where u: "w = u @ v" "gen rules (next_pos p) v" "alt_starts rules (unat (ge_value e)) = Some ss" "s \<in> set ss"
    "gen rules (unat (ge_value e), s) u" by (auto simp: rule_lang_def)
  show "gen rules p w" unfolding u(1) by (rule gen_ref [OF assms u(3) _ _ u(5,2)]) (use u(4) in simp_all)
qed

lemma gen_character:
  assumes "elem_at rules p = Some e" "char_type e"
  shows "gen rules p w \<longleftrightarrow> (\<exists>c q v. w = c # v \<and> match_char rules p c = Some (True, q) \<and> gen rules q v)"
proof
  assume "gen rules p w"
  then show "\<exists>c q v. w = c # v \<and> match_char rules p c = Some (True, q) \<and> gen rules q v"
    using assms by (cases rule: gen.cases) (auto simp: at_end_def is_end_of_sequence_def char_type_def)
qed (auto intro: gen_char)

lemma gen_token:
  assumes "elem_at rules p = Some e" "is_token_elem e"
  shows "\<not> gen rules p w"
proof
  assume "gen rules p w"
  then show False
    using assms by (cases rule: gen.cases) (auto dest!: match_char_elem simp: at_end_def is_end_of_sequence_def is_token_elem_def char_type_def)
qed

section \<open>Expansion keeps the language\<close>

lemma push_pos_lang:
  assumes "push_pos rules p st = Some st'"
  shows "stack_lang rules st' w \<longleftrightarrow> (\<exists>u v. w = u @ v \<and> gen rules p u \<and> stack_lang rules st v)"
proof (cases "at_end rules p = Some True")
  case True
  then show ?thesis using assms gen_at_end [OF True] by (auto simp: push_pos_def)
next
  case False
  then have "st' = p # st" using assms by (auto simp: push_pos_def Option.bind_eq_Some_conv split: if_splits)
  then show ?thesis by simp
qed

lemma enter_alt_lang:
  assumes "enter_alt rules p st r s = Some st'"
  shows "stack_lang rules st' w \<longleftrightarrow> (\<exists>u v x. w = u @ v @ x \<and> gen rules (r, s) u \<and> gen rules (next_pos p) v \<and> stack_lang rules st x)"
proof -
  obtain st1 where "push_pos rules (next_pos p) st = Some st1" "push_pos rules (r, s) st1 = Some st'"
    using assms by (auto simp: enter_alt_def Option.bind_eq_Some_conv)
  then have "stack_lang rules st' w \<longleftrightarrow> (\<exists>u v. w = u @ v \<and> gen rules (r, s) u \<and> (\<exists>v1 v2. v = v1 @ v2 \<and> gen rules (next_pos p) v1 \<and> stack_lang rules st v2))"
    using push_pos_lang by simp
  then show ?thesis by (simp only: ex_simps simp_thms) metis
qed

lemma expands_lang:
  assumes "expands rules st t" "stack_lang rules t w"
  shows "stack_lang rules st w"
  using assms
proof (cases rule: expands.cases)
  case (expand p e ss s rest)
  obtain u v x where u: "w = u @ v @ x" "gen rules (unat (ge_value e), s) u" "gen rules (next_pos p) v" "stack_lang rules rest x"
    using enter_alt_lang [OF expand(6)] assms(2) by blast
  have "rule_lang rules (unat (ge_value e)) u" using expand(4,5) u(2) unfolding rule_lang_def by blast
  then have "gen rules p (u @ v)" using gen_reference [OF expand(2,3)] u(3) by blast
  moreover have "w = (u @ v) @ x" using u(1) by simp
  ultimately show ?thesis using u(4) unfolding expand(1) stack_lang.simps by blast
qed

lemma lang_expands:
  assumes R: "rules_ok rules" and st: "stack_ok rules st" "\<not> final_stack rules st" and w: "stack_lang rules st w"
  obtains t where "expands rules st t" "stack_lang rules t w"
proof -
  obtain p rest e ss where t: "st = p # rest" "elem_at rules p = Some e" "ge_type e = GRETYPE_RULE_REF" "pos_ok rules (next_pos p)"
    "stack_ok rules rest" "alt_starts rules (unat (ge_value e)) = Some ss" "ss \<noteq> []" "\<forall>s \<in> set ss. pos_ok rules (unat (ge_value e), s)"
    using stack_top [OF R st] .
  obtain u v x s where u: "w = u @ v @ x" "s \<in> set ss" "gen rules (unat (ge_value e), s) u" "gen rules (next_pos p) v" "stack_lang rules rest x"
    using w t(1,6) gen_reference [OF t(2,3)] by (auto simp: rule_lang_def)
  obtain st' where s: "enter_alt rules p rest (unat (ge_value e)) s = Some st'" "stack_ok rules st'"
    using enter_alt_ok [OF R t(4) _ t(5)] t(8) u(2) by metis
  have "expands rules st st'" unfolding t(1) by (rule expand [OF t(2,3,6) u(2) s(1)])
  moreover have "stack_lang rules st' w" using enter_alt_lang [OF s(1)] u by blast
  ultimately show thesis by (rule that)
qed

lemma closure_lang:
  assumes R: "rules_ok rules" and ends: "expansion_ends rules st" and st: "stack_ok rules st"
  shows "stacks_lang rules (closure rules {st}) w \<longleftrightarrow> stack_lang rules st w"
proof
  assume "stacks_lang rules (closure rules {st}) w"
  then obtain t where "reaches rules st t" "stack_lang rules t w" by (auto simp: stacks_lang_def closure_def)
  then show "stack_lang rules st w" by (induction rule: converse_rtranclp_induct) (auto intro: expands_lang)
next
  assume "stack_lang rules st w"
  then show "stacks_lang rules (closure rules {st}) w"
    using st
  proof (induction rule: accp_induct_rule [OF ends])
    case (1 st)
    show ?case
    proof (cases "final_stack rules st")
      case True
      then show ?thesis using 1(3) by (auto simp: stacks_lang_def closure_def)
    next
      case False
      obtain t where t: "expands rules st t" "stack_lang rules t w" using lang_expands [OF R 1(4) False 1(3)] .
      have "stack_ok rules t" by (rule reaches_ok [OF R _ 1(4)]) (use t(1) in auto)
      then have "stacks_lang rules (closure rules {t}) w" using 1(2) t by blast
      then show ?thesis using t(1) by (auto simp: stacks_lang_def closure_def intro: converse_rtranclp_into_rtranclp)
    qed
  qed
qed

section \<open>Accepting text\<close>

definition grammar_ok :: "grammar_rules \<Rightarrow> bool" where
  "grammar_ok rules = (rules_ok rules \<and> (\<forall>st. stack_ok rules st \<longrightarrow> expansion_ends rules st))"

definition stacks_ok :: "grammar_rules \<Rightarrow> grammar_stack set \<Rightarrow> bool" where
  "stacks_ok rules A = (\<forall>st \<in> A. stack_ok rules st \<and> final_stack rules st)"

lemma grammar_okD: "grammar_ok rules \<Longrightarrow> rules_ok rules" "grammar_ok rules \<Longrightarrow> stack_ok rules st \<Longrightarrow> expansion_ends rules st"
  by (simp_all add: grammar_ok_def)

lemma advance_ok:
  assumes "grammar_ok rules" "stack_ok rules st"
  shows "wp (advance_stack rules st new) (\<lambda>new'. set new' = set new \<union> closure rules {st} \<and> (distinct new \<longrightarrow> distinct new'))"
  by (rule advance_stack_wp [OF grammar_okD(1) [OF assms(1)] grammar_okD(2) [OF assms(1)] assms(2)])

lemma closure_ok: "grammar_ok rules \<Longrightarrow> stack_ok rules st \<Longrightarrow> stacks_ok rules (closure rules {st})"
  using reaches_ok [OF grammar_okD(1)] by (auto simp: stacks_ok_def closure_def)

text \<open>The stacks that follow a stack after the character \<open>c\<close>.\<close>

definition after_char :: "grammar_rules \<Rightarrow> grammar_stack \<Rightarrow> codepoint \<Rightarrow> grammar_stack set" where
  "after_char rules st c = (case st of [] \<Rightarrow> {}
   | p # rest \<Rightarrow> {t. \<exists>q st'. match_char rules p c = Some (True, q) \<and> push_pos rules q rest = Some st' \<and> t \<in> closure rules {st'}})"

text \<open>The top of a final stack.\<close>

lemma final_cases:
  assumes "stack_ok rules (p # rest)" "final_stack rules (p # rest)"
  obtains (char) e q where "elem_at rules p = Some e" "char_type e" "\<not> is_token_elem e" "pos_ok rules q" "\<forall>c. \<exists>b. match_char rules p c = Some (b, q)"
  | (token) e where "elem_at rules p = Some e" "\<not> char_type e" "is_token_elem e" "pos_ok rules (next_pos p)"
proof -
  have p: "pos_ok rules p" using assms(1) by (simp add: stack_ok_def)
  obtain e es where e: "suffix_at rules p = e # es" "elem_at rules p = Some e" "suffix_at rules (next_pos p) = es" "wf_from (length rules) 0 (e # es)"
    using suffix_cases [OF p] .
  have t: "is_terminal e" using assms(2) e(2) by (simp add: final_stack_def)
  show thesis
  proof (cases "char_type e")
    case True
    obtain q where "pos_ok rules q" "\<forall>c. \<exists>b. match_char rules p c = Some (b, q)" using match_char_ok [OF p e(2) True] .
    moreover have "\<not> is_token_elem e" using True by (auto simp: char_type_def is_token_elem_def)
    ultimately show thesis using char [OF e(2) True] by blast
  next
    case False
    then have tk: "is_token_elem e" using t by (auto simp: is_terminal_def char_type_def is_token_elem_def)
    then have "wf_from (length rules) 0 es" using e(4) by (auto simp: is_token_elem_def)
    then show thesis using token [OF e(2) False tk] p e(3) by (simp add: pos_ok_def next_pos_def)
  qed
qed

lemma accept_chr_wp:
  assumes G: "grammar_ok rules" and st: "stack_ok rules st" "final_stack rules st"
  shows "wp (accept_chr rules st c new) (\<lambda>new'. set new' = set new \<union> after_char rules st c \<and> (distinct new \<longrightarrow> distinct new'))"
proof (cases st)
  case Nil
  then show ?thesis by (simp add: accept_chr_def after_char_def)
next
  case (Cons p rest)
  have rest: "stack_ok rules rest" using st(1) by (simp add: Cons stack_ok_def)
  from st [unfolded Cons] show ?thesis
  proof (cases rule: final_cases)
    case (char e q)
    obtain b where b: "match_char rules p c = Some (b, q)" using char(5) by blast
    obtain st' where s: "push_pos rules q rest = Some st'" "stack_ok rules st'" using push_pos_ok [OF char(4) rest] by metis
    have "after_char rules st c = (if b then closure rules {st'} else {})" using b s(1) by (auto simp: after_char_def Cons)
    then show ?thesis using char(1,3) b s(1) advance_ok [OF G s(2), of new] by (simp add: accept_chr_def Cons)
  next
    case (token e)
    have "match_char rules p c \<noteq> Some x" for x using match_char_elem [of rules p c x] token(1,2) by auto
    then show ?thesis using token(1,3) by (simp add: accept_chr_def Cons after_char_def)
  qed
qed

lemma after_char_ok:
  assumes G: "grammar_ok rules" and st: "stack_ok rules st" "final_stack rules st"
  shows "stacks_ok rules (after_char rules st c)"
proof (cases st)
  case (Cons p rest)
  have rest: "stack_ok rules rest" using st(1) by (simp add: Cons stack_ok_def)
  from st [unfolded Cons] show ?thesis
  proof (cases rule: final_cases)
    case (char e q)
    obtain st' where s: "push_pos rules q rest = Some st'" "stack_ok rules st'" using push_pos_ok [OF char(4) rest] by metis
    have "after_char rules st c \<subseteq> closure rules {st'}" using char(5) [rule_format, of c] s(1) by (auto simp: after_char_def Cons)
    then show ?thesis using closure_ok [OF G s(2)] by (auto simp: stacks_ok_def)
  next
    case (token e)
    have "match_char rules p c \<noteq> Some x" for x using match_char_elem [of rules p c x] token(1,2) by auto
    then show ?thesis by (simp add: after_char_def Cons stacks_ok_def)
  qed
qed (simp add: after_char_def stacks_ok_def)

text \<open>The stacks after a character accept what the stack before accepts behind it.\<close>

lemma after_char_lang:
  assumes G: "grammar_ok rules" and st: "stack_ok rules st" "final_stack rules st"
  shows "stacks_lang rules (after_char rules st c) w \<longleftrightarrow> stack_lang rules st (c # w)"
proof (cases st)
  case Nil
  then show ?thesis by (simp add: after_char_def stacks_lang_def)
next
  case (Cons p rest)
  have rest: "stack_ok rules rest" using st(1) by (simp add: Cons stack_ok_def)
  from st [unfolded Cons] show ?thesis
  proof (cases rule: final_cases)
    case (char e q)
    obtain b where b: "match_char rules p c = Some (b, q)" using char(5) by blast
    obtain st' where s: "push_pos rules q rest = Some st'" "stack_ok rules st'" using push_pos_ok [OF char(4) rest] by metis
    have A: "after_char rules st c = (if b then closure rules {st'} else {})" using b s(1) by (auto simp: after_char_def Cons)
    have g: "gen rules p u \<longleftrightarrow> (\<exists>d v. u = d # v \<and> match_char rules p d = Some (True, q) \<and> gen rules q v)" for u
    proof -
      have "q' = q" if "match_char rules p d = Some (True, q')" for d q' using char(5) [rule_format, of d] that by auto
      then show ?thesis unfolding gen_character [OF char(1,2)] by blast
    qed
    have "stack_lang rules st (c # w) \<longleftrightarrow> b \<and> (\<exists>v x. w = v @ x \<and> gen rules q v \<and> stack_lang rules rest x)"
    proof
      assume "stack_lang rules st (c # w)"
      then obtain u x d v where "c # w = u @ x" "u = d # v" "match_char rules p d = Some (True, q)" "gen rules q v" "stack_lang rules rest x"
        unfolding Cons stack_lang.simps g by blast
      then show "b \<and> (\<exists>v x. w = v @ x \<and> gen rules q v \<and> stack_lang rules rest x)" using b by auto
    next
      assume "b \<and> (\<exists>v x. w = v @ x \<and> gen rules q v \<and> stack_lang rules rest x)"
      then obtain v x where "b" "w = v @ x" "gen rules q v" "stack_lang rules rest x" by blast
      then have "c # w = (c # v) @ x" "gen rules p (c # v)" using g b by auto
      then show "stack_lang rules st (c # w)" unfolding Cons stack_lang.simps using \<open>stack_lang rules rest x\<close> by blast
    qed
    also have "\<dots> \<longleftrightarrow> b \<and> stack_lang rules st' w" using push_pos_lang [OF s(1)] by simp
    also have "\<dots> \<longleftrightarrow> stacks_lang rules (after_char rules st c) w"
      using closure_lang [OF grammar_okD(1) [OF G] grammar_okD(2) [OF G s(2)] s(2)] A by (auto simp: stacks_lang_def)
    finally show ?thesis by simp
  next
    case (token e)
    have "match_char rules p c \<noteq> Some x" for x using match_char_elem [of rules p c x] token(1,2) by auto
    then show ?thesis using gen_token [OF token(1,3)] by (simp add: after_char_def Cons stacks_lang_def)
  qed
qed

definition after_set :: "grammar_rules \<Rightarrow> grammar_stack set \<Rightarrow> codepoint \<Rightarrow> grammar_stack set" where
  "after_set rules A c = (\<Union>st \<in> A. after_char rules st c)"

fun after_text :: "grammar_rules \<Rightarrow> grammar_stack set \<Rightarrow> codepoint list \<Rightarrow> grammar_stack set" where
  "after_text rules A [] = A"
| "after_text rules A (c # cs) = after_text rules (after_set rules A c) cs"

lemma after_set_ok: "grammar_ok rules \<Longrightarrow> stacks_ok rules A \<Longrightarrow> stacks_ok rules (after_set rules A c)"
  using after_char_ok unfolding stacks_ok_def after_set_def by blast

lemma after_text_ok: "grammar_ok rules \<Longrightarrow> stacks_ok rules A \<Longrightarrow> stacks_ok rules (after_text rules A cs)"
  by (induction cs arbitrary: A) (auto intro: after_set_ok)

lemma after_set_lang:
  "grammar_ok rules \<Longrightarrow> stacks_ok rules A \<Longrightarrow> stacks_lang rules (after_set rules A c) w \<longleftrightarrow> stacks_lang rules A (c # w)"
  using after_char_lang unfolding stacks_ok_def after_set_def stacks_lang_def by (simp add: Bex_def) metis

lemma after_text_lang:
  "grammar_ok rules \<Longrightarrow> stacks_ok rules A \<Longrightarrow> stacks_lang rules (after_text rules A u) w \<longleftrightarrow> stacks_lang rules A (u @ w)"
  by (induction u arbitrary: A) (simp_all add: after_set_ok after_set_lang)

lemma accept_all_wp:
  assumes G: "grammar_ok rules" and sts: "stacks_ok rules (set sts)"
  shows "wp (accept_all rules sts c) (\<lambda>new. set new = after_set rules (set sts) c \<and> distinct new)"
  unfolding accept_all_def
proof (rule wp_foreach [where I = "\<lambda>ys new. set new = after_set rules (set ys) c \<and> distinct new"])
  fix ys y zs new assume s: "sts = ys @ y # zs" and I: "set new = after_set rules (set ys) c \<and> distinct new"
  have y: "stack_ok rules y" "final_stack rules y" using sts by (auto simp: s stacks_ok_def)
  show "wp (accept_chr rules y c new) (\<lambda>new. set new = after_set rules (set (ys @ [y])) c \<and> distinct new)"
    using accept_chr_wp [OF G y, of c new] I by (auto elim!: wp_mono simp: after_set_def)
qed (auto simp: after_set_def)

lemma accept_text_wp:
  assumes G: "grammar_ok (gr_rules g)" and sts: "stacks_ok (gr_rules g) (set (gr_stacks g))"
  shows "wp (foldM grammar_accept cs g) (\<lambda>g'. set (gr_stacks g') = after_text (gr_rules g) (set (gr_stacks g)) cs \<and> g' = g\<lparr>gr_stacks := gr_stacks g'\<rparr>)"
  using assms
proof (induction cs arbitrary: g)
  case (Cons c cs)
  obtain new where n: "accept_all (gr_rules g) (gr_stacks g) c = Some new" "set new = after_set (gr_rules g) (set (gr_stacks g)) c"
    using accept_all_wp [OF Cons.prems] by (auto simp: wp_def)
  let ?g = "g\<lparr>gr_stacks := new\<rparr>"
  have "wp (foldM grammar_accept cs ?g) (\<lambda>g'. set (gr_stacks g') = after_text (gr_rules ?g) (set (gr_stacks ?g)) cs \<and> g' = ?g\<lparr>gr_stacks := gr_stacks g'\<rparr>)"
    by (rule Cons.IH) (use Cons.prems n(2) after_set_ok in auto)
  moreover have "foldM grammar_accept (c # cs) g = foldM grammar_accept cs ?g" using n(1) by (simp add: grammar_accept_def)
  ultimately show ?case using n(2) by simp
qed simp

text \<open>The stacks of a new grammar accept the language of its start rule.\<close>

lemma start_stacks_wp:
  assumes G: "grammar_ok rules" and start: "start < length rules"
  shows "wp (start_stacks rules start) (\<lambda>sts. stacks_ok rules (set sts) \<and> (\<forall>w. stacks_lang rules (set sts) w = rule_lang rules start w) \<and> distinct sts \<and> sts \<noteq> [])"
proof -
  obtain ss where ss: "alt_starts rules start = Some (0 # ss)" "\<forall>s \<in> set (0 # ss). pos_ok rules (start, s)"
    using alt_starts_ok [OF grammar_okD(1) [OF G] start] by metis
  let ?I = "\<lambda>ys sts. stacks_ok rules (set sts) \<and> (\<forall>w. stacks_lang rules (set sts) w = (\<exists>s \<in> set ys. gen rules (start, s) w)) \<and> distinct sts \<and> (ys \<noteq> [] \<longrightarrow> sts \<noteq> [])"
  have "wp (foldM (\<lambda>s new. do { st \<leftarrow> push_pos rules (start, s) []; advance_stack rules st new }) (0 # ss) []) (?I (0 # ss))"
  proof (rule wp_foreach [where I = ?I])
    fix ys s zs sts assume s: "0 # ss = ys @ s # zs" and I: "?I ys sts"
    have "pos_ok rules (start, s)" using ss(2) by (simp only: s) simp
    moreover have "stack_ok rules []" by (simp add: stack_ok_def)
    ultimately obtain st where st: "push_pos rules (start, s) [] = Some st" "stack_ok rules st" using push_pos_ok by metis
    obtain new where new: "advance_stack rules st sts = Some new" "set new = set sts \<union> closure rules {st}" "distinct new"
      using advance_ok [OF G st(2), of sts] I by (auto simp: wp_def)
    have cl: "stacks_lang rules (closure rules {st}) w \<longleftrightarrow> gen rules (start, s) w" for w
      using closure_lang [OF grammar_okD(1) [OF G] grammar_okD(2) [OF G st(2)] st(2)] push_pos_lang [OF st(1)] by simp
    have "stacks_lang rules (set new) w \<longleftrightarrow> (\<exists>s \<in> set (ys @ [s]). gen rules (start, s) w)" for w
      unfolding new(2) stacks_lang_Un cl using I by auto
    moreover have "stacks_ok rules (set new)" using I closure_ok [OF G st(2)] unfolding new(2) by (auto simp: stacks_ok_def)
    moreover have "new \<noteq> []" using new(2) closure_nonempty [OF grammar_okD(1) [OF G] grammar_okD(2) [OF G st(2)] st(2)] by auto
    ultimately show "wp (do { st \<leftarrow> push_pos rules (start, s) []; advance_stack rules st sts }) (?I (ys @ [s]))"
      using st(1) new(1,3) by simp
  qed (auto simp: stacks_ok_def stacks_lang_def)
  then show ?thesis using ss(1) by (auto simp: start_stacks_def rule_lang_def wp_bind elim!: wp_mono)
qed

end
