(* ===== verification/GrammarReject.thy ===== *)
theory GrammarReject
  imports GrammarLang
begin

text \<open>
  Rejecting candidates: the levels of \<open>reject_candidates\<close>, one per code point, compute for every
  candidate whether some stack keeps it, which the reference \<open>keeps_from\<close> says for one stack and one
  candidate at a time.
\<close>

section \<open>One stack and one candidate\<close>

definition keeps_end :: "grammar_rules \<Rightarrow> grammar_candidate \<Rightarrow> grammar_stack \<Rightarrow> bool" where
  "keeps_end rules tok st = (pu_n_remain (gc_partial tok) = 0 \<or>
     (st \<noteq> [] \<and> (\<exists>e. elem_at rules (hd st) = Some e \<and> \<not> is_token_elem e) \<and> match_partial_char rules (hd st) (gc_partial tok) = Some True))"

definition keeps_token :: "grammar_rules \<Rightarrow> grammar_candidate \<Rightarrow> grammar_stack \<Rightarrow> bool" where
  "keeps_token rules tok st = (st \<noteq> [] \<and> (\<exists>e. elem_at rules (hd st) = Some e \<and> match_token e (gc_id tok) = Some True))"

fun keeps_from :: "grammar_rules \<Rightarrow> grammar_candidate \<Rightarrow> codepoint list \<Rightarrow> grammar_stack \<Rightarrow> bool" where
  "keeps_from rules tok [] st = False"
| "keeps_from rules tok (c # cs) st = (
     if c = 0 then keeps_end rules tok st
     else keeps_token rules tok st \<or> (\<exists>t \<in> after_char rules st c. keeps_from rules tok cs t))"

lemma partial_ranges_ok:
  assumes "wf_from n 1 es"
  shows "\<exists>b. partial_ranges (p # es) pos low high = Some b"
  using assms
proof (induction "length es" arbitrary: p es rule: less_induct)
  case less
  obtain q es' where es: "es = q # es'" using less.prems by (cases es) auto
  show ?case
  proof (cases "ge_type q = GRETYPE_CHAR_RNG_UPPER")
    case True
    then have w: "wf_from n 2 es'" using less.prems by (simp add: es)
    obtain e es'' where e: "es' = e # es''" using w by (cases es') auto
    show ?thesis
    proof (cases "ge_type e = GRETYPE_CHAR_ALT")
      case alt: True
      then have "wf_from n 1 es''" using w by (simp add: e)
      then show ?thesis using less.hyps [of es'' e] True by (auto simp: es e)
    qed (use True in \<open>auto simp: es e\<close>)
  next
    case False
    show ?thesis
    proof (cases "ge_type q = GRETYPE_CHAR_ALT")
      case True
      then have "wf_from n 1 es'" using less.prems by (simp add: es)
      then show ?thesis using less.hyps [of es' q] False by (auto simp: es)
    qed (use False in \<open>auto simp: es\<close>)
  qed
qed

lemma match_partial_ok:
  assumes "pos_ok rules p" "elem_at rules p = Some e" "char_type e"
  obtains b where "match_partial_char rules p pu = Some b"
proof -
  obtain es where s: "suffix_at rules p = e # es" "wf_from (length rules) 0 (e # es)"
    using suffix_cases [OF assms(1)] assms(2) by (metis option.inject)
  have w: "wf_from (length rules) 1 es" using s(2) assms(3) by (auto simp: char_type_def)
  have r: "vget rules (fst p) = Some (rules ! fst p)" using assms(1) by (simp add: pos_ok_def vget_def)
  have ch: "is_positive_char e \<or> ge_type e = GRETYPE_CHAR_NOT" using assms(3) by (auto simp: char_type_def is_positive_char_def)
  have d: "drop (snd p) (rules ! fst p) = e # es" using s(1) by (simp add: suffix_at_def)
  have "\<exists>b. match_partial_char rules p pu = Some b"
    unfolding match_partial_char_def assms(2) Option.bind.bind_lunit r(1) d Let_def
    using ch partial_ranges_ok [OF w] by (simp add: ex_bool_eq)
  then show thesis using that by blast
qed

section \<open>One stack and the candidates that reach it\<close>

text \<open>The candidate with index \<open>i\<close> has a code point at \<open>d\<close>; the last one of every candidate is 0.\<close>

definition reaches_depth :: "grammar_candidate list \<Rightarrow> nat \<Rightarrow> nat \<Rightarrow> bool" where
  "reaches_depth cands d i = (i < length cands \<and> d < length (gc_code_points (cands ! i)) \<and> last (gc_code_points (cands ! i)) = 0)"

definition kept_at :: "grammar_rules \<Rightarrow> grammar_candidate list \<Rightarrow> nat \<Rightarrow> grammar_stack \<Rightarrow> nat \<Rightarrow> bool" where
  "kept_at rules cands d st i = keeps_from rules (cands ! i) (drop d (gc_code_points (cands ! i))) st"

lemma kept_at_cons:
  assumes "reaches_depth cands d i"
  shows "kept_at rules cands d st i = (let c = gc_code_points (cands ! i) ! d in
     if c = 0 then keeps_end rules (cands ! i) st
     else keeps_token rules (cands ! i) st \<or> (\<exists>t \<in> after_char rules st c. kept_at rules cands (Suc d) t i))"
proof -
  have "drop d (gc_code_points (cands ! i)) = gc_code_points (cands ! i) ! d # drop (Suc d) (gc_code_points (cands ! i))"
    by (rule Cons_nth_drop_Suc [symmetric]) (use assms in \<open>simp add: reaches_depth_def\<close>)
  then show ?thesis by (simp add: kept_at_def Let_def)
qed

lemma reaches_Suc:
  assumes "reaches_depth cands d i" "gc_code_points (cands ! i) ! d \<noteq> 0"
  shows "reaches_depth cands (Suc d) i"
proof -
  let ?l = "gc_code_points (cands ! i)"
  have "Suc d \<noteq> length ?l"
  proof
    assume e: "Suc d = length ?l"
    then have "?l \<noteq> []" by auto
    moreover have "length ?l - 1 = d" using e by simp
    ultimately show False using assms last_conv_nth [of ?l] by (simp add: reaches_depth_def)
  qed
  then show ?thesis using assms(1) by (simp add: reaches_depth_def)
qed

lemma foldM_filter:
  assumes "\<And>i r. i \<in> set cur \<Longrightarrow> f i r = Some (if P i then r @ [i] else r)"
  shows "foldM f cur r = Some (r @ filter P cur)"
  using assms by (induction cur arbitrary: r) auto

lemma foldM_filter2:
  assumes "\<And>i a b. i \<in> set cur \<Longrightarrow> f i (a, b) = Some (if P i then a @ [i] else a, if Q i then b @ [i] else b)"
  shows "foldM f cur (a, b) = Some (a @ filter P cur, b @ filter Q cur)"
  using assms by (induction cur arbitrary: a b) auto

text \<open>
  A stack that is empty or has a token on top decides about its candidates; under a character the ones
  that match go on to the stacks that follow.
\<close>

lemma reject_step_wp:
  assumes G: "grammar_ok rules" and st: "stack_ok rules st" "final_stack rules st" and cur: "\<forall>i \<in> set cur. reaches_depth cands d i"
  obtains "reject_step rules st cands d cur = Some (filter (\<lambda>i. \<not> kept_at rules cands d st i) cur, None)"
  | P Q sts st' where "reject_step rules st cands d cur = Some (filter P cur, Some (filter Q cur, sts))" "sts \<noteq> []" "stacks_ok rules (set sts)"
      "\<forall>i \<in> set cur. (Q i \<longrightarrow> reaches_depth cands (Suc d) i) \<and>
         (\<not> kept_at rules cands d st i \<longleftrightarrow> P i \<or> (Q i \<and> (\<forall>t \<in> set sts. \<not> kept_at rules cands (Suc d) t i)))"
proof (cases st)
  case Nil
  have "foldM (end_candidate cands d) cur [] = Some ([] @ filter (\<lambda>i. \<not> kept_at rules cands d st i) cur)"
  proof (rule foldM_filter)
    fix i r assume "i \<in> set cur"
    then have i: "reaches_depth cands d i" using cur by blast
    show "end_candidate cands d i r = Some (if \<not> kept_at rules cands d st i then r @ [i] else r)"
      using i unfolding kept_at_cons [OF i]
      by (auto simp: Nil end_candidate_def vget_def reaches_depth_def keeps_end_def keeps_token_def after_char_def Let_def)
  qed
  then show thesis using that(1) by (simp add: Nil reject_step_def)
next
  case (Cons p rest)
  have rest: "stack_ok rules rest" using st(1) by (simp add: Cons stack_ok_def)
  have p: "pos_ok rules p" using st(1) by (simp add: Cons stack_ok_def)
  from st [unfolded Cons] show thesis
  proof (cases rule: final_cases)
    case (token e)
    have mc: "match_char rules p c \<noteq> Some x" for c x using match_char_elem [of rules p c x] token(1,2) by auto
    have "foldM (token_candidate e cands d) cur [] = Some ([] @ filter (\<lambda>i. \<not> kept_at rules cands d st i) cur)"
    proof (rule foldM_filter)
      fix i r assume "i \<in> set cur"
      then have i: "reaches_depth cands d i" using cur by blast
      show "token_candidate e cands d i r = Some (if \<not> kept_at rules cands d st i then r @ [i] else r)"
        using i token(1,3) mc unfolding kept_at_cons [OF i]
        by (auto simp: Cons token_candidate_def vget_def reaches_depth_def keeps_end_def keeps_token_def after_char_def match_token_def Let_def)
    qed
    then show thesis using that(1) token(1,3) by (simp add: Cons reject_step_def)
  next
    case (char e q)
    obtain b where b: "match_char rules p 0 = Some (b, q)" using char(5) by blast
    obtain st' where s: "push_pos rules q rest = Some st'" "stack_ok rules st'" using push_pos_ok [OF char(4) rest] by metis
    obtain sts where sts: "advance_stack rules st' [] = Some sts" "set sts = closure rules {st'}"
      using advance_ok [OF G s(2), of "[]"] by (auto simp: wp_def)
    have ne: "sts \<noteq> []" using sts(2) closure_nonempty [OF grammar_okD(1) [OF G] grammar_okD(2) [OF G s(2)] s(2)] by auto
    have so: "stacks_ok rules (set sts)" unfolding sts(2) by (rule closure_ok [OF G s(2)])
    have ac: "after_char rules st c = (if match_char rules p c = Some (True, q) then set sts else {})" for c
    proof -
      obtain f where "match_char rules p c = Some (f, q)" using char(5) by blast
      then show ?thesis using s(1) unfolding sts(2) after_char_def Cons by (cases q; cases f) auto
    qed
    have nt: "match_token e t = None" for t using char(3) by (simp add: match_token_def)
    have b2: "match_partial_char rules p pu = Some True \<or> match_partial_char rules p pu = Some False" for pu
      using match_partial_ok [OF p char(1,2)] by (metis (full_types))
    let ?c = "\<lambda>i. gc_code_points (cands ! i) ! d" and ?pu = "\<lambda>i. gc_partial (cands ! i)"
    let ?P = "\<lambda>i. if ?c i = 0 then pu_n_remain (?pu i) \<noteq> 0 \<and> match_partial_char rules p (?pu i) = Some False else match_char rules p (?c i) = Some (False, q)"
    let ?Q = "\<lambda>i. ?c i \<noteq> 0 \<and> match_char rules p (?c i) = Some (True, q)"
    have "foldM (char_candidate rules p cands d) cur ([], []) = Some ([] @ filter ?P cur, [] @ filter ?Q cur)"
    proof (rule foldM_filter2)
      fix i and rs ns :: "nat list" assume "i \<in> set cur"
      then have i: "reaches_depth cands d i" using cur by blast
      obtain f where f: "match_char rules p (?c i) = Some (f, q)" using char(5) by blast
      show "char_candidate rules p cands d i (rs, ns) = Some (if ?P i then rs @ [i] else rs, if ?Q i then ns @ [i] else ns)"
        using i f b2 [of "?pu i"] by (auto simp: char_candidate_def vget_def reaches_depth_def)
    qed
    then have run: "reject_step rules st cands d cur = Some (filter ?P cur, Some (filter ?Q cur, sts))"
      using char(1,3) b s(1) sts(1) by (simp add: Cons reject_step_def)
    show thesis
    proof (rule that(2) [OF run ne so], intro ballI conjI impI)
      fix i assume "i \<in> set cur"
      then have i: "reaches_depth cands d i" using cur by blast
      show "reaches_depth cands (Suc d) i" if "?Q i" using reaches_Suc [OF i] that by blast
      obtain f where f: "match_char rules p (?c i) = Some (f, q)" using char(5) by blast
      show "\<not> kept_at rules cands d st i \<longleftrightarrow> ?P i \<or> (?Q i \<and> (\<forall>t \<in> set sts. \<not> kept_at rules cands (Suc d) t i))"
        using f char(1,3) nt b2 [of "?pu i"] unfolding kept_at_cons [OF i] ac Let_def
        by (auto simp: Cons keeps_end_def keeps_token_def)
    qed
  qed
qed

section \<open>The levels\<close>

text \<open>The candidates of \<open>cur\<close> that no stack of \<open>A\<close> keeps, from the code point \<open>d\<close> on.\<close>

definition dropped :: "grammar_rules \<Rightarrow> grammar_candidate list \<Rightarrow> nat \<Rightarrow> grammar_stack set \<Rightarrow> nat set \<Rightarrow> nat set" where
  "dropped rules cands d A cur = {i \<in> cur. \<forall>st \<in> A. \<not> kept_at rules cands d st i}"

lemma dropped_insert: "dropped rules cands d (insert st A) cur = dropped rules cands d A {i \<in> cur. \<not> kept_at rules cands d st i}"
  by (auto simp: dropped_def)

lemma reject_loop_done:
  "level_done lv \<Longrightarrow> reject_loop rules cands (lv # pl # lvs) = reject_loop rules cands (level_return lv pl # lvs)"
  by (subst reject_loop.simps) simp

lemma reject_loop_step:
  "\<not> level_done lv \<Longrightarrow> level_step rules cands lv lvs = Some lvs' \<Longrightarrow> reject_loop rules cands (lv # lvs) = reject_loop rules cands lvs'"
  by (subst reject_loop.simps) simp

text \<open>
  A level with \<open>d\<close> levels below runs until it is finished; \<open>m\<close> bounds the code points that are left of
  its candidates.
\<close>

lemma level_runs:
  assumes G: "grammar_ok rules" and sts: "stacks_ok rules (set (drop (lv_i lv) (lv_stacks lv)))" "lv_i lv \<le> length (lv_stacks lv)"
    and cur: "\<forall>i \<in> set (lv_cur lv). reaches_depth cands (length lvs) i \<and> length (gc_code_points (cands ! i)) \<le> length lvs + m"
  shows "\<exists>lv'. level_done lv' \<and> reject_loop rules cands (lv # lvs) = reject_loop rules cands (lv' # lvs) \<and>
    set (lv_cur lv') = dropped rules cands (length lvs) (set (drop (lv_i lv) (lv_stacks lv))) (set (lv_cur lv))"
  using sts cur
proof (induction m arbitrary: lv lvs)
  case 0
  then have "lv_cur lv = []" by (cases "lv_cur lv") (auto simp: reaches_depth_def)
  then show ?case by (intro exI [of _ lv]) (simp add: level_done_def dropped_def)
next
  case (Suc m)
  note deeper = Suc.IH
  show ?case
    using Suc.prems
  proof (induction "length (lv_stacks lv) - lv_i lv" arbitrary: lv)
    case 0
    then show ?case by (intro exI [of _ lv]) (simp add: level_done_def dropped_def)
  next
    case (Suc k)
    let ?d = "length lvs"
    have n: "lv_i lv < length (lv_stacks lv)" using Suc.hyps(2) by simp
    define st where "st = lv_stacks lv ! lv_i lv"
    have dr: "set (drop (lv_i lv) (lv_stacks lv)) = insert st (set (drop (lv_i lv + 1) (lv_stacks lv)))"
      unfolding st_def using Cons_nth_drop_Suc [OF n] by (metis Suc_eq_plus1 list.simps(15))
    have st: "stack_ok rules st" "final_stack rules st" using Suc.prems(1) unfolding dr by (auto simp: stacks_ok_def)
    show ?case
    proof (cases "level_done lv")
      case True
      then have "lv_cur lv = []" using n by (simp add: level_done_def)
      then show ?thesis using True by (intro exI [of _ lv]) (simp add: dropped_def)
    next
      case False
      have finish: ?thesis
        if run: "reject_loop rules cands (lv # lvs) = reject_loop rules cands (lv1 # lvs)" "lv_stacks lv1 = lv_stacks lv" "lv_i lv1 = lv_i lv + 1"
          "set (lv_cur lv1) = {i \<in> set (lv_cur lv). \<not> kept_at rules cands ?d st i}" for lv1
      proof -
        have "\<exists>lv'. level_done lv' \<and> reject_loop rules cands (lv1 # lvs) = reject_loop rules cands (lv' # lvs) \<and>
          set (lv_cur lv') = dropped rules cands ?d (set (drop (lv_i lv1) (lv_stacks lv1))) (set (lv_cur lv1))"
          by (rule Suc.hyps(1)) (use Suc.hyps(2) Suc.prems n dr run(2-4) in \<open>auto simp: stacks_ok_def\<close>)
        then show ?thesis using run unfolding dr dropped_insert by simp
      qed
      have c: "\<forall>i \<in> set (lv_cur lv). reaches_depth cands ?d i" using Suc.prems(3) by blast
      show ?thesis
      proof (rule reject_step_wp [OF G st c])
        assume r: "reject_step rules st cands ?d (lv_cur lv) = Some (filter (\<lambda>i. \<not> kept_at rules cands ?d st i) (lv_cur lv), None)"
        let ?lv = "lv\<lparr>lv_cur := filter (\<lambda>i. \<not> kept_at rules cands ?d st i) (lv_cur lv), lv_i := lv_i lv + 1\<rparr>"
        have "reject_loop rules cands (lv # lvs) = reject_loop rules cands (?lv # lvs)"
          by (rule reject_loop_step [OF False]) (use r in \<open>simp add: level_step_def st_def\<close>)
        then show ?thesis by (rule finish) auto
      next
        fix P Q sts st'
        assume r: "reject_step rules st cands ?d (lv_cur lv) = Some (filter P (lv_cur lv), Some (filter Q (lv_cur lv), sts))" "sts \<noteq> []" "stacks_ok rules (set sts)"
          "\<forall>i \<in> set (lv_cur lv). (Q i \<longrightarrow> reaches_depth cands (Suc ?d) i) \<and>
             (\<not> kept_at rules cands ?d st i \<longleftrightarrow> P i \<or> (Q i \<and> (\<forall>t \<in> set sts. \<not> kept_at rules cands (Suc ?d) t i)))"
        let ?pl = "lv\<lparr>lv_rejects := filter P (lv_cur lv)\<rparr>" and ?ch = "level_of sts (filter Q (lv_cur lv))"
        have e1: "reject_loop rules cands (lv # lvs) = reject_loop rules cands (?ch # ?pl # lvs)"
          by (rule reject_loop_step [OF False]) (use r in \<open>simp add: level_step_def st_def\<close>)
        have "\<exists>lv'. level_done lv' \<and> reject_loop rules cands (?ch # ?pl # lvs) = reject_loop rules cands (lv' # ?pl # lvs) \<and>
          set (lv_cur lv') = dropped rules cands (length (?pl # lvs)) (set (drop (lv_i ?ch) (lv_stacks ?ch))) (set (lv_cur ?ch))"
          by (rule deeper) (use r(3,4) Suc.prems(3) in \<open>auto simp: level_of_def\<close>)
        then obtain lv' where l: "level_done lv'" "reject_loop rules cands (?ch # ?pl # lvs) = reject_loop rules cands (lv' # ?pl # lvs)"
          "set (lv_cur lv') = dropped rules cands (Suc ?d) (set sts) (set (filter Q (lv_cur lv)))" by (auto simp: level_of_def)
        have "reject_loop rules cands (lv # lvs) = reject_loop rules cands (level_return lv' ?pl # lvs)"
          unfolding e1 l(2) by (rule reject_loop_done [OF l(1)])
        then show ?thesis
          by (rule finish) (use r(4) l(3) in \<open>auto simp: level_return_def dropped_def\<close>)
      qed
    qed
  qed
qed

text \<open>The candidates that no stack keeps, for every list of candidates whose code points end with 0.\<close>

lemma reject_candidates_wp:
  assumes G: "grammar_ok rules" and sts: "stacks_ok rules (set sts)" "sts \<noteq> []"
    and cands: "\<forall>tok \<in> set cands. gc_code_points tok \<noteq> [] \<and> last (gc_code_points tok) = 0"
  shows "wp (reject_candidates rules sts cands)
    (\<lambda>rs. set rs = {tok \<in> set cands. \<forall>st \<in> set sts. \<not> keeps_from rules tok (gc_code_points tok) st})"
proof -
  define m where "m = sum_list (map (\<lambda>tok. length (gc_code_points tok)) cands)"
  let ?lv = "level_of sts [0..<length cands]"
  have m: "length (gc_code_points (cands ! i)) \<le> m" if "i < length cands" for i
    unfolding m_def by (rule member_le_sum_list) (use that in auto)
  obtain lv' where l: "level_done lv'" "reject_loop rules cands [?lv] = reject_loop rules cands [lv']"
    "set (lv_cur lv') = dropped rules cands 0 (set sts) {0..<length cands}"
    using level_runs [OF G, of ?lv cands "[]" m] sts cands m by (auto simp: level_of_def reaches_depth_def)
  have e: "reject_loop rules cands [?lv] = Some (lv_cur lv')" unfolding l(2) using l(1) by (subst reject_loop.simps) simp
  have "mapM (vget cands) (lv_cur lv') = Some (map ((!) cands) (lv_cur lv'))"
    by (rule mapM_map) (use l(3) in \<open>auto simp: vget_def dropped_def\<close>)
  then have r: "reject_candidates rules sts cands = Some (map ((!) cands) (lv_cur lv'))" using sts(2) e by (simp add: reject_candidates_def)
  have "set (map ((!) cands) (lv_cur lv')) = {tok \<in> set cands. \<forall>st \<in> set sts. \<not> keeps_from rules tok (gc_code_points tok) st}"
    unfolding set_map l(3) by (auto simp: dropped_def kept_at_def in_set_conv_nth)
  then show ?thesis by (simp add: r)
qed

end
