(* ===== verification/GrammarMask.thy ===== *)
theory GrammarMask
  imports GrammarReject
begin

text \<open>
  The sampler mask and the acceptance of a token: which logits \<open>grammar_apply\<close> keeps, and which
  stacks \<open>accept_token\<close> leaves.
\<close>

definition grammar_inv :: "grammar \<Rightarrow> bool" where
  "grammar_inv g = (grammar_ok (gr_rules g) \<and> stacks_ok (gr_rules g) (set (gr_stacks g)) \<and> gr_stacks g \<noteq> [])"

section \<open>Decoding\<close>

lemma decode_last: "fst (decode_utf8 src p) \<noteq> [] \<and> last (fst (decode_utf8 src p)) = 0"
  by (auto simp: decode_utf8_def split: option.splits prod.splits sum.splits)

lemma decode_loop_grows: "decode_loop bs v n cps = Inr (cps', v', n') \<Longrightarrow> \<exists>x. cps' = cps @ x"
proof (induction bs v n cps rule: decode_loop.induct)
  case (2 b bs v n cps)
  define m where "m = ([1, 1, 1, 1, 1, 1, 1, 1, 0, 0, 0, 0, 2, 2, 3, 4] ! unat (drop_bit 4 b) - 1 :: int)"
  define r where "r = decode_rest bs (ucast (b AND mask (nat (7 - m)))) m"
  note e = "2.prems" [unfolded decode_loop.simps Let_def, folded m_def, folded r_def]
  show ?case
  proof (cases "b = 0 \<or> m < 0")
    case True
    then show ?thesis using e by (auto split: if_splits)
  next
    case False
    then obtain x where "cps' = (if snd (snd r) = 0 then cps @ [fst (snd r)] else cps) @ x"
      using "2.IH" [OF _ m_def _ r_def] e by auto
    then show ?thesis by (auto split: if_splits)
  qed
qed simp

definition stops :: "byte list \<Rightarrow> bool" where
  "stops bs = (bs = [] \<or> hd bs = 0)"

lemma decode_rest_stop: "stops (fst (decode_rest bs v n)) \<or> snd (snd (decode_rest bs v n)) \<le> 0"
  by (induction bs v n rule: decode_rest.induct) (auto simp: stops_def)

lemma decode_rest_nonneg: "0 \<le> n \<Longrightarrow> 0 \<le> snd (snd (decode_rest bs v n))"
  by (induction bs v n rule: decode_rest.induct) auto

lemma decode_continue_stop: "decode_continue bs v n = Some (bs', v', n') \<Longrightarrow> 0 < n \<Longrightarrow> stops bs' \<or> n' = 0"
proof (induction bs v n rule: decode_continue.induct)
  case (2 b bs v n)
  show ?case
  proof (cases "n = 1")
    case True
    then show ?thesis using "2.prems" by (cases bs) (auto simp: stops_def split: if_splits)
  next
    case False
    then show ?thesis using 2 by (auto simp: stops_def split: if_splits)
  qed
qed (simp add: stops_def)

lemma decode_loop_stop: "stops bs \<Longrightarrow> decode_loop bs v n cps = Inr (cps, v, n)"
  by (cases bs) (auto simp: stops_def)

text \<open>A text that does not end in the middle of a sequence has a code point, if it begins with a byte.\<close>

lemma decode_loop_some:
  assumes "decode_loop bs v n cps = Inr (cps', v', 0)" "\<not> stops bs"
  shows "cps' \<noteq> []"
proof -
  obtain b bs' where b: "bs = b # bs'" "b \<noteq> 0" using assms(2) by (cases bs) (auto simp: stops_def)
  define m where "m = ([1, 1, 1, 1, 1, 1, 1, 1, 0, 0, 0, 0, 2, 2, 3, 4] ! unat (drop_bit 4 b) - 1 :: int)"
  define r where "r = decode_rest bs' (ucast (b AND mask (nat (7 - m)))) m"
  have m: "\<not> m < 0" using assms(1) b by (auto simp: Let_def m_def)
  have e: "decode_loop (fst r) (fst (snd r)) (snd (snd r)) (if snd (snd r) = 0 then cps @ [fst (snd r)] else cps) = Inr (cps', v', 0)"
    using assms(1) b m unfolding decode_loop.simps b(1) Let_def m_def [symmetric] r_def [symmetric] by simp
  show ?thesis
  proof (cases "snd (snd r) = 0")
    case True
    then show ?thesis using decode_loop_grows [OF e] by auto
  next
    case False
    then have "stops (fst r)" using decode_rest_stop [of bs'] decode_rest_nonneg [of m] m unfolding r_def by (meson antisym not_less)
    then show ?thesis using decode_loop_stop e False by simp
  qed
qed

lemma decode_some:
  assumes "piece \<noteq> []" "hd piece \<noteq> 0" "pu_n_remain (snd (decode_utf8 piece p)) = 0"
  shows "butlast (fst (decode_utf8 piece p)) \<noteq> []"
proof -
  obtain bs v n where c: "decode_continue piece (pu_value p) (pu_n_remain p) = Some (bs, v, n)"
    using assms(3) by (cases "decode_continue piece (pu_value p) (pu_n_remain p)") (auto simp: decode_utf8_def)
  let ?c = "if pu_n_remain p > 0 \<and> n = 0 then [v] else []"
  obtain cps v' n' where l: "decode_loop bs v n ?c = Inr (cps, v', n')"
  proof (cases "decode_loop bs v n ?c")
    case (Inl k)
    have "k < 0" if "decode_loop bs v n cs = Inl k" for bs v n cs
      using that by (induction bs v n cs rule: decode_loop.induct) (auto simp: Let_def split: if_splits)
    then show ?thesis using Inl assms(3) c by (fastforce simp: decode_utf8_def)
  qed (use that in \<open>auto\<close>)
  have n': "n' = 0" "butlast (fst (decode_utf8 piece p)) = cps" using assms(3) c l by (simp_all add: decode_utf8_def)
  have "cps \<noteq> []"
  proof (cases "stops bs")
    case True
    then have e: "cps = ?c" "n = 0" using l n'(1) decode_loop_stop by auto
    have "0 < pu_n_remain p"
    proof (rule ccontr)
      assume "\<not> 0 < pu_n_remain p"
      then have "bs = piece" using c assms(1) by (cases piece) auto
      then show False using True assms(1,2) by (simp add: stops_def)
    qed
    then show ?thesis using e by simp
  next
    case False
    then show ?thesis using decode_loop_some l n'(1) by blast
  qed
  then show ?thesis using n'(2) by simp
qed

section \<open>The mask\<close>

abbreviation looked_at :: "grammar \<Rightarrow> llama_token \<Rightarrow> bool" where
  "looked_at g t \<equiv> \<not> eog_of g t \<and> the (piece_of g t) \<noteq> [] \<and> hd (the (piece_of g t)) \<noteq> 0"

definition candidate_of :: "grammar \<Rightarrow> nat \<Rightarrow> llama_token \<Rightarrow> grammar_candidate" where
  "candidate_of g i t = (let x = decode_utf8 (the (piece_of g t)) (gr_partial g) in
     \<lparr>gc_index = i, gc_code_points = fst x, gc_partial = snd x, gc_id = t\<rparr>)"

text \<open>The tokens that may be sampled: one whose text some stack can follow, or the end where a stack is empty.\<close>

definition token_kept :: "grammar \<Rightarrow> llama_token \<Rightarrow> bool" where
  "token_kept g t = (if eog_of g t then [] \<in> set (gr_stacks g)
     else looked_at g t \<and> (\<exists>st \<in> set (gr_stacks g).
       keeps_from (gr_rules g) (candidate_of g 0 t) (gc_code_points (candidate_of g 0 t)) st))"

lemma keeps_from_cong:
  "gc_partial tok = gc_partial tok' \<Longrightarrow> gc_id tok = gc_id tok' \<Longrightarrow> keeps_from rules tok cs st = keeps_from rules tok' cs st"
  by (induction cs arbitrary: st) (simp_all add: keeps_end_def keeps_token_def)

lemma apply_one_fold:
  assumes "\<forall>x \<in> set xs. piece_of g (fst (snd x)) \<noteq> None"
  shows "foldM (apply_one g allow) xs (out, cands) = Some
    (out @ map (\<lambda>(i, t, l). (t, if eog_of g t then if allow then l else neg_infinity else if looked_at g t then l else neg_infinity)) xs,
     cands @ map (\<lambda>(i, t, l). candidate_of g i t) (filter (\<lambda>(i, t, l). looked_at g t) xs))"
  using assms
proof (induction xs arbitrary: out cands)
  case (Cons x xs)
  obtain i t l where x: "x = (i, t, l)" by (cases x)
  obtain piece where p: "piece_of g t = Some piece" using Cons.prems by (auto simp: x)
  show ?case
    using Cons.IH Cons.prems p by (auto simp: x apply_one_def candidate_of_def Let_def split: prod.splits)
qed simp

lemma mask_logits:
  assumes "\<forall>i \<in> set is. i < length cur"
  shows "foldM mask_logit is cur = Some (map (\<lambda>i. if i \<in> set is then (fst (cur ! i), neg_infinity) else cur ! i) [0..<length cur])"
  using assms
proof (induction "is" arbitrary: cur)
  case Nil
  then show ?case by (simp add: map_nth)
next
  case (Cons k "is")
  let ?cur = "cur[k := (fst (cur ! k), neg_infinity)]"
  have "mask_logit k cur = Some ?cur" using Cons.prems by (simp add: mask_logit_def vget_def vset_def)
  moreover have "foldM mask_logit is ?cur = Some (map (\<lambda>i. if i \<in> set is then (fst (?cur ! i), neg_infinity) else ?cur ! i) [0..<length ?cur])"
    by (rule Cons.IH) (use Cons.prems in simp)
  ultimately show ?case using Cons.prems by (auto simp: nth_list_update)
qed

lemma foldM_map_arg: "foldM (\<lambda>x. f (h x)) xs = foldM f (map h xs)"
  by (induction xs) (simp_all add: fun_eq_iff, presburger)

text \<open>What the mask keeps: exactly the tokens that \<open>token_kept\<close> says.\<close>

lemma grammar_apply_eq:
  assumes G: "grammar_inv g" and T: "\<not> gr_awaiting_trigger g" and P: "\<forall>(t, l) \<in> set cur. piece_of g t \<noteq> None"
  shows "grammar_apply g cur = Some (map (\<lambda>(t, l). (t, if token_kept g t then l else neg_infinity)) cur)"
proof -
  let ?xs = "zip [0..<length cur] cur" and ?allow = "[] \<in> set (gr_stacks g)"
  define out where "out = map (\<lambda>(i, t, l). (t, if eog_of g t then if ?allow then l else neg_infinity else if looked_at g t then l else neg_infinity)) ?xs"
  define cands where "cands = map (\<lambda>(i, t, l). candidate_of g i t) (filter (\<lambda>(i, t, l). looked_at g t) ?xs)"
  have f: "foldM (apply_one g ?allow) ?xs ([], []) = Some (out, cands)"
    unfolding out_def cands_def by (subst apply_one_fold) (use P in \<open>auto dest!: set_zip_rightD\<close>)
  have xs: "(i, t, l) \<in> set ?xs \<longleftrightarrow> i < length cur \<and> cur ! i = (t, l)" for i t l by (auto simp: in_set_zip intro!: exI [of _ i])
  have cs: "tok \<in> set cands \<longleftrightarrow> (\<exists>i < length cur. looked_at g (fst (cur ! i)) \<and> tok = candidate_of g i (fst (cur ! i)))" for tok
  proof -
    have "tok \<in> set cands \<longleftrightarrow> (\<exists>i t l. (i, t, l) \<in> set ?xs \<and> looked_at g t \<and> tok = candidate_of g i t)"
      unfolding cands_def by force
    also have "\<dots> \<longleftrightarrow> (\<exists>i < length cur. looked_at g (fst (cur ! i)) \<and> tok = candidate_of g i (fst (cur ! i)))"
      unfolding xs by (metis fst_conv prod.collapse)
    finally show ?thesis .
  qed
  have last: "\<forall>tok \<in> set cands. gc_code_points tok \<noteq> [] \<and> last (gc_code_points tok) = 0"
    using decode_last by (auto simp: cs candidate_of_def Let_def)
  obtain rs where rs: "reject_candidates (gr_rules g) (gr_stacks g) cands = Some rs"
    "set rs = {tok \<in> set cands. \<forall>st \<in> set (gr_stacks g). \<not> keeps_from (gr_rules g) tok (gc_code_points tok) st}"
    using reject_candidates_wp [OF _ _ _ last, of "gr_rules g" "gr_stacks g"] G by (auto simp: grammar_inv_def wp_def)
  have ix: "gc_index (candidate_of g i t) = i" for i t by (simp add: candidate_of_def Let_def)
  have kp: "keeps_from r (candidate_of g i t) (gc_code_points (candidate_of g i t)) st = keeps_from r (candidate_of g 0 t) (gc_code_points (candidate_of g 0 t)) st"
    for r i t st
  proof -
    have cp: "gc_code_points (candidate_of g i t) = gc_code_points (candidate_of g 0 t)" by (simp add: candidate_of_def Let_def)
    show ?thesis unfolding cp by (rule keeps_from_cong) (simp_all add: candidate_of_def Let_def)
  qed
  have rj: "i \<in> gc_index ` set rs \<longleftrightarrow> i < length cur \<and> looked_at g (fst (cur ! i)) \<and> \<not> token_kept g (fst (cur ! i))" for i
  proof -
    let ?C = "candidate_of g i (fst (cur ! i))"
    have C: "?C \<in> set cands" if "i < length cur" "looked_at g (fst (cur ! i))" using cs that by blast
    have eq: "tok = ?C \<and> i < length cur \<and> looked_at g (fst (cur ! i))" if tok: "tok \<in> set cands" "gc_index tok = i" for tok
    proof -
      obtain j where j: "j < length cur" "looked_at g (fst (cur ! j))" "tok = candidate_of g j (fst (cur ! j))" using tok(1) cs by blast
      then have "j = i" using tok(2) ix by simp
      then show ?thesis using j by simp
    qed
    have "i \<in> gc_index ` set rs \<longleftrightarrow> ?C \<in> set rs \<and> i < length cur \<and> looked_at g (fst (cur ! i))"
    proof
      assume "i \<in> gc_index ` set rs"
      then obtain tok where t: "tok \<in> set rs" "gc_index tok = i" by blast
      then have "tok \<in> set cands" using rs(2) by simp
      then show "?C \<in> set rs \<and> i < length cur \<and> looked_at g (fst (cur ! i))" using eq [OF _ t(2)] t(1) by metis
    next
      assume "?C \<in> set rs \<and> i < length cur \<and> looked_at g (fst (cur ! i))"
      then show "i \<in> gc_index ` set rs" using ix [of i] by (metis imageI)
    qed
    also have "\<dots> \<longleftrightarrow> i < length cur \<and> looked_at g (fst (cur ! i)) \<and> \<not> token_kept g (fst (cur ! i))"
    proof (cases "i < length cur \<and> looked_at g (fst (cur ! i))")
      case True
      then have "?C \<in> set cands" using C by blast
      then show ?thesis using True unfolding rs(2) token_kept_def mem_Collect_eq kp [of _ i] by simp
    qed blast
    finally show ?thesis .
  qed
  have lo: "length out = length cur" by (simp add: out_def)
  have "foldM (\<lambda>r. mask_logit (gc_index r)) rs out = Some (map (\<lambda>i. if i \<in> set (map gc_index rs) then (fst (out ! i), neg_infinity) else out ! i) [0..<length out])"
    unfolding foldM_map_arg by (rule mask_logits) (use rj lo in auto)
  moreover have "map (\<lambda>i. if i \<in> set (map gc_index rs) then (fst (out ! i), neg_infinity) else out ! i) [0..<length out]
      = map (\<lambda>(t, l). (t, if token_kept g t then l else neg_infinity)) cur"
    by (rule nth_equalityI) (auto simp: lo rj out_def token_kept_def split: prod.splits)
  ultimately show ?thesis using T f rs(1) by (simp add: grammar_apply_def)
qed

end
