(* ===== verification/GrammarRec.thy ===== *)
theory GrammarRec
  imports GrammarLang
begin

text \<open>
  Left recursion.  \<open>detect_left_recursion\<close> explores which rules an alternative can begin with; when it
  reports nothing, no such chain is endless, and the expansion of stacks ends, provided that a rule
  that derives the empty text has an alternative without elements (the only way it is noticed).
\<close>

section \<open>What an alternative can begin with\<close>

abbreviation empty_rule :: "grammar_rules \<Rightarrow> nat \<Rightarrow> bool" where
  "empty_rule rules r \<equiv> has_empty_alt True (rules ! r)"

fun exposed :: "(nat \<Rightarrow> bool) \<Rightarrow> bool \<Rightarrow> grammar_rule \<Rightarrow> nat set" where
  "exposed E go [] = {}"
| "exposed E go (e # es) = (
     if ge_type e = GRETYPE_RULE_REF \<and> go then insert (unat (ge_value e)) (exposed E (E (unat (ge_value e))) es)
     else exposed E (is_end_of_sequence e) es)"

definition begins_with :: "grammar_rules \<Rightarrow> nat \<Rightarrow> nat \<Rightarrow> bool" where
  "begins_with rules v r = (v \<in> exposed (empty_rule rules) True (rules ! r))"

text \<open>No endless chain of rules that begin with one another starts at \<open>r\<close>.\<close>

abbreviation well_begun :: "grammar_rules \<Rightarrow> nat \<Rightarrow> bool" where
  "well_begun rules \<equiv> Wellfounded.accp (begins_with rules)"

section \<open>The search\<close>

definition rec_ok :: "grammar_rules \<Rightarrow> rec_state \<Rightarrow> bool" where
  "rec_ok rules s = (length (rs_visited s) = length rules \<and> length (rs_in_progress s) = length rules \<and> length (rs_may_be_empty s) = length rules \<and>
     (\<forall>v < length rules. (rs_may_be_empty s ! v \<longrightarrow> empty_rule rules v) \<and> (rs_visited s ! v \<longrightarrow> well_begun rules v)))"

definition rec_later :: "grammar_rules \<Rightarrow> rec_state \<Rightarrow> rec_state \<Rightarrow> bool" where
  "rec_later rules s s' = (\<forall>v < length rules. rs_may_be_empty s ! v \<longrightarrow> rs_may_be_empty s' ! v)"

definition found_ok :: "grammar_rules \<Rightarrow> nat \<Rightarrow> rec_state \<Rightarrow> rec_result \<times> rec_state \<Rightarrow> bool" where
  "found_ok rules r s x = (rec_ok rules (snd x) \<and> rec_later rules s (snd x) \<and>
     (fst x = RecNone \<longrightarrow> well_begun rules r \<and> rs_may_be_empty (snd x) ! r = empty_rule rules r))"

lemma rec_laterI [simp]: "rec_later rules s s"
  by (simp add: rec_later_def)

lemma rec_later_trans: "rec_later rules s s' \<Longrightarrow> rec_later rules s' s'' \<Longrightarrow> rec_later rules s s''"
  by (simp add: rec_later_def)

lemma rec_elems_wp:
  assumes call: "\<And>v s. v < length rules \<Longrightarrow> rec_ok rules s \<Longrightarrow> wp (call v s) (found_ok rules v s)"
    and refs: "\<forall>e \<in> set es. ge_type e = GRETYPE_RULE_REF \<longrightarrow> unat (ge_value e) < length rules" and s: "rec_ok rules s"
  shows "wp (foldM (rec_elem call) es (res, go, s)) (\<lambda>(res', go', s'). rec_ok rules s' \<and> rec_later rules s s' \<and>
    (res' = RecNone \<longrightarrow> res = RecNone \<and> (\<forall>v \<in> exposed (empty_rule rules) go es. well_begun rules v)))"
  using refs s
proof (induction es arbitrary: res go s)
  case (Cons e es)
  have refs: "\<forall>e \<in> set es. ge_type e = GRETYPE_RULE_REF \<longrightarrow> unat (ge_value e) < length rules" using Cons.prems(1) by simp
  note IH = Cons.IH [OF refs]
  consider (over) "res \<noteq> RecNone" | (ref) "res = RecNone" "ge_type e = GRETYPE_RULE_REF" "go"
    | (skip) "res = RecNone" "\<not> (ge_type e = GRETYPE_RULE_REF \<and> go)" by blast
  then show ?case
  proof cases
    case over
    then have "foldM (rec_elem call) (e # es) (res, go, s) = foldM (rec_elem call) es (res, go, s)" by (simp add: rec_elem_def)
    then show ?thesis using IH [OF Cons.prems(2), of res go] over by (auto elim!: wp_mono)
  next
    case ref
    let ?v = "unat (ge_value e)"
    have v: "?v < length rules" using Cons.prems(1) ref(2) by simp
    obtain r' s' where c: "call ?v s = Some (r', s')" "found_ok rules ?v s (r', s')" using call [OF v Cons.prems(2)] by (auto simp: wp_def)
    have ok: "rec_ok rules s'" "rec_later rules s s'" using c(2) by (simp_all add: found_ok_def)
    show ?thesis
    proof (cases "r' = RecNone")
      case True
      have b: "well_begun rules ?v" "rs_may_be_empty s' ! ?v = empty_rule rules ?v" using c(2) True by (simp_all add: found_ok_def)
      have "foldM (rec_elem call) (e # es) (res, go, s) = foldM (rec_elem call) es (RecNone, empty_rule rules ?v, s')"
        using ref c(1) True v ok(1) b(2) by (simp add: rec_elem_def rec_ok_def vget_def)
      then show ?thesis using IH [OF ok(1), of RecNone "empty_rule rules ?v"] ok(2) b(1) ref rec_later_trans [OF ok(2)]
        by (auto elim!: wp_mono)
    next
      case False
      have "foldM (rec_elem call) (e # es) (res, go, s) = foldM (rec_elem call) es (r', go, s')"
        using ref c(1) False by (simp add: rec_elem_def)
      then show ?thesis using IH [OF ok(1), of r' go] False rec_later_trans [OF ok(2)] by (auto elim!: wp_mono)
    qed
  next
    case skip
    then have "foldM (rec_elem call) (e # es) (res, go, s) = foldM (rec_elem call) es (RecNone, is_end_of_sequence e, s)" by (auto simp: rec_elem_def)
    moreover have "exposed (empty_rule rules) go (e # es) = exposed (empty_rule rules) (is_end_of_sequence e) es" using skip(2) by auto
    ultimately show ?thesis using IH [OF Cons.prems(2), of RecNone "is_end_of_sequence e"] skip(1) by simp
  qed
qed simp

lemma detect_wp:
  assumes refs: "valid_refs rules" and r: "r < length rules" and s: "rec_ok rules s"
  shows "wp (detect_left_recursion rules n r s) (found_ok rules r s)"
  using r s
proof (induction n arbitrary: r s)
  case 0
  then show ?case by (simp add: rec_ok_def wp_simps found_ok_def)
next
  case (Suc n)
  have len: "length (rs_visited s) = length rules" "length (rs_in_progress s) = length rules" "length (rs_may_be_empty s) = length rules"
    using Suc.prems(2) by (simp_all add: rec_ok_def)
  show ?case
  proof (cases "rs_in_progress s ! r")
    case True
    then show ?thesis using Suc.prems len by (simp add: wp_simps found_ok_def)
  next
    case False
    define f where "f = (if empty_rule rules r then (rs_may_be_empty s)[r := True] else rs_may_be_empty s)"
    define s1 where "s1 = s\<lparr>rs_in_progress := (rs_in_progress s)[r := True], rs_may_be_empty := f\<rparr>"
    have fr: "\<forall>v < length rules. f ! v = (if v = r then rs_may_be_empty s ! v \<or> empty_rule rules r else rs_may_be_empty s ! v)"
      using len by (auto simp: f_def nth_list_update)
    have f1: "f ! r = empty_rule rules r" using fr Suc.prems by (auto simp: rec_ok_def)
    have s1: "rec_ok rules s1" "rec_later rules s s1"
      using Suc.prems(2) fr len by (auto simp: s1_def rec_ok_def rec_later_def f_def)
    have ref: "\<forall>e \<in> set (rules ! r). ge_type e = GRETYPE_RULE_REF \<longrightarrow> unat (ge_value e) < length rules"
      using refs Suc.prems(1) nth_mem unfolding valid_refs_def by blast
    obtain res go s2 where L: "foldM (rec_elem (detect_left_recursion rules n)) (rules ! r) (RecNone, True, s1) = Some (res, go, s2)"
      "rec_ok rules s2" "rec_later rules s1 s2" "res = RecNone \<Longrightarrow> \<forall>v \<in> exposed (empty_rule rules) True (rules ! r). well_begun rules v"
      using rec_elems_wp [OF Suc.IH ref s1(1), of RecNone True] by (auto simp: wp_def)
    have late: "rec_later rules s s2" by (rule rec_later_trans [OF s1(2) L(3)])
    have len2: "length (rs_visited s2) = length rules" "length (rs_in_progress s2) = length rules" using L(2) by (simp_all add: rec_ok_def)
    define s3 where "s3 = s2\<lparr>rs_in_progress := (rs_in_progress s2)[r := False], rs_visited := (rs_visited s2)[r := True]\<rparr>"
    have run: "detect_left_recursion rules (Suc n) r s = Some (if res \<noteq> RecNone then (res, s2) else (RecNone, s3))"
      using False Suc.prems(1) len len2 L(1) by (cases "empty_rule rules r") (simp_all add: s1_def f_def s3_def vget_def vset_def)
    show ?thesis
    proof (cases "res = RecNone")
      case True
      have wb: "well_begun rules r" by (rule accpI) (use L(4) [OF True] in \<open>simp add: begins_with_def\<close>)
      have "(rs_visited s2)[r := True] ! v \<longrightarrow> rs_visited s2 ! v \<or> v = r" for v by (cases "v = r") auto
      then have "rec_ok rules s3" using L(2) wb len2 unfolding rec_ok_def s3_def by auto
      moreover have "rec_later rules s s3" using late by (simp add: s3_def rec_later_def)
      moreover have "rs_may_be_empty s3 ! r = empty_rule rules r"
        using L(2,3) f1 Suc.prems(1) by (auto simp: s3_def s1_def rec_ok_def rec_later_def)
      ultimately show ?thesis unfolding run using True wb by (simp add: found_ok_def)
    next
      case False
      then show ?thesis unfolding run using L(2) late by (simp add: found_ok_def)
    qed
  qed
qed

text \<open>The check of all rules returns, and when it reports nothing every rule is well begun.\<close>

lemma detect_all_wp:
  assumes "valid_refs rules"
  shows "wp (detect_all rules) (\<lambda>(res, _). res = RecNone \<longrightarrow> (\<forall>r < length rules. well_begun rules r))"
  unfolding detect_all_def
proof (rule wp_for [where I = "\<lambda>k x. rec_ok rules (snd x) \<and> (fst x = RecNone \<longrightarrow> (\<forall>r < k. well_begun rules r))"])
  fix k x assume k: "k < length rules" and I: "rec_ok rules (snd x) \<and> (fst x = RecNone \<longrightarrow> (\<forall>r < k. well_begun rules r))"
  obtain res s where x: "x = (res, s)" by (cases x)
  have s: "rec_ok rules s" using I by (simp add: x)
  show "wp (detect_rule rules k x) (\<lambda>x. rec_ok rules (snd x) \<and> (fst x = RecNone \<longrightarrow> (\<forall>r < Suc k. well_begun rules r)))"
  proof (cases "res = RecNone")
    case True
    show ?thesis
    proof (cases "rs_visited s ! k")
      case seen: True
      then have "well_begun rules k" using s k by (simp add: rec_ok_def)
      then show ?thesis using I True k s seen by (auto simp: x detect_rule_def wp_simps rec_ok_def less_Suc_eq)
    next
      case False
      then have "detect_rule rules k x = detect_left_recursion rules 257 k s" using True k s by (simp add: x detect_rule_def rec_ok_def vget_def)
      then show ?thesis using detect_wp [OF assms k s, of 257] I True by (auto elim!: wp_mono simp: x found_ok_def less_Suc_eq)
    qed
  next
    case False
    then show ?thesis using I by (simp add: x detect_rule_def)
  qed
qed (auto simp: rec_ok_def)

lemma wf_from_refs: "wf_from n m rule \<Longrightarrow> \<forall>e \<in> set rule. ge_type e = GRETYPE_RULE_REF \<longrightarrow> unat (ge_value e) < n"
  by (induction n m rule rule: wf_from.induct) (auto split: gretype.splits)

lemma rules_ok_valid_refs: "rules_ok rules \<Longrightarrow> valid_refs rules"
proof -
  assume R: "rules_ok rules"
  have "unat (ge_value e) < length rules \<and> rules ! unat (ge_value e) \<noteq> []"
    if e: "rule \<in> set rules" "e \<in> set rule" "ge_type e = GRETYPE_RULE_REF" for rule e
  proof -
    have v: "unat (ge_value e) < length rules" using R wf_from_refs e unfolding rules_ok_def by blast
    then have "wf_from (length rules) 0 (rules ! unat (ge_value e))" using R by (simp add: rules_ok_def)
    then show ?thesis using v by auto
  qed
  then show "valid_refs rules" unfolding valid_refs_def by blast
qed

section \<open>The expansion of stacks ends\<close>

text \<open>Every rule that derives the empty text has an alternative without elements.\<close>

definition null_direct :: "grammar_rules \<Rightarrow> bool" where
  "null_direct rules = (\<forall>r < length rules. rule_lang rules r [] \<longrightarrow> empty_rule rules r)"

lemma exposed_alts:
  assumes "alts_after es i = Some ss" "s \<in> set ss"
  shows "i < s \<and> exposed E True (drop (s - i) es) \<subseteq> exposed E go es"
  using assms
proof (induction es arbitrary: i ss go)
  case (Cons e es)
  have IH: "i < s \<and> exposed E True (drop (s - i) (e # es)) \<subseteq> exposed E go' es"
    if "alts_after es (i + 1) = Some ss'" "s \<in> set ss'" for ss' go'
  proof -
    have h: "i + 1 < s" "exposed E True (drop (s - (i + 1)) es) \<subseteq> exposed E go' es" using Cons.IH [OF that] by blast+
    moreover have "s - i = Suc (s - (i + 1))" using h(1) by simp
    ultimately show ?thesis by simp
  qed
  have sub: "exposed E (is_end_of_sequence e) es \<subseteq> exposed E go (e # es)" if "ge_type e \<noteq> GRETYPE_RULE_REF" using that by simp
  show ?case
  proof (cases "ge_type e = GRETYPE_ALT")
    case True
    then obtain ss' where ss': "alts_after es (i + 1) = Some ss'" "ss = (i + 1) # ss'" using Cons.prems(1) by auto
    show ?thesis
    proof (cases "s = i + 1")
      case True
      then show ?thesis using sub \<open>ge_type e = GRETYPE_ALT\<close> by (simp add: is_end_of_sequence_def)
    next
      case False
      then have "s \<in> set ss'" using Cons.prems(2) ss'(2) by simp
      then show ?thesis using IH [OF ss'(1)] sub True by force
    qed
  next
    case False
    then have "alts_after es (i + 1) = Some ss" using Cons.prems by (auto split: if_splits)
    then show ?thesis using IH [OF _ Cons.prems(2)] by fastforce
  qed
qed simp

lemma exposed_start:
  assumes "alt_starts rules r = Some ss" "s \<in> set ss"
  shows "exposed E True (suffix_at rules (r, s)) \<subseteq> exposed E True (rules ! r)"
proof -
  obtain ss' where "alts_after (rules ! r) 0 = Some ss'" "ss = 0 # ss'"
    using assms(1) by (auto simp: alt_starts_def vget_def Option.bind_eq_Some_conv split: if_splits)
  then show ?thesis using exposed_alts [of "rules ! r" 0 ss' s E True] assms(2) by (auto simp: suffix_at_def)
qed

text \<open>Expansion ends above what is on the stack, which has to end itself only if \<open>p\<close> derives the empty text.\<close>

definition ends_above :: "grammar_rules \<Rightarrow> grammar_pos \<Rightarrow> bool" where
  "ends_above rules p = (\<forall>rest st. stack_ok rules rest \<longrightarrow> (gen rules p [] \<longrightarrow> expansion_ends rules rest) \<longrightarrow>
     push_pos rules p rest = Some st \<longrightarrow> expansion_ends rules st)"

lemma ends_above_step:
  assumes R: "rules_ok rules" and N: "null_direct rules" and p: "pos_ok rules p"
    and ref: "\<And>e ss s. elem_at rules p = Some e \<Longrightarrow> ge_type e = GRETYPE_RULE_REF \<Longrightarrow> alt_starts rules (unat (ge_value e)) = Some ss \<Longrightarrow>
      s \<in> set ss \<Longrightarrow> ends_above rules (unat (ge_value e), s)"
    and more: "\<And>e. elem_at rules p = Some e \<Longrightarrow> ge_type e = GRETYPE_RULE_REF \<Longrightarrow> empty_rule rules (unat (ge_value e)) \<Longrightarrow> ends_above rules (next_pos p)"
  shows "ends_above rules p"
  unfolding ends_above_def
proof (intro allI impI)
  fix rest st assume rest: "stack_ok rules rest" "gen rules p [] \<longrightarrow> expansion_ends rules rest" and st: "push_pos rules p rest = Some st"
  show "expansion_ends rules st"
  proof (cases "at_end rules p = Some True")
    case True
    then have "gen rules p []" "st = rest" using st by (auto simp: gen_at_end push_pos_def)
    then show ?thesis using rest(2) by simp
  next
    case False
    then have st: "st = p # rest" using st by (auto simp: push_pos_def Option.bind_eq_Some_conv split: if_splits)
    show ?thesis unfolding st
    proof (rule accpI)
      fix t assume "expands rules (p # rest) t"
      then obtain e ss s where x: "elem_at rules p = Some e" "ge_type e = GRETYPE_RULE_REF" "alt_starts rules (unat (ge_value e)) = Some ss"
        "s \<in> set ss" "enter_alt rules p rest (unat (ge_value e)) s = Some t" unfolding expands_Cons by blast
      obtain es where es: "wf_from (length rules) 0 (e # es)" "suffix_at rules (next_pos p) = es"
        using suffix_cases [OF p] x(1) by (metis option.inject)
      have v: "unat (ge_value e) < length rules" "pos_ok rules (next_pos p)" using es x(2) p by (auto simp: pos_ok_def next_pos_def)
      obtain st1 where s1: "push_pos rules (next_pos p) rest = Some st1" "stack_ok rules st1" using push_pos_ok [OF v(2) rest(1)] by metis
      have t: "push_pos rules (unat (ge_value e), s) st1 = Some t" using x(5) s1(1) by (simp add: enter_alt_def)
      have "expansion_ends rules st1" if g: "gen rules (unat (ge_value e), s) []"
      proof -
        have l: "rule_lang rules (unat (ge_value e)) []" using g x(3,4) by (auto simp: rule_lang_def)
        then have "ends_above rules (next_pos p)" using more [OF x(1,2)] N v(1) by (simp add: null_direct_def)
        moreover have "gen rules p []" if "gen rules (next_pos p) []" using gen_reference [OF x(1,2), of "[]"] l that by simp
        ultimately show ?thesis using rest s1(1) unfolding ends_above_def by blast
      qed
      then show "expansion_ends rules t" using ref [OF x(1-4)] s1(2) t unfolding ends_above_def by blast
    qed
  qed
qed

lemma starts_end:
  assumes R: "rules_ok rules" and N: "null_direct rules" and r: "well_begun rules r"
  shows "alt_starts rules r = Some ss \<Longrightarrow> s \<in> set ss \<Longrightarrow> ends_above rules (r, s)"
  using r
proof (induction r arbitrary: ss s rule: accp_induct_rule)
  case (1 r)
  have "ends_above rules p" if "fst p = r" "pos_ok rules p" "exposed (empty_rule rules) True (suffix_at rules p) \<subseteq> exposed (empty_rule rules) True (rules ! r)" for p
    using that
  proof (induction "length (suffix_at rules p)" arbitrary: p rule: less_induct)
    case less
    obtain e es where e: "suffix_at rules p = e # es" "elem_at rules p = Some e" "suffix_at rules (next_pos p) = es" "wf_from (length rules) 0 (e # es)"
      using suffix_cases [OF less.prems(2)] .
    show ?case
    proof (rule ends_above_step [OF R N less.prems(2)])
      fix e' ss s assume x: "elem_at rules p = Some e'" "ge_type e' = GRETYPE_RULE_REF" "alt_starts rules (unat (ge_value e')) = Some ss" "s \<in> set ss"
      then have "begins_with rules (unat (ge_value e')) r" using e less.prems(3) by (auto simp: begins_with_def)
      then show "ends_above rules (unat (ge_value e'), s)" using 1(2) x(3,4) by blast
    next
      fix e' assume x: "elem_at rules p = Some e'" "ge_type e' = GRETYPE_RULE_REF" "empty_rule rules (unat (ge_value e'))"
      show "ends_above rules (next_pos p)"
        by (rule less.hyps) (use x e less.prems in \<open>auto simp: next_pos_def pos_ok_def\<close>)
    qed
  qed
  moreover have "pos_ok rules (r, s)"
  proof -
    have "r < length rules" using 1(3) by (auto simp: alt_starts_def vget_def split: if_splits)
    then show ?thesis using alt_starts_ok [OF R] 1(3,4) by (metis option.inject)
  qed
  ultimately show ?case using exposed_start [OF 1(3,4)] by simp
qed

text \<open>Without left recursion, the expansion of every well-formed stack ends.\<close>

theorem well_begun_grammar_ok:
  assumes R: "rules_ok rules" and N: "null_direct rules" and W: "\<forall>r < length rules. well_begun rules r"
  shows "grammar_ok rules"
proof -
  have above: "ends_above rules p" if "pos_ok rules p" for p
    using that
  proof (induction "length (suffix_at rules p)" arbitrary: p rule: less_induct)
    case less
    obtain e es where e: "suffix_at rules p = e # es" "elem_at rules p = Some e" "suffix_at rules (next_pos p) = es" "wf_from (length rules) 0 (e # es)"
      using suffix_cases [OF less.prems] .
    show ?case
    proof (rule ends_above_step [OF R N less.prems])
      fix e' ss s assume x: "elem_at rules p = Some e'" "ge_type e' = GRETYPE_RULE_REF" "alt_starts rules (unat (ge_value e')) = Some ss" "s \<in> set ss"
      then have "unat (ge_value e') < length rules" using e by auto
      then show "ends_above rules (unat (ge_value e'), s)" using starts_end [OF R N] W x(3,4) by blast
    next
      fix e' assume x: "elem_at rules p = Some e'" "ge_type e' = GRETYPE_RULE_REF"
      show "ends_above rules (next_pos p)"
        by (rule less.hyps) (use x e less.prems in \<open>auto simp: next_pos_def pos_ok_def\<close>)
    qed
  qed
  have "expansion_ends rules st" if "stack_ok rules st" for st
    using that
  proof (induction st)
    case Nil
    show ?case by (rule accpI) simp
  next
    case (Cons p rest)
    have p: "pos_ok rules p" "at_end rules p = Some False" "stack_ok rules rest" using Cons.prems by (auto simp: stack_ok_def)
    moreover have "push_pos rules p rest = Some (p # rest)" using p(2) by (simp add: push_pos_def)
    ultimately show ?case using above [OF p(1)] Cons.IH unfolding ends_above_def by blast
  qed
  then show ?thesis using R by (simp add: grammar_ok_def)
qed

end
