(* ===== verification/GrammarProps.thy ===== *)
theory GrammarProps
  imports GrammarMask GrammarRec
begin

text \<open>The properties of the grammar engine.\<close>

section \<open>Accepting a token\<close>

text \<open>Rules without token elements, as the grammars over text have them.\<close>

definition text_rules :: "grammar_rules \<Rightarrow> bool" where
  "text_rules rules = (\<forall>rule \<in> set rules. \<forall>e \<in> set rule. \<not> is_token_elem e)"

lemma text_rules_elem: "text_rules rules \<Longrightarrow> elem_at rules p = Some e \<Longrightarrow> \<not> is_token_elem e"
  using nth_mem by (fastforce simp: text_rules_def elem_at_def vget_def Option.bind_eq_Some_conv split: if_splits)

lemma after_text_UN: "after_text rules A cs = (\<Union>st \<in> A. after_text rules {st} cs)"
proof (induction cs arbitrary: A)
  case (Cons c cs)
  have "after_text rules (after_set rules A c) cs = (\<Union>st \<in> A. \<Union>t \<in> after_char rules st c. after_text rules {t} cs)"
    by (subst Cons.IH) (auto simp: after_set_def)
  also have "\<dots> = (\<Union>st \<in> A. after_text rules (after_set rules {st} c) cs)" by (subst (2) Cons.IH) (simp add: after_set_def)
  finally show ?case by simp
qed simp

lemma after_text_empty [simp]: "after_text rules {} cs = {}"
  using after_text_UN [of rules "{}"] by simp

lemma after_text_Nil: "cs \<noteq> [] \<Longrightarrow> after_text rules {[]} cs = {}"
  by (cases cs) (simp_all add: after_set_def after_char_def)

lemma accept_from_wp:
  assumes G: "grammar_ok rules" and sts: "stacks_ok rules (set sts)"
  shows "wp (accept_from rules cs sts) (\<lambda>new. set new = after_text rules (set sts) cs)"
  using sts
proof (induction cs arbitrary: sts)
  case (Cons c cs)
  obtain new where n: "accept_all rules sts c = Some new" "set new = after_set rules (set sts) c"
    using accept_all_wp [OF G Cons.prems] by (auto simp: wp_def)
  have "stacks_ok rules (set new)" unfolding n(2) by (rule after_set_ok [OF G Cons.prems])
  then have IH: "wp (accept_from rules cs new) (\<lambda>r. set r = after_text rules (set new) cs)" by (rule Cons.IH)
  show ?case
  proof (cases "new = []")
    case True
    then have "after_set rules (set sts) c = {}" using n(2) by simp
    then show ?thesis using n(1) True by simp
  next
    case False
    then have "accept_from rules (c # cs) sts = accept_from rules cs new" using n(1) by simp
    then show ?thesis using IH n(2) by simp
  qed
qed simp

lemma fold_add_stack: "set (fold add_stack sts new) = set new \<union> set sts"
  by (induction sts arbitrary: new) auto

lemma accept_token_stack_wp:
  assumes G: "grammar_ok rules" and T: "text_rules rules" and st: "stack_ok rules st" "final_stack rules st"
  shows "wp (accept_token_stack rules t cps st new) (\<lambda>new'. set new' = set new \<union> (if st = [] then {} else after_text rules {st} cps))"
proof (cases st)
  case (Cons p rest)
  from st [unfolded Cons] show ?thesis
  proof (cases rule: final_cases)
    case (char e q)
    have "stacks_ok rules (set [st])" using st by (simp add: stacks_ok_def)
    then obtain new' where "accept_from rules cps [st] = Some new'" "set new' = after_text rules {st} cps"
      using accept_from_wp [OF G, of "[st]" cps] by (auto simp: wp_def)
    then show ?thesis using char(1,3) by (simp add: accept_token_stack_def Cons fold_add_stack)
  qed (use text_rules_elem [OF T] in blast)
qed (simp add: accept_token_stack_def)

text \<open>The stacks after a token: what follows the stacks that are not empty.\<close>

lemma accept_token_wp:
  assumes G: "grammar_inv g" and T: "text_rules (gr_rules g)"
  shows "\<exists>g'. set (gr_stacks g') = after_text (gr_rules g) (set (gr_stacks g) - {[]}) (butlast (fst (decode_utf8 piece (gr_partial g)))) \<and>
    gr_rules g' = gr_rules g \<and> accept_token t piece g = Some (if gr_stacks g' = [] then Inl g' else Inr g')"
proof -
  let ?rules = "gr_rules g" and ?cps = "butlast (fst (decode_utf8 piece (gr_partial g)))"
  have ok: "grammar_ok ?rules" "stacks_ok ?rules (set (gr_stacks g))" using G by (simp_all add: grammar_inv_def)
  have "wp (foldM (accept_token_stack ?rules t ?cps) (gr_stacks g) []) (\<lambda>new. set new = after_text ?rules (set (gr_stacks g) - {[]}) ?cps)"
  proof (rule wp_foreach [where I = "\<lambda>ys new. set new = after_text ?rules (set ys - {[]}) ?cps"])
    fix ys y zs new assume s: "gr_stacks g = ys @ y # zs" and I: "set new = after_text ?rules (set ys - {[]}) ?cps"
    have y: "stack_ok ?rules y" "final_stack ?rules y" using ok(2) by (auto simp: s stacks_ok_def)
    have "after_text ?rules (set (ys @ [y]) - {[]}) ?cps = set new \<union> (if y = [] then {} else after_text ?rules {y} ?cps)"
      unfolding I by (subst (1 2) after_text_UN) auto
    then show "wp (accept_token_stack ?rules t ?cps y new) (\<lambda>new. set new = after_text ?rules (set (ys @ [y]) - {[]}) ?cps)"
      using accept_token_stack_wp [OF ok(1) T y, of t ?cps new] by simp
  qed auto
  then obtain new where "foldM (accept_token_stack ?rules t ?cps) (gr_stacks g) [] = Some new" "set new = after_text ?rules (set (gr_stacks g) - {[]}) ?cps"
    by (auto simp: wp_def)
  then show ?thesis
    by (intro exI [of _ "g\<lparr>gr_stacks := new, gr_partial := snd (decode_utf8 piece (gr_partial g))\<rparr>"]) (simp add: accept_token_def split_beta)
qed

section \<open>The mask and the acceptance\<close>

lemma keeps_after:
  assumes T: "text_rules rules" and z: "0 \<notin> set cs"
  shows "(\<exists>st \<in> A. keeps_from rules tok (cs @ [0]) st) \<longleftrightarrow> (\<exists>st \<in> after_text rules A cs. keeps_end rules tok st)"
  using z
proof (induction cs arbitrary: A)
  case (Cons c cs)
  have "\<not> keeps_token rules tok st" for st
    using text_rules_elem [OF T] by (auto simp: keeps_token_def match_token_def)
  then have "(\<exists>st \<in> A. keeps_from rules tok ((c # cs) @ [0]) st) \<longleftrightarrow> (\<exists>t \<in> after_set rules A c. keeps_from rules tok (cs @ [0]) t)"
    using Cons.prems by (auto simp: after_set_def)
  also have "\<dots> \<longleftrightarrow> (\<exists>st \<in> after_text rules (after_set rules A c) cs. keeps_end rules tok st)" by (rule Cons.IH) (use Cons.prems in simp)
  finally show ?case by simp
qed simp

text \<open>A token whose text ends with a code point, which is not zero.\<close>

definition whole_text :: "grammar \<Rightarrow> llama_token \<Rightarrow> bool" where
  "whole_text g t = (\<exists>piece. piece_of g t = Some piece \<and> piece \<noteq> [] \<and> hd piece \<noteq> 0 \<and> pu_n_remain (snd (decode_utf8 piece (gr_partial g))) = 0)"

definition zero_free :: "grammar \<Rightarrow> llama_token \<Rightarrow> bool" where
  "zero_free g t = (\<exists>piece. piece_of g t = Some piece \<and> 0 \<notin> set (butlast (fst (decode_utf8 piece (gr_partial g)))))"

lemma token_kept_accept:
  assumes G: "grammar_inv g" and T: "text_rules (gr_rules g)" and A: "\<not> gr_awaiting_trigger g" and z: "zero_free g t"
  shows "token_kept g t \<Longrightarrow> \<exists>g'. grammar_accept_token t g = Some (Inr g') \<and> grammar_inv g'"
    and "\<not> token_kept g t \<Longrightarrow> eog_of g t \<or> whole_text g t \<Longrightarrow> \<not> (\<exists>g'. grammar_accept_token t g = Some (Inr g'))"
proof -
  obtain piece where p: "piece_of g t = Some piece" "0 \<notin> set (butlast (fst (decode_utf8 piece (gr_partial g))))" using z by (auto simp: zero_free_def)
  let ?x = "decode_utf8 piece (gr_partial g)" and ?tok = "candidate_of g 0 t" and ?sts = "set (gr_stacks g)"
  let ?cs = "butlast (fst ?x)"
  obtain g' where g': "set (gr_stacks g') = after_text (gr_rules g) (?sts - {[]}) ?cs" "gr_rules g' = gr_rules g"
    "accept_token t piece g = Some (if gr_stacks g' = [] then Inl g' else Inr g')" using accept_token_wp [OF G T, of piece t] by blast
  have inv: "grammar_inv g'" if "gr_stacks g' \<noteq> []"
    using G that g'(1,2) after_text_ok [of "gr_rules g" "?sts - {[]}" ?cs] by (auto simp: grammar_inv_def stacks_ok_def)
  have cps: "gc_code_points ?tok = ?cs @ [0]" using decode_last [of piece "gr_partial g"] p(1)
    by (simp add: candidate_of_def Let_def) (metis append_butlast_last_id)
  have pu: "gc_partial ?tok = snd ?x" using p(1) by (simp add: candidate_of_def Let_def)
  have kept: "token_kept g t \<longleftrightarrow> piece \<noteq> [] \<and> hd piece \<noteq> 0 \<and> (\<exists>st \<in> after_text (gr_rules g) ?sts ?cs. keeps_end (gr_rules g) ?tok st)"
    if "\<not> eog_of g t" using that p(1) keeps_after [OF T p(2), of ?sts ?tok] by (simp add: token_kept_def cps)
  have split: "after_text (gr_rules g) ?sts ?cs = after_text (gr_rules g) (?sts - {[]}) ?cs \<union> (if [] \<in> ?sts then after_text (gr_rules g) {[]} ?cs else {})"
    by (subst (1 2) after_text_UN) auto
  have run: "grammar_accept_token t g = accept_token t piece g" if "\<not> eog_of g t" using p(1) A that by (simp add: grammar_accept_token_def)
  show "\<exists>g'. grammar_accept_token t g = Some (Inr g') \<and> grammar_inv g'" if k: "token_kept g t"
  proof (cases "eog_of g t")
    case True
    then show ?thesis using k p(1) A G by (simp add: grammar_accept_token_def token_kept_def)
  next
    case False
    obtain st where st: "st \<in> after_text (gr_rules g) ?sts ?cs" "keeps_end (gr_rules g) ?tok st" "piece \<noteq> []" "hd piece \<noteq> 0" using kept [OF False] k by blast
    have "st \<in> after_text (gr_rules g) (?sts - {[]}) ?cs"
    proof (rule ccontr)
      assume "st \<notin> after_text (gr_rules g) (?sts - {[]}) ?cs"
      then have n: "st \<in> after_text (gr_rules g) {[]} ?cs" using st(1) unfolding split by (auto split: if_splits)
      then have c: "?cs = []" using after_text_Nil by blast
      then have "pu_n_remain (snd ?x) = 0" using n st(2) by (simp add: keeps_end_def pu)
      then show False using decode_some [OF st(3,4)] c by blast
    qed
    then have ne: "gr_stacks g' \<noteq> []" using g'(1) by auto
    then show ?thesis using g'(3) run [OF False] inv by simp
  qed
  show "\<not> (\<exists>g'. grammar_accept_token t g = Some (Inr g'))" if n: "\<not> token_kept g t" and w: "eog_of g t \<or> whole_text g t"
  proof (cases "eog_of g t")
    case True
    then show ?thesis using n p(1) A by (simp add: grammar_accept_token_def token_kept_def)
  next
    case False
    then have "piece \<noteq> []" "hd piece \<noteq> 0" "pu_n_remain (snd ?x) = 0" using w p(1) by (auto simp: whole_text_def)
    then have "after_text (gr_rules g) ?sts ?cs = {}" using kept [OF False] n by (auto simp: keeps_end_def pu)
    then have "gr_stacks g' = []" using g'(1) split by auto
    then show ?thesis using g'(3) run [OF False] by simp
  qed
qed

section \<open>Properties\<close>

lemma final_accepts_empty:
  assumes "stacks_ok rules A"
  shows "stacks_lang rules A [] \<longleftrightarrow> [] \<in> A"
proof -
  have "\<not> stack_lang rules (p # rest) []" if s: "stack_ok rules (p # rest)" "final_stack rules (p # rest)" for p rest
    using s
  proof (cases rule: final_cases)
    case (char e q)
    then show ?thesis using gen_character [OF char(1,2), of "[]"] by auto
  next
    case (token e)
    then show ?thesis using gen_token [OF token(1,3)] by auto
  qed
  then have "st = []" if "st \<in> A" "stack_lang rules st []" for st using assms that by (cases st) (auto simp: stacks_ok_def)
  then show ?thesis by (force simp: stacks_lang_def)
qed

text \<open>A grammar that starts with the stacks of its start rule follows the language of the rule.\<close>

lemma started_grammar_follows:
  assumes rules: "rules_ok rules" "null_direct rules" "start < length rules" and detect: "detect_all rules = Some (RecNone, s)"
  shows "\<exists>sts. start_stacks rules start = Some sts \<and> (\<forall>g. gr_rules g = rules \<longrightarrow> gr_stacks g = sts \<longrightarrow> grammar_inv g \<and>
    (\<forall>w. \<exists>g'. foldM grammar_accept w g = Some g' \<and> ([] \<in> set (gr_stacks g') \<longleftrightarrow> rule_lang rules start w) \<and>
      (\<forall>v. stacks_lang rules (set (gr_stacks g')) v \<longleftrightarrow> rule_lang rules start (w @ v))))"
proof -
  have refs: "valid_refs rules" by (rule rules_ok_valid_refs [OF rules(1)])
  have "\<forall>r < length rules. well_begun rules r" using detect_all_wp [OF refs] detect by (simp add: wp_def)
  then have G: "grammar_ok rules" by (rule well_begun_grammar_ok [OF rules(1,2)])
  obtain sts where sts: "start_stacks rules start = Some sts" "stacks_ok rules (set sts)" "sts \<noteq> []"
    "\<And>w. stacks_lang rules (set sts) w = rule_lang rules start w" using start_stacks_wp [OF G rules(3)] by (auto simp: wp_def)
  have "grammar_inv g \<and> (\<exists>g'. foldM grammar_accept w g = Some g' \<and> ([] \<in> set (gr_stacks g') \<longleftrightarrow> rule_lang rules start w) \<and>
      (\<forall>v. stacks_lang rules (set (gr_stacks g')) v \<longleftrightarrow> rule_lang rules start (w @ v)))"
    if g: "gr_rules g = rules" "gr_stacks g = sts" for g w
  proof -
    have inv: "grammar_ok (gr_rules g)" "stacks_ok (gr_rules g) (set (gr_stacks g))" using G sts(2) g by simp_all
    obtain g' where a: "foldM grammar_accept w g = Some g'" "set (gr_stacks g') = after_text rules (set sts) w"
      using accept_text_wp [OF inv, of w] g by (auto simp: wp_def)
    have L: "stacks_lang rules (set (gr_stacks g')) v \<longleftrightarrow> rule_lang rules start (w @ v)" for v
      unfolding a(2) after_text_lang [OF G sts(2)] sts(4) ..
    have "[] \<in> set (gr_stacks g') \<longleftrightarrow> rule_lang rules start w"
      using final_accepts_empty [OF after_text_ok [OF G sts(2)], of w] L [of "[]"] a(2) by simp
    then show ?thesis using a(1) L inv sts(3) g by (auto simp: grammar_inv_def)
  qed
  then show ?thesis using sts(1) by blast
qed

text \<open>
  C40. A grammar made from rules follows its language.  When the rules are well-formed, \<open>detect_left_recursion\<close>
  reports nothing and only rules with an alternative without elements derive the empty text, then
  \<open>grammar_init\<close> returns a grammar, every text can be accepted (the expansion of the stacks always
  ends), and the stacks afterwards accept exactly the texts that complete it to a text of the start
  rule; one of them is empty exactly when the text itself is one, which is when the end may be sampled.
\<close>
theorem grammar_accepts_language:
  assumes rules: "mapM copy_rule grules = Some rules" "rules_ok rules" "null_direct rules" "start < length rules"
    and detect: "detect_all rules = Some (RecNone, s)"
  shows "\<exists>g. grammar_init vocab o_vocab grules start = Some (Some g) \<and> grammar_inv g \<and>
    (\<forall>w. \<exists>g'. foldM grammar_accept w g = Some g' \<and> ([] \<in> set (gr_stacks g') \<longleftrightarrow> rule_lang rules start w) \<and>
      (\<forall>v. stacks_lang rules (set (gr_stacks g')) v \<longleftrightarrow> rule_lang rules start (w @ v)))"
proof -
  have refs: "valid_refs rules" by (rule rules_ok_valid_refs [OF rules(2)])
  obtain sts where sts: "start_stacks rules start = Some sts" "\<And>g. gr_rules g = rules \<Longrightarrow> gr_stacks g = sts \<Longrightarrow> grammar_inv g \<and>
    (\<forall>w. \<exists>g'. foldM grammar_accept w g = Some g' \<and> ([] \<in> set (gr_stacks g') \<longleftrightarrow> rule_lang rules start w) \<and>
      (\<forall>v. stacks_lang rules (set (gr_stacks g')) v \<longleftrightarrow> rule_lang rules start (w @ v)))"
    using started_grammar_follows [OF rules(2-4) detect] by blast
  obtain g where g: "grammar_init vocab o_vocab grules start = Some (Some g)" "gr_rules g = rules" "gr_stacks g = sts"
    using rules(1) refs detect sts(1) by (simp add: grammar_init_def)
  show ?thesis using g(1) sts(2) [OF g(2,3)] by blast
qed

text \<open>The rule \<open>root ::= "a" root | ""\<close>.\<close>

definition as_rule :: grammar_rule where
  "as_rule = [\<lparr>ge_type = GRETYPE_CHAR, ge_value = 97\<rparr>, \<lparr>ge_type = GRETYPE_RULE_REF, ge_value = 0\<rparr>,
    \<lparr>ge_type = GRETYPE_ALT, ge_value = 0\<rparr>, \<lparr>ge_type = GRETYPE_END, ge_value = 0\<rparr>]"

lemma as_rules: "rules_ok [as_rule]" "null_direct [as_rule]" "mapM copy_rule [as_rule] = Some [as_rule]"
  by (simp_all add: as_rule_def rules_ok_def null_direct_def copy_rule_def is_end_of_sequence_def)

lemma as_detect: "\<exists>s. detect_all [as_rule] = Some (RecNone, s)"
  by (simp add: detect_all_def detect_rule_def detect_left_recursion.simps(2) [of _ 256, simplified]
    as_rule_def rec_elem_def is_end_of_sequence_def vget_def vset_def)

lemma grammar_accepts_language_witness:
  "\<exists>g. grammar_init (\<lambda>_. [97], \<lambda>_. False) None [as_rule] 0 = Some (Some g) \<and> grammar_inv g \<and>
    (\<exists>g'. foldM grammar_accept [97, 97] g = Some g' \<and> ([] \<in> set (gr_stacks g') \<longleftrightarrow> rule_lang [as_rule] 0 [97, 97]))"
proof -
  obtain s where s: "detect_all [as_rule] = Some (RecNone, s)" using as_detect by blast
  have "0 < length [as_rule]" by simp
  then show ?thesis using grammar_accepts_language [OF as_rules(3,1,2) _ s, of 0 "(\<lambda>_. [97], \<lambda>_. False)" None] by metis
qed

text \<open>
  C39. The sampler's mask agrees with the acceptor.  In a grammar in use whose stacks are well-formed and
  whose rules have no token elements, and for candidates whose text the vocabulary knows,
  \<open>grammar_apply\<close> returns, keeps the logits of a set of tokens and sets all others to \<open>-INFINITY\<close>.  For
  every candidate whose decoded text has no zero code point: accepting it when it is kept never throws
  and leaves the grammar well-formed; and if it is an end token or its text is whole
  (not empty, no NUL byte first, ending at the end of a character), it is kept exactly when it would be
  accepted.  A zero code point inside the text (the bytes C0 80, say) ends
  the text for the mask but not for the acceptor, which then throws on a token that was kept
  (\<open>zero_code_point_kept\<close>).
\<close>
theorem grammar_mask_agrees:
  assumes inv: "grammar_inv g" and active: "\<not> gr_awaiting_trigger g" and chars: "text_rules (gr_rules g)"
    and pieces: "\<forall>(t, l) \<in> set cur. piece_of g t \<noteq> None"
  shows "\<exists>kept. grammar_apply g cur = Some (map (\<lambda>(t, l). (t, if kept t then l else neg_infinity)) cur) \<and>
    (\<forall>(t, l) \<in> set cur. zero_free g t \<longrightarrow> (kept t \<longrightarrow> (\<exists>g'. grammar_accept_token t g = Some (Inr g') \<and> grammar_inv g')) \<and>
      (eog_of g t \<or> whole_text g t \<longrightarrow> kept t \<longleftrightarrow> (\<exists>g'. grammar_accept_token t g = Some (Inr g'))))"
proof (intro exI [of _ "token_kept g"] conjI ballI)
  show "grammar_apply g cur = Some (map (\<lambda>(t, l). (t, if token_kept g t then l else neg_infinity)) cur)"
    by (rule grammar_apply_eq [OF inv active]) (use pieces in auto)
  fix x assume x: "x \<in> set cur"
  obtain t l where t: "x = (t, l)" by (cases x)
  show "case x of (t, l) \<Rightarrow> zero_free g t \<longrightarrow> (token_kept g t \<longrightarrow> (\<exists>g'. grammar_accept_token t g = Some (Inr g') \<and> grammar_inv g')) \<and>
      (eog_of g t \<or> whole_text g t \<longrightarrow> token_kept g t \<longleftrightarrow> (\<exists>g'. grammar_accept_token t g = Some (Inr g')))"
    using token_kept_accept [OF inv chars active] unfolding t by blast
qed

text \<open>The same grammar at its start, with the tokens 1 \<open>a\<close>, 2 \<open>b\<close> and 3, the end.\<close>

definition as_grammar :: grammar where
  "as_grammar = \<lparr>gr_vocab = (\<lambda>t. if t = 1 then [97] else [98], \<lambda>t. t = 3), gr_o_vocab = None, gr_rules = [as_rule],
     gr_stacks = [[(0, 0)], []], gr_partial = \<lparr>pu_value = 0, pu_n_remain = 0\<rparr>, gr_lazy = False, gr_awaiting_trigger = False,
     gr_trigger_buffer = [], gr_trigger_positions = [], gr_trigger_tokens = [], gr_trigger_patterns = []\<rparr>"

lemma as_grammar_inv: "grammar_inv as_grammar"
proof -
  obtain s where "detect_all [as_rule] = Some (RecNone, s)" using as_detect by blast
  then have "\<forall>r < length [as_rule]. well_begun [as_rule] r"
    using detect_all_wp [OF rules_ok_valid_refs [OF as_rules(1)]] by (simp add: wp_def)
  then have "grammar_ok [as_rule]" by (rule well_begun_grammar_ok [OF as_rules(1,2)])
  moreover have "stacks_ok [as_rule] {[(0, 0)], []}"
    by (simp add: stacks_ok_def stack_ok_def final_stack_def pos_ok_def suffix_at_def at_end_def elem_at_def as_rule_def is_terminal_def is_end_of_sequence_def vget_def)
  ultimately show ?thesis by (simp add: grammar_inv_def as_grammar_def)
qed

lemmas as_eval = grammar_accept_token_def as_grammar_def piece_of_def eog_of_def accept_token_def accept_token_stack_def elem_at_def vget_def
  as_rule_def is_token_elem_def accept_all_def accept_chr_def match_char_def is_positive_char_def push_pos_def at_end_def is_end_of_sequence_def
  advance_stack_def advance_loop.simps advance_step_def rule_stacks_def alt_starts_def enter_alt_def next_pos_def add_stack_def is_terminal_def

lemma grammar_mask_agrees_witness:
  "\<exists>kept. grammar_apply as_grammar [(1, 5), (2, 6), (3, 7)] =
      Some (map (\<lambda>(t, l). (t, if kept t then l else neg_infinity)) [(1, 5), (2, 6), (3, 7)]) \<and>
    kept 1 \<and> \<not> kept 2 \<and> kept 3"
proof -
  have d: "decode_utf8 [97] \<lparr>pu_value = 0, pu_n_remain = 0\<rparr> = ([97, 0], \<lparr>pu_value = 97, pu_n_remain = 0\<rparr>)"
    "decode_utf8 [98] \<lparr>pu_value = 0, pu_n_remain = 0\<rparr> = ([98, 0], \<lparr>pu_value = 98, pu_n_remain = 0\<rparr>)" by code_simp+
  have z: "\<forall>(t, l) \<in> set [(1, 5 :: 32 word), (2, 6), (3, 7)]. zero_free as_grammar t"
    using d by (auto simp: zero_free_def piece_of_def as_grammar_def)
  have pc: "\<forall>(t, l) \<in> set [(1, 5 :: 32 word), (2, 6), (3, 7)]. piece_of as_grammar t \<noteq> None"
    by (simp add: piece_of_def as_grammar_def)
  have r: "\<not> gr_awaiting_trigger as_grammar" "text_rules (gr_rules as_grammar)"
    by (simp_all add: as_grammar_def text_rules_def as_rule_def is_token_elem_def)
  obtain kept where k: "grammar_apply as_grammar [(1, 5), (2, 6), (3, 7)] = Some (map (\<lambda>(t, l). (t, if kept t then l else neg_infinity)) [(1, 5), (2, 6), (3, 7)])"
    "\<forall>(t, l) \<in> set [(1, 5 :: 32 word), (2, 6), (3, 7)]. zero_free as_grammar t \<longrightarrow> (kept t \<longrightarrow> (\<exists>g'. grammar_accept_token t as_grammar = Some (Inr g') \<and> grammar_inv g')) \<and>
      (eog_of as_grammar t \<or> whole_text as_grammar t \<longrightarrow> kept t \<longleftrightarrow> (\<exists>g'. grammar_accept_token t as_grammar = Some (Inr g')))"
    using grammar_mask_agrees [OF as_grammar_inv r pc] by blast
  have w: "whole_text as_grammar 1" "whole_text as_grammar 2" "eog_of as_grammar 3" using d by (simp_all add: whole_text_def piece_of_def as_grammar_def eog_of_def)
  have e: "grammar_accept_token 3 as_grammar = Some (Inr as_grammar)"
    by (simp add: grammar_accept_token_def as_grammar_def piece_of_def eog_of_def)
  have a: "\<exists>g'. grammar_accept_token 1 as_grammar = Some (Inr g')"
    using d(1) by (simp add: as_eval)
  have b: "\<not> (\<exists>g'. grammar_accept_token 2 as_grammar = Some (Inr g'))"
    using d(2) by (simp add: as_eval)
  have "kept 1" "\<not> kept 2" "kept 3" using k(2) w e a b z by simp_all
  then show ?thesis using k(1) by blast
qed

end
