(* ===== verification/GrammarText.thy ===== *)
theory GrammarText
  imports GrammarParse GrammarProps
begin

text \<open>A grammar from its text: the parser and the engine together.\<close>

definition ascii :: "string \<Rightarrow> byte list" where
  "ascii = map of_char"

section \<open>The language of a text\<close>

lemma copy_rule_wf: "wf_from n m rule \<Longrightarrow> \<exists>r. copy_rule rule = Some r \<and> wf_from n m r"
proof -
  assume w: "wf_from n m rule"
  have "(\<exists>e \<in> set rule. ge_type e = GRETYPE_END) \<and> wf_from n m (takeWhile (\<lambda>e. ge_type e \<noteq> GRETYPE_END) rule @ [\<lparr>ge_type = GRETYPE_END, ge_value = 0\<rparr>])"
    using w by (induction rule arbitrary: m) (auto split: gretype.splits)
  then show ?thesis by (simp add: copy_rule_def)
qed

lemma copy_rules_ok:
  assumes "rules_ok rules"
  shows "\<exists>copies. mapM copy_rule rules = Some copies \<and> rules_ok copies \<and> length copies = length rules"
proof -
  have c: "\<exists>r. copy_rule rule = Some r \<and> wf_from (length rules) 0 r" if "rule \<in> set rules" for rule
    using copy_rule_wf assms that by (simp add: rules_ok_def)
  obtain copies where "mapM copy_rule rules = Some copies" "set copies = {y. \<exists>x \<in> set rules. copy_rule x = Some y}" "length copies = length rules"
    using mapM_some [of rules copy_rule] c by blast
  then show ?thesis using c by (fastforce simp: rules_ok_def)
qed

text \<open>
  C38. A text that parses gives a grammar that follows its language.  The parser produces only
  well-formed rules whose references are defined, so that, when the root has a rule, the rules pass the
  check for left recursion and only rules with an alternative without elements derive the empty text,
  \<open>llama_grammar_init_impl\<close> returns a grammar; every text can then be accepted, and the stacks accept
  exactly what completes it to a text of the root, an empty one being among them exactly for a text of the root.
\<close>
theorem text_grammar_follows_language:
  assumes parse: "grammar_parse tokenize src = Some p" and size: "n_symbols p < 2 ^ 32"
    and root: "map_of (gp_symbol_ids p) root = Some k" "unat k < length (gp_rules p)"
    and rules: "mapM copy_rule (gp_rules p) = Some rules" "null_direct rules" "detect_all rules = Some (RecNone, s)"
  shows "\<exists>g. grammar_init_text vocab o_vocab tokenize src root lazy patterns tokens = Some (Some g) \<and> grammar_inv g \<and>
    gr_awaiting_trigger g = lazy \<and>
    (\<forall>w. \<exists>g'. foldM grammar_accept w g = Some g' \<and> ([] \<in> set (gr_stacks g') \<longleftrightarrow> rule_lang rules (unat k) w) \<and>
      (\<forall>v. stacks_lang rules (set (gr_stacks g')) v \<longleftrightarrow> rule_lang rules (unat k) (w @ v)))"
proof -
  have ok: "rules_ok rules" "unat k < length rules"
    using copy_rules_ok [OF parsed_rules_ok [OF parse size]] rules(1) root(2) by auto
  obtain sts where sts: "start_stacks rules (unat k) = Some sts" "\<And>g. gr_rules g = rules \<Longrightarrow> gr_stacks g = sts \<Longrightarrow> grammar_inv g \<and>
    (\<forall>w. \<exists>g'. foldM grammar_accept w g = Some g' \<and> ([] \<in> set (gr_stacks g') \<longleftrightarrow> rule_lang rules (unat k) w) \<and>
      (\<forall>v. stacks_lang rules (set (gr_stacks g')) v \<longleftrightarrow> rule_lang rules (unat k) (w @ v)))"
    using started_grammar_follows [OF ok(1) rules(2) ok(2) rules(3)] by blast
  have "gp_rules p \<noteq> []" using root(2) by auto
  then obtain g where g: "grammar_init_text vocab o_vocab tokenize src root lazy patterns tokens = Some (Some g)" "gr_rules g = rules" "gr_stacks g = sts"
    "gr_awaiting_trigger g = lazy"
    using parse root(1) rules(1,3) sts(1) by (simp add: grammar_init_text_def)
  show ?thesis using g(1,4) sts(2) [OF g(2,3)] by blast
qed

definition as_text :: "byte list" where
  "as_text = ascii ''root ::= \"a\" root | \"\"''"

lemma as_text_parse: "grammar_parse None as_text = Some \<lparr>gp_symbol_ids = [(ascii ''root'', 0)], gp_rules = [as_rule]\<rparr>"
  by code_simp

lemma text_grammar_follows_language_witness:
  "\<exists>g. grammar_init_text (\<lambda>_. [97], \<lambda>_. False) None None as_text (ascii ''root'') False [] [] = Some (Some g) \<and> grammar_inv g \<and>
    (\<exists>g'. foldM grammar_accept [97, 97] g = Some g' \<and> ([] \<in> set (gr_stacks g') \<longleftrightarrow> rule_lang [as_rule] 0 [97, 97]))"
proof -
  let ?p = "\<lparr>gp_symbol_ids = [(ascii ''root'', 0 :: 32 word)], gp_rules = [as_rule]\<rparr>"
  obtain s where s: "detect_all [as_rule] = Some (RecNone, s)" using as_detect by blast
  have "map_of (gp_symbol_ids ?p) (ascii ''root'') = Some 0" "n_symbols ?p < 2 ^ 32" "unat (0 :: 32 word) < length (gp_rules ?p)"
    "mapM copy_rule (gp_rules ?p) = Some [as_rule]" using as_rules(3) by simp_all
  then show ?thesis
    using text_grammar_follows_language [OF as_text_parse _ _ _ _ as_rules(2) s, of "ascii ''root''" 0 "(\<lambda>_. [97], \<lambda>_. False)" None False "[]" "[]"]
    unfolding unat_0 by metis
qed

section \<open>Texts that break the parser\<close>

text \<open>
  \<open>a ::= root{0}\<close>: the reference is dropped, the name \<open>root\<close> stays in the table with the number 1, and
  the rule of the start symbol is read behind the end of the rules.
\<close>

lemma unused_root_out_of_bounds:
  "grammar_init_text vocab o_vocab None (ascii ''a ::= root{0}'') (ascii ''root'') lazy patterns tokens = None"
proof -
  have "grammar_parse None (ascii ''a ::= root{0}'') = Some \<lparr>gp_symbol_ids = [(ascii ''a'', 0), (ascii ''root'', 1)], gp_rules = [[elem GRETYPE_END 0]]\<rparr>"
    by code_simp
  moreover have "map_of [(ascii ''a'', 0 :: 32 word), (ascii ''root'', 1)] (ascii ''root'') = Some 1" by code_simp
  moreover have "detect_all [[elem GRETYPE_END 0]] = Some (RecNone, \<lparr>rs_visited = [True], rs_in_progress = [False], rs_may_be_empty = [True]\<rparr>)"
    by (simp add: detect_all_def detect_rule_def detect_left_recursion.simps(2) [of _ 256, simplified] elem_def rec_elem_def is_end_of_sequence_def vget_def vset_def)
  moreover have "mapM copy_rule [[elem GRETYPE_END 0]] = Some [[elem GRETYPE_END 0]]" by (simp add: copy_rule_def elem_def)
  moreover have "start_stacks [[elem GRETYPE_END 0]] 1 = None" by (simp add: start_stacks_def alt_starts_def vget_def)
  ultimately show ?thesis by (simp add: grammar_init_text_def)
qed

text \<open>With \<open>{3,2}\<close> the number of optional repetitions wraps around: a rule is added for each.\<close>

lemma reversed_bounds_wrap: "parse_bounds False (ascii ''{3,2}'') = Some ((3, 2), []) \<and> unat (n_optional 3 2) = 2 ^ 64 - 1"
proof
  show "parse_bounds False (ascii ''{3,2}'') = Some ((3, 2), [])" by code_simp
  show "unat (n_optional 3 2) = 2 ^ 64 - 1" by (simp add: n_optional_def unsigned_minus_1_eq_mask mask_eq_exp_minus_1)
qed

end
