(* ===== verification/GrammarCases.thy ===== *)
theory GrammarCases
  imports GrammarProps
begin

text \<open>
  Concrete grammars that mark the limits of the properties: a left recursion through a rule whose
  emptiness is not direct, a token element behind text, and a zero code point in a piece.
\<close>

section \<open>A left recursion that is not reported\<close>

text \<open>The rules \<open>s ::= a s "x" | "y"\<close>, \<open>a ::= b\<close>, \<open>b ::= "" | "z"\<close>.\<close>

definition lr_rules :: grammar_rules where
  "lr_rules = [[\<lparr>ge_type = GRETYPE_RULE_REF, ge_value = 1\<rparr>, \<lparr>ge_type = GRETYPE_RULE_REF, ge_value = 0\<rparr>, \<lparr>ge_type = GRETYPE_CHAR, ge_value = 120\<rparr>,
      \<lparr>ge_type = GRETYPE_ALT, ge_value = 0\<rparr>, \<lparr>ge_type = GRETYPE_CHAR, ge_value = 121\<rparr>, \<lparr>ge_type = GRETYPE_END, ge_value = 0\<rparr>],
    [\<lparr>ge_type = GRETYPE_RULE_REF, ge_value = 2\<rparr>, \<lparr>ge_type = GRETYPE_END, ge_value = 0\<rparr>],
    [\<lparr>ge_type = GRETYPE_ALT, ge_value = 0\<rparr>, \<lparr>ge_type = GRETYPE_CHAR, ge_value = 122\<rparr>, \<lparr>ge_type = GRETYPE_END, ge_value = 0\<rparr>]]"

lemma lr_detect: "\<exists>s. detect_all lr_rules = Some (RecNone, s)"
  by (simp add: detect_all_def detect_rule_def detect_left_recursion.simps(2) [of _ 256, simplified] detect_left_recursion.simps(2) [of _ 255, simplified]
    detect_left_recursion.simps(2) [of _ 254, simplified] lr_rules_def rec_elem_def is_end_of_sequence_def vget_def vset_def)

text \<open>The stacks that the expansion of the start goes through, without end.\<close>

definition lr_chain :: "nat \<Rightarrow> grammar_stack" where
  "lr_chain k = (if k mod 3 = 0 then [(0, 0)] else if k mod 3 = 1 then [(1, 0), (0, 1)] else [(0, 1)]) @ replicate (k div 3) (0, 2)"

lemmas lr_eval = lr_rules_def advance_step_def rule_stacks_def alt_starts_def enter_alt_def push_pos_def next_pos_def at_end_def
  elem_at_def vget_def is_end_of_sequence_def

lemma lr_step: "wp (advance_step lr_rules (lr_chain k) new) (\<lambda>(sts, _). lr_chain (Suc k) \<in> set sts)"
proof -
  let ?rest = "replicate (k div 3) (0, 2)"
  consider "k mod 3 = 0" | "k mod 3 = 1" | "k mod 3 = 2" by linarith
  then show ?thesis
  proof cases
    case 1
    then have "lr_chain k = (0, 0) # ?rest" "lr_chain (Suc k) = (1, 0) # (0, 1) # ?rest" by (simp_all add: lr_chain_def mod_Suc div_Suc)
    then show ?thesis by (simp add: lr_eval)
  next
    case 2
    then have "lr_chain k = (1, 0) # (0, 1) # ?rest" "lr_chain (Suc k) = (0, 1) # ?rest" by (simp_all add: lr_chain_def mod_Suc div_Suc)
    then show ?thesis by (simp add: lr_eval)
  next
    case 3
    then have "lr_chain k = (0, 1) # ?rest" "lr_chain (Suc k) = (0, 0) # (0, 2) # ?rest" by (simp_all add: lr_chain_def mod_Suc div_Suc)
    then show ?thesis by (simp add: lr_eval)
  qed
qed

lemma lr_chain_inj:
  assumes "lr_chain j = lr_chain k"
  shows "j = k"
proof -
  have f: "filter (\<lambda>p. p = (0, 2)) (lr_chain i) = replicate (i div 3) (0, 2)" for i by (simp add: lr_chain_def)
  have d: "j div 3 = k div 3" using f [of j] f [of k] assms by (metis length_replicate)
  have "i mod 3 = (if hd (lr_chain i) = (0, 0) then 0 else if hd (lr_chain i) = (1, 0) then 1 else 2)" for i
    using mod_less_divisor [of 3 i] by (auto simp: lr_chain_def)
  then have "j mod 3 = k mod 3" using assms by simp
  then show ?thesis using d by (metis div_mult_mod_eq)
qed

lemma lr_never_returns:
  assumes "advance_loop rules todo seen new = Some r"
  shows "rules = lr_rules \<Longrightarrow> \<not> (lr_chain k \<in> set todo \<and> (\<forall>j \<ge> k. lr_chain j \<notin> seen))"
  using assms
proof (induction arbitrary: k rule: advance_loop.raw_induct [rotated, consumes 1])
  fix f :: "grammar_rules \<Rightarrow> grammar_stacks \<Rightarrow> grammar_stack set \<Rightarrow> grammar_stacks \<Rightarrow> grammar_stacks option" and rules todo seen new r k
  assume IH: "\<And>rules todo seen new r k. f rules todo seen new = Some r \<Longrightarrow> rules = lr_rules \<Longrightarrow>
      \<not> (lr_chain k \<in> set todo \<and> (\<forall>j \<ge> k. lr_chain j \<notin> seen))"
    and run: "(if todo = [] then Some new else if hd todo \<in> seen then f rules (tl todo) seen new
      else Option.bind (advance_step rules (hd todo) new) (\<lambda>(sts, new). f rules (sts @ tl todo) (insert (hd todo) seen) new)) = Some r"
    and R: "rules = lr_rules"
  show "\<not> (lr_chain k \<in> set todo \<and> (\<forall>j \<ge> k. lr_chain j \<notin> seen))"
  proof
    assume I: "lr_chain k \<in> set todo \<and> (\<forall>j \<ge> k. lr_chain j \<notin> seen)"
    then obtain st rest where t: "todo = st # rest" by (cases todo) auto
    show False
    proof (cases "st \<in> seen")
      case True
      then have "f rules rest seen new = Some r" "lr_chain k \<in> set rest" using run I t by auto
      then show False using IH [OF _ R] I by blast
    next
      case False
      then obtain sts new' where s: "advance_step rules st new = Some (sts, new')" "f rules (sts @ rest) (insert st seen) new' = Some r"
        using run t by (auto simp: Option.bind_eq_Some_conv)
      note no = IH [OF s(2) R]
      show False
      proof (cases "\<exists>j \<ge> k. st = lr_chain j")
        case True
        then obtain j where j: "j \<ge> k" "st = lr_chain j" by blast
        have "lr_chain (Suc j) \<in> set sts" using lr_step [of j new] s(1) R j(2) by simp
        moreover have "\<forall>i \<ge> Suc j. lr_chain i \<notin> insert st seen" using I j lr_chain_inj by fastforce
        ultimately show False using no [of "Suc j"] by simp
      next
        case no_chain: False
        then have "lr_chain k \<in> set rest" "\<forall>i \<ge> k. lr_chain i \<notin> insert st seen" using I t by auto
        then show False using no [of k] by simp
      qed
    qed
  qed
qed

lemma undetected_left_recursion:
  "(\<exists>s. detect_all lr_rules = Some (RecNone, s)) \<and> grammar_init vocab o_vocab lr_rules 0 = None"
proof -
  have n: "advance_loop lr_rules [[(0, 0)]] {} [] = None"
  proof (rule ccontr)
    assume "advance_loop lr_rules [[(0, 0)]] {} [] \<noteq> None"
    then obtain r where "advance_loop lr_rules [[(0, 0)]] {} [] = Some r" by blast
    then show False using lr_never_returns [of lr_rules "[[(0, 0)]]" "{}" "[]" r 0] by (simp add: lr_chain_def)
  qed
  have c: "mapM copy_rule lr_rules = Some lr_rules" "valid_refs lr_rules" by (simp_all add: lr_rules_def copy_rule_def valid_refs_def)
  have s: "alt_starts lr_rules 0 = Some [0, 4]" "push_pos lr_rules (0, 0) [] = Some [(0, 0)]" by (simp_all add: lr_eval)
  have "start_stacks lr_rules 0 = None" using n by (simp add: start_stacks_def s advance_stack_def)
  then show ?thesis using lr_detect c by (auto simp: grammar_init_def)
qed

section \<open>Tokens that are kept and then refused\<close>

definition text_grammar :: "(llama_token \<Rightarrow> byte list) \<Rightarrow> grammar_rules \<Rightarrow> grammar" where
  "text_grammar piece rules = \<lparr>gr_vocab = (piece, \<lambda>t. False), gr_o_vocab = None, gr_rules = rules, gr_stacks = [[(0, 0)]],
     gr_partial = \<lparr>pu_value = 0, pu_n_remain = 0\<rparr>, gr_lazy = False, gr_awaiting_trigger = False,
     gr_trigger_buffer = [], gr_trigger_positions = [], gr_trigger_tokens = [], gr_trigger_patterns = []\<rparr>"

lemmas mask_eval = as_eval grammar_apply_def apply_one_def reject_candidates_def reject_loop.simps level_of_def level_done_def level_step_def
  reject_step_def char_candidate_def token_candidate_def end_candidate_def level_return_def match_token_def text_grammar_def

text \<open>
  \<open>root ::= "a" <[5]>\<close>: a token 5 with the text \<open>ab\<close> matches the token element by its id although a
  part of its text was used for the \<open>a\<close>; the acceptor goes on with its text and refuses it.
\<close>

lemma token_element_behind_text:
  "grammar_apply (text_grammar (\<lambda>t. [97, 98]) [[\<lparr>ge_type = GRETYPE_CHAR, ge_value = 97\<rparr>, \<lparr>ge_type = GRETYPE_TOKEN, ge_value = 5\<rparr>,
      \<lparr>ge_type = GRETYPE_END, ge_value = 0\<rparr>]]) [(5, 7)] = Some [(5, 7)] \<and>
   (\<exists>g'. grammar_accept_token 5 (text_grammar (\<lambda>t. [97, 98]) [[\<lparr>ge_type = GRETYPE_CHAR, ge_value = 97\<rparr>, \<lparr>ge_type = GRETYPE_TOKEN, ge_value = 5\<rparr>,
      \<lparr>ge_type = GRETYPE_END, ge_value = 0\<rparr>]]) = Some (Inl g'))"
proof -
  have d: "decode_utf8 [97, 98] \<lparr>pu_value = 0, pu_n_remain = 0\<rparr> = ([97, 98, 0], \<lparr>pu_value = 98, pu_n_remain = 0\<rparr>)" by code_simp
  show ?thesis by (simp add: mask_eval d)
qed

text \<open>
  \<open>root ::= "a"\<close> and a token with the bytes C0 80 62: it decodes to the code points 0 and \<open>b\<close>, the mask
  takes the first for the end of the token, and the acceptor refuses it.
\<close>

lemma zero_code_point_kept:
  "grammar_apply (text_grammar (\<lambda>t. [0xC0, 0x80, 98]) [[\<lparr>ge_type = GRETYPE_CHAR, ge_value = 97\<rparr>, \<lparr>ge_type = GRETYPE_END, ge_value = 0\<rparr>]]) [(5, 7)] = Some [(5, 7)] \<and>
   (\<exists>g'. grammar_accept_token 5 (text_grammar (\<lambda>t. [0xC0, 0x80, 98]) [[\<lparr>ge_type = GRETYPE_CHAR, ge_value = 97\<rparr>, \<lparr>ge_type = GRETYPE_END, ge_value = 0\<rparr>]]) = Some (Inl g'))"
proof -
  have d: "decode_utf8 [0xC0, 0x80, 98] \<lparr>pu_value = 0, pu_n_remain = 0\<rparr> = ([0, 98, 0], \<lparr>pu_value = 98, pu_n_remain = 0\<rparr>)" by code_simp
  show ?thesis by (simp add: mask_eval d)
qed

end
