(* ===== verification/ModelSched.thy ===== *)
theory ModelSched
  imports StdMap
begin

text \<open>
  The state of the model router (\<open>tools/server/server-models.h\<close>, \<open>server-models-sched.h\<close>) and its
  scheduler (\<open>server-models-sched.cpp\<close>): which model instances run, the queue of requests that wait
  for a slot, and the accounting of device memory.  All operations run with the mutex held, so they
  are functions on the state.

  Byte counts: \<open>size_t\<close> values are natural numbers, \<open>self()\<close> wraps at 2^64 and the casts to
  \<open>int64_t\<close> are written out; sums of \<open>int64_t\<close> values are integers.  Processes are numbers.  What the
  operations ask of child processes is collected in \<open>ms_cmds\<close>; whether spawning a child succeeds is
  an argument.  Payloads arrive decoded from JSON.
\<close>

section \<open>State\<close>

datatype server_model_status = SERVER_MODEL_STATUS_DOWNLOADING | SERVER_MODEL_STATUS_INCOMPLETE | SERVER_MODEL_STATUS_DOWNLOADED
  | SERVER_MODEL_STATUS_UNLOADED | SERVER_MODEL_STATUS_LOADING | SERVER_MODEL_STATUS_LOADED | SERVER_MODEL_STATUS_SLEEPING

datatype server_model_memory_status = SERVER_MODEL_MEMORY_UNMEASURED | SERVER_MODEL_MEMORY_MEASURING
  | SERVER_MODEL_MEMORY_MEASURED | SERVER_MODEL_MEMORY_FAILED

record device_t =
  d_kind :: string
  d_name :: string
  d_total :: nat
  d_free :: nat
  d_model :: nat
  d_context :: nat
  d_compute :: nat

record server_model_memory =
  mem_n_ctx :: nat
  mem_devices :: "device_t list"

definition is_device :: "device_t \<Rightarrow> bool" where
  "is_device d = (d_kind d = ''device'')"

definition dev_self :: "device_t \<Rightarrow> nat" where
  "dev_self d = (d_model d + d_context d + d_compute d) mod 2 ^ 64"

definition i64_of_size :: "nat \<Rightarrow> int" where
  "i64_of_size n = (if n < 2 ^ 63 then int n else int n - 2 ^ 64)"

datatype row_kind = ROW_DEVICE | ROW_HOST | ROW_BUFFER_TYPE

record breakdown_row =
  br_kind :: row_kind
  br_name :: string
  br_total :: nat
  br_free :: nat
  br_model :: nat
  br_context :: nat
  br_compute :: nat

definition memory_of_row :: "breakdown_row \<Rightarrow> device_t" where
  "memory_of_row r = \<lparr>d_kind = (case br_kind r of ROW_DEVICE \<Rightarrow> ''device'' | ROW_HOST \<Rightarrow> ''host'' | ROW_BUFFER_TYPE \<Rightarrow> ''buffer_type''),
     d_name = br_name r, d_total = br_total r, d_free = br_free r, d_model = br_model r, d_context = br_context r, d_compute = br_compute r\<rparr>"

definition memory_of_rows :: "nat \<Rightarrow> breakdown_row list \<Rightarrow> server_model_memory" where
  "memory_of_rows n_ctx rows = \<lparr>mem_n_ctx = n_ctx, mem_devices = map memory_of_row rows\<rparr>"

record server_model_memory_info =
  mi_status :: server_model_memory_status
  mi_n_attempts :: int
  mi_min :: "server_model_memory option"
  mi_max :: "server_model_memory option"
  mi_effective :: "server_model_memory option"

definition memory_info_new :: server_model_memory_info where
  "memory_info_new = \<lparr>mi_status = SERVER_MODEL_MEMORY_UNMEASURED, mi_n_attempts = 0, mi_min = None, mi_max = None, mi_effective = None\<rparr>"

definition is_settled :: "server_model_memory_info \<Rightarrow> bool" where
  "is_settled i = (mi_status i = SERVER_MODEL_MEMORY_MEASURED \<or> mi_status i = SERVER_MODEL_MEMORY_FAILED)"

record server_model_meta =
  mt_status :: server_model_status
  mt_last_used :: int
  mt_exit_code :: int
  mt_stop_timeout :: int
  mt_aliases :: "string set"
  mt_memory :: server_model_memory_info

definition is_ready :: "server_model_meta \<Rightarrow> bool" where
  "is_ready m = (mt_status m = SERVER_MODEL_STATUS_LOADED)"

definition status_running :: "server_model_status \<Rightarrow> bool" where
  "status_running st = (st = SERVER_MODEL_STATUS_LOADED \<or> st = SERVER_MODEL_STATUS_LOADING \<or> st = SERVER_MODEL_STATUS_SLEEPING)"

definition is_running :: "server_model_meta \<Rightarrow> bool" where
  "is_running m = status_running (mt_status m)"

definition is_ready_or_sleep :: "server_model_meta \<Rightarrow> bool" where
  "is_ready_or_sleep m = (mt_status m = SERVER_MODEL_STATUS_LOADED \<or> mt_status m = SERVER_MODEL_STATUS_SLEEPING)"

definition is_failed :: "server_model_meta \<Rightarrow> bool" where
  "is_failed m = (mt_status m = SERVER_MODEL_STATUS_UNLOADED \<and> mt_exit_code m \<noteq> 0)"

record instance_t =
  in_subproc :: "nat option"
  in_meta :: server_model_meta
  in_req_count :: int

record queue_entry =
  qe_model :: string
  qe_waiters :: int
  qe_loading :: bool

record device_memory_t =
  dm_total :: int
  dm_external :: int

text \<open>What the router asks the monitor thread and the operating system for.\<close>

datatype child_cmd = MonitorStop string int bool | TerminateChild string | RequestExit string | TerminateMeasure | WatchMeasure string nat | WatchInstance string nat

record server_models =
  ms_models_max :: int
  ms_memory_margin :: int
  ms_mapping :: "(string \<times> instance_t) list"
  ms_stopping :: "string set"
  ms_queue :: "queue_entry list"
  ms_measure_queue :: "string list"
  ms_measuring :: string
  ms_measure_proc :: "nat option"
  ms_device_memory :: "(string \<times> device_memory_t) list"
  ms_held :: "(string \<times> (string \<times> nat) list) list"
  ms_cmds :: "child_cmd list"

definition find_model :: "string \<Rightarrow> server_models \<Rightarrow> instance_t option" where
  "find_model name s = map_of (ms_mapping s) name"

definition set_model :: "string \<Rightarrow> instance_t \<Rightarrow> server_models \<Rightarrow> server_models" where
  "set_model name i s = s\<lparr>ms_mapping := mput name i (ms_mapping s)\<rparr>"

definition set_memory :: "string \<Rightarrow> instance_t \<Rightarrow> server_model_memory_info \<Rightarrow> server_models \<Rightarrow> server_models" where
  "set_memory name i mi s = set_model name (i\<lparr>in_meta := (in_meta i)\<lparr>mt_memory := mi\<rparr>\<rparr>) s"

definition send_cmd :: "child_cmd \<Rightarrow> server_models \<Rightarrow> server_models" where
  "send_cmd c s = s\<lparr>ms_cmds := ms_cmds s @ [c]\<rparr>"

section \<open>Request queue\<close>

definition count_running :: "server_models \<Rightarrow> nat" where
  "count_running s = length (filter (\<lambda>e. is_running (in_meta (snd e))) (ms_mapping s))"

definition has_capacity :: "server_models \<Rightarrow> bool" where
  "has_capacity s = (ms_models_max s \<le> 0 \<or> int (count_running s) < ms_models_max s)"

definition find_entry :: "string \<Rightarrow> server_models \<Rightarrow> queue_entry option" where
  "find_entry m s = find (\<lambda>e. qe_model e = m) (ms_queue s)"

text \<open>The empty name stands for no victim, as in the code.\<close>

definition victim_step :: "server_models \<Rightarrow> string \<times> instance_t \<Rightarrow> string \<times> int \<Rightarrow> string \<times> int" where
  "victim_step s = (\<lambda>(name, i) (victim, victim_last_used).
     if in_req_count i \<noteq> 0 \<or> \<not> is_ready_or_sleep (in_meta i) then (victim, victim_last_used)
     else if name \<in> ms_stopping s \<or> find_entry name s \<noteq> None then (victim, victim_last_used)
     else if victim = '''' \<or> mt_last_used (in_meta i) < victim_last_used then (name, mt_last_used (in_meta i))
     else (victim, victim_last_used))"

definition pick_victim :: "server_models \<Rightarrow> string" where
  "pick_victim s = fst (fold (victim_step s) (ms_mapping s) ('''', 0))"

fun join_queue :: "string \<Rightarrow> queue_entry list \<Rightarrow> queue_entry list" where
  "join_queue m [] = [\<lparr>qe_model = m, qe_waiters = 1, qe_loading = False\<rparr>]"
| "join_queue m (e # q) = (if qe_model e = m then e\<lparr>qe_waiters := qe_waiters e + 1\<rparr> # q else e # join_queue m q)"

definition sched_join :: "string \<Rightarrow> server_models \<Rightarrow> server_models" where
  "sched_join m s = s\<lparr>ms_queue := join_queue m (ms_queue s)\<rparr>"

fun leave_queue :: "string \<Rightarrow> queue_entry list \<Rightarrow> queue_entry list" where
  "leave_queue m [] = []"
| "leave_queue m (e # q) = (
     if qe_model e = m then (if qe_waiters e - 1 \<le> 0 then q else e\<lparr>qe_waiters := qe_waiters e - 1\<rparr> # q)
     else e # leave_queue m q)"

definition sched_leave :: "string \<Rightarrow> server_models \<Rightarrow> server_models" where
  "sched_leave m s = s\<lparr>ms_queue := leave_queue m (ms_queue s)\<rparr>"

definition queue_empty :: "server_models \<Rightarrow> bool" where
  "queue_empty s = (ms_queue s = [])"

fun unclaim :: "string \<Rightarrow> queue_entry list \<Rightarrow> queue_entry list" where
  "unclaim m [] = []"
| "unclaim m (e # q) = (if qe_model e = m then e\<lparr>qe_loading := False\<rparr> # q else e # unclaim m q)"

definition claim_done :: "string \<Rightarrow> bool \<Rightarrow> server_models \<Rightarrow> server_models" where
  "claim_done m ok s = (if ok then s else s\<lparr>ms_queue := unclaim m (ms_queue s)\<rparr>)"

definition request_stop :: "string \<Rightarrow> bool \<Rightarrow> server_models \<Rightarrow> server_models" where
  "request_stop name send_exit s = (case find_model name s of
     None \<Rightarrow> s
   | Some i \<Rightarrow> if name \<in> ms_stopping s then s
       else send_cmd (MonitorStop name (mt_stop_timeout (in_meta i)) send_exit) (s\<lparr>ms_stopping := insert name (ms_stopping s)\<rparr>))"

text \<open>A picked victim is a running model that is not asked to stop yet; this is why the loop of \<open>tick\<close> ends.\<close>

lemma victim_fold:
  "fst (fold (victim_step s) xs (v, u)) = v \<or> fst (fold (victim_step s) xs (v, u)) \<in> {n \<in> set (map fst xs). n \<notin> ms_stopping s}"
proof (induction xs arbitrary: v u)
  case (Cons x xs)
  obtain n i where x: "x = (n, i)" by fastforce
  obtain v' u' where v: "victim_step s x (v, u) = (v', u')" by fastforce
  have "v' = v \<or> v' = n \<and> n \<notin> ms_stopping s" using v by (auto simp: victim_step_def x split: if_splits)
  then show ?case using Cons.IH [of v' u'] x v by auto
qed simp

lemma pick_victim_mem:
  "pick_victim s \<noteq> '''' \<Longrightarrow> pick_victim s \<in> set (map fst (ms_mapping s)) \<and> pick_victim s \<notin> ms_stopping s"
  using victim_fold [of s "ms_mapping s" "''''" 0] by (auto simp: pick_victim_def)

lemma request_stop_fields [simp]:
  "ms_mapping (request_stop n b s) = ms_mapping s" "ms_queue (request_stop n b s) = ms_queue s"
  "ms_models_max (request_stop n b s) = ms_models_max s" "ms_held (request_stop n b s) = ms_held s"
  "ms_memory_margin (request_stop n b s) = ms_memory_margin s" "ms_device_memory (request_stop n b s) = ms_device_memory s"
  "ms_measure_queue (request_stop n b s) = ms_measure_queue s" "ms_measuring (request_stop n b s) = ms_measuring s"
  "ms_measure_proc (request_stop n b s) = ms_measure_proc s"
  by (simp_all add: request_stop_def send_cmd_def split: option.splits)

lemma request_stop_stopping:
  "ms_stopping (request_stop n b s) = (if n \<in> set (map fst (ms_mapping s)) then insert n (ms_stopping s) else ms_stopping s)"
proof (cases "map_of (ms_mapping s) n")
  case None
  then have "n \<notin> set (map fst (ms_mapping s))" by (simp add: map_of_eq_None_iff)
  then show ?thesis using None by (simp add: request_stop_def find_model_def)
next
  case (Some i)
  then have "n \<in> set (map fst (ms_mapping s))" by (force dest: map_of_SomeD)
  then show ?thesis using Some by (auto simp: request_stop_def find_model_def send_cmd_def)
qed

definition n_running :: "server_models \<Rightarrow> int" where
  "n_running s = int (count_running s)"

definition n_stopping :: "server_models \<Rightarrow> int" where
  "n_stopping s = int (length (filter (\<lambda>(n, i). is_running (in_meta i) \<and> n \<in> ms_stopping s) (ms_mapping s)))"

definition n_needed :: "server_models \<Rightarrow> int" where
  "n_needed s = int (length (filter (\<lambda>e. \<not> qe_loading e) (ms_queue s)))"

text \<open>Claimed the slot, but \<open>load()\<close> has not spawned the child yet.\<close>

definition n_claimed :: "server_models \<Rightarrow> int" where
  "n_claimed s = int (length (filter (\<lambda>e. qe_loading e \<and>
     (case find_model (qe_model e) s of None \<Rightarrow> False | Some i \<Rightarrow> \<not> is_running (in_meta i))) (ms_queue s)))"

function evict_loop :: "int \<Rightarrow> int \<Rightarrow> server_models \<Rightarrow> server_models" where
  "evict_loop n_free needed s = (
     if n_free < needed then
       let victim = pick_victim s in
       if victim = '''' then s else evict_loop (n_free + 1) needed (request_stop victim True s)
     else s)"
  by pat_completeness auto

termination
  by (relation "measure (\<lambda>(n_free, needed, s). nat (needed - n_free))") auto

declare evict_loop.simps [simp del]

definition tick :: "server_models \<Rightarrow> server_models" where
  "tick s = (if ms_models_max s \<le> 0 \<or> ms_queue s = [] then s
     else evict_loop (ms_models_max s - n_running s + n_stopping s - n_claimed s) (n_needed s) s)"

section \<open>Memory accounting\<close>

definition memory_enabled :: "server_models \<Rightarrow> bool" where
  "memory_enabled s = (ms_memory_margin s > 0)"

definition held_on :: "string \<Rightarrow> (string \<times> (string \<times> nat) list) list \<Rightarrow> int" where
  "held_on dev held = sum_list (map (\<lambda>(name, devs). case map_of devs dev of None \<Rightarrow> 0 | Some n \<Rightarrow> i64_of_size n) held)"

definition calibrate_dev :: "string \<Rightarrow> device_t \<Rightarrow> server_models \<Rightarrow> server_models" where
  "calibrate_dev reporter d s = (
     if \<not> is_device d \<or> d_total d = 0 then s
     else let tracked = held_on (d_name d) (filter (\<lambda>e. fst e \<noteq> reporter) (ms_held s));
              self = (if reporter = '''' then 0 else i64_of_size (dev_self d));
              total = i64_of_size (d_total d)
          in s\<lparr>ms_device_memory := mput (d_name d)
                 \<lparr>dm_total = total, dm_external = max 0 (total - i64_of_size (d_free d) - self - tracked)\<rparr> (ms_device_memory s)\<rparr>)"

definition calibrate :: "server_model_memory \<Rightarrow> string \<Rightarrow> server_models \<Rightarrow> server_models" where
  "calibrate mem reporter s = fold (calibrate_dev reporter) (mem_devices mem) s"

definition reserved :: "server_model_memory \<Rightarrow> (string \<times> nat) list" where
  "reserved mem = fold (\<lambda>d devs. if is_device d \<and> 0 < d_total d then mput (d_name d) (dev_self d) devs else devs) (mem_devices mem) []"

definition reserve :: "string \<Rightarrow> server_models \<Rightarrow> server_models" where
  "reserve name s = (case find_model name s of
     None \<Rightarrow> s
   | Some i \<Rightarrow>
       let info = mt_memory (in_meta i) in
       if map_of (ms_held s) name \<noteq> None then s
       else (case (if mi_effective info \<noteq> None then mi_effective info else mi_min info) of
           None \<Rightarrow> s
         | Some mem \<Rightarrow> s\<lparr>ms_held := mput name (reserved mem) (ms_held s)\<rparr>))"

definition release :: "string \<Rightarrow> server_models \<Rightarrow> server_models" where
  "release name s = s\<lparr>ms_held := merase name (ms_held s)\<rparr>"

definition available :: "server_models \<Rightarrow> string \<Rightarrow> int" where
  "available s dev = (case map_of (ms_device_memory s) dev of
     None \<Rightarrow> 2 ^ 63 - 1
   | Some dm \<Rightarrow> dm_total dm - dm_external dm - held_on dev (ms_held s))"

definition deficit_step :: "server_models \<Rightarrow> device_t \<Rightarrow> (string \<times> nat) list \<Rightarrow> (string \<times> nat) list" where
  "deficit_step s d res = (
     if \<not> is_device d \<or> d_total d = 0 then res
     else if map_of (ms_device_memory s) (d_name d) = None then res
     else let avail = available s (d_name d) - ms_memory_margin s * 1024 * 1024; self = i64_of_size (dev_self d) in
       if self > avail then mput (d_name d) (nat (self - avail)) res else res)"

definition deficit :: "server_models \<Rightarrow> string \<Rightarrow> (string \<times> nat) list" where
  "deficit s name = (case find_model name s of
     None \<Rightarrow> []
   | Some i \<Rightarrow> (case mi_min (mt_memory (in_meta i)) of
       None \<Rightarrow> []
     | Some mem \<Rightarrow> fold (deficit_step s) (mem_devices mem) []))"

definition limits_exceeded :: "server_models \<Rightarrow> string \<Rightarrow> bool" where
  "limits_exceeded s name = (
     if \<not> has_capacity s then True
     else if \<not> memory_enabled s then False
     else if deficit s name = [] then False
     else \<exists>e \<in> set (ms_mapping s). is_running (in_meta (snd e)))"

definition try_claim :: "string \<Rightarrow> server_models \<Rightarrow> bool \<times> server_models" where
  "try_claim m s = (case ms_queue s of
     [] \<Rightarrow> (False, s)
   | e # q \<Rightarrow>
       if qe_model e \<noteq> m \<or> qe_loading e then (False, s)
       else if \<not> has_capacity s then (False, s)
       else if memory_enabled s \<and> limits_exceeded s m \<and> pick_victim s = '''' then (False, s)
       else (True, s\<lparr>ms_queue := e\<lparr>qe_loading := True\<rparr> # q\<rparr>))"

section \<open>Measuring\<close>

text \<open>\<open>spawn name\<close> is the measure child for the model, \<open>None\<close> when it cannot be started.\<close>

fun measure_loop :: "(string \<Rightarrow> nat option) \<Rightarrow> string list \<Rightarrow> server_models \<Rightarrow> server_models" where
  "measure_loop spawn [] s = s\<lparr>ms_measure_queue := []\<rparr>"
| "measure_loop spawn (name # q) s = (case find_model name s of
     None \<Rightarrow> measure_loop spawn q s
   | Some i \<Rightarrow>
       let mi = mt_memory (in_meta i) in
       if mi_status mi \<noteq> SERVER_MODEL_MEMORY_UNMEASURED then measure_loop spawn q s
       else (case spawn name of
           None \<Rightarrow> measure_loop spawn q (set_memory name i (mi\<lparr>mi_status := SERVER_MODEL_MEMORY_FAILED\<rparr>) s)
         | Some proc \<Rightarrow> send_cmd (WatchMeasure name proc)
             (set_memory name i (mi\<lparr>mi_status := SERVER_MODEL_MEMORY_MEASURING, mi_n_attempts := mi_n_attempts mi + 1\<rparr>)
               (s\<lparr>ms_measure_queue := q, ms_measuring := name, ms_measure_proc := Some proc\<rparr>))))"

definition measure_next :: "(string \<Rightarrow> nat option) \<Rightarrow> server_models \<Rightarrow> server_models" where
  "measure_next spawn s = (if ms_measuring s \<noteq> '''' then s else measure_loop spawn (ms_measure_queue s) s)"

definition enqueue_measure :: "(string \<Rightarrow> nat option) \<Rightarrow> string \<Rightarrow> bool \<Rightarrow> server_models \<Rightarrow> server_models" where
  "enqueue_measure spawn name front s = (
     if \<not> memory_enabled s then s
     else (case find_model name s of
       None \<Rightarrow> s
     | Some i \<Rightarrow>
         if mi_status (mt_memory (in_meta i)) \<noteq> SERVER_MODEL_MEMORY_UNMEASURED then s
         else if name \<in> set (ms_measure_queue s) \<and> \<not> front then s
         else let q = remove1 name (ms_measure_queue s) in
           measure_next spawn (s\<lparr>ms_measure_queue := (if front then name # q else q @ [name])\<rparr>)))"

definition measure_unmeasured :: "(string \<Rightarrow> nat option) \<Rightarrow> server_models \<Rightarrow> server_models" where
  "measure_unmeasured spawn s = fold (\<lambda>name. enqueue_measure spawn name False) (map fst (ms_mapping s)) s"

definition on_spawned :: "string \<Rightarrow> server_models \<Rightarrow> server_models" where
  "on_spawned name s = reserve name s"

definition on_ready :: "(string \<Rightarrow> nat option) \<Rightarrow> string \<Rightarrow> server_model_memory option \<Rightarrow> server_models \<Rightarrow> server_models" where
  "on_ready spawn name memory s = (
     if \<not> memory_enabled s then s
     else (case find_model name s of
       None \<Rightarrow> s
     | Some i \<Rightarrow> (case memory of
         None \<Rightarrow> reserve name s
       | Some mem \<Rightarrow>
           let info = (mt_memory (in_meta i))\<lparr>mi_effective := Some mem\<rparr>;
               s = calibrate mem name (reserve name (release name (set_memory name i info s)))
           in if mi_status info = SERVER_MODEL_MEMORY_FAILED \<and> mi_n_attempts info < 2
              then enqueue_measure spawn name False (set_memory name i (info\<lparr>mi_status := SERVER_MODEL_MEMORY_UNMEASURED\<rparr>) s)
              else s)))"

definition on_sleeping :: "string \<Rightarrow> server_models \<Rightarrow> server_models" where
  "on_sleeping name s = release name s"

definition on_unloaded :: "string \<Rightarrow> server_models \<Rightarrow> server_models" where
  "on_unloaded name s = (let s = release name s in
     case find_model name s of None \<Rightarrow> s | Some i \<Rightarrow> set_memory name i ((mt_memory (in_meta i))\<lparr>mi_effective := None\<rparr>) s)"

definition cancel_measurements :: "server_models \<Rightarrow> server_models" where
  "cancel_measurements s = (let s = s\<lparr>ms_measure_queue := []\<rparr> in
     if ms_measure_proc s \<noteq> None then send_cmd TerminateMeasure s else s)"

definition is_measuring :: "server_models \<Rightarrow> bool" where
  "is_measuring s = (ms_measuring s \<noteq> '''')"

datatype measure_payload = MeasureResult server_model_memory server_model_memory | MeasureMalformed | MeasureFailed

definition handle_measured :: "string \<Rightarrow> measure_payload \<Rightarrow> server_models \<Rightarrow> server_models" where
  "handle_measured name payload s = (case find_model name s of
     None \<Rightarrow> s
   | Some i \<Rightarrow> (let mi = mt_memory (in_meta i) in case payload of
       MeasureResult mn mx \<Rightarrow> calibrate mx ''''
         (set_memory name i (mi\<lparr>mi_min := Some mn, mi_max := Some mx, mi_status := SERVER_MODEL_MEMORY_MEASURED\<rparr>) s)
     | MeasureMalformed \<Rightarrow> set_memory name i (mi\<lparr>mi_min := None, mi_max := None, mi_status := SERVER_MODEL_MEMORY_FAILED\<rparr>) s
     | MeasureFailed \<Rightarrow> set_memory name i (mi\<lparr>mi_status := SERVER_MODEL_MEMORY_FAILED\<rparr>) s))"

definition on_measure_exit :: "(string \<Rightarrow> nat option) \<Rightarrow> string \<Rightarrow> nat \<Rightarrow> server_models \<Rightarrow> server_models" where
  "on_measure_exit spawn name proc s = (
     if ms_measure_proc s \<noteq> Some proc then s
     else let s = s\<lparr>ms_measure_proc := None, ms_measuring := ''''\<rparr>;
              s = (case find_model name s of
                     None \<Rightarrow> s
                   | Some i \<Rightarrow>
                       if mi_status (mt_memory (in_meta i)) = SERVER_MODEL_MEMORY_MEASURING
                       then set_memory name i ((mt_memory (in_meta i))\<lparr>mi_status := SERVER_MODEL_MEMORY_FAILED\<rparr>) s else s)
          in measure_next spawn s)"

end
