(* ===== verification/ModelRouter.thy ===== *)
theory ModelRouter
  imports ModelSched
begin

text \<open>
  The model router (\<open>tools/server/server-models.cpp\<close>): loading, unloading and the status updates of
  the instances, and \<open>ensure_model_ready\<close>, the wait of a request for its model.  Every critical section
  is a function on the state; a request or a direct load is a small program that runs one critical
  section per step, so its steps interleave with those of other requests and with the events of the
  child processes.  The reload of the model list and the download bookkeeping are left out.
\<close>

section \<open>Instances\<close>

definition instance_new :: instance_t where
  "instance_new = \<lparr>in_subproc = None,
     in_meta = \<lparr>mt_status = SERVER_MODEL_STATUS_UNLOADED, mt_last_used = 0, mt_exit_code = 0, mt_stop_timeout = 0, mt_aliases = {},
       mt_memory = memory_info_new\<rparr>, in_req_count = 0\<rparr>"

text \<open>\<open>mapping[name]\<close>: a missing entry is created.\<close>

definition model_at :: "string \<Rightarrow> server_models \<Rightarrow> instance_t" where
  "model_at name s = (case find_model name s of None \<Rightarrow> instance_new | Some i \<Rightarrow> i)"

definition has_model :: "string \<Rightarrow> server_models \<Rightarrow> bool" where
  "has_model name s = (find_model name s \<noteq> None \<or> (\<exists>e \<in> set (ms_mapping s). name \<in> mt_aliases (in_meta (snd e))))"

definition get_meta :: "string \<Rightarrow> server_models \<Rightarrow> server_model_meta option" where
  "get_meta name s = (case find_model name s of
     Some i \<Rightarrow> Some (in_meta i)
   | None \<Rightarrow> map_option (in_meta \<circ> snd) (find (\<lambda>e. name \<in> mt_aliases (in_meta (snd e))) (ms_mapping s)))"

definition update_status :: "(string \<Rightarrow> nat option) \<Rightarrow> string \<Rightarrow> server_model_status \<Rightarrow> int \<Rightarrow> server_model_memory option \<Rightarrow>
    server_models \<Rightarrow> server_models" where
  "update_status spawn name st exit_code memory s = (case find_model name s of
     None \<Rightarrow> s
   | Some i \<Rightarrow>
       let s = set_model name (i\<lparr>in_meta := (in_meta i)\<lparr>mt_status := st, mt_exit_code := exit_code\<rparr>\<rparr>) s;
           s = (if st = SERVER_MODEL_STATUS_UNLOADED then s\<lparr>ms_stopping := ms_stopping s - {name}\<rparr> else s);
           s = (case st of
                  SERVER_MODEL_STATUS_LOADED \<Rightarrow> on_ready spawn name memory s
                | SERVER_MODEL_STATUS_SLEEPING \<Rightarrow> on_sleeping name s
                | SERVER_MODEL_STATUS_UNLOADED \<Rightarrow> on_unloaded name s
                | _ \<Rightarrow> s)
       in tick s)"

definition stop_running :: "string \<Rightarrow> instance_t \<Rightarrow> server_models \<Rightarrow> server_models" where
  "stop_running name i s = (let loading = (mt_status (in_meta i) = SERVER_MODEL_STATUS_LOADING) in
     request_stop name (\<not> loading) (if loading then send_cmd (TerminateChild name) s else s))"

definition unload :: "string \<Rightarrow> server_models \<Rightarrow> server_models" where
  "unload name s = (case find_model name s of
     None \<Rightarrow> s
   | Some i \<Rightarrow>
       if mt_status (in_meta i) = SERVER_MODEL_STATUS_DOWNLOADING then send_cmd (RequestExit name) s
       else if is_running (in_meta i) then stop_running name i s
       else s)"

definition unload_all :: "server_models \<Rightarrow> server_models" where
  "unload_all s = fold (\<lambda>(name, i). unload name) (ms_mapping s) (cancel_measurements s)"

datatype server_role_type = SERVER_ROLE_INSTANCE | SERVER_ROLE_DOWNLOAD | SERVER_ROLE_MEASURE

definition on_child_exit :: "(string \<Rightarrow> nat option) \<Rightarrow> string \<Rightarrow> nat \<Rightarrow> server_role_type \<Rightarrow> int \<Rightarrow> server_models \<Rightarrow> server_models" where
  "on_child_exit spawn name proc role exit_code s = (
     if role = SERVER_ROLE_MEASURE then on_measure_exit spawn name proc s
     else (case find_model name s of
       None \<Rightarrow> s\<lparr>ms_stopping := ms_stopping s - {name}\<rparr>
     | Some i \<Rightarrow>
         if in_subproc i \<noteq> Some proc then s\<lparr>ms_stopping := ms_stopping s - {name}\<rparr>
         else if role = SERVER_ROLE_DOWNLOAD then s\<lparr>ms_stopping := ms_stopping s - {name}\<rparr>
         else update_status spawn name SERVER_MODEL_STATUS_UNLOADED exit_code None s))"

definition download_done :: "string \<Rightarrow> server_models \<Rightarrow> server_models" where
  "download_done name s = (case find_model name s of
     None \<Rightarrow> s
   | Some i \<Rightarrow> set_model name (i\<lparr>in_meta := (in_meta i)\<lparr>mt_status := SERVER_MODEL_STATUS_DOWNLOADED\<rparr>\<rparr>) s)"

section \<open>Proxied requests\<close>

definition proxy_begin :: "bool \<Rightarrow> int \<Rightarrow> string \<Rightarrow> server_models \<Rightarrow> server_models" where
  "proxy_begin update_last_used now name s = (let i = model_at name s in
     set_model name (i\<lparr>in_meta := (if update_last_used then (in_meta i)\<lparr>mt_last_used := now\<rparr> else in_meta i), in_req_count := in_req_count i + 1\<rparr>) s)"

definition proxy_end :: "string \<Rightarrow> server_models \<Rightarrow> server_models" where
  "proxy_end name s = (case find_model name s of
     None \<Rightarrow> s
   | Some i \<Rightarrow>
       if in_req_count i > 0 then
         let s = set_model name (i\<lparr>in_req_count := in_req_count i - 1\<rparr>) s in
         if in_req_count i - 1 = 0 then tick s else s
       else s)"

section \<open>Loading\<close>

text \<open>The answers of the outside world to a load: a free port, the clock, the spawned process.\<close>

record load_env =
  le_port :: int
  le_now :: int
  le_spawn :: "nat option"
  le_old_alive :: bool

datatype load_result = LoadSkipped | LoadThrows | LoadSpawned

definition load_locked :: "load_env \<Rightarrow> string \<Rightarrow> server_models \<Rightarrow> load_result \<times> server_models" where
  "load_locked env name s = (
     let i = model_at name s; s = set_model name i s; meta = in_meta i in
     if mt_status meta \<noteq> SERVER_MODEL_STATUS_UNLOADED then (LoadSkipped, s)
     else if limits_exceeded s name then (LoadThrows, s)
     else if le_port env \<le> 0 then (LoadThrows, s)
     else (case le_spawn env of
         None \<Rightarrow> (LoadThrows, s)
       | Some proc \<Rightarrow>
           let s = (if in_subproc i \<noteq> None \<and> le_old_alive env then send_cmd (TerminateChild name) s else s);
               s = set_model name \<lparr>in_subproc = Some proc,
                     in_meta = meta\<lparr>mt_status := SERVER_MODEL_STATUS_LOADING, mt_last_used := le_now env\<rparr>, in_req_count = 0\<rparr> s;
               s = on_spawned name s
           in (LoadSpawned, send_cmd (WatchInstance name proc) s)))"

section \<open>Waiting for a model\<close>

text \<open>
  Where a request stands between two critical sections: in \<open>ensure_model_ready\<close> (the look at the
  status, the join, the loop), inside \<open>load\<close> (\<open>make_room\<close>: enqueue the measure, wait for it, look at
  the limits, unload a victim and wait for it; then the load itself), or at its end.
\<close>

datatype req_pc = PcMeta | PcStopping server_model_status | PcJoin | PcLoop
  | PcHasModel | PcMeasure | PcSettle | PcRoom | PcUnload string | PcGone string | PcLoad
  | PcClaim bool | PcReturn bool | PcThrow

record request =
  rq_name :: string
  rq_pc :: req_pc
  rq_queued :: bool
  rq_did_load :: bool
  rq_saw_loading :: bool
  rq_claimed :: bool

definition request_new :: "string \<Rightarrow> req_pc \<Rightarrow> request" where
  "request_new name pc = \<lparr>rq_name = name, rq_pc = pc, rq_queued = False, rq_did_load = False, rq_saw_loading = False, rq_claimed = False\<rparr>"

definition leave_if_queued :: "server_models \<Rightarrow> request \<Rightarrow> server_models \<times> request" where
  "leave_if_queued s r = (if rq_queued r then (sched_leave (rq_name r) s, r\<lparr>rq_queued := False\<rparr>) else (s, r))"

definition rq_return :: "server_models \<Rightarrow> request \<Rightarrow> server_models \<times> request" where
  "rq_return s r = (let (s, r) = leave_if_queued s r in (s, r\<lparr>rq_pc := PcReturn True\<rparr>))"

definition rq_throw :: "server_models \<Rightarrow> request \<Rightarrow> server_models \<times> request" where
  "rq_throw s r = (let (s, r) = leave_if_queued s r in (tick s, r\<lparr>rq_pc := PcThrow\<rparr>))"

definition rq_join :: "server_models \<Rightarrow> request \<Rightarrow> server_models \<times> request" where
  "rq_join s r = (tick (sched_join (rq_name r) s), r\<lparr>rq_queued := True\<rparr>)"

text \<open>One round of the loop; \<open>stop\<close> is the answer of \<open>should_stop\<close>.\<close>

definition loop_claim :: "bool \<Rightarrow> server_model_status \<Rightarrow> server_models \<Rightarrow> request \<Rightarrow> server_models \<times> request" where
  "loop_claim stop status s r = (
     if stop then rq_throw s r
     else if status = SERVER_MODEL_STATUS_UNLOADED then
       (let (claimed, s) = try_claim (rq_name r) s in
        if claimed then (s, r\<lparr>rq_pc := PcHasModel, rq_claimed := True\<rparr>) else (s, r))
     else (s, r))"

definition loop_round :: "bool \<Rightarrow> server_models \<Rightarrow> request \<Rightarrow> server_models \<times> request" where
  "loop_round stop s r = (case find_model (rq_name r) s of
     None \<Rightarrow> rq_return s r
   | Some i \<Rightarrow>
       let status = mt_status (in_meta i) in
       if rq_name r \<in> ms_stopping s then
         (let (s, r) = (if \<not> rq_queued r then rq_join s r else (s, r)) in if stop then rq_throw s r else (s, r))
       else if status \<in> {SERVER_MODEL_STATUS_LOADED, SERVER_MODEL_STATUS_SLEEPING} then rq_return s r
       else if status \<in> {SERVER_MODEL_STATUS_DOWNLOADING, SERVER_MODEL_STATUS_DOWNLOADED} then rq_return s r
       else if status = SERVER_MODEL_STATUS_LOADING then loop_claim stop status s (r\<lparr>rq_saw_loading := True\<rparr>)
       else if status = SERVER_MODEL_STATUS_UNLOADED \<and> (rq_did_load r \<or> rq_saw_loading r) then
         (if is_failed (in_meta i) then rq_throw s r else rq_return s r)
       else if status = SERVER_MODEL_STATUS_UNLOADED \<and> \<not> rq_queued r then rq_return s r
       else loop_claim stop status s r)"

record step_env =
  se_spawn :: "string \<Rightarrow> nat option"
  se_load :: load_env
  se_stop :: bool

definition load_end :: "bool \<Rightarrow> request \<Rightarrow> request" where
  "load_end ok r = (if rq_claimed r then r\<lparr>rq_pc := PcClaim ok, rq_did_load := rq_did_load r \<or> ok\<rparr>
     else r\<lparr>rq_pc := (if ok then PcReturn True else PcThrow)\<rparr>)"

definition req_step :: "step_env \<Rightarrow> server_models \<Rightarrow> request \<Rightarrow> (server_models \<times> request) option" where
  "req_step env s r = (let name = rq_name r in case rq_pc r of
     PcMeta \<Rightarrow> Some (s, r\<lparr>rq_pc := (case get_meta name s of None \<Rightarrow> PcThrow | Some m \<Rightarrow> PcStopping (mt_status m))\<rparr>)
   | PcStopping st \<Rightarrow> Some (s, r\<lparr>rq_pc := (
       if name \<notin> ms_stopping s \<and> (st = SERVER_MODEL_STATUS_LOADED \<or> st = SERVER_MODEL_STATUS_SLEEPING) then PcReturn False else PcJoin)\<rparr>)
   | PcJoin \<Rightarrow> Some (
       let (s, r) = (case find_model name s of
           Some i \<Rightarrow> if mt_status (in_meta i) = SERVER_MODEL_STATUS_UNLOADED then rq_join s r else (s, r)
         | None \<Rightarrow> (s, r))
       in (s, r\<lparr>rq_pc := PcLoop\<rparr>))
   | PcLoop \<Rightarrow> Some (loop_round (se_stop env) s r)
   | PcHasModel \<Rightarrow> Some (s, if has_model name s then r\<lparr>rq_pc := PcMeasure\<rparr> else load_end False r)
   | PcMeasure \<Rightarrow> Some (if memory_enabled s then (enqueue_measure (se_spawn env) name True s, r\<lparr>rq_pc := PcSettle\<rparr>)
       else (s, r\<lparr>rq_pc := PcRoom\<rparr>))
   | PcSettle \<Rightarrow> (case find_model name s of
       None \<Rightarrow> Some (s, r\<lparr>rq_pc := PcRoom\<rparr>)
     | Some i \<Rightarrow> if is_settled (mt_memory (in_meta i)) then Some (s, r\<lparr>rq_pc := PcRoom\<rparr>) else None)
   | PcRoom \<Rightarrow> Some (s, r\<lparr>rq_pc := (
       if \<not> limits_exceeded s name then PcLoad
       else let victim = pick_victim s in if victim = '''' then PcLoad else PcUnload victim)\<rparr>)
   | PcUnload victim \<Rightarrow> Some (unload victim s, r\<lparr>rq_pc := PcGone victim\<rparr>)
   | PcGone victim \<Rightarrow> (let i = model_at victim s; s = set_model victim i s in
       if mt_status (in_meta i) = SERVER_MODEL_STATUS_UNLOADED then Some (s, r\<lparr>rq_pc := PcRoom\<rparr>) else None)
   | PcLoad \<Rightarrow> Some (let (res, s) = load_locked (se_load env) name s in (s, load_end (res \<noteq> LoadThrows) r))
   | PcClaim ok \<Rightarrow> Some (tick (claim_done name ok s), r\<lparr>rq_pc := PcLoop, rq_claimed := False\<rparr>)
   | PcReturn b \<Rightarrow> None
   | PcThrow \<Rightarrow> None)"

section \<open>The system\<close>

text \<open>
  The steps of the router: a request arrives, a direct load (at startup or from the load endpoint)
  starts, one of them runs its next critical section, a child reports its state or exits, a proxied
  request begins or ends, a model is unloaded or removed.  A report comes from a child that runs.
\<close>

inductive router_step :: "server_models \<times> request list \<Rightarrow> server_models \<times> request list \<Rightarrow> bool" where
  ensure: "router_step (s, rs) (s, rs @ [request_new name PcMeta])"
| load: "router_step (s, rs) (s, rs @ [request_new name PcHasModel])"
| run: "i < length rs \<Longrightarrow> req_step env s (rs ! i) = Some (s', r') \<Longrightarrow> router_step (s, rs) (s', rs[i := r'])"
| report: "find_model name s = Some i \<Longrightarrow> is_running (in_meta i) \<Longrightarrow> status_running st \<Longrightarrow>
    router_step (s, rs) (update_status spawn name st 0 memory s, rs)"
| exit: "router_step (s, rs) (on_child_exit spawn name proc role code s, rs)"
| measured: "router_step (s, rs) (handle_measured name payload s, rs)"
| begin_request: "router_step (s, rs) (proxy_begin upd now name s, rs)"
| end_request: "router_step (s, rs) (proxy_end name s, rs)"
| stop: "router_step (s, rs) (unload name s, rs)"
| stop_all: "router_step (s, rs) (unload_all s, rs)"
| downloaded: "find_model name s = Some i \<Longrightarrow> mt_status (in_meta i) = SERVER_MODEL_STATUS_DOWNLOADING \<Longrightarrow>
    router_step (s, rs) (download_done name s, rs)"
| remove: "find_model name s = Some i \<Longrightarrow> \<not> is_running (in_meta i) \<Longrightarrow>
    router_step (s, rs) (s\<lparr>ms_mapping := merase name (ms_mapping s)\<rparr>, rs)"

definition router_init :: "int \<Rightarrow> int \<Rightarrow> (string \<times> instance_t) list \<Rightarrow> server_models" where
  "router_init models_max margin mapping = \<lparr>ms_models_max = models_max, ms_memory_margin = margin, ms_mapping = mapping, ms_stopping = {},
     ms_queue = [], ms_measure_queue = [], ms_measuring = '''', ms_measure_proc = None, ms_device_memory = [], ms_held = [], ms_cmds = []\<rparr>"

inductive router_reach :: "server_models \<times> request list \<Rightarrow> bool" where
  init: "msorted mapping \<Longrightarrow> \<forall>e \<in> set mapping. \<not> is_running (in_meta (snd e)) \<Longrightarrow> router_reach (router_init models_max margin mapping, [])"
| step: "router_reach c \<Longrightarrow> router_step c c' \<Longrightarrow> router_reach c'"

end
