(* ===== verification/RouterFacts.thy ===== *)
theory RouterFacts
  imports ModelRouter
begin

text \<open>
  What the operations of the router leave alone (\<open>keeps\<close>: the status of every model, the request queue
  and the limits), the invariant of the router with its requests, and what a tick evicts.
\<close>

section \<open>Frames\<close>

definition stat :: "server_models \<Rightarrow> string \<Rightarrow> server_model_status option" where
  "stat s name = map_option (\<lambda>i. mt_status (in_meta i)) (find_model name s)"

definition keeps :: "server_models \<Rightarrow> server_models \<Rightarrow> bool" where
  "keeps s s' = ((msorted (ms_mapping s) \<longrightarrow> msorted (ms_mapping s')) \<and> stat s' = stat s \<and> ms_queue s' = ms_queue s \<and>
     ms_models_max s' = ms_models_max s \<and> ms_memory_margin s' = ms_memory_margin s)"

named_theorems keeps_intro \<open>operations that keep statuses, queue and limits\<close>

lemma keeps_refl [keeps_intro]: "keeps s s"
  by (simp add: keeps_def)

lemma keeps_trans: "keeps s s' \<Longrightarrow> keeps s' s'' \<Longrightarrow> keeps s s''"
  by (simp add: keeps_def)

lemma keeps_stat: "keeps s s' \<Longrightarrow> stat s' = stat s"
  by (simp add: keeps_def)

lemma stat_set_model [simp]: "stat (set_model name i s) = (stat s)(name \<mapsto> mt_status (in_meta i))"
  by (auto simp: stat_def find_model_def set_model_def)

lemma set_model_fields [simp]:
  "ms_queue (set_model name i s) = ms_queue s" "ms_models_max (set_model name i s) = ms_models_max s"
  "ms_memory_margin (set_model name i s) = ms_memory_margin s" "ms_mapping (set_model name i s) = mput name i (ms_mapping s)"
  "ms_stopping (set_model name i s) = ms_stopping s" "ms_held (set_model name i s) = ms_held s"
  "ms_device_memory (set_model name i s) = ms_device_memory s" "ms_measuring (set_model name i s) = ms_measuring s"
  "ms_measure_queue (set_model name i s) = ms_measure_queue s" "ms_measure_proc (set_model name i s) = ms_measure_proc s"
  by (simp_all add: set_model_def)

lemma find_set_model [simp]: "find_model n (set_model name i s) = (if n = name then Some i else find_model n s)"
  by (simp add: find_model_def set_model_def)

lemma find_stat: "find_model name s = Some i \<Longrightarrow> stat s name = Some (mt_status (in_meta i))"
  by (simp add: stat_def)

lemma keeps_set_memory: "stat s name = Some (mt_status (in_meta i)) \<Longrightarrow> keeps s (set_memory name i mi s)"
  by (simp add: keeps_def set_memory_def fun_upd_idem)

lemma keeps_send [keeps_intro]: "keeps s (send_cmd c s)"
  by (simp add: keeps_def send_cmd_def stat_def find_model_def fun_eq_iff)

lemma keeps_fields [keeps_intro]:
  "keeps s (s\<lparr>ms_stopping := a\<rparr>)" "keeps s (s\<lparr>ms_measure_queue := b\<rparr>)" "keeps s (s\<lparr>ms_measuring := m\<rparr>)" "keeps s (s\<lparr>ms_measure_proc := p\<rparr>)"
  "keeps s (s\<lparr>ms_device_memory := d\<rparr>)" "keeps s (s\<lparr>ms_held := h\<rparr>)" "keeps s (s\<lparr>ms_measure_queue := b, ms_measuring := m, ms_measure_proc := p\<rparr>)"
  "keeps s (s\<lparr>ms_measure_proc := p, ms_measuring := m\<rparr>)"
  by (simp_all add: keeps_def stat_def find_model_def fun_eq_iff)

lemma keeps_request_stop [keeps_intro]: "keeps s (request_stop n b s)"
  by (simp add: keeps_def stat_def find_model_def fun_eq_iff)

lemma keeps_evict_loop: "keeps s (evict_loop f n s)"
proof (induction f n s rule: evict_loop.induct)
  case (1 f n s)
  show ?case
    by (subst evict_loop.simps) (auto simp: Let_def intro: keeps_refl keeps_trans [OF keeps_request_stop] 1)
qed

lemma keeps_tick [keeps_intro]: "keeps s (tick s)"
  by (simp add: tick_def keeps_refl keeps_evict_loop)

lemma keeps_reserve [keeps_intro]: "keeps s (reserve name s)"
  by (auto simp: reserve_def Let_def intro: keeps_intro split: option.splits)

lemma keeps_release [keeps_intro]: "keeps s (release name s)"
  by (auto simp: release_def intro: keeps_intro)

lemma keeps_fold: "(\<And>x s. keeps s (f x s)) \<Longrightarrow> keeps s (fold f xs s)"
  by (induction xs arbitrary: s) (auto intro: keeps_refl keeps_trans)

lemma keeps_calibrate [keeps_intro]: "keeps s (calibrate mem reporter s)"
  unfolding calibrate_def by (rule keeps_fold) (auto simp: calibrate_dev_def Let_def intro: keeps_intro)

lemma keeps_measure_loop: "keeps s (measure_loop spawn q s)"
proof (induction q arbitrary: s)
  case (Cons name q)
  show ?case
  proof (cases "find_model name s")
    case (Some i)
    have k: "keeps s (set_memory name i mi s)" for mi by (rule keeps_set_memory) (simp add: find_stat [OF Some])
    have k': "keeps s (set_memory name i mi (s\<lparr>ms_measure_queue := q, ms_measuring := name, ms_measure_proc := p\<rparr>))" for mi p
      by (rule keeps_trans [OF keeps_fields(7) keeps_set_memory]) (use Some in \<open>simp add: stat_def find_model_def\<close>)
    show ?thesis
      using Cons [of s] keeps_trans [OF k Cons] keeps_trans [OF k' keeps_send] Some by (auto simp: Let_def split: option.split)
  qed (use Cons in simp)
qed (simp add: keeps_fields)

lemma keeps_measure_next [keeps_intro]: "keeps s (measure_next spawn s)"
  by (simp add: measure_next_def keeps_refl keeps_measure_loop)

lemma keeps_enqueue [keeps_intro]: "keeps s (enqueue_measure spawn name front s)"
  by (auto simp: enqueue_measure_def Let_def intro: keeps_intro keeps_trans [OF keeps_fields(2) keeps_measure_next] split: option.splits)

lemma keeps_on_ready [keeps_intro]: "keeps s (on_ready spawn name memory s)"
proof (cases "memory_enabled s \<and> find_model name s \<noteq> None \<and> memory \<noteq> None")
  case True
  then obtain i mem where i: "memory_enabled s" "find_model name s = Some i" "memory = Some mem" by auto
  let ?info = "(mt_memory (in_meta i))\<lparr>mi_effective := Some mem\<rparr>"
  let ?s = "calibrate mem name (reserve name (release name (set_memory name i ?info s)))"
  have k: "keeps s ?s"
    by (intro keeps_trans [OF keeps_trans [OF keeps_trans [OF keeps_set_memory keeps_release] keeps_reserve] keeps_calibrate])
      (simp add: find_stat [OF i(2)])
  have k': "keeps s (enqueue_measure spawn name False (set_memory name i mi ?s))" for mi
    by (rule keeps_trans [OF keeps_trans [OF k keeps_set_memory] keeps_enqueue]) (simp add: keeps_stat [OF k] find_stat [OF i(2)])
  show ?thesis using i k k' by (simp add: on_ready_def Let_def)
qed (auto simp: on_ready_def intro: keeps_intro split: option.splits)

lemma keeps_on_unloaded [keeps_intro]: "keeps s (on_unloaded name s)"
  by (auto simp: on_unloaded_def Let_def intro: keeps_intro keeps_trans [OF keeps_release keeps_set_memory] dest: find_stat split: option.split)

lemma keeps_on_sleeping [keeps_intro]: "keeps s (on_sleeping name s)"
  by (simp add: on_sleeping_def keeps_release)

lemma keeps_handle_measured [keeps_intro]: "keeps s (handle_measured name payload s)"
  by (cases payload)
    (auto simp: handle_measured_def Let_def intro: keeps_intro keeps_set_memory keeps_trans [OF keeps_set_memory keeps_calibrate] dest: find_stat split: option.split)

lemma keeps_measure_exit [keeps_intro]: "keeps s (on_measure_exit spawn name proc s)"
proof -
  let ?s = "s\<lparr>ms_measure_proc := None, ms_measuring := ''''\<rparr>"
  have k: "keeps s (set_memory name i mi ?s)" if "find_model name ?s = Some i" for i mi
    by (rule keeps_trans [OF keeps_fields(8) keeps_set_memory]) (simp add: find_stat [OF that])
  show ?thesis
    by (auto simp: on_measure_exit_def Let_def intro: keeps_refl keeps_trans [OF k keeps_measure_next]
        keeps_trans [OF keeps_fields(8) keeps_measure_next] split: option.split)
qed

lemma keeps_stop_running [keeps_intro]: "keeps s (stop_running name i s)"
  by (simp add: stop_running_def Let_def keeps_request_stop keeps_trans [OF keeps_send keeps_request_stop])

lemma keeps_unload [keeps_intro]: "keeps s (unload name s)"
  by (auto simp: unload_def intro: keeps_intro split: option.split)

lemma keeps_unload_all [keeps_intro]: "keeps s (unload_all s)"
proof -
  have "keeps s (cancel_measurements s)"
    by (auto simp: cancel_measurements_def Let_def intro: keeps_intro keeps_trans [OF keeps_fields(2) keeps_send])
  moreover have "keeps t (fold (\<lambda>(name, i). unload name) (ms_mapping s) t)" for t
    by (rule keeps_fold) (auto intro: keeps_intro)
  ultimately show ?thesis unfolding unload_all_def by (rule keeps_trans)
qed

section \<open>Capacity\<close>

definition running :: "server_models \<Rightarrow> string set" where
  "running s = {n. \<exists>st. stat s n = Some st \<and> status_running st}"

lemma finite_running: "finite (running s)"
proof (rule finite_subset)
  show "running s \<subseteq> dom (map_of (ms_mapping s))" by (auto simp: running_def stat_def find_model_def)
qed (rule finite_dom_map_of)

lemma count_running_card: "msorted (ms_mapping s) \<Longrightarrow> count_running s = card (running s)"
  unfolding count_running_def keys_card [of "ms_mapping s" "\<lambda>i. is_running (in_meta i)"]
  by (rule arg_cong [of _ _ card]) (auto simp: running_def stat_def find_model_def is_running_def)

definition cap_ok :: "server_models \<Rightarrow> bool" where
  "cap_ok s = (msorted (ms_mapping s) \<and> (0 < ms_models_max s \<longrightarrow> int (card (running s)) \<le> ms_models_max s))"

text \<open>A new state in which no other model runs.\<close>

lemma cap_ok_sub:
  assumes "cap_ok s" "msorted (ms_mapping s')" "ms_models_max s' = ms_models_max s" "running s' \<subseteq> running s"
  shows "cap_ok s'"
  using assms card_mono [OF finite_running assms(4)] by (auto simp: cap_ok_def)

lemma cap_ok_keeps: "keeps s s' \<Longrightarrow> cap_ok s \<Longrightarrow> cap_ok s'"
  by (rule cap_ok_sub) (auto simp: keeps_def cap_ok_def running_def)

lemma cap_ok_queue [simp]: "cap_ok (s\<lparr>ms_queue := q\<rparr>) = cap_ok s"
  by (simp add: cap_ok_def running_def stat_def find_model_def)

lemma cap_ok_set_model:
  "cap_ok s \<Longrightarrow> name \<in> running s \<or> \<not> status_running (mt_status (in_meta i)) \<Longrightarrow> cap_ok (set_model name i s)"
  by (rule cap_ok_sub) (auto simp: cap_ok_def running_def split: if_splits)

lemma update_status_keeps:
  assumes "find_model name s = Some i"
  shows "keeps (set_model name (i\<lparr>in_meta := (in_meta i)\<lparr>mt_status := st, mt_exit_code := c\<rparr>\<rparr>) s) (update_status spawn name st c memory s)"
proof -
  let ?s = "set_model name (i\<lparr>in_meta := (in_meta i)\<lparr>mt_status := st, mt_exit_code := c\<rparr>\<rparr>) s"
  have k: "keeps ?s (if st = SERVER_MODEL_STATUS_UNLOADED then ?s\<lparr>ms_stopping := x\<rparr> else ?s)" for x by (simp add: keeps_refl keeps_fields)
  have k2: "keeps t (tick (case st of SERVER_MODEL_STATUS_LOADED \<Rightarrow> on_ready spawn name memory t
      | SERVER_MODEL_STATUS_SLEEPING \<Rightarrow> on_sleeping name t | SERVER_MODEL_STATUS_UNLOADED \<Rightarrow> on_unloaded name t | _ \<Rightarrow> t))" for t
    by (rule keeps_trans [OF _ keeps_tick]) (auto intro: keeps_intro split: server_model_status.split)
  show ?thesis unfolding update_status_def assms option.case Let_def by (rule keeps_trans [OF k k2])
qed

lemma update_status_cap:
  assumes "cap_ok s" "name \<in> running s \<or> \<not> status_running st"
  shows "cap_ok (update_status spawn name st c memory s)"
proof (cases "find_model name s")
  case (Some i)
  show ?thesis by (rule cap_ok_keeps [OF update_status_keeps [OF Some] cap_ok_set_model]) (use assms in auto)
qed (use assms in \<open>simp add: update_status_def\<close>)

lemma update_status_queue [simp]: "ms_queue (update_status spawn name st c memory s) = ms_queue s"
proof (cases "find_model name s")
  case (Some i)
  show ?thesis using update_status_keeps [OF Some] by (simp add: keeps_def)
qed (simp add: update_status_def)

lemma model_at_stat: "stat s name = Some (mt_status (in_meta (model_at name s))) \<or> stat s name = None \<and> mt_status (in_meta (model_at name s)) = SERVER_MODEL_STATUS_UNLOADED"
  by (auto simp: model_at_def stat_def instance_new_def split: option.split)

lemma model_at_cap: "cap_ok s \<Longrightarrow> mt_status (in_meta i) = mt_status (in_meta (model_at name s)) \<Longrightarrow> cap_ok (set_model name i s)"
  by (rule cap_ok_set_model) (use model_at_stat [of s name] in \<open>auto simp: running_def status_running_def\<close>)

text \<open>The check under the lock is what keeps the number of instances within the limit.\<close>

lemma load_locked_cap:
  assumes s: "cap_ok s" and l: "load_locked env name s = (res, s')"
  shows "cap_ok s' \<and> ms_queue s' = ms_queue s"
proof -
  let ?i = "model_at name s"
  let ?s = "set_model name ?i s"
  have c: "cap_ok ?s" by (rule model_at_cap [OF s]) simp
  show ?thesis
  proof (cases "res = LoadSpawned")
    case False
    then have "s' = ?s" using l by (auto simp: load_locked_def Let_def split: if_splits option.splits)
    then show ?thesis using c by simp
  next
    case True
    obtain t j where t: "keeps ?s t" "keeps (set_model name j t) s'" and st: "mt_status (in_meta ?i) = SERVER_MODEL_STATUS_UNLOADED"
      and h: "has_capacity ?s"
    proof -
      let ?t = "if in_subproc ?i \<noteq> None \<and> le_old_alive env then send_cmd (TerminateChild name) ?s else ?s"
      have "keeps ?s ?t" by (auto intro: keeps_intro)
      moreover obtain p where "s' = send_cmd (WatchInstance name p) (reserve name (set_model name \<lparr>in_subproc = Some p,
          in_meta = (in_meta ?i)\<lparr>mt_status := SERVER_MODEL_STATUS_LOADING, mt_last_used := le_now env\<rparr>, in_req_count = 0\<rparr> ?t))"
        using l True by (auto simp: load_locked_def Let_def on_spawned_def split: if_splits option.splits)
      moreover have "keeps t (send_cmd c (reserve n t))" for t c n by (rule keeps_trans [OF keeps_reserve keeps_send])
      moreover have "mt_status (in_meta ?i) = SERVER_MODEL_STATUS_UNLOADED" "has_capacity ?s"
        using l True by (auto simp: load_locked_def Let_def limits_exceeded_def split: if_splits option.splits)
      ultimately show ?thesis using that by blast
    qed
    have so: "msorted (ms_mapping s')" "ms_models_max s' = ms_models_max s" "ms_queue s' = ms_queue s"
      using t c by (simp_all add: keeps_def cap_ok_def)
    have r: "running s' \<subseteq> insert name (running ?s)"
      using keeps_stat [OF t(1)] keeps_stat [OF t(2)] by (auto simp: running_def split: if_splits)
    have "count_running ?s = card (running ?s)" using c by (intro count_running_card) (simp add: cap_ok_def)
    moreover have "card (running s') \<le> Suc (card (running ?s))"
      using card_mono [OF _ r] card_insert_le_m1 finite_running by (metis card_insert_if finite_insert le_SucI)
    ultimately show ?thesis using h so by (auto simp: cap_ok_def has_capacity_def)
  qed
qed

end
