(* ===== verification/RouterInv.thy ===== *)
theory RouterInv
  imports RouterFacts
begin

text \<open>
  The request queue with the requests that wait in it: every entry counts its waiters, and only the
  head is being loaded, by one request.
\<close>

section \<open>Counting\<close>

definition cnt :: "('a \<Rightarrow> bool) \<Rightarrow> 'a list \<Rightarrow> int" where
  "cnt P xs = int (length (filter P xs))"

lemma cnt_nonneg [simp]: "0 \<le> cnt P xs"
  by (simp add: cnt_def)

lemma cnt_append [simp]: "cnt P (xs @ ys) = cnt P xs + cnt P ys"
  by (simp add: cnt_def)

lemma cnt_one [simp]: "cnt P [x] = of_bool (P x)"
  by (simp add: cnt_def)

lemma cnt_update: "i < length xs \<Longrightarrow> cnt P (xs[i := y]) = cnt P xs - of_bool (P (xs ! i)) + of_bool (P y)"
proof (induction xs arbitrary: i)
  case (Cons x xs)
  then show ?case by (cases i) (auto simp: cnt_def)
qed simp

lemma cnt_pos: "x \<in> set xs \<Longrightarrow> P x \<Longrightarrow> 1 \<le> cnt P xs"
  by (induction xs) (auto simp: cnt_def)

lemma cnt_le_one: "cnt P xs \<le> 1 \<Longrightarrow> i < length xs \<Longrightarrow> j < length xs \<Longrightarrow> P (xs ! i) \<Longrightarrow> P (xs ! j) \<Longrightarrow> i = j"
proof (rule ccontr)
  assume c: "cnt P xs \<le> 1" and i: "i < length xs" "P (xs ! i)" and j: "j < length xs" "P (xs ! j)" and "i \<noteq> j"
  then have "{i, j} \<subseteq> {k. k < length xs \<and> P (xs ! k)}" "card {i, j} = 2" by auto
  then have "2 \<le> card {k. k < length xs \<and> P (xs ! k)}" by (metis card_mono finite_Collect_conjI finite_Collect_less_nat)
  then show False using c by (simp add: cnt_def length_filter_conv_card)
qed

section \<open>Queue operations\<close>

definition waiters :: "string \<Rightarrow> queue_entry list \<Rightarrow> int" where
  "waiters m q = (case find (\<lambda>e. qe_model e = m) q of None \<Rightarrow> 0 | Some e \<Rightarrow> qe_waiters e)"

definition q_ok :: "queue_entry list \<Rightarrow> bool" where
  "q_ok q = (distinct (map qe_model q) \<and> (\<forall>e \<in> set q. 0 < qe_waiters e) \<and> (\<forall>e \<in> set (tl q). \<not> qe_loading e))"

lemma waiters_simps [simp]:
  "waiters m [] = 0" "waiters m (e # q) = (if qe_model e = m then qe_waiters e else waiters m q)"
  by (simp_all add: waiters_def)

lemma waiters_absent: "m \<notin> qe_model ` set q \<Longrightarrow> waiters m q = 0"
  by (induction q) auto

lemma waiters_pos: "\<forall>e \<in> set q. 0 < qe_waiters e \<Longrightarrow> m \<in> qe_model ` set q \<Longrightarrow> 0 < waiters m q"
  by (induction q) auto

lemma waiters_join [simp]: "waiters m (join_queue n q) = waiters m q + of_bool (m = n)"
  by (induction q) auto

lemma models_join: "qe_model ` set (join_queue n q) = insert n (qe_model ` set q)"
  by (induction q) auto

lemma join_entries: "\<forall>e \<in> set (join_queue n q). (\<exists>e' \<in> set q. qe_loading e = qe_loading e' \<and> qe_waiters e' \<le> qe_waiters e) \<or> \<not> qe_loading e \<and> qe_waiters e = 1"
proof (induction q)
  case (Cons x q)
  show ?case
  proof (cases "qe_model x = n")
    case False
    then show ?thesis using Cons by auto
  qed auto
qed simp

lemma join_basic: "distinct (map qe_model q) \<Longrightarrow> distinct (map qe_model (join_queue n q))"
proof (induction q)
  case (Cons e q)
  have "qe_model ` set (join_queue n q) = insert n (qe_model ` set q)" by (rule models_join)
  then show ?case using Cons by auto
qed simp

lemma q_ok_join: "q_ok q \<Longrightarrow> q_ok (join_queue n q)"
proof -
  assume q: "q_ok q"
  have "\<forall>e \<in> set (tl (join_queue n q)). \<not> qe_loading e"
    using q join_entries [of n "tl q"] by (cases q) (auto simp: q_ok_def)
  moreover have "\<forall>e \<in> set (join_queue n q). 0 < qe_waiters e" using q join_entries [of n q] by (force simp: q_ok_def)
  ultimately show ?thesis using q join_basic by (simp add: q_ok_def)
qed

lemma hd_join: "q \<noteq> [] \<Longrightarrow> qe_model (hd (join_queue n q)) = qe_model (hd q) \<and> qe_loading (hd (join_queue n q)) = qe_loading (hd q)"
  by (cases q) auto

lemma join_not_Nil [simp]: "join_queue n q \<noteq> []"
  by (cases q) auto

lemma waiters_leave: "distinct (map qe_model q) \<Longrightarrow> \<forall>e \<in> set q. 0 < qe_waiters e \<Longrightarrow> n \<in> qe_model ` set q \<Longrightarrow>
    waiters m (leave_queue n q) = waiters m q - of_bool (m = n)"
proof (induction q)
  case (Cons e q)
  have "waiters (qe_model e) q = 0" using Cons.prems(1) by (intro waiters_absent) (auto simp: image_iff)
  then show ?case using Cons by (cases "qe_model e = n"; cases "m = n") auto
qed simp

lemma leave_entries: "\<forall>e \<in> set (leave_queue n q). \<exists>e' \<in> set q. qe_loading e = qe_loading e' \<and> qe_model e = qe_model e' \<and> (qe_waiters e = qe_waiters e' \<or> 0 < qe_waiters e)"
proof (induction q)
  case (Cons x q)
  show ?case
  proof (cases "qe_model x = n")
    case True
    then show ?thesis by (cases "qe_waiters x \<le> 1") auto
  next
    case False
    then show ?thesis using Cons by auto
  qed
qed simp

lemma leave_distinct: "distinct (map qe_model q) \<Longrightarrow> distinct (map qe_model (leave_queue n q))"
proof (induction q)
  case (Cons e q)
  have "qe_model ` set (leave_queue n q) \<subseteq> qe_model ` set q" using leave_entries [of n q] by (force simp: image_iff)
  then show ?case using Cons by auto
qed simp

lemma q_ok_leave: "q_ok q \<Longrightarrow> q_ok (leave_queue n q)"
proof -
  assume q: "q_ok q"
  have "\<forall>e \<in> set (tl (leave_queue n q)). \<not> qe_loading e"
  proof (cases q)
    case (Cons e q')
    have "\<forall>e \<in> set q'. \<not> qe_loading e" using q Cons by (simp add: q_ok_def)
    moreover have "\<forall>e \<in> set (leave_queue n q'). \<not> qe_loading e" using calculation leave_entries [of n q'] by fastforce
    ultimately show ?thesis using Cons by (cases q') auto
  qed simp
  moreover have "\<forall>e \<in> set (leave_queue n q). 0 < qe_waiters e" using q leave_entries [of n q] by (force simp: q_ok_def)
  ultimately show ?thesis using q leave_distinct by (simp add: q_ok_def)
qed

text \<open>The head stays when its model still has a waiter.\<close>

lemma hd_leave: "q_ok (e # q) \<Longrightarrow> 0 < waiters (qe_model e) (leave_queue n (e # q)) \<Longrightarrow>
    leave_queue n (e # q) \<noteq> [] \<and> qe_model (hd (leave_queue n (e # q))) = qe_model e \<and> qe_loading (hd (leave_queue n (e # q))) = qe_loading e"
  using waiters_absent [of "qe_model e" q] by (auto simp: q_ok_def image_iff split: if_splits)

section \<open>The queue and its requests\<close>

definition queue_ok :: "queue_entry list \<Rightarrow> request list \<Rightarrow> bool" where
  "queue_ok q rs = (q_ok q \<and> (\<forall>m. waiters m q = cnt (\<lambda>r. rq_queued r \<and> rq_name r = m) rs) \<and>
     (\<forall>r \<in> set rs. rq_claimed r \<longrightarrow> rq_queued r \<and> q \<noteq> [] \<and> qe_model (hd q) = rq_name r \<and> qe_loading (hd q)) \<and> cnt rq_claimed rs \<le> 1)"

lemma queue_ok_append: "queue_ok q rs \<Longrightarrow> \<not> rq_queued r \<Longrightarrow> \<not> rq_claimed r \<Longrightarrow> queue_ok q (rs @ [r])"
  by (auto simp: queue_ok_def)

lemma set_update_cases: "x \<in> set (xs[i := y]) \<Longrightarrow> x = y \<or> x \<in> set xs"
  using set_update_subset_insert by fast

lemma queue_ok_same:
  assumes "queue_ok q rs" "i < length rs" "rq_name r = rq_name (rs ! i)" "rq_queued r = rq_queued (rs ! i)" "rq_claimed r = rq_claimed (rs ! i)"
  shows "queue_ok q (rs[i := r])"
proof -
  have "rs ! i \<in> set rs" using assms(2) by simp
  then show ?thesis using assms unfolding queue_ok_def
    by (auto simp: cnt_update dest!: set_update_cases)
qed

lemma queue_ok_join:
  assumes q: "queue_ok q rs" and i: "i < length rs" "\<not> rq_queued (rs ! i)" and r: "rq_name r = rq_name (rs ! i)" "rq_queued r" "\<not> rq_claimed r"
  shows "queue_ok (join_queue (rq_name r) q) (rs[i := r])"
proof -
  have c: "\<not> rq_claimed (rs ! i)" using q i by (auto simp: queue_ok_def)
  have "waiters m (join_queue (rq_name r) q) = cnt (\<lambda>r. rq_queued r \<and> rq_name r = m) (rs[i := r])" for m
    using q i r by (simp add: cnt_update queue_ok_def)
  moreover have "cnt rq_claimed (rs[i := r]) \<le> 1" using q i r c by (simp add: cnt_update queue_ok_def)
  moreover have "rq_queued x \<and> qe_model (hd (join_queue (rq_name r) q)) = rq_name x \<and> qe_loading (hd (join_queue (rq_name r) q))"
    if "x \<in> set (rs[i := r])" "rq_claimed x" for x
    using that r(3) q hd_join [of q] by (auto simp: queue_ok_def dest!: set_update_cases)
  ultimately show ?thesis using q q_ok_join by (simp add: queue_ok_def)
qed

lemma queue_ok_leave:
  assumes q: "queue_ok q rs" and i: "i < length rs" "rq_queued (rs ! i)" "\<not> rq_claimed (rs ! i)"
    and r: "rq_name r = rq_name (rs ! i)" "\<not> rq_queued r" "\<not> rq_claimed r"
  shows "queue_ok (leave_queue (rq_name r) q) (rs[i := r])"
proof -
  let ?q = "leave_queue (rq_name r) q"
  have qo: "distinct (map qe_model q)" "\<forall>e \<in> set q. 0 < qe_waiters e" "q_ok q" using q by (simp_all add: queue_ok_def q_ok_def)
  have "1 \<le> cnt (\<lambda>x. rq_queued x \<and> rq_name x = rq_name r) rs" by (rule cnt_pos [of "rs ! i"]) (use i r in auto)
  then have "rq_name r \<in> qe_model ` set q" using q waiters_absent [of "rq_name r" q] by (force simp: queue_ok_def)
  then have w: "waiters m ?q = cnt (\<lambda>r. rq_queued r \<and> rq_name r = m) (rs[i := r])" for m
    using waiters_leave [OF qo(1,2)] q i r by (simp add: cnt_update queue_ok_def)
  moreover have "cnt rq_claimed (rs[i := r]) \<le> 1" using q i r by (simp add: cnt_update queue_ok_def)
  moreover have "rq_queued x \<and> ?q \<noteq> [] \<and> qe_model (hd ?q) = rq_name x \<and> qe_loading (hd ?q)" if x: "x \<in> set (rs[i := r])" "rq_claimed x" for x
  proof -
    have "x \<in> set rs" using x r(3) by (auto dest!: set_update_cases)
    then obtain e q' where xq: "rq_queued x" "q = e # q'" "qe_model e = rq_name x" "qe_loading e"
      using q x(2) by (cases q) (auto simp: queue_ok_def)
    have "1 \<le> cnt (\<lambda>r. rq_queued r \<and> rq_name r = qe_model e) (rs[i := r])" by (rule cnt_pos [OF x(1)]) (use xq in auto)
    then show ?thesis using hd_leave [of e q' "rq_name r"] w qo(3) xq by auto
  qed
  ultimately show ?thesis using qo(3) q_ok_leave by (simp add: queue_ok_def)
qed

lemma queue_ok_claim:
  assumes q: "queue_ok (e # q) rs" and i: "i < length rs" "rq_queued (rs ! i)" "qe_model e = rq_name (rs ! i)" "\<not> qe_loading e"
    and r: "rq_name r = rq_name (rs ! i)" "rq_queued r" "rq_claimed r"
  shows "queue_ok (e\<lparr>qe_loading := True\<rparr> # q) (rs[i := r])"
proof -
  have n: "\<not> rq_claimed x" if "x \<in> set rs" for x using q that i(4) by (auto simp: queue_ok_def)
  then have "cnt rq_claimed rs = 0" by (simp add: cnt_def filter_empty_conv)
  then have "cnt rq_claimed (rs[i := r]) \<le> 1" using i r n by (simp add: cnt_update)
  moreover have "waiters m (e\<lparr>qe_loading := True\<rparr> # q) = cnt (\<lambda>r. rq_queued r \<and> rq_name r = m) (rs[i := r])" for m
    using q i r by (simp add: cnt_update queue_ok_def) metis
  ultimately show ?thesis using q n i r by (auto simp: queue_ok_def q_ok_def dest!: set_update_cases)
qed

lemma waiters_unclaim [simp]: "waiters m (unclaim n q) = waiters m q"
  by (induction q) auto

lemma queue_ok_unclaim:
  assumes q: "queue_ok q rs" and i: "i < length rs" "rq_claimed (rs ! i)" and r: "rq_name r = rq_name (rs ! i)" "rq_queued r" "\<not> rq_claimed r"
  shows "queue_ok (unclaim (rq_name r) q) (rs[i := r]) \<and> queue_ok q (rs[i := r])"
proof -
  have mem: "rs ! i \<in> set rs" using i by simp
  obtain e q' where e: "q = e # q'" "qe_model e = rq_name r" "rq_queued (rs ! i)" using q i mem r by (cases q) (auto simp: queue_ok_def)
  have n: "\<not> rq_claimed x" if "x \<in> set (rs[i := r])" for x
  proof
    assume c: "rq_claimed x"
    obtain j where j: "j < length rs" "(rs[i := r]) ! j = x" using \<open>x \<in> set (rs[i := r])\<close> by (auto simp: in_set_conv_nth)
    then have "j \<noteq> i" "rs ! j = x" using c r(3) i(1) by (auto simp: nth_list_update split: if_splits)
    then show False using cnt_le_one [of rq_claimed rs i j] q i j(1) c by (simp add: queue_ok_def)
  qed
  then have "cnt rq_claimed (rs[i := r]) = 0" by (simp add: cnt_def filter_empty_conv)
  moreover have "cnt (\<lambda>r. rq_queued r \<and> rq_name r = m) (rs[i := r]) = cnt (\<lambda>r. rq_queued r \<and> rq_name r = m) rs" for m
    using i r e(3) by (simp add: cnt_update)
  moreover have "waiters m q = cnt (\<lambda>r. rq_queued r \<and> rq_name r = m) rs" for m using q by (simp add: queue_ok_def)
  moreover have "q_ok q" "q_ok (unclaim (rq_name r) q)" using q e(1,2) by (auto simp: queue_ok_def q_ok_def)
  ultimately show ?thesis using n by (simp add: queue_ok_def)
qed

section \<open>Invariant of the system\<close>

definition pc_ok :: "request \<Rightarrow> bool" where
  "pc_ok r = (case rq_pc r of
     PcMeta \<Rightarrow> \<not> rq_queued r \<and> \<not> rq_claimed r
   | PcStopping st \<Rightarrow> \<not> rq_queued r \<and> \<not> rq_claimed r
   | PcJoin \<Rightarrow> \<not> rq_queued r \<and> \<not> rq_claimed r
   | PcReturn b \<Rightarrow> \<not> rq_queued r \<and> \<not> rq_claimed r
   | PcThrow \<Rightarrow> \<not> rq_queued r \<and> \<not> rq_claimed r
   | PcLoop \<Rightarrow> \<not> rq_claimed r
   | PcClaim b \<Rightarrow> rq_claimed r \<and> rq_queued r
   | _ \<Rightarrow> rq_claimed r = rq_queued r)"

definition step_ok :: "request list \<Rightarrow> nat \<Rightarrow> server_models \<times> request \<Rightarrow> bool" where
  "step_ok rs i = (\<lambda>(s, r). cap_ok s \<and> queue_ok (ms_queue s) (rs[i := r]))"

lemma step_ok_same:
  assumes "step_ok rs i (s, r)" "i < length rs" "keeps s s'" "rq_name r' = rq_name r" "rq_queued r' = rq_queued r" "rq_claimed r' = rq_claimed r"
  shows "step_ok rs i (s', r')"
proof -
  have "queue_ok (ms_queue s) ((rs[i := r])[i := r'])" by (rule queue_ok_same) (use assms in \<open>simp_all add: step_ok_def\<close>)
  then show ?thesis using assms(1,3) cap_ok_keeps by (auto simp: step_ok_def keeps_def)
qed

lemma step_ok_leave:
  assumes "step_ok rs i (s, r)" "i < length rs" "\<not> rq_claimed r"
  shows "step_ok rs i (leave_if_queued s r) \<and> \<not> rq_queued (snd (leave_if_queued s r)) \<and> \<not> rq_claimed (snd (leave_if_queued s r))"
proof (cases "rq_queued r")
  case True
  have "queue_ok (leave_queue (rq_name (r\<lparr>rq_queued := False\<rparr>)) (ms_queue s)) ((rs[i := r])[i := r\<lparr>rq_queued := False\<rparr>])"
    by (rule queue_ok_leave) (use assms True in \<open>simp_all add: step_ok_def\<close>)
  then show ?thesis using assms True by (simp add: leave_if_queued_def step_ok_def sched_leave_def)
qed (use assms in \<open>simp add: leave_if_queued_def\<close>)

lemma rq_return_ok:
  assumes "step_ok rs i (s, r)" "i < length rs" "\<not> rq_claimed r"
  shows "step_ok rs i (rq_return s r) \<and> pc_ok (snd (rq_return s r))"
  using step_ok_leave [OF assms] step_ok_same [OF _ assms(2) keeps_refl]
  by (auto simp: rq_return_def pc_ok_def split: prod.split)

lemma rq_throw_ok:
  assumes "step_ok rs i (s, r)" "i < length rs" "\<not> rq_claimed r"
  shows "step_ok rs i (rq_throw s r) \<and> pc_ok (snd (rq_throw s r))"
  using step_ok_leave [OF assms] step_ok_same [OF _ assms(2) keeps_tick]
  by (auto simp: rq_throw_def pc_ok_def split: prod.split)

lemma rq_join_ok:
  assumes "step_ok rs i (s, r)" "i < length rs" "\<not> rq_queued r"
  shows "step_ok rs i (rq_join s r) \<and> rq_queued (snd (rq_join s r)) \<and> \<not> rq_claimed (snd (rq_join s r)) \<and> rq_pc (snd (rq_join s r)) = rq_pc r"
proof -
  have c: "\<not> rq_claimed r" using assms by (auto simp: step_ok_def queue_ok_def set_update_memI)
  have "queue_ok (join_queue (rq_name (r\<lparr>rq_queued := True\<rparr>)) (ms_queue s)) ((rs[i := r])[i := r\<lparr>rq_queued := True\<rparr>])"
    by (rule queue_ok_join) (use assms c in \<open>simp_all add: step_ok_def\<close>)
  then have "step_ok rs i (sched_join (rq_name r) s, r\<lparr>rq_queued := True\<rparr>)" using assms by (simp add: step_ok_def sched_join_def)
  then show ?thesis using step_ok_same [OF _ assms(2) keeps_tick] c by (auto simp: rq_join_def)
qed

lemma loop_claim_ok:
  assumes r: "step_ok rs i (s, r)" "i < length rs" "\<not> rq_claimed r" "rq_pc r = PcLoop" and q: "status = SERVER_MODEL_STATUS_UNLOADED \<Longrightarrow> rq_queued r"
  shows "step_ok rs i (loop_claim stop status s r) \<and> pc_ok (snd (loop_claim stop status s r))"
proof (cases "stop \<or> status \<noteq> SERVER_MODEL_STATUS_UNLOADED \<or> \<not> fst (try_claim (rq_name r) s)")
  case True
  have "\<not> fst (try_claim (rq_name r) s) \<Longrightarrow> snd (try_claim (rq_name r) s) = s"
    by (auto simp: try_claim_def split: list.splits if_splits)
  then show ?thesis using True r rq_throw_ok [OF r(1-3)] by (auto simp: loop_claim_def pc_ok_def split: prod.splits)
next
  case False
  then obtain e q where e: "ms_queue s = e # q" "qe_model e = rq_name r" "\<not> qe_loading e"
    "try_claim (rq_name r) s = (True, s\<lparr>ms_queue := e\<lparr>qe_loading := True\<rparr> # q\<rparr>)"
    by (auto simp: try_claim_def split: list.splits if_splits)
  let ?r = "r\<lparr>rq_pc := PcHasModel, rq_claimed := True\<rparr>"
  have "queue_ok (e\<lparr>qe_loading := True\<rparr> # q) ((rs[i := r])[i := ?r])"
    by (rule queue_ok_claim) (use r e assms(5) False in \<open>simp_all add: step_ok_def\<close>)
  then show ?thesis using False e r q by (simp add: loop_claim_def step_ok_def pc_ok_def)
qed

lemma loop_round_ok:
  assumes r: "step_ok rs i (s, r)" "i < length rs" "\<not> rq_claimed r" "rq_pc r = PcLoop"
  shows "step_ok rs i (loop_round stop s r) \<and> pc_ok (snd (loop_round stop s r))"
proof (cases "find_model (rq_name r) s")
  case None
  then show ?thesis using rq_return_ok [OF r(1-3)] by (simp add: loop_round_def)
next
  case (Some inst)
  let ?st = "mt_status (in_meta inst)"
  have l: "step_ok rs i (s, r\<lparr>rq_saw_loading := True\<rparr>)" by (rule step_ok_same [OF r(1,2) keeps_refl]) simp_all
  note claim = loop_claim_ok [OF r, of ?st stop] loop_claim_ok [OF l r(2), of SERVER_MODEL_STATUS_LOADING stop]
  show ?thesis
  proof (cases "rq_name r \<in> ms_stopping s")
    case True
    obtain s1 r1 where sr: "(if \<not> rq_queued r then rq_join s r else (s, r)) = (s1, r1)" by fastforce
    have ok: "step_ok rs i (s1, r1) \<and> \<not> rq_claimed r1 \<and> rq_pc r1 = PcLoop"
      using sr r rq_join_ok [OF r(1,2)] by (cases "rq_queued r") auto
    then show ?thesis using Some True sr rq_throw_ok [of rs i s1 r1] r(2)
      by (auto simp: loop_round_def Let_def pc_ok_def)
  next
    case False
    then show ?thesis using Some r rq_return_ok [OF r(1-3)] rq_throw_ok [OF r(1-3)] claim
      by (simp add: loop_round_def Let_def)
  qed
qed

lemma load_end_ok:
  "\<not> rq_claimed r \<Longrightarrow> \<not> rq_queued r \<Longrightarrow> pc_ok (load_end ok r)" "rq_claimed r \<Longrightarrow> rq_queued r \<Longrightarrow> pc_ok (load_end ok r)"
  "rq_name (load_end ok r) = rq_name r" "rq_queued (load_end ok r) = rq_queued r" "rq_claimed (load_end ok r) = rq_claimed r"
  by (simp_all add: load_end_def pc_ok_def)

lemma req_step_ok:
  assumes c: "cap_ok s" "queue_ok (ms_queue s) rs" and i: "i < length rs" "pc_ok (rs ! i)" and st: "req_step env s (rs ! i) = Some x"
  shows "step_ok rs i x \<and> pc_ok (snd x)"
proof -
  let ?r = "rs ! i" and ?name = "rq_name (rs ! i)"
  have r: "step_ok rs i (s, ?r)" using c i by (simp add: step_ok_def)
  note same = step_ok_same [OF r i(1)] and refl = step_ok_same [OF r i(1) keeps_refl]
  show ?thesis
  proof (cases "rq_pc ?r")
    case PcMeta
    then show ?thesis using i(2) st by (auto simp: req_step_def pc_ok_def Let_def intro!: refl split: option.split)
  next
    case (PcStopping y)
    then show ?thesis using i(2) st by (auto simp: req_step_def pc_ok_def Let_def intro!: refl)
  next
    case PcJoin
    then have n: "\<not> rq_queued ?r" "\<not> rq_claimed ?r" using i(2) by (simp_all add: pc_ok_def)
    obtain s1 r1 where j: "rq_join s ?r = (s1, r1)" by fastforce
    have "step_ok rs i (s1, r1) \<and> \<not> rq_claimed r1" using rq_join_ok [OF r i(1) n(1)] j by simp
    then have "step_ok rs i (s1, r1\<lparr>rq_pc := PcLoop\<rparr>) \<and> pc_ok (r1\<lparr>rq_pc := PcLoop\<rparr>)"
      using step_ok_same [OF _ i(1) keeps_refl] by (auto simp: pc_ok_def)
    moreover have "step_ok rs i (s, ?r\<lparr>rq_pc := PcLoop\<rparr>) \<and> pc_ok (?r\<lparr>rq_pc := PcLoop\<rparr>)" using n by (auto simp: pc_ok_def intro!: refl)
    ultimately show ?thesis using st PcJoin j by (auto simp: req_step_def Let_def split: option.splits if_splits)
  next
    case PcLoop
    then show ?thesis using loop_round_ok [OF r i(1) _ PcLoop, of "se_stop env"] i(2) st by (auto simp: req_step_def pc_ok_def Let_def)
  next
    case PcHasModel
    then have n: "rq_claimed ?r = rq_queued ?r" using i(2) by (simp add: pc_ok_def)
    have "pc_ok (load_end False ?r)" using n load_end_ok(1,2) by (cases "rq_claimed ?r") auto
    moreover have "pc_ok (?r\<lparr>rq_pc := PcMeasure\<rparr>)" using n by (simp add: pc_ok_def)
    moreover have "step_ok rs i (s, load_end False ?r)" "step_ok rs i (s, ?r\<lparr>rq_pc := PcMeasure\<rparr>)" by (auto intro!: refl simp: load_end_ok)
    ultimately show ?thesis using st PcHasModel by (auto simp: req_step_def Let_def split: if_splits)
  next
    case PcMeasure
    then show ?thesis using i(2) st by (auto simp: req_step_def pc_ok_def Let_def intro!: refl same keeps_enqueue split: if_splits)
  next
    case PcSettle
    then show ?thesis using i(2) st by (auto simp: req_step_def pc_ok_def Let_def intro!: refl split: option.splits if_splits)
  next
    case PcRoom
    then show ?thesis using i(2) st by (auto simp: req_step_def pc_ok_def Let_def intro!: refl)
  next
    case (PcUnload v)
    then show ?thesis using i(2) st by (auto simp: req_step_def pc_ok_def Let_def intro!: same keeps_unload)
  next
    case (PcGone v)
    have "cap_ok (set_model v (model_at v s) s)" by (rule model_at_cap [OF c(1)]) simp
    then have "step_ok rs i (set_model v (model_at v s) s, ?r\<lparr>rq_pc := PcRoom\<rparr>)"
      using refl [of "?r\<lparr>rq_pc := PcRoom\<rparr>"] by (simp add: step_ok_def)
    then show ?thesis using PcGone i(2) st by (auto simp: req_step_def pc_ok_def Let_def split: if_splits)
  next
    case PcLoad
    obtain res s1 where l: "load_locked (se_load env) ?name s = (res, s1)" by fastforce
    have e: "x = (s1, load_end (res \<noteq> LoadThrows) ?r)" using st PcLoad l by (simp_all add: req_step_def)
    have "cap_ok s1 \<and> ms_queue s1 = ms_queue s" by (rule load_locked_cap [OF c(1) l])
    moreover have "step_ok rs i (s, load_end (res \<noteq> LoadThrows) ?r)" by (rule refl) (simp_all add: load_end_ok)
    moreover have "pc_ok (load_end (res \<noteq> LoadThrows) ?r)" using i(2) PcLoad load_end_ok(1,2) by (cases "rq_claimed ?r") (auto simp: pc_ok_def)
    ultimately show ?thesis using e by (simp add: step_ok_def)
  next
    case (PcClaim ok)
    let ?r' = "?r\<lparr>rq_pc := PcLoop, rq_claimed := False\<rparr>"
    have n: "rq_claimed ?r" "rq_queued ?r" using i(2) PcClaim by (simp_all add: pc_ok_def)
    have "queue_ok (unclaim (rq_name ?r') (ms_queue s)) (rs[i := ?r']) \<and> queue_ok (ms_queue s) (rs[i := ?r'])"
      by (rule queue_ok_unclaim) (use c i n in simp_all)
    then have "step_ok rs i (claim_done ?name ok s, ?r')" using c by (simp add: step_ok_def claim_done_def)
    then have "step_ok rs i (tick (claim_done ?name ok s), ?r')" by (rule step_ok_same [OF _ i(1) keeps_tick]) simp_all
    then show ?thesis using st PcClaim by (auto simp: req_step_def pc_ok_def)
  qed (use st in \<open>simp_all add: req_step_def\<close>)
qed

definition router_inv :: "server_models \<times> request list \<Rightarrow> bool" where
  "router_inv = (\<lambda>(s, rs). cap_ok s \<and> queue_ok (ms_queue s) rs \<and> (\<forall>r \<in> set rs. pc_ok r))"

lemma router_inv_keeps: "router_inv (s, rs) \<Longrightarrow> keeps s s' \<Longrightarrow> router_inv (s', rs)"
  using cap_ok_keeps by (auto simp: router_inv_def keeps_def)

lemma router_inv_cap: "router_inv (s, rs) \<Longrightarrow> cap_ok s' \<Longrightarrow> ms_queue s' = ms_queue s \<Longrightarrow> router_inv (s', rs)"
  by (simp add: router_inv_def)

lemma router_inv_new: "router_inv (s, rs) \<Longrightarrow> pc \<in> {PcMeta, PcHasModel} \<Longrightarrow> router_inv (s, rs @ [request_new name pc])"
  by (auto simp: router_inv_def request_new_def pc_ok_def intro!: queue_ok_append)

lemma child_exit_ok: "router_inv (s, rs) \<Longrightarrow> router_inv (on_child_exit spawn name proc role code s, rs)"
proof -
  assume i: "router_inv (s, rs)"
  have "cap_ok (update_status spawn name SERVER_MODEL_STATUS_UNLOADED code None s)"
    by (rule update_status_cap) (use i in \<open>auto simp: router_inv_def status_running_def\<close>)
  then show ?thesis using i router_inv_keeps [OF i] router_inv_cap [OF i]
    by (auto simp: on_child_exit_def keeps_intro split: option.split)
qed

lemma router_step_inv: "router_step c c' \<Longrightarrow> router_inv c \<Longrightarrow> router_inv c'"
proof (induction rule: router_step.induct)
  case (run i rs env s s' r')
  have "pc_ok (rs ! i)" using run by (simp add: router_inv_def)
  then have "step_ok rs i (s', r') \<and> pc_ok r'" using req_step_ok [OF _ _ run(1) _ run(2)] run(3) by (auto simp: router_inv_def)
  then show ?case using run(3) by (auto simp: router_inv_def step_ok_def dest!: set_update_cases)
next
  case (report name s i st rs spawn memory)
  have "name \<in> running s" using report by (simp add: running_def stat_def is_running_def)
  then show ?case using report by (intro router_inv_cap [OF report.prems] update_status_cap) (simp_all add: router_inv_def)
next
  case (begin_request s rs upd now name)
  show ?case by (rule router_inv_cap [OF begin_request])
    (use begin_request in \<open>auto simp: router_inv_def proxy_begin_def Let_def intro!: model_at_cap\<close>)
next
  case (end_request s rs name)
  have k: "keeps s (set_model name j s)" if "find_model name s = Some i" "mt_status (in_meta j) = mt_status (in_meta i)" for i j
    using that by (simp add: keeps_def fun_upd_idem find_stat)
  show ?case by (rule router_inv_keeps [OF end_request])
    (auto simp: proxy_end_def Let_def intro: keeps_refl k keeps_trans [OF k keeps_tick] split: option.split)
next
  case (downloaded name s i rs)
  show ?case by (rule router_inv_cap [OF downloaded(3)])
    (use downloaded in \<open>auto simp: router_inv_def download_done_def status_running_def intro!: cap_ok_set_model\<close>)
next
  case (remove name s i rs)
  have "cap_ok (s\<lparr>ms_mapping := merase name (ms_mapping s)\<rparr>)"
    by (rule cap_ok_sub [of s]) (use remove in \<open>auto simp: router_inv_def cap_ok_def running_def stat_def find_model_def\<close>)
  then show ?case using router_inv_cap [OF remove(3)] by simp
qed (auto intro: router_inv_new router_inv_keeps keeps_intro child_exit_ok)

lemma router_reach_inv: "router_reach c \<Longrightarrow> router_inv c"
proof (induction rule: router_reach.induct)
  case (init mapping models_max margin)
  have "running (router_init models_max margin mapping) = {}"
    using init by (auto simp: running_def stat_def find_model_def router_init_def is_running_def dest!: map_of_SomeD)
  then show ?case using init by (simp add: router_inv_def cap_ok_def queue_ok_def q_ok_def cnt_def) (simp add: router_init_def)
qed (rule router_step_inv)

end
