(* ===== verification/RouterProps.thy ===== *)
theory RouterProps
  imports RouterInv
begin

text \<open>
  The limit on running models, the request queue, what a tick evicts, the memory margin of a load and
  the retries of a load that fails.
\<close>

section \<open>Capacity and queue\<close>

text \<open>
  C29. However requests, direct loads, reports and exits of child processes interleave, the number of
  model instances that are loading, loaded or sleeping never exceeds a positive \<open>models_max\<close>.
\<close>

theorem models_max_respected:
  assumes "router_reach (s, rs)" "0 < ms_models_max s"
  shows "int (count_running s) \<le> ms_models_max s"
  using router_reach_inv [OF assms(1)] assms(2) count_running_card [of s] by (auto simp: router_inv_def cap_ok_def)

definition demo_env :: step_env where
  "demo_env = \<lparr>se_spawn = (\<lambda>_. None), se_load = \<lparr>le_port = 8081, le_now = 7, le_spawn = Some 42, le_old_alive = False\<rparr>, se_stop = False\<rparr>"

definition demo_router :: server_models where
  "demo_router = router_init 1 0 [(''m'', instance_new)]"

definition req_run :: "step_env \<Rightarrow> nat \<Rightarrow> server_models \<times> request \<Rightarrow> (server_models \<times> request) option" where
  "req_run env n c = ((\<lambda>x. Option.bind x (\<lambda>(s, r). req_step env s r)) ^^ n) (Some c)"

lemma req_run_reach: "req_run env n (s, r) = Some (s', r') \<Longrightarrow> router_reach (s, [r]) \<Longrightarrow> router_reach (s', [r'])"
proof (induction n arbitrary: s' r')
  case (Suc n)
  obtain s1 r1 where o: "req_run env n (s, r) = Some (s1, r1)" "req_step env s1 r1 = Some (s', r')"
    using Suc.prems(1) by (auto simp: req_run_def bind_eq_Some_conv)
  have "router_step (s1, [r1]) (s', [r1][0 := r'])" by (rule router_step.run [of _ _ env]) (use o(2) in simp_all)
  then show ?case using router_reach.step [OF Suc.IH [OF o(1) Suc.prems(2)]] by simp
qed (simp add: req_run_def)

lemma demo_start: "router_reach (demo_router, [request_new ''m'' pc])" if "pc \<in> {PcMeta, PcHasModel}"
proof -
  have "router_reach (demo_router, [])"
    unfolding demo_router_def by (rule router_reach.init) (simp_all add: instance_new_def is_running_def status_running_def)
  then show ?thesis using that router_reach.step router_step.ensure [of demo_router "[]" "''m''"] router_step.load [of demo_router "[]" "''m''"]
    by fastforce
qed

theorem models_max_respected_witness:
  "\<exists>s r. req_run demo_env 4 (demo_router, request_new ''m'' PcHasModel) = Some (s, r) \<and> count_running s = 1 \<and> int (count_running s) \<le> ms_models_max s"
proof -
  obtain s r where s: "req_run demo_env 4 (demo_router, request_new ''m'' PcHasModel) = Some (s, r)" "count_running s = 1" "ms_models_max s = 1"
    by (simp add: req_run_def numeral_eq_Suc req_step_def demo_router_def router_init_def request_new_def has_model_def find_model_def
        memory_enabled_def limits_exceeded_def has_capacity_def count_running_def instance_new_def is_running_def status_running_def
        load_locked_def model_at_def set_model_def demo_env_def on_spawned_def reserve_def memory_info_new_def send_cmd_def load_end_def Let_def)
  then show ?thesis using models_max_respected [OF req_run_reach [OF s(1) demo_start]] by auto
qed

text \<open>
  C30. The request queue has one entry per model, which counts exactly the requests that wait for the
  model, so it is empty when nobody waits; only its head is being loaded, and at most one request
  holds that claim, for the model at the head.
\<close>

theorem queue_one_loader:
  assumes "router_reach (s, rs)"
  shows "distinct (map qe_model (ms_queue s)) \<and> (\<forall>m. waiters m (ms_queue s) = cnt (\<lambda>r. rq_queued r \<and> rq_name r = m) rs) \<and>
    (queue_empty s \<longleftrightarrow> cnt rq_queued rs = 0) \<and> cnt rq_claimed rs \<le> 1 \<and>
    (\<forall>r \<in> set rs. rq_claimed r \<longrightarrow> rq_queued r \<and> \<not> queue_empty s \<and> qe_model (hd (ms_queue s)) = rq_name r \<and> qe_loading (hd (ms_queue s))) \<and>
    (\<forall>e \<in> set (tl (ms_queue s)). \<not> qe_loading e)"
proof -
  have q: "queue_ok (ms_queue s) rs" using router_reach_inv [OF assms] by (simp add: router_inv_def)
  have "queue_empty s \<longleftrightarrow> cnt rq_queued rs = 0"
  proof
    assume "queue_empty s"
    then have "cnt (\<lambda>r. rq_queued r \<and> rq_name r = m) rs = 0" for m using q by (simp add: queue_ok_def queue_empty_def)
    then have "\<not> rq_queued r" if "r \<in> set rs" for r using cnt_pos [OF that, of "\<lambda>x. rq_queued x \<and> rq_name x = rq_name r"] by auto
    then show "cnt rq_queued rs = 0" by (simp add: cnt_def filter_empty_conv)
  next
    assume "cnt rq_queued rs = 0"
    then have "cnt (\<lambda>r. rq_queued r \<and> rq_name r = m) rs = 0" for m by (auto simp: cnt_def filter_empty_conv)
    then have w: "waiters m (ms_queue s) = 0" for m using q by (simp add: queue_ok_def)
    have p: "\<forall>e \<in> set (ms_queue s). 0 < qe_waiters e" using q by (simp add: queue_ok_def q_ok_def)
    show "queue_empty s"
    proof (cases "ms_queue s")
      case (Cons e q')
      then show ?thesis using w [of "qe_model e"] p by simp
    qed (simp add: queue_empty_def)
  qed
  moreover have "distinct (map qe_model (ms_queue s))" "\<forall>e \<in> set (tl (ms_queue s)). \<not> qe_loading e" using q by (simp_all add: queue_ok_def q_ok_def)
  ultimately show ?thesis using q unfolding queue_ok_def queue_empty_def by blast
qed

theorem queue_one_loader_witness:
  "\<exists>s r. req_run demo_env 4 (demo_router, request_new ''m'' PcMeta) = Some (s, r) \<and> rq_claimed r \<and> waiters ''m'' (ms_queue s) = 1 \<and>
     qe_loading (hd (ms_queue s))"
proof -
  obtain s r where s: "req_run demo_env 4 (demo_router, request_new ''m'' PcMeta) = Some (s, r)" "rq_claimed r" "rq_name r = ''m''"
    by (simp add: req_run_def numeral_eq_Suc req_step_def demo_router_def router_init_def request_new_def get_meta_def find_model_def
        memory_enabled_def has_capacity_def count_running_def instance_new_def is_running_def status_running_def
        rq_join_def sched_join_def tick_def n_running_def n_stopping_def n_needed_def n_claimed_def evict_loop.simps
        loop_round_def loop_claim_def try_claim_def demo_env_def memory_info_new_def Let_def)
  have "router_reach (s, [r])" by (rule req_run_reach [OF s(1) demo_start]) simp
  note q = queue_one_loader [OF this]
  have "rq_queued r" "qe_loading (hd (ms_queue s))" "waiters (rq_name r) (ms_queue s) = 1"
    using q s(2) by (auto simp: cnt_def)
  then show ?thesis using s by auto
qed

section \<open>Eviction\<close>

definition idle :: "server_models \<Rightarrow> string \<times> instance_t \<Rightarrow> bool" where
  "idle s = (\<lambda>(name, i). in_req_count i = 0 \<and> is_ready_or_sleep (in_meta i) \<and> name \<notin> ms_stopping s \<and> find_entry name s = None)"

abbreviation used_at :: "string \<times> instance_t \<Rightarrow> int" where
  "used_at e \<equiv> mt_last_used (in_meta (snd e))"

text \<open>The idle models, least recently used first; \<open>sort_key\<close> is stable, so ties keep the order of the map.\<close>

definition evictable :: "server_models \<Rightarrow> string list" where
  "evictable s = map fst (sort_key used_at (filter (idle s) (ms_mapping s)))"

lemma hd_insort: "hd (insort_key f x ys) = (if ys = [] \<or> f x \<le> f (hd ys) then x else hd ys)"
  by (cases ys) auto

lemma insort_not_Nil [simp]: "insort_key f x ys \<noteq> []"
  by (cases ys) auto

lemma first_min:
  fixes f :: "'a \<Rightarrow> int"
  shows "fold (\<lambda>x a. if f x < f a then x else a) xs a = hd (sort_key f (a # xs))"
proof (induction xs arbitrary: a)
  case (Cons x xs)
  show ?case using Cons by (auto simp: hd_insort)
qed simp

lemma victim_fold_min:
  assumes "'''' \<notin> fst ` set xs" "fst a \<noteq> ''''" "idle s a"
  shows "fold (victim_step s) xs (fst a, used_at a) =
    (let b = fold (\<lambda>x a. if used_at x < used_at a then x else a) (filter (idle s) xs) a in (fst b, used_at b))"
  using assms
proof (induction xs arbitrary: a)
  case (Cons x xs)
  obtain n i where x: "x = (n, i)" by fastforce
  have "victim_step s x (fst a, used_at a) = (if idle s x \<and> used_at x < used_at a then (fst x, used_at x) else (fst a, used_at a))"
    using Cons.prems(2) by (auto simp: victim_step_def idle_def x)
  then show ?case using Cons.IH [of x] Cons.IH [of a] Cons.prems by auto
qed simp

lemma victim_fold_start:
  assumes "'''' \<notin> fst ` set xs"
  shows "fst (fold (victim_step s) xs ('''', 0)) = (case sort_key used_at (filter (idle s) xs) of [] \<Rightarrow> '''' | v # _ \<Rightarrow> fst v)"
  using assms
proof (induction xs)
  case (Cons x xs)
  obtain n i where x: "x = (n, i)" by fastforce
  have v: "victim_step s x ('''', 0) = (if idle s x then (fst x, used_at x) else ('''', 0))"
    by (auto simp: victim_step_def idle_def x)
  have nx: "fst x \<noteq> ''''" using Cons.prems by (metis image_insert insertCI list.simps(15))
  show ?case
  proof (cases "idle s x")
    case True
    have "fst (fold (victim_step s) xs (fst x, used_at x)) = fst (hd (sort_key used_at (x # filter (idle s) xs)))"
      using victim_fold_min [of xs x s] True Cons.prems nx first_min [of used_at] by (simp add: Let_def)
    then show ?thesis using v True by (auto split: list.split simp del: sort_key_simps dest!: arg_cong [of _ "[]" length])
  next
    case False
    then show ?thesis using v Cons by simp
  qed
qed simp

lemma pick_victim_eq:
  "'''' \<notin> fst ` set (ms_mapping s) \<Longrightarrow> pick_victim s = (case evictable s of [] \<Rightarrow> '''' | v # _ \<Rightarrow> v)"
  using victim_fold_start [of "ms_mapping s" s] by (auto simp: pick_victim_def evictable_def split: list.split)

lemma evictable_keys: "set (evictable s) \<subseteq> fst ` set (ms_mapping s)"
  by (auto simp: evictable_def)

lemma evictable_stop:
  assumes "msorted (ms_mapping s)" "evictable s = v # vs"
  shows "evictable (request_stop v b s) = vs"
proof -
  have v: "v \<in> set (map fst (ms_mapping s))" using evictable_keys [of s] assms(2) by auto
  have "idle (request_stop v b s) = (\<lambda>e. idle s e \<and> fst e \<noteq> v)"
    using v by (auto simp: idle_def find_entry_def request_stop_stopping fun_eq_iff)
  then have "evictable (request_stop v b s) = filter (\<lambda>n. n \<noteq> v) (evictable s)"
    by (simp add: evictable_def filter_map comp_def filter_sort filter_filter conj_commute)
  moreover have "distinct (evictable s)"
  proof -
    let ?xs = "sort_key used_at (filter (idle s) (ms_mapping s))"
    have "inj_on fst (set (ms_mapping s))" "distinct (ms_mapping s)" using msorted_distinct [OF assms(1)] by (simp_all add: distinct_map)
    then show ?thesis unfolding evictable_def by (simp add: distinct_map inj_on_subset)
  qed
  ultimately show ?thesis using assms(2) by (auto simp: filter_id_conv)
qed

lemma evict_loop_eq:
  assumes "msorted (ms_mapping s)" "'''' \<notin> fst ` set (ms_mapping s)"
  shows "evict_loop n_free needed s = fold (\<lambda>v. request_stop v True) (take (nat (needed - n_free)) (evictable s)) s"
  using assms
proof (induction n_free needed s rule: evict_loop.induct)
  case (1 n_free needed s)
  show ?case
  proof (cases "n_free < needed")
    case False
    then show ?thesis by (subst evict_loop.simps) simp
  next
    case True
    show ?thesis
    proof (cases "evictable s")
      case Nil
      then show ?thesis using pick_victim_eq [OF 1(3)] by (subst evict_loop.simps) simp
    next
      case (Cons v vs)
      have p: "pick_victim s = v" using pick_victim_eq [OF 1(3)] Cons by simp
      have "v \<in> fst ` set (ms_mapping s)" using evictable_keys [of s] Cons by auto
      then have v: "v \<noteq> ''''" using 1(3) by blast
      have n: "nat (needed - n_free) = Suc (nat (needed - (n_free + 1)))" using True by simp
      have "evict_loop n_free needed s = evict_loop (n_free + 1) needed (request_stop v True s)"
        using True p v by (subst evict_loop.simps) (simp add: Let_def)
      also have "\<dots> = fold (\<lambda>v. request_stop v True) (take (nat (needed - (n_free + 1))) vs) (request_stop v True s)"
        using 1(1) [OF True refl] p v 1(2,3) evictable_stop [OF 1(2) Cons] by simp
      also have "fold (\<lambda>v. request_stop v True) (take (nat (needed - (n_free + 1))) vs) (request_stop v True s) =
          fold (\<lambda>v. request_stop v True) (take (nat (needed - n_free)) (evictable s)) s"
        unfolding n Cons by simp
      finally show ?thesis .
    qed
  qed
qed

text \<open>Asking models to stop that run and are not asked yet.\<close>

lemma stop_fold:
  assumes "distinct vs" "set vs \<subseteq> fst ` set (ms_mapping s)" "set vs \<inter> ms_stopping s = {}"
  shows "fold (\<lambda>v. request_stop v True) vs s = s\<lparr>ms_stopping := ms_stopping s \<union> set vs,
    ms_cmds := ms_cmds s @ map (\<lambda>v. MonitorStop v (mt_stop_timeout (in_meta (model_at v s))) True) vs\<rparr>"
  using assms
proof (induction vs arbitrary: s)
  case (Cons v vs)
  obtain i where i: "find_model v s = Some i" using Cons.prems(2) by (cases "find_model v s") (auto simp: find_model_def map_of_eq_None_iff)
  have s: "request_stop v True s = s\<lparr>ms_stopping := insert v (ms_stopping s), ms_cmds := ms_cmds s @ [MonitorStop v (mt_stop_timeout (in_meta i)) True]\<rparr>"
    using i Cons.prems(3) by (simp add: request_stop_def send_cmd_def)
  have m: "model_at n (request_stop v True s) = model_at n s" for n by (simp add: model_at_def find_model_def)
  have "fold (\<lambda>v. request_stop v True) vs (request_stop v True s) = (request_stop v True s)\<lparr>ms_stopping := ms_stopping (request_stop v True s) \<union> set vs,
      ms_cmds := ms_cmds (request_stop v True s) @ map (\<lambda>w. MonitorStop w (mt_stop_timeout (in_meta (model_at w s))) True) vs\<rparr>"
    using Cons.IH [of "request_stop v True s"] Cons.prems m by (simp add: request_stop_stopping)
  then show ?case using s i by (simp add: model_at_def Un_commute)
qed simp

text \<open>
  C31. A tick with waiting requests asks exactly as many models to stop as slots are missing, or all idle
  ones when there are fewer: models that are loaded or asleep, serve no request, are wanted by no
  request and are not stopping yet, the least recently used first and in the order of their names
  among equals.  Nothing else changes.
\<close>

theorem tick_evicts_lru:
  assumes "msorted (ms_mapping s)" "'''' \<notin> fst ` set (ms_mapping s)" "0 < ms_models_max s" "\<not> queue_empty s"
    and "missing = n_needed s - (ms_models_max s - n_running s + n_stopping s - n_claimed s)"
    and "vs = take (nat missing) (evictable s)"
  shows "tick s = s\<lparr>ms_stopping := ms_stopping s \<union> set vs,
    ms_cmds := ms_cmds s @ map (\<lambda>v. MonitorStop v (mt_stop_timeout (in_meta (model_at v s))) True) vs\<rparr>"
proof -
  have "distinct (evictable s)"
  proof -
    have "inj_on fst (set (ms_mapping s))" "distinct (ms_mapping s)" using msorted_distinct [OF assms(1)] by (simp_all add: distinct_map)
    then show ?thesis unfolding evictable_def by (simp add: distinct_map inj_on_subset)
  qed
  then have "distinct vs" "set vs \<subseteq> set (evictable s)" unfolding assms(6) by (auto dest: in_set_takeD)
  moreover have "set (evictable s) \<inter> ms_stopping s = {}" by (auto simp: evictable_def idle_def)
  ultimately have "fold (\<lambda>v. request_stop v True) vs s = s\<lparr>ms_stopping := ms_stopping s \<union> set vs,
    ms_cmds := ms_cmds s @ map (\<lambda>v. MonitorStop v (mt_stop_timeout (in_meta (model_at v s))) True) vs\<rparr>"
    using evictable_keys [of s] by (intro stop_fold) blast+
  then show ?thesis
    using evict_loop_eq [OF assms(1,2)] assms(3-6) by (simp add: tick_def queue_empty_def)
qed

definition demo_model :: "server_model_status \<Rightarrow> int \<Rightarrow> instance_t" where
  "demo_model st used = \<lparr>in_subproc = Some 1, in_meta = \<lparr>mt_status = st, mt_last_used = used, mt_exit_code = 0, mt_stop_timeout = 5, mt_aliases = {},
     mt_memory = memory_info_new\<rparr>, in_req_count = 0\<rparr>"

definition demo_full :: server_models where
  "demo_full = (router_init 2 0 [(''a'', demo_model SERVER_MODEL_STATUS_LOADED 9), (''b'', demo_model SERVER_MODEL_STATUS_SLEEPING 4),
     (''c'', demo_model SERVER_MODEL_STATUS_UNLOADED 0)])\<lparr>ms_queue := [\<lparr>qe_model = ''c'', qe_waiters = 1, qe_loading = False\<rparr>]\<rparr>"

theorem tick_evicts_lru_witness:
  "ms_stopping (tick demo_full) = {''b''} \<and> ms_cmds (tick demo_full) = [MonitorStop ''b'' 5 True]"
proof -
  have "tick demo_full = demo_full\<lparr>ms_stopping := ms_stopping demo_full \<union> set [''b''],
    ms_cmds := ms_cmds demo_full @ map (\<lambda>v. MonitorStop v (mt_stop_timeout (in_meta (model_at v demo_full))) True) [''b'']\<rparr>"
    by (rule tick_evicts_lru [of _ 1]) code_simp+
  moreover have "ms_stopping demo_full = {}" "ms_cmds demo_full = []" "model_at ''b'' demo_full = demo_model SERVER_MODEL_STATUS_SLEEPING 4"
    by (simp_all add: demo_full_def router_init_def model_at_def find_model_def)
  ultimately show ?thesis by (simp add: demo_model_def)
qed

section \<open>Memory margin\<close>

lemma held_on_put:
  "msorted held \<Longrightarrow> map_of held name = None \<Longrightarrow>
   held_on dev (mput name devs held) = held_on dev held + (case map_of devs dev of None \<Rightarrow> 0 | Some n \<Rightarrow> i64_of_size n)"
  by (simp add: held_on_def sum_mput merase_absent)

lemma reserved_of:
  "map_of (reserved mem) dev = (if \<exists>d \<in> set (mem_devices mem). is_device d \<and> 0 < d_total d \<and> d_name d = dev
     then Some (dev_self (last (filter (\<lambda>d. is_device d \<and> 0 < d_total d \<and> d_name d = dev) (mem_devices mem)))) else None)"
proof -
  let ?f = "\<lambda>d devs. if is_device d \<and> 0 < d_total d then mput (d_name d) (dev_self d) devs else devs"
  have "map_of (fold ?f ds []) dev = (if \<exists>d \<in> set ds. is_device d \<and> 0 < d_total d \<and> d_name d = dev
     then Some (dev_self (last (filter (\<lambda>d. is_device d \<and> 0 < d_total d \<and> d_name d = dev) ds))) else None)" for ds
  proof (induction ds rule: rev_induct)
    case (snoc d ds)
    then show ?case by auto
  qed simp
  then show ?thesis by (simp add: reserved_def)
qed

lemma deficit_keys: "map_of (fold (deficit_step s) ds res) dev = None \<Longrightarrow> map_of res dev = None \<and>
    (\<forall>d \<in> set ds. is_device d \<and> d_total d \<noteq> 0 \<and> map_of (ms_device_memory s) (d_name d) \<noteq> None \<and> d_name d = dev \<longrightarrow>
      i64_of_size (dev_self d) \<le> available s dev - ms_memory_margin s * 1024 * 1024)"
proof (induction ds arbitrary: res)
  case (Cons d ds)
  have r: "map_of (deficit_step s d res) dev = None" and
    ds: "\<forall>d \<in> set ds. is_device d \<and> d_total d \<noteq> 0 \<and> map_of (ms_device_memory s) (d_name d) \<noteq> None \<and> d_name d = dev \<longrightarrow>
      i64_of_size (dev_self d) \<le> available s dev - ms_memory_margin s * 1024 * 1024"
    using Cons.IH [of "deficit_step s d res"] Cons.prems unfolding fold_simps by blast+
  then show ?case by (auto simp: deficit_step_def Let_def split: if_splits)
qed simp

text \<open>
  C32. The memory margin: when an instance is started while others run, what it is expected to need at
  its smallest context fits with the configured margin to spare, on every device whose memory is
  known: after the load is counted, the margin is still available there.  (The instance is not
  counted yet and has not reported its own usage.)
\<close>

theorem load_keeps_margin:
  assumes "msorted (ms_mapping s)" "msorted (ms_held s)" "memory_enabled s" "load_locked env name s = (LoadSpawned, s')"
    and "find_model name s = Some i" "mi_min (mt_memory (in_meta i)) = Some mem" "mi_effective (mt_memory (in_meta i)) = None"
    and "map_of (ms_held s) name = None" "0 < count_running s"
    and "distinct (map d_name (mem_devices mem))" "d \<in> set (mem_devices mem)" "is_device d" "d_total d \<noteq> 0"
    and "map_of (ms_device_memory s) (d_name d) \<noteq> None"
  shows "ms_memory_margin s * 1024 * 1024 \<le> available s' (d_name d)"
proof -
  let ?s = "set_model name i s"
  have m: "model_at name s = i" using assms(5) by (simp add: model_at_def)
  have "\<not> limits_exceeded ?s name" and s': "ms_device_memory s' = ms_device_memory s" "ms_held s' = mput name (reserved mem) (ms_held s)"
    using assms(4-8) m by (auto simp: load_locked_def Let_def on_spawned_def reserve_def send_cmd_def find_model_def split: if_splits option.splits)
  moreover have "\<exists>e \<in> set (ms_mapping ?s). is_running (in_meta (snd e))"
  proof -
    have "count_running ?s = count_running s"
      using assms(1,5) by (simp add: count_running_card running_def fun_upd_idem find_stat)
    then have "filter (\<lambda>e. is_running (in_meta (snd e))) (ms_mapping ?s) \<noteq> []" using assms(9) unfolding count_running_def by fastforce
    then show ?thesis unfolding filter_empty_conv by blast
  qed
  moreover have "memory_enabled ?s" using assms(3) by (simp add: memory_enabled_def)
  ultimately have "deficit ?s name = []" by (auto simp: limits_exceeded_def split: if_splits)
  then have none: "map_of (fold (deficit_step ?s) (mem_devices mem) []) (d_name d) = None" using assms(6) by (simp add: deficit_def)
  have av: "available ?s x = available s x" for x unfolding available_def set_model_fields ..
  have fit: "i64_of_size (dev_self d) \<le> available s (d_name d) - ms_memory_margin s * 1024 * 1024"
    using deficit_keys [of ?s "mem_devices mem" "[]" "d_name d"] assms(11-14) av none by simp
  have one: "filter (\<lambda>x. is_device x \<and> 0 < d_total x \<and> d_name x = d_name d) (mem_devices mem) = [d]"
  proof -
    obtain xs ys where l: "mem_devices mem = xs @ d # ys" using assms(11) by (auto simp: in_set_conv_decomp)
    then have "\<forall>x \<in> set xs \<union> set ys. d_name x \<noteq> d_name d" using assms(10) by (auto simp: image_iff)
    then have "filter (\<lambda>x. is_device x \<and> 0 < d_total x \<and> d_name x = d_name d) xs = []" "filter (\<lambda>x. is_device x \<and> 0 < d_total x \<and> d_name x = d_name d) ys = []"
      by (simp_all add: filter_empty_conv)
    then show ?thesis using assms(12,13) unfolding l by simp
  qed
  have "map_of (reserved mem) (d_name d) = Some (dev_self d)" unfolding reserved_of one using assms(11-13) by auto
  then have "held_on (d_name d) (ms_held s') = held_on (d_name d) (ms_held s) + i64_of_size (dev_self d)"
    using held_on_put [OF assms(2,8)] s'(2) by simp
  then show ?thesis using fit assms(14) s' by (auto simp: available_def)
qed

definition demo_device :: device_t where
  "demo_device = \<lparr>d_kind = ''device'', d_name = ''gpu'', d_total = 4194304, d_free = 4194304, d_model = 1000000, d_context = 40000, d_compute = 8576\<rparr>"

definition demo_memory :: server_models where
  "demo_memory = (router_init 0 1 [(''a'', demo_model SERVER_MODEL_STATUS_LOADED 9),
     (''b'', instance_new\<lparr>in_meta := (in_meta instance_new)\<lparr>mt_memory := memory_info_new\<lparr>mi_status := SERVER_MODEL_MEMORY_MEASURED,
        mi_min := Some \<lparr>mem_n_ctx = 512, mem_devices = [demo_device]\<rparr>\<rparr>\<rparr>\<rparr>)])
     \<lparr>ms_device_memory := [(''gpu'', \<lparr>dm_total = 4194304, dm_external = 0\<rparr>)], ms_held := [(''a'', [(''gpu'', 1048576)])]\<rparr>"

theorem load_keeps_margin_witness:
  "\<exists>s'. load_locked (se_load demo_env) ''b'' demo_memory = (LoadSpawned, s') \<and> 1048576 \<le> available s' ''gpu''"
proof -
  have f: "available demo_memory ''gpu'' = 3145728" "dev_self demo_device = 1048576" "is_device demo_device" "d_name demo_device = ''gpu''" "d_total demo_device = 4194304"
    by (simp_all add: demo_memory_def available_def held_on_def i64_of_size_def demo_device_def dev_self_def is_device_def)
  obtain i where i: "find_model ''b'' demo_memory = Some i" "mi_min (mt_memory (in_meta i)) = Some \<lparr>mem_n_ctx = 512, mem_devices = [demo_device]\<rparr>"
    "mi_effective (mt_memory (in_meta i)) = None" "mt_status (in_meta i) = SERVER_MODEL_STATUS_UNLOADED" "in_subproc i = None"
    by (simp add: demo_memory_def router_init_def find_model_def instance_new_def memory_info_new_def)
  have h: "map_of (ms_held demo_memory) ''b'' = None" "msorted (ms_held demo_memory)" "msorted (ms_mapping demo_memory)" "ms_memory_margin demo_memory = 1"
    "ms_models_max demo_memory = 0" "map_of (ms_device_memory demo_memory) ''gpu'' \<noteq> None" "0 < count_running demo_memory"
    by (simp_all add: demo_memory_def router_init_def less_char_def count_running_def demo_model_def is_running_def status_running_def)
  have av: "available (set_model ''b'' i demo_memory) ''gpu'' = 3145728" using f(1) unfolding available_def set_model_fields .
  obtain s' where s': "load_locked (se_load demo_env) ''b'' demo_memory = (LoadSpawned, s')"
    using i f h av by (simp add: load_locked_def model_at_def limits_exceeded_def has_capacity_def memory_enabled_def deficit_def deficit_step_def
        i64_of_size_def demo_env_def Let_def)
  have "ms_memory_margin demo_memory * 1024 * 1024 \<le> available s' (d_name demo_device)"
    by (rule load_keeps_margin [OF _ _ _ s' i(1-3)]) (use f h in \<open>simp_all add: memory_enabled_def\<close>)
  then show ?thesis using s' f h by simp
qed

section \<open>Retries\<close>

lemma mput_idem: "msorted xs \<Longrightarrow> map_of xs k = Some v \<Longrightarrow> mput k v xs = xs"
proof (induction k v xs rule: mput.induct)
  case (2 k v l w xs)
  have "l < k" if "l \<noteq> k" using 2(2,3) that by (force dest: map_of_SomeD)
  then show ?case using 2 by auto
qed simp

text \<open>
  C33. A load that fails for good is retried for ever: when the child of the model at the head of the
  queue cannot be started, the waiting request claims, fails to load and returns to the same state,
  in six critical sections without any wait, so it never ends (unless it is cancelled).
\<close>

theorem failed_load_retries:
  assumes "msorted (ms_mapping s)" "\<not> memory_enabled s" "has_capacity s" "find_model name s = Some i"
    and "mt_status (in_meta i) = SERVER_MODEL_STATUS_UNLOADED" "name \<notin> ms_stopping s"
    and "ms_queue s = [\<lparr>qe_model = name, qe_waiters = w, qe_loading = False\<rparr>]"
    and "r = \<lparr>rq_name = name, rq_pc = PcLoop, rq_queued = True, rq_did_load = False, rq_saw_loading = False, rq_claimed = False\<rparr>"
    and "\<not> se_stop env" "le_spawn (se_load env) = None \<or> le_port (se_load env) \<le> 0"
  shows "req_run env (6 * n) (s, r) = Some (s, r)"
proof -
  define c where "c = s\<lparr>ms_queue := [\<lparr>qe_model = name, qe_waiters = w, qe_loading = True\<rparr>]\<rparr>"
  have same: "find_model m c = find_model m s" "has_capacity c = has_capacity s" "memory_enabled c = memory_enabled s" "ms_queue c = [\<lparr>qe_model = name, qe_waiters = w, qe_loading = True\<rparr>]" for m
    by (simp_all add: c_def find_model_def has_capacity_def count_running_def memory_enabled_def)
  have idem: "set_model name i c = c" using assms(1,4) by (simp add: set_model_def c_def find_model_def mput_idem)
  have restored: "c\<lparr>ms_queue := [\<lparr>qe_model = name, qe_waiters = w, qe_loading = False\<rparr>]\<rparr> = s" using assms(7) by (simp add: c_def)
  have t: "tick s = s"
  proof (cases "ms_models_max s \<le> 0")
    case False
    then have "n_claimed s = 0" "n_needed s = 1" "n_running s < ms_models_max s" "0 \<le> n_stopping s"
      using assms(3,7) by (simp_all add: n_claimed_def n_needed_def n_running_def n_stopping_def has_capacity_def)
    then show ?thesis by (simp add: tick_def evict_loop.simps)
  qed (simp add: tick_def)
  have load: "load_locked (se_load env) name c = (LoadThrows, c)"
    using assms(3-5,10) idem same by (auto simp: load_locked_def model_at_def Let_def limits_exceeded_def)
  have claim: "req_step env s r = Some (c, r\<lparr>rq_pc := PcHasModel, rq_claimed := True\<rparr>)"
    using assms by (simp add: req_step_def loop_round_def loop_claim_def try_claim_def c_def Let_def)
  have fail: "req_step env c (r\<lparr>rq_pc := PcLoad, rq_claimed := True\<rparr>) = Some (c, r\<lparr>rq_pc := PcClaim False, rq_claimed := True\<rparr>)"
    using load assms(8) by (simp add: req_step_def load_end_def)
  have again: "req_step env c (r\<lparr>rq_pc := PcClaim False, rq_claimed := True\<rparr>) = Some (s, r)"
    using assms(8) same(4) restored t by (simp add: req_step_def claim_done_def)
  have room: "req_step env c (r\<lparr>rq_pc := PcHasModel, rq_claimed := True\<rparr>) = Some (c, r\<lparr>rq_pc := PcMeasure, rq_claimed := True\<rparr>)"
    "req_step env c (r\<lparr>rq_pc := PcMeasure, rq_claimed := True\<rparr>) = Some (c, r\<lparr>rq_pc := PcRoom, rq_claimed := True\<rparr>)"
    "req_step env c (r\<lparr>rq_pc := PcRoom, rq_claimed := True\<rparr>) = Some (c, r\<lparr>rq_pc := PcLoad, rq_claimed := True\<rparr>)"
    using assms(2,3,4,8) same by (simp_all add: req_step_def has_model_def limits_exceeded_def Let_def)
  have cycle: "((\<lambda>x. Option.bind x (\<lambda>(s, r). req_step env s r)) ^^ 6) (Some (s, r)) = Some (s, r)"
    by (simp add: numeral_eq_Suc claim room fail again)
  show ?thesis unfolding req_run_def by (induction n) (simp_all add: funpow_add cycle)
qed

theorem failed_load_retries_witness:
  "\<exists>s. router_reach (s, []) \<and> (\<exists>r. rq_pc r = PcLoop \<and>
     req_run (demo_env\<lparr>se_load := (se_load demo_env)\<lparr>le_spawn := None\<rparr>\<rparr>) (6 * 1000) (fst (rq_join s (request_new ''m'' PcLoop)), r) =
       Some (fst (rq_join s (request_new ''m'' PcLoop)), r))"
proof -
  let ?s = "demo_router\<lparr>ms_queue := [\<lparr>qe_model = ''m'', qe_waiters = 1, qe_loading = False\<rparr>]\<rparr>"
  let ?r = "\<lparr>rq_name = ''m'', rq_pc = PcLoop, rq_queued = True, rq_did_load = False, rq_saw_loading = False, rq_claimed = False\<rparr>"
  have j: "fst (rq_join demo_router (request_new ''m'' PcLoop)) = ?s"
    by (simp add: rq_join_def sched_join_def tick_def n_running_def n_stopping_def n_needed_def n_claimed_def evict_loop.simps count_running_def
        demo_router_def router_init_def request_new_def instance_new_def is_running_def status_running_def)
  have "req_run (demo_env\<lparr>se_load := (se_load demo_env)\<lparr>le_spawn := None\<rparr>\<rparr>) (6 * 1000) (?s, ?r) = Some (?s, ?r)"
    by (rule failed_load_retries [where name = "''m''" and i = instance_new and w = 1])
      (simp_all add: demo_router_def router_init_def memory_enabled_def has_capacity_def count_running_def find_model_def instance_new_def
        is_running_def status_running_def demo_env_def)
  moreover have "router_reach (demo_router, [])"
    unfolding demo_router_def by (rule router_reach.init) (simp_all add: instance_new_def is_running_def status_running_def)
  ultimately show ?thesis using j by (intro exI [of _ demo_router] conjI exI [of _ ?r]) simp_all
qed

end
