(* ===== verification/Spec2Isabelle.thy ===== *)
theory Spec2Isabelle
  imports BatchProps RecProps BudgetProps GrammarText GrammarCases RouterProps
begin

text \<open>
  A verification development for the C++ core of the repository: the memory and batch layer of the
  llama library (\<open>src/llama/llama.cpp/src\<close>), the text matching it shares with the samplers
  (\<open>common\<close>), and the router that runs several models (\<open>tools/server\<close>).

  Parts and theories (paths below \<open>src/llama/llama.cpp\<close>).

  \<open>Prelude\<close>: the option monad for code that may abort, loops as \<open>foldM\<close>, total correctness \<open>wp\<close>,
  vectors with checked access, 32-bit arithmetic.  \<open>StdMap\<close>: a \<open>std::map\<close> as its sorted entry list.

  \<open>KvCells\<close>, \<open>KvCellQueries\<close>, \<open>KvCellOps\<close>: \<open>src/llama-kv-cells.h\<close>, the metadata of the KV cells with
  the indexes \<open>used\<close>, \<open>seq_pos\<close> and \<open>seq_bits\<close>.  The lemmas show that every operation keeps the
  indexes equal to what the cell vectors say (\<open>cells_wf\<close>), that no assertion fails and no vector is
  left when the conditions at the operations are met (\<open>cells_pre\<close>, which for \<open>grow\<close> asks for more than the
  code does), what each query returns, and that saving and restoring cells is a round trip.

  \<open>MemoryInterface\<close>: the contract \<open>llama_memory_i\<close> is used under, as the locale \<open>seq_memory\<close>.
  \<open>KvCache\<close>, \<open>KvSeq\<close>: the sequence operations of \<open>src/llama-kv-cache.cpp\<close> on all streams, with the
  copy-on-write guard; each changes exactly the cells it should (\<open>kv_mapped\<close>), by one sweep lemma
  (locale \<open>cell_sweep\<close>, interpreted for each loop).  \<open>KvSlots\<close>, \<open>KvFind\<close>, \<open>KvApply\<close>, \<open>KvPrepare\<close>:
  \<open>find_slot\<close>, \<open>apply_ubatch\<close> and \<open>prepare\<close>: the slot is the first fit, the tokens land in it and
  nothing else changes, and without a sliding window the trial run of \<open>prepare\<close> is undone.

  \<open>Ubatch\<close>, \<open>BatchExt\<close>, \<open>BatchAllocr\<close>, \<open>BatchSplit\<close>, \<open>BatchFacts\<close>, \<open>BatchInit\<close>, \<open>BatchParts\<close>,
  \<open>BatchEqual\<close>, \<open>BatchReach\<close>, \<open>BatchProps\<close>: \<open>src/llama-batch.{h,cpp}\<close>: building a batch through the API calls,
  the checks of \<open>llama_batch_allocr::init\<close>, and the splits into micro-batches, which end, use every
  token once, respect sequences and keep their tails together.  \<open>KvInitBatch\<close> composes both halves: \<open>init_batch\<close> of the cache.

  \<open>RecMem\<close>, \<open>RecSlot\<close>: \<open>src/llama-memory-recurrent.{h,cpp}\<close>, the memory of recurrent models: \<open>RecMem\<close>
  has the cells, the sequence operations with the rollback by snapshots and the queries, \<open>RecSlot\<close> has
  \<open>find_slot\<close>, loop by loop, \<open>prepare\<close>, \<open>init_batch\<close> and the context with \<open>s_copy\<close>.  \<open>RecFacts\<close> has the
  invariant \<open>rec_inv\<close> (tails and sequence sets are inverse to each other); \<open>RecSeq\<close> shows that every
  sequence operation keeps it and interprets \<open>rollback_memory\<close>, the weaker contract of a memory that
  may refuse to cut a sequence, of which \<open>seq_memory\<close> is an extension (\<open>sublocale\<close>).  \<open>rec_new\<close> keeps the number of snapshots of a
  memory without layers, as the code does.  \<open>RecPlace\<close>,
  \<open>RecAssign\<close>, \<open>RecGather\<close>, \<open>RecFind\<close> follow \<open>find_slot\<close>: shared ids leave their cells, every sequence
  gets a cell of its own, the cells are gathered, filled, and their sources staged; \<open>slot_result\<close> is
  the specification.  \<open>RecProps\<close> has the properties.

  \<open>Unicode\<close>, \<open>Trie\<close>, \<open>TrieFacts\<close>, \<open>AhoCorasick\<close>: \<open>common/unicode.cpp\<close> and \<open>common/trie.cpp\<close>: UTF-8
  parsing and encoding, the trie, and the automaton, whose construction ends and which finds the
  longest word a text ends with.  \<open>ReasoningBudget\<close>, \<open>BudgetProps\<close>: \<open>common/reasoning-budget.cpp\<close>, the
  sampler that limits a reasoning block: it activates on a start sequence, leaves the block within
  an exact number of tokens per state and forces the end sequence token by token.

  \<open>Grammar\<close>: \<open>src/llama-grammar.{h,cpp}\<close>, the engine that keeps generated text inside a grammar: a set
  of pushdown stacks of positions in the rules, advanced by code points and tokens, the check for left
  recursion, the mask over the candidates level by level, triggers and \<open>ollama\<close>'s own vocabulary.
  \<open>GrammarStacks\<close> shows what \<open>advance_stack\<close> computes (the final stacks the expansion of references
  reaches) and that it ends when the expansion does, by the multiset order on its work list;
  \<open>GrammarLang\<close> defines the language of the rules (\<open>gen\<close>, \<open>rule_lang\<close>) and shows that the stacks are its
  derivatives; \<open>GrammarRec\<close> that a clean run of \<open>detect_left_recursion\<close> makes the expansion end;
  \<open>GrammarReject\<close>, \<open>GrammarMask\<close> that the levels and the mask compute the reference \<open>keeps_from\<close>.
  \<open>GrammarParser\<close> is the parser of grammar texts, with its exceptions as \<open>None\<close> and its loops over the
  text as \<open>text_loop\<close>; \<open>GrammarParse\<close> shows that every turn consumes text and that the rules built are
  well-formed with all references named.  \<open>GrammarProps\<close> and \<open>GrammarText\<close> have the properties,
  \<open>GrammarCases\<close> grammars outside their hypotheses.

  \<open>ModelSched\<close>, \<open>ModelRouter\<close>, \<open>RouterFacts\<close>, \<open>RouterInv\<close>, \<open>RouterProps\<close>:
  \<open>tools/server/server-models-sched.cpp\<close> and the loading half of \<open>server-models.cpp\<close>.  Critical
  sections are functions on the state; requests are programs of critical sections, interleaved by
  the step relation \<open>router_step\<close> with the reports and exits of child processes.  Invariants by rule
  induction: the limit on running models, the exact count of waiters, a single loader.  The exit
  of a child (\<open>on_child_exit\<close>), which takes the lock twice, is one step.

  Bounds and termination.  Loops over a fixed range are folds; a loop with a decreasing measure is a
  \<open>function\<close> with its termination proof; the search loop of \<open>find_slot\<close>, the repeated splits, the
  loops of the automaton, the expansion of grammar stacks and the levels of the mask are \<open>partial_function (option)\<close>, and the properties state that they return.
  The only fuel is the depth limit the code itself has in \<open>detect_left_recursion\<close>, 256 levels.  Signed 32-bit arithmetic is checked (\<open>i32\<close>), unsigned arithmetic wraps where the
  code can wrap; sequence ids are bounded by \<open>LLAMA_MAX_SEQ\<close> = 256.

  Not modelled.  Tensors, graphs, kernels and buffers (ggml), floating-point sampling, files, sockets,
  HTTP and JSON, logging; the tokenizers, chat templates, \<open>std::regex\<close> (a trigger
  pattern is its search function); the specialised and
  hybrid caches; saving and loading the state of a recurrent memory; the reload of the model list of the router; the Go, TypeScript and Python parts of
  the repository.  Values the code takes from these parts are arguments of the definitions.
\<close>

end
